(* ===== verification/Prelude.thy ===== *)
theory Prelude
  imports Main "HOL-Library.Multiset" "HOL-Library.Sublist" "HOL-Library.AList"
begin

text \<open>
  Generic facts shared by the components: folds of an associative operation, list and
  option lemmas, and the collections the component theories add their rules to.
  Nothing in this theory models code.
\<close>

named_theorems cell_simps
  \<comment> \<open>evaluation of the guarded cell operations\<close>

named_theorems op_defs
  \<comment> \<open>definitions of a component's operations, unfolded by invariant proofs\<close>

named_theorems inv_intros
  \<comment> \<open>preservation lemmas of a component's invariant\<close>

section \<open>Folds\<close>

lemma foldl_assoc_head:
  assumes "\<And>a b c. f (f a b) c = f a (f b c)"
  shows "foldl f (f s a) xs = f s (foldl f a xs)"
  by (induction xs arbitrary: a) (auto simp: assms)

lemma foldl_filter:
  "foldl f s (filter P xs) = foldl (\<lambda>acc x. if P x then f acc x else acc) s xs"
  by (induction xs arbitrary: s) auto

lemma foldl_concat: "foldl f s (concat xss) = foldl (foldl f) s xss"
  by (induction xss arbitrary: s) auto

section \<open>Lists\<close>

lemma length_filter_less_if:
  "x \<in> set xs \<Longrightarrow> \<not> P x \<Longrightarrow> length (filter P xs) < length xs"
  by (rule length_filter_less)

lemma sorted_wrt_snoc:
  "sorted_wrt R (xs @ [x]) \<longleftrightarrow> sorted_wrt R xs \<and> (\<forall>y\<in>set xs. R y x)"
  by (auto simp: sorted_wrt_append)

lemma last_snoc_butlast: "xs \<noteq> [] \<Longrightarrow> butlast xs @ [last xs] = xs"
  by simp

lemma take_drop_split: "n \<le> length xs \<Longrightarrow> length (take n xs) = n"
  by simp

text \<open>The first index at which a predicate holds, as \<^verbatim>\<open>next(i for i, x in enumerate(xs) if P(x))\<close>.\<close>

fun index_where :: "('a \<Rightarrow> bool) \<Rightarrow> 'a list \<Rightarrow> nat option" where
  "index_where P [] = None"
| "index_where P (x # xs) = (if P x then Some 0 else map_option Suc (index_where P xs))"

lemma index_where_None: "index_where P xs = None \<longleftrightarrow> (\<forall>x\<in>set xs. \<not> P x)"
  by (induction xs) auto

lemma index_where_Some:
  "index_where P xs = Some i \<longleftrightarrow> i < length xs \<and> P (xs ! i) \<and> (\<forall>j<i. \<not> P (xs ! j))"
proof (induction xs arbitrary: i)
  case (Cons x xs)
  show ?case by (cases i) (use Cons in \<open>auto simp: All_less_Suc2\<close>)
qed simp

text \<open>A list as a Python list: \<^verbatim>\<open>pop(i)\<close> and \<^verbatim>\<open>insert(i, x)\<close> at an index in range.\<close>

definition list_pop :: "nat \<Rightarrow> 'a list \<Rightarrow> 'a list" where
  "list_pop i xs = take i xs @ drop (Suc i) xs"

definition list_insert :: "nat \<Rightarrow> 'a \<Rightarrow> 'a list \<Rightarrow> 'a list" where
  "list_insert i x xs = take i xs @ x # drop i xs"

lemma removeAll_absent: "x \<notin> set xs \<Longrightarrow> removeAll x xs = xs"
  by (simp add: removeAll_id)

section \<open>Association lists as dictionaries\<close>

lemma set_delete_subset: "set (AList.delete k xs) \<subseteq> set xs"
  by (auto simp: AList.delete_eq)

lemma update_fresh: "k \<notin> fst ` set xs \<Longrightarrow> AList.update k v xs = xs @ [(k, v)]"
  by (induction xs) auto

lemma set_update_subset: "set (AList.update k v xs) \<subseteq> insert (k, v) (set xs)"
  by (induction xs) auto

lemma map_of_mapped_values:
  "map_of (map (\<lambda>(key, w). (key, g key w)) dict) key = map_option (g key) (map_of dict key)"
  by (induction dict) auto

section \<open>Searching a list\<close>

lemma find_mem: "List.find P xs = Some x \<Longrightarrow> x \<in> set xs \<and> P x"
  by (induction xs) (auto split: if_splits)

lemma find_exists: "y \<in> set xs \<Longrightarrow> P y \<Longrightarrow> \<exists>x. List.find P xs = Some x"
  by (induction xs) auto

section \<open>Sums over lists of integers\<close>

lemma sum_list_update_int:
  "i < length xs \<Longrightarrow> sum_list (xs[i := (v::int)]) = sum_list xs - xs ! i + v"
  by (induction xs arbitrary: i) (auto split: nat.split)

section \<open>Division steps\<close>

lemma div_mod_next:
  assumes "0 \<le> r" and "r < (m::int)"
  shows "(m * q + r + 1) div m = (if r + 1 \<ge> m then q + 1 else q)"
    and "(m * q + r + 1) mod m = (if r + 1 \<ge> m then 0 else r + 1)"
proof -
  have eq: "m * q + r + 1 = m * (if r + 1 \<ge> m then q + 1 else q) + (if r + 1 \<ge> m then 0 else r + 1)"
    using assms by (simp add: distrib_left)
  show "(m * q + r + 1) div m = (if r + 1 \<ge> m then q + 1 else q)"
    by (rule int_div_pos_eq [OF eq]) (use assms in auto)
  show "(m * q + r + 1) mod m = (if r + 1 \<ge> m then 0 else r + 1)"
    by (rule int_mod_pos_eq [OF eq]) (use assms in auto)
qed

lemma div_mod_step:
  assumes "0 < (m::int)"
  shows "(a + 1) div m = (if a mod m + 1 \<ge> m then a div m + 1 else a div m)"
    and "(a + 1) mod m = (if a mod m + 1 \<ge> m then 0 else a mod m + 1)"
  using div_mod_next [of "a mod m" m "a div m"] assms by simp_all

lemma le_div_mult:
  assumes "0 < (p::int)"
  shows "k \<le> a div p \<longleftrightarrow> k * p \<le> a"
proof
  assume "k \<le> a div p"
  then have "k * p \<le> a div p * p" using assms by (simp add: mult_right_mono)
  also have "\<dots> \<le> a" using assms div_mult_mod_eq [of a p] pos_mod_sign [of p a] by linarith
  finally show "k * p \<le> a" .
next
  assume "k * p \<le> a"
  then have "k * p div p \<le> a div p" using assms by (rule zdiv_mono1)
  then show "k \<le> a div p" using assms by simp
qed

end
