(* ===== verification/Cells.thy ===== *)
theory Cells
  imports Prelude
begin

text \<open>
  The writable value of the library, \<^verbatim>\<open>Source\<close> (alias \<^verbatim>\<open>Cell\<close>) of
  \<^verbatim>\<open>src/lazily/cell.py\<close>, as the components above the kernel see it: a
  stored value behind the \<^verbatim>\<open>!=\<close> guard. The field \<open>c_notified\<close> counts
  the change notifications (\<^verbatim>\<open>notify_change\<close>) the cell has sent; what a
  notification does to the dependents is the subject of the theory Kernel.
\<close>

datatype cell_error = DisposedError

record 'a cell =
  c_value :: 'a
  c_disposed :: bool
  c_notified :: nat

definition cell_new :: "'a \<Rightarrow> 'a cell" where
  "cell_new v = \<lparr>c_value = v, c_disposed = False, c_notified = 0\<rparr>"

definition cell_get :: "'a cell \<Rightarrow> cell_error + 'a" where
  "cell_get c = (if c_disposed c then Inl DisposedError else Inr (c_value c))"

definition cell_set :: "'a cell \<Rightarrow> 'a \<Rightarrow> 'a cell" where
  "cell_set c v =
     (if c_disposed c then c
      else let old = c_value c; c' = c\<lparr>c_value := v\<rparr>
           in if c_value c' \<noteq> old then c'\<lparr>c_notified := Suc (c_notified c')\<rparr> else c')"

definition cell_dispose :: "'a cell \<Rightarrow> 'a cell" where
  "cell_dispose c = (if c_disposed c then c else c\<lparr>c_disposed := True\<rparr>)"

definition live :: "'a cell \<Rightarrow> bool" where
  "live c \<longleftrightarrow> \<not> c_disposed c"

section \<open>Laws of the guarded write\<close>

lemma cell_new_simps [simp, cell_simps]:
  "c_value (cell_new v) = v" "live (cell_new v)" "c_notified (cell_new v) = 0"
  by (simp_all add: cell_new_def live_def)

lemma cell_set_value [simp, cell_simps]: "live c \<Longrightarrow> c_value (cell_set c v) = v"
  by (simp add: cell_set_def Let_def live_def)

lemma cell_set_live [simp, cell_simps]: "live (cell_set c v) = live c"
  by (simp add: cell_set_def Let_def live_def)

lemma cell_set_notified:
  "live c \<Longrightarrow>
     c_notified (cell_set c v) = (if v = c_value c then c_notified c else Suc (c_notified c))"
  by (simp add: cell_set_def Let_def live_def)

lemma cell_set_same: "cell_set c (c_value c) = c"
  by (cases c) (simp add: cell_set_def Let_def)

lemma cell_set_set: "live c \<Longrightarrow> c_value (cell_set (cell_set c u) v) = v"
  by simp

lemma cell_get_set: "live c \<Longrightarrow> cell_get (cell_set c v) = Inr v"
  using cell_set_live [of c v] by (simp add: cell_get_def live_def del: cell_set_live)

lemma cell_set_disposed: "\<not> live c \<Longrightarrow> cell_set c v = c"
  by (simp add: cell_set_def live_def)

lemma cell_get_dispose: "cell_get (cell_dispose c) = Inl DisposedError"
  by (simp add: cell_get_def cell_dispose_def)

fun cell_writes :: "'a cell \<Rightarrow> 'a list \<Rightarrow> 'a cell" where
  "cell_writes c [] = c"
| "cell_writes c (v # vs) = cell_writes (cell_set c v) vs"

fun value_changes :: "'a \<Rightarrow> 'a list \<Rightarrow> nat" where
  "value_changes u [] = 0"
| "value_changes u (v # vs) = (if v = u then 0 else 1) + value_changes v vs"

lemma cell_writes_live [simp]: "live (cell_writes c vs) = live c"
  by (induction vs arbitrary: c) auto

lemma cell_writes_value: "live c \<Longrightarrow> c_value (cell_writes c vs) = last (c_value c # vs)"
  by (induction vs arbitrary: c) auto

text \<open>A run of writes notifies once per change of the stored value, never for an equal write.\<close>

lemma cell_writes_notified:
  "live c \<Longrightarrow> c_notified (cell_writes c vs) = c_notified c + value_changes (c_value c) vs"
  by (induction vs arbitrary: c) (auto simp: cell_set_notified)

end
