(* ===== verification/Merge.thy ===== *)
theory Merge
  imports Cells
begin

text \<open>
  The merge algebra of \<^verbatim>\<open>src/lazily/merge.py\<close>: a policy is a merge function
  with property flags. The locale \<open>merge_law\<close> is the contract that every client of a
  policy (the relay, the spill store, the keyed relay) relies on: the merge is associative
  and the flags tell the truth. The five canonical policies are its interpretations.
\<close>

record 'a merge_policy =
  mp_name :: string
  mp_merge :: "'a \<Rightarrow> 'a \<Rightarrow> 'a"
  mp_commutative :: bool
  mp_idempotent :: bool
  mp_conflates :: bool

section \<open>The canonical policies\<close>

definition KeepLatest :: "'a merge_policy" where
  "KeepLatest = \<lparr>mp_name = ''KeepLatest'', mp_merge = (\<lambda>_ op. op),
     mp_commutative = False, mp_idempotent = True, mp_conflates = True\<rparr>"

definition Sum_policy :: "int merge_policy" where
  "Sum_policy = \<lparr>mp_name = ''Sum'', mp_merge = (\<lambda>old op. old + op),
     mp_commutative = True, mp_idempotent = False, mp_conflates = True\<rparr>"

definition Max_policy :: "'a::linorder merge_policy" where
  "Max_policy = \<lparr>mp_name = ''Max'', mp_merge = (\<lambda>old op. if op > old then op else old),
     mp_commutative = True, mp_idempotent = True, mp_conflates = True\<rparr>"

definition SetUnion :: "'a set merge_policy" where
  "SetUnion = \<lparr>mp_name = ''SetUnion'', mp_merge = (\<lambda>old op. old \<union> op),
     mp_commutative = True, mp_idempotent = True, mp_conflates = True\<rparr>"

definition RawFifo :: "'a list merge_policy" where
  "RawFifo = \<lparr>mp_name = ''RawFifo'', mp_merge = (\<lambda>old op. old @ op),
     mp_commutative = False, mp_idempotent = False, mp_conflates = False\<rparr>"

lemmas policy_defs = KeepLatest_def Sum_policy_def Max_policy_def SetUnion_def RawFifo_def

section \<open>The contract of a policy\<close>

text \<open>Folding a sequence of operations, oldest first, into a state.\<close>

definition fold_ops :: "'a merge_policy \<Rightarrow> 'a \<Rightarrow> 'a list \<Rightarrow> 'a" where
  "fold_ops p s xs = foldl (mp_merge p) s xs"

lemma fold_ops_simps [simp]:
  "fold_ops p s [] = s"
  "fold_ops p s (x # xs) = fold_ops p (mp_merge p s x) xs"
  by (simp_all add: fold_ops_def)

lemma fold_ops_append [simp]: "fold_ops p s (xs @ ys) = fold_ops p (fold_ops p s xs) ys"
  by (simp add: fold_ops_def)

locale merge_law =
  fixes p :: "'a merge_policy"
  assumes assoc: "mp_merge p (mp_merge p a b) c = mp_merge p a (mp_merge p b c)"
    and commutes: "mp_commutative p \<Longrightarrow> mp_merge p a b = mp_merge p b a"
    and idem: "mp_idempotent p \<Longrightarrow> mp_merge p a a = a"
begin

lemma fold_head: "fold_ops p (mp_merge p s a) xs = mp_merge p s (fold_ops p a xs)"
  unfolding fold_ops_def by (rule foldl_assoc_head) (rule assoc)

text \<open>A window that was folded on its own may be merged as one operation.\<close>

lemma fold_window:
  assumes "w \<noteq> []"
  shows "fold_ops p s w = mp_merge p s (fold_ops p (hd w) (tl w))"
  using assms by (cases w) (auto simp: fold_head)

lemma fold_swap:
  assumes "mp_commutative p"
  shows "mp_merge p (mp_merge p s a) b = mp_merge p (mp_merge p s b) a"
  using commutes [OF assms, of a b] by (simp add: assoc)

lemma fold_move:
  assumes "mp_commutative p"
  shows "fold_ops p (mp_merge p s a) xs = mp_merge p (fold_ops p s xs) a"
  by (induction xs arbitrary: s) (auto simp: fold_swap [OF assms])

lemma fold_perm:
  assumes comm: "mp_commutative p"
  shows "mset xs = mset ys \<Longrightarrow> fold_ops p s xs = fold_ops p s ys"
proof (induction xs arbitrary: ys s)
  case Nil
  then show ?case by simp
next
  case (Cons x xs)
  have "x \<in> set ys" using Cons.prems by (metis list.set_intros(1) set_mset_mset)
  then obtain us vs where ys: "ys = us @ x # vs" by (meson split_list)
  have "mset xs = mset (us @ vs)" using Cons.prems by (simp add: ys)
  then have "fold_ops p (mp_merge p s x) xs = fold_ops p (mp_merge p s x) (us @ vs)"
    by (rule Cons.IH)
  then show ?case by (simp add: ys fold_move [OF comm])
qed

text \<open>In an idempotent policy a window that was applied once may be applied again.\<close>

lemma fold_twice:
  assumes "mp_idempotent p"
  shows "fold_ops p (fold_ops p s w) w = fold_ops p s w"
proof (cases "w = []")
  case False
  then show ?thesis
    using idem [OF assms] by (simp add: fold_window [of w] assoc)
qed simp

end

locale semilattice_law = merge_law +
  assumes comm_flag: "mp_commutative p" and idem_flag: "mp_idempotent p"
begin

lemma fold_absorb: "a \<in> set xs \<Longrightarrow> mp_merge p (fold_ops p s xs) a = fold_ops p s xs"
proof (induction xs arbitrary: s)
  case (Cons x xs)
  show ?case
  proof (cases "a = x")
    case True
    then show ?thesis
      by (simp add: fold_move [OF comm_flag] assoc idem [OF idem_flag])
  next
    case False
    with Cons show ?thesis by simp
  qed
qed simp

text \<open>Only the set of delivered operations matters: order and multiplicity do not.\<close>

lemma fold_subset: "set ys \<subseteq> set xs \<Longrightarrow> fold_ops p (fold_ops p s xs) ys = fold_ops p s xs"
  by (induction ys) (auto simp: fold_absorb)

lemma fold_set: "set xs = set ys \<Longrightarrow> fold_ops p s xs = fold_ops p s ys"
proof -
  assume eq: "set xs = set ys"
  have "fold_ops p s (xs @ ys) = fold_ops p s (ys @ xs)"
    by (rule fold_perm [OF comm_flag]) simp
  then show ?thesis using eq by (simp add: fold_subset)
qed

end

interpretation keep_latest: merge_law KeepLatest
  by unfold_locales (simp_all add: KeepLatest_def)

interpretation sum_law: merge_law Sum_policy
  by unfold_locales (simp_all add: Sum_policy_def)

interpretation max_law: semilattice_law "Max_policy :: 'a::linorder merge_policy"
  by unfold_locales (auto simp: Max_policy_def)

interpretation union_law: semilattice_law "SetUnion :: 'a set merge_policy"
  by unfold_locales (auto simp: SetUnion_def)

interpretation raw_fifo: merge_law "RawFifo :: 'a list merge_policy"
  by unfold_locales (simp_all add: RawFifo_def)

section \<open>The merge cell\<close>

record 'a merge_cell =
  mc_cell :: "'a cell"
  mc_policy :: "'a merge_policy"

definition merge_cell_new :: "'a \<Rightarrow> 'a merge_policy \<Rightarrow> 'a merge_cell" where
  "merge_cell_new initial p = \<lparr>mc_cell = cell_new initial, mc_policy = p\<rparr>"

definition mc_get :: "'a merge_cell \<Rightarrow> cell_error + 'a" where
  "mc_get m = cell_get (mc_cell m)"

definition mc_set :: "'a merge_cell \<Rightarrow> 'a \<Rightarrow> 'a merge_cell" where
  "mc_set m v = m\<lparr>mc_cell := cell_set (mc_cell m) v\<rparr>"

definition mc_merge :: "'a merge_cell \<Rightarrow> 'a \<Rightarrow> cell_error + 'a merge_cell" where
  "mc_merge m op =
     (case cell_get (mc_cell m) of
        Inl e \<Rightarrow> Inl e
      | Inr cur \<Rightarrow> Inr (m\<lparr>mc_cell := cell_set (mc_cell m) (mp_merge (mc_policy m) cur op)\<rparr>))"

fun mc_merges :: "'a merge_cell \<Rightarrow> 'a list \<Rightarrow> cell_error + 'a merge_cell" where
  "mc_merges m [] = Inr m"
| "mc_merges m (op # ops) =
     (case mc_merge m op of Inl e \<Rightarrow> Inl e | Inr m' \<Rightarrow> mc_merges m' ops)"

lemma mc_merge_live:
  assumes "live (mc_cell m)"
  shows "mc_merge m op = Inr (m\<lparr>mc_cell := cell_set (mc_cell m)
           (mp_merge (mc_policy m) (c_value (mc_cell m)) op)\<rparr>)"
  using assms by (simp add: mc_merge_def cell_get_def live_def)

lemma mc_merges_fold:
  "live (mc_cell m) \<Longrightarrow>
     \<exists>m'. mc_merges m ops = Inr m' \<and> live (mc_cell m') \<and> mc_policy m' = mc_policy m \<and>
          c_value (mc_cell m') = fold_ops (mc_policy m) (c_value (mc_cell m)) ops"
proof (induction ops arbitrary: m)
  case (Cons op ops)
  let ?m = "m\<lparr>mc_cell := cell_set (mc_cell m) (mp_merge (mc_policy m) (c_value (mc_cell m)) op)\<rparr>"
  have "live (mc_cell ?m)" using Cons.prems by simp
  from Cons.IH [OF this] show ?case using Cons.prems by (auto simp: mc_merge_live)
qed simp

text \<open>A merge that changes nothing notifies nobody: the free deduplication of the guard.\<close>

lemma mc_merge_noop:
  assumes "live (mc_cell m)"
    and "mp_merge (mc_policy m) (c_value (mc_cell m)) op = c_value (mc_cell m)"
  shows "mc_merge m op = Inr m"
  using assms by (simp add: mc_merge_live cell_set_same)

end
