(* ===== verification/Relay.thy ===== *)
theory Relay
  imports Merge
begin

text \<open>
  The conflating relay of \<^verbatim>\<open>src/lazily/relay.py\<close> (phase 2): backpressure policy,
  hot head, ingress and drain. The policy object is passed to each call, because several
  relays may share one and an operator may retune it between calls. \<open>None\<close> in the head
  is the empty window. The demand-driven readers \<^verbatim>\<open>depth\<close>,
  \<^verbatim>\<open>is_full\<close> and \<^verbatim>\<open>is_empty\<close> are the functions their slots
  compute from the cells.
\<close>

datatype bound_dim = Count | Bytes | Keys | Age

datatype overflow = Block | DropNewest | DropOldest | Conflate | Spill

datatype ingress_outcome = Accepted | Conflated | Dropped | Blocked

datatype relay_config_error = ConflateNotBounding

record bp_policy =
  bp_dimension :: "bound_dim cell"
  bp_high_water :: "int cell"
  bp_low_water :: "int cell"
  bp_overflow :: "overflow cell"

definition bp_new :: "bound_dim \<Rightarrow> int \<Rightarrow> int \<Rightarrow> overflow \<Rightarrow> bp_policy" where
  "bp_new d hi lo ov = \<lparr>bp_dimension = cell_new d, bp_high_water = cell_new hi,
     bp_low_water = cell_new lo, bp_overflow = cell_new ov\<rparr>"

record 'a relay =
  rl_merge :: "'a merge_policy"
  rl_head :: "'a option cell"
  rl_pending :: "int cell"

abbreviation high_water :: "bp_policy \<Rightarrow> int" where
  "high_water pol \<equiv> c_value (bp_high_water pol)"

abbreviation overflow_of :: "bp_policy \<Rightarrow> overflow" where
  "overflow_of pol \<equiv> c_value (bp_overflow pol)"

definition relay_new :: "bp_policy \<Rightarrow> 'a merge_policy \<Rightarrow> relay_config_error + 'a relay" where
  "relay_new pol mp =
     (if overflow_of pol = Conflate \<and> \<not> mp_conflates mp then Inl ConflateNotBounding
      else Inr \<lparr>rl_merge = mp, rl_head = cell_new None, rl_pending = cell_new 0\<rparr>)"

definition overflow_is_legal :: "bp_policy \<Rightarrow> 'a relay \<Rightarrow> bool" where
  "overflow_is_legal pol r \<longleftrightarrow> overflow_of pol \<noteq> Conflate \<or> mp_conflates (rl_merge r)"

definition relay_depth :: "'a relay \<Rightarrow> int" where
  "relay_depth r = c_value (rl_pending r)"

definition relay_is_full :: "bp_policy \<Rightarrow> 'a relay \<Rightarrow> bool" where
  "relay_is_full pol r \<longleftrightarrow> relay_depth r \<ge> high_water pol"

definition relay_is_empty :: "'a relay \<Rightarrow> bool" where
  "relay_is_empty r \<longleftrightarrow> c_value (rl_head r) = None"

definition read_full :: "bp_policy \<Rightarrow> 'a relay \<Rightarrow> bool" where
  "read_full pol r \<longleftrightarrow> c_value (rl_pending r) \<ge> high_water pol"

definition merge_into_head :: "'a relay \<Rightarrow> 'a \<Rightarrow> 'a relay" where
  "merge_into_head r op =
     (let cur = c_value (rl_head r);
          nxt = (case cur of None \<Rightarrow> op | Some v \<Rightarrow> mp_merge (rl_merge r) v op)
      in r\<lparr>rl_head := cell_set (rl_head r) (Some nxt)\<rparr>)"

definition relay_accept :: "'a relay \<Rightarrow> 'a \<Rightarrow> bool \<Rightarrow> 'a relay \<times> ingress_outcome" where
  "relay_accept r op was_empty =
     (let r1 = merge_into_head r op;
          r2 = r1\<lparr>rl_pending := cell_set (rl_pending r1) (c_value (rl_pending r1) + 1)\<rparr>
      in (r2, if was_empty then Accepted else Conflated))"

definition relay_ingress :: "bp_policy \<Rightarrow> 'a relay \<Rightarrow> 'a \<Rightarrow> 'a relay \<times> ingress_outcome" where
  "relay_ingress pol r op =
     (let was_empty = (c_value (rl_pending r) = 0)
      in if read_full pol r
         then (case overflow_of pol of
                 Block \<Rightarrow> (r, Blocked)
               | DropNewest \<Rightarrow> (r, Dropped)
               | DropOldest \<Rightarrow>
                   (r\<lparr>rl_head := cell_set (rl_head r) (Some op),
                      rl_pending := cell_set (rl_pending r) 1\<rparr>, Dropped)
               | Conflate \<Rightarrow> relay_accept r op was_empty
               | Spill \<Rightarrow> relay_accept r op was_empty)
         else relay_accept r op was_empty)"

definition relay_drain :: "'a relay \<Rightarrow> 'a relay \<times> 'a option" where
  "relay_drain r =
     (case c_value (rl_head r) of
        None \<Rightarrow> (r, None)
      | Some v \<Rightarrow> (r\<lparr>rl_head := cell_set (rl_head r) None,
                     rl_pending := cell_set (rl_pending r) 0\<rparr>, Some v))"

definition relay_peek :: "'a relay \<Rightarrow> 'a option" where
  "relay_peek r = c_value (rl_head r)"

section \<open>The invariant of a relay\<close>

text \<open>
  The window is empty exactly when no operation is pending, and the pending count is never
  negative. The cells of a relay are never disposed.
\<close>

definition relay_inv :: "'a relay \<Rightarrow> bool" where
  "relay_inv r \<longleftrightarrow> live (rl_head r) \<and> live (rl_pending r) \<and> 0 \<le> c_value (rl_pending r) \<and>
     (c_value (rl_head r) = None \<longleftrightarrow> c_value (rl_pending r) = 0)"

lemmas [op_defs] = merge_into_head_def relay_accept_def relay_ingress_def relay_drain_def
  Let_def

lemma relay_new_inv: "relay_new pol mp = Inr r \<Longrightarrow> relay_inv r \<and> rl_merge r = mp"
  by (auto simp: relay_new_def relay_inv_def split: if_splits)

lemma relay_accept_inv [inv_intros]: "relay_inv r \<Longrightarrow> relay_inv (fst (relay_accept r op w))"
  by (auto simp: relay_inv_def op_defs split: option.splits)

lemma relay_ingress_inv [inv_intros]: "relay_inv r \<Longrightarrow> relay_inv (fst (relay_ingress pol r op))"
  using relay_accept_inv [of r op]
  by (cases "overflow_of pol")
     (auto simp: relay_ingress_def Let_def relay_inv_def)

lemma relay_drain_inv [inv_intros]: "relay_inv r \<Longrightarrow> relay_inv (fst (relay_drain r))"
  by (auto simp: relay_inv_def op_defs split: option.splits)

lemma relay_accept_merge [simp]: "rl_merge (fst (relay_accept r op w)) = rl_merge r"
  by (simp add: op_defs)

lemma relay_ingress_merge [simp]: "rl_merge (fst (relay_ingress pol r op)) = rl_merge r"
  by (cases "overflow_of pol") (auto simp: relay_ingress_def Let_def)

lemma relay_drain_merge [simp]: "rl_merge (fst (relay_drain r)) = rl_merge r"
  by (auto simp: op_defs split: option.splits)

text \<open>What the three outcomes of an ingress do to the window.\<close>

lemma relay_accept_head:
  "relay_inv r \<Longrightarrow> c_value (rl_head (fst (relay_accept r op w))) =
     Some (case c_value (rl_head r) of None \<Rightarrow> op | Some v \<Rightarrow> mp_merge (rl_merge r) v op)"
  by (auto simp: relay_inv_def op_defs split: option.splits)

lemma relay_accept_pending:
  "relay_inv r \<Longrightarrow>
     c_value (rl_pending (fst (relay_accept r op w))) = c_value (rl_pending r) + 1"
  by (auto simp: relay_inv_def op_defs split: option.splits)

lemma relay_accept_outcome: "snd (relay_accept r op w) = (if w then Accepted else Conflated)"
  by (simp add: op_defs)

lemma relay_ingress_admitted:
  assumes "snd (relay_ingress pol r op) \<in> {Accepted, Conflated}"
  shows "relay_ingress pol r op = relay_accept r op (c_value (rl_pending r) = 0)"
  using assms by (auto simp: relay_ingress_def Let_def split: if_splits overflow.splits)

lemma relay_ingress_refused:
  assumes "snd (relay_ingress pol r op) \<notin> {Accepted, Conflated}"
    and "overflow_of pol \<noteq> DropOldest"
  shows "fst (relay_ingress pol r op) = r"
  using assms
  by (auto simp: relay_ingress_def Let_def relay_accept_outcome split: if_splits overflow.splits)

lemma relay_ingress_drop_oldest:
  assumes "relay_inv r" and "read_full pol r" and "overflow_of pol = DropOldest"
  shows "c_value (rl_head (fst (relay_ingress pol r op))) = Some op"
    and "c_value (rl_pending (fst (relay_ingress pol r op))) = 1"
  using assms by (auto simp: relay_ingress_def Let_def relay_inv_def)

lemma relay_drain_effect:
  assumes "relay_inv r"
  shows "snd (relay_drain r) = c_value (rl_head r)"
    and "c_value (rl_head (fst (relay_drain r))) = None"
    and "c_value (rl_pending (fst (relay_drain r))) = 0"
  using assms by (auto simp: relay_drain_def relay_inv_def split: option.splits)

section \<open>Schedules: interleavings of ingress, drain and retuning\<close>

datatype 'a relay_op = Ingress 'a | Drain | SetHighWater int | SetOverflow overflow

text \<open>
  The egress of a schedule is the list of drained windows, the admitted operations are
  those whose ingress was neither blocked nor dropped.
\<close>

record 'a relay_run =
  rr_policy :: bp_policy
  rr_relay :: "'a relay"
  rr_egress :: "'a list"
  rr_admitted :: "'a list"

fun relay_step :: "'a relay_run \<Rightarrow> 'a relay_op \<Rightarrow> 'a relay_run" where
  "relay_step s (Ingress op) =
     (let (r', out) = relay_ingress (rr_policy s) (rr_relay s) op
      in s\<lparr>rr_relay := r',
           rr_admitted := rr_admitted s @ (if out \<in> {Accepted, Conflated} then [op] else [])\<rparr>)"
| "relay_step s Drain =
     (let (r', out) = relay_drain (rr_relay s)
      in s\<lparr>rr_relay := r',
           rr_egress := rr_egress s @ (case out of None \<Rightarrow> [] | Some v \<Rightarrow> [v])\<rparr>)"
| "relay_step s (SetHighWater n) =
     s\<lparr>rr_policy := (rr_policy s)\<lparr>bp_high_water := cell_set (bp_high_water (rr_policy s)) n\<rparr>\<rparr>"
| "relay_step s (SetOverflow ov) =
     s\<lparr>rr_policy := (rr_policy s)\<lparr>bp_overflow := cell_set (bp_overflow (rr_policy s)) ov\<rparr>\<rparr>"

definition relay_steps :: "'a relay_run \<Rightarrow> 'a relay_op list \<Rightarrow> 'a relay_run" where
  "relay_steps s ops = foldl relay_step s ops"

definition relay_start :: "bp_policy \<Rightarrow> 'a relay \<Rightarrow> 'a relay_run" where
  "relay_start pol r = \<lparr>rr_policy = pol, rr_relay = r, rr_egress = [], rr_admitted = []\<rparr>"

text \<open>
  Converged state: what the egress folded, then the window that is still in the head.
\<close>

definition converged :: "'a \<Rightarrow> 'a relay_run \<Rightarrow> 'a" where
  "converged s0 s =
     fold_ops (rl_merge (rr_relay s)) s0
       (rr_egress s @ (case c_value (rl_head (rr_relay s)) of None \<Rightarrow> [] | Some v \<Rightarrow> [v]))"

definition keeps_window :: "'a relay_op \<Rightarrow> bool" where
  "keeps_window x \<longleftrightarrow> x \<noteq> SetOverflow DropOldest"

definition run_inv :: "'a \<Rightarrow> 'a relay_run \<Rightarrow> bool" where
  "run_inv s0 s \<longleftrightarrow> relay_inv (rr_relay s) \<and> live (bp_overflow (rr_policy s)) \<and>
     overflow_of (rr_policy s) \<noteq> DropOldest \<and>
     converged s0 s = fold_ops (rl_merge (rr_relay s)) s0 (rr_admitted s)"

lemma relay_step_merge [simp]: "rl_merge (rr_relay (relay_step s x)) = rl_merge (rr_relay s)"
  by (cases x) (auto simp: Let_def split_beta)

context merge_law
begin

lemma accept_converged:
  assumes "relay_inv r" and "rl_merge r = p"
  shows "fold_ops p s0 (es @ (case c_value (rl_head (fst (relay_accept r op w))) of
             None \<Rightarrow> [] | Some v \<Rightarrow> [v])) =
         mp_merge p (fold_ops p s0 (es @ (case c_value (rl_head r) of None \<Rightarrow> [] | Some v \<Rightarrow> [v]))) op"
  using assms by (auto simp: relay_accept_head assoc split: option.splits)

lemma ingress_run_inv:
  assumes "rl_merge (rr_relay s) = p" and inv: "run_inv s0 s"
  shows "run_inv s0 (relay_step s (Ingress op))"
proof -
  let ?r = "rr_relay s" and ?pol = "rr_policy s"
  obtain r' out where ro: "relay_ingress ?pol ?r op = (r', out)" by fastforce
  have r': "r' = fst (relay_ingress ?pol ?r op)" and out: "out = snd (relay_ingress ?pol ?r op)"
    by (simp_all add: ro)
  have rinv: "relay_inv ?r" "relay_inv r'"
    using inv relay_ingress_inv [of ?r ?pol op] by (simp_all add: run_inv_def r')
  have keep: "rl_merge r' = p" using assms by (simp add: r')
  show ?thesis
  proof (cases "out \<in> {Accepted, Conflated}")
    case True
    then have "r' = fst (relay_accept ?r op (c_value (rl_pending ?r) = 0))"
      using relay_ingress_admitted [of ?pol ?r op] by (simp add: out r')
    with True inv rinv keep assms accept_converged [OF rinv(1), of s0 "rr_egress s"]
    show ?thesis by (simp add: ro run_inv_def converged_def)
  next
    case False
    then have "r' = ?r"
      using relay_ingress_refused [of ?pol ?r op] inv by (simp add: out r' run_inv_def)
    with False inv show ?thesis by (simp add: ro run_inv_def converged_def)
  qed
qed

lemma drain_run_inv:
  assumes inv: "run_inv s0 s"
  shows "run_inv s0 (relay_step s Drain)"
proof -
  obtain r' out where ro: "relay_drain (rr_relay s) = (r', out)" by fastforce
  have rinv: "relay_inv (rr_relay s)" using inv by (simp add: run_inv_def)
  show ?thesis
    using inv relay_drain_effect [OF rinv, unfolded ro] relay_drain_inv [OF rinv, unfolded ro]
      relay_drain_merge [of "rr_relay s", unfolded ro]
    by (auto simp: ro run_inv_def converged_def split: option.splits)
qed

lemma step_run_inv:
  assumes "rl_merge (rr_relay s) = p" and "run_inv s0 s" and "keeps_window x"
  shows "run_inv s0 (relay_step s x)"
proof (cases x)
  case (Ingress op)
  with assms show ?thesis using ingress_run_inv by simp
next
  case Drain
  with assms show ?thesis using drain_run_inv by simp
qed (use assms in \<open>auto simp: run_inv_def converged_def keeps_window_def\<close>)

lemma steps_run_inv:
  "rl_merge (rr_relay s) = p \<Longrightarrow> run_inv s0 s \<Longrightarrow> list_all keeps_window xs \<Longrightarrow>
     run_inv s0 (relay_steps s xs)"
proof (induction xs arbitrary: s)
  case (Cons x xs)
  have "run_inv s0 (relay_step s x)" using Cons.prems by (intro step_run_inv) auto
  then have "run_inv s0 (relay_steps (relay_step s x) xs)" using Cons.prems by (intro Cons.IH) auto
  then show ?case by (simp add: relay_steps_def)
qed (simp add: relay_steps_def)

end

lemma relay_steps_merge [simp]: "rl_merge (rr_relay (relay_steps s xs)) = rl_merge (rr_relay s)"
  unfolding relay_steps_def by (induction xs arbitrary: s) auto

lemma relay_start_inv:
  assumes "relay_new pol mp = Inr r" and "live (bp_overflow pol)" and "overflow_of pol \<noteq> DropOldest"
  shows "run_inv s0 (relay_start pol r)"
proof -
  have "r = \<lparr>rl_merge = mp, rl_head = cell_new None, rl_pending = cell_new 0\<rparr>"
    using assms(1) by (simp add: relay_new_def split: if_splits)
  then show ?thesis
    using assms by (simp add: run_inv_def relay_start_def converged_def relay_inv_def)
qed

section \<open>Bounds\<close>

text \<open>Every state a schedule reaches satisfies the invariant, whatever the overflow action.\<close>

lemma relay_step_inv [inv_intros]: "relay_inv (rr_relay s) \<Longrightarrow> relay_inv (rr_relay (relay_step s x))"
  by (cases x)
     (auto simp: split_beta Let_def intro: relay_ingress_inv relay_drain_inv)

definition bounding :: "overflow \<Rightarrow> bool" where
  "bounding ov \<longleftrightarrow> ov \<in> {Block, DropNewest, DropOldest}"

lemma relay_ingress_bound:
  assumes "relay_inv r" and "bounding (overflow_of pol)"
    and "c_value (rl_pending r) \<le> max 1 (high_water pol)"
  shows "c_value (rl_pending (fst (relay_ingress pol r op))) \<le> max 1 (high_water pol)"
proof (cases "read_full pol r")
  case True
  then show ?thesis using assms
    by (auto simp: bounding_def relay_ingress_def Let_def relay_inv_def)
next
  case False
  then have "relay_ingress pol r op = relay_accept r op (c_value (rl_pending r) = 0)"
    by (simp add: relay_ingress_def Let_def)
  then show ?thesis using False assms by (simp add: relay_accept_pending read_full_def)
qed

lemma relay_ingress_step_bound:
  assumes "relay_inv (rr_relay s)" and "bounding (overflow_of (rr_policy s))"
    and "c_value (rl_pending (rr_relay s)) \<le> max 1 (high_water (rr_policy s))"
    and "x = Drain \<or> (\<exists>op. x = Ingress op)"
  shows "c_value (rl_pending (rr_relay (relay_step s x))) \<le> max 1 (high_water (rr_policy s))
    \<and> rr_policy (relay_step s x) = rr_policy s"
  using assms relay_ingress_bound [OF assms(1,2,3)] relay_drain_effect(3) [OF assms(1)]
  by (auto simp: split_beta Let_def)

lemma relay_steps_bound:
  "relay_inv (rr_relay s) \<Longrightarrow> bounding (overflow_of (rr_policy s)) \<Longrightarrow>
   c_value (rl_pending (rr_relay s)) \<le> max 1 (high_water (rr_policy s)) \<Longrightarrow>
   list_all (\<lambda>x. x = Drain \<or> (\<exists>op. x = Ingress op)) xs \<Longrightarrow>
     c_value (rl_pending (rr_relay (relay_steps s xs))) \<le> max 1 (high_water (rr_policy s))"
proof (induction xs arbitrary: s)
  case (Cons x xs)
  have "c_value (rl_pending (rr_relay (relay_step s x))) \<le> max 1 (high_water (rr_policy s))
      \<and> rr_policy (relay_step s x) = rr_policy s"
    using Cons.prems by (intro relay_ingress_step_bound) auto
  with Cons.IH [of "relay_step s x"] Cons.prems show ?case
    by (auto simp: relay_steps_def inv_intros)
qed (simp add: relay_steps_def)

text \<open>The run from a fresh relay keeps the fold of what it admitted.\<close>

lemma relay_run_converges:
  assumes "merge_law mp" and "relay_new pol mp = Inr r" and "live (bp_overflow pol)"
    and "overflow_of pol \<noteq> DropOldest" and "list_all keeps_window xs"
  shows "converged s0 (relay_steps (relay_start pol r) xs) =
    fold_ops mp s0 (rr_admitted (relay_steps (relay_start pol r) xs))"
proof -
  have merge: "rl_merge (rr_relay (relay_start pol r)) = mp"
    using relay_new_inv [OF assms(2)] by (simp add: relay_start_def)
  have "run_inv s0 (relay_steps (relay_start pol r) xs)"
    by (rule merge_law.steps_run_inv [OF assms(1) merge relay_start_inv [OF assms(2-4)] assms(5)])
  then show ?thesis using merge by (simp add: run_inv_def)
qed

end
