(* ===== verification/Spill.thy ===== *)
theory Spill
  imports Merge
begin

text \<open>
  The paged durable tail of \<^verbatim>\<open>src/lazily/relay.py\<close> (phase 3,
  \<^verbatim>\<open>SpillStore\<close>): pages, the ack cursor, reclaim, reconstruction and crash
  replay. Page ids and byte counts are Python integers; the ack cursor is an index.
\<close>

datatype spill_mode = CompactOnWrite | AppendCompact

record 'a spill_page =
  pg_id :: int
  pg_summary :: 'a
  pg_bytes :: int

record 'a spill_store =
  ss_mode :: spill_mode
  ss_page_size :: int
  ss_merge :: "'a merge_policy"
  ss_pages :: "'a spill_page list"
  ss_open_fill :: int
  ss_next_id :: int
  ss_acked :: nat

definition spill_new :: "spill_mode \<Rightarrow> int \<Rightarrow> 'a merge_policy \<Rightarrow> 'a spill_store" where
  "spill_new mode psize mp = \<lparr>ss_mode = mode, ss_page_size = max 1 psize, ss_merge = mp,
     ss_pages = [], ss_open_fill = 0, ss_next_id = 0, ss_acked = 0\<rparr>"

definition push_page :: "'a spill_store \<Rightarrow> 'a \<Rightarrow> int \<Rightarrow> 'a spill_store" where
  "push_page st summary nbytes =
     st\<lparr>ss_pages := ss_pages st @
          [\<lparr>pg_id = ss_next_id st, pg_summary = summary, pg_bytes = nbytes\<rparr>],
        ss_next_id := ss_next_id st + 1\<rparr>"

definition spill :: "'a spill_store \<Rightarrow> 'a \<Rightarrow> int \<Rightarrow> 'a spill_store" where
  "spill st window nbytes =
     (case ss_mode st of
        AppendCompact \<Rightarrow> push_page st window nbytes
      | CompactOnWrite \<Rightarrow>
          if ss_open_fill st \<ge> ss_page_size st \<or> ss_pages st = []
          then (push_page st window nbytes)\<lparr>ss_open_fill := 1\<rparr>
          else let pg = last (ss_pages st);
                   pg' = pg\<lparr>pg_summary := mp_merge (ss_merge st) (pg_summary pg) window,
                            pg_bytes := pg_bytes pg + nbytes\<rparr>
               in st\<lparr>ss_pages := butlast (ss_pages st) @ [pg'],
                     ss_open_fill := ss_open_fill st + 1\<rparr>)"

definition manifest :: "'a spill_store \<Rightarrow> (int \<times> int) list" where
  "manifest st = map (\<lambda>pg. (pg_id pg, pg_bytes pg)) (ss_pages st)"

definition pending_pages :: "'a spill_store \<Rightarrow> 'a spill_page list" where
  "pending_pages st = drop (ss_acked st) (ss_pages st)"

definition page_count :: "'a spill_store \<Rightarrow> nat" where
  "page_count st = length (ss_pages st)"

function ack_through :: "'a spill_store \<Rightarrow> int \<Rightarrow> 'a spill_store" where
  "ack_through st i =
     (if ss_acked st < length (ss_pages st) \<and> pg_id (ss_pages st ! ss_acked st) \<le> i
      then ack_through (st\<lparr>ss_acked := ss_acked st + 1\<rparr>) i else st)"
  by pat_completeness auto
termination
  by (relation "measure (\<lambda>(st, i). length (ss_pages st) - ss_acked st)") auto

declare ack_through.simps [simp del]

definition reclaim :: "'a spill_store \<Rightarrow> 'a spill_store" where
  "reclaim st =
     (if ss_acked st > 0
      then st\<lparr>ss_pages := drop (ss_acked st) (ss_pages st), ss_acked := 0\<rparr> else st)"

definition fold_pages :: "'a spill_store \<Rightarrow> 'a \<Rightarrow> 'a" where
  "fold_pages st s0 = foldl (\<lambda>acc pg. mp_merge (ss_merge st) acc (pg_summary pg)) s0 (ss_pages st)"

definition reconstruct :: "'a spill_store \<Rightarrow> 'a \<Rightarrow> 'a option \<Rightarrow> 'a" where
  "reconstruct st s0 hot =
     (let cold = fold_pages st s0
      in case hot of None \<Rightarrow> cold | Some h \<Rightarrow> mp_merge (ss_merge st) cold h)"

definition replay_unacked :: "'a spill_store \<Rightarrow> 'a \<Rightarrow> 'a" where
  "replay_unacked st downstream =
     foldl (\<lambda>acc pg. mp_merge (ss_merge st) acc (pg_summary pg)) downstream (pending_pages st)"

section \<open>The invariant of the page table\<close>

text \<open>
  Page ids are consecutive and end just below the next id, the ack cursor lies inside the
  table, and in the compacting mode the open page never holds more windows than a page.
\<close>

definition spill_inv :: "'a spill_store \<Rightarrow> bool" where
  "spill_inv st \<longleftrightarrow>
     map pg_id (ss_pages st) =
       map (\<lambda>k. ss_next_id st - int (length (ss_pages st)) + int k) [0..<length (ss_pages st)] \<and>
     ss_acked st \<le> length (ss_pages st) \<and> 1 \<le> ss_page_size st \<and>
     0 \<le> ss_open_fill st \<and> ss_open_fill st \<le> ss_page_size st"

lemma spill_new_inv: "spill_inv (spill_new mode psize mp)"
  by (simp add: spill_inv_def spill_new_def)

lemma page_id:
  assumes "spill_inv st" and "k < length (ss_pages st)"
  shows "pg_id (ss_pages st ! k) = ss_next_id st - int (length (ss_pages st)) + int k"
proof -
  have "map pg_id (ss_pages st) ! k =
      map (\<lambda>k. ss_next_id st - int (length (ss_pages st)) + int k) [0..<length (ss_pages st)] ! k"
    using assms(1) by (simp add: spill_inv_def)
  then show ?thesis using assms(2) by simp
qed

lemma push_page_inv: "spill_inv st \<Longrightarrow> spill_inv (push_page st w n)"
  by (auto simp: spill_inv_def push_page_def)

lemma page_ids_replace_last:
  "ps \<noteq> [] \<Longrightarrow> pg_id p' = pg_id (last ps) \<Longrightarrow> map pg_id (butlast ps @ [p']) = map pg_id ps"
  by (cases ps rule: rev_cases) auto

lemma spill_inv_spill: "spill_inv st \<Longrightarrow> spill_inv (spill st w n)"
proof (cases "ss_mode st = CompactOnWrite \<and> \<not> (ss_open_fill st \<ge> ss_page_size st \<or> ss_pages st = [])")
  case True
  assume inv: "spill_inv st"
  let ?ps = "ss_pages (spill st w n)"
  have "map pg_id ?ps = map pg_id (ss_pages st)" "length ?ps = length (ss_pages st)"
    "ss_next_id (spill st w n) = ss_next_id st"
    using True by (simp_all add: spill_def Let_def page_ids_replace_last del: map_append)
  with inv True show ?thesis by (auto simp: spill_inv_def spill_def Let_def)
next
  case False
  assume inv: "spill_inv st"
  from push_page_inv [OF this, of w n] False show ?thesis
    by (cases "ss_mode st") (auto simp: spill_def spill_inv_def)
qed

lemma ack_through_inv: "spill_inv st \<Longrightarrow> spill_inv (ack_through st i)"
proof (induction st i rule: ack_through.induct)
  case (1 st i)
  then show ?case
    by (subst ack_through.simps) (auto simp: spill_inv_def)
qed

lemma reclaim_inv: "spill_inv st \<Longrightarrow> spill_inv (reclaim st)"
proof -
  assume inv: "spill_inv st"
  have "map pg_id (drop a (ss_pages st)) =
      map (\<lambda>k. ss_next_id st - int (length (drop a (ss_pages st))) + int k)
        [0..<length (drop a (ss_pages st))]" if "a \<le> length (ss_pages st)" for a
    by (rule nth_equalityI) (use that page_id [OF inv] in \<open>auto simp: of_nat_diff\<close>)
  with inv show ?thesis by (auto simp: spill_inv_def reclaim_def)
qed

section \<open>Acknowledgement and reclaim\<close>

lemma ack_through_frame [simp]:
  "ss_pages (ack_through st i) = ss_pages st" "ss_merge (ack_through st i) = ss_merge st"
  by (induction st i rule: ack_through.induct; subst ack_through.simps; auto)+

lemma ack_through_acked:
  "ss_acked (ack_through st i) =
     ss_acked st + length (takeWhile (\<lambda>pg. pg_id pg \<le> i) (drop (ss_acked st) (ss_pages st)))"
proof (induction st i rule: ack_through.induct)
  case (1 st i)
  show ?case
  proof (cases "ss_acked st < length (ss_pages st) \<and> pg_id (ss_pages st ! ss_acked st) \<le> i")
    case True
    then have "drop (ss_acked st) (ss_pages st) =
        ss_pages st ! ss_acked st # drop (Suc (ss_acked st)) (ss_pages st)"
      by (simp add: Cons_nth_drop_Suc)
    with 1 True show ?thesis by (subst ack_through.simps) simp
  next
    case False
    then have "takeWhile (\<lambda>pg. pg_id pg \<le> i) (drop (ss_acked st) (ss_pages st)) = []"
      by (cases "ss_acked st < length (ss_pages st)") (auto simp: Cons_nth_drop_Suc [symmetric])
    moreover have "ack_through st i = st"
      by (simp only: ack_through.simps [of st i] if_not_P [OF False])
    ultimately show ?thesis by simp
  qed
qed

text \<open>With consecutive ids, acknowledging \<open>i\<close> removes exactly the pages up to \<open>i\<close>.\<close>

lemma takeWhile_consecutive:
  "sorted_wrt (\<lambda>a b. pg_id a < pg_id b) ps \<Longrightarrow>
     dropWhile (\<lambda>pg. pg_id pg \<le> i) ps = filter (\<lambda>pg. i < pg_id pg) ps"
  by (induction ps) (auto intro!: sym [OF filter_True])

lemma spill_inv_sorted:
  assumes "spill_inv st"
  shows "sorted_wrt (\<lambda>a b. pg_id a < pg_id b) (ss_pages st)"
  using page_id [OF assms] by (auto simp: sorted_wrt_iff_nth_less)

lemma ack_through_pending:
  assumes "spill_inv st"
  shows "pending_pages (ack_through st i) = filter (\<lambda>pg. i < pg_id pg) (pending_pages st)"
proof -
  have "pending_pages (ack_through st i) =
      dropWhile (\<lambda>pg. pg_id pg \<le> i) (drop (ss_acked st) (ss_pages st))"
    by (simp add: pending_pages_def ack_through_acked dropWhile_eq_drop add.commute)
  also have "\<dots> = filter (\<lambda>pg. i < pg_id pg) (drop (ss_acked st) (ss_pages st))"
    by (rule takeWhile_consecutive) (rule sorted_wrt_drop [OF spill_inv_sorted [OF assms]])
  finally show ?thesis by (simp add: pending_pages_def)
qed

lemma reclaim_pending: "pending_pages (reclaim st) = pending_pages st"
  by (simp add: pending_pages_def reclaim_def)

lemma reclaim_pages: "ss_pages (reclaim st) = pending_pages st"
  by (simp add: pending_pages_def reclaim_def)

section \<open>Losslessness and replay\<close>

lemma fold_pages_ops: "fold_pages st s0 = fold_ops (ss_merge st) s0 (map pg_summary (ss_pages st))"
  by (simp add: fold_pages_def fold_ops_def foldl_map)

lemma replay_ops: "replay_unacked st d = fold_ops (ss_merge st) d (map pg_summary (pending_pages st))"
  by (simp add: replay_unacked_def fold_ops_def foldl_map)

lemma spill_merge [simp]: "ss_merge (spill st w n) = ss_merge st"
  by (cases "ss_mode st") (simp_all add: spill_def push_page_def Let_def)

definition spills :: "'a spill_store \<Rightarrow> ('a \<times> int) list \<Rightarrow> 'a spill_store" where
  "spills st ws = foldl (\<lambda>st (w, n). spill st w n) st ws"

lemma spills_merge [simp]: "ss_merge (spills st ws) = ss_merge st"
  unfolding spills_def by (induction ws arbitrary: st) auto

lemma spills_inv: "spill_inv st \<Longrightarrow> spill_inv (spills st ws)"
  unfolding spills_def by (induction ws arbitrary: st) (auto simp: spill_inv_spill)

context merge_law
begin

lemma spill_fold:
  assumes "ss_merge st = p"
  shows "fold_pages (spill st w n) s0 = mp_merge p (fold_pages st s0) w"
proof (cases "ss_mode st = CompactOnWrite \<and> \<not> (ss_open_fill st \<ge> ss_page_size st \<or> ss_pages st = [])")
  case True
  then obtain ps pg where "ss_pages st = ps @ [pg]" by (cases "ss_pages st" rule: rev_cases) auto
  with True assms show ?thesis by (simp add: spill_def Let_def fold_pages_def assoc)
next
  case False
  with assms show ?thesis
    by (cases "ss_mode st") (auto simp: spill_def push_page_def fold_pages_def)
qed

lemma spills_fold:
  "ss_merge st = p \<Longrightarrow> fold_pages (spills st ws) s0 = fold_ops p (fold_pages st s0) (map fst ws)"
proof (induction ws arbitrary: st)
  case (Cons x ws)
  have "fold_pages (spills (spill st (fst x) (snd x)) ws) s0 =
      fold_ops p (fold_pages (spill st (fst x) (snd x)) s0) (map fst ws)"
    using Cons.prems by (intro Cons.IH) simp
  then show ?case using Cons.prems
    by (simp add: spills_def spill_fold split_beta)
qed (simp add: spills_def)

lemma replay_converges:
  assumes "mp_idempotent p" and "ss_merge st = p"
    and "ss_acked st \<le> d" and "d \<le> length (ss_pages st)"
  shows "replay_unacked st (fold_ops p s0 (map pg_summary (take d (ss_pages st)))) = fold_pages st s0"
proof -
  let ?s = "map pg_summary (ss_pages st)" and ?a = "ss_acked st"
  obtain A W D where split: "A = take ?a ?s" "W = drop ?a (take d ?s)" "D = drop d ?s" by blast
  have t: "take d ?s = A @ W"
    using append_take_drop_id [of ?a "take d ?s"] assms(3) by (simp add: min_absorb1 split)
  have p: "drop ?a ?s = W @ D"
    using append_take_drop_id [of "d - ?a" "drop ?a ?s"] assms(3) by (simp add: take_drop split)
  have all: "?s = A @ W @ D"
    using append_take_drop_id [of ?a ?s] p by (simp add: split)
  have "replay_unacked st (fold_ops p s0 (take d ?s)) = fold_ops p (fold_ops p s0 (A @ W)) (W @ D)"
    using assms(2) by (simp only: replay_ops pending_pages_def drop_map [symmetric] t p)
  also have "\<dots> = fold_ops p s0 (A @ W @ D)"
    by (simp only: fold_ops_append fold_twice [OF assms(1)])
  also have "\<dots> = fold_pages st s0"
    using assms(2) by (simp only: fold_pages_ops all)
  finally show ?thesis by (simp only: take_map)
qed

end

section \<open>Runs of the append-only store\<close>

text \<open>A run with the windows spilled so far and the page summaries acknowledged so far.\<close>

datatype 'a spill_op = Spill_window 'a int | Ack int | Reclaim

record 'a spill_run =
  sr_store :: "'a spill_store"
  sr_spilled :: "'a list"
  sr_acked :: "'a list"

fun spill_step :: "'a spill_run \<Rightarrow> 'a spill_op \<Rightarrow> 'a spill_run" where
  "spill_step r (Spill_window w n) =
     r\<lparr>sr_store := spill (sr_store r) w n, sr_spilled := sr_spilled r @ [w]\<rparr>"
| "spill_step r (Ack i) =
     r\<lparr>sr_store := ack_through (sr_store r) i,
       sr_acked := sr_acked r @ map pg_summary (takeWhile (\<lambda>pg. pg_id pg \<le> i) (pending_pages (sr_store r)))\<rparr>"
| "spill_step r Reclaim = r\<lparr>sr_store := reclaim (sr_store r)\<rparr>"

definition spill_run_from :: "int \<Rightarrow> 'a merge_policy \<Rightarrow> 'a spill_op list \<Rightarrow> 'a spill_run" where
  "spill_run_from psize p xs =
     foldl spill_step \<lparr>sr_store = spill_new AppendCompact psize p, sr_spilled = [], sr_acked = []\<rparr> xs"

lemma ack_through_mode [simp]: "ss_mode (ack_through st i) = ss_mode st"
  by (induction st i rule: ack_through.induct) (subst ack_through.simps, auto)

definition exact_run :: "'a spill_run \<Rightarrow> bool" where
  "exact_run r \<longleftrightarrow> spill_inv (sr_store r) \<and> ss_mode (sr_store r) = AppendCompact \<and>
     sr_acked r @ map pg_summary (pending_pages (sr_store r)) = sr_spilled r"

lemma spill_step_exact:
  assumes "exact_run r"
  shows "exact_run (spill_step r x)"
proof -
  have inv: "spill_inv (sr_store r)" and mode: "ss_mode (sr_store r) = AppendCompact"
    and eq: "sr_acked r @ map pg_summary (pending_pages (sr_store r)) = sr_spilled r"
    using assms by (simp_all add: exact_run_def)
  show ?thesis
proof (cases x)
  case (Spill_window w n)
  have "ss_acked (sr_store r) \<le> length (ss_pages (sr_store r))" using inv by (simp add: spill_inv_def)
  then show ?thesis using mode Spill_window spill_inv_spill [OF inv]
    by (simp add: exact_run_def spill_def push_page_def pending_pages_def flip: eq)
next
  case (Ack i)
  let ?ps = "pending_pages (sr_store r)"
  have sorted: "sorted_wrt (\<lambda>a b. pg_id a < pg_id b) ?ps"
    using spill_inv_sorted [OF inv] by (simp add: pending_pages_def sorted_wrt_drop)
  have "pending_pages (ack_through (sr_store r) i) = dropWhile (\<lambda>pg. pg_id pg \<le> i) ?ps"
    using ack_through_pending [OF inv] takeWhile_consecutive [OF sorted] by simp
  then have "map pg_summary (takeWhile (\<lambda>pg. pg_id pg \<le> i) ?ps) @
      map pg_summary (pending_pages (ack_through (sr_store r) i)) = map pg_summary ?ps"
    by (metis map_append takeWhile_dropWhile_id)
  then show ?thesis using mode eq Ack ack_through_inv [OF inv] by (simp add: exact_run_def)
next
  case Reclaim
  have "ss_mode (reclaim (sr_store r)) = ss_mode (sr_store r)" by (simp add: reclaim_def)
  then show ?thesis using mode eq Reclaim reclaim_inv [OF inv] by (simp add: exact_run_def reclaim_pending)
qed
qed

lemma spill_run_exact: "exact_run (spill_run_from psize p xs)"
proof -
  have "exact_run r \<Longrightarrow> exact_run (foldl spill_step r xs)" for r :: "'a spill_run"
    by (induction xs arbitrary: r) (simp_all add: spill_step_exact)
  moreover have "exact_run \<lparr>sr_store = spill_new AppendCompact psize p, sr_spilled = [], sr_acked = []\<rparr>"
    by (simp add: exact_run_def spill_new_inv) (simp add: spill_new_def pending_pages_def)
  ultimately show ?thesis unfolding spill_run_from_def by blast
qed

end
