(* ===== verification/RelayStages.thy ===== *)
theory RelayStages
  imports Relay
begin

text \<open>
  The stages around a relay in \<^verbatim>\<open>src/lazily/relay.py\<close>: the two transports
  (phase 4), the outbox and inbox roles (phase 5), and the reactive policies of phase 6:
  rate, window, expiry, priority egress and keyed sharding.
\<close>

section \<open>Transports\<close>

record 'a inproc_transport =
  ip_buf :: "'a list"

definition ip_new :: "'a inproc_transport" where
  "ip_new = \<lparr>ip_buf = []\<rparr>"

definition ip_deliver :: "'a inproc_transport \<Rightarrow> 'a \<Rightarrow> 'a inproc_transport" where
  "ip_deliver t op = t\<lparr>ip_buf := ip_buf t @ [op]\<rparr>"

definition ip_poll :: "'a inproc_transport \<Rightarrow> 'a inproc_transport \<times> 'a list" where
  "ip_poll t = (t\<lparr>ip_buf := []\<rparr>, ip_buf t)"

definition ip_has_pending :: "'a inproc_transport \<Rightarrow> bool" where
  "ip_has_pending t \<longleftrightarrow> length (ip_buf t) > 0"

record 'a framed_transport =
  ft_buf :: "'a list"
  ft_frame_size :: nat

definition ft_new :: "int \<Rightarrow> 'a framed_transport" where
  "ft_new frame_size = \<lparr>ft_buf = [], ft_frame_size = nat (max 1 frame_size)\<rparr>"

definition ft_deliver :: "'a framed_transport \<Rightarrow> 'a \<Rightarrow> 'a framed_transport" where
  "ft_deliver t op = t\<lparr>ft_buf := ft_buf t @ [op]\<rparr>"

definition ft_poll :: "'a framed_transport \<Rightarrow> 'a framed_transport \<times> 'a list" where
  "ft_poll t =
     (let n = min (ft_frame_size t) (length (ft_buf t))
      in (t\<lparr>ft_buf := drop n (ft_buf t)\<rparr>, take n (ft_buf t)))"

definition ft_has_pending :: "'a framed_transport \<Rightarrow> bool" where
  "ft_has_pending t \<longleftrightarrow> length (ft_buf t) > 0"

text \<open>
  The delivery contract (\<^verbatim>\<open>Transport\<close>): a poll hands over a prefix of the
  buffered operations, a non-empty one when there is backlog, and keeps the rest.
\<close>

datatype 'a link_op = Deliver 'a | Poll

fun link_run ::
  "('t \<Rightarrow> 'a \<Rightarrow> 't) \<Rightarrow> ('t \<Rightarrow> 't \<times> 'a list) \<Rightarrow> 't \<Rightarrow> 'a link_op list \<Rightarrow> 't \<times> 'a list list" where
  "link_run dlv pol t [] = (t, [])"
| "link_run dlv pol t (Deliver x # xs) = link_run dlv pol (dlv t x) xs"
| "link_run dlv pol t (Poll # xs) =
     (let (t', frame) = pol t; (t'', frames) = link_run dlv pol t' xs in (t'', frame # frames))"

fun delivered :: "'a link_op list \<Rightarrow> 'a list" where
  "delivered [] = []"
| "delivered (Deliver x # xs) = x # delivered xs"
| "delivered (Poll # xs) = delivered xs"

lemma delivered_append: "delivered (xs @ ys) = delivered xs @ delivered ys"
  by (induction xs rule: delivered.induct) simp_all

lemma delivered_polls: "delivered (replicate n Poll) = []"
  by (induction n) simp_all

lemma delivered_le: "length (delivered xs) \<le> length xs"
  by (induction xs rule: delivered.induct) simp_all

locale transport =
  fixes dlv :: "'t \<Rightarrow> 'a \<Rightarrow> 't"
    and pol :: "'t \<Rightarrow> 't \<times> 'a list"
    and pending :: "'t \<Rightarrow> bool"
    and buf :: "'t \<Rightarrow> 'a list"
    and inv :: "'t \<Rightarrow> bool"
  assumes deliver_buf: "buf (dlv t x) = buf t @ [x]"
    and poll_frame: "snd (pol t) @ buf (fst (pol t)) = buf t"
    and poll_progress: "inv t \<Longrightarrow> buf t \<noteq> [] \<Longrightarrow> snd (pol t) \<noteq> []"
    and pending_buf: "pending t \<longleftrightarrow> buf t \<noteq> []"
    and deliver_inv: "inv t \<Longrightarrow> inv (dlv t x)"
    and poll_inv: "inv t \<Longrightarrow> inv (fst (pol t))"
begin

text \<open>Whatever the interleaving of deliveries and polls, frames lose and reorder nothing.\<close>

lemma run_frames:
  "concat (snd (link_run dlv pol t xs)) @ buf (fst (link_run dlv pol t xs)) = buf t @ delivered xs"
proof (induction xs arbitrary: t)
  case (Cons x xs)
  show ?case
  proof (cases x)
    case (Deliver y)
    then show ?thesis using Cons.IH [of "dlv t y"] by (simp add: deliver_buf)
  next
    case Poll
    have "snd (pol t) @ buf (fst (pol t)) @ delivered xs = buf t @ delivered xs"
      using poll_frame [of t] by (metis append.assoc)
    then show ?thesis using Poll Cons.IH [of "fst (pol t)"] by (simp add: split_beta Let_def)
  qed
qed simp

lemma poll_decreases:
  assumes "inv t" and "buf t \<noteq> []"
  shows "length (buf (fst (pol t))) < length (buf t)"
  using poll_progress [OF assms] arg_cong [OF poll_frame [of t], of length]
  by (cases "snd (pol t)") auto

text \<open>As many polls as there are buffered operations empty the link.\<close>

lemma polls_drain:
  "inv t \<Longrightarrow> length (buf t) \<le> n \<Longrightarrow> \<not> pending (fst (link_run dlv pol t (replicate n Poll)))"
proof (induction n arbitrary: t)
  case 0
  then show ?case by (simp add: pending_buf)
next
  case (Suc n)
  have "length (buf (fst (pol t))) \<le> n"
    using Suc.prems poll_decreases [of t] arg_cong [OF poll_frame [of t], of length]
    by (cases "buf t = []") auto
  then show ?case using Suc.IH [of "fst (pol t)"] Suc.prems poll_inv
    by (simp add: split_beta Let_def)
qed


lemma run_append:
  "fst (link_run dlv pol t (xs @ ys)) = fst (link_run dlv pol (fst (link_run dlv pol t xs)) ys)"
proof (induction xs arbitrary: t)
  case (Cons x xs)
  then show ?case by (cases x) (simp_all add: split_beta Let_def)
qed simp

lemma run_inv_kept: "inv t \<Longrightarrow> inv (fst (link_run dlv pol t xs))"
proof (induction xs arbitrary: t)
  case (Cons x xs)
  then show ?case by (cases x) (simp_all add: split_beta Let_def deliver_inv poll_inv)
qed simp

text \<open>Polled often enough, the frames are exactly the delivered operations, in order.\<close>

lemma run_drained:
  assumes "inv t" and "buf t = []"
  shows "concat (snd (link_run dlv pol t (xs @ replicate (length xs) Poll))) = delivered xs"
proof -
  let ?u = "fst (link_run dlv pol t xs)" and ?ys = "xs @ replicate (length xs) Poll"
  have "length (buf ?u) \<le> length xs"
    using arg_cong [OF run_frames [of t xs], of length] delivered_le [of xs] assms(2) by simp
  then have "\<not> pending (fst (link_run dlv pol ?u (replicate (length xs) Poll)))"
    by (rule polls_drain [OF run_inv_kept [OF assms(1)]])
  then have "buf (fst (link_run dlv pol t ?ys)) = []" by (simp add: run_append pending_buf)
  moreover have "delivered ?ys = delivered xs" by (simp add: delivered_append delivered_polls)
  ultimately show ?thesis using run_frames [of t ?ys] assms(2) by simp
qed

end

interpretation inproc: transport ip_deliver ip_poll ip_has_pending ip_buf "\<lambda>_. True"
  by unfold_locales (simp_all add: ip_deliver_def ip_poll_def ip_has_pending_def)

interpretation framed: transport ft_deliver ft_poll ft_has_pending ft_buf "\<lambda>t. 0 < ft_frame_size t"
  by unfold_locales (auto simp: ft_deliver_def ft_poll_def ft_has_pending_def Let_def)

section \<open>Outbox and inbox\<close>

record 'a outbox =
  ob_policy :: bp_policy
  ob_relay :: "'a relay"

definition ob_new ::
  "int \<Rightarrow> 'a merge_policy \<Rightarrow> bound_dim \<Rightarrow> overflow \<Rightarrow> relay_config_error + 'a outbox" where
  "ob_new high mp dim ov =
     (let pol = bp_new dim high (high div 2) ov
      in case relay_new pol mp of
           Inl e \<Rightarrow> Inl e
         | Inr r \<Rightarrow> Inr \<lparr>ob_policy = pol, ob_relay = r\<rparr>)"

definition ob_send :: "'a outbox \<Rightarrow> 'a \<Rightarrow> 'a outbox \<times> ingress_outcome" where
  "ob_send b op =
     (let (r, out) = relay_ingress (ob_policy b) (ob_relay b) op in (b\<lparr>ob_relay := r\<rparr>, out))"

definition ob_drain :: "'a outbox \<Rightarrow> 'a outbox \<times> 'a option" where
  "ob_drain b = (let (r, out) = relay_drain (ob_relay b) in (b\<lparr>ob_relay := r\<rparr>, out))"

definition ob_is_full :: "'a outbox \<Rightarrow> bool" where
  "ob_is_full b = relay_is_full (ob_policy b) (ob_relay b)"

record 'a inbox =
  ib_policy :: bp_policy
  ib_relay :: "'a relay"
  ib_credits :: int
  ib_max_credits :: int

definition ib_new ::
  "int \<Rightarrow> int \<Rightarrow> 'a merge_policy \<Rightarrow> overflow \<Rightarrow> relay_config_error + 'a inbox" where
  "ib_new high max_credits mp ov =
     (let pol = bp_new Count high (high div 2) ov
      in case relay_new pol mp of
           Inl e \<Rightarrow> Inl e
         | Inr r \<Rightarrow> Inr \<lparr>ib_policy = pol, ib_relay = r, ib_credits = max_credits,
                       ib_max_credits = max_credits\<rparr>)"

definition ib_ready :: "'a inbox \<Rightarrow> bool" where
  "ib_ready b \<longleftrightarrow> ib_credits b > 0"

definition ib_receive :: "'a inbox \<Rightarrow> 'a \<Rightarrow> 'a inbox \<times> ingress_outcome" where
  "ib_receive b op =
     (let b1 = b\<lparr>ib_credits := max 0 (ib_credits b - 1)\<rparr>;
          (r, out) = relay_ingress (ib_policy b1) (ib_relay b1) op
      in (b1\<lparr>ib_relay := r\<rparr>, out))"

definition ib_consume :: "'a inbox \<Rightarrow> int \<Rightarrow> 'a inbox \<times> 'a option" where
  "ib_consume b replenish =
     (let (r, out) = relay_drain (ib_relay b)
      in (b\<lparr>ib_relay := r, ib_credits := min (ib_credits b + replenish) (ib_max_credits b)\<rparr>, out))"

datatype 'a inbox_op = Receive 'a | Consume int

fun ib_step :: "'a inbox \<Rightarrow> 'a inbox_op \<Rightarrow> 'a inbox" where
  "ib_step b (Receive op) = fst (ib_receive b op)"
| "ib_step b (Consume n) = fst (ib_consume b n)"

definition ib_run :: "'a inbox \<Rightarrow> 'a inbox_op list \<Rightarrow> 'a inbox" where
  "ib_run b xs = foldl ib_step b xs"

definition ib_inv :: "'a inbox \<Rightarrow> bool" where
  "ib_inv b \<longleftrightarrow> 0 \<le> ib_credits b \<and> ib_credits b \<le> ib_max_credits b \<and> relay_inv (ib_relay b)"

fun replenish_ok :: "'a inbox_op \<Rightarrow> bool" where
  "replenish_ok (Receive op) = True"
| "replenish_ok (Consume n) = (0 \<le> n)"

lemma ib_step_inv: "ib_inv b \<Longrightarrow> replenish_ok x \<Longrightarrow> ib_inv (ib_step b x)"
  using relay_ingress_inv [of "ib_relay b"] relay_drain_inv [of "ib_relay b"]
  by (cases x) (auto simp: ib_inv_def ib_receive_def ib_consume_def split_beta Let_def)

lemma ib_step_max [simp]: "ib_max_credits (ib_step b x) = ib_max_credits b"
  by (cases x) (simp_all add: ib_receive_def ib_consume_def split_beta Let_def)

lemma ib_run_inv:
  "ib_inv b \<Longrightarrow> list_all replenish_ok xs \<Longrightarrow> ib_inv (ib_run b xs) \<and> ib_max_credits (ib_run b xs) = ib_max_credits b"
  unfolding ib_run_def by (induction xs arbitrary: b) (auto simp: ib_step_inv)

text \<open>
  Flow control: between two consumes the remote can deliver at most as many operations as
  there were credits before it finds the inbox not ready.
\<close>

lemma ib_receives_credits:
  "0 \<le> ib_credits b \<Longrightarrow>
     ib_credits (ib_run b (map Receive ops)) = max 0 (ib_credits b - int (length ops))"
proof (induction ops arbitrary: b)
  case (Cons op ops)
  have c: "ib_credits (ib_step b (Receive op)) = max 0 (ib_credits b - 1)"
    by (simp add: ib_receive_def split_beta Let_def)
  with Cons.IH [of "ib_step b (Receive op)"] show ?case
    by (simp add: ib_run_def c)
qed (simp add: ib_run_def)

end
