(* ===== verification/Pipeline.thy ===== *)
theory Pipeline
  imports Relay Spill RelayStages Merge
begin

text \<open>
  The data flow of \<^verbatim>\<open>src/lazily/relay.py\<close> put together: a relay whose drained windows are
  spilled, or carried by a transport to a merge cell downstream.
\<close>

definition head_of :: "'a relay_run \<Rightarrow> 'a list" where
  "head_of s = (case c_value (rl_head (rr_relay s)) of None \<Rightarrow> [] | Some w \<Rightarrow> [w])"

lemma converged_head: "rl_merge (rr_relay s) = mp \<Longrightarrow> converged s0 s = fold_ops mp s0 (rr_egress s @ head_of s)"
  by (simp add: converged_def head_of_def)

lemma reconstruct_spilled:
  assumes "merge_law mp" and "map fst ws = es"
  shows "reconstruct (spills (spill_new mode psize mp) ws) s0 hot =
    fold_ops mp s0 (es @ (case hot of None \<Rightarrow> [] | Some h \<Rightarrow> [h]))"
proof -
  have m: "ss_merge (spill_new mode psize mp) = mp" by (simp add: spill_new_def)
  have "fold_pages (spills (spill_new mode psize mp) ws) s0 = fold_ops mp s0 es"
    using merge_law.spills_fold [OF assms(1) m, of ws s0] assms(2) by (simp add: spill_new_def fold_pages_def)
  then show ?thesis using m by (simp add: reconstruct_def split: option.split)
qed

text \<open>What is polled from a framed transport, merged into a cell in the order of arrival.\<close>

lemma downstream_merged:
  "\<exists>m. mc_merges (merge_cell_new s0 mp)
      (concat (snd (link_run ft_deliver ft_poll (ft_new k) (ys @ replicate (length ys) Poll))) @ zs) = Inr m \<and>
    c_value (mc_cell m) = fold_ops mp s0 (delivered ys @ zs)"
proof -
  have "concat (snd (link_run ft_deliver ft_poll (ft_new k) (ys @ replicate (length ys) Poll))) = delivered ys"
    using framed.run_drained [of "ft_new k" ys] by (simp add: ft_new_def)
  moreover have "live (mc_cell (merge_cell_new s0 mp))" and "mc_policy (merge_cell_new s0 mp) = mp"
    and "c_value (mc_cell (merge_cell_new s0 mp)) = s0" by (simp_all add: merge_cell_new_def)
  ultimately show ?thesis
    using mc_merges_fold [of "merge_cell_new s0 mp" "delivered ys @ zs"] by auto
qed

end
