(* ===== verification/Kernel.thy ===== *)
theory Kernel
  imports Prelude
begin

text \<open>
  The synchronous reactive kernel (\<^verbatim>\<open>slot.py\<close>, \<^verbatim>\<open>cell.py\<close>, \<^verbatim>\<open>effect.py\<close>,
  \<^verbatim>\<open>batch.py\<close>, \<^verbatim>\<open>teardown.py\<close>): source cells, lazily cached slots and effects in one
  heap, the invalidation work-stack, batches and disposal.

  A node is its number of creation. A Python set of nodes is a list without duplicates in
  order of insertion. A compute body is opaque to the library except for the reads it makes
  through its compute view; it is the tree of those reads (\<open>Read\<close> a node, continue with
  its value, end with \<open>Ret\<close> a result), so which nodes it reads may depend on the values read.
  A slot's body runs under the base context (the identity resolver).
\<close>

section \<open>Nodes and the heap\<close>

datatype 'v comp = Ret 'v | Read nat "'v \<Rightarrow> 'v comp"

datatype 'v kind = SourceK | SlotK "'v comp" | EffectK "'v comp" bool

record 'v node =
  nd_kind :: "'v kind"
  nd_value :: "'v option"
  nd_parents :: "nat list"
  nd_deps :: "nat list"
  nd_disposed :: bool
  nd_running :: bool
  nd_started :: bool
  nd_cleanup :: bool

datatype 'v outcome = Val 'v | Disposed_error | Out_of_fuel | No_value

datatype 'v event = Ran nat 'v | Cleaned nat

text \<open>
  The fields after \<open>g_nodes\<close> are the context dictionary, the module globals of \<^verbatim>\<open>slot.py\<close> and
  \<^verbatim>\<open>batch.py\<close>, and two records of what the effects did: the log of runs and cleanups, and
  the result of each effect's last run while the graph still owes that effect a rerun when
  one of its reads changes.
\<close>

record 'v graph =
  g_size :: nat
  g_nodes :: "nat \<Rightarrow> 'v node"
  g_cache :: "nat \<Rightarrow> 'v option"
  g_work :: "nat list"
  g_active :: bool
  g_depth :: nat
  g_pending_cells :: "nat list"
  g_pending_effects :: "nat list"
  g_log :: "'v event list"
  g_seen :: "nat \<Rightarrow> 'v option"

abbreviation "kind_of g n \<equiv> nd_kind (g_nodes g n)"
abbreviation "value_of g n \<equiv> nd_value (g_nodes g n)"
abbreviation "parents g n \<equiv> nd_parents (g_nodes g n)"
abbreviation "deps g n \<equiv> nd_deps (g_nodes g n)"
abbreviation "disposed g n \<equiv> nd_disposed (g_nodes g n)"

definition blank :: "'v kind \<Rightarrow> 'v option \<Rightarrow> 'v node" where
  "blank k v = \<lparr>nd_kind = k, nd_value = v, nd_parents = [], nd_deps = [], nd_disposed = False,
     nd_running = False, nd_started = False, nd_cleanup = False\<rparr>"

definition empty_graph :: "'v graph" where
  "empty_graph = \<lparr>g_size = 0, g_nodes = (\<lambda>_. blank SourceK None), g_cache = (\<lambda>_. None), g_work = [],
     g_active = False, g_depth = 0, g_pending_cells = [], g_pending_effects = [], g_log = [],
     g_seen = (\<lambda>_. None)\<rparr>"

definition upd :: "nat \<Rightarrow> ('v node \<Rightarrow> 'v node) \<Rightarrow> 'v graph \<Rightarrow> 'v graph" where
  "upd n f g = g\<lparr>g_nodes := (g_nodes g)(n := f (g_nodes g n))\<rparr>"

definition set_cache :: "nat \<Rightarrow> 'v option \<Rightarrow> 'v graph \<Rightarrow> 'v graph" where
  "set_cache n v g = g\<lparr>g_cache := (g_cache g)(n := v)\<rparr>"

definition set_seen :: "nat \<Rightarrow> 'v option \<Rightarrow> 'v graph \<Rightarrow> 'v graph" where
  "set_seen n v g = g\<lparr>g_seen := (g_seen g)(n := v)\<rparr>"

definition add_log :: "'v event \<Rightarrow> 'v graph \<Rightarrow> 'v graph" where
  "add_log e g = g\<lparr>g_log := g_log g @ [e]\<rparr>"

definition add_new :: "nat \<Rightarrow> nat list \<Rightarrow> nat list" where
  "add_new x xs = (if x \<in> set xs then xs else xs @ [x])"

definition new_node :: "'v kind \<Rightarrow> 'v option \<Rightarrow> 'v graph \<Rightarrow> 'v graph" where
  "new_node k v g = g\<lparr>g_size := Suc (g_size g), g_nodes := (g_nodes g)(g_size g := blank k v)\<rparr>"

section \<open>Edges\<close>

definition register_edge :: "nat \<Rightarrow> nat \<Rightarrow> 'v graph \<Rightarrow> 'v graph" where
  "register_edge d r g =
     upd r (\<lambda>nd. nd\<lparr>nd_deps := add_new d (nd_deps nd)\<rparr>)
       (upd d (\<lambda>nd. nd\<lparr>nd_parents := add_new r (nd_parents nd)\<rparr>) g)"

definition drop_parent :: "nat \<Rightarrow> nat \<Rightarrow> 'v graph \<Rightarrow> 'v graph" where
  "drop_parent n d g = upd d (\<lambda>nd. nd\<lparr>nd_parents := removeAll n (nd_parents nd)\<rparr>) g"

definition detach_from_dependencies :: "nat \<Rightarrow> 'v graph \<Rightarrow> 'v graph" where
  "detach_from_dependencies n g =
     fold (drop_parent n) (deps g n) (upd n (\<lambda>nd. nd\<lparr>nd_deps := []\<rparr>) g)"

definition dependent_count :: "'v graph \<Rightarrow> nat \<Rightarrow> nat" where
  "dependent_count g n = length (parents g n)"

definition dependency_count :: "'v graph \<Rightarrow> nat \<Rightarrow> nat" where
  "dependency_count g n = length (deps g n)"

section \<open>Reading\<close>

text \<open>The body runs over a tracked read, threading the heap; the first failing read ends it.\<close>

primrec run_body :: "(nat \<Rightarrow> 'g \<Rightarrow> 'v outcome \<times> 'g) \<Rightarrow> 'v comp \<Rightarrow> 'g \<Rightarrow> 'v outcome \<times> 'g" where
  "run_body rd (Ret v) g = (Val v, g)"
| "run_body rd (Read m f) g =
     (case rd m g of (r, g') \<Rightarrow> (case r of Val v \<Rightarrow> run_body rd (f v) g' | _ \<Rightarrow> (r, g')))"

definition slot_call ::
  "(nat \<Rightarrow> 'v graph \<Rightarrow> 'v outcome \<times> 'v graph) \<Rightarrow> nat \<Rightarrow> 'v comp \<Rightarrow> 'v graph \<Rightarrow> 'v outcome \<times> 'v graph" where
  "slot_call rd n body g =
     (if disposed g n then (Disposed_error, g)
      else case g_cache g n of
        Some v \<Rightarrow> (Val v, g)
      | None \<Rightarrow>
          (case run_body (\<lambda>m g. rd m (register_edge m n g)) body (upd n (\<lambda>nd. nd\<lparr>nd_deps := []\<rparr>) g) of
             (r, g') \<Rightarrow> (case r of Val v \<Rightarrow> (r, set_cache n (Some v) g') | _ \<Rightarrow> (r, g'))))"

definition cell_value :: "nat \<Rightarrow> 'v graph \<Rightarrow> 'v outcome" where
  "cell_value n g =
     (if disposed g n then Disposed_error
      else case value_of g n of Some v \<Rightarrow> Val v | None \<Rightarrow> No_value)"

primrec read_untracked :: "nat \<Rightarrow> nat \<Rightarrow> 'v graph \<Rightarrow> 'v outcome \<times> 'v graph" where
  "read_untracked 0 n g = (Out_of_fuel, g)"
| "read_untracked (Suc k) n g =
     (case kind_of g n of
        SourceK \<Rightarrow> (cell_value n g, g)
      | SlotK body \<Rightarrow> slot_call (read_untracked k) n body g
      | EffectK _ _ \<Rightarrow> (No_value, g))"

definition compute_read :: "nat \<Rightarrow> nat \<Rightarrow> nat \<Rightarrow> 'v graph \<Rightarrow> 'v outcome \<times> 'v graph" where
  "compute_read k reader m g = read_untracked k m (register_edge m reader g)"

section \<open>Effects\<close>

definition run_cleanup :: "nat \<Rightarrow> 'v graph \<Rightarrow> 'v graph" where
  "run_cleanup e g =
     (if nd_cleanup (g_nodes g e) then add_log (Cleaned e) (upd e (\<lambda>nd. nd\<lparr>nd_cleanup := False\<rparr>) g)
      else g)"

definition effect_body :: "'v kind \<Rightarrow> ('v comp \<times> bool) option" where
  "effect_body k = (case k of EffectK b c \<Rightarrow> Some (b, c) | _ \<Rightarrow> None)"

definition finish_run :: "nat \<Rightarrow> bool \<Rightarrow> 'v outcome \<Rightarrow> 'v graph \<Rightarrow> 'v graph" where
  "finish_run e c r g =
     upd e (\<lambda>nd. nd\<lparr>nd_running := False\<rparr>)
       (case r of
          Val v \<Rightarrow> set_seen e (Some v) (add_log (Ran e v) (upd e (\<lambda>nd. nd\<lparr>nd_cleanup := c\<rparr>) g))
        | _ \<Rightarrow> set_seen e None g)"

definition effect_call :: "nat \<Rightarrow> 'v graph \<Rightarrow> 'v outcome option \<times> 'v graph" where
  "effect_call e g =
     (case effect_body (kind_of g e) of
        None \<Rightarrow> (None, g)
      | Some (body, c) \<Rightarrow>
          if disposed g e then (None, g)
          else
            let g1 = run_cleanup e (upd e (\<lambda>nd. nd\<lparr>nd_started := True\<rparr>) g);
                g2 = detach_from_dependencies e (upd e (\<lambda>nd. nd\<lparr>nd_running := True\<rparr>) g1);
                (r, g3) = run_body (\<lambda>m g. compute_read (g_size g) e m g) body g2
            in (case r of Val _ \<Rightarrow> None | _ \<Rightarrow> Some r, finish_run e c r g3))"

section \<open>The invalidation wave\<close>

definition push_work :: "nat list \<Rightarrow> 'v graph \<Rightarrow> 'v graph" where
  "push_work ps g = g\<lparr>g_work := rev ps @ g_work g\<rparr>"

definition clear_parents :: "nat \<Rightarrow> 'v graph \<Rightarrow> 'v graph" where
  "clear_parents n g = upd n (\<lambda>nd. nd\<lparr>nd_parents := []\<rparr>) g"

definition slot_invalidate :: "nat \<Rightarrow> 'v graph \<Rightarrow> 'v graph" where
  "slot_invalidate n g =
     (if disposed g n then g
      else push_work (parents g n) (clear_parents n (set_cache n None g)))"

definition enqueue_effect :: "nat \<Rightarrow> 'v graph \<Rightarrow> 'v graph" where
  "enqueue_effect e g = g\<lparr>g_pending_effects := add_new e (g_pending_effects g)\<rparr>"

definition effect_invalidate :: "nat \<Rightarrow> 'v graph \<Rightarrow> 'v outcome option \<times> 'v graph" where
  "effect_invalidate e g =
     (if disposed g e \<or> nd_running (g_nodes g e) then (None, g)
      else let g1 = clear_parents e g
           in if 0 < g_depth g1 then (None, enqueue_effect e g1)
              else if nd_started (g_nodes g1 e) then effect_call e g1 else (None, g1))"

definition invalidate :: "nat \<Rightarrow> 'v graph \<Rightarrow> 'v outcome option \<times> 'v graph" where
  "invalidate n g =
     (case kind_of g n of
        SourceK \<Rightarrow> (None, g)
      | SlotK _ \<Rightarrow> (None, slot_invalidate n g)
      | EffectK _ _ \<Rightarrow> effect_invalidate n g)"

text \<open>
  \<open>drain_loop\<close> is the loop of \<^verbatim>\<open>_drain_resets\<close>; an exception of a rerun leaves it with the rest
  of the work on the stack. Its fuel is the weight of the stack (each node weighs more than
  all the later nodes that can depend on it), which \<open>drain\<close> computes.
\<close>

fun drain_loop :: "nat \<Rightarrow> 'v graph \<Rightarrow> 'v outcome option \<times> 'v graph" where
  "drain_loop 0 g = (case g_work g of [] \<Rightarrow> (None, g) | _ \<Rightarrow> (Some Out_of_fuel, g))"
| "drain_loop (Suc k) g =
     (case g_work g of
        [] \<Rightarrow> (None, g)
      | n # ns \<Rightarrow>
          (case invalidate n (g\<lparr>g_work := ns\<rparr>) of
             (None, g') \<Rightarrow> drain_loop k g'
           | (Some e, g') \<Rightarrow> (Some e, g')))"

definition work_weight :: "nat \<Rightarrow> nat list \<Rightarrow> nat" where
  "work_weight N ns = sum_list (map (\<lambda>n. 2 ^ (N - n)) ns)"

definition drain :: "'v graph \<Rightarrow> 'v outcome option \<times> 'v graph" where
  "drain g =
     (if g_active g then (None, g)
      else case drain_loop (work_weight (g_size g) (g_work g)) (g\<lparr>g_active := True\<rparr>) of
        (e, g') \<Rightarrow> (e, g'\<lparr>g_active := False\<rparr>))"

definition slot_reset :: "nat \<Rightarrow> 'v graph \<Rightarrow> 'v outcome option \<times> 'v graph" where
  "slot_reset n g = drain (g\<lparr>g_work := n # g_work g\<rparr>)"

definition touch :: "nat \<Rightarrow> 'v graph \<Rightarrow> 'v outcome option \<times> 'v graph" where
  "touch n g =
     (if disposed g n \<or> parents g n = [] then (None, g)
      else drain (push_work (parents g n) (clear_parents n g)))"

section \<open>Writes and batches\<close>

definition notify_change :: "nat \<Rightarrow> 'v graph \<Rightarrow> 'v outcome option \<times> 'v graph" where
  "notify_change n g =
     (if 0 < g_depth g then (None, g\<lparr>g_pending_cells := add_new n (g_pending_cells g)\<rparr>) else touch n g)"

definition cell_write :: "nat \<Rightarrow> 'v \<Rightarrow> 'v graph \<Rightarrow> 'v outcome option \<times> 'v graph" where
  "cell_write n v g =
     (if disposed g n then (None, g)
      else let g1 = upd n (\<lambda>nd. nd\<lparr>nd_value := Some v\<rparr>) g
           in if value_of g n \<noteq> Some v then notify_change n g1 else (None, g1))"

definition batch_rerun :: "nat \<Rightarrow> 'v graph \<Rightarrow> 'v outcome option \<times> 'v graph" where
  "batch_rerun e g =
     (if disposed g e then (None, g)
      else if nd_started (g_nodes g e) then effect_call e g else (None, g))"

text \<open>
  A sequence of calls that stops at the first exception.
\<close>

primrec each :: "(nat \<Rightarrow> 'v graph \<Rightarrow> 'v outcome option \<times> 'v graph) \<Rightarrow> nat list \<Rightarrow>
    'v graph \<Rightarrow> 'v outcome option \<times> 'v graph" where
  "each f [] g = (None, g)"
| "each f (n # ns) g = (case f n g of (None, g') \<Rightarrow> each f ns g' | (Some e, g') \<Rightarrow> (Some e, g'))"

definition touch_pending :: "nat \<Rightarrow> 'v graph \<Rightarrow> 'v graph" where
  "touch_pending n g = snd (touch n g)"

definition flush_wave :: "'v graph \<Rightarrow> 'v outcome option \<times> 'v graph" where
  "flush_wave g =
     (let cells = g_pending_cells g;
          g1 = fold touch_pending cells (g\<lparr>g_pending_cells := [], g_active := True\<rparr>)
      in drain (g1\<lparr>g_active := False\<rparr>))"

definition flush_effects :: "'v graph \<Rightarrow> 'v outcome option \<times> 'v graph" where
  "flush_effects g = each batch_rerun (g_pending_effects g) (g\<lparr>g_pending_effects := []\<rparr>)"

definition flush :: "'v graph \<Rightarrow> 'v outcome option \<times> 'v graph" where
  "flush g = (case flush_wave g of (None, g') \<Rightarrow> flush_effects g' | (Some e, g') \<Rightarrow> (Some e, g'))"

definition batch_enter :: "'v graph \<Rightarrow> 'v graph" where
  "batch_enter g = g\<lparr>g_depth := g_depth g + 1\<rparr>"

text \<open>
  The decrement follows the flush inside the \<^verbatim>\<open>finally\<close>: when the flush raises, it does not happen.
\<close>

definition batch_exit :: "'v graph \<Rightarrow> 'v outcome option \<times> 'v graph" where
  "batch_exit g =
     (if g_depth g = 1
      then (case flush g of
              (None, g') \<Rightarrow> (None, g'\<lparr>g_depth := g_depth g' - 1\<rparr>)
            | (Some e, g') \<Rightarrow> (Some e, g'))
      else (None, g\<lparr>g_depth := g_depth g - 1\<rparr>))"

section \<open>Disposal\<close>

definition drop_cached :: "nat \<Rightarrow> 'v graph \<Rightarrow> 'v graph" where
  "drop_cached n g = set_seen n None (set_cache n None g)"

text \<open>
  The walk of \<^verbatim>\<open>_dirty_disposed_dependents\<close>, with the weight of its stack as fuel. It schedules
  nothing: an effect it reaches loses the subscriptions the walk clears, so the graph no
  longer owes it a rerun.
\<close>

fun dirty_loop :: "nat \<Rightarrow> nat list \<Rightarrow> 'v graph \<Rightarrow> nat list \<times> 'v graph" where
  "dirty_loop 0 st g = (st, g)"
| "dirty_loop (Suc k) [] g = ([], g)"
| "dirty_loop (Suc k) (n # ns) g =
     (if disposed g n then dirty_loop k ns g
      else dirty_loop k (rev (parents g n) @ ns) (drop_cached n (clear_parents n g)))"

definition dirty_disposed_dependents :: "nat list \<Rightarrow> 'v graph \<Rightarrow> 'v graph" where
  "dirty_disposed_dependents roots g = snd (dirty_loop (work_weight (g_size g) roots) (rev roots) g)"

definition mark_disposed :: "nat \<Rightarrow> 'v graph \<Rightarrow> 'v graph" where
  "mark_disposed n g = upd n (\<lambda>nd. nd\<lparr>nd_disposed := True\<rparr>) g"

definition source_dispose :: "nat \<Rightarrow> 'v graph \<Rightarrow> 'v graph" where
  "source_dispose n g =
     (if disposed g n then g
      else dirty_disposed_dependents (parents g n) (clear_parents n (mark_disposed n g)))"

definition slot_dispose :: "nat \<Rightarrow> 'v graph \<Rightarrow> 'v graph" where
  "slot_dispose n g =
     (if disposed g n then g
      else let g1 = detach_from_dependencies n (set_cache n None (mark_disposed n g))
           in dirty_disposed_dependents (parents g1 n) (clear_parents n g1))"

definition effect_dispose :: "nat \<Rightarrow> 'v graph \<Rightarrow> 'v graph" where
  "effect_dispose n g =
     (if disposed g n then g
      else let g1 = detach_from_dependencies n (set_seen n None (mark_disposed n g));
               g2 = clear_parents n g1;
               g3 = (if nd_started (g_nodes g n) then dirty_disposed_dependents (parents g1 n) g2 else g2)
           in run_cleanup n g3)"

definition dispose_node :: "nat \<Rightarrow> 'v graph \<Rightarrow> 'v graph" where
  "dispose_node n g =
     (case kind_of g n of
        SourceK \<Rightarrow> source_dispose n g | SlotK _ \<Rightarrow> slot_dispose n g | EffectK _ _ \<Rightarrow> effect_dispose n g)"

text \<open>A teardown scope: the nodes it owns, disposed in reverse order of adoption.\<close>

record scope =
  sc_owned :: "nat list"
  sc_armed :: bool

definition scope_new :: scope where
  "scope_new = \<lparr>sc_owned = [], sc_armed = True\<rparr>"

definition scope_adopt :: "nat \<Rightarrow> scope \<Rightarrow> scope" where
  "scope_adopt n s = s\<lparr>sc_owned := sc_owned s @ [n]\<rparr>"

definition scope_disarm :: "scope \<Rightarrow> scope" where
  "scope_disarm s = s\<lparr>sc_armed := False, sc_owned := []\<rparr>"

definition scope_close :: "scope \<Rightarrow> 'v graph \<Rightarrow> scope \<times> 'v graph" where
  "scope_close s g =
     (if \<not> sc_armed s then (s, g)
      else (s\<lparr>sc_owned := []\<rparr>, fold dispose_node (rev (sc_owned s)) g))"

section \<open>Programs over the graph\<close>

text \<open>
  What a client does, at top level: create nodes, start an effect, write, read, reset, dispose,
  and open or close a batch. An exception reaches the client and leaves the heap as the call left it.
\<close>

datatype 'v gop = New_source 'v | New_slot "'v comp" | New_effect "'v comp" bool | Start nat
  | Write nat 'v | Pull nat | Reset nat | Dispose nat | Enter | Exit

definition gstep :: "'v gop \<Rightarrow> 'v graph \<Rightarrow> 'v outcome option \<times> 'v graph" where
  "gstep c g =
     (case c of
        New_source v \<Rightarrow> (None, new_node SourceK (Some v) g)
      | New_slot b \<Rightarrow> (None, new_node (SlotK b) None g)
      | New_effect b cl \<Rightarrow> (None, new_node (EffectK b cl) None g)
      | Start e \<Rightarrow> effect_call e g
      | Write n v \<Rightarrow> (case kind_of g n of SourceK \<Rightarrow> cell_write n v g | _ \<Rightarrow> (None, g))
      | Pull n \<Rightarrow> (case read_untracked (g_size g) n g of (r, g') \<Rightarrow> (Some r, g'))
      | Reset n \<Rightarrow> (case kind_of g n of SourceK \<Rightarrow> (None, g) | _ \<Rightarrow> slot_reset n g)
      | Dispose n \<Rightarrow> (None, dispose_node n g)
      | Enter \<Rightarrow> (None, batch_enter g)
      | Exit \<Rightarrow> if g_depth g = 0 then (None, g) else batch_exit g)"

definition grun :: "'v gop list \<Rightarrow> 'v graph \<Rightarrow> 'v graph" where
  "grun cs g = fold (\<lambda>c g. snd (gstep c g)) cs g"

end
