(* ===== verification/KernelInv.thy ===== *)
theory KernelInv
  imports Kernel
begin

text \<open>
  The invariant of the reactive kernel: every cached slot and every subscribed effect is
  either owed an invalidation or holds the result its body gives on the values of its reads,
  with an edge from each of them.
\<close>

lemmas prims = upd_def set_cache_def set_seen_def add_log_def register_edge_def drop_parent_def
  clear_parents_def push_work_def mark_disposed_def enqueue_effect_def drop_cached_def

section \<open>Bodies over an environment\<close>

primrec trace :: "(nat \<Rightarrow> 'v option) \<Rightarrow> 'v comp \<Rightarrow> nat list" where
  "trace ev (Ret v) = []"
| "trace ev (Read m f) = m # (case ev m of None \<Rightarrow> [] | Some v \<Rightarrow> trace ev (f v))"

primrec eval_in :: "(nat \<Rightarrow> 'v option) \<Rightarrow> 'v comp \<Rightarrow> 'v option" where
  "eval_in ev (Ret v) = Some v"
| "eval_in ev (Read m f) = (case ev m of None \<Rightarrow> None | Some v \<Rightarrow> eval_in ev (f v))"

primrec below :: "nat \<Rightarrow> 'v comp \<Rightarrow> bool" where
  "below n (Ret v) = True"
| "below n (Read m f) = (m < n \<and> (\<forall>v. below n (f v)))"

lemma eval_in_env: "eval_in ev b = Some v \<Longrightarrow> m \<in> set (trace ev b) \<Longrightarrow> ev m \<noteq> None"
  by (induction b) (auto split: option.splits)

lemma eval_in_cong:
  "(\<And>m. m \<in> set (trace ev b) \<Longrightarrow> ev' m = ev m) \<Longrightarrow> eval_in ev' b = eval_in ev b \<and> trace ev' b = trace ev b"
  by (induction b) (auto split: option.splits)

lemma eval_in_mono:
  assumes "eval_in ev b = Some v" and "\<And>m w. ev m = Some w \<Longrightarrow> ev' m = Some w"
  shows "eval_in ev' b = Some v \<and> trace ev' b = trace ev b"
proof -
  have "ev' m = ev m" if "m \<in> set (trace ev b)" for m
    using eval_in_env [OF assms(1) that] assms(2) by force
  then show ?thesis using eval_in_cong [of ev b ev'] assms(1) by simp
qed

lemma trace_below: "below n b \<Longrightarrow> m \<in> set (trace ev b) \<Longrightarrow> m < n"
  by (induction b) (auto split: option.splits)

section \<open>The invariant\<close>

definition env :: "'v graph \<Rightarrow> nat \<Rightarrow> 'v option" where
  "env g m = (if disposed g m then None
     else case kind_of g m of SourceK \<Rightarrow> value_of g m | SlotK _ \<Rightarrow> g_cache g m | EffectK _ _ \<Rightarrow> None)"

definition body_of :: "'v kind \<Rightarrow> 'v comp option" where
  "body_of k = (case k of SourceK \<Rightarrow> None | SlotK b \<Rightarrow> Some b | EffectK b _ \<Rightarrow> Some b)"

definition result :: "'v graph \<Rightarrow> nat \<Rightarrow> 'v option" where
  "result g n = (case kind_of g n of SourceK \<Rightarrow> None | SlotK _ \<Rightarrow> g_cache g n | EffectK _ _ \<Rightarrow> g_seen g n)"

definition settled :: "'v graph \<Rightarrow> nat \<Rightarrow> 'v comp \<Rightarrow> 'v \<Rightarrow> bool" where
  "settled g n b v \<longleftrightarrow> eval_in (env g) b = Some v \<and> (\<forall>m\<in>set (trace (env g) b). n \<in> set (parents g m))"

definition owed :: "'v graph \<Rightarrow> nat \<Rightarrow> bool" where
  "owed g n \<longleftrightarrow> n \<in> set (g_work g) \<or> n \<in> set (g_pending_effects g) \<or>
     (\<exists>s\<in>set (g_pending_cells g). \<not> disposed g s \<and> n \<in> set (parents g s))"

definition coherent_except :: "nat set \<Rightarrow> 'v graph \<Rightarrow> bool" where
  "coherent_except X g \<longleftrightarrow> (\<forall>n b v. n \<notin> X \<longrightarrow> body_of (kind_of g n) = Some b \<longrightarrow> result g n = Some v \<longrightarrow>
     owed g n \<or> settled g n b v)"

definition wf_graph :: "'v graph \<Rightarrow> bool" where
  "wf_graph g \<longleftrightarrow>
     (\<forall>n b. body_of (kind_of g n) = Some b \<longrightarrow> n < g_size g \<and> below n b) \<and>
     (\<forall>n p. p \<in> set (parents g n) \<longrightarrow> n < p \<and> p < g_size g) \<and> (\<forall>n. distinct (parents g n)) \<and>
     (\<forall>n v. result g n = Some v \<longrightarrow> \<not> disposed g n) \<and>
     (\<forall>n\<ge>g_size g. g_cache g n = None \<and> g_seen g n = None) \<and> distinct (g_pending_effects g) \<and>
     (\<forall>s\<in>set (g_pending_cells g). s < g_size g \<and> kind_of g s = SourceK) \<and>
     (\<forall>n\<in>set (g_work g). n < g_size g) \<and>
     (\<forall>e\<in>set (g_pending_effects g). \<exists>b c. kind_of g e = EffectK b c)"

section \<open>Reads only add\<close>

definition grows :: "nat \<Rightarrow> 'v graph \<Rightarrow> 'v graph \<Rightarrow> bool" where
  "grows n g g' \<longleftrightarrow> g_size g' = g_size g \<and>
     (\<forall>m. kind_of g' m = kind_of g m \<and> value_of g' m = value_of g m \<and> disposed g' m = disposed g m \<and>
        nd_running (g_nodes g' m) = nd_running (g_nodes g m) \<and>
        nd_started (g_nodes g' m) = nd_started (g_nodes g m) \<and>
        nd_cleanup (g_nodes g' m) = nd_cleanup (g_nodes g m) \<and>
        set (parents g m) \<subseteq> set (parents g' m)) \<and>
     (\<forall>m v. g_cache g m = Some v \<longrightarrow> g_cache g' m = Some v) \<and> (\<forall>m\<ge>n. g_cache g' m = g_cache g m) \<and>
     g_work g' = g_work g \<and> g_pending_cells g' = g_pending_cells g \<and>
     g_pending_effects g' = g_pending_effects g \<and> g_seen g' = g_seen g \<and> g_depth g' = g_depth g \<and>
     g_active g' = g_active g \<and> g_log g' = g_log g"

lemma grows_refl [simp]: "grows n g g" by (simp add: grows_def)

lemma grows_trans: "grows n g g' \<Longrightarrow> grows n g' g'' \<Longrightarrow> grows n g g''"
  by (fastforce simp: grows_def)

lemma grows_le: "grows n g g' \<Longrightarrow> n \<le> m \<Longrightarrow> grows m g g'"
  by (auto simp: grows_def)

lemma grows_register [simp]: "grows n g (register_edge m r g)"
  by (auto simp: grows_def prims add_new_def)

lemma grows_deps [simp]: "grows n g (upd r (\<lambda>nd. nd\<lparr>nd_deps := d\<rparr>) g)"
  by (auto simp: grows_def prims)

lemma grows_env: "grows n g g' \<Longrightarrow> env g m = Some v \<Longrightarrow> env g' m = Some v"
  by (auto simp: grows_def env_def split: if_splits kind.splits)

lemma grows_settled:
  assumes "grows k g g'" and "settled g n b v" shows "settled g' n b v"
proof -
  have "eval_in (env g') b = Some v \<and> trace (env g') b = trace (env g) b"
    using assms(2) grows_env [OF assms(1)] by (intro eval_in_mono) (auto simp: settled_def)
  then show ?thesis using assms by (auto simp: settled_def grows_def)
qed

lemma grows_owed: "grows k g g' \<Longrightarrow> owed g n \<Longrightarrow> owed g' n"
  by (fastforce simp: grows_def owed_def)

lemma in_register [simp]: "r \<in> set (parents (register_edge m r g) m)"
  by (auto simp: prims add_new_def)

lemma wf_register: "wf_graph g \<Longrightarrow> m < r \<Longrightarrow> r < g_size g \<Longrightarrow> wf_graph (register_edge m r g)"
  by (auto simp: wf_graph_def prims add_new_def result_def split: if_splits kind.splits)

lemma wf_deps: "wf_graph g \<Longrightarrow> wf_graph (upd r (\<lambda>nd. nd\<lparr>nd_deps := d\<rparr>) g)"
  by (auto simp: wf_graph_def prims result_def split: if_splits kind.splits)

text \<open>A growing heap stays coherent when every result it adds is settled.\<close>

lemma grows_coherent:
  assumes "grows k g g'" and "coherent_except X g"
    and "\<And>n b v. n \<notin> X \<Longrightarrow> body_of (kind_of g n) = Some b \<Longrightarrow> result g' n = Some v \<Longrightarrow> result g n \<noteq> Some v
      \<Longrightarrow> settled g' n b v"
  shows "coherent_except X g'"
  unfolding coherent_except_def
proof (intro allI impI)
  fix n b v
  assume n: "n \<notin> X" and b: "body_of (kind_of g' n) = Some b" and v: "result g' n = Some v"
  have b': "body_of (kind_of g n) = Some b" using b assms(1) by (simp add: grows_def)
  show "owed g' n \<or> settled g' n b v"
  proof (cases "result g n = Some v")
    case True
    then have "owed g n \<or> settled g n b v" using assms(2) n b' unfolding coherent_except_def by blast
    then show ?thesis using grows_owed [OF assms(1)] grows_settled [OF assms(1)] by blast
  qed (use assms(3) n b' v in blast)
qed

lemma coherent_register: "coherent_except X g \<Longrightarrow> coherent_except X (register_edge m r g)"
  by (rule grows_coherent [OF grows_register [of 0]]) (auto simp: result_def prims split: kind.splits if_splits)

lemma coherent_deps: "coherent_except X g \<Longrightarrow> coherent_except X (upd r (\<lambda>nd. nd\<lparr>nd_deps := d\<rparr>) g)"
  by (rule grows_coherent [OF grows_deps [of 0]]) (auto simp: result_def prims split: kind.splits if_splits)

section \<open>What a read gives\<close>

definition read_ok :: "nat set \<Rightarrow> nat \<Rightarrow> 'v graph \<Rightarrow> 'v outcome \<times> 'v graph \<Rightarrow> bool" where
  "read_ok X n g p \<longleftrightarrow> grows (Suc n) g (snd p) \<and> wf_graph (snd p) \<and> coherent_except X (snd p) \<and>
     (\<forall>v. fst p = Val v \<longrightarrow> env (snd p) n = Some v)"

lemma read_ok_register:
  assumes "read_ok X m (register_edge m r g) p"
  shows "read_ok X m g p \<and> r \<in> set (parents (snd p) m)"
proof -
  have gr: "grows (Suc m) (register_edge m r g) (snd p)" using assms by (simp add: read_ok_def)
  have "set (parents (register_edge m r g) m) \<subseteq> set (parents (snd p) m)"
    using gr by (simp add: grows_def)
  then show ?thesis using assms in_register [of r m g] grows_trans [OF grows_register gr]
    unfolding read_ok_def by blast
qed

lemma run_body_ok:
  assumes rd: "\<And>m g. m < n \<Longrightarrow> wf_graph g \<Longrightarrow> coherent_except X g \<Longrightarrow> r < g_size g \<Longrightarrow>
      read_ok X m g (rd m g) \<and> r \<in> set (parents (snd (rd m g)) m)"
    and "below n b" and "wf_graph g" and "coherent_except X g" and "r < g_size g"
  shows "grows n g (snd (run_body rd b g)) \<and> wf_graph (snd (run_body rd b g)) \<and>
     coherent_except X (snd (run_body rd b g)) \<and>
     (\<forall>v. fst (run_body rd b g) = Val v \<longrightarrow> settled (snd (run_body rd b g)) r b v)"
  using assms(2-)
proof (induction b arbitrary: g)
  case (Ret v)
  then show ?case by (simp add: settled_def)
next
  case (Read m f)
  obtain o1 g1 where rd1: "rd m g = (o1, g1)" by force
  have m: "m < n" using Read.prems by simp
  have ok: "read_ok X m g (o1, g1)" and edge: "r \<in> set (parents g1 m)"
    using rd [OF m Read.prems(2-4)] rd1 by auto
  have gr: "grows n g g1" using ok m by (auto simp: read_ok_def intro: grows_le)
  show ?case
  proof (cases o1)
    case (Val v)
    let ?p = "run_body rd (f v) g1"
    have "grows n g1 (snd ?p) \<and> wf_graph (snd ?p) \<and> coherent_except X (snd ?p) \<and>
        (\<forall>w. fst ?p = Val w \<longrightarrow> settled (snd ?p) r (f v) w)"
      using Read.prems gr ok by (intro Read.IH) (auto simp: read_ok_def grows_def)
    moreover have "env (snd ?p) m = Some v" if "grows n g1 (snd ?p)"
      using ok Val grows_env [OF that] by (simp add: read_ok_def)
    moreover have "r \<in> set (parents (snd ?p) m)" if "grows n g1 (snd ?p)"
      using edge that by (auto simp: grows_def)
    ultimately show ?thesis using rd1 Val gr by (auto simp: settled_def intro: grows_trans)
  qed (use rd1 gr ok in \<open>auto simp: read_ok_def\<close>)
qed

lemma wf_body: "wf_graph g \<Longrightarrow> body_of (kind_of g n) = Some b \<Longrightarrow> n < g_size g \<and> below n b"
  by (auto simp: wf_graph_def)

lemma store_slot:
  assumes "grows n g g'" and "wf_graph g'" and "coherent_except X g'" and "settled g' n b v"
    and "kind_of g n = SlotK b" and "\<not> disposed g n" and "g_cache g n = None"
  shows "read_ok X n g (Val v, set_cache n (Some v) g')"
proof -
  have cache: "g_cache g' n = None" and k: "kind_of g' n = SlotK b" and nd: "\<not> disposed g' n"
    using assms by (auto simp: grows_def)
  have gr: "grows (Suc n) g' (set_cache n (Some v) g')" using cache by (auto simp: grows_def prims)
  have "n < g_size g'" using wf_body [OF assms(2), of n b] k by (simp add: body_of_def)
  then have "wf_graph (set_cache n (Some v) g')"
    using assms(2) nd k by (auto simp: wf_graph_def prims result_def split: if_splits kind.splits)
  moreover have "coherent_except X (set_cache n (Some v) g')"
    by (rule grows_coherent [OF gr assms(3)])
       (use k grows_settled [OF gr assms(4)] in \<open>auto simp: result_def prims body_of_def split: kind.splits if_splits\<close>)
  ultimately show ?thesis
    using grows_trans [OF grows_le [OF assms(1)] gr] k nd by (simp add: read_ok_def env_def prims)
qed

lemma slot_call_ok:
  assumes rd: "\<And>m g. m < n \<Longrightarrow> wf_graph g \<Longrightarrow> coherent_except X g \<Longrightarrow> read_ok X m g (rd m g)"
    and k: "kind_of g n = SlotK b" and wf: "wf_graph g" and coh: "coherent_except X g"
  shows "read_ok X n g (slot_call rd n b g)"
proof (cases "disposed g n \<or> g_cache g n \<noteq> None")
  case True
  then show ?thesis using assms by (auto simp: slot_call_def read_ok_def env_def)
next
  case False
  have nb: "n < g_size g" "below n b" using wf_body [OF wf, of n b] k by (simp_all add: body_of_def)
  let ?g = "upd n (\<lambda>nd. nd\<lparr>nd_deps := []\<rparr>) g" and ?rd = "\<lambda>m g. rd m (register_edge m n g)"
  let ?p = "run_body ?rd b ?g"
  have run: "grows n ?g (snd ?p) \<and> wf_graph (snd ?p) \<and> coherent_except X (snd ?p) \<and>
      (\<forall>v. fst ?p = Val v \<longrightarrow> settled (snd ?p) n b v)"
  proof (rule run_body_ok)
    fix m h assume m: "m < n" and h: "wf_graph h" "coherent_except X h" "n < g_size (h :: 'a graph)"
    have "read_ok X m (register_edge m n h) (rd m (register_edge m n h))"
      using rd [OF m wf_register coherent_register] m h by blast
    then show "read_ok X m h (rd m (register_edge m n h)) \<and>
        n \<in> set (parents (snd (rd m (register_edge m n h))) m)"
      by (rule read_ok_register)
  qed (use nb wf coh wf_deps coherent_deps in \<open>auto simp: upd_def\<close>)
  have gr: "grows n g (snd ?p)" using run by (blast intro: grows_trans [OF grows_deps])
  show ?thesis
  proof (cases "fst ?p")
    case (Val v)
    then show ?thesis using False run store_slot [OF gr] k
      by (auto simp: slot_call_def split_beta)
  qed (use False run gr in \<open>auto simp: slot_call_def split_beta read_ok_def intro: grows_le\<close>)
qed

lemma read_untracked_ok:
  "wf_graph g \<Longrightarrow> coherent_except X g \<Longrightarrow> read_ok X n g (read_untracked k n g)"
proof (induction k arbitrary: n g)
  case (Suc k)
  then show ?case using slot_call_ok [of n X "read_untracked k" g]
    by (auto simp: read_ok_def cell_value_def env_def split: kind.splits option.splits)
qed (simp add: read_ok_def)

lemma compute_read_ok:
  assumes "wf_graph g" and "coherent_except X g" and "m < r" and "r < g_size g"
  shows "read_ok X m g (compute_read k r m g) \<and> r \<in> set (parents (snd (compute_read k r m g)) m)"
proof -
  have "read_ok X m (register_edge m r g) (compute_read k r m g)"
    using assms by (simp add: compute_read_def read_untracked_ok wf_register coherent_register)
  then show ?thesis by (rule read_ok_register)
qed

end
