(* ===== verification/KernelSteps.thy ===== *)
theory KernelSteps
  imports KernelInv
begin

text \<open>
  Every operation of the kernel keeps the invariant: effect runs, the invalidation wave,
  writes, batches and disposal.
\<close>

definition idle :: "'v graph \<Rightarrow> bool" where
  "idle g \<longleftrightarrow>
     (\<forall>n. \<not> nd_running (g_nodes g n) \<and> (g_seen g n \<noteq> None \<longrightarrow> nd_started (g_nodes g n)))"

definition frame :: "'v graph \<Rightarrow> 'v graph \<Rightarrow> bool" where
  "frame g g' \<longleftrightarrow> g_size g' = g_size g \<and> g_pending_cells g' = g_pending_cells g \<and> g_depth g' = g_depth g \<and>
     g_active g' = g_active g \<and>
     (\<forall>m. kind_of g' m = kind_of g m \<and> value_of g' m = value_of g m \<and> disposed g' m = disposed g m)"

lemma frame_refl [simp]: "frame g g" by (simp add: frame_def)

lemma frame_trans: "frame g g' \<Longrightarrow> frame g' g'' \<Longrightarrow> frame g g''" by (simp add: frame_def)

lemma grows_frame: "grows n g g' \<Longrightarrow> frame g g'" by (simp add: grows_def frame_def)

section \<open>A change at one node\<close>

text \<open>
  The step all operations share: the heap changes at node \<open>n\<close> only, whoever loses an edge or
  an excuse is owed an invalidation afterwards or is in \<open>Y\<close>, and no result appears.
\<close>

lemma coherent_cut:
  assumes coh: "coherent_except X g"
    and kind: "\<And>m. kind_of g' m = kind_of g m"
    and away: "\<And>m. m \<noteq> n \<Longrightarrow> env g' m = env g m \<and> set (parents g m) \<subseteq> set (parents g' m)"
    and res: "\<And>p v. p \<notin> Y \<Longrightarrow> result g' p = Some v \<Longrightarrow> result g p = Some v \<and> p \<notin> X"
    and lost: "\<And>p. env g n \<noteq> None \<Longrightarrow> p \<in> set (parents g n) \<Longrightarrow> p \<in> Y \<or> owed g' p"
    and owes: "\<And>p. owed g p \<Longrightarrow> p \<in> Y \<or> owed g' p"
  shows "coherent_except Y g'"
  unfolding coherent_except_def
proof (intro allI impI)
  fix p b v
  assume p: "p \<notin> Y" and b: "body_of (kind_of g' p) = Some b" and v: "result g' p = Some v"
  have "owed g p \<or> settled g p b v" using coh p b v res kind unfolding coherent_except_def by metis
  then show "owed g' p \<or> settled g' p b v"
  proof
    assume s: "settled g p b v"
    show ?thesis
    proof (cases "n \<in> set (trace (env g) b)")
      case True
      then show ?thesis using s p lost eval_in_env [OF _ True] by (auto simp: settled_def)
    next
      case False
      then have "eval_in (env g') b = eval_in (env g) b \<and> trace (env g') b = trace (env g) b"
        using away by (intro eval_in_cong) metis
      then show ?thesis using s False away unfolding settled_def by (metis subsetD)
    qed
  qed (use owes p in blast)
qed

lemma coherent_mono: "coherent_except X g \<Longrightarrow> X \<subseteq> Y \<Longrightarrow> coherent_except Y g"
  by (auto simp: coherent_except_def)

lemma coherent_no_result:
  "coherent_except (insert n X) g \<Longrightarrow> result g n = None \<Longrightarrow> coherent_except X g"
  unfolding coherent_except_def by (metis insertE option.distinct(1))

section \<open>Effect runs\<close>

definition edges_without :: "nat \<Rightarrow> nat list \<Rightarrow> nat list \<Rightarrow> bool" where
  "edges_without e xs ys \<longleftrightarrow> set xs - {e} \<subseteq> set ys \<and> set ys \<subseteq> set xs \<and> (distinct xs \<longrightarrow> distinct ys)"

lemma edges_without_refl [simp]: "edges_without e xs xs" by (auto simp: edges_without_def)

lemma edges_without_trans: "edges_without e xs ys \<Longrightarrow> edges_without e ys zs \<Longrightarrow> edges_without e xs zs"
  unfolding edges_without_def by blast

lemma edges_without_removeAll [simp]: "edges_without e xs (removeAll e xs)"
  by (auto simp: edges_without_def distinct_removeAll)

definition mod_at :: "nat \<Rightarrow> 'v graph \<Rightarrow> 'v graph \<Rightarrow> bool" where
  "mod_at e g g' \<longleftrightarrow> frame g g' \<and> g_cache g' = g_cache g \<and> g_seen g' = g_seen g \<and> g_work g' = g_work g \<and>
     g_pending_effects g' = g_pending_effects g \<and>
     (\<forall>m. m \<noteq> e \<longrightarrow> nd_running (g_nodes g' m) = nd_running (g_nodes g m)) \<and>
     (\<forall>m. nd_started (g_nodes g m) \<longrightarrow> nd_started (g_nodes g' m)) \<and>
     (\<forall>m. edges_without e (parents g m) (parents g' m))"

lemma mod_at_trans: "mod_at e g g' \<Longrightarrow> mod_at e g' g'' \<Longrightarrow> mod_at e g g''"
  unfolding mod_at_def by (auto intro: frame_trans edges_without_trans)

lemma mod_at_drop: "mod_at e g (drop_parent e d g)"
  by (auto simp: mod_at_def frame_def prims)

lemma mod_at_drops: "mod_at e g (fold (drop_parent e) ds g)"
proof (induction ds arbitrary: g)
  case Nil
  show ?case by (simp add: mod_at_def)
next
  case (Cons d ds)
  show ?case using mod_at_trans [OF mod_at_drop Cons.IH] by simp
qed

lemma mod_at_detach: "mod_at e g (detach_from_dependencies e g)"
proof -
  have "mod_at e g (upd e (\<lambda>nd. nd\<lparr>nd_deps := []\<rparr>) g)" by (auto simp: mod_at_def frame_def prims)
  then show ?thesis unfolding detach_from_dependencies_def by (rule mod_at_trans [OF _ mod_at_drops])
qed

lemma mod_at_upd:
  "(\<And>nd. nd_kind (f nd) = nd_kind nd \<and> nd_value (f nd) = nd_value nd \<and> nd_parents (f nd) = nd_parents nd \<and>
      nd_disposed (f nd) = nd_disposed nd \<and> (nd_started nd \<longrightarrow> nd_started (f nd))) \<Longrightarrow> mod_at e g (upd e f g)"
  by (auto simp: mod_at_def frame_def prims)

lemma mod_at_cleanup: "mod_at e g (run_cleanup e g)"
  by (auto simp: run_cleanup_def mod_at_def frame_def prims)

lemma mod_at_env: "mod_at e g g' \<Longrightarrow> env g' = env g \<and> result g' = result g"
  by (auto simp: mod_at_def frame_def env_def result_def intro!: ext split: kind.split)

lemma mod_at_wf:
  assumes m: "mod_at e g g'" and wf: "wf_graph g" shows "wf_graph g'"
proof -
  have fields: "kind_of g' n = kind_of g n" "disposed g' n = disposed g n" "result g' n = result g n" for n
    using m mod_at_env [OF m] by (simp_all add: mod_at_def frame_def)
  have fields2: "g_size g' = g_size g" "g_work g' = g_work g" "g_pending_cells g' = g_pending_cells g"
    "g_pending_effects g' = g_pending_effects g" "g_cache g' = g_cache g" "g_seen g' = g_seen g"
    using m by (simp_all add: mod_at_def frame_def)
  have par: "set (parents g' n) \<subseteq> set (parents g n) \<and> distinct (parents g' n)" for n
    using m wf by (auto simp: mod_at_def edges_without_def wf_graph_def)
  show ?thesis using wf par unfolding wf_graph_def fields fields2 by blast
qed

lemma mod_at_coherent:
  assumes m: "mod_at e g g'" and coh: "coherent_except (insert e X) g"
  shows "coherent_except (insert e X) g'"
  unfolding coherent_except_def
proof (intro allI impI)
  fix p b v
  assume p: "p \<notin> insert e X" and b: "body_of (kind_of g' p) = Some b" and v: "result g' p = Some v"
  have keep: "p \<in> set (parents g s) \<Longrightarrow> p \<in> set (parents g' s)" for s
    using m p by (auto simp: mod_at_def edges_without_def)
  have "owed g p \<or> settled g p b v" using coh p b v m mod_at_env [OF m]
    by (auto simp: coherent_except_def mod_at_def frame_def)
  then show "owed g' p \<or> settled g' p b v"
    using m mod_at_env [OF m] keep by (auto simp: owed_def settled_def mod_at_def frame_def)
qed

lemma finish_run_ok:
  assumes "wf_graph g" and "coherent_except (insert e X) g" and "kind_of g e = EffectK b c" and "\<not> disposed g e"
    and "\<And>v. r = Val v \<Longrightarrow> settled g e b v"
  shows "wf_graph (finish_run e c' r g) \<and> coherent_except X (finish_run e c' r g)"
proof
  let ?g = "finish_run e c' r g"
  have base: "kind_of ?g n = kind_of g n" "parents ?g n = parents g n" "value_of ?g n = value_of g n"
    "disposed ?g n = disposed g n" "g_cache ?g = g_cache g" "g_work ?g = g_work g"
    "g_pending_cells ?g = g_pending_cells g" "g_pending_effects ?g = g_pending_effects g" for n
    by (auto simp: finish_run_def prims split: outcome.splits)
  have fields: "env ?g = env g" "owed ?g = owed g"
    by (auto simp: fun_eq_iff env_def owed_def base split: kind.split)
  have res: "result ?g p = (if p = e then (case r of Val v \<Rightarrow> Some v | _ \<Rightarrow> None) else result g p)" for p
    using assms(3) by (auto simp: result_def finish_run_def prims split: outcome.splits kind.splits)
  have "e < g_size g" using wf_body [OF assms(1), of e b] assms(3) by (simp add: body_of_def)
  then show "wf_graph ?g" unfolding wf_graph_def res
    using assms(1,4) by (auto simp: wf_graph_def finish_run_def prims split: outcome.splits if_splits)
  show "coherent_except X ?g" unfolding coherent_except_def
  proof (intro allI impI)
    fix p b' v
    assume p: "p \<notin> X" and b': "body_of (kind_of ?g p) = Some b'" and v: "result ?g p = Some v"
    have same: "settled ?g p b' v = settled g p b' v" "owed ?g p = owed g p"
      unfolding settled_def fields base by simp_all
    show "owed ?g p \<or> settled ?g p b' v"
    proof (cases "p = e")
      case True
      then show ?thesis using b' v assms(3,5) res [of p] unfolding same base
        by (auto simp: body_of_def split: outcome.splits)
    next
      case False
      then show ?thesis using assms(2) p b' v res [of p] unfolding same base coherent_except_def by simp
    qed
  qed
qed

text \<open>The heap in which an effect's body starts, and what the run leaves.\<close>

definition effect_start :: "nat \<Rightarrow> 'v graph \<Rightarrow> 'v graph" where
  "effect_start e g = detach_from_dependencies e (upd e (\<lambda>nd. nd\<lparr>nd_running := True\<rparr>)
     (run_cleanup e (upd e (\<lambda>nd. nd\<lparr>nd_started := True\<rparr>) g)))"

lemma effect_call_eq:
  "kind_of g e = EffectK b c \<Longrightarrow> \<not> disposed g e \<Longrightarrow>
   effect_call e g =
     (case run_body (\<lambda>m g. compute_read (g_size g) e m g) b (effect_start e g) of
        (r, g3) \<Rightarrow> (case r of Val _ \<Rightarrow> None | _ \<Rightarrow> Some r, finish_run e c r g3))"
  by (simp add: effect_call_def effect_body_def effect_start_def Let_def)

lemma mod_at_start: "mod_at e g (effect_start e g)"
  unfolding effect_start_def
  by (intro mod_at_trans [OF _ mod_at_detach] mod_at_trans [OF _ mod_at_upd] mod_at_trans [OF _ mod_at_cleanup]
      mod_at_upd) simp_all

lemma effect_start_started: "nd_started (g_nodes (effect_start e g) e)"
proof -
  let ?h = "upd e (\<lambda>nd. nd\<lparr>nd_started := True\<rparr>) g"
  have "mod_at e ?h (effect_start e g)" unfolding effect_start_def
    by (intro mod_at_trans [OF _ mod_at_detach] mod_at_trans [OF _ mod_at_upd] mod_at_cleanup) simp_all
  then show ?thesis by (auto simp: mod_at_def upd_def)
qed

definition run_kept :: "nat set \<Rightarrow> nat \<Rightarrow> 'v graph \<Rightarrow> 'v graph \<Rightarrow> bool" where
  "run_kept X e g g' \<longleftrightarrow> wf_graph g' \<and> idle g' \<and> coherent_except X g' \<and> frame g g' \<and> g_work g' = g_work g \<and>
     g_pending_effects g' = g_pending_effects g \<and> (\<forall>n. n \<noteq> e \<longrightarrow> g_seen g' n = g_seen g n)"

lemma effect_run_body:
  assumes k: "kind_of g e = EffectK b c" and wf: "wf_graph g" and coh: "coherent_except (insert e X) g"
  defines "p \<equiv> run_body (\<lambda>m g. compute_read (g_size g) e m g) b (effect_start e g)"
  shows "grows e (effect_start e g) (snd p) \<and> wf_graph (snd p) \<and> coherent_except (insert e X) (snd p) \<and>
     (\<forall>v. fst p = Val v \<longrightarrow> settled (snd p) e b v)"
proof -
  have nb: "e < g_size g \<and> below e b" using wf_body [OF wf, of e b] k by (simp add: body_of_def)
  note start = mod_at_start [of e g]
  show ?thesis unfolding p_def
  proof (rule run_body_ok)
    show "e < g_size (effect_start e g)" using nb start by (simp add: mod_at_def frame_def)
  qed (use nb mod_at_wf [OF start wf] mod_at_coherent [OF start coh] compute_read_ok in blast)+
qed

lemma effect_call_ok:
  assumes k: "kind_of g e = EffectK b c" and wf: "wf_graph g" and idl: "idle g"
    and coh: "coherent_except (insert e X) g"
  shows "run_kept X e g (snd (effect_call e g))"
proof (cases "disposed g e")
  case True
  then have "result g e = None" using wf by (auto simp: wf_graph_def)
  then show ?thesis using True k wf idl coherent_no_result [OF coh]
    by (auto simp: effect_call_def effect_body_def run_kept_def)
next
  case False
  obtain r g3 where run: "run_body (\<lambda>m g. compute_read (g_size g) e m g) b (effect_start e g) = (r, g3)" by force
  note body = effect_run_body [OF k wf coh, unfolded run fst_conv snd_conv]
  note start = mod_at_start [of e g]
  have g3: "frame g g3 \<and> g_work g3 = g_work g \<and> g_pending_effects g3 = g_pending_effects g \<and> g_seen g3 = g_seen g"
    using start body by (auto simp: mod_at_def grows_def frame_def)
  have "wf_graph (finish_run e c r g3) \<and> coherent_except X (finish_run e c r g3)"
    using body k False g3 by (intro finish_run_ok) (auto simp: frame_def)
  moreover have "idle (finish_run e c r g3)"
    using idl start body effect_start_started [of e g]
    by (auto simp: idle_def finish_run_def prims mod_at_def grows_def split: outcome.splits)
  moreover have "frame g (finish_run e c r g3) \<and> g_work (finish_run e c r g3) = g_work g \<and>
      g_pending_effects (finish_run e c r g3) = g_pending_effects g \<and>
      (\<forall>n. n \<noteq> e \<longrightarrow> g_seen (finish_run e c r g3) n = g_seen g n)"
    using g3 by (auto simp: frame_def finish_run_def prims split: outcome.splits)
  ultimately show ?thesis by (simp add: run_kept_def effect_call_eq [OF k False] run)
qed

end
