(* ===== verification/KernelWave.thy ===== *)
theory KernelWave
  imports KernelSteps
begin

text \<open>
  The invalidation wave: it keeps the invariant, empties the work-stack, and its fuel is
  enough because the weight of the stack falls at every step.
\<close>

definition graph_ok :: "'v graph \<Rightarrow> bool" where
  "graph_ok g \<longleftrightarrow> wf_graph g \<and> idle g \<and> coherent_except {} g"

section \<open>One step\<close>

lemma pop_coherent:
  "coherent_except X g \<Longrightarrow> g_work g = n # ns \<Longrightarrow> coherent_except (insert n X) (g\<lparr>g_work := ns\<rparr>)"
  (is "_ \<Longrightarrow> _ \<Longrightarrow> coherent_except _ ?g")
proof -
  assume coh: "coherent_except X g" and w: "g_work g = n # ns"
  have same: "env ?g = env g" "result ?g = result g" by (auto simp: fun_eq_iff env_def result_def split: kind.split)
  have "owed g p \<Longrightarrow> p \<noteq> n \<Longrightarrow> owed ?g p" for p using w by (auto simp: owed_def)
  moreover have "settled ?g p b v = settled g p b v" for p b v by (simp add: settled_def same)
  ultimately show ?thesis using coh unfolding coherent_except_def same by auto
qed

lemma pop_wf: "wf_graph g \<Longrightarrow> g_work g = n # ns \<Longrightarrow> wf_graph (g\<lparr>g_work := ns\<rparr>) \<and> n < g_size g"
  by (auto simp: wf_graph_def result_def split: kind.splits)

lemma push_wf:
  assumes "wf_graph g" shows "wf_graph (push_work (parents g n) (clear_parents n g))"
  using assms by (auto simp: wf_graph_def prims result_def split: kind.splits)

lemma clear_cache_wf: "wf_graph g \<Longrightarrow> wf_graph (set_cache n None g)"
  by (auto simp: wf_graph_def prims result_def split: kind.splits if_splits)

lemma clear_parents_wf: "wf_graph g \<Longrightarrow> wf_graph (clear_parents n g)"
  by (auto simp: wf_graph_def prims result_def split: kind.splits if_splits)

lemma slot_invalidate_ok:
  assumes k: "kind_of g n = SlotK b" and wf: "wf_graph g" and coh: "coherent_except (insert n X) g"
  shows "wf_graph (slot_invalidate n g) \<and> coherent_except X (slot_invalidate n g)"
proof (cases "disposed g n")
  case True
  then have "result g n = None" using wf by (auto simp: wf_graph_def)
  then show ?thesis using True wf coherent_no_result [OF coh] by (simp add: slot_invalidate_def)
next
  case False
  have eq: "slot_invalidate n g = push_work (parents (set_cache n None g) n) (clear_parents n (set_cache n None g))"
    using False by (simp add: slot_invalidate_def prims)
  have "coherent_except X (slot_invalidate n g)"
    by (rule coherent_cut [OF coh, where n = n])
       (use False k in \<open>auto simp: slot_invalidate_def prims env_def result_def owed_def split: kind.splits if_splits\<close>)
  then show ?thesis unfolding eq using push_wf [OF clear_cache_wf [OF wf]] by blast
qed

lemma slot_invalidate_fields:
  "frame g (slot_invalidate n g)" "idle (slot_invalidate n g) = idle g"
  "g_pending_effects (slot_invalidate n g) = g_pending_effects g" "g_log (slot_invalidate n g) = g_log g"
  "g_seen (slot_invalidate n g) = g_seen g"
  by (auto simp: slot_invalidate_def prims frame_def idle_def)

lemma effect_enqueue_ok:
  assumes k: "kind_of g e = EffectK b c" and wf: "wf_graph g" and coh: "coherent_except (insert e X) g"
  shows "wf_graph (clear_parents e g) \<and> coherent_except (insert e X) (clear_parents e g) \<and>
     wf_graph (enqueue_effect e (clear_parents e g)) \<and> coherent_except X (enqueue_effect e (clear_parents e g))"
proof -
  have src: "\<And>s. s \<in> set (g_pending_cells g) \<Longrightarrow> s \<noteq> e" using wf k by (auto simp: wf_graph_def)
  have wf1: "wf_graph (clear_parents e g)" using wf by (rule clear_parents_wf)
  have coh1: "coherent_except (insert e X) (clear_parents e g)"
    by (rule coherent_cut [OF coh, where n = e])
       (use k src in \<open>auto simp: prims env_def result_def owed_def split: kind.splits if_splits\<close>)
  have coh2: "coherent_except (insert e X) (enqueue_effect e (clear_parents e g))"
    by (rule coherent_cut [OF coh1, where n = e])
       (use k src in \<open>auto simp: prims env_def result_def owed_def add_new_def split: kind.splits if_splits\<close>)
  have "owed (enqueue_effect e (clear_parents e g)) e" by (auto simp: owed_def prims add_new_def)
  then have "coherent_except X (enqueue_effect e (clear_parents e g))"
    using coh2 by (auto simp: coherent_except_def)
  moreover have "wf_graph (enqueue_effect e (clear_parents e g))"
    using wf1 k by (auto simp: wf_graph_def prims add_new_def result_def split: kind.splits if_splits)
  ultimately show ?thesis using wf1 coh1 by blast
qed

definition step_kept :: "'v graph \<Rightarrow> 'v graph \<Rightarrow> bool" where
  "step_kept g g' \<longleftrightarrow> graph_ok g' \<and> frame g g' \<and>
     (0 < g_depth g \<longrightarrow> g_log g' = g_log g \<and> g_seen g' = g_seen g) \<and>
     (g_depth g = 0 \<longrightarrow> g_pending_effects g' = g_pending_effects g)"

lemma effect_invalidate_ok:
  assumes k: "kind_of g e = EffectK b c" and wf: "wf_graph g" and idl: "idle g"
    and coh: "coherent_except {e} g"
  shows "step_kept g (snd (effect_invalidate e g)) \<and> g_work (snd (effect_invalidate e g)) = g_work g"
proof -
  let ?g = "clear_parents e g"
  note enq = effect_enqueue_ok [OF k wf coh]
  have keep: "frame g ?g" "idle ?g" "kind_of ?g e = EffectK b c" "g_work ?g = g_work g"
    "g_log ?g = g_log g" "g_seen ?g = g_seen g" "g_pending_effects ?g = g_pending_effects g" "g_depth ?g = g_depth g"
    using k idl by (auto simp: prims frame_def idle_def)
  consider "disposed g e" | "\<not> disposed g e" "0 < g_depth g"
    | "\<not> disposed g e" "g_depth g = 0" "nd_started (g_nodes ?g e)"
    | "\<not> disposed g e" "g_depth g = 0" "\<not> nd_started (g_nodes ?g e)" by blast
  then show ?thesis
  proof cases
    case 1
    then have "result g e = None" using wf by (auto simp: wf_graph_def)
    then have "coherent_except {} g" using coh coherent_no_result by blast
    then show ?thesis using 1 wf idl by (simp add: effect_invalidate_def step_kept_def graph_ok_def)
  next
    case 2
    have "frame g (enqueue_effect e ?g) \<and> idle (enqueue_effect e ?g) \<and> g_log (enqueue_effect e ?g) = g_log g \<and>
        g_seen (enqueue_effect e ?g) = g_seen g \<and> g_work (enqueue_effect e ?g) = g_work g"
      using keep by (auto simp: enqueue_effect_def frame_def idle_def)
    then show ?thesis using 2 idl enq keep
      by (simp add: effect_invalidate_def step_kept_def graph_ok_def idle_def)
  next
    case 3
    have "run_kept {} e ?g (snd (effect_call e ?g))"
      using enq keep by (intro effect_call_ok) auto
    then show ?thesis using 3 idl keep frame_trans [OF keep(1)]
      by (auto simp: effect_invalidate_def step_kept_def graph_ok_def run_kept_def idle_def)
  next
    case 4
    then have "result ?g e = None" using keep(2,3) by (auto simp: result_def idle_def)
    then have "coherent_except {} ?g" using enq coherent_no_result by blast
    then show ?thesis using 4 idl enq keep
      by (simp add: effect_invalidate_def step_kept_def graph_ok_def idle_def)
  qed
qed

lemma step_kept_trans: "step_kept g g' \<Longrightarrow> step_kept g' g'' \<Longrightarrow> step_kept g g''"
  unfolding step_kept_def frame_def by simp

lemma invalidate_ok:
  assumes ok: "graph_ok g" and w: "g_work g = n # ns"
  shows "step_kept g (snd (invalidate n (g\<lparr>g_work := ns\<rparr>))) \<and>
     (g_work (snd (invalidate n (g\<lparr>g_work := ns\<rparr>))) = ns \<or>
      g_work (snd (invalidate n (g\<lparr>g_work := ns\<rparr>))) = rev (parents g n) @ ns)"
proof -
  let ?h = "g\<lparr>g_work := ns\<rparr>"
  have wf: "wf_graph ?h" and coh: "coherent_except {n} ?h" and idl: "idle ?h"
    using ok w pop_wf [OF _ w] pop_coherent [OF _ w, of "{}"] by (auto simp: graph_ok_def idle_def)
  have fr: "frame g ?h" by (simp add: frame_def)
  have from_pop: "step_kept ?h g1 \<Longrightarrow> step_kept g g1" for g1
    by (simp add: step_kept_def frame_def)
  show ?thesis
  proof (cases "kind_of g n")
    case SourceK
    then have "coherent_except {} ?h" using coherent_no_result [OF coh] by (simp add: result_def)
    then show ?thesis using SourceK wf idl by (simp add: invalidate_def step_kept_def graph_ok_def frame_def)
  next
    case (SlotK b)
    then have "wf_graph (slot_invalidate n ?h) \<and> coherent_except {} (slot_invalidate n ?h)"
      by (intro slot_invalidate_ok [OF _ wf coh]) simp
    then have "step_kept ?h (slot_invalidate n ?h)"
      using idl by (simp add: step_kept_def graph_ok_def slot_invalidate_fields)
    moreover have "g_work (slot_invalidate n ?h) = ns \<or> g_work (slot_invalidate n ?h) = rev (parents g n) @ ns"
      by (simp add: slot_invalidate_def prims)
    ultimately show ?thesis using SlotK from_pop by (simp add: invalidate_def)
  next
    case (EffectK b c)
    then have "step_kept ?h (snd (effect_invalidate n ?h)) \<and> g_work (snd (effect_invalidate n ?h)) = ns"
      using effect_invalidate_ok [OF _ wf idl coh] by simp
    then show ?thesis using EffectK from_pop by (simp add: invalidate_def)
  qed
qed

section \<open>The loop\<close>

lemma drain_loop_ok:
  "graph_ok g \<Longrightarrow> step_kept g (snd (drain_loop k g)) \<and>
     (fst (drain_loop k g) = None \<longrightarrow> g_work (snd (drain_loop k g)) = [])"
proof (induction k arbitrary: g)
  case 0
  then show ?case by (auto simp: step_kept_def split: list.split)
next
  case (Suc k)
  show ?case
  proof (cases "g_work g")
    case Nil
    then show ?thesis using Suc.prems by (simp add: step_kept_def)
  next
    case (Cons n ns)
    let ?p = "invalidate n (g\<lparr>g_work := ns\<rparr>)"
    have step: "step_kept g (snd ?p)" using invalidate_ok [OF Suc.prems Cons] by blast
    then have "graph_ok (snd ?p)" by (simp add: step_kept_def)
    from Suc.IH [OF this] step_kept_trans [OF step] step show ?thesis using Cons
      by (cases ?p; cases "fst ?p") auto
  qed
qed

text \<open>A node weighs more than all the nodes that can depend on it together.\<close>

lemma weight_above:
  "S \<subseteq> {n<..<N} \<Longrightarrow> n < N \<Longrightarrow> (\<Sum>p\<in>S. (2::nat) ^ (N - p)) < 2 ^ (N - n)"
proof (induction "N - n" arbitrary: n S)
  case (Suc d)
  show ?case
  proof (cases "Suc n = N")
    case True
    then have "S = {}" using Suc.prems(1) by fastforce
    then show ?thesis by simp
  next
    case False
    then have lt: "Suc n < N" using Suc.prems by simp
    let ?T = "S - {Suc n}"
    have fin: "finite S" using Suc.prems by (auto intro: finite_subset)
    have "(\<Sum>p\<in>?T. (2::nat) ^ (N - p)) < 2 ^ (N - Suc n)"
      using Suc.prems Suc.hyps(2) lt by (intro Suc.hyps(1)) force+
    moreover have "(\<Sum>p\<in>S. (2::nat) ^ (N - p)) \<le> 2 ^ (N - Suc n) + (\<Sum>p\<in>?T. 2 ^ (N - p))"
      using fin by (cases "Suc n \<in> S") (simp_all add: sum.remove)
    moreover have "(2::nat) ^ (N - n) = 2 * 2 ^ (N - Suc n)"
      using Suc.prems by (simp add: Suc_diff_Suc flip: power_Suc)
    ultimately show ?thesis by simp
  qed
qed simp

lemma work_weight_append [simp]: "work_weight N (xs @ ys) = work_weight N xs + work_weight N ys"
  by (simp add: work_weight_def)

lemma work_weight_rev [simp]: "work_weight N (rev xs) = work_weight N xs"
  by (simp add: work_weight_def flip: rev_map)

lemma work_weight_Cons [simp]: "work_weight N (x # xs) = 2 ^ (N - x) + work_weight N xs"
  by (simp add: work_weight_def)

lemma work_weight_Nil [simp]: "work_weight N [] = 0"
  by (simp add: work_weight_def)

lemma parents_weight:
  assumes "wf_graph g" and "n < g_size g"
  shows "work_weight (g_size g) (parents g n) < 2 ^ (g_size g - n)"
proof -
  have "set (parents g n) \<subseteq> {n<..<g_size g}" and "distinct (parents g n)"
    using assms(1) by (auto simp: wf_graph_def)
  then show ?thesis using weight_above [of "set (parents g n)" n "g_size g"] assms(2)
    by (simp add: work_weight_def sum_list_distinct_conv_sum_set)
qed

section \<open>The fuel is enough\<close>

lemma run_body_total:
  assumes "\<And>m g. m < n \<Longrightarrow> P g \<Longrightarrow> fst (rd m g) \<noteq> Out_of_fuel \<and> P (snd (rd m g))"
    and "below n b" and "P g"
  shows "fst (run_body rd b g) \<noteq> Out_of_fuel \<and> P (snd (run_body rd b g))"
  using assms(2,3)
proof (induction b arbitrary: g)
  case (Read m f)
  then have rd1: "fst (rd m g) \<noteq> Out_of_fuel \<and> P (snd (rd m g))" using assms(1) by simp
  show ?case
  proof (cases "fst (rd m g)")
    case (Val v)
    then show ?thesis using Read rd1 by (auto simp: split_beta)
  qed (use rd1 in \<open>auto simp: split_beta\<close>)
qed simp

definition bodies_below :: "'v graph \<Rightarrow> bool" where
  "bodies_below g \<longleftrightarrow> (\<forall>n b. body_of (kind_of g n) = Some b \<longrightarrow> below n b)"

lemma bodies_below_cong: "(\<And>n. kind_of g' n = kind_of g n) \<Longrightarrow> bodies_below g' = bodies_below g"
  by (simp add: bodies_below_def)

lemma read_total:
  "n < k \<Longrightarrow> bodies_below g \<Longrightarrow>
     fst (read_untracked k n g) \<noteq> Out_of_fuel \<and> bodies_below (snd (read_untracked k n g)) \<and>
     g_size (snd (read_untracked k n g)) = g_size g"
proof (induction k arbitrary: n g)
  case (Suc k)
  let ?P = "\<lambda>h. bodies_below h \<and> g_size h = g_size g"
  show ?case
  proof (cases "kind_of g n")
    case (SlotK b)
    let ?rd = "\<lambda>m g. read_untracked k m (register_edge m n g)"
    have "fst (?rd m h) \<noteq> Out_of_fuel \<and> ?P (snd (?rd m h))" if "m < n" and "?P h" for m and h :: "'a graph"
      using Suc.IH [of m "register_edge m n h"] that Suc.prems(1)
        bodies_below_cong [of "register_edge m n h" h]
      by (simp add: prims)
    moreover have "below n b" using SlotK Suc.prems by (auto simp: bodies_below_def body_of_def)
    moreover have "?P (upd n (\<lambda>nd. nd\<lparr>nd_deps := []\<rparr>) g)"
      using Suc.prems bodies_below_cong [of "upd n (\<lambda>nd. nd\<lparr>nd_deps := []\<rparr>) g" g] by (simp add: prims)
    ultimately have run: "fst (run_body ?rd b (upd n (\<lambda>nd. nd\<lparr>nd_deps := []\<rparr>) g)) \<noteq> Out_of_fuel \<and>
        ?P (snd (run_body ?rd b (upd n (\<lambda>nd. nd\<lparr>nd_deps := []\<rparr>) g)))"
      using run_body_total [of n ?P ?rd b] by blast
    then show ?thesis using SlotK Suc.prems
        bodies_below_cong [of "set_cache n (Some v) h" h for v h]
      by (auto simp: slot_call_def split_beta set_cache_def bodies_below_def split: outcome.splits option.splits)
  qed (use Suc.prems in \<open>auto simp: cell_value_def split: option.splits\<close>)
qed simp

lemma wf_bodies_below: "wf_graph g \<Longrightarrow> bodies_below g"
  by (auto simp: wf_graph_def bodies_below_def)

lemma effect_call_total:
  assumes k: "kind_of g e = EffectK b c" and wf: "wf_graph g"
  shows "fst (effect_call e g) \<noteq> Some Out_of_fuel"
proof (cases "disposed g e")
  case False
  have nb: "e < g_size g \<and> below e b" using wf_body [OF wf, of e b] k by (simp add: body_of_def)
  let ?P = "\<lambda>h. bodies_below h \<and> g_size h = g_size g"
  have rd: "fst (compute_read (g_size h) e m h) \<noteq> Out_of_fuel \<and> ?P (snd (compute_read (g_size h) e m h))"
    if "m < e" and "?P h" for m h
    using read_total [of m "g_size h" "register_edge m e h"] that nb bodies_below_cong [of "register_edge m e h" h]
    by (simp add: compute_read_def prims)
  have "?P (effect_start e g)"
    using mod_at_start [of e g] wf_bodies_below [OF wf] bodies_below_cong [of "effect_start e g" g]
    by (simp add: mod_at_def frame_def)
  then have "fst (run_body (\<lambda>m g. compute_read (g_size g) e m g) b (effect_start e g)) \<noteq> Out_of_fuel"
    using run_body_total [of e ?P "\<lambda>m g. compute_read (g_size g) e m g" b] rd nb by blast
  then show ?thesis by (auto simp: effect_call_eq [OF k False] split_beta split: outcome.splits)
qed (simp add: effect_call_def split: option.split)

lemma invalidate_total:
  assumes "wf_graph g" shows "fst (invalidate n g) \<noteq> Some Out_of_fuel"
proof (cases "kind_of g n")
  case (EffectK b c)
  then show ?thesis
    using effect_call_total [OF _ clear_parents_wf [OF assms], of n n b c]
    by (auto simp: invalidate_def effect_invalidate_def Let_def prims)
qed (simp_all add: invalidate_def)

lemma drain_loop_total:
  "graph_ok g \<Longrightarrow> work_weight (g_size g) (g_work g) \<le> k \<Longrightarrow> fst (drain_loop k g) \<noteq> Some Out_of_fuel"
proof (induction k arbitrary: g)
  case 0
  then show ?case by (cases "g_work g") auto
next
  case (Suc k)
  show ?case
  proof (cases "g_work g")
    case (Cons n ns)
    let ?p = "invalidate n (g\<lparr>g_work := ns\<rparr>)"
    have wf: "wf_graph (g\<lparr>g_work := ns\<rparr>)" and n: "n < g_size g"
      using pop_wf [OF _ Cons] Suc.prems(1) by (auto simp: graph_ok_def)
    note step = invalidate_ok [OF Suc.prems(1) Cons]
    have "work_weight (g_size g) (g_work (snd ?p)) < work_weight (g_size g) (g_work g)"
      using step parents_weight [of g n] Suc.prems(1) n Cons by (auto simp: graph_ok_def)
    then have "fst (drain_loop k (snd ?p)) \<noteq> Some Out_of_fuel"
      using step Suc.prems by (intro Suc.IH) (auto simp: step_kept_def frame_def)
    then show ?thesis using Cons invalidate_total [OF wf, of n]
      by (cases ?p; cases "fst ?p") auto
  qed simp
qed

end
