(* ===== verification/KernelOps.thy ===== *)
theory KernelOps
  imports KernelWave
begin

text \<open>
  The operations a client calls, from writes and batches to disposal, each keeping the
  invariant at top level.
\<close>

section \<open>Draining\<close>

lemma graph_ok_active [simp]: "graph_ok (g\<lparr>g_active := a\<rparr>) = graph_ok g"
proof -
  have "env (g\<lparr>g_active := a\<rparr>) = env g" "result (g\<lparr>g_active := a\<rparr>) = result g"
    by (auto simp: fun_eq_iff env_def result_def split: kind.split)
  then show ?thesis
    by (simp add: graph_ok_def wf_graph_def idle_def coherent_except_def settled_def owed_def)
qed

lemma graph_ok_depth [simp]: "graph_ok (g\<lparr>g_depth := d\<rparr>) = graph_ok g"
proof -
  have "env (g\<lparr>g_depth := d\<rparr>) = env g" "result (g\<lparr>g_depth := d\<rparr>) = result g"
    by (auto simp: fun_eq_iff env_def result_def split: kind.split)
  then show ?thesis
    by (simp add: graph_ok_def wf_graph_def idle_def coherent_except_def settled_def owed_def)
qed

lemma drain_loop_batch:
  "0 < g_depth g \<Longrightarrow> graph_ok g \<Longrightarrow> fst (drain_loop k g) \<in> {None, Some Out_of_fuel}"
proof (induction k arbitrary: g)
  case 0
  then show ?case by (simp split: list.split)
next
  case (Suc k)
  show ?case
  proof (cases "g_work g")
    case (Cons n ns)
    let ?p = "invalidate n (g\<lparr>g_work := ns\<rparr>)"
    have "fst ?p = None" using Suc.prems(1)
      by (auto simp: invalidate_def effect_invalidate_def Let_def prims split: kind.split)
    moreover have "graph_ok (snd ?p)" "frame g (snd ?p)"
      using invalidate_ok [OF Suc.prems(2) Cons] by (auto simp: step_kept_def)
    ultimately show ?thesis using Suc.IH [of "snd ?p"] Suc.prems Cons by (cases ?p) (auto simp: frame_def)
  qed simp
qed

lemma drain_ok:
  assumes ok: "graph_ok g" and act: "\<not> g_active g"
  shows "step_kept g (snd (drain g))" and "fst (drain g) = None \<Longrightarrow> g_work (snd (drain g)) = []"
    and "fst (drain g) \<noteq> Some Out_of_fuel" and "0 < g_depth g \<Longrightarrow> fst (drain g) = None"
proof -
  let ?h = "g\<lparr>g_active := True\<rparr>" and ?k = "work_weight (g_size g) (g_work g)"
  obtain e g' where run: "drain_loop ?k ?h = (e, g')" by force
  have h: "graph_ok ?h" using ok by simp
  have eq: "drain g = (e, g'\<lparr>g_active := False\<rparr>)" using act run by (simp add: drain_def)
  have step: "step_kept ?h g'" and work: "e = None \<longrightarrow> g_work g' = []"
    using drain_loop_ok [OF h, of ?k] run by auto
  show "step_kept g (snd (drain g))" unfolding eq using step act by (simp add: step_kept_def frame_def)
  show "fst (drain g) = None \<Longrightarrow> g_work (snd (drain g)) = []" unfolding eq using work by simp
  have fuel: "e \<noteq> Some Out_of_fuel" using drain_loop_total [OF h, of ?k] run by simp
  then show "fst (drain g) \<noteq> Some Out_of_fuel" by (simp add: eq)
  show "0 < g_depth g \<Longrightarrow> fst (drain g) = None"
    using drain_loop_batch [of ?h ?k] h run fuel by (auto simp: eq)
qed

section \<open>Writes\<close>

lemma write_base_ok:
  fixes v :: 'v
  assumes ok: "graph_ok g" and lt: "n < g_size g" and k: "kind_of g n = SourceK" and nd: "\<not> disposed g n"
  defines "g1 \<equiv> upd n (\<lambda>nd. nd\<lparr>nd_value := Some v\<rparr>) g"
  shows "wf_graph g1" "idle g1" "coherent_except (set (parents g n)) g1"
    "graph_ok (push_work (parents g1 n) (clear_parents n g1))"
    "graph_ok (g1\<lparr>g_pending_cells := add_new n (g_pending_cells g1)\<rparr>)"
proof -
  have coh: "coherent_except {} g" and wf: "wf_graph g" and idl: "idle g" using ok by (auto simp: graph_ok_def)
  show wf1: "wf_graph g1" using wf
    by (auto simp: g1_def wf_graph_def prims result_def split: kind.splits if_splits)
  show idl1: "idle g1" using idl by (simp add: g1_def idle_def prims)
  show "coherent_except (set (parents g n)) g1" unfolding g1_def
    by (rule coherent_cut [OF coh, where n = n])
       (auto simp: prims env_def result_def owed_def split: kind.splits if_splits)
  have "coherent_except {} (push_work (parents g1 n) (clear_parents n g1))" unfolding g1_def
    by (rule coherent_cut [OF coh, where n = n])
       (auto simp: prims env_def result_def owed_def split: kind.splits if_splits)
  moreover have "idle (push_work (parents g1 n) (clear_parents n g1))" using idl1 by (simp add: idle_def prims)
  ultimately show "graph_ok (push_work (parents g1 n) (clear_parents n g1))"
    using push_wf [OF wf1] by (simp add: graph_ok_def)
  have "coherent_except {} (g1\<lparr>g_pending_cells := add_new n (g_pending_cells g1)\<rparr>)" unfolding g1_def
    by (rule coherent_cut [OF coh, where n = n])
       (use nd in \<open>auto simp: prims env_def result_def owed_def add_new_def split: kind.splits if_splits\<close>)
  moreover have "wf_graph (g1\<lparr>g_pending_cells := add_new n (g_pending_cells g1)\<rparr>)"
    using wf1 k lt by (auto simp: g1_def wf_graph_def prims add_new_def result_def split: kind.splits if_splits)
  ultimately show "graph_ok (g1\<lparr>g_pending_cells := add_new n (g_pending_cells g1)\<rparr>)"
    using idl1 by (simp add: graph_ok_def idle_def)
qed

text \<open>The state between two top-level calls.\<close>

definition top_ok :: "'v graph \<Rightarrow> bool" where
  "top_ok g \<longleftrightarrow> graph_ok g \<and> \<not> g_active g \<and> g_work g = [] \<and>
     (g_depth g = 0 \<longrightarrow> g_pending_cells g = [] \<and> g_pending_effects g = [])"

lemma drain_top:
  assumes "graph_ok g" and "\<not> g_active g" and "fst (drain g) = None"
    and "g_depth g = 0 \<Longrightarrow> g_pending_cells g = [] \<and> g_pending_effects g = []"
  shows "top_ok (snd (drain g))"
  using drain_ok(1,2) [OF assms(1,2)] assms(2-) by (auto simp: top_ok_def step_kept_def frame_def)

lemma cell_write_top:
  assumes top: "top_ok g" and lt: "n < g_size g" and k: "kind_of g n = SourceK" and res: "fst (cell_write n v g) = None"
  shows "top_ok (snd (cell_write n v g))"
proof (cases "disposed g n \<or> value_of g n = Some v")
  case True
  have "upd n (\<lambda>nd. nd\<lparr>nd_value := Some v\<rparr>) g = g" if "value_of g n = Some v"
    using that by (simp add: upd_def fun_upd_idem)
  then show ?thesis using True top by (auto simp: cell_write_def Let_def)
next
  case False
  let ?g1 = "upd n (\<lambda>nd. nd\<lparr>nd_value := Some v\<rparr>) g"
  have ok: "graph_ok g" using top by (simp add: top_ok_def)
  note base = write_base_ok [OF ok lt k, of v]
  have nd: "\<not> disposed g n" using False by simp
  have eq: "cell_write n v g = notify_change n ?g1" using False by (simp add: cell_write_def)
  have fields: "g_depth ?g1 = g_depth g" "g_active ?g1 = g_active g" "g_work ?g1 = g_work g"
    "g_pending_cells ?g1 = g_pending_cells g" "g_pending_effects ?g1 = g_pending_effects g"
    "disposed ?g1 n = disposed g n" "parents ?g1 n = parents g n"
    by (simp_all add: prims)
  show ?thesis
  proof (cases "0 < g_depth g")
    case True
    then show ?thesis using base(5) [OF nd] top by (simp add: eq notify_change_def fields top_ok_def)
  next
    case False
    show ?thesis
    proof (cases "parents g n = []")
      case True
      then have "graph_ok ?g1" using base(1-3) [OF nd] by (simp add: graph_ok_def)
      then show ?thesis using True False top
        by (simp add: eq notify_change_def touch_def fields top_ok_def)
    next
      case ne: False
      have "touch n ?g1 = drain (push_work (parents ?g1 n) (clear_parents n ?g1))"
        using ne nd by (simp add: touch_def fields)
      then show ?thesis using drain_top [OF base(4) [OF nd]] res False top
        by (simp add: eq notify_change_def fields top_ok_def) (simp add: prims)
    qed
  qed
qed

lemma reset_pushed_ok:
  assumes ok: "graph_ok g" and n: "n < g_size g"
  shows "graph_ok (g\<lparr>g_work := n # g_work g\<rparr>)"
proof -
  let ?h = "g\<lparr>g_work := n # g_work g\<rparr>"
  have wf: "wf_graph g" and coh: "coherent_except {} g" and idl: "idle g"
    using ok by (auto simp: graph_ok_def)
  have same: "env ?h = env g" "result ?h = result g"
    by (auto simp: fun_eq_iff env_def result_def split: kind.split)
  have sets: "settled ?h p b v = settled g p b v" for p b v by (simp add: settled_def same)
  have owes: "owed g p \<Longrightarrow> owed ?h p" for p by (auto simp: owed_def)
  have "wf_graph ?h" using wf n unfolding wf_graph_def same by simp
  moreover have "coherent_except {} ?h" using coh owes unfolding coherent_except_def sets same by auto
  ultimately show ?thesis using idl by (simp add: graph_ok_def idle_def)
qed

lemma slot_reset_top:
  assumes top: "top_ok g" and n: "n < g_size g" and res: "fst (slot_reset n g) = None"
  shows "top_ok (snd (slot_reset n g))"
proof -
  have "graph_ok (g\<lparr>g_work := n # g_work g\<rparr>)"
    by (rule reset_pushed_ok [OF _ n]) (use top in \<open>simp add: top_ok_def\<close>)
  from drain_top [OF this] res top show ?thesis by (simp add: slot_reset_def top_ok_def)
qed

section \<open>The flush of a batch\<close>

lemma touch_pending_ok:
  assumes ok: "graph_ok (g\<lparr>g_pending_cells := s # ss\<rparr>)" and act: "g_active g"
  shows "graph_ok ((touch_pending s g)\<lparr>g_pending_cells := ss\<rparr>) \<and> g_active (touch_pending s g) \<and>
     g_depth (touch_pending s g) = g_depth g \<and> g_log (touch_pending s g) = g_log g \<and>
     g_pending_cells (touch_pending s g) = g_pending_cells g \<and> frame g (touch_pending s g)"
proof -
  let ?h = "g\<lparr>g_pending_cells := s # ss\<rparr>"
  have coh: "coherent_except {} ?h" and wf: "wf_graph ?h" and idl: "idle ?h" using ok by (auto simp: graph_ok_def)
  have eq: "touch_pending s g =
      (if disposed g s then g else push_work (parents g s) (clear_parents s g))"
    using act by (auto simp: touch_pending_def touch_def drain_def prims fun_upd_idem)
  have "coherent_except {} ((touch_pending s g)\<lparr>g_pending_cells := ss\<rparr>)" unfolding eq
    by (rule coherent_cut [OF coh, where n = s])
       (auto simp: prims env_def result_def owed_def split: kind.splits if_splits)
  moreover have "wf_graph ((touch_pending s g)\<lparr>g_pending_cells := ss\<rparr>)" unfolding eq
    using wf by (auto simp: prims wf_graph_def result_def split: kind.splits if_splits)
  moreover have "idle ((touch_pending s g)\<lparr>g_pending_cells := ss\<rparr>)"
    using idl by (auto simp: eq prims idle_def)
  ultimately show ?thesis using act by (auto simp: graph_ok_def eq prims frame_def)
qed

lemma touch_pendings_ok:
  "graph_ok (g\<lparr>g_pending_cells := ss\<rparr>) \<Longrightarrow> g_active g \<Longrightarrow> g_pending_cells g = [] \<Longrightarrow>
     graph_ok (fold touch_pending ss g) \<and> frame g (fold touch_pending ss g) \<and>
     g_log (fold touch_pending ss g) = g_log g"
proof (induction ss arbitrary: g)
  case Nil
  have "g\<lparr>g_pending_cells := []\<rparr> = g" using Nil.prems(3) by simp
  then show ?case using Nil.prems(1) by simp
next
  case (Cons s ss)
  note step = touch_pending_ok [OF Cons.prems(1,2)]
  then show ?case using Cons.IH [of "touch_pending s g"] Cons.prems frame_trans by fastforce
qed

definition wave_done :: "'v graph \<Rightarrow> bool" where
  "wave_done g \<longleftrightarrow> graph_ok g \<and> \<not> g_active g \<and> g_work g = [] \<and> g_pending_cells g = []"

lemma flush_wave_ok:
  assumes top: "top_ok g" and d: "0 < g_depth g"
  shows "fst (flush_wave g) = None" and "wave_done (snd (flush_wave g))"
    and "g_log (snd (flush_wave g)) = g_log g" and "g_depth (snd (flush_wave g)) = g_depth g"
    and "g_size (snd (flush_wave g)) = g_size g"
    and "\<And>m. kind_of (snd (flush_wave g)) m = kind_of g m \<and> value_of (snd (flush_wave g)) m = value_of g m \<and>
      disposed (snd (flush_wave g)) m = disposed g m"
proof -
  let ?h = "g\<lparr>g_pending_cells := [], g_active := True\<rparr>"
  let ?g1 = "fold touch_pending (g_pending_cells g) ?h"
  have "?h\<lparr>g_pending_cells := g_pending_cells g\<rparr> = g\<lparr>g_active := True\<rparr>" by simp
  then have ok1: "graph_ok ?g1 \<and> frame ?h ?g1 \<and> g_log ?g1 = g_log g"
    using touch_pendings_ok [of "g_pending_cells g" ?h] top by (simp add: top_ok_def)
  let ?g2 = "?g1\<lparr>g_active := False\<rparr>"
  have ok2: "graph_ok ?g2" "\<not> g_active ?g2" "0 < g_depth ?g2" using ok1 d by (auto simp: frame_def)
  have eq: "flush_wave g = drain ?g2" by (simp add: flush_wave_def Let_def)
  note dr = drain_ok [OF ok2(1,2)]
  show none: "fst (flush_wave g) = None" using dr(4) ok2(3) by (simp add: eq)
  have step: "step_kept ?g2 (snd (drain ?g2))" by (rule dr(1))
  have fr: "frame ?h (snd (drain ?g2)\<lparr>g_active := True\<rparr>)"
    using ok1 step by (auto simp: step_kept_def frame_def)
  show "wave_done (snd (flush_wave g))"
    using step ok1 dr(2) none by (auto simp: wave_done_def eq step_kept_def frame_def)
  show "g_log (snd (flush_wave g)) = g_log g"
    using step ok1 ok2(3) by (auto simp: eq step_kept_def)
  show "g_depth (snd (flush_wave g)) = g_depth g" "g_size (snd (flush_wave g)) = g_size g"
    and "\<And>m. kind_of (snd (flush_wave g)) m = kind_of g m \<and> value_of (snd (flush_wave g)) m = value_of g m \<and>
      disposed (snd (flush_wave g)) m = disposed g m"
    using fr by (simp_all add: eq frame_def)
qed

text \<open>The queued effects, rerun one after the other over a settled graph.\<close>

definition effects_due :: "nat list \<Rightarrow> 'v graph \<Rightarrow> bool" where
  "effects_due es g \<longleftrightarrow> wf_graph g \<and> idle g \<and> coherent_except (set es) g \<and> \<not> g_active g \<and> g_work g = [] \<and>
     g_pending_cells g = [] \<and> g_pending_effects g = [] \<and> (\<forall>e\<in>set es. \<exists>b c. kind_of g e = EffectK b c)"

lemma batch_rerun_ok:
  assumes due: "effects_due (e # es) g"
  shows "effects_due es (snd (batch_rerun e g)) \<and> frame g (snd (batch_rerun e g))"
proof -
  have wf: "wf_graph g" and idl: "idle g" and coh: "coherent_except (insert e (set es)) g"
    using due by (auto simp: effects_due_def)
  obtain b c where k: "kind_of g e = EffectK b c" using due by (auto simp: effects_due_def)
  show ?thesis
  proof (cases "disposed g e \<or> \<not> nd_started (g_nodes g e)")
    case True
    then have "result g e = None"
    proof
      assume "disposed g e"
      then show ?thesis using wf by (auto simp: wf_graph_def)
    next
      assume "\<not> nd_started (g_nodes g e)"
      then show ?thesis using idl k by (auto simp: idle_def result_def)
    qed
    then show ?thesis using True due coherent_no_result [OF coh]
      by (auto simp: batch_rerun_def effects_due_def)
  next
    case False
    have "run_kept (set es) e g (snd (effect_call e g))" by (rule effect_call_ok [OF k wf idl coh])
    then show ?thesis using False due by (auto simp: batch_rerun_def run_kept_def effects_due_def frame_def)
  qed
qed

lemma each_ok:
  "effects_due es g \<Longrightarrow> fst (each batch_rerun es g) = None \<Longrightarrow>
     effects_due [] (snd (each batch_rerun es g)) \<and> frame g (snd (each batch_rerun es g))"
proof (induction es arbitrary: g)
  case (Cons e es)
  note step = batch_rerun_ok [OF Cons.prems(1)]
  show ?case
  proof (cases "batch_rerun e g")
    case (Pair r g1)
    then have "r = None" using Cons.prems(2) by (cases r) simp_all
    then show ?thesis using Cons.IH [of g1] Cons.prems step Pair frame_trans by auto
  qed
qed simp

lemma wave_effects_due:
  "wave_done g \<Longrightarrow> effects_due (g_pending_effects g) (g\<lparr>g_pending_effects := []\<rparr>)"
proof -
  assume done1: "wave_done g"
  let ?h = "g\<lparr>g_pending_effects := []\<rparr>"
  have same: "env ?h = env g" "result ?h = result g" by (auto simp: fun_eq_iff env_def result_def split: kind.split)
  have sets: "settled ?h p b v = settled g p b v" for p b v by (simp add: settled_def same)
  have owes: "p \<notin> set (g_pending_effects g) \<Longrightarrow> owed ?h p = owed g p" for p by (simp add: owed_def)
  have "coherent_except (set (g_pending_effects g)) ?h"
    using done1 owes unfolding wave_done_def graph_ok_def coherent_except_def sets same by auto
  moreover have "wf_graph ?h" using done1 unfolding wave_done_def graph_ok_def wf_graph_def same by simp
  ultimately show ?thesis using done1
    by (auto simp: effects_due_def wave_done_def graph_ok_def wf_graph_def idle_def)
qed

lemma batch_exit_top:
  assumes top: "top_ok g" and d: "0 < g_depth g" and res: "fst (batch_exit g) = None"
  shows "top_ok (snd (batch_exit g))"
proof (cases "g_depth g = 1")
  case True
  note wave = flush_wave_ok [OF top d]
  let ?g1 = "snd (flush_wave g)"
  have due: "effects_due (g_pending_effects ?g1) (?g1\<lparr>g_pending_effects := []\<rparr>)"
    by (rule wave_effects_due [OF wave(2)])
  let ?q = "each batch_rerun (g_pending_effects ?g1) (?g1\<lparr>g_pending_effects := []\<rparr>)"
  have fl: "flush g = ?q" using wave(1) by (cases "flush_wave g") (simp add: flush_def flush_effects_def)
  have none: "fst ?q = None" using res True fl by (cases ?q; cases "fst ?q") (auto simp: batch_exit_def)
  have fin: "effects_due [] (snd ?q) \<and> frame (?g1\<lparr>g_pending_effects := []\<rparr>) (snd ?q)"
    by (rule each_ok [OF due none])
  have eq: "snd (batch_exit g) = (snd ?q)\<lparr>g_depth := g_depth (snd ?q) - 1\<rparr>"
    using True fl none by (cases ?q) (auto simp: batch_exit_def)
  have "graph_ok (snd ?q)" using fin by (simp add: effects_due_def graph_ok_def)
  then show ?thesis using fin unfolding eq by (simp add: top_ok_def effects_due_def)
next
  case False
  show ?thesis using False top d by (simp add: batch_exit_def top_ok_def)
qed

lemma batch_enter_top: "top_ok g \<Longrightarrow> top_ok (batch_enter g)"
  by (simp add: top_ok_def batch_enter_def)

end
