(* ===== verification/KernelRuns.thy ===== *)
theory KernelRuns
  imports KernelOps
begin

text \<open>
  Disposal, creation and the runs of a client, and the reference semantics that recomputes a
  node from the sources: between calls outside a batch every cached value and every effect's
  last result is the recomputed one.
\<close>

section \<open>Disposal\<close>

definition walk_kept :: "'v graph \<Rightarrow> 'v graph \<Rightarrow> bool" where
  "walk_kept g g' \<longleftrightarrow> frame g g' \<and> g_work g' = g_work g \<and> g_pending_effects g' = g_pending_effects g \<and>
     g_log g' = g_log g \<and> (\<forall>m. nd_running (g_nodes g' m) = nd_running (g_nodes g m) \<and>
       nd_started (g_nodes g' m) = nd_started (g_nodes g m) \<and>
       nd_cleanup (g_nodes g' m) = nd_cleanup (g_nodes g m) \<and>
       (g_seen g' m \<noteq> None \<longrightarrow> g_seen g m \<noteq> None))"

lemma walk_kept_trans: "walk_kept g g' \<Longrightarrow> walk_kept g' g'' \<Longrightarrow> walk_kept g g''"
  unfolding walk_kept_def frame_def by simp

lemma visit_kept: "walk_kept g (drop_cached n (clear_parents n g))"
  by (auto simp: walk_kept_def frame_def prims)

lemma visit_ok:
  assumes wf: "wf_graph g" and coh: "coherent_except (insert n X) g"
  shows "wf_graph (drop_cached n (clear_parents n g)) \<and>
     coherent_except (set (parents g n) \<union> X) (drop_cached n (clear_parents n g))"
proof
  show "wf_graph (drop_cached n (clear_parents n g))"
    using wf by (auto simp: wf_graph_def prims result_def split: kind.splits if_splits)
  show "coherent_except (set (parents g n) \<union> X) (drop_cached n (clear_parents n g))"
    by (rule coherent_cut [OF coh, where n = n])
       (auto simp: prims env_def result_def owed_def split: kind.splits if_splits)
qed

lemma dirty_loop_ok:
  "wf_graph g \<Longrightarrow> coherent_except (set st) g \<Longrightarrow> \<forall>n\<in>set st. n < g_size g \<Longrightarrow>
     work_weight (g_size g) st \<le> k \<Longrightarrow>
     fst (dirty_loop k st g) = [] \<and> wf_graph (snd (dirty_loop k st g)) \<and>
     coherent_except {} (snd (dirty_loop k st g)) \<and> walk_kept g (snd (dirty_loop k st g))"
proof (induction k st g rule: dirty_loop.induct)
  case (1 st g)
  then show ?case by (cases st) (auto simp: walk_kept_def)
next
  case (2 k g)
  then show ?case by (simp add: walk_kept_def)
next
  case (3 k n ns g)
  show ?case
  proof (cases "disposed g n")
    case True
    then have "result g n = None" using 3(3) by (auto simp: wf_graph_def)
    then have "coherent_except (set ns) g" using 3(4) coherent_no_result by simp
    moreover have "work_weight (g_size g) ns \<le> k"
    proof -
      have "(1::nat) \<le> 2 ^ (g_size g - n)" by simp
      then show ?thesis using 3(6) unfolding work_weight_Cons by linarith
    qed
    ultimately show ?thesis using 3(1) [OF True] 3(3,5) True by simp
  next
    case False
    let ?h = "drop_cached n (clear_parents n g)"
    note kept = visit_kept [of g n]
    have "wf_graph ?h \<and> coherent_except (set (rev (parents g n) @ ns)) ?h"
      using visit_ok [of g n "set ns"] 3(3,4) by simp
    moreover have "\<forall>m\<in>set (rev (parents g n) @ ns). m < g_size ?h"
      using 3(3,5) kept by (auto simp: wf_graph_def walk_kept_def frame_def)
    moreover have "work_weight (g_size ?h) (rev (parents g n) @ ns) \<le> k"
      using parents_weight [OF 3(3), of n] 3(5,6) kept by (auto simp: walk_kept_def frame_def)
    ultimately show ?thesis using 3(2) [OF False] walk_kept_trans [OF kept] False by simp
  qed
qed

lemma dirty_ok:
  assumes "wf_graph g" and "coherent_except (set roots) g" and "\<forall>n\<in>set roots. n < g_size g"
  shows "wf_graph (dirty_disposed_dependents roots g) \<and>
     coherent_except {} (dirty_disposed_dependents roots g) \<and> walk_kept g (dirty_disposed_dependents roots g)"
  using dirty_loop_ok [of g "rev roots" "work_weight (g_size g) roots"] assms
  by (simp add: dirty_disposed_dependents_def)

lemma walk_idle: "walk_kept g g' \<Longrightarrow> idle g \<Longrightarrow> idle g'"
  unfolding walk_kept_def idle_def by auto

definition disposed_frame :: "'v graph \<Rightarrow> 'v graph \<Rightarrow> bool" where
  "disposed_frame g g' \<longleftrightarrow> g_size g' = g_size g \<and> g_pending_cells g' = g_pending_cells g \<and>
     g_depth g' = g_depth g \<and> g_active g' = g_active g \<and> g_work g' = g_work g \<and>
     g_pending_effects g' = g_pending_effects g"

lemma source_dispose_ok:
  assumes ok: "graph_ok g" and k: "kind_of g n = SourceK"
  shows "graph_ok (source_dispose n g) \<and> disposed_frame g (source_dispose n g)"
proof (cases "disposed g n")
  case True
  then show ?thesis using ok by (simp add: source_dispose_def disposed_frame_def)
next
  case False
  let ?h = "clear_parents n (mark_disposed n g)"
  have coh: "coherent_except {} g" and wf: "wf_graph g" and idl: "idle g" using ok by (auto simp: graph_ok_def)
  have "coherent_except (set (parents g n)) ?h"
    by (rule coherent_cut [OF coh, where n = n])
       (auto simp: prims env_def result_def owed_def split: kind.splits if_splits)
  moreover have wfh: "wf_graph ?h"
    using wf k by (auto simp: wf_graph_def prims result_def split: kind.splits if_splits)
  moreover have "\<forall>m\<in>set (parents g n). m < g_size ?h" using wf by (auto simp: wf_graph_def prims)
  ultimately have d: "wf_graph (source_dispose n g) \<and> coherent_except {} (source_dispose n g) \<and>
      walk_kept ?h (source_dispose n g)"
    using dirty_ok [of ?h "parents g n"] False by (simp add: source_dispose_def)
  moreover have "idle ?h" using idl by (auto simp: idle_def prims)
  ultimately show ?thesis using walk_idle [of ?h "source_dispose n g"]
    by (auto simp: graph_ok_def disposed_frame_def walk_kept_def frame_def prims)
qed

text \<open>A disposed slot or effect: marked, without a result, detached, its dependents unlinked.\<close>

lemma detach_running:
  "nd_running (g_nodes (detach_from_dependencies n g) m) = nd_running (g_nodes g m)"
proof -
  have "nd_running (g_nodes (fold (drop_parent n) ds x) m) = nd_running (g_nodes x m)" for ds and x :: "'a graph"
    by (induction ds arbitrary: x) (simp_all add: prims)
  then show ?thesis by (simp add: detach_from_dependencies_def prims)
qed

definition unlinked :: "nat \<Rightarrow> 'v graph \<Rightarrow> 'v graph" where
  "unlinked n h = clear_parents n (detach_from_dependencies n h)"

lemma unlink_ok:
  assumes wf: "wf_graph h" and idl: "idle h" and coh: "coherent_except (insert n X) h"
    and res: "result h n = None" and dis: "disposed h n"
  shows "wf_graph (unlinked n h)" "coherent_except X (unlinked n h)" "idle (unlinked n h)"
    "set (parents (detach_from_dependencies n h) n) = set (parents h n)"
    "disposed_frame h (unlinked n h)" "result (unlinked n h) n = None"
proof -
  let ?g1 = "detach_from_dependencies n h"
  have m: "mod_at n h ?g1" by (rule mod_at_detach)
  note same = mod_at_env [OF m]
  have wf1: "wf_graph ?g1" using mod_at_wf [OF m wf] .
  have coh1: "coherent_except (insert n X) ?g1" using mod_at_coherent [OF m coh] .
  have nself: "n \<notin> set (parents h n)" using wf by (auto simp: wf_graph_def)
  show "set (parents ?g1 n) = set (parents h n)" using m nself by (auto simp: mod_at_def edges_without_def)
  have dis1: "disposed ?g1 n" using m dis by (simp add: mod_at_def frame_def)
  have r2: "result (unlinked n h) = result ?g1"
    by (auto simp: unlinked_def prims result_def intro!: ext split: kind.splits)
  then show r3: "result (unlinked n h) n = None" using same res by simp
  have "coherent_except (insert n X) (unlinked n h)" unfolding unlinked_def
    by (rule coherent_cut [OF coh1, where n = n])
       (use dis1 in \<open>auto simp: prims env_def result_def owed_def split: kind.splits if_splits\<close>)
  then show "coherent_except X (unlinked n h)" using r3 by (rule coherent_no_result)
  show "wf_graph (unlinked n h)" unfolding unlinked_def by (rule clear_parents_wf [OF wf1])
  show "idle (unlinked n h)" unfolding idle_def
  proof (intro allI conjI impI)
    fix p
    show "\<not> nd_running (g_nodes (unlinked n h) p)"
      using idl by (simp add: unlinked_def prims detach_running idle_def)
    assume "g_seen (unlinked n h) p \<noteq> None"
    then have "nd_started (g_nodes h p)" using idl m by (auto simp: unlinked_def idle_def prims mod_at_def)
    then show "nd_started (g_nodes (unlinked n h) p)" using m by (auto simp: unlinked_def prims mod_at_def)
  qed
  show "disposed_frame h (unlinked n h)"
    using m by (simp add: disposed_frame_def unlinked_def prims mod_at_def frame_def)
qed

lemma disposed_frame_trans: "disposed_frame g g' \<Longrightarrow> disposed_frame g' g'' \<Longrightarrow> disposed_frame g g''"
  by (simp add: disposed_frame_def)

lemma walk_disposed_frame: "walk_kept g g' \<Longrightarrow> disposed_frame g g'"
  by (simp add: walk_kept_def disposed_frame_def frame_def)

lemma walk_unlinked:
  assumes "wf_graph (unlinked n h)" and "idle (unlinked n h)" and "coherent_except (set roots) (unlinked n h)"
    and "\<forall>m\<in>set roots. m < g_size (unlinked n h)"
  shows "graph_ok (dirty_disposed_dependents roots (unlinked n h)) \<and>
     disposed_frame (unlinked n h) (dirty_disposed_dependents roots (unlinked n h))"
  using dirty_ok [OF assms(1,3,4)] walk_idle [OF _ assms(2)] walk_disposed_frame
  by (auto simp: graph_ok_def)

lemma slot_dispose_ok:
  assumes ok: "graph_ok g" and k: "kind_of g n = SlotK b"
  shows "graph_ok (slot_dispose n g) \<and> disposed_frame g (slot_dispose n g)"
proof (cases "disposed g n")
  case True
  then show ?thesis using ok by (simp add: slot_dispose_def disposed_frame_def)
next
  case False
  let ?h = "set_cache n None (mark_disposed n g)"
  let ?g1 = "detach_from_dependencies n ?h"
  have coh: "coherent_except {} g" and wf: "wf_graph g" and idl: "idle g" using ok by (auto simp: graph_ok_def)
  have cohh: "coherent_except (insert n (set (parents g n))) ?h"
    by (rule coherent_cut [OF coh, where n = n])
       (auto simp: prims env_def result_def owed_def split: kind.splits if_splits)
  have wfh: "wf_graph ?h" using wf k by (auto simp: wf_graph_def prims result_def split: kind.splits if_splits)
  have h: "result ?h n = None" "disposed ?h n" "parents ?h n = parents g n" "idle ?h" "disposed_frame g ?h"
    using k idl by (auto simp: result_def prims idle_def disposed_frame_def)
  note u = unlink_ok [OF wfh h(4) cohh h(1,2)]
  have "\<forall>m\<in>set (parents ?g1 n). m < g_size (unlinked n ?h)"
    using wf u(4,5) h(3,5) by (auto simp: wf_graph_def disposed_frame_def)
  then have "graph_ok (dirty_disposed_dependents (parents ?g1 n) (unlinked n ?h)) \<and>
      disposed_frame (unlinked n ?h) (dirty_disposed_dependents (parents ?g1 n) (unlinked n ?h))"
    using walk_unlinked [OF u(1,3), of "parents ?g1 n"] u(2,4) h(3) by simp
  moreover have "slot_dispose n g = dirty_disposed_dependents (parents ?g1 n) (unlinked n ?h)"
    using False by (simp add: slot_dispose_def Let_def unlinked_def)
  ultimately show ?thesis using disposed_frame_trans [OF h(5) u(5)] disposed_frame_trans by metis
qed

lemma effect_dispose_ok:
  assumes ok: "graph_ok g" and k: "kind_of g n = EffectK b c"
  shows "graph_ok (effect_dispose n g) \<and> disposed_frame g (effect_dispose n g)"
proof (cases "disposed g n")
  case True
  then show ?thesis using ok by (simp add: effect_dispose_def disposed_frame_def)
next
  case False
  let ?h = "set_seen n None (mark_disposed n g)"
  let ?g1 = "detach_from_dependencies n ?h"
  have coh: "coherent_except {} g" and wf: "wf_graph g" and idl: "idle g" using ok by (auto simp: graph_ok_def)
  have src: "\<And>s. s \<in> set (g_pending_cells g) \<Longrightarrow> s \<noteq> n" using wf k by (auto simp: wf_graph_def)
  have cohh: "coherent_except (insert n {}) ?h"
    by (rule coherent_cut [OF coh, where n = n])
       (use k src in \<open>auto simp: prims env_def result_def owed_def split: kind.splits if_splits\<close>)
  have wfh: "wf_graph ?h" using wf k by (auto simp: wf_graph_def prims result_def split: kind.splits if_splits)
  have h: "result ?h n = None" "disposed ?h n" "parents ?h n = parents g n" "idle ?h" "disposed_frame g ?h"
    using k idl by (auto simp: result_def prims idle_def disposed_frame_def)
  note u = unlink_ok [OF wfh h(4) cohh h(1,2)]
  let ?g3 = "if nd_started (g_nodes g n) then dirty_disposed_dependents (parents ?g1 n) (unlinked n ?h) else unlinked n ?h"
  have "\<forall>m\<in>set (parents ?g1 n). m < g_size (unlinked n ?h)"
    using wf u(4,5) h(3,5) by (auto simp: wf_graph_def disposed_frame_def)
  then have "graph_ok (dirty_disposed_dependents (parents ?g1 n) (unlinked n ?h)) \<and>
      disposed_frame (unlinked n ?h) (dirty_disposed_dependents (parents ?g1 n) (unlinked n ?h))"
    using walk_unlinked [OF u(1,3), of "parents ?g1 n"] coherent_mono [OF u(2), of "set (parents ?g1 n)"] by simp
  then have g3: "graph_ok ?g3 \<and> disposed_frame g ?g3"
    using u(1-3) disposed_frame_trans [OF h(5) u(5)] by (auto simp: graph_ok_def disposed_frame_def)
  have eq: "effect_dispose n g = run_cleanup n ?g3"
    using False by (simp add: effect_dispose_def Let_def unlinked_def)
  have clean: "graph_ok (run_cleanup n x)" if "graph_ok x" for x :: "'a graph"
  proof -
    have m: "mod_at n x (run_cleanup n x)" by (rule mod_at_cleanup)
    note same = mod_at_env [OF m]
    have par: "parents (run_cleanup n x) p = parents x p" "nd_running (g_nodes (run_cleanup n x) p) = nd_running (g_nodes x p)"
      "nd_started (g_nodes (run_cleanup n x) p) = nd_started (g_nodes x p)" for p
      by (auto simp: run_cleanup_def prims)
    have "coherent_except {} (run_cleanup n x)"
      using that m unfolding graph_ok_def coherent_except_def settled_def owed_def mod_at_def frame_def
      by (simp add: same par)
    then show ?thesis using that m mod_at_wf [OF m] by (auto simp: graph_ok_def idle_def par mod_at_def)
  qed
  show ?thesis using clean [of ?g3] g3 unfolding eq
    by (auto simp: disposed_frame_def run_cleanup_def prims)
qed

lemma dispose_node_top:
  assumes "top_ok g" shows "top_ok (dispose_node n g)"
proof -
  have "graph_ok (dispose_node n g) \<and> disposed_frame g (dispose_node n g)"
    using assms source_dispose_ok [of g n] slot_dispose_ok [of g n] effect_dispose_ok [of g n]
    by (auto simp: dispose_node_def top_ok_def split: kind.splits)
  then show ?thesis using assms by (auto simp: top_ok_def disposed_frame_def)
qed

end
