(* ===== verification/KernelSem.thy ===== *)
theory KernelSem
  imports KernelRuns
begin

text \<open>
  The runs of a client, and the reference semantics that recomputes a node from the sources:
  between calls outside a batch every read gives the recomputed value and every subscribed
  effect last ran on it; the effects of a flush see only recomputed values.
\<close>

section \<open>Runs\<close>

lemma new_node_top:
  assumes top: "top_ok g" and b: "\<And>b. body_of k = Some b \<Longrightarrow> below (g_size g) b"
  shows "top_ok (new_node k v g)"
proof -
  let ?h = "new_node k v g" and ?n = "g_size g"
  have coh: "coherent_except {} g" and wf: "wf_graph g" and idl: "idle g"
    using top by (auto simp: top_ok_def graph_ok_def)
  have none: "parents g ?n = []" 
  proof -
    have "p \<notin> set (parents g ?n)" for p using wf unfolding wf_graph_def by fastforce
    then show ?thesis by (cases "parents g ?n") auto
  qed
  have cache: "g_cache g ?n = None" "g_seen g ?n = None" using wf by (auto simp: wf_graph_def)
  have fields: "kind_of ?h m = (if m = ?n then k else kind_of g m)"
    "parents ?h m = parents g m" "disposed ?h m = (m \<noteq> ?n \<and> disposed g m)" for m
    using none by (auto simp: new_node_def blank_def)
  have res: "result ?h m = (if m = ?n then None else result g m)" for m
    using cache by (auto simp: new_node_def blank_def result_def split: kind.splits)
  have away: "env ?h m = env g m" if "m \<noteq> ?n" for m
    using that by (auto simp: new_node_def env_def split: kind.split)
  have same: "kind_of ?h m = kind_of g m" if "kind_of g m \<noteq> SourceK" for m
  proof -
    obtain b where "body_of (kind_of g m) = Some b" 
      using \<open>kind_of g m \<noteq> SourceK\<close> by (cases "kind_of g m") (auto simp: body_of_def)
    then have "m < ?n" using wf by (auto simp: wf_graph_def)
    then show ?thesis by (simp add: fields)
  qed
  have "coherent_except {} ?h" unfolding coherent_except_def
  proof (intro allI impI)
    fix p b v
    assume b: "body_of (kind_of ?h p) = Some b" and v: "result ?h p = Some v"
    then have p: "p \<noteq> ?n" "body_of (kind_of g p) = Some b" "result g p = Some v"
      by (auto simp: res fields split: if_splits)
    then have "below p b" "p < ?n" using wf by (auto simp: wf_graph_def)
    then have "eval_in (env ?h) b = eval_in (env g) b \<and> trace (env ?h) b = trace (env g) b"
      using trace_below away by (intro eval_in_cong) fastforce
    moreover have "owed g p \<longrightarrow> owed ?h p" by (auto simp: owed_def fields) (auto simp: new_node_def)
    ultimately show "owed ?h p \<or> settled ?h p b v"
      using coh p unfolding coherent_except_def settled_def fields by auto
  qed
  moreover have "wf_graph ?h" unfolding wf_graph_def
  proof (intro conjI)
    show "\<forall>n b. body_of (kind_of ?h n) = Some b \<longrightarrow> n < g_size ?h \<and> below n b"
      using wf b by (auto simp: wf_graph_def fields) (auto simp: new_node_def less_SucI)
    show "\<forall>n p. p \<in> set (parents ?h n) \<longrightarrow> n < p \<and> p < g_size ?h"
      using wf unfolding fields by (auto simp: wf_graph_def new_node_def less_SucI)
    show "\<forall>n. distinct (parents ?h n)" using wf unfolding fields by (auto simp: wf_graph_def)
    show "\<forall>n v. result ?h n = Some v \<longrightarrow> \<not> disposed ?h n"
      using wf unfolding fields res by (auto simp: wf_graph_def)
    show "\<forall>n\<ge>g_size ?h. g_cache ?h n = None \<and> g_seen ?h n = None" "distinct (g_pending_effects ?h)"
      using wf by (auto simp: wf_graph_def new_node_def)
    show "\<forall>s\<in>set (g_pending_cells ?h). s < g_size ?h \<and> kind_of ?h s = SourceK"
      using wf unfolding fields by (auto simp: wf_graph_def new_node_def less_SucI)
    show "\<forall>n\<in>set (g_work ?h). n < g_size ?h" using wf by (auto simp: wf_graph_def new_node_def less_SucI)
    show "\<forall>e\<in>set (g_pending_effects ?h). \<exists>b c. kind_of ?h e = EffectK b c"
    proof
      fix e assume "e \<in> set (g_pending_effects ?h)"
      then obtain b c where "kind_of g e = EffectK b c" using wf by (auto simp: wf_graph_def new_node_def)
      then show "\<exists>b c. kind_of ?h e = EffectK b c" using same [of e] by auto
    qed
  qed
  moreover have "idle ?h" using idl cache by (auto simp: idle_def new_node_def blank_def)
  ultimately show ?thesis using top by (simp add: top_ok_def graph_ok_def) (simp add: new_node_def)
qed

text \<open>
  A program uses nodes it has created, writes only source cells, and builds the body of a node
  from nodes created before it.
\<close>

definition op_ok :: "'v graph \<Rightarrow> 'v gop \<Rightarrow> bool" where
  "op_ok g c \<longleftrightarrow>
     (case c of
        New_source _ \<Rightarrow> True | New_slot b \<Rightarrow> below (g_size g) b | New_effect b _ \<Rightarrow> below (g_size g) b
      | Start n \<Rightarrow> n < g_size g | Write n _ \<Rightarrow> n < g_size g | Pull n \<Rightarrow> n < g_size g
      | Reset n \<Rightarrow> n < g_size g | Dispose n \<Rightarrow> n < g_size g | Enter \<Rightarrow> True | Exit \<Rightarrow> True)"

text \<open>A call that did not raise; a read may raise, it leaves a coherent heap all the same.\<close>

definition no_raise :: "'v gop \<Rightarrow> 'v outcome option \<Rightarrow> bool" where
  "no_raise c r \<longleftrightarrow> r = None \<or> (case c of Pull n \<Rightarrow> True | _ \<Rightarrow> False)"

inductive reach :: "'v graph \<Rightarrow> bool" where
  reach_start: "reach empty_graph"
| reach_step: "reach g \<Longrightarrow> op_ok g c \<Longrightarrow> no_raise c (fst (gstep c g)) \<Longrightarrow> reach (snd (gstep c g))"

lemma empty_top: "top_ok empty_graph"
  by (auto simp: top_ok_def graph_ok_def wf_graph_def idle_def coherent_except_def empty_graph_def blank_def
      body_of_def result_def)

lemma read_top:
  assumes "top_ok g" shows "top_ok (snd (read_untracked k n g))"
proof -
  have "read_ok {} n g (read_untracked k n g)"
    using assms by (intro read_untracked_ok) (auto simp: top_ok_def graph_ok_def)
  then show ?thesis using assms by (auto simp: read_ok_def top_ok_def graph_ok_def idle_def grows_def)
qed

lemma effect_start_top:
  assumes top: "top_ok g" shows "top_ok (snd (effect_call e g))"
proof (cases "\<exists>b c. kind_of g e = EffectK b c")
  case True
  then obtain b c where k: "kind_of g e = EffectK b c" by blast
  have "run_kept {} e g (snd (effect_call e g))"
    using top coherent_mono [of "{}" g "{e}"] by (intro effect_call_ok [OF k]) (auto simp: top_ok_def graph_ok_def)
  then show ?thesis using top by (auto simp: run_kept_def top_ok_def graph_ok_def frame_def)
next
  case False
  then have "effect_call e g = (None, g)"
    by (cases "kind_of g e") (auto simp: effect_call_def effect_body_def)
  then show ?thesis using top by simp
qed

lemma gstep_top:
  assumes top: "top_ok g" and ok: "op_ok g c" and res: "no_raise c (fst (gstep c g))"
  shows "top_ok (snd (gstep c g))"
proof (cases c)
  case (Write n v)
  then show ?thesis using assms cell_write_top [OF top]
    by (cases "kind_of g n") (auto simp: gstep_def op_ok_def no_raise_def)
next
  case (Reset n)
  then show ?thesis using assms slot_reset_top [OF top]
    by (cases "kind_of g n") (auto simp: gstep_def op_ok_def no_raise_def)
next
  case Exit
  then show ?thesis using assms batch_exit_top [OF top] by (auto simp: gstep_def no_raise_def)
qed (use assms in \<open>auto simp: gstep_def op_ok_def body_of_def split_beta intro: new_node_top read_top effect_start_top
     dispose_node_top batch_enter_top\<close>)

theorem reach_top: "reach g \<Longrightarrow> top_ok g"
  by (induction rule: reach.induct) (simp_all add: empty_top gstep_top)

section \<open>Recomputation from the sources\<close>

primrec sem_body :: "(nat \<Rightarrow> 'v outcome) \<Rightarrow> 'v comp \<Rightarrow> 'v outcome" where
  "sem_body sm (Ret v) = Val v"
| "sem_body sm (Read m f) = (case sm m of Val v \<Rightarrow> sem_body sm (f v) | r \<Rightarrow> r)"

primrec sem :: "nat \<Rightarrow> 'v graph \<Rightarrow> nat \<Rightarrow> 'v outcome" where
  "sem 0 g n = Out_of_fuel"
| "sem (Suc k) g n =
     (case kind_of g n of
        SourceK \<Rightarrow> cell_value n g
      | SlotK b \<Rightarrow> if disposed g n then Disposed_error else sem_body (sem k g) b
      | EffectK _ _ \<Rightarrow> No_value)"

definition calm :: "'v graph \<Rightarrow> bool" where
  "calm g \<longleftrightarrow> (\<forall>n b v. kind_of g n = SlotK b \<longrightarrow> g_cache g n = Some v \<longrightarrow> settled g n b v)"

definition quiet :: "nat set \<Rightarrow> 'v graph \<Rightarrow> bool" where
  "quiet X g \<longleftrightarrow> wf_graph g \<and> coherent_except X g \<and> g_work g = [] \<and> g_pending_cells g = [] \<and>
     (\<forall>e\<in>X. \<exists>b c. kind_of g e = EffectK b c)"

lemma quiet_calm: "quiet X g \<Longrightarrow> calm g"
  unfolding calm_def
proof (intro allI impI)
  fix n b v assume q: "quiet X g" and k: "kind_of g n = SlotK b" and v: "g_cache g n = Some v"
  have "n \<notin> X" and "\<not> owed g n" using q k by (force simp: quiet_def owed_def wf_graph_def)+
  then show "settled g n b v" using q k v
    by (auto simp: quiet_def coherent_except_def body_of_def result_def)
qed

lemma sem_body_cong:
  "(\<And>m. m < n \<Longrightarrow> sm m = sm' m) \<Longrightarrow> below n b \<Longrightarrow> sem_body sm b = sem_body sm' b"
  by (induction b) (auto split: outcome.split)

lemma sem_body_env:
  "eval_in ev b = Some v \<Longrightarrow> (\<And>m w. m \<in> set (trace ev b) \<Longrightarrow> ev m = Some w \<Longrightarrow> sm m = Val w) \<Longrightarrow>
     sem_body sm b = Val v"
  by (induction b) (auto split: option.splits)

lemma sem_frame: "frame g g' \<Longrightarrow> sem k g' n = sem k g n"
proof (induction k arbitrary: n)
  case (Suc k)
  then have "sem k g' = sem k g" by (simp add: fun_eq_iff)
  then show ?case using Suc.prems by (auto simp: frame_def cell_value_def split: kind.split)
qed simp

lemma calm_sem:
  "calm g \<Longrightarrow> wf_graph g \<Longrightarrow> n < k \<Longrightarrow> env g n = Some v \<Longrightarrow> sem k g n = Val v"
proof (induction k arbitrary: n v)
  case (Suc k)
  show ?case
  proof (cases "kind_of g n")
    case SourceK
    then show ?thesis using Suc.prems(4) by (auto simp: env_def cell_value_def split: if_splits)
  next
    case (SlotK b)
    have v: "g_cache g n = Some v" and nd: "\<not> disposed g n"
      using Suc.prems(4) SlotK by (auto simp: env_def split: if_splits)
    have s: "settled g n b v" using Suc.prems(1) SlotK v by (simp add: calm_def)
    have bel: "below n b" using wf_body [OF Suc.prems(2), of n b] SlotK by (simp add: body_of_def)
    have "sem_body (sem k g) b = Val v"
    proof (rule sem_body_env)
      show "eval_in (env g) b = Some v" using s by (simp add: settled_def)
      fix m w assume "m \<in> set (trace (env g) b)" and "env g m = Some w"
      then show "sem k g m = Val w" using Suc.IH [of m w] Suc.prems trace_below [OF bel] by force
    qed
    then show ?thesis using SlotK nd by simp
  next
    case (EffectK b c)
    then show ?thesis using Suc.prems(4) by (auto simp: env_def split: if_splits)
  qed
qed simp

section \<open>Reads give the recomputed value\<close>

lemma run_body_sem:
  assumes "\<And>m h. m < n \<Longrightarrow> P h \<Longrightarrow> fst (rd m h) = sm m \<and> P (snd (rd m h))" and "below n b" and "P g"
  shows "fst (run_body rd b g) = sem_body sm b"
  using assms(2,3)
proof (induction b arbitrary: g)
  case (Read m f)
  then have rd1: "fst (rd m g) = sm m \<and> P (snd (rd m g))" using assms(1) by simp
  show ?case
  proof (cases "sm m")
    case (Val v)
    then show ?thesis using Read rd1 by (auto simp: split_beta)
  qed (use rd1 in \<open>auto simp: split_beta\<close>)
qed simp

lemma quiet_grows: "quiet X g \<Longrightarrow> read_ok X m g p \<Longrightarrow> quiet X (snd p) \<and> frame g (snd p)"
  by (auto simp: quiet_def read_ok_def grows_def frame_def)

lemma quiet_register: "quiet X g \<Longrightarrow> m < r \<Longrightarrow> r < g_size g \<Longrightarrow> quiet X (register_edge m r g) \<and> frame g (register_edge m r g)"
  using wf_register [of g m r] coherent_register [of X g m r] grows_register [of 0 g m r]
  by (auto simp: quiet_def grows_def frame_def)

lemma quiet_deps:
  "quiet X g \<Longrightarrow> quiet X (upd n (\<lambda>nd. nd\<lparr>nd_deps := d\<rparr>) g) \<and> frame g (upd n (\<lambda>nd. nd\<lparr>nd_deps := d\<rparr>) g)"
  using wf_deps [of g n d] coherent_deps [of X g n d] by (auto simp: quiet_def frame_def prims)

lemma read_sem:
  "quiet X g \<Longrightarrow> n < k \<Longrightarrow> fst (read_untracked k n g) = sem k g n"
proof (induction k arbitrary: n g)
  case (Suc k)
  have wf: "wf_graph g" using Suc.prems by (simp add: quiet_def)
  show ?case
  proof (cases "kind_of g n")
    case (SlotK b)
    have nb: "n < g_size g" "below n b" using wf_body [OF wf, of n b] SlotK by (simp_all add: body_of_def)
    show ?thesis
    proof (cases "disposed g n")
      case True
      then show ?thesis using SlotK by (simp add: slot_call_def)
    next
      case nd: False
      show ?thesis
      proof (cases "g_cache g n")
        case (Some v)
        then have "sem (Suc k) g n = Val v" using nd SlotK Suc.prems
          by (intro calm_sem [OF quiet_calm [OF Suc.prems(1)] wf]) (auto simp: env_def)
        then show ?thesis using Some nd SlotK by (simp add: slot_call_def)
      next
        case None
        let ?rd = "\<lambda>m g. read_untracked k m (register_edge m n g)"
        let ?P = "\<lambda>h. quiet X h \<and> frame g h"
        have rd: "fst (?rd m h) = sem k g m \<and> ?P (snd (?rd m h))" if m: "m < n" and h: "?P h" for m h
        proof -
          have q: "quiet X (register_edge m n h)" "frame h (register_edge m n h)"
            using quiet_register [of X h m n] m h nb by (auto simp: frame_def)
          have "read_ok X m (register_edge m n h) (?rd m h)"
            using q by (intro read_untracked_ok) (auto simp: quiet_def)
          then have "?P (snd (?rd m h))" using quiet_grows [OF q(1)] q(2) h frame_trans by blast
          moreover have "fst (?rd m h) = sem k (register_edge m n h) m"
            using Suc.IH [OF q(1), of m] m Suc.prems(2) by simp
          ultimately show ?thesis using sem_frame [of g "register_edge m n h" k m] frame_trans h q(2) by metis
        qed
        have "fst (run_body ?rd b (upd n (\<lambda>nd. nd\<lparr>nd_deps := []\<rparr>) g)) = sem_body (sem k g) b"
          by (rule run_body_sem [where P = ?P, OF rd nb(2)]) (use quiet_deps Suc.prems(1) in auto)
        then show ?thesis using None nd SlotK
          by (auto simp: slot_call_def split_beta split: outcome.split)
      qed
    qed
  qed simp_all
qed simp

lemma top_quiet: "top_ok g \<Longrightarrow> g_depth g = 0 \<Longrightarrow> quiet {} g"
  by (simp add: top_ok_def quiet_def graph_ok_def)

lemma effect_run_sem:
  assumes k: "kind_of g e = EffectK b c" and q: "quiet (insert e X) g" and nd: "\<not> disposed g e"
  shows "fst (run_body (\<lambda>m g. compute_read (g_size g) e m g) b (effect_start e g)) = sem_body (sem (g_size g) g) b"
proof -
  let ?Y = "insert e X" and ?N = "g_size g"
  let ?P = "\<lambda>h. quiet ?Y h \<and> frame g h"
  have wf: "wf_graph g" using q by (simp add: quiet_def)
  have nb: "e < ?N" "below e b" using wf_body [OF wf, of e b] k by (simp_all add: body_of_def)
  have start: "mod_at e g (effect_start e g)" by (rule mod_at_start)
  have P0: "?P (effect_start e g)"
    using q start mod_at_wf [OF start wf] mod_at_coherent [OF start] by (auto simp: quiet_def mod_at_def frame_def)
  have rd: "fst (compute_read (g_size h) e m h) = sem ?N g m \<and> ?P (snd (compute_read (g_size h) e m h))"
    if m: "m < e" and h: "?P h" for m h
  proof -
    have r: "quiet ?Y (register_edge m e h)" "frame h (register_edge m e h)" and N: "g_size h = ?N"
      using quiet_register [of ?Y h m e] m h nb by (auto simp: frame_def)
    have "read_ok ?Y m (register_edge m e h) (read_untracked (g_size h) m (register_edge m e h))"
      using r by (intro read_untracked_ok) (auto simp: quiet_def)
    then have "?P (snd (compute_read (g_size h) e m h))"
      using quiet_grows [OF r(1)] r(2) h frame_trans unfolding compute_read_def by blast
    moreover have "fst (compute_read (g_size h) e m h) = sem ?N (register_edge m e h) m"
      using read_sem [OF r(1), of m ?N] m nb N by (simp add: compute_read_def)
    ultimately show ?thesis using sem_frame [of g "register_edge m e h" ?N m] frame_trans h r(2) by metis
  qed
  show ?thesis by (rule run_body_sem [where P = ?P, OF rd nb(2) P0])
qed

section \<open>The effects of a flush\<close>

definition ran :: "'v event list \<Rightarrow> nat list" where
  "ran L = List.map_filter (\<lambda>ev. case ev of Ran e v \<Rightarrow> Some e | Cleaned e \<Rightarrow> None) L"

text \<open>Every run of the log saw the values recomputed from the sources of \<open>g\<close>.\<close>

definition runs_fresh :: "'v graph \<Rightarrow> 'v event list \<Rightarrow> bool" where
  "runs_fresh g L \<longleftrightarrow> (\<forall>e v. Ran e v \<in> set L \<longrightarrow>
     (\<exists>b. body_of (kind_of g e) = Some b \<and> sem_body (sem (g_size g) g) b = Val v))"

definition run_events :: "nat \<Rightarrow> 'v graph \<Rightarrow> 'v outcome \<Rightarrow> 'v event list" where
  "run_events e g r =
     (if nd_cleanup (g_nodes g e) then [Cleaned e] else []) @ (case r of Val v \<Rightarrow> [Ran e v] | _ \<Rightarrow> [])"

lemma detach_log: "g_log (detach_from_dependencies n g) = g_log g"
proof -
  have "g_log (fold (drop_parent n) ds x) = g_log x" for ds and x :: "'a graph"
    by (induction ds arbitrary: x) (simp_all add: prims)
  then show ?thesis by (simp add: detach_from_dependencies_def prims)
qed

lemma effect_start_log:
  "g_log (effect_start e g) = g_log g @ (if nd_cleanup (g_nodes g e) then [Cleaned e] else [])"
  by (simp add: effect_start_def detach_log run_cleanup_def prims)

lemma effect_call_events:
  assumes k: "kind_of g e = EffectK b c" and q: "quiet (insert e X) g" and nd: "\<not> disposed g e"
  shows "g_log (snd (effect_call e g)) = g_log g @ run_events e g (sem_body (sem (g_size g) g) b)"
proof -
  let ?p = "run_body (\<lambda>m g. compute_read (g_size g) e m g) b (effect_start e g)"
  have wf: "wf_graph g" and coh: "coherent_except (insert e X) g" using q by (auto simp: quiet_def)
  have "grows e (effect_start e g) (snd ?p)" using effect_run_body [OF k wf coh] by blast
  then have "g_log (snd ?p) = g_log (effect_start e g)" by (simp add: grows_def)
  moreover have "g_log (snd (effect_call e g)) = g_log (finish_run e c (fst ?p) (snd ?p))"
    by (simp add: effect_call_eq [OF k nd] split_beta)
  moreover have "g_log (finish_run e c r h) = g_log h @ (case r of Val v \<Rightarrow> [Ran e v] | _ \<Rightarrow> [])"
    for r :: "'a outcome" and h
    by (simp add: finish_run_def prims split: outcome.split)
  ultimately show ?thesis
    using effect_run_sem [OF k q nd] by (simp add: effect_start_log run_events_def)
qed

lemma each_events:
  "effects_due es g \<Longrightarrow> distinct es \<Longrightarrow> \<exists>L. g_log (snd (each batch_rerun es g)) = g_log g @ L \<and>
     runs_fresh g L \<and> distinct (ran L) \<and> set (ran L) \<subseteq> set es"
proof (induction es arbitrary: g)
  case Nil
  show ?case by (simp add: runs_fresh_def ran_def map_filter_def)
next
  case (Cons e es)
  obtain b c where k: "kind_of g e = EffectK b c" using Cons.prems by (auto simp: effects_due_def)
  have q: "quiet (insert e (set es)) g" using Cons.prems by (simp add: effects_due_def quiet_def)
  obtain r g1 where p: "batch_rerun e g = (r, g1)" by force
  have step: "effects_due es g1" "frame g g1" using batch_rerun_ok [OF Cons.prems(1)] p by auto
  obtain L0 where L0: "g_log g1 = g_log g @ L0" "runs_fresh g L0" "ran L0 = [] \<or> ran L0 = [e]"
  proof (cases "disposed g e \<or> \<not> nd_started (g_nodes g e)")
    case True
    then have "g_log g1 = g_log g @ []" using p by (auto simp: batch_rerun_def split: if_splits)
    then show ?thesis using that by (simp add: runs_fresh_def ran_def map_filter_def)
  next
    case False
    have "g_log g1 = g_log g @ run_events e g (sem_body (sem (g_size g) g) b)"
      using effect_call_events [OF k q] False p by (auto simp: batch_rerun_def)
    then show ?thesis using that k
      by (auto simp: run_events_def runs_fresh_def ran_def map_filter_def body_of_def split: outcome.splits)
  qed
  show ?case
  proof (cases r)
    case None
    obtain L1 where L1: "g_log (snd (each batch_rerun es g1)) = g_log g1 @ L1" "runs_fresh g1 L1"
      "distinct (ran L1)" "set (ran L1) \<subseteq> set es"
      using Cons.IH [OF step(1)] Cons.prems(2) by auto
    have sz: "g_size g1 = g_size g" using step(2) by (simp add: frame_def)
    have "sem (g_size g1) g1 = sem (g_size g) g" unfolding sz using sem_frame [OF step(2)] by (simp add: fun_eq_iff)
    then have "runs_fresh g L1" using L1(2) step(2) by (auto simp: runs_fresh_def frame_def)
    then have "runs_fresh g (L0 @ L1)" using L0(2) by (auto simp: runs_fresh_def)
    moreover have "ran (L0 @ L1) = ran L0 @ ran L1" by (simp add: ran_def map_filter_def)
    ultimately show ?thesis using L0 L1 Cons.prems(2) p None by (intro exI [of _ "L0 @ L1"]) auto
  next
    case (Some x)
    then show ?thesis using L0 p by auto
  qed
qed

lemma flush_events:
  assumes top: "top_ok g" and d: "g_depth g = 1"
  shows "\<exists>L. g_log (snd (batch_exit g)) = g_log g @ L \<and> runs_fresh g L \<and> distinct (ran L)"
proof -
  have d0: "0 < g_depth g" using d by simp
  note wave = flush_wave_ok [OF top d0]
  let ?g1 = "snd (flush_wave g)"
  let ?h = "?g1\<lparr>g_pending_effects := []\<rparr>"
  let ?q = "each batch_rerun (g_pending_effects ?g1) ?h"
  have fl: "flush g = ?q" using wave(1) by (cases "flush_wave g") (simp add: flush_def flush_effects_def)
  have logs: "g_log (snd (batch_exit g)) = g_log (snd ?q)"
    using d fl by (cases ?q; cases "fst ?q") (auto simp: batch_exit_def)
  have "distinct (g_pending_effects ?g1)" using wave(2) by (simp add: wave_done_def graph_ok_def wf_graph_def)
  then obtain L where L: "g_log (snd ?q) = g_log ?h @ L" "runs_fresh ?h L" "distinct (ran L)"
    using each_events [OF wave_effects_due [OF wave(2)]] by blast
  have fr: "g_size ?h = g_size g" "\<And>k n. sem k ?h n = sem k g n" "\<And>m. kind_of ?h m = kind_of g m"
  proof -
    show "g_size ?h = g_size g" "\<And>m. kind_of ?h m = kind_of g m" using wave(5,6) by simp_all
    show "sem k ?h n = sem k g n" for k n
    proof (induction k arbitrary: n)
      case (Suc k)
      then have "sem k ?h = sem k g" by (simp add: fun_eq_iff)
      then show ?case using wave(6) by (auto simp: cell_value_def split: kind.split)
    qed simp
  qed
  have "sem (g_size ?h) ?h = sem (g_size g) g" using fr(1,2) by (simp add: fun_eq_iff)
  then have "runs_fresh g L" using L(2) fr(3) unfolding runs_fresh_def by metis
  then show ?thesis using L(1,3) logs wave(3) by auto
qed

end
