(* ===== verification/KernelRefine.thy ===== *)
theory KernelRefine
  imports KernelSem
begin

text \<open>
  The abstract specification of the kernel, a sheet: each node's kind, stored value and
  disposal, and no cache, no edge, no work-stack. Its read recomputes the node from the
  sources. The theory shows that every call of the kernel refines the sheet's step, that the
  fuel of every call is enough, and how a run of calls is checked by evaluation.
\<close>

section \<open>The sheet\<close>

record 'v sheet =
  sh_size :: nat
  sh_kind :: "nat \<Rightarrow> 'v kind"
  sh_value :: "nat \<Rightarrow> 'v option"
  sh_disposed :: "nat \<Rightarrow> bool"
  sh_depth :: nat

definition sheet_of :: "'v graph \<Rightarrow> 'v sheet" where
  "sheet_of g = \<lparr>sh_size = g_size g, sh_kind = (\<lambda>n. kind_of g n), sh_value = (\<lambda>n. value_of g n),
     sh_disposed = (\<lambda>n. disposed g n), sh_depth = g_depth g\<rparr>"

definition empty_sheet :: "'v sheet" where
  "empty_sheet = \<lparr>sh_size = 0, sh_kind = (\<lambda>_. SourceK), sh_value = (\<lambda>_. None), sh_disposed = (\<lambda>_. False), sh_depth = 0\<rparr>"

definition sheet_add :: "'v kind \<Rightarrow> 'v option \<Rightarrow> 'v sheet \<Rightarrow> 'v sheet" where
  "sheet_add k v s = s\<lparr>sh_size := Suc (sh_size s), sh_kind := (sh_kind s)(sh_size s := k),
     sh_value := (sh_value s)(sh_size s := v), sh_disposed := (sh_disposed s)(sh_size s := False)\<rparr>"

definition sheet_step :: "'v gop \<Rightarrow> 'v sheet \<Rightarrow> 'v sheet" where
  "sheet_step c s =
     (case c of
        New_source v \<Rightarrow> sheet_add SourceK (Some v) s
      | New_slot b \<Rightarrow> sheet_add (SlotK b) None s
      | New_effect b cl \<Rightarrow> sheet_add (EffectK b cl) None s
      | Write n v \<Rightarrow> (case sh_kind s n of
          SourceK \<Rightarrow> if sh_disposed s n then s else s\<lparr>sh_value := (sh_value s)(n \<mapsto> v)\<rparr>
        | _ \<Rightarrow> s)
      | Dispose n \<Rightarrow> s\<lparr>sh_disposed := (sh_disposed s)(n := True)\<rparr>
      | Enter \<Rightarrow> s\<lparr>sh_depth := sh_depth s + 1\<rparr>
      | Exit \<Rightarrow> s\<lparr>sh_depth := sh_depth s - 1\<rparr>
      | _ \<Rightarrow> s)"

primrec sheet_sem :: "nat \<Rightarrow> 'v sheet \<Rightarrow> nat \<Rightarrow> 'v outcome" where
  "sheet_sem 0 s n = Out_of_fuel"
| "sheet_sem (Suc k) s n =
     (case sh_kind s n of
        SourceK \<Rightarrow> if sh_disposed s n then Disposed_error
          else (case sh_value s n of Some v \<Rightarrow> Val v | None \<Rightarrow> No_value)
      | SlotK b \<Rightarrow> if sh_disposed s n then Disposed_error else sem_body (sheet_sem k s) b
      | EffectK _ _ \<Rightarrow> No_value)"

definition sheet_read :: "'v sheet \<Rightarrow> nat \<Rightarrow> 'v outcome" where
  "sheet_read s n = sheet_sem (sh_size s) s n"

definition sheet_run :: "'v gop list \<Rightarrow> 'v sheet" where
  "sheet_run cs = fold sheet_step cs empty_sheet"

lemma sem_sheet: "sem k g n = sheet_sem k (sheet_of g) n"
proof (induction k arbitrary: n)
  case (Suc k)
  then have "sem k g = sheet_sem k (sheet_of g)" by (simp add: fun_eq_iff)
  then show ?case by (simp add: sheet_of_def cell_value_def split: kind.split)
qed simp

section \<open>What leaves the sheet alone\<close>

lemma sheet_prims [simp]:
  "sheet_of (register_edge m r g) = sheet_of g"
  "sheet_of (upd n (\<lambda>nd. nd\<lparr>nd_deps := d\<rparr>) g) = sheet_of g"
  "sheet_of (upd n (\<lambda>nd. nd\<lparr>nd_running := b\<rparr>) g) = sheet_of g"
  "sheet_of (upd n (\<lambda>nd. nd\<lparr>nd_started := b\<rparr>) g) = sheet_of g"
  "sheet_of (upd n (\<lambda>nd. nd\<lparr>nd_cleanup := b\<rparr>) g) = sheet_of g"
  "sheet_of (set_cache n v g) = sheet_of g" "sheet_of (set_seen n v g) = sheet_of g"
  "sheet_of (add_log ev g) = sheet_of g" "sheet_of (drop_parent n m g) = sheet_of g"
  "sheet_of (push_work ps g) = sheet_of g" "sheet_of (clear_parents n g) = sheet_of g"
  "sheet_of (enqueue_effect n g) = sheet_of g" "sheet_of (drop_cached n g) = sheet_of g"
  "sheet_of (g\<lparr>g_work := w\<rparr>) = sheet_of g" "sheet_of (g\<lparr>g_active := b\<rparr>) = sheet_of g"
  "sheet_of (g\<lparr>g_pending_cells := w\<rparr>) = sheet_of g" "sheet_of (g\<lparr>g_pending_effects := w\<rparr>) = sheet_of g"
  "sheet_of (g\<lparr>g_pending_cells := w, g_active := b\<rparr>) = sheet_of g"
  by (auto simp: sheet_of_def prims fun_eq_iff)

lemma sheet_detach [simp]: "sheet_of (detach_from_dependencies n g) = sheet_of g"
proof -
  have "sheet_of (fold (drop_parent n) ds h) = sheet_of h" for ds and h :: "'a graph"
    by (induction ds arbitrary: h) simp_all
  then show ?thesis by (simp add: detach_from_dependencies_def)
qed

lemma sheet_cleanup [simp]: "sheet_of (run_cleanup e g) = sheet_of g"
  by (simp add: run_cleanup_def)

lemma sheet_run_body:
  "(\<And>m h. sheet_of (snd (rd m h)) = sheet_of h) \<Longrightarrow> sheet_of (snd (run_body rd b g)) = sheet_of g"
  by (induction b arbitrary: g) (auto simp: split_beta split: outcome.split)

lemma sheet_read_untracked [simp]: "sheet_of (snd (read_untracked k n g)) = sheet_of g"
proof (induction k arbitrary: n g)
  case (Suc k)
  have "sheet_of (snd (run_body (\<lambda>m g. read_untracked k m (register_edge m n g)) b h)) = sheet_of h"
    for b and h :: "'a graph"
    by (rule sheet_run_body) (simp add: Suc.IH)
  then show ?case
    by (auto simp: slot_call_def split_beta split: kind.split option.split outcome.split)
qed simp

lemma sheet_effect_call [simp]: "sheet_of (snd (effect_call e g)) = sheet_of g"
proof -
  have "sheet_of (snd (run_body (\<lambda>m g. compute_read (g_size g) e m g) b h)) = sheet_of h" for b and h :: "'a graph"
    by (rule sheet_run_body) (simp add: compute_read_def)
  then show ?thesis
    by (auto simp: effect_call_def Let_def split_beta finish_run_def split: option.split outcome.split)
qed

lemma sheet_invalidate [simp]: "sheet_of (snd (invalidate n g)) = sheet_of g"
  by (simp add: invalidate_def slot_invalidate_def effect_invalidate_def Let_def split: kind.split)

lemma sheet_drain_loop: "sheet_of (snd (drain_loop k g)) = sheet_of g"
proof (induction k arbitrary: g)
  case (Suc k)
  show ?case
  proof (cases "g_work g")
    case (Cons n ns)
    obtain r g' where p: "invalidate n (g\<lparr>g_work := ns\<rparr>) = (r, g')" by force
    have "sheet_of g' = sheet_of g" using sheet_invalidate [of n "g\<lparr>g_work := ns\<rparr>"] by (simp add: p)
    then show ?thesis using Suc.IH [of g'] Cons p by (cases r) simp_all
  qed simp
qed (simp split: list.split)

lemma sheet_drain [simp]: "sheet_of (snd (drain g)) = sheet_of g"
proof -
  let ?p = "drain_loop (work_weight (g_size g) (g_work g)) (g\<lparr>g_active := True\<rparr>)"
  have "sheet_of (snd ?p) = sheet_of g" using sheet_drain_loop [of _ "g\<lparr>g_active := True\<rparr>"] by simp
  then show ?thesis by (cases ?p) (auto simp: drain_def)
qed

lemma sheet_touch [simp]: "sheet_of (snd (touch n g)) = sheet_of g"
  by (simp add: touch_def)

lemma sheet_dirty_loop [simp]: "sheet_of (snd (dirty_loop k st g)) = sheet_of g"
  by (induction k st g rule: dirty_loop.induct) simp_all

lemma sheet_dirty [simp]: "sheet_of (dirty_disposed_dependents roots g) = sheet_of g"
  by (simp add: dirty_disposed_dependents_def)

lemma sheet_each: "sheet_of (snd (each batch_rerun es g)) = sheet_of g"
proof (induction es arbitrary: g)
  case (Cons e es)
  obtain r g' where p: "batch_rerun e g = (r, g')" by force
  have "sheet_of (snd (batch_rerun e g)) = sheet_of g" by (simp add: batch_rerun_def)
  then show ?case using Cons.IH [of g'] by (cases r) (simp_all add: p)
qed simp

lemma sheet_flush: "sheet_of (snd (flush g)) = sheet_of g"
proof -
  have "sheet_of (fold touch_pending ns h) = sheet_of h" for ns and h :: "'a graph"
    by (induction ns arbitrary: h) (simp_all add: touch_pending_def)
  then have wave: "sheet_of (snd (flush_wave g)) = sheet_of g" by (simp add: flush_wave_def Let_def)
  then have "sheet_of (snd (flush_effects (snd (flush_wave g)))) = sheet_of g"
    by (simp add: flush_effects_def sheet_each)
  then show ?thesis using wave by (cases "flush_wave g"; cases "fst (flush_wave g)") (simp_all add: flush_def)
qed

section \<open>Every call refines the sheet's step\<close>

lemma sheet_parts:
  "sheet_of g' = sheet_of g \<Longrightarrow> sh_depth (sheet_of g) = d \<Longrightarrow> g_depth g' = d"
  by (simp add: sheet_of_def)

lemma sheet_mark: "sheet_of (mark_disposed n g) = (sheet_of g)\<lparr>sh_disposed := (sh_disposed (sheet_of g))(n := True)\<rparr>"
  by (auto simp: sheet_of_def prims fun_eq_iff)

lemma sheet_dispose:
  "sheet_of (dispose_node n g) = (sheet_of g)\<lparr>sh_disposed := (sh_disposed (sheet_of g))(n := True)\<rparr>"
proof -
  have same: "sheet_of g = (sheet_of g)\<lparr>sh_disposed := (sh_disposed (sheet_of g))(n := True)\<rparr>" if "disposed g n"
    using that by (auto simp: sheet_of_def fun_eq_iff)
  show ?thesis
    using same
    by (auto simp: dispose_node_def source_dispose_def slot_dispose_def effect_dispose_def Let_def sheet_mark
        split: kind.split)
qed

lemma sheet_new: "sheet_of (new_node k v g) = sheet_add k v (sheet_of g)"
  by (auto simp: sheet_of_def new_node_def sheet_add_def blank_def fun_eq_iff)

lemma sheet_enter: "sheet_of (batch_enter g) = (sheet_of g)\<lparr>sh_depth := sh_depth (sheet_of g) + 1\<rparr>"
  by (simp add: sheet_of_def batch_enter_def)

lemma gstep_refines:
  assumes "no_raise c (fst (gstep c g))"
  shows "sheet_of (snd (gstep c g)) = sheet_step c (sheet_of g)"
proof (cases c)
  case (Write n v)
  have "sheet_of (snd (cell_write n v g)) =
      (if disposed g n then sheet_of g else (sheet_of g)\<lparr>sh_value := (sh_value (sheet_of g))(n \<mapsto> v)\<rparr>)"
    by (auto simp: cell_write_def Let_def notify_change_def) (auto simp: sheet_of_def prims fun_eq_iff)
  moreover have "sh_kind (sheet_of g) n = kind_of g n" "sh_disposed (sheet_of g) n = disposed g n"
    by (simp_all add: sheet_of_def)
  ultimately show ?thesis by (simp add: Write gstep_def sheet_step_def split: kind.split)
next
  case Exit
  have dec: "sheet_of (h\<lparr>g_depth := g_depth h - 1\<rparr>) = (sheet_of h)\<lparr>sh_depth := sh_depth (sheet_of h) - 1\<rparr>"
    for h :: "'a graph" by (simp add: sheet_of_def)
  have fl: "sheet_of (snd (flush g)) = sheet_of g" by (rule sheet_flush)
  show ?thesis
  proof (cases "g_depth g = 0")
    case True
    then show ?thesis by (simp add: Exit gstep_def sheet_step_def sheet_of_def)
  next
    case pos: False
    show ?thesis
    proof (cases "g_depth g = 1 \<and> fst (flush g) \<noteq> None")
      case True
      then show ?thesis using assms Exit
        by (cases "flush g") (auto simp: gstep_def batch_exit_def no_raise_def)
    next
      case False
      then show ?thesis using pos fl dec [of "snd (flush g)"] dec [of g]
        by (cases "flush g") (auto simp: Exit gstep_def batch_exit_def sheet_step_def)
    qed
  qed
qed (simp_all add: gstep_def sheet_step_def sheet_dispose sheet_new sheet_enter split_beta slot_reset_def
    split: kind.split)

section \<open>Runs of calls\<close>

primrec run_ok :: "'v graph \<Rightarrow> 'v gop list \<Rightarrow> bool" where
  "run_ok g [] = True"
| "run_ok g (c # cs) = (op_ok g c \<and> no_raise c (fst (gstep c g)) \<and> run_ok (snd (gstep c g)) cs)"

lemma run_ok_reach: "reach g \<Longrightarrow> run_ok g cs \<Longrightarrow> reach (grun cs g)"
  by (induction cs arbitrary: g) (simp_all add: grun_def reach_step)

lemma run_sheet: "run_ok g cs \<Longrightarrow> sheet_of (grun cs g) = fold sheet_step cs (sheet_of g)"
  by (induction cs arbitrary: g) (simp_all add: grun_def gstep_refines)

lemma empty_sheet_of: "sheet_of empty_graph = empty_sheet"
  by (simp add: sheet_of_def empty_graph_def empty_sheet_def blank_def)

lemma run_reach: "run_ok empty_graph cs \<Longrightarrow> reach (grun cs empty_graph)"
  by (rule run_ok_reach [OF reach_start])

lemma run_sheet_run: "run_ok empty_graph cs \<Longrightarrow> sheet_of (grun cs empty_graph) = sheet_run cs"
  by (simp add: run_sheet empty_sheet_of sheet_run_def)

lemma pull_recomputes:
  assumes "top_ok g" and "g_depth g = 0" and "n < g_size g"
  shows "fst (gstep (Pull n) g) = Some (sheet_read (sheet_of g) n)"
  using read_sem [OF top_quiet [OF assms(1,2)] assms(3)]
  by (simp add: gstep_def split_beta sem_sheet sheet_read_def) (simp add: sheet_of_def)

section \<open>The fuel of every call is enough\<close>

lemma start_total: "wf_graph g \<Longrightarrow> fst (effect_call e g) \<noteq> Some Out_of_fuel"
  using effect_call_total [of g e] by (cases "kind_of g e") (auto simp: effect_call_def effect_body_def)

lemma write_total:
  assumes top: "top_ok g" and lt: "n < g_size g" and k: "kind_of g n = SourceK"
  shows "fst (cell_write n v g) \<noteq> Some Out_of_fuel"
proof (cases "disposed g n")
  case False
  let ?g1 = "upd n (\<lambda>nd. nd\<lparr>nd_value := Some v\<rparr>) g"
  have ok: "graph_ok g" using top by (simp add: top_ok_def)
  have act: "\<not> g_active (push_work (parents ?g1 n) (clear_parents n ?g1))"
    using top by (simp add: top_ok_def prims)
  show ?thesis
    using drain_ok(3) [OF write_base_ok(4) [OF ok lt k False] act]
    by (auto simp: cell_write_def notify_change_def touch_def Let_def)
qed (simp add: cell_write_def)

lemma each_total: "effects_due es g \<Longrightarrow> fst (each batch_rerun es g) \<noteq> Some Out_of_fuel"
proof (induction es arbitrary: g)
  case (Cons e es)
  obtain r g' where p: "batch_rerun e g = (r, g')" by force
  have "effects_due es g'" using batch_rerun_ok [OF Cons.prems] by (simp add: p)
  moreover have "fst (batch_rerun e g) \<noteq> Some Out_of_fuel"
    using start_total [of g e] Cons.prems by (auto simp: batch_rerun_def effects_due_def)
  ultimately show ?case using Cons.IH [of g'] by (cases r) (auto simp: p)
qed simp

lemma exit_total:
  assumes top: "top_ok g" and d: "0 < g_depth g"
  shows "fst (batch_exit g) \<noteq> Some Out_of_fuel"
proof -
  note wave = flush_wave_ok [OF top d]
  have "fst (flush_effects (snd (flush_wave g))) \<noteq> Some Out_of_fuel"
    using each_total [OF wave_effects_due [OF wave(2)]] by (simp add: flush_effects_def)
  then have "fst (flush g) \<noteq> Some Out_of_fuel"
    using wave(1) by (cases "flush_wave g") (simp add: flush_def)
  then show ?thesis by (cases "flush g"; cases "fst (flush g)") (auto simp: batch_exit_def)
qed

lemma reset_total:
  assumes top: "top_ok g" and n: "n < g_size g"
  shows "fst (slot_reset n g) \<noteq> Some Out_of_fuel"
  unfolding slot_reset_def using top
  by (intro drain_ok(3) reset_pushed_ok [OF _ n]) (simp_all add: top_ok_def)

lemma gstep_total:
  assumes top: "top_ok g" and ok: "op_ok g c"
  shows "fst (gstep c g) \<noteq> Some Out_of_fuel"
proof -
  have wf: "wf_graph g" using top by (simp add: top_ok_def graph_ok_def)
  show ?thesis
    using ok write_total [OF top] reset_total [OF top] exit_total [OF top] start_total [OF wf]
      read_total [OF _ wf_bodies_below [OF wf]]
    by (cases c) (auto simp: gstep_def op_ok_def split_beta split: kind.split)
qed

section \<open>Evaluation\<close>

text \<open>The definitions that evaluate a concrete run, and its sheet.\<close>

lemmas kernel_eval = grun_def gstep_def new_node_def empty_graph_def blank_def slot_call_def upd_def
  set_cache_def register_edge_def cell_write_def notify_change_def touch_def drain_def push_work_def
  clear_parents_def invalidate_def slot_invalidate_def work_weight_def add_new_def Let_def cell_value_def
  effect_call_def effect_body_def run_cleanup_def detach_from_dependencies_def drop_parent_def
  compute_read_def finish_run_def set_seen_def add_log_def effect_invalidate_def enqueue_effect_def
  batch_enter_def batch_exit_def flush_def flush_wave_def flush_effects_def batch_rerun_def
  touch_pending_def slot_reset_def dispose_node_def source_dispose_def slot_dispose_def effect_dispose_def
  mark_disposed_def dirty_disposed_dependents_def drop_cached_def op_ok_def no_raise_def eval_nat_numeral

lemmas sheet_eval = sheet_run_def sheet_step_def sheet_add_def empty_sheet_def sheet_read_def eval_nat_numeral

end
