(* ===== verification/KernelTheorems.thy ===== *)
theory KernelTheorems
  imports KernelRefine
begin

text \<open>
  The properties of the synchronous kernel, over the runs of calls a client makes, with their
  evaluations on a small graph: a source, a slot that negates it, and an effect over the slot.
\<close>

definition demo_calls :: "bool gop list" where
  "demo_calls = [New_source True, New_slot (Read 0 (\<lambda>v. Ret (\<not> v))), New_effect (Read 1 Ret) True,
     Start 2, Write 0 False]"

lemma demo_ok: "run_ok empty_graph demo_calls"
  by (simp add: demo_calls_def kernel_eval)

lemma demo_sheet:
  "sh_depth (sheet_run demo_calls) = 0" "sh_size (sheet_run demo_calls) = 3"
  "sh_kind (sheet_run demo_calls) 2 = EffectK (Read 1 Ret) True"
  by (simp_all add: demo_calls_def sheet_eval)


text \<open>C1: after any run of calls that raised nothing, outside a batch, reading a node gives the
  value (or the error) that the abstract sheet recomputes from the sources: caching, the edges
  and the invalidation wave are unobservable.\<close>

theorem kernel_refines_sheet:
  assumes "run_ok empty_graph cs" and "sh_depth (sheet_run cs) = 0" and "n < sh_size (sheet_run cs)"
  shows "fst (gstep (Pull n) (grun cs empty_graph)) = Some (sheet_read (sheet_run cs) n)"
proof -
  have s: "sheet_of (grun cs empty_graph) = sheet_run cs" by (rule run_sheet_run [OF assms(1)])
  have "top_ok (grun cs empty_graph)" by (rule reach_top [OF run_reach [OF assms(1)]])
  moreover have "g_depth (grun cs empty_graph) = 0" "n < g_size (grun cs empty_graph)"
    using assms(2,3) unfolding s [symmetric] by (simp_all add: sheet_of_def)
  ultimately show ?thesis using pull_recomputes s by metis
qed

theorem kernel_refines_sheet_witness:
  "fst (gstep (Pull 1) (grun demo_calls empty_graph)) = Some (Val True)"
  using kernel_refines_sheet [OF demo_ok demo_sheet(1), of 1]
  by (simp add: demo_sheet) (simp add: demo_calls_def sheet_eval)



text \<open>C3: closing a batch runs each queued effect at most once, and every run sees only values
  recomputed from the sources as they stand when the batch closes: no effect of a batch sees a
  half-updated graph, whatever was written in whichever order.\<close>

theorem kernel_batch_glitch_free:
  assumes "run_ok empty_graph cs" and "sh_depth (sheet_run cs) = 1"
  defines "g \<equiv> grun cs empty_graph"
  shows "\<exists>L. g_log (snd (gstep Exit g)) = g_log g @ L \<and> runs_fresh g L \<and> distinct (ran L)"
proof -
  have "top_ok g" unfolding g_def by (rule reach_top [OF run_reach [OF assms(1)]])
  moreover have d: "g_depth g = 1"
    using assms(2) unfolding run_sheet_run [OF assms(1), symmetric] g_def by (simp add: sheet_of_def)
  ultimately have "\<exists>L. g_log (snd (batch_exit g)) = g_log g @ L \<and> runs_fresh g L \<and> distinct (ran L)"
    by (rule flush_events)
  then show ?thesis using d by (simp add: gstep_def)
qed

definition demo_batch :: "bool gop list" where
  "demo_batch = [New_source True, New_source False, New_effect (Read 0 (\<lambda>a. Read 1 (\<lambda>b. Ret (a = b)))) False,
     Start 2, Enter, Write 0 False, Write 1 True, Write 1 False]"

theorem kernel_batch_glitch_free_witness:
  "\<exists>L. g_log (snd (gstep Exit (grun demo_batch empty_graph))) = [Ran 2 False] @ L \<and> distinct (ran L)"
proof -
  have "run_ok empty_graph demo_batch" by (simp add: demo_batch_def kernel_eval)
  moreover have "sh_depth (sheet_run demo_batch) = 1" by (simp add: demo_batch_def sheet_eval)
  moreover have "g_log (grun demo_batch empty_graph) = [Ran 2 False]" by (simp add: demo_batch_def kernel_eval)
  ultimately show ?thesis using kernel_batch_glitch_free [of demo_batch] by auto
qed

text \<open>C4: no call runs out of the fuel the model gives its loops and reads, so every call of the
  code returns (a value, nothing, or the error of a disposed read).\<close>

theorem kernel_calls_return:
  assumes "run_ok empty_graph cs" and "op_ok (grun cs empty_graph) c"
  shows "fst (gstep c (grun cs empty_graph)) \<noteq> Some Out_of_fuel"
  by (rule gstep_total [OF reach_top [OF run_reach [OF assms(1)]] assms(2)])

theorem kernel_calls_return_witness:
  "fst (gstep (Write 0 True) (grun demo_calls empty_graph)) \<noteq> Some Out_of_fuel"
  by (rule kernel_calls_return [OF demo_ok]) (simp add: demo_calls_def kernel_eval)

text \<open>C5: at any point of a run, also inside a batch, a slot's cached value is either the result of
  its body on the values of its reads, with an edge from each of them, or its invalidation is
  already due; a disposed node has no cached value.\<close>

theorem kernel_cache_coherent:
  assumes "run_ok empty_graph cs" and "sh_kind (sheet_run cs) n = SlotK b"
    and "g_cache (grun cs empty_graph) n = Some v"
  defines "g \<equiv> grun cs empty_graph"
  shows "\<not> disposed g n \<and> (owed g n \<or> eval_in (env g) b = Some v \<and> (\<forall>m. m \<in> set (trace (env g) b) \<longrightarrow> n \<in> set (parents g m)))"
proof -
  have k: "kind_of g n = SlotK b"
    using assms(2) unfolding run_sheet_run [OF assms(1), symmetric] g_def by (simp add: sheet_of_def)
  have ok: "graph_ok g"
    using reach_top [OF run_reach [OF assms(1)]] by (simp add: top_ok_def g_def)
  have res: "body_of (kind_of g n) = Some b" "result g n = Some v"
    using k assms(3) by (simp_all add: body_of_def result_def g_def)
  have "\<not> disposed g n" using ok res(2) by (auto simp: graph_ok_def wf_graph_def)
  moreover have "owed g n \<or> settled g n b v" using ok res unfolding graph_ok_def coherent_except_def by blast
  ultimately show ?thesis by (auto simp: settled_def)
qed

theorem kernel_cache_coherent_witness:
  "\<not> disposed (grun demo_calls empty_graph) 1"
proof -
  have k: "sh_kind (sheet_run demo_calls) 1 = SlotK (Read 0 (\<lambda>v. Ret (\<not> v)))"
    by (simp add: demo_calls_def sheet_eval)
  have v: "g_cache (grun demo_calls empty_graph) 1 = Some True" by (simp add: demo_calls_def kernel_eval)
  show ?thesis using kernel_cache_coherent [OF demo_ok k v] by blast
qed

text \<open>C6: disposal is terminal and reaches live readers: outside a batch, after a node is disposed
  a read of it raises, and so does a slot whose body reads it first, even when the slot held a
  cached value.\<close>

theorem kernel_disposed_read_raises:
  assumes "run_ok empty_graph cs" and "sh_depth (sheet_run cs) = 0" and "n < s" and "s < sh_size (sheet_run cs)"
    and "sh_kind (sheet_run cs) s = SlotK (Read n f)"
    and "sh_kind (sheet_run cs) n = SourceK \<or> (\<exists>b. sh_kind (sheet_run cs) n = SlotK b)"
  shows "fst (gstep (Pull s) (snd (gstep (Dispose n) (grun cs empty_graph)))) = Some Disposed_error"
proof -
  let ?cs = "cs @ [Dispose n]" and ?g = "grun cs empty_graph"
  let ?s = "sheet_run cs" and ?t = "sheet_run (cs @ [Dispose n])"
  have size: "g_size ?g = sh_size ?s"
    unfolding run_sheet_run [OF assms(1), symmetric] by (simp add: sheet_of_def)
  have t: "?t = ?s\<lparr>sh_disposed := (sh_disposed ?s)(n := True)\<rparr>" by (simp add: sheet_run_def sheet_step_def)
  have top: "top_ok (snd (gstep (Dispose n) ?g))"
    using gstep_top [OF reach_top [OF run_reach [OF assms(1)]], of "Dispose n"] assms(3,4) size
    by (simp add: op_ok_def no_raise_def gstep_def)
  have sheet: "sheet_of (snd (gstep (Dispose n) ?g)) = ?t"
    using gstep_refines [of "Dispose n" ?g] run_sheet_run [OF assms(1)]
    by (simp add: no_raise_def gstep_def sheet_run_def)
  have "g_depth (snd (gstep (Dispose n) ?g)) = 0" "s < g_size (snd (gstep (Dispose n) ?g))"
    using assms(2,4) arg_cong [OF sheet, of sh_depth] arg_cong [OF sheet, of sh_size] t by (simp_all add: sheet_of_def)
  then have pull: "fst (gstep (Pull s) (snd (gstep (Dispose n) ?g))) = Some (sheet_read ?t s)"
    using pull_recomputes [OF top] by (simp add: sheet)
  obtain k where k: "sh_size ?s = Suc (Suc k)" using assms(3,4) by (cases "sh_size ?s"; cases "sh_size ?s - 1") auto
  have "sheet_sem (Suc k) ?t n = Disposed_error" using assms(6) by (auto simp: t)
  then have "sheet_read ?t s = Disposed_error"
    using assms(5) by (simp add: sheet_read_def t k)
  then show ?thesis using pull by simp
qed

theorem kernel_disposed_read_raises_witness:
  "fst (gstep (Pull 1) (snd (gstep (Dispose 0) (grun demo_calls empty_graph)))) = Some Disposed_error"
proof (rule kernel_disposed_read_raises [OF demo_ok demo_sheet(1)])
  show "sh_kind (sheet_run demo_calls) 1 = SlotK (Read 0 (\<lambda>v. Ret (\<not> v)))"
    "sh_kind (sheet_run demo_calls) 0 = SourceK \<or> (\<exists>b. sh_kind (sheet_run demo_calls) 0 = SlotK b)"
    by (simp_all add: demo_calls_def sheet_eval)
qed (simp_all add: demo_sheet)

end
