(* ===== verification/RelayPolicies.thy ===== *)
theory RelayPolicies
  imports Relay
begin

text \<open>
  The optional egress policies of \<^verbatim>\<open>src/lazily/relay.py\<close> (phase 6): token
  bucket, flush window, expiry by age, priority egress, and the keyed relay.
\<close>

section \<open>Token bucket\<close>

record rate_policy =
  rp_capacity :: int
  rp_tokens :: int
  rp_refill :: int

definition rp_new :: "int \<Rightarrow> int \<Rightarrow> rate_policy" where
  "rp_new capacity refill = \<lparr>rp_capacity = capacity, rp_tokens = capacity, rp_refill = refill\<rparr>"

definition rp_try_egress :: "rate_policy \<Rightarrow> rate_policy \<times> bool" where
  "rp_try_egress p =
     (if rp_tokens p > 0 then (p\<lparr>rp_tokens := rp_tokens p - 1\<rparr>, True) else (p, False))"

definition rp_tick :: "rate_policy \<Rightarrow> rate_policy" where
  "rp_tick p = p\<lparr>rp_tokens := min (rp_tokens p + rp_refill p) (rp_capacity p)\<rparr>"

datatype rate_op = TryEgress | RateTick

fun rp_run :: "rate_policy \<Rightarrow> rate_op list \<Rightarrow> rate_policy \<times> nat" where
  "rp_run p [] = (p, 0)"
| "rp_run p (TryEgress # xs) =
     (let (p', ok) = rp_try_egress p; (p'', n) = rp_run p' xs in (p'', if ok then Suc n else n))"
| "rp_run p (RateTick # xs) = rp_run (rp_tick p) xs"

definition rp_ok :: "rate_policy \<Rightarrow> bool" where
  "rp_ok p \<longleftrightarrow> 0 \<le> rp_tokens p \<and> rp_tokens p \<le> rp_capacity p \<and> 0 \<le> rp_refill p"

lemma rp_try_ok: "rp_ok p \<Longrightarrow> rp_ok (fst (rp_try_egress p))"
  by (auto simp: rp_ok_def rp_try_egress_def)

lemma rp_tick_ok: "rp_ok p \<Longrightarrow> rp_ok (rp_tick p)"
  by (auto simp: rp_ok_def rp_tick_def)

text \<open>Paced egress: the bucket pays for each passage, and each tick refills at most its rate.\<close>

lemma rp_run_bound:
  "rp_ok p \<Longrightarrow>
     rp_ok (fst (rp_run p xs)) \<and>
     int (snd (rp_run p xs)) + rp_tokens (fst (rp_run p xs)) \<le>
       rp_tokens p + rp_refill p * int (count_list xs RateTick)"
proof (induction p xs rule: rp_run.induct)
  case (2 p xs)
  have "rp_ok (fst (rp_try_egress p))" using 2(2) by (rule rp_try_ok)
  from 2(1) [OF refl prod.collapse this] show ?case
    by (auto simp: split_beta Let_def rp_try_egress_def)
next
  case (3 p xs)
  from 3(1) [OF rp_tick_ok [OF 3(2)]] show ?case
    by (auto simp: rp_tick_def algebra_simps)
qed simp

section \<open>Flush window\<close>

record window_policy =
  wp_window_ops :: int
  wp_pending :: int

definition wp_new :: "int \<Rightarrow> window_policy" where
  "wp_new window_ops = \<lparr>wp_window_ops = max 1 window_ops, wp_pending = 0\<rparr>"

definition wp_on_ingress :: "window_policy \<Rightarrow> window_policy \<times> bool" where
  "wp_on_ingress w =
     (let w1 = w\<lparr>wp_pending := wp_pending w + 1\<rparr>
      in if wp_pending w1 \<ge> wp_window_ops w1 then (w1\<lparr>wp_pending := 0\<rparr>, True) else (w1, False))"

definition wp_tick :: "window_policy \<Rightarrow> window_policy \<times> bool" where
  "wp_tick w = (if wp_pending w > 0 then (w\<lparr>wp_pending := 0\<rparr>, True) else (w, False))"

fun wp_ingresses :: "window_policy \<Rightarrow> nat \<Rightarrow> window_policy \<times> nat" where
  "wp_ingresses w 0 = (w, 0)"
| "wp_ingresses w (Suc n) =
     (let (w', k) = wp_ingresses w n; (w'', flush) = wp_on_ingress w'
      in (w'', if flush then Suc k else k))"

text \<open>From a fresh window, \<open>n\<close> ingresses flush once per \<open>window_ops\<close> of them.\<close>

lemma wp_ingresses_count:
  "int (snd (wp_ingresses (wp_new m) n)) = int n div max 1 m \<and>
   wp_pending (fst (wp_ingresses (wp_new m) n)) = int n mod max 1 m \<and>
   wp_window_ops (fst (wp_ingresses (wp_new m) n)) = max 1 m"
proof (induction n)
  case (Suc n)
  let ?w = "fst (wp_ingresses (wp_new m) n)"
  have "0 < max 1 m" by auto
  with Suc div_mod_step [OF this, of "int n"] show ?case
    by (simp add: split_beta Let_def wp_on_ingress_def add.commute [of 1])
qed (simp add: wp_new_def)

section \<open>Expiry\<close>

record expiry_policy =
  ep_ttl :: int
  ep_now :: int

definition ep_new :: "int \<Rightarrow> expiry_policy" where
  "ep_new ttl = \<lparr>ep_ttl = ttl, ep_now = 0\<rparr>"

definition ep_advance :: "expiry_policy \<Rightarrow> int \<Rightarrow> expiry_policy" where
  "ep_advance e by = e\<lparr>ep_now := ep_now e + by\<rparr>"

definition ep_is_live :: "expiry_policy \<Rightarrow> int \<Rightarrow> bool" where
  "ep_is_live e stamped_at \<longleftrightarrow> ep_now e - stamped_at \<le> ep_ttl e"

definition ep_retain_live :: "expiry_policy \<Rightarrow> (int \<times> 'a) list \<Rightarrow> 'a list" where
  "ep_retain_live e batch = [v. (ts, v) \<leftarrow> batch, ep_is_live e ts]"

lemma ep_retain_filter:
  "ep_retain_live e batch = map snd (filter (\<lambda>x. ep_is_live e (fst x)) batch)"
  by (induction batch) (auto simp: ep_retain_live_def)

lemma ep_live_antimono: "0 \<le> d \<Longrightarrow> ep_is_live (ep_advance e d) ts \<Longrightarrow> ep_is_live e ts"
  by (simp add: ep_is_live_def ep_advance_def)

lemma ep_retain_antimono:
  assumes "0 \<le> d"
  shows "subseq (ep_retain_live (ep_advance e d) batch) (ep_retain_live e batch)"
  using ep_live_antimono [OF assms, of e]
  by (induction batch) (auto simp: ep_retain_filter)

section \<open>Priority egress\<close>

text \<open>An item is \<^verbatim>\<open>(priority, seq, value)\<close>.\<close>

type_synonym 'a prio_item = "int \<times> int \<times> 'a"

record 'a priority_storage =
  ps_items :: "'a prio_item list"
  ps_seq :: int

definition ps_new :: "'a priority_storage" where
  "ps_new = \<lparr>ps_items = [], ps_seq = 0\<rparr>"

definition ps_push :: "'a priority_storage \<Rightarrow> int \<Rightarrow> 'a \<Rightarrow> 'a priority_storage" where
  "ps_push s pri v = s\<lparr>ps_items := ps_items s @ [(pri, ps_seq s, v)], ps_seq := ps_seq s + 1\<rparr>"

definition better :: "'a prio_item \<Rightarrow> 'a prio_item \<Rightarrow> bool" where
  "better a b \<longleftrightarrow> fst a > fst b \<or> (fst a = fst b \<and> fst (snd a) < fst (snd b))"

definition best_index :: "'a prio_item list \<Rightarrow> nat" where
  "best_index items = foldl (\<lambda>best i. if better (items ! i) (items ! best) then i else best) 0
     [1..<length items]"

definition ps_pop :: "'a priority_storage \<Rightarrow> 'a priority_storage \<times> 'a option" where
  "ps_pop s =
     (if ps_items s = [] then (s, None)
      else let best = best_index (ps_items s);
               (_, _, v) = ps_items s ! best
           in (s\<lparr>ps_items := take best (ps_items s) @ drop (Suc best) (ps_items s)\<rparr>, Some v))"

definition ps_len :: "'a priority_storage \<Rightarrow> nat" where
  "ps_len s = length (ps_items s)"

text \<open>The entries are in push order and their sequence numbers lie below the next one.\<close>

definition ps_inv :: "'a priority_storage \<Rightarrow> bool" where
  "ps_inv s \<longleftrightarrow> sorted_wrt (\<lambda>a b. fst (snd a) < fst (snd b)) (ps_items s) \<and>
     (\<forall>x\<in>set (ps_items s). fst (snd x) < ps_seq s)"

lemma ps_new_inv: "ps_inv ps_new"
  by (simp add: ps_inv_def ps_new_def)

lemma ps_push_inv: "ps_inv s \<Longrightarrow> ps_inv (ps_push s pri v)"
  by (force simp: ps_inv_def ps_push_def sorted_wrt_snoc)

lemma best_index_scan:
  assumes "k \<le> n" and "0 < k" and "n \<le> length items"
    and "b < k" and "\<forall>j<k. j \<noteq> b \<longrightarrow> \<not> better (items ! j) (items ! b)"
    and tot: "\<forall>i<length items. \<forall>j<length items. i \<noteq> j \<longrightarrow>
                better (items ! i) (items ! j) \<or> better (items ! j) (items ! i)"
  shows "let r = foldl (\<lambda>best i. if better (items ! i) (items ! best) then i else best) b [k..<n]
         in r < n \<and> (\<forall>j<n. j \<noteq> r \<longrightarrow> \<not> better (items ! j) (items ! r))"
  using assms(1-5)
proof (induction "n - k" arbitrary: k b)
  case 0
  then show ?case by (simp add: Let_def)
next
  case (Suc d)
  let ?b = "if better (items ! k) (items ! b) then k else b"
  have k: "k < n" "[k..<n] = k # [Suc k..<n]" using Suc.hyps(2) by (auto simp: upt_rec)
  have "\<forall>j<Suc k. j \<noteq> ?b \<longrightarrow> \<not> better (items ! j) (items ! ?b)"
  proof (intro allI impI)
    fix j assume j: "j < Suc k" "j \<noteq> ?b"
    show "\<not> better (items ! j) (items ! ?b)"
    proof (cases "better (items ! k) (items ! b)")
      case True
      with j have "j < k" by simp
      with Suc.prems(5) have "j = b \<or> \<not> better (items ! j) (items ! b)" by blast
      with True show ?thesis by (auto simp: better_def)
    next
      case False
      with j Suc.prems(5) show ?thesis by (cases "j = k") auto
    qed
  qed
  with Suc.hyps(1) [of "Suc k" ?b] Suc.hyps(2) Suc.prems k show ?case by simp
qed

text \<open>The scan finds the item that no other item beats.\<close>

lemma ps_items_total:
  assumes "ps_inv s"
  shows "\<forall>i<length (ps_items s). \<forall>j<length (ps_items s). i \<noteq> j \<longrightarrow>
           better (ps_items s ! i) (ps_items s ! j) \<or> better (ps_items s ! j) (ps_items s ! i)"
proof (intro allI impI)
  fix i j assume "i < length (ps_items s)" "j < length (ps_items s)" "i \<noteq> j"
  then have "fst (snd (ps_items s ! i)) \<noteq> fst (snd (ps_items s ! j))"
    using assms sorted_wrt_nth_less [of _ "ps_items s" i j] sorted_wrt_nth_less [of _ "ps_items s" j i]
    by (cases "i < j") (fastforce simp: ps_inv_def)+
  then show "better (ps_items s ! i) (ps_items s ! j) \<or> better (ps_items s ! j) (ps_items s ! i)"
    by (auto simp: better_def)
qed

lemma best_index_best:
  assumes "ps_inv s" and "ps_items s \<noteq> []"
  shows "best_index (ps_items s) < length (ps_items s)"
    and "j < length (ps_items s) \<Longrightarrow> j \<noteq> best_index (ps_items s) \<Longrightarrow>
           \<not> better (ps_items s ! j) (ps_items s ! best_index (ps_items s))"
  using best_index_scan [of 1 "length (ps_items s)" "ps_items s" 0] assms(2) ps_items_total [OF assms(1)]
  by (simp_all add: best_index_def Let_def Suc_le_eq)

lemma best_split:
  assumes "ps_inv s" and "ps_items s \<noteq> []"
  defines "b \<equiv> best_index (ps_items s)"
  shows "\<forall>y\<in>set (take b (ps_items s)). fst y < fst (ps_items s ! b)"
    and "\<forall>y\<in>set (drop (Suc b) (ps_items s)). fst y \<le> fst (ps_items s ! b)"
proof -
  have b: "b < length (ps_items s)" unfolding b_def by (rule best_index_best [OF assms(1,2)])
  have srt: "i < j \<Longrightarrow> j < length (ps_items s) \<Longrightarrow> fst (snd (ps_items s ! i)) < fst (snd (ps_items s ! j))" for i j
    using assms(1) sorted_wrt_nth_less by (fastforce simp: ps_inv_def)
  show "\<forall>y\<in>set (take b (ps_items s)). fst y < fst (ps_items s ! b)"
  proof
    fix y assume "y \<in> set (take b (ps_items s))"
    then obtain j where "j < b" "y = ps_items s ! j" by (auto simp: in_set_conv_nth)
    then show "fst y < fst (ps_items s ! b)"
      using best_index_best(2) [OF assms(1,2), of j] srt [of j b] b
      by (auto simp: better_def b_def)
  qed
  show "\<forall>y\<in>set (drop (Suc b) (ps_items s)). fst y \<le> fst (ps_items s ! b)"
  proof
    fix y assume "y \<in> set (drop (Suc b) (ps_items s))"
    then obtain j where "j < length (ps_items s) - Suc b" "y = ps_items s ! (Suc b + j)"
      by (auto simp: in_set_conv_nth)
    then have "Suc b + j < length (ps_items s)" "y = ps_items s ! (Suc b + j)" by linarith+
    then show "fst y \<le> fst (ps_items s ! b)"
      using best_index_best(2) [OF assms(1,2), of "Suc b + j"] by (auto simp: better_def b_def)
  qed
qed

lemma sort_key_first_max:
  fixes f :: "'b \<Rightarrow> 'k::linorder"
  assumes "\<forall>y\<in>set as. f x < f y" and "\<forall>y\<in>set bs. f x \<le> f y"
  shows "sort_key f (as @ x # bs) = x # sort_key f (as @ bs)"
proof (rule properties_for_sort_key)
  fix k
  show "filter (\<lambda>y. f k = f y) (x # sort_key f (as @ bs)) = filter (\<lambda>y. f k = f y) (as @ x # bs)"
  proof (cases "f k = f x")
    case True
    have "filter (\<lambda>y. f x = f y) as = []" using assms(1) by (auto simp: filter_empty_conv)
    with True show ?thesis using sort_key_stable [of f "f x" "as @ bs"]
      by (simp add: eq_commute [of "f x"])
  next
    case False
    then show ?thesis using sort_key_stable [of f "f k" "as @ bs"]
      by (simp add: eq_commute [of "f k"])
  qed
qed (use assms in \<open>force+\<close>)

lemma ps_pop_spec:
  assumes "ps_inv s" and "ps_items s \<noteq> []"
  shows "ps_inv (fst (ps_pop s)) \<and>
         (\<exists>x. snd (ps_pop s) = Some (snd (snd x)) \<and>
              sort_key (\<lambda>x. - fst x) (ps_items s) = x # sort_key (\<lambda>x. - fst x) (ps_items (fst (ps_pop s)))) \<and>
         length (ps_items s) = Suc (length (ps_items (fst (ps_pop s))))"
proof -
  let ?xs = "ps_items s"
  define b where "b = best_index ?xs"
  have b: "b < length ?xs" unfolding b_def by (rule best_index_best [OF assms])
  have items: "?xs = take b ?xs @ ?xs ! b # drop (Suc b) ?xs" by (rule id_take_nth_drop [OF b])
  have pop: "ps_pop s = (s\<lparr>ps_items := take b ?xs @ drop (Suc b) ?xs\<rparr>, Some (snd (snd (?xs ! b))))"
    using assms(2) by (simp add: ps_pop_def Let_def split_beta b_def)
  have "sort_key (\<lambda>x. - fst x) ?xs =
      ?xs ! b # sort_key (\<lambda>x. - fst x) (take b ?xs @ drop (Suc b) ?xs)"
    using best_split [OF assms] by (subst items, intro sort_key_first_max) (auto simp: b_def)
  moreover have "sorted_wrt (\<lambda>a b. fst (snd a) < fst (snd b)) (take b ?xs @ ?xs ! b # drop (Suc b) ?xs)"
    using assms(1) items by (simp add: ps_inv_def)
  then have "sorted_wrt (\<lambda>a b. fst (snd a) < fst (snd b)) (take b ?xs @ drop (Suc b) ?xs)"
    by (simp add: sorted_wrt_append)
  moreover have "set (take b ?xs @ drop (Suc b) ?xs) \<subseteq> set ?xs"
    by (auto dest: in_set_takeD in_set_dropD)
  ultimately show ?thesis using assms(1) b pop
    by (intro conjI exI [of _ "?xs ! b"]) (auto simp: ps_inv_def)
qed

fun ps_pops :: "'a priority_storage \<Rightarrow> nat \<Rightarrow> 'a list" where
  "ps_pops s 0 = []"
| "ps_pops s (Suc n) =
     (let (s', out) = ps_pop s in (case out of None \<Rightarrow> [] | Some v \<Rightarrow> v # ps_pops s' n))"

lemma ps_pops_sorted:
  "ps_inv s \<Longrightarrow> length (ps_items s) \<le> n \<Longrightarrow>
     ps_pops s n = map (\<lambda>x. snd (snd x)) (sort_key (\<lambda>x. - fst x) (ps_items s))"
proof (induction n arbitrary: s)
  case (Suc n)
  show ?case
  proof (cases "ps_items s = []")
    case False
    from ps_pop_spec [OF Suc.prems(1) False] Suc.prems(2) Suc.IH [of "fst (ps_pop s)"]
    show ?thesis by (auto simp: split_beta Let_def)
  qed (simp add: ps_pop_def)
qed simp

definition ps_pushes :: "'a priority_storage \<Rightarrow> (int \<times> 'a) list \<Rightarrow> 'a priority_storage" where
  "ps_pushes s xs = foldl (\<lambda>s (pri, v). ps_push s pri v) s xs"

lemma ps_pushes_items:
  "ps_inv s \<Longrightarrow> ps_inv (ps_pushes s xs) \<and>
     map (\<lambda>x. (fst x, snd (snd x))) (ps_items (ps_pushes s xs)) =
       map (\<lambda>x. (fst x, snd (snd x))) (ps_items s) @ xs"
proof (induction xs arbitrary: s)
  case (Cons x xs)
  obtain pri v where x: "x = (pri, v)" by fastforce
  from Cons.IH [OF ps_push_inv [OF Cons.prems, of pri v]] show ?case
    by (simp add: ps_pushes_def x) (simp add: ps_push_def)
qed (simp add: ps_pushes_def)

end
