(* ===== verification/KeyedRelays.thy ===== *)
theory KeyedRelays
  imports Relay
begin

text \<open>
  The keyed relay of \<^verbatim>\<open>src/lazily/relay.py\<close>: one relay per key, created
  with its own backpressure policy on the first ingress of the key. The construction check
  of a relay is raised from that first ingress.
\<close>

record ('k, 'a) keyed_relay =
  kr_high_water :: int
  kr_overflow :: overflow
  kr_merge :: "'a merge_policy"
  kr_shards :: "'k \<rightharpoonup> bp_policy \<times> 'a relay"
  kr_order :: "'k list"

definition kr_new :: "int \<Rightarrow> overflow \<Rightarrow> 'a merge_policy \<Rightarrow> ('k, 'a) keyed_relay" where
  "kr_new high ov mp = \<lparr>kr_high_water = high, kr_overflow = ov, kr_merge = mp,
     kr_shards = Map.empty, kr_order = []\<rparr>"

definition kr_policy :: "('k, 'a) keyed_relay \<Rightarrow> bp_policy" where
  "kr_policy kr = bp_new Count (kr_high_water kr) (kr_high_water kr div 2) (kr_overflow kr)"

definition kr_ingress ::
  "('k, 'a) keyed_relay \<Rightarrow> 'k \<Rightarrow> 'a \<Rightarrow> relay_config_error + (('k, 'a) keyed_relay \<times> ingress_outcome)" where
  "kr_ingress kr key op =
     (case kr_shards kr key of
        Some (pol, r) \<Rightarrow>
          (let (r', out) = relay_ingress pol r op
           in Inr (kr\<lparr>kr_shards := (kr_shards kr)(key \<mapsto> (pol, r'))\<rparr>, out))
      | None \<Rightarrow>
          (let pol = kr_policy kr
           in case relay_new pol (kr_merge kr) of
                Inl e \<Rightarrow> Inl e
              | Inr r \<Rightarrow>
                  (let (r', out) = relay_ingress pol r op
                   in Inr (kr\<lparr>kr_shards := (kr_shards kr)(key \<mapsto> (pol, r')),
                              kr_order := kr_order kr @ [key]\<rparr>, out))))"

definition kr_drain :: "('k, 'a) keyed_relay \<Rightarrow> 'k \<Rightarrow> ('k, 'a) keyed_relay \<times> 'a option" where
  "kr_drain kr key =
     (case kr_shards kr key of
        None \<Rightarrow> (kr, None)
      | Some (pol, r) \<Rightarrow>
          (let (r', out) = relay_drain r
           in (kr\<lparr>kr_shards := (kr_shards kr)(key \<mapsto> (pol, r'))\<rparr>, out)))"

definition kr_keys :: "('k, 'a) keyed_relay \<Rightarrow> 'k list" where
  "kr_keys kr = kr_order kr"

section \<open>Sharding is per-key relaying\<close>

datatype ('k, 'a) keyed_op = KIngress 'k 'a | KDrain 'k

fun kr_step :: "('k, 'a) keyed_relay \<Rightarrow> ('k, 'a) keyed_op \<Rightarrow> relay_config_error + ('k, 'a) keyed_relay" where
  "kr_step kr (KIngress key op) =
     (case kr_ingress kr key op of Inl e \<Rightarrow> Inl e | Inr (kr', _) \<Rightarrow> Inr kr')"
| "kr_step kr (KDrain key) = Inr (fst (kr_drain kr key))"

fun kr_run :: "('k, 'a) keyed_relay \<Rightarrow> ('k, 'a) keyed_op list \<Rightarrow> relay_config_error + ('k, 'a) keyed_relay" where
  "kr_run kr [] = Inr kr"
| "kr_run kr (x # xs) = (case kr_step kr x of Inl e \<Rightarrow> Inl e | Inr kr' \<Rightarrow> kr_run kr' xs)"

text \<open>The operations of one key, and what a lone relay does with them.\<close>

fun key_ops :: "'k \<Rightarrow> ('k, 'a) keyed_op list \<Rightarrow> 'a option list" where
  "key_ops k [] = []"
| "key_ops k (KIngress key op # xs) = (if key = k then Some op # key_ops k xs else key_ops k xs)"
| "key_ops k (KDrain key # xs) = (if key = k then None # key_ops k xs else key_ops k xs)"

definition lone_step :: "bp_policy \<Rightarrow> 'a relay \<Rightarrow> 'a option \<Rightarrow> 'a relay" where
  "lone_step pol r x =
     (case x of Some op \<Rightarrow> fst (relay_ingress pol r op) | None \<Rightarrow> fst (relay_drain r))"

definition fresh_relay :: "('k, 'a) keyed_relay \<Rightarrow> 'a relay" where
  "fresh_relay kr = \<lparr>rl_merge = kr_merge kr, rl_head = cell_new None, rl_pending = cell_new 0\<rparr>"

definition shard :: "('k, 'a) keyed_relay \<Rightarrow> 'k \<Rightarrow> bp_policy \<times> 'a relay" where
  "shard kr k = (case kr_shards kr k of Some x \<Rightarrow> x | None \<Rightarrow> (kr_policy kr, fresh_relay kr))"

definition kr_legal :: "('k, 'a) keyed_relay \<Rightarrow> bool" where
  "kr_legal kr \<longleftrightarrow> kr_overflow kr \<noteq> Conflate \<or> mp_conflates (kr_merge kr)"

definition kr_inv :: "('k, 'a) keyed_relay \<Rightarrow> bool" where
  "kr_inv kr \<longleftrightarrow> distinct (kr_order kr) \<and> set (kr_order kr) = dom (kr_shards kr) \<and>
     (\<forall>k pol r. kr_shards kr k = Some (pol, r) \<longrightarrow> pol = kr_policy kr \<and> relay_inv r)"

lemma kr_new_inv: "kr_inv (kr_new high ov mp)"
  by (simp add: kr_inv_def kr_new_def)

lemma relay_new_kr:
  "relay_new (kr_policy kr) (kr_merge kr) =
     (if kr_legal kr then Inr (fresh_relay kr) else Inl ConflateNotBounding)"
  by (simp add: relay_new_def kr_legal_def kr_policy_def bp_new_def fresh_relay_def)

lemma fresh_relay_drain: "relay_drain (fresh_relay kr) = (fresh_relay kr, None)"
  by (simp add: relay_drain_def fresh_relay_def)

lemma fresh_relay_inv: "relay_inv (fresh_relay kr)"
  by (simp add: relay_inv_def fresh_relay_def)

definition same_config :: "('k, 'a) keyed_relay \<Rightarrow> ('k, 'a) keyed_relay \<Rightarrow> bool" where
  "same_config a b \<longleftrightarrow> kr_high_water a = kr_high_water b \<and> kr_overflow a = kr_overflow b \<and>
     kr_merge a = kr_merge b"

lemma same_config_shared:
  assumes "same_config a b"
  shows "kr_policy a = kr_policy b" and "fresh_relay a = fresh_relay b" and "kr_legal a = kr_legal b"
  using assms by (simp_all add: same_config_def kr_policy_def fresh_relay_def kr_legal_def)

lemma kr_config_update [simp]:
  "kr_policy (kr\<lparr>kr_shards := m\<rparr>) = kr_policy kr"
  "kr_policy (kr\<lparr>kr_shards := m, kr_order := ks\<rparr>) = kr_policy kr"
  "fresh_relay (kr\<lparr>kr_shards := m\<rparr>) = fresh_relay kr"
  "fresh_relay (kr\<lparr>kr_shards := m, kr_order := ks\<rparr>) = fresh_relay kr"
  by (simp_all add: kr_policy_def fresh_relay_def)

lemma kr_ingress_shard:
  assumes "kr_legal kr"
  shows "\<exists>ks out. kr_ingress kr key op =
    Inr (kr\<lparr>kr_shards := (kr_shards kr)(key \<mapsto>
           (fst (shard kr key), fst (relay_ingress (fst (shard kr key)) (snd (shard kr key)) op))),
           kr_order := ks\<rparr>, out)"
proof (cases "kr_shards kr key")
  case None
  then show ?thesis using assms
    by (auto simp: kr_ingress_def relay_new_kr split_beta Let_def shard_def)
next
  case (Some y)
  then show ?thesis
    by (intro exI [of _ "kr_order kr"]) (auto simp: kr_ingress_def split_beta Let_def shard_def)
qed

lemma kr_step_legal:
  assumes "kr_legal kr"
  shows "\<exists>kr'. kr_step kr x = Inr kr' \<and> same_config kr' kr \<and>
     (\<forall>k. shard kr' k = (fst (shard kr k), foldl (lone_step (fst (shard kr k))) (snd (shard kr k)) (key_ops k [x])))"
proof (cases x)
  case (KIngress key op)
  from kr_ingress_shard [OF assms, of key op] obtain ks out where
    "kr_ingress kr key op = Inr (kr\<lparr>kr_shards := (kr_shards kr)(key \<mapsto>
       (fst (shard kr key), fst (relay_ingress (fst (shard kr key)) (snd (shard kr key)) op))),
       kr_order := ks\<rparr>, out)" by blast
  with KIngress show ?thesis
    by (auto simp: same_config_def shard_def lone_step_def split: option.splits)
next
  case (KDrain key)
  then show ?thesis
    by (cases "kr_shards kr key")
       (auto simp: kr_drain_def split_beta Let_def shard_def lone_step_def fresh_relay_drain
         same_config_def split: option.splits)
qed

lemma kr_store_inv:
  assumes "kr_inv kr" and "relay_inv r"
  shows "kr_shards kr key = Some (pol, r0) \<Longrightarrow> kr_inv (kr\<lparr>kr_shards := (kr_shards kr)(key \<mapsto> (pol, r))\<rparr>)"
    and "kr_shards kr key = None \<Longrightarrow>
           kr_inv (kr\<lparr>kr_shards := (kr_shards kr)(key \<mapsto> (kr_policy kr, r)), kr_order := kr_order kr @ [key]\<rparr>)"
  using assms unfolding kr_inv_def by (auto simp: fun_upd_def split: if_splits; blast)+

lemma kr_step_inv: "kr_inv kr \<Longrightarrow> kr_step kr x = Inr kr' \<Longrightarrow> kr_inv kr'"
proof (cases x)
  case (KIngress key op)
  assume inv: "kr_inv kr" and st: "kr_step kr x = Inr kr'"
  show ?thesis
  proof (cases "kr_shards kr key")
    case None
    with KIngress st show ?thesis
      using kr_store_inv(2) [OF inv relay_ingress_inv [OF fresh_relay_inv] None]
      by (auto simp: kr_ingress_def relay_new_kr split_beta Let_def split: if_splits)
  next
    case (Some y)
    obtain pol r where y: "y = (pol, r)" by fastforce
    have "relay_inv r" using inv Some y by (auto simp: kr_inv_def)
    with KIngress Some y st show ?thesis
      using kr_store_inv(1) [OF inv relay_ingress_inv [of r pol op], of key pol r]
      by (auto simp: kr_ingress_def split_beta Let_def)
  qed
next
  case (KDrain key)
  assume inv: "kr_inv kr" and st: "kr_step kr x = Inr kr'"
  show ?thesis
  proof (cases "kr_shards kr key")
    case None
    with KDrain inv st show ?thesis by (auto simp: kr_drain_def)
  next
    case (Some y)
    obtain pol r where y: "y = (pol, r)" by fastforce
    have "relay_inv r" using inv Some y by (auto simp: kr_inv_def)
    with KDrain Some y st show ?thesis
      using kr_store_inv(1) [OF inv relay_drain_inv [of r], of key pol r]
      by (auto simp: kr_drain_def split_beta Let_def)
  qed
qed

lemma kr_run_shard:
  "kr_legal kr \<Longrightarrow>
     \<exists>kr'. kr_run kr xs = Inr kr' \<and> same_config kr' kr \<and>
       (\<forall>k. shard kr' k = (fst (shard kr k), foldl (lone_step (fst (shard kr k))) (snd (shard kr k)) (key_ops k xs)))"
proof (induction xs arbitrary: kr)
  case Nil
  then show ?case by (simp add: same_config_def)
next
  case (Cons x xs)
  obtain kr1 where 1: "kr_step kr x = Inr kr1" "same_config kr1 kr"
    "\<forall>k. shard kr1 k = (fst (shard kr k), foldl (lone_step (fst (shard kr k))) (snd (shard kr k)) (key_ops k [x]))"
    using kr_step_legal [OF Cons.prems, of x] by blast
  have app: "key_ops k (x # xs) = key_ops k [x] @ key_ops k xs" for k
    by (cases x) auto
  have "kr_legal kr1" using Cons.prems same_config_shared(3) [OF 1(2)] by simp
  from Cons.IH [OF this] 1 show ?case
    by (auto simp: app same_config_def simp del: key_ops.simps)
qed

lemma kr_run_inv: "kr_inv kr \<Longrightarrow> kr_run kr xs = Inr kr' \<Longrightarrow> kr_inv kr'"
  by (induction xs arbitrary: kr) (auto split: sum.splits dest: kr_step_inv)

end
