(* ===== verification/FlowTheorems.thy ===== *)
theory FlowTheorems
  imports RelayStages RelayPolicies KeyedRelays Spill
begin

text \<open>
  The properties of the conflating data flow: cells, merge cells, relay, spill store,
  transports, egress policies and keyed relays.
\<close>

text \<open>C33: whatever the interleaving of ingress, drain and policy changes (short of switching to
  DropOldest), the windows that left the relay and the one still in its head fold to exactly
  the fold of the operations it admitted: conflation loses nothing it accepted.\<close>

theorem relay_egress_converges:
  assumes "merge_law mp" and "relay_new pol mp = Inr r" and "live (bp_overflow pol)"
    and "overflow_of pol \<noteq> DropOldest" and "list_all keeps_window xs"
  shows "converged s0 (relay_steps (relay_start pol r) xs) =
    fold_ops mp s0 (rr_admitted (relay_steps (relay_start pol r) xs))"
  by (rule relay_run_converges [OF assms])

definition demo_policy :: bp_policy where
  "demo_policy = bp_new Count 2 1 Conflate"

definition demo_relay :: "int relay" where
  "demo_relay = \<lparr>rl_merge = Sum_policy, rl_head = cell_new None, rl_pending = cell_new 0\<rparr>"

definition demo_ingress :: "int relay_op list" where
  "demo_ingress = [Ingress 1, Ingress 2, Ingress 3, Drain, SetOverflow Block, Ingress 4]"

lemma demo_relay_new: "relay_new demo_policy Sum_policy = Inr demo_relay"
  by (simp add: relay_new_def demo_policy_def bp_new_def demo_relay_def Sum_policy_def)

theorem relay_egress_converges_witness:
  "converged 0 (relay_steps (relay_start demo_policy demo_relay) demo_ingress) =
    fold_ops Sum_policy 0 (rr_admitted (relay_steps (relay_start demo_policy demo_relay) demo_ingress))"
  by (rule relay_egress_converges [OF sum_law.merge_law_axioms demo_relay_new])
    (simp_all add: demo_policy_def bp_new_def demo_ingress_def keeps_window_def)

text \<open>C34: under Block, DropNewest and DropOldest the relay never holds more pending operations
  than its high-water mark (at least one).\<close>

theorem relay_bounded:
  assumes "relay_new pol mp = Inr r" and "bounding (overflow_of pol)"
    and "list_all (\<lambda>x. x = Drain \<or> (\<exists>op. x = Ingress op)) xs"
  shows "relay_depth (rr_relay (relay_steps (relay_start pol r) xs)) \<le> max 1 (high_water pol)"
proof -
  have inv: "relay_inv r" using relay_new_inv [OF assms(1)] by simp
  have zero: "c_value (rl_pending r) = 0" using assms(1) by (auto simp: relay_new_def split: if_splits)
  show ?thesis unfolding relay_depth_def
    using relay_steps_bound [of "relay_start pol r" xs] inv zero assms(2,3) by (simp add: relay_start_def)
qed

theorem relay_bounded_witness:
  "relay_depth (rr_relay (relay_steps (relay_start (bp_new Count 2 1 DropOldest)
     \<lparr>rl_merge = RawFifo, rl_head = cell_new None, rl_pending = cell_new 0\<rparr>)
     [Ingress [1::int], Ingress [2], Ingress [3], Drain, Ingress [4]])) \<le> 2"
  using relay_bounded [of "bp_new Count 2 1 DropOldest" RawFifo _
      "[Ingress [1::int], Ingress [2], Ingress [3], Drain, Ingress [4]]"]
  by (simp add: relay_new_def bp_new_def bounding_def)


text \<open>After a crash, replaying the unacknowledged pages onto a downstream that has applied any
  prefix of the pages beyond the acknowledged ones restores the fold of every spilled window,
  for an idempotent policy, in either paging mode.\<close>

theorem spill_replay_converges:
  assumes "merge_law p" and "mp_idempotent p"
    and "ss_acked (ack_through (spills (spill_new mode psize p) ws) i) \<le> d"
    and "d \<le> length (ss_pages (spills (spill_new mode psize p) ws))"
  shows "replay_unacked (ack_through (spills (spill_new mode psize p) ws) i)
      (fold_ops p s0 (map pg_summary (take d (ss_pages (spills (spill_new mode psize p) ws))))) =
    fold_ops p s0 (map fst ws)"
proof -
  let ?st = "spills (spill_new mode psize p) ws"
  have m: "ss_merge ?st = p" "ss_merge (spill_new mode psize p) = p" by (simp_all add: spill_new_def)
  have all: "fold_pages ?st s0 = fold_ops p s0 (map fst ws)"
    using merge_law.spills_fold [OF assms(1) m(2), of ws s0]
    by (simp add: spill_new_def fold_pages_def)
  have "replay_unacked (ack_through ?st i) (fold_ops p s0 (map pg_summary (take d (ss_pages (ack_through ?st i))))) =
      fold_pages (ack_through ?st i) s0"
    by (rule merge_law.replay_converges [OF assms(1,2)]) (use assms(3,4) m in simp_all)
  then show ?thesis by (simp add: fold_pages_ops m(1) flip: all)
qed

theorem spill_replay_converges_witness:
  "replay_unacked (ack_through (spills (spill_new CompactOnWrite 2 Max_policy) [(3, 1), (1, 1), (7, 1)]) 0)
      (fold_ops Max_policy 0 (map pg_summary
         (take 1 (ss_pages (spills (spill_new CompactOnWrite 2 Max_policy) [(3, 1), (1, 1), (7, 1)]))))) =
    fold_ops Max_policy (0::int) [3, 1, 7]"
proof -
  have "replay_unacked (ack_through (spills (spill_new CompactOnWrite 2 Max_policy) [(3, 1), (1, 1), (7, 1)]) 0)
      (fold_ops Max_policy 0 (map pg_summary
         (take 1 (ss_pages (spills (spill_new CompactOnWrite 2 Max_policy) [(3, 1), (1, 1), (7, 1)]))))) =
    fold_ops Max_policy (0::int) (map fst [(3, 1::int), (1, 1), (7, 1)])"
  proof (rule spill_replay_converges [OF max_law.merge_law_axioms])
    show "ss_acked (ack_through (spills (spill_new CompactOnWrite 2 Max_policy) [(3::int, 1), (1, 1), (7, 1)]) 0) \<le> 1"
      by (simp add: spill_new_def spill_def push_page_def spills_def ack_through.simps Max_policy_def)
    show "1 \<le> length (ss_pages (spills (spill_new CompactOnWrite 2 Max_policy) [(3::int, 1), (1, 1), (7, 1)]))"
      by (simp add: spill_new_def spill_def push_page_def spills_def)
  qed (simp add: Max_policy_def)
  then show ?thesis by simp
qed

text \<open>The in-process and the framed transport are interchangeable: polled often enough, the
  frames of either are the delivered operations, each once and in order, for every frame size
  and every interleaving of deliveries and polls.\<close>

theorem transports_agree:
  "concat (snd (link_run ft_deliver ft_poll (ft_new k) (xs @ replicate (length xs) Poll))) = delivered xs \<and>
   concat (snd (link_run ip_deliver ip_poll ip_new (xs @ replicate (length xs) Poll))) = delivered xs"
  using framed.run_drained [of "ft_new k" xs] inproc.run_drained [of ip_new xs]
  by (simp add: ft_new_def ip_new_def)

text \<open>A keyed relay isolates its keys: after any run the shard of a key is what a relay of its
  own makes of that key's operations alone, and the keys are never confused.\<close>

theorem keyed_relay_isolated:
  fixes xs :: "('k, 'a) keyed_op list"
  assumes "ov \<noteq> Conflate \<or> mp_conflates mp"
  shows "\<exists>kr. kr_run (kr_new high ov mp) xs = Inr kr \<and> kr_inv kr \<and>
    (\<forall>k. snd (shard kr k) = foldl (lone_step (bp_new Count high (high div 2) ov))
       \<lparr>rl_merge = mp, rl_head = cell_new None, rl_pending = cell_new 0\<rparr> (key_ops k xs))"
proof -
  let ?kr = "kr_new high ov mp :: ('k, 'a) keyed_relay"
  have legal: "kr_legal ?kr" using assms by (simp add: kr_legal_def kr_new_def)
  have start: "shard ?kr k = (bp_new Count high (high div 2) ov,
      \<lparr>rl_merge = mp, rl_head = cell_new None, rl_pending = cell_new 0\<rparr>)" for k
    by (simp add: shard_def kr_policy_def kr_new_def fresh_relay_def)
  obtain kr where kr: "kr_run ?kr xs = Inr kr"
    and "\<forall>k. shard kr k = (fst (shard ?kr k),
      foldl (lone_step (fst (shard ?kr k))) (snd (shard ?kr k)) (key_ops k xs))"
    using kr_run_shard [OF legal, of xs] by blast
  then have "\<forall>k. snd (shard kr k) = foldl (lone_step (bp_new Count high (high div 2) ov))
       \<lparr>rl_merge = mp, rl_head = cell_new None, rl_pending = cell_new 0\<rparr> (key_ops k xs)"
    by (simp add: start)
  then show ?thesis using kr kr_run_inv [OF kr_new_inv kr] by blast
qed

theorem keyed_relay_isolated_witness:
  "\<exists>kr. kr_run (kr_new 2 DropNewest Sum_policy) [KIngress ''a'' 1, KIngress ''b'' 5, KDrain ''a''] = Inr kr \<and>
    snd (shard kr ''b'') = foldl (lone_step (bp_new Count 2 1 DropNewest))
      \<lparr>rl_merge = Sum_policy, rl_head = cell_new None, rl_pending = cell_new 0\<rparr> [Some 5]"
  using keyed_relay_isolated [of DropNewest Sum_policy 2 "[KIngress ''a'' 1, KIngress ''b'' 5, KDrain ''a'']"]
  by (auto dest: spec [of _ "''b''"])

text \<open>A merge cell under a semilattice policy depends only on the set of operations merged into
  it: duplicates and reordering of the deliveries are absorbed.\<close>

theorem merge_cell_converges:
  assumes "semilattice_law p" and "set ops = set ops'"
  shows "map_sum id (\<lambda>m. c_value (mc_cell m)) (mc_merges (merge_cell_new s p) ops) =
    map_sum id (\<lambda>m. c_value (mc_cell m)) (mc_merges (merge_cell_new s p) ops')"
proof -
  have live: "live (mc_cell (merge_cell_new s p))" and pol: "mc_policy (merge_cell_new s p) = p"
    and v: "c_value (mc_cell (merge_cell_new s p)) = s"
    by (simp_all add: merge_cell_new_def)
  have "fold_ops p s ops = fold_ops p s ops'" by (rule semilattice_law.fold_set [OF assms])
  then show ?thesis using mc_merges_fold [OF live, of ops] mc_merges_fold [OF live, of ops'] pol v by auto
qed

theorem merge_cell_converges_witness:
  "map_sum id (\<lambda>m. c_value (mc_cell m)) (mc_merges (merge_cell_new 0 Max_policy) [3, 1, 3::int]) =
    map_sum id (\<lambda>m. c_value (mc_cell m)) (mc_merges (merge_cell_new 0 Max_policy) [1, 3])"
  by (rule merge_cell_converges [OF max_law.semilattice_law_axioms]) auto

lemma insort_key_map: "map g (insort_key (\<lambda>x. f (g x)) x xs) = insort_key f (g x) (map g xs)"
  by (induction xs) auto

lemma sort_key_map: "map g (sort_key (\<lambda>x. f (g x)) xs) = sort_key f (map g xs)"
  by (induction xs) (simp_all add: insort_key_map)

text \<open>Priority egress drains by priority, highest first and first-in first-out among equals,
  whatever was pushed, and loses and invents nothing.\<close>

theorem priority_drains_sorted:
  "ps_pops (ps_pushes ps_new xs) (length xs) = map snd (sort_key (\<lambda>x. - fst x) xs)"
proof -
  let ?s = "ps_pushes ps_new xs" and ?f = "\<lambda>x. (fst x, snd (snd x))"
  have inv: "ps_inv ?s" and items: "map ?f (ps_items ?s) = xs"
    using ps_pushes_items [OF ps_new_inv, of xs] by (simp_all add: ps_new_def)
  have len: "length (ps_items ?s) = length xs" using items by (metis length_map)
  have "map ?f (sort_key (\<lambda>x. - fst x) (ps_items ?s)) = sort_key (\<lambda>x. - fst x) xs"
    using sort_key_map [of ?f "\<lambda>x. - fst x" "ps_items ?s"] items by simp
  then have "map snd (map ?f (sort_key (\<lambda>x. - fst x) (ps_items ?s))) = map snd (sort_key (\<lambda>x. - fst x) xs)"
    by simp
  then show ?thesis using ps_pops_sorted [OF inv, of "length xs"] len by (simp add: comp_def)
qed

text \<open>Over any run of egress attempts and ticks a token bucket lets through at most its capacity
  plus its refill rate per tick.\<close>

theorem rate_bounded:
  assumes "0 \<le> capacity" and "0 \<le> refill"
  shows "int (snd (rp_run (rp_new capacity refill) xs)) \<le> capacity + refill * int (count_list xs RateTick)"
proof -
  have ok: "rp_ok (rp_new capacity refill)" using assms by (simp add: rp_ok_def rp_new_def)
  show ?thesis using rp_run_bound [OF ok, of xs] by (auto simp: rp_ok_def rp_new_def)
qed

theorem rate_bounded_witness:
  "int (snd (rp_run (rp_new 2 1) [TryEgress, TryEgress, TryEgress, RateTick, TryEgress])) \<le> 3"
  using rate_bounded [of 2 1 "[TryEgress, TryEgress, TryEgress, RateTick, TryEgress]"] by simp

text \<open>A run of writes to a cell notifies its dependents exactly once per change of the stored value
  and never for an equal write, and leaves the last value written; after a dispose a write is
  ignored and a read raises.\<close>

theorem cell_writes_notify:
  "c_notified (cell_writes (cell_new v) vs) = value_changes v vs \<and>
   cell_get (cell_writes (cell_new v) vs) = Inr (last (v # vs)) \<and>
   cell_writes (cell_dispose (cell_writes (cell_new v) vs)) us = cell_dispose (cell_writes (cell_new v) vs) \<and>
   cell_get (cell_dispose (cell_writes (cell_new v) vs)) = Inl DisposedError"
proof -
  let ?c = "cell_writes (cell_new v) vs"
  have "live ?c" by simp
  then have "cell_get ?c = Inr (c_value ?c)" by (simp add: cell_get_def live_def)
  moreover have dead: "\<not> live (cell_dispose ?c)" by (simp add: cell_dispose_def live_def)
  have "cell_writes d us = d" if "\<not> live d" for d :: "'a cell"
    using that by (induction us) (simp_all add: cell_set_disposed)
  ultimately show ?thesis
    using cell_writes_notified [of "cell_new v" vs] cell_writes_value [of "cell_new v" vs]
      cell_get_dispose [of ?c] dead by simp
qed

end
