(* ===== verification/Queue.thy ===== *)
theory Queue
  imports Cells
begin

text \<open>
  The reactive queue of \<^verbatim>\<open>src/lazily/queue.py\<close>: the storage protocol
  (\<^verbatim>\<open>QueueStorage\<close>), the reference backend
  (\<^verbatim>\<open>VecDequeStorage\<close>) and the shell (\<^verbatim>\<open>QueueCell\<close>). The
  shell is storage-agnostic in the code, so its operations take the backend's operations
  as an argument; the locale \<open>queue_storage\<close> is the contract the shell relies on. The
  derived readers are memo slots: a cached value that a reset drops.
\<close>

datatype push_error = PushFull | PushClosed

datatype pop_error = PopEmpty | PopClosed

datatype queue_error = CapacityNotPositive | NoElementsSnapshot

section \<open>The storage protocol\<close>

text \<open>\<open>None\<close> in an optional capability: the backend has no such method.\<close>

record ('s, 'a) storage_ops =
  so_try_push :: "'s \<Rightarrow> 'a \<Rightarrow> 's \<times> push_error option"
  so_try_pop :: "'s \<Rightarrow> 's \<times> (pop_error + 'a)"
  so_peek :: "('s \<Rightarrow> 'a option) option"
  so_len :: "'s \<Rightarrow> nat"
  so_capacity :: "('s \<Rightarrow> int option) option"
  so_is_closed :: "'s \<Rightarrow> bool"
  so_close :: "'s \<Rightarrow> 's"
  so_elements :: "('s \<Rightarrow> 'a list) option"

section \<open>The reference backend\<close>

record 'a vec_deque =
  vd_elements :: "'a list"
  vd_capacity :: "int option"
  vd_closed :: bool

definition vd_new :: "int option \<Rightarrow> queue_error + 'a vec_deque" where
  "vd_new capacity =
     (case capacity of
        Some c \<Rightarrow> if c \<le> 0 then Inl CapacityNotPositive
                  else Inr \<lparr>vd_elements = [], vd_capacity = capacity, vd_closed = False\<rparr>
      | None \<Rightarrow> Inr \<lparr>vd_elements = [], vd_capacity = capacity, vd_closed = False\<rparr>)"

definition vd_try_push :: "'a vec_deque \<Rightarrow> 'a \<Rightarrow> 'a vec_deque \<times> push_error option" where
  "vd_try_push s v =
     (if vd_closed s then (s, Some PushClosed)
      else if (case vd_capacity s of None \<Rightarrow> False | Some c \<Rightarrow> int (length (vd_elements s)) \<ge> c)
      then (s, Some PushFull)
      else (s\<lparr>vd_elements := vd_elements s @ [v]\<rparr>, None))"

definition vd_try_pop :: "'a vec_deque \<Rightarrow> 'a vec_deque \<times> (pop_error + 'a)" where
  "vd_try_pop s =
     (case vd_elements s of
        x # xs \<Rightarrow> (s\<lparr>vd_elements := xs\<rparr>, Inr x)
      | [] \<Rightarrow> (s, Inl (if vd_closed s then PopClosed else PopEmpty)))"

definition vd_peek :: "'a vec_deque \<Rightarrow> 'a option" where
  "vd_peek s = (case vd_elements s of x # _ \<Rightarrow> Some x | [] \<Rightarrow> None)"

definition vd_len :: "'a vec_deque \<Rightarrow> nat" where
  "vd_len s = length (vd_elements s)"

definition vd_close :: "'a vec_deque \<Rightarrow> 'a vec_deque" where
  "vd_close s = s\<lparr>vd_closed := True\<rparr>"

definition vd_ops :: "('a vec_deque, 'a) storage_ops" where
  "vd_ops = \<lparr>so_try_push = vd_try_push, so_try_pop = vd_try_pop, so_peek = Some vd_peek,
     so_len = vd_len, so_capacity = Some vd_capacity, so_is_closed = vd_closed,
     so_close = vd_close, so_elements = Some vd_elements\<rparr>"

section \<open>The shell\<close>

datatype reader = RdHead | RdLen | RdIsEmpty | RdIsFull

record ('s, 'a) queue_cell =
  qc_storage :: 's
  qc_capacity :: "int option"
  qc_head :: "'a option option"
  qc_len :: "nat option"
  qc_is_empty :: "bool option"
  qc_is_full :: "bool option"
  qc_closed :: "bool cell"

definition qc_with_storage :: "('s, 'a) storage_ops \<Rightarrow> 's \<Rightarrow> ('s, 'a) queue_cell" where
  "qc_with_storage ops s =
     \<lparr>qc_storage = s,
      qc_capacity = (case so_capacity ops of None \<Rightarrow> None | Some cap_fn \<Rightarrow> cap_fn s),
      qc_head = None, qc_len = None, qc_is_empty = None, qc_is_full = None,
      qc_closed = cell_new (so_is_closed ops s)\<rparr>"

definition qc_with_capacity :: "int \<Rightarrow> queue_error + ('a vec_deque, 'a) queue_cell" where
  "qc_with_capacity c =
     (case vd_new (Some c) of Inl e \<Rightarrow> Inl e | Inr s \<Rightarrow> Inr (qc_with_storage vd_ops s))"

text \<open>What each reader slot computes from the storage.\<close>

definition derive_head :: "('s, 'a) storage_ops \<Rightarrow> ('s, 'a) queue_cell \<Rightarrow> 'a option" where
  "derive_head ops q = (case so_peek ops of None \<Rightarrow> None | Some peek_fn \<Rightarrow> peek_fn (qc_storage q))"

definition derive_len :: "('s, 'a) storage_ops \<Rightarrow> ('s, 'a) queue_cell \<Rightarrow> nat" where
  "derive_len ops q = so_len ops (qc_storage q)"

definition derive_is_empty :: "('s, 'a) storage_ops \<Rightarrow> ('s, 'a) queue_cell \<Rightarrow> bool" where
  "derive_is_empty ops q \<longleftrightarrow> so_len ops (qc_storage q) = 0"

definition derive_is_full :: "('s, 'a) storage_ops \<Rightarrow> ('s, 'a) queue_cell \<Rightarrow> bool" where
  "derive_is_full ops q \<longleftrightarrow>
     (case qc_capacity q of None \<Rightarrow> False | Some c \<Rightarrow> int (so_len ops (qc_storage q)) \<ge> c)"

text \<open>The readers that one operation resets, in the code's order.\<close>

definition reader_resets :: "int option \<Rightarrow> int \<Rightarrow> int \<Rightarrow> bool \<Rightarrow> reader list" where
  "reader_resets cap len_before len_after head_changed =
     [RdLen] @
     (if (len_before = 0) \<noteq> (len_after = 0) then [RdIsEmpty] else []) @
     (case cap of None \<Rightarrow> []
      | Some c \<Rightarrow> if (len_before \<ge> c) \<noteq> (len_after \<ge> c) then [RdIsFull] else []) @
     (if head_changed then [RdHead] else [])"

fun reset_reader :: "('s, 'a) queue_cell \<Rightarrow> reader \<Rightarrow> ('s, 'a) queue_cell" where
  "reset_reader q RdHead = q\<lparr>qc_head := None\<rparr>"
| "reset_reader q RdLen = q\<lparr>qc_len := None\<rparr>"
| "reset_reader q RdIsEmpty = q\<lparr>qc_is_empty := None\<rparr>"
| "reset_reader q RdIsFull = q\<lparr>qc_is_full := None\<rparr>"

definition invalidate_readers :: "('s, 'a) queue_cell \<Rightarrow> int \<Rightarrow> int \<Rightarrow> bool \<Rightarrow> ('s, 'a) queue_cell" where
  "invalidate_readers q len_before len_after head_changed =
     foldl reset_reader q (reader_resets (qc_capacity q) len_before len_after head_changed)"

definition qc_try_push ::
  "('s, 'a) storage_ops \<Rightarrow> ('s, 'a) queue_cell \<Rightarrow> 'a \<Rightarrow> ('s, 'a) queue_cell \<times> push_error option" where
  "qc_try_push ops q v =
     (let len_before = int (so_len ops (qc_storage q));
          (s', result) = so_try_push ops (qc_storage q) v;
          q' = q\<lparr>qc_storage := s'\<rparr>
      in case result of
           None \<Rightarrow> (invalidate_readers q' len_before (len_before + 1) (len_before = 0), None)
         | Some e \<Rightarrow> (q', Some e))"

definition qc_try_pop ::
  "('s, 'a) storage_ops \<Rightarrow> ('s, 'a) queue_cell \<Rightarrow> ('s, 'a) queue_cell \<times> (pop_error + 'a)" where
  "qc_try_pop ops q =
     (let len_before = int (so_len ops (qc_storage q));
          (s', result) = so_try_pop ops (qc_storage q);
          q' = q\<lparr>qc_storage := s'\<rparr>
      in case result of
           Inl e \<Rightarrow> (q', Inl e)
         | Inr v \<Rightarrow> (invalidate_readers q' len_before (len_before - 1) True, Inr v))"

definition qc_close :: "('s, 'a) storage_ops \<Rightarrow> ('s, 'a) queue_cell \<Rightarrow> ('s, 'a) queue_cell" where
  "qc_close ops q =
     (if so_is_closed ops (qc_storage q) then q
      else q\<lparr>qc_storage := so_close ops (qc_storage q), qc_closed := cell_set (qc_closed q) True\<rparr>)"

text \<open>Reads: a cached value is returned, a missing one is derived and cached.\<close>

definition qc_read_head :: "('s, 'a) storage_ops \<Rightarrow> ('s, 'a) queue_cell \<Rightarrow> ('s, 'a) queue_cell \<times> 'a option" where
  "qc_read_head ops q =
     (case qc_head q of Some v \<Rightarrow> (q, v)
      | None \<Rightarrow> let v = derive_head ops q in (q\<lparr>qc_head := Some v\<rparr>, v))"

definition qc_read_len :: "('s, 'a) storage_ops \<Rightarrow> ('s, 'a) queue_cell \<Rightarrow> ('s, 'a) queue_cell \<times> nat" where
  "qc_read_len ops q =
     (case qc_len q of Some v \<Rightarrow> (q, v)
      | None \<Rightarrow> let v = derive_len ops q in (q\<lparr>qc_len := Some v\<rparr>, v))"

definition qc_read_is_empty :: "('s, 'a) storage_ops \<Rightarrow> ('s, 'a) queue_cell \<Rightarrow> ('s, 'a) queue_cell \<times> bool" where
  "qc_read_is_empty ops q =
     (case qc_is_empty q of Some v \<Rightarrow> (q, v)
      | None \<Rightarrow> let v = derive_is_empty ops q in (q\<lparr>qc_is_empty := Some v\<rparr>, v))"

definition qc_read_is_full :: "('s, 'a) storage_ops \<Rightarrow> ('s, 'a) queue_cell \<Rightarrow> ('s, 'a) queue_cell \<times> bool" where
  "qc_read_is_full ops q =
     (case qc_is_full q of Some v \<Rightarrow> (q, v)
      | None \<Rightarrow> let v = derive_is_full ops q in (q\<lparr>qc_is_full := Some v\<rparr>, v))"

definition qc_is_closed :: "('s, 'a) queue_cell \<Rightarrow> bool" where
  "qc_is_closed q = c_value (qc_closed q)"

definition qc_elements :: "('s, 'a) storage_ops \<Rightarrow> ('s, 'a) queue_cell \<Rightarrow> queue_error + 'a list" where
  "qc_elements ops q =
     (case so_elements ops of Some getter \<Rightarrow> Inr (getter (qc_storage q)) | None \<Rightarrow> Inl NoElementsSnapshot)"

end
