(* ===== verification/QueueSpec.thy ===== *)
theory QueueSpec
  imports Queue
begin

text \<open>
  The contract of a queue backend as the locale \<open>queue_storage\<close>, an abstract FIFO
  queue, and the simulation: the shell over any conforming backend answers every sequence
  of operations as the abstract queue does, so no memo reader is ever stale. The reference
  backend is an interpretation.
\<close>

section \<open>The abstract queue\<close>

datatype 'a queue_op = OpPush 'a | OpPop | OpClose | OpHead | OpLen | OpIsEmpty | OpIsFull | OpIsClosed

datatype 'a queue_result =
    RPush "push_error option" | RPop "pop_error + 'a" | RDone
  | RHead "'a option" | RLen nat | RBool bool

record 'a abs_queue =
  aq_items :: "'a list"
  aq_closed :: bool

definition at_capacity :: "int option \<Rightarrow> nat \<Rightarrow> bool" where
  "at_capacity cap n = (case cap of None \<Rightarrow> False | Some c \<Rightarrow> int n \<ge> c)"

fun aq_step :: "bool \<Rightarrow> int option \<Rightarrow> 'a abs_queue \<Rightarrow> 'a queue_op \<Rightarrow> 'a abs_queue \<times> 'a queue_result" where
  "aq_step hp cap a (OpPush v) =
     (if aq_closed a then (a, RPush (Some PushClosed))
      else if at_capacity cap (length (aq_items a)) then (a, RPush (Some PushFull))
      else (a\<lparr>aq_items := aq_items a @ [v]\<rparr>, RPush None))"
| "aq_step hp cap a OpPop =
     (case aq_items a of
        [] \<Rightarrow> (a, RPop (Inl (if aq_closed a then PopClosed else PopEmpty)))
      | x # xs \<Rightarrow> (a\<lparr>aq_items := xs\<rparr>, RPop (Inr x)))"
| "aq_step hp cap a OpClose = (a\<lparr>aq_closed := True\<rparr>, RDone)"
| "aq_step hp cap a OpHead =
     (a, RHead (if hp then (case aq_items a of [] \<Rightarrow> None | x # _ \<Rightarrow> Some x) else None))"
| "aq_step hp cap a OpLen = (a, RLen (length (aq_items a)))"
| "aq_step hp cap a OpIsEmpty = (a, RBool (aq_items a = []))"
| "aq_step hp cap a OpIsFull = (a, RBool (at_capacity cap (length (aq_items a))))"
| "aq_step hp cap a OpIsClosed = (a, RBool (aq_closed a))"

fun qc_step ::
  "('s, 'a) storage_ops \<Rightarrow> ('s, 'a) queue_cell \<Rightarrow> 'a queue_op \<Rightarrow> ('s, 'a) queue_cell \<times> 'a queue_result" where
  "qc_step ops q (OpPush v) = map_prod id RPush (qc_try_push ops q v)"
| "qc_step ops q OpPop = map_prod id RPop (qc_try_pop ops q)"
| "qc_step ops q OpClose = (qc_close ops q, RDone)"
| "qc_step ops q OpHead = map_prod id RHead (qc_read_head ops q)"
| "qc_step ops q OpLen = map_prod id RLen (qc_read_len ops q)"
| "qc_step ops q OpIsEmpty = map_prod id RBool (qc_read_is_empty ops q)"
| "qc_step ops q OpIsFull = map_prod id RBool (qc_read_is_full ops q)"
| "qc_step ops q OpIsClosed = (q, RBool (qc_is_closed q))"

fun aq_run :: "bool \<Rightarrow> int option \<Rightarrow> 'a abs_queue \<Rightarrow> 'a queue_op list \<Rightarrow> 'a queue_result list" where
  "aq_run hp cap a [] = []"
| "aq_run hp cap a (x # xs) = (let (a', r) = aq_step hp cap a x in r # aq_run hp cap a' xs)"

fun qc_run :: "('s, 'a) storage_ops \<Rightarrow> ('s, 'a) queue_cell \<Rightarrow> 'a queue_op list \<Rightarrow> 'a queue_result list" where
  "qc_run ops q [] = []"
| "qc_run ops q (x # xs) = (let (q', r) = qc_step ops q x in r # qc_run ops q' xs)"

text \<open>The resets of a push and of a pop drop every reader whose value changes.\<close>

definition keep_full :: "int option \<Rightarrow> int \<Rightarrow> int \<Rightarrow> bool option \<Rightarrow> bool option" where
  "keep_full cap b a r =
     (case cap of None \<Rightarrow> r | Some c \<Rightarrow> if (b \<ge> c) \<noteq> (a \<ge> c) then None else r)"

lemma invalidate_fields [simp]:
  "qc_storage (invalidate_readers q b a h) = qc_storage q"
  "qc_capacity (invalidate_readers q b a h) = qc_capacity q"
  "qc_closed (invalidate_readers q b a h) = qc_closed q"
  "qc_len (invalidate_readers q b a h) = None"
  "qc_is_empty (invalidate_readers q b a h) = (if (b = 0) \<noteq> (a = 0) then None else qc_is_empty q)"
  "qc_head (invalidate_readers q b a h) = (if h then None else qc_head q)"
  "qc_is_full (invalidate_readers q b a h) = keep_full (qc_capacity q) b a (qc_is_full q)"
  by (auto simp: invalidate_readers_def reader_resets_def keep_full_def split: option.splits)

text \<open>The simulation: a cached reader agrees with the queue it stands for.\<close>

definition agrees :: "'b option \<Rightarrow> 'b \<Rightarrow> bool" where
  "agrees c v \<longleftrightarrow> c = None \<or> c = Some v"

lemma agrees_simps [simp]: "agrees None v" "agrees (Some u) v \<longleftrightarrow> u = v"
  by (simp_all add: agrees_def)

lemma reset_full_agrees:
  assumes "agrees r (at_capacity c m)" and "x = int m" and "y = int n"
  shows "agrees (keep_full c x y r) (at_capacity c n)"
  using assms by (cases c) (auto simp: at_capacity_def agrees_def keep_full_def)

definition head_view :: "bool \<Rightarrow> 'a list \<Rightarrow> 'a option" where
  "head_view hp xs = (if hp then (case xs of [] \<Rightarrow> None | x # _ \<Rightarrow> Some x) else None)"

abbreviation has_peek :: "('s, 'a) storage_ops \<Rightarrow> bool" where
  "has_peek ops \<equiv> so_peek ops \<noteq> None"

definition queue_sim ::
  "('s, 'a) storage_ops \<Rightarrow> ('s \<Rightarrow> 'a list) \<Rightarrow> ('s \<Rightarrow> int option) \<Rightarrow> int option \<Rightarrow>
     ('s, 'a) queue_cell \<Rightarrow> 'a abs_queue \<Rightarrow> bool" where
  "queue_sim ops elems cap c q a \<longleftrightarrow>
     elems (qc_storage q) = aq_items a \<and> so_is_closed ops (qc_storage q) = aq_closed a \<and>
     qc_capacity q = c \<and> cap (qc_storage q) = c \<and>
     live (qc_closed q) \<and> c_value (qc_closed q) = aq_closed a \<and>
     agrees (qc_head q) (head_view (has_peek ops) (aq_items a)) \<and>
     agrees (qc_len q) (length (aq_items a)) \<and>
     agrees (qc_is_empty q) (aq_items a = []) \<and>
     agrees (qc_is_full q) (at_capacity c (length (aq_items a)))"

section \<open>The contract of a backend\<close>

locale queue_storage =
  fixes ops :: "('s, 'a) storage_ops"
    and elems :: "'s \<Rightarrow> 'a list"
    and cap :: "'s \<Rightarrow> int option"
  assumes len: "so_len ops s = length (elems s)"
    and push_closed: "so_is_closed ops s \<Longrightarrow> so_try_push ops s v = (s, Some PushClosed)"
    and push_full: "\<not> so_is_closed ops s \<Longrightarrow> at_capacity (cap s) (length (elems s)) \<Longrightarrow>
          so_try_push ops s v = (s, Some PushFull)"
    and push_ok: "\<not> so_is_closed ops s \<Longrightarrow> \<not> at_capacity (cap s) (length (elems s)) \<Longrightarrow>
          \<exists>s'. so_try_push ops s v = (s', None) \<and> elems s' = elems s @ [v] \<and>
               so_is_closed ops s' = so_is_closed ops s \<and> cap s' = cap s"
    and pop_empty: "elems s = [] \<Longrightarrow>
          so_try_pop ops s = (s, Inl (if so_is_closed ops s then PopClosed else PopEmpty))"
    and pop_ok: "elems s = x # xs \<Longrightarrow>
          \<exists>s'. so_try_pop ops s = (s', Inr x) \<and> elems s' = xs \<and>
               so_is_closed ops s' = so_is_closed ops s \<and> cap s' = cap s"
    and close: "elems (so_close ops s) = elems s \<and> so_is_closed ops (so_close ops s) \<and>
          cap (so_close ops s) = cap s"
    and peek: "so_peek ops = Some f \<Longrightarrow> f s = (case elems s of [] \<Rightarrow> None | x # _ \<Rightarrow> Some x)"
    and capacity: "(case so_capacity ops of None \<Rightarrow> None | Some g \<Rightarrow> g s) = cap s"
begin

lemma derive_simps:
  "derive_head ops q = head_view (has_peek ops) (elems (qc_storage q))"
  "derive_len ops q = length (elems (qc_storage q))"
  "derive_is_empty ops q \<longleftrightarrow> elems (qc_storage q) = []"
  "derive_is_full ops q \<longleftrightarrow> at_capacity (qc_capacity q) (length (elems (qc_storage q)))"
  by (auto simp: derive_head_def derive_len_def derive_is_empty_def derive_is_full_def
      head_view_def at_capacity_def len peek split: option.splits)

lemma push_sim:
  assumes "queue_sim ops elems cap c q a"
  shows "snd (qc_step ops q (OpPush v)) = snd (aq_step (has_peek ops) c a (OpPush v)) \<and>
     queue_sim ops elems cap c (fst (qc_step ops q (OpPush v))) (fst (aq_step (has_peek ops) c a (OpPush v)))"
proof -
  let ?s = "qc_storage q"
  consider (closed) "so_is_closed ops ?s"
    | (full) "\<not> so_is_closed ops ?s" "at_capacity (cap ?s) (length (elems ?s))"
    | (ok) "\<not> so_is_closed ops ?s" "\<not> at_capacity (cap ?s) (length (elems ?s))" by blast
  then show ?thesis
  proof cases
    case closed
    with assms show ?thesis by (simp add: qc_try_push_def push_closed queue_sim_def Let_def)
  next
    case full
    with assms show ?thesis by (simp add: qc_try_push_def push_full queue_sim_def Let_def)
  next
    case ok
    from push_ok [OF ok, of v] obtain s' where "so_try_push ops ?s v = (s', None)"
      "elems s' = elems ?s @ [v]" "so_is_closed ops s' = so_is_closed ops ?s" "cap s' = cap ?s"
      by blast
    moreover have "aq_items a = elems ?s" "agrees (qc_is_full q) (at_capacity c (length (elems ?s)))"
      using assms by (simp_all add: queue_sim_def)
    ultimately show ?thesis
      using assms ok reset_full_agrees [of "qc_is_full q" c "length (elems ?s)" _ _ "Suc (length (elems ?s))"]
      by (auto simp: qc_try_push_def queue_sim_def Let_def len head_view_def split: list.splits)
  qed
qed

lemma pop_sim:
  assumes "queue_sim ops elems cap c q a"
  shows "snd (qc_step ops q OpPop) = snd (aq_step (has_peek ops) c a OpPop) \<and>
     queue_sim ops elems cap c (fst (qc_step ops q OpPop)) (fst (aq_step (has_peek ops) c a OpPop))"
proof (cases "elems (qc_storage q)")
  case Nil
  with assms pop_empty [OF Nil] show ?thesis
    by (auto simp: qc_try_pop_def queue_sim_def Let_def)
next
  case (Cons x xs)
  from pop_ok [OF Cons] obtain s' where "so_try_pop ops (qc_storage q) = (s', Inr x)"
    "elems s' = xs" "so_is_closed ops s' = so_is_closed ops (qc_storage q)"
    "cap s' = cap (qc_storage q)" by blast
  moreover have a: "aq_items a = x # xs" using assms Cons by (simp add: queue_sim_def)
  moreover have "agrees (qc_is_full q) (at_capacity c (Suc (length xs)))"
    using assms a by (simp add: queue_sim_def)
  ultimately show ?thesis
    using assms reset_full_agrees [of "qc_is_full q" c "Suc (length xs)" _ _ "length xs"]
    by (simp add: qc_try_pop_def queue_sim_def Let_def len)
qed

lemma close_sim:
  "queue_sim ops elems cap c q a \<Longrightarrow>
     queue_sim ops elems cap c (qc_close ops q) (a\<lparr>aq_closed := True\<rparr>)"
  by (auto simp: qc_close_def queue_sim_def close)

lemma step_sim:
  assumes "queue_sim ops elems cap c q a"
  shows "snd (qc_step ops q x) = snd (aq_step (has_peek ops) c a x) \<and>
     queue_sim ops elems cap c (fst (qc_step ops q x)) (fst (aq_step (has_peek ops) c a x))"
proof (cases x)
  case (OpPush v)
  with push_sim [OF assms, of v] show ?thesis by simp
next
  case OpPop
  with pop_sim [OF assms] show ?thesis by simp
next
  case OpClose
  with close_sim [OF assms] show ?thesis by simp
qed (use assms in \<open>auto simp: queue_sim_def qc_read_head_def qc_read_len_def qc_read_is_empty_def
       qc_read_is_full_def qc_is_closed_def derive_simps head_view_def Let_def
       split: option.splits\<close>)

lemma run_sim:
  "queue_sim ops elems cap c q a \<Longrightarrow> qc_run ops q xs = aq_run (has_peek ops) c a xs"
proof (induction xs arbitrary: q a)
  case (Cons x xs)
  from step_sim [OF Cons.prems, of x] Cons.IH show ?case
    by (simp add: split_beta Let_def)
qed simp

lemma fresh_sim:
  "queue_sim ops elems cap (cap s) (qc_with_storage ops s)
     \<lparr>aq_items = elems s, aq_closed = so_is_closed ops s\<rparr>"
  using capacity [of s] by (auto simp: queue_sim_def qc_with_storage_def)

end

section \<open>The reference backend conforms\<close>

interpretation vec_deque: queue_storage vd_ops vd_elements vd_capacity
proof
  fix s :: "'a vec_deque" and x xs
  show "vd_elements s = x # xs \<Longrightarrow>
      \<exists>s'. so_try_pop vd_ops s = (s', Inr x) \<and> vd_elements s' = xs \<and>
           so_is_closed vd_ops s' = so_is_closed vd_ops s \<and> vd_capacity s' = vd_capacity s"
    by (simp add: vd_ops_def vd_try_pop_def)
qed (auto simp: vd_ops_def vd_len_def vd_try_push_def vd_try_pop_def vd_close_def vd_peek_def
       at_capacity_def split: option.splits list.splits)

lemma vd_new_ok: "0 < c \<Longrightarrow> vd_new (Some c) = Inr \<lparr>vd_elements = [], vd_capacity = Some c, vd_closed = False\<rparr>"
  by (simp add: vd_new_def)

text \<open>The reference queue never holds more than its capacity.\<close>

fun vd_state :: "'a vec_deque \<Rightarrow> 'a queue_op list \<Rightarrow> 'a vec_deque" where
  "vd_state s [] = s"
| "vd_state s (OpPush v # xs) = vd_state (fst (vd_try_push s v)) xs"
| "vd_state s (OpPop # xs) = vd_state (fst (vd_try_pop s)) xs"
| "vd_state s (OpClose # xs) = vd_state (vd_close s) xs"
| "vd_state s (_ # xs) = vd_state s xs"

lemma vd_state_bound:
  "vd_capacity s = Some c \<Longrightarrow> int (length (vd_elements s)) \<le> c \<Longrightarrow>
     vd_capacity (vd_state s xs) = Some c \<and> int (length (vd_elements (vd_state s xs))) \<le> c"
  by (induction s xs rule: vd_state.induct)
     (auto simp: vd_try_push_def vd_try_pop_def vd_close_def split: list.splits)

end
