(* ===== verification/Topic.thy ===== *)
theory Topic
  imports Cells "HOL-Library.AList"
begin

text \<open>
  The broadcast log of \<^verbatim>\<open>src/lazily/queue.py\<close>
  (\<^verbatim>\<open>TopicCell\<close>): a retained suffix of the log, one absolute cursor per
  subscriber, garbage collection up to the slowest durable cursor, and one memo reader per
  subscriber. Dictionaries are association lists with Python's insertion order, offsets are
  Python integers, and the two list accesses that may see a negative index keep Python's
  meaning of one.
\<close>

datatype topic_durability = Durable | Ephemeral

datatype subscribe_outcome = Subscribed | Reconnected | AlreadySubscribed

datatype topic_error =
    NegativeBase | CursorOutsideLog | DisconnectedEphemeral | OnlyDurableReconnect
  | UnknownSubscriber | NegativeCount | BeyondTail | TopicIndexError

record subscription =
  sb_cursor :: int
  sb_durability :: topic_durability
  sb_connected :: bool

type_synonym 'k sub_snapshot = "'k \<times> subscription"

record ('k, 'a) topic_snapshot =
  sn_base_offset :: int
  sn_elements :: "'a list"
  sn_subscriptions :: "'k sub_snapshot list"

record ('k, 'a) topic =
  tp_base_offset :: int
  tp_elements :: "'a list"
  tp_subscriptions :: "('k \<times> subscription) list"
  tp_readers :: "('k \<times> 'a list option) list"

text \<open>Python's \<^verbatim>\<open>xs[i]\<close> and \<^verbatim>\<open>xs[i:]\<close> on a list.\<close>

definition py_index :: "'a list \<Rightarrow> int \<Rightarrow> 'a option" where
  "py_index xs i =
     (let n = int (length xs); j = (if i < 0 then n + i else i)
      in if 0 \<le> j \<and> j < n then Some (xs ! nat j) else None)"

definition py_slice_from :: "'a list \<Rightarrow> int \<Rightarrow> 'a list" where
  "py_slice_from xs i =
     (let j = (if i < 0 then max 0 (int (length xs) + i) else i) in drop (nat j) xs)"

definition tail_offset :: "('k, 'a) topic \<Rightarrow> int" where
  "tail_offset t = tp_base_offset t + int (length (tp_elements t))"

definition subscription_of :: "('k, 'a) topic \<Rightarrow> 'k \<Rightarrow> subscription option" where
  "subscription_of t sid = map_of (tp_subscriptions t) sid"

definition ensure_reader :: "('k, 'a) topic \<Rightarrow> 'k \<Rightarrow> ('k, 'a) topic" where
  "ensure_reader t sid =
     (case map_of (tp_readers t) sid of
        Some _ \<Rightarrow> t
      | None \<Rightarrow> t\<lparr>tp_readers := AList.update sid None (tp_readers t)\<rparr>)"

definition reset_readers :: "('k, 'a) topic \<Rightarrow> 'k list \<Rightarrow> ('k, 'a) topic" where
  "reset_readers t sids =
     t\<lparr>tp_readers := map (\<lambda>(k, c). (k, if k \<in> set sids then None else c)) (tp_readers t)\<rparr>"

definition put_sub :: "('k, 'a) topic \<Rightarrow> 'k \<Rightarrow> subscription \<Rightarrow> ('k, 'a) topic" where
  "put_sub t sid sub = t\<lparr>tp_subscriptions := AList.update sid sub (tp_subscriptions t)\<rparr>"

section \<open>Construction\<close>

definition topic_empty :: "('k, 'a) topic" where
  "topic_empty = \<lparr>tp_base_offset = 0, tp_elements = [], tp_subscriptions = [], tp_readers = []\<rparr>"

fun restore_subs :: "('k, 'a) topic \<Rightarrow> 'k sub_snapshot list \<Rightarrow> topic_error + ('k, 'a) topic" where
  "restore_subs t [] = Inr t"
| "restore_subs t ((sid, saved) # rest) =
     (if \<not> (tp_base_offset t \<le> sb_cursor saved \<and> sb_cursor saved \<le> tail_offset t)
      then Inl CursorOutsideLog
      else if sb_durability saved = Ephemeral \<and> \<not> sb_connected saved
      then Inl DisconnectedEphemeral
      else restore_subs (ensure_reader (put_sub t sid saved) sid) rest)"

definition topic_restore :: "('k, 'a) topic_snapshot \<Rightarrow> topic_error + ('k, 'a) topic" where
  "topic_restore sn =
     (if sn_base_offset sn < 0 then Inl NegativeBase
      else restore_subs \<lparr>tp_base_offset = sn_base_offset sn, tp_elements = sn_elements sn,
             tp_subscriptions = [], tp_readers = []\<rparr> (sn_subscriptions sn))"

section \<open>Operations\<close>

definition topic_subscribe ::
  "('k, 'a) topic \<Rightarrow> 'k \<Rightarrow> topic_durability \<Rightarrow> topic_error + (('k, 'a) topic \<times> subscribe_outcome)" where
  "topic_subscribe t sid dur =
     (case subscription_of t sid of
        Some existing \<Rightarrow>
          if sb_connected existing then Inr (t, AlreadySubscribed)
          else if sb_durability existing \<noteq> Durable then Inl OnlyDurableReconnect
          else Inr (reset_readers (put_sub t sid (existing\<lparr>sb_connected := True\<rparr>)) [sid], Reconnected)
      | None \<Rightarrow>
          Inr (reset_readers (ensure_reader (put_sub t sid
                 \<lparr>sb_cursor = tail_offset t, sb_durability = dur, sb_connected = True\<rparr>) sid) [sid],
               Subscribed))"

definition topic_reconnect :: "('k, 'a) topic \<Rightarrow> 'k \<Rightarrow> topic_error + ('k, 'a) topic" where
  "topic_reconnect t sid =
     (case subscription_of t sid of
        None \<Rightarrow> Inl UnknownSubscriber
      | Some sub \<Rightarrow>
          if sb_durability sub \<noteq> Durable then Inl OnlyDurableReconnect
          else if \<not> sb_connected sub
          then Inr (reset_readers (put_sub t sid (sub\<lparr>sb_connected := True\<rparr>)) [sid])
          else Inr t)"

definition topic_disconnect :: "('k, 'a) topic \<Rightarrow> 'k \<Rightarrow> topic_error + ('k, 'a) topic" where
  "topic_disconnect t sid =
     (case subscription_of t sid of
        None \<Rightarrow> Inl UnknownSubscriber
      | Some sub \<Rightarrow>
          if \<not> sb_connected sub then Inr t
          else let t1 = put_sub t sid (sub\<lparr>sb_connected := False\<rparr>);
                   t2 = (if sb_durability sub = Ephemeral
                         then t1\<lparr>tp_subscriptions := AList.delete sid (tp_subscriptions t1)\<rparr> else t1)
               in Inr (reset_readers t2 [sid]))"

definition topic_publish :: "('k, 'a) topic \<Rightarrow> 'a \<Rightarrow> ('k, 'a) topic \<times> int" where
  "topic_publish t v =
     (let offset = tail_offset t;
          t1 = t\<lparr>tp_elements := tp_elements t @ [v]\<rparr>
      in (reset_readers t1 (map fst (filter (\<lambda>(sid, sub). sb_connected sub) (tp_subscriptions t1))),
          offset))"

definition topic_read_untracked :: "('k, 'a) topic \<Rightarrow> 'k \<Rightarrow> 'a list" where
  "topic_read_untracked t sid =
     (case subscription_of t sid of
        None \<Rightarrow> []
      | Some sub \<Rightarrow>
          if \<not> sb_connected sub then []
          else py_slice_from (tp_elements t) (sb_cursor sub - tp_base_offset t))"

definition topic_read_stream :: "('k, 'a) topic \<Rightarrow> 'k \<Rightarrow> ('k, 'a) topic \<times> 'a list" where
  "topic_read_stream t sid =
     (let t1 = ensure_reader t sid
      in case map_of (tp_readers t1) sid of
           Some (Some stream) \<Rightarrow> (t1, stream)
         | _ \<Rightarrow> let stream = topic_read_untracked t1 sid
                in (t1\<lparr>tp_readers := AList.update sid (Some stream) (tp_readers t1)\<rparr>, stream))"

definition topic_read :: "('k, 'a) topic \<Rightarrow> 'k \<Rightarrow> ('k, 'a) topic \<times> 'a option" where
  "topic_read t sid =
     (let (t1, stream) = topic_read_stream t sid
      in (t1, case stream of [] \<Rightarrow> None | x # _ \<Rightarrow> Some x))"

definition topic_advance ::
  "('k, 'a) topic \<Rightarrow> 'k \<Rightarrow> int \<Rightarrow> topic_error + (('k, 'a) topic \<times> 'a option)" where
  "topic_advance t sid cnt =
     (if cnt < 0 then Inl NegativeCount
      else if cnt = 0 then Inr (t, None)
      else case subscription_of t sid of
        None \<Rightarrow> Inl UnknownSubscriber
      | Some sub \<Rightarrow>
          if \<not> sb_connected sub \<or> sb_cursor sub = tail_offset t then Inr (t, None)
          else case py_index (tp_elements t) (sb_cursor sub - tp_base_offset t) of
            None \<Rightarrow> Inl TopicIndexError
          | Some v \<Rightarrow>
              let new_cursor = sb_cursor sub + cnt
              in if new_cursor > tail_offset t then Inl BeyondTail
                 else if new_cursor \<noteq> sb_cursor sub
                 then Inr (reset_readers (put_sub t sid (sub\<lparr>sb_cursor := new_cursor\<rparr>)) [sid], Some v)
                 else Inr (t, Some v))"

definition durable_cursors :: "('k, 'a) topic \<Rightarrow> int list" where
  "durable_cursors t =
     map (\<lambda>(sid, sub). sb_cursor sub)
       (filter (\<lambda>(sid, sub). sb_durability sub = Durable) (tp_subscriptions t))"

definition gc_frontier :: "('k, 'a) topic \<Rightarrow> int" where
  "gc_frontier t =
     (case durable_cursors t of [] \<Rightarrow> tail_offset t | c # cs \<Rightarrow> foldl min c cs)"

definition topic_gc :: "('k, 'a) topic \<Rightarrow> topic_error + (('k, 'a) topic \<times> int)" where
  "topic_gc t =
     (let frontier = gc_frontier t; removed = frontier - tp_base_offset t
      in if removed > int (length (tp_elements t)) then Inl TopicIndexError
         else Inr (t\<lparr>tp_elements := drop (nat removed) (tp_elements t),
                     tp_base_offset := frontier\<rparr>, removed))"

definition topic_snapshot_of :: "('k::linorder, 'a) topic \<Rightarrow> ('k, 'a) topic_snapshot" where
  "topic_snapshot_of t =
     \<lparr>sn_base_offset = tp_base_offset t, sn_elements = tp_elements t,
      sn_subscriptions = sort_key fst (tp_subscriptions t)\<rparr>"

section \<open>Histories\<close>

text \<open>
  A run of the topic keeps a history variable: every value ever published, so that the
  retained log is the history from the base offset on.
\<close>

datatype ('k, 'a) topic_op =
    TSubscribe 'k topic_durability | TReconnect 'k | TDisconnect 'k | TPublish 'a
  | TReadStream 'k | TAdvance 'k int | TGc

text \<open>An operation that raises leaves the topic as it was.\<close>

definition keep :: "'s \<Rightarrow> topic_error + 's \<Rightarrow> 's" where
  "keep s r = (case r of Inl _ \<Rightarrow> s | Inr s' \<Rightarrow> s')"

fun topic_step :: "('k, 'a) topic \<times> 'a list \<Rightarrow> ('k, 'a) topic_op \<Rightarrow> ('k, 'a) topic \<times> 'a list" where
  "topic_step (t, h) (TSubscribe sid dur) = (keep t (map_sum id fst (topic_subscribe t sid dur)), h)"
| "topic_step (t, h) (TReconnect sid) = (keep t (topic_reconnect t sid), h)"
| "topic_step (t, h) (TDisconnect sid) = (keep t (topic_disconnect t sid), h)"
| "topic_step (t, h) (TPublish v) = (fst (topic_publish t v), h @ [v])"
| "topic_step (t, h) (TReadStream sid) = (fst (topic_read_stream t sid), h)"
| "topic_step (t, h) (TAdvance sid n) = (keep t (map_sum id fst (topic_advance t sid n)), h)"
| "topic_step (t, h) TGc = (keep t (map_sum id fst (topic_gc t)), h)"

inductive topic_reachable :: "('k, 'a) topic \<times> 'a list \<Rightarrow> bool" where
  start: "topic_reachable (topic_empty, [])"
| step: "topic_reachable s \<Longrightarrow> topic_reachable (topic_step s x)"

chapter \<open>Properties\<close>

text \<open>
  The invariant of the broadcast log and its preservation: the retained elements are the
  published history from the base offset on, durable cursors stay inside the retained log,
  and a memo reader that is not behind the base offset is never stale.
\<close>

section \<open>Views\<close>

lemma subscription_put [simp]: "subscription_of (put_sub t sid sub) = (subscription_of t)(sid \<mapsto> sub)"
  by (auto simp: subscription_of_def put_sub_def update_conv)

lemma reset_frame [simp]:
  "tp_base_offset (reset_readers t sids) = tp_base_offset t"
  "tp_elements (reset_readers t sids) = tp_elements t"
  "tp_subscriptions (reset_readers t sids) = tp_subscriptions t"
  "tail_offset (reset_readers t sids) = tail_offset t"
  "subscription_of (reset_readers t sids) = subscription_of t"
  "topic_read_untracked (reset_readers t sids) = topic_read_untracked t"
  by (simp_all add: reset_readers_def tail_offset_def subscription_of_def topic_read_untracked_def fun_eq_iff
      split: option.splits)

lemma put_sub_frame [simp]:
  "tp_base_offset (put_sub t sid sub) = tp_base_offset t"
  "tp_elements (put_sub t sid sub) = tp_elements t"
  "tp_readers (put_sub t sid sub) = tp_readers t"
  "tail_offset (put_sub t sid sub) = tail_offset t"
  by (simp_all add: put_sub_def tail_offset_def)

lemma ensure_frame [simp]:
  "tp_base_offset (ensure_reader t sid) = tp_base_offset t"
  "tp_elements (ensure_reader t sid) = tp_elements t"
  "tp_subscriptions (ensure_reader t sid) = tp_subscriptions t"
  "tail_offset (ensure_reader t sid) = tail_offset t"
  "subscription_of (ensure_reader t sid) = subscription_of t"
  "topic_read_untracked (ensure_reader t sid) = topic_read_untracked t"
  by (simp_all add: ensure_reader_def tail_offset_def subscription_of_def topic_read_untracked_def
      fun_eq_iff split: option.splits)

lemma ensure_readers_map:
  "map_of (tp_readers (ensure_reader t sid)) k =
     (if k = sid \<and> map_of (tp_readers t) sid = None then Some None else map_of (tp_readers t) k)"
  by (auto simp: ensure_reader_def update_conv split: option.splits)

section \<open>The invariant\<close>

definition lagging :: "('k, 'a) topic \<Rightarrow> 'k \<Rightarrow> bool" where
  "lagging t sid \<longleftrightarrow>
     (case subscription_of t sid of None \<Rightarrow> False | Some sub \<Rightarrow> sb_cursor sub < tp_base_offset t)"

definition coherent :: "('k, 'a) topic \<Rightarrow> bool" where
  "coherent t \<longleftrightarrow>
     (\<forall>sid c. map_of (tp_readers t) sid = Some (Some c) \<longrightarrow> \<not> lagging t sid \<longrightarrow> c = topic_read_untracked t sid)"

definition subs_ok :: "('k, 'a) topic \<Rightarrow> bool" where
  "subs_ok t \<longleftrightarrow> distinct (map fst (tp_subscriptions t)) \<and>
     (\<forall>sid sub. subscription_of t sid = Some sub \<longrightarrow>
        0 \<le> sb_cursor sub \<and> sb_cursor sub \<le> tail_offset t \<and>
        (sb_durability sub = Durable \<longrightarrow> tp_base_offset t \<le> sb_cursor sub) \<and>
        (sb_durability sub = Ephemeral \<longrightarrow> sb_connected sub))"

definition log_ok :: "('k, 'a) topic \<Rightarrow> 'a list \<Rightarrow> bool" where
  "log_ok t h \<longleftrightarrow> 0 \<le> tp_base_offset t \<and> nat (tp_base_offset t) \<le> length h \<and>
     tp_elements t = drop (nat (tp_base_offset t)) h"

definition topic_inv :: "('k, 'a) topic \<Rightarrow> 'a list \<Rightarrow> bool" where
  "topic_inv t h \<longleftrightarrow> log_ok t h \<and> subs_ok t \<and> coherent t"

lemma tail_history: "log_ok t h \<Longrightarrow> tail_offset t = int (length h)"
  by (auto simp: log_ok_def tail_offset_def)

lemma lagging_frame [simp]:
  "lagging (reset_readers t sids) = lagging t"
  "lagging (ensure_reader t sid) = lagging t"
  by (auto simp: lagging_def fun_eq_iff split: option.splits)

lemma reset_readers_map:
  "map_of (tp_readers (reset_readers t sids)) k =
     map_option (\<lambda>c. if k \<in> set sids then None else c) (map_of (tp_readers t) k)"
  by (simp add: reset_readers_def map_of_mapped_values)

lemma coherent_reset:
  assumes "coherent t"
    and "\<And>k c. map_of (tp_readers t') k = Some (Some c) \<Longrightarrow> map_of (tp_readers t) k = Some (Some c)"
    and "\<And>sid. sid \<notin> set sids \<Longrightarrow> \<not> lagging t' sid \<Longrightarrow>
           \<not> lagging t sid \<and> topic_read_untracked t' sid = topic_read_untracked t sid"
  shows "coherent (reset_readers t' sids)"
  using assms by (fastforce simp: coherent_def reset_readers_map split: if_splits)

lemma coherent_ensure [simp]: "coherent (ensure_reader t sid) \<longleftrightarrow> coherent t"
  by (auto simp: coherent_def ensure_readers_map)

lemma subs_ok_put:
  assumes "subs_ok t" and "0 \<le> sb_cursor sub" "sb_cursor sub \<le> tail_offset t"
    and "sb_durability sub = Durable \<Longrightarrow> tp_base_offset t \<le> sb_cursor sub"
    and "sb_durability sub = Ephemeral \<Longrightarrow> sb_connected sub"
  shows "subs_ok (put_sub t sid sub)"
proof -
  have "distinct (map fst (tp_subscriptions (put_sub t sid sub)))"
    using assms(1) by (simp add: put_sub_def subs_ok_def distinct_update)
  then show ?thesis using assms by (auto simp: subs_ok_def)
qed

lemma subs_ok_reset [simp]: "subs_ok (reset_readers t sids) \<longleftrightarrow> subs_ok t"
  by (simp add: subs_ok_def)

lemma subs_ok_ensure [simp]: "subs_ok (ensure_reader t sid) \<longleftrightarrow> subs_ok t"
  by (simp add: subs_ok_def)

lemma log_ok_frame:
  "tp_base_offset t' = tp_base_offset t \<Longrightarrow> tp_elements t' = tp_elements t \<Longrightarrow> log_ok t' h = log_ok t h"
  by (simp add: log_ok_def)

lemma read_of_sub:
  "topic_read_untracked t sid = (case subscription_of t sid of None \<Rightarrow> []
     | Some sub \<Rightarrow> if \<not> sb_connected sub then []
                   else py_slice_from (tp_elements t) (sb_cursor sub - tp_base_offset t))"
  by (simp add: topic_read_untracked_def)

lemma lag_read_put:
  "s \<noteq> sid \<Longrightarrow> lagging (put_sub t sid sub) s = lagging t s \<and>
     topic_read_untracked (put_sub t sid sub) s = topic_read_untracked t s"
  by (simp add: lagging_def read_of_sub split: option.splits)

text \<open>Storing a subscription and resetting its own reader keeps the invariant.\<close>

lemma store_inv:
  assumes "topic_inv t h" and "0 \<le> sb_cursor sub" "sb_cursor sub \<le> tail_offset t"
    and "sb_durability sub = Durable \<Longrightarrow> tp_base_offset t \<le> sb_cursor sub"
    and "sb_durability sub = Ephemeral \<Longrightarrow> sb_connected sub"
  shows "topic_inv (reset_readers (put_sub t sid sub) [sid]) h"
proof -
  have "subs_ok (put_sub t sid sub)"
    by (rule subs_ok_put) (use assms in \<open>auto simp: topic_inv_def\<close>)
  moreover have "coherent (reset_readers (put_sub t sid sub) [sid])"
    by (rule coherent_reset [of t]) (use assms lag_read_put [of _ sid t sub] in \<open>auto simp: topic_inv_def\<close>)
  moreover have "log_ok (reset_readers (put_sub t sid sub) [sid]) h"
    using assms by (simp add: topic_inv_def log_ok_def)
  ultimately show ?thesis by (simp add: topic_inv_def)
qed

section \<open>Every operation keeps the invariant\<close>

lemma new_sub_inv:
  assumes "topic_inv t h"
  shows "topic_inv (reset_readers (ensure_reader (put_sub t sid
    \<lparr>sb_cursor = tail_offset t, sb_durability = dur, sb_connected = True\<rparr>) sid) [sid]) h"
    (is "topic_inv (reset_readers (ensure_reader ?p sid) [sid]) h")
proof -
  have "0 \<le> tail_offset t" "tp_base_offset t \<le> tail_offset t"
    using assms by (auto simp: topic_inv_def log_ok_def tail_offset_def)
  then have "subs_ok ?p" using assms by (intro subs_ok_put) (auto simp: topic_inv_def)
  moreover have "coherent (reset_readers (ensure_reader ?p sid) [sid])"
    using assms lag_read_put [of _ sid t]
    by (intro coherent_reset [of t]) (auto simp: topic_inv_def ensure_readers_map split: if_splits)
  ultimately show ?thesis using assms by (simp add: topic_inv_def log_ok_def)
qed

lemma sub_bounds:
  assumes "topic_inv t h" and "subscription_of t sid = Some sub"
  shows "0 \<le> sb_cursor sub" and "sb_cursor sub \<le> tail_offset t"
    and "sb_durability sub = Durable \<Longrightarrow> tp_base_offset t \<le> sb_cursor sub"
    and "sb_durability sub = Ephemeral \<Longrightarrow> sb_connected sub"
  using assms by (auto simp: topic_inv_def subs_ok_def)

lemma subscribe_inv [inv_intros]:
  "topic_inv t h \<Longrightarrow> topic_subscribe t sid dur = Inr (t', out) \<Longrightarrow> topic_inv t' h"
  unfolding topic_subscribe_def
  by (auto split: option.splits if_splits intro!: new_sub_inv store_inv dest: sub_bounds)

lemma reconnect_inv [inv_intros]:
  "topic_inv t h \<Longrightarrow> topic_reconnect t sid = Inr t' \<Longrightarrow> topic_inv t' h"
  unfolding topic_reconnect_def
  by (auto split: option.splits if_splits intro!: store_inv dest: sub_bounds)

lemma drop_sub_inv:
  assumes "topic_inv t h"
  shows "topic_inv (reset_readers (t\<lparr>tp_subscriptions :=
           AList.delete sid (AList.update sid sub (tp_subscriptions t))\<rparr>) [sid]) h"
    (is "topic_inv (reset_readers ?p [sid]) h")
proof -
  have sub: "subscription_of ?p = (subscription_of t)(sid := None)"
    by (auto simp: subscription_of_def delete_conv update_conv fun_eq_iff)
  have fr: "tp_base_offset ?p = tp_base_offset t" "tp_elements ?p = tp_elements t"
    "tail_offset ?p = tail_offset t" "tp_readers ?p = tp_readers t"
    by (simp_all add: tail_offset_def)
  have "subs_ok ?p" using assms
    by (auto simp: subs_ok_def sub fr topic_inv_def distinct_update distinct_delete split: if_splits)
  moreover have "coherent (reset_readers ?p [sid])"
    using assms by (intro coherent_reset [of t])
      (auto simp: topic_inv_def lagging_def read_of_sub sub fr split: option.splits)
  ultimately show ?thesis using assms by (simp add: topic_inv_def log_ok_def fr)
qed

lemma disconnect_inv [inv_intros]:
  assumes "topic_inv t h" and "topic_disconnect t sid = Inr t'"
  shows "topic_inv t' h"
proof -
  obtain sub where sub: "subscription_of t sid = Some sub"
    using assms(2) by (auto simp: topic_disconnect_def split: option.splits)
  note b = sub_bounds [OF assms(1) sub]
  consider "\<not> sb_connected sub" | "sb_connected sub" "sb_durability sub = Durable"
    | "sb_connected sub" "sb_durability sub = Ephemeral" by (cases "sb_durability sub") auto
  then show ?thesis
  proof cases
    case 3
    with assms sub drop_sub_inv [OF assms(1), of sid "sub\<lparr>sb_connected := False\<rparr>"]
    show ?thesis by (simp add: topic_disconnect_def Let_def put_sub_def)
  qed (use assms sub b in \<open>auto simp: topic_disconnect_def Let_def intro!: store_inv\<close>)
qed

lemma publish_inv [inv_intros]:
  assumes "topic_inv t h"
  shows "topic_inv (fst (topic_publish t v)) (h @ [v])"
proof -
  let ?p = "t\<lparr>tp_elements := tp_elements t @ [v]\<rparr>"
  let ?S = "map fst (filter (\<lambda>(sid, sub). sb_connected sub) (tp_subscriptions t))"
  have sub: "subscription_of ?p = subscription_of t" by (simp add: subscription_of_def fun_eq_iff)
  have conn: "subscription_of t sid = Some sub \<Longrightarrow> sid \<notin> set ?S \<Longrightarrow> \<not> sb_connected sub" for sid sub
    by (force simp: subscription_of_def dest: map_of_SomeD)
  have "coherent (reset_readers ?p ?S)"
    using assms conn by (intro coherent_reset [of t])
      (auto simp: topic_inv_def lagging_def read_of_sub sub split: option.splits)
  moreover have "subs_ok ?p" using assms by (force simp: topic_inv_def subs_ok_def sub tail_offset_def)
  moreover have "log_ok ?p (h @ [v])" using assms by (auto simp: topic_inv_def log_ok_def)
  ultimately show ?thesis by (simp add: topic_publish_def Let_def topic_inv_def log_ok_def)
qed

lemma readers_frame [simp]:
  "tail_offset (t\<lparr>tp_readers := rs\<rparr>) = tail_offset t"
  "subscription_of (t\<lparr>tp_readers := rs\<rparr>) = subscription_of t"
  "lagging (t\<lparr>tp_readers := rs\<rparr>) = lagging t"
  "topic_read_untracked (t\<lparr>tp_readers := rs\<rparr>) = topic_read_untracked t"
  by (auto simp: subscription_of_def lagging_def topic_read_untracked_def tail_offset_def fun_eq_iff
      split: option.splits)

lemma read_stream_inv [inv_intros]:
  assumes "topic_inv t h"
  shows "topic_inv (fst (topic_read_stream t sid)) h"
proof -
  let ?e = "ensure_reader t sid"
  let ?u = "?e\<lparr>tp_readers := AList.update sid (Some (topic_read_untracked ?e sid)) (tp_readers ?e)\<rparr>"
  have e: "topic_inv ?e h" using assms by (simp add: topic_inv_def log_ok_def)
  have "coherent ?u" using e by (auto simp: topic_inv_def coherent_def update_conv split: if_splits)
  then have "topic_inv ?u h" using e by (simp add: topic_inv_def subs_ok_def log_ok_def)
  with e show ?thesis by (simp add: topic_read_stream_def Let_def split: option.splits)
qed

lemma advance_inv [inv_intros]:
  assumes "topic_inv t h" and "topic_advance t sid n = Inr (t', out)"
  shows "topic_inv t' h"
proof (cases "t' = t")
  case False
  with assms(2) obtain sub where sub: "subscription_of t sid = Some sub" "0 \<le> n"
    "sb_cursor sub + n \<le> tail_offset t"
    "t' = reset_readers (put_sub t sid (sub\<lparr>sb_cursor := sb_cursor sub + n\<rparr>)) [sid]"
    by (auto simp: topic_advance_def Let_def split: option.splits if_splits)
  note b = sub_bounds [OF assms(1) sub(1)]
  show ?thesis unfolding sub(4)
    by (rule store_inv [OF assms(1)]) (use b sub(2,3) in auto)
qed (use assms in simp)

section \<open>Garbage collection\<close>

lemma foldl_min_le: "foldl min c cs \<le> (c::int) \<and> (\<forall>x\<in>set cs. foldl min c cs \<le> x)"
proof (induction cs arbitrary: c)
  case (Cons x cs)
  from Cons.IH [of "min c x"] show ?case by auto
qed simp

lemma foldl_min_in: "foldl min (c::int) cs \<in> insert c (set cs)"
  by (induction cs arbitrary: c) (auto simp: min_def)

lemma durable_cursors_sub:
  assumes "subs_ok t"
  shows "x \<in> set (durable_cursors t) \<longleftrightarrow>
    (\<exists>sid sub. subscription_of t sid = Some sub \<and> sb_durability sub = Durable \<and> x = sb_cursor sub)"
  using assms by (force simp: durable_cursors_def subs_ok_def subscription_of_def map_of_eq_Some_iff)

lemma gc_frontier_bounds:
  assumes "topic_inv t h"
  shows "tp_base_offset t \<le> gc_frontier t \<and> gc_frontier t \<le> tail_offset t \<and>
    (\<forall>x\<in>set (durable_cursors t). gc_frontier t \<le> x)"
proof -
  have ok: "subs_ok t" using assms by (simp add: topic_inv_def)
  have in_log: "tp_base_offset t \<le> x \<and> x \<le> tail_offset t" if "x \<in> set (durable_cursors t)" for x
    using that ok by (auto simp: durable_cursors_sub [OF ok] subs_ok_def)
  show ?thesis
  proof (cases "durable_cursors t")
    case Nil
    then show ?thesis by (simp add: gc_frontier_def tail_offset_def)
  next
    case (Cons c cs)
    then show ?thesis using foldl_min_le [of c cs] foldl_min_in [of c cs] in_log [of "foldl min c cs"]
      by (auto simp: gc_frontier_def)
  qed
qed

lemma slice_drop:
  assumes "0 \<le> r" and "r \<le> i"
  shows "py_slice_from (drop (nat r) xs) (i - r) = py_slice_from xs i"
  using assms by (simp add: py_slice_from_def nat_diff_distrib)

lemma gc_inv [inv_intros]:
  assumes inv: "topic_inv t h"
  shows "\<exists>t'. topic_gc t = Inr (t', gc_frontier t - tp_base_offset t) \<and> topic_inv t' h \<and>
     tp_base_offset t' = gc_frontier t \<and> subscription_of t' = subscription_of t"
proof -
  let ?f = "gc_frontier t" and ?b = "tp_base_offset t"
  let ?t = "t\<lparr>tp_elements := drop (nat (?f - ?b)) (tp_elements t), tp_base_offset := ?f\<rparr>"
  note f = gc_frontier_bounds [OF inv]
  have sub: "subscription_of ?t = subscription_of t" by (simp add: subscription_of_def fun_eq_iff)
  have ok: "subs_ok t" "log_ok t h" "coherent t" using inv by (simp_all add: topic_inv_def)
  have "nat (?f - ?b) \<le> length (tp_elements t)" using f by (simp add: tail_offset_def nat_le_iff)
  then have tail: "tail_offset ?t = tail_offset t" using f by (simp add: tail_offset_def of_nat_diff)
  have "subs_ok ?t"
    using ok(1) f durable_cursors_sub [OF ok(1)] unfolding subs_ok_def sub tail by fastforce
  moreover have "log_ok ?t h"
    using f ok(2) tail_history [OF ok(2)] by (auto simp: log_ok_def nat_diff_distrib add.commute)
  moreover have read: "\<not> lagging ?t sid \<Longrightarrow> \<not> lagging t sid \<and> topic_read_untracked ?t sid = topic_read_untracked t sid" for sid
    using f slice_drop [of "?f - ?b" "c - ?b" "tp_elements t" for c]
    by (auto simp: lagging_def read_of_sub sub split: option.splits)
  then have "coherent ?t" using ok(3) by (auto simp: coherent_def)
  ultimately have "topic_inv ?t h" by (simp add: topic_inv_def)
  then show ?thesis using f ok(2) sub by (auto simp: topic_gc_def Let_def tail_offset_def)
qed

section \<open>Reachable states\<close>

lemma keep_cases:
  assumes "topic_inv t h" and "\<And>t'. r = Inr t' \<Longrightarrow> topic_inv t' h"
  shows "topic_inv (keep t r) h"
  using assms by (cases r) (auto simp: keep_def)

lemma keep_fst_cases:
  assumes "topic_inv t h" and "\<And>t' out. r = Inr (t', out) \<Longrightarrow> topic_inv t' h"
  shows "topic_inv (keep t (map_sum id fst r)) h"
  using assms by (cases r) (auto simp: keep_def)

lemma topic_step_inv:
  assumes "topic_inv t h"
  shows "topic_inv (fst (topic_step (t, h) x)) (snd (topic_step (t, h) x))"
proof (cases x)
  case TGc
  with gc_inv [OF assms] assms show ?thesis by (auto simp: keep_def)
next
  case (TSubscribe sid dur)
  show ?thesis unfolding TSubscribe topic_step.simps fst_conv snd_conv
    by (rule keep_fst_cases [OF assms]) (rule subscribe_inv [OF assms])
next
  case (TReconnect sid)
  show ?thesis unfolding TReconnect topic_step.simps fst_conv snd_conv
    by (rule keep_cases [OF assms]) (rule reconnect_inv [OF assms])
next
  case (TDisconnect sid)
  show ?thesis unfolding TDisconnect topic_step.simps fst_conv snd_conv
    by (rule keep_cases [OF assms]) (rule disconnect_inv [OF assms])
next
  case (TPublish v)
  show ?thesis unfolding TPublish topic_step.simps fst_conv snd_conv by (rule publish_inv [OF assms])
next
  case (TReadStream sid)
  show ?thesis unfolding TReadStream topic_step.simps fst_conv snd_conv
    by (rule read_stream_inv [OF assms])
next
  case (TAdvance sid n)
  show ?thesis unfolding TAdvance topic_step.simps fst_conv snd_conv
    by (rule keep_fst_cases [OF assms]) (rule advance_inv [OF assms])
qed

lemma topic_empty_inv: "topic_inv topic_empty []"
  by (simp add: topic_inv_def log_ok_def subs_ok_def coherent_def topic_empty_def subscription_of_def)

lemma reachable_inv: "topic_reachable s \<Longrightarrow> topic_inv (fst s) (snd s)"
proof (induction rule: topic_reachable.induct)
  case start
  show ?case using topic_empty_inv by simp
next
  case (step s x)
  then show ?case using topic_step_inv [of "fst s" "snd s" x] by simp
qed

text \<open>What a subscriber reads, and what it consumes.\<close>

lemma read_history:
  assumes "topic_inv t h" and "subscription_of t sid = Some sub" "sb_connected sub"
    and "tp_base_offset t \<le> sb_cursor sub"
  shows "snd (topic_read_stream t sid) = drop (nat (sb_cursor sub)) h"
proof -
  have "\<not> lagging t sid" using assms by (simp add: lagging_def)
  moreover have "coherent (ensure_reader t sid)" using assms by (simp add: topic_inv_def)
  ultimately have "snd (topic_read_stream t sid) = topic_read_untracked t sid"
    by (auto simp: topic_read_stream_def Let_def coherent_def split: option.splits)
  also have "\<dots> = drop (nat (sb_cursor sub)) h"
    using assms by (auto simp: read_of_sub topic_inv_def log_ok_def py_slice_from_def nat_diff_distrib)
  finally show ?thesis .
qed

lemma advance_history:
  assumes "topic_inv t h" and "subscription_of t sid = Some sub" "sb_connected sub"
    and "tp_base_offset t \<le> sb_cursor sub" and "sb_cursor sub < int (length h)"
  shows "\<exists>t'. topic_advance t sid 1 = Inr (t', Some (h ! nat (sb_cursor sub))) \<and>
     subscription_of t' = (subscription_of t)(sid \<mapsto> sub\<lparr>sb_cursor := sb_cursor sub + 1\<rparr>)"
proof -
  have ok: "log_ok t h" using assms by (simp add: topic_inv_def)
  have "py_index (tp_elements t) (sb_cursor sub - tp_base_offset t) = Some (h ! nat (sb_cursor sub))"
    using assms ok by (simp add: py_index_def log_ok_def Let_def of_nat_diff nat_diff_distrib)
  with assms tail_history [OF ok] show ?thesis by (simp add: topic_advance_def Let_def)
qed

end
