(* ===== verification/WorkQueue.thy ===== *)
theory WorkQueue
  imports Cells "HOL-Library.AList"
begin

text \<open>
  The competing-consumer work queue of \<^verbatim>\<open>src/lazily/work_queue.py\<close>: a FIFO of
  pending items, leased deliveries in flight, dead letters, and four memo readers.
  Timestamps are Python integers; item and delivery ids count from 0.
\<close>

record 'a wq_item =
  it_id :: nat
  it_value :: 'a
  it_attempts :: int

record 'a wq_delivery =
  dv_delivery_id :: nat
  dv_item_id :: nat
  dv_value :: 'a
  dv_worker :: string
  dv_attempt :: int
  dv_deadline :: int

datatype dead_reason = NACK | EXPIRED

record 'a wq_dead =
  dl_item_id :: nat
  dl_item :: 'a
  dl_attempts :: int
  dl_reason :: dead_reason

datatype wq_error = TimeoutNotPositive | DeliveriesTooFew | NegativeNow

record 'a work_queue =
  wq_visibility_timeout :: int
  wq_max_deliveries :: int
  wq_pending :: "'a wq_item list"
  wq_in_flight :: "(nat \<times> 'a wq_delivery) list"
  wq_dead_letters :: "'a wq_dead list"
  wq_next_item_id :: nat
  wq_next_delivery_id :: nat
  wq_pending_len :: "nat option"
  wq_is_empty :: "bool option"
  wq_in_flight_len :: "nat option"
  wq_dead_letter_len :: "nat option"

definition wq_new :: "int \<Rightarrow> int \<Rightarrow> wq_error + 'a work_queue" where
  "wq_new timeout maxd =
     (if timeout \<le> 0 then Inl TimeoutNotPositive
      else if maxd < 1 then Inl DeliveriesTooFew
      else Inr \<lparr>wq_visibility_timeout = timeout, wq_max_deliveries = maxd, wq_pending = [],
             wq_in_flight = [], wq_dead_letters = [], wq_next_item_id = 0,
             wq_next_delivery_id = 0, wq_pending_len = None, wq_is_empty = None,
             wq_in_flight_len = None, wq_dead_letter_len = None\<rparr>)"

definition wq_counts :: "'a work_queue \<Rightarrow> nat \<times> nat \<times> nat" where
  "wq_counts q = (length (wq_pending q), length (wq_in_flight q), length (wq_dead_letters q))"

definition wq_invalidate :: "'a work_queue \<Rightarrow> nat \<times> nat \<times> nat \<Rightarrow> 'a work_queue" where
  "wq_invalidate q before =
     (let (pb, fb, db) = before; (pa, fa, da) = wq_counts q;
          q1 = (if pb \<noteq> pa then q\<lparr>wq_pending_len := None\<rparr> else q);
          q2 = (if (pb = 0) \<noteq> (pa = 0) then q1\<lparr>wq_is_empty := None\<rparr> else q1);
          q3 = (if fb \<noteq> fa then q2\<lparr>wq_in_flight_len := None\<rparr> else q2)
      in if db \<noteq> da then q3\<lparr>wq_dead_letter_len := None\<rparr> else q3)"

definition wq_push :: "'a work_queue \<Rightarrow> 'a \<Rightarrow> 'a work_queue \<times> nat" where
  "wq_push q v =
     (let before = wq_counts q; item_id = wq_next_item_id q;
          q1 = q\<lparr>wq_next_item_id := item_id + 1,
                 wq_pending := wq_pending q @ [\<lparr>it_id = item_id, it_value = v, it_attempts = 0\<rparr>]\<rparr>
      in (wq_invalidate q1 before, item_id))"

definition wq_claim ::
  "'a work_queue \<Rightarrow> string \<Rightarrow> int \<Rightarrow> wq_error + ('a work_queue \<times> 'a wq_delivery option)" where
  "wq_claim q worker now =
     (if now < 0 then Inl NegativeNow
      else case wq_pending q of
        [] \<Rightarrow> Inr (q, None)
      | item # rest \<Rightarrow>
          let before = wq_counts q; did = wq_next_delivery_id q;
              delivery = \<lparr>dv_delivery_id = did, dv_item_id = it_id item, dv_value = it_value item,
                          dv_worker = worker, dv_attempt = it_attempts item + 1,
                          dv_deadline = now + wq_visibility_timeout q\<rparr>;
              q1 = q\<lparr>wq_pending := rest, wq_next_delivery_id := did + 1,
                     wq_in_flight := AList.update did delivery (wq_in_flight q)\<rparr>
          in Inr (wq_invalidate q1 before, Some delivery))"

definition wq_ack :: "'a work_queue \<Rightarrow> string \<Rightarrow> nat \<Rightarrow> 'a work_queue \<times> bool" where
  "wq_ack q worker did =
     (case map_of (wq_in_flight q) did of
        None \<Rightarrow> (q, False)
      | Some delivery \<Rightarrow>
          if dv_worker delivery \<noteq> worker then (q, False)
          else (wq_invalidate (q\<lparr>wq_in_flight := AList.delete did (wq_in_flight q)\<rparr>) (wq_counts q), True))"

definition wq_fail :: "'a work_queue \<Rightarrow> 'a wq_delivery \<Rightarrow> dead_reason \<Rightarrow> 'a work_queue" where
  "wq_fail q d reason =
     (if dv_attempt d \<ge> wq_max_deliveries q
      then q\<lparr>wq_dead_letters := wq_dead_letters q @
             [\<lparr>dl_item_id = dv_item_id d, dl_item = dv_value d, dl_attempts = dv_attempt d,
               dl_reason = reason\<rparr>]\<rparr>
      else q\<lparr>wq_pending := wq_pending q @
             [\<lparr>it_id = dv_item_id d, it_value = dv_value d, it_attempts = dv_attempt d\<rparr>]\<rparr>)"

definition wq_nack :: "'a work_queue \<Rightarrow> string \<Rightarrow> nat \<Rightarrow> 'a work_queue \<times> bool" where
  "wq_nack q worker did =
     (case map_of (wq_in_flight q) did of
        None \<Rightarrow> (q, False)
      | Some delivery \<Rightarrow>
          if dv_worker delivery \<noteq> worker then (q, False)
          else (wq_invalidate
                  (wq_fail (q\<lparr>wq_in_flight := AList.delete did (wq_in_flight q)\<rparr>) delivery NACK)
                  (wq_counts q), True))"

definition wq_expired_ids :: "'a work_queue \<Rightarrow> int \<Rightarrow> nat list" where
  "wq_expired_ids q now =
     sort (map fst (filter (\<lambda>(did, d). dv_deadline d < now) (wq_in_flight q)))"

definition wq_reap_one :: "'a work_queue \<Rightarrow> nat \<Rightarrow> 'a work_queue" where
  "wq_reap_one q did =
     (case map_of (wq_in_flight q) did of
        None \<Rightarrow> q
      | Some delivery \<Rightarrow>
          wq_fail (q\<lparr>wq_in_flight := AList.delete did (wq_in_flight q)\<rparr>) delivery EXPIRED)"

definition wq_reap_expired :: "'a work_queue \<Rightarrow> int \<Rightarrow> wq_error + ('a work_queue \<times> nat)" where
  "wq_reap_expired q now =
     (if now < 0 then Inl NegativeNow
      else let expired = wq_expired_ids q now
           in if expired = [] then Inr (q, 0)
              else Inr (wq_invalidate (foldl wq_reap_one q expired) (wq_counts q), length expired))"

text \<open>The memo readers.\<close>

definition wq_read_pending_len :: "'a work_queue \<Rightarrow> 'a work_queue \<times> nat" where
  "wq_read_pending_len q =
     (case wq_pending_len q of Some n \<Rightarrow> (q, n)
      | None \<Rightarrow> let n = length (wq_pending q) in (q\<lparr>wq_pending_len := Some n\<rparr>, n))"

definition wq_read_is_empty :: "'a work_queue \<Rightarrow> 'a work_queue \<times> bool" where
  "wq_read_is_empty q =
     (case wq_is_empty q of Some b \<Rightarrow> (q, b)
      | None \<Rightarrow> let b = (wq_pending q = []) in (q\<lparr>wq_is_empty := Some b\<rparr>, b))"

definition wq_read_in_flight_len :: "'a work_queue \<Rightarrow> 'a work_queue \<times> nat" where
  "wq_read_in_flight_len q =
     (case wq_in_flight_len q of Some n \<Rightarrow> (q, n)
      | None \<Rightarrow> let n = length (wq_in_flight q) in (q\<lparr>wq_in_flight_len := Some n\<rparr>, n))"

definition wq_read_dead_letter_len :: "'a work_queue \<Rightarrow> 'a work_queue \<times> nat" where
  "wq_read_dead_letter_len q =
     (case wq_dead_letter_len q of Some n \<Rightarrow> (q, n)
      | None \<Rightarrow> let n = length (wq_dead_letters q) in (q\<lparr>wq_dead_letter_len := Some n\<rparr>, n))"

section \<open>Runs\<close>

text \<open>
  A run records the values in push order and the ids of acknowledged items: what the queue
  promises is about these histories. The reap loop pops ids it has just listed, so the
  missing-key branch of \<open>wq_reap_one\<close> is never taken in a reachable state.
\<close>

datatype 'a wq_op =
    WPush 'a | WClaim string int | WAck string nat | WNack string nat | WReap int
  | WReadPendingLen | WReadIsEmpty | WReadInFlightLen | WReadDeadLetterLen

record 'a wq_run =
  wr_queue :: "'a work_queue"
  wr_values :: "'a list"
  wr_acked :: "nat list"

fun wq_step :: "'a wq_run \<Rightarrow> 'a wq_op \<Rightarrow> 'a wq_run" where
  "wq_step r (WPush v) = r\<lparr>wr_queue := fst (wq_push (wr_queue r) v), wr_values := wr_values r @ [v]\<rparr>"
| "wq_step r (WClaim w now) =
     (case wq_claim (wr_queue r) w now of Inl _ \<Rightarrow> r | Inr (q, _) \<Rightarrow> r\<lparr>wr_queue := q\<rparr>)"
| "wq_step r (WAck w did) =
     (let (q, ok) = wq_ack (wr_queue r) w did
      in r\<lparr>wr_queue := q,
           wr_acked := (case map_of (wq_in_flight (wr_queue r)) did of
                          Some d \<Rightarrow> if ok then wr_acked r @ [dv_item_id d] else wr_acked r
                        | None \<Rightarrow> wr_acked r)\<rparr>)"
| "wq_step r (WNack w did) = r\<lparr>wr_queue := fst (wq_nack (wr_queue r) w did)\<rparr>"
| "wq_step r (WReap now) =
     (case wq_reap_expired (wr_queue r) now of Inl _ \<Rightarrow> r | Inr (q, _) \<Rightarrow> r\<lparr>wr_queue := q\<rparr>)"
| "wq_step r WReadPendingLen = r\<lparr>wr_queue := fst (wq_read_pending_len (wr_queue r))\<rparr>"
| "wq_step r WReadIsEmpty = r\<lparr>wr_queue := fst (wq_read_is_empty (wr_queue r))\<rparr>"
| "wq_step r WReadInFlightLen = r\<lparr>wr_queue := fst (wq_read_in_flight_len (wr_queue r))\<rparr>"
| "wq_step r WReadDeadLetterLen = r\<lparr>wr_queue := fst (wq_read_dead_letter_len (wr_queue r))\<rparr>"

inductive wq_reachable :: "int \<Rightarrow> int \<Rightarrow> 'a wq_run \<Rightarrow> bool" for timeout maxd where
  start: "wq_new timeout maxd = Inr q \<Longrightarrow>
     wq_reachable timeout maxd \<lparr>wr_queue = q, wr_values = [], wr_acked = []\<rparr>"
| step: "wq_reachable timeout maxd r \<Longrightarrow> wq_reachable timeout maxd (wq_step r x)"

chapter \<open>Properties\<close>

text \<open>
  Invariants of the work queue: every pushed item is in exactly one place (pending, in
  flight, dead or acknowledged) with its value unchanged, delivery ids are fresh, attempts
  stay within the limit, and the memo readers are never stale.
\<close>

section \<open>Readers\<close>

definition wq_coherent :: "'a work_queue \<Rightarrow> bool" where
  "wq_coherent q \<longleftrightarrow>
     (\<forall>n. wq_pending_len q = Some n \<longrightarrow> n = length (wq_pending q)) \<and>
     (\<forall>b. wq_is_empty q = Some b \<longrightarrow> b = (wq_pending q = [])) \<and>
     (\<forall>n. wq_in_flight_len q = Some n \<longrightarrow> n = length (wq_in_flight q)) \<and>
     (\<forall>n. wq_dead_letter_len q = Some n \<longrightarrow> n = length (wq_dead_letters q))"

definition same_readers :: "'a work_queue \<Rightarrow> 'a work_queue \<Rightarrow> bool" where
  "same_readers a b \<longleftrightarrow> wq_pending_len a = wq_pending_len b \<and> wq_is_empty a = wq_is_empty b \<and>
     wq_in_flight_len a = wq_in_flight_len b \<and> wq_dead_letter_len a = wq_dead_letter_len b"

lemma invalidate_frame [simp]:
  "wq_pending (wq_invalidate q c) = wq_pending q"
  "wq_in_flight (wq_invalidate q c) = wq_in_flight q"
  "wq_dead_letters (wq_invalidate q c) = wq_dead_letters q"
  "wq_next_item_id (wq_invalidate q c) = wq_next_item_id q"
  "wq_next_delivery_id (wq_invalidate q c) = wq_next_delivery_id q"
  "wq_max_deliveries (wq_invalidate q c) = wq_max_deliveries q"
  "wq_visibility_timeout (wq_invalidate q c) = wq_visibility_timeout q"
  by (simp_all add: wq_invalidate_def wq_counts_def split_beta Let_def)

lemma invalidate_readers:
  "wq_pending_len (wq_invalidate q (p, f, d)) =
     (if p \<noteq> length (wq_pending q) then None else wq_pending_len q)"
  "wq_is_empty (wq_invalidate q (p, f, d)) =
     (if (p = 0) \<noteq> (wq_pending q = []) then None else wq_is_empty q)"
  "wq_in_flight_len (wq_invalidate q (p, f, d)) =
     (if f \<noteq> length (wq_in_flight q) then None else wq_in_flight_len q)"
  "wq_dead_letter_len (wq_invalidate q (p, f, d)) =
     (if d \<noteq> length (wq_dead_letters q) then None else wq_dead_letter_len q)"
  by (simp_all add: wq_invalidate_def wq_counts_def Let_def)

lemma invalidate_coherent:
  assumes "wq_coherent q" and "same_readers q' q"
  shows "wq_coherent (wq_invalidate q' (wq_counts q))"
  using assms unfolding wq_coherent_def same_readers_def wq_counts_def
  by (auto simp: invalidate_readers split: if_splits)

lemma fail_readers [simp]: "same_readers (wq_fail q d r) q' = same_readers q q'"
  by (simp add: wq_fail_def same_readers_def)

lemma reap_one_readers: "same_readers q q' \<Longrightarrow> same_readers (wq_reap_one q did) q'"
  by (auto simp: wq_reap_one_def same_readers_def wq_fail_def split: option.splits)

lemma reap_readers: "same_readers q q' \<Longrightarrow> same_readers (foldl wq_reap_one q ids) q'"
  by (induction ids arbitrary: q) (auto simp: reap_one_readers)

section \<open>Items\<close>

definition item_ok :: "int \<Rightarrow> 'a list \<Rightarrow> 'a wq_item \<Rightarrow> bool" where
  "item_ok m vs i \<longleftrightarrow> it_id i < length vs \<and> it_value i = vs ! it_id i \<and>
     0 \<le> it_attempts i \<and> it_attempts i < m"

definition delivery_ok :: "int \<Rightarrow> 'a list \<Rightarrow> 'a wq_delivery \<Rightarrow> bool" where
  "delivery_ok m vs d \<longleftrightarrow> dv_item_id d < length vs \<and> dv_value d = vs ! dv_item_id d \<and>
     1 \<le> dv_attempt d \<and> dv_attempt d \<le> m"

definition dead_ok :: "int \<Rightarrow> 'a list \<Rightarrow> 'a wq_dead \<Rightarrow> bool" where
  "dead_ok m vs d \<longleftrightarrow> dl_item_id d < length vs \<and> dl_item d = vs ! dl_item_id d \<and> dl_attempts d = m"

definition wq_places :: "'a work_queue \<Rightarrow> nat multiset" where
  "wq_places q = mset (map it_id (wq_pending q)) +
     mset (map (\<lambda>(k, d). dv_item_id d) (wq_in_flight q)) + mset (map dl_item_id (wq_dead_letters q))"

definition wq_ok :: "'a work_queue \<Rightarrow> 'a list \<Rightarrow> bool" where
  "wq_ok q vs \<longleftrightarrow> wq_next_item_id q = length vs \<and>
     list_all (item_ok (wq_max_deliveries q) vs) (wq_pending q) \<and>
     distinct (map fst (wq_in_flight q)) \<and>
     (\<forall>(k, d)\<in>set (wq_in_flight q). dv_delivery_id d = k \<and> k < wq_next_delivery_id q \<and>
        delivery_ok (wq_max_deliveries q) vs d) \<and>
     list_all (dead_ok (wq_max_deliveries q) vs) (wq_dead_letters q) \<and>
     1 \<le> wq_max_deliveries q"

definition wq_inv :: "'a wq_run \<Rightarrow> bool" where
  "wq_inv r \<longleftrightarrow> wq_ok (wr_queue r) (wr_values r) \<and> wq_coherent (wr_queue r) \<and>
     wq_places (wr_queue r) + mset (wr_acked r) = mset [0..<length (wr_values r)]"

lemma wq_ok_invalidate [simp]: "wq_ok (wq_invalidate q c) vs = wq_ok q vs"
  by (simp add: wq_ok_def)

lemma wq_places_invalidate [simp]: "wq_places (wq_invalidate q c) = wq_places q"
  by (simp add: wq_places_def)

lemma delete_places:
  assumes "distinct (map fst xs)" and "map_of xs k = Some d"
  shows "mset (map (\<lambda>(k, d). g d) xs) = add_mset (g d) (mset (map (\<lambda>(k, d). g d) (AList.delete k xs)))"
  using assms
proof (induction xs)
  case (Cons x xs)
  show ?case
  proof (cases "fst x = k")
    case True
    with Cons.prems have "AList.delete k xs = xs" by (intro delete_id) (auto simp: image_iff)
    with True Cons.prems show ?thesis by (cases x) auto
  next
    case False
    with Cons show ?thesis by (cases x) auto
  qed
qed simp

lemma item_ok_snoc: "item_ok m vs i \<Longrightarrow> item_ok m (vs @ [v]) i"
  by (auto simp: item_ok_def nth_append)

lemma delivery_ok_snoc: "delivery_ok m vs i \<Longrightarrow> delivery_ok m (vs @ [v]) i"
  by (auto simp: delivery_ok_def nth_append)

lemma dead_ok_snoc: "dead_ok m vs i \<Longrightarrow> dead_ok m (vs @ [v]) i"
  by (auto simp: dead_ok_def nth_append)

section \<open>Preservation\<close>

lemma push_inv:
  assumes "wq_inv r"
  shows "wq_inv (wq_step r (WPush v))"
proof -
  let ?q = "wr_queue r" and ?vs = "wr_values r"
  have "wq_ok (fst (wq_push ?q v)) (?vs @ [v])"
    using assms by (auto simp: wq_inv_def wq_ok_def wq_push_def Let_def item_ok_def [of _ _ "\<lparr>it_id = _, it_value = _, it_attempts = _\<rparr>"]
        list_all_iff item_ok_snoc delivery_ok_snoc dead_ok_snoc)
  moreover have "wq_coherent (fst (wq_push ?q v))"
    using assms by (auto simp: wq_inv_def wq_push_def Let_def same_readers_def intro!: invalidate_coherent)
  moreover have "wq_places (fst (wq_push ?q v)) = add_mset (length ?vs) (wq_places ?q)"
    using assms by (simp add: wq_inv_def wq_ok_def wq_push_def Let_def wq_places_def)
  ultimately show ?thesis using assms by (simp add: wq_inv_def)
qed

lemma fail_ok:
  assumes "wq_ok q vs" and "delivery_ok (wq_max_deliveries q) vs d"
  shows "wq_ok (wq_fail q d reason) vs" and "wq_places (wq_fail q d reason) = add_mset (dv_item_id d) (wq_places q)"
  using assms by (auto simp: wq_fail_def wq_ok_def wq_places_def item_ok_def delivery_ok_def dead_ok_def)

lemma remove_ok:
  assumes "wq_ok q vs" and "map_of (wq_in_flight q) did = Some d"
  shows "wq_ok (q\<lparr>wq_in_flight := AList.delete did (wq_in_flight q)\<rparr>) vs"
    and "delivery_ok (wq_max_deliveries q) vs d"
    and "wq_places q = add_mset (dv_item_id d) (wq_places (q\<lparr>wq_in_flight := AList.delete did (wq_in_flight q)\<rparr>))"
proof -
  show "wq_ok (q\<lparr>wq_in_flight := AList.delete did (wq_in_flight q)\<rparr>) vs"
    using assms set_delete_subset [of did "wq_in_flight q"] by (fastforce simp: wq_ok_def distinct_delete)
  show "delivery_ok (wq_max_deliveries q) vs d"
    using assms by (auto simp: wq_ok_def dest: map_of_SomeD)
  show "wq_places q = add_mset (dv_item_id d) (wq_places (q\<lparr>wq_in_flight := AList.delete did (wq_in_flight q)\<rparr>))"
    using assms delete_places [of "wq_in_flight q" did d dv_item_id] by (simp add: wq_places_def wq_ok_def)
qed

lemma claim_inv:
  assumes "wq_inv r"
  shows "wq_inv (wq_step r (WClaim w now))"
proof (cases "now < 0 \<or> wq_pending (wr_queue r) = []")
  case False
  then obtain i rest where p: "wq_pending (wr_queue r) = i # rest" by (cases "wq_pending (wr_queue r)") auto
  let ?q = "wr_queue r"
  have "wq_next_delivery_id ?q \<notin> fst ` set (wq_in_flight ?q)"
    using assms by (fastforce simp: wq_inv_def wq_ok_def)
  note upd = update_fresh [OF this]
  show ?thesis using assms False p
    by (auto simp: wq_inv_def wq_claim_def Let_def upd wq_ok_def wq_places_def item_ok_def
        delivery_ok_def same_readers_def intro!: invalidate_coherent)
qed (use assms in \<open>auto simp: wq_claim_def split: list.splits\<close>)

lemma ack_inv:
  assumes "wq_inv r"
  shows "wq_inv (wq_step r (WAck w did))"
proof (cases "map_of (wq_in_flight (wr_queue r)) did")
  case (Some d)
  have ok: "wq_ok (wr_queue r) (wr_values r)" using assms by (simp add: wq_inv_def)
  have "wq_coherent (wq_invalidate ((wr_queue r)\<lparr>wq_in_flight :=
      AList.delete did (wq_in_flight (wr_queue r))\<rparr>) (wq_counts (wr_queue r)))"
    using assms by (intro invalidate_coherent) (auto simp: wq_inv_def same_readers_def)
  with remove_ok [OF ok Some] Some assms show ?thesis
    by (auto simp: wq_inv_def wq_ack_def)
qed (use assms in \<open>auto simp: wq_ack_def\<close>)

lemma nack_inv:
  assumes "wq_inv r"
  shows "wq_inv (wq_step r (WNack w did))"
proof (cases "map_of (wq_in_flight (wr_queue r)) did")
  case (Some d)
  let ?q = "(wr_queue r)\<lparr>wq_in_flight := AList.delete did (wq_in_flight (wr_queue r))\<rparr>"
  have ok: "wq_ok (wr_queue r) (wr_values r)" using assms by (simp add: wq_inv_def)
  note rm = remove_ok [OF ok Some]
  have "same_readers (wq_fail ?q d NACK) (wr_queue r)"
    by (simp only: fail_readers) (simp add: same_readers_def)
  then have "wq_coherent (wq_invalidate (wq_fail ?q d NACK) (wq_counts (wr_queue r)))"
    using assms by (intro invalidate_coherent) (auto simp: wq_inv_def)
  with fail_ok [of ?q "wr_values r" d NACK] rm Some assms show ?thesis
    by (auto simp: wq_inv_def wq_nack_def)
qed (use assms in \<open>auto simp: wq_nack_def\<close>)

lemma reap_one_ok:
  assumes "wq_ok q vs"
  shows "wq_ok (wq_reap_one q did) vs \<and> wq_places (wq_reap_one q did) = wq_places q"
proof (cases "map_of (wq_in_flight q) did")
  case (Some d)
  note rm = remove_ok [OF assms Some]
  with fail_ok [of "q\<lparr>wq_in_flight := AList.delete did (wq_in_flight q)\<rparr>" vs d EXPIRED] Some
  show ?thesis by (simp add: wq_reap_one_def)
qed (use assms in \<open>simp add: wq_reap_one_def\<close>)

lemma reap_all_ok:
  "wq_ok q vs \<Longrightarrow> wq_ok (foldl wq_reap_one q ids) vs \<and> wq_places (foldl wq_reap_one q ids) = wq_places q"
  by (induction ids arbitrary: q) (auto simp: reap_one_ok)

lemma reap_inv:
  assumes "wq_inv r"
  shows "wq_inv (wq_step r (WReap now))"
proof -
  have "wq_coherent (wq_invalidate (foldl wq_reap_one (wr_queue r) ids) (wq_counts (wr_queue r)))" for ids
    using assms by (intro invalidate_coherent reap_readers) (auto simp: wq_inv_def same_readers_def)
  with assms reap_all_ok [of "wr_queue r" "wr_values r"] show ?thesis
    by (auto simp: wq_inv_def wq_reap_expired_def Let_def)
qed

lemma read_frame:
  "wq_ok (q\<lparr>wq_pending_len := a\<rparr>) vs = wq_ok q vs" "wq_ok (q\<lparr>wq_is_empty := b\<rparr>) vs = wq_ok q vs"
  "wq_ok (q\<lparr>wq_in_flight_len := a\<rparr>) vs = wq_ok q vs" "wq_ok (q\<lparr>wq_dead_letter_len := a\<rparr>) vs = wq_ok q vs"
  "wq_places (q\<lparr>wq_pending_len := a\<rparr>) = wq_places q" "wq_places (q\<lparr>wq_is_empty := b\<rparr>) = wq_places q"
  "wq_places (q\<lparr>wq_in_flight_len := a\<rparr>) = wq_places q" "wq_places (q\<lparr>wq_dead_letter_len := a\<rparr>) = wq_places q"
  by (simp_all add: wq_ok_def wq_places_def)

lemma read_inv:
  assumes "wq_inv r" and "x \<in> {WReadPendingLen, WReadIsEmpty, WReadInFlightLen, WReadDeadLetterLen}"
  shows "wq_inv (wq_step r x)"
  using assms
  by (auto simp: wq_inv_def read_frame wq_coherent_def wq_read_pending_len_def wq_read_is_empty_def
      wq_read_in_flight_len_def wq_read_dead_letter_len_def Let_def split: option.splits)

lemma wq_step_inv: "wq_inv r \<Longrightarrow> wq_inv (wq_step r x)"
  by (cases x) (blast intro: push_inv claim_inv ack_inv nack_inv reap_inv read_inv)+

lemma wq_reachable_inv: "wq_reachable timeout maxd r \<Longrightarrow> wq_inv r"
proof (induction rule: wq_reachable.induct)
  case (start q)
  then show ?case
    by (auto simp: wq_new_def wq_inv_def wq_ok_def wq_coherent_def wq_places_def split: if_splits)
next
  case (step r x)
  then show ?case by (blast intro: wq_step_inv)
qed

end
