(* ===== verification/QueueTheorems.thy ===== *)
theory QueueTheorems
  imports QueueSpec Topic WorkQueue
begin

text \<open>
  The properties of the queue family: the queue cell, the topic and the work queue.
\<close>

text \<open>C36: the queue cell with its memo readers over the reference backend answers every sequence of
  operations as the plain FIFO queue does: no reader is stale, no error is wrong, and a bounded
  queue refuses exactly when it is full.\<close>

theorem queue_refines_fifo:
  assumes "vd_new cap = Inr s"
  shows "qc_run vd_ops (qc_with_storage vd_ops s) xs = aq_run True cap \<lparr>aq_items = [], aq_closed = False\<rparr> xs"
proof -
  have s: "vd_elements s = []" "vd_capacity s = cap" "vd_closed s = False"
    using assms by (auto simp: vd_new_def split: option.splits if_splits)
  have "has_peek vd_ops" by (simp add: vd_ops_def)
  then show ?thesis
    using vec_deque.run_sim [OF vec_deque.fresh_sim, of s xs] by (simp add: s) (simp add: vd_ops_def s)
qed

theorem queue_refines_fifo_witness:
  "qc_run vd_ops (qc_with_storage vd_ops \<lparr>vd_elements = [], vd_capacity = Some 1, vd_closed = False\<rparr>)
     [OpIsFull, OpPush (7::int), OpIsFull, OpPush 8, OpPop, OpHead, OpClose, OpPop] =
   [RBool False, RPush None, RBool True, RPush (Some PushFull), RPop (Inr 7), RHead None, RDone, RPop (Inl PopClosed)]"
proof -
  have "vd_new (Some 1) = Inr \<lparr>vd_elements = [], vd_capacity = Some 1, vd_closed = False\<rparr>"
    by (simp add: vd_new_def)
  from queue_refines_fifo [OF this, of "[OpIsFull, OpPush (7::int), OpIsFull, OpPush 8, OpPop, OpHead, OpClose, OpPop]"]
  show ?thesis by (simp add: at_capacity_def)
qed

text \<open>A connected subscriber whose cursor is still in the log reads exactly what was published
  from its cursor on, and advancing by one hands over the oldest unread value and moves the
  cursor past it: a durable subscriber misses nothing and sees nothing twice.\<close>

theorem topic_reads_history:
  assumes "topic_reachable (t, h)" and "subscription_of t sid = Some sub" and "sb_connected sub"
    and "tp_base_offset t \<le> sb_cursor sub" and "sb_cursor sub < int (length h)"
  shows "snd (topic_read_stream t sid) = drop (nat (sb_cursor sub)) h \<and>
    (\<exists>t'. topic_advance t sid 1 = Inr (t', Some (h ! nat (sb_cursor sub))) \<and>
       subscription_of t' sid = Some (sub\<lparr>sb_cursor := sb_cursor sub + 1\<rparr>))"
proof -
  have inv: "topic_inv t h" using reachable_inv [OF assms(1)] by simp
  show ?thesis
    using read_history [OF inv assms(2-4)] advance_history [OF inv assms(2-5)] by auto
qed

definition demo_topic :: "(nat, int) topic \<times> int list" where
  "demo_topic = topic_step (topic_step (topic_step (topic_empty, []) (TSubscribe 7 Durable)) (TPublish 1)) (TPublish 2)"


lemma demo_topic_sub:
  "subscription_of (fst demo_topic) 7 = Some \<lparr>sb_cursor = 0, sb_durability = Durable, sb_connected = True\<rparr>"
  "tp_base_offset (fst demo_topic) = 0" "snd demo_topic = [1, 2]"
  by (simp_all add: demo_topic_def topic_subscribe_def topic_empty_def subscription_of_def keep_def tail_offset_def
      reset_readers_def ensure_reader_def put_sub_def topic_publish_def Let_def)

lemma demo_topic_reachable: "topic_reachable (fst demo_topic, [1, 2])"
proof -
  have "topic_reachable demo_topic" unfolding demo_topic_def by (intro topic_reachable.intros)
  then show ?thesis by (simp flip: demo_topic_sub(3))
qed

theorem topic_reads_history_witness: "snd (topic_read_stream (fst demo_topic) 7) = [1, 2]"
  using topic_reads_history [OF demo_topic_reachable demo_topic_sub(1)] demo_topic_sub(2) by simp

text \<open>C37: garbage collection never fails, removes what lies below the slowest durable cursor, and
  changes nothing a durable subscriber has yet to read.\<close>

theorem topic_gc_safe:
  assumes "topic_reachable (t, h)"
  shows "\<exists>t' n. topic_gc t = Inr (t', n) \<and> 0 \<le> n \<and> tp_base_offset t' = gc_frontier t \<and>
    (\<forall>sid sub. subscription_of t sid = Some sub \<and> sb_durability sub = Durable \<longrightarrow>
       subscription_of t' sid = Some sub \<and> topic_read_untracked t' sid = topic_read_untracked t sid)"
proof -
  have inv: "topic_inv t h" using reachable_inv [OF assms] by simp
  obtain t' where gc: "topic_gc t = Inr (t', gc_frontier t - tp_base_offset t)" and inv': "topic_inv t' h"
    and base: "tp_base_offset t' = gc_frontier t" and subs: "subscription_of t' = subscription_of t"
    using gc_inv [OF inv] by blast
  have "topic_read_untracked t' sid = topic_read_untracked t sid"
    if s: "subscription_of t sid = Some sub" "sb_durability sub = Durable" for sid sub
  proof -
    have low: "tp_base_offset t \<le> sb_cursor sub" by (rule sub_bounds(3) [OF inv s])
    have low': "tp_base_offset t' \<le> sb_cursor sub" using sub_bounds(3) [OF inv'] s subs by simp
    have log: "tp_elements t = drop (nat (tp_base_offset t)) h" "tp_elements t' = drop (nat (tp_base_offset t')) h"
      and nn: "0 \<le> tp_base_offset t" "0 \<le> tp_base_offset t'"
      using inv inv' by (simp_all add: topic_inv_def log_ok_def)
    show ?thesis using s slice_drop [OF nn(1) low, of h] slice_drop [OF nn(2) low', of h]
      by (simp add: read_of_sub subs log)
  qed
  then show ?thesis using gc base subs gc_frontier_bounds [OF inv] by auto
qed

theorem topic_gc_safe_witness:
  "\<exists>t' n. topic_gc (fst demo_topic) = Inr (t', n) \<and> 0 \<le> n \<and>
     topic_read_untracked t' 7 = topic_read_untracked (fst demo_topic) 7"
  using topic_gc_safe [OF demo_topic_reachable] demo_topic_sub(1) by (metis subscription.select_convs(2))

text \<open>C38: in every reachable state of the work queue each pushed item is in exactly one place
  (pending, in flight, dead-lettered or acknowledged), with the value it was pushed with and at
  most the configured number of deliveries, and the cached readers agree with the queue.\<close>

theorem work_queue_conserves:
  assumes "wq_reachable timeout maxd r"
  shows "wq_places (wr_queue r) + mset (wr_acked r) = mset [0..<length (wr_values r)] \<and>
    wq_ok (wr_queue r) (wr_values r) \<and> wq_coherent (wr_queue r)"
  using wq_reachable_inv [OF assms] by (simp add: wq_inv_def)

definition demo_queue :: "int wq_run" where
  "demo_queue = foldl wq_step
     \<lparr>wr_queue = \<lparr>wq_visibility_timeout = 10, wq_max_deliveries = 1, wq_pending = [],
        wq_in_flight = [], wq_dead_letters = [], wq_next_item_id = 0, wq_next_delivery_id = 0,
        wq_pending_len = None, wq_is_empty = None, wq_in_flight_len = None, wq_dead_letter_len = None\<rparr>,
      wr_values = [], wr_acked = []\<rparr>
     [WPush 5, WPush 6, WClaim ''w'' 0, WNack ''w'' 0, WClaim ''w'' 1, WAck ''w'' 1]"

theorem work_queue_conserves_witness:
  "wq_places (wr_queue demo_queue) + mset (wr_acked demo_queue) = mset [0..<length (wr_values demo_queue)]"
proof -
  have run: "wq_reachable t m r \<Longrightarrow> wq_reachable t m (foldl wq_step r xs)" for t m and r :: "int wq_run" and xs
    by (induction xs arbitrary: r) (simp_all add: wq_reachable.step)
  have "wq_reachable 10 1 demo_queue" unfolding demo_queue_def
    by (intro run wq_reachable.start) (simp add: wq_new_def)
  from work_queue_conserves [OF this] show ?thesis by blast
qed

section \<open>Snapshots of a topic\<close>

lemma restore_subs_run:
  assumes "list_all (\<lambda>(sid, s). tp_base_offset t \<le> sb_cursor s \<and> sb_cursor s \<le> tail_offset t \<and>
      (sb_durability s = Ephemeral \<longrightarrow> sb_connected s)) subs"
  shows "\<exists>t'. restore_subs t subs = Inr t' \<and> tp_base_offset t' = tp_base_offset t \<and> tp_elements t' = tp_elements t \<and>
    subscription_of t' = subscription_of t ++ map_of (rev subs)"
  using assms
proof (induction subs arbitrary: t)
  case (Cons x subs)
  obtain sid s where x: "x = (sid, s)" by fastforce
  let ?t = "ensure_reader (put_sub t sid s) sid"
  have "\<exists>t'. restore_subs ?t subs = Inr t' \<and> tp_base_offset t' = tp_base_offset ?t \<and>
      tp_elements t' = tp_elements ?t \<and> subscription_of t' = subscription_of ?t ++ map_of (rev subs)"
    by (rule Cons.IH) (use Cons.prems in simp)
  then show ?case using Cons.prems by (simp add: x)
qed simp

lemma map_of_sorted:
  assumes "distinct (map fst xs)"
  shows "map_of (rev (sort_key f xs)) = map_of xs"
proof -
  have "distinct (map fst (sort_key f xs))"
    using assms by (metis distinct_map distinct_sort set_sort)
  then have "map_of (rev (sort_key f xs)) k = Some v \<longleftrightarrow> map_of xs k = Some v" for k v
    using assms by (simp add: map_of_eq_Some_iff rev_map [symmetric])
  then show ?thesis by (metis not_Some_eq ext)
qed

text \<open>Restoring the snapshot of a topic gives back its log, its base offset and every
  subscription with its cursor, provided no ephemeral subscriber lags behind the log.\<close>

theorem topic_snapshot_roundtrip:
  assumes "topic_reachable (t, h)" and "\<And>sid. \<not> lagging t sid"
  shows "\<exists>t'. topic_restore (topic_snapshot_of t) = Inr t' \<and> tp_base_offset t' = tp_base_offset t \<and>
    tp_elements t' = tp_elements t \<and> subscription_of t' = subscription_of t"
proof -
  have inv: "topic_inv t h" using reachable_inv [OF assms(1)] by simp
  have base: "0 \<le> tp_base_offset t" using inv by (simp add: topic_inv_def log_ok_def)
  have dist: "distinct (map fst (tp_subscriptions t))" using inv by (simp add: topic_inv_def subs_ok_def)
  let ?t0 = "\<lparr>tp_base_offset = tp_base_offset t, tp_elements = tp_elements t, tp_subscriptions = [], tp_readers = []\<rparr>"
  have tail: "tail_offset ?t0 = tail_offset t" by (simp add: tail_offset_def)
  have "list_all (\<lambda>(sid, s). tp_base_offset ?t0 \<le> sb_cursor s \<and> sb_cursor s \<le> tail_offset ?t0 \<and>
      (sb_durability s = Ephemeral \<longrightarrow> sb_connected s)) (sort_key fst (tp_subscriptions t))"
  proof -
    have "tp_base_offset t \<le> sb_cursor s \<and> sb_cursor s \<le> tail_offset t \<and> (sb_durability s = Ephemeral \<longrightarrow> sb_connected s)"
      if "(sid, s) \<in> set (tp_subscriptions t)" for sid s
    proof -
      have sub: "subscription_of t sid = Some s" using that dist by (simp add: subscription_of_def)
      have "tp_base_offset t \<le> sb_cursor s" using assms(2) [of sid] sub by (simp add: lagging_def)
      then show ?thesis using sub_bounds [OF inv sub] by simp
    qed
    then show ?thesis unfolding list_all_iff tail by auto
  qed
  moreover have "subscription_of ?t0 ++ map_of (tp_subscriptions t) = subscription_of t"
    by (simp add: fun_eq_iff subscription_of_def map_add_def split: option.split)
  ultimately show ?thesis
    using restore_subs_run [of ?t0 "sort_key fst (tp_subscriptions t)"] base dist
    by (simp add: topic_restore_def topic_snapshot_of_def map_of_sorted)
qed

theorem topic_snapshot_roundtrip_witness:
  "\<exists>t'. topic_restore (topic_snapshot_of (fst demo_topic)) = Inr t' \<and>
     subscription_of t' 7 = Some \<lparr>sb_cursor = 0, sb_durability = Durable, sb_connected = True\<rparr>"
proof -
  have "\<not> lagging (fst demo_topic) sid" for sid
    by (simp add: lagging_def demo_topic_def topic_subscribe_def topic_empty_def subscription_of_def keep_def tail_offset_def
        reset_readers_def ensure_reader_def put_sub_def topic_publish_def Let_def)
  then show ?thesis
    using topic_snapshot_roundtrip [OF demo_topic_reachable] demo_topic_sub(1) by auto
qed

end
