(* ===== verification/Temporal.thy ===== *)
theory Temporal
  imports Cells
begin

text \<open>
  The temporal sources of \<^verbatim>\<open>src/lazily/temporal.py\<close>: the manual clock, the
  timer, interval, cron and deadline cores, and the cells that project a core's fire edge.
  Logical time is a Python integer.
\<close>

section \<open>Clock and cores\<close>

record manual_clock =
  mk_now :: int

definition mk_advance :: "manual_clock \<Rightarrow> int \<Rightarrow> manual_clock \<times> int" where
  "mk_advance c now = (let n = max (mk_now c) now in (c\<lparr>mk_now := n\<rparr>, n))"

record timer_core =
  tc_fire_at :: int
  tc_fired :: bool

definition timer_core_new :: "int \<Rightarrow> timer_core" where
  "timer_core_new fire_at = \<lparr>tc_fire_at = fire_at, tc_fired = False\<rparr>"

definition timer_tick :: "timer_core \<Rightarrow> int \<Rightarrow> timer_core \<times> bool" where
  "timer_tick c now =
     (if tc_fired c \<or> now < tc_fire_at c then (c, False) else (c\<lparr>tc_fired := True\<rparr>, True))"

definition timer_next_fire :: "timer_core \<Rightarrow> int option" where
  "timer_next_fire c = (if tc_fired c then None else Some (tc_fire_at c))"

record interval_core =
  ic_period :: int
  ic_next :: int
  ic_count :: int

definition interval_core_new :: "int \<Rightarrow> interval_core" where
  "interval_core_new period =
     \<lparr>ic_period = max period 1, ic_next = max period 1, ic_count = 0\<rparr>"

definition fires_this_tick :: "interval_core \<Rightarrow> int \<Rightarrow> int" where
  "fires_this_tick c now =
     (if now < ic_next c then 0 else (now - ic_next c) div ic_period c + 1)"

definition interval_tick :: "interval_core \<Rightarrow> int \<Rightarrow> interval_core \<times> bool" where
  "interval_tick c now =
     (let fires = fires_this_tick c now
      in if fires = 0 then (c, False)
         else (c\<lparr>ic_count := ic_count c + fires, ic_next := ic_next c + fires * ic_period c\<rparr>, True))"

definition interval_next_fire :: "interval_core \<Rightarrow> int option" where
  "interval_next_fire c = Some (ic_next c)"

definition count_upto :: "int \<Rightarrow> int \<Rightarrow> int \<Rightarrow> int" where
  "count_upto n off cyc =
     (if off = 0 then n div cyc else if off \<le> n then (n - off) div cyc + 1 else 0)"

record cron_core =
  cc_cycle :: int
  cc_offsets :: "int list"
  cc_cursor :: int
  cc_count :: int

definition cron_core_new :: "int \<Rightarrow> int list \<Rightarrow> cron_core" where
  "cron_core_new cyc offsets =
     (let c = max cyc 1
      in \<lparr>cc_cycle = c, cc_offsets = sort (remdups (map (\<lambda>off. off mod c) offsets)),
          cc_cursor = 0, cc_count = 0\<rparr>)"

definition matches_in :: "cron_core \<Rightarrow> int \<Rightarrow> int \<Rightarrow> int" where
  "matches_in c lo hi =
     sum_list (map (\<lambda>off. count_upto hi off (cc_cycle c) - count_upto lo off (cc_cycle c)) (cc_offsets c))"

definition cron_tick :: "cron_core \<Rightarrow> int \<Rightarrow> cron_core \<times> bool" where
  "cron_tick c now =
     (if now \<le> cc_cursor c then (c\<lparr>cc_cursor := max (cc_cursor c) now\<rparr>, False)
      else let fires = matches_in c (cc_cursor c) now; c' = c\<lparr>cc_cursor := now\<rparr>
           in if fires = 0 then (c', False) else (c'\<lparr>cc_count := cc_count c + fires\<rparr>, True))"

definition cron_next_fire :: "cron_core \<Rightarrow> int option" where
  "cron_next_fire c =
     (if cc_offsets c = [] then None
      else let start = cc_cursor c + 1; base = start div cc_cycle c * cc_cycle c
           in List.find (\<lambda>cand. cand \<ge> start)
                (concat (map (\<lambda>cyc. map (\<lambda>off. base + cyc * cc_cycle c + off) (cc_offsets c)) [0, 1])))"

datatype deadline_state = Live | Expired

type_synonym 'a deadlined = "deadline_state \<times> 'a"

record deadline_core =
  dc_deadline :: int
  dc_timer :: timer_core

definition deadline_core_new :: "int \<Rightarrow> deadline_core" where
  "deadline_core_new deadline = \<lparr>dc_deadline = deadline, dc_timer = timer_core_new deadline\<rparr>"

definition deadline_is_expired :: "deadline_core \<Rightarrow> bool" where
  "deadline_is_expired c = tc_fired (dc_timer c)"

definition deadline_tick :: "deadline_core \<Rightarrow> int \<Rightarrow> deadline_core \<times> bool" where
  "deadline_tick c now = (let (t, edge) = timer_tick (dc_timer c) now in (c\<lparr>dc_timer := t\<rparr>, edge))"

definition deadline_next_fire :: "deadline_core \<Rightarrow> int option" where
  "deadline_next_fire c = timer_next_fire (dc_timer c)"

section \<open>Cells\<close>

record timer_cell =
  tl_core :: timer_core
  tl_fired :: "bool cell"

definition timer_cell_new :: "int \<Rightarrow> timer_cell" where
  "timer_cell_new fire_at = \<lparr>tl_core = timer_core_new fire_at, tl_fired = cell_new False\<rparr>"

definition timer_cell_tick :: "timer_cell \<Rightarrow> int \<Rightarrow> timer_cell \<times> bool" where
  "timer_cell_tick t now =
     (let (core, edge) = timer_tick (tl_core t) now; t' = t\<lparr>tl_core := core\<rparr>
      in (if edge then t'\<lparr>tl_fired := cell_set (tl_fired t') True\<rparr> else t', edge))"

definition timer_cell_value :: "timer_cell \<Rightarrow> unit option" where
  "timer_cell_value t = (if c_value (tl_fired t) then Some () else None)"

record interval_cell =
  il_core :: interval_core
  il_count :: "int cell"

definition interval_cell_new :: "int \<Rightarrow> interval_cell" where
  "interval_cell_new period = \<lparr>il_core = interval_core_new period, il_count = cell_new 0\<rparr>"

definition interval_cell_tick :: "interval_cell \<Rightarrow> int \<Rightarrow> interval_cell \<times> bool" where
  "interval_cell_tick t now =
     (let (core, edge) = interval_tick (il_core t) now; t' = t\<lparr>il_core := core\<rparr>
      in (if edge then t'\<lparr>il_count := cell_set (il_count t') (ic_count core)\<rparr> else t', edge))"

record cron_cell =
  cl_core :: cron_core
  cl_count :: "int cell"

definition cron_cell_new :: "int \<Rightarrow> int list \<Rightarrow> cron_cell" where
  "cron_cell_new cyc offsets = \<lparr>cl_core = cron_core_new cyc offsets, cl_count = cell_new 0\<rparr>"

definition cron_cell_tick :: "cron_cell \<Rightarrow> int \<Rightarrow> cron_cell \<times> bool" where
  "cron_cell_tick t now =
     (let (core, edge) = cron_tick (cl_core t) now; t' = t\<lparr>cl_core := core\<rparr>
      in (if edge then t'\<lparr>cl_count := cell_set (cl_count t') (cc_count core)\<rparr> else t', edge))"

record 'a deadline_cell =
  dl_core :: deadline_core
  dl_value :: 'a
  dl_expired :: "bool cell"

definition deadline_cell_new :: "'a \<Rightarrow> int \<Rightarrow> 'a deadline_cell" where
  "deadline_cell_new v deadline =
     \<lparr>dl_core = deadline_core_new deadline, dl_value = v, dl_expired = cell_new False\<rparr>"

definition deadline_cell_tick :: "'a deadline_cell \<Rightarrow> int \<Rightarrow> 'a deadline_cell \<times> bool" where
  "deadline_cell_tick t now =
     (let (core, edge) = deadline_tick (dl_core t) now; t' = t\<lparr>dl_core := core\<rparr>
      in (if edge then t'\<lparr>dl_expired := cell_set (dl_expired t') True\<rparr> else t', edge))"

definition deadline_cell_state :: "'a deadline_cell \<Rightarrow> 'a deadlined" where
  "deadline_cell_state t = (if c_value (dl_expired t) then (Expired, dl_value t) else (Live, dl_value t))"

chapter \<open>Properties\<close>

text \<open>
  The contract of a temporal source as the locale \<open>timeline_source\<close> (a tick fires exactly
  when the announced next fire is due), its four interpretations, and the shell that
  projects a core's edge onto a cell.
\<close>

section \<open>The contract\<close>

definition due :: "int option \<Rightarrow> int \<Rightarrow> bool" where
  "due nf now \<longleftrightarrow> (case nf of None \<Rightarrow> False | Some f \<Rightarrow> f \<le> now)"

fun edges :: "('c \<Rightarrow> int \<Rightarrow> 'c \<times> bool) \<Rightarrow> 'c \<Rightarrow> int list \<Rightarrow> int list" where
  "edges tk c [] = []"
| "edges tk c (n # ns) = (let (c', e) = tk c n in if e then n # edges tk c' ns else edges tk c' ns)"

fun ticks :: "('c \<Rightarrow> int \<Rightarrow> 'c \<times> bool) \<Rightarrow> 'c \<Rightarrow> int list \<Rightarrow> 'c" where
  "ticks tk c [] = c"
| "ticks tk c (n # ns) = ticks tk (fst (tk c n)) ns"

definition shell_tick ::
  "('c \<Rightarrow> int \<Rightarrow> 'c \<times> bool) \<Rightarrow> ('c \<Rightarrow> 'v) \<Rightarrow> 'c \<times> 'v cell \<Rightarrow> int \<Rightarrow> 'c \<times> 'v cell" where
  "shell_tick tk view s now =
     (let (c', e) = tk (fst s) now in (c', if e then cell_set (snd s) (view c') else snd s))"

definition shell_run ::
  "('c \<Rightarrow> int \<Rightarrow> 'c \<times> bool) \<Rightarrow> ('c \<Rightarrow> 'v) \<Rightarrow> 'c \<times> 'v cell \<Rightarrow> int list \<Rightarrow> 'c \<times> 'v cell" where
  "shell_run tk view s ns = foldl (shell_tick tk view) s ns"

locale timeline_source =
  fixes tk :: "'c \<Rightarrow> int \<Rightarrow> 'c \<times> bool"
    and nf :: "'c \<Rightarrow> int option"
    and inv :: "'c \<Rightarrow> bool"
  assumes edge: "inv c \<Longrightarrow> snd (tk c now) \<longleftrightarrow> due (nf c) now"
    and quiet: "inv c \<Longrightarrow> \<not> due (nf c) now \<Longrightarrow> nf (fst (tk c now)) = nf c"
    and rearm: "inv c \<Longrightarrow> due (nf c) now \<Longrightarrow> \<not> due (nf (fst (tk c now))) now"
    and keep: "inv c \<Longrightarrow> inv (fst (tk c now))"
begin

text \<open>Sleeping until the announced fire loses nothing: an early tick is unobservable.\<close>

lemma early_tick:
  "inv c \<Longrightarrow> \<not> due (nf c) a \<Longrightarrow> \<not> snd (tk c a) \<and> snd (tk (fst (tk c a)) b) = snd (tk c b)"
  by (simp add: edge quiet keep)

lemma no_double_fire:
  assumes "inv c" and "snd (tk c a)" and "b \<le> a"
  shows "\<not> snd (tk (fst (tk c a)) b)"
proof -
  have "\<not> due (nf (fst (tk c a))) a" using assms by (simp add: edge rearm)
  then have "\<not> due (nf (fst (tk c a))) b" using assms(3) by (auto simp: due_def split: option.splits)
  then show ?thesis using assms(1) by (simp add: edge keep)
qed

lemma edges_after:
  "inv c \<Longrightarrow> \<not> due (nf c) a \<Longrightarrow> n \<in> set (edges tk c ns) \<Longrightarrow> a < n"
proof (induction ns arbitrary: c a)
  case (Cons m ns)
  show ?case
  proof (cases "due (nf c) m")
    case True
    then have "a < m" using Cons.prems(2) by (auto simp: due_def split: option.splits)
    moreover have "n = m \<or> m < n"
      using Cons.prems Cons.IH [of "fst (tk c m)" m] True
      by (auto simp: split_beta Let_def edge keep rearm)
    ultimately show ?thesis by auto
  next
    case False
    with Cons.prems Cons.IH [of "fst (tk c m)" a] show ?thesis
      by (simp add: split_beta Let_def edge keep quiet)
  qed
qed simp

text \<open>Fire edges happen at strictly increasing times, however the source is ticked.\<close>

lemma edges_increasing: "inv c \<Longrightarrow> sorted_wrt (<) (edges tk c ns)"
proof (induction ns arbitrary: c)
  case (Cons n ns)
  then show ?case using edges_after [of "fst (tk c n)" n]
    by (auto simp: split_beta Let_def edge keep rearm)
qed simp

lemma ticks_inv: "inv c \<Longrightarrow> inv (ticks tk c ns)"
  by (induction ns arbitrary: c) (auto simp: keep)

end

locale projected_source = timeline_source tk nf inv
  for tk :: "'c \<Rightarrow> int \<Rightarrow> 'c \<times> bool" and nf :: "'c \<Rightarrow> int option" and inv :: "'c \<Rightarrow> bool" +
  fixes view :: "'c \<Rightarrow> 'v"
  assumes view_edge: "inv c \<Longrightarrow> view (fst (tk c now)) \<noteq> view c \<longleftrightarrow> snd (tk c now)"
begin

text \<open>The cell shows the core and notifies exactly once per edge.\<close>

lemma shell_step:
  assumes "inv (fst s)" and "live (snd s)" and "c_value (snd s) = view (fst s)"
  shows "fst (shell_tick tk view s n) = fst (tk (fst s) n) \<and> live (snd (shell_tick tk view s n)) \<and>
     c_value (snd (shell_tick tk view s n)) = view (fst (tk (fst s) n)) \<and>
     c_notified (snd (shell_tick tk view s n)) =
       c_notified (snd s) + (if snd (tk (fst s) n) then 1 else 0)"
  using assms view_edge [OF assms(1), of n]
  by (auto simp: shell_tick_def split_beta Let_def cell_set_notified)

lemma shell_projects:
  "inv (fst s) \<Longrightarrow> live (snd s) \<Longrightarrow> c_value (snd s) = view (fst s) \<Longrightarrow>
     fst (shell_run tk view s ns) = ticks tk (fst s) ns \<and>
     c_value (snd (shell_run tk view s ns)) = view (ticks tk (fst s) ns) \<and>
     c_notified (snd (shell_run tk view s ns)) = c_notified (snd s) + length (edges tk (fst s) ns)"
proof (induction ns arbitrary: s)
  case (Cons n ns)
  note step = shell_step [OF Cons.prems, of n]
  with Cons.IH [of "shell_tick tk view s n"] keep [OF Cons.prems(1)]
  show ?case by (simp add: shell_run_def split_beta Let_def)
qed (simp add: shell_run_def)

end

section \<open>Timer, deadline and interval\<close>

interpretation timer: projected_source timer_tick timer_next_fire "\<lambda>_. True" tc_fired
  by unfold_locales (auto simp: timer_tick_def timer_next_fire_def due_def split: if_splits option.splits)

interpretation deadline: projected_source deadline_tick deadline_next_fire "\<lambda>_. True" deadline_is_expired
  by unfold_locales
     (auto simp: deadline_tick_def deadline_next_fire_def deadline_is_expired_def timer_tick_def
       timer_next_fire_def due_def split: if_splits option.splits)

definition interval_inv :: "interval_core \<Rightarrow> bool" where
  "interval_inv c \<longleftrightarrow> 1 \<le> ic_period c \<and> 0 \<le> ic_count c \<and> ic_next c = (ic_count c + 1) * ic_period c"

lemma interval_tick_count:
  assumes "interval_inv c"
  shows "interval_inv (fst (interval_tick c now)) \<and>
     ic_count (fst (interval_tick c now)) = max (ic_count c) (now div ic_period c) \<and>
     ic_period (fst (interval_tick c now)) = ic_period c \<and>
     (snd (interval_tick c now) \<longleftrightarrow> ic_next c \<le> now)"
proof -
  let ?p = "ic_period c"
  have p: "0 < ?p" using assms by (simp add: interval_inv_def)
  have nxt: "ic_next c = (ic_count c + 1) * ?p" using assms by (simp add: interval_inv_def)
  have le: "ic_next c \<le> now \<longleftrightarrow> ic_count c + 1 \<le> now div ?p"
    unfolding nxt by (simp add: le_div_mult [OF p])
  show ?thesis
  proof (cases "ic_next c \<le> now")
    case True
    have "(now - ic_next c) div ?p = now div ?p - (ic_count c + 1)"
    proof -
      have "now - ic_next c = now + (- (ic_count c + 1)) * ?p" unfolding nxt by algebra
      then have "(now - ic_next c) div ?p = - (ic_count c + 1) + now div ?p"
        using p by (simp only: div_mult_self1)
      then show ?thesis by simp
    qed
    then have fires: "fires_this_tick c now = now div ?p - ic_count c"
      using True by (simp add: fires_this_tick_def)
    show ?thesis using assms True le unfolding interval_tick_def Let_def fires
      by (auto simp: interval_inv_def algebra_simps)
  next
    case False
    then show ?thesis using assms le by (auto simp: interval_tick_def fires_this_tick_def)
  qed
qed


interpretation interval: projected_source interval_tick interval_next_fire interval_inv ic_count
proof unfold_locales
  fix c now assume inv: "interval_inv c"
  note t = interval_tick_count [OF inv, of now]
  have p: "0 < ic_period c" using inv by (simp add: interval_inv_def)
  have due_iff: "due (interval_next_fire c) now \<longleftrightarrow> ic_count c < now div ic_period c"
    using inv p le_div_mult [of "ic_period c" "ic_count c + 1" now]
    by (auto simp: due_def interval_next_fire_def interval_inv_def)
  show "snd (interval_tick c now) \<longleftrightarrow> due (interval_next_fire c) now"
    using t by (simp add: due_def interval_next_fire_def)
  show "\<not> due (interval_next_fire c) now \<Longrightarrow>
      interval_next_fire (fst (interval_tick c now)) = interval_next_fire c"
    using inv t due_iff by (simp add: interval_next_fire_def interval_inv_def)
  show "due (interval_next_fire c) now \<Longrightarrow> \<not> due (interval_next_fire (fst (interval_tick c now))) now"
    using t due_iff p le_div_mult [of "ic_period c" "now div ic_period c + 1" now]
    by (auto simp: due_def interval_next_fire_def interval_inv_def)
  show "interval_inv (fst (interval_tick c now))" using t by simp
  show "ic_count (fst (interval_tick c now)) \<noteq> ic_count c \<longleftrightarrow> snd (interval_tick c now)"
    using t due_iff by (auto simp: due_def interval_next_fire_def)
qed

lemma interval_new_inv: "interval_inv (interval_core_new p)"
  by (simp add: interval_inv_def interval_core_new_def)

lemma interval_ticks_count:
  "interval_inv c \<Longrightarrow>
   ic_count (ticks interval_tick c ns) = fold (\<lambda>n m. max m (n div ic_period c)) ns (ic_count c)"
proof (induction ns arbitrary: c)
  case (Cons n ns)
  with interval_tick_count [OF Cons.prems, of n] show ?case by (simp)
qed simp

section \<open>Cron\<close>

lemma count_upto_closed:
  assumes "0 \<le> n" and "0 \<le> off" and "off < cyc"
  shows "count_upto n off cyc = (n - off) div cyc + (if off = 0 then 0 else 1)"
proof (cases "off \<le> n")
  case False
  then have "(n - off) div cyc = -1" using assms
    by (intro int_div_pos_eq [of _ _ _ "n - off + cyc"]) auto
  then show ?thesis using False assms by (simp add: count_upto_def)
qed (use assms in \<open>simp add: count_upto_def\<close>)

lemma count_upto_step:
  assumes "0 \<le> n" and "0 \<le> off" and "off < cyc"
  shows "count_upto (n + 1) off cyc = count_upto n off cyc + (if (n + 1) mod cyc = off then 1 else 0)"
proof -
  have cyc: "0 < cyc" using assms by simp
  have hit: "(n + 1) mod cyc = off \<longleftrightarrow> (n - off + 1) mod cyc = 0"
    using assms mod_eq_dvd_iff [of "n + 1" cyc off] by (simp add: dvd_eq_mod_eq_0 algebra_simps)
  have lt: "(n - off) mod cyc < cyc" and ge: "0 \<le> (n - off) mod cyc" using cyc by simp_all
  have full: "(n - off) mod cyc + 1 \<ge> cyc \<longleftrightarrow> (n + 1) mod cyc = off"
    using div_mod_step(2) [OF cyc, of "n - off"] lt ge unfolding hit by (simp split: if_splits)
  have "count_upto (n + 1) off cyc = (n - off + 1) div cyc + (if off = 0 then 0 else 1)"
    using assms by (simp add: count_upto_closed algebra_simps)
  also have "\<dots> = count_upto n off cyc + (if (n + 1) mod cyc = off then 1 else 0)"
    using assms div_mod_step(1) [OF cyc, of "n - off"] unfolding full
    by (simp add: count_upto_closed)
  finally show ?thesis .
qed

definition cron_ok :: "cron_core \<Rightarrow> bool" where
  "cron_ok c \<longleftrightarrow> 1 \<le> cc_cycle c \<and> sorted (cc_offsets c) \<and> distinct (cc_offsets c) \<and>
     (\<forall>off\<in>set (cc_offsets c). 0 \<le> off \<and> off < cc_cycle c) \<and> 0 \<le> cc_cursor c"

definition fires_at :: "cron_core \<Rightarrow> int \<Rightarrow> bool" where
  "fires_at c t \<longleftrightarrow> t mod cc_cycle c \<in> set (cc_offsets c)"

lemma cron_new_ok: "cron_ok (cron_core_new cyc offsets)"
  by (auto simp: cron_ok_def cron_core_new_def Let_def)

lemma indicator_sum:
  "distinct xs \<Longrightarrow> (\<Sum>x\<leftarrow>xs. if y = x then (1::int) else 0) = (if y \<in> set xs then 1 else 0)"
  by (induction xs) auto

lemma matches_in_step:
  assumes "cron_ok c" and "0 \<le> hi"
  shows "matches_in c lo (hi + 1) = matches_in c lo hi + (if fires_at c (hi + 1) then 1 else 0)"
proof -
  have "matches_in c lo (hi + 1) =
      (\<Sum>off\<leftarrow>cc_offsets c. (count_upto hi off (cc_cycle c) - count_upto lo off (cc_cycle c)) +
        (if (hi + 1) mod cc_cycle c = off then 1 else 0))"
    using assms unfolding matches_in_def cron_ok_def
    by (intro arg_cong [where f = sum_list] map_cong refl) (auto simp: count_upto_step)
  also have "\<dots> = matches_in c lo hi + (if fires_at c (hi + 1) then 1 else 0)"
    using assms by (simp add: sum_list_addf indicator_sum matches_in_def fires_at_def cron_ok_def)
  finally show ?thesis .
qed

text \<open>The arithmetic count is the number of matching ticks of the window.\<close>

lemma matches_in_counts:
  assumes "cron_ok c" and "0 \<le> lo"
  shows "matches_in c lo (lo + int k) = int (length (filter (fires_at c) [lo + 1..lo + int k]))"
proof (induction k)
  case 0
  have "sum_list (map (\<lambda>off. 0::int) (cc_offsets c)) = 0" by (induction "cc_offsets c") auto
  then show ?case by (simp add: matches_in_def)
next
  case (Suc k)
  have "[lo + 1..lo + int (Suc k)] = [lo + 1..lo + int k] @ [lo + int k + 1]"
    using upto_rec2 [of "lo + 1" "lo + int k + 1"] by (simp add: algebra_simps)
  then show ?case using Suc assms matches_in_step [of c "lo + int k" lo]
    by (simp add: algebra_simps)
qed

lemma matches_in_window:
  assumes "cron_ok c" and "0 \<le> lo" and "lo \<le> hi"
  shows "matches_in c lo hi = int (length (filter (fires_at c) [lo + 1..hi]))"
  using matches_in_counts [OF assms(1,2), of "nat (hi - lo)"] assms(3) by simp

definition next_match :: "cron_core \<Rightarrow> int \<Rightarrow> bool" where
  "next_match c f \<longleftrightarrow> cc_cursor c < f \<and> fires_at c f \<and> (\<forall>t. cc_cursor c < t \<longrightarrow> fires_at c t \<longrightarrow> f \<le> t)"

lemma next_match_unique: "next_match c f \<Longrightarrow> next_match c g \<Longrightarrow> f = g"
  by (auto simp: next_match_def intro: order.antisym)

lemma find_sorted_least:
  "sorted xs \<Longrightarrow> List.find P xs = Some x \<Longrightarrow> y \<in> set xs \<Longrightarrow> P y \<Longrightarrow> x \<le> y"
  by (induction xs) (auto split: if_splits)

lemma sorted_shift: "sorted xs \<Longrightarrow> sorted (map (\<lambda>off. (b::int) + off) xs)"
  by (induction xs) auto

lemma fires_at_block: "off \<in> set (cc_offsets c) \<Longrightarrow> cron_ok c \<Longrightarrow> fires_at c (cc_cycle c * q + off)"
  by (auto simp: fires_at_def cron_ok_def mult.commute)

lemma cron_next_fire_least:
  assumes ok: "cron_ok c" and ne: "cc_offsets c \<noteq> []"
  shows "\<exists>f. cron_next_fire c = Some f \<and> next_match c f"
proof -
  let ?m = "cc_cycle c" and ?s = "cc_cursor c + 1"
  let ?q = "?s div ?m"
  let ?xs = "map (\<lambda>off. ?q * ?m + off) (cc_offsets c) @ map (\<lambda>off. (?q * ?m + ?m) + off) (cc_offsets c)"
  have m: "0 < ?m" using ok by (simp add: cron_ok_def)
  have rng: "\<And>off. off \<in> set (cc_offsets c) \<Longrightarrow> 0 \<le> off \<and> off < ?m" using ok by (simp add: cron_ok_def)
  have srt: "sorted ?xs"
  proof -
    have "b + off \<le> b + ?m + off'" if "off \<in> set (cc_offsets c)" and "off' \<in> set (cc_offsets c)" for b off off'
      using rng [OF that(1)] rng [OF that(2)] by linarith
    then show ?thesis using ok sorted_shift [of "cc_offsets c"]
      by (auto simp: sorted_append cron_ok_def simp del: sorted_map)
  qed
  have eq: "cron_next_fire c = List.find (\<lambda>cand. cand \<ge> ?s) ?xs"
    using ne by (simp add: cron_next_fire_def Let_def)
  have below: "?s < ?q * ?m + ?m" using m div_mult_mod_eq [of ?s ?m] pos_mod_bound [of ?m ?s] by linarith
  obtain off where off: "off \<in> set (cc_offsets c)" using ne by (cases "cc_offsets c") auto
  have "?q * ?m + ?m + off \<in> set ?xs" and "?q * ?m + ?m + off \<ge> ?s"
    using off below rng [OF off] by auto
  from find_exists [of _ _ "\<lambda>cand. cand \<ge> ?s", OF this]
  obtain f where f: "List.find (\<lambda>cand. cand \<ge> ?s) ?xs = Some f" by blast
  note mem = find_mem [OF f]
  have fire: "fires_at c f" using mem fires_at_block [OF _ ok, of _ ?q] fires_at_block [OF _ ok, of _ "?q + 1"]
    by (auto simp: algebra_simps)
  have upper: "f < ?q * ?m + 2 * ?m" using mem rng m by fastforce
  have least: "f \<le> t" if "cc_cursor c < t" and t: "fires_at c t" for t
  proof -
    have dec: "t = t div ?m * ?m + t mod ?m" by simp
    have ge: "?q \<le> t div ?m" using that(1) m by (intro zdiv_mono1) auto
    consider "t div ?m = ?q" | "t div ?m = ?q + 1" | "?q + 2 \<le> t div ?m" using ge by linarith
    then show ?thesis
    proof cases
      case 3
      then have "(?q + 2) * ?m \<le> t" using le_div_mult [OF m] by blast
      then show ?thesis using upper by (simp add: algebra_simps)
    qed (use dec t that(1) in
        \<open>auto simp: fires_at_def algebra_simps intro!: find_sorted_least [OF srt f] image_eqI [of _ _ "t mod ?m"]\<close>)
  qed
  show ?thesis using eq f fire mem least by (auto simp: next_match_def)
qed

lemma cron_next_fire_none: "cron_next_fire c = None \<longleftrightarrow> cc_offsets c = []" if "cron_ok c"
  using cron_next_fire_least [OF that] by (auto simp: cron_next_fire_def)

lemma cron_next_fire_iff:
  assumes "cron_ok c" shows "cron_next_fire c = Some f \<longleftrightarrow> next_match c f"
proof (cases "cc_offsets c = []")
  case False
  then show ?thesis using cron_next_fire_least [OF assms] next_match_unique by auto
qed (simp add: cron_next_fire_def next_match_def fires_at_def)

lemma cron_due:
  assumes "cron_ok c"
  shows "due (cron_next_fire c) now \<longleftrightarrow> (\<exists>t. cc_cursor c < t \<and> t \<le> now \<and> fires_at c t)"
proof (cases "cc_offsets c = []")
  case False
  then obtain f where "cron_next_fire c = Some f" and "next_match c f"
    using cron_next_fire_least [OF assms] by blast
  then show ?thesis by (auto simp: due_def next_match_def intro: order_trans)
qed (simp add: cron_next_fire_def due_def fires_at_def)

lemma cron_tick_fields [simp]:
  "cc_cycle (fst (cron_tick c now)) = cc_cycle c" "cc_offsets (fst (cron_tick c now)) = cc_offsets c"
  "cc_cursor (fst (cron_tick c now)) = max (cc_cursor c) now"
  by (auto simp: cron_tick_def Let_def)

lemma cron_tick_count:
  assumes "cron_ok c"
  shows "cc_count (fst (cron_tick c now)) =
      cc_count c + int (length (filter (fires_at c) [cc_cursor c + 1..now]))"
    and "snd (cron_tick c now) \<longleftrightarrow> filter (fires_at c) [cc_cursor c + 1..now] \<noteq> []"
  using assms matches_in_window [of c "cc_cursor c" now]
  by (auto simp: cron_tick_def Let_def cron_ok_def)

interpretation cron: projected_source cron_tick cron_next_fire cron_ok cc_count
proof unfold_locales
  fix c now assume ok: "cron_ok c"
  have fires [simp]: "fires_at (fst (cron_tick c now)) t = fires_at c t" for t by (simp add: fires_at_def)
  show kept: "cron_ok (fst (cron_tick c now))" using ok by (auto simp: cron_ok_def)
  show edge: "snd (cron_tick c now) \<longleftrightarrow> due (cron_next_fire c) now"
    unfolding cron_tick_count(2) [OF ok] cron_due [OF ok] filter_empty_conv by (auto simp: add1_zle_eq)
  show "cc_count (fst (cron_tick c now)) \<noteq> cc_count c \<longleftrightarrow> snd (cron_tick c now)"
    using cron_tick_count [OF ok, of now] by simp
  show "due (cron_next_fire c) now \<Longrightarrow> \<not> due (cron_next_fire (fst (cron_tick c now))) now"
    unfolding cron_due [OF kept] by auto
  assume quiet: "\<not> due (cron_next_fire c) now"
  then have none: "\<not> fires_at c t" if "cc_cursor c < t" and "t \<le> now" for t
    using that cron_due [OF ok] by blast
  have same: "next_match (fst (cron_tick c now)) f \<longleftrightarrow> next_match c f" for f
  proof -
    have "cc_cursor c < t \<and> fires_at c t \<longleftrightarrow> max (cc_cursor c) now < t \<and> fires_at c t" for t
      using none [of t] by (cases "t \<le> now") auto
    then show ?thesis unfolding next_match_def fires cron_tick_fields by blast
  qed
  show "cron_next_fire (fst (cron_tick c now)) = cron_next_fire c"
    using same cron_next_fire_iff [OF ok] cron_next_fire_iff [OF kept] by (metis not_None_eq)
qed

section \<open>The cells are shells over their cores\<close>

lemma timer_cell_shell:
  "c_value (tl_fired t) = tc_fired (tl_core t) \<Longrightarrow>
   (tl_core (fst (timer_cell_tick t now)), tl_fired (fst (timer_cell_tick t now))) =
     shell_tick timer_tick tc_fired (tl_core t, tl_fired t) now"
  by (auto simp: timer_cell_tick_def shell_tick_def timer_tick_def)

lemma interval_cell_shell:
  "(il_core (fst (interval_cell_tick t now)), il_count (fst (interval_cell_tick t now))) =
     shell_tick interval_tick ic_count (il_core t, il_count t) now"
  by (auto simp: interval_cell_tick_def shell_tick_def split_beta Let_def)

lemma cron_cell_shell:
  "(cl_core (fst (cron_cell_tick t now)), cl_count (fst (cron_cell_tick t now))) =
     shell_tick cron_tick cc_count (cl_core t, cl_count t) now"
  by (auto simp: cron_cell_tick_def shell_tick_def split_beta Let_def)

lemma deadline_cell_shell:
  "(dl_core (fst (deadline_cell_tick t now)), dl_expired (fst (deadline_cell_tick t now))) =
     shell_tick deadline_tick deadline_is_expired (dl_core t, dl_expired t) now"
  by (auto simp: deadline_cell_tick_def shell_tick_def deadline_tick_def deadline_is_expired_def
      timer_tick_def split_beta Let_def)

fun cron_cell_run :: "cron_cell \<Rightarrow> int list \<Rightarrow> cron_cell" where
  "cron_cell_run t [] = t"
| "cron_cell_run t (n # ns) = cron_cell_run (fst (cron_cell_tick t n)) ns"

lemma cron_cell_run_shell:
  "(cl_core (cron_cell_run t ns), cl_count (cron_cell_run t ns)) =
     shell_run cron_tick cc_count (cl_core t, cl_count t) ns"
  by (induction ns arbitrary: t) (simp_all add: shell_run_def cron_cell_shell)

lemma cron_ticks_count:
  assumes "cron_ok c"
  shows "cc_count (ticks cron_tick c ns) =
      cc_count c + int (length (filter (fires_at c) [cc_cursor c + 1..fold max ns (cc_cursor c)]))"
  using assms
proof (induction ns arbitrary: c)
  case (Cons n ns)
  let ?c = "fst (cron_tick c n)" and ?top = "fold max ns (max n (cc_cursor c))"
  have ok: "cron_ok ?c" using Cons.prems by (rule cron.keep)
  have mono: "m \<le> fold max ns m" for m :: int
    by (induction ns arbitrary: m) (auto intro: order_trans [OF max.cobounded2])
  have fires: "fires_at ?c = fires_at c" by (simp add: fires_at_def fun_eq_iff)
  have split: "[cc_cursor c + 1..?top] = [cc_cursor c + 1..max n (cc_cursor c)] @ [max n (cc_cursor c) + 1..?top]"
    using mono [of "max n (cc_cursor c)"] upto_split2 [of "cc_cursor c + 1" "max n (cc_cursor c)" ?top]
    by (cases "n \<le> cc_cursor c") (auto simp: max_def)
  have first: "filter (fires_at c) [cc_cursor c + 1..n] = filter (fires_at c) [cc_cursor c + 1..max n (cc_cursor c)]"
    by (simp add: max_def)
  show ?case using Cons.IH [OF ok] cron_tick_count(1) [OF Cons.prems, of n] first
    by (simp add: fires max.commute split)
qed simp

end
