(* ===== verification/Coordination.thy ===== *)
theory Coordination
  imports Cells
begin

text \<open>
  The coordination primitives of \<^verbatim>\<open>src/lazily/coordination.py\<close>: lease with fencing
  token, leadership, lock, semaphore and barrier. Each core is a state machine; its cell
  projects the salient reader. Time is the logical clock, a Python integer.
\<close>

section \<open>Lease\<close>

record 'p lease_core =
  ls_holder :: "'p option"
  ls_expiry :: int
  ls_fence :: int

definition lease_core_new :: "'p lease_core" where
  "lease_core_new = \<lparr>ls_holder = None, ls_expiry = 0, ls_fence = 0\<rparr>"

definition lease_is_expired :: "'p lease_core \<Rightarrow> int \<Rightarrow> bool" where
  "lease_is_expired c now \<longleftrightarrow> ls_holder c \<noteq> None \<and> now \<ge> ls_expiry c"

definition lease_is_held :: "'p lease_core \<Rightarrow> int \<Rightarrow> bool" where
  "lease_is_held c now \<longleftrightarrow> ls_holder c \<noteq> None \<and> \<not> lease_is_expired c now"

definition lease_holder :: "'p lease_core \<Rightarrow> int \<Rightarrow> 'p option" where
  "lease_holder c now = (if lease_is_held c now then ls_holder c else None)"

definition lease_acquire :: "'p lease_core \<Rightarrow> 'p \<Rightarrow> int \<Rightarrow> int \<Rightarrow> 'p lease_core \<times> int option" where
  "lease_acquire c peer now ttl =
     (let free = (ls_holder c = None \<or> lease_is_expired c now)
      in if free
         then let c1 = c\<lparr>ls_fence := ls_fence c + 1, ls_holder := Some peer, ls_expiry := now + ttl\<rparr>
              in (c1, Some (ls_fence c1))
         else if ls_holder c = Some peer
         then (c\<lparr>ls_expiry := now + ttl\<rparr>, Some (ls_fence c))
         else (c, None))"

definition lease_renew :: "'p lease_core \<Rightarrow> 'p \<Rightarrow> int \<Rightarrow> int \<Rightarrow> 'p lease_core \<times> bool" where
  "lease_renew c peer now ttl =
     (if lease_is_held c now \<and> ls_holder c = Some peer then (c\<lparr>ls_expiry := now + ttl\<rparr>, True) else (c, False))"

definition lease_release :: "'p lease_core \<Rightarrow> 'p \<Rightarrow> 'p lease_core" where
  "lease_release c peer = (if ls_holder c = Some peer then c\<lparr>ls_holder := None\<rparr> else c)"

definition lease_tick :: "'p lease_core \<Rightarrow> int \<Rightarrow> 'p lease_core \<times> bool" where
  "lease_tick c now = (if lease_is_expired c now then (c\<lparr>ls_holder := None\<rparr>, True) else (c, False))"

lemmas lease_defs = lease_is_expired_def lease_is_held_def lease_holder_def lease_acquire_def
  lease_renew_def lease_release_def lease_tick_def Let_def

record 'p lease_cell =
  lc_core :: "'p lease_core"
  lc_holder :: "'p option cell"

definition lease_cell_new :: "'p lease_cell" where
  "lease_cell_new = \<lparr>lc_core = lease_core_new, lc_holder = cell_new None\<rparr>"

definition lc_refresh :: "'p lease_cell \<Rightarrow> int \<Rightarrow> 'p lease_cell" where
  "lc_refresh l now = l\<lparr>lc_holder := cell_set (lc_holder l) (lease_holder (lc_core l) now)\<rparr>"

definition lc_acquire :: "'p lease_cell \<Rightarrow> 'p \<Rightarrow> int \<Rightarrow> int \<Rightarrow> 'p lease_cell \<times> int option" where
  "lc_acquire l peer now ttl =
     (let (c, r) = lease_acquire (lc_core l) peer now ttl in (lc_refresh (l\<lparr>lc_core := c\<rparr>) now, r))"

definition lc_renew :: "'p lease_cell \<Rightarrow> 'p \<Rightarrow> int \<Rightarrow> int \<Rightarrow> 'p lease_cell \<times> bool" where
  "lc_renew l peer now ttl =
     (let (c, r) = lease_renew (lc_core l) peer now ttl in (lc_refresh (l\<lparr>lc_core := c\<rparr>) now, r))"

definition lc_release :: "'p lease_cell \<Rightarrow> 'p \<Rightarrow> int \<Rightarrow> 'p lease_cell" where
  "lc_release l peer now = lc_refresh (l\<lparr>lc_core := lease_release (lc_core l) peer\<rparr>) now"

definition lc_tick :: "'p lease_cell \<Rightarrow> int \<Rightarrow> 'p lease_cell \<times> bool" where
  "lc_tick l now = (let (c, r) = lease_tick (lc_core l) now in (lc_refresh (l\<lparr>lc_core := c\<rparr>) now, r))"

section \<open>Leadership and lock\<close>

datatype leader_role = Leader | Follower | Candidate

record 'p leader_cell =
  ld_core :: "'p lease_core"
  ld_me :: 'p
  ld_current_leader :: "'p option cell"

definition leader_cell_new :: "'p \<Rightarrow> 'p leader_cell" where
  "leader_cell_new me = \<lparr>ld_core = lease_core_new, ld_me = me, ld_current_leader = cell_new None\<rparr>"

definition ld_refresh :: "'p leader_cell \<Rightarrow> int \<Rightarrow> 'p leader_cell" where
  "ld_refresh l now = l\<lparr>ld_current_leader := cell_set (ld_current_leader l) (lease_holder (ld_core l) now)\<rparr>"

definition ld_role :: "'p leader_cell \<Rightarrow> int \<Rightarrow> leader_role" where
  "ld_role l now =
     (case lease_holder (ld_core l) now of
        None \<Rightarrow> Candidate
      | Some h \<Rightarrow> if h = ld_me l then Leader else Follower)"

definition ld_contend :: "'p leader_cell \<Rightarrow> 'p \<Rightarrow> int \<Rightarrow> int \<Rightarrow> 'p leader_cell \<times> leader_role" where
  "ld_contend l peer now ttl =
     (let l1 = ld_refresh (l\<lparr>ld_core := fst (lease_acquire (ld_core l) peer now ttl)\<rparr>) now
      in (l1, ld_role l1 now))"

definition ld_campaign :: "'p leader_cell \<Rightarrow> int \<Rightarrow> int \<Rightarrow> 'p leader_cell \<times> leader_role" where
  "ld_campaign l now ttl =
     (let l1 = ld_refresh (l\<lparr>ld_core := fst (lease_acquire (ld_core l) (ld_me l) now ttl)\<rparr>) now
      in (l1, ld_role l1 now))"

definition ld_tick :: "'p leader_cell \<Rightarrow> int \<Rightarrow> 'p leader_cell \<times> leader_role" where
  "ld_tick l now =
     (let l1 = ld_refresh (l\<lparr>ld_core := fst (lease_tick (ld_core l) now)\<rparr>) now in (l1, ld_role l1 now))"

record 'p lock_cell =
  lk_core :: "'p lease_core"
  lk_is_locked :: "bool cell"

definition lock_cell_new :: "'p lock_cell" where
  "lock_cell_new = \<lparr>lk_core = lease_core_new, lk_is_locked = cell_new False\<rparr>"

definition lk_refresh :: "'p lock_cell \<Rightarrow> int \<Rightarrow> 'p lock_cell" where
  "lk_refresh l now = l\<lparr>lk_is_locked := cell_set (lk_is_locked l) (lease_is_held (lk_core l) now)\<rparr>"

definition lk_acquire :: "'p lock_cell \<Rightarrow> 'p \<Rightarrow> int \<Rightarrow> int \<Rightarrow> 'p lock_cell \<times> int option" where
  "lk_acquire l peer now ttl =
     (let (c, r) = lease_acquire (lk_core l) peer now ttl in (lk_refresh (l\<lparr>lk_core := c\<rparr>) now, r))"

definition lk_release :: "'p lock_cell \<Rightarrow> 'p \<Rightarrow> int \<Rightarrow> 'p lock_cell" where
  "lk_release l peer now = lk_refresh (l\<lparr>lk_core := lease_release (lk_core l) peer\<rparr>) now"

definition lk_tick :: "'p lock_cell \<Rightarrow> int \<Rightarrow> 'p lock_cell \<times> bool" where
  "lk_tick l now = (let (c, r) = lease_tick (lk_core l) now in (lk_refresh (l\<lparr>lk_core := c\<rparr>) now, r))"

definition lk_validate :: "'p lock_cell \<Rightarrow> int \<Rightarrow> bool" where
  "lk_validate l fence \<longleftrightarrow> ls_fence (lk_core l) = fence"

section \<open>Semaphore and barrier\<close>

record semaphore_core =
  sm_capacity :: int
  sm_acquired :: int

definition semaphore_core_new :: "int \<Rightarrow> semaphore_core" where
  "semaphore_core_new capacity = \<lparr>sm_capacity = capacity, sm_acquired = 0\<rparr>"

definition sem_available :: "semaphore_core \<Rightarrow> int" where
  "sem_available c = sm_capacity c - sm_acquired c"

definition sem_acquire :: "semaphore_core \<Rightarrow> semaphore_core \<times> bool" where
  "sem_acquire c =
     (if sm_acquired c < sm_capacity c then (c\<lparr>sm_acquired := sm_acquired c + 1\<rparr>, True) else (c, False))"

definition sem_release :: "semaphore_core \<Rightarrow> semaphore_core" where
  "sem_release c = (if sm_acquired c > 0 then c\<lparr>sm_acquired := sm_acquired c - 1\<rparr> else c)"

record semaphore_cell =
  sc_core :: semaphore_core
  sc_available :: "int cell"

definition semaphore_cell_new :: "int \<Rightarrow> semaphore_cell" where
  "semaphore_cell_new capacity =
     \<lparr>sc_core = semaphore_core_new capacity, sc_available = cell_new capacity\<rparr>"

definition sc_refresh :: "semaphore_cell \<Rightarrow> semaphore_cell" where
  "sc_refresh s = s\<lparr>sc_available := cell_set (sc_available s) (sem_available (sc_core s))\<rparr>"

definition sc_acquire :: "semaphore_cell \<Rightarrow> semaphore_cell \<times> bool" where
  "sc_acquire s = (let (c, r) = sem_acquire (sc_core s) in (sc_refresh (s\<lparr>sc_core := c\<rparr>), r))"

definition sc_release :: "semaphore_cell \<Rightarrow> semaphore_cell" where
  "sc_release s = sc_refresh (s\<lparr>sc_core := sem_release (sc_core s)\<rparr>)"

record 'p barrier_core =
  br_required :: int
  br_arrived :: "'p set"

definition barrier_core_new :: "int \<Rightarrow> 'p barrier_core" where
  "barrier_core_new required = \<lparr>br_required = required, br_arrived = {}\<rparr>"

definition barrier_is_open :: "'p barrier_core \<Rightarrow> bool" where
  "barrier_is_open b \<longleftrightarrow> int (card (br_arrived b)) \<ge> br_required b"

definition barrier_arrive :: "'p barrier_core \<Rightarrow> 'p \<Rightarrow> 'p barrier_core \<times> bool" where
  "barrier_arrive b peer =
     (let b1 = b\<lparr>br_arrived := insert peer (br_arrived b)\<rparr> in (b1, barrier_is_open b1))"

record 'p barrier_cell =
  bc_core :: "'p barrier_core"
  bc_is_open :: "bool cell"

definition barrier_cell_new :: "int \<Rightarrow> 'p barrier_cell" where
  "barrier_cell_new required =
     (let core = barrier_core_new required
      in \<lparr>bc_core = core, bc_is_open = cell_new (barrier_is_open core)\<rparr>)"

definition barrier_quorum :: "int \<Rightarrow> 'p barrier_cell" where
  "barrier_quorum n = barrier_cell_new (n div 2 + 1)"

definition bc_arrive :: "'p barrier_cell \<Rightarrow> 'p \<Rightarrow> 'p barrier_cell \<times> bool" where
  "bc_arrive b peer =
     (let (c, r) = barrier_arrive (bc_core b) peer; b1 = b\<lparr>bc_core := c\<rparr>
      in (b1\<lparr>bc_is_open := cell_set (bc_is_open b1) (barrier_is_open c)\<rparr>, r))"

chapter \<open>Properties\<close>

text \<open>
  Fencing safety of the lease and of the lock over it, the permit bound of the semaphore, and
  the intersection of two quorums. The locale \<open>lease_front\<close> is what a cell over a lease
  shares: it runs lease operations on its core and shows a view of it.
\<close>

section \<open>Runs of a lease\<close>

datatype 'p lease_op = Acquire 'p int int | Renew 'p int int | Release 'p int | LTick int

text \<open>The run records the grants: which peer was given which fence.\<close>

fun lease_step :: "'p lease_core \<times> ('p \<times> int) list \<Rightarrow> 'p lease_op \<Rightarrow> 'p lease_core \<times> ('p \<times> int) list" where
  "lease_step (c, gs) (Acquire peer now ttl) =
     (let (c', r) = lease_acquire c peer now ttl in (c', gs @ (case r of None \<Rightarrow> [] | Some f \<Rightarrow> [(peer, f)])))"
| "lease_step (c, gs) (Renew peer now ttl) = (fst (lease_renew c peer now ttl), gs)"
| "lease_step (c, gs) (Release peer now) = (lease_release c peer, gs)"
| "lease_step (c, gs) (LTick now) = (fst (lease_tick c now), gs)"

definition lease_run :: "'p lease_core \<times> ('p \<times> int) list \<Rightarrow> 'p lease_op list \<Rightarrow> 'p lease_core \<times> ('p \<times> int) list" where
  "lease_run s xs = foldl lease_step s xs"

text \<open>
  Grants come with fences that never fall, two peers never share one, and the newest fence
  belongs to the holder.
\<close>

definition fenced :: "('p \<times> int) list \<Rightarrow> bool" where
  "fenced gs \<longleftrightarrow> sorted_wrt (\<lambda>a b. snd a \<le> snd b \<and> (fst a \<noteq> fst b \<longrightarrow> snd a < snd b)) gs"

definition lease_inv :: "'p lease_core \<times> ('p \<times> int) list \<Rightarrow> bool" where
  "lease_inv s \<longleftrightarrow> fenced (snd s) \<and> (\<forall>g\<in>set (snd s). snd g \<le> ls_fence (fst s)) \<and>
     (\<forall>g\<in>set (snd s). \<forall>h. ls_holder (fst s) = Some h \<longrightarrow> snd g = ls_fence (fst s) \<longrightarrow> fst g = h)"

lemma lease_step_inv: "lease_inv s \<Longrightarrow> lease_inv (lease_step s x)"
  by (cases s; cases x)
     (fastforce simp: lease_inv_def fenced_def lease_defs sorted_wrt_append split: if_splits option.splits)+

lemma lease_run_inv: "lease_inv s \<Longrightarrow> lease_inv (lease_run s xs)"
  unfolding lease_run_def by (induction xs arbitrary: s) (simp_all only: foldl.simps lease_step_inv)

lemma lease_start_inv: "lease_inv (lease_core_new, [])"
  by (simp add: lease_inv_def fenced_def)

lemma acquire_exclusive:
  "lease_is_held c now \<Longrightarrow> ls_holder c \<noteq> Some peer \<Longrightarrow> lease_acquire c peer now ttl = (c, None)"
  by (auto simp: lease_defs)

section \<open>Cells over a lease\<close>

locale lease_front =
  fixes step :: "'s \<Rightarrow> 'p lease_op \<Rightarrow> 's"
    and core :: "'s \<Rightarrow> 'p lease_core"
    and shown :: "'s \<Rightarrow> 'v cell"
    and view :: "'p lease_core \<Rightarrow> int \<Rightarrow> 'v"
    and ok :: "'p lease_op \<Rightarrow> bool"
  assumes step_core: "ok x \<Longrightarrow> core (step s x) = fst (lease_step (core s, []) x)"
    and step_shown: "ok x \<Longrightarrow> live (shown s) \<Longrightarrow> live (shown (step s x)) \<and>
      c_value (shown (step s x)) = view (core (step s x))
        (case x of Acquire _ now _ \<Rightarrow> now | Renew _ now _ \<Rightarrow> now | Release _ now \<Rightarrow> now | LTick now \<Rightarrow> now)"
begin

lemma step_core_run: "ok x \<Longrightarrow> core (step s x) = fst (lease_step (core s, gs) x)"
  by (cases x) (auto simp: step_core split_beta Let_def)

lemma run_core: "list_all ok xs \<Longrightarrow> core (foldl step s xs) = fst (lease_run (core s, gs) xs)"
  unfolding lease_run_def
proof (induction xs arbitrary: s gs)
  case (Cons x xs)
  have "core (step s x) = fst (lease_step (core s, gs) x)" using Cons.prems by (simp add: step_core_run)
  then show ?case using Cons.IH [of "step s x" "snd (lease_step (core s, gs) x)"] Cons.prems by simp
qed simp

lemma run_live: "list_all ok xs \<Longrightarrow> live (shown s) \<Longrightarrow> live (shown (foldl step s xs))"
  by (induction xs arbitrary: s) (auto simp: step_shown)

text \<open>The cell shows the view of the core at the time of the last operation.\<close>

lemma run_shown:
  assumes "list_all ok xs" and "ok x" and "live (shown s)"
  shows "c_value (shown (foldl step s (xs @ [x]))) =
    view (core (foldl step s (xs @ [x])))
      (case x of Acquire _ now _ \<Rightarrow> now | Renew _ now _ \<Rightarrow> now | Release _ now \<Rightarrow> now | LTick now \<Rightarrow> now)"
  using step_shown [OF assms(2) run_live [OF assms(1,3)]] by simp

end

fun lc_step :: "'p lease_cell \<Rightarrow> 'p lease_op \<Rightarrow> 'p lease_cell" where
  "lc_step l (Acquire peer now ttl) = fst (lc_acquire l peer now ttl)"
| "lc_step l (Renew peer now ttl) = fst (lc_renew l peer now ttl)"
| "lc_step l (Release peer now) = lc_release l peer now"
| "lc_step l (LTick now) = fst (lc_tick l now)"

fun lk_step :: "'p lock_cell \<Rightarrow> 'p lease_op \<Rightarrow> 'p lock_cell" where
  "lk_step l (Acquire peer now ttl) = fst (lk_acquire l peer now ttl)"
| "lk_step l (Renew peer now ttl) = l"
| "lk_step l (Release peer now) = lk_release l peer now"
| "lk_step l (LTick now) = fst (lk_tick l now)"

definition lock_has_op :: "'p lease_op \<Rightarrow> bool" where
  "lock_has_op x \<longleftrightarrow> (case x of Renew _ _ _ \<Rightarrow> False | _ \<Rightarrow> True)"

interpretation lease_shell: lease_front lc_step lc_core lc_holder lease_holder "\<lambda>_. True"
proof
  fix s :: "'p lease_cell" and x :: "'p lease_op"
  show "lc_core (lc_step s x) = fst (lease_step (lc_core s, []) x)"
    by (cases x) (simp_all add: lc_acquire_def lc_renew_def lc_release_def lc_tick_def lc_refresh_def split_beta Let_def)
  show "live (lc_holder s) \<Longrightarrow> live (lc_holder (lc_step s x)) \<and>
      c_value (lc_holder (lc_step s x)) = lease_holder (lc_core (lc_step s x))
        (case x of Acquire _ now _ \<Rightarrow> now | Renew _ now _ \<Rightarrow> now | Release _ now \<Rightarrow> now | LTick now \<Rightarrow> now)"
    by (cases x) (simp_all add: lc_acquire_def lc_renew_def lc_release_def lc_tick_def lc_refresh_def split_beta Let_def)
qed

interpretation lock_shell: lease_front lk_step lk_core lk_is_locked lease_is_held lock_has_op
proof
  fix s :: "'p lock_cell" and x :: "'p lease_op" assume "lock_has_op x"
  then show "lk_core (lk_step s x) = fst (lease_step (lk_core s, []) x)"
    by (cases x) (simp_all add: lock_has_op_def lk_acquire_def lk_release_def lk_tick_def lk_refresh_def split_beta Let_def)
next
  fix s :: "'p lock_cell" and x :: "'p lease_op" assume "lock_has_op x" and "live (lk_is_locked s)"
  then show "live (lk_is_locked (lk_step s x)) \<and>
      c_value (lk_is_locked (lk_step s x)) = lease_is_held (lk_core (lk_step s x))
        (case x of Acquire _ now _ \<Rightarrow> now | Renew _ now _ \<Rightarrow> now | Release _ now \<Rightarrow> now | LTick now \<Rightarrow> now)"
    by (cases x) (simp_all add: lock_has_op_def lk_acquire_def lk_release_def lk_tick_def lk_refresh_def split_beta Let_def)
qed

section \<open>Semaphore\<close>

datatype sem_op = SAcquire | SRelease

fun sem_step :: "semaphore_cell \<Rightarrow> sem_op \<Rightarrow> semaphore_cell" where
  "sem_step s SAcquire = fst (sc_acquire s)"
| "sem_step s SRelease = sc_release s"

definition sem_inv :: "semaphore_cell \<Rightarrow> bool" where
  "sem_inv s \<longleftrightarrow> 0 \<le> sm_acquired (sc_core s) \<and> sm_acquired (sc_core s) \<le> sm_capacity (sc_core s) \<and>
     live (sc_available s) \<and> c_value (sc_available s) = sem_available (sc_core s)"

lemmas sem_defs = sc_acquire_def sc_release_def sc_refresh_def sem_acquire_def sem_release_def sem_available_def

lemma sem_step_inv: "sem_inv s \<Longrightarrow> sem_inv (sem_step s x) \<and> sm_capacity (sc_core (sem_step s x)) = sm_capacity (sc_core s)"
  by (cases x) (auto simp: sem_inv_def sem_defs split_beta)

lemma sem_run_inv:
  "sem_inv s \<Longrightarrow> sem_inv (foldl sem_step s xs) \<and> sm_capacity (sc_core (foldl sem_step s xs)) = sm_capacity (sc_core s)"
  using sem_step_inv by (induction xs arbitrary: s) auto

lemma sem_new_inv: "0 \<le> n \<Longrightarrow> sem_inv (semaphore_cell_new n)"
  by (simp add: sem_inv_def semaphore_cell_new_def semaphore_core_new_def sem_available_def)

section \<open>Barrier\<close>

definition bc_run :: "'p barrier_cell \<Rightarrow> 'p list \<Rightarrow> 'p barrier_cell" where
  "bc_run b ps = foldl (\<lambda>b p. fst (bc_arrive b p)) b ps"

lemma bc_run_arrived:
  "br_arrived (bc_core (bc_run b ps)) = br_arrived (bc_core b) \<union> set ps \<and>
   br_required (bc_core (bc_run b ps)) = br_required (bc_core b)"
  unfolding bc_run_def
  by (induction ps arbitrary: b) (auto simp: bc_arrive_def barrier_arrive_def Let_def)

lemma bc_run_open:
  "live (bc_is_open b) \<Longrightarrow> c_value (bc_is_open b) = barrier_is_open (bc_core b) \<Longrightarrow>
     c_value (bc_is_open (bc_run b ps)) = barrier_is_open (bc_core (bc_run b ps))"
  unfolding bc_run_def
  by (induction ps arbitrary: b) (auto simp: bc_arrive_def barrier_arrive_def Let_def)

lemma barrier_opens:
  "c_value (bc_is_open (bc_run (barrier_cell_new n) ps)) \<longleftrightarrow> int (card (set ps)) \<ge> n"
  using bc_run_arrived [of "barrier_cell_new n" ps] bc_run_open [of "barrier_cell_new n" ps]
  by (simp add: barrier_cell_new_def barrier_core_new_def barrier_is_open_def Let_def)

text \<open>Two gates that are open on votes of the same electorate share a voter.\<close>

lemma quorum_intersect:
  assumes "finite V" and "set ps \<subseteq> V" and "set qs \<subseteq> V"
    and "c_value (bc_is_open (bc_run (barrier_quorum (int (card V))) ps))"
    and "c_value (bc_is_open (bc_run (barrier_quorum (int (card V))) qs))"
  shows "set ps \<inter> set qs \<noteq> {}"
proof
  assume "set ps \<inter> set qs = {}"
  then have "card (set ps \<union> set qs) = card (set ps) + card (set qs)"
    by (simp add: card_Un_disjoint)
  moreover have "card (set ps \<union> set qs) \<le> card V" using assms(1-3) by (simp add: card_mono)
  ultimately show False using assms(4,5) by (simp add: barrier_quorum_def barrier_opens)
qed

end
