(* ===== verification/RateShape.thy ===== *)
theory RateShape
  imports Complex_Main Cells Temporal "HOL-Library.Word"
begin

text \<open>
  The rate-shaping operators of \<^verbatim>\<open>src/lazily/rateshape.py\<close>: debounce, throttle,
  deterministic and probabilistic sampling, and the SplitMix64 generator. A value is
  \<^verbatim>\<open>T | None\<close>: \<open>None\<close> is Python's None, also as an input. A draw is the exact value of the
  double the code computes, a multiple of \<open>2^(-53)\<close>.
\<close>

definition set_output :: "'a option cell \<Rightarrow> 'a option \<Rightarrow> 'a option cell" where
  "set_output c emitted = (case emitted of None \<Rightarrow> c | Some v \<Rightarrow> cell_set c (Some v))"

section \<open>Debounce\<close>

record 'a debounce_core =
  db_quiet :: int
  db_pending :: "'a option"
  db_fire_at :: int
  db_armed :: bool

definition debounce_new :: "int \<Rightarrow> 'a debounce_core" where
  "debounce_new quiet = \<lparr>db_quiet = quiet, db_pending = None, db_fire_at = 0, db_armed = False\<rparr>"

definition debounce_input :: "'a debounce_core \<Rightarrow> int \<Rightarrow> 'a option \<Rightarrow> 'a debounce_core" where
  "debounce_input c now v = c\<lparr>db_pending := v, db_fire_at := now + db_quiet c, db_armed := True\<rparr>"

definition debounce_tick :: "'a debounce_core \<Rightarrow> int \<Rightarrow> 'a debounce_core \<times> 'a option" where
  "debounce_tick c now =
     (if db_armed c \<and> db_pending c \<noteq> None \<and> db_fire_at c \<le> now
      then (c\<lparr>db_armed := False, db_pending := None\<rparr>, db_pending c) else (c, None))"

section \<open>Throttle\<close>

datatype throttle_edge = Leading | Trailing

record 'a throttle_core =
  th_edge :: throttle_edge
  th_window :: int
  th_window_end :: "int option"
  th_window_start :: "int option"
  th_pending :: "'a option"

definition throttle_new :: "throttle_edge \<Rightarrow> int \<Rightarrow> 'a throttle_core" where
  "throttle_new edge window = \<lparr>th_edge = edge, th_window = window, th_window_end = None,
     th_window_start = None, th_pending = None\<rparr>"

definition throttle_input :: "'a throttle_core \<Rightarrow> int \<Rightarrow> 'a option \<Rightarrow> 'a throttle_core \<times> 'a option" where
  "throttle_input c now v =
     (case th_edge c of
        Leading \<Rightarrow>
          if (case th_window_end c of None \<Rightarrow> False | Some e \<Rightarrow> now < e) then (c, None)
          else (c\<lparr>th_window_end := Some (now + th_window c)\<rparr>, v)
      | Trailing \<Rightarrow>
          let c1 = (if th_window_start c = None then c\<lparr>th_window_start := Some now\<rparr> else c)
          in (c1\<lparr>th_pending := v\<rparr>, None))"

definition throttle_tick :: "'a throttle_core \<Rightarrow> int \<Rightarrow> 'a throttle_core \<times> 'a option" where
  "throttle_tick c now =
     (case th_edge c of
        Leading \<Rightarrow> (c, None)
      | Trailing \<Rightarrow>
          (case th_window_start c of
             None \<Rightarrow> (c, None)
           | Some ws \<Rightarrow>
               if now \<ge> ws + th_window c \<and> th_pending c \<noteq> None
               then (c\<lparr>th_window_start := None, th_pending := None\<rparr>, th_pending c) else (c, None)))"

section \<open>Sampling\<close>

datatype sample_mode = Count_mode int | Time_mode int

record 'a sample_core =
  sa_mode :: sample_mode
  sa_counter :: int
  sa_next :: int
  sa_held :: "'a option"

definition sample_new :: "sample_mode \<Rightarrow> 'a sample_core" where
  "sample_new mode = \<lparr>sa_mode = mode, sa_counter = 0,
     sa_next = (case mode of Time_mode p \<Rightarrow> max p 1 | Count_mode _ \<Rightarrow> 0), sa_held = None\<rparr>"

definition sample_input :: "'a sample_core \<Rightarrow> 'a option \<Rightarrow> 'a sample_core \<times> 'a option" where
  "sample_input c v =
     (case sa_mode c of
        Count_mode param \<Rightarrow>
          let n = max param 1; c1 = c\<lparr>sa_counter := sa_counter c + 1\<rparr>
          in (c1, if sa_counter c1 mod n = 0 then v else None)
      | Time_mode _ \<Rightarrow> (c\<lparr>sa_held := v\<rparr>, None))"

definition sample_tick :: "'a sample_core \<Rightarrow> int \<Rightarrow> 'a sample_core \<times> 'a option" where
  "sample_tick c now =
     (case sa_mode c of
        Count_mode _ \<Rightarrow> (c, None)
      | Time_mode param \<Rightarrow>
          let period = max param 1
          in if now < sa_next c then (c, None)
             else let fires = (now - sa_next c) div period + 1
                  in (c\<lparr>sa_next := sa_next c + fires * period\<rparr>, sa_held c))"

section \<open>Probabilistic sampling\<close>

text \<open>The state and the arithmetic of the generator are 64-bit words.\<close>

definition lcg_new :: "int \<Rightarrow> 64 word" where
  "lcg_new seed = word_of_int seed"

definition splitmix :: "64 word \<Rightarrow> 64 word" where
  "splitmix z0 =
     (let z1 = xor z0 (drop_bit 30 z0) * 0xBF58476D1CE4E5B9;
          z2 = xor z1 (drop_bit 27 z1) * 0x94D049BB133111EB
      in xor z2 (drop_bit 31 z2))"

definition next_f64 :: "64 word \<Rightarrow> 64 word \<times> real" where
  "next_f64 st =
     (let st' = st + 0x9E3779B97F4A7C15
      in (st', real (unat (drop_bit 11 (splitmix st'))) / 2 ^ 53))"

definition prob_new :: "real \<Rightarrow> real" where
  "prob_new rate = min (max rate 0) 1"

definition prob_decide :: "real \<Rightarrow> real \<Rightarrow> bool" where
  "prob_decide rate draw \<longleftrightarrow> draw < rate"

section \<open>Cells\<close>

record 'a debounce_cell =
  dbc_core :: "'a debounce_core"
  dbc_cell :: "'a option cell"

definition debounce_cell_new :: "int \<Rightarrow> 'a debounce_cell" where
  "debounce_cell_new quiet = \<lparr>dbc_core = debounce_new quiet, dbc_cell = cell_new None\<rparr>"

definition debounce_cell_input :: "'a debounce_cell \<Rightarrow> int \<Rightarrow> 'a option \<Rightarrow> 'a debounce_cell" where
  "debounce_cell_input d now v = d\<lparr>dbc_core := debounce_input (dbc_core d) now v\<rparr>"

definition debounce_cell_tick :: "'a debounce_cell \<Rightarrow> int \<Rightarrow> 'a debounce_cell \<times> 'a option" where
  "debounce_cell_tick d now =
     (let (c, emitted) = debounce_tick (dbc_core d) now
      in (d\<lparr>dbc_core := c, dbc_cell := set_output (dbc_cell d) emitted\<rparr>, emitted))"

record 'a throttle_cell =
  thc_core :: "'a throttle_core"
  thc_cell :: "'a option cell"

definition throttle_cell_new :: "throttle_edge \<Rightarrow> int \<Rightarrow> 'a throttle_cell" where
  "throttle_cell_new edge window = \<lparr>thc_core = throttle_new edge window, thc_cell = cell_new None\<rparr>"

definition throttle_cell_input :: "'a throttle_cell \<Rightarrow> int \<Rightarrow> 'a option \<Rightarrow> 'a throttle_cell \<times> 'a option" where
  "throttle_cell_input d now v =
     (let (c, emitted) = throttle_input (thc_core d) now v
      in (d\<lparr>thc_core := c, thc_cell := set_output (thc_cell d) emitted\<rparr>, emitted))"

definition throttle_cell_tick :: "'a throttle_cell \<Rightarrow> int \<Rightarrow> 'a throttle_cell \<times> 'a option" where
  "throttle_cell_tick d now =
     (let (c, emitted) = throttle_tick (thc_core d) now
      in (d\<lparr>thc_core := c, thc_cell := set_output (thc_cell d) emitted\<rparr>, emitted))"

record 'a sample_cell =
  sac_core :: "'a sample_core"
  sac_cell :: "'a option cell"

definition sample_cell_new :: "sample_mode \<Rightarrow> 'a sample_cell" where
  "sample_cell_new mode = \<lparr>sac_core = sample_new mode, sac_cell = cell_new None\<rparr>"

definition sample_cell_input :: "'a sample_cell \<Rightarrow> 'a option \<Rightarrow> 'a sample_cell \<times> 'a option" where
  "sample_cell_input d v =
     (let (c, emitted) = sample_input (sac_core d) v
      in (d\<lparr>sac_core := c, sac_cell := set_output (sac_cell d) emitted\<rparr>, emitted))"

definition sample_cell_tick :: "'a sample_cell \<Rightarrow> int \<Rightarrow> 'a sample_cell \<times> 'a option" where
  "sample_cell_tick d now =
     (let (c, emitted) = sample_tick (sac_core d) now
      in (d\<lparr>sac_core := c, sac_cell := set_output (sac_cell d) emitted\<rparr>, emitted))"

record 'a prob_cell =
  pbc_rate :: real
  pbc_rng :: "64 word"
  pbc_cell :: "'a option cell"

definition prob_cell_new :: "real \<Rightarrow> 64 word \<Rightarrow> 'a prob_cell" where
  "prob_cell_new rate rng = \<lparr>pbc_rate = prob_new rate, pbc_rng = rng, pbc_cell = cell_new None\<rparr>"

definition prob_cell_input_with_draw :: "'a prob_cell \<Rightarrow> 'a option \<Rightarrow> real \<Rightarrow> 'a prob_cell \<times> 'a option" where
  "prob_cell_input_with_draw d v draw =
     (if prob_decide (pbc_rate d) draw then (d\<lparr>pbc_cell := cell_set (pbc_cell d) v\<rparr>, v) else (d, None))"

definition prob_cell_input :: "'a prob_cell \<Rightarrow> 'a option \<Rightarrow> 'a prob_cell \<times> 'a option" where
  "prob_cell_input d v =
     (let (st, draw) = next_f64 (pbc_rng d) in prob_cell_input_with_draw (d\<lparr>pbc_rng := st\<rparr>) v draw)"

chapter \<open>Properties\<close>

text \<open>
  What the rate-shaping operators promise about the times of their emissions. The locale
  \<open>shaper\<close> is a core driven by inputs and ticks; its interpretations are the debounce, the
  two throttles and the sampler.
\<close>

section \<open>Driving a core\<close>

datatype 'a shape_event = In int "'a option" | At int

fun event_time :: "'a shape_event \<Rightarrow> int" where
  "event_time (In t v) = t"
| "event_time (At t) = t"

text \<open>The emissions of a run, each with the time of the event that caused it.\<close>

fun emissions :: "('c \<Rightarrow> 'a shape_event \<Rightarrow> 'c \<times> 'a option) \<Rightarrow> 'c \<Rightarrow> 'a shape_event list \<Rightarrow> (int \<times> 'a) list" where
  "emissions stp c [] = []"
| "emissions stp c (e # es) =
     (case stp c e of (c', out) \<Rightarrow>
        (case out of None \<Rightarrow> [] | Some v \<Rightarrow> [(event_time e, v)]) @ emissions stp c' es)"

fun debounce_step :: "'a debounce_core \<Rightarrow> 'a shape_event \<Rightarrow> 'a debounce_core \<times> 'a option" where
  "debounce_step c (In t v) = (debounce_input c t v, None)"
| "debounce_step c (At t) = debounce_tick c t"

fun throttle_step :: "'a throttle_core \<Rightarrow> 'a shape_event \<Rightarrow> 'a throttle_core \<times> 'a option" where
  "throttle_step c (In t v) = throttle_input c t v"
| "throttle_step c (At t) = throttle_tick c t"

fun sample_step :: "'a sample_core \<Rightarrow> 'a shape_event \<Rightarrow> 'a sample_core \<times> 'a option" where
  "sample_step c (In t v) = sample_input c v"
| "sample_step c (At t) = sample_tick c t"

text \<open>
  The contract of a spacing operator: after an emission at \<open>t\<close> nothing comes out before
  \<open>t + gap\<close>, on a clock that does not go back. \<open>free c\<close> is a lower bound of the next emission.
\<close>

locale shaper =
  fixes stp :: "'c \<Rightarrow> 'a shape_event \<Rightarrow> 'c \<times> 'a option"
    and inv :: "'c \<Rightarrow> int \<Rightarrow> bool"
    and free :: "'c \<Rightarrow> int \<Rightarrow> int"
    and gap :: "'c \<Rightarrow> int"
  assumes keep: "inv c now \<Longrightarrow> now \<le> event_time e \<Longrightarrow> inv (fst (stp c e)) (event_time e)"
    and gap_same: "gap (fst (stp c e)) = gap c"
    and not_before: "inv c now \<Longrightarrow> now \<le> event_time e \<Longrightarrow> snd (stp c e) \<noteq> None \<Longrightarrow> free c now \<le> event_time e"
    and later: "inv c now \<Longrightarrow> now \<le> event_time e \<Longrightarrow> free c now \<le> free (fst (stp c e)) (event_time e)"
    and spaced: "inv c now \<Longrightarrow> now \<le> event_time e \<Longrightarrow> snd (stp c e) \<noteq> None \<Longrightarrow>
      event_time e + gap c \<le> free (fst (stp c e)) (event_time e)"
begin

lemma emissions_after:
  "inv c now \<Longrightarrow> sorted (now # map event_time es) \<Longrightarrow> (t, v) \<in> set (emissions stp c es) \<Longrightarrow> free c now \<le> t"
proof (induction es arbitrary: c now)
  case (Cons e es)
  have le: "now \<le> event_time e" and srt: "sorted (event_time e # map event_time es)" using Cons.prems(2) by auto
  note k = keep [OF Cons.prems(1) le]
  show ?case using Cons.prems(3) Cons.IH [OF k srt] not_before [OF Cons.prems(1) le] later [OF Cons.prems(1) le]
    by (force simp: split_beta split: option.splits)
qed simp

lemma emissions_spaced:
  "inv c now \<Longrightarrow> sorted (now # map event_time es) \<Longrightarrow>
     sorted_wrt (\<lambda>a b. fst a + gap c \<le> fst b) (emissions stp c es)"
proof (induction es arbitrary: c now)
  case (Cons e es)
  have le: "now \<le> event_time e" and srt: "sorted (event_time e # map event_time es)" using Cons.prems(2) by auto
  note k = keep [OF Cons.prems(1) le]
  have tail: "sorted_wrt (\<lambda>a b. fst a + gap c \<le> fst b) (emissions stp (fst (stp c e)) es)"
    using Cons.IH [OF k srt] by (simp add: gap_same)
  have "event_time e + gap c \<le> t"
    if "snd (stp c e) \<noteq> None" and "(t, v) \<in> set (emissions stp (fst (stp c e)) es)" for t v
    using emissions_after [OF k srt that(2)] spaced [OF Cons.prems(1) le that(1)] by linarith
  then show ?case using tail by (force simp: split_beta split: option.splits)
qed simp

end

section \<open>Throttle\<close>

definition leading_inv :: "'a throttle_core \<Rightarrow> int \<Rightarrow> bool" where
  "leading_inv c now \<longleftrightarrow> th_edge c = Leading \<and> 0 \<le> th_window c"

definition trailing_inv :: "'a throttle_core \<Rightarrow> int \<Rightarrow> bool" where
  "trailing_inv c now \<longleftrightarrow> th_edge c = Trailing \<and> 0 \<le> th_window c \<and>
     (\<forall>ws. th_window_start c = Some ws \<longrightarrow> ws \<le> now)"

definition leading_free :: "'a throttle_core \<Rightarrow> int \<Rightarrow> int" where
  "leading_free c now = (case th_window_end c of None \<Rightarrow> now | Some e \<Rightarrow> max now e)"

definition trailing_free :: "'a throttle_core \<Rightarrow> int \<Rightarrow> int" where
  "trailing_free c now = (case th_window_start c of None \<Rightarrow> now + th_window c | Some ws \<Rightarrow> ws + th_window c)"

lemma leading_step:
  assumes "leading_inv c now" and "now \<le> event_time e"
  shows "leading_inv (fst (throttle_step c e)) (event_time e) \<and>
    th_window (fst (throttle_step c e)) = th_window c \<and>
    (snd (throttle_step c e) \<noteq> None \<longrightarrow> leading_free c now \<le> event_time e \<and>
       event_time e + th_window c \<le> leading_free (fst (throttle_step c e)) (event_time e)) \<and>
    leading_free c now \<le> leading_free (fst (throttle_step c e)) (event_time e)"
  using assms
  by (cases e; cases "th_window_end c")
     (auto simp: leading_inv_def leading_free_def throttle_input_def throttle_tick_def)

lemma trailing_step:
  assumes "trailing_inv c now" and "now \<le> event_time e"
  shows "trailing_inv (fst (throttle_step c e)) (event_time e) \<and>
    th_window (fst (throttle_step c e)) = th_window c \<and>
    (snd (throttle_step c e) \<noteq> None \<longrightarrow> trailing_free c now \<le> event_time e \<and>
       event_time e + th_window c \<le> trailing_free (fst (throttle_step c e)) (event_time e)) \<and>
    trailing_free c now \<le> trailing_free (fst (throttle_step c e)) (event_time e)"
  using assms
  by (cases e; cases "th_window_start c")
     (auto simp: trailing_inv_def trailing_free_def throttle_input_def throttle_tick_def Let_def)

lemma throttle_window_same: "th_window (fst (throttle_step c e)) = th_window c"
  by (cases e) (auto simp: throttle_input_def throttle_tick_def Let_def split: throttle_edge.split option.split)

interpretation leading: shaper throttle_step leading_inv leading_free th_window
  by unfold_locales (use leading_step throttle_window_same in blast)+

interpretation trailing: shaper throttle_step trailing_inv trailing_free th_window
  by unfold_locales (use trailing_step throttle_window_same in blast)+

section \<open>Debounce\<close>

text \<open>An emission comes after \<open>quiet\<close> ticks without input, and each needs an input of its own.\<close>

definition debounce_inv :: "'a debounce_core \<Rightarrow> int \<Rightarrow> bool" where
  "debounce_inv c now \<longleftrightarrow> 0 \<le> db_quiet c \<and> (db_armed c \<longrightarrow> db_fire_at c \<le> now + db_quiet c)"

definition debounce_free :: "'a debounce_core \<Rightarrow> int \<Rightarrow> int" where
  "debounce_free c now = (if db_armed c then db_fire_at c else now + db_quiet c)"

lemma debounce_step_ok:
  assumes "debounce_inv c now" and "now \<le> event_time e"
  shows "debounce_inv (fst (debounce_step c e)) (event_time e) \<and>
    db_quiet (fst (debounce_step c e)) = db_quiet c \<and>
    (snd (debounce_step c e) \<noteq> None \<longrightarrow> debounce_free c now \<le> event_time e \<and>
       event_time e + db_quiet c \<le> debounce_free (fst (debounce_step c e)) (event_time e)) \<and>
    debounce_free c now \<le> debounce_free (fst (debounce_step c e)) (event_time e)"
  using assms by (cases e) (auto simp: debounce_inv_def debounce_free_def debounce_input_def debounce_tick_def)

lemma debounce_quiet_same: "db_quiet (fst (debounce_step c e)) = db_quiet c"
  by (cases e) (auto simp: debounce_input_def debounce_tick_def)

interpretation debounce: shaper debounce_step debounce_inv debounce_free db_quiet
  by unfold_locales (use debounce_step_ok debounce_quiet_same in blast)+

text \<open>After a burst of inputs the next tick past the quiet time emits exactly the latest one.\<close>

definition burst :: "'a debounce_core \<Rightarrow> (int \<times> 'a option) list \<Rightarrow> 'a debounce_core" where
  "burst c ins = foldl (\<lambda>c (t, v). debounce_input c t v) c ins"

lemma burst_latest:
  "ins \<noteq> [] \<Longrightarrow> db_pending (burst c ins) = snd (last ins) \<and> db_armed (burst c ins) \<and>
     db_fire_at (burst c ins) = fst (last ins) + db_quiet c \<and> db_quiet (burst c ins) = db_quiet c"
  unfolding burst_def
proof (induction ins rule: rev_induct)
  case (snoc x ins)
  then show ?case by (cases "ins = []") (auto simp: debounce_input_def split_beta)
qed simp

section \<open>Sampling\<close>

fun sample_inputs :: "'a sample_core \<Rightarrow> 'a list \<Rightarrow> 'a sample_core \<times> 'a list" where
  "sample_inputs c [] = (c, [])"
| "sample_inputs c (v # vs) =
     (case sample_input c (Some v) of (c1, out) \<Rightarrow>
        (case sample_inputs c1 vs of (c2, outs) \<Rightarrow> (c2, (case out of None \<Rightarrow> [] | Some w \<Rightarrow> [w]) @ outs)))"

text \<open>Count mode passes the inputs whose position is a multiple of \<open>n\<close>.\<close>

lemma sample_count_positions:
  "sa_mode c = Count_mode n \<Longrightarrow>
     snd (sample_inputs c vs) =
       map snd (filter (\<lambda>x. (sa_counter c + int (fst x)) mod max n 1 = 0) (enumerate 1 vs))"
proof (induction vs arbitrary: c)
  case (Cons v vs)
  let ?c = "c\<lparr>sa_counter := sa_counter c + 1\<rparr>" and ?S = "\<lambda>x. (Suc (fst x), snd x)"
  have "enumerate 2 vs = map ?S (enumerate 1 vs)"
    by (intro nth_equalityI) (auto simp: nth_enumerate_eq)
  then have "map snd (filter (\<lambda>x. (sa_counter c + int (fst x)) mod max n 1 = 0) (enumerate 2 vs)) =
      map snd (filter (\<lambda>x. (sa_counter ?c + int (fst x)) mod max n 1 = 0) (enumerate 1 vs))"
    by (simp add: filter_map comp_def add.assoc)
  then show ?case using Cons.IH [of ?c] Cons.prems
    by (auto simp: sample_input_def Let_def split_beta numeral_2_eq_2)
qed simp

text \<open>In time mode the sampler fires on the edges of an interval of its period.\<close>

definition interval_of :: "int \<Rightarrow> 'a sample_core \<Rightarrow> interval_core" where
  "interval_of p c = \<lparr>ic_period = max p 1, ic_next = sa_next c, ic_count = sa_next c div max p 1 - 1\<rparr>"

lemma sample_tick_interval:
  assumes "sa_mode c = Time_mode p"
  shows "ic_next (interval_of p (fst (sample_tick c now))) = ic_next (fst (interval_tick (interval_of p c) now)) \<and>
    snd (sample_tick c now) = (if snd (interval_tick (interval_of p c) now) then sa_held c else None)"
proof -
  have "0 \<le> (now - sa_next c) div max p 1" if "sa_next c \<le> now"
    using that by (simp add: pos_imp_zdiv_nonneg_iff max_def)
  then show ?thesis using assms
    by (auto simp: sample_tick_def Let_def interval_of_def interval_tick_def fires_this_tick_def)
qed

section \<open>The generator\<close>

lemma draw_range: "0 \<le> snd (next_f64 st) \<and> snd (next_f64 st) < 1"
proof -
  let ?z = "splitmix (st + 0x9E3779B97F4A7C15)"
  have "unat (drop_bit 11 ?z) = unat ?z div 2 ^ 11" by (simp only: unat_drop_bit_eq) (simp only: drop_bit_eq_div)
  also have "\<dots> < 2 ^ 53" using unsigned_less [of ?z] by (simp add: div_less_iff_less_mult)
  finally have hi: "real (unat (drop_bit 11 ?z)) < 2 ^ 53" by (metis of_nat_less_iff of_nat_numeral of_nat_power)
  have lo: "0 \<le> real (unat (drop_bit 11 ?z))" by (rule of_nat_0_le_iff)
  have "0 \<le> x / 2 ^ 53 \<and> x / 2 ^ 53 < 1" if "0 \<le> x" and "x < 2 ^ 53" for x :: real using that by simp
  from this [OF lo hi] show ?thesis by (simp only: next_f64_def Let_def snd_conv)
qed

text \<open>The state after \<open>n\<close> draws; distinct draws of one period have distinct states.\<close>

fun lcg_state :: "64 word \<Rightarrow> nat \<Rightarrow> 64 word" where
  "lcg_state st 0 = st"
| "lcg_state st (Suc n) = lcg_state (fst (next_f64 st)) n"

lemma lcg_state_closed: "lcg_state st n = st + of_nat n * 0x9E3779B97F4A7C15"
  by (induction n arbitrary: st) (simp_all add: next_f64_def Let_def algebra_simps)

lemma gamma_inverse: "(0x9E3779B97F4A7C15 :: 64 word) * 0xF1DE83E19937733D = 1"
  by simp

lemma lcg_period:
  assumes "i < 2 ^ 64" and "j < 2 ^ 64" and "lcg_state st i = lcg_state st j"
  shows "i = j"
proof -
  have "of_nat i * (0x9E3779B97F4A7C15 :: 64 word) * 0xF1DE83E19937733D =
      of_nat j * 0x9E3779B97F4A7C15 * 0xF1DE83E19937733D"
    using assms(3) by (simp only: lcg_state_closed add_left_cancel)
  then have "(of_nat i :: 64 word) = of_nat j" by (simp only: mult.assoc gamma_inverse mult_1_right)
  then have "unat (of_nat i :: 64 word) = unat (of_nat j :: 64 word)" by simp
  then show ?thesis using assms(1,2) by (simp add: unsigned_of_nat take_bit_nat_eq_self)
qed

end
