(* ===== verification/Windowing.thy ===== *)
theory Windowing
  imports Merge
begin

text \<open>
  Stream windowing, \<^verbatim>\<open>src/lazily/windowing.py\<close>: tumbling (by count and by time), sliding and
  session windows. A core keeps the window's bookkeeping and folds the elements under a
  merge policy; the cell projects the last emitted aggregate. An accumulator that is
  \<^verbatim>\<open>None\<close> in the source is \<open>None\<close> here, so the stream's elements are values other than
  Python's \<^verbatim>\<open>None\<close>. Time is the logical clock, a Python integer.
\<close>

definition merge_into :: "'a option \<Rightarrow> 'a \<Rightarrow> 'a merge_policy \<Rightarrow> 'a" where
  "merge_into acc v p = (case acc of None \<Rightarrow> v | Some a \<Rightarrow> mp_merge p a v)"

definition fold_window_of :: "'a list \<Rightarrow> 'a merge_policy \<Rightarrow> 'a option" where
  "fold_window_of items p = foldl (\<lambda>acc v. Some (merge_into acc v p)) None items"

section \<open>Tumbling window by count\<close>

record 'a count_core =
  tn_n :: int
  tn_policy :: "'a merge_policy"
  tn_acc :: "'a option"
  tn_count :: int

definition count_core_new :: "int \<Rightarrow> 'a merge_policy \<Rightarrow> 'a count_core" where
  "count_core_new n p = \<lparr>tn_n = max n 1, tn_policy = p, tn_acc = None, tn_count = 0\<rparr>"

definition tn_push :: "'a count_core \<Rightarrow> 'a \<Rightarrow> 'a count_core \<times> 'a option" where
  "tn_push c v =
     (let c1 = c\<lparr>tn_acc := Some (merge_into (tn_acc c) v (tn_policy c)), tn_count := tn_count c + 1\<rparr>
      in if tn_count c1 \<ge> tn_n c1 then (c1\<lparr>tn_count := 0, tn_acc := None\<rparr>, tn_acc c1) else (c1, None))"

section \<open>Tumbling window by time\<close>

record 'a time_core =
  tt_period :: int
  tt_next :: int
  tt_policy :: "'a merge_policy"
  tt_acc :: "'a option"

definition time_core_new :: "int \<Rightarrow> 'a merge_policy \<Rightarrow> 'a time_core" where
  "time_core_new period p =
     (let q = max period 1 in \<lparr>tt_period = q, tt_next = q, tt_policy = p, tt_acc = None\<rparr>)"

definition tt_push :: "'a time_core \<Rightarrow> int \<Rightarrow> 'a \<Rightarrow> 'a time_core" where
  "tt_push c now v = c\<lparr>tt_acc := Some (merge_into (tt_acc c) v (tt_policy c))\<rparr>"

text \<open>
  The loop \<^verbatim>\<open>while self._next <= now\<close>. Its step is positive in every core the constructor
  makes; the extra guard only makes the recursion total.
\<close>

function roll_next :: "int \<Rightarrow> int \<Rightarrow> int \<Rightarrow> int" where
  "roll_next period nxt now =
     (if nxt \<le> now \<and> 0 < period then roll_next period (nxt + period) now else nxt)"
  by pat_completeness auto
termination by (relation "measure (\<lambda>(period, nxt, now). nat (now - nxt + 1))") auto

definition tt_tick :: "'a time_core \<Rightarrow> int \<Rightarrow> 'a time_core \<times> 'a option" where
  "tt_tick c now =
     (if now < tt_next c then (c, None)
      else (c\<lparr>tt_next := roll_next (tt_period c) (tt_next c) now, tt_acc := None\<rparr>, tt_acc c))"

section \<open>Sliding window\<close>

record 'a slide_core =
  sd_size :: int
  sd_slide :: int
  sd_policy :: "'a merge_policy"
  sd_buffer :: "'a list"
  sd_since :: int

definition slide_core_new :: "int \<Rightarrow> int \<Rightarrow> 'a merge_policy \<Rightarrow> 'a slide_core" where
  "slide_core_new sz slide p =
     \<lparr>sd_size = max sz 1, sd_slide = max slide 1, sd_policy = p, sd_buffer = [], sd_since = 0\<rparr>"

text \<open>The loop that drops from the front while the buffer is longer than the size.\<close>

fun trim_front :: "int \<Rightarrow> 'a list \<Rightarrow> 'a list" where
  "trim_front m [] = []"
| "trim_front m (x # xs) = (if int (length (x # xs)) > m then trim_front m xs else x # xs)"

definition sd_push :: "'a slide_core \<Rightarrow> 'a \<Rightarrow> 'a slide_core \<times> 'a option" where
  "sd_push c v =
     (let c1 = c\<lparr>sd_buffer := trim_front (sd_size c) (sd_buffer c @ [v]), sd_since := sd_since c + 1\<rparr>
      in if sd_since c1 \<ge> sd_slide c1
         then (c1\<lparr>sd_since := 0\<rparr>, fold_window_of (sd_buffer c1) (sd_policy c1))
         else (c1, None))"

section \<open>Session window\<close>

record 'a session_core =
  ss_gap :: int
  ss_policy :: "'a merge_policy"
  ss_acc :: "'a option"
  ss_last :: "int option"

definition session_core_new :: "int \<Rightarrow> 'a merge_policy \<Rightarrow> 'a session_core" where
  "session_core_new gap p = \<lparr>ss_gap = gap, ss_policy = p, ss_acc = None, ss_last = None\<rparr>"

definition ss_idle :: "'a session_core \<Rightarrow> int \<Rightarrow> bool" where
  "ss_idle c now \<longleftrightarrow>
     (case ss_last c of None \<Rightarrow> False | Some l \<Rightarrow> max (now - l) 0 > ss_gap c \<and> ss_acc c \<noteq> None)"

definition ss_push :: "'a session_core \<Rightarrow> int \<Rightarrow> 'a \<Rightarrow> 'a session_core \<times> 'a option" where
  "ss_push c now v =
     (if ss_idle c now then (c\<lparr>ss_acc := Some v, ss_last := Some now\<rparr>, ss_acc c)
      else (c\<lparr>ss_acc := Some (merge_into (ss_acc c) v (ss_policy c)), ss_last := Some now\<rparr>, None))"

definition ss_flush :: "'a session_core \<Rightarrow> int \<Rightarrow> 'a session_core \<times> 'a option" where
  "ss_flush c now = (if ss_idle c now then (c\<lparr>ss_acc := None\<rparr>, ss_acc c) else (c, None))"

section \<open>The reactive cells\<close>

text \<open>Each of the four cell classes is a core and an output cell holding an option.\<close>

record ('c, 'a) window_cell =
  wn_core :: 'c
  wn_out :: "'a option cell"

definition wn_project :: "('c, 'a) window_cell \<Rightarrow> 'c \<times> 'a option \<Rightarrow> ('c, 'a) window_cell \<times> 'a option" where
  "wn_project w r =
     (case r of (c, emit) \<Rightarrow>
        ((case emit of
            None \<Rightarrow> w\<lparr>wn_core := c\<rparr>
          | Some _ \<Rightarrow> w\<lparr>wn_core := c, wn_out := cell_set (wn_out w) emit\<rparr>), emit))"

definition count_cell_new :: "int \<Rightarrow> 'a merge_policy \<Rightarrow> ('a count_core, 'a) window_cell" where
  "count_cell_new n p = \<lparr>wn_core = count_core_new n p, wn_out = cell_new None\<rparr>"

definition count_cell_push ::
  "('a count_core, 'a) window_cell \<Rightarrow> 'a \<Rightarrow> ('a count_core, 'a) window_cell \<times> 'a option" where
  "count_cell_push w v = wn_project w (tn_push (wn_core w) v)"

definition time_cell_new :: "int \<Rightarrow> 'a merge_policy \<Rightarrow> ('a time_core, 'a) window_cell" where
  "time_cell_new period p = \<lparr>wn_core = time_core_new period p, wn_out = cell_new None\<rparr>"

definition time_cell_push ::
  "('a time_core, 'a) window_cell \<Rightarrow> int \<Rightarrow> 'a \<Rightarrow> ('a time_core, 'a) window_cell" where
  "time_cell_push w now v = w\<lparr>wn_core := tt_push (wn_core w) now v\<rparr>"

definition time_cell_tick ::
  "('a time_core, 'a) window_cell \<Rightarrow> int \<Rightarrow> ('a time_core, 'a) window_cell \<times> 'a option" where
  "time_cell_tick w now = wn_project w (tt_tick (wn_core w) now)"

definition slide_cell_new :: "int \<Rightarrow> int \<Rightarrow> 'a merge_policy \<Rightarrow> ('a slide_core, 'a) window_cell" where
  "slide_cell_new sz slide p = \<lparr>wn_core = slide_core_new sz slide p, wn_out = cell_new None\<rparr>"

definition slide_cell_push ::
  "('a slide_core, 'a) window_cell \<Rightarrow> 'a \<Rightarrow> ('a slide_core, 'a) window_cell \<times> 'a option" where
  "slide_cell_push w v = wn_project w (sd_push (wn_core w) v)"

definition session_cell_new :: "int \<Rightarrow> 'a merge_policy \<Rightarrow> ('a session_core, 'a) window_cell" where
  "session_cell_new gap p = \<lparr>wn_core = session_core_new gap p, wn_out = cell_new None\<rparr>"

definition session_cell_push ::
  "('a session_core, 'a) window_cell \<Rightarrow> int \<Rightarrow> 'a \<Rightarrow> ('a session_core, 'a) window_cell \<times> 'a option" where
  "session_cell_push w now v = wn_project w (ss_push (wn_core w) now v)"

definition session_cell_flush ::
  "('a session_core, 'a) window_cell \<Rightarrow> int \<Rightarrow> ('a session_core, 'a) window_cell \<times> 'a option" where
  "session_cell_flush w now = wn_project w (ss_flush (wn_core w) now)"

definition window_output :: "('c, 'a) window_cell \<Rightarrow> cell_error + 'a option" where
  "window_output w = cell_get (wn_out w)"

chapter \<open>Properties\<close>

text \<open>
  What the windows promise. The locale \<open>partition_window\<close> is the contract of the windows that
  cut the stream into disjoint parts (tumbling by count, by time, session): nothing is lost
  or counted twice, whatever associative policy folds them. The count-based windows also
  have closed forms, and the session window is compared with a splitter of the whole stream.
\<close>

section \<open>Runs of a window\<close>

fun outs :: "('c \<Rightarrow> 'i \<Rightarrow> 'c \<times> 'a option) \<Rightarrow> 'c \<Rightarrow> 'i list \<Rightarrow> 'a option list" where
  "outs st c [] = []"
| "outs st c (i # xs) = (case st c i of (c', e) \<Rightarrow> e # outs st c' xs)"

fun window_after :: "('c \<Rightarrow> 'i \<Rightarrow> 'c \<times> 'a option) \<Rightarrow> 'c \<Rightarrow> 'i list \<Rightarrow> 'c" where
  "window_after st c [] = c"
| "window_after st c (i # xs) = window_after st (fst (st c i)) xs"

definition emitted :: "'a option list \<Rightarrow> 'a list" where
  "emitted es = List.map_filter (\<lambda>e. e) es"

lemma emitted_simps [simp]:
  "emitted [] = []" "emitted (None # es) = emitted es" "emitted (Some v # es) = v # emitted es"
  by (simp_all add: emitted_def List.map_filter_def)

lemma outs_snoc: "outs st c (xs @ [x]) = outs st c xs @ [snd (st (window_after st c xs) x)]"
  by (induction xs arbitrary: c) (auto split: prod.split)

lemma window_after_snoc [simp]: "window_after st c (xs @ [x]) = fst (st (window_after st c xs) x)"
  by (induction xs arbitrary: c) auto

lemma length_outs [simp]: "length (outs st c xs) = length xs"
  by (induction xs arbitrary: c) (auto split: prod.split)

section \<open>Folding with an empty accumulator\<close>

definition opt_merge :: "'a merge_policy \<Rightarrow> 'a option \<Rightarrow> 'a option \<Rightarrow> 'a option" where
  "opt_merge p a b =
     (case b of None \<Rightarrow> a | Some y \<Rightarrow> Some (merge_into a y p))"

lemma fold_window_simps [simp]:
  "fold_window_of [] p = None"
  "fold_window_of (xs @ [v]) p = Some (merge_into (fold_window_of xs p) v p)"
  "fold_window_of [v] p = Some v"
  by (simp_all add: fold_window_of_def merge_into_def)

lemma fold_window_none [simp]: "fold_window_of xs p = None \<longleftrightarrow> xs = []"
  by (cases xs rule: rev_cases) auto

lemma merge_into_none [simp]: "merge_into None v p = v"
  by (simp add: merge_into_def)

lemma opt_merge_none [simp]: "opt_merge p a None = a" "opt_merge p None b = b"
  by (auto simp: opt_merge_def merge_into_def split: option.split)

lemma opt_merge_some: "opt_merge p a (Some v) = Some (merge_into a v p)"
  by (simp add: opt_merge_def)

lemma opt_merge_assoc:
  "merge_law p \<Longrightarrow> opt_merge p (opt_merge p a b) c = opt_merge p a (opt_merge p b c)"
  by (auto simp: opt_merge_def merge_into_def merge_law.assoc split: option.split)

lemma fold_window_append:
  "merge_law p \<Longrightarrow> fold_window_of (xs @ ys) p = opt_merge p (fold_window_of xs p) (fold_window_of ys p)"
proof (induction ys rule: rev_induct)
  case (snoc y ys)
  have "fold_window_of (xs @ ys @ [y]) p = opt_merge p (fold_window_of (xs @ ys) p) (Some y)"
    using fold_window_simps(2) [of "xs @ ys" y p] by (simp add: opt_merge_some)
  then show ?case using snoc by (simp add: opt_merge_assoc flip: opt_merge_some)
qed simp

lemma fold_window_cons:
  "merge_law p \<Longrightarrow> fold_window_of (x # xs) p = opt_merge p (Some x) (fold_window_of xs p)"
  using fold_window_append [of p "[x]" xs] by simp

section \<open>Windows that partition the stream\<close>

locale partition_window =
  fixes st :: "'c \<Rightarrow> 'i \<Rightarrow> 'c \<times> 'a option"
    and payload :: "'i \<Rightarrow> 'a list"
    and pending :: "'c \<Rightarrow> 'a option"
    and pol :: "'c \<Rightarrow> 'a merge_policy"
    and inv :: "'c \<Rightarrow> bool"
  assumes lawful: "inv c \<Longrightarrow> merge_law (pol c)"
    and keep: "inv c \<Longrightarrow> inv (fst (st c i))"
    and same_policy: "pol (fst (st c i)) = pol c"
    and balance: "inv c \<Longrightarrow> opt_merge (pol c) (snd (st c i)) (pending (fst (st c i))) =
      opt_merge (pol c) (pending c) (fold_window_of (payload i) (pol c))"
begin

lemma lossless:
  "inv c \<Longrightarrow>
     opt_merge (pol c) (fold_window_of (emitted (outs st c xs)) (pol c)) (pending (window_after st c xs)) =
     opt_merge (pol c) (pending c) (fold_window_of (concat (map payload xs)) (pol c))"
proof (induction xs arbitrary: c)
  case (Cons i xs)
  obtain c' e where s: "st c i = (c', e)" by fastforce
  have c': "inv c'" "pol c' = pol c" using keep [OF Cons.prems, of i] same_policy [of c i] by (simp_all add: s)
  have law: "merge_law (pol c)" by (rule lawful [OF Cons.prems])
  have head: "fold_window_of (emitted (e # es)) (pol c) = opt_merge (pol c) e (fold_window_of (emitted es) (pol c))" for es
    by (cases e) (simp_all add: fold_window_cons [OF law])
  show ?case
    using Cons.IH [OF c'(1)] balance [OF Cons.prems, of i]
    by (simp add: s c'(2) head opt_merge_assoc [OF law] fold_window_append [OF law])
       (simp flip: opt_merge_assoc [OF law])
qed simp

end

datatype 'a window_input = Push int 'a | Tick int

fun carried :: "'a window_input \<Rightarrow> 'a list" where
  "carried (Push now v) = [v]"
| "carried (Tick now) = []"

fun time_step :: "'a time_core \<Rightarrow> 'a window_input \<Rightarrow> 'a time_core \<times> 'a option" where
  "time_step c (Push now v) = (tt_push c now v, None)"
| "time_step c (Tick now) = tt_tick c now"

fun session_step :: "'a session_core \<Rightarrow> 'a window_input \<Rightarrow> 'a session_core \<times> 'a option" where
  "session_step c (Push now v) = ss_push c now v"
| "session_step c (Tick now) = ss_flush c now"

interpretation count_window: partition_window tn_push "\<lambda>v. [v]" tn_acc tn_policy "\<lambda>c. merge_law (tn_policy c)"
  by (rule partition_window.intro) (auto simp: tn_push_def Let_def opt_merge_some)

interpretation time_window: partition_window time_step carried tt_acc tt_policy "\<lambda>c. merge_law (tt_policy c)"
proof (rule partition_window.intro)
  fix c :: "'a time_core" and i
  assume "merge_law (tt_policy c)"
  then show "merge_law (tt_policy c)" .
next
  fix c :: "'a time_core" and i
  assume "merge_law (tt_policy c)"
  then show "merge_law (tt_policy (fst (time_step c i)))"
    by (cases i) (auto simp: tt_push_def tt_tick_def)
next
  fix c :: "'a time_core" and i
  show "tt_policy (fst (time_step c i)) = tt_policy c"
    by (cases i) (auto simp: tt_push_def tt_tick_def)
next
  fix c :: "'a time_core" and i
  show "opt_merge (tt_policy c) (snd (time_step c i)) (tt_acc (fst (time_step c i))) =
    opt_merge (tt_policy c) (tt_acc c) (fold_window_of (carried i) (tt_policy c))"
    by (cases i) (auto simp: tt_push_def tt_tick_def opt_merge_some)
qed

interpretation session_window:
  partition_window session_step carried ss_acc ss_policy "\<lambda>c. merge_law (ss_policy c)"
proof (rule partition_window.intro)
  fix c :: "'a session_core" and i
  assume "merge_law (ss_policy c)"
  then show "merge_law (ss_policy c)" .
next
  fix c :: "'a session_core" and i
  assume "merge_law (ss_policy c)"
  then show "merge_law (ss_policy (fst (session_step c i)))"
    by (cases i) (auto simp: ss_push_def ss_flush_def)
next
  fix c :: "'a session_core" and i
  show "ss_policy (fst (session_step c i)) = ss_policy c"
    by (cases i) (auto simp: ss_push_def ss_flush_def)
next
  fix c :: "'a session_core" and i
  show "opt_merge (ss_policy c) (snd (session_step c i)) (ss_acc (fst (session_step c i))) =
    opt_merge (ss_policy c) (ss_acc c) (fold_window_of (carried i) (ss_policy c))"
    by (cases i) (auto simp: ss_push_def ss_flush_def opt_merge_some)
qed

section \<open>Closed forms of the count-based windows\<close>

text \<open>The last \<open>m\<close> elements.\<close>

definition last_n :: "nat \<Rightarrow> 'a list \<Rightarrow> 'a list" where
  "last_n m xs = drop (length xs - m) xs"

lemma last_n_snoc: "last_n (Suc m) (xs @ [x]) = last_n m xs @ [x]"
  by (simp add: last_n_def)

lemma last_n_0 [simp]: "last_n 0 xs = []"
  by (simp add: last_n_def)

lemma last_n_last_n: "a \<le> b \<Longrightarrow> last_n a (last_n b xs) = last_n a xs"
  by (auto simp: last_n_def intro!: arg_cong [of _ _ "\<lambda>k. drop k xs"])

lemma trim_front_last: "0 < m \<Longrightarrow> trim_front (int m) xs = last_n m xs"
proof (induction xs)
  case (Cons x xs)
  then show ?case by (cases "length xs < m") (auto simp: last_n_def Suc_diff_le)
qed (simp add: last_n_def)

lemma last_n_last_n_snoc: "0 < m \<Longrightarrow> last_n m (last_n m xs @ [x]) = last_n m (xs @ [x])"
  by (cases m) (simp_all add: last_n_snoc last_n_last_n)

text \<open>A counter that wraps at \<open>k\<close> is full exactly at the multiples of \<open>k\<close>.\<close>

lemma wraps_at: "0 < k \<Longrightarrow> int k \<le> int (m mod k) + 1 \<longleftrightarrow> Suc (m mod k) = k"
  using mod_less_divisor [of k m] by linarith

lemma full_iff: "0 < k \<Longrightarrow> k dvd Suc m \<longleftrightarrow> Suc (m mod k) = k"
  by (simp add: dvd_eq_mod_eq_0 mod_Suc)

lemma slide_after:
  fixes p :: "'a merge_policy"
  assumes n: "0 < n" and k: "0 < k"
  defines "c xs \<equiv> window_after sd_push (slide_core_new (int n) (int k) p) xs"
  shows "sd_size (c xs) = int n \<and> sd_slide (c xs) = int k \<and> sd_policy (c xs) = p \<and>
    sd_since (c xs) = int (length xs mod k) \<and> sd_buffer (c xs) = last_n n xs"
  unfolding c_def
proof (induction xs rule: rev_induct)
  case Nil
  then show ?case using n k by (simp add: slide_core_new_def last_n_def)
next
  case (snoc x xs)
  then show ?case
    using n k
    by (auto simp: sd_push_def Let_def trim_front_last last_n_last_n_snoc mod_Suc wraps_at)
qed

lemma slide_emits:
  assumes "0 < n" and "0 < k"
  shows "snd (sd_push (window_after sd_push (slide_core_new (int n) (int k) p) xs) x) =
    (if k dvd Suc (length xs) then fold_window_of (last_n n (xs @ [x])) p else None)"
  using slide_after [OF assms, of p xs] assms
  by (auto simp: sd_push_def Let_def trim_front_last last_n_last_n_snoc wraps_at full_iff)

lemma outs_nth:
  assumes "i < length xs"
  shows "outs st c xs ! i = snd (st (window_after st c (take i xs)) (xs ! i))"
  using assms
proof (induction xs arbitrary: c i)
  case (Cons x xs)
  then show ?case by (cases i) (auto split: prod.split)
qed simp

lemma slide_outs:
  assumes "0 < n" and "0 < k" and "i < length xs"
  shows "outs sd_push (slide_core_new (int n) (int k) p) xs ! i =
    (if k dvd Suc i then fold_window_of (last_n n (take (Suc i) xs)) p else None)"
  using assms slide_emits [OF assms(1,2), of p "take i xs" "xs ! i"]
  by (simp add: outs_nth take_Suc_conv_app_nth min_def)

lemma count_after:
  fixes p :: "'a merge_policy"
  assumes n: "0 < n"
  defines "c xs \<equiv> window_after tn_push (count_core_new (int n) p) xs"
  shows "tn_n (c xs) = int n \<and> tn_policy (c xs) = p \<and> tn_count (c xs) = int (length xs mod n) \<and>
    tn_acc (c xs) = fold_window_of (last_n (length xs mod n) xs) p"
  unfolding c_def
proof (induction xs rule: rev_induct)
  case Nil
  then show ?case using n by (simp add: count_core_new_def last_n_def)
next
  case (snoc x xs)
  then show ?case
    using n by (auto simp: tn_push_def Let_def mod_Suc last_n_snoc wraps_at)
qed

lemma count_emits:
  assumes n: "0 < n"
  shows "snd (tn_push (window_after tn_push (count_core_new (int n) p) xs) x) =
    (if n dvd Suc (length xs) then fold_window_of (last_n n (xs @ [x])) p else None)"
proof (cases "Suc (length xs mod n) = n")
  case True
  have "last_n n (xs @ [x]) = last_n (length xs mod n) xs @ [x]"
    using last_n_snoc [of "length xs mod n" xs x] True by simp
  then show ?thesis
    using count_after [OF n, of p xs] n True by (simp add: tn_push_def Let_def wraps_at full_iff)
next
  case False
  then show ?thesis
    using count_after [OF n, of p xs] n by (simp add: tn_push_def Let_def wraps_at full_iff)
qed

text \<open>A tumbling window is the sliding window whose slide is its size.\<close>

lemma count_is_slide:
  assumes "0 < n"
  shows "outs tn_push (count_core_new (int n) p) xs = outs sd_push (slide_core_new (int n) (int n) p) xs"
  by (induction xs rule: rev_induct) (simp_all add: outs_snoc count_emits slide_emits assms)

section \<open>Period boundaries of the time window\<close>

lemma roll_next_least:
  assumes "0 < d" and "nxt = d * q"
  shows "roll_next d nxt now = (if nxt \<le> now then d * (now div d + 1) else nxt)"
  using assms
proof (induction d nxt now arbitrary: q rule: roll_next.induct)
  case (1 d nxt now)
  show ?case
  proof (cases "nxt \<le> now")
    case True
    have ih: "roll_next d (nxt + d) now = (if nxt + d \<le> now then d * (now div d + 1) else nxt + d)"
      by (rule "1.IH" [of "q + 1"]) (use True "1.prems" in \<open>auto simp: distrib_left\<close>)
    have "now div d = q" if "\<not> nxt + d \<le> now"
      by (rule int_div_pos_eq [of now d q "now - nxt"]) (use that True "1.prems" in auto)
    then show ?thesis
      using True "1.prems" ih
      by (subst roll_next.simps) (auto simp: distrib_left simp del: roll_next.simps)
  qed (use "1.prems" in simp)
qed

declare roll_next.simps [simp del]

definition tick_times :: "'a window_input list \<Rightarrow> int list" where
  "tick_times xs = List.map_filter (\<lambda>i. case i of Push now v \<Rightarrow> None | Tick now \<Rightarrow> Some now) xs"

lemma tick_times_snoc:
  "tick_times (xs @ [Push now v]) = tick_times xs"
  "tick_times (xs @ [Tick now]) = tick_times xs @ [now]"
  by (simp_all add: tick_times_def List.map_filter_def)

definition latest_tick :: "'a window_input list \<Rightarrow> int" where
  "latest_tick xs = foldl max 0 (tick_times xs)"

text \<open>The next boundary is the first multiple of the period after every tick so far.\<close>

lemma time_next:
  fixes p :: "'a merge_policy"
  assumes d: "0 < d"
  defines "c xs \<equiv> window_after time_step (time_core_new d p) xs"
  shows "tt_period (c xs) = d \<and> tt_next (c xs) = d * (latest_tick xs div d + 1)"
  unfolding c_def
proof (induction xs rule: rev_induct)
  case Nil
  then show ?case using d by (simp add: time_core_new_def latest_tick_def tick_times_def Let_def List.map_filter_def)
next
  case (snoc i xs)
  show ?case
  proof (cases i)
    case (Push now v)
    then show ?thesis using snoc by (simp add: tt_push_def latest_tick_def tick_times_snoc)
  next
    case (Tick now)
    let ?c = "window_after time_step (time_core_new d p) xs"
    let ?m = "latest_tick xs"
    have top: "latest_tick (xs @ [Tick now]) = max ?m now" by (simp add: latest_tick_def tick_times_snoc)
    have early: "max ?m now div d = ?m div d" if "now < d * (?m div d + 1)"
    proof (rule antisym)
      have "\<not> ?m div d + 1 \<le> max ?m now div d"
        using that d le_div_mult [OF d, of "?m div d + 1" "max ?m now"]
          le_div_mult [OF d, of "?m div d + 1" ?m] by (auto simp: mult.commute max_def)
      then show "max ?m now div d \<le> ?m div d" by simp
      show "?m div d \<le> max ?m now div d" by (rule zdiv_mono1) (use d in auto)
    qed
    have late: "max ?m now = now" if "d * (?m div d + 1) \<le> now"
    proof -
      have "?m div d + 1 \<le> now div d" using that le_div_mult [OF d, of "?m div d + 1" now] by (simp add: mult.commute)
      then have "\<not> now \<le> ?m" using zdiv_mono1 [of now ?m d] d by auto
      then show ?thesis by simp
    qed
    show ?thesis
      using snoc d early late roll_next_least [of d "tt_next ?c" "?m div d + 1" now]
      unfolding Tick top by (auto simp: tt_tick_def)
  qed
qed

section \<open>Sessions\<close>

text \<open>Splitting a whole timed stream at the gaps, from the right.\<close>

fun split_sessions :: "int \<Rightarrow> (int \<times> 'a) list \<Rightarrow> (int \<times> 'a) list list" where
  "split_sessions gap [] = []"
| "split_sessions gap ((t, v) # xs) =
     (case split_sessions gap xs of
        [] \<Rightarrow> [[(t, v)]]
      | g # gs \<Rightarrow> if max (fst (hd xs) - t) 0 > gap then [(t, v)] # g # gs else ((t, v) # g) # gs)"

lemma split_sessions_nil [simp]: "split_sessions gap xs = [] \<longleftrightarrow> xs = []"
  by (cases xs) (auto split: list.splits if_splits)

lemma split_sessions_concat: "concat (split_sessions gap xs) = xs"
  by (induction xs) (auto split: list.splits)

lemma split_sessions_nonempty: "g \<in> set (split_sessions gap xs) \<Longrightarrow> g \<noteq> []"
  by (induction xs arbitrary: g) (fastforce split: list.splits if_splits)+

lemma split_sessions_within:
  "g \<in> set (split_sessions gap xs) \<Longrightarrow> Suc i < length g \<Longrightarrow> max (fst (g ! Suc i) - fst (g ! i)) 0 \<le> gap"
proof (induction xs arbitrary: g i)
  case (Cons x xs)
  obtain t v where x: "x = (t, v)" by fastforce
  show ?case
  proof (cases "split_sessions gap xs")
    case Nil
    then show ?thesis using Cons.prems by (auto simp: x)
  next
    case split: (Cons h hs)
    have "h \<noteq> []" using split_sessions_nonempty [of h gap xs] split by simp
    moreover have "concat (h # hs) = xs" using split_sessions_concat [of gap xs] by (simp add: split)
    ultimately have first: "fst (hd xs) = fst (h ! 0)" by (auto simp: hd_conv_nth hd_append)
    show ?thesis
      using Cons.prems Cons.IH [of _ i] Cons.IH [of h "i - 1"] split first
      by (cases i) (auto simp: x split: if_splits)
  qed
qed simp

definition session_pushes :: "(int \<times> 'a) list \<Rightarrow> 'a window_input list" where
  "session_pushes xs = map (\<lambda>(t, v). Push t v) xs"

text \<open>Joining an open session in front of the sessions of the rest of the stream.\<close>

definition join_session :: "int \<Rightarrow> int \<Rightarrow> 'a list \<Rightarrow> (int \<times> 'a) list \<Rightarrow> 'a list list" where
  "join_session gap l cur xs =
     (case map (map snd) (split_sessions gap xs) of
        [] \<Rightarrow> [cur]
      | g # gs \<Rightarrow> if max (fst (hd xs) - l) 0 > gap then cur # g # gs else (cur @ g) # gs)"

lemma join_session_step:
  "join_session gap l cur ((t, v) # xs) =
     (if max (t - l) 0 > gap then cur # join_session gap t [v] xs else join_session gap t (cur @ [v]) xs)"
  by (auto simp: join_session_def split: list.splits)

lemma session_run:
  assumes "cur \<noteq> []" and "ss_acc c = fold_window_of cur p" and "ss_last c = Some l"
    and "ss_gap c = gap" and "ss_policy c = p"
  shows "emitted (outs session_step c (session_pushes xs)) @
      [the (ss_acc (window_after session_step c (session_pushes xs)))] =
    map (\<lambda>g. the (fold_window_of g p)) (join_session gap l cur xs)"
  using assms
proof (induction xs arbitrary: c cur l)
  case Nil
  then show ?case by (simp add: session_pushes_def join_session_def)
next
  case (Cons x xs)
  obtain t v where x: "x = (t, v)" by fastforce
  have idle: "ss_idle c t \<longleftrightarrow> max (t - l) 0 > gap"
    using Cons.prems by (simp add: ss_idle_def)
  obtain a where a: "ss_acc c = Some a" "fold_window_of cur p = Some a"
    using Cons.prems(1,2) by (cases "fold_window_of cur p") auto
  show ?case
  proof (cases "ss_idle c t")
    case True
    let ?c = "c\<lparr>ss_acc := Some v, ss_last := Some t\<rparr>"
    have step: "ss_push c t v = (?c, Some a)" using True by (simp add: ss_push_def a)
    show ?thesis
      using Cons.IH [of "[v]" ?c t] Cons.prems True idle
      by (simp add: x session_pushes_def step join_session_step a)
  next
    case False
    let ?c = "c\<lparr>ss_acc := Some (merge_into (Some a) v p), ss_last := Some t\<rparr>"
    have step: "ss_push c t v = (?c, None)"
      using False Cons.prems by (simp add: ss_push_def a)
    show ?thesis
      using Cons.IH [of "cur @ [v]" ?c t] Cons.prems False idle
      by (simp add: x session_pushes_def step join_session_step a)
  qed
qed

lemma session_emits:
  fixes p :: "'a merge_policy" and gap :: int
  assumes "xs \<noteq> []"
  defines "c \<equiv> session_core_new gap p"
  shows "emitted (outs session_step c (session_pushes xs)) @
      [the (ss_acc (window_after session_step c (session_pushes xs)))] =
    map (\<lambda>g. the (fold_window_of (map snd g) p)) (split_sessions gap xs)"
proof -
  obtain t v ys where xs: "xs = (t, v) # ys" using assms(1) by (cases xs) auto
  let ?c = "c\<lparr>ss_acc := Some v, ss_last := Some t\<rparr>"
  have step: "ss_push c t v = (?c, None)"
    by (simp add: c_def session_core_new_def ss_push_def ss_idle_def)
  have join: "map (map snd) (split_sessions gap xs) = join_session gap t [v] ys"
    by (auto simp: xs join_session_def split: list.splits)
  have "map (\<lambda>g. the (fold_window_of g p)) (join_session gap t [v] ys) =
    emitted (outs session_step ?c (session_pushes ys)) @
      [the (ss_acc (window_after session_step ?c (session_pushes ys)))]"
    by (rule session_run [symmetric]) (simp_all add: c_def session_core_new_def)
  then show ?thesis using step by (simp add: xs session_pushes_def comp_def flip: join [unfolded xs])
qed

section \<open>Cells\<close>

text \<open>The output cell holds the last emission, and a step without one leaves it alone.\<close>

lemma wn_project_out:
  assumes "live (wn_out w)"
  shows "wn_project w r = (w', e) \<Longrightarrow>
    wn_core w' = fst r \<and> e = snd r \<and> live (wn_out w') \<and>
    (e = None \<longrightarrow> wn_out w' = wn_out w) \<and> (e \<noteq> None \<longrightarrow> window_output w' = Inr e)"
  using assms by (auto simp: wn_project_def window_output_def cell_get_set split: prod.splits option.splits)

end
