(* ===== verification/Resilience.thy ===== *)
theory Resilience
  imports Windowing "HOL-Library.Word" Temporal
begin

text \<open>
  The fault-tolerance primitives of \<^verbatim>\<open>src/lazily/resilience.py\<close>: circuit breaker, retry
  backoff, bulkhead and timeout. Each core is a state machine over the logical clock; its
  cell projects the salient reader after every call (the write happens in a batch of its own,
  so it is one guarded write).
\<close>

section \<open>Circuit breaker\<close>

datatype breaker_state = CLOSED | OPEN | HALF_OPEN

record breaker_core =
  bk_window :: int
  bk_threshold :: int
  bk_reset_timeout :: int
  bk_state :: breaker_state
  bk_outcomes :: "bool list"
  bk_open_until :: int

definition breaker_core_new :: "int \<Rightarrow> int \<Rightarrow> int \<Rightarrow> breaker_core" where
  "breaker_core_new window threshold reset_timeout =
     \<lparr>bk_window = max window 1, bk_threshold = max threshold 1, bk_reset_timeout = reset_timeout,
      bk_state = CLOSED, bk_outcomes = [], bk_open_until = 0\<rparr>"

definition failures :: "breaker_core \<Rightarrow> int" where
  "failures c = int (length (filter Not (bk_outcomes c)))"

definition breaker_allow :: "breaker_core \<Rightarrow> int \<Rightarrow> breaker_core \<times> bool" where
  "breaker_allow c now =
     (case bk_state c of
        CLOSED \<Rightarrow> (c, True)
      | OPEN \<Rightarrow> if now \<ge> bk_open_until c then (c\<lparr>bk_state := HALF_OPEN\<rparr>, True) else (c, False)
      | HALF_OPEN \<Rightarrow> (c, True))"

definition breaker_record :: "breaker_core \<Rightarrow> bool \<Rightarrow> int \<Rightarrow> breaker_core" where
  "breaker_record c success now =
     (case bk_state c of
        HALF_OPEN \<Rightarrow>
          if success then c\<lparr>bk_state := CLOSED, bk_outcomes := []\<rparr>
          else c\<lparr>bk_state := OPEN, bk_open_until := now + bk_reset_timeout c\<rparr>
      | CLOSED \<Rightarrow>
          let c1 = c\<lparr>bk_outcomes := trim_front (bk_window c) (bk_outcomes c @ [success])\<rparr>
          in if failures c1 \<ge> bk_threshold c1
             then c1\<lparr>bk_state := OPEN, bk_open_until := now + bk_reset_timeout c1\<rparr> else c1
      | OPEN \<Rightarrow> c)"

record breaker_cell =
  bc_breaker :: breaker_core
  bc_state :: "breaker_state cell"

definition breaker_cell_new :: "int \<Rightarrow> int \<Rightarrow> int \<Rightarrow> breaker_cell" where
  "breaker_cell_new window threshold reset_timeout =
     \<lparr>bc_breaker = breaker_core_new window threshold reset_timeout, bc_state = cell_new CLOSED\<rparr>"

definition bk_refresh :: "breaker_cell \<Rightarrow> breaker_cell" where
  "bk_refresh b = b\<lparr>bc_state := cell_set (bc_state b) (bk_state (bc_breaker b))\<rparr>"

definition bc_allow :: "breaker_cell \<Rightarrow> int \<Rightarrow> breaker_cell \<times> bool" where
  "bc_allow b now = (let (c, r) = breaker_allow (bc_breaker b) now in (bk_refresh (b\<lparr>bc_breaker := c\<rparr>), r))"

definition bc_record :: "breaker_cell \<Rightarrow> bool \<Rightarrow> int \<Rightarrow> breaker_cell" where
  "bc_record b success now = bk_refresh (b\<lparr>bc_breaker := breaker_record (bc_breaker b) success now\<rparr>)"

section \<open>Retry backoff\<close>

text \<open>Python raises \<^verbatim>\<open>ValueError\<close> on a negative shift count.\<close>

datatype shift_error = Negative_shift_count

record retry_core =
  rt_base :: int
  rt_cap :: int
  rt_attempt :: int

definition u64_mask :: int where
  "u64_mask = 2 ^ 64 - 1"

definition u32_max :: int where
  "u32_max = 2 ^ 32 - 1"

definition retry_core_new :: "int \<Rightarrow> int \<Rightarrow> retry_core" where
  "retry_core_new base cap = \<lparr>rt_base = base, rt_cap = cap, rt_attempt = 0\<rparr>"

definition retry_delay :: "retry_core \<Rightarrow> int \<Rightarrow> shift_error + int" where
  "retry_delay c attempt =
     (if attempt \<ge> 64 then Inr (rt_cap c)
      else if attempt < 0 then Inl Negative_shift_count
      else let shifted = and (push_bit (nat attempt) (rt_base c)) u64_mask in Inr (min (rt_cap c) shifted))"

definition retry_next_delay :: "retry_core \<Rightarrow> (shift_error + int) \<times> retry_core" where
  "retry_next_delay c =
     (case retry_delay c (rt_attempt c) of
        Inl e \<Rightarrow> (Inl e, c)
      | Inr d \<Rightarrow> (Inr d, c\<lparr>rt_attempt := min (rt_attempt c + 1) u32_max\<rparr>))"

definition retry_reset :: "retry_core \<Rightarrow> retry_core" where
  "retry_reset c = c\<lparr>rt_attempt := 0\<rparr>"

record retry_cell =
  rc_core :: retry_core
  rc_delay :: "int cell"

definition retry_cell_new :: "int \<Rightarrow> int \<Rightarrow> retry_cell" where
  "retry_cell_new base cap = \<lparr>rc_core = retry_core_new base cap, rc_delay = cell_new 0\<rparr>"

definition rc_next_delay :: "retry_cell \<Rightarrow> (shift_error + int) \<times> retry_cell" where
  "rc_next_delay r =
     (case retry_next_delay (rc_core r) of
        (Inl e, c) \<Rightarrow> (Inl e, r\<lparr>rc_core := c\<rparr>)
      | (Inr d, c) \<Rightarrow> (Inr d, r\<lparr>rc_core := c, rc_delay := cell_set (rc_delay r) d\<rparr>))"

definition rc_reset :: "retry_cell \<Rightarrow> retry_cell" where
  "rc_reset r = r\<lparr>rc_core := retry_reset (rc_core r), rc_delay := cell_set (rc_delay r) 0\<rparr>"

section \<open>Bulkhead\<close>

record bulkhead_core =
  bh_capacity :: int
  bh_in_use :: int

definition bulkhead_core_new :: "int \<Rightarrow> bulkhead_core" where
  "bulkhead_core_new capacity = \<lparr>bh_capacity = capacity, bh_in_use = 0\<rparr>"

definition bulkhead_acquire :: "bulkhead_core \<Rightarrow> bulkhead_core \<times> bool" where
  "bulkhead_acquire c =
     (if bh_in_use c < bh_capacity c then (c\<lparr>bh_in_use := bh_in_use c + 1\<rparr>, True) else (c, False))"

definition bulkhead_release :: "bulkhead_core \<Rightarrow> bulkhead_core" where
  "bulkhead_release c = (if bh_in_use c > 0 then c\<lparr>bh_in_use := bh_in_use c - 1\<rparr> else c)"

record bulkhead_cell =
  bb_core :: bulkhead_core
  bb_in_use :: "int cell"

definition bulkhead_cell_new :: "int \<Rightarrow> bulkhead_cell" where
  "bulkhead_cell_new capacity = \<lparr>bb_core = bulkhead_core_new capacity, bb_in_use = cell_new 0\<rparr>"

definition bb_refresh :: "bulkhead_cell \<Rightarrow> bulkhead_cell" where
  "bb_refresh b = b\<lparr>bb_in_use := cell_set (bb_in_use b) (bh_in_use (bb_core b))\<rparr>"

definition bb_acquire :: "bulkhead_cell \<Rightarrow> bulkhead_cell \<times> bool" where
  "bb_acquire b = (let (c, r) = bulkhead_acquire (bb_core b) in (bb_refresh (b\<lparr>bb_core := c\<rparr>), r))"

definition bb_release :: "bulkhead_cell \<Rightarrow> bulkhead_cell" where
  "bb_release b = bb_refresh (b\<lparr>bb_core := bulkhead_release (bb_core b)\<rparr>)"

section \<open>Timeout\<close>

record timeout_core =
  to_deadline :: int
  to_armed :: bool
  to_timed_out :: bool

definition timeout_core_new :: timeout_core where
  "timeout_core_new = \<lparr>to_deadline = 0, to_armed = False, to_timed_out = False\<rparr>"

definition timeout_arm :: "timeout_core \<Rightarrow> int \<Rightarrow> int \<Rightarrow> timeout_core" where
  "timeout_arm c now t = c\<lparr>to_deadline := now + t, to_armed := True, to_timed_out := False\<rparr>"

definition timeout_tick :: "timeout_core \<Rightarrow> int \<Rightarrow> timeout_core \<times> bool" where
  "timeout_tick c now =
     (if to_armed c \<and> \<not> to_timed_out c \<and> now \<ge> to_deadline c then (c\<lparr>to_timed_out := True\<rparr>, True)
      else (c, False))"

record timeout_cell =
  ta_core :: timeout_core
  ta_timed_out :: "bool cell"

definition timeout_cell_new :: timeout_cell where
  "timeout_cell_new = \<lparr>ta_core = timeout_core_new, ta_timed_out = cell_new False\<rparr>"

definition ta_refresh :: "timeout_cell \<Rightarrow> timeout_cell" where
  "ta_refresh t = t\<lparr>ta_timed_out := cell_set (ta_timed_out t) (to_timed_out (ta_core t))\<rparr>"

definition ta_arm :: "timeout_cell \<Rightarrow> int \<Rightarrow> int \<Rightarrow> timeout_cell" where
  "ta_arm t now d = ta_refresh (t\<lparr>ta_core := timeout_arm (ta_core t) now d\<rparr>)"

definition ta_tick :: "timeout_cell \<Rightarrow> int \<Rightarrow> timeout_cell \<times> bool" where
  "ta_tick t now = (let (c, r) = timeout_tick (ta_core t) now in (ta_refresh (t\<lparr>ta_core := c\<rparr>), r))"

chapter \<open>Properties\<close>

text \<open>
  What the fault-tolerance primitives promise: when the breaker trips and how long it keeps
  failing fast, the shape of the backoff and where it wraps, the bulkhead's bound, and the
  timeout as a temporal source of its own (an interpretation of \<open>projected_source\<close>).
\<close>

section \<open>Circuit breaker\<close>

definition record_all :: "breaker_core \<Rightarrow> (bool \<times> int) list \<Rightarrow> breaker_core" where
  "record_all c xs = foldl (\<lambda>c (s, now). breaker_record c s now) c xs"

definition failed_of :: "nat \<Rightarrow> bool list \<Rightarrow> nat" where
  "failed_of w xs = length (filter Not (last_n w xs))"

text \<open>Reference: whether some prefix of the outcomes has \<open>k\<close> failures among its last \<open>w\<close>.\<close>

definition trips :: "nat \<Rightarrow> nat \<Rightarrow> bool list \<Rightarrow> bool" where
  "trips w k xs \<longleftrightarrow> list_ex (\<lambda>i. k \<le> failed_of w (take (Suc i) xs)) [0..<length xs]"

lemma trips_snoc: "trips w k (xs @ [x]) \<longleftrightarrow> trips w k xs \<or> k \<le> failed_of w (xs @ [x])"
  by (auto simp: trips_def list_ex_iff)

lemma breaker_records:
  fixes d :: int
  assumes w: "0 < w" and k: "0 < k"
  defines "c xs \<equiv> record_all (breaker_core_new (int w) (int k) d) xs"
  shows "bk_window (c xs) = int w \<and> bk_threshold (c xs) = int k \<and>
    bk_state (c xs) = (if trips w k (map fst xs) then OPEN else CLOSED) \<and>
    (\<not> trips w k (map fst xs) \<longrightarrow> bk_outcomes (c xs) = last_n w (map fst xs))"
  unfolding c_def
proof (induction xs rule: rev_induct)
  case Nil
  then show ?case using w k by (simp add: record_all_def breaker_core_new_def trips_def last_n_def)
next
  case (snoc x xs)
  obtain s now where x: "x = (s, now)" by fastforce
  show ?case
    using snoc w
    by (auto simp: x record_all_def trips_snoc breaker_record_def Let_def trim_front_last
        last_n_last_n_snoc failures_def failed_of_def)
qed

text \<open>An open breaker fails fast until its deadline, whatever is recorded or asked before it.\<close>

datatype breaker_op = Allow int | Record bool int

fun op_time :: "breaker_op \<Rightarrow> int" where
  "op_time (Allow now) = now"
| "op_time (Record s now) = now"

fun breaker_step :: "breaker_cell \<Rightarrow> breaker_op \<Rightarrow> breaker_cell \<times> bool list" where
  "breaker_step b (Allow now) = (case bc_allow b now of (b', r) \<Rightarrow> (b', [r]))"
| "breaker_step b (Record s now) = (bc_record b s now, [])"

fun breaker_run :: "breaker_cell \<Rightarrow> breaker_op list \<Rightarrow> breaker_cell \<times> bool list" where
  "breaker_run b [] = (b, [])"
| "breaker_run b (x # xs) =
     (case breaker_step b x of (b', rs) \<Rightarrow> (case breaker_run b' xs of (b'', rs') \<Rightarrow> (b'', rs @ rs')))"

lemma open_step:
  assumes "bk_state (bc_breaker b) = OPEN" and "op_time x < bk_open_until (bc_breaker b)"
  shows "bc_breaker (fst (breaker_step b x)) = bc_breaker b \<and> set (snd (breaker_step b x)) \<subseteq> {False}"
  using assms
  by (cases x) (simp_all add: bc_allow_def breaker_allow_def bc_record_def breaker_record_def bk_refresh_def Let_def)

lemma open_run:
  "bk_state (bc_breaker b) = OPEN \<Longrightarrow> list_all (\<lambda>x. op_time x < bk_open_until (bc_breaker b)) xs \<Longrightarrow>
     bc_breaker (fst (breaker_run b xs)) = bc_breaker b \<and> set (snd (breaker_run b xs)) \<subseteq> {False}"
proof (induction xs arbitrary: b)
  case (Cons x xs)
  obtain b' rs where s: "breaker_step b x = (b', rs)" by fastforce
  have "bc_breaker b' = bc_breaker b" "set rs \<subseteq> {False}"
    using open_step [of b x] Cons.prems by (simp_all add: s)
  then show ?case using Cons.IH [of b'] Cons.prems by (auto simp: s split: prod.split)
qed simp

text \<open>The state cell always shows the state of the core.\<close>

definition breaker_shown :: "breaker_cell \<Rightarrow> bool" where
  "breaker_shown b \<longleftrightarrow> live (bc_state b) \<and> c_value (bc_state b) = bk_state (bc_breaker b)"

lemma breaker_step_shown: "breaker_shown b \<Longrightarrow> breaker_shown (fst (breaker_step b x))"
  by (cases x) (simp_all add: breaker_shown_def bc_allow_def bc_record_def bk_refresh_def split_beta Let_def)

lemma breaker_run_shown: "breaker_shown b \<Longrightarrow> breaker_shown (fst (breaker_run b xs))"
proof (induction xs arbitrary: b)
  case (Cons x xs)
  show ?case using Cons.IH [OF breaker_step_shown [OF Cons.prems, of x]] by (auto split: prod.split)
qed simp

lemma breaker_new_shown: "breaker_shown (breaker_cell_new w k d)"
  by (simp add: breaker_shown_def breaker_cell_new_def breaker_core_new_def)

section \<open>Retry backoff\<close>

lemma mask_mod: "and x u64_mask = x mod 2 ^ 64" for x :: int
  using take_bit_eq_mask [of 64 x] by (simp add: u64_mask_def take_bit_eq_mod mask_eq_exp_minus_1)

lemma retry_delay_value:
  "retry_delay c (int a) =
     Inr (if a < 64 then min (rt_cap c) ((rt_base c * 2 ^ a) mod 2 ^ 64) else rt_cap c)"
  by (simp add: retry_delay_def Let_def mask_mod push_bit_eq_mult)

text \<open>Below the wrap the delay is the exponential backoff, capped.\<close>

lemma retry_delay_exact:
  assumes "0 \<le> rt_base c" and "rt_base c * 2 ^ a < 2 ^ 64" and "a < 64"
  shows "retry_delay c (int a) = Inr (min (rt_cap c) (rt_base c * 2 ^ a))"
  using assms by (simp add: retry_delay_value)

fun next_delays :: "nat \<Rightarrow> retry_core \<Rightarrow> (shift_error + int) list" where
  "next_delays 0 c = []"
| "next_delays (Suc n) c = (case retry_next_delay c of (r, c') \<Rightarrow> r # next_delays n c')"

lemma next_delays_nth:
  assumes "i < n" and "0 \<le> rt_attempt c" and "rt_attempt c + int n \<le> u32_max"
  shows "next_delays n c ! i = retry_delay c (rt_attempt c + int i)"
  using assms
proof (induction n arbitrary: c i)
  case (Suc n)
  let ?c = "c\<lparr>rt_attempt := rt_attempt c + 1\<rparr>"
  have next': "retry_next_delay c = (retry_delay c (rt_attempt c), ?c)"
    using Suc.prems retry_delay_value [of c "nat (rt_attempt c)"] by (simp add: retry_next_delay_def min_def)
  have same: "retry_delay (c\<lparr>rt_attempt := v\<rparr>) k = retry_delay c k" for v k by (simp add: retry_delay_def)
  show ?case
    using Suc.prems Suc.IH [of "i - 1" ?c]
    by (cases i) (simp_all add: next' same algebra_simps)
qed simp

section \<open>Bulkhead\<close>

datatype bulkhead_op = BAcquire | BRelease

fun bulkhead_step :: "bulkhead_cell \<Rightarrow> bulkhead_op \<Rightarrow> bulkhead_cell" where
  "bulkhead_step b BAcquire = fst (bb_acquire b)"
| "bulkhead_step b BRelease = bb_release b"

definition bulkhead_inv :: "bulkhead_cell \<Rightarrow> bool" where
  "bulkhead_inv b \<longleftrightarrow> 0 \<le> bh_in_use (bb_core b) \<and> bh_in_use (bb_core b) \<le> bh_capacity (bb_core b) \<and>
     live (bb_in_use b) \<and> c_value (bb_in_use b) = bh_in_use (bb_core b)"

lemma bulkhead_step_inv: "bulkhead_inv b \<Longrightarrow> bulkhead_inv (bulkhead_step b x)"
  by (cases x) (auto simp: bulkhead_inv_def bb_acquire_def bb_release_def bb_refresh_def
      bulkhead_acquire_def bulkhead_release_def Let_def split: if_splits)

lemma bulkhead_run_inv: "bulkhead_inv b \<Longrightarrow> bulkhead_inv (foldl bulkhead_step b xs)"
  by (induction xs arbitrary: b) (simp_all add: bulkhead_step_inv)

lemma bulkhead_new_inv: "0 \<le> n \<Longrightarrow> bulkhead_inv (bulkhead_cell_new n)"
  by (simp add: bulkhead_inv_def bulkhead_cell_new_def bulkhead_core_new_def)

section \<open>Timeout\<close>

definition timeout_next_fire :: "timeout_core \<Rightarrow> int option" where
  "timeout_next_fire c = (if to_armed c \<and> \<not> to_timed_out c then Some (to_deadline c) else None)"

interpretation timeout: projected_source timeout_tick timeout_next_fire "\<lambda>_. True" to_timed_out
  by unfold_locales (auto simp: timeout_tick_def timeout_next_fire_def due_def split: if_splits option.splits)

lemma timeout_cell_shell:
  assumes "live (ta_timed_out t)" and "c_value (ta_timed_out t) = to_timed_out (ta_core t)"
  shows "(ta_core (fst (ta_tick t now)), ta_timed_out (fst (ta_tick t now))) =
    shell_tick timeout_tick to_timed_out (ta_core t, ta_timed_out t) now"
  using assms cell_set_same [of "ta_timed_out t"]
  by (auto simp: ta_tick_def ta_refresh_def shell_tick_def timeout_tick_def Let_def)

text \<open>After arming, the edge is the first tick at or past the deadline, and the only one.\<close>

lemma armed_edges:
  "to_armed c \<Longrightarrow> \<not> to_timed_out c \<Longrightarrow>
     edges timeout_tick c ns = (case List.find (\<lambda>n. to_deadline c \<le> n) ns of None \<Rightarrow> [] | Some n \<Rightarrow> [n])"
proof (induction ns)
  case (Cons n ns)
  have fired: "edges timeout_tick (c\<lparr>to_timed_out := True\<rparr>) ms = []" for ms
  proof (induction ms)
    case (Cons m ms)
    have "timeout_tick (c\<lparr>to_timed_out := True\<rparr>) m = (c\<lparr>to_timed_out := True\<rparr>, False)"
      by (simp add: timeout_tick_def)
    then show ?case using Cons by simp
  qed simp
  have "timeout_tick c n = (if to_deadline c \<le> n then (c\<lparr>to_timed_out := True\<rparr>, True) else (c, False))"
    using Cons.prems by (simp add: timeout_tick_def)
  then show ?case using Cons fired by simp
qed simp

end
