(* ===== verification/TimeTheorems.thy ===== *)
theory TimeTheorems
  imports Temporal Coordination RateShape Windowing Resilience
begin

text \<open>
  The properties of the clocked components: lease, semaphore and barrier, temporal sources,
  rate shaping, windows and the fault-tolerance primitives.
\<close>

section \<open>Coordination\<close>

text \<open>C39: fencing safety. Whatever operations are run on a fresh lease cell, by whichever peers and at
  whatever times, the granted fencing tokens never fall, two different peers never hold the
  same token, and every token granted is at most the cell's current fence.\<close>

theorem lease_fencing:
  fixes xs :: "'p lease_op list"
  shows "sorted_wrt (\<lambda>a b. snd a \<le> snd b \<and> (fst a \<noteq> fst b \<longrightarrow> snd a < snd b))
      (snd (lease_run (lease_core_new, []) xs)) \<and>
    (\<forall>g\<in>set (snd (lease_run (lease_core_new, []) xs)).
       snd g \<le> ls_fence (lc_core (foldl lc_step lease_cell_new xs)))"
proof -
  have "lc_core (foldl lc_step lease_cell_new xs) = fst (lease_run (lease_core_new :: 'p lease_core, []) xs)"
    using lease_shell.run_core [of xs lease_cell_new "[]"] by (simp add: lease_cell_new_def list_all_iff)
  then show ?thesis
    using lease_run_inv [OF lease_start_inv, of xs] by (simp add: lease_inv_def fenced_def)
qed

theorem lease_fencing_witness:
  "2 \<le> ls_fence (lc_core (foldl lc_step lease_cell_new [Acquire ''a'' 0 5, Acquire ''b'' 7 5]))"
  using lease_fencing [of "[Acquire ''a'' 0 5, Acquire ''b'' 7 5]", THEN conjunct2]
  by (simp add: lease_run_def lease_defs lease_core_new_def)

text \<open>A semaphore never hands out more permits than its capacity nor takes back more than it gave,
  and its cell always shows the number of free permits.\<close>

theorem semaphore_bounded:
  assumes "0 \<le> n"
  shows "0 \<le> sm_acquired (sc_core (foldl sem_step (semaphore_cell_new n) xs)) \<and>
    sm_acquired (sc_core (foldl sem_step (semaphore_cell_new n) xs)) \<le> n \<and>
    c_value (sc_available (foldl sem_step (semaphore_cell_new n) xs)) =
      n - sm_acquired (sc_core (foldl sem_step (semaphore_cell_new n) xs))"
  using sem_run_inv [OF sem_new_inv [OF assms], of xs]
  by (simp add: sem_inv_def sem_available_def) (simp add: semaphore_cell_new_def semaphore_core_new_def)

theorem semaphore_bounded_witness:
  "sm_acquired (sc_core (foldl sem_step (semaphore_cell_new 1) [SAcquire, SAcquire, SRelease, SRelease, SAcquire])) \<le> 1"
  using semaphore_bounded [of 1 "[SAcquire, SAcquire, SRelease, SRelease, SAcquire]"] by simp

text \<open>Two quorum barriers of the same electorate that are both open were opened by a common
  voter, however often and in whatever order the votes arrived.\<close>

theorem quorums_intersect:
  assumes "finite V" and "set ps \<subseteq> V" and "set qs \<subseteq> V"
    and "c_value (bc_is_open (bc_run (barrier_quorum (int (card V))) ps))"
    and "c_value (bc_is_open (bc_run (barrier_quorum (int (card V))) qs))"
  shows "\<exists>p. p \<in> set ps \<and> p \<in> set qs"
  using quorum_intersect [OF assms] by blast

theorem quorums_intersect_witness:
  "\<exists>p::nat. p \<in> set [1, 1, 2] \<and> p \<in> set [2, 3]"
  by (rule quorums_intersect [of "{1, 2, 3}"])
     (simp_all add: barrier_quorum_def barrier_opens insert_commute)

section \<open>Temporal sources\<close>

text \<open>However coarsely it is ticked, a cron source counts exactly the matching ticks up to the
  latest time it saw, each once and none skipped, and the next fire it announces is the first
  matching tick after its cursor (none when there is no such tick).\<close>

theorem cron_exact:
  assumes "c = ticks cron_tick (cron_core_new cyc offsets) ns"
  shows "cc_count c = int (length (filter (fires_at (cron_core_new cyc offsets)) [1..fold max ns 0])) \<and>
    (cron_next_fire c = Some f \<longleftrightarrow>
      cc_cursor c < f \<and> fires_at c f \<and> (\<forall>t. cc_cursor c < t \<longrightarrow> fires_at c t \<longrightarrow> f \<le> t))"
proof
  show "cc_count c = int (length (filter (fires_at (cron_core_new cyc offsets)) [1..fold max ns 0]))"
    unfolding assms using cron_ticks_count [OF cron_new_ok, of cyc offsets ns]
    by (simp add: cron_core_new_def Let_def)
  have "cron_ok c" unfolding assms by (rule cron.ticks_inv [OF cron_new_ok])
  then show "cron_next_fire c = Some f \<longleftrightarrow>
      cc_cursor c < f \<and> fires_at c f \<and> (\<forall>t. cc_cursor c < t \<longrightarrow> fires_at c t \<longrightarrow> f \<le> t)"
    by (simp add: cron_next_fire_iff next_match_def)
qed

theorem cron_exact_witness:
  "cc_count (ticks cron_tick (cron_core_new 10 [3, 7]) [4]) = 1 \<and>
   cron_next_fire (ticks cron_tick (cron_core_new 10 [3, 7]) [4]) = Some 7"
  using cron_exact [OF refl, of 10 "[3, 7]" "[4]" 7]
  by (simp add: cron_core_new_def cron_tick_def matches_in_def count_upto_def cron_next_fire_def Let_def)

text \<open>A cron cell shows the count of its core and notifies its readers exactly once per fire edge;
  the edges come at strictly increasing times.\<close>

theorem cron_cell_notifies:
  "c_value (cl_count (cron_cell_run (cron_cell_new cyc offsets) ns)) =
     cc_count (ticks cron_tick (cron_core_new cyc offsets) ns) \<and>
   c_notified (cl_count (cron_cell_run (cron_cell_new cyc offsets) ns)) =
     length (edges cron_tick (cron_core_new cyc offsets) ns) \<and>
   sorted_wrt (<) (edges cron_tick (cron_core_new cyc offsets) ns)"
proof -
  let ?t = "cron_cell_new cyc offsets"
  have core: "cl_core ?t = cron_core_new cyc offsets" and cell: "cl_count ?t = cell_new 0"
    by (simp_all add: cron_cell_new_def)
  have zero: "cc_count (cron_core_new cyc offsets) = 0" by (simp add: cron_core_new_def Let_def)
  show ?thesis
    using cron.shell_projects [of "(cl_core ?t, cl_count ?t)" ns] cron.edges_increasing [OF cron_new_ok]
      cron_cell_run_shell [of ?t ns, THEN arg_cong, of snd]
    by (simp add: core cell zero cron_new_ok)
qed

section \<open>Rate shaping\<close>

text \<open>A throttle of either edge never emits twice within its window, on a clock that does not run
  backwards.\<close>

theorem throttle_spaced:
  assumes "0 \<le> window" and "sorted (map event_time es)"
  shows "sorted_wrt (\<lambda>a b. fst a + window \<le> fst b) (emissions throttle_step (throttle_new edge window) es)"
proof (cases es)
  case (Cons e rest)
  have s: "sorted (event_time e # map event_time es)" using assms(2) Cons by simp
  show ?thesis
    using leading.emissions_spaced [OF _ s, of "throttle_new Leading window"]
      trailing.emissions_spaced [OF _ s, of "throttle_new Trailing window"] assms(1)
    by (cases edge) (simp_all add: throttle_new_def leading_inv_def trailing_inv_def)
qed simp

theorem throttle_spaced_witness:
  "sorted_wrt (\<lambda>a b. fst a + 5 \<le> fst b)
     (emissions throttle_step (throttle_new Leading 5) [In 1 (Some ''x''), In 3 (Some ''y''), In 6 (Some ''z'')])"
  by (rule throttle_spaced) simp_all

text \<open>A debounce emits at most one value per quiet period, on a clock that does not run
  backwards, and after a burst of inputs the first tick past the quiet period emits the latest
  input of the burst.\<close>

theorem debounce_quiet_latest:
  assumes "0 \<le> quiet" and "ins \<noteq> []" and "snd (last ins) = Some v" and "fst (last ins) + quiet \<le> now"
    and "sorted (map event_time es)"
  shows "sorted_wrt (\<lambda>a b. fst a + quiet \<le> fst b) (emissions debounce_step (debounce_new quiet) es) \<and>
    snd (debounce_tick (burst (debounce_new quiet) ins) now) = Some v"
proof
  show "sorted_wrt (\<lambda>a b. fst a + quiet \<le> fst b) (emissions debounce_step (debounce_new quiet) es)"
  proof (cases es)
    case (Cons e rest)
    have "sorted (event_time e # map event_time es)" using assms(5) Cons by simp
    from debounce.emissions_spaced [OF _ this, of "debounce_new quiet"] show ?thesis
      using assms(1) by (simp add: debounce_new_def debounce_inv_def)
  qed simp
  show "snd (debounce_tick (burst (debounce_new quiet) ins) now) = Some v"
    using burst_latest [OF assms(2), of "debounce_new quiet"] assms(3,4)
    by (simp add: debounce_tick_def debounce_new_def)
qed

theorem debounce_quiet_latest_witness:
  "snd (debounce_tick (burst (debounce_new 3) [(1, Some ''a''), (2, Some ''b'')]) 5) = Some ''b''"
  using debounce_quiet_latest [of 3 "[(1, Some ''a''), (2, Some ''b'')]" "''b''" 5 "[]"] by simp

section \<open>Windows\<close>

text \<open>The windows of a stream partition it: under an associative policy the aggregates emitted by a
  tumbling window (by count or by time) or a session window, together with the open window,
  fold to the fold of the whole stream.\<close>

theorem windows_lossless:
  assumes "merge_law p"
  shows "opt_merge p (fold_window_of (emitted (outs tn_push (count_core_new n p) vs)) p)
       (tn_acc (window_after tn_push (count_core_new n p) vs)) = fold_window_of vs p \<and>
    opt_merge p (fold_window_of (emitted (outs time_step (time_core_new d p) xs)) p)
       (tt_acc (window_after time_step (time_core_new d p) xs)) = fold_window_of (concat (map carried xs)) p \<and>
    opt_merge p (fold_window_of (emitted (outs session_step (session_core_new gap p) xs)) p)
       (ss_acc (window_after session_step (session_core_new gap p) xs)) = fold_window_of (concat (map carried xs)) p"
  using count_window.lossless [of "count_core_new n p" vs] time_window.lossless [of "time_core_new d p" xs]
    session_window.lossless [of "session_core_new gap p" xs] assms
  by (simp add: count_core_new_def time_core_new_def session_core_new_def Let_def)

theorem windows_lossless_witness:
  "opt_merge Sum_policy (fold_window_of (emitted (outs tn_push (count_core_new 2 Sum_policy) [1, 2, 3])) Sum_policy)
     (tn_acc (window_after tn_push (count_core_new 2 Sum_policy) [1, 2, 3])) = fold_window_of [1, 2, 3::int] Sum_policy"
  using windows_lossless [OF sum_law.merge_law_axioms, of 2 "[1, 2, 3]" 1 "[]" 0] by blast

text \<open>The incremental sliding window computes the reference: the push number \<open>i\<close> emits exactly when
  \<open>i\<close> is a multiple of the slide, and then the fold of the last \<open>n\<close> elements; with a slide of
  \<open>n\<close> it is the tumbling window.\<close>

theorem sliding_window_reference:
  assumes "0 < n" and "0 < k" and "i < length xs"
  shows "outs sd_push (slide_core_new (int n) (int k) p) xs ! i =
      (if k dvd Suc i then fold_window_of (last_n n (take (Suc i) xs)) p else None) \<and>
    outs tn_push (count_core_new (int n) p) xs = outs sd_push (slide_core_new (int n) (int n) p) xs"
  using slide_outs [OF assms] count_is_slide [OF assms(1)] by blast

theorem sliding_window_reference_witness:
  "outs sd_push (slide_core_new 2 1 Sum_policy) [1, 2, 3::int] ! 2 = Some 5"
  using sliding_window_reference [of 2 1 2 "[1, 2, 3]" Sum_policy]
  by (simp add: last_n_def fold_window_of_def merge_into_def Sum_policy_def numeral_2_eq_2)

text \<open>A session window splits a stream of timed elements exactly at the gaps longer than its
  timeout and emits the fold of each session; the last session is the one still open.\<close>

theorem session_window_splits:
  assumes "xs \<noteq> []"
  shows "emitted (outs session_step (session_core_new gap p) (session_pushes xs)) @
      [the (ss_acc (window_after session_step (session_core_new gap p) (session_pushes xs)))] =
    map (\<lambda>g. the (fold_window_of (map snd g) p)) (split_sessions gap xs)"
  by (rule session_emits [OF assms])

theorem session_window_splits_witness:
  "emitted (outs session_step (session_core_new 3 Sum_policy) (session_pushes [(1, 10), (2, 20), (9, 5::int)])) @
      [the (ss_acc (window_after session_step (session_core_new 3 Sum_policy)
         (session_pushes [(1, 10), (2, 20), (9, 5)])))] = [30, 5]"
  using session_window_splits [of "[(1, 10), (2, 20), (9, 5)]" 3 Sum_policy]
  by (simp add: fold_window_of_def merge_into_def Sum_policy_def)

section \<open>Fault tolerance\<close>

text \<open>A circuit breaker opens exactly when some moment saw the threshold of failures among the last
  \<open>w\<close> outcomes, and its cell shows the state after any run.\<close>

theorem breaker_trips_at_threshold:
  assumes "0 < w" and "0 < k"
  shows "bk_state (record_all (breaker_core_new (int w) (int k) d) xs) =
      (if trips w k (map fst xs) then OPEN else CLOSED) \<and>
    c_value (bc_state (fst (breaker_run (breaker_cell_new (int w) (int k) d) ops))) =
      bk_state (bc_breaker (fst (breaker_run (breaker_cell_new (int w) (int k) d) ops)))"
  using breaker_records [OF assms, of d xs] breaker_run_shown [OF breaker_new_shown, of "int w" "int k" d ops]
  by (simp add: breaker_shown_def)

theorem breaker_trips_at_threshold_witness:
  "bk_state (record_all (breaker_core_new 3 2 10) [(False, 1), (True, 2), (False, 3)]) = OPEN"
  using breaker_trips_at_threshold [of 3 2 10 "[(False, 1), (True, 2), (False, 3)]" "[]"]
  by (simp add: trips_def failed_of_def last_n_def upt_rec)

text \<open>An open breaker fails fast: until its deadline every request is refused and nothing that is
  recorded moves it.\<close>

theorem breaker_fails_fast:
  assumes "bk_state (bc_breaker b) = OPEN"
    and "list_all (\<lambda>x. op_time x < bk_open_until (bc_breaker b)) xs"
  shows "bc_breaker (fst (breaker_run b xs)) = bc_breaker b \<and> set (snd (breaker_run b xs)) \<subseteq> {False}"
  by (rule open_run [OF assms])

theorem breaker_fails_fast_witness:
  "set (snd (breaker_run (bc_record (breaker_cell_new 1 1 10) False 5) [Allow 6, Record True 7, Allow 14])) \<subseteq> {False}"
  using breaker_fails_fast [of "bc_record (breaker_cell_new 1 1 10) False 5" "[Allow 6, Record True 7, Allow 14]"]
  by (simp add: bc_record_def bk_refresh_def breaker_cell_new_def breaker_core_new_def breaker_record_def
      failures_def Let_def)

text \<open>The retry delays grow exponentially up to the cap as long as the shift stays within 64 bits,
  and are the cap from attempt 64 on.\<close>

theorem retry_backoff_exponential:
  assumes "0 \<le> base" and "i < n" and "int n \<le> u32_max" and "base * 2 ^ i < 2 ^ 64 \<or> 64 \<le> i"
  shows "next_delays n (retry_core_new base cap) ! i = Inr (if i < 64 then min cap (base * 2 ^ i) else cap)"
  using next_delays_nth [OF assms(2), of "retry_core_new base cap"] assms
    retry_delay_value [of "retry_core_new base cap" i] retry_delay_exact [of "retry_core_new base cap" i]
  by (auto simp: retry_core_new_def)

theorem retry_backoff_exponential_witness:
  "next_delays 4 (retry_core_new 100 1000) ! 3 = Inr 800 \<and> next_delays 5 (retry_core_new 100 1000) ! 4 = Inr 1000"
  using retry_backoff_exponential [of 100 3 4 1000] retry_backoff_exponential [of 100 4 5 1000]
  by (simp add: u32_max_def)

end
