(* ===== verification/JoinCrdt.thy ===== *)
theory JoinCrdt
  imports Prelude
begin

text \<open>
  The contract of a state-based CRDT, the locale \<open>join_crdt\<close>: merging is commutative,
  associative and idempotent on the states that can occur, up to what can be observed of
  them. Its theorem is that replicas which merged the same set of states agree.
\<close>

section \<open>The contract of a state-based CRDT\<close>

locale join_crdt =
  fixes join :: "'c \<Rightarrow> 'c \<Rightarrow> 'c"
    and abs :: "'c \<Rightarrow> 'a"
    and ok :: "'c \<Rightarrow> bool"
  assumes ok_join: "ok a \<Longrightarrow> ok b \<Longrightarrow> ok (join a b)"
    and join_comm: "ok a \<Longrightarrow> ok b \<Longrightarrow> abs (join a b) = abs (join b a)"
    and join_assoc: "ok a \<Longrightarrow> ok b \<Longrightarrow> ok c \<Longrightarrow> abs (join (join a b) c) = abs (join a (join b c))"
    and join_idem: "ok a \<Longrightarrow> abs (join a a) = abs a"
    and join_cong: "ok a \<Longrightarrow> ok a' \<Longrightarrow> ok b \<Longrightarrow> ok b' \<Longrightarrow> abs a = abs a' \<Longrightarrow> abs b = abs b' \<Longrightarrow>
      abs (join a b) = abs (join a' b')"
begin

lemma join_cong1: "ok a \<Longrightarrow> ok a' \<Longrightarrow> ok b \<Longrightarrow> abs a = abs a' \<Longrightarrow> abs (join a b) = abs (join a' b)"
  by (rule join_cong) simp_all

lemma join_cong2: "ok a \<Longrightarrow> ok b \<Longrightarrow> ok b' \<Longrightarrow> abs b = abs b' \<Longrightarrow> abs (join a b) = abs (join a b')"
  by (rule join_cong) simp_all

lemma ok_fold: "ok a \<Longrightarrow> list_all ok bs \<Longrightarrow> ok (foldl join a bs)"
  by (induction bs arbitrary: a) (simp_all add: ok_join)

lemma fold_cong_abs:
  "ok a \<Longrightarrow> ok a' \<Longrightarrow> list_all ok bs \<Longrightarrow> abs a = abs a' \<Longrightarrow> abs (foldl join a bs) = abs (foldl join a' bs)"
proof (induction bs arbitrary: a a')
  case (Cons b bs)
  have "abs (join a b) = abs (join a' b)" using Cons.prems by (intro join_cong1) simp_all
  then show ?case using Cons.prems by (auto intro!: Cons.IH simp: ok_join)
qed simp

lemma join_right_swap:
  assumes "ok a" and "ok b" and "ok c"
  shows "abs (join (join a b) c) = abs (join (join a c) b)"
  using join_assoc [OF assms] join_assoc [OF assms(1,3,2)]
    join_cong2 [OF assms(1) ok_join ok_join join_comm, OF assms(2,3) assms(3,2) assms(2,3)] by simp

lemma fold_pull:
  "ok a \<Longrightarrow> ok b \<Longrightarrow> list_all ok bs \<Longrightarrow> abs (foldl join (join a b) bs) = abs (join (foldl join a bs) b)"
proof (induction bs arbitrary: a)
  case (Cons x xs)
  have x: "ok x" and xs: "list_all ok xs" using Cons.prems(3) by simp_all
  have "abs (foldl join (join (join a b) x) xs) = abs (foldl join (join (join a x) b) xs)"
    by (rule fold_cong_abs) (use Cons.prems x xs in \<open>simp_all add: ok_join join_right_swap\<close>)
  then show ?case using Cons.IH [of "join a x"] Cons.prems x xs by (simp add: ok_join)
qed simp

lemma fold_absorb: "b \<in> set (a # bs) \<Longrightarrow> ok a \<Longrightarrow> list_all ok bs \<Longrightarrow>
    abs (join (foldl join a bs) b) = abs (foldl join a bs)"
proof (induction bs rule: rev_induct)
  case Nil
  then show ?case by (simp add: join_idem)
next
  case (snoc x xs)
  have okx: "ok x" "list_all ok xs" using snoc.prems(3) by simp_all
  let ?f = "foldl join a xs"
  have f: "ok ?f" by (rule ok_fold [OF snoc.prems(2) okx(2)])
  have b: "ok b" using snoc.prems by (auto simp: list_all_iff)
  show ?case
  proof (cases "b = x")
    case True
    have "abs (join (join ?f x) x) = abs (join ?f (join x x))" by (rule join_assoc [OF f okx(1) okx(1)])
    also have "\<dots> = abs (join ?f x)" by (rule join_cong2) (simp_all add: f okx ok_join join_idem)
    finally show ?thesis using True by simp
  next
    case False
    then have mem: "b \<in> set (a # xs)" using snoc.prems(1) by auto
    have "abs (join (join ?f x) b) = abs (join (join ?f b) x)"
      by (rule join_right_swap [OF f okx(1) b])
    also have "\<dots> = abs (join ?f x)"
      by (rule join_cong1 [OF ok_join [OF f b] f okx(1) snoc.IH [OF mem snoc.prems(2) okx(2)]])
    finally show ?thesis by simp
  qed
qed

lemma fold_absorbs: "set cs \<subseteq> set (a # bs) \<Longrightarrow> ok a \<Longrightarrow> list_all ok bs \<Longrightarrow>
    abs (foldl join (foldl join a bs) cs) = abs (foldl join a bs)"
proof (induction cs)
  case (Cons c cs)
  have c: "ok c" "list_all ok cs" using Cons.prems by (auto simp: list_all_iff)
  have f: "ok (foldl join a bs)" by (rule ok_fold [OF Cons.prems(2,3)])
  have "abs (join (foldl join a bs) c) = abs (foldl join a bs)"
    by (rule fold_absorb [OF _ Cons.prems(2,3)]) (use Cons.prems in simp)
  then have "abs (foldl join (join (foldl join a bs) c) cs) = abs (foldl join (foldl join a bs) cs)"
    by (rule fold_cong_abs [OF ok_join [OF f c(1)] f c(2)])
  then show ?case using Cons by simp
qed simp

lemma fold_swap_front:
  "ok a \<Longrightarrow> ok b \<Longrightarrow> list_all ok bs \<Longrightarrow> abs (foldl join b (a # bs)) = abs (foldl join a (b # bs))"
  using join_comm [of b a] by (simp add: fold_cong_abs ok_join)

text \<open>Replicas that merged the same set of states observe the same.\<close>

lemma join_ok_swap: "ok a \<Longrightarrow> ok b \<Longrightarrow> list_all ok bs \<Longrightarrow> list_all ok cs \<Longrightarrow>
    abs (foldl join (foldl join a bs) (b # cs)) = abs (foldl join (foldl join b cs) (a # bs))"
proof (induction cs rule: rev_induct)
  case Nil
  then show ?case using fold_pull [of a b bs] fold_swap_front [of a b bs] by simp
next
  case (snoc c cs)
  let ?l = "foldl join (foldl join a bs) (b # cs)" and ?r = "foldl join (foldl join b cs) (a # bs)"
  have c: "ok c" "list_all ok cs" using snoc.prems by simp_all
  have l: "ok ?l" and r: "ok ?r" and bcs: "ok (foldl join b cs)" and ba: "ok (join (foldl join b cs) a)"
    using snoc.prems c by (auto intro!: ok_fold ok_join)
  have "abs (join ?l c) = abs (join ?r c)"
    by (rule join_cong1 [OF l r c(1) snoc.IH [OF snoc.prems(1,2,3) c(2)]])
  also have "\<dots> = abs (foldl join (join (foldl join b cs) c) (a # bs))"
    using fold_pull [of "foldl join b cs" c "a # bs"] bcs c snoc.prems by simp
  finally show ?case by simp
qed

lemma same_states:
  assumes "list_all ok (a # bs)" and "list_all ok (a' # bs')" and "set (a # bs) = set (a' # bs')"
  shows "abs (foldl join a bs) = abs (foldl join a' bs')"
proof -
  have "abs (foldl join a bs) = abs (foldl join (foldl join a bs) (a' # bs'))"
    by (rule fold_absorbs [symmetric]) (use assms in auto)
  also have "\<dots> = abs (foldl join (foldl join a' bs') (a # bs))"
    by (rule join_ok_swap) (use assms in simp_all)
  also have "\<dots> = abs (foldl join a' bs')" by (rule fold_absorbs) (use assms in auto)
  finally show ?thesis .
qed

end

end
