(* ===== verification/Registers.thy ===== *)
theory Registers
  imports Cells "HOL-Library.Word" "HOL-Library.Product_Lexorder" JoinCrdt "HOL-Library.Option_ord"
begin

text \<open>
  The CRDT registers of \<^verbatim>\<open>src/lazily/crdt_registers.py\<close> and the stamp of
  \<^verbatim>\<open>src/lazily/ipc.py\<close> that decides between writes: the last-write-wins register, the
  multi-value register, the positive-negative counter, and the cell that carries a register's
  converged value. A Python dict is an association list with distinct keys, compared as a
  map; the register methods return the changed object and the boolean the source returns.
\<close>

section \<open>Stamps\<close>

text \<open>The order of stamps is the lexicographic order of \<^verbatim>\<open>_stamp_key\<close>.\<close>

datatype stamp = WireStamp (wall_time: int) (logical: int) (peer: int)

definition stamp_key :: "stamp \<Rightarrow> int \<times> int \<times> int" where
  "stamp_key s = (wall_time s, logical s, peer s)"

lemma stamp_key_inj [simp]: "stamp_key a = stamp_key b \<longleftrightarrow> a = b"
  by (cases a; cases b) (simp add: stamp_key_def)

instantiation stamp :: linorder
begin

definition less_eq_stamp :: "stamp \<Rightarrow> stamp \<Rightarrow> bool" where
  "less_eq_stamp a b \<longleftrightarrow> stamp_key a \<le> stamp_key b"

definition less_stamp :: "stamp \<Rightarrow> stamp \<Rightarrow> bool" where
  "less_stamp a b \<longleftrightarrow> stamp_key a < stamp_key b"

instance
  by standard (auto simp: less_eq_stamp_def less_stamp_def dest: order_antisym)

end

section \<open>Last-write-wins register\<close>

record 'v lww =
  lww_value :: "'v option"
  lww_stamp :: "stamp option"

definition lww_new :: "'v lww" where
  "lww_new = \<lparr>lww_value = None, lww_stamp = None\<rparr>"

definition lww_set :: "'v lww \<Rightarrow> 'v \<Rightarrow> stamp \<Rightarrow> 'v lww \<times> bool" where
  "lww_set r v s =
     (if (case lww_stamp r of None \<Rightarrow> True | Some t \<Rightarrow> s \<ge> t)
      then (r\<lparr>lww_value := Some v, lww_stamp := Some s\<rparr>, True) else (r, False))"

definition lww_assign :: "'v lww \<Rightarrow> 'v \<Rightarrow> stamp \<Rightarrow> 'v lww \<times> bool" where
  "lww_assign r v s = lww_set r v s"

definition lww_merge :: "'v lww \<Rightarrow> 'v lww \<Rightarrow> 'v lww \<times> bool" where
  "lww_merge r other =
     (case lww_stamp other of
        None \<Rightarrow> (r, False)
      | Some s \<Rightarrow>
          if (case lww_stamp r of None \<Rightarrow> True | Some t \<Rightarrow> s > t)
          then (r\<lparr>lww_value := lww_value other, lww_stamp := Some s\<rparr>, True) else (r, False))"

text \<open>The payload of an operation: inline bytes or a reference to a shared blob.\<close>

datatype 'r ipc_value = IpcValue_Inline "8 word list" | IpcValue_SharedBlob 'r

definition lww_from_state :: "'r ipc_value \<Rightarrow> stamp \<Rightarrow> 8 word list lww" where
  "lww_from_state state s =
     \<lparr>lww_value = (case state of IpcValue_Inline bs \<Rightarrow> Some bs | IpcValue_SharedBlob _ \<Rightarrow> None),
      lww_stamp = Some s\<rparr>"

section \<open>Multi-value register\<close>

record 'v mv_register =
  mv_entries :: "('v \<times> stamp) list"
  mv_observed :: "stamp set"

definition mv_new :: "'v mv_register" where
  "mv_new = \<lparr>mv_entries = [], mv_observed = {}\<rparr>"

definition mv_write :: "'v mv_register \<Rightarrow> 'v \<Rightarrow> stamp \<Rightarrow> 'v mv_register \<times> bool" where
  "mv_write r v s = (r\<lparr>mv_observed := set (map snd (mv_entries r)), mv_entries := [(v, s)]\<rparr>, True)"

definition mv_values :: "'v mv_register \<Rightarrow> 'v list" where
  "mv_values r = map fst (mv_entries r)"

definition mv_candidates :: "('v \<times> stamp) list \<Rightarrow> (stamp \<times> 'v \<times> stamp) list" where
  "mv_candidates es = foldl (\<lambda>d (v, s). AList.update s (v, s) d) [] es"

definition mv_merge :: "'v mv_register \<Rightarrow> 'v mv_register \<Rightarrow> 'v mv_register \<times> bool" where
  "mv_merge r other =
     (let merged_observed = mv_observed r \<union> mv_observed other;
          candidates = mv_candidates (mv_entries r @ mv_entries other);
          kept = map snd (filter (\<lambda>(k, e). k \<notin> merged_observed) candidates);
          entries = sort_key snd kept
      in (r\<lparr>mv_entries := entries, mv_observed := merged_observed\<rparr>, entries \<noteq> mv_entries r))"

section \<open>Positive-negative counter\<close>

datatype counter_error = ValueError

record pn_counter =
  pn_p :: "(int \<times> int) list"
  pn_n :: "(int \<times> int) list"

definition pn_new :: pn_counter where
  "pn_new = \<lparr>pn_p = [], pn_n = []\<rparr>"

text \<open>\<^verbatim>\<open>d.get(k, 0)\<close>.\<close>

definition get0 :: "(int \<times> int) list \<Rightarrow> int \<Rightarrow> int" where
  "get0 d k = (case map_of d k of None \<Rightarrow> 0 | Some v \<Rightarrow> v)"

definition pn_increment :: "pn_counter \<Rightarrow> int \<Rightarrow> int \<Rightarrow> counter_error + pn_counter" where
  "pn_increment c pr amount =
     (if amount < 0 then Inl ValueError
      else Inr (c\<lparr>pn_p := AList.update pr (get0 (pn_p c) pr + amount) (pn_p c)\<rparr>))"

definition pn_decrement :: "pn_counter \<Rightarrow> int \<Rightarrow> int \<Rightarrow> counter_error + pn_counter" where
  "pn_decrement c pr amount =
     (if amount < 0 then Inl ValueError
      else Inr (c\<lparr>pn_n := AList.update pr (get0 (pn_n c) pr + amount) (pn_n c)\<rparr>))"

definition pn_value :: "pn_counter \<Rightarrow> int" where
  "pn_value c = sum_list (map snd (pn_p c)) - sum_list (map snd (pn_n c))"

definition merge_counts :: "(int \<times> int) list \<Rightarrow> (int \<times> int) list \<Rightarrow> (int \<times> int) list" where
  "merge_counts d other = foldl (\<lambda>d (k, v). AList.update k (max (get0 d k) v) d) d other"

definition same_dict :: "(int \<times> int) list \<Rightarrow> (int \<times> int) list \<Rightarrow> bool" where
  "same_dict d e \<longleftrightarrow> list_all (\<lambda>k. map_of d k = map_of e k) (map fst d @ map fst e)"

definition pn_merge :: "pn_counter \<Rightarrow> pn_counter \<Rightarrow> pn_counter \<times> bool" where
  "pn_merge c other =
     (let c1 = c\<lparr>pn_p := merge_counts (pn_p c) (pn_p other), pn_n := merge_counts (pn_n c) (pn_n other)\<rparr>
      in (c1, \<not> same_dict (pn_p c1) (pn_p c) \<or> \<not> same_dict (pn_n c1) (pn_n c)))"

section \<open>The CRDT cell\<close>

record 'v crdt_cell =
  cr_register :: "'v lww"
  cr_cell :: "'v option cell"

definition crdt_cell_new :: "'v lww option \<Rightarrow> 'v crdt_cell" where
  "crdt_cell_new r =
     (let reg = (case r of Some x \<Rightarrow> x | None \<Rightarrow> lww_new)
      in \<lparr>cr_register = reg, cr_cell = cell_new (lww_value reg)\<rparr>)"

definition cr_value :: "'v crdt_cell \<Rightarrow> cell_error + 'v option" where
  "cr_value c = cell_get (cr_cell c)"

text \<open>The register takes the write or the merge; a change is passed on to the cell.\<close>

definition cr_take :: "'v crdt_cell \<Rightarrow> 'v lww \<times> bool \<Rightarrow> 'v crdt_cell \<times> bool" where
  "cr_take c x =
     (case x of (r, changed) \<Rightarrow>
        (if changed then c\<lparr>cr_register := r, cr_cell := cell_set (cr_cell c) (lww_value r)\<rparr>
         else c\<lparr>cr_register := r\<rparr>, changed))"

definition cr_assign :: "'v crdt_cell \<Rightarrow> 'v \<Rightarrow> stamp \<Rightarrow> 'v crdt_cell \<times> bool" where
  "cr_assign c v s = cr_take c (lww_assign (cr_register c) v s)"

definition cr_merge :: "'v crdt_cell \<Rightarrow> 'v lww \<Rightarrow> 'v crdt_cell \<times> bool" where
  "cr_merge c other = cr_take c (lww_merge (cr_register c) other)"

definition cr_merge_op :: "8 word list crdt_cell \<Rightarrow> 'r ipc_value \<Rightarrow> stamp \<Rightarrow> 8 word list crdt_cell \<times> bool" where
  "cr_merge_op c state s =
     (case state of
        IpcValue_SharedBlob _ \<Rightarrow> (c, False)
      | IpcValue_Inline bs \<Rightarrow> cr_merge c \<lparr>lww_value = Some bs, lww_stamp = Some s\<rparr>)"

chapter \<open>Properties\<close>

text \<open>
  Convergence of the registers: the last-write-wins register, the multi-value register and the
  counter are interpretations of the contract of theory JoinCrdt. The counter's value is then followed through a system of replicas.
\<close>

section \<open>Last write wins\<close>

text \<open>Each stamp belongs to one write \<open>w\<close>; a register holds a write with its stamp, or nothing.\<close>

definition lww_ok :: "(stamp \<Rightarrow> 'v option) \<Rightarrow> 'v lww \<Rightarrow> bool" where
  "lww_ok w r \<longleftrightarrow> lww_value r = (case lww_stamp r of None \<Rightarrow> None | Some s \<Rightarrow> w s)"

definition lww_join :: "'v lww \<Rightarrow> 'v lww \<Rightarrow> 'v lww" where
  "lww_join a b = fst (lww_merge a b)"

lemma lww_join_stamp: "lww_stamp (lww_join a b) = max (lww_stamp a) (lww_stamp b)"
  by (cases "lww_stamp a"; cases "lww_stamp b") (auto simp: lww_join_def lww_merge_def max_def)

lemma lww_join_ok: "lww_ok w a \<Longrightarrow> lww_ok w b \<Longrightarrow> lww_ok w (lww_join a b)"
  by (auto simp: lww_ok_def lww_join_def lww_merge_def split: option.splits)

lemma lww_ext: "lww_ok w a \<Longrightarrow> lww_ok w b \<Longrightarrow> lww_stamp a = lww_stamp b \<Longrightarrow> (a :: 'v lww) = b"
  by (simp add: lww_ok_def)

interpretation lww: join_crdt lww_join "\<lambda>r. r" "lww_ok w" for w :: "stamp \<Rightarrow> 'v option"
proof unfold_locales
  fix a b c :: "'v lww" assume "lww_ok w a" "lww_ok w b" "lww_ok w c"
  then show "lww_join (lww_join a b) c = lww_join a (lww_join b c)"
    by (intro lww_ext [of w]) (simp_all add: lww_join_ok lww_join_stamp max.assoc)
next
  fix a b :: "'v lww" assume "lww_ok w a" "lww_ok w b"
  then show "lww_join a b = lww_join b a"
    by (intro lww_ext [of w]) (simp_all add: lww_join_ok lww_join_stamp max.commute)
next
  fix a :: "'v lww" assume "lww_ok w a"
  then show "lww_join a a = a"
    by (intro lww_ext [of w]) (simp_all add: lww_join_ok lww_join_stamp)
qed (simp_all add: lww_join_ok)

lemma lww_fold_max: "lww_stamp (foldl lww_join a bs) = foldl max (lww_stamp a) (map lww_stamp bs)"
  by (induction bs arbitrary: a) (simp_all add: lww_join_stamp)

section \<open>Multi-value register\<close>

definition mv_stamps :: "'v mv_register \<Rightarrow> stamp set" where
  "mv_stamps r = set (map snd (mv_entries r))"

definition mv_ok :: "(stamp \<Rightarrow> 'v) \<Rightarrow> 'v mv_register \<Rightarrow> bool" where
  "mv_ok w r \<longleftrightarrow> sorted_wrt (<) (map snd (mv_entries r)) \<and> (\<forall>(v, s)\<in>set (mv_entries r). v = w s) \<and>
     mv_stamps r \<inter> mv_observed r = {}"

definition mv_join :: "'v mv_register \<Rightarrow> 'v mv_register \<Rightarrow> 'v mv_register" where
  "mv_join a b = fst (mv_merge a b)"

lemma candidates_of:
  assumes "\<forall>(v, s)\<in>set es. v = w s"
  shows "distinct (map fst (mv_candidates es)) \<and> fst ` set (mv_candidates es) = snd ` set es \<and>
    (\<forall>(k, e)\<in>set (mv_candidates es). e = (w k, k))"
  using assms
proof (induction es rule: rev_induct)
  case (snoc e es)
  obtain v s where e: "e = (v, s)" by fastforce
  have v: "v = w s" using snoc.prems by (simp add: e)
  have step: "mv_candidates (es @ [e]) = AList.update s (w s, s) (mv_candidates es)"
    by (simp add: mv_candidates_def e v)
  have sub: "set (AList.update k x al) \<subseteq> insert (k, x) (set al)" for k and x :: "'a \<times> stamp" and al
    by (induction al) auto
  have ih: "distinct (map fst (mv_candidates es)) \<and> fst ` set (mv_candidates es) = snd ` set es \<and>
      (\<forall>(k, e)\<in>set (mv_candidates es). e = (w k, k))"
    by (rule snoc.IH) (use snoc.prems in auto)
  show ?case
    using ih sub [of s "(w s, s)" "mv_candidates es"]
    unfolding step by (auto simp: e distinct_update dom_update)
qed (simp add: mv_candidates_def)

lemma distinct_sort_by: "distinct (map f xs) \<Longrightarrow> distinct (map f (sort_key f xs))"
  by (simp add: distinct_map)

lemma mv_join_ok:
  assumes "mv_ok w a" and "mv_ok w b"
  shows "mv_ok w (mv_join a b) \<and> mv_observed (mv_join a b) = mv_observed a \<union> mv_observed b \<and>
    mv_stamps (mv_join a b) = (mv_stamps a \<union> mv_stamps b) - (mv_observed a \<union> mv_observed b)"
proof -
  let ?O = "mv_observed a \<union> mv_observed b" and ?C = "mv_candidates (mv_entries a @ mv_entries b)"
  let ?kept = "map snd (filter (\<lambda>(k, e). k \<notin> ?O) ?C)"
  have ok: "\<forall>(v, s)\<in>set (mv_entries a @ mv_entries b). v = w s"
    using assms by (auto simp: mv_ok_def)
  note C = candidates_of [OF ok]
  have entries: "mv_entries (mv_join a b) = sort_key snd ?kept" "mv_observed (mv_join a b) = ?O"
    by (simp_all add: mv_join_def mv_merge_def Let_def)
  have eq: "map snd ?kept = map fst (filter (\<lambda>(k, e). k \<notin> ?O) ?C)"
    using C by (auto simp: list.map_comp intro!: map_cong)
  have keys: "distinct (map snd ?kept)"
    unfolding eq using C by (intro distinct_map_filter) simp
  have stamps: "snd ` set ?kept = (mv_stamps a \<union> mv_stamps b) - ?O"
  proof -
    have keep: "set (map fst (filter (\<lambda>(k, e). k \<notin> X) cs)) = fst ` set cs - X"
      for X and cs :: "(stamp \<times> 'a \<times> stamp) list"
      by (induction cs) auto
    have "snd ` set ?kept = set (map snd ?kept)" by (simp only: set_map)
    also have "\<dots> = fst ` set ?C - ?O" unfolding eq by (rule keep)
    also have "\<dots> = snd ` set (mv_entries a @ mv_entries b) - ?O" using C by simp
    finally show ?thesis by (simp add: mv_stamps_def image_Un)
  qed
  have "distinct (map snd (sort_key snd ?kept))" by (rule distinct_sort_by [OF keys])
  then have sorted: "sorted_wrt (<) (map snd (sort_key snd ?kept))"
    by (simp add: strict_sorted_iff)
  moreover have "\<forall>(v, s)\<in>set (sort_key snd ?kept). v = w s" using C by auto
  ultimately show ?thesis
    using stamps by (auto simp: mv_ok_def mv_stamps_def entries)
qed

lemma mv_entries_of: "mv_ok w r \<Longrightarrow> mv_entries r = map (\<lambda>s. (w s, s)) (sorted_list_of_set (mv_stamps r))"
proof -
  assume ok: "mv_ok w r"
  then have "sorted_list_of_set (mv_stamps r) = map snd (mv_entries r)"
    by (simp add: mv_ok_def mv_stamps_def strict_sorted_iff sorted_list_of_set.idem_if_sorted_distinct del: set_map)
  moreover have "map (\<lambda>s. (w s, s)) (map snd (mv_entries r)) = map (\<lambda>x. x) (mv_entries r)"
    unfolding list.map_comp using ok by (intro map_cong) (auto simp: mv_ok_def)
  ultimately show ?thesis by simp
qed

lemma mv_ext:
  "mv_ok w a \<Longrightarrow> mv_ok w b \<Longrightarrow> mv_stamps a = mv_stamps b \<Longrightarrow> mv_observed a = mv_observed b \<Longrightarrow>
     (a :: 'v mv_register) = b"
  using mv_entries_of [of w a] mv_entries_of [of w b] by simp

interpretation mv: join_crdt mv_join "\<lambda>r. r" "mv_ok w" for w :: "stamp \<Rightarrow> 'v"
proof unfold_locales
  fix a b c :: "'v mv_register" assume ok: "mv_ok w a" "mv_ok w b" "mv_ok w c"
  note ab = mv_join_ok [OF ok(1,2)] and bc = mv_join_ok [OF ok(2,3)]
  show "mv_join (mv_join a b) c = mv_join a (mv_join b c)"
    using mv_join_ok [of w "mv_join a b" c] mv_join_ok [of w a "mv_join b c"] ok ab bc
    by (intro mv_ext [of w]) auto
next
  fix a b :: "'v mv_register" assume ok: "mv_ok w a" "mv_ok w b"
  show "mv_join a b = mv_join b a"
    using mv_join_ok [OF ok] mv_join_ok [OF ok(2,1)] by (intro mv_ext [of w]) auto
next
  fix a :: "'v mv_register" assume ok: "mv_ok w a"
  show "mv_join a a = a"
    using mv_join_ok [OF ok ok] ok by (intro mv_ext [of w]) (auto simp: mv_ok_def)
qed (simp_all add: mv_join_ok)

section \<open>Counter\<close>

definition counts_ok :: "(int \<times> int) list \<Rightarrow> bool" where
  "counts_ok d \<longleftrightarrow> distinct (map fst d) \<and> (\<forall>(k, v)\<in>set d. 0 \<le> v)"

definition pn_ok :: "pn_counter \<Rightarrow> bool" where
  "pn_ok c \<longleftrightarrow> counts_ok (pn_p c) \<and> counts_ok (pn_n c)"

definition pn_seen :: "pn_counter \<Rightarrow> (int \<Rightarrow> int option) \<times> (int \<Rightarrow> int option)" where
  "pn_seen c = (map_of (pn_p c), map_of (pn_n c))"

definition pn_join :: "pn_counter \<Rightarrow> pn_counter \<Rightarrow> pn_counter" where
  "pn_join a b = fst (pn_merge a b)"

lemma pn_join_fields [simp]:
  "pn_p (pn_join a b) = merge_counts (pn_p a) (pn_p b)" "pn_n (pn_join a b) = merge_counts (pn_n a) (pn_n b)"
  by (simp_all add: pn_join_def pn_merge_def Let_def)

lemma counts_update:
  assumes "counts_ok d" and "0 \<le> v"
  shows "counts_ok (AList.update k v d)"
proof -
  have "set (AList.update k v d) \<subseteq> insert (k, v) (set d)" by (induction d) auto
  then show ?thesis using assms by (auto simp: counts_ok_def distinct_update)
qed

lemma get0_nonneg: "counts_ok d \<Longrightarrow> 0 \<le> get0 d k"
  by (auto simp: get0_def counts_ok_def split: option.split dest: map_of_SomeD)

lemma merge_counts_lookup:
  "distinct (map fst e) \<Longrightarrow>
     map_of (merge_counts d e) k = (case map_of e k of None \<Rightarrow> map_of d k | Some v \<Rightarrow> Some (max (get0 d k) v))"
proof (induction e arbitrary: d)
  case (Cons x e)
  obtain j v where x: "x = (j, v)" by fastforce
  have "merge_counts d (x # e) = merge_counts (AList.update j (max (get0 d j) v) d) e"
    by (simp add: merge_counts_def x)
  then have run: "map_of (merge_counts d (x # e)) k =
      (case map_of e k of
         None \<Rightarrow> ((map_of d)(j \<mapsto> max (get0 d j) v)) k
       | Some u \<Rightarrow> Some (max (get0 (AList.update j (max (get0 d j) v) d) k) u))"
    using Cons by (simp add: x update_conv' split: option.split)
  show ?case
  proof (cases "k = j")
    case True
    then have "map_of e k = None" using Cons.prems by (simp add: x map_of_eq_None_iff)
    then show ?thesis using True run by (simp add: x)
  next
    case False
    then show ?thesis unfolding run by (simp add: x get0_def update_conv' split: option.split)
  qed
qed (simp add: merge_counts_def)

lemma merge_counts_ok: "counts_ok d \<Longrightarrow> \<forall>(k, v)\<in>set e. 0 \<le> v \<Longrightarrow> counts_ok (merge_counts d e)"
proof (induction e arbitrary: d)
  case (Cons x e)
  obtain j v where x: "x = (j, v)" by fastforce
  have "counts_ok (AList.update j (max (get0 d j) v) d)"
    using Cons.prems by (intro counts_update) (auto simp: x)
  then show ?case using Cons by (simp add: merge_counts_def x)
qed (simp add: merge_counts_def)

lemma merge_counts_keys: "fst ` set (merge_counts d e) = fst ` set d \<union> fst ` set e"
proof (induction e arbitrary: d)
  case (Cons x e)
  show ?case
    using Cons.IH [of "AList.update (fst x) (max (get0 d (fst x)) (snd x)) d"]
    by (auto simp: merge_counts_def split_beta dom_update)
qed (simp add: merge_counts_def)

lemma counts_join:
  assumes "counts_ok d" and "counts_ok e"
  shows "counts_ok (merge_counts d e)" and
    "map_of (merge_counts d e) k =
      (case map_of d k of
         None \<Rightarrow> map_of e k
       | Some u \<Rightarrow> (case map_of e k of None \<Rightarrow> Some u | Some v \<Rightarrow> Some (max u v)))"
proof -
  show "counts_ok (merge_counts d e)" using assms by (intro merge_counts_ok) (auto simp: counts_ok_def)
  have "0 \<le> v" if "map_of e k = Some v" for v
    using assms(2) map_of_SomeD [OF that] by (auto simp: counts_ok_def)
  then show "map_of (merge_counts d e) k =
      (case map_of d k of
         None \<Rightarrow> map_of e k
       | Some u \<Rightarrow> (case map_of e k of None \<Rightarrow> Some u | Some v \<Rightarrow> Some (max u v)))"
    using assms by (auto simp: merge_counts_lookup counts_ok_def get0_def split: option.split)
qed

lemma get0_join: "counts_ok d \<Longrightarrow> counts_ok e \<Longrightarrow> get0 (merge_counts d e) k = max (get0 d k) (get0 e k)"
  using get0_nonneg [of d k] get0_nonneg [of e k] counts_join(2) [of d e k]
  by (auto simp: get0_def split: option.splits)

lemma counts_laws:
  assumes "counts_ok a" and "counts_ok b"
  shows "map_of (merge_counts a b) = map_of (merge_counts b a)"
    and "counts_ok c \<Longrightarrow> map_of (merge_counts (merge_counts a b) c) = map_of (merge_counts a (merge_counts b c))"
    and "map_of (merge_counts a a) = map_of a"
    and "counts_ok a' \<Longrightarrow> counts_ok b' \<Longrightarrow> map_of a = map_of a' \<Longrightarrow> map_of b = map_of b' \<Longrightarrow>
      map_of (merge_counts a b) = map_of (merge_counts a' b')"
  using assms by (auto simp: fun_eq_iff counts_join max.commute max.assoc split: option.split)

interpretation pn: join_crdt pn_join pn_seen pn_ok
proof unfold_locales
  fix a b :: pn_counter assume ok: "pn_ok a" "pn_ok b"
  then show "pn_ok (pn_join a b)" by (simp add: pn_ok_def counts_join(1))
  show "pn_seen (pn_join a b) = pn_seen (pn_join b a)"
    using ok counts_laws(1) [of "pn_p a" "pn_p b"] counts_laws(1) [of "pn_n a" "pn_n b"]
    by (simp add: pn_ok_def pn_seen_def)
next
  fix a b c :: pn_counter assume "pn_ok a" "pn_ok b" "pn_ok c"
  then show "pn_seen (pn_join (pn_join a b) c) = pn_seen (pn_join a (pn_join b c))"
    using counts_laws(2) [of "pn_p a" "pn_p b" "pn_p c"] counts_laws(2) [of "pn_n a" "pn_n b" "pn_n c"]
    by (simp add: pn_ok_def pn_seen_def)
next
  fix a :: pn_counter assume "pn_ok a"
  then show "pn_seen (pn_join a a) = pn_seen a"
    using counts_laws(3) [of "pn_p a" "pn_p a"] counts_laws(3) [of "pn_n a" "pn_n a"]
    by (simp add: pn_ok_def pn_seen_def)
next
  fix a a' b b' :: pn_counter
  assume "pn_ok a" "pn_ok a'" "pn_ok b" "pn_ok b'" "pn_seen a = pn_seen a'" "pn_seen b = pn_seen b'"
  then show "pn_seen (pn_join a b) = pn_seen (pn_join a' b')"
    using counts_laws(4) [of "pn_p a" "pn_p b" "pn_p a'" "pn_p b'"]
      counts_laws(4) [of "pn_n a" "pn_n b" "pn_n a'" "pn_n b'"]
    by (simp add: pn_ok_def pn_seen_def)
qed

section \<open>A system of counting replicas\<close>

text \<open>
  Replica \<open>i\<close> counts under its own peer id and merges the states of others; a refused amount
  (the \<^verbatim>\<open>ValueError\<close>) leaves the counter as it was.
\<close>

datatype pn_op = Inc int int | Dec int int | Sync int int

definition keep_or :: "'c \<Rightarrow> counter_error + 'c \<Rightarrow> 'c" where
  "keep_or c r = (case r of Inl _ \<Rightarrow> c | Inr c' \<Rightarrow> c')"

fun pn_step :: "(int \<Rightarrow> pn_counter) \<Rightarrow> pn_op \<Rightarrow> (int \<Rightarrow> pn_counter)" where
  "pn_step s (Inc i a) = s(i := keep_or (s i) (pn_increment (s i) i a))"
| "pn_step s (Dec i a) = s(i := keep_or (s i) (pn_decrement (s i) i a))"
| "pn_step s (Sync i j) = s(i := fst (pn_merge (s i) (s j)))"

fun issued :: "pn_op \<Rightarrow> int" where
  "issued (Inc i a) = max a 0"
| "issued (Dec i a) = - max a 0"
| "issued (Sync i j) = 0"

fun in_peers :: "int list \<Rightarrow> pn_op \<Rightarrow> bool" where
  "in_peers ps (Inc i a) \<longleftrightarrow> i \<in> set ps"
| "in_peers ps (Dec i a) \<longleftrightarrow> i \<in> set ps"
| "in_peers ps (Sync i j) \<longleftrightarrow> True"

definition owner_ahead :: "int list \<Rightarrow> (int \<Rightarrow> (int \<times> int) list) \<Rightarrow> bool" where
  "owner_ahead ps d \<longleftrightarrow>
     (\<forall>i. counts_ok (d i) \<and> fst ` set (d i) \<subseteq> set ps \<and> (\<forall>k. get0 (d i) k \<le> get0 (d k) k))"

definition own_total :: "int list \<Rightarrow> (int \<Rightarrow> (int \<times> int) list) \<Rightarrow> int" where
  "own_total ps d = sum_list (map (\<lambda>k. get0 (d k) k) ps)"

lemma get0_update: "get0 (AList.update k v d) j = (if j = k then v else get0 d j)"
  by (simp add: get0_def update_conv')

lemma own_total_bump:
  "distinct ps \<Longrightarrow> i \<in> set ps \<Longrightarrow>
     own_total ps (d(i := AList.update i (get0 (d i) i + a) (d i))) = own_total ps d + a"
proof (induction ps)
  case (Cons p ps)
  have other: "map (\<lambda>k. get0 (if k = m then e else d k) k) qs = map (\<lambda>k. get0 (d k) k) qs" if "m \<notin> set qs" for e qs m
    using that by (induction qs) auto
  show ?case
    using Cons by (auto simp: own_total_def get0_update other)
qed simp

lemma owner_ahead_bump:
  assumes "owner_ahead ps d" and "i \<in> set ps" and "0 \<le> a"
  shows "owner_ahead ps (d(i := AList.update i (get0 (d i) i + a) (d i)))"
proof -
  have "get0 (d j) i \<le> get0 (d i) i + a" for j
  proof -
    have "get0 (d j) i \<le> get0 (d i) i" using assms(1) by (simp add: owner_ahead_def)
    then show ?thesis using assms(3) by simp
  qed
  moreover have "0 \<le> get0 (d i) i" using assms(1) by (simp add: owner_ahead_def get0_nonneg)
  ultimately show ?thesis
    using assms by (auto simp: owner_ahead_def counts_update dom_update get0_update)
qed

lemma owner_ahead_merge:
  assumes "owner_ahead ps d"
  shows "owner_ahead ps (d(i := merge_counts (d i) (d j)))"
    and "own_total ps (d(i := merge_counts (d i) (d j))) = own_total ps d"
proof -
  have le: "get0 (d m) k \<le> get0 (d k) k" and ok: "counts_ok (d m)" for m k
    using assms by (simp_all add: owner_ahead_def)
  show "owner_ahead ps (d(i := merge_counts (d i) (d j)))"
    using assms le
    by (auto simp: owner_ahead_def counts_join(1) merge_counts_keys get0_join le_max_iff_disj)
  have "(\<lambda>k. get0 ((d(i := merge_counts (d i) (d j))) k) k) = (\<lambda>k. get0 (d k) k)"
    using le ok by (auto simp: fun_eq_iff get0_join max_def intro: antisym)
  then show "own_total ps (d(i := merge_counts (d i) (d j))) = own_total ps d"
    by (simp add: own_total_def)
qed

lemma map_of_none: "k \<notin> fst ` set d \<Longrightarrow> map_of d k = None"
  by (simp add: map_of_eq_None_iff)

lemma counts_sum:
  assumes "counts_ok d" and "distinct ps" and "fst ` set d \<subseteq> set ps"
  shows "sum_list (map snd d) = sum_list (map (get0 d) ps)"
proof -
  have d: "distinct (map fst d)" using assms(1) by (simp add: counts_ok_def)
  have "map snd d = map (get0 d) (map fst d)"
    using d by (auto simp: get0_def map_of_is_SomeI intro!: map_cong)
  then have "sum_list (map snd d) = sum (get0 d) (fst ` set d)"
    using d by (simp add: sum_list_distinct_conv_sum_set del: map_map)
  also have "\<dots> = sum (get0 d) (set ps)"
    using assms(3) by (intro sum.mono_neutral_left) (auto simp: get0_def map_of_none split: option.split)
  finally show ?thesis using assms(2) by (simp add: sum_list_distinct_conv_sum_set)
qed

definition pn_system_ok :: "int list \<Rightarrow> (int \<Rightarrow> pn_counter) \<Rightarrow> int \<Rightarrow> bool" where
  "pn_system_ok ps s tot \<longleftrightarrow>
     owner_ahead ps (\<lambda>i. pn_p (s i)) \<and> owner_ahead ps (\<lambda>i. pn_n (s i)) \<and>
     own_total ps (\<lambda>i. pn_p (s i)) - own_total ps (\<lambda>i. pn_n (s i)) = tot"

lemma pn_fields_upd:
  "(\<lambda>j. pn_p ((s(i := c)) j)) = (\<lambda>j. pn_p (s j))(i := pn_p c)"
  "(\<lambda>j. pn_n ((s(i := c)) j)) = (\<lambda>j. pn_n (s j))(i := pn_n c)"
  "(\<lambda>j. pn_p (s j))(i := pn_p (s i)) = (\<lambda>j. pn_p (s j))"
  "(\<lambda>j. pn_n (s j))(i := pn_n (s i)) = (\<lambda>j. pn_n (s j))"
  by auto

lemma pn_step_ok:
  assumes "distinct ps" and "in_peers ps x" and "pn_system_ok ps s tot"
  shows "pn_system_ok ps (pn_step s x) (tot + issued x)"
proof (cases x)
  case (Inc i a)
  then show ?thesis
    using assms owner_ahead_bump [of ps "\<lambda>i. pn_p (s i)" i a] own_total_bump [of ps i "\<lambda>i. pn_p (s i)" a]
    by (auto simp: pn_system_ok_def pn_increment_def keep_or_def pn_fields_upd simp del: fun_upd_apply)
next
  case (Dec i a)
  then show ?thesis
    using assms owner_ahead_bump [of ps "\<lambda>i. pn_n (s i)" i a] own_total_bump [of ps i "\<lambda>i. pn_n (s i)" a]
    by (auto simp: pn_system_ok_def pn_decrement_def keep_or_def pn_fields_upd simp del: fun_upd_apply)
next
  case (Sync i j)
  then show ?thesis
    using assms owner_ahead_merge [of ps "\<lambda>i. pn_p (s i)" i j] owner_ahead_merge [of ps "\<lambda>i. pn_n (s i)" i j]
    by (simp add: pn_system_ok_def pn_merge_def Let_def pn_fields_upd del: fun_upd_apply)
qed

lemma pn_run_ok:
  assumes "distinct ps"
  shows "list_all (in_peers ps) xs \<Longrightarrow> pn_system_ok ps s tot \<Longrightarrow>
    pn_system_ok ps (foldl pn_step s xs) (tot + sum_list (map issued xs))"
proof (induction xs arbitrary: s tot)
  case (Cons x xs)
  have "pn_system_ok ps (pn_step s x) (tot + issued x)"
    by (rule pn_step_ok [OF assms]) (use Cons.prems in auto)
  from Cons.IH [OF _ this] show ?case using Cons.prems by (simp add: algebra_simps)
qed simp

lemma pn_start_ok: "pn_system_ok ps (\<lambda>_. pn_new) 0"
  by (simp add: pn_system_ok_def owner_ahead_def own_total_def pn_new_def counts_ok_def get0_def)

lemma owner_merge_all:
  assumes "owner_ahead ps d" and "k \<in> set qs"
  shows "get0 (foldl merge_counts (d i) (map d qs)) k = get0 (d k) k"
proof -
  have le: "get0 (d m) k \<le> get0 (d k) k" and ok: "counts_ok (d m)" for m
    using assms(1) by (simp_all add: owner_ahead_def)
  have up: "counts_ok e \<Longrightarrow> get0 e k \<le> get0 (d k) k \<Longrightarrow>
      get0 (foldl merge_counts e (map d qs)) k = (if k \<in> set qs then get0 (d k) k else
        foldl max (get0 e k) (map (\<lambda>q. get0 (d q) k) qs))" for e
  proof (induction qs arbitrary: e)
    case (Cons q qs)
    have top: "foldl max (get0 (d k) k) (map (\<lambda>q. get0 (d q) k) rs) = get0 (d k) k" for rs
      using le by (induction rs) (simp_all add: max_absorb1)
    have step: "counts_ok (merge_counts e (d q))" "get0 (merge_counts e (d q)) k = max (get0 e k) (get0 (d q) k)"
      using Cons.prems(1) ok by (simp_all add: counts_join(1) get0_join)
    have "max (get0 e k) (get0 (d k) k) = get0 (d k) k" using Cons.prems(2) by simp
    then show ?case using Cons.IH [OF step(1)] Cons.prems le step(2) top by auto
  qed simp
  show ?thesis using up [OF ok le] assms(2) by simp
qed

lemma owner_merge_keys:
  "fst ` set (foldl merge_counts e (map d qs)) = fst ` set e \<union> (\<Union>q\<in>set qs. fst ` set (d q))"
  by (induction qs arbitrary: e) (auto simp: merge_counts_keys)

lemma owner_merge_ok:
  assumes "owner_ahead ps d"
  shows "counts_ok e \<Longrightarrow> counts_ok (foldl merge_counts e (map d qs))"
  using assms by (induction qs arbitrary: e) (simp_all add: counts_join(1) owner_ahead_def)

lemma owner_merge_total:
  assumes "owner_ahead ps d" and "distinct ps"
  shows "sum_list (map snd (foldl merge_counts (d i) (map d ps))) = own_total ps d"
proof -
  let ?e = "foldl merge_counts (d i) (map d ps)"
  have "counts_ok ?e" using assms(1) by (intro owner_merge_ok) (auto simp: owner_ahead_def)
  moreover have "fst ` set ?e \<subseteq> set ps"
    using assms(1) by (auto simp: owner_merge_keys owner_ahead_def)
  ultimately have "sum_list (map snd ?e) = sum_list (map (get0 ?e) ps)"
    by (rule counts_sum [OF _ assms(2)])
  also have "map (get0 ?e) ps = map (\<lambda>k. get0 (d k) k) ps"
    by (rule map_cong) (simp_all add: owner_merge_all [OF assms(1)])
  finally show ?thesis by (simp add: own_total_def)
qed

lemma pn_join_foldl:
  "pn_p (foldl pn_join c cs) = foldl merge_counts (pn_p c) (map pn_p cs)"
  "pn_n (foldl pn_join c cs) = foldl merge_counts (pn_n c) (map pn_n cs)"
  by (induction cs arbitrary: c) simp_all

text \<open>A replica that has merged every replica shows the sum of everything that was issued.\<close>

lemma pn_total:
  assumes "pn_system_ok ps s tot" and "distinct ps"
  shows "pn_value (foldl pn_join (s i) (map s ps)) = tot"
  using assms owner_merge_total [of ps "\<lambda>i. pn_p (s i)" i] owner_merge_total [of ps "\<lambda>i. pn_n (s i)" i]
  by (simp add: pn_value_def pn_join_foldl pn_system_ok_def comp_def)

section \<open>The CRDT cell\<close>

definition crdt_cell_ok :: "'v crdt_cell \<Rightarrow> bool" where
  "crdt_cell_ok c \<longleftrightarrow> live (cr_cell c) \<and> c_value (cr_cell c) = lww_value (cr_register c)"

lemma cr_take_ok:
  assumes "crdt_cell_ok c" and "\<not> snd x \<Longrightarrow> fst x = cr_register c"
  shows "crdt_cell_ok (fst (cr_take c x)) \<and> cr_register (fst (cr_take c x)) = fst x \<and>
    c_notified (cr_cell (fst (cr_take c x))) =
      c_notified (cr_cell c) + (if lww_value (fst x) \<noteq> lww_value (cr_register c) then 1 else 0)"
  using assms by (cases x) (auto simp: crdt_cell_ok_def cr_take_def cell_set_notified)

lemma cr_merge_ok:
  assumes "crdt_cell_ok c"
  shows "crdt_cell_ok (fst (cr_merge c other)) \<and>
    cr_register (fst (cr_merge c other)) = lww_join (cr_register c) other \<and>
    c_notified (cr_cell (fst (cr_merge c other))) = c_notified (cr_cell c) +
      (if lww_value (lww_join (cr_register c) other) \<noteq> lww_value (cr_register c) then 1 else 0)"
  unfolding cr_merge_def lww_join_def using assms
  by (intro cr_take_ok) (auto simp: lww_merge_def split: option.splits if_splits)

lemma cr_merges:
  "crdt_cell_ok c \<Longrightarrow>
     cr_register (foldl (\<lambda>c r. fst (cr_merge c r)) c rs) = foldl lww_join (cr_register c) rs \<and>
     crdt_cell_ok (foldl (\<lambda>c r. fst (cr_merge c r)) c rs)"
  using cr_merge_ok by (induction rs arbitrary: c) fastforce+

end
