(* ===== verification/RegisterTheorems.thy ===== *)
theory RegisterTheorems
  imports Registers
begin

text \<open>
  The properties of the replicated registers: convergence of the last-write-wins and the
  multi-value register, and the count of the positive-negative counter.
\<close>

text \<open>Last write wins. Cells whose registers merged the same set of states, in any order and with
  any repetitions, show the same register, if a stamp identifies its write; the register
  carries the greatest stamp that was merged.\<close>

theorem lww_converges:
  assumes "list_all (lww_ok w) (r # rs)" and "list_all (lww_ok w) (r' # rs')" and "set (r # rs) = set (r' # rs')"
  shows "foldl (\<lambda>c x. fst (cr_merge c x)) (crdt_cell_new (Some r)) rs = c \<Longrightarrow>
    foldl (\<lambda>c x. fst (cr_merge c x)) (crdt_cell_new (Some r')) rs' = c' \<Longrightarrow>
    cr_value c = cr_value c' \<and> cr_register c = cr_register c' \<and>
    lww_stamp (cr_register c) = foldl max (lww_stamp r) (map lww_stamp rs)"
proof -
  have start: "crdt_cell_ok (crdt_cell_new (Some x))" "cr_register (crdt_cell_new (Some x)) = x" for x :: "'a lww"
    by (simp_all add: crdt_cell_ok_def crdt_cell_new_def)
  assume "foldl (\<lambda>c x. fst (cr_merge c x)) (crdt_cell_new (Some r)) rs = c"
    and "foldl (\<lambda>c x. fst (cr_merge c x)) (crdt_cell_new (Some r')) rs' = c'"
  then have "crdt_cell_ok c \<and> cr_register c = foldl lww_join r rs"
    and "crdt_cell_ok c' \<and> cr_register c' = foldl lww_join r' rs'"
    using cr_merges [OF start(1), of r rs] cr_merges [OF start(1), of r' rs'] start(2) by auto
  then show ?thesis using lww.same_states [OF assms] lww_fold_max [of r rs]
    by (simp add: crdt_cell_ok_def cr_value_def cell_get_def live_def)
qed

definition stamp_at :: "int \<Rightarrow> stamp" where
  "stamp_at t = WireStamp t 0 1"

definition demo_write :: "int \<Rightarrow> int lww" where
  "demo_write t = \<lparr>lww_value = Some t, lww_stamp = Some (stamp_at t)\<rparr>"

theorem lww_converges_witness:
  "cr_value (foldl (\<lambda>c x. fst (cr_merge c x)) (crdt_cell_new (Some (demo_write 1))) [demo_write 2, demo_write 1]) =
   cr_value (foldl (\<lambda>c x. fst (cr_merge c x)) (crdt_cell_new (Some (demo_write 2))) [demo_write 1])"
  using lww_converges [of "\<lambda>s. Some (wall_time s)" "demo_write 1" "[demo_write 2, demo_write 1]"
      "demo_write 2" "[demo_write 1]"]
  by (force simp: lww_ok_def demo_write_def stamp_at_def)

text \<open>Multi-value registers that merged the same set of states agree on their values and on what
  they have observed; a merge keeps exactly the stamped writes of either side that neither has
  observed to be overwritten.\<close>

theorem mv_converges:
  assumes "list_all (mv_ok w) (r # rs)" and "list_all (mv_ok w) (r' # rs')" and "set (r # rs) = set (r' # rs')"
  shows "foldl mv_join r rs = foldl mv_join r' rs' \<and>
    mv_stamps (fst (mv_merge r r')) = (mv_stamps r \<union> mv_stamps r') - (mv_observed r \<union> mv_observed r')"
  using mv.same_states [OF assms] mv_join_ok [of w r r'] assms(1,2) by (simp add: mv_join_def)

theorem mv_converges_witness:
  "foldl mv_join (fst (mv_write mv_new 1 (stamp_at 1))) [fst (mv_write mv_new 2 (stamp_at 2))] =
   foldl mv_join (fst (mv_write mv_new 2 (stamp_at 2))) [fst (mv_write mv_new (1::int) (stamp_at 1))]"
  using mv_converges [of wall_time "fst (mv_write mv_new 1 (stamp_at 1))" "[fst (mv_write mv_new 2 (stamp_at 2))]"
      "fst (mv_write mv_new 2 (stamp_at 2))" "[fst (mv_write mv_new 1 (stamp_at 1))]"]
  by (auto simp: mv_ok_def mv_write_def mv_new_def mv_stamps_def stamp_at_def)

text \<open>Counting is exact in a system of replicas. After any run of increments, decrements (a negative
  amount is refused) and merges between replicas that count under their own peer ids, a
  replica that merges all the others shows the sum of everything that was issued.\<close>

theorem pn_counts:
  assumes "distinct ps" and "list_all (in_peers ps) xs"
  shows "pn_value (foldl pn_join (foldl pn_step (\<lambda>_. pn_new) xs i) (map (foldl pn_step (\<lambda>_. pn_new) xs) ps)) =
    sum_list (map issued xs)"
  using pn_total [OF pn_run_ok [OF assms pn_start_ok] assms(1)] by simp

theorem pn_counts_witness:
  "pn_value (foldl pn_join (foldl pn_step (\<lambda>_. pn_new) [Inc 1 5, Sync 2 1, Dec 2 3, Inc 1 (- 4)] 1)
     (map (foldl pn_step (\<lambda>_. pn_new) [Inc 1 5, Sync 2 1, Dec 2 3, Inc 1 (- 4)]) [1, 2])) = 2"
  using pn_counts [of "[1, 2]" "[Inc 1 5, Sync 2 1, Dec 2 3, Inc 1 (- 4)]" 1] by simp

end
