(* ===== verification/StateChart.thy ===== *)
theory StateChart
  imports Cells
begin

text \<open>
  The state charts of \<^verbatim>\<open>src/lazily/statechart.py\<close>: the chart definition with its tree
  queries, entry and exit sets, history, and the run-to-completion \<^verbatim>\<open>send\<close>. A dictionary of
  states is an association list in insertion order. The loops over parents and the recursion
  into initial states carry the number of states as fuel, which is enough in a chart whose
  parents form a tree (chapter Properties); on a parent cycle the code does not return.
  Leaves are visited in increasing order where the code leaves the order of a set open.
\<close>

section \<open>The chart\<close>

datatype state_kind = Atomic | Compound | Parallel | HistoryState | Final

datatype history_kind = Shallow | Deep

record 's transition =
  tr_target :: 's
  tr_guard :: "string option"
  tr_action :: "string list"
  tr_internal :: bool

record 's state_def =
  sd_parent :: "'s option"
  sd_kind :: state_kind
  sd_history :: "history_kind option"
  sd_initial :: "'s option"
  sd_default :: "'s option"
  sd_transitions :: "string \<rightharpoonup> 's transition"
  sd_entry :: "string list"
  sd_exit :: "string list"

record 's chart_def =
  ch_states :: "('s \<times> 's state_def) list"
  ch_root :: 's
  ch_depth :: "('s \<times> nat) list"

datatype chart_error = UndeclaredInitial | UndeclaredReference | ManyRoots | NoRoot

definition state_of :: "'s chart_def \<Rightarrow> 's \<Rightarrow> 's state_def option" where
  "state_of ch s = map_of (ch_states ch) s"

definition chart_children :: "'s chart_def \<Rightarrow> 's \<Rightarrow> 's list" where
  "chart_children ch s = map fst (filter (\<lambda>(k, d). sd_parent d = Some s) (ch_states ch))"

text \<open>Recursion over the tree below a state, listing each state with its depth.\<close>

fun compute_depth :: "nat \<Rightarrow> ('s \<times> 's state_def) list \<Rightarrow> 's \<Rightarrow> nat \<Rightarrow> ('s \<times> nat) list" where
  "compute_depth 0 states s cur = []"
| "compute_depth (Suc k) states s cur =
     (s, cur) # concat (map (\<lambda>(i, d). if sd_parent d = Some s then compute_depth k states i (cur + 1) else [])
       states)"

definition refs_declared :: "('s \<times> 's state_def) list \<Rightarrow> 's state_def \<Rightarrow> string list \<Rightarrow> bool" where
  "refs_declared states d events \<longleftrightarrow>
     (case sd_parent d of None \<Rightarrow> True | Some t \<Rightarrow> t \<in> fst ` set states) \<and>
     (case sd_initial d of None \<Rightarrow> True | Some t \<Rightarrow> t \<in> fst ` set states) \<and>
     (case sd_default d of None \<Rightarrow> True | Some t \<Rightarrow> t \<in> fst ` set states) \<and>
     list_all (\<lambda>ev. case sd_transitions d ev of None \<Rightarrow> True | Some t \<Rightarrow> tr_target t \<in> fst ` set states) events"

text \<open>The checks of \<^verbatim>\<open>from_chart\<close> after parsing; \<open>events\<close> lists the event names of the chart.\<close>

definition chart_build ::
  "'s \<Rightarrow> ('s \<times> 's state_def) list \<Rightarrow> string list \<Rightarrow> chart_error + 's chart_def" where
  "chart_build initial states events =
     (if initial \<notin> fst ` set states then Inl UndeclaredInitial
      else if \<not> list_all (\<lambda>(i, d). refs_declared states d events) states then Inl UndeclaredReference
      else case map fst (filter (\<lambda>(i, d). sd_parent d = None) states) of
        [] \<Rightarrow> Inl NoRoot
      | [root] \<Rightarrow> Inr \<lparr>ch_states = states, ch_root = root,
                      ch_depth = compute_depth (Suc (length states)) states root 0\<rparr>
      | _ \<Rightarrow> Inl ManyRoots)"

definition kind_in :: "'s chart_def \<Rightarrow> 's \<Rightarrow> state_kind option" where
  "kind_in ch s = map_option sd_kind (state_of ch s)"

definition is_leaf :: "'s chart_def \<Rightarrow> 's \<Rightarrow> bool" where
  "is_leaf ch s \<longleftrightarrow> kind_in ch s \<in> {Some Atomic, Some Final}"

primrec ancestors :: "nat \<Rightarrow> 's chart_def \<Rightarrow> 's \<Rightarrow> 's list" where
  "ancestors 0 ch s = []"
| "ancestors (Suc k) ch s =
     (case state_of ch s of
        None \<Rightarrow> []
      | Some d \<Rightarrow> s # (case sd_parent d of None \<Rightarrow> [] | Some p \<Rightarrow> ancestors k ch p))"

definition ancestors_inclusive :: "'s chart_def \<Rightarrow> 's \<Rightarrow> 's list" where
  "ancestors_inclusive ch s = ancestors (Suc (length (ch_states ch))) ch s"

definition chart_lca :: "'s chart_def \<Rightarrow> 's \<Rightarrow> 's \<Rightarrow> 's" where
  "chart_lca ch a b =
     (case List.find (\<lambda>c. c \<in> set (ancestors_inclusive ch a)) (ancestors_inclusive ch b) of
        Some c \<Rightarrow> c | None \<Rightarrow> ch_root ch)"

definition is_proper_descendant :: "'s chart_def \<Rightarrow> 's \<Rightarrow> 's \<Rightarrow> bool" where
  "is_proper_descendant ch desc anc \<longleftrightarrow> desc \<noteq> anc \<and> anc \<in> set (ancestors_inclusive ch desc)"

definition depth_of :: "'s chart_def \<Rightarrow> 's \<Rightarrow> nat" where
  "depth_of ch s = (case map_of (ch_depth ch) s of None \<Rightarrow> 0 | Some d \<Rightarrow> d)"

definition order_of :: "'s chart_def \<Rightarrow> 's \<Rightarrow> nat" where
  "order_of ch s =
     (if s \<in> fst ` set (ch_states ch) then length (takeWhile (\<lambda>x. x \<noteq> s) (map fst (ch_states ch)))
      else length (ch_states ch) + 1)"

section \<open>Entering\<close>

text \<open>
  The states \<^verbatim>\<open>_enter_subtree\<close> visits, in order: it adds each to the entry set and, when a
  list of actions is wanted, appends its entry actions.
\<close>

fun enter_subtree :: "nat \<Rightarrow> 's chart_def \<Rightarrow> 's \<Rightarrow> 's list" where
  "enter_subtree 0 ch s = [s]"
| "enter_subtree (Suc k) ch s =
     s # (case state_of ch s of
            None \<Rightarrow> []
          | Some d \<Rightarrow>
              (case sd_kind d of
                 Compound \<Rightarrow> (case sd_initial d of None \<Rightarrow> [] | Some i \<Rightarrow> enter_subtree k ch i)
               | Parallel \<Rightarrow> concat (map (enter_subtree k ch) (chart_children ch s))
               | _ \<Rightarrow> []))"

definition entered :: "'s chart_def \<Rightarrow> 's \<Rightarrow> 's list" where
  "entered ch s = enter_subtree (length (ch_states ch)) ch s"

definition entry_actions :: "'s chart_def \<Rightarrow> 's list \<Rightarrow> string list" where
  "entry_actions ch ss = concat (map (\<lambda>s. case state_of ch s of None \<Rightarrow> [] | Some d \<Rightarrow> sd_entry d) ss)"

definition exit_actions :: "'s chart_def \<Rightarrow> 's list \<Rightarrow> string list" where
  "exit_actions ch ss = concat (map (\<lambda>s. case state_of ch s of None \<Rightarrow> [] | Some d \<Rightarrow> sd_exit d) ss)"

definition path_below :: "'s chart_def \<Rightarrow> 's \<Rightarrow> 's \<Rightarrow> 's list" where
  "path_below ch lca target = rev (takeWhile (\<lambda>x. x \<noteq> lca) (ancestors_inclusive ch target))"

section \<open>History\<close>

datatype 's recording = Child 's | DeepSet "'s set"

type_synonym 's chart_history = "'s \<rightharpoonup> 's recording"

definition history_child_of :: "'s chart_def \<Rightarrow> 's \<Rightarrow> 's option" where
  "history_child_of ch region =
     List.find (\<lambda>kid. kind_in ch kid = Some HistoryState) (chart_children ch region)"

definition record_region ::
  "'s chart_def \<Rightarrow> 's set \<Rightarrow> 's \<Rightarrow> 's \<Rightarrow> 's chart_history \<Rightarrow> 's chart_history" where
  "record_region ch config region hist h =
     (case state_of ch hist of
        None \<Rightarrow> h
      | Some d \<Rightarrow>
          if sd_kind d \<noteq> HistoryState then h
          else if sd_history d = Some Shallow
          then (case List.find (\<lambda>kid. kid \<in> config \<and> kind_in ch kid \<noteq> Some HistoryState)
                     (chart_children ch region) of
                  None \<Rightarrow> h | Some kid \<Rightarrow> h(hist \<mapsto> Child kid))
          else h(hist \<mapsto> DeepSet {s \<in> config. is_proper_descendant ch s region}))"

definition record_exit :: "'s chart_def \<Rightarrow> 's set \<Rightarrow> 's \<Rightarrow> 's chart_history \<Rightarrow> 's chart_history" where
  "record_exit ch config s h =
     (case history_child_of ch s of None \<Rightarrow> h | Some hist \<Rightarrow> record_region ch config s hist h)"

definition restore_start :: "'s chart_def \<Rightarrow> 's \<Rightarrow> 's \<Rightarrow> 's option" where
  "restore_start ch hist region =
     (case state_of ch hist of
        Some d \<Rightarrow> (case sd_default d of
                    Some s \<Rightarrow> Some s
                  | None \<Rightarrow> (case state_of ch region of None \<Rightarrow> None | Some r \<Rightarrow> sd_initial r))
      | None \<Rightarrow> (case state_of ch region of None \<Rightarrow> None | Some r \<Rightarrow> sd_initial r))"

definition restore_via_history :: "'s chart_def \<Rightarrow> 's chart_history \<Rightarrow> 's \<Rightarrow> 's \<Rightarrow> 's set" where
  "restore_via_history ch h hist region =
     (case h hist of
        None \<Rightarrow>
          (case restore_start ch hist region of
             None \<Rightarrow> {}
           | Some start \<Rightarrow> set (path_below ch region start) \<union> set (entered ch start))
      | Some (Child c) \<Rightarrow> insert c (set (entered ch c))
      | Some (DeepSet ss) \<Rightarrow> ss)"

section \<open>Transitions\<close>

definition guard_passes :: "'s transition \<Rightarrow> (string \<rightharpoonup> bool) \<Rightarrow> bool" where
  "guard_passes t guards =
     (case tr_guard t of None \<Rightarrow> True | Some g \<Rightarrow> (case guards g of None \<Rightarrow> False | Some b \<Rightarrow> b))"

record 's candidate =
  ca_source :: 's
  ca_transition :: "'s transition"
  ca_leaf :: 's

definition candidate_lca :: "'s chart_def \<Rightarrow> 's candidate \<Rightarrow> 's" where
  "candidate_lca ch c =
     (let t = ca_transition c; target = tr_target t;
          internal = (tr_internal t \<and> (target = ca_source c \<or> is_proper_descendant ch target (ca_source c)))
      in if internal then ca_source c else chart_lca ch (ca_leaf c) target)"

definition exit_set :: "'s chart_def \<Rightarrow> 's set \<Rightarrow> 's candidate \<Rightarrow> 's set" where
  "exit_set ch config c = {s \<in> config. is_proper_descendant ch s (candidate_lca ch c)}"

definition enter_set :: "'s chart_def \<Rightarrow> 's chart_history \<Rightarrow> 's candidate \<Rightarrow> 's set" where
  "enter_set ch h c =
     (let target = tr_target (ca_transition c); lca = candidate_lca ch c
      in if kind_in ch target = Some HistoryState
         then let region = (case state_of ch target of
                              None \<Rightarrow> ch_root ch
                            | Some d \<Rightarrow> (case sd_parent d of None \<Rightarrow> ch_root ch | Some p \<Rightarrow> p))
              in set (path_below ch lca region) \<union> restore_via_history ch h target region
         else set (path_below ch lca target) \<union> set (entered ch target))"

text \<open>The innermost enabled transition on the chain of a leaf.\<close>

definition candidate_of ::
  "'s chart_def \<Rightarrow> string \<Rightarrow> (string \<rightharpoonup> bool) \<Rightarrow> 's \<Rightarrow> 's candidate option" where
  "candidate_of ch ev guards leaf =
     (case List.find (\<lambda>anc. case state_of ch anc of
                None \<Rightarrow> False
              | Some d \<Rightarrow> (case sd_transitions d ev of None \<Rightarrow> False | Some t \<Rightarrow> guard_passes t guards))
            (ancestors_inclusive ch leaf) of
        None \<Rightarrow> None
      | Some anc \<Rightarrow>
          (case state_of ch anc of
             None \<Rightarrow> None
           | Some d \<Rightarrow> map_option (\<lambda>t. \<lparr>ca_source = anc, ca_transition = t, ca_leaf = leaf\<rparr>)
                         (sd_transitions d ev)))"

definition candidates :: "'s::linorder chart_def \<Rightarrow> string \<Rightarrow> (string \<rightharpoonup> bool) \<Rightarrow> 's set \<Rightarrow> 's candidate list" where
  "candidates ch ev guards config =
     sort_key (\<lambda>c. order_of ch (ca_source c))
       (List.map_filter (candidate_of ch ev guards) (sorted_list_of_set {s \<in> config. is_leaf ch s}))"

definition candidates_by_depth :: "'s chart_def \<Rightarrow> 's candidate list \<Rightarrow> 's candidate list" where
  "candidates_by_depth ch cs = sort_key (\<lambda>c. - int (depth_of ch (ca_source c))) cs"

text \<open>Candidates in order of priority; one that exits a state already exited is skipped.\<close>

fun take_candidates ::
  "'s chart_def \<Rightarrow> 's set \<Rightarrow> 's set \<Rightarrow> 's candidate list \<Rightarrow> 's candidate list" where
  "take_candidates ch config exits [] = []"
| "take_candidates ch config exits (c # cs) =
     (let x = exit_set ch config c
      in if x \<inter> exits \<noteq> {} then take_candidates ch config exits cs
         else c # take_candidates ch config (exits \<union> x) cs)"

section \<open>The reactive chart\<close>

record 's state_chart =
  st_def :: "'s chart_def"
  st_config :: "'s set cell"
  st_history :: "'s chart_history"
  st_last_actions :: "string list"

definition chart_start :: "'s chart_def \<Rightarrow> 's state_chart" where
  "chart_start ch =
     (let ss = entered ch (ch_root ch)
      in \<lparr>st_def = ch, st_config = cell_new (set ss), st_history = Map.empty,
          st_last_actions = entry_actions ch ss\<rparr>)"

definition exit_order :: "'s::linorder chart_def \<Rightarrow> 's set \<Rightarrow> 's list" where
  "exit_order ch ss = sort_key (\<lambda>s. - int (depth_of ch s)) (sorted_list_of_set ss)"

definition entry_order :: "'s::linorder chart_def \<Rightarrow> 's set \<Rightarrow> 's list" where
  "entry_order ch ss = sort_key (depth_of ch) (sorted_list_of_set ss)"

definition chart_send ::
  "'s::linorder state_chart \<Rightarrow> string \<Rightarrow> (string \<rightharpoonup> bool) \<Rightarrow> 's state_chart \<times> bool" where
  "chart_send sc ev guards =
     (let ch = st_def sc; config = c_value (st_config sc);
          cands = candidates_by_depth ch (candidates ch ev guards config)
      in if cands = [] then (sc\<lparr>st_last_actions := []\<rparr>, False)
         else
           let taken = take_candidates ch config {} cands;
               exits = \<Union> (set (map (exit_set ch config) taken));
               enters = \<Union> (set (map (enter_set ch (st_history sc)) taken));
               acts = exit_actions ch (exit_order ch exits) @
                      concat (map (\<lambda>c. tr_action (ca_transition c)) taken) @
                      entry_actions ch (entry_order ch enters)
           in if taken = [] then (sc\<lparr>st_last_actions := []\<rparr>, False)
              else (sc\<lparr>st_history := fold (record_exit ch config) (sorted_list_of_set exits) (st_history sc),
                       st_last_actions := acts,
                       st_config := cell_set (st_config sc) ((config - exits) \<union> enters)\<rparr>, True))"

definition configuration :: "'s::linorder state_chart \<Rightarrow> 's list" where
  "configuration sc = sorted_list_of_set (c_value (st_config sc))"

definition active_leaves :: "'s::linorder state_chart \<Rightarrow> 's list" where
  "active_leaves sc = sorted_list_of_set {s \<in> c_value (st_config sc). is_leaf (st_def sc) s}"

definition matches_state :: "'s state_chart \<Rightarrow> 's \<Rightarrow> bool" where
  "matches_state sc s \<longleftrightarrow> s \<in> c_value (st_config sc)"

chapter \<open>Properties\<close>

text \<open>
  Well-formed charts, the tree queries on them, and the configuration invariant: every active
  state is declared and its parent is active. A \<open>send\<close> keeps it whenever each taken transition
  exits its own leaf; the condition is needed.
\<close>

section \<open>Well-formed charts\<close>

definition parent_of :: "'s chart_def \<Rightarrow> 's \<Rightarrow> 's option" where
  "parent_of ch s = (case state_of ch s of None \<Rightarrow> None | Some d \<Rightarrow> sd_parent d)"

definition declared :: "'s chart_def \<Rightarrow> 's \<Rightarrow> bool" where
  "declared ch s \<longleftrightarrow> state_of ch s \<noteq> None"

text \<open>
  The depths witness that the parents form a tree: a child lies one below its parent and no
  depth reaches the number of states. Initial states are children of their state.
\<close>

definition chart_wf :: "'s chart_def \<Rightarrow> bool" where
  "chart_wf ch \<longleftrightarrow> declared ch (ch_root ch) \<and> parent_of ch (ch_root ch) = None \<and>
     distinct (map fst (ch_states ch)) \<and>
     list_all (\<lambda>(s, d). depth_of ch s < length (ch_states ch) \<and>
       (case sd_parent d of None \<Rightarrow> s = ch_root ch
        | Some p \<Rightarrow> declared ch p \<and> depth_of ch s = Suc (depth_of ch p)) \<and>
       (case sd_initial d of None \<Rightarrow> True | Some i \<Rightarrow> declared ch i \<and> parent_of ch i = Some s) \<and>
       (case sd_default d of None \<Rightarrow> True | Some i \<Rightarrow> declared ch i)) (ch_states ch)"

lemma wf_parent:
  assumes "chart_wf ch" and "parent_of ch s = Some p"
  shows "declared ch s" "declared ch p" "depth_of ch s = Suc (depth_of ch p)"
  using assms unfolding chart_wf_def parent_of_def declared_def state_of_def
  by (fastforce split: option.splits dest: map_of_SomeD simp: list_all_iff)+

lemma wf_depth: "chart_wf ch \<Longrightarrow> declared ch s \<Longrightarrow> depth_of ch s < length (ch_states ch)"
  unfolding chart_wf_def declared_def state_of_def by (fastforce dest: map_of_SomeD simp: list_all_iff)

lemma wf_root: "chart_wf ch \<Longrightarrow> declared ch s \<Longrightarrow> parent_of ch s = None \<Longrightarrow> s = ch_root ch"
  unfolding chart_wf_def declared_def parent_of_def state_of_def
  by (fastforce split: option.splits dest: map_of_SomeD simp: list_all_iff)

lemma wf_initial:
  "chart_wf ch \<Longrightarrow> state_of ch s = Some d \<Longrightarrow> sd_initial d = Some i \<Longrightarrow> declared ch i \<and> parent_of ch i = Some s"
  unfolding chart_wf_def state_of_def by (fastforce split: option.splits dest: map_of_SomeD simp: list_all_iff)

lemma wf_default: "chart_wf ch \<Longrightarrow> state_of ch s = Some d \<Longrightarrow> sd_default d = Some i \<Longrightarrow> declared ch i"
  unfolding chart_wf_def state_of_def by (fastforce split: option.splits dest: map_of_SomeD simp: list_all_iff)

lemma wf_child:
  assumes "chart_wf ch" and "k \<in> set (chart_children ch s)"
  shows "declared ch k \<and> parent_of ch k = Some s"
proof -
  obtain d where "(k, d) \<in> set (ch_states ch)" "sd_parent d = Some s"
    using assms(2) by (auto simp: chart_children_def)
  moreover have "distinct (map fst (ch_states ch))" using assms(1) by (simp add: chart_wf_def)
  ultimately have "state_of ch k = Some d" by (simp add: state_of_def)
  then show ?thesis using \<open>sd_parent d = Some s\<close> by (simp add: declared_def parent_of_def)
qed

section \<open>Ancestors\<close>

lemma ancestors_step:
  "declared ch s \<Longrightarrow> ancestors (Suc k) ch s = s # (case parent_of ch s of None \<Rightarrow> [] | Some p \<Rightarrow> ancestors k ch p)"
  by (auto simp: declared_def parent_of_def split: option.splits)

text \<open>Any fuel above the depth gives the same chain.\<close>

lemma ancestors_fuel:
  "chart_wf ch \<Longrightarrow> declared ch s \<Longrightarrow> depth_of ch s < k \<Longrightarrow> ancestors k ch s = ancestors (Suc k) ch s"
proof (induction k arbitrary: s)
  case (Suc k)
  then show ?case using wf_parent [OF Suc.prems(1), of s]
    by (cases "parent_of ch s") (auto simp: ancestors_step simp del: ancestors.simps)
qed simp

lemma ancestors_rec:
  assumes wf: "chart_wf ch" and d: "declared ch s"
  shows "ancestors_inclusive ch s = s # (case parent_of ch s of None \<Rightarrow> [] | Some p \<Rightarrow> ancestors_inclusive ch p)"
proof (cases "parent_of ch s")
  case (Some p)
  have "ancestors (length (ch_states ch)) ch p = ancestors_inclusive ch p"
    unfolding ancestors_inclusive_def using wf_parent [OF wf Some] wf_depth [OF wf]
    by (intro ancestors_fuel [OF wf]) auto
  then show ?thesis using Some d unfolding ancestors_inclusive_def
    by (subst ancestors_step) auto
qed (use d in \<open>simp add: ancestors_inclusive_def ancestors_step del: ancestors.simps\<close>)

lemma ancestors_closed:
  assumes "chart_wf ch" and "declared ch s" and "a \<in> set (ancestors_inclusive ch s)"
  shows "declared ch a \<and> set (ancestors_inclusive ch a) \<subseteq> set (ancestors_inclusive ch s) \<and>
    depth_of ch a \<le> depth_of ch s \<and> (depth_of ch a = depth_of ch s \<longrightarrow> a = s)"
  using assms(2,3)
proof (induction "depth_of ch s" arbitrary: s rule: less_induct)
  case less
  show ?case
  proof (cases "parent_of ch s")
    case None
    then show ?thesis using less.prems ancestors_rec [OF assms(1), of s] by auto
  next
    case (Some p)
    note par = wf_parent [OF assms(1) Some]
    show ?thesis
    proof (cases "a = s")
      case False
      then have "a \<in> set (ancestors_inclusive ch p)"
        using less.prems Some ancestors_rec [OF assms(1), of s] by auto
      from less.hyps [OF _ par(2) this] show ?thesis
        using par ancestors_rec [OF assms(1) less.prems(1)] Some by auto
    qed (use less.prems in auto)
  qed
qed

lemma ancestors_self: "chart_wf ch \<Longrightarrow> declared ch s \<Longrightarrow> s \<in> set (ancestors_inclusive ch s)"
  by (simp add: ancestors_rec)

lemma ancestors_parent:
  assumes "chart_wf ch" "declared ch s" "a \<in> set (ancestors_inclusive ch s)" "parent_of ch a = Some p"
  shows "p \<in> set (ancestors_inclusive ch s)"
proof -
  have "p \<in> set (ancestors_inclusive ch a)"
    using assms(1,4) wf_parent [OF assms(1,4)] ancestors_self by (simp add: ancestors_rec)
  then show ?thesis using ancestors_closed [OF assms(1-3)] by blast
qed

lemma descendant_up:
  assumes "chart_wf ch" "declared ch s" "a \<in> set (ancestors_inclusive ch s)"
    and "is_proper_descendant ch a b"
  shows "is_proper_descendant ch s b"
proof -
  have a: "declared ch a" and b: "b \<in> set (ancestors_inclusive ch a)" "a \<noteq> b"
    using assms ancestors_closed [OF assms(1-3)] by (auto simp: is_proper_descendant_def)
  have "depth_of ch b < depth_of ch a" using ancestors_closed [OF assms(1) a b(1)] b(2) by auto
  moreover have "depth_of ch a \<le> depth_of ch s" using ancestors_closed [OF assms(1-3)] by blast
  ultimately show ?thesis using ancestors_closed [OF assms(1-3)] b
    by (auto simp: is_proper_descendant_def)
qed

section \<open>Closed sets of states\<close>

text \<open>\<open>S\<close> is closed over \<open>B\<close>: each parent of a member is a member or in \<open>B\<close>.\<close>

definition closed_over :: "'s chart_def \<Rightarrow> 's set \<Rightarrow> 's set \<Rightarrow> bool" where
  "closed_over ch B S \<longleftrightarrow> (\<forall>s\<in>S. declared ch s \<and> (\<forall>p. parent_of ch s = Some p \<longrightarrow> p \<in> S \<union> B))"

lemma closed_over_union: "closed_over ch B S \<Longrightarrow> closed_over ch B T \<Longrightarrow> closed_over ch B (S \<union> T)"
  by (auto simp: closed_over_def)

lemma closed_over_mono: "closed_over ch A S \<Longrightarrow> A \<subseteq> B \<Longrightarrow> closed_over ch B S"
  by (auto simp: closed_over_def)

lemma closed_absorb:
  assumes "closed_over ch B S" and "closed_over ch (insert t B) T" and "t \<in> S \<union> B"
  shows "closed_over ch B (S \<union> T)"
  using assms unfolding closed_over_def by blast

text \<open>Entering a subtree needs only the parent of its root.\<close>

definition above :: "'s chart_def \<Rightarrow> 's \<Rightarrow> 's set" where
  "above ch s = (case parent_of ch s of None \<Rightarrow> {} | Some p \<Rightarrow> {p})"

lemma enter_subtree_closed:
  "chart_wf ch \<Longrightarrow> declared ch s \<Longrightarrow> closed_over ch (above ch s) (set (enter_subtree k ch s))"
proof (induction k arbitrary: s)
  case 0
  then show ?case by (simp add: closed_over_def above_def)
next
  case (Suc k)
  have root: "closed_over ch (above ch s) {s}" using Suc.prems by (auto simp: closed_over_def above_def)
  have sub: "closed_over ch {s} (set (enter_subtree k ch i))" if "declared ch i" "parent_of ch i = Some s" for i
    using Suc.IH [OF Suc.prems(1) that(1)] that(2) by (simp add: above_def)
  have kids: "closed_over ch {s} (set (concat (map (enter_subtree k ch) (chart_children ch s))))"
    using sub wf_child [OF Suc.prems(1), of _ s] unfolding closed_over_def by (simp, blast)
  have join: "closed_over ch (above ch s) (insert s T)" if "closed_over ch {s} T" for T
    using closed_absorb [OF root closed_over_mono [OF that], of s] by simp
  have empty: "closed_over ch {s} {}" by (simp add: closed_over_def)
  show ?case
  proof (cases "state_of ch s")
    case (Some d)
    show ?thesis
    proof (cases "sd_kind d")
      case Compound
      then show ?thesis using Some join sub wf_initial [OF Suc.prems(1) Some] empty
        by (cases "sd_initial d") auto
    next
      case Parallel
      then show ?thesis using Some join [OF kids] by simp
    qed (use Some join [OF empty] in auto)
  qed (use join [OF empty] in auto)
qed

lemma entered_self: "s \<in> set (entered ch s)"
  unfolding entered_def by (cases "length (ch_states ch)") auto

lemma path_below_closed:
  assumes wf: "chart_wf ch" and d: "declared ch t"
  shows "closed_over ch {lca} (set (path_below ch lca t)) \<and> (t \<in> set (path_below ch lca t) \<or> t = lca)"
  using d
proof (induction "depth_of ch t" arbitrary: t rule: less_induct)
  case less
  have eq: "set (path_below ch lca t) = (if t = lca then {} else
      insert t (case parent_of ch t of None \<Rightarrow> {} | Some p \<Rightarrow> set (path_below ch lca p)))"
    using ancestors_rec [OF wf less.prems] by (auto simp: path_below_def split: option.split)
  show ?case
  proof (cases "t = lca \<or> parent_of ch t = None")
    case True
    then show ?thesis using eq less.prems by (auto simp: closed_over_def)
  next
    case False
    then obtain p where p: "parent_of ch t = Some p" by auto
    from less.hyps [of p] wf_parent [OF wf p] show ?thesis
      using eq False p less.prems by (auto simp: closed_over_def)
  qed
qed

lemma path_subtree_closed:
  assumes wf: "chart_wf ch" and d: "declared ch t" and l: "declared ch lca"
  shows "closed_over ch (set (ancestors_inclusive ch lca)) (set (path_below ch lca t) \<union> set (entered ch t))"
proof -
  let ?B = "set (ancestors_inclusive ch lca)"
  have self: "lca \<in> ?B" using ancestors_self [OF wf l] .
  have path: "closed_over ch ?B (set (path_below ch lca t))" "t \<in> set (path_below ch lca t) \<or> t = lca"
    using path_below_closed [OF wf d, of lca] closed_over_mono [of ch "{lca}"] self by auto
  have sub: "closed_over ch (above ch t) (set (entered ch t))"
    unfolding entered_def by (rule enter_subtree_closed [OF wf d])
  have "above ch t \<subseteq> set (path_below ch lca t) \<union> ?B"
  proof (cases "t = lca")
    case True
    then show ?thesis using ancestors_parent [OF wf l self] by (auto simp: above_def split: option.split)
  next
    case False
    then show ?thesis using path by (auto simp: above_def closed_over_def split: option.split)
  qed
  then show ?thesis using path(1) sub unfolding closed_over_def by blast
qed

section \<open>The configuration invariant\<close>

definition config_ok :: "'s chart_def \<Rightarrow> 's set \<Rightarrow> bool" where
  "config_ok ch C \<longleftrightarrow> finite C \<and> closed_over ch {} C"

definition recording_ok :: "'s chart_def \<Rightarrow> 's \<Rightarrow> 's recording \<Rightarrow> bool" where
  "recording_ok ch region r \<longleftrightarrow>
     (case r of Child c \<Rightarrow> declared ch c \<and> parent_of ch c = Some region
      | DeepSet S \<Rightarrow> finite S \<and> closed_over ch {region} S)"

definition history_ok :: "'s chart_def \<Rightarrow> 's chart_history \<Rightarrow> bool" where
  "history_ok ch h \<longleftrightarrow> (\<forall>hist r. h hist = Some r \<longrightarrow>
     (\<exists>region. parent_of ch hist = Some region \<and> recording_ok ch region r))"

lemma config_ancestors:
  assumes wf: "chart_wf ch" and C: "closed_over ch {} C"
  shows "s \<in> C \<Longrightarrow> a \<in> set (ancestors_inclusive ch s) \<Longrightarrow> a \<in> C"
proof (induction "depth_of ch s" arbitrary: s rule: less_induct)
  case less
  have d: "declared ch s" using C less.prems by (auto simp: closed_over_def)
  show ?case
  proof (cases "parent_of ch s")
    case None
    then show ?thesis using less.prems ancestors_rec [OF wf d] by simp
  next
    case (Some p)
    then have "p \<in> C" using C less.prems by (auto simp: closed_over_def)
    then show ?thesis using less.hyps [of p] wf_parent [OF wf Some] less.prems Some ancestors_rec [OF wf d] by auto
  qed
qed

lemma record_exit_ok:
  assumes wf: "chart_wf ch" and C: "config_ok ch C" and h: "history_ok ch h"
  shows "history_ok ch (record_exit ch C s h)"
proof (cases "history_child_of ch s")
  case (Some hist)
  have hist: "parent_of ch hist = Some s"
    using Some wf_child [OF wf, of hist s] by (auto simp: history_child_of_def find_Some_iff)
  have child: "recording_ok ch s (Child kid)" if "kid \<in> set (chart_children ch s)" for kid
    using wf_child [OF wf that] by (simp add: recording_ok_def)
  have deep: "recording_ok ch s (DeepSet {x \<in> C. is_proper_descendant ch x s})"
  proof -
    have "p = s \<or> p \<in> C \<and> is_proper_descendant ch p s"
      if "x \<in> C" "is_proper_descendant ch x s" "parent_of ch x = Some p" for x p
    proof -
      have dx: "declared ch x" using that C by (auto simp: config_ok_def closed_over_def)
      have "p \<in> C" using that C by (auto simp: config_ok_def closed_over_def)
      moreover have "s \<in> set (ancestors_inclusive ch p)"
        using that ancestors_rec [OF wf dx] by (auto simp: is_proper_descendant_def)
      ultimately show ?thesis by (auto simp: is_proper_descendant_def)
    qed
    then show ?thesis using C by (auto simp: recording_ok_def config_ok_def closed_over_def)
  qed
  show ?thesis using Some h hist child deep
    by (auto simp: record_exit_def record_region_def history_ok_def find_Some_iff split: option.splits)
qed (use h in \<open>simp add: record_exit_def\<close>)

lemma record_exits_ok:
  "chart_wf ch \<Longrightarrow> config_ok ch C \<Longrightarrow> history_ok ch h \<Longrightarrow> history_ok ch (fold (record_exit ch C) ss h)"
  by (induction ss arbitrary: h) (auto simp: record_exit_ok)

text \<open>What a transition enters is closed over the ancestors of its domain.\<close>

definition trans_ok :: "'s chart_def \<Rightarrow> bool" where
  "trans_ok ch \<longleftrightarrow> (\<forall>s d ev t. state_of ch s = Some d \<longrightarrow> sd_transitions d ev = Some t \<longrightarrow> declared ch (tr_target t))"

lemma restore_closed:
  assumes wf: "chart_wf ch" and h: "history_ok ch h" and hist: "declared ch hist"
    and r: "region = (case parent_of ch hist of None \<Rightarrow> ch_root ch | Some p \<Rightarrow> p)" and d: "declared ch region"
  shows "closed_over ch (set (ancestors_inclusive ch region)) (restore_via_history ch h hist region)"
proof (cases "h hist")
  case None
  have "declared ch s" if "restore_start ch hist region = Some s" for s
    using that wf_default [OF wf] wf_initial [OF wf]
    by (auto simp: restore_start_def declared_def split: option.splits)
  then show ?thesis using None path_subtree_closed [OF wf _ d]
    by (auto simp: restore_via_history_def closed_over_def split: option.split)
next
  case (Some rec)
  then obtain q where "parent_of ch hist = Some q" "recording_ok ch q rec"
    using h unfolding history_ok_def by blast
  then have rec: "recording_ok ch region rec" using r by simp
  have self: "region \<in> set (ancestors_inclusive ch region)" by (rule ancestors_self [OF wf d])
  show ?thesis
  proof (cases rec)
    case (Child c)
    then have c: "declared ch c" "parent_of ch c = Some region" using rec by (auto simp: recording_ok_def)
    have "closed_over ch {region} (set (entered ch c))"
      using enter_subtree_closed [OF wf c(1)] c(2) by (simp add: entered_def above_def)
    then show ?thesis using Some Child self c
      by (auto simp: restore_via_history_def closed_over_def)
  next
    case (DeepSet S)
    then show ?thesis using rec Some self by (auto simp: restore_via_history_def recording_ok_def closed_over_def)
  qed
qed

lemma ancestors_path:
  assumes wf: "chart_wf ch" and d: "declared ch t"
  shows "set (ancestors_inclusive ch t) \<subseteq> set (path_below ch lca t) \<union> set (ancestors_inclusive ch lca)"
  using d
proof (induction "depth_of ch t" arbitrary: t rule: less_induct)
  case less
  have eq: "set (path_below ch lca t) = (if t = lca then {} else
      insert t (case parent_of ch t of None \<Rightarrow> {} | Some p \<Rightarrow> set (path_below ch lca p)))"
    using ancestors_rec [OF wf less.prems] by (auto simp: path_below_def split: option.split)
  show ?case
  proof (cases "parent_of ch t")
    case (Some p)
    then show ?thesis using less.hyps [of p] wf_parent [OF wf Some] ancestors_rec [OF wf less.prems] eq
      by (cases "t = lca") auto
  qed (use eq ancestors_rec [OF wf less.prems] in \<open>cases "t = lca"; auto\<close>)
qed

lemma root_ancestor: "chart_wf ch \<Longrightarrow> declared ch s \<Longrightarrow> ch_root ch \<in> set (ancestors_inclusive ch s)"
proof (induction "depth_of ch s" arbitrary: s rule: less_induct)
  case less
  then show ?case using wf_parent [OF less.prems(1), of s] wf_root [OF less.prems]
    by (cases "parent_of ch s") (auto simp: ancestors_rec)
qed

lemma enter_set_closed:
  assumes wf: "chart_wf ch" and h: "history_ok ch h" and d: "declared ch (tr_target (ca_transition c))"
    and l: "declared ch (candidate_lca ch c)"
  shows "closed_over ch (set (ancestors_inclusive ch (candidate_lca ch c))) (enter_set ch h c)"
proof (cases "kind_in ch (tr_target (ca_transition c)) = Some HistoryState")
  case False
  then show ?thesis using path_subtree_closed [OF wf d l] by (simp add: enter_set_def Let_def)
next
  case True
  let ?t = "tr_target (ca_transition c)" and ?l = "candidate_lca ch c"
  define R where "R = (case parent_of ch ?t of None \<Rightarrow> ch_root ch | Some p \<Rightarrow> p)"
  have dR: "declared ch R" using wf wf_parent [OF wf, of ?t]
    by (auto simp: R_def chart_wf_def split: option.split)
  have eq: "enter_set ch h c = set (path_below ch ?l R) \<union> restore_via_history ch h ?t R"
    using True by (auto simp: enter_set_def Let_def R_def parent_of_def split: option.split)
  have path: "closed_over ch {?l} (set (path_below ch ?l R))" using path_below_closed [OF wf dR] by blast
  have rest: "closed_over ch (set (ancestors_inclusive ch R)) (restore_via_history ch h ?t R)"
    by (rule restore_closed [OF wf h d R_def dR])
  show ?thesis unfolding eq closed_over_def
    using path rest ancestors_path [OF wf dR, of ?l] ancestors_self [OF wf l]
    unfolding closed_over_def by blast
qed

lemma enter_set_finite: "history_ok ch h \<Longrightarrow> finite (enter_set ch h c)"
proof -
  assume h: "history_ok ch h"
  have "finite S" if rec: "h hist = Some (DeepSet S)" for hist S
  proof -
    obtain q where "recording_ok ch q (DeepSet S)" using h rec unfolding history_ok_def by blast
    then show ?thesis by (simp add: recording_ok_def)
  qed
  then show ?thesis
    by (auto simp: enter_set_def restore_via_history_def Let_def split: option.split recording.split)
qed

definition candidate_ok :: "'s chart_def \<Rightarrow> 's set \<Rightarrow> 's candidate \<Rightarrow> bool" where
  "candidate_ok ch C c \<longleftrightarrow> ca_leaf c \<in> C \<and> declared ch (tr_target (ca_transition c)) \<and>
     candidate_lca ch c \<in> set (ancestors_inclusive ch (ca_leaf c))"

lemma candidate_of_ok:
  assumes wf: "chart_wf ch" and tr: "trans_ok ch" and C: "config_ok ch C" and leaf: "leaf \<in> C"
    and c: "candidate_of ch ev guards leaf = Some c"
  shows "candidate_ok ch C c"
proof -
  obtain anc d t where a: "anc \<in> set (ancestors_inclusive ch leaf)" "state_of ch anc = Some d"
    "sd_transitions d ev = Some t" "c = \<lparr>ca_source = anc, ca_transition = t, ca_leaf = leaf\<rparr>"
    using c by (auto simp: candidate_of_def split: option.splits dest!: find_mem)
  have dl: "declared ch leaf" using C leaf by (auto simp: config_ok_def closed_over_def)
  have "chart_lca ch leaf (tr_target t) \<in> set (ancestors_inclusive ch leaf)"
    using root_ancestor [OF wf dl] by (auto simp: chart_lca_def find_Some_iff split: option.split)
  then show ?thesis using a leaf tr
    by (auto simp: candidate_ok_def candidate_lca_def Let_def trans_ok_def)
qed

lemma candidates_ok:
  assumes "chart_wf ch" and "trans_ok ch" and C: "config_ok ch C"
  shows "c \<in> set (candidates_by_depth ch (candidates ch ev guards C)) \<Longrightarrow> candidate_ok ch C c"
proof -
  have "finite {s \<in> C. is_leaf ch s}" using C by (simp add: config_ok_def)
  then show "c \<in> set (candidates_by_depth ch (candidates ch ev guards C)) \<Longrightarrow> candidate_ok ch C c"
    using candidate_of_ok [OF assms] by (auto simp: candidates_by_depth_def candidates_def map_filter_def)
qed

lemma take_candidates_disjoint:
  "set (take_candidates ch C X cs) \<subseteq> set cs \<and>
   (\<forall>c\<in>set (take_candidates ch C X cs). exit_set ch C c \<inter> X = {}) \<and>
   (\<forall>a\<in>set (take_candidates ch C X cs). \<forall>b\<in>set (take_candidates ch C X cs).
      a \<noteq> b \<longrightarrow> exit_set ch C a \<inter> exit_set ch C b = {})"
proof (induction cs arbitrary: X)
  case (Cons c cs)
  show ?case
  proof (cases "exit_set ch C c \<inter> X = {}")
    case True
    with Cons.IH [of "X \<union> exit_set ch C c"] show ?thesis by (auto simp: Let_def)
  next
    case False
    with Cons.IH [of X] show ?thesis by (auto simp: Let_def)
  qed
qed simp

text \<open>The transitions of one \<open>send\<close>: each exits its own leaf, or there is only one.\<close>

definition exits_own_leaves :: "'s chart_def \<Rightarrow> 's set \<Rightarrow> 's candidate list \<Rightarrow> bool" where
  "exits_own_leaves ch C taken \<longleftrightarrow>
     length taken \<le> 1 \<or> list_all (\<lambda>c. ca_leaf c \<in> exit_set ch C c) taken"

lemma next_config_ok:
  assumes wf: "chart_wf ch" and C: "config_ok ch C" and h: "history_ok ch h"
    and cands: "\<forall>c\<in>set taken. candidate_ok ch C c"
    and disj: "\<forall>a\<in>set taken. \<forall>b\<in>set taken. a \<noteq> b \<longrightarrow> exit_set ch C a \<inter> exit_set ch C b = {}"
    and own: "exits_own_leaves ch C taken"
  shows "config_ok ch ((C - \<Union> (set (map (exit_set ch C) taken))) \<union> \<Union> (set (map (enter_set ch h) taken)))"
proof -
  let ?X = "\<Union> (set (map (exit_set ch C) taken))" and ?E = "\<Union> (set (map (enter_set ch h) taken))"
  have closed: "closed_over ch {} C" using C by (simp add: config_ok_def)
  have decl: "declared ch s" if "s \<in> C" for s using closed that by (auto simp: closed_over_def)
  have base: "a \<in> C - ?X" if c: "c \<in> set taken" and a: "a \<in> set (ancestors_inclusive ch (candidate_lca ch c))" for c a
  proof -
    let ?l = "candidate_lca ch c"
    have ok: "ca_leaf c \<in> C" "?l \<in> set (ancestors_inclusive ch (ca_leaf c))"
      using cands c by (auto simp: candidate_ok_def)
    have dleaf: "declared ch (ca_leaf c)" using decl ok(1) .
    have la: "declared ch ?l \<and> set (ancestors_inclusive ch ?l) \<subseteq> set (ancestors_inclusive ch (ca_leaf c))"
      using ancestors_closed [OF wf dleaf ok(2)] by blast
    then have up: "a \<in> set (ancestors_inclusive ch (ca_leaf c))" using a by blast
    have inC: "a \<in> C" using config_ancestors [OF wf closed ok(1) up] .
    have "a \<notin> exit_set ch C b" if b: "b \<in> set taken" for b
    proof
      assume "a \<in> exit_set ch C b"
      then have below: "is_proper_descendant ch a (candidate_lca ch b)" by (simp add: exit_set_def)
      show False
      proof (cases "b = c")
        case True
        then have "?l \<in> set (ancestors_inclusive ch a)" "a \<noteq> ?l" using below by (auto simp: is_proper_descendant_def)
        then show False using ancestors_closed [OF wf decl [OF inC], of ?l] ancestors_closed [OF wf _ a] la
          by (metis le_antisym)
      next
        case False
        have "ca_leaf c \<in> exit_set ch C b"
          using descendant_up [OF wf dleaf up below] ok(1) by (simp add: exit_set_def)
        moreover have "ca_leaf c \<in> exit_set ch C c"
        proof -
          have "\<not> length taken \<le> 1"
          proof
            assume "length taken \<le> 1"
            then show False using False b c by (cases taken; cases "tl taken") auto
          qed
          then show ?thesis using own c by (auto simp: exits_own_leaves_def list_all_iff)
        qed
        ultimately show False using disj b c False by blast
      qed
    qed
    then show ?thesis using inC by auto
  qed
  have "closed_over ch {} ((C - ?X) \<union> ?E)" unfolding closed_over_def
  proof (intro ballI conjI allI impI)
    fix s assume s: "s \<in> (C - ?X) \<union> ?E"
    have ent: "closed_over ch (set (ancestors_inclusive ch (candidate_lca ch c))) (enter_set ch h c)"
      if "c \<in> set taken" for c
    proof -
      have ok: "candidate_ok ch C c" using cands that by blast
      then have "declared ch (candidate_lca ch c)"
        using ancestors_closed [OF wf decl] by (auto simp: candidate_ok_def)
      then show ?thesis using enter_set_closed [OF wf h] ok by (simp add: candidate_ok_def)
    qed
    show "declared ch s" using s ent decl by (fastforce simp: closed_over_def)
    fix p assume p: "parent_of ch s = Some p"
    show "p \<in> (C - ?X) \<union> ?E \<union> {}"
    proof (cases "s \<in> ?E")
      case True
      then obtain c where c: "c \<in> set taken" "s \<in> enter_set ch h c" by auto
      then show ?thesis using ent [OF c(1)] base [OF c(1)] p by (fastforce simp: closed_over_def)
    next
      case False
      then have sC: "s \<in> C" "s \<notin> ?X" using s by auto
      have "p \<in> C" using closed sC p by (auto simp: closed_over_def)
      moreover have "p \<notin> ?X"
      proof
        assume "p \<in> ?X"
        then obtain c where c: "c \<in> set taken" "is_proper_descendant ch p (candidate_lca ch c)"
          by (auto simp: exit_set_def)
        have "p \<in> set (ancestors_inclusive ch s)"
          using ancestors_parent [OF wf decl [OF sC(1)] ancestors_self [OF wf decl [OF sC(1)]] p] .
        then have "s \<in> exit_set ch C c"
          using descendant_up [OF wf decl [OF sC(1)] _ c(2)] sC(1) by (simp add: exit_set_def)
        then show False using sC(2) c(1) by auto
      qed
      ultimately show ?thesis by blast
    qed
  qed
  then show ?thesis using C enter_set_finite [OF h] by (auto simp: config_ok_def)
qed

section \<open>The invariant of a reactive chart\<close>

definition state_chart_ok :: "'s state_chart \<Rightarrow> bool" where
  "state_chart_ok sc \<longleftrightarrow> chart_wf (st_def sc) \<and> trans_ok (st_def sc) \<and> live (st_config sc) \<and>
     config_ok (st_def sc) (c_value (st_config sc)) \<and> history_ok (st_def sc) (st_history sc)"

definition taken_by :: "'s::linorder state_chart \<Rightarrow> string \<Rightarrow> (string \<rightharpoonup> bool) \<Rightarrow> 's candidate list" where
  "taken_by sc ev guards = take_candidates (st_def sc) (c_value (st_config sc)) {}
     (candidates_by_depth (st_def sc) (candidates (st_def sc) ev guards (c_value (st_config sc))))"

lemma chart_start_ok:
  assumes "chart_wf ch" and "trans_ok ch"
  shows "state_chart_ok (chart_start ch)"
proof -
  have "declared ch (ch_root ch)" "parent_of ch (ch_root ch) = None" using assms(1) by (auto simp: chart_wf_def)
  then have "closed_over ch {} (set (entered ch (ch_root ch)))"
    using enter_subtree_closed [OF assms(1), of "ch_root ch"] by (simp add: entered_def above_def)
  then show ?thesis using assms
    by (simp add: state_chart_ok_def chart_start_def Let_def config_ok_def history_ok_def)
qed

lemma send_taken:
  assumes "live (st_config sc)"
  shows "st_def (fst (chart_send sc ev guards)) = st_def sc \<and> live (st_config (fst (chart_send sc ev guards))) \<and>
    (taken_by sc ev guards = [] \<longrightarrow> st_history (fst (chart_send sc ev guards)) = st_history sc \<and>
       st_config (fst (chart_send sc ev guards)) = st_config sc \<and> \<not> snd (chart_send sc ev guards)) \<and>
    (taken_by sc ev guards \<noteq> [] \<longrightarrow> snd (chart_send sc ev guards) \<and>
       c_value (st_config (fst (chart_send sc ev guards))) =
         (c_value (st_config sc) - \<Union> (set (map (exit_set (st_def sc) (c_value (st_config sc))) (taken_by sc ev guards)))) \<union>
         \<Union> (set (map (enter_set (st_def sc) (st_history sc)) (taken_by sc ev guards))) \<and>
       (\<exists>ss. st_history (fst (chart_send sc ev guards)) = fold (record_exit (st_def sc) (c_value (st_config sc))) ss (st_history sc)))"
  using assms by (auto simp: chart_send_def Let_def taken_by_def)

lemma send_ok:
  assumes ok: "state_chart_ok sc"
    and own: "exits_own_leaves (st_def sc) (c_value (st_config sc)) (taken_by sc ev guards)"
  shows "state_chart_ok (fst (chart_send sc ev guards))"
proof -
  let ?ch = "st_def sc" and ?C = "c_value (st_config sc)" and ?T = "taken_by sc ev guards"
  have wf: "chart_wf ?ch" and tr: "trans_ok ?ch" and C: "config_ok ?ch ?C" and h: "history_ok ?ch (st_history sc)"
    and l: "live (st_config sc)" using ok by (auto simp: state_chart_ok_def)
  note send = send_taken [OF l, of ev guards]
  show ?thesis
  proof (cases "?T = []")
    case True
    then show ?thesis using send ok by (simp add: state_chart_ok_def)
  next
    case False
    have "\<forall>c\<in>set ?T. candidate_ok ?ch ?C c"
      using take_candidates_disjoint [of ?ch ?C "{}"] candidates_ok [OF wf tr C]
      unfolding taken_by_def by blast
    moreover have "\<forall>a\<in>set ?T. \<forall>b\<in>set ?T. a \<noteq> b \<longrightarrow> exit_set ?ch ?C a \<inter> exit_set ?ch ?C b = {}"
      using take_candidates_disjoint [of ?ch ?C "{}"] unfolding taken_by_def by blast
    ultimately have "config_ok ?ch (c_value (st_config (fst (chart_send sc ev guards))))"
      using next_config_ok [OF wf C h _ _ own] send False by simp
    moreover have "history_ok ?ch (st_history (fst (chart_send sc ev guards)))"
      using send False record_exits_ok [OF wf C h] by metis
    ultimately show ?thesis using send wf tr by (simp add: state_chart_ok_def)
  qed
qed

end
