(* ===== verification/ChartTheorems.thy ===== *)
theory ChartTheorems
  imports StateChart
begin

text \<open>
  The properties of the state charts: the configurations a chart can reach are legal, and the
  transitions a send takes are a maximal set without conflicts.
\<close>

section \<open>Reachable charts\<close>









section \<open>Choosing transitions\<close>




end
