(* ===== verification/TextCrdt.thy ===== *)
theory TextCrdt
  imports Prelude JoinCrdt
begin

text \<open>
  The character CRDT of \<^verbatim>\<open>src/lazily/textcrdt.py\<close>: elements with an id, a left origin and a sticky
  tombstone, the order as a pre-order walk of the origin tree, local edits, the merge and the
  delta sync. The dictionary of elements is an association list in insertion order. The code
  caches the ordered list of element objects, which later deletions mutate in place; the model
  caches their ids and looks the elements up. A character is a value of an arbitrary type. The
  origin \<open>None\<close> is the code's \<^verbatim>\<open>ROOT\<close>.
\<close>

section \<open>Ids and elements\<close>

datatype op_id = OpId (op_counter: int) (op_peer: int)

text \<open>The code compares ids by the pair of counter and peer.\<close>

definition op_id_lt :: "op_id \<Rightarrow> op_id \<Rightarrow> bool" where
  "op_id_lt a b \<longleftrightarrow> op_counter a < op_counter b \<or> (op_counter a = op_counter b \<and> op_peer a < op_peer b)"

definition op_id_le :: "op_id \<Rightarrow> op_id \<Rightarrow> bool" where
  "op_id_le a b \<longleftrightarrow> op_counter a < op_counter b \<or> (op_counter a = op_counter b \<and> op_peer a \<le> op_peer b)"

instantiation op_id :: linorder
begin

definition less_op_id :: "op_id \<Rightarrow> op_id \<Rightarrow> bool" where
  [unfolded op_id_lt_def]: "less_op_id a b \<longleftrightarrow> op_id_lt a b"

definition less_eq_op_id :: "op_id \<Rightarrow> op_id \<Rightarrow> bool" where
  [unfolded op_id_le_def]: "less_eq_op_id a b \<longleftrightarrow> op_id_le a b"

instance
  by standard (auto simp: less_op_id_def less_eq_op_id_def intro: op_id.expand)

end

record 'c text_element =
  te_id :: op_id
  te_ch :: 'c
  te_origin :: "op_id option"
  te_deleted :: bool
  te_delete_id :: "op_id option"

text \<open>The transport form of an element carries the same five fields.\<close>

type_synonym 'c text_op = "'c text_element"

record 'c text_crdt =
  tx_peer :: int
  tx_counter :: int
  tx_by_id :: "(op_id \<times> 'c text_element) list"
  tx_cache :: "op_id list option"

datatype text_error = NotOneCharacter

definition text_new :: "int \<Rightarrow> 'c text_crdt" where
  "text_new peer = \<lparr>tx_peer = peer, tx_counter = 0, tx_by_id = [], tx_cache = None\<rparr>"

definition fresh_element :: "op_id \<Rightarrow> 'c \<Rightarrow> op_id option \<Rightarrow> 'c text_element" where
  "fresh_element i ch origin =
     \<lparr>te_id = i, te_ch = ch, te_origin = origin, te_deleted = False, te_delete_id = None\<rparr>"

definition next_id :: "'c text_crdt \<Rightarrow> 'c text_crdt \<times> op_id" where
  "next_id t = (t\<lparr>tx_counter := tx_counter t + 1\<rparr>, OpId (tx_counter t + 1) (tx_peer t))"

definition put_element :: "'c text_crdt \<Rightarrow> 'c text_element \<Rightarrow> 'c text_crdt" where
  "put_element t e = t\<lparr>tx_by_id := AList.update (te_id e) e (tx_by_id t)\<rparr>"

definition invalidate_ordered :: "'c text_crdt \<Rightarrow> 'c text_crdt" where
  "invalidate_ordered t = t\<lparr>tx_cache := None\<rparr>"

text \<open>The characters of a string, each chained to the one before it.\<close>

fun insert_chain :: "'c text_crdt \<Rightarrow> op_id option \<Rightarrow> 'c list \<Rightarrow> 'c text_crdt \<times> op_id list" where
  "insert_chain t origin [] = (t, [])"
| "insert_chain t origin (ch # chs) =
     (let (t1, i) = next_id t; (t2, is) = insert_chain (put_element t1 (fresh_element i ch origin)) (Some i) chs
      in (t2, i # is))"

definition text_seed :: "int \<Rightarrow> 'c list \<Rightarrow> 'c text_crdt" where
  "text_seed peer s = invalidate_ordered (fst (insert_chain (text_new peer) None s))"

definition text_clone :: "'c text_crdt \<Rightarrow> 'c text_crdt" where
  "text_clone t = t\<lparr>tx_cache := None\<rparr>"

definition text_fork :: "'c text_crdt \<Rightarrow> int \<Rightarrow> 'c text_crdt" where
  "text_fork t peer = (text_clone t)\<lparr>tx_peer := peer\<rparr>"

section \<open>Order\<close>

text \<open>Siblings come in descending order of their ids.\<close>

definition siblings :: "(op_id \<times> 'c text_element) list \<Rightarrow> op_id option \<Rightarrow> op_id list" where
  "siblings d origin =
     rev (sort (rev (map te_id (filter (\<lambda>e. te_origin e = origin) (map snd d)))))"

text \<open>
  The recursive \<^verbatim>\<open>visit\<close>, with the number of elements as fuel: the path from the root to an
  element repeats no element (chapter Properties).
\<close>

primrec visit :: "nat \<Rightarrow> (op_id \<times> 'c text_element) list \<Rightarrow> op_id option \<Rightarrow> op_id list" where
  "visit 0 d origin = []"
| "visit (Suc k) d origin = concat (map (\<lambda>i. i # visit k d (Some i)) (siblings d origin))"

definition ordered_ids :: "(op_id \<times> 'c text_element) list \<Rightarrow> op_id list" where
  "ordered_ids d = visit (length d) d None"

definition visible_ordered :: "'c text_crdt \<Rightarrow> 'c text_crdt \<times> 'c text_element list" where
  "visible_ordered t =
     (case tx_cache t of
        Some ids \<Rightarrow> (t, List.map_filter (map_of (tx_by_id t)) ids)
      | None \<Rightarrow>
          let ids = ordered_ids (tx_by_id t)
          in (t\<lparr>tx_cache := Some ids\<rparr>, List.map_filter (map_of (tx_by_id t)) ids))"

definition visible :: "'c text_crdt \<Rightarrow> 'c text_crdt \<times> 'c text_element list" where
  "visible t = (let (t', es) = visible_ordered t in (t', filter (\<lambda>e. \<not> te_deleted e) es))"

definition text_of :: "'c text_crdt \<Rightarrow> 'c text_crdt \<times> 'c list" where
  "text_of t = (let (t', es) = visible t in (t', map te_ch es))"

definition text_len :: "'c text_crdt \<Rightarrow> 'c text_crdt \<times> nat" where
  "text_len t = (let (t', es) = visible t in (t', length es))"

definition tombstone_count :: "'c text_crdt \<Rightarrow> nat" where
  "tombstone_count t = length (filter te_deleted (map snd (tx_by_id t)))"

section \<open>Local edits\<close>

definition index_to_origin :: "'c text_crdt \<Rightarrow> int \<Rightarrow> 'c text_crdt \<times> op_id option \<times> int" where
  "index_to_origin t index =
     (let (t', es) = visible t
      in (t', if index \<le> 0 then (None, 0)
              else if index \<ge> int (length es)
              then (if es = [] then None else Some (te_id (last es)), int (length es))
              else (Some (te_id (es ! nat (index - 1))), index)))"

definition text_insert :: "'c text_crdt \<Rightarrow> int \<Rightarrow> 'c list \<Rightarrow> text_error + ('c text_crdt \<times> op_id)" where
  "text_insert t index s =
     (case s of
        [ch] \<Rightarrow>
          (let (t1, origin, _) = index_to_origin t index; (t2, i) = next_id t1
           in Inr (invalidate_ordered (put_element t2 (fresh_element i ch origin)), i))
      | _ \<Rightarrow> Inl NotOneCharacter)"

definition text_insert_str :: "'c text_crdt \<Rightarrow> int \<Rightarrow> 'c list \<Rightarrow> 'c text_crdt \<times> op_id list" where
  "text_insert_str t index s =
     (let (t1, origin, _) = index_to_origin t index; (t2, is) = insert_chain t1 origin s
      in (invalidate_ordered t2, is))"

definition text_delete :: "'c text_crdt \<Rightarrow> int \<Rightarrow> 'c text_crdt \<times> op_id option" where
  "text_delete t index =
     (let (t1, es) = visible t
      in if index < 0 \<or> index \<ge> int (length es) then (t1, None)
         else let target = es ! nat index; (t2, did) = next_id t1
              in (put_element t2 (target\<lparr>te_deleted := True, te_delete_id := Some did\<rparr>), Some did))"

section \<open>Merging\<close>

definition lt_opt :: "op_id option \<Rightarrow> op_id option \<Rightarrow> bool" where
  "lt_opt a b \<longleftrightarrow> (case (a, b) of (Some x, Some y) \<Rightarrow> x < y | _ \<Rightarrow> False)"

text \<open>One element of the other side: added, or its tombstone merged; with the change flag.\<close>

definition merge_element :: "'c text_crdt \<Rightarrow> 'c text_element \<Rightarrow> 'c text_crdt \<times> bool" where
  "merge_element t other =
     (case map_of (tx_by_id t) (te_id other) of
        None \<Rightarrow> (put_element t other, True)
      | Some mine \<Rightarrow>
          if te_deleted other \<and> \<not> te_deleted mine
          then (put_element t (mine\<lparr>te_deleted := True,
                  te_delete_id := (if te_delete_id mine = None \<or> lt_opt (te_delete_id other) (te_delete_id mine)
                                   then te_delete_id other else te_delete_id mine)\<rparr>), True)
          else if te_deleted other \<and> te_deleted mine \<and> lt_opt (te_delete_id other) (te_delete_id mine)
          then (put_element t (mine\<lparr>te_delete_id := te_delete_id other\<rparr>), True)
          else (t, False))"

definition merge_elements :: "'c text_crdt \<Rightarrow> 'c text_element list \<Rightarrow> 'c text_crdt \<times> bool" where
  "merge_elements t es =
     foldl (\<lambda>(t, changed) e. let (t', c) = merge_element t e in (t', changed \<or> c)) (t, False) es"

definition advance_counter :: "'c text_crdt \<Rightarrow> 'c text_crdt" where
  "advance_counter t =
     t\<lparr>tx_counter := foldl (\<lambda>c i. if op_counter i > c then op_counter i else c) (tx_counter t) (map fst (tx_by_id t))\<rparr>"

definition apply_delta :: "'c text_crdt \<Rightarrow> 'c text_op list \<Rightarrow> 'c text_crdt \<times> bool" where
  "apply_delta t ops =
     (let (t1, changed) = merge_elements t ops; t2 = advance_counter t1
      in (if changed then invalidate_ordered t2 else t2, changed))"

definition text_merge :: "'c text_crdt \<Rightarrow> 'c text_crdt \<Rightarrow> 'c text_crdt \<times> bool" where
  "text_merge t other =
     (let (t1, changed) = merge_elements t (map snd (tx_by_id other)); t2 = advance_counter t1
      in (if changed then invalidate_ordered t2 else t2, changed))"

section \<open>Delta sync\<close>

definition bump_vv :: "(int \<Rightarrow> int option) \<Rightarrow> op_id \<Rightarrow> (int \<Rightarrow> int option)" where
  "bump_vv vv i =
     (if op_counter i > (case vv (op_peer i) of None \<Rightarrow> 0 | Some c \<Rightarrow> c) then vv(op_peer i \<mapsto> op_counter i) else vv)"

definition version_vector :: "'c text_crdt \<Rightarrow> (int \<Rightarrow> int option)" where
  "version_vector t =
     foldl (\<lambda>vv e. let vv1 = bump_vv vv (te_id e)
                   in case te_delete_id e of None \<Rightarrow> vv1 | Some d \<Rightarrow> bump_vv vv1 d)
       Map.empty (map snd (tx_by_id t))"

definition unknown_to :: "(int \<Rightarrow> int option) \<Rightarrow> op_id \<Rightarrow> bool" where
  "unknown_to vv i \<longleftrightarrow> op_counter i > (case vv (op_peer i) of None \<Rightarrow> 0 | Some c \<Rightarrow> c)"

definition delta_since :: "'c text_crdt \<Rightarrow> (int \<Rightarrow> int option) \<Rightarrow> 'c text_op list" where
  "delta_since t vv =
     filter (\<lambda>e. unknown_to vv (te_id e) \<or>
               (te_deleted e \<and> (case te_delete_id e of None \<Rightarrow> False | Some d \<Rightarrow> unknown_to vv d)))
       (map snd (tx_by_id t))"

section \<open>Collection of tombstones\<close>

definition text_gc :: "'c text_crdt \<Rightarrow> bool \<Rightarrow> 'c text_crdt \<times> nat" where
  "text_gc t is_stable =
     (if \<not> is_stable then (t, 0)
      else let referenced = List.map_filter te_origin (map snd (tx_by_id t));
               survivors = filter (\<lambda>(k, e). \<not> (te_deleted e \<and> k \<notin> set referenced)) (tx_by_id t);
               collected = length (tx_by_id t) - length survivors;
               t1 = t\<lparr>tx_by_id := survivors\<rparr>
           in (if collected \<noteq> 0 then invalidate_ordered t1 else t1, collected))"

chapter \<open>Properties\<close>

text \<open>
  The order of the text CRDT: the walk of the origin tree lists every element exactly once,
  after its origin, and depends only on the set of elements.
\<close>

section \<open>Dictionaries of elements\<close>

definition keyed :: "(op_id \<times> 'c text_element) list \<Rightarrow> bool" where
  "keyed d \<longleftrightarrow> distinct (map fst d) \<and> (\<forall>(k, e)\<in>set d. te_id e = k)"

definition rooted :: "(op_id \<times> 'c text_element) list \<Rightarrow> bool" where
  "rooted d \<longleftrightarrow> (\<forall>(k, e)\<in>set d. \<forall>p. te_origin e = Some p \<longrightarrow> p \<in> fst ` set d \<and> p < k)"

lemma keyed_ids: "keyed d \<Longrightarrow> map te_id (map snd d) = map fst d"
  by (auto simp: keyed_def)

lemma keyed_unique: "keyed d \<Longrightarrow> (k, e) \<in> set d \<Longrightarrow> (k, e') \<in> set d \<Longrightarrow> e = e'"
  unfolding keyed_def by (blast dest: eq_key_imp_eq_value)

lemma siblings_set: "set (siblings d p) = te_id ` {e. e \<in> snd ` set d \<and> te_origin e = p}"
  by (auto simp: siblings_def)

lemma siblings_mem: "keyed d \<Longrightarrow> i \<in> set (siblings d p) \<longleftrightarrow> (\<exists>e. (i, e) \<in> set d \<and> te_origin e = p)"
  by (force simp: siblings_set keyed_def)

lemma siblings_distinct: "keyed d \<Longrightarrow> distinct (siblings d p)"
proof -
  assume k: "keyed d"
  then have "distinct (map te_id (map snd d))" by (simp only: keyed_ids) (simp add: keyed_def)
  then show ?thesis by (simp add: siblings_def distinct_map_filter)
qed

section \<open>Ancestry\<close>

inductive under :: "(op_id \<times> 'c text_element) list \<Rightarrow> op_id option \<Rightarrow> op_id \<Rightarrow> bool" for d p where
  child: "(k, e) \<in> set d \<Longrightarrow> te_origin e = p \<Longrightarrow> under d p k"
| below: "under d p c \<Longrightarrow> (k, e) \<in> set d \<Longrightarrow> te_origin e = Some c \<Longrightarrow> under d p k"

lemma under_last:
  "keyed d \<Longrightarrow> under d p k \<Longrightarrow> (k, e) \<in> set d \<Longrightarrow> te_origin e = p \<or> (\<exists>c. te_origin e = Some c \<and> under d p c)"
  by (erule under.cases) (auto dest: keyed_unique)

lemma under_mem: "under d p k \<Longrightarrow> \<exists>e. (k, e) \<in> set d"
  by (erule under.cases) auto

lemma under_first:
  "under d p k \<longleftrightarrow> (\<exists>c e. (c, e) \<in> set d \<and> te_origin e = p \<and> (k = c \<or> under d (Some c) k))"
proof
  show "under d p k \<Longrightarrow> \<exists>c e. (c, e) \<in> set d \<and> te_origin e = p \<and> (k = c \<or> under d (Some c) k)"
    by (induction rule: under.induct) (blast intro: under.intros)+
  have "under d (Some c) k \<Longrightarrow> under d p c \<Longrightarrow> under d p k" for c
    by (induction rule: under.induct) (blast intro: under.intros)+
  then show "\<exists>c e. (c, e) \<in> set d \<and> te_origin e = p \<and> (k = c \<or> under d (Some c) k) \<Longrightarrow> under d p k"
    by (blast intro: under.intros)
qed

lemma under_less:
  assumes "rooted d" and "under d (Some a) k"
  shows "a < k"
  using assms(2)
proof (induction rule: under.induct)
  case (below c k e)
  then have "c < k" using assms(1) by (auto simp: rooted_def)
  then show ?case using below by simp
qed (use assms(1) in \<open>auto simp: rooted_def\<close>)

lemma under_comparable:
  assumes "keyed d" and "under d (Some a) k" and "under d (Some b) k"
  shows "a = b \<or> under d (Some a) b \<or> under d (Some b) a"
  using assms(2,3)
proof (induction rule: under.induct)
  case (child k e)
  then show ?case using under_last [OF assms(1), of "Some b" k e] by auto
next
  case (below c k e)
  then show ?case using under_last [OF assms(1), of "Some b" k e] by auto
qed

text \<open>Two siblings have no common descendant.\<close>

lemma siblings_apart:
  assumes "keyed d" and "rooted d" and "(a, e) \<in> set d" and "(b, f) \<in> set d"
    and "te_origin e = p" and "te_origin f = p" and "a \<noteq> b"
  shows "\<not> (k = a \<or> under d (Some a) k) \<or> \<not> (k = b \<or> under d (Some b) k)"
proof -
  have no: "\<not> under d (Some x) y" if "(x, g) \<in> set d" "(y, h) \<in> set d" "te_origin g = p" "te_origin h = p" for x y g h
  proof
    assume u: "under d (Some x) y"
    from under_last [OF assms(1) u that(2)] that(4)
    consider "p = Some x" | c where "p = Some c" "under d (Some x) c" by auto
    then show False
    proof cases
      case 1
      then show False using that assms(2) by (auto simp: rooted_def)
    next
      case 2
      then have "c < x" using that assms(2) by (auto simp: rooted_def)
      then show False using under_less [OF assms(2) 2(2)] by simp
    qed
  qed
  show ?thesis using no assms under_comparable [OF assms(1), of a k b] by blast
qed

section \<open>The walk\<close>

definition later :: "(op_id \<times> 'c text_element) list \<Rightarrow> op_id option \<Rightarrow> op_id set" where
  "later d p = (case p of None \<Rightarrow> fst ` set d | Some i \<Rightarrow> {j \<in> fst ` set d. i < j})"

lemma later_child:
  assumes "rooted d" and "(c, e) \<in> set d" and "te_origin e = p"
  shows "card (later d (Some c)) < card (later d p)"
proof (rule psubset_card_mono)
  show "finite (later d p)" by (auto simp: later_def split: option.split)
  have "\<And>i. p = Some i \<Longrightarrow> i < c" using assms by (auto simp: rooted_def)
  then have "c \<in> later d p" using assms(2) by (force simp: later_def split: option.split)
  moreover have "later d (Some c) \<subseteq> later d p"
    using \<open>\<And>i. p = Some i \<Longrightarrow> i < c\<close> by (auto simp: later_def split: option.split)
  ultimately show "later d (Some c) \<subset> later d p" by (auto simp: later_def)
qed

lemma distinct_concat_mapI:
  "distinct xs \<Longrightarrow> (\<And>x. x \<in> set xs \<Longrightarrow> distinct (f x)) \<Longrightarrow>
   (\<And>x y. x \<in> set xs \<Longrightarrow> y \<in> set xs \<Longrightarrow> x \<noteq> y \<Longrightarrow> set (f x) \<inter> set (f y) = {}) \<Longrightarrow> distinct (concat (map f xs))"
  by (induction xs) (auto simp: disjoint_iff)

lemma visit_spec:
  assumes "keyed d" and "rooted d"
  shows "card (later d p) \<le> k \<Longrightarrow> set (visit k d p) = {x. under d p x} \<and> distinct (visit k d p)"
proof (induction k arbitrary: p)
  case 0
  have "\<not> under d p x" for x
  proof
    assume "under d p x"
    then obtain c e where "(c, e) \<in> set d" "te_origin e = p" using under_first by metis
    then show False using later_child [OF assms(2)] 0 by fastforce
  qed
  then show ?case by simp
next
  case (Suc k)
  have sub: "set (visit k d (Some c)) = {x. under d (Some c) x} \<and> distinct (visit k d (Some c))"
    if "(c, e) \<in> set d" "te_origin e = p" for c e
    using later_child [OF assms(2) that] Suc.prems by (intro Suc.IH) simp
  let ?f = "\<lambda>i. i # visit k d (Some i)"
  have "set (concat (map ?f (siblings d p))) = {x. under d p x}"
  proof -
    have "x \<in> set (concat (map ?f (siblings d p))) \<longleftrightarrow> (\<exists>c e. (c, e) \<in> set d \<and> te_origin e = p \<and> (x = c \<or> under d (Some c) x))" for x
    proof -
      have "x \<in> set (concat (map ?f (siblings d p))) \<longleftrightarrow>
          (\<exists>c. (\<exists>e. (c, e) \<in> set d \<and> te_origin e = p) \<and> (x = c \<or> x \<in> set (visit k d (Some c))))"
        by (simp add: siblings_mem [OF assms(1)] Bex_def)
      also have "\<dots> \<longleftrightarrow> (\<exists>c e. (c, e) \<in> set d \<and> te_origin e = p \<and> (x = c \<or> under d (Some c) x))"
        using sub by blast
      finally show ?thesis .
    qed
    then show ?thesis using under_first [of d p] by blast
  qed
  moreover have "distinct (concat (map ?f (siblings d p)))"
  proof (rule distinct_concat_mapI)
    show "distinct (siblings d p)" by (rule siblings_distinct [OF assms(1)])
    fix x assume "x \<in> set (siblings d p)"
    then obtain e where x: "(x, e) \<in> set d" "te_origin e = p" by (auto simp: siblings_mem [OF assms(1)])
    then show "distinct (?f x)" using sub [OF x] under_less [OF assms(2), of x x] by auto
    fix y assume "y \<in> set (siblings d p)" and ne: "x \<noteq> y"
    then obtain f where y: "(y, f) \<in> set d" "te_origin f = p" by (auto simp: siblings_mem [OF assms(1)])
    show "set (?f x) \<inter> set (?f y) = {}"
      using sub [OF x] sub [OF y] siblings_apart [OF assms x(1) y(1) x(2) y(2) ne] by auto
  qed
  ultimately show ?case by simp
qed

lemma under_root: "rooted d \<Longrightarrow> k \<in> fst ` set d \<Longrightarrow> under d None k"
proof (induction "card {j \<in> fst ` set d. j < k}" arbitrary: k rule: less_induct)
  case less
  obtain e where e: "(k, e) \<in> set d" using less.prems(2) by auto
  show ?case
  proof (cases "te_origin e")
    case None
    then show ?thesis using e by (blast intro: under.child)
  next
    case (Some p)
    then have p: "p \<in> fst ` set d" "p < k" using less.prems(1) e by (auto simp: rooted_def)
    have "{j \<in> fst ` set d. j < p} \<subset> {j \<in> fst ` set d. j < k}" using p by force
    then have "card {j \<in> fst ` set d. j < p} < card {j \<in> fst ` set d. j < k}" by (intro psubset_card_mono) auto
    then have "under d None p" using less.hyps less.prems(1) p(1) by blast
    then show ?thesis using e Some by (rule under.below)
  qed
qed

text \<open>Every element occurs exactly once in the order.\<close>

lemma ordered_ids_perm:
  assumes "keyed d" and "rooted d"
  shows "set (ordered_ids d) = fst ` set d" and "distinct (ordered_ids d)"
proof -
  have "card (fst ` set d) \<le> length d" by (metis card_length length_map set_map)
  then have *: "set (ordered_ids d) = {x. under d None x} \<and> distinct (ordered_ids d)"
    unfolding ordered_ids_def by (intro visit_spec [OF assms]) (simp add: later_def)
  then show "distinct (ordered_ids d)" by simp
  show "set (ordered_ids d) = fst ` set d" using * under_root [OF assms(2)] by (force dest: under_mem)
qed

section \<open>The order is a function of the set of elements\<close>

lemma keyed_map_set: "keyed d \<Longrightarrow> set d = {(k, e). map_of d k = Some e}"
  by (auto simp: keyed_def)

definition same_tree :: "(op_id \<times> 'c text_element) list \<Rightarrow> (op_id \<times> 'c text_element) list \<Rightarrow> bool" where
  "same_tree d d' \<longleftrightarrow> (\<forall>k. map_option te_origin (map_of d k) = map_option te_origin (map_of d' k))"

lemma same_tree_mem:
  assumes "keyed d" and "keyed d'" and "same_tree d d'"
  shows "(\<exists>e. (k, e) \<in> set d \<and> te_origin e = p) \<longleftrightarrow> (\<exists>e. (k, e) \<in> set d' \<and> te_origin e = p)"
proof -
  have "(\<exists>e. (k, e) \<in> set x \<and> te_origin e = p) \<longleftrightarrow> map_option te_origin (map_of x k) = Some p"
    if "keyed x" for x :: "(op_id \<times> 'a text_element) list"
    by (auto simp: keyed_map_set [OF that])
  then show ?thesis using assms unfolding same_tree_def by metis
qed

lemma siblings_same:
  assumes "keyed d" and "keyed d'" and "same_tree d d'"
  shows "siblings d p = siblings d' p"
proof -
  have "set (siblings d p) = set (siblings d' p)"
    using same_tree_mem [OF assms] by (auto simp: siblings_mem assms(1,2))
  moreover have "sorted (rev (siblings x p))" for x :: "(op_id \<times> 'a text_element) list"
    by (simp add: siblings_def)
  ultimately have "rev (siblings d p) = rev (siblings d' p)"
    using siblings_distinct [OF assms(1)] siblings_distinct [OF assms(2)]
    by (intro sorted_distinct_set_unique) simp_all
  then show ?thesis by (simp only: rev_is_rev_conv)
qed

lemma same_tree_length:
  assumes "keyed d" and "keyed d'" and "same_tree d d'"
  shows "length d = length d'"
proof -
  have mem: "k \<in> fst ` set x \<longleftrightarrow> (\<exists>p e. (k, e) \<in> set x \<and> te_origin e = p)" for k and x :: "(op_id \<times> 'a text_element) list"
    by force
  have "fst ` set d = fst ` set d'" using same_tree_mem [OF assms] by (auto simp only: set_eq_iff mem)
  moreover have "length x = card (fst ` set x)" if "keyed x" for x :: "(op_id \<times> 'a text_element) list"
    using distinct_card [of "map fst x"] that by (simp add: keyed_def)
  ultimately show ?thesis using assms(1,2) by metis
qed

lemma ordered_ids_same:
  assumes "keyed d" and "keyed d'" and "same_tree d d'"
  shows "ordered_ids d = ordered_ids d'"
proof -
  have "visit k d p = visit k d' p" for k p
    by (induction k arbitrary: p) (simp_all add: siblings_same [OF assms])
  then show ?thesis by (simp add: ordered_ids_def same_tree_length [OF assms])
qed

chapter \<open>Properties\<close>

text \<open>
  The merge of the text CRDT: what it does to one element, the interpretation of the contract
  of theory JoinCrdt, and the text as a function of the merged state.
\<close>

section \<open>Tombstones\<close>

text \<open>
  The state of one element id: absent, present, or deleted under the least delete id seen.
\<close>

type_synonym tomb = "op_id option option"

definition join_tomb :: "tomb \<Rightarrow> tomb \<Rightarrow> tomb" where
  "join_tomb a b =
     (case a of None \<Rightarrow> b
      | Some x \<Rightarrow> (case b of None \<Rightarrow> a
          | Some y \<Rightarrow> Some (case x of None \<Rightarrow> y | Some d \<Rightarrow> (case y of None \<Rightarrow> x | Some d' \<Rightarrow> Some (min d d')))))"

lemma join_tomb_laws:
  "join_tomb a b = join_tomb b a" "join_tomb (join_tomb a b) c = join_tomb a (join_tomb b c)"
  "join_tomb a a = a" "join_tomb None b = b" "join_tomb a None = a"
  by (auto simp: join_tomb_def min.commute min.assoc min.left_commute split: option.split)

definition seen_in :: "(op_id \<times> 'c text_element) list \<Rightarrow> op_id \<Rightarrow> tomb" where
  "seen_in d k = map_option te_delete_id (map_of d k)"

definition text_seen :: "'c text_crdt \<Rightarrow> op_id \<Rightarrow> tomb" where
  "text_seen t = seen_in (tx_by_id t)"

text \<open>
  Each id belongs to one insertion \<open>w\<close>, a character after an origin; the deleted flag says that
  there is a delete id.
\<close>

definition element_ok :: "(op_id \<Rightarrow> 'c \<times> op_id option) \<Rightarrow> 'c text_element \<Rightarrow> bool" where
  "element_ok w e \<longleftrightarrow> (te_ch e, te_origin e) = w (te_id e) \<and> (te_deleted e \<longleftrightarrow> te_delete_id e \<noteq> None)"

definition elements_ok :: "(op_id \<Rightarrow> 'c \<times> op_id option) \<Rightarrow> (op_id \<times> 'c text_element) list \<Rightarrow> bool" where
  "elements_ok w d \<longleftrightarrow> keyed d \<and> (\<forall>(k, e)\<in>set d. element_ok w e)"

definition element_at :: "(op_id \<Rightarrow> 'c \<times> op_id option) \<Rightarrow> op_id \<Rightarrow> op_id option \<Rightarrow> 'c text_element" where
  "element_at w k did = \<lparr>te_id = k, te_ch = fst (w k), te_origin = snd (w k),
     te_deleted = (did \<noteq> None), te_delete_id = did\<rparr>"

lemma element_at_eq: "element_ok w e \<Longrightarrow> e = element_at w (te_id e) (te_delete_id e)"
  by (cases "w (te_id e)") (auto simp: element_ok_def element_at_def)

lemma map_of_seen: "elements_ok w d \<Longrightarrow> map_of d k = map_option (element_at w k) (seen_in d k)"
proof (cases "map_of d k")
  case (Some e)
  assume ok: "elements_ok w d"
  have "(k, e) \<in> set d" using Some by (rule map_of_SomeD)
  then have "te_id e = k" "element_ok w e" using ok by (auto simp: elements_ok_def keyed_def)
  then show ?thesis using Some element_at_eq [of w e] by (simp add: seen_in_def)
qed (simp add: seen_in_def)

lemma seen_same_map: "elements_ok w d \<Longrightarrow> elements_ok w d' \<Longrightarrow> seen_in d = seen_in d' \<Longrightarrow> map_of d = map_of d'"
  by (auto simp: fun_eq_iff map_of_seen)

lemma update_set: "set (AList.update k v d) \<subseteq> insert (k, v) (set d)"
  by (induction d) auto

lemma elements_ok_update:
  assumes "elements_ok w d" and "element_ok w e"
  shows "elements_ok w (AList.update (te_id e) e d)"
  using assms update_set [of "te_id e" e d]
  by (auto simp: elements_ok_def keyed_def distinct_update)

section \<open>Merging one element\<close>

lemma put_simps [simp]:
  "tx_by_id (put_element t e) = AList.update (te_id e) e (tx_by_id t)"
  "tx_counter (put_element t e) = tx_counter t" "tx_peer (put_element t e) = tx_peer t"
  "tx_cache (put_element t e) = tx_cache t"
  by (simp_all add: put_element_def)

lemma element_id: "elements_ok w d \<Longrightarrow> map_of d k = Some e \<Longrightarrow> te_id e = k \<and> element_ok w e"
  by (drule map_of_SomeD) (auto simp: elements_ok_def keyed_def)

lemma merge_element_spec:
  assumes ok: "elements_ok w (tx_by_id t)" and e: "element_ok w e"
  shows "elements_ok w (tx_by_id (fst (merge_element t e))) \<and>
    text_seen (fst (merge_element t e)) =
      (text_seen t)(te_id e := join_tomb (text_seen t (te_id e)) (Some (te_delete_id e))) \<and>
    tx_counter (fst (merge_element t e)) = tx_counter t \<and> tx_peer (fst (merge_element t e)) = tx_peer t \<and>
    tx_cache (fst (merge_element t e)) = tx_cache t"
proof (cases "map_of (tx_by_id t) (te_id e)")
  case None
  then show ?thesis using elements_ok_update [OF assms]
    by (auto simp: merge_element_def text_seen_def seen_in_def update_conv' join_tomb_laws fun_eq_iff)
next
  case (Some m)
  note m = element_id [OF ok Some]
  have seen: "text_seen t (te_id e) = Some (te_delete_id m)" using Some by (simp add: text_seen_def seen_in_def)
  have upd: "elements_ok w (AList.update (te_id e) (m\<lparr>te_deleted := True, te_delete_id := Some d\<rparr>) (tx_by_id t))" for d
    using elements_ok_update [OF ok, of "m\<lparr>te_deleted := True, te_delete_id := Some d\<rparr>"] m
    by (simp add: element_ok_def)
  have upd': "m\<lparr>te_delete_id := Some d\<rparr> = m\<lparr>te_deleted := True, te_delete_id := Some d\<rparr>" if "te_deleted m" for d
    using that by (cases m) simp
  have noop: "f = f(k := y)" if "f k = y" for f :: "op_id \<Rightarrow> tomb" and k y using that by auto
  show ?thesis
  proof (cases "te_delete_id e")
    case None
    then have "merge_element t e = (t, False)" using Some e by (simp add: merge_element_def element_ok_def)
    then show ?thesis using ok seen None by (auto simp: join_tomb_def fun_eq_iff split: option.split)
  next
    case e_del: (Some d)
    show ?thesis
    proof (cases "te_delete_id m")
      case None
      then have "merge_element t e = (put_element t (m\<lparr>te_deleted := True, te_delete_id := Some d\<rparr>), True)"
        using Some e m e_del by (simp add: merge_element_def element_ok_def)
      then show ?thesis using m upd [of d] None e_del seen
        by (auto simp: text_seen_def seen_in_def update_conv' join_tomb_def fun_eq_iff)
    next
      case m_del: (Some d')
      have md: "te_deleted m" using m m_del by (simp add: element_ok_def)
      have "merge_element t e = (if d < d' then (put_element t (m\<lparr>te_delete_id := Some d\<rparr>), True) else (t, False))"
        using Some e m e_del m_del by (auto simp: merge_element_def element_ok_def lt_opt_def)
      then have r: "merge_element t e =
          (if d < d' then (put_element t (m\<lparr>te_deleted := True, te_delete_id := Some d\<rparr>), True) else (t, False))"
        by (simp only: upd' [OF md])
      show ?thesis using m upd [of d] m_del e_del seen ok
        by (auto simp: r text_seen_def seen_in_def update_conv' join_tomb_def fun_eq_iff min_def)
    qed
  qed
qed

text \<open>The change flag is raised exactly when the state changes.\<close>

lemma merge_element_flag:
  assumes ok: "elements_ok w (tx_by_id t)" and e: "element_ok w e"
  shows "\<not> snd (merge_element t e) \<longleftrightarrow> merge_element t e = (t, False)"
    and "snd (merge_element t e) \<longleftrightarrow> text_seen (fst (merge_element t e)) \<noteq> text_seen t"
proof -
  show flag: "\<not> snd (merge_element t e) \<longleftrightarrow> merge_element t e = (t, False)"
    by (auto simp: merge_element_def Let_def split: option.split)
  have "text_seen (fst (merge_element t e)) (te_id e) \<noteq> text_seen t (te_id e)" if "snd (merge_element t e)"
  proof (cases "map_of (tx_by_id t) (te_id e)")
    case (Some m)
    have "te_deleted m \<longleftrightarrow> te_delete_id m \<noteq> None" "te_deleted e \<longleftrightarrow> te_delete_id e \<noteq> None"
      using element_id [OF ok Some] e by (simp_all add: element_ok_def)
    then show ?thesis using that merge_element_spec [OF ok e] Some
      by (auto simp: merge_element_def text_seen_def seen_in_def join_tomb_def lt_opt_def min_def split: if_splits option.splits)
  qed (use merge_element_spec [OF ok e] in \<open>auto simp: text_seen_def seen_in_def join_tomb_def\<close>)
  then show "snd (merge_element t e) \<longleftrightarrow> text_seen (fst (merge_element t e)) \<noteq> text_seen t"
    using flag by (metis fst_conv)
qed

section \<open>Merging all elements\<close>

lemma merge_elements_acc:
  "foldl (\<lambda>(t, changed) e. let (t', c) = merge_element t e in (t', changed \<or> c)) (t, b) es =
   (fst (merge_elements t es), b \<or> snd (merge_elements t es))"
  unfolding merge_elements_def
proof (induction es arbitrary: t b)
  case (Cons e es)
  show ?case
    using Cons.IH [of "fst (merge_element t e)" "b \<or> snd (merge_element t e)"]
      Cons.IH [of "fst (merge_element t e)" "snd (merge_element t e)"]
    by (simp add: split_beta Let_def)
qed simp

lemma merge_elements_simps [simp]:
  "merge_elements t [] = (t, False)"
  "merge_elements t (e # es) =
     (fst (merge_elements (fst (merge_element t e)) es),
      snd (merge_element t e) \<or> snd (merge_elements (fst (merge_element t e)) es))"
  using merge_elements_acc [of "fst (merge_element t e)" "snd (merge_element t e)" es]
  by (simp_all add: merge_elements_def split_beta Let_def)

definition seen_list :: "'c text_element list \<Rightarrow> op_id \<Rightarrow> tomb" where
  "seen_list es k = seen_in (map (\<lambda>e. (te_id e, e)) es) k"

lemma seen_list_Cons:
  "te_id e \<notin> te_id ` set es \<Longrightarrow> seen_list (e # es) = (seen_list es)(te_id e := Some (te_delete_id e))"
  by (auto simp: seen_list_def seen_in_def fun_eq_iff)

lemma merge_elements_spec:
  assumes "elements_ok w (tx_by_id t)" and "\<forall>e\<in>set es. element_ok w e" and "distinct (map te_id es)"
  shows "elements_ok w (tx_by_id (fst (merge_elements t es))) \<and>
    (\<forall>k. text_seen (fst (merge_elements t es)) k = join_tomb (text_seen t k) (seen_list es k)) \<and>
    tx_counter (fst (merge_elements t es)) = tx_counter t \<and> tx_peer (fst (merge_elements t es)) = tx_peer t \<and>
    tx_cache (fst (merge_elements t es)) = tx_cache t \<and>
    (\<not> snd (merge_elements t es) \<longrightarrow> fst (merge_elements t es) = t)"
  using assms
proof (induction es arbitrary: t)
  case Nil
  then show ?case by (simp add: seen_list_def seen_in_def join_tomb_laws)
next
  case (Cons e es)
  let ?t = "fst (merge_element t e)"
  have e: "element_ok w e" and fresh: "te_id e \<notin> te_id ` set es" using Cons.prems by auto
  note one = merge_element_spec [OF Cons.prems(1) e]
  have ok: "elements_ok w (tx_by_id ?t)" using one by blast
  note rest = Cons.IH [OF ok] Cons.prems
  have none: "seen_list es (te_id e) = None" using fresh by (auto simp: seen_list_def seen_in_def map_of_eq_None_iff)
  have same: "\<not> snd (merge_element t e) \<Longrightarrow> ?t = t" using merge_element_flag(1) [OF Cons.prems(1) e] by auto
  have "text_seen (fst (merge_elements t (e # es))) k = join_tomb (text_seen t k) (seen_list (e # es) k)" for k
    using rest one by (simp add: seen_list_Cons [OF fresh] none join_tomb_laws)
  then show ?case using rest one same by (cases "snd (merge_element t e)") auto
qed

text \<open>Elements that change nothing can be left out of a delta.\<close>

lemma merge_element_other:
  assumes "te_id f \<noteq> te_id e" and ok: "elements_ok w (tx_by_id t)" and e: "element_ok w e"
  shows "map_of (tx_by_id (fst (merge_element t e))) (te_id f) = map_of (tx_by_id t) (te_id f)"
proof -
  note one = merge_element_spec [OF ok e]
  have ok': "elements_ok w (tx_by_id (fst (merge_element t e)))" using one by blast
  have "text_seen (fst (merge_element t e)) (te_id f) = text_seen t (te_id f)" using one assms(1) by simp
  then show ?thesis unfolding map_of_seen [OF ok] map_of_seen [OF ok'] by (simp only: text_seen_def)
qed

lemma noop_local:
  "map_of (tx_by_id t') (te_id f) = map_of (tx_by_id t) (te_id f) \<Longrightarrow> merge_element t f = (t, False) \<Longrightarrow>
     merge_element t' f = (t', False)"
  by (auto simp: merge_element_def split: option.splits if_splits)

lemma merge_elements_skip:
  assumes "elements_ok w (tx_by_id t)" and "\<forall>e\<in>set es. element_ok w e" and "distinct (map te_id es)"
    and "\<forall>e\<in>set es. \<not> P e \<longrightarrow> merge_element t e = (t, False)"
  shows "merge_elements t (filter P es) = merge_elements t es"
  using assms
proof (induction es arbitrary: t)
  case (Cons e es)
  have e: "element_ok w e" and fresh: "te_id e \<notin> te_id ` set es" using Cons.prems by auto
  let ?t = "fst (merge_element t e)"
  have ok: "elements_ok w (tx_by_id ?t)" using merge_element_spec [OF Cons.prems(1) e] by blast
  have "\<forall>f\<in>set es. \<not> P f \<longrightarrow> merge_element ?t f = (?t, False)"
  proof (intro ballI impI)
    fix f assume f: "f \<in> set es" "\<not> P f"
    then have n: "merge_element t f = (t, False)" using Cons.prems(4) by simp
    have ne: "te_id f \<noteq> te_id e" using fresh imageI [OF f(1), of te_id] by metis
    show "merge_element ?t f = (?t, False)"
      by (rule noop_local [OF merge_element_other [OF ne Cons.prems(1) e] n])
  qed
  then have IH: "merge_elements ?t (filter P es) = merge_elements ?t es" using Cons.IH [OF ok] Cons.prems by simp
  show ?case
  proof (cases "P e")
    case False
    then have "?t = t" "\<not> snd (merge_element t e)" using Cons.prems(4) by auto
    then show ?thesis using IH False by simp
  qed (simp add: IH)
qed simp

section \<open>Convergence\<close>

lemma advance_simps [simp]:
  "tx_by_id (advance_counter t) = tx_by_id t" "tx_cache (advance_counter t) = tx_cache t"
  "tx_peer (advance_counter t) = tx_peer t"
  "tx_by_id (invalidate_ordered t) = tx_by_id t" "tx_counter (invalidate_ordered t) = tx_counter t"
  "tx_cache (invalidate_ordered t) = None" "tx_peer (invalidate_ordered t) = tx_peer t"
  by (simp_all add: advance_counter_def invalidate_ordered_def)

lemma advance_max: "tx_counter (advance_counter t) = foldl max (tx_counter t) (map (\<lambda>x. op_counter (fst x)) (tx_by_id t))"
proof -
  have "foldl (\<lambda>c i. if op_counter i > c then op_counter i else c) c is = foldl max c (map op_counter is)" for c "is"
    by (induction "is" arbitrary: c) (simp_all add: max_def)
  then show ?thesis by (simp add: advance_counter_def comp_def)
qed

definition cache_ok :: "'c text_crdt \<Rightarrow> bool" where
  "cache_ok t \<longleftrightarrow> tx_cache t = None \<or> tx_cache t = Some (ordered_ids (tx_by_id t))"

text \<open>A replica that can occur when the insertions are \<open>w\<close>.\<close>

definition text_ok :: "(op_id \<Rightarrow> 'c \<times> op_id option) \<Rightarrow> 'c text_crdt \<Rightarrow> bool" where
  "text_ok w t \<longleftrightarrow> elements_ok w (tx_by_id t) \<and> rooted (tx_by_id t) \<and> cache_ok t"

lemma rooted_seen:
  "elements_ok w d \<Longrightarrow> rooted d \<longleftrightarrow> (\<forall>k. seen_in d k \<noteq> None \<longrightarrow> (\<forall>p. snd (w k) = Some p \<longrightarrow> seen_in d p \<noteq> None \<and> p < k))"
proof -
  assume ok: "elements_ok w d"
  have org: "te_origin e = snd (w k)" if "(k, e) \<in> set d" for k e
  proof -
    have "te_id e = k" "element_ok w e" using that ok by (auto simp: elements_ok_def keyed_def)
    then show ?thesis by (metis element_ok_def snd_conv)
  qed
  have mem: "k \<in> fst ` set d \<longleftrightarrow> seen_in d k \<noteq> None" for k
    by (simp add: seen_in_def map_of_eq_None_iff)
  have "rooted d \<longleftrightarrow> (\<forall>k. k \<in> fst ` set d \<longrightarrow> (\<forall>p. snd (w k) = Some p \<longrightarrow> p \<in> fst ` set d \<and> p < k))"
    using org by (force simp: rooted_def)
  then show ?thesis by (simp only: mem)
qed

lemma list_of_dict: "elements_ok w d \<Longrightarrow> distinct (map te_id (map snd d)) \<and> (\<forall>e\<in>set (map snd d). element_ok w e) \<and>
    seen_list (map snd d) = seen_in d"
proof -
  assume ok: "elements_ok w d"
  then have keys: "map te_id (map snd d) = map fst d" by (intro keyed_ids) (simp add: elements_ok_def)
  have "map (\<lambda>e. (te_id e, e)) (map snd d) = map (\<lambda>x. x) d"
    unfolding list.map_comp using ok by (intro map_cong) (auto simp: elements_ok_def keyed_def)
  then have "seen_list (map snd d) = seen_in d" by (simp add: seen_list_def fun_eq_iff)
  then show ?thesis using ok by (simp only: keys) (auto simp: elements_ok_def keyed_def)
qed

lemma apply_delta_spec:
  assumes ok: "text_ok w t" and es: "\<forall>e\<in>set es. element_ok w e" "distinct (map te_id es)"
  shows "elements_ok w (tx_by_id (fst (apply_delta t es))) \<and> cache_ok (fst (apply_delta t es)) \<and>
    (\<forall>k. text_seen (fst (apply_delta t es)) k = join_tomb (text_seen t k) (seen_list es k)) \<and>
    tx_peer (fst (apply_delta t es)) = tx_peer t"
proof -
  have "elements_ok w (tx_by_id t)" and c: "cache_ok t" using ok by (auto simp: text_ok_def)
  note m = merge_elements_spec [OF this(1) es]
  show ?thesis using m c by (auto simp: apply_delta_def split_beta Let_def text_seen_def cache_ok_def)
qed

lemma text_merge_delta: "text_merge t other = apply_delta t (map snd (tx_by_id other))"
  by (simp add: text_merge_def apply_delta_def)

lemma text_merge_ok:
  assumes "text_ok w a" and "text_ok w b"
  shows "text_ok w (fst (text_merge a b)) \<and>
    (\<forall>k. text_seen (fst (text_merge a b)) k = join_tomb (text_seen a k) (text_seen b k))"
proof -
  have okb: "elements_ok w (tx_by_id b)" and oka: "elements_ok w (tx_by_id a)"
    and ra: "rooted (tx_by_id a)" and rb: "rooted (tx_by_id b)"
    using assms by (auto simp: text_ok_def)
  note l = list_of_dict [OF okb]
  have d: "elements_ok w (tx_by_id (fst (text_merge a b)))" "cache_ok (fst (text_merge a b))"
    "\<And>k. text_seen (fst (text_merge a b)) k = join_tomb (text_seen a k) (text_seen b k)"
    using apply_delta_spec [OF assms(1), of "map snd (tx_by_id b)"] l
    by (auto simp: text_merge_delta text_seen_def)
  have some: "join_tomb x y \<noteq> None \<longleftrightarrow> x \<noteq> None \<or> y \<noteq> None" for x y
    by (auto simp: join_tomb_def split: option.split)
  have "rooted (tx_by_id (fst (text_merge a b)))"
    using ra rb d(3) unfolding rooted_seen [OF oka] rooted_seen [OF okb] rooted_seen [OF d(1)]
    by (simp only: text_seen_def some) blast
  then show ?thesis using d by (simp add: text_ok_def)
qed

definition text_join :: "'c text_crdt \<Rightarrow> 'c text_crdt \<Rightarrow> 'c text_crdt" where
  "text_join a b = fst (text_merge a b)"

lemma text_join_ok:
  "text_ok w a \<Longrightarrow> text_ok w b \<Longrightarrow>
     text_ok w (text_join a b) \<and> text_seen (text_join a b) = (\<lambda>k. join_tomb (text_seen a k) (text_seen b k))"
  using text_merge_ok [of w a b] by (simp add: text_join_def fun_eq_iff)

interpretation text_replicas: join_crdt text_join text_seen "text_ok w" for w :: "op_id \<Rightarrow> 'c \<times> op_id option"
proof unfold_locales
  fix a b c :: "'c text_crdt" assume ok: "text_ok w a" "text_ok w b" "text_ok w c"
  note ab = text_join_ok [OF ok(1,2)] and bc = text_join_ok [OF ok(2,3)]
  show "text_seen (text_join (text_join a b) c) = text_seen (text_join a (text_join b c))"
    using text_join_ok [of w "text_join a b" c] text_join_ok [of w a "text_join b c"] ok ab bc
    by (simp add: join_tomb_laws(2))
next
  fix a b :: "'c text_crdt" assume ok: "text_ok w a" "text_ok w b"
  show "text_seen (text_join a b) = text_seen (text_join b a)"
    using text_join_ok [OF ok] text_join_ok [OF ok(2,1)] by (auto simp: fun_eq_iff join_tomb_laws(1))
  show "text_ok w (text_join a b)" using text_join_ok [OF ok] by blast
next
  fix a :: "'c text_crdt" assume ok: "text_ok w a"
  show "text_seen (text_join a a) = text_seen a" using text_join_ok [OF ok ok] by (simp add: join_tomb_laws(3))
next
  fix a a' b b' :: "'c text_crdt"
  assume "text_ok w a" "text_ok w a'" "text_ok w b" "text_ok w b'" "text_seen a = text_seen a'" "text_seen b = text_seen b'"
  then show "text_seen (text_join a b) = text_seen (text_join a' b')"
    using text_join_ok [of w a b] text_join_ok [of w a' b'] by simp
qed

text \<open>The visible text is determined by what the replica has seen.\<close>

definition plain_text :: "(op_id \<times> 'c text_element) list \<Rightarrow> 'c list" where
  "plain_text d =
     map te_ch (filter (\<lambda>e. \<not> te_deleted e) (List.map_filter (map_of d) (ordered_ids d)))"

lemma text_of_plain: "cache_ok t \<Longrightarrow> snd (text_of t) = plain_text (tx_by_id t)"
  by (auto simp: text_of_def visible_def visible_ordered_def plain_text_def cache_ok_def Let_def split: option.split)

lemma text_of_state: "cache_ok t \<Longrightarrow> cache_ok (fst (text_of t)) \<and> tx_by_id (fst (text_of t)) = tx_by_id t"
  by (auto simp: text_of_def visible_def visible_ordered_def cache_ok_def Let_def split: option.split)

lemma seen_text:
  assumes "text_ok w a" and "text_ok w b" and "text_seen a = text_seen b"
  shows "snd (text_of a) = snd (text_of b)"
proof -
  have ok: "elements_ok w (tx_by_id a)" "elements_ok w (tx_by_id b)" and c: "cache_ok a" "cache_ok b"
    using assms by (auto simp: text_ok_def)
  have m: "map_of (tx_by_id a) = map_of (tx_by_id b)"
    using seen_same_map [OF ok] assms(3) by (simp add: text_seen_def)
  then have "ordered_ids (tx_by_id a) = ordered_ids (tx_by_id b)"
    using ok by (intro ordered_ids_same) (auto simp: elements_ok_def same_tree_def)
  then show ?thesis using m by (simp add: text_of_plain c plain_text_def)
qed

end
