(* ===== verification/TextSync.thy ===== *)
theory TextSync
  imports TextCrdt
begin

text \<open>
  A network of text replicas that type, erase, read, and exchange deltas or whole states. In
  every state it reaches a delta built from the receiver's version vector does what merging
  the sender's whole state does.
\<close>

section \<open>The version vector\<close>

definition frontier :: "(int \<Rightarrow> int option) \<Rightarrow> int \<Rightarrow> int" where
  "frontier vv p = (case vv p of None \<Rightarrow> 0 | Some c \<Rightarrow> c)"

lemma unknown_frontier: "unknown_to vv i \<longleftrightarrow> frontier vv (op_peer i) < op_counter i"
  by (auto simp: unknown_to_def frontier_def)

lemma frontier_bump: "frontier (bump_vv vv i) p = (if op_peer i = p then max (frontier vv p) (op_counter i) else frontier vv p)"
  by (auto simp: bump_vv_def frontier_def max_def split: option.split)

definition ops_in :: "'c text_element \<Rightarrow> op_id list" where
  "ops_in e = te_id e # (case te_delete_id e of None \<Rightarrow> [] | Some d \<Rightarrow> [d])"

definition known_ops :: "'c text_crdt \<Rightarrow> op_id set" where
  "known_ops t = {k. text_seen t k \<noteq> None} \<union> {d. \<exists>k. text_seen t k = Some (Some d)}"

lemma version_vector_ops:
  "version_vector t = foldl bump_vv Map.empty (concat (map ops_in (map snd (tx_by_id t))))"
proof -
  have "foldl (\<lambda>vv e. let vv1 = bump_vv vv (te_id e)
                   in case te_delete_id e of None \<Rightarrow> vv1 | Some d \<Rightarrow> bump_vv vv1 d) vv es =
      foldl bump_vv vv (concat (map ops_in es))" for vv and es :: "'a text_element list"
    by (induction es arbitrary: vv) (auto simp: ops_in_def Let_def split: option.split)
  then show ?thesis by (simp only: version_vector_def)
qed

lemma frontier_fold:
  "frontier vv p \<le> frontier (foldl bump_vv vv is) p \<and>
   (\<forall>i\<in>set is. op_peer i = p \<longrightarrow> op_counter i \<le> frontier (foldl bump_vv vv is) p) \<and>
   (frontier (foldl bump_vv vv is) p = frontier vv p \<or>
    (\<exists>i\<in>set is. op_peer i = p \<and> op_counter i = frontier (foldl bump_vv vv is) p))"
proof (induction "is" arbitrary: vv)
  case (Cons i "is")
  have "frontier vv p \<le> frontier (bump_vv vv i) p"
    "op_peer i = p \<Longrightarrow> op_counter i \<le> frontier (bump_vv vv i) p"
    "frontier (bump_vv vv i) p = frontier vv p \<or> (op_peer i = p \<and> op_counter i = frontier (bump_vv vv i) p)"
    by (auto simp: frontier_bump max_def)
  then show ?case using Cons.IH [of "bump_vv vv i"] by (auto intro: order_trans)
qed simp

lemma known_ops_set:
  assumes "elements_ok w (tx_by_id t)"
  shows "set (concat (map ops_in (map snd (tx_by_id t)))) = known_ops t"
proof -
  have k: "keyed (tx_by_id t)" using assms by (simp add: elements_ok_def)
  have mem: "(k, e) \<in> set (tx_by_id t) \<longleftrightarrow> map_of (tx_by_id t) k = Some e" for k e
    using keyed_map_set [OF k] by auto
  have id: "map_of (tx_by_id t) k = Some e \<Longrightarrow> te_id e = k" for k e using element_id [OF assms] by blast
  have op: "x \<in> set (ops_in e) \<longleftrightarrow> x = te_id e \<or> te_delete_id e = Some x" for x and e :: "'a text_element"
    by (auto simp: ops_in_def split: option.splits)
  have "x \<in> set (concat (map ops_in (map snd (tx_by_id t)))) \<longleftrightarrow>
      (\<exists>k e. (k, e) \<in> set (tx_by_id t) \<and> x \<in> set (ops_in e))" for x
    by (simp add: Bex_def)
  then have "x \<in> set (concat (map ops_in (map snd (tx_by_id t)))) \<longleftrightarrow>
      (\<exists>k e. map_of (tx_by_id t) k = Some e \<and> (x = k \<or> te_delete_id e = Some x))" for x
    unfolding mem op using id by blast
  moreover have "x \<in> known_ops t \<longleftrightarrow>
      (\<exists>k e. map_of (tx_by_id t) k = Some e \<and> (x = k \<or> te_delete_id e = Some x))" for x
    by (auto simp: known_ops_def text_seen_def seen_in_def)
  ultimately show ?thesis by blast
qed

abbreviation vv_of :: "'c text_crdt \<Rightarrow> int \<Rightarrow> int" where
  "vv_of t \<equiv> frontier (version_vector t)"

lemma vv_bounds:
  assumes "elements_ok w (tx_by_id t)"
  shows "i \<in> known_ops t \<Longrightarrow> op_counter i \<le> vv_of t (op_peer i)"
    and "vv_of t p = 0 \<or> (\<exists>i\<in>known_ops t. op_peer i = p \<and> op_counter i = vv_of t p)"
  using frontier_fold [of Map.empty p "concat (map ops_in (map snd (tx_by_id t)))"]
    frontier_fold [of Map.empty "op_peer i" "concat (map ops_in (map snd (tx_by_id t)))"]
  unfolding known_ops_set [OF assms] version_vector_ops by (auto simp: frontier_def)

section \<open>Local edits\<close>

lemma visible_spec:
  assumes "text_ok w t"
  shows "\<exists>t' es. visible t = (t', es) \<and> tx_by_id t' = tx_by_id t \<and> tx_counter t' = tx_counter t \<and>
    tx_peer t' = tx_peer t \<and> text_ok w t' \<and>
    (\<forall>e\<in>set es. \<not> te_deleted e \<and> map_of (tx_by_id t) (te_id e) = Some e)"
proof -
  have ok: "elements_ok w (tx_by_id t)" using assms by (simp add: text_ok_def)
  have c: "snd (visible t) = filter (\<lambda>e. \<not> te_deleted e) (List.map_filter (map_of (tx_by_id t)) (ordered_ids (tx_by_id t)))"
    using assms by (auto simp: visible_def visible_ordered_def text_ok_def cache_ok_def Let_def split: option.split)
  have "map_of (tx_by_id t) (te_id e) = Some e" if "e \<in> set (List.map_filter (map_of (tx_by_id t)) is)" for e "is"
    using that element_id [OF ok] by (auto simp: List.map_filter_def)
  then have "\<forall>e\<in>set (snd (visible t)). \<not> te_deleted e \<and> map_of (tx_by_id t) (te_id e) = Some e"
    unfolding c by auto
  moreover have "tx_by_id (fst (visible t)) = tx_by_id t \<and> tx_counter (fst (visible t)) = tx_counter t \<and>
      tx_peer (fst (visible t)) = tx_peer t \<and> text_ok w (fst (visible t))"
    using assms by (auto simp: visible_def visible_ordered_def text_ok_def cache_ok_def Let_def split: option.split)
  ultimately show ?thesis by (metis prod.collapse)
qed

lemma index_to_origin_spec:
  assumes "text_ok w t"
  shows "\<exists>t' p n. index_to_origin t ix = (t', p, n) \<and> tx_by_id t' = tx_by_id t \<and> tx_counter t' = tx_counter t \<and>
    tx_peer t' = tx_peer t \<and> text_ok w t' \<and> (\<forall>q. p = Some q \<longrightarrow> text_seen t q \<noteq> None)"
proof -
  obtain t' es where v: "visible t = (t', es)" "tx_by_id t' = tx_by_id t" "tx_counter t' = tx_counter t"
    "tx_peer t' = tx_peer t" "text_ok w t'" and es: "\<forall>e\<in>set es. map_of (tx_by_id t) (te_id e) = Some e"
    using visible_spec [OF assms] by blast
  have seen: "text_seen t (te_id e) \<noteq> None" if "e \<in> set es" for e
    using es that by (simp add: text_seen_def seen_in_def)
  have "es ! nat (ix - 1) \<in> set es" if "0 < ix" "ix < int (length es)" using that by (intro nth_mem) linarith
  then show ?thesis using v seen last_in_set [of es] unfolding index_to_origin_def v(1) Let_def by auto
qed

lemma text_ok_mono: "text_ok w t \<Longrightarrow> (\<And>k. text_seen t k \<noteq> None \<Longrightarrow> w' k = w k) \<Longrightarrow> text_ok w' t"
proof -
  assume ok: "text_ok w t" and eq: "\<And>k. text_seen t k \<noteq> None \<Longrightarrow> w' k = w k"
  have "w' (te_id e) = w (te_id e)" if "(k, e) \<in> set (tx_by_id t)" for k e
  proof -
    have "te_id e = k" using that ok by (auto simp: text_ok_def elements_ok_def keyed_def)
    moreover have "text_seen t k \<noteq> None"
      using that by (simp add: text_seen_def seen_in_def map_of_eq_None_iff) force
    ultimately show ?thesis using eq by simp
  qed
  then show ?thesis using ok by (fastforce simp: text_ok_def elements_ok_def element_ok_def)
qed

text \<open>Typing adds one fresh element after an element the replica has.\<close>

lemma text_insert_spec:
  assumes ok: "text_ok w t" and fresh: "\<And>k. text_seen t k \<noteq> None \<Longrightarrow> op_counter k \<le> tx_counter t"
  shows "\<exists>t' p. text_insert t ix [ch] = Inr (t', OpId (tx_counter t + 1) (tx_peer t)) \<and>
    fst (snd (index_to_origin t ix)) = p \<and>
    text_ok (w(OpId (tx_counter t + 1) (tx_peer t) := (ch, p))) t' \<and>
    text_seen t' = (text_seen t)(OpId (tx_counter t + 1) (tx_peer t) := Some None) \<and>
    tx_counter t' = tx_counter t + 1 \<and> tx_peer t' = tx_peer t"
proof -
  let ?i = "OpId (tx_counter t + 1) (tx_peer t)"
  obtain t1 p n where o: "index_to_origin t ix = (t1, p, n)" "tx_by_id t1 = tx_by_id t" "tx_counter t1 = tx_counter t"
    "tx_peer t1 = tx_peer t" "text_ok w t1" and p: "\<And>q. p = Some q \<Longrightarrow> text_seen t q \<noteq> None"
    using index_to_origin_spec [OF ok] by blast
  let ?e = "fresh_element ?i ch p" and ?w = "w(?i := (ch, p))"
  let ?t = "invalidate_ordered (put_element (t1\<lparr>tx_counter := tx_counter t + 1\<rparr>) ?e)"
  have new: "text_seen t ?i = None" using fresh [of ?i] by fastforce
  have okw: "text_ok ?w t" using new by (intro text_ok_mono [OF ok]) auto
  have e: "element_ok ?w ?e" by (simp add: element_ok_def fresh_element_def)
  have d: "tx_by_id ?t = AList.update ?i ?e (tx_by_id t)" by (simp add: o(2)) (simp add: fresh_element_def)
  have el: "elements_ok ?w (tx_by_id ?t)"
    using elements_ok_update [of ?w "tx_by_id t" ?e] okw e unfolding d text_ok_def by (simp add: fresh_element_def)
  have seen: "text_seen ?t = (text_seen t)(?i := Some None)"
    unfolding text_seen_def d by (auto simp: seen_in_def update_conv' fresh_element_def fun_eq_iff)
  have "rooted (tx_by_id ?t)"
  proof -
    have "\<forall>k. text_seen t k \<noteq> None \<longrightarrow> (\<forall>q. snd (?w k) = Some q \<longrightarrow> text_seen t q \<noteq> None \<and> q < k)"
      using okw rooted_seen [of ?w "tx_by_id t"] by (simp add: text_ok_def text_seen_def)
    moreover have "q < ?i" if "p = Some q" for q
      using fresh [OF p [OF that]] by (simp add: less_op_id_def)
    ultimately show ?thesis
      using p seen unfolding rooted_seen [OF el] by (simp add: text_seen_def)
  qed
  then have "text_ok ?w ?t" using el by (simp add: text_ok_def cache_ok_def)
  moreover have "text_insert t ix [ch] = Inr (?t, ?i)"
    by (simp add: text_insert_def o next_id_def split_beta)
  moreover have "fst (snd (index_to_origin t ix)) = p" by (simp add: o(1))
  ultimately show ?thesis using seen o(4) by auto
qed

text \<open>Erasing puts a fresh delete id on one visible element, or does nothing.\<close>

lemma text_delete_spec:
  assumes ok: "text_ok w t"
  shows "\<exists>t'. (text_delete t ix = (t', None) \<and> text_ok w t' \<and> text_seen t' = text_seen t \<and>
      tx_counter t' = tx_counter t \<and> tx_peer t' = tx_peer t) \<or>
    (\<exists>k. text_delete t ix = (t', Some (OpId (tx_counter t + 1) (tx_peer t))) \<and> text_seen t k = Some None \<and>
      te_id (snd (visible t) ! nat ix) = k \<and> text_ok w t' \<and>
      text_seen t' = (text_seen t)(k := Some (Some (OpId (tx_counter t + 1) (tx_peer t)))) \<and>
      tx_counter t' = tx_counter t + 1 \<and> tx_peer t' = tx_peer t)"
proof -
  let ?i = "OpId (tx_counter t + 1) (tx_peer t)"
  obtain t1 es where v: "visible t = (t1, es)" "tx_by_id t1 = tx_by_id t" "tx_counter t1 = tx_counter t"
    "tx_peer t1 = tx_peer t" "text_ok w t1"
    and es: "\<forall>e\<in>set es. \<not> te_deleted e \<and> map_of (tx_by_id t) (te_id e) = Some e"
    using visible_spec [OF ok] by blast
  show ?thesis
  proof (cases "ix < 0 \<or> ix \<ge> int (length es)")
    case True
    then show ?thesis using v by (simp add: text_delete_def text_seen_def)
  next
    case False
    let ?e = "es ! nat ix"
    let ?f = "?e\<lparr>te_deleted := True, te_delete_id := Some ?i\<rparr>"
    let ?t = "put_element (t1\<lparr>tx_counter := tx_counter t + 1\<rparr>) ?f"
    have "?e \<in> set es" using False by (intro nth_mem) linarith
    then have e: "\<not> te_deleted ?e" "map_of (tx_by_id t) (te_id ?e) = Some ?e" using es by auto
    have el: "elements_ok w (tx_by_id t)" and rt: "rooted (tx_by_id t)" using ok by (auto simp: text_ok_def)
    have eo: "element_ok w ?e" using element_id [OF el e(2)] by blast
    have d: "tx_by_id ?t = AList.update (te_id ?e) ?f (tx_by_id t)" by (simp add: v(2))
    have elt: "elements_ok w (tx_by_id ?t)"
      using elements_ok_update [OF el, of ?f] eo unfolding d by (simp add: element_ok_def)
    have seen: "text_seen ?t = (text_seen t)(te_id ?e := Some (Some ?i))"
      unfolding text_seen_def d by (auto simp: seen_in_def update_conv' fun_eq_iff)
    have before: "text_seen t (te_id ?e) = Some None"
      using e eo by (simp add: text_seen_def seen_in_def element_ok_def)
    have rtt: "rooted (tx_by_id ?t)"
      using rt before unfolding rooted_seen [OF el] rooted_seen [OF elt] seen [unfolded text_seen_def]
      by (auto simp: text_seen_def)
    have "same_tree (tx_by_id t) (tx_by_id ?t)"
      using e(2) unfolding same_tree_def d by (auto simp: update_conv')
    then have "ordered_ids (tx_by_id ?t) = ordered_ids (tx_by_id t)"
      using el elt by (intro ordered_ids_same [symmetric]) (auto simp: elements_ok_def)
    then have "cache_ok ?t" using v(5) by (simp add: text_ok_def cache_ok_def v(2))
    then have "text_ok w ?t" using elt rtt by (simp add: text_ok_def)
    moreover have "text_delete t ix = (?t, Some ?i)"
      using False by (simp add: text_delete_def v next_id_def Let_def)
    ultimately show ?thesis using seen before v by auto
  qed
qed

section \<open>A network of replicas\<close>

text \<open>
  Peer \<open>i\<close> keeps the replica \<open>net_rep i\<close>. The other fields are history: what was typed under
  each id, and the target of each delete id.
\<close>

record 'c text_net =
  net_rep :: "int \<Rightarrow> 'c text_crdt"
  net_word :: "op_id \<Rightarrow> 'c \<times> op_id option"
  net_typed :: "op_id set"
  net_erased :: "op_id \<Rightarrow> op_id option"

datatype 'c net_op =
    NetType int int 'c
  | NetErase int int
  | NetDelta int int
  | NetMerge int int
  | NetRead int

definition net_new :: "'c \<times> op_id option \<Rightarrow> 'c text_net" where
  "net_new z = \<lparr>net_rep = text_new, net_word = (\<lambda>_. z), net_typed = {}, net_erased = Map.empty\<rparr>"

definition delta_for :: "'c text_crdt \<Rightarrow> 'c text_crdt \<Rightarrow> 'c text_op list" where
  "delta_for sender receiver = delta_since sender (version_vector receiver)"

fun net_step :: "'c text_net \<Rightarrow> 'c net_op \<Rightarrow> 'c text_net" where
  "net_step N (NetType i ix ch) =
     (case text_insert (net_rep N i) ix [ch] of
        Inl _ \<Rightarrow> N
      | Inr (t, k) \<Rightarrow> N\<lparr>net_rep := (net_rep N)(i := t),
          net_word := (net_word N)(k := (ch, fst (snd (index_to_origin (net_rep N i) ix)))),
          net_typed := insert k (net_typed N)\<rparr>)"
| "net_step N (NetErase i ix) =
     (case text_delete (net_rep N i) ix of
        (t, None) \<Rightarrow> N\<lparr>net_rep := (net_rep N)(i := t)\<rparr>
      | (t, Some d) \<Rightarrow> N\<lparr>net_rep := (net_rep N)(i := t),
          net_erased := (net_erased N)(d \<mapsto> te_id (snd (visible (net_rep N i)) ! nat ix))\<rparr>)"
| "net_step N (NetDelta i j) =
     N\<lparr>net_rep := (net_rep N)(i := fst (apply_delta (net_rep N i) (delta_for (net_rep N j) (net_rep N i))))\<rparr>"
| "net_step N (NetMerge i j) =
     N\<lparr>net_rep := (net_rep N)(i := fst (text_merge (net_rep N i) (net_rep N j)))\<rparr>"
| "net_step N (NetRead i) = N\<lparr>net_rep := (net_rep N)(i := fst (text_of (net_rep N i)))\<rparr>"

definition net_run :: "'c \<times> op_id option \<Rightarrow> 'c net_op list \<Rightarrow> 'c text_net" where
  "net_run z ops = foldl net_step (net_new z) ops"

definition tomb_le :: "tomb \<Rightarrow> tomb \<Rightarrow> bool" where
  "tomb_le a b \<longleftrightarrow> join_tomb b a = b"

lemma tomb_le_join: "tomb_le a b \<Longrightarrow> tomb_le a (join_tomb b c)" "tomb_le a c \<Longrightarrow> tomb_le a (join_tomb b c)"
  unfolding tomb_le_def by (metis join_tomb_laws(1,2))+

text \<open>A replica that has seen \<open>s\<close> has the effect of the operation \<open>x\<close>.\<close>

definition has_op :: "'c text_net \<Rightarrow> (op_id \<Rightarrow> tomb) \<Rightarrow> op_id \<Rightarrow> bool" where
  "has_op N s x \<longleftrightarrow> (x \<in> net_typed N \<longrightarrow> tomb_le (Some None) (s x)) \<and>
     (\<forall>k. net_erased N x = Some k \<longrightarrow> tomb_le (Some (Some x)) (s k))"

definition seen_ops :: "(op_id \<Rightarrow> tomb) \<Rightarrow> op_id set" where
  "seen_ops s = {k. s k \<noteq> None} \<union> {d. \<exists>k. s k = Some (Some d)}"

text \<open>Knowing an operation of a peer is having the effect of all its earlier ones.\<close>

definition replica_ok :: "'c text_net \<Rightarrow> (op_id \<Rightarrow> tomb) \<Rightarrow> bool" where
  "replica_ok N s \<longleftrightarrow>
     (\<forall>k. s k \<noteq> None \<longrightarrow> k \<in> net_typed N) \<and> (\<forall>k d. s k = Some (Some d) \<longrightarrow> net_erased N d = Some k) \<and>
     (\<forall>x y. y \<in> seen_ops s \<longrightarrow> op_peer x = op_peer y \<longrightarrow> op_counter x \<le> op_counter y \<longrightarrow> has_op N s x)"

definition net_ok :: "'c text_net \<Rightarrow> bool" where
  "net_ok N \<longleftrightarrow>
     (\<forall>i. tx_peer (net_rep N i) = i \<and> 0 \<le> tx_counter (net_rep N i) \<and> text_ok (net_word N) (net_rep N i) \<and>
          replica_ok N (text_seen (net_rep N i)) \<and>
          (\<forall>k. text_seen (net_rep N i) k \<noteq> None \<longrightarrow> op_counter k \<le> tx_counter (net_rep N i)) \<and>
          (\<forall>x. op_peer x = i \<longrightarrow> has_op N (text_seen (net_rep N i)) x)) \<and>
     (\<forall>x. x \<in> net_typed N \<union> dom (net_erased N) \<longrightarrow> 1 \<le> op_counter x \<and> op_counter x \<le> tx_counter (net_rep N (op_peer x)))"

end
