(* ===== verification/TextNet.thy ===== *)
theory TextNet
  imports TextSync
begin

text \<open>
  The invariant of the network of text replicas of theory TextSync, and its two consequences:
  a delta is as good as the whole state, and equal version vectors mean equal texts.
\<close>

section \<open>Deltas\<close>

lemma has_op_mono: "has_op N s x \<Longrightarrow> (\<And>k. tomb_le (s k) (s' k)) \<Longrightarrow> has_op N s' x"
  unfolding has_op_def by (metis tomb_le_def tomb_le_join(1) join_tomb_laws(1))

lemma tomb_le_cases:
  "tomb_le (Some None) b \<longleftrightarrow> b \<noteq> None" "tomb_le (Some (Some d)) b \<longleftrightarrow> (\<exists>d'\<le>d. b = Some (Some d'))"
  by (auto simp: tomb_le_def join_tomb_def min_def split: option.splits if_splits)

lemma known_ops_seen: "known_ops t = seen_ops (text_seen t)"
  by (simp add: known_ops_def seen_ops_def)

lemma seen_ops_issued: "replica_ok N s \<Longrightarrow> y \<in> seen_ops s \<Longrightarrow> y \<in> net_typed N \<union> dom (net_erased N)"
  by (auto simp: replica_ok_def seen_ops_def)

lemma net_ok_issued: "net_ok N \<Longrightarrow> x \<in> net_typed N \<union> dom (net_erased N) \<Longrightarrow>
    1 \<le> op_counter x \<and> op_counter x \<le> tx_counter (net_rep N (op_peer x))"
  unfolding net_ok_def by blast

lemma below_frontier:
  assumes N: "net_ok N" and x: "x \<in> net_typed N \<union> dom (net_erased N)"
    and le: "op_counter x \<le> vv_of (net_rep N i) (op_peer x)"
  shows "has_op N (text_seen (net_rep N i)) x"
proof -
  have ok: "elements_ok (net_word N) (tx_by_id (net_rep N i))" using N by (simp add: net_ok_def text_ok_def)
  have "1 \<le> op_counter x" using N x by (auto simp: net_ok_def)
  then obtain y where "y \<in> known_ops (net_rep N i)" "op_peer y = op_peer x" "op_counter y = vv_of (net_rep N i) (op_peer x)"
    using vv_bounds(2) [OF ok, of "op_peer x"] le by auto
  then show ?thesis using N le by (simp add: net_ok_def replica_ok_def known_ops_seen)
qed

lemma merge_element_noop:
  assumes "elements_ok w (tx_by_id t)" and "element_ok w e" and "tomb_le (Some (te_delete_id e)) (text_seen t (te_id e))"
  shows "merge_element t e = (t, False)"
proof -
  have "text_seen (fst (merge_element t e)) = text_seen t"
    using merge_element_spec [OF assms(1,2)] assms(3) by (simp add: tomb_le_def fun_upd_idem)
  then show ?thesis using merge_element_flag [OF assms(1,2)] by blast
qed

lemma delta_is_merge:
  assumes N: "net_ok N"
  shows "apply_delta (net_rep N i) (delta_for (net_rep N j) (net_rep N i)) = text_merge (net_rep N i) (net_rep N j)"
proof -
  let ?t = "net_rep N i" and ?u = "net_rep N j"
  have ok: "elements_ok (net_word N) (tx_by_id ?t)" "elements_ok (net_word N) (tx_by_id ?u)"
    and r: "replica_ok N (text_seen ?u)"
    using N by (auto simp: net_ok_def text_ok_def)
  have noop: "merge_element ?t e = (?t, False)"
    if "e \<in> set (map snd (tx_by_id ?u))" and keep: "\<not> (unknown_to (version_vector ?t) (te_id e) \<or>
        (te_deleted e \<and> (case te_delete_id e of None \<Rightarrow> False | Some d \<Rightarrow> unknown_to (version_vector ?t) d)))" for e
  proof -
    from that(1) obtain k where "(k, e) \<in> set (tx_by_id ?u)" by auto
    then have k: "k = te_id e" "map_of (tx_by_id ?u) k = Some e" "element_ok (net_word N) e"
      using ok(2) by (auto simp: elements_ok_def keyed_def)
    have s: "text_seen ?u (te_id e) = Some (te_delete_id e)" using k by (simp add: text_seen_def seen_in_def)
    have "tomb_le (Some (te_delete_id e)) (text_seen ?t (te_id e))"
    proof (cases "te_delete_id e")
      case None
      have "te_id e \<in> net_typed N" using r s by (auto simp: replica_ok_def)
      then have "has_op N (text_seen ?t) (te_id e)"
        using keep by (intro below_frontier [OF N]) (auto simp: unknown_frontier)
      then show ?thesis using None \<open>te_id e \<in> net_typed N\<close> by (simp add: has_op_def)
    next
      case (Some d)
      have "net_erased N d = Some (te_id e)" using r s Some by (simp add: replica_ok_def)
      moreover have "op_counter d \<le> vv_of ?t (op_peer d)"
        using keep Some k(3) by (simp add: unknown_frontier element_ok_def)
      ultimately have "has_op N (text_seen ?t) d" by (intro below_frontier [OF N]) auto
      then show ?thesis using \<open>net_erased N d = Some (te_id e)\<close> Some by (simp add: has_op_def)
    qed
    then show ?thesis by (rule merge_element_noop [OF ok(1) k(3)])
  qed
  have "merge_elements ?t (delta_for ?u ?t) = merge_elements ?t (map snd (tx_by_id ?u))"
    unfolding delta_for_def delta_since_def
    by (rule merge_elements_skip [OF ok(1)]) (use list_of_dict [OF ok(2)] noop in auto)
  then show ?thesis by (simp add: text_merge_delta apply_delta_def)
qed

lemma same_frontier_same_seen:
  assumes N: "net_ok N" and eq: "vv_of (net_rep N i) = vv_of (net_rep N j)"
  shows "text_seen (net_rep N i) = text_seen (net_rep N j)"
proof -
  have half: "text_seen (net_rep N b) k \<noteq> None \<and>
      (\<forall>d. text_seen (net_rep N a) k = Some (Some d) \<longrightarrow> (\<exists>d'\<le>d. text_seen (net_rep N b) k = Some (Some d')))"
    if eq: "vv_of (net_rep N a) = vv_of (net_rep N b)" and k: "text_seen (net_rep N a) k \<noteq> None" for a b k
  proof -
    have ok: "elements_ok (net_word N) (tx_by_id (net_rep N a))" and r: "replica_ok N (text_seen (net_rep N a))"
      using N by (auto simp: net_ok_def text_ok_def)
    have reach: "has_op N (text_seen (net_rep N b)) x" if "x \<in> seen_ops (text_seen (net_rep N a))" for x
      using vv_bounds(1) [OF ok, of x] that seen_ops_issued [OF r that] eq
      by (intro below_frontier [OF N]) (simp_all add: known_ops_seen)
    have "k \<in> seen_ops (text_seen (net_rep N a))" "k \<in> net_typed N"
      using k r by (auto simp: seen_ops_def replica_ok_def)
    then have "text_seen (net_rep N b) k \<noteq> None" using reach by (simp add: has_op_def tomb_le_cases)
    moreover have "\<exists>d'\<le>d. text_seen (net_rep N b) k = Some (Some d')"
      if d: "text_seen (net_rep N a) k = Some (Some d)" for d
    proof -
      have "d \<in> seen_ops (text_seen (net_rep N a))" "net_erased N d = Some k"
        using d r by (auto simp: seen_ops_def replica_ok_def)
      then show ?thesis using reach by (simp add: has_op_def tomb_le_cases)
    qed
    ultimately show ?thesis by blast
  qed
  have anti: "a = b" if "a \<noteq> None \<Longrightarrow> b \<noteq> None \<and> (\<forall>d. a = Some (Some d) \<longrightarrow> (\<exists>d'\<le>d. b = Some (Some d')))"
    "b \<noteq> None \<Longrightarrow> a \<noteq> None \<and> (\<forall>d. b = Some (Some d) \<longrightarrow> (\<exists>d'\<le>d. a = Some (Some d')))" for a b :: tomb
  proof (cases a)
    case (Some x)
    then show ?thesis using that by (cases b; cases x) auto
  next
    case None
    then show ?thesis using that by (cases b) auto
  qed
  show ?thesis by (rule ext, rule anti) (simp_all add: half [OF eq] half [OF eq [symmetric]])
qed

section \<open>The invariant\<close>

lemma has_op_rep [simp]: "has_op (N\<lparr>net_rep := r\<rparr>) = has_op N" "replica_ok (N\<lparr>net_rep := r\<rparr>) = replica_ok N"
  by (auto simp: has_op_def replica_ok_def fun_eq_iff)

lemma net_ok_put:
  assumes N: "net_ok N" and t: "tx_peer t = i" "text_ok (net_word N) t" "replica_ok N (text_seen t)"
    and c: "\<And>k. text_seen t k \<noteq> None \<Longrightarrow> op_counter k \<le> tx_counter t" "tx_counter (net_rep N i) \<le> tx_counter t"
    and le: "\<And>k. tomb_le (text_seen (net_rep N i) k) (text_seen t k)"
  shows "net_ok (N\<lparr>net_rep := (net_rep N)(i := t)\<rparr>)"
proof -
  have "has_op N (text_seen t) x" if "op_peer x = i" for x
  proof (rule has_op_mono [OF _ le])
    show "has_op N (text_seen (net_rep N i)) x" using N that by (auto simp: net_ok_def)
  qed
  moreover have "op_counter x \<le> tx_counter t" if "x \<in> net_typed N \<union> dom (net_erased N)" "op_peer x = i" for x
    using N that c(2) by (fastforce simp: net_ok_def)
  moreover have "0 \<le> tx_counter t" using N c(2) order_trans unfolding net_ok_def by blast
  ultimately show ?thesis using N t c unfolding net_ok_def by simp
qed

lemma foldl_max_bounds: "(m :: int) \<le> foldl max m xs \<and> (\<forall>x\<in>set xs. x \<le> foldl max m xs)"
proof (induction xs arbitrary: m)
  case (Cons x xs)
  show ?case using Cons.IH [of "max m x"] by auto
qed simp

lemma advance_bounds:
  "tx_counter t \<le> tx_counter (advance_counter t)"
  "text_seen t k \<noteq> None \<Longrightarrow> op_counter k \<le> tx_counter (advance_counter t)"
proof -
  note b = foldl_max_bounds [of "tx_counter t" "map (\<lambda>x. op_counter (fst x)) (tx_by_id t)"]
  show "tx_counter t \<le> tx_counter (advance_counter t)" using b by (simp add: advance_max)
  assume "text_seen t k \<noteq> None"
  then have "k \<in> fst ` set (tx_by_id t)" by (simp add: text_seen_def seen_in_def map_of_eq_None_iff)
  then have "op_counter k \<in> set (map (\<lambda>x. op_counter (fst x)) (tx_by_id t))" by force
  then show "op_counter k \<le> tx_counter (advance_counter t)" using b unfolding advance_max by blast
qed

lemma net_ok_merge:
  assumes N: "net_ok N"
  shows "net_ok (N\<lparr>net_rep := (net_rep N)(i := fst (text_merge (net_rep N i) (net_rep N j)))\<rparr>)"
proof (rule net_ok_put [OF N])
  let ?a = "net_rep N i" and ?b = "net_rep N j"
  let ?t = "fst (text_merge ?a ?b)"
  have ok: "text_ok (net_word N) ?a" "text_ok (net_word N) ?b" and p: "tx_peer ?a = i"
    and r: "replica_ok N (text_seen ?a)" "replica_ok N (text_seen ?b)"
    using N by (auto simp: net_ok_def)
  note m = text_merge_ok [OF ok]
  show "text_ok (net_word N) ?t" using m by blast
  have el: "elements_ok (net_word N) (tx_by_id ?a)" "elements_ok (net_word N) (tx_by_id ?b)"
    using ok by (auto simp: text_ok_def)
  define t1 where "t1 = fst (merge_elements ?a (map snd (tx_by_id ?b)))"
  have "tx_counter t1 = tx_counter ?a" "tx_peer t1 = tx_peer ?a"
    unfolding t1_def using merge_elements_spec [OF el(1), of "map snd (tx_by_id ?b)"] list_of_dict [OF el(2)] by blast+
  then have t1: "tx_counter ?t = tx_counter (advance_counter t1)" "text_seen ?t = text_seen t1"
    "tx_counter t1 = tx_counter ?a" "tx_peer ?t = tx_peer ?a"
    by (simp_all add: text_merge_def split_beta Let_def text_seen_def t1_def)
  show "tx_peer ?t = i" using t1 p by simp
  show "tx_counter ?a \<le> tx_counter ?t" using advance_bounds(1) [of t1] t1 by simp
  show "op_counter k \<le> tx_counter ?t" if "text_seen ?t k \<noteq> None" for k
    using advance_bounds(2) [of t1 k] t1 that by simp
  show le: "tomb_le (text_seen ?a k) (text_seen ?t k)" for k
    using m by (auto simp: tomb_le_def) (metis join_tomb_laws(1,2,3))
  have le': "tomb_le (text_seen ?b k) (text_seen ?t k)" for k
    using m by (auto simp: tomb_le_def) (metis join_tomb_laws(1,2,3))
  have split: "text_seen ?t k = v \<Longrightarrow> text_seen ?a k = v \<or> text_seen ?b k = v" for k v
    using m by (auto simp: join_tomb_def min_def split: option.splits)
  have ops: "seen_ops (text_seen ?t) \<subseteq> seen_ops (text_seen ?a) \<union> seen_ops (text_seen ?b)"
  proof
    fix y assume "y \<in> seen_ops (text_seen ?t)"
    then consider "text_seen ?t y \<noteq> None" | k where "text_seen ?t k = Some (Some y)" by (auto simp: seen_ops_def)
    then show "y \<in> seen_ops (text_seen ?a) \<union> seen_ops (text_seen ?b)"
    proof cases
      case 1
      then show ?thesis using split [of y "text_seen ?t y"] by (auto simp: seen_ops_def)
    next
      case 2
      then show ?thesis using split [of k "Some (Some y)"] by (auto simp: seen_ops_def)
    qed
  qed
  show "replica_ok N (text_seen ?t)"
    unfolding replica_ok_def
  proof (intro conjI allI impI)
    fix k assume "text_seen ?t k \<noteq> None"
    then show "k \<in> net_typed N" using split [of k "text_seen ?t k"] r by (auto simp: replica_ok_def)
  next
    fix k d assume "text_seen ?t k = Some (Some d)"
    then show "net_erased N d = Some k" using split [of k "Some (Some d)"] r unfolding replica_ok_def by blast
  next
    fix x y assume "y \<in> seen_ops (text_seen ?t)" "op_peer x = op_peer y" "op_counter x \<le> op_counter y"
    then have "has_op N (text_seen ?a) x \<or> has_op N (text_seen ?b) x" using ops r by (auto simp: replica_ok_def)
    then show "has_op N (text_seen ?t) x" using has_op_mono le le' by blast
  qed
qed

lemma net_ok_read: "net_ok N \<Longrightarrow> net_ok (N\<lparr>net_rep := (net_rep N)(i := fst (text_of (net_rep N i)))\<rparr>)"
proof -
  assume N: "net_ok N"
  have ok: "text_ok (net_word N) (net_rep N i)" using N by (simp add: net_ok_def)
  obtain t' es where v: "visible (net_rep N i) = (t', es)" "tx_by_id t' = tx_by_id (net_rep N i)"
    "tx_counter t' = tx_counter (net_rep N i)" "tx_peer t' = tx_peer (net_rep N i)" "text_ok (net_word N) t'"
    using visible_spec [OF ok] by blast
  have "text_seen t' = text_seen (net_rep N i)" by (simp add: text_seen_def v(2))
  then show ?thesis using N v
    by (intro net_ok_put [OF N]) (auto simp: text_of_def net_ok_def tomb_le_def join_tomb_laws(3))
qed

text \<open>A fresh id of peer \<open>i\<close> is beyond what the others know of \<open>i\<close>.\<close>

lemma beyond:
  assumes N: "net_ok N" and y: "y \<in> seen_ops (text_seen (net_rep N j))" and p: "op_peer y = i"
  shows "op_counter y \<le> tx_counter (net_rep N i)"
proof -
  have "y \<in> net_typed N \<union> dom (net_erased N)" by (rule seen_ops_issued [OF _ y]) (use N in \<open>simp add: net_ok_def\<close>)
  then show ?thesis using net_ok_issued [OF N] p by blast
qed

lemma fresh_op:
  assumes N: "net_ok N"
  shows "OpId (tx_counter (net_rep N i) + 1) i \<notin> net_typed N" "net_erased N (OpId (tx_counter (net_rep N i) + 1) i) = None"
proof -
  from net_ok_issued [OF N, of "OpId (tx_counter (net_rep N i) + 1) i"]
  show "OpId (tx_counter (net_rep N i) + 1) i \<notin> net_typed N" "net_erased N (OpId (tx_counter (net_rep N i) + 1) i) = None"
    by (cases "net_erased N (OpId (tx_counter (net_rep N i) + 1) i)", auto)
qed

text \<open>An operation \<open>k\<close> that peer \<open>i\<close> issues, with its new replica \<open>t\<close>.\<close>

lemma net_ok_issue:
  assumes N: "net_ok N" and k: "k = OpId (tx_counter (net_rep N i) + 1) i"
    and rep: "net_rep M = (net_rep N)(i := t)"
    and hist: "\<And>x. x \<noteq> k \<Longrightarrow> (x \<in> net_typed M \<longleftrightarrow> x \<in> net_typed N) \<and> net_erased M x = net_erased N x"
      "net_typed N \<subseteq> net_typed M"
    and words: "\<And>j. text_ok (net_word M) (net_rep M j)"
    and t: "tx_counter t = tx_counter (net_rep N i) + 1" "tx_peer t = i"
    and grow: "\<And>q. tomb_le (text_seen (net_rep N i) q) (text_seen t q)" and new: "has_op M (text_seen t) k"
    and ops: "seen_ops (text_seen t) \<subseteq> insert k (seen_ops (text_seen (net_rep N i)))"
    and keys: "\<And>q. text_seen t q \<noteq> None \<Longrightarrow> q = k \<or> text_seen (net_rep N i) q \<noteq> None"
    and typed: "\<And>q. text_seen t q \<noteq> None \<Longrightarrow> q \<in> net_typed M"
    and erased: "\<And>q d. text_seen t q = Some (Some d) \<Longrightarrow> net_erased M d = Some q"
  shows "net_ok M"
proof -
  have repN: "replica_ok N (text_seen (net_rep N j))" for j using N by (simp add: net_ok_def)
  have old: "has_op M s x = has_op N s x" if "x \<noteq> k" for s x using hist(1) [OF that] by (simp add: has_op_def)
  have mono: "has_op M (text_seen t) x" if "has_op N (text_seen (net_rep N i)) x" for x
    using new old has_op_mono [OF that grow] by metis
  have own: "has_op N (text_seen (net_rep N j)) x" if "op_peer x = j" for j x
    using N that by (simp add: net_ok_def)
  have ri: "has_op M (text_seen t) x"
    if "y \<in> seen_ops (text_seen t)" "op_peer x = op_peer y" "op_counter x \<le> op_counter y" for x y
  proof (cases "y = k")
    case True
    then show ?thesis using own [of x i] that(2) by (intro mono) (simp add: k)
  next
    case False
    then show ?thesis using that ops repN [of i] mono unfolding replica_ok_def by blast
  qed
  have rj: "replica_ok M (text_seen (net_rep N j))" for j
  proof -
    have "has_op M (text_seen (net_rep N j)) x"
      if y: "y \<in> seen_ops (text_seen (net_rep N j))" "op_peer x = op_peer y" "op_counter x \<le> op_counter y" for x y
    proof -
      have "x \<noteq> k" using beyond [OF N y(1), of i] y by (auto simp: k)
      moreover have "has_op N (text_seen (net_rep N j)) x" using repN [of j] y unfolding replica_ok_def by blast
      ultimately show ?thesis by (simp add: old)
    qed
    moreover have "net_erased M d = Some q" if "text_seen (net_rep N j) q = Some (Some d)" for q d
      using that repN [of j] hist(1) [of d] fresh_op(2) [OF N, of i] by (cases "d = k") (auto simp: replica_ok_def k)
    ultimately show ?thesis using repN [of j] hist(2) unfolding replica_ok_def by blast
  qed
  have cnt: "1 \<le> op_counter x \<and> op_counter x \<le> tx_counter (net_rep M (op_peer x))"
    if "x \<in> net_typed M \<union> dom (net_erased M)" for x
  proof (cases "x = k")
    case True
    then show ?thesis using N by (simp add: k t rep net_ok_def)
  next
    case False
    then have "1 \<le> op_counter x \<and> op_counter x \<le> tx_counter (net_rep N (op_peer x))"
      using net_ok_issued [OF N, of x] hist(1) [OF False] that by (simp add: dom_def)
    then show ?thesis using t(1) by (cases "op_peer x = i") (simp_all add: rep)
  qed
  have below: "op_counter q \<le> tx_counter t" if "text_seen t q \<noteq> None" for q
  proof (cases "q = k")
    case False
    then have "op_counter q \<le> tx_counter (net_rep N i)" using N keys [OF that] by (simp add: net_ok_def)
    then show ?thesis by (simp add: t)
  qed (simp add: k t)
  have "has_op M (text_seen (net_rep M j)) x" if x: "op_peer x = j" for j x
  proof (cases "j = i")
    case True
    then show ?thesis using mono [OF own [OF x, unfolded True]] by (simp add: rep)
  next
    case False
    then have "x \<noteq> k" using x by (auto simp: k)
    then show ?thesis using own [OF x] False by (simp add: rep old)
  qed
  moreover have "replica_ok M (text_seen (net_rep M j))" for j
    using rj [of j] ri typed erased by (simp add: rep replica_ok_def)
  moreover have "\<forall>j. tx_peer (net_rep M j) = j \<and> 0 \<le> tx_counter (net_rep M j)"
    using N t by (simp add: rep net_ok_def)
  moreover have "op_counter q \<le> tx_counter (net_rep M j)" if "text_seen (net_rep M j) q \<noteq> None" for j q
    using that below [of q] N by (cases "j = i") (auto simp: rep net_ok_def)
  ultimately show ?thesis using words cnt unfolding net_ok_def by blast
qed

lemma net_ok_typing: "net_ok N \<Longrightarrow> net_ok (net_step N (NetType i ix ch))"
proof -
  assume N: "net_ok N"
  let ?t = "net_rep N i" and ?k = "OpId (tx_counter (net_rep N i) + 1) i"
  have ok: "text_ok (net_word N) ?t" and p: "tx_peer ?t = i" and r: "replica_ok N (text_seen (net_rep N j))" for j
    using N by (auto simp: net_ok_def)
  have bound: "text_seen ?t k \<noteq> None \<Longrightarrow> op_counter k \<le> tx_counter ?t" for k using N by (simp add: net_ok_def)
  obtain t q where s: "text_insert ?t ix [ch] = Inr (t, ?k)" "fst (snd (index_to_origin ?t ix)) = q"
    "text_ok ((net_word N)(?k := (ch, q))) t" "text_seen t = (text_seen ?t)(?k := Some None)"
    "tx_counter t = tx_counter ?t + 1" "tx_peer t = i"
    using text_insert_spec [OF ok bound, of ix ch] p by auto
  have none: "text_seen (net_rep N j) ?k = None" for j
    using r [of j] fresh_op(1) [OF N, of i] unfolding replica_ok_def by blast
  have wj: "text_ok ((net_word N)(?k := (ch, q))) (net_rep N j)" for j
  proof (rule text_ok_mono)
    show "text_ok (net_word N) (net_rep N j)" using N by (simp add: net_ok_def)
    show "((net_word N)(?k := (ch, q))) x = net_word N x" if "text_seen (net_rep N j) x \<noteq> None" for x
      using none [of j] that by (cases "x = ?k") simp_all
  qed
  note old = r [of i, unfolded replica_ok_def]
  let ?M = "net_step N (NetType i ix ch)"
  have M: "net_rep ?M = (net_rep N)(i := t)" "net_word ?M = (net_word N)(?k := (ch, q))"
    "net_typed ?M = insert ?k (net_typed N)" "net_erased ?M = net_erased N"
    by (simp_all add: s(1,2))
  have eff: "has_op ?M (text_seen t) ?k"
    unfolding has_op_def M using fresh_op(2) [OF N, of i] by (simp add: s(4) tomb_le_cases)
  show ?thesis
  proof (rule net_ok_issue [OF N refl M(1)])
    show "text_ok (net_word ?M) (net_rep ?M j)" for j unfolding M using s(3) wj by simp
    show "tomb_le (text_seen ?t x) (text_seen t x)" for x
      using none [of i] by (auto simp: s(4) tomb_le_def join_tomb_laws)
    show "seen_ops (text_seen t) \<subseteq> insert ?k (seen_ops (text_seen ?t))"
      by (auto simp: s(4) seen_ops_def split: if_splits)
    show "x \<in> net_typed ?M" if "text_seen t x \<noteq> None" for x
      unfolding M using that old by (auto simp: s(4) split: if_splits)
    show "net_erased ?M d = Some x" if "text_seen t x = Some (Some d)" for x d
      unfolding M using that old by (auto simp: s(4) split: if_splits)
  qed (use s(4-6) eff in \<open>auto simp only: M fun_upd_apply split: if_splits\<close>)
qed

lemma net_ok_erasing: "net_ok N \<Longrightarrow> net_ok (net_step N (NetErase i ix))"
proof -
  assume N: "net_ok N"
  let ?t = "net_rep N i" and ?d = "OpId (tx_counter (net_rep N i) + 1) i"
  have ok: "text_ok (net_word N) ?t" and p: "tx_peer ?t = i" and r: "replica_ok N (text_seen (net_rep N i))"
    and words: "text_ok (net_word N) (net_rep N j)" for j
    using N by (auto simp: net_ok_def)
  from text_delete_spec [OF ok, of ix] consider
      t where "text_delete ?t ix = (t, None)" "text_ok (net_word N) t" "text_seen t = text_seen ?t"
        "tx_counter t = tx_counter ?t" "tx_peer t = i"
    | t k where "text_delete ?t ix = (t, Some ?d)" "text_seen ?t k = Some None" "te_id (snd (visible ?t) ! nat ix) = k"
        "text_ok (net_word N) t" "text_seen t = (text_seen ?t)(k := Some (Some ?d))"
        "tx_counter t = tx_counter ?t + 1" "tx_peer t = i"
    using p by auto
  then show ?thesis
  proof cases
    case 1
    then show ?thesis using N r
      by (auto intro!: net_ok_put [OF N] simp: net_ok_def tomb_le_def join_tomb_laws)
  next
    case (2 t k)
    note old = r [unfolded replica_ok_def]
    have ops: "seen_ops (text_seen t) \<subseteq> insert ?d (seen_ops (text_seen ?t))"
      using 2(2,5) by (auto simp: seen_ops_def split: if_splits)
    have grow: "tomb_le (text_seen ?t q) (text_seen t q)" for q
    proof (cases "q = k")
      case False
      then show ?thesis by (simp add: 2(5) tomb_le_def join_tomb_laws)
    qed (simp add: 2(2,5) tomb_le_def join_tomb_def)
    let ?M = "net_step N (NetErase i ix)"
    have M: "net_rep ?M = (net_rep N)(i := t)" "net_word ?M = net_word N" "net_typed ?M = net_typed N"
      "net_erased ?M = (net_erased N)(?d \<mapsto> k)"
      by (simp_all add: 2(1,3))
    have eff: "has_op ?M (text_seen t) ?d"
      unfolding has_op_def M using fresh_op(1) [OF N, of i] by (simp add: 2(5) tomb_le_cases)
    show ?thesis
    proof (rule net_ok_issue [OF N refl M(1)])
      show "text_ok (net_word ?M) (net_rep ?M j)" for j unfolding M using 2(4) words by simp
      show "x \<in> net_typed ?M" if "text_seen t x \<noteq> None" for x
        unfolding M using that old 2(2) by (cases "x = k") (auto simp: 2(5))
      show "net_erased ?M d = Some x" if "text_seen t x = Some (Some d)" for x d
      proof (cases "x = k")
        case False
        then have "net_erased N d = Some x" using that old by (simp add: 2(5))
        then show ?thesis unfolding M using fresh_op(2) [OF N, of i] by auto
      next
        case True
        then show ?thesis unfolding M using that by (simp add: 2(5))
      qed
    qed (use 2 ops grow eff in \<open>auto simp only: M fun_upd_apply split: if_splits\<close>)
  qed
qed

lemma net_ok_step: "net_ok N \<Longrightarrow> net_ok (net_step N a)"
  by (cases a) (simp_all only: net_ok_typing net_ok_erasing, simp_all add: delta_is_merge net_ok_merge net_ok_read)

lemma net_ok_run: "net_ok (net_run z ops)"
proof -
  have "net_ok (net_new z)"
    by (auto simp: net_ok_def net_new_def text_new_def text_ok_def elements_ok_def keyed_def rooted_def cache_ok_def
        replica_ok_def text_seen_def seen_in_def seen_ops_def has_op_def)
  moreover have "net_ok N \<Longrightarrow> net_ok (foldl net_step N ops)" for N
    by (induction ops arbitrary: N) (simp_all add: net_ok_step)
  ultimately show ?thesis by (simp add: net_run_def)
qed

end
