(* ===== verification/TextEdit.thy ===== *)
theory TextEdit
  imports TextSync
begin

text \<open>
  Local edits of a text replica as edits of a list of characters: an insertion lands at its
  index, an erasure removes the character at its index, and collecting stable tombstones
  leaves the text alone.
\<close>

section \<open>Fuel\<close>

lemma visit_fuel:
  assumes k: "keyed d" and r: "rooted d"
  shows "card (later d p) \<le> n \<Longrightarrow> card (later d p) \<le> m \<Longrightarrow> visit n d p = visit m d p"
proof (induction n arbitrary: m p)
  case 0
  then show ?case using visit_spec [OF k r, of p 0] visit_spec [OF k r, of p m] by simp
next
  case (Suc n)
  show ?case
  proof (cases m)
    case 0
    then show ?thesis using Suc.prems visit_spec [OF k r, of p 0] visit_spec [OF k r, of p "Suc n"]
      by (metis list.set_sel(1) empty_iff set_empty visit.simps(1))
  next
    case (Suc m')
    have "visit n d (Some c) = visit m' d (Some c)" if c: "c \<in> set (siblings d p)" for c
    proof -
      obtain e where "(c, e) \<in> set d" "te_origin e = p" using c by (auto simp: siblings_mem [OF k])
      then show ?thesis using later_child [OF r, of c e p] Suc.prems Suc by (intro Suc.IH) simp_all
    qed
    then show ?thesis using Suc by (simp cong: map_cong)
  qed
qed

lemma later_bound: "card (later d p) \<le> length d"
proof -
  have "card (later d p) \<le> card (fst ` set d)"
    by (intro card_mono) (auto simp: later_def split: option.split)
  also have "\<dots> \<le> length d" by (metis card_length length_map set_map)
  finally show ?thesis .
qed

lemma ordered_ids_fuel: "keyed d \<Longrightarrow> rooted d \<Longrightarrow> length d \<le> n \<Longrightarrow> visit n d None = ordered_ids d"
  unfolding ordered_ids_def using later_bound [of d None] by (intro visit_fuel) auto

section \<open>An insertion in the order\<close>

text \<open>The id \<open>i\<close> placed right after the origin \<open>p\<close>.\<close>

definition place_after :: "op_id option \<Rightarrow> op_id \<Rightarrow> op_id list \<Rightarrow> op_id list" where
  "place_after p i xs = concat (map (\<lambda>x. if Some x = p then [x, i] else [x]) xs)"

lemma place_after_simps [simp]:
  "place_after p i [] = []"
  "place_after p i (x # xs) = (if Some x = p then [x, i] else [x]) @ place_after p i xs"
  "place_after p i (xs @ ys) = place_after p i xs @ place_after p i ys"
  by (simp_all add: place_after_def)

lemma place_after_none: "p \<notin> Some ` set xs \<Longrightarrow> place_after p i xs = xs"
  by (induction xs) auto

lemma place_after_concat: "place_after p i (concat xss) = concat (map (place_after p i) xss)"
  by (induction xss) simp_all

lemma siblings_new:
  assumes "keyed d" and "te_id e = i" and "\<And>j. j \<in> fst ` set d \<Longrightarrow> j < i"
  shows "siblings (d @ [(i, e)]) q = (if q = te_origin e then [i] else []) @ siblings d q"
proof -
  let ?is = "map te_id (filter (\<lambda>f. te_origin f = q) (map snd d))"
  have le: "\<forall>j\<in>set ?is. j < i" using assms(1,3) by (force simp: keyed_def)
  have "insort i xs = xs @ [i]" if "\<forall>j\<in>set xs. j < i" for xs
    using that by (induction xs) auto
  then have "sort (i # rev xs) = sort (rev xs) @ [i]" if "\<forall>j\<in>set xs. j < i" for xs
    using that by simp
  then show ?thesis using le assms(2) by (simp add: siblings_def)
qed

lemma visit_new:
  assumes k: "keyed d" "te_id e = i" and r: "rooted (d @ [(i, e)])" "rooted d"
    and new: "\<And>j. j \<in> fst ` set d \<Longrightarrow> j < i"
  shows "card (later (d @ [(i, e)]) q) \<le> n \<Longrightarrow>
    visit n (d @ [(i, e)]) q = (if q = te_origin e then [i] else []) @ place_after (te_origin e) i (visit n d q)"
proof (induction n arbitrary: q)
  case 0
  have "q \<noteq> te_origin e"
  proof
    assume "q = te_origin e"
    then have "i \<in> later (d @ [(i, e)]) q" using r(1) by (auto simp: later_def rooted_def split: option.split)
    moreover have "finite (later (d @ [(i, e)]) q)" by (auto simp: later_def split: option.split)
    ultimately show False using 0 by auto
  qed
  then show ?case by simp
next
  case (Suc n)
  have kd: "keyed (d @ [(i, e)])" using k new by (auto simp: keyed_def)
  have leaf: "visit n (d @ [(i, e)]) (Some i) = []"
  proof -
    have none: "later (d @ [(i, e)]) (Some i) = {}" using new by (fastforce simp: later_def)
    have "\<not> under (d @ [(i, e)]) (Some i) x" for x
    proof
      assume u: "under (d @ [(i, e)]) (Some i) x"
      then have "i < x" by (rule under_less [OF r(1)])
      then have "x \<in> later (d @ [(i, e)]) (Some i)" using under_mem [OF u] by (force simp: later_def)
      then show False using none by simp
    qed
    then have "set (visit n (d @ [(i, e)]) (Some i)) = {}"
      using visit_spec [OF kd r(1), of "Some i" n] none by simp
    then show ?thesis by simp
  qed
  have sub: "visit n (d @ [(i, e)]) (Some c) =
      (if Some c = te_origin e then [i] else []) @ place_after (te_origin e) i (visit n d (Some c))"
    if c: "c \<in> set (siblings d q)" for c
  proof -
    obtain f where "(c, f) \<in> set (d @ [(i, e)])" "te_origin f = q" using c by (auto simp: siblings_mem [OF k(1)])
    then show ?thesis using later_child [OF r(1), of c f q] Suc.prems by (intro Suc.IH) simp
  qed
  have "c # visit n (d @ [(i, e)]) (Some c) = place_after (te_origin e) i (c # visit n d (Some c))"
    if "c \<in> set (siblings d q)" for c using sub [OF that] by simp
  then have "concat (map (\<lambda>c. c # visit n (d @ [(i, e)]) (Some c)) (siblings d q)) =
      place_after (te_origin e) i (visit (Suc n) d q)"
    unfolding visit.simps place_after_concat list.map_comp comp_def by (metis (no_types, lifting) map_cong)
  then show ?case by (simp add: siblings_new [OF k new] leaf)
qed

section \<open>The visible elements\<close>

definition shown :: "(op_id \<times> 'c text_element) list \<Rightarrow> 'c text_element list" where
  "shown d = concat (map (\<lambda>x. case map_of d x of None \<Rightarrow> [] | Some e \<Rightarrow> if te_deleted e then [] else [e]) (ordered_ids d))"

lemma shown_visible: "cache_ok t \<Longrightarrow> snd (visible t) = shown (tx_by_id t)"
proof -
  have "filter (\<lambda>e. \<not> te_deleted e) (List.map_filter m xs) =
      concat (map (\<lambda>x. case m x of None \<Rightarrow> [] | Some e \<Rightarrow> if te_deleted e then [] else [e]) xs)" for m xs
    by (induction xs) (auto simp: List.map_filter_def split: option.split)
  then show "cache_ok t \<Longrightarrow> snd (visible t) = shown (tx_by_id t)"
    by (auto simp: shown_def visible_def visible_ordered_def cache_ok_def Let_def split: option.split)
qed

lemma shown_text: "cache_ok t \<Longrightarrow> snd (text_of t) = map te_ch (shown (tx_by_id t))"
  using shown_visible [of t] by (simp add: text_of_def split_beta)

lemma shown_mem: "elements_ok w d \<Longrightarrow> e \<in> set (shown d) \<Longrightarrow> map_of d (te_id e) = Some e \<and> \<not> te_deleted e"
  using element_id [of w d] by (fastforce simp: shown_def split: option.splits if_splits)

lemma distinct_concat_single:
  "distinct xs \<Longrightarrow> (\<And>x. x \<in> set xs \<Longrightarrow> length (f x) \<le> 1) \<Longrightarrow> (\<And>x y. x \<in> set xs \<Longrightarrow> y \<in> set (f x) \<Longrightarrow> g y = x) \<Longrightarrow>
     distinct (concat (map f xs))"
proof (induction xs)
  case (Cons x xs)
  have "distinct (f x)" using Cons.prems(2) [of x] by (cases "f x") auto
  moreover have "set (f x) \<inter> (\<Union>y\<in>set xs. set (f y)) = {}" using Cons.prems(1,3) by (auto simp: disjoint_iff)
  ultimately show ?case using Cons by auto
qed simp

lemma shown_distinct: "elements_ok w d \<Longrightarrow> rooted d \<Longrightarrow> distinct (shown d)"
  unfolding shown_def using element_id [of w d] ordered_ids_perm(2) [of d]
  by (intro distinct_concat_single [where g = te_id]) (auto simp: elements_ok_def split: option.splits if_splits)

text \<open>The list around one visible element.\<close>

lemma shown_split:
  assumes ok: "elements_ok w d" "rooted d" and s: "shown d = L @ e # R"
  obtains A B where "ordered_ids d = A @ te_id e # B" "te_id e \<notin> set A" "te_id e \<notin> set B"
    "L = concat (map (\<lambda>x. case map_of d x of None \<Rightarrow> [] | Some e \<Rightarrow> if te_deleted e then [] else [e]) A)"
    "R = concat (map (\<lambda>x. case map_of d x of None \<Rightarrow> [] | Some e \<Rightarrow> if te_deleted e then [] else [e]) B)"
proof -
  let ?f = "\<lambda>x. case map_of d x of None \<Rightarrow> [] | Some e \<Rightarrow> if te_deleted e then [] else [e]"
  have e: "map_of d (te_id e) = Some e" "\<not> te_deleted e" using shown_mem [OF ok(1), of e] s by auto
  have k: "keyed d" using ok(1) by (simp add: elements_ok_def)
  note perm = ordered_ids_perm [OF k ok(2)]
  have "te_id e \<in> set (ordered_ids d)" using map_of_SomeD [OF e(1)] by (force simp: perm(1))
  then obtain A B where AB: "ordered_ids d = A @ te_id e # B" by (auto dest: split_list)
  have d: "distinct (shown d)" by (rule shown_distinct [OF ok])
  have "shown d = concat (map ?f A) @ e # concat (map ?f B)" by (simp add: shown_def AB e)
  then have "L @ e # R = concat (map ?f A) @ e # concat (map ?f B)" using s by simp
  moreover have "e \<notin> set L" "e \<notin> set R" using d s by auto
  ultimately have "L = concat (map ?f A)" "R = concat (map ?f B)" by (auto simp: append_Cons_eq_iff)
  then show thesis using AB perm(2) that [of A B] by auto
qed

text \<open>A fresh element goes right after its origin.\<close>

lemma shown_insert:
  assumes ok: "elements_ok w d" "rooted d" and new: "\<And>j. j \<in> fst ` set d \<Longrightarrow> j < i"
    and e: "te_id e = i" "\<not> te_deleted e" and s: "shown d = L @ R"
    and org: "te_origin e = (if L = [] then None else Some (te_id (last L)))"
  shows "shown (d @ [(i, e)]) = L @ e # R" "rooted (d @ [(i, e)])"
proof -
  let ?f = "\<lambda>d x. case map_of d x of None \<Rightarrow> [] | Some e \<Rightarrow> if te_deleted e then [] else [e]"
  let ?d = "d @ [(i, e)]"
  have k: "keyed d" using ok(1) by (simp add: elements_ok_def)
  have "last L \<in> set (shown d)" if "L \<noteq> []" using that s by auto
  then have mem: "te_id (last L) \<in> fst ` set d" if "L \<noteq> []"
    using that shown_mem [OF ok(1), of "last L"] by (force dest: map_of_SomeD)
  show r: "rooted ?d" using ok(2) mem new org e(1) by (auto simp: rooted_def split: if_splits)
  have out: "i \<notin> fst ` set d" using new by blast
  have kd: "keyed ?d" using k out e(1) by (auto simp: keyed_def)
  have "card (later ?d None) \<le> length ?d" by (rule later_bound)
  then have "ordered_ids ?d = (if L = [] then [i] else []) @ place_after (te_origin e) i (visit (length ?d) d None)"
    unfolding ordered_ids_def [of ?d] by (subst visit_new [OF k e(1) r ok(2) new]) (auto simp: org)
  also have "visit (length ?d) d None = ordered_ids d" by (intro ordered_ids_fuel [OF k ok(2)]) simp
  finally have ord: "ordered_ids ?d = (if L = [] then [i] else []) @ place_after (te_origin e) i (ordered_ids d)" .
  have m: "map_of ?d x = (if x = i then Some e else map_of d x)" for x
    using out map_of_eq_None_iff [of d i] by (auto simp: map_add_def split: option.split)
  have keep: "concat (map (?f ?d) xs) = concat (map (?f d) xs)" if "i \<notin> set xs" for xs
    using that by (induction xs) (auto simp: map_add_def split: option.split)
  have fe: "?f ?d i = [e]" unfolding m using e(2) by simp
  have i: "i \<notin> set (ordered_ids d)" using out ordered_ids_perm(1) [OF k ok(2)] by simp
  show "shown ?d = L @ e # R"
  proof (cases "L = []")
    case True
    then have "ordered_ids ?d = i # ordered_ids d" using ord org by (simp add: place_after_none)
    then show ?thesis using True s fe keep [OF i] by (simp add: shown_def)
  next
    case False
    then have "shown d = butlast L @ last L # R" using s by simp
    then obtain A B where AB: "ordered_ids d = A @ te_id (last L) # B"
      "te_id (last L) \<notin> set A" "te_id (last L) \<notin> set B"
      "butlast L = concat (map (?f d) A)" "R = concat (map (?f d) B)"
      by (rule shown_split [OF ok])
    have ll: "map_of d (te_id (last L)) = Some (last L)" "\<not> te_deleted (last L)"
      using shown_mem [OF ok(1), of "last L"] False s by auto
    have "place_after (Some (te_id (last L))) i A = A" "place_after (Some (te_id (last L))) i B = B"
      using AB(2,3) by (auto intro!: place_after_none)
    then have "ordered_ids ?d = A @ te_id (last L) # i # B" using ord False AB(1) org by simp
    moreover have "te_id (last L) \<noteq> i" using i AB(1) by auto
    then have "?f ?d (te_id (last L)) = [last L]" unfolding m using ll by simp
    moreover have "i \<notin> set A" "i \<notin> set B" "i \<noteq> te_id (last L)" using i AB(1) by auto
    ultimately have "shown ?d = butlast L @ [last L] @ e # R"
      using fe keep [of A] keep [of B] AB(4,5) by (simp add: shown_def)
    then show ?thesis using False by (metis append_assoc append_butlast_last_id)
  qed
qed

section \<open>Edits of the text\<close>

text \<open>A replica whose counter covers the ids it has seen.\<close>

definition counted :: "'c text_crdt \<Rightarrow> bool" where
  "counted t \<longleftrightarrow> (\<forall>j\<in>fst ` set (tx_by_id t). op_counter j \<le> tx_counter t)"

lemma elements_ok_word: "elements_ok w d \<Longrightarrow> (\<And>k. k \<in> fst ` set d \<Longrightarrow> w' k = w k) \<Longrightarrow> elements_ok w' d"
  by (fastforce simp: elements_ok_def element_ok_def keyed_def)

text \<open>Chained insertions put the whole string after the origin.\<close>

lemma insert_chain_spec:
  assumes "elements_ok w (tx_by_id t)" and "rooted (tx_by_id t)" and "counted t" and "shown (tx_by_id t) = L @ R"
    and "insert_chain t (if L = [] then None else Some (te_id (last L))) s = (t', is)"
  shows "\<exists>w' M. elements_ok w' (tx_by_id t') \<and> rooted (tx_by_id t') \<and> counted t' \<and>
    shown (tx_by_id t') = L @ M @ R \<and> map te_ch M = s \<and> map te_id M = is \<and>
    is = map (\<lambda>k. OpId (tx_counter t + int k + 1) (tx_peer t)) [0..<length s] \<and>
    tx_counter t' = tx_counter t + int (length s) \<and> tx_peer t' = tx_peer t"
  using assms
proof (induction s arbitrary: t L "is" w)
  case Nil
  then show ?case by auto
next
  case (Cons ch s)
  let ?i = "OpId (tx_counter t + 1) (tx_peer t)" and ?o = "if L = [] then None else Some (te_id (last L))"
  let ?e = "fresh_element ?i ch ?o"
  let ?t = "put_element (t\<lparr>tx_counter := tx_counter t + 1\<rparr>) ?e"
  have out: "j < ?i" if "j \<in> fst ` set (tx_by_id t)" for j
    using Cons.prems(3) that by (force simp: counted_def less_op_id_def)
  have e: "te_id ?e = ?i" "\<not> te_deleted ?e" "te_origin ?e = ?o" by (simp_all add: fresh_element_def)
  have n: "?i \<notin> fst ` set (tx_by_id t)" using out by blast
  have d: "tx_by_id ?t = tx_by_id t @ [(?i, ?e)]" using update_fresh [OF n, of ?e] by (simp add: e(1))
  note ins = shown_insert [OF Cons.prems(1,2) out e(1,2) Cons.prems(4) e(3)]
  have "elements_ok (w(?i := (ch, ?o))) (tx_by_id t)"
    by (rule elements_ok_word [OF Cons.prems(1)]) (metis n fun_upd_apply)
  moreover have "element_ok (w(?i := (ch, ?o))) ?e" by (simp add: element_ok_def fresh_element_def)
  ultimately have el: "elements_ok (w(?i := (ch, ?o))) (tx_by_id ?t)"
    using elements_ok_update [of "w(?i := (ch, ?o))" "tx_by_id t" ?e] by simp
  obtain is' where rest: "insert_chain ?t (Some ?i) s = (t', is')" "is = ?i # is'"
    using Cons.prems(5) by (auto simp: next_id_def Let_def split: prod.splits)
  have "counted ?t" using Cons.prems(3) unfolding counted_def d by fastforce
  moreover have "shown (tx_by_id ?t) = (L @ [?e]) @ R"
    using ins(1) unfolding d by (simp only: append_assoc append_Cons append_Nil)
  moreover have "insert_chain ?t (if L @ [?e] = [] then None else Some (te_id (last (L @ [?e])))) s = (t', is')"
    using rest(1) e(1) by simp
  ultimately obtain w' M where M: "elements_ok w' (tx_by_id t')" "rooted (tx_by_id t')" "counted t'"
    "shown (tx_by_id t') = (L @ [?e]) @ M @ R" "map te_ch M = s" "map te_id M = is'"
    "is' = map (\<lambda>k. OpId (tx_counter ?t + int k + 1) (tx_peer ?t)) [0..<length s]"
    "tx_counter t' = tx_counter ?t + int (length s)" "tx_peer t' = tx_peer ?t"
    using Cons.IH [OF el, of "L @ [?e]" is'] ins(2) d by (metis (no_types, lifting))
  have "map (\<lambda>k. OpId (tx_counter t + int k + 1) (tx_peer t)) [0..<length (ch # s)] = ?i # is'"
    unfolding M(7) by (simp add: upt_conv_Cons map_Suc_upt [symmetric] comp_def algebra_simps del: upt_Suc)
  then show ?case using M rest(2)
    by (intro exI [of _ w'] exI [of _ "?e # M"]) (simp add: fresh_element_def)
qed

lemma index_to_origin_shown:
  assumes "cache_ok t"
  shows "\<exists>t' n. index_to_origin t ix = (t', (let L = take (nat ix) (shown (tx_by_id t)) in if L = [] then None else Some (te_id (last L))), n) \<and>
    tx_by_id t' = tx_by_id t \<and> tx_counter t' = tx_counter t \<and> tx_peer t' = tx_peer t"
proof -
  obtain t' es where v: "visible t = (t', es)" by fastforce
  have st: "tx_by_id t' = tx_by_id t" "tx_counter t' = tx_counter t" "tx_peer t' = tx_peer t"
    using v by (auto simp: visible_def visible_ordered_def Let_def split: option.splits)
  have es: "es = shown (tx_by_id t)" using shown_visible [OF assms] v by simp
  let ?o = "let L = take (nat ix) es in if L = [] then None else Some (te_id (last L))"
  have "last (take (nat ix) es) = es ! nat (ix - 1)" if "0 < ix" "ix < int (length es)"
    using that by (subst last_conv_nth) (auto simp: min_def nat_diff_distrib' intro!: arg_cong2 [where f = nth])
  moreover have "take (nat ix) es = es" if "ix \<ge> int (length es)" using that by simp
  ultimately have "fst (snd (index_to_origin t ix)) = ?o" by (auto simp: index_to_origin_def v Let_def)
  moreover have "fst (index_to_origin t ix) = t'" by (simp add: index_to_origin_def v)
  ultimately show ?thesis using st es by (cases "index_to_origin t ix") auto
qed

text \<open>Typing a string at an index is inserting it in the list there.\<close>

lemma text_insert_str_list:
  assumes ok: "text_ok w t" "counted t" and s: "text_insert_str t ix s = (t', is)"
  shows "\<exists>w'. text_ok w' t' \<and> counted t' \<and>
    snd (text_of t') = take (nat ix) (snd (text_of t)) @ s @ drop (nat ix) (snd (text_of t)) \<and>
    is = map (\<lambda>k. OpId (tx_counter t + int k + 1) (tx_peer t)) [0..<length s]"
proof -
  have t: "elements_ok w (tx_by_id t)" "rooted (tx_by_id t)" "cache_ok t" using ok by (auto simp: text_ok_def)
  let ?L = "take (nat ix) (shown (tx_by_id t))" and ?R = "drop (nat ix) (shown (tx_by_id t))"
  obtain t1 n where o: "index_to_origin t ix = (t1, if ?L = [] then None else Some (te_id (last ?L)), n)"
    "tx_by_id t1 = tx_by_id t" "tx_counter t1 = tx_counter t" "tx_peer t1 = tx_peer t"
    using index_to_origin_shown [OF t(3), of ix] by (auto simp: Let_def)
  obtain t2 where c: "insert_chain t1 (if ?L = [] then None else Some (te_id (last ?L))) s = (t2, is)"
    "t' = invalidate_ordered t2"
    using s unfolding text_insert_str_def o(1) by (auto split: prod.splits)
  have t1: "elements_ok w (tx_by_id t1)" "rooted (tx_by_id t1)" "counted t1" "shown (tx_by_id t1) = ?L @ ?R"
    using t ok(2) by (simp_all add: o counted_def)
  from insert_chain_spec [OF t1 c(1)] obtain w' M where M: "elements_ok w' (tx_by_id t2)" "rooted (tx_by_id t2)"
    "counted t2" "shown (tx_by_id t2) = ?L @ M @ ?R" "map te_ch M = s"
    "is = map (\<lambda>k. OpId (tx_counter t1 + int k + 1) (tx_peer t1)) [0..<length s]"
    by blast
  have "cache_ok t'" by (simp add: c(2) cache_ok_def)
  then show ?thesis using M t(3) o(3,4)
    by (intro exI [of _ w']) (simp add: c(2) text_ok_def counted_def shown_text take_map drop_map)
qed

lemma text_insert_chain: "text_insert t ix [ch] = (let (t', is) = text_insert_str t ix [ch] in Inr (t', hd is))"
  by (simp add: text_insert_def text_insert_str_def Let_def split_beta next_id_def)

lemma text_seed_list: "snd (text_of (text_seed p s)) = s"
proof -
  obtain t "is" where c: "insert_chain (text_new p) None s = (t, is)" by fastforce
  have "elements_ok undefined (tx_by_id (text_new p))" "rooted (tx_by_id (text_new p))" "counted (text_new p)"
    "shown (tx_by_id (text_new p)) = [] @ []"
    by (simp_all add: text_new_def elements_ok_def keyed_def rooted_def counted_def shown_def ordered_ids_def)
  then obtain M where "shown (tx_by_id t) = [] @ M @ []" "map te_ch M = s"
    using insert_chain_spec [of undefined "text_new p" "[]" "[]" s t "is"] c by auto
  then show ?thesis by (simp add: text_seed_def c shown_text cache_ok_def)
qed

text \<open>Erasing at an index removes that character, and nothing out of range.\<close>

lemma text_delete_list:
  assumes ok: "text_ok w t" and d: "text_delete t ix = (t', r)"
  shows "snd (text_of t') = (if 0 \<le> ix \<and> ix < int (length (snd (text_of t)))
      then take (nat ix) (snd (text_of t)) @ drop (Suc (nat ix)) (snd (text_of t)) else snd (text_of t)) \<and>
    (r = None \<longleftrightarrow> \<not> (0 \<le> ix \<and> ix < int (length (snd (text_of t)))))"
proof -
  obtain t1 es where v: "visible t = (t1, es)" "tx_by_id t1 = tx_by_id t" "text_ok w t1"
    using visible_spec [OF ok] by blast
  have el: "elements_ok w (tx_by_id t)" "rooted (tx_by_id t)" "cache_ok t" using ok by (auto simp: text_ok_def)
  have es: "es = shown (tx_by_id t)" using shown_visible [OF el(3)] v(1) by simp
  have tx: "snd (text_of t) = map te_ch es" by (simp add: shown_text el(3) es)
  show ?thesis
  proof (cases "ix < 0 \<or> ix \<ge> int (length es)")
    case True
    then have "t' = t1" "r = None" using d by (auto simp: text_delete_def v(1))
    moreover have "cache_ok t1" using v(3) by (simp add: text_ok_def)
    ultimately show ?thesis using True v(2) by (auto simp: tx shown_text es)
  next
    case False
    let ?e = "es ! nat ix"
    obtain j where j: "t' = put_element (fst (next_id t1)) (?e\<lparr>te_deleted := True, te_delete_id := Some j\<rparr>)" "r = Some j"
      using False d by (auto simp: text_delete_def v(1) next_id_def Let_def)
    let ?f = "?e\<lparr>te_deleted := True, te_delete_id := Some j\<rparr>" and ?d = "tx_by_id t"
    have n: "nat ix < length es" using False by linarith
    have e: "map_of ?d (te_id ?e) = Some ?e" using shown_mem [OF el(1), of ?e] n unfolding es by simp
    have bl: "tx_by_id t' = AList.update (te_id ?e) ?f ?d" by (simp add: j(1) next_id_def v(2))
    have "element_ok w ?e" using element_id [OF el(1) e] by blast
    then have "elements_ok w (tx_by_id t')"
      using elements_ok_update [OF el(1), of ?f] unfolding bl by (simp add: element_ok_def)
    moreover have "same_tree ?d (tx_by_id t')" using e unfolding bl same_tree_def by (auto simp: update_conv')
    ultimately have ord: "ordered_ids (tx_by_id t') = ordered_ids ?d"
      using el(1) by (intro ordered_ids_same [symmetric]) (auto simp: elements_ok_def)
    then have c: "cache_ok t'" using v(2,3) by (simp add: text_ok_def cache_ok_def j(1) next_id_def)
    have "shown ?d = take (nat ix) es @ ?e # drop (Suc (nat ix)) es" using n es by (simp add: id_take_nth_drop)
    then obtain A B where AB: "ordered_ids ?d = A @ te_id ?e # B" "te_id ?e \<notin> set A" "te_id ?e \<notin> set B"
      "take (nat ix) es = concat (map (\<lambda>x. case map_of ?d x of None \<Rightarrow> [] | Some e \<Rightarrow> if te_deleted e then [] else [e]) A)"
      "drop (Suc (nat ix)) es = concat (map (\<lambda>x. case map_of ?d x of None \<Rightarrow> [] | Some e \<Rightarrow> if te_deleted e then [] else [e]) B)"
      by (rule shown_split [OF el(1,2)])
    have keep: "concat (map (\<lambda>x. case map_of (tx_by_id t') x of None \<Rightarrow> [] | Some e \<Rightarrow> if te_deleted e then [] else [e]) xs) =
        concat (map (\<lambda>x. case map_of ?d x of None \<Rightarrow> [] | Some e \<Rightarrow> if te_deleted e then [] else [e]) xs)"
      if "te_id ?e \<notin> set xs" for xs
      using that unfolding bl by (induction xs) (auto simp: update_conv')
    have "shown (tx_by_id t') = take (nat ix) es @ drop (Suc (nat ix)) es"
      unfolding shown_def ord AB(1) using keep [OF AB(2)] keep [OF AB(3)] AB(4,5) by (simp add: bl update_conv')
    then show ?thesis using False c n by (simp add: tx shown_text j(2) take_map drop_map)
  qed
qed

section \<open>Collection\<close>

text \<open>Dropping the stable tombstones that no element refers to.\<close>

lemma collect_order:
  assumes k: "keyed d" and r: "rooted d" and K: "\<And>x e. (x, e) \<in> set d \<Longrightarrow> x \<notin> K \<Longrightarrow> Some x \<notin> (te_origin \<circ> snd) ` set d"
  shows "ordered_ids (filter (\<lambda>(x, e). x \<in> K) d) = filter (\<lambda>x. x \<in> K) (ordered_ids d)"
    and "rooted (filter (\<lambda>(x, e). x \<in> K) d)"
proof -
  let ?d = "filter (\<lambda>(x, e). x \<in> K) d"
  have kd: "keyed ?d" using k by (auto simp: keyed_def distinct_map_filter)
  show rd: "rooted ?d"
    unfolding rooted_def
  proof (clarify, intro conjI)
    fix x e p assume x: "(x, e) \<in> set ?d" "te_origin e = Some p"
    then have "p \<in> fst ` set d" "p < x" using r by (auto simp: rooted_def)
    moreover have "p \<in> K"
    proof (rule ccontr)
      assume "p \<notin> K"
      moreover obtain f where "(p, f) \<in> set d" using \<open>p \<in> fst ` set d\<close> by auto
      ultimately have "Some p \<notin> (te_origin \<circ> snd) ` set d" by (intro K)
      then show False using x by force
    qed
    ultimately show "p \<in> fst ` set ?d" "p < x" by force+
  qed
  have sib: "siblings ?d p = filter (\<lambda>x. x \<in> K) (siblings d p)" for p
  proof -
    have "map te_id (filter (\<lambda>e. te_origin e = p) (map snd ?d)) =
        filter (\<lambda>x. x \<in> K) (map te_id (filter (\<lambda>e. te_origin e = p) (map snd d)))"
      using k unfolding keyed_def by (induction d) auto
    then show ?thesis by (simp add: siblings_def filter_sort [symmetric] rev_filter)
  qed
  have leaf: "siblings d (Some c) = []" if "c \<in> set (siblings d p)" "c \<notin> K" for c p
  proof -
    obtain f where "(c, f) \<in> set d" using \<open>c \<in> set (siblings d p)\<close> by (auto simp: siblings_mem [OF k])
    then have "Some c \<notin> (te_origin \<circ> snd) ` set d" using that(2) by (rule K)
    then have "x \<notin> set (siblings d (Some c))" for x unfolding siblings_mem [OF k] by force
    then show ?thesis by (cases "siblings d (Some c)") auto
  qed
  have "visit n ?d p = filter (\<lambda>x. x \<in> K) (visit n d p)" for n p
  proof (induction n arbitrary: p)
    case (Suc n)
    have "visit n d (Some c) = []" if "c \<in> set (siblings d p)" "c \<notin> K" for c
      using leaf [OF that] by (cases n) simp_all
    then have "concat (map (\<lambda>i. i # visit n ?d (Some i)) (filter (\<lambda>x. x \<in> K) xs)) =
        filter (\<lambda>x. x \<in> K) (concat (map (\<lambda>i. i # visit n d (Some i)) xs))" if "set xs \<subseteq> set (siblings d p)" for xs
      using that by (induction xs) (auto simp: Suc)
    then show ?case by (simp add: sib)
  qed simp
  then have "visit (length d) ?d None = filter (\<lambda>x. x \<in> K) (ordered_ids d)" by (simp add: ordered_ids_def)
  then show "ordered_ids ?d = filter (\<lambda>x. x \<in> K) (ordered_ids d)"
    using ordered_ids_fuel [OF kd rd, of "length d"] by simp
qed

lemma filter_full: "length (filter P xs) \<ge> length xs \<Longrightarrow> filter P xs = xs"
  by (metis filter_id_conv leD length_filter_less)

lemma map_filter_mem: "x \<in> set (List.map_filter f xs) \<longleftrightarrow> Some x \<in> f ` set xs"
  by (induction xs) (auto simp: map_filter_simps split: option.split)

lemma text_gc_list:
  assumes ok: "text_ok w t" and g: "text_gc t is_stable = (t', n)"
  shows "snd (text_of t') = snd (text_of t)" and "text_ok w t'"
    and "tombstone_count t = tombstone_count t' + n"
    and "is_stable \<Longrightarrow> e \<in> snd ` set (tx_by_id t') \<Longrightarrow> te_deleted e \<Longrightarrow>
      Some (te_id e) \<in> te_origin ` snd ` set (tx_by_id t)"
proof -
  let ?d = "tx_by_id t"
  define R where "R = set (List.map_filter te_origin (map snd ?d))"
  have R: "x \<in> R \<longleftrightarrow> Some x \<in> (te_origin \<circ> snd) ` set ?d" for x
    unfolding R_def map_filter_mem by (simp add: image_comp)
  have el: "elements_ok w ?d" "rooted ?d" "cache_ok t" and k: "keyed ?d" using ok by (auto simp: text_ok_def elements_ok_def)
  let ?s = "filter (\<lambda>(k, e). \<not> (te_deleted e \<and> k \<notin> R)) ?d"
  define K where "K = {x. \<forall>e. (x, e) \<in> set ?d \<longrightarrow> \<not> (te_deleted e \<and> x \<notin> R)}"
  have s: "?s = filter (\<lambda>(x, e). x \<in> K) ?d"
    using keyed_unique [OF k] by (intro filter_cong refl) (auto simp: K_def)
  have out: "Some x \<notin> (te_origin \<circ> snd) ` set ?d" if "(x, e) \<in> set ?d" "x \<notin> K" for x e
    using that unfolding K_def R [symmetric] by blast
  have col: "ordered_ids (filter (\<lambda>(x, e). x \<in> K) ?d) = filter (\<lambda>x. x \<in> K) (ordered_ids ?d)"
    "rooted (filter (\<lambda>(x, e). x \<in> K) ?d)"
    by (rule collect_order [OF k el(2)], erule (1) out)+
  have els: "elements_ok w ?s" using el(1) by (auto simp: elements_ok_def keyed_def distinct_map_filter)
  have "map_of (filter (\<lambda>(x, e). x \<in> K) d) x = (if x \<in> K then map_of d x else None)" for d :: "(op_id \<times> 'a text_element) list" and x
    by (induction d) auto
  then have m: "map_of ?s x = (if x \<in> K then map_of ?d x else None)" for x unfolding s by blast
  have dead: "(case map_of ?d x of None \<Rightarrow> [] | Some e \<Rightarrow> if te_deleted e then [] else [e]) = []" if "x \<notin> K" for x
    using that by (auto simp: K_def keyed_map_set [OF k] split: option.split)
  have "concat (map (\<lambda>x. case map_of ?s x of None \<Rightarrow> [] | Some e \<Rightarrow> if te_deleted e then [] else [e]) (filter (\<lambda>x. x \<in> K) xs)) =
      concat (map (\<lambda>x. case map_of ?d x of None \<Rightarrow> [] | Some e \<Rightarrow> if te_deleted e then [] else [e]) xs)" for xs
    unfolding m using dead by (induction xs) auto
  then have shown: "shown ?s = shown ?d" unfolding shown_def s col(1) by blast
  have len: "length (filter P d) = length (filter P (filter Q d)) + length (filter (\<lambda>x. \<not> Q x) d)"
    if "\<And>x. x \<in> set d \<Longrightarrow> \<not> Q x \<Longrightarrow> P x" for P Q and d :: "(op_id \<times> 'a text_element) list"
    using that by (induction d) auto
  have cnt: "tombstone_count t = length (filter (te_deleted \<circ> snd) ?s) + (length ?d - length ?s)"
    using len [of ?d "\<lambda>(k, e). \<not> (te_deleted e \<and> k \<notin> R)" "te_deleted \<circ> snd"]
      sum_length_filter_compl [of "\<lambda>(k, e). \<not> (te_deleted e \<and> k \<notin> R)" ?d]
    by (auto simp: tombstone_count_def filter_map)
  have res: "t' = (if length ?d - length ?s \<noteq> 0 then invalidate_ordered (t\<lparr>tx_by_id := ?s\<rparr>) else t\<lparr>tx_by_id := ?s\<rparr>)"
    "n = length ?d - length ?s" if is_stable
    using g that by (auto simp: text_gc_def R_def Let_def)
  have full: "?s = ?d" if "length ?d - length ?s = 0"
    using that length_filter_le [of "\<lambda>(k, e). \<not> (te_deleted e \<and> k \<notin> R)" ?d] filter_full [of ?d] by auto
  have main: "tx_by_id t' = ?s \<and> cache_ok t'" if is_stable
    using res [OF that] full el(3) by (auto simp: cache_ok_def invalidate_ordered_def)
  have idle: "t' = t \<and> n = 0" if "\<not> is_stable" using g that by (simp add: text_gc_def)
  show "snd (text_of t') = snd (text_of t)"
    using main idle shown el(3) by (cases is_stable) (simp_all add: shown_text)
  show "text_ok w t'" using main idle ok els col(2) unfolding s [symmetric] by (cases is_stable) (simp_all add: text_ok_def)
  show "tombstone_count t = tombstone_count t' + n"
    using main idle cnt res(2) by (cases is_stable) (simp_all add: tombstone_count_def filter_map)
  show "Some (te_id e) \<in> te_origin ` snd ` set (tx_by_id t)"
    if stable: "is_stable" and e: "e \<in> snd ` set (tx_by_id t')" "te_deleted e"
  proof -
    obtain x where "(x, e) \<in> set ?d" "x \<in> R" using e main [OF stable] by auto
    then have "te_id e \<in> R" using k by (auto simp: keyed_def)
    then show ?thesis unfolding R by (simp add: image_comp)
  qed
qed

end
