(* ===== verification/TextTheorems.thy ===== *)
theory TextTheorems
  imports TextNet TextEdit
begin

text \<open>
  The properties of the text CRDT, over every state the network of theory TextSync reaches.
\<close>

section \<open>Editing\<close>

lemma net_text_ok: "text_ok (net_word (net_run z ops)) (net_rep (net_run z ops) i)"
  using net_ok_run [of z ops] by (simp add: net_ok_def)

lemma net_counted: "counted (net_rep (net_run z ops) i)"
  unfolding counted_def
proof
  fix k assume "k \<in> fst ` set (tx_by_id (net_rep (net_run z ops) i))"
  then have "text_seen (net_rep (net_run z ops) i) k \<noteq> None"
    by (simp add: text_seen_def seen_in_def map_of_eq_None_iff)
  then show "op_counter k \<le> tx_counter (net_rep (net_run z ops) i)"
    using net_ok_run [of z ops] by (simp add: net_ok_def)
qed

text \<open>C14: whatever the replicas typed, erased and exchanged before, a replica edits like a list of
  characters. Inserting a string puts it at the index, clamped to the text; deleting removes the
  character at the index, and answers \<open>None\<close> and leaves the text alone out of range; collecting
  stable tombstones changes no text.\<close>

theorem text_edits_like_a_list:
  fixes ops :: "'c net_op list" and z i
  defines "t \<equiv> net_rep (net_run z ops) i"
  defines "s \<equiv> snd (text_of t)"
  shows "snd (text_of (fst (text_insert_str t ix new))) = take (nat ix) s @ new @ drop (nat ix) s \<and>
    snd (text_of (fst (text_delete t ix))) =
      (if 0 \<le> ix \<and> ix < int (length s) then take (nat ix) s @ drop (Suc (nat ix)) s else s) \<and>
    (snd (text_delete t ix) = None) = (\<not> (0 \<le> ix \<and> ix < int (length s))) \<and>
    snd (text_of (fst (text_gc t stab))) = s"
proof (intro conjI)
  have ok: "text_ok (net_word (net_run z ops)) t" "counted t" by (simp_all add: t_def net_text_ok net_counted)
  show "snd (text_of (fst (text_insert_str t ix new))) = take (nat ix) s @ new @ drop (nat ix) s"
    using text_insert_str_list [OF ok, of ix new] by (metis prod.collapse s_def)
  show "snd (text_of (fst (text_delete t ix))) =
      (if 0 \<le> ix \<and> ix < int (length s) then take (nat ix) s @ drop (Suc (nat ix)) s else s)"
    "(snd (text_delete t ix) = None) = (\<not> (0 \<le> ix \<and> ix < int (length s)))"
    using text_delete_list [OF ok(1), of ix] unfolding s_def by (metis prod.collapse)+
  show "snd (text_of (fst (text_gc t stab))) = s"
    using text_gc_list(1) [OF ok(1), of stab] unfolding s_def by (metis prod.collapse)
qed

section \<open>Synchronising\<close>

text \<open>C15: in every state the network reaches, applying a delta built from the receiver's version
  vector leaves the same replica, with the same change flag, as merging the sender's whole state;
  and replicas with equal version vectors show the same text.\<close>

theorem text_delta_sync_converges:
  fixes ops :: "'c net_op list" and z
  defines "N \<equiv> net_run z ops"
  shows "apply_delta (net_rep N i) (delta_since (net_rep N j) (version_vector (net_rep N i))) =
      text_merge (net_rep N i) (net_rep N j) \<and>
    (version_vector (net_rep N i) = version_vector (net_rep N j) \<longrightarrow>
      snd (text_of (net_rep N i)) = snd (text_of (net_rep N j)))"
proof (intro conjI impI)
  have N: "net_ok N" by (simp add: N_def net_ok_run)
  show "apply_delta (net_rep N i) (delta_since (net_rep N j) (version_vector (net_rep N i))) =
      text_merge (net_rep N i) (net_rep N j)"
    using delta_is_merge [OF N] by (simp add: delta_for_def)
  assume "version_vector (net_rep N i) = version_vector (net_rep N j)"
  then have "text_seen (net_rep N i) = text_seen (net_rep N j)" by (intro same_frontier_same_seen [OF N]) simp
  then show "snd (text_of (net_rep N i)) = snd (text_of (net_rep N j))"
    by (intro seen_text [where w = "net_word N"]) (simp_all add: N_def net_text_ok)
qed

text \<open>Two peers type at the same place, exchange deltas, and one erases what the other typed.\<close>

definition sample_ops :: "char net_op list" where
  "sample_ops = [NetType 1 0 (CHR ''a''), NetType 2 0 (CHR ''b''), NetDelta 1 2, NetErase 1 0, NetDelta 2 1, NetDelta 1 2]"

theorem text_delta_sync_converges_witness:
  "snd (text_of (net_rep (net_run (CHR ''x'', None) sample_ops) 1)) =
   snd (text_of (net_rep (net_run (CHR ''x'', None) sample_ops) 2))"
proof (rule text_delta_sync_converges [THEN conjunct2, THEN mp])
  have "map snd (tx_by_id (net_rep (net_run (CHR ''x'', None) sample_ops) 1)) =
      [fresh_element (OpId 1 1) (CHR ''a'') None,
       (fresh_element (OpId 1 2) (CHR ''b'') None)\<lparr>te_deleted := True, te_delete_id := Some (OpId 2 1)\<rparr>]"
    by code_simp
  moreover have "map snd (tx_by_id (net_rep (net_run (CHR ''x'', None) sample_ops) 2)) =
      [(fresh_element (OpId 1 2) (CHR ''b'') None)\<lparr>te_deleted := True, te_delete_id := Some (OpId 2 1)\<rparr>,
       fresh_element (OpId 1 1) (CHR ''a'') None]"
    by code_simp
  ultimately show "version_vector (net_rep (net_run (CHR ''x'', None) sample_ops) 1) =
      version_vector (net_rep (net_run (CHR ''x'', None) sample_ops) 2)"
    by (auto simp: version_vector_def bump_vv_def fresh_element_def fun_eq_iff)
qed

text \<open>Merging is order-independent: two replicas that merged the same set of replicas of a
  reached network, in any order and however often, show the same text.\<close>

theorem text_merge_converges:
  assumes "set (i # is) = set (j # js)"
  shows "snd (text_of (foldl (\<lambda>a k. fst (text_merge a (net_rep (net_run z ops) k))) (net_rep (net_run z ops) i) is)) =
    snd (text_of (foldl (\<lambda>a k. fst (text_merge a (net_rep (net_run z ops) k))) (net_rep (net_run z ops) j) js))"
proof -
  let ?N = "net_run z ops" and ?w = "net_word (net_run z ops)"
  have fold: "foldl (\<lambda>a k. fst (text_merge a (net_rep ?N k))) a ks = foldl text_join a (map (net_rep ?N) ks)" for a ks
    by (induction ks arbitrary: a) (simp_all add: text_join_def)
  have ok: "list_all (text_ok ?w) (map (net_rep ?N) ks)" for ks by (simp add: list_all_iff net_text_ok)
  have "text_seen (foldl text_join (net_rep ?N i) (map (net_rep ?N) is)) =
      text_seen (foldl text_join (net_rep ?N j) (map (net_rep ?N) js))"
    using ok [of "i # is"] ok [of "j # js"] assms
    by (intro text_replicas.same_states) (simp_all, metis image_insert)
  moreover have "text_ok ?w (foldl text_join (net_rep ?N k) (map (net_rep ?N) ks))" for k ks
    using ok [of ks] by (intro text_replicas.ok_fold) (simp_all add: net_text_ok)
  ultimately show ?thesis unfolding fold by (intro seen_text)
qed

theorem text_merge_converges_witness:
  "snd (text_of (foldl (\<lambda>a k. fst (text_merge a (net_rep (net_run (CHR ''x'', None) sample_ops) k)))
      (net_rep (net_run (CHR ''x'', None) sample_ops) 1) [2, 1])) =
   snd (text_of (foldl (\<lambda>a k. fst (text_merge a (net_rep (net_run (CHR ''x'', None) sample_ops) k)))
      (net_rep (net_run (CHR ''x'', None) sample_ops) 2) [1]))"
  by (rule text_merge_converges) auto

end
