(* ===== verification/ReliableSync.thy ===== *)
theory ReliableSync
  imports Registers JoinCrdt
begin

text \<open>
  The reliable sync protocol of \<^verbatim>\<open>src/lazily/reliable_sync.py\<close>: the receiver's resync
  coordinator, the outbox with its stores, the liveness cells and the driver. Messages carry
  the fields of \<^verbatim>\<open>ipc.py\<close> that the protocol reads; the node content of a snapshot, the
  operations of a delta and a CRDT frame are of arbitrary types. The JSON codec is a pair of
  functions \<open>enc\<close>, \<open>dec\<close>, partial because both can raise. The sink is the list of the results
  its next sends give and the log of what was sent, the source the list of what its next
  reads give.
\<close>

section \<open>Messages\<close>

record 'n sync_snapshot =
  sn_epoch :: int
  sn_content :: 'n

record 'o sync_delta =
  sd_base_epoch :: int
  sd_epoch :: int
  sd_ops :: 'o

record ('n, 'o, 'c) ipc_message =
  im_snapshot :: "'n sync_snapshot option"
  im_delta :: "'o sync_delta option"
  im_crdt_sync :: "'c option"
  im_resync_request :: "int option"
  im_outbox_ack :: "int option"

definition no_message :: "('n, 'o, 'c) ipc_message" where
  "no_message = \<lparr>im_snapshot = None, im_delta = None, im_crdt_sync = None, im_resync_request = None,
     im_outbox_ack = None\<rparr>"

definition of_snapshot :: "'n sync_snapshot \<Rightarrow> ('n, 'o, 'c) ipc_message" where
  "of_snapshot s = no_message\<lparr>im_snapshot := Some s\<rparr>"

definition of_delta :: "'o sync_delta \<Rightarrow> ('n, 'o, 'c) ipc_message" where
  "of_delta d = no_message\<lparr>im_delta := Some d\<rparr>"

definition of_crdt_sync :: "'c \<Rightarrow> ('n, 'o, 'c) ipc_message" where
  "of_crdt_sync c = no_message\<lparr>im_crdt_sync := Some c\<rparr>"

definition of_resync_request :: "int \<Rightarrow> ('n, 'o, 'c) ipc_message" where
  "of_resync_request e = no_message\<lparr>im_resync_request := Some e\<rparr>"

definition of_outbox_ack :: "int \<Rightarrow> ('n, 'o, 'c) ipc_message" where
  "of_outbox_ack e = no_message\<lparr>im_outbox_ack := Some e\<rparr>"

section \<open>The resync coordinator\<close>

datatype resync_action = Apply | RequestSnapshot (from_epoch: int) | Ignore

record coordinator =
  co_last_epoch :: int
  co_resyncing :: bool

definition co_with_epoch :: "int \<Rightarrow> coordinator" where
  "co_with_epoch e = \<lparr>co_last_epoch = e, co_resyncing = False\<rparr>"

definition ingest_delta :: "coordinator \<Rightarrow> 'o sync_delta \<Rightarrow> coordinator \<times> resync_action" where
  "ingest_delta c d =
     (if sd_base_epoch d = co_last_epoch c
      then (if sd_epoch d \<ge> sd_base_epoch d + 1
            then (c\<lparr>co_last_epoch := sd_epoch d, co_resyncing := False\<rparr>, Apply)
            else (c, Ignore))
      else if sd_base_epoch d < co_last_epoch c then (c, Ignore)
      else if co_resyncing c then (c, Ignore)
      else (c\<lparr>co_resyncing := True\<rparr>, RequestSnapshot (co_last_epoch c)))"

definition ingest_snapshot :: "coordinator \<Rightarrow> int \<Rightarrow> coordinator \<times> resync_action" where
  "ingest_snapshot c e = (c\<lparr>co_last_epoch := e, co_resyncing := False\<rparr>, Apply)"

definition ingest :: "coordinator \<Rightarrow> ('n, 'o, 'c) ipc_message \<Rightarrow> coordinator \<times> resync_action" where
  "ingest c m =
     (case im_snapshot m of
        Some s \<Rightarrow> ingest_snapshot c (sn_epoch s)
      | None \<Rightarrow> (case im_delta m of Some d \<Rightarrow> ingest_delta c d | None \<Rightarrow> (c, Ignore)))"

definition co_ack :: "coordinator \<Rightarrow> ('n, 'o, 'c) ipc_message" where
  "co_ack c = of_outbox_ack (co_last_epoch c)"

section \<open>The outbox and its stores\<close>

text \<open>The store protocol, as a record of its five operations.\<close>

record ('s, 'f) outbox_store =
  st_put :: "'s \<Rightarrow> int \<Rightarrow> 'f \<Rightarrow> 's"
  st_delete_through :: "'s \<Rightarrow> int \<Rightarrow> 's"
  st_scan_after :: "'s \<Rightarrow> int \<Rightarrow> (int \<times> 'f) list"
  st_load_cursor :: "'s \<Rightarrow> int"
  st_save_cursor :: "'s \<Rightarrow> int \<Rightarrow> 's"

record 's outbox =
  ob_store :: 's
  ob_acked_through :: int

datatype sync_error = SourceError | NoVariant | DecodeError

definition outbox_open :: "('s, 'f) outbox_store \<Rightarrow> 's \<Rightarrow> 's outbox" where
  "outbox_open S s = \<lparr>ob_store = s, ob_acked_through = st_load_cursor S s\<rparr>"

definition acked_through :: "('s, 'f) outbox_store \<Rightarrow> 's outbox \<Rightarrow> 's outbox \<times> int" where
  "acked_through S b =
     (let a = max (ob_acked_through b) (st_load_cursor S (ob_store b)) in (b\<lparr>ob_acked_through := a\<rparr>, a))"

definition outbox_append ::
    "('s, 'f) outbox_store \<Rightarrow> ('m \<Rightarrow> 'f option) \<Rightarrow> 's outbox \<Rightarrow> int \<Rightarrow> 'm \<Rightarrow> sync_error + 's outbox" where
  "outbox_append S enc b e m =
     (case enc m of
        None \<Rightarrow> Inl NoVariant
      | Some f \<Rightarrow> Inr (b\<lparr>ob_store := st_put S (ob_store b) e f\<rparr>))"

definition outbox_ack_through :: "('s, 'f) outbox_store \<Rightarrow> 's outbox \<Rightarrow> int \<Rightarrow> 's outbox" where
  "outbox_ack_through S b e =
     (let target = max e (max (ob_acked_through b) (st_load_cursor S (ob_store b)));
          b1 = (if target > ob_acked_through b
                then \<lparr>ob_store = st_save_cursor S (ob_store b) target, ob_acked_through = target\<rparr> else b)
      in b1\<lparr>ob_store := st_delete_through S (ob_store b1) target\<rparr>)"

fun decode_frames :: "('f \<Rightarrow> 'm option) \<Rightarrow> (int \<times> 'f) list \<Rightarrow> sync_error + (int \<times> 'm) list" where
  "decode_frames dec [] = Inr []"
| "decode_frames dec ((e, f) # fs) =
     (case dec f of
        None \<Rightarrow> Inl DecodeError
      | Some m \<Rightarrow> (case decode_frames dec fs of Inl x \<Rightarrow> Inl x | Inr ms \<Rightarrow> Inr ((e, m) # ms)))"

definition outbox_replay_from ::
    "('s, 'f) outbox_store \<Rightarrow> ('f \<Rightarrow> 'm option) \<Rightarrow> 's outbox \<Rightarrow> int \<Rightarrow> 's outbox \<times> (sync_error + (int \<times> 'm) list)" where
  "outbox_replay_from S dec b cursor =
     (let (b', a) = acked_through S b
      in (b', decode_frames dec (st_scan_after S (ob_store b') (max cursor a))))"

definition outbox_retained_epochs :: "('s, 'f) outbox_store \<Rightarrow> 's outbox \<Rightarrow> 's outbox \<times> int list" where
  "outbox_retained_epochs S b =
     (let (b', a) = acked_through S b in (b', map fst (st_scan_after S (ob_store b') a)))"

text \<open>The store in memory.\<close>

record 'f memory_store =
  ms_entries :: "(int \<times> 'f) list"
  ms_cursor :: int

definition memory_new :: "'f memory_store" where
  "memory_new = \<lparr>ms_entries = [], ms_cursor = 0\<rparr>"

definition ms_put :: "'f memory_store \<Rightarrow> int \<Rightarrow> 'f \<Rightarrow> 'f memory_store" where
  "ms_put s e f = s\<lparr>ms_entries := AList.update e f (ms_entries s)\<rparr>"

definition ms_delete_through :: "'f memory_store \<Rightarrow> int \<Rightarrow> 'f memory_store" where
  "ms_delete_through s e = s\<lparr>ms_entries := filter (\<lambda>(x, f). x > e) (ms_entries s)\<rparr>"

definition ms_scan_after :: "'f memory_store \<Rightarrow> int \<Rightarrow> (int \<times> 'f) list" where
  "ms_scan_after s c =
     map (\<lambda>e. (e, the (map_of (ms_entries s) e))) (filter (\<lambda>e. e > c) (sort (map fst (ms_entries s))))"

definition ms_save_cursor :: "'f memory_store \<Rightarrow> int \<Rightarrow> 'f memory_store" where
  "ms_save_cursor s e = s\<lparr>ms_cursor := max (ms_cursor s) e\<rparr>"

definition memory_ops :: "('f memory_store, 'f) outbox_store" where
  "memory_ops = \<lparr>st_put = ms_put, st_delete_through = ms_delete_through, st_scan_after = ms_scan_after,
     st_load_cursor = ms_cursor, st_save_cursor = ms_save_cursor\<rparr>"

text \<open>
  The SQLite store: the two tables of its schema with their primary keys, shared by every
  document; each store works on the rows of its own document hash.
\<close>

record 'f sqlite_db =
  db_outbox :: "((string \<times> int) \<times> 'f) list"
  db_cursor :: "(string \<times> int) list"

definition sq_put :: "string \<Rightarrow> 'f sqlite_db \<Rightarrow> int \<Rightarrow> 'f \<Rightarrow> 'f sqlite_db" where
  "sq_put h d e f = d\<lparr>db_outbox := AList.update (h, e) f (db_outbox d)\<rparr>"

definition sq_delete_through :: "string \<Rightarrow> 'f sqlite_db \<Rightarrow> int \<Rightarrow> 'f sqlite_db" where
  "sq_delete_through h d e = d\<lparr>db_outbox := filter (\<lambda>((h', x), f). \<not> (h' = h \<and> x \<le> e)) (db_outbox d)\<rparr>"

definition sq_scan_after :: "string \<Rightarrow> 'f sqlite_db \<Rightarrow> int \<Rightarrow> (int \<times> 'f) list" where
  "sq_scan_after h d c =
     sort_key fst (map (\<lambda>((h', e), f). (e, f)) (filter (\<lambda>((h', e), f). h' = h \<and> e > c) (db_outbox d)))"

definition sq_load_cursor :: "string \<Rightarrow> 'f sqlite_db \<Rightarrow> int" where
  "sq_load_cursor h d = (case map_of (db_cursor d) h of None \<Rightarrow> 0 | Some c \<Rightarrow> c)"

definition sq_save_cursor :: "string \<Rightarrow> 'f sqlite_db \<Rightarrow> int \<Rightarrow> 'f sqlite_db" where
  "sq_save_cursor h d e =
     d\<lparr>db_cursor := AList.update h (case map_of (db_cursor d) h of None \<Rightarrow> e | Some c \<Rightarrow> max c e) (db_cursor d)\<rparr>"

definition sqlite_ops :: "string \<Rightarrow> ('f sqlite_db, 'f) outbox_store" where
  "sqlite_ops h = \<lparr>st_put = sq_put h, st_delete_through = sq_delete_through h, st_scan_after = sq_scan_after h,
     st_load_cursor = sq_load_cursor h, st_save_cursor = sq_save_cursor h\<rparr>"

section \<open>Liveness cells\<close>

record 't or_set =
  or_adds :: "'t set"
  or_removes :: "'t set"

definition or_new :: "'t or_set" where
  "or_new = \<lparr>or_adds = {}, or_removes = {}\<rparr>"

definition or_add :: "'t or_set \<Rightarrow> 't \<Rightarrow> 't or_set" where
  "or_add s t = s\<lparr>or_adds := insert t (or_adds s)\<rparr>"

definition or_remove_observed :: "'t or_set \<Rightarrow> 't list \<Rightarrow> 't or_set" where
  "or_remove_observed s ts = s\<lparr>or_removes := or_removes s \<union> set ts\<rparr>"

definition or_present :: "'t or_set \<Rightarrow> bool" where
  "or_present s \<longleftrightarrow> or_adds s - or_removes s \<noteq> {}"

definition or_join :: "'t or_set \<Rightarrow> 't or_set \<Rightarrow> 't or_set" where
  "or_join a b = \<lparr>or_adds = or_adds a \<union> or_adds b, or_removes = or_removes a \<union> or_removes b\<rparr>"

record 'v wire_lww =
  wl_stamp :: stamp
  wl_value :: 'v

definition wl_set :: "'v wire_lww \<Rightarrow> stamp \<Rightarrow> 'v \<Rightarrow> 'v wire_lww" where
  "wl_set r s v = (if stamp_key s > stamp_key (wl_stamp r) then \<lparr>wl_stamp = s, wl_value = v\<rparr> else r)"

definition wl_join :: "'v wire_lww \<Rightarrow> 'v wire_lww \<Rightarrow> 'v wire_lww" where
  "wl_join a b =
     (if stamp_key (wl_stamp b) > stamp_key (wl_stamp a) then \<lparr>wl_stamp = wl_stamp b, wl_value = wl_value b\<rparr> else a)"

chapter \<open>Properties\<close>

text \<open>
  What the pieces of reliable sync promise: the outbox over any store that keeps the laws of
  the locale \<open>outbox_laws\<close> refines an abstract outbox, both stores keep them, the coordinator
  tracks the sender, and the liveness cells are state-based CRDTs.
\<close>

lemma fst_mem: "e \<in> fst ` A \<longleftrightarrow> (\<exists>x. (e, x) \<in> A)"
  by force

section \<open>The store contract\<close>

locale outbox_laws =
  fixes S :: "('s, 'f) outbox_store" and view :: "'s \<Rightarrow> int \<Rightarrow> 'f option" and ok :: "'s \<Rightarrow> bool"
  assumes put: "ok s \<Longrightarrow> ok (st_put S s e f)" "ok s \<Longrightarrow> view (st_put S s e f) = (view s)(e \<mapsto> f)"
      "st_load_cursor S (st_put S s e f) = st_load_cursor S s"
    and delete: "ok s \<Longrightarrow> ok (st_delete_through S s e)"
      "ok s \<Longrightarrow> view (st_delete_through S s e) = (\<lambda>x. if x \<le> e then None else view s x)"
      "st_load_cursor S (st_delete_through S s e) = st_load_cursor S s"
    and scan: "ok s \<Longrightarrow> set (st_scan_after S s c) = {(e, f). view s e = Some f \<and> c < e}"
      "ok s \<Longrightarrow> sorted_wrt (<) (map fst (st_scan_after S s c))"
    and save: "ok s \<Longrightarrow> ok (st_save_cursor S s e)" "view (st_save_cursor S s e) = view s"
      "st_load_cursor S s \<le> e \<Longrightarrow> st_load_cursor S (st_save_cursor S s e) = e"
begin

text \<open>The abstract outbox: the frames beyond the acknowledged epoch.\<close>

definition frames :: "'s outbox \<Rightarrow> int \<Rightarrow> 'f option" where
  "frames b e = (if st_load_cursor S (ob_store b) < e then view (ob_store b) e else None)"

definition acked :: "'s outbox \<Rightarrow> int" where
  "acked b = st_load_cursor S (ob_store b)"

definition outbox_ok :: "'s outbox \<Rightarrow> bool" where
  "outbox_ok b \<longleftrightarrow> ok (ob_store b) \<and> ob_acked_through b \<le> st_load_cursor S (ob_store b)"

lemma open_ok: "ok s \<Longrightarrow> outbox_ok (outbox_open S s)"
  by (simp add: outbox_ok_def outbox_open_def)

text \<open>Reopening a store, as after a crash, loses nothing.\<close>

lemma reopen: "outbox_ok b \<Longrightarrow> outbox_ok (outbox_open S (ob_store b)) \<and>
    frames (outbox_open S (ob_store b)) = frames b \<and> acked (outbox_open S (ob_store b)) = acked b"
  by (auto simp: outbox_ok_def outbox_open_def frames_def acked_def)

lemma acked_through_spec: "outbox_ok b \<Longrightarrow> acked_through S b = (b\<lparr>ob_acked_through := acked b\<rparr>, acked b) \<and>
    outbox_ok (b\<lparr>ob_acked_through := acked b\<rparr>) \<and> frames (b\<lparr>ob_acked_through := acked b\<rparr>) = frames b \<and>
    acked (b\<lparr>ob_acked_through := acked b\<rparr>) = acked b"
  by (auto simp: acked_through_def outbox_ok_def acked_def Let_def max_def frames_def)

lemma append_spec:
  assumes "outbox_ok b" and "enc m = Some f"
  shows "\<exists>b'. outbox_append S enc b e m = Inr b' \<and> outbox_ok b' \<and> acked b' = acked b \<and>
    frames b' = (if acked b < e then (frames b)(e \<mapsto> f) else frames b)"
  using assms put by (auto simp: outbox_append_def outbox_ok_def acked_def frames_def fun_eq_iff)

lemma append_error: "enc m = None \<Longrightarrow> outbox_append S enc b e m = Inl NoVariant"
  by (simp add: outbox_append_def)

lemma ack_spec:
  assumes "outbox_ok b"
  shows "outbox_ok (outbox_ack_through S b e) \<and> acked (outbox_ack_through S b e) = max (acked b) e \<and>
    frames (outbox_ack_through S b e) = (\<lambda>x. if x \<le> e then None else frames b x)"
proof -
  have ok: "ok (ob_store b)" "ob_acked_through b \<le> acked b" using assms by (auto simp: outbox_ok_def acked_def)
  have t: "max e (max (ob_acked_through b) (st_load_cursor S (ob_store b))) = max (acked b) e"
    using ok(2) by (auto simp: acked_def)
  show ?thesis
  proof (cases "ob_acked_through b < max (acked b) e")
    case True
    let ?s = "st_save_cursor S (ob_store b) (max (acked b) e)"
    have l: "st_load_cursor S ?s = max (acked b) e" by (rule save(3)) (simp add: acked_def)
    have "outbox_ack_through S b e = \<lparr>ob_store = st_delete_through S ?s (max (acked b) e), ob_acked_through = max (acked b) e\<rparr>"
      using True by (simp add: outbox_ack_through_def t Let_def)
    then show ?thesis using l save(1,2) delete ok
      by (auto simp: outbox_ok_def acked_def frames_def fun_eq_iff)
  next
    case False
    then have "outbox_ack_through S b e = b\<lparr>ob_store := st_delete_through S (ob_store b) (max (acked b) e)\<rparr>"
      by (simp add: outbox_ack_through_def t Let_def)
    then show ?thesis using False delete ok by (auto simp: outbox_ok_def acked_def frames_def fun_eq_iff)
  qed
qed

lemma scan_frames:
  "outbox_ok b \<Longrightarrow> set (st_scan_after S (ob_store b) (max c (acked b))) = {(e, f). frames b e = Some f \<and> c < e}"
  using scan(1) [of "ob_store b"] by (auto simp: outbox_ok_def frames_def acked_def split: if_splits)

lemma retained_spec:
  assumes "outbox_ok b"
  shows "\<exists>b' es. outbox_retained_epochs S b = (b', es) \<and> outbox_ok b' \<and> acked b' = acked b \<and> frames b' = frames b \<and>
    set es = dom (frames b) \<and> sorted_wrt (<) es"
proof -
  have a: "acked_through S b = (b\<lparr>ob_acked_through := acked b\<rparr>, acked b)" using acked_through_spec [OF assms] by blast
  have "set (map fst (st_scan_after S (ob_store b) (acked b))) = dom (frames b)"
    using scan_frames [OF assms, of "acked b"]
    by (auto simp: set_eq_iff fst_mem dom_def) (auto simp: frames_def acked_def split: if_splits)
  then show ?thesis using a acked_through_spec [OF assms] scan(2) [of "ob_store b"] assms
    by (simp add: outbox_retained_epochs_def outbox_ok_def)
qed

lemma decode_frames_ok:
  assumes "\<And>e f. (e, f) \<in> set fs \<Longrightarrow> dec f = Some (g e)"
  shows "decode_frames dec fs = Inr (map (\<lambda>(e, f). (e, g e)) fs)"
  using assms
proof (induction fs)
  case (Cons x fs)
  then have "decode_frames dec fs = Inr (map (\<lambda>(e, f). (e, g e)) fs)" by simp
  then show ?case using Cons.prems [of "fst x" "snd x"] by (cases x) simp
qed simp

text \<open>
  A replay gives the frames beyond the cursor in ascending order. Any list that is ascending
  and holds those frames is the replay.
\<close>

lemma replay_spec:
  assumes b: "outbox_ok b" and sorted: "sorted_wrt (<) (map fst ms)"
    and set: "\<And>e. (\<exists>m. (e, m) \<in> set ms) \<longleftrightarrow> frames b e \<noteq> None \<and> c < e"
    and dec: "\<And>e m. (e, m) \<in> set ms \<Longrightarrow> \<exists>f. frames b e = Some f \<and> dec f = Some m"
  shows "\<exists>b'. outbox_replay_from S dec b c = (b', Inr ms) \<and> outbox_ok b' \<and> acked b' = acked b \<and> frames b' = frames b"
proof -
  let ?l = "st_scan_after S (ob_store b) (max c (acked b))"
  note a = acked_through_spec [OF b]
  have "sorted_wrt (<) (map fst ?l)" using scan(2) b by (simp add: outbox_ok_def)
  moreover have "set (map fst ?l) = set (map fst ms)"
    using set unfolding set_eq_iff by (simp add: scan_frames [OF b] fst_mem)
  ultimately have keys: "map fst ?l = map fst ms" using sorted by (metis strict_sorted_equal)
  let ?g = "\<lambda>e. the (map_of ms e)"
  have d: "distinct (map fst ms)" using sorted by (simp add: strict_sorted_iff)
  have "decode_frames dec ?l = Inr (map (\<lambda>(e, f). (e, ?g e)) ?l)"
  proof (rule decode_frames_ok)
    fix e f assume "(e, f) \<in> set ?l"
    then have f: "frames b e = Some f" "c < e" using scan_frames [OF b] by auto
    then obtain m where m: "(e, m) \<in> set ms" using set [of e] by auto
    then show "dec f = Some (?g e)" using dec [OF m] f d by simp
  qed
  also have "map (\<lambda>(e, f). (e, ?g e)) ?l = map (\<lambda>e. (e, ?g e)) (map fst ?l)" by (simp add: case_prod_beta)
  also have "\<dots> = ms" unfolding keys list.map_comp using d by (intro map_idI) auto
  finally show ?thesis using a by (auto simp: outbox_replay_from_def)
qed

end

section \<open>Both stores keep the contract\<close>

definition memory_ok :: "'f memory_store \<Rightarrow> bool" where
  "memory_ok s \<longleftrightarrow> distinct (map fst (ms_entries s))"

definition memory_view :: "'f memory_store \<Rightarrow> int \<Rightarrow> 'f option" where
  "memory_view s = map_of (ms_entries s)"

lemma map_of_filter_key: "map_of (filter (\<lambda>(x, f). P x) xs) k = (if P k then map_of xs k else None)"
  by (induction xs) auto

interpretation mem: outbox_laws memory_ops memory_view memory_ok
proof unfold_locales
  fix s :: "'a memory_store" and e c f
  assume ok: "memory_ok s"
  show "memory_ok (st_put memory_ops s e f)" "memory_ok (st_delete_through memory_ops s e)"
    "memory_ok (st_save_cursor memory_ops s e)"
    using ok by (auto simp: memory_ok_def memory_ops_def ms_put_def ms_delete_through_def ms_save_cursor_def
        distinct_update distinct_map_filter)
  show "memory_view (st_put memory_ops s e f) = (memory_view s)(e \<mapsto> f)"
    by (simp add: memory_view_def memory_ops_def ms_put_def update_conv')
  show "memory_view (st_delete_through memory_ops s e) = (\<lambda>x. if x \<le> e then None else memory_view s x)"
    by (auto simp: memory_view_def memory_ops_def ms_delete_through_def map_of_filter_key fun_eq_iff)
  have "map_of (ms_entries s) x = Some y \<longleftrightarrow> (x, y) \<in> set (ms_entries s)" for x y
    using ok by (simp add: memory_ok_def)
  then have "map_of (ms_entries s) x = Some y \<Longrightarrow> x \<in> fst ` set (ms_entries s)" for x y by force
  moreover have "\<exists>y. map_of (ms_entries s) x = Some y" if "x \<in> fst ` set (ms_entries s)" for x
    using that by (metis map_of_eq_None_iff not_None_eq)
  ultimately show "set (st_scan_after memory_ops s c) = {(e, f). memory_view s e = Some f \<and> c < e}"
    unfolding memory_ops_def ms_scan_after_def memory_view_def by (auto simp: image_iff) force
  have "sorted (filter (\<lambda>e. c < e) (sort (map fst (ms_entries s))))" by (intro sorted_wrt_filter) simp
  then show "sorted_wrt (<) (map fst (st_scan_after memory_ops s c))"
    using ok by (simp add: memory_ops_def ms_scan_after_def comp_def strict_sorted_iff memory_ok_def)
next
  fix s :: "'a memory_store" and e f
  show "st_load_cursor memory_ops (st_put memory_ops s e f) = st_load_cursor memory_ops s"
    "st_load_cursor memory_ops (st_delete_through memory_ops s e) = st_load_cursor memory_ops s"
    "memory_view (st_save_cursor memory_ops s e) = memory_view s"
    by (simp_all add: memory_ops_def ms_put_def ms_delete_through_def ms_save_cursor_def memory_view_def)
  show "st_load_cursor memory_ops s \<le> e \<Longrightarrow> st_load_cursor memory_ops (st_save_cursor memory_ops s e) = e"
    by (simp add: memory_ops_def ms_save_cursor_def)
qed

definition sqlite_ok :: "'f sqlite_db \<Rightarrow> bool" where
  "sqlite_ok d \<longleftrightarrow> distinct (map fst (db_outbox d))"

definition sqlite_view :: "string \<Rightarrow> 'f sqlite_db \<Rightarrow> int \<Rightarrow> 'f option" where
  "sqlite_view h d e = map_of (db_outbox d) (h, e)"

lemma distinct_map_sort: "distinct (map f xs) \<Longrightarrow> distinct (map f (sort_key g xs))"
  by (simp add: distinct_map)

lemma map_of_delete_rows:
  "map_of (filter (\<lambda>((g, x), f). g = h \<longrightarrow> \<not> x \<le> e) xs) (h', k) = (if h' = h \<and> k \<le> e then None else map_of xs (h', k))"
  by (induction xs) auto

interpretation sql: outbox_laws "sqlite_ops h" "sqlite_view h" sqlite_ok for h
proof unfold_locales
  fix d :: "'a sqlite_db" and e c f
  assume ok: "sqlite_ok d"
  show "sqlite_ok (st_put (sqlite_ops h) d e f)" "sqlite_ok (st_delete_through (sqlite_ops h) d e)"
    "sqlite_ok (st_save_cursor (sqlite_ops h) d e)"
    using ok by (auto simp: sqlite_ok_def sqlite_ops_def sq_put_def sq_delete_through_def sq_save_cursor_def
        distinct_update distinct_map_filter)
  show "sqlite_view h (st_put (sqlite_ops h) d e f) = (sqlite_view h d)(e \<mapsto> f)"
    by (auto simp: sqlite_view_def sqlite_ops_def sq_put_def update_conv' fun_eq_iff)
  show "sqlite_view h (st_delete_through (sqlite_ops h) d e) = (\<lambda>x. if x \<le> e then None else sqlite_view h d x)"
    by (simp add: sqlite_view_def sqlite_ops_def sq_delete_through_def fun_eq_iff map_of_delete_rows)
  let ?l = "map (\<lambda>((h', e), f). (e, f)) (filter (\<lambda>((h', e), f). h' = h \<and> e > c) (db_outbox d))"
  have "map_of (db_outbox d) (h, x) = Some y \<longleftrightarrow> ((h, x), y) \<in> set (db_outbox d)" for x y
    using ok by (simp add: sqlite_ok_def)
  then show "set (st_scan_after (sqlite_ops h) d c) = {(e, f). sqlite_view h d e = Some f \<and> c < e}"
    unfolding sqlite_ops_def sq_scan_after_def sqlite_view_def by (auto simp: image_iff)
  let ?f = "filter (\<lambda>((h', e), f). h' = h \<and> e > c) (db_outbox d)"
  have "map fst ?l = map snd (map fst ?f)" by (auto simp: comp_def case_prod_beta)
  moreover have "inj_on snd (set (map fst ?f))" by (auto simp: inj_on_def)
  moreover have "distinct (map fst ?f)" using ok by (simp add: sqlite_ok_def distinct_map_filter)
  ultimately have "distinct (map fst ?l)" by (simp only: distinct_map [of snd])
  then have "distinct (map fst (sort_key fst ?l))" by (rule distinct_map_sort)
  then show "sorted_wrt (<) (map fst (st_scan_after (sqlite_ops h) d c))"
    by (simp add: sqlite_ops_def sq_scan_after_def strict_sorted_iff sorted_sort_key)
next
  fix d :: "'a sqlite_db" and e f
  show "st_load_cursor (sqlite_ops h) (st_put (sqlite_ops h) d e f) = st_load_cursor (sqlite_ops h) d"
    "st_load_cursor (sqlite_ops h) (st_delete_through (sqlite_ops h) d e) = st_load_cursor (sqlite_ops h) d"
    "sqlite_view h (st_save_cursor (sqlite_ops h) d e) = sqlite_view h d"
    by (simp_all add: sqlite_ops_def sq_put_def sq_delete_through_def sq_save_cursor_def sqlite_view_def
        sq_load_cursor_def fun_eq_iff)
  show "st_load_cursor (sqlite_ops h) d \<le> e \<Longrightarrow> st_load_cursor (sqlite_ops h) (st_save_cursor (sqlite_ops h) d e) = e"
    by (auto simp: sqlite_ops_def sq_save_cursor_def sq_load_cursor_def update_conv' split: option.splits)
qed

text \<open>A store leaves the rows of other documents alone.\<close>

lemma sqlite_isolated:
  assumes "h' \<noteq> h"
  shows "sqlite_view h' (st_put (sqlite_ops h) d e f) = sqlite_view h' d"
    and "sqlite_view h' (st_delete_through (sqlite_ops h) d e) = sqlite_view h' d"
    and "sqlite_view h' (st_save_cursor (sqlite_ops h) d e) = sqlite_view h' d"
    and "st_load_cursor (sqlite_ops h') (st_save_cursor (sqlite_ops h) d e) = st_load_cursor (sqlite_ops h') d"
proof -
  show "sqlite_view h' (st_delete_through (sqlite_ops h) d e) = sqlite_view h' d"
    using assms by (simp add: sqlite_view_def sqlite_ops_def sq_delete_through_def fun_eq_iff map_of_delete_rows)
qed (use assms in \<open>simp_all add: sqlite_view_def sqlite_ops_def sq_put_def sq_save_cursor_def sq_load_cursor_def
      update_conv' fun_eq_iff\<close>)

section \<open>The receiver tracks the sender\<close>

text \<open>
  The host of a receiver replaces its projection by an applied snapshot and patches it with an
  applied delta.
\<close>

definition host_fold :: "('n \<Rightarrow> 'x) \<Rightarrow> ('o \<Rightarrow> 'x \<Rightarrow> 'x) \<Rightarrow> coordinator \<times> 'x \<Rightarrow> ('n, 'o, 'c) ipc_message \<Rightarrow> coordinator \<times> 'x" where
  "host_fold adopt patch r m =
     (case ingest (fst r) m of
        (c, Apply) \<Rightarrow> (c, case im_snapshot m of Some s \<Rightarrow> adopt (sn_content s)
                        | None \<Rightarrow> (case im_delta m of Some d \<Rightarrow> patch (sd_ops d) (snd r) | None \<Rightarrow> snd r))
      | (c, _) \<Rightarrow> (c, snd r))"

text \<open>A frame of a sender whose state at epoch \<open>e\<close> is \<open>st e\<close>.\<close>

definition truthful :: "('n \<Rightarrow> 'x) \<Rightarrow> ('o \<Rightarrow> 'x \<Rightarrow> 'x) \<Rightarrow> (int \<Rightarrow> 'x) \<Rightarrow> ('n, 'o, 'c) ipc_message \<Rightarrow> bool" where
  "truthful adopt patch st m \<longleftrightarrow>
     (case im_snapshot m of Some s \<Rightarrow> adopt (sn_content s) = st (sn_epoch s)
      | None \<Rightarrow> (case im_delta m of Some d \<Rightarrow> patch (sd_ops d) (st (sd_base_epoch d)) = st (sd_epoch d) | None \<Rightarrow> True))"

lemma host_fold_tracks:
  assumes "truthful adopt patch st m" and "snd r = st (co_last_epoch (fst r))"
  shows "snd (host_fold adopt patch r m) = st (co_last_epoch (fst (host_fold adopt patch r m)))"
  using assms
  by (auto simp: host_fold_def truthful_def ingest_def ingest_snapshot_def ingest_delta_def split: option.splits if_splits)

lemma host_run_tracks:
  "list_all (truthful adopt patch st) ms \<Longrightarrow> snd r = st (co_last_epoch (fst r)) \<Longrightarrow>
     snd (foldl (host_fold adopt patch) r ms) = st (co_last_epoch (fst (foldl (host_fold adopt patch) r ms)))"
proof (induction ms arbitrary: r)
  case (Cons m ms)
  then show ?case using Cons.IH [OF _ host_fold_tracks [of adopt patch st m r]] by simp
qed simp

text \<open>A chain of deltas from epoch \<open>b\<close>, and what the receiver makes of it.\<close>

fun delta_chain :: "int \<Rightarrow> (int \<times> ('n, 'o, 'c) ipc_message) list \<Rightarrow> bool" where
  "delta_chain b [] \<longleftrightarrow> True"
| "delta_chain b ((e, m) # ms) \<longleftrightarrow>
     (\<exists>os. m = of_delta \<lparr>sd_base_epoch = b, sd_epoch = e, sd_ops = os\<rparr>) \<and> b < e \<and> delta_chain e ms"

definition head_epoch :: "int \<Rightarrow> (int \<times> 'm) list \<Rightarrow> int" where
  "head_epoch b ms = (if ms = [] then b else fst (last ms))"

lemma head_epoch_Cons [simp]: "head_epoch b ((e, m) # ms) = head_epoch e ms" "head_epoch b [] = b"
  by (simp_all add: head_epoch_def)

lemma head_epoch_append [simp]: "head_epoch b (xs @ ys) = head_epoch (head_epoch b xs) ys"
  by (simp add: head_epoch_def)

lemma delta_chain_append: "delta_chain b (xs @ ys) \<longleftrightarrow> delta_chain b xs \<and> delta_chain (head_epoch b xs) ys"
  by (induction b xs rule: delta_chain.induct) auto

lemma delta_chain_sorted: "delta_chain b ms \<Longrightarrow> sorted_wrt (<) (b # map fst ms)"
proof (induction b ms rule: delta_chain.induct)
  case (2 b e m ms)
  then show ?case by (auto intro: less_trans)
qed simp

lemma ingest_of_delta: "ingest c (of_delta d) = ingest_delta c d"
  by (simp add: ingest_def of_delta_def no_message_def)

text \<open>Frames the receiver has already are ignored, and the rest applied, up to the head.\<close>

lemma chain_ignored:
  "delta_chain b ms \<Longrightarrow> head_epoch b ms \<le> co_last_epoch c \<Longrightarrow>
     foldl (\<lambda>c m. fst (ingest c m)) c (map snd ms) = c"
proof (induction b ms rule: delta_chain.induct)
  case (2 b e m ms)
  have "b < e" using 2(2) by auto
  moreover have "e \<le> head_epoch e ms"
    using 2(2) delta_chain_sorted [of e ms] last_in_set [of ms] by (fastforce simp: head_epoch_def)
  ultimately have "ingest c m = (c, Ignore)" using 2(2,3) by (auto simp: ingest_of_delta ingest_delta_def)
  then show ?case using 2 by simp
qed simp

lemma chain_applied:
  "delta_chain (co_last_epoch c) ms \<Longrightarrow> ms \<noteq> [] \<Longrightarrow>
     foldl (\<lambda>c m. fst (ingest c m)) c (map snd ms) = co_with_epoch (head_epoch (co_last_epoch c) ms)"
proof (induction ms arbitrary: c)
  case (Cons x ms)
  obtain e m where x: "x = (e, m)" by fastforce
  then have "fst (ingest c m) = co_with_epoch e"
    using Cons.prems by (auto simp: ingest_of_delta ingest_delta_def co_with_epoch_def)
  then show ?case using Cons.IH [of "co_with_epoch e"] Cons.prems x by (cases ms) (auto simp: co_with_epoch_def)
qed simp

lemma host_fold_coordinator: "fst (foldl (host_fold adopt patch) r ms) = foldl (\<lambda>c m. fst (ingest c m)) (fst r) ms"
  by (induction ms arbitrary: r) (auto simp: host_fold_def split: prod.split resync_action.split)

text \<open>While a request is outstanding no further request is made.\<close>

lemma resync_once:
  assumes "co_resyncing c" and "ingest c m = (c', a)"
  shows "(\<nexists>e. a = RequestSnapshot e) \<and> (co_resyncing c' \<longleftrightarrow> a \<noteq> Apply)"
  using assms by (auto simp: ingest_def ingest_snapshot_def ingest_delta_def split: option.splits if_splits)

section \<open>Liveness cells\<close>

interpretation or_cells: join_crdt or_join "\<lambda>s. s" "\<lambda>s. True"
  by unfold_locales (auto simp: or_join_def)

lemma or_add_wins: "t \<notin> set ts \<Longrightarrow> t \<notin> or_removes a \<Longrightarrow> t \<notin> or_removes b \<Longrightarrow>
    or_present (or_join (or_add a t) (or_remove_observed b ts))"
  by (auto simp: or_present_def or_join_def or_add_def or_remove_observed_def)

lemma wl_join_stamp: "wl_stamp (wl_join a b) = max (wl_stamp a) (wl_stamp b)"
  by (auto simp: wl_join_def max_def less_eq_stamp_def)

text \<open>A stamp belongs to one write \<open>w\<close>.\<close>

interpretation wire_cells: join_crdt wl_join wl_stamp "\<lambda>r. wl_value r = w (wl_stamp r)" for w
proof unfold_locales
  fix a b :: "'a wire_lww"
  assume "wl_value a = w (wl_stamp a)" "wl_value b = w (wl_stamp b)"
  then show "wl_value (wl_join a b) = w (wl_stamp (wl_join a b))" by (simp add: wl_join_def)
qed (simp_all add: wl_join_stamp max.commute max.left_commute)

end
