(* ===== verification/SyncDriver.thy ===== *)
theory SyncDriver
  imports ReliableSync
begin

text \<open>
  The \<^verbatim>\<open>SyncDriver\<close> of \<^verbatim>\<open>src/lazily/reliable_sync.py\<close>: one pass replays after a reconnect,
  drains what the host staged, receives, and acknowledges.
\<close>

section \<open>Transport\<close>

text \<open>
  A send succeeds when the head of \<open>io_up\<close> says so, or when there is no more to say. A read
  of an exhausted source gives \<open>None\<close>; a failing read is \<open>Inl\<close>.
\<close>

record 'm transport_io =
  io_up :: "bool list"
  io_sent :: "('m \<times> bool) list"
  io_in :: "(unit + 'm) list"

definition sink_send :: "'m transport_io \<Rightarrow> 'm \<Rightarrow> 'm transport_io \<times> bool" where
  "sink_send io m =
     (let ok = (case io_up io of [] \<Rightarrow> True | b # bs \<Rightarrow> b)
      in (io\<lparr>io_up := tl (io_up io), io_sent := io_sent io @ [(m, ok)]\<rparr>, ok))"

section \<open>The driver\<close>

record ('s, 'm) sync_driver =
  dr_outbox :: "'s outbox"
  dr_coordinator :: coordinator
  dr_pending :: "(int \<times> 'm) list"
  dr_peer_acked_through :: int
  dr_ack_owed :: bool
  dr_replay_pending :: bool
  dr_stalled_since :: "int option"

record 'm progress =
  pr_sent :: nat
  pr_applied :: "'m list"
  pr_resync_requested :: bool
  pr_snapshots_served :: nat
  pr_peer_acked_through :: int
  pr_retained :: nat

definition progress_new :: "'m progress" where
  "progress_new = \<lparr>pr_sent = 0, pr_applied = [], pr_resync_requested = False, pr_snapshots_served = 0,
     pr_peer_acked_through = 0, pr_retained = 0\<rparr>"

definition driver_new :: "'s outbox \<Rightarrow> int \<Rightarrow> ('s, 'm) sync_driver" where
  "driver_new b last_epoch = \<lparr>dr_outbox = b, dr_coordinator = co_with_epoch last_epoch, dr_pending = [],
     dr_peer_acked_through = 0, dr_ack_owed = False, dr_replay_pending = False, dr_stalled_since = None\<rparr>"

definition driver_enqueue :: "('s, 'm) sync_driver \<Rightarrow> int \<Rightarrow> 'm \<Rightarrow> ('s, 'm) sync_driver" where
  "driver_enqueue d e m = d\<lparr>dr_pending := dr_pending d @ [(e, m)]\<rparr>"

definition driver_on_reconnect :: "('s, 'm) sync_driver \<Rightarrow> ('s, 'm) sync_driver" where
  "driver_on_reconnect d = d\<lparr>dr_replay_pending := True, dr_ack_owed := True, dr_stalled_since := None\<rparr>"

definition driver_is_stalled :: "('s, 'm) sync_driver \<Rightarrow> bool" where
  "driver_is_stalled d \<longleftrightarrow> dr_stalled_since d \<noteq> None"

definition driver_stalled_for :: "('s, 'm) sync_driver \<Rightarrow> int \<Rightarrow> int" where
  "driver_stalled_for d now = (case dr_stalled_since d of None \<Rightarrow> 0 | Some t \<Rightarrow> max 0 (now - t))"

text \<open>Step 1: the unacknowledged suffix, oldest first, until a send fails.\<close>

fun replay_sends :: "int \<Rightarrow> (int \<times> 'm) list \<Rightarrow> ('s, 'm) sync_driver \<Rightarrow> 'm transport_io \<Rightarrow> 'm progress \<Rightarrow>
    ('s, 'm) sync_driver \<times> 'm transport_io \<times> 'm progress" where
  "replay_sends now [] d io p = (d, io, p)"
| "replay_sends now ((e, m) # fs) d io p =
     (let (io', ok) = sink_send io m
      in if ok then replay_sends now fs d io' (p\<lparr>pr_sent := pr_sent p + 1\<rparr>)
         else (d\<lparr>dr_stalled_since := Some now, dr_replay_pending := True\<rparr>, io', p))"

definition replay_phase :: "('s, 'f) outbox_store \<Rightarrow> ('f \<Rightarrow> 'm option) \<Rightarrow> int \<Rightarrow> ('s, 'm) sync_driver \<Rightarrow>
    'm transport_io \<Rightarrow> 'm progress \<Rightarrow> ('s, 'm) sync_driver \<times> 'm transport_io \<times> (sync_error + 'm progress)" where
  "replay_phase S dec now d io p =
     (if dr_replay_pending d
      then let (b, r) = outbox_replay_from S dec (dr_outbox d) (dr_peer_acked_through d);
               d1 = d\<lparr>dr_replay_pending := False, dr_outbox := b\<rparr>
           in (case r of
                 Inl x \<Rightarrow> (d1, io, Inl x)
               | Inr fs \<Rightarrow> (let (d2, io2, p2) = replay_sends now fs d1 io p in (d2, io2, Inr p2)))
      else (d, io, Inr p))"

text \<open>Step 2: append each staged frame, then send it; a failed send stops the drain.\<close>

fun drain_sends :: "('s, 'f) outbox_store \<Rightarrow> ('m \<Rightarrow> 'f option) \<Rightarrow> int \<Rightarrow> (int \<times> 'm) list \<Rightarrow>
    ('s, 'm) sync_driver \<Rightarrow> 'm transport_io \<Rightarrow> 'm progress \<Rightarrow>
    ('s, 'm) sync_driver \<times> 'm transport_io \<times> (sync_error + 'm progress)" where
  "drain_sends S enc now [] d io p = (d, io, Inr p)"
| "drain_sends S enc now ((e, m) # ps) d io p =
     (if dr_stalled_since d \<noteq> None then (d, io, Inr p)
      else case outbox_append S enc (dr_outbox d) e m of
          Inl x \<Rightarrow> (d, io, Inl x)
        | Inr b \<Rightarrow>
            let d1 = d\<lparr>dr_outbox := b, dr_pending := ps\<rparr>; (io', ok) = sink_send io m
            in if ok then drain_sends S enc now ps d1 io' (p\<lparr>pr_sent := pr_sent p + 1\<rparr>)
               else (d1\<lparr>dr_stalled_since := Some now\<rparr>, io', Inr p))"

definition drain_phase :: "('s, 'f) outbox_store \<Rightarrow> ('m \<Rightarrow> 'f option) \<Rightarrow> int \<Rightarrow> ('s, 'm) sync_driver \<Rightarrow>
    'm transport_io \<Rightarrow> 'm progress \<Rightarrow> ('s, 'm) sync_driver \<times> 'm transport_io \<times> (sync_error + 'm progress)" where
  "drain_phase S enc now d io p = drain_sends S enc now (dr_pending d) d io p"

text \<open>Step 3: one inbound message, routed by its variant.\<close>

definition receive_one :: "('s, 'f) outbox_store \<Rightarrow> (int \<Rightarrow> ('n, 'o, 'c) ipc_message) \<Rightarrow> int \<Rightarrow>
    ('n, 'o, 'c) ipc_message \<Rightarrow> ('s, ('n, 'o, 'c) ipc_message) sync_driver \<Rightarrow>
    ('n, 'o, 'c) ipc_message transport_io \<Rightarrow> ('n, 'o, 'c) ipc_message progress \<Rightarrow>
    ('s, ('n, 'o, 'c) ipc_message) sync_driver \<times> ('n, 'o, 'c) ipc_message transport_io \<times>
    (sync_error + ('n, 'o, 'c) ipc_message progress)" where
  "receive_one S prov now m d io p =
     (case im_outbox_ack m of
        Some e \<Rightarrow>
          (d\<lparr>dr_peer_acked_through := (if e > dr_peer_acked_through d then e else dr_peer_acked_through d),
             dr_outbox := outbox_ack_through S (dr_outbox d) e\<rparr>, io, Inr p)
      | None \<Rightarrow> (case im_resync_request m of
        Some e \<Rightarrow>
          (let (io', ok) = sink_send io (prov e)
           in if ok then (d, io', Inr (p\<lparr>pr_snapshots_served := pr_snapshots_served p + 1\<rparr>))
              else (d\<lparr>dr_stalled_since := Some now\<rparr>, io', Inr p))
      | None \<Rightarrow>
          if im_crdt_sync m \<noteq> None then (d, io, Inr (p\<lparr>pr_applied := pr_applied p @ [m]\<rparr>))
          else if im_snapshot m \<noteq> None \<or> im_delta m \<noteq> None
          then (let (c, a) = ingest (dr_coordinator d) m; d1 = d\<lparr>dr_coordinator := c\<rparr>
                in case a of
                     Apply \<Rightarrow> (d1\<lparr>dr_ack_owed := True\<rparr>, io, Inr (p\<lparr>pr_applied := pr_applied p @ [m]\<rparr>))
                   | RequestSnapshot e \<Rightarrow>
                       (let (io', ok) = sink_send io (of_resync_request e)
                        in if ok then (d1, io', Inr (p\<lparr>pr_resync_requested := True\<rparr>))
                           else (d1\<lparr>dr_stalled_since := Some now\<rparr>, io', Inr p))
                   | Ignore \<Rightarrow> (d1, io, Inr p))
          else (d, io, Inl NoVariant)))"

fun receive_loop :: "('s, 'f) outbox_store \<Rightarrow> (int \<Rightarrow> ('n, 'o, 'c) ipc_message) \<Rightarrow> int \<Rightarrow>
    (unit + ('n, 'o, 'c) ipc_message) list \<Rightarrow> ('s, ('n, 'o, 'c) ipc_message) sync_driver \<Rightarrow>
    ('n, 'o, 'c) ipc_message transport_io \<Rightarrow> ('n, 'o, 'c) ipc_message progress \<Rightarrow>
    ('s, ('n, 'o, 'c) ipc_message) sync_driver \<times> ('n, 'o, 'c) ipc_message transport_io \<times>
    (sync_error + ('n, 'o, 'c) ipc_message progress)" where
  "receive_loop S prov now [] d io p = (d, io, Inr p)"
| "receive_loop S prov now (Inl u # ins) d io p = (d, io\<lparr>io_in := ins\<rparr>, Inl SourceError)"
| "receive_loop S prov now (Inr m # ins) d io p =
     (case receive_one S prov now m d (io\<lparr>io_in := ins\<rparr>) p of
        (d', io', Inl x) \<Rightarrow> (d', io', Inl x)
      | (d', io', Inr p') \<Rightarrow> receive_loop S prov now ins d' io' p')"

text \<open>Step 4: the acknowledgement, and the closing figures.\<close>

definition ack_phase :: "('s, 'f) outbox_store \<Rightarrow> ('s, ('n, 'o, 'c) ipc_message) sync_driver \<Rightarrow>
    ('n, 'o, 'c) ipc_message transport_io \<Rightarrow> ('n, 'o, 'c) ipc_message progress \<Rightarrow>
    ('s, ('n, 'o, 'c) ipc_message) sync_driver \<times> ('n, 'o, 'c) ipc_message transport_io \<times>
    ('n, 'o, 'c) ipc_message progress" where
  "ack_phase S d io p =
     (let (d1, io1) =
            (if dr_ack_owed d
             then let (io', ok) = sink_send io (co_ack (dr_coordinator d))
                  in (if ok then d\<lparr>dr_ack_owed := False\<rparr> else d, io')
             else (d, io));
          (b, es) = outbox_retained_epochs S (dr_outbox d1)
      in (d1\<lparr>dr_outbox := b\<rparr>, io1,
          p\<lparr>pr_peer_acked_through := dr_peer_acked_through d1, pr_retained := length es\<rparr>))"

definition driver_tick :: "('s, 'f) outbox_store \<Rightarrow> (('n, 'o, 'c) ipc_message \<Rightarrow> 'f option) \<Rightarrow>
    ('f \<Rightarrow> ('n, 'o, 'c) ipc_message option) \<Rightarrow> (int \<Rightarrow> ('n, 'o, 'c) ipc_message) \<Rightarrow> int \<Rightarrow>
    ('s, ('n, 'o, 'c) ipc_message) sync_driver \<Rightarrow> ('n, 'o, 'c) ipc_message transport_io \<Rightarrow>
    ('s, ('n, 'o, 'c) ipc_message) sync_driver \<times> ('n, 'o, 'c) ipc_message transport_io \<times>
    (sync_error + ('n, 'o, 'c) ipc_message progress)" where
  "driver_tick S enc dec prov now d io =
     (case replay_phase S dec now d io progress_new of
        (d1, io1, Inl x) \<Rightarrow> (d1, io1, Inl x)
      | (d1, io1, Inr p1) \<Rightarrow>
          (case drain_phase S enc now d1 io1 p1 of
             (d2, io2, Inl x) \<Rightarrow> (d2, io2, Inl x)
           | (d2, io2, Inr p2) \<Rightarrow>
               (case receive_loop S prov now (io_in io2) d2 io2 p2 of
                  (d3, io3, Inl x) \<Rightarrow> (d3, io3, Inl x)
                | (d3, io3, Inr p3) \<Rightarrow>
                    (let (d4, io4, p4) = ack_phase S d3 io3 p3 in (d4, io4, Inr p4)))))"

chapter \<open>Properties\<close>

text \<open>
  The driver loses no frame: in every state it reaches over any store that keeps the contract,
  its outbox holds exactly the drained frames that are not acknowledged, and the pass after a
  reconnect sends them in order.
\<close>

section \<open>Reachable drivers\<close>

text \<open>
  A driver with the frames \<open>ap\<close> it has drained so far. The host stages frames at rising epochs;
  a restart loses what is only staged and keeps the store.
\<close>

inductive sync_reach :: "('s, 'f) outbox_store \<Rightarrow> ('s \<Rightarrow> bool) \<Rightarrow> (('n, 'o, 'c) ipc_message \<Rightarrow> 'f option) \<Rightarrow>
    ('f \<Rightarrow> ('n, 'o, 'c) ipc_message option) \<Rightarrow> (int \<Rightarrow> ('n, 'o, 'c) ipc_message) \<Rightarrow>
    ('s, ('n, 'o, 'c) ipc_message) sync_driver \<Rightarrow> (int \<times> ('n, 'o, 'c) ipc_message) list \<Rightarrow> bool"
  for S fresh enc dec prov where
  start: "fresh s \<Longrightarrow> sync_reach S fresh enc dec prov (driver_new (outbox_open S s) ep) []"
| enqueue: "sync_reach S fresh enc dec prov d ap \<Longrightarrow> \<forall>x\<in>set (ap @ dr_pending d). fst x < e \<Longrightarrow>
    enc m = Some f \<Longrightarrow> dec f = Some m \<Longrightarrow> sync_reach S fresh enc dec prov (driver_enqueue d e m) ap"
| reconnect: "sync_reach S fresh enc dec prov d ap \<Longrightarrow> sync_reach S fresh enc dec prov (driver_on_reconnect d) ap"
| tick: "sync_reach S fresh enc dec prov d ap \<Longrightarrow> driver_tick S enc dec prov now d io = (d', io', r) \<Longrightarrow>
    sync_reach S fresh enc dec prov d' (ap @ take (length (dr_pending d) - length (dr_pending d')) (dr_pending d))"
| restart: "sync_reach S fresh enc dec prov d ap \<Longrightarrow>
    sync_reach S fresh enc dec prov (driver_new (outbox_open S (ob_store (dr_outbox d))) ep) ap"

section \<open>The invariant\<close>

context outbox_laws
begin

definition drv_inv :: "('m \<Rightarrow> 'f option) \<Rightarrow> ('f \<Rightarrow> 'm option) \<Rightarrow> ('s, 'm) sync_driver \<Rightarrow> (int \<times> 'm) list \<Rightarrow> bool" where
  "drv_inv enc dec d ap \<longleftrightarrow> outbox_ok (dr_outbox d) \<and> 0 \<le> acked (dr_outbox d) \<and>
     dr_peer_acked_through d \<le> acked (dr_outbox d) \<and> sorted_wrt (<) (map fst (ap @ dr_pending d)) \<and>
     (\<forall>e m. (e, m) \<in> set (ap @ dr_pending d) \<longrightarrow> (\<exists>f. enc m = Some f \<and> dec f = Some m)) \<and>
     (\<forall>e. frames (dr_outbox d) e =
        (if acked (dr_outbox d) < e then Option.bind (map_of ap e) enc else None))"

definition unacked :: "('s, 'm) sync_driver \<Rightarrow> (int \<times> 'm) list \<Rightarrow> (int \<times> 'm) list" where
  "unacked d ap = filter (\<lambda>(e, m). acked (dr_outbox d) < e) ap"

lemma drv_inv_same:
  "drv_inv enc dec d ap \<Longrightarrow> dr_outbox d' = dr_outbox d \<Longrightarrow> dr_peer_acked_through d' = dr_peer_acked_through d \<Longrightarrow>
     dr_pending d' = dr_pending d \<Longrightarrow> drv_inv enc dec d' ap"
  by (simp add: drv_inv_def)

lemma drv_inv_outbox:
  "drv_inv enc dec d ap \<Longrightarrow> outbox_ok b \<Longrightarrow> acked b = acked (dr_outbox d) \<Longrightarrow> frames b = frames (dr_outbox d) \<Longrightarrow>
     drv_inv enc dec (d\<lparr>dr_outbox := b\<rparr>) ap"
  by (simp add: drv_inv_def)

lemma replay_unacked:
  assumes "drv_inv enc dec d ap"
  shows "\<exists>b. outbox_replay_from S dec (dr_outbox d) (dr_peer_acked_through d) = (b, Inr (unacked d ap)) \<and>
    outbox_ok b \<and> acked b = acked (dr_outbox d) \<and> frames b = frames (dr_outbox d)"
proof (rule replay_spec)
  let ?b = "dr_outbox d"
  have inv: "outbox_ok ?b" "dr_peer_acked_through d \<le> acked ?b" "sorted_wrt (<) (map fst ap)"
    "\<And>e m. (e, m) \<in> set ap \<Longrightarrow> \<exists>f. enc m = Some f \<and> dec f = Some m"
    "\<And>e. frames ?b e = (if acked ?b < e then Option.bind (map_of ap e) enc else None)"
    using assms by (auto simp: drv_inv_def sorted_wrt_append)
  have d: "distinct (map fst ap)" using inv(3) by (simp add: strict_sorted_iff)
  show "outbox_ok ?b" by (rule inv(1))
  show "sorted_wrt (<) (map fst (unacked d ap))"
    using inv(3) unfolding unacked_def by (induction ap) auto
  show fr: "\<exists>f. frames ?b e = Some f \<and> dec f = Some m" if "(e, m) \<in> set (unacked d ap)" for e m
    using that inv(4) [of e m] d by (auto simp: unacked_def inv(5))
  show "(\<exists>m. (e, m) \<in> set (unacked d ap)) \<longleftrightarrow> frames ?b e \<noteq> None \<and> dr_peer_acked_through d < e" for e
  proof
    assume "\<exists>m. (e, m) \<in> set (unacked d ap)"
    then show "frames ?b e \<noteq> None \<and> dr_peer_acked_through d < e"
      using fr inv(2) by (auto simp: unacked_def)
  next
    assume "frames ?b e \<noteq> None \<and> dr_peer_acked_through d < e"
    then show "\<exists>m. (e, m) \<in> set (unacked d ap)"
      by (auto simp: inv(5) unacked_def bind_eq_Some_conv dest: map_of_SomeD split: if_splits)
  qed
qed

section \<open>The phases\<close>

lemma replay_sends_state:
  "replay_sends now fs d io p = (d', io', p') \<Longrightarrow>
     dr_outbox d' = dr_outbox d \<and> dr_peer_acked_through d' = dr_peer_acked_through d \<and> dr_pending d' = dr_pending d"
  by (induction now fs d io p rule: replay_sends.induct) (auto simp: Let_def split: prod.splits if_splits)

lemma replay_phase_inv:
  assumes inv: "drv_inv enc dec d ap" and r: "replay_phase S dec now d io p = (d', io', x)"
  shows "drv_inv enc dec d' ap \<and> dr_pending d' = dr_pending d"
proof -
  obtain b where b: "outbox_replay_from S dec (dr_outbox d) (dr_peer_acked_through d) = (b, Inr (unacked d ap))"
    "outbox_ok b" "acked b = acked (dr_outbox d)" "frames b = frames (dr_outbox d)"
    using replay_unacked [OF inv] by blast
  show ?thesis
  proof (cases "dr_replay_pending d")
    case True
    have "drv_inv enc dec (d\<lparr>dr_outbox := b\<rparr>) ap" by (rule drv_inv_outbox [OF inv b(2-4)])
    then show ?thesis using r True b(1) replay_sends_state
      by (fastforce simp: replay_phase_def Let_def split: prod.splits elim!: drv_inv_same)
  qed (use inv r in \<open>auto simp: replay_phase_def\<close>)
qed

lemma drain_one:
  assumes inv: "drv_inv enc dec d ap" and p: "dr_pending d = (e, m) # ps"
  shows "\<exists>b. outbox_append S enc (dr_outbox d) e m = Inr b \<and>
    drv_inv enc dec (d\<lparr>dr_outbox := b, dr_pending := ps\<rparr>) (ap @ [(e, m)]) \<and> acked b = acked (dr_outbox d)"
proof -
  have "(e, m) \<in> set (ap @ dr_pending d)" using p by simp
  then obtain f where f: "enc m = Some f" using inv unfolding drv_inv_def by blast
  obtain b where b: "outbox_append S enc (dr_outbox d) e m = Inr b" "outbox_ok b" "acked b = acked (dr_outbox d)"
    "frames b = (if acked (dr_outbox d) < e then (frames (dr_outbox d))(e \<mapsto> f) else frames (dr_outbox d))"
    using append_spec [of "dr_outbox d" enc m f e] f inv unfolding drv_inv_def by blast
  have "e \<notin> fst ` set ap" using inv p by (auto simp: drv_inv_def sorted_wrt_append)
  then have "map_of ap e = None" by (simp add: map_of_eq_None_iff)
  then have "Option.bind (map_of (ap @ [(e, m)]) x) enc = (if x = e then Some f else Option.bind (map_of ap x) enc)" for x
    using f by (auto simp: map_add_def split: option.split)
  then show ?thesis using b inv p by (auto simp: drv_inv_def)
qed

lemma drain_sends_inv:
  "drv_inv enc dec d ap \<Longrightarrow> dr_pending d = ps \<Longrightarrow> drain_sends S enc now ps d io p = (d', io', x) \<Longrightarrow>
     \<exists>qs. ps = qs @ dr_pending d' \<and> drv_inv enc dec d' (ap @ qs)"
proof (induction ps arbitrary: d io p ap)
  case (Cons y ps)
  obtain e m where y: "y = (e, m)" by fastforce
  show ?case
  proof (cases "dr_stalled_since d")
    case None
    obtain b where b: "outbox_append S enc (dr_outbox d) e m = Inr b"
      "drv_inv enc dec (d\<lparr>dr_outbox := b, dr_pending := ps\<rparr>) (ap @ [(e, m)])"
      using drain_one [OF Cons.prems(1)] Cons.prems(2) y by blast
    let ?d = "d\<lparr>dr_outbox := b, dr_pending := ps\<rparr>"
    obtain io1 sent where s: "sink_send io m = (io1, sent)" by fastforce
    show ?thesis
    proof (cases sent)
      case True
      then have "drain_sends S enc now ps ?d io1 (p\<lparr>pr_sent := pr_sent p + 1\<rparr>) = (d', io', x)"
        using Cons.prems(3) y None b(1) s by simp
      then obtain qs where "ps = qs @ dr_pending d'" "drv_inv enc dec d' ((ap @ [(e, m)]) @ qs)"
        using Cons.IH [OF b(2)] by auto
      then show ?thesis using y by (intro exI [of _ "y # qs"]) simp
    next
      case False
      then have "d' = ?d\<lparr>dr_stalled_since := Some now\<rparr>" using Cons.prems(3) y None b(1) s by simp
      then show ?thesis using drv_inv_same [OF b(2), of d'] y by (intro exI [of _ "[y]"]) simp
    qed
  qed (use Cons.prems y in auto)
qed auto

lemma receive_one_inv:
  assumes inv: "drv_inv enc dec d ap" and r: "receive_one S prov now m d io p = (d', io', x)"
  shows "drv_inv enc dec d' ap \<and> dr_pending d' = dr_pending d"
proof (cases "im_outbox_ack m")
  case (Some e)
  have ok: "outbox_ok (dr_outbox d)" using inv by (simp add: drv_inv_def)
  note a = ack_spec [OF ok, of e]
  have "d' = d\<lparr>dr_peer_acked_through := (if e > dr_peer_acked_through d then e else dr_peer_acked_through d),
      dr_outbox := outbox_ack_through S (dr_outbox d) e\<rparr>"
    using r Some by (simp add: receive_one_def)
  then show ?thesis using a inv by (auto simp: drv_inv_def)
next
  case None
  then have "dr_outbox d' = dr_outbox d" "dr_peer_acked_through d' = dr_peer_acked_through d" "dr_pending d' = dr_pending d"
    using r by (auto simp: receive_one_def Let_def split: option.splits prod.splits if_splits resync_action.splits)
  then show ?thesis using drv_inv_same [OF inv] by simp
qed

lemma receive_loop_inv:
  "drv_inv enc dec d ap \<Longrightarrow> receive_loop S prov now ins d io p = (d', io', x) \<Longrightarrow>
     drv_inv enc dec d' ap \<and> dr_pending d' = dr_pending d"
proof (induction ins arbitrary: d io p)
  case (Cons i ins)
  show ?case
  proof (cases i)
    case (Inr m)
    obtain d1 io1 y where one: "receive_one S prov now m d (io\<lparr>io_in := ins\<rparr>) p = (d1, io1, y)"
      by (metis prod_cases3)
    note inv = receive_one_inv [OF Cons.prems(1) one]
    show ?thesis using Cons.prems(2) one inv Cons.IH [of d1] Inr by (cases y) auto
  qed (use Cons.prems in auto)
qed auto

lemma ack_phase_inv:
  assumes inv: "drv_inv enc dec d ap" and r: "ack_phase S d io p = (d', io', p')"
  shows "drv_inv enc dec d' ap \<and> dr_pending d' = dr_pending d"
proof -
  let ?d1 = "fst (if dr_ack_owed d then let (io', ok) = sink_send io (co_ack (dr_coordinator d))
      in (if ok then d\<lparr>dr_ack_owed := False\<rparr> else d, io') else (d, io))"
  have same: "dr_outbox ?d1 = dr_outbox d" "dr_peer_acked_through ?d1 = dr_peer_acked_through d" "dr_pending ?d1 = dr_pending d"
    by (auto simp: Let_def split: prod.split)
  have ok: "outbox_ok (dr_outbox d)" using inv by (simp add: drv_inv_def)
  obtain b es where b: "outbox_retained_epochs S (dr_outbox d) = (b, es)" "outbox_ok b" "acked b = acked (dr_outbox d)"
    "frames b = frames (dr_outbox d)" using retained_spec [OF ok] by blast
  have "d' = ?d1\<lparr>dr_outbox := b\<rparr>" using r b(1) same(1) by (auto simp: ack_phase_def Let_def split: prod.splits if_splits)
  then show ?thesis using same drv_inv_outbox [OF drv_inv_same [OF inv same] b(2)] b(3,4) by simp
qed

lemma tick_inv:
  assumes inv: "drv_inv enc dec d ap" and r: "driver_tick S enc dec prov now d io = (d', io', x)"
  shows "\<exists>qs. dr_pending d = qs @ dr_pending d' \<and> drv_inv enc dec d' (ap @ qs)"
proof -
  obtain d1 io1 x1 where 1: "replay_phase S dec now d io progress_new = (d1, io1, x1)" by (metis prod_cases3)
  note i1 = replay_phase_inv [OF inv 1]
  show ?thesis
  proof (cases x1)
    case (Inr p1)
    obtain d2 io2 x2 where 2: "drain_phase S enc now d1 io1 p1 = (d2, io2, x2)" by (metis prod_cases3)
    obtain qs where qs: "dr_pending d1 = qs @ dr_pending d2" "drv_inv enc dec d2 (ap @ qs)"
      using drain_sends_inv [OF conjunct1 [OF i1] refl 2 [unfolded drain_phase_def]] by blast
    show ?thesis
    proof (cases x2)
      case (Inr p2)
      obtain d3 io3 x3 where 3: "receive_loop S prov now (io_in io2) d2 io2 p2 = (d3, io3, x3)" by (metis prod_cases3)
      note i3 = receive_loop_inv [OF qs(2) 3]
      show ?thesis
      proof (cases x3)
        case Inl
        then show ?thesis using r 1 2 3 \<open>x1 = Inr p1\<close> \<open>x2 = Inr p2\<close> i1 i3 qs
          by (intro exI [of _ qs]) (simp add: driver_tick_def)
      next
        case (Inr p3)
        obtain d4 io4 p4 where 4: "ack_phase S d3 io3 p3 = (d4, io4, p4)" by (metis prod_cases3)
        have "d' = d4" using r 1 2 3 4 \<open>x1 = Inr p1\<close> \<open>x2 = Inr p2\<close> Inr by (simp add: driver_tick_def)
        then show ?thesis using ack_phase_inv [OF conjunct1 [OF i3] 4] i1 i3 qs by (intro exI [of _ qs]) simp
      qed
    next
      case (Inl y)
      then have "d' = d2" using r 1 2 \<open>x1 = Inr p1\<close> by (simp add: driver_tick_def)
      then show ?thesis using i1 qs by (intro exI [of _ qs]) simp
    qed
  qed (use r 1 i1 in \<open>auto simp: driver_tick_def\<close>)
qed

lemma drv_inv_start: "ok s \<Longrightarrow> view s = Map.empty \<Longrightarrow> 0 \<le> st_load_cursor S s \<Longrightarrow> drv_inv enc dec (driver_new (outbox_open S s) ep) []"
  using open_ok [of s] by (auto simp: drv_inv_def driver_new_def frames_def acked_def outbox_open_def)

lemma reach_inv:
  assumes "sync_reach S (\<lambda>s. ok s \<and> view s = Map.empty \<and> 0 \<le> st_load_cursor S s) enc dec prov d ap"
  shows "drv_inv enc dec d ap"
  using assms
proof (induction rule: sync_reach.induct)
  case (start s ep)
  then show ?case by (intro drv_inv_start) simp_all
next
  case (enqueue d ap e m f)
  let ?d = "driver_enqueue d e m"
  have d: "dr_outbox ?d = dr_outbox d" "dr_peer_acked_through ?d = dr_peer_acked_through d"
    "ap @ dr_pending ?d = (ap @ dr_pending d) @ [(e, m)]"
    by (simp_all add: driver_enqueue_def)
  have s: "sorted_wrt (<) (map fst ((ap @ dr_pending d) @ [(e, m)]))"
    using enqueue.IH enqueue.hyps(2) unfolding drv_inv_def map_append sorted_wrt_append by auto
  have c: "\<forall>x y. (x, y) \<in> set ((ap @ dr_pending d) @ [(e, m)]) \<longrightarrow> (\<exists>f. enc y = Some f \<and> dec f = Some y)"
    using enqueue.IH enqueue.hyps(3,4) unfolding drv_inv_def by simp
  have i: "outbox_ok (dr_outbox d)" "0 \<le> acked (dr_outbox d)" "dr_peer_acked_through d \<le> acked (dr_outbox d)"
    "\<forall>e. frames (dr_outbox d) e = (if acked (dr_outbox d) < e then Option.bind (map_of ap e) enc else None)"
    using enqueue.IH by (simp_all add: drv_inv_def)
  show ?case unfolding drv_inv_def d by (intro conjI i s c)
next
  case (reconnect d ap)
  show ?case by (rule drv_inv_same [OF reconnect.IH]) (simp_all add: driver_on_reconnect_def)
next
  case (tick d ap now io d' io' r)
  obtain qs where "dr_pending d = qs @ dr_pending d'" "drv_inv enc dec d' (ap @ qs)"
    using tick_inv [OF tick.IH tick.hyps(2)] by blast
  then show ?case by simp
next
  case (restart d ap ep)
  have ok: "outbox_ok (dr_outbox d)" using restart.IH by (simp add: drv_inv_def)
  let ?d = "driver_new (outbox_open S (ob_store (dr_outbox d))) ep"
  have d: "dr_outbox ?d = outbox_open S (ob_store (dr_outbox d))" "dr_peer_acked_through ?d = 0" "dr_pending ?d = []"
    by (simp_all add: driver_new_def)
  show ?case using restart.IH reopen [OF ok] unfolding drv_inv_def d
    by (simp add: sorted_wrt_append)
qed

section \<open>The pass after a reconnect\<close>

lemma replay_sends_up:
  "io_up io = [] \<Longrightarrow> replay_sends now fs d io p =
     (d, io\<lparr>io_up := [], io_sent := io_sent io @ map (\<lambda>(e, m). (m, True)) fs\<rparr>, p\<lparr>pr_sent := pr_sent p + length fs\<rparr>)"
  by (induction now fs d io p rule: replay_sends.induct) (auto simp: sink_send_def Let_def)

lemma drain_sends_up:
  "drv_inv enc dec d ap \<Longrightarrow> dr_pending d = ps \<Longrightarrow> dr_stalled_since d = None \<Longrightarrow> io_up io = [] \<Longrightarrow>
     \<exists>d'. drain_sends S enc now ps d io p = (d', io\<lparr>io_up := [], io_sent := io_sent io @ map (\<lambda>(e, m). (m, True)) ps\<rparr>,
         Inr (p\<lparr>pr_sent := pr_sent p + length ps\<rparr>)) \<and> dr_pending d' = [] \<and> dr_stalled_since d' = None \<and>
       acked (dr_outbox d') = acked (dr_outbox d) \<and> dr_ack_owed d' = dr_ack_owed d \<and> dr_coordinator d' = dr_coordinator d"
proof (induction ps arbitrary: d io p ap)
  case (Cons y ps)
  obtain e m where y: "y = (e, m)" by fastforce
  obtain b where b: "outbox_append S enc (dr_outbox d) e m = Inr b"
    "drv_inv enc dec (d\<lparr>dr_outbox := b, dr_pending := ps\<rparr>) (ap @ [(e, m)])" "acked b = acked (dr_outbox d)"
    using drain_one [OF Cons.prems(1)] Cons.prems(2) y by blast
  show ?case
    using Cons.IH [OF b(2), of "io\<lparr>io_up := [], io_sent := io_sent io @ [(m, True)]\<rparr>" "p\<lparr>pr_sent := pr_sent p + 1\<rparr>"] b Cons.prems y
    by (simp add: sink_send_def Let_def)
next
  case Nil
  then have "io\<lparr>io_up := []\<rparr> = io" by (cases io) simp
  then show ?case using Nil by simp
qed

text \<open>With a working sink it sends the unacknowledged frames, the staged ones and its cursor.\<close>

lemma reconnect_tick:
  assumes inv: "drv_inv enc dec d ap"
  shows "\<exists>d' io' p. driver_tick S enc dec prov now (driver_on_reconnect d) \<lparr>io_up = [], io_sent = [], io_in = []\<rparr> = (d', io', Inr p) \<and>
    io_sent io' = map (\<lambda>(e, m). (m, True)) (unacked d ap @ dr_pending d) @ [(co_ack (dr_coordinator d), True)] \<and>
    pr_sent p = length (unacked d ap @ dr_pending d) \<and> dr_pending d' = [] \<and> \<not> driver_is_stalled d' \<and> \<not> dr_ack_owed d'"
proof -
  let ?d = "driver_on_reconnect d" and ?io = "\<lparr>io_up = [], io_sent = [], io_in = []\<rparr>"
  have dinv: "drv_inv enc dec ?d ap" by (rule drv_inv_same [OF inv]) (simp_all add: driver_on_reconnect_def)
  have un: "unacked ?d ap = unacked d ap" by (simp add: unacked_def driver_on_reconnect_def)
  obtain b where b: "outbox_replay_from S dec (dr_outbox ?d) (dr_peer_acked_through ?d) = (b, Inr (unacked d ap))"
    "outbox_ok b" "acked b = acked (dr_outbox ?d)" "frames b = frames (dr_outbox ?d)"
    using replay_unacked [OF dinv] unfolding un by blast
  let ?d1 = "?d\<lparr>dr_replay_pending := False, dr_outbox := b\<rparr>"
  let ?io1 = "?io\<lparr>io_sent := map (\<lambda>(e, m). (m, True)) (unacked d ap)\<rparr>"
  let ?p1 = "progress_new\<lparr>pr_sent := length (unacked d ap)\<rparr>"
  have 1: "replay_phase S dec now ?d ?io progress_new = (?d1, ?io1, Inr ?p1)"
    using b(1) by (simp add: replay_phase_def replay_sends_up Let_def progress_new_def driver_on_reconnect_def)
  have inv1: "drv_inv enc dec ?d1 ap"
    by (rule drv_inv_same [OF drv_inv_outbox [OF dinv b(2-4)]]) simp_all
  have "dr_pending ?d1 = dr_pending d" "dr_stalled_since ?d1 = None" "io_up ?io1 = []"
    by (simp_all add: driver_on_reconnect_def)
  from drain_sends_up [OF inv1 this, of now ?p1] obtain d2 where 2:
    "drain_phase S enc now ?d1 ?io1 ?p1 = (d2, ?io1\<lparr>io_sent := map (\<lambda>(e, m). (m, True)) (unacked d ap @ dr_pending d)\<rparr>,
       Inr (?p1\<lparr>pr_sent := length (unacked d ap @ dr_pending d)\<rparr>))"
    and d2: "dr_pending d2 = []" "dr_stalled_since d2 = None" "dr_ack_owed d2" "dr_coordinator d2 = dr_coordinator d"
    by (auto simp: drain_phase_def driver_on_reconnect_def)
  let ?io2 = "?io1\<lparr>io_sent := map (\<lambda>(e, m). (m, True)) (unacked d ap @ dr_pending d)\<rparr>"
  let ?p2 = "?p1\<lparr>pr_sent := length (unacked d ap @ dr_pending d)\<rparr>"
  obtain b' es where r: "outbox_retained_epochs S (dr_outbox d2) = (b', es)" by fastforce
  have 4: "ack_phase S d2 ?io2 ?p2 = (d2\<lparr>dr_ack_owed := False, dr_outbox := b'\<rparr>,
      ?io2\<lparr>io_sent := io_sent ?io2 @ [(co_ack (dr_coordinator d), True)]\<rparr>,
      ?p2\<lparr>pr_peer_acked_through := dr_peer_acked_through d2, pr_retained := length es\<rparr>)"
    using d2 r by (simp add: ack_phase_def sink_send_def Let_def)
  have "driver_tick S enc dec prov now ?d ?io = (d2\<lparr>dr_ack_owed := False, dr_outbox := b'\<rparr>,
      ?io2\<lparr>io_sent := io_sent ?io2 @ [(co_ack (dr_coordinator d), True)]\<rparr>,
      Inr (?p2\<lparr>pr_peer_acked_through := dr_peer_acked_through d2, pr_retained := length es\<rparr>))"
    using 1 2 4 by (simp add: driver_tick_def)
  then show ?thesis using d2 by (auto simp: driver_is_stalled_def)
qed

end

end
