(* ===== verification/SyncTheorems.thy ===== *)
theory SyncTheorems
  imports SyncDriver
begin

text \<open>
  The properties of reliable sync: the receiver tracks the sender whatever the network does to
  the frames, and the pass after a reconnect or a restart brings it to the sender's head.
\<close>

section \<open>The receiver\<close>

text \<open>C21: whatever is lost, repeated or reordered on the way, a receiver that folds what the
  coordinator applies holds the sender's state at the epoch the coordinator names; and while a
  request for a snapshot is outstanding it makes no second one.\<close>

theorem receiver_tracks_sender:
  assumes "list_all (truthful adopt patch st) ms" and "x = st e"
  defines "r \<equiv> foldl (host_fold adopt patch) (co_with_epoch e, x) ms"
  shows "snd r = st (co_last_epoch (fst r)) \<and>
    (co_resyncing (fst r) \<longrightarrow> (case ingest (fst r) m of (c, a) \<Rightarrow>
       (\<nexists>e. a = RequestSnapshot e) \<and> (co_resyncing c \<longleftrightarrow> a \<noteq> Apply)))"
  unfolding r_def using host_run_tracks [of adopt patch st ms "(co_with_epoch e, x)"] assms(1,2)
  by (auto simp: co_with_epoch_def split: prod.splits dest: resync_once)

definition sum_delta :: "int \<Rightarrow> int \<Rightarrow> (int, int, unit) ipc_message" where
  "sum_delta b e = of_delta \<lparr>sd_base_epoch = b, sd_epoch = e, sd_ops = e - b\<rparr>"

text \<open>A delta twice, then one past a gap twice; the snapshot has not arrived yet.\<close>

theorem receiver_tracks_sender_witness:
  defines "r \<equiv> foldl (host_fold id (+)) (co_with_epoch 0, 0 :: int) [sum_delta 0 2, sum_delta 0 2, sum_delta 5 6]"
  shows "snd r = co_last_epoch (fst r) \<and> ingest (fst r) (sum_delta 5 6) = (fst r, Ignore) \<and>
    (\<nexists>e. Ignore = RequestSnapshot e) \<and> (co_resyncing (fst r) \<longleftrightarrow> Ignore \<noteq> Apply)"
proof -
  have t: "list_all (truthful id (+) (\<lambda>e. e)) [sum_delta 0 2, sum_delta 0 2, sum_delta 5 6]"
    by (simp add: truthful_def sum_delta_def of_delta_def no_message_def)
  have i: "co_resyncing (fst r)" "ingest (fst r) (sum_delta 5 6) = (fst r, Ignore)"
    by (simp_all add: r_def host_fold_def sum_delta_def ingest_def ingest_delta_def co_with_epoch_def
        of_delta_def no_message_def)
  show ?thesis
    using receiver_tracks_sender [OF t, of 0 0 "sum_delta 5 6", folded r_def] i by simp
qed

section \<open>The sender\<close>

text \<open>The drained frames beyond the store's acknowledged epoch.\<close>

abbreviation sqlite_unacked :: "string \<Rightarrow> ('f sqlite_db, 'm) sync_driver \<Rightarrow> (int \<times> 'm) list \<Rightarrow> (int \<times> 'm) list" where
  "sqlite_unacked h d ap \<equiv> filter (\<lambda>(e, m). sq_load_cursor h (ob_store (dr_outbox d)) < e) ap"

definition sqlite_fresh :: "string \<Rightarrow> 'f sqlite_db \<Rightarrow> bool" where
  "sqlite_fresh h s \<longleftrightarrow> sqlite_ok s \<and> sqlite_view h s = Map.empty \<and> 0 \<le> sq_load_cursor h s"

lemma sqlite_load: "st_load_cursor (sqlite_ops h) s = sq_load_cursor h s"
  by (simp add: sqlite_ops_def)

lemma sqlite_fresh_contract:
  "sqlite_fresh h = (\<lambda>s. sqlite_ok s \<and> sqlite_view h s = Map.empty \<and> 0 \<le> st_load_cursor (sqlite_ops h) s)"
  by (simp add: sqlite_fresh_def sqlite_load fun_eq_iff)

lemma sqlite_reach_inv: "sync_reach (sqlite_ops h) (sqlite_fresh h) enc dec prov d ap \<Longrightarrow> sql.drv_inv h enc dec d ap"
  unfolding sqlite_fresh_contract by (rule sql.reach_inv)

lemma sqlite_unacked_eq: "sql.unacked h d ap = sqlite_unacked h d ap"
  by (simp add: sql.unacked_def sql.acked_def sqlite_load)

lemma reconnect_tick_sqlite:
  assumes "sync_reach (sqlite_ops h) (sqlite_fresh h) enc dec prov d ap"
  shows "\<exists>d' io' p. driver_tick (sqlite_ops h) enc dec prov now (driver_on_reconnect d)
        \<lparr>io_up = [], io_sent = [], io_in = []\<rparr> = (d', io', Inr p) \<and>
    map fst (io_sent io') = map snd (sqlite_unacked h d ap @ dr_pending d) @ [co_ack (dr_coordinator d)] \<and>
    sorted_wrt (<) (map fst (sqlite_unacked h d ap @ dr_pending d)) \<and> dr_pending d' = [] \<and> \<not> driver_is_stalled d'"
proof -
  have inv: "sql.drv_inv h enc dec d ap" by (rule sqlite_reach_inv [OF assms])
  have s: "sorted_wrt (<) (map fst (ap @ dr_pending d))" using inv unfolding sql.drv_inv_def by blast
  then have "sorted_wrt (<) (map fst (sqlite_unacked h d ap))" by (induction ap) auto
  then have "sorted_wrt (<) (map fst (sqlite_unacked h d ap @ dr_pending d))"
    using s by (auto simp: sorted_wrt_append)
  moreover have "map fst (map (\<lambda>(e, m). (m, True)) xs) = map snd xs" for xs :: "(int \<times> ('a, 'b, 'c) ipc_message) list"
    by (simp add: case_prod_beta comp_def)
  ultimately show ?thesis
    using sql.reconnect_tick [OF inv, of prov now] unfolding sqlite_unacked_eq by (elim exE) auto
qed

text \<open>C22: no drained frame is lost. After any sequence of staging, passes over a failing network,
  reconnects and restarts over a SQLite store, a pass after a reconnect with a working sink sends
  exactly the drained frames that are not acknowledged, in epoch order, then those still staged,
  then the receiver's cursor.\<close>

theorem reconnect_sends_unacked:
  assumes "sync_reach (sqlite_ops h) (sqlite_fresh h) enc dec prov d ap"
  shows "\<exists>d' io' p. driver_tick (sqlite_ops h) enc dec prov now (driver_on_reconnect d)
        \<lparr>io_up = [], io_sent = [], io_in = []\<rparr> = (d', io', Inr p) \<and>
    map fst (io_sent io') = map snd (sqlite_unacked h d ap @ dr_pending d) @ [co_ack (dr_coordinator d)] \<and>
    sorted_wrt (<) (map fst (sqlite_unacked h d ap @ dr_pending d)) \<and> dr_pending d' = [] \<and> \<not> driver_is_stalled d'"
  using assms by (rule reconnect_tick_sqlite)

text \<open>A frame sent in vain, then another staged.\<close>

definition sample_db :: "(int, int, unit) ipc_message sqlite_db" where
  "sample_db = \<lparr>db_outbox = [], db_cursor = []\<rparr>"

definition sample_driver :: "((int, int, unit) ipc_message sqlite_db, (int, int, unit) ipc_message) sync_driver" where
  "sample_driver =
     driver_enqueue (fst (driver_tick (sqlite_ops ''d'') Some Some of_resync_request 7
       (driver_enqueue (driver_new (outbox_open (sqlite_ops ''d'') sample_db) 0) 1 (sum_delta 0 1))
       \<lparr>io_up = [False], io_sent = [], io_in = []\<rparr>)) 3 (sum_delta 1 3)"

lemma sample_tick:
  defines "d \<equiv> driver_enqueue (driver_new (outbox_open (sqlite_ops ''d'') sample_db) 0) 1 (sum_delta 0 1)"
  shows "\<exists>io r. driver_tick (sqlite_ops ''d'') Some Some of_resync_request 7 d \<lparr>io_up = [False], io_sent = [], io_in = []\<rparr> =
    (\<lparr>dr_outbox = \<lparr>ob_store = \<lparr>db_outbox = [((''d'', 1), sum_delta 0 1)], db_cursor = []\<rparr>, ob_acked_through = 0\<rparr>,
      dr_coordinator = co_with_epoch 0, dr_pending = [], dr_peer_acked_through = 0, dr_ack_owed = False,
      dr_replay_pending = False, dr_stalled_since = Some 7\<rparr>, io, r)"
  unfolding d_def
  by (simp add: driver_enqueue_def driver_new_def outbox_open_def sample_db_def driver_tick_def
      replay_phase_def drain_phase_def outbox_append_def sink_send_def sqlite_ops_def sq_put_def ack_phase_def
      outbox_retained_epochs_def acked_through_def sq_scan_after_def sq_load_cursor_def Let_def)

lemma sample_driver_state: "sample_driver =
    \<lparr>dr_outbox = \<lparr>ob_store = \<lparr>db_outbox = [((''d'', 1), sum_delta 0 1)], db_cursor = []\<rparr>, ob_acked_through = 0\<rparr>,
      dr_coordinator = co_with_epoch 0, dr_pending = [(3, sum_delta 1 3)], dr_peer_acked_through = 0, dr_ack_owed = False,
      dr_replay_pending = False, dr_stalled_since = Some 7\<rparr>"
  using sample_tick by (auto simp: sample_driver_def driver_enqueue_def)

lemma sample_reach:
  "sync_reach (sqlite_ops ''d'') (sqlite_fresh ''d'') Some Some of_resync_request sample_driver [(1, sum_delta 0 1)]"
proof -
  let ?d = "driver_enqueue (driver_new (outbox_open (sqlite_ops ''d'') sample_db) 0) 1 (sum_delta 0 1)"
  have "sqlite_fresh ''d'' sample_db"
    by (simp add: sqlite_fresh_def sample_db_def sqlite_ok_def sqlite_view_def sq_load_cursor_def fun_eq_iff)
  then have r: "sync_reach (sqlite_ops ''d'') (sqlite_fresh ''d'') Some Some of_resync_request ?d []"
    by (intro sync_reach.enqueue sync_reach.start) (auto simp: driver_new_def)
  obtain io x where t: "driver_tick (sqlite_ops ''d'') Some Some of_resync_request 7 ?d \<lparr>io_up = [False], io_sent = [], io_in = []\<rparr> =
    (\<lparr>dr_outbox = \<lparr>ob_store = \<lparr>db_outbox = [((''d'', 1), sum_delta 0 1)], db_cursor = []\<rparr>, ob_acked_through = 0\<rparr>,
      dr_coordinator = co_with_epoch 0, dr_pending = [], dr_peer_acked_through = 0, dr_ack_owed = False,
      dr_replay_pending = False, dr_stalled_since = Some 7\<rparr>, io, x)"
    using sample_tick by blast
  from sync_reach.tick [OF r t] show ?thesis
    unfolding sample_driver_def t by (intro sync_reach.enqueue) (auto simp: driver_enqueue_def driver_new_def)
qed

theorem reconnect_sends_unacked_witness:
  "\<exists>d' io' p. driver_tick (sqlite_ops ''d'') Some Some of_resync_request 9 (driver_on_reconnect sample_driver)
        \<lparr>io_up = [], io_sent = [], io_in = []\<rparr> = (d', io', Inr p) \<and>
    map fst (io_sent io') = [sum_delta 0 1, sum_delta 1 3, of_outbox_ack 0]"
proof -
  have "sqlite_unacked ''d'' sample_driver [(1, sum_delta 0 1)] = [(1, sum_delta 0 1)]"
    by (simp add: sample_driver_state sq_load_cursor_def)
  moreover have "dr_pending sample_driver = [(3, sum_delta 1 3)]" "co_ack (dr_coordinator sample_driver) = of_outbox_ack 0"
    by (simp_all add: sample_driver_state co_ack_def co_with_epoch_def)
  ultimately show ?thesis using reconnect_sends_unacked [OF sample_reach, of 9] by auto
qed

section \<open>Both sides\<close>

lemma chain_member_ignored:
  "delta_chain b ms \<Longrightarrow> (e, m) \<in> set ms \<Longrightarrow> head_epoch b ms \<le> co_last_epoch c \<Longrightarrow> ingest c m = (c, Ignore)"
proof (induction b ms rule: delta_chain.induct)
  case (2 b e' m' ms)
  show ?case
  proof (cases "(e, m) = (e', m')")
    case True
    have "e' \<le> head_epoch e' ms"
      using 2(2) delta_chain_sorted [of e' ms] last_in_set [of ms] by (fastforce simp: head_epoch_def)
    then show ?thesis using 2(2,4) True by (auto simp: ingest_of_delta ingest_delta_def)
  qed (use 2 in auto)
qed simp

lemma host_fold_ignored:
  "(\<And>m. m \<in> set ms \<Longrightarrow> ingest (fst r) m = (fst r, Ignore)) \<Longrightarrow> foldl (host_fold adopt patch) r ms = r"
proof (induction ms)
  case (Cons m ms)
  have "host_fold adopt patch r m = r" using Cons.prems [of m] by (simp add: host_fold_def)
  then show ?case using Cons by simp
qed simp

text \<open>
  Dropping acknowledged frames from what was sent does not matter to a receiver that is past
  the acknowledgement and stands at the end of one of the frames.
\<close>

lemma chain_suffix:
  assumes "delta_chain b (ap @ pend)" and "e \<in> insert b (fst ` set (ap @ pend))" and "a \<le> e"
  shows "\<exists>old new. filter (\<lambda>(x, m). a < x) ap @ pend = old @ new \<and> delta_chain e new \<and>
    head_epoch e new = head_epoch b (ap @ pend) \<and>
    (\<forall>y\<in>set old. \<exists>pre. delta_chain b pre \<and> y \<in> set pre \<and> head_epoch b pre = e)"
proof -
  obtain pre post where p: "ap @ pend = pre @ post" "head_epoch b pre = e"
  proof (cases "e = b")
    case True
    then show thesis using that [of "[]" "ap @ pend"] by simp
  next
    case False
    then have "e \<in> fst ` set (ap @ pend)" using assms(2) by simp
    then obtain m where "(e, m) \<in> set (ap @ pend)" unfolding fst_mem by blast
    then obtain xs ys where "ap @ pend = xs @ (e, m) # ys" by (meson split_list)
    then show thesis using that [of "xs @ [(e, m)]" ys] by simp
  qed
  have ch: "delta_chain b pre" "delta_chain e post" using assms(1) p by (auto simp: delta_chain_append)
  have later: "\<forall>y\<in>set post. a < fst y" using delta_chain_sorted [OF ch(2)] assms(3) by fastforce
  have head: "head_epoch e post = head_epoch b (ap @ pend)" by (simp only: p head_epoch_append)
  from p(1) consider (drained) zs where "ap = pre @ zs" "post = zs @ pend" | (staged) zs where "pre = ap @ zs" "pend = zs @ post"
    by (auto simp: append_eq_append_conv2)
  then show ?thesis
  proof cases
    case z: drained
    have "\<forall>y\<in>set zs. case y of (x, m) \<Rightarrow> a < x" using later z by (simp add: case_prod_beta)
    then have "filter (\<lambda>(x, m). a < x) zs = zs" by (simp only: filter_id_conv)
    then have "filter (\<lambda>(x, m). a < x) ap @ pend = filter (\<lambda>(x, m). a < x) pre @ post" by (simp add: z)
    then show ?thesis using ch head p(2) by (intro exI conjI) auto
  next
    case z: staged
    then have "filter (\<lambda>(x, m). a < x) ap @ pend = (filter (\<lambda>(x, m). a < x) ap @ zs) @ post" by simp
    then show ?thesis using ch head p(2) z(1)
      by (intro exI [of _ "filter (\<lambda>(x, m). a < x) ap @ zs"] exI [of _ post] conjI ballI exI [of _ pre]) auto
  qed
qed

text \<open>C23: both sides together. When the drained and staged frames are a chain of deltas and the
  receiver holds the sender's state at the end of one of them, past the acknowledged ones, then
  whatever happened before, folding what the pass after a reconnect sends brings the receiver to
  the head of the chain with the sender's state.\<close>

theorem reconnect_converges:
  assumes "sync_reach (sqlite_ops h) (sqlite_fresh h) enc dec prov d ap"
    and "delta_chain b (ap @ dr_pending d)" and "list_all (truthful adopt patch st) (map snd (ap @ dr_pending d))"
    and "co_last_epoch (fst r) \<in> insert b (fst ` set (ap @ dr_pending d))"
    and "sq_load_cursor h (ob_store (dr_outbox d)) \<le> co_last_epoch (fst r)" and "snd r = st (co_last_epoch (fst r))"
  shows "\<exists>d' io' p r'. driver_tick (sqlite_ops h) enc dec prov now (driver_on_reconnect d)
        \<lparr>io_up = [], io_sent = [], io_in = []\<rparr> = (d', io', Inr p) \<and>
    foldl (host_fold adopt patch) r (map fst (io_sent io')) = r' \<and>
    co_last_epoch (fst r') = head_epoch b (ap @ dr_pending d) \<and> snd r' = st (head_epoch b (ap @ dr_pending d))"
proof -
  let ?X = "ap @ dr_pending d" and ?a = "sq_load_cursor h (ob_store (dr_outbox d))" and ?e = "co_last_epoch (fst r)"
  obtain d' io' p where t: "driver_tick (sqlite_ops h) enc dec prov now (driver_on_reconnect d)
      \<lparr>io_up = [], io_sent = [], io_in = []\<rparr> = (d', io', Inr p)"
    "map fst (io_sent io') = map snd (sqlite_unacked h d ap @ dr_pending d) @ [co_ack (dr_coordinator d)]"
    using reconnect_tick_sqlite [OF assms(1), of now] by blast
  obtain old new where s: "sqlite_unacked h d ap @ dr_pending d = old @ new" "delta_chain ?e new"
    "head_epoch ?e new = head_epoch b ?X"
    "\<forall>y\<in>set old. \<exists>pre. delta_chain b pre \<and> y \<in> set pre \<and> head_epoch b pre = ?e"
    using chain_suffix [OF assms(2,4,5)] by blast
  have "ingest (fst r) m = (fst r, Ignore)" if "m \<in> set (map snd old)" for m
    using that s(4) chain_member_ignored by (fastforce)
  then have old: "foldl (host_fold adopt patch) r (map snd old) = r" by (rule host_fold_ignored)
  let ?r = "foldl (host_fold adopt patch) r (map snd new)"
  have "set (old @ new) \<subseteq> set ?X" unfolding s(1) [symmetric] by auto
  then have "set (map snd new) \<subseteq> set (map snd ?X)" by auto
  then have "list_all (truthful adopt patch st) (map snd new)" using assms(3) unfolding list_all_iff by blast
  then have track: "snd ?r = st (co_last_epoch (fst ?r))" using assms(6) by (rule host_run_tracks)
  have head: "co_last_epoch (fst ?r) = head_epoch b ?X"
    using chain_applied [OF s(2)] s(3) by (cases "new = []") (simp_all add: host_fold_coordinator co_with_epoch_def)
  have "host_fold adopt patch ?r (co_ack (dr_coordinator d)) = ?r"
    by (simp add: host_fold_def ingest_def co_ack_def of_outbox_ack_def no_message_def)
  then have "foldl (host_fold adopt patch) r (map fst (io_sent io')) = ?r"
    unfolding t(2) s(1) by (simp add: old)
  then show ?thesis using t(1) head track by auto
qed

theorem reconnect_converges_witness:
  "\<exists>d' io' p r'. driver_tick (sqlite_ops ''d'') Some Some of_resync_request 9 (driver_on_reconnect sample_driver)
        \<lparr>io_up = [], io_sent = [], io_in = []\<rparr> = (d', io', Inr p) \<and>
    foldl (host_fold id (+)) (co_with_epoch 1, 1 :: int) (map fst (io_sent io')) = r' \<and>
    co_last_epoch (fst r') = 3 \<and> snd r' = 3"
proof -
  have "delta_chain 0 ([(1, sum_delta 0 1)] @ dr_pending sample_driver)"
    by (auto simp: sample_driver_state sum_delta_def)
  moreover have "list_all (truthful id (+) (\<lambda>e. e)) (map snd ([(1, sum_delta 0 1)] @ dr_pending sample_driver))"
    by (simp add: sample_driver_state truthful_def sum_delta_def of_delta_def no_message_def)
  moreover have "head_epoch 0 ([(1, sum_delta 0 1)] @ dr_pending sample_driver) = 3"
    by (simp add: sample_driver_state head_epoch_def)
  ultimately show ?thesis
    using reconnect_converges [OF sample_reach, of 0 id "(+)" "\<lambda>e. e" "(co_with_epoch 1, 1)" 9]
    by (simp add: co_with_epoch_def) (simp add: sample_driver_state sq_load_cursor_def)
qed

end
