(* ===== verification/SeqCrdt.thy ===== *)
theory SeqCrdt
  imports Prelude "HOL-Library.Product_Lexorder" "HOL-Library.List_Lexorder" JoinCrdt
begin

text \<open>
  The sequence CRDT of \<^verbatim>\<open>src/lazily/seqcrdt.py\<close>: elements with three last-write-wins registers
  (value, position, deleted), fractional positions and a caller-driven hybrid logical clock. A
  stamp is the triple of its fields, whose order is the lexicographic one, as the order
  generated for \<^verbatim>\<open>SeqStamp\<close>; tuples of integers are lists, compared lexicographically. The
  dictionary of elements is an association list in insertion order.
\<close>

section \<open>Stamps, positions and the clock\<close>

type_synonym seq_stamp = "int \<times> int \<times> int"

record seq_position =
  po_frac :: "int list"
  po_peer :: int

definition position_key :: "seq_position \<Rightarrow> int list \<times> int" where
  "position_key p = (po_frac p, po_peer p)"

definition zero_stamp :: seq_stamp where
  "zero_stamp = (0, 0, 0)"

record seq_clock =
  last_wall :: int
  last_logical :: int

definition seq_clock_new :: seq_clock where
  "seq_clock_new = \<lparr>last_wall = 0, last_logical = 0\<rparr>"

definition clock_send :: "seq_clock \<Rightarrow> int \<Rightarrow> seq_clock \<times> int \<times> int" where
  "clock_send c now =
     (let c' = (if now > last_wall c then c\<lparr>last_wall := now, last_logical := 0\<rparr>
                else c\<lparr>last_logical := last_logical c + 1\<rparr>)
      in (c', last_wall c', last_logical c'))"

definition clock_recv :: "seq_clock \<Rightarrow> seq_stamp \<Rightarrow> int \<Rightarrow> seq_clock" where
  "clock_recv c remote now =
     (let (rw, rl, rp) = remote; wall = max (last_wall c) (max rw now)
      in c\<lparr>last_wall := wall,
           last_logical :=
             (if wall = last_wall c \<and> wall = rw then max (last_logical c) rl + 1
              else if wall = last_wall c then last_logical c + 1
              else if wall = rw then rl + 1
              else 0)\<rparr>)"

section \<open>Fractional positions\<close>

text \<open>
  The search of \<^verbatim>\<open>_frac_between\<close> from index \<open>i\<close> on. It ends at the latest past the end of both
  keys, where the gap is 256.
\<close>

function frac_gap :: "int list \<Rightarrow> int list \<Rightarrow> nat \<Rightarrow> int list" where
  "frac_gap lo hi i =
     (let a = (if i < length lo then lo ! i else 0);
          b = (if i < length hi then hi ! i else 256)
      in if b - a > 1 then take i lo @ [a + (b - a) div 2] else frac_gap lo hi (i + 1))"
  by pat_completeness auto

termination
  by (relation "measure (\<lambda>(lo, hi, i). Suc (max (length lo) (length hi)) - i)") (auto split: if_splits)

declare frac_gap.simps [simp del]

definition frac_between :: "int list \<Rightarrow> int list \<Rightarrow> int list" where
  "frac_between lo hi = frac_gap lo hi 0"

definition frac_after :: "int list \<Rightarrow> int list" where
  "frac_after lo = lo @ [128]"

section \<open>Elements and replicas\<close>

record ('k, 'v) seq_element =
  se_id :: 'k
  se_value :: 'v
  se_value_stamp :: seq_stamp
  se_position :: seq_position
  se_position_stamp :: seq_stamp
  se_deleted :: bool
  se_deleted_stamp :: seq_stamp

definition max_stamp :: "('k, 'v) seq_element \<Rightarrow> seq_stamp" where
  "max_stamp e = max (se_value_stamp e) (max (se_position_stamp e) (se_deleted_stamp e))"

record ('k, 'v) seq_crdt =
  seq_peer :: int
  seq_clock_of :: seq_clock
  seq_elements :: "('k \<times> ('k, 'v) seq_element) list"

definition seq_new :: "int \<Rightarrow> ('k, 'v) seq_crdt" where
  "seq_new peer = \<lparr>seq_peer = peer, seq_clock_of = seq_clock_new, seq_elements = []\<rparr>"

definition seq_fork :: "('k, 'v) seq_crdt \<Rightarrow> int \<Rightarrow> ('k, 'v) seq_crdt" where
  "seq_fork q peer = q\<lparr>seq_peer := peer\<rparr>"

definition seq_clone :: "('k, 'v) seq_crdt \<Rightarrow> ('k, 'v) seq_crdt" where
  "seq_clone q = seq_fork q (seq_peer q)"

definition seq_stamp_now :: "('k, 'v) seq_crdt \<Rightarrow> int \<Rightarrow> ('k, 'v) seq_crdt \<times> seq_stamp" where
  "seq_stamp_now q now =
     (let (c, w, l) = clock_send (seq_clock_of q) now in (q\<lparr>seq_clock_of := c\<rparr>, (w, l, seq_peer q)))"

definition ordered_alive :: "('k, 'v) seq_crdt \<Rightarrow> ('k, 'v) seq_element list" where
  "ordered_alive q =
     sort_key (\<lambda>e. position_key (se_position e)) (filter (\<lambda>e. \<not> se_deleted e) (map snd (seq_elements q)))"

definition seq_order :: "('k, 'v) seq_crdt \<Rightarrow> 'k list" where
  "seq_order q = map se_id (ordered_alive q)"

definition seq_len :: "('k, 'v) seq_crdt \<Rightarrow> nat" where
  "seq_len q = length (filter (\<lambda>e. \<not> se_deleted e) (map snd (seq_elements q)))"

definition seq_contains :: "('k, 'v) seq_crdt \<Rightarrow> 'k \<Rightarrow> bool" where
  "seq_contains q k = (case map_of (seq_elements q) k of None \<Rightarrow> False | Some e \<Rightarrow> \<not> se_deleted e)"

definition seq_get :: "('k, 'v) seq_crdt \<Rightarrow> 'k \<Rightarrow> 'v option" where
  "seq_get q k = (case map_of (seq_elements q) k of None \<Rightarrow> None
     | Some e \<Rightarrow> if se_deleted e then None else Some (se_value e))"

section \<open>Local writes\<close>

definition seq_put :: "('k, 'v) seq_crdt \<Rightarrow> 'k \<Rightarrow> ('k, 'v) seq_element \<Rightarrow> ('k, 'v) seq_crdt" where
  "seq_put q k e = q\<lparr>seq_elements := AList.update k e (seq_elements q)\<rparr>"

definition insert_with :: "('k, 'v) seq_crdt \<Rightarrow> 'k \<Rightarrow> 'v \<Rightarrow> int list \<Rightarrow> int \<Rightarrow> ('k, 'v) seq_crdt" where
  "insert_with q k v frac now =
     (let (q1, s) = seq_stamp_now q now
      in seq_put q1 k \<lparr>se_id = k, se_value = v, se_value_stamp = s,
           se_position = \<lparr>po_frac = frac, po_peer = seq_peer q\<rparr>, se_position_stamp = s,
           se_deleted = False, se_deleted_stamp = zero_stamp\<rparr>)"

definition insert_back :: "('k, 'v) seq_crdt \<Rightarrow> 'k \<Rightarrow> 'v \<Rightarrow> int \<Rightarrow> ('k, 'v) seq_crdt" where
  "insert_back q k v now =
     (let es = ordered_alive q; last_frac = (if es = [] then [] else po_frac (se_position (last es)))
      in insert_with q k v (frac_after last_frac) now)"

definition insert_front :: "('k, 'v) seq_crdt \<Rightarrow> 'k \<Rightarrow> 'v \<Rightarrow> int \<Rightarrow> ('k, 'v) seq_crdt" where
  "insert_front q k v now =
     (let es = ordered_alive q; first_frac = (if es = [] then [256] else po_frac (se_position (hd es)))
      in insert_with q k v (frac_between [] first_frac) now)"

definition seq_seed :: "int \<Rightarrow> ('k \<times> 'v \<times> int) list \<Rightarrow> ('k, 'v) seq_crdt" where
  "seq_seed peer ins = foldl (\<lambda>q (k, v, now). insert_back q k v now) (seq_new peer) ins"

definition move_after :: "('k, 'v) seq_crdt \<Rightarrow> 'k \<Rightarrow> 'k \<Rightarrow> int \<Rightarrow> ('k, 'v) seq_crdt" where
  "move_after q k anchor now =
     (let es = ordered_alive q
      in case index_where (\<lambda>e. se_id e = anchor) es of
           None \<Rightarrow> q
         | Some i \<Rightarrow>
             let lo = po_frac (se_position (es ! i));
                 frac = (if i + 1 < length es then frac_between lo (po_frac (se_position (es ! (i + 1))))
                         else frac_after lo)
             in case map_of (seq_elements q) k of
                  None \<Rightarrow> q
                | Some e \<Rightarrow>
                    let (q1, s) = seq_stamp_now q now
                    in if s > se_position_stamp e
                       then seq_put q1 k (e\<lparr>se_position := \<lparr>po_frac = frac, po_peer = seq_peer q\<rparr>, se_position_stamp := s\<rparr>)
                       else q1)"

definition set_value :: "('k, 'v) seq_crdt \<Rightarrow> 'k \<Rightarrow> 'v \<Rightarrow> int \<Rightarrow> ('k, 'v) seq_crdt" where
  "set_value q k v now =
     (case map_of (seq_elements q) k of
        None \<Rightarrow> q
      | Some e \<Rightarrow>
          let (q1, s) = seq_stamp_now q now
          in if s > se_value_stamp e then seq_put q1 k (e\<lparr>se_value := v, se_value_stamp := s\<rparr>) else q1)"

definition seq_remove :: "('k, 'v) seq_crdt \<Rightarrow> 'k \<Rightarrow> int \<Rightarrow> ('k, 'v) seq_crdt" where
  "seq_remove q k now =
     (case map_of (seq_elements q) k of
        None \<Rightarrow> q
      | Some e \<Rightarrow>
          let (q1, s) = seq_stamp_now q now
          in if s > se_deleted_stamp e then seq_put q1 k (e\<lparr>se_deleted := True, se_deleted_stamp := s\<rparr>) else q1)"

section \<open>Merging\<close>

definition merge_position :: "('k, 'v) seq_element \<Rightarrow> ('k, 'v) seq_element \<Rightarrow> ('k, 'v) seq_element \<times> bool" where
  "merge_position e f =
     (if se_position_stamp f > se_position_stamp e
      then (e\<lparr>se_position := se_position f, se_position_stamp := se_position_stamp f\<rparr>, True) else (e, False))"

definition merge_value :: "('k, 'v) seq_element \<Rightarrow> ('k, 'v) seq_element \<Rightarrow> ('k, 'v) seq_element \<times> bool" where
  "merge_value e f =
     (if se_value_stamp f > se_value_stamp e
      then (e\<lparr>se_value := se_value f, se_value_stamp := se_value_stamp f\<rparr>, True) else (e, False))"

definition merge_deleted :: "('k, 'v) seq_element \<Rightarrow> ('k, 'v) seq_element \<Rightarrow> ('k, 'v) seq_element \<times> bool" where
  "merge_deleted e f =
     (if se_deleted_stamp f > se_deleted_stamp e
      then (e\<lparr>se_deleted := se_deleted f \<or> se_deleted e, se_deleted_stamp := se_deleted_stamp f\<rparr>, True) else (e, False))"

definition merge_one :: "('k, 'v) seq_crdt \<Rightarrow> 'k \<times> ('k, 'v) seq_element \<Rightarrow> ('k, 'v) seq_crdt \<times> bool" where
  "merge_one q x =
     (case map_of (seq_elements q) (fst x) of
        None \<Rightarrow> (seq_put q (fst x) (snd x), True)
      | Some e \<Rightarrow>
          let (e1, c1) = merge_position e (snd x); (e2, c2) = merge_value e1 (snd x); (e3, c3) = merge_deleted e2 (snd x)
          in (seq_put q (fst x) e3, c1 \<or> c2 \<or> c3))"

definition observe_all :: "seq_clock \<Rightarrow> ('k, 'v) seq_element list \<Rightarrow> int \<Rightarrow> seq_clock" where
  "observe_all c es now = foldl (\<lambda>c e. clock_recv c (max_stamp e) now) c es"

definition seq_merge :: "('k, 'v) seq_crdt \<Rightarrow> ('k, 'v) seq_crdt \<Rightarrow> int option \<Rightarrow> ('k, 'v) seq_crdt \<times> bool" where
  "seq_merge q other now =
     (let t = (case now of None \<Rightarrow> 0 | Some t \<Rightarrow> t);
          q1 = q\<lparr>seq_clock_of := observe_all (seq_clock_of q) (map snd (seq_elements other)) t\<rparr>
      in foldl (\<lambda>(q, changed) x. let (q', c) = merge_one q x in (q', changed \<or> c)) (q1, False) (seq_elements other))"

chapter \<open>Properties\<close>

text \<open>
  The sequence CRDT: the clock never mints a stamp at or below one it has seen, positions,
  the merge of the three registers as the interpretation of the contract of theory JoinCrdt,
  and a network of replicas.
\<close>

section \<open>The clock\<close>

definition clock_pos :: "seq_clock \<Rightarrow> int \<times> int" where
  "clock_pos c = (last_wall c, last_logical c)"

definition stamp_pos :: "seq_stamp \<Rightarrow> int \<times> int" where
  "stamp_pos s = (fst s, fst (snd s))"

lemma stamp_less: "stamp_pos a < stamp_pos b \<Longrightarrow> a < b"
  by (auto simp: stamp_pos_def prod_less_def)

lemma stamp_le: "a \<le> b \<Longrightarrow> stamp_pos a \<le> stamp_pos b"
  by (auto simp: stamp_pos_def prod_less_eq prod_le_def split: if_splits)

lemma clock_send_above:
  "clock_send c now = (c', w, l) \<Longrightarrow> clock_pos c < (w, l) \<and> clock_pos c' = (w, l)"
  by (auto simp: clock_send_def clock_pos_def Let_def prod_less_def split: if_splits)

lemma clock_recv_above: "clock_pos c \<le> clock_pos (clock_recv c s now) \<and> stamp_pos s \<le> clock_pos (clock_recv c s now)"
  by (cases s) (auto simp: clock_recv_def clock_pos_def stamp_pos_def Let_def max_def)

lemma observe_all_above:
  "clock_pos c \<le> clock_pos (observe_all c es now) \<and> (\<forall>e\<in>set es. stamp_pos (max_stamp e) \<le> clock_pos (observe_all c es now))"
  unfolding observe_all_def
proof (induction es arbitrary: c)
  case (Cons e es)
  have "clock_pos c \<le> clock_pos (clock_recv c (max_stamp e) now)"
    "stamp_pos (max_stamp e) \<le> clock_pos (clock_recv c (max_stamp e) now)"
    using clock_recv_above by blast+
  then show ?case using Cons.IH [of "clock_recv c (max_stamp e) now"] by (auto intro: order_trans)
qed simp

section \<open>Positions\<close>

text \<open>The loop ends at an index where the gap is open.\<close>

lemma frac_gap_spec:
  "\<exists>j\<ge>i. frac_gap lo hi i = take j lo @
     [(if j < length lo then lo ! j else 0) + ((if j < length hi then hi ! j else 256) - (if j < length lo then lo ! j else 0)) div 2] \<and>
     (if j < length hi then hi ! j else 256) - (if j < length lo then lo ! j else 0) > 1 \<and>
     (\<forall>k. i \<le> k \<and> k < j \<longrightarrow> (if k < length hi then hi ! k else 256) - (if k < length lo then lo ! k else 0) \<le> 1)"
proof (induction lo hi i rule: frac_gap.induct)
  case (1 lo hi i)
  let ?a = "if i < length lo then lo ! i else 0" and ?b = "if i < length hi then hi ! i else 256"
  show ?case
  proof (cases "?b - ?a > 1")
    case True
    then have "frac_gap lo hi i = take i lo @ [?a + (?b - ?a) div 2]" by (subst frac_gap.simps) (simp add: Let_def)
    then show ?thesis using True by (intro exI [of _ i]) auto
  next
    case False
    then have eq: "frac_gap lo hi i = frac_gap lo hi (i + 1)" by (subst frac_gap.simps) (simp add: Let_def)
    from 1 [OF refl refl False] obtain j where j: "j \<ge> i + 1" "frac_gap lo hi (i + 1) = take j lo @
       [(if j < length lo then lo ! j else 0) + ((if j < length hi then hi ! j else 256) - (if j < length lo then lo ! j else 0)) div 2]"
      "(if j < length hi then hi ! j else 256) - (if j < length lo then lo ! j else 0) > 1"
      "\<forall>k. i + 1 \<le> k \<and> k < j \<longrightarrow> (if k < length hi then hi ! k else 256) - (if k < length lo then lo ! k else 0) \<le> 1"
      by blast
    have "(if k < length hi then hi ! k else 256) - (if k < length lo then lo ! k else 0) \<le> 1" if "i \<le> k" "k < j" for k
    proof (cases "k = i")
      case True
      then show ?thesis using False by (simp only: not_less)
    next
      case False
      then show ?thesis using that j(4) by simp
    qed
    then show ?thesis using j eq by (intro exI [of _ j]) simp
  qed
qed

lemma lex_less_append: "xs < xs @ [x :: int]"
  by (induction xs) simp_all

lemma lex_less_at: "j < length xs \<Longrightarrow> xs ! j < x \<Longrightarrow> xs < take j xs @ [x :: int]"
proof (induction xs arbitrary: j)
  case (Cons y xs)
  then show ?case by (cases j) simp_all
qed simp

lemma lex_less_common: "take j xs = take j ys \<Longrightarrow> j < length ys \<Longrightarrow> (x :: int) < ys ! j \<Longrightarrow> take j xs @ [x] < ys"
proof (induction ys arbitrary: j xs)
  case (Cons y ys)
  then show ?case by (cases j; cases xs) simp_all
qed simp

text \<open>The new key is above the lower bound, and below the upper one where the keys part in a gap.\<close>

lemma frac_between_above: "lo < frac_between lo hi"
proof -
  obtain j where j: "frac_between lo hi = take j lo @
      [(if j < length lo then lo ! j else 0) + ((if j < length hi then hi ! j else 256) - (if j < length lo then lo ! j else 0)) div 2]"
    "(if j < length hi then hi ! j else 256) - (if j < length lo then lo ! j else 0) > 1"
    unfolding frac_between_def using frac_gap_spec [of 0 lo hi] by blast
  show ?thesis
  proof (cases "j < length lo")
    case True
    then show ?thesis unfolding j(1) using j(2) by (intro lex_less_at) simp_all
  next
    case False
    then show ?thesis unfolding j(1) by (simp add: lex_less_append)
  qed
qed

lemma frac_between_below:
  assumes "take j lo = take j hi" and "j < length hi" and "j \<le> length lo"
    and "hi ! j - (if j < length lo then lo ! j else 0) > 1"
  shows "frac_between lo hi < hi"
proof -
  let ?d = "\<lambda>k. (if k < length hi then hi ! k else 256) - (if k < length lo then lo ! k else 0)"
  have same: "lo ! k = hi ! k" if "k < j" for k using assms(1) that by (metis nth_take)
  obtain i where i: "frac_between lo hi = take i lo @ [(if i < length lo then lo ! i else 0) + ?d i div 2]" "?d i > 1"
    "\<forall>k<i. ?d k \<le> 1"
    unfolding frac_between_def using frac_gap_spec [of 0 lo hi] by auto
  have "?d j > 1" using assms(2,4) by simp
  then have "i \<le> j" using i(3) by (meson not_le)
  moreover have "\<not> i < j"
  proof
    assume "i < j"
    then have "?d i = 0" using same [of i] assms(2,3) by simp
    then show False using i(2) by simp
  qed
  ultimately have "i = j" by simp
  then show ?thesis unfolding i(1) using assms i(2) by (intro lex_less_common) auto
qed

lemma frac_after_above: "lo < frac_after lo"
  by (simp add: frac_after_def lex_less_append)

section \<open>The merge\<close>

type_synonym seen = "(seq_stamp \<times> seq_stamp \<times> seq_stamp) option"

definition join_seen :: "seen \<Rightarrow> seen \<Rightarrow> seen" where
  "join_seen a b =
     (case a of None \<Rightarrow> b | Some (v, p, d) \<Rightarrow> (case b of None \<Rightarrow> a
        | Some (v', p', d') \<Rightarrow> Some (max v v', max p p', max d d')))"

lemma join_seen_laws:
  "join_seen a b = join_seen b a" "join_seen (join_seen a b) c = join_seen a (join_seen b c)"
  "join_seen a a = a" "join_seen None b = b" "join_seen a None = a"
  by (auto simp: join_seen_def max.commute max.left_commute split: option.split prod.split)

definition element_seen :: "('k, 'v) seq_element \<Rightarrow> seq_stamp \<times> seq_stamp \<times> seq_stamp" where
  "element_seen e = (se_value_stamp e, se_position_stamp e, se_deleted_stamp e)"

definition seq_seen :: "('k, 'v) seq_crdt \<Rightarrow> 'k \<Rightarrow> seen" where
  "seq_seen q k = map_option element_seen (map_of (seq_elements q) k)"

text \<open>
  Each stamp of a register belongs to one write: the value \<open>wv\<close> and the position \<open>wp\<close> of an
  element at a stamp; a delete stamp is above the floor exactly when the element is deleted.
\<close>

definition el_ok :: "('k \<Rightarrow> seq_stamp \<Rightarrow> 'v) \<Rightarrow> ('k \<Rightarrow> seq_stamp \<Rightarrow> seq_position) \<Rightarrow> 'k \<Rightarrow> ('k, 'v) seq_element \<Rightarrow> bool" where
  "el_ok wv wp k e \<longleftrightarrow> se_id e = k \<and> se_value e = wv k (se_value_stamp e) \<and> se_position e = wp k (se_position_stamp e) \<and>
     zero_stamp \<le> se_deleted_stamp e \<and> (se_deleted e \<longleftrightarrow> se_deleted_stamp e \<noteq> zero_stamp)"

definition seq_ok :: "('k \<Rightarrow> seq_stamp \<Rightarrow> 'v) \<Rightarrow> ('k \<Rightarrow> seq_stamp \<Rightarrow> seq_position) \<Rightarrow> ('k, 'v) seq_crdt \<Rightarrow> bool" where
  "seq_ok wv wp q \<longleftrightarrow> distinct (map fst (seq_elements q)) \<and> (\<forall>(k, e)\<in>set (seq_elements q). el_ok wv wp k e)"

definition element_of :: "('k \<Rightarrow> seq_stamp \<Rightarrow> 'v) \<Rightarrow> ('k \<Rightarrow> seq_stamp \<Rightarrow> seq_position) \<Rightarrow> 'k \<Rightarrow>
    seq_stamp \<times> seq_stamp \<times> seq_stamp \<Rightarrow> ('k, 'v) seq_element" where
  "element_of wv wp k x = (case x of (v, p, d) \<Rightarrow> \<lparr>se_id = k, se_value = wv k v, se_value_stamp = v, se_position = wp k p,
     se_position_stamp = p, se_deleted = (d \<noteq> zero_stamp), se_deleted_stamp = d\<rparr>)"

lemma el_ok_of: "el_ok wv wp k e \<Longrightarrow> e = element_of wv wp k (element_seen e)"
  by (cases e) (auto simp: el_ok_def element_of_def element_seen_def)

lemma seq_ok_lookup: "seq_ok wv wp q \<Longrightarrow> map_of (seq_elements q) k = Some e \<Longrightarrow> el_ok wv wp k e"
  by (auto simp: seq_ok_def dest!: map_of_SomeD)

text \<open>The elements are a function of what was seen.\<close>

lemma seq_seen_elements: "seq_ok wv wp q \<Longrightarrow> map_of (seq_elements q) k = map_option (element_of wv wp k) (seq_seen q k)"
  using seq_ok_lookup el_ok_of by (cases "map_of (seq_elements q) k") (fastforce simp: seq_seen_def)+

lemma put_elements [simp]:
  "seq_elements (seq_put q k e) = AList.update k e (seq_elements q)" "seq_peer (seq_put q k e) = seq_peer q"
  "seq_clock_of (seq_put q k e) = seq_clock_of q"
  by (simp_all add: seq_put_def)

lemma seq_put_ok: "seq_ok wv wp q \<Longrightarrow> el_ok wv wp k e \<Longrightarrow> seq_ok wv wp (seq_put q k e)"
proof -
  have "set (AList.update k e xs) \<subseteq> insert (k, e) (set xs)" for xs by (induction xs) auto
  then show "seq_ok wv wp q \<Longrightarrow> el_ok wv wp k e \<Longrightarrow> seq_ok wv wp (seq_put q k e)"
    by (fastforce simp: seq_ok_def distinct_update)
qed

lemma seq_put_seen: "seq_seen (seq_put q k e) = (seq_seen q)(k := Some (element_seen e))"
  by (auto simp: seq_seen_def update_conv' fun_eq_iff)

lemma merge_one_spec:
  assumes "seq_ok wv wp q" and "el_ok wv wp k f"
  shows "seq_ok wv wp (fst (merge_one q (k, f))) \<and>
    seq_seen (fst (merge_one q (k, f))) = (seq_seen q)(k := join_seen (seq_seen q k) (Some (element_seen f))) \<and>
    seq_peer (fst (merge_one q (k, f))) = seq_peer q \<and> seq_clock_of (fst (merge_one q (k, f))) = seq_clock_of q"
proof (cases "map_of (seq_elements q) k")
  case None
  then have "fst (merge_one q (k, f)) = seq_put q k f" "seq_seen q k = None" by (simp_all add: merge_one_def seq_seen_def)
  then show ?thesis using seq_put_ok [OF assms] by (simp add: seq_put_seen join_seen_laws)
next
  case (Some e)
  have e: "el_ok wv wp k e" by (rule seq_ok_lookup [OF assms(1) Some])
  let ?e = "fst (merge_deleted (fst (merge_value (fst (merge_position e f)) f)) f)"
  have m: "fst (merge_one q (k, f)) = seq_put q k ?e" using Some by (simp add: merge_one_def split_beta Let_def)
  have "el_ok wv wp k ?e"
    using e assms(2) by (auto simp: el_ok_def merge_position_def merge_value_def merge_deleted_def)
  moreover have "element_seen ?e = (max (se_value_stamp e) (se_value_stamp f),
      max (se_position_stamp e) (se_position_stamp f), max (se_deleted_stamp e) (se_deleted_stamp f))"
    by (auto simp: element_seen_def merge_position_def merge_value_def merge_deleted_def max_def)
  ultimately show ?thesis unfolding m using seq_put_ok [OF assms(1)] Some
    by (simp add: seq_put_seen join_seen_def element_seen_def) (simp add: seq_seen_def element_seen_def)
qed

definition merge_all :: "('k, 'v) seq_crdt \<Rightarrow> ('k \<times> ('k, 'v) seq_element) list \<Rightarrow> ('k, 'v) seq_crdt" where
  "merge_all q xs = foldl (\<lambda>q x. fst (merge_one q x)) q xs"

lemma seq_merge_all: "fst (seq_merge q other now) =
    merge_all (q\<lparr>seq_clock_of := observe_all (seq_clock_of q) (map snd (seq_elements other)) (case now of None \<Rightarrow> 0 | Some t \<Rightarrow> t)\<rparr>)
      (seq_elements other)"
proof -
  have "fst (foldl (\<lambda>(q, changed) x. let (q', c) = merge_one q x in (q', changed \<or> c)) (q, b) xs) = merge_all q xs" for q b and xs :: "('a \<times> ('a, 'b) seq_element) list"
    unfolding merge_all_def by (induction xs arbitrary: q b) (auto simp: split_beta Let_def)
  then show ?thesis by (simp only: seq_merge_def Let_def)
qed

lemma merge_all_spec:
  assumes "seq_ok wv wp q" and "\<forall>(k, f)\<in>set xs. el_ok wv wp k f" and "distinct (map fst xs)"
  shows "seq_ok wv wp (merge_all q xs) \<and>
    (\<forall>k. seq_seen (merge_all q xs) k = join_seen (seq_seen q k) (map_option element_seen (map_of xs k))) \<and>
    seq_peer (merge_all q xs) = seq_peer q \<and> seq_clock_of (merge_all q xs) = seq_clock_of q"
  using assms
proof (induction xs arbitrary: q)
  case Nil
  then show ?case by (simp add: merge_all_def join_seen_laws)
next
  case (Cons x xs)
  obtain k f where x: "x = (k, f)" by fastforce
  let ?q = "fst (merge_one q x)"
  have one: "seq_ok wv wp ?q \<and> seq_seen ?q = (seq_seen q)(k := join_seen (seq_seen q k) (Some (element_seen f))) \<and>
      seq_peer ?q = seq_peer q \<and> seq_clock_of ?q = seq_clock_of q"
    unfolding x using Cons.prems x by (intro merge_one_spec) auto
  have "map_of xs k = None" using Cons.prems(3) x by (simp add: map_of_eq_None_iff)
  then show ?case using Cons.IH [of ?q] one Cons.prems x by (auto simp: merge_all_def join_seen_laws)
qed

lemma seq_merge_spec:
  assumes "seq_ok wv wp a" and "seq_ok wv wp b"
  shows "seq_ok wv wp (fst (seq_merge a b now)) \<and>
    seq_seen (fst (seq_merge a b now)) = (\<lambda>k. join_seen (seq_seen a k) (seq_seen b k)) \<and>
    seq_peer (fst (seq_merge a b now)) = seq_peer a \<and>
    seq_clock_of (fst (seq_merge a b now)) =
      observe_all (seq_clock_of a) (map snd (seq_elements b)) (case now of None \<Rightarrow> 0 | Some t \<Rightarrow> t)"
proof -
  let ?a = "a\<lparr>seq_clock_of := observe_all (seq_clock_of a) (map snd (seq_elements b)) (case now of None \<Rightarrow> 0 | Some t \<Rightarrow> t)\<rparr>"
  have "seq_ok wv wp ?a" using assms(1) by (simp add: seq_ok_def)
  moreover have "seq_seen ?a = seq_seen a" by (simp add: seq_seen_def fun_eq_iff)
  ultimately show ?thesis
    using merge_all_spec [of wv wp ?a "seq_elements b"] assms(2)
    unfolding seq_merge_all by (auto simp: seq_ok_def seq_seen_def [of b])
qed

definition seq_join :: "('k, 'v) seq_crdt \<Rightarrow> ('k, 'v) seq_crdt \<Rightarrow> ('k, 'v) seq_crdt" where
  "seq_join a b = fst (seq_merge a b None)"

interpretation seq_replicas: join_crdt seq_join seq_seen "seq_ok wv wp"
  for wv :: "'k \<Rightarrow> seq_stamp \<Rightarrow> 'v" and wp :: "'k \<Rightarrow> seq_stamp \<Rightarrow> seq_position"
proof unfold_locales
  fix a b c :: "('k, 'v) seq_crdt"
  assume ok: "seq_ok wv wp a" "seq_ok wv wp b" "seq_ok wv wp c"
  have ab: "seq_ok wv wp (seq_join a b)" "seq_ok wv wp (seq_join b c)"
    using ok seq_merge_spec unfolding seq_join_def by blast+
  show "seq_seen (seq_join (seq_join a b) c) = seq_seen (seq_join a (seq_join b c))"
    using seq_merge_spec [OF ab(1) ok(3), of None] seq_merge_spec [OF ok(1) ab(2), of None]
      seq_merge_spec [OF ok(1,2), of None] seq_merge_spec [OF ok(2,3), of None]
    unfolding seq_join_def by (simp add: join_seen_laws(2))
next
  fix a b :: "('k, 'v) seq_crdt"
  assume ok: "seq_ok wv wp a" "seq_ok wv wp b"
  show "seq_ok wv wp (seq_join a b)" using seq_merge_spec [OF ok] by (simp add: seq_join_def)
  show "seq_seen (seq_join a b) = seq_seen (seq_join b a)"
    using seq_merge_spec [OF ok, of None] seq_merge_spec [OF ok(2,1), of None] join_seen_laws(1)
    by (auto simp: seq_join_def fun_eq_iff)
next
  fix a :: "('k, 'v) seq_crdt"
  assume ok: "seq_ok wv wp a"
  show "seq_seen (seq_join a a) = seq_seen a"
    using seq_merge_spec [OF ok ok, of None] by (simp add: seq_join_def join_seen_laws(3))
next
  fix a a' b b' :: "('k, 'v) seq_crdt"
  assume ok: "seq_ok wv wp a" "seq_ok wv wp a'" "seq_ok wv wp b" "seq_ok wv wp b'"
    and eq: "seq_seen a = seq_seen a'" "seq_seen b = seq_seen b'"
  show "seq_seen (seq_join a b) = seq_seen (seq_join a' b')"
    using seq_merge_spec [OF ok(1,3), of None] seq_merge_spec [OF ok(2,4), of None] eq by (simp add: seq_join_def)
qed

end
