(* ===== verification/SeqNet.thy ===== *)
theory SeqNet
  imports SeqCrdt
begin

text \<open>
  A network of replicas of the sequence CRDT, each peer with its own: stamps are unique, a local
  write is above everything its replica holds, and an insertion at the back lands there.
\<close>

section \<open>The network\<close>

datatype ('k, 'v) seq_op =
    SeqBack int 'k 'v int
  | SeqFront int 'k 'v int
  | SeqMove int 'k 'k int
  | SeqSet int 'k 'v int
  | SeqRemove int 'k int
  | SeqMerge int int "int option"

fun seq_step :: "(int \<Rightarrow> ('k, 'v) seq_crdt) \<Rightarrow> ('k, 'v) seq_op \<Rightarrow> (int \<Rightarrow> ('k, 'v) seq_crdt)" where
  "seq_step R (SeqBack i k v now) = R(i := insert_back (R i) k v now)"
| "seq_step R (SeqFront i k v now) = R(i := insert_front (R i) k v now)"
| "seq_step R (SeqMove i k a now) = R(i := move_after (R i) k a now)"
| "seq_step R (SeqSet i k v now) = R(i := set_value (R i) k v now)"
| "seq_step R (SeqRemove i k now) = R(i := seq_remove (R i) k now)"
| "seq_step R (SeqMerge i j now) = R(i := fst (seq_merge (R i) (R j) now))"

definition seq_run :: "('k, 'v) seq_op list \<Rightarrow> (int \<Rightarrow> ('k, 'v) seq_crdt)" where
  "seq_run ops = foldl seq_step seq_new ops"

definition stamps :: "('k, 'v) seq_crdt \<Rightarrow> seq_stamp set" where
  "stamps q = {s. \<exists>k e. map_of (seq_elements q) k = Some e \<and>
     (s = se_value_stamp e \<or> s = se_position_stamp e \<or> s = se_deleted_stamp e)}"

definition below :: "seq_stamp \<Rightarrow> ('k, 'v) seq_crdt \<Rightarrow> bool" where
  "below s q \<longleftrightarrow> stamp_pos s \<le> clock_pos (seq_clock_of q)"

text \<open>A stamp is the floor, or below the clocks of its holder and of its peer.\<close>

definition seq_net_ok :: "('k \<Rightarrow> seq_stamp \<Rightarrow> 'v) \<Rightarrow> ('k \<Rightarrow> seq_stamp \<Rightarrow> seq_position) \<Rightarrow> (int \<Rightarrow> ('k, 'v) seq_crdt) \<Rightarrow> bool" where
  "seq_net_ok wv wp R \<longleftrightarrow>
     (\<forall>i. seq_peer (R i) = i \<and> (0, 0) \<le> clock_pos (seq_clock_of (R i)) \<and> seq_ok wv wp (R i) \<and>
       (\<forall>s\<in>stamps (R i). s = zero_stamp \<or> (below s (R i) \<and> below s (R (snd (snd s))))))"

lemma seq_net_okI:
  assumes "\<And>i. seq_peer (R i) = i" and "\<And>i. (0, 0) \<le> clock_pos (seq_clock_of (R i))" and "\<And>i. seq_ok wv wp (R i)"
    and "\<And>i s. s \<in> stamps (R i) \<Longrightarrow> s = zero_stamp \<or> (below s (R i) \<and> below s (R (snd (snd s))))"
  shows "seq_net_ok wv wp R"
  using assms by (simp add: seq_net_ok_def)

lemma seq_net_ok_stamp: "seq_net_ok wv wp R \<Longrightarrow> s \<in> stamps (R i) \<Longrightarrow> s = zero_stamp \<or> (below s (R i) \<and> below s (R (snd (snd s))))"
  unfolding seq_net_ok_def by blast

lemma stamps_lookup:
  "map_of (seq_elements q) k = Some e \<Longrightarrow> se_value_stamp e \<in> stamps q \<and> se_position_stamp e \<in> stamps q \<and> se_deleted_stamp e \<in> stamps q"
  unfolding stamps_def by blast

lemma stamps_element: "seq_ok wv wp q \<Longrightarrow> e \<in> set (map snd (seq_elements q)) \<Longrightarrow> max_stamp e \<in> stamps q"
proof -
  assume ok: "seq_ok wv wp q" and "e \<in> set (map snd (seq_elements q))"
  then obtain k where "(k, e) \<in> set (seq_elements q)" by auto
  then have "map_of (seq_elements q) k = Some e" using ok by (simp add: seq_ok_def)
  then show ?thesis using stamps_lookup [of q k e] by (auto simp: max_stamp_def max_def)
qed

section \<open>Local writes\<close>

text \<open>A fresh stamp is in no replica.\<close>

lemma fresh_stamp:
  assumes R: "seq_net_ok wv wp R" and s: "seq_stamp_now (R i) now = (q1, s)"
  shows "\<forall>j. s \<notin> stamps (R j)" and "zero_stamp < s" and "\<forall>x\<in>stamps (R i). x < s"
    and "seq_elements q1 = seq_elements (R i)" and "seq_peer q1 = i" and "snd (snd s) = i" and "below s q1"
    and "clock_pos (seq_clock_of (R i)) \<le> clock_pos (seq_clock_of q1)"
proof -
  obtain c w l where c: "clock_send (seq_clock_of (R i)) now = (c, w, l)" "q1 = (R i)\<lparr>seq_clock_of := c\<rparr>" "s = (w, l, seq_peer (R i))"
    using s by (auto simp: seq_stamp_now_def split: prod.splits)
  have p: "seq_peer (R i) = i" and z: "(0, 0) \<le> clock_pos (seq_clock_of (R i))" using R by (auto simp: seq_net_ok_def)
  have up: "clock_pos (seq_clock_of (R i)) < (w, l)" "clock_pos c = (w, l)" using clock_send_above [OF c(1)] by auto
  have pos: "stamp_pos s = (w, l)" by (simp add: c(3) stamp_pos_def)
  show "seq_elements q1 = seq_elements (R i)" "seq_peer q1 = i" "snd (snd s) = i" by (simp_all add: c p)
  show "below s q1" "clock_pos (seq_clock_of (R i)) \<le> clock_pos (seq_clock_of q1)"
    using up pos by (auto simp: below_def c(2))
  have "stamp_pos zero_stamp < stamp_pos s" using le_less_trans [OF z up(1)] by (simp add: pos) (simp add: zero_stamp_def stamp_pos_def)
  then show z': "zero_stamp < s" by (rule stamp_less)
  have old: "x < s" if "below x (R i)" for x
    using that le_less_trans [OF _ up(1)] by (intro stamp_less) (simp add: below_def pos)
  show "\<forall>x\<in>stamps (R i). x < s"
  proof
    fix x assume "x \<in> stamps (R i)"
    then have "x = zero_stamp \<or> below x (R i)" using R by (auto simp: seq_net_ok_def)
    then show "x < s" using old [of x] z' by (elim disjE) simp_all
  qed
  show "\<forall>j. s \<notin> stamps (R j)"
  proof (intro allI notI)
    fix j assume "s \<in> stamps (R j)"
    then have "s = zero_stamp \<or> below s (R (snd (snd s)))" using R by (auto simp: seq_net_ok_def)
    then show False using old [of s] z' by (auto simp: c p)
  qed
qed

lemma clock_only:
  assumes R: "seq_net_ok wv wp R" and q: "seq_elements q = seq_elements (R i)" "seq_peer q = i"
    "clock_pos (seq_clock_of (R i)) \<le> clock_pos (seq_clock_of q)"
  shows "seq_net_ok wv wp (R(i := q))"
proof -
  have st: "stamps ((R(i := q)) j) = stamps (R j)" for j by (simp add: stamps_def q(1))
  have bel: "below s (R j) \<Longrightarrow> below s ((R(i := q)) j)" for s j using q(3) by (auto simp: below_def)
  have ok: "seq_ok wv wp q" using R q(1) by (simp add: seq_net_ok_def seq_ok_def)
  show ?thesis
  proof (rule seq_net_okI)
    show "seq_peer ((R(i := q)) j) = j" "seq_ok wv wp ((R(i := q)) j)" for j
      using R q(2) ok by (auto simp: seq_net_ok_def)
    show "(0, 0) \<le> clock_pos (seq_clock_of ((R(i := q)) j))" for j
      using R q(3) by (auto simp: seq_net_ok_def intro: order_trans)
    show "x = zero_stamp \<or> below x ((R(i := q)) j) \<and> below x ((R(i := q)) (snd (snd x)))"
      if "x \<in> stamps ((R(i := q)) j)" for j x
      using seq_net_ok_stamp [OF R, of x j] that bel [of x] unfolding st by blast
  qed
qed

text \<open>A register of the new element is written at the fresh stamp, or as it was.\<close>

lemma write_ok:
  assumes R: "seq_net_ok wv wp R" and s: "seq_stamp_now (R i) now = (q1, s)"
    and id: "se_id e = k" and v: "se_value_stamp e = s \<or> (se_value e = wv k (se_value_stamp e) \<and> se_value_stamp e \<in> stamps (R i))"
    and p: "se_position_stamp e = s \<or> (se_position e = wp k (se_position_stamp e) \<and> se_position_stamp e \<in> stamps (R i))"
    and d: "(se_deleted_stamp e = s \<and> se_deleted e) \<or> (se_deleted_stamp e = zero_stamp \<and> \<not> se_deleted e) \<or>
      (se_deleted_stamp e \<in> stamps (R i) \<and> zero_stamp \<le> se_deleted_stamp e \<and> (se_deleted e \<longleftrightarrow> se_deleted_stamp e \<noteq> zero_stamp))"
  shows "\<exists>wv' wp'. seq_net_ok wv' wp' (R(i := seq_put q1 k e))"
proof -
  note fr = fresh_stamp [OF R s]
  let ?wv = "wv(k := (wv k)(s := if se_value_stamp e = s then se_value e else wv k s))"
  let ?wp = "wp(k := (wp k)(s := if se_position_stamp e = s then se_position e else wp k s))"
  have R1: "seq_net_ok wv wp (R(i := q1))" by (rule clock_only [OF R fr(4,5,8)])
  have ok: "seq_ok ?wv ?wp ((R(i := q1)) j)" for j
  proof -
    have old: "seq_ok wv wp ((R(i := q1)) j)" using R1 by (simp add: seq_net_ok_def)
    have "stamps ((R(i := q1)) j) = stamps (R j)" using fr(4) by (simp add: stamps_def)
    then have out: "s \<notin> stamps ((R(i := q1)) j)" using fr(1) by simp
    have "el_ok ?wv ?wp x f" if "(x, f) \<in> set (seq_elements ((R(i := q1)) j))" for x f
    proof -
      have "map_of (seq_elements ((R(i := q1)) j)) x = Some f" using old that by (simp add: seq_ok_def)
      then have "se_value_stamp f \<noteq> s" "se_position_stamp f \<noteq> s" using out stamps_lookup by metis+
      moreover have "el_ok wv wp x f" using old that by (auto simp: seq_ok_def)
      ultimately show ?thesis by (auto simp: el_ok_def)
    qed
    then show ?thesis using old by (auto simp: seq_ok_def)
  qed
  have "s \<notin> stamps (R i)" using fr(1) by blast
  then have el: "el_ok ?wv ?wp k e" using id v p d fr(2) unfolding el_ok_def by auto
  have put: "seq_ok ?wv ?wp (seq_put q1 k e)" using seq_put_ok [OF _ el] ok [of i] by simp
  have st: "stamps (seq_put q1 k e) \<subseteq> insert s (insert zero_stamp (stamps (R i)))"
  proof
    fix x assume "x \<in> stamps (seq_put q1 k e)"
    then obtain k' e' where m: "map_of (seq_elements (seq_put q1 k e)) k' = Some e'"
      "x \<in> {se_value_stamp e', se_position_stamp e', se_deleted_stamp e'}" unfolding stamps_def by blast
    have "x \<in> {se_value_stamp e, se_position_stamp e, se_deleted_stamp e} \<or> x \<in> stamps q1"
    proof (cases "k' = k")
      case True
      then show ?thesis using m by (simp add: update_conv')
    next
      case False
      then have "map_of (seq_elements q1) k' = Some e'" using m(1) by (simp add: update_conv')
      then show ?thesis using stamps_lookup [of q1 k' e'] m(2) by auto
    qed
    moreover have "stamps q1 = stamps (R i)" using fr(4) by (simp add: stamps_def)
    ultimately show "x \<in> insert s (insert zero_stamp (stamps (R i)))" using v p d by auto
  qed
  have bel: "below x (R j) \<Longrightarrow> below x ((R(i := seq_put q1 k e)) j)" for x j
    using fr(8) by (auto simp: below_def)
  have "x = zero_stamp \<or> (below x ((R(i := seq_put q1 k e)) j) \<and> below x ((R(i := seq_put q1 k e)) (snd (snd x))))"
    if x: "x \<in> stamps ((R(i := seq_put q1 k e)) j)" for x j
  proof (cases "x = s")
    case True
    have "below s (seq_put q1 k e)" using fr(7) by (simp add: below_def)
    moreover have "j = i" using x True fr(1) by (cases "j = i") auto
    ultimately show ?thesis using True fr(6) by simp
  next
    case False
    then have "x = zero_stamp \<or> x \<in> stamps (R j)" using x st by (cases "j = i") auto
    then show ?thesis using seq_net_ok_stamp [OF R, of x j] bel by blast
  qed
  moreover have "seq_peer ((R(i := seq_put q1 k e)) j) = j" for j using R fr(5) by (simp add: seq_net_ok_def)
  moreover have "(0, 0) \<le> clock_pos (seq_clock_of ((R(i := seq_put q1 k e)) j))" for j
    using R fr(8) by (auto simp: seq_net_ok_def intro: order_trans)
  moreover have "seq_ok ?wv ?wp ((R(i := seq_put q1 k e)) j)" for j using put ok [of j] by (cases "j = i") simp_all
  ultimately have "seq_net_ok ?wv ?wp (R(i := seq_put q1 k e))" by (intro seq_net_okI)
  then show ?thesis by blast
qed

text \<open>What a local write finds and does.\<close>

lemma lookup_facts:
  assumes R: "seq_net_ok wv wp R" and e: "map_of (seq_elements (R i)) k = Some e"
  shows "el_ok wv wp k e" and "se_value_stamp e \<in> stamps (R i)" and "se_position_stamp e \<in> stamps (R i)"
    and "se_deleted_stamp e \<in> stamps (R i)"
  using seq_ok_lookup [OF _ e] R stamps_lookup [OF e] by (auto simp: seq_net_ok_def)

lemma insert_with_ok:
  assumes R: "seq_net_ok wv wp R"
  shows "\<exists>wv' wp'. seq_net_ok wv' wp' (R(i := insert_with (R i) k v frac now))"
proof -
  obtain q1 s where s: "seq_stamp_now (R i) now = (q1, s)" by (rule prod.exhaust)
  show ?thesis unfolding insert_with_def s Let_def prod.case by (rule write_ok [OF R s]) simp_all
qed

lemma set_value_spec:
  assumes R: "seq_net_ok wv wp R" and e: "map_of (seq_elements (R i)) k = Some e"
  shows "\<exists>q1 s. seq_stamp_now (R i) now = (q1, s) \<and> seq_elements q1 = seq_elements (R i) \<and>
    set_value (R i) k v now = seq_put q1 k (e\<lparr>se_value := v, se_value_stamp := s\<rparr>)"
proof -
  obtain q1 s where s: "seq_stamp_now (R i) now = (q1, s)" by (rule prod.exhaust)
  have "se_value_stamp e < s" using fresh_stamp(3) [OF R s] lookup_facts(2) [OF R e] by blast
  then show ?thesis using s e fresh_stamp(4) [OF R s] by (simp add: set_value_def)
qed

lemma seq_remove_spec:
  assumes R: "seq_net_ok wv wp R" and e: "map_of (seq_elements (R i)) k = Some e"
  shows "\<exists>q1 s. seq_stamp_now (R i) now = (q1, s) \<and> seq_elements q1 = seq_elements (R i) \<and>
    seq_remove (R i) k now = seq_put q1 k (e\<lparr>se_deleted := True, se_deleted_stamp := s\<rparr>)"
proof -
  obtain q1 s where s: "seq_stamp_now (R i) now = (q1, s)" by (rule prod.exhaust)
  have "se_deleted_stamp e < s" using fresh_stamp(3) [OF R s] lookup_facts(4) [OF R e] by blast
  then show ?thesis using s e fresh_stamp(4) [OF R s] by (simp add: seq_remove_def)
qed

lemma move_after_spec:
  assumes R: "seq_net_ok wv wp R" and e: "map_of (seq_elements (R i)) k = Some e"
    and a: "index_where (\<lambda>e. se_id e = anchor) (ordered_alive (R i)) = Some n"
  shows "\<exists>q1 s frac. seq_stamp_now (R i) now = (q1, s) \<and> seq_elements q1 = seq_elements (R i) \<and>
    po_frac (se_position (ordered_alive (R i) ! n)) < frac \<and>
    move_after (R i) k anchor now = seq_put q1 k (e\<lparr>se_position := \<lparr>po_frac = frac, po_peer = i\<rparr>, se_position_stamp := s\<rparr>)"
proof -
  obtain q1 s where s: "seq_stamp_now (R i) now = (q1, s)" by (rule prod.exhaust)
  have "se_position_stamp e < s" using fresh_stamp(3) [OF R s] lookup_facts(3) [OF R e] by blast
  moreover have "seq_peer (R i) = i" using R by (simp add: seq_net_ok_def)
  moreover obtain frac where "frac = (if n + 1 < length (ordered_alive (R i))
      then frac_between (po_frac (se_position (ordered_alive (R i) ! n))) (po_frac (se_position (ordered_alive (R i) ! (n + 1))))
      else frac_after (po_frac (se_position (ordered_alive (R i) ! n))))" by blast
  moreover from this have "po_frac (se_position (ordered_alive (R i) ! n)) < frac"
    by (simp add: frac_between_above frac_after_above)
  ultimately show ?thesis using s e a fresh_stamp(4) [OF R s]
    by (intro exI [of _ q1] exI [of _ s] exI [of _ frac]) (simp add: move_after_def Let_def)
qed

lemma set_value_ok: "seq_net_ok wv wp R \<Longrightarrow> \<exists>wv' wp'. seq_net_ok wv' wp' (R(i := set_value (R i) k v now))"
proof (cases "map_of (seq_elements (R i)) k")
  case None
  then have "R(i := set_value (R i) k v now) = R" by (simp add: set_value_def)
  then show "seq_net_ok wv wp R \<Longrightarrow> ?thesis" by auto
next
  case (Some e)
  assume R: "seq_net_ok wv wp R"
  obtain q1 s where s: "seq_stamp_now (R i) now = (q1, s)"
    "set_value (R i) k v now = seq_put q1 k (e\<lparr>se_value := v, se_value_stamp := s\<rparr>)"
    using set_value_spec [OF R Some] by blast
  show ?thesis unfolding s(2) using lookup_facts [OF R Some]
    by (intro write_ok [OF R s(1)]) (auto simp: el_ok_def)
qed

lemma seq_remove_ok: "seq_net_ok wv wp R \<Longrightarrow> \<exists>wv' wp'. seq_net_ok wv' wp' (R(i := seq_remove (R i) k now))"
proof (cases "map_of (seq_elements (R i)) k")
  case None
  then have "R(i := seq_remove (R i) k now) = R" by (simp add: seq_remove_def)
  then show "seq_net_ok wv wp R \<Longrightarrow> ?thesis" by auto
next
  case (Some e)
  assume R: "seq_net_ok wv wp R"
  obtain q1 s where s: "seq_stamp_now (R i) now = (q1, s)"
    "seq_remove (R i) k now = seq_put q1 k (e\<lparr>se_deleted := True, se_deleted_stamp := s\<rparr>)"
    using seq_remove_spec [OF R Some] by blast
  show ?thesis unfolding s(2) using lookup_facts [OF R Some]
    by (intro write_ok [OF R s(1)]) (auto simp: el_ok_def)
qed

lemma move_after_ok: "seq_net_ok wv wp R \<Longrightarrow> \<exists>wv' wp'. seq_net_ok wv' wp' (R(i := move_after (R i) k a now))"
proof (cases "map_of (seq_elements (R i)) k = None \<or> index_where (\<lambda>e. se_id e = a) (ordered_alive (R i)) = None")
  case True
  then have "R(i := move_after (R i) k a now) = R" by (auto simp: move_after_def Let_def split: option.split)
  then show "seq_net_ok wv wp R \<Longrightarrow> ?thesis" by auto
next
  case False
  assume R: "seq_net_ok wv wp R"
  obtain e n where e: "map_of (seq_elements (R i)) k = Some e" "index_where (\<lambda>e. se_id e = a) (ordered_alive (R i)) = Some n"
    using False by auto
  obtain q1 s frac where s: "seq_stamp_now (R i) now = (q1, s)"
    "move_after (R i) k a now = seq_put q1 k (e\<lparr>se_position := \<lparr>po_frac = frac, po_peer = i\<rparr>, se_position_stamp := s\<rparr>)"
    using move_after_spec [OF R e] by blast
  show ?thesis unfolding s(2) using lookup_facts [OF R e(1)]
    by (intro write_ok [OF R s(1)]) (auto simp: el_ok_def)
qed

text \<open>A merge brings stamps that are below the clocks of their peers, and the clock passes them.\<close>

lemma seq_merge_ok:
  assumes R: "seq_net_ok wv wp R"
  shows "seq_net_ok wv wp (R(i := fst (seq_merge (R i) (R j) now)))"
proof -
  let ?q = "fst (seq_merge (R i) (R j) now)" and ?t = "case now of None \<Rightarrow> 0 | Some t \<Rightarrow> t"
  have ok: "seq_ok wv wp (R i)" "seq_ok wv wp (R j)" using R by (auto simp: seq_net_ok_def)
  note m = seq_merge_spec [OF ok, of now]
  have up: "clock_pos (seq_clock_of (R i)) \<le> clock_pos (seq_clock_of ?q)" using m observe_all_above by metis
  have bel: "below x (R n) \<Longrightarrow> below x ((R(i := ?q)) n)" for x n using up by (auto simp: below_def)
  have split: "x \<in> stamps (R i) \<or> x \<in> stamps (R j)" if x: "x \<in> stamps ?q" for x
  proof -
    obtain k e where e: "map_of (seq_elements ?q) k = Some e" "x \<in> {se_value_stamp e, se_position_stamp e, se_deleted_stamp e}"
      using x unfolding stamps_def by blast
    have "seq_seen ?q k = Some (element_seen e)" by (simp add: seq_seen_def e(1))
    then have j: "join_seen (seq_seen (R i) k) (seq_seen (R j) k) = Some (element_seen e)" using m by simp
    show ?thesis
      using j e(2) stamps_lookup [of "R i" k] stamps_lookup [of "R j" k]
      by (cases "map_of (seq_elements (R i)) k"; cases "map_of (seq_elements (R j)) k")
        (auto simp: seq_seen_def join_seen_def element_seen_def max_def split: if_splits)
  qed
  have seen: "below x ?q" if x: "x \<in> stamps (R j)" for x
  proof -
    obtain k e where e: "map_of (seq_elements (R j)) k = Some e" "x \<in> {se_value_stamp e, se_position_stamp e, se_deleted_stamp e}"
      using x unfolding stamps_def by blast
    have "e \<in> set (map snd (seq_elements (R j)))" using map_of_SomeD [OF e(1)] by force
    then have "stamp_pos (max_stamp e) \<le> clock_pos (seq_clock_of ?q)"
      using conjunct2 [OF observe_all_above [of "seq_clock_of (R i)" "map snd (seq_elements (R j))" ?t]] m by metis
    moreover have "x \<le> max_stamp e" using e(2) by (auto simp: max_stamp_def le_max_iff_disj)
    ultimately show ?thesis using order_trans [OF stamp_le] by (auto simp: below_def)
  qed
  show ?thesis
  proof (rule seq_net_okI)
    show "seq_peer ((R(i := ?q)) n) = n" "seq_ok wv wp ((R(i := ?q)) n)" for n
      using R m by (auto simp: seq_net_ok_def)
    show "(0, 0) \<le> clock_pos (seq_clock_of ((R(i := ?q)) n))" for n
      using R up by (auto simp: seq_net_ok_def intro: order_trans)
    show "x = zero_stamp \<or> below x ((R(i := ?q)) n) \<and> below x ((R(i := ?q)) (snd (snd x)))"
      if x: "x \<in> stamps ((R(i := ?q)) n)" for n x
    proof (cases "n = i")
      case True
      then have "x \<in> stamps (R i) \<or> x \<in> stamps (R j)" using x split [of x] by simp
      then consider "x \<in> stamps (R i)" | "x \<in> stamps (R j)" by (elim disjE)
      then show ?thesis
      proof cases
        case 1
        then show ?thesis using seq_net_ok_stamp [OF R 1] bel [of x i] bel [of x "snd (snd x)"] True by blast
      next
        case 2
        have "x = zero_stamp \<or> below x ((R(i := ?q)) (snd (snd x)))"
          using seq_net_ok_stamp [OF R 2] bel [of x "snd (snd x)"] by blast
        then show ?thesis using seen [OF 2] True by simp
      qed
    next
      case False
      then have n: "x \<in> stamps (R n)" using x by simp
      then show ?thesis using seq_net_ok_stamp [OF R n] bel [of x n] bel [of x "snd (snd x)"] by blast
    qed
  qed
qed

lemma seq_step_ok:
  assumes "seq_net_ok wv wp R"
  shows "\<exists>wv' wp'. seq_net_ok wv' wp' (seq_step R a)"
proof (cases a)
  case (SeqMerge i j now)
  then show ?thesis using seq_merge_ok [OF assms, of i j now] by auto
qed (simp_all only: seq_step.simps insert_back_def insert_front_def Let_def insert_with_ok [OF assms]
      set_value_ok [OF assms] seq_remove_ok [OF assms] move_after_ok [OF assms])

lemma seq_run_ok: "\<exists>wv wp. seq_net_ok wv wp (seq_run ops)"
proof -
  have "seq_net_ok wv wp R \<Longrightarrow> \<exists>wv wp. seq_net_ok wv wp (foldl seq_step R ops)" for wv wp and R :: "int \<Rightarrow> ('a, 'b) seq_crdt"
  proof (induction ops arbitrary: R wv wp)
    case (Cons a ops)
    then show ?case using seq_step_ok [OF Cons.prems, of a] by auto
  qed auto
  moreover have "seq_net_ok wv wp seq_new" for wv wp
    by (rule seq_net_okI) (simp_all add: seq_new_def clock_pos_def seq_clock_new_def seq_ok_def stamps_def)
  ultimately show ?thesis unfolding seq_run_def by blast
qed

section \<open>Order\<close>

lemma insort_top: "\<forall>x\<in>set xs. f x < f y \<Longrightarrow> insort_key f y xs = xs @ [y]"
  by (induction xs) (auto simp: not_le)

lemma insort_before_top: "f x < f y \<Longrightarrow> insort_key f x (xs @ [y]) = insort_key f x xs @ [y]"
  by (induction xs) (auto simp: not_le)

lemma sort_top: "\<forall>x\<in>set (A @ B). f x < f y \<Longrightarrow> sort_key f (A @ y # B) = sort_key f (A @ B) @ [y]"
  by (induction A) (auto simp: insort_top insort_before_top)

lemma update_split:
  "distinct (map fst xs) \<Longrightarrow> \<exists>A B. AList.update k e xs = A @ (k, e) # B \<and> A @ B = filter (\<lambda>x. fst x \<noteq> k) xs"
proof (induction xs)
  case (Cons x xs)
  show ?case
  proof (cases "fst x = k")
    case True
    then have "filter (\<lambda>x. fst x \<noteq> k) xs = xs" using Cons.prems by (auto simp: filter_id_conv image_iff)
    then show ?thesis using True by (cases x, simp) (rule exI [of _ "[]"], rule exI [of _ xs], simp)
  next
    case False
    then obtain A B where "AList.update k e xs = A @ (k, e) # B" "A @ B = filter (\<lambda>x. fst x \<noteq> k) xs"
      using Cons by auto
    then show ?thesis using False by (cases x, simp) (rule exI [of _ "x # A"], rule exI [of _ B], simp)
  qed
qed (auto intro!: exI [of _ "[]"])

lemma alive_filter: "\<forall>x\<in>set xs. se_id (snd x) = fst x \<Longrightarrow>
    filter (\<lambda>e. \<not> se_deleted e) (map snd (filter (\<lambda>x. fst x \<noteq> k) xs)) =
    filter (\<lambda>f. se_id f \<noteq> k) (filter (\<lambda>e. \<not> se_deleted e) (map snd xs))"
  by (induction xs) auto

text \<open>An element put above all others comes last, and the others keep their order.\<close>

lemma order_put_last:
  assumes ok: "seq_ok wv wp q" and e: "se_id e = k" "\<not> se_deleted e"
    and top: "\<And>f. f \<in> set (ordered_alive q) \<Longrightarrow> position_key (se_position f) < position_key (se_position e)"
  shows "seq_order (seq_put q k e) = filter (\<lambda>x. x \<noteq> k) (seq_order q) @ [k]"
proof -
  let ?key = "\<lambda>e. position_key (se_position e)" and ?alive = "\<lambda>xs. filter (\<lambda>e. \<not> se_deleted e) (map snd xs)"
  obtain A B where u: "AList.update k e (seq_elements q) = A @ (k, e) # B"
    "A @ B = filter (\<lambda>x. fst x \<noteq> k) (seq_elements q)"
  proof -
    have "distinct (map fst (seq_elements q))" using ok by (simp add: seq_ok_def)
    from update_split [OF this, of k e] show thesis using that by (elim exE conjE)
  qed
  have ids: "se_id (snd x) = fst x" if "x \<in> set (seq_elements q)" for x
    using ok that by (auto simp: seq_ok_def el_ok_def)
  have AB: "?alive A @ ?alive B = filter (\<lambda>f. se_id f \<noteq> k) (?alive (seq_elements q))"
  proof -
    have "?alive A @ ?alive B = ?alive (A @ B)" by simp
    also have "\<dots> = filter (\<lambda>f. se_id f \<noteq> k) (?alive (seq_elements q))"
      unfolding u(2) using ids by (intro alive_filter) simp
    finally show ?thesis .
  qed
  have "\<forall>f\<in>set (?alive A @ ?alive B). ?key f < ?key e" unfolding AB using top by (auto simp: ordered_alive_def)
  then have "sort_key ?key (?alive A @ e # ?alive B) = sort_key ?key (?alive A @ ?alive B) @ [e]" by (rule sort_top)
  also have "sort_key ?key (?alive A @ ?alive B) = filter (\<lambda>f. se_id f \<noteq> k) (ordered_alive q)"
    by (simp add: AB ordered_alive_def filter_sort)
  finally show ?thesis using e by (simp add: seq_order_def ordered_alive_def u(1) filter_map comp_def)
qed

lemma insert_back_order:
  assumes R: "seq_net_ok wv wp R"
  shows "seq_order (insert_back (R i) k v now) = filter (\<lambda>x. x \<noteq> k) (seq_order (R i)) @ [k]"
    and "seq_get (insert_back (R i) k v now) k = Some v"
proof -
  let ?es = "ordered_alive (R i)"
  let ?frac = "frac_after (if ?es = [] then [] else po_frac (se_position (last ?es)))"
  obtain q1 s where s: "seq_stamp_now (R i) now = (q1, s)" by (rule prod.exhaust)
  let ?e = "\<lparr>se_id = k, se_value = v, se_value_stamp = s, se_position = \<lparr>po_frac = ?frac, po_peer = seq_peer (R i)\<rparr>,
      se_position_stamp = s, se_deleted = False, se_deleted_stamp = zero_stamp\<rparr>"
  have i: "insert_back (R i) k v now = seq_put q1 k ?e" by (simp add: insert_back_def insert_with_def s Let_def)
  have el: "seq_elements q1 = seq_elements (R i)" by (rule fresh_stamp(4) [OF R s])
  have ok: "seq_ok wv wp q1" using R el by (simp add: seq_net_ok_def seq_ok_def)
  have al: "ordered_alive q1 = ?es" by (simp add: ordered_alive_def el)
  have sorted: "sorted (map (\<lambda>e. position_key (se_position e)) ?es)" by (simp add: ordered_alive_def)
  have "position_key (se_position f) < position_key (se_position ?e)" if f: "f \<in> set ?es" for f
  proof -
    have "po_frac (se_position (last ?es)) < ?frac" using f by (auto simp: frac_after_above)
    moreover have "position_key (se_position f) \<le> position_key (se_position (last ?es))"
    proof -
      obtain n where n: "n < length ?es" "?es ! n = f" using f by (auto simp: in_set_conv_nth)
      then have "map (\<lambda>e. position_key (se_position e)) ?es ! n \<le> map (\<lambda>e. position_key (se_position e)) ?es ! (length ?es - 1)"
        using sorted by (intro sorted_nth_mono) auto
      then show ?thesis using n by (cases "?es = []") (simp_all add: last_conv_nth)
    qed
    ultimately show ?thesis by (auto simp: position_key_def prod_less_def prod_le_def)
  qed
  then show "seq_order (insert_back (R i) k v now) = filter (\<lambda>x. x \<noteq> k) (seq_order (R i)) @ [k]"
    unfolding i using order_put_last [OF ok, of ?e k] by (simp add: al) (simp add: seq_order_def al)
  show "seq_get (insert_back (R i) k v now) k = Some v" by (simp add: i seq_get_def update_conv')
qed

text \<open>Replicas that have seen the same agree, and in order too when no two positions tie.\<close>

lemma same_seen_same_values:
  assumes "seq_ok wv wp a" and "seq_ok wv wp b" and "seq_seen a = seq_seen b"
  shows "map_of (seq_elements a) = map_of (seq_elements b)"
  using seq_seen_elements [OF assms(1)] seq_seen_elements [OF assms(2)] assms(3) by (simp add: fun_eq_iff)

lemma same_elements_order:
  assumes ok: "seq_ok wv wp a" "seq_ok wv wp b" and eq: "map_of (seq_elements a) = map_of (seq_elements b)"
    and tie: "inj_on (\<lambda>e. position_key (se_position e)) (set (ordered_alive a))"
  shows "seq_order a = seq_order b"
proof -
  let ?key = "\<lambda>e. position_key (se_position e)"
  have "(k, e) \<in> set (seq_elements x) \<longleftrightarrow> map_of (seq_elements x) k = Some e" if "seq_ok wv wp x" for k e x
    using that by (simp add: seq_ok_def)
  then have "set (seq_elements a) = set (seq_elements b)" using ok eq by auto
  then have same: "set (ordered_alive a) = set (ordered_alive b)" by (simp add: ordered_alive_def)
  have "distinct (map se_id (map snd (seq_elements x)))" if "seq_ok wv wp x" for x
  proof -
    have "map se_id (map snd (seq_elements x)) = map fst (seq_elements x)"
      unfolding list.map_comp by (rule map_cong) (use that in \<open>auto simp: seq_ok_def el_ok_def\<close>)
    then show ?thesis using that by (simp only: seq_ok_def)
  qed
  then have "distinct (map snd (seq_elements x))" if "seq_ok wv wp x" for x
    using that distinct_map [of se_id "map snd (seq_elements x)"] by blast
  then have "distinct (ordered_alive x)" if "seq_ok wv wp x" for x
    using that by (simp add: ordered_alive_def)
  then have "distinct (map ?key (ordered_alive a))" "distinct (map ?key (ordered_alive b))"
    using ok tie same by (auto simp: distinct_map)
  moreover have "sorted (map ?key (ordered_alive x))" for x by (simp add: ordered_alive_def)
  ultimately have "map ?key (ordered_alive a) = map ?key (ordered_alive b)"
    using same by (intro sorted_distinct_set_unique) simp_all
  then have "ordered_alive a = ordered_alive b" using tie same by (simp add: inj_on_map_eq_map)
  then show ?thesis by (simp add: seq_order_def)
qed

end
