(* ===== verification/SeqTheorems.thy ===== *)
theory SeqTheorems
  imports SeqNet
begin

text \<open>
  The properties of the sequence CRDT over every network the peers can reach.
\<close>


text \<open>Two peers insert, one moves and the other edits the same element, and they exchange.\<close>

definition seq_sample :: "(nat, char) seq_op list" where
  "seq_sample = [SeqBack 1 10 (CHR ''a'') 5, SeqBack 1 11 (CHR ''b'') 3, SeqMerge 2 1 None, SeqMove 1 10 11 4,
     SeqSet 2 10 (CHR ''c'') 2, SeqMerge 1 2 None, SeqMerge 2 1 None]"


text \<open>C25: replicas that merged the same set of replicas of a reached network, in any order and
  however often, hold the same elements, so they answer the same values and membership; they show
  the same order when no two live elements tie in their position.\<close>

theorem seq_merge_converges:
  fixes ops :: "('k, 'v) seq_op list" and i j "is" js
  defines "a \<equiv> foldl (\<lambda>q n. fst (seq_merge q (seq_run ops n) None)) (seq_run ops i) is"
    and "b \<equiv> foldl (\<lambda>q n. fst (seq_merge q (seq_run ops n) None)) (seq_run ops j) js"
  assumes "set (i # is) = set (j # js)"
  shows "map_of (seq_elements a) = map_of (seq_elements b) \<and> seq_get a = seq_get b \<and>
    seq_contains a = seq_contains b \<and>
    (inj_on (\<lambda>e. position_key (se_position e)) (set (ordered_alive a)) \<longrightarrow> seq_order a = seq_order b)"
proof -
  obtain wv wp where R: "seq_net_ok wv wp (seq_run ops)" using seq_run_ok by blast
  have fold: "foldl (\<lambda>q n. fst (seq_merge q (seq_run ops n) None)) q ks = foldl seq_join q (map (seq_run ops) ks)" for q ks
    by (induction ks arbitrary: q) (simp_all add: seq_join_def)
  have ok: "list_all (seq_ok wv wp) (map (seq_run ops) ks)" for ks using R by (simp add: list_all_iff seq_net_ok_def)
  have oka: "seq_ok wv wp (foldl seq_join (seq_run ops n) (map (seq_run ops) ks))" for n ks
    using ok [of "[n]"] by (intro seq_replicas.ok_fold ok) simp
  have "seq_seen (foldl seq_join (seq_run ops i) (map (seq_run ops) is)) =
      seq_seen (foldl seq_join (seq_run ops j) (map (seq_run ops) js))"
    using ok [of "i # is"] ok [of "j # js"] assms(3)
    by (intro seq_replicas.same_states) (simp_all, metis image_insert)
  then have "seq_seen a = seq_seen b" "seq_ok wv wp a" "seq_ok wv wp b"
    unfolding a_def b_def fold using oka by blast+
  then have m: "map_of (seq_elements a) = map_of (seq_elements b)"
    and "inj_on (\<lambda>e. position_key (se_position e)) (set (ordered_alive a)) \<Longrightarrow> seq_order a = seq_order b"
    using same_seen_same_values same_elements_order by blast+
  moreover have "seq_get a = seq_get b" "seq_contains a = seq_contains b"
    using m by (simp_all add: seq_get_def seq_contains_def fun_eq_iff)
  ultimately show ?thesis by blast
qed

theorem seq_merge_converges_witness:
  "seq_order (fst (seq_merge (seq_run seq_sample 1) (seq_run seq_sample 2) None)) =
   seq_order (fst (seq_merge (seq_run seq_sample 2) (seq_run seq_sample 1) None))"
proof -
  have "map (\<lambda>e. position_key (se_position e)) (ordered_alive (fst (seq_merge (seq_run seq_sample 1) (seq_run seq_sample 2) None))) =
      [([128, 128], 1), ([128, 128, 128], 1)]" by code_simp
  then have "distinct (map (\<lambda>e. position_key (se_position e))
      (ordered_alive (fst (seq_merge (seq_run seq_sample 1) (seq_run seq_sample 2) None))))" by simp
  then have "inj_on (\<lambda>e. position_key (se_position e))
      (set (ordered_alive (foldl (\<lambda>q n. fst (seq_merge q (seq_run seq_sample n) None)) (seq_run seq_sample 1) [2])))"
    by (simp add: distinct_map)
  then show ?thesis using seq_merge_converges [of 1 "[2]" 2 "[1]" seq_sample] by auto
qed

end
