(* ===== verification/Msgpack.thy ===== *)
theory Msgpack
  imports Prelude "HOL-Library.Word" "HOL-Library.AList"
begin

text \<open>
  The MessagePack codec of \<^verbatim>\<open>src/lazily/msgpack_codec.py\<close>: a serializer for the value trees that
  \<^verbatim>\<open>to_wire\<close> builds. A byte is an \<open>8 word\<close>, a Python string the list of its code points, a list or
  tuple \<^verbatim>\<open>FList\<close>, a dictionary the list of its items in insertion order. The output buffer is the
  returned list: an error abandons it, as the exception does. The reader's data and position are
  the bytes still to be read. Python's bound on the depth of recursion is not modelled.
\<close>

unbundle bit_operations_syntax

type_synonym byte = "8 word"

datatype codec_error =
    Int_out_of_range int
  | Str_too_long
  | Array_too_long
  | Map_too_long
  | Bytes_payload
  | Key_not_string
  | Float_field
  | Unsupported_value
  | Unencodable_str
  | Frame_truncated
  | Invalid_utf8
  | Unsupported_tag int
  | Trailing_bytes
  | Out_of_fuel

text \<open>Keys of other types than strings, floats and values of other classes carry no content here.\<close>

datatype map_key = Field "nat list" | Other_key

datatype frame_value =
    FNull
  | FBool bool
  | FInt int
  | FStr "nat list"
  | FBytes "byte list"
  | FList "frame_value list"
  | FMap "(map_key \<times> frame_value) list"
  | FFloat
  | FOther

section \<open>The standard library's encodings\<close>

text \<open>\<^verbatim>\<open>struct.pack\<close> of a big-endian integer of \<open>n\<close> bytes, signed or not, and its inverse.\<close>

primrec be_bytes :: "nat \<Rightarrow> int \<Rightarrow> byte list" where
  "be_bytes 0 v = []"
| "be_bytes (Suc n) v = be_bytes n (v div 256) @ [word_of_int v]"

definition be_uint :: "byte list \<Rightarrow> int" where
  "be_uint bs = foldl (\<lambda>a b. a * 256 + uint b) 0 bs"

definition be_sint :: "byte list \<Rightarrow> int" where
  "be_sint bs = (if be_uint bs < 256 ^ length bs div 2 then be_uint bs else be_uint bs - 256 ^ length bs)"

text \<open>UTF-8 as \<^verbatim>\<open>str.encode\<close> and \<^verbatim>\<open>bytes.decode\<close> do it: surrogates and overlong forms are errors.\<close>

definition code_point :: "nat \<Rightarrow> bool" where
  "code_point c \<longleftrightarrow> c < 0x110000 \<and> \<not> (0xD800 \<le> c \<and> c < 0xE000)"

definition cont_byte :: "nat \<Rightarrow> byte" where
  "cont_byte n = word_of_nat (0x80 + n mod 64)"

definition utf8_char :: "nat \<Rightarrow> byte list" where
  "utf8_char c =
     (if c < 0x80 then [word_of_nat c]
      else if c < 0x800 then [word_of_nat (0xC0 + c div 64), cont_byte c]
      else if c < 0x10000 then [word_of_nat (0xE0 + c div 4096), cont_byte (c div 64), cont_byte c]
      else [word_of_nat (0xF0 + c div 262144), cont_byte (c div 4096), cont_byte (c div 64), cont_byte c])"

definition utf8_encode :: "nat list \<Rightarrow> byte list option" where
  "utf8_encode s = (if list_all code_point s then Some (concat (map utf8_char s)) else None)"

fun utf8_conts :: "nat \<Rightarrow> nat \<Rightarrow> byte list \<Rightarrow> (nat \<times> byte list) option" where
  "utf8_conts 0 acc bs = Some (acc, bs)"
| "utf8_conts (Suc n) acc [] = None"
| "utf8_conts (Suc n) acc (b # bs) =
     (if 0x80 \<le> unat b \<and> unat b < 0xC0 then utf8_conts n (acc * 64 + (unat b - 0x80)) bs else None)"

definition utf8_form :: "nat \<Rightarrow> (nat \<times> byte list) option \<Rightarrow> (nat \<times> byte list) option" where
  "utf8_form least r = (case r of None \<Rightarrow> None
     | Some (c, bs) \<Rightarrow> if least \<le> c \<and> code_point c then Some (c, bs) else None)"

fun utf8_next :: "byte list \<Rightarrow> (nat \<times> byte list) option" where
  "utf8_next [] = None"
| "utf8_next (b # bs) =
     (let x = unat b
      in if x < 0x80 then Some (x, bs)
         else if x < 0xC0 then None
         else if x < 0xE0 then utf8_form 0x80 (utf8_conts 1 (x - 0xC0) bs)
         else if x < 0xF0 then utf8_form 0x800 (utf8_conts 2 (x - 0xE0) bs)
         else if x < 0xF8 then utf8_form 0x10000 (utf8_conts 3 (x - 0xF0) bs)
         else None)"

lemma utf8_conts_shorter: "utf8_conts n acc bs = Some (c, r) \<Longrightarrow> length r \<le> length bs"
  by (induction n acc bs rule: utf8_conts.induct) (auto split: if_splits)

lemma utf8_next_shorter: "utf8_next bs = Some (c, r) \<Longrightarrow> length r < length bs"
  by (cases bs) (auto simp: Let_def utf8_form_def dest!: utf8_conts_shorter split: if_splits option.splits)

function utf8_decode :: "byte list \<Rightarrow> nat list option" where
  "utf8_decode bs =
     (if bs = [] then Some []
      else case utf8_next bs of None \<Rightarrow> None
        | Some (c, r) \<Rightarrow> map_option ((#) c) (utf8_decode r))"
  by pat_completeness auto

termination
  by (relation "measure length") (auto dest: utf8_next_shorter)

declare utf8_decode.simps [simp del]

section \<open>Encoding\<close>

definition pack_uint :: "int \<Rightarrow> codec_error + byte list" where
  "pack_uint v =
     (if v < 0x80 then Inr [word_of_int v]
      else if v \<le> 0xFF then Inr (0xCC # be_bytes 1 v)
      else if v \<le> 0xFFFF then Inr (0xCD # be_bytes 2 v)
      else if v \<le> 0xFFFFFFFF then Inr (0xCE # be_bytes 4 v)
      else if v \<le> 0xFFFFFFFFFFFFFFFF then Inr (0xCF # be_bytes 8 v)
      else Inl (Int_out_of_range v))"

definition pack_int :: "int \<Rightarrow> codec_error + byte list" where
  "pack_int v =
     (if v \<ge> 0 then pack_uint v
      else if v \<ge> - 0x20 then Inr [word_of_int (0xE0 OR (v + 0x20))]
      else if v \<ge> - 0x80 then Inr (0xD0 # be_bytes 1 v)
      else if v \<ge> - 0x8000 then Inr (0xD1 # be_bytes 2 v)
      else if v \<ge> - 0x80000000 then Inr (0xD2 # be_bytes 4 v)
      else if v \<ge> - 0x8000000000000000 then Inr (0xD3 # be_bytes 8 v)
      else Inl (Int_out_of_range v))"

definition pack_str :: "nat list \<Rightarrow> codec_error + byte list" where
  "pack_str s =
     (case utf8_encode s of
        None \<Rightarrow> Inl Unencodable_str
      | Some raw \<Rightarrow>
          let len = int (length raw)
          in if len < 0x20 then Inr (word_of_int (0xA0 OR len) # raw)
             else if len \<le> 0xFF then Inr (0xD9 # be_bytes 1 len @ raw)
             else if len \<le> 0xFFFF then Inr (0xDA # be_bytes 2 len @ raw)
             else if len \<le> 0xFFFFFFFF then Inr (0xDB # be_bytes 4 len @ raw)
             else Inl Str_too_long)"

definition pack_array_header :: "int \<Rightarrow> codec_error + byte list" where
  "pack_array_header len =
     (if len < 0x10 then Inr [word_of_int (0x90 OR len)]
      else if len \<le> 0xFFFF then Inr (0xDC # be_bytes 2 len)
      else if len \<le> 0xFFFFFFFF then Inr (0xDD # be_bytes 4 len)
      else Inl Array_too_long)"

definition pack_map_header :: "int \<Rightarrow> codec_error + byte list" where
  "pack_map_header len =
     (if len < 0x10 then Inr [word_of_int (0x80 OR len)]
      else if len \<le> 0xFFFF then Inr (0xDE # be_bytes 2 len)
      else if len \<le> 0xFFFFFFFF then Inr (0xDF # be_bytes 4 len)
      else Inl Map_too_long)"

text \<open>One write to the buffer after another; the first error ends the whole call.\<close>

definition after_that :: "codec_error + byte list \<Rightarrow> codec_error + byte list \<Rightarrow> codec_error + byte list" where
  "after_that a b = (case a of Inl e \<Rightarrow> Inl e | Inr xs \<Rightarrow> (case b of Inl e \<Rightarrow> Inl e | Inr ys \<Rightarrow> Inr (xs @ ys)))"

definition pack_key :: "map_key \<Rightarrow> codec_error + byte list" where
  "pack_key k = (case k of Other_key \<Rightarrow> Inl Key_not_string | Field s \<Rightarrow> pack_str s)"

fun pack_value :: "frame_value \<Rightarrow> codec_error + byte list"
  and pack_elements :: "frame_value list \<Rightarrow> codec_error + byte list"
  and pack_members :: "(map_key \<times> frame_value) list \<Rightarrow> codec_error + byte list" where
  "pack_value FNull = Inr [0xC0]"
| "pack_value (FBool b) = Inr [if b then 0xC3 else 0xC2]"
| "pack_value (FInt v) = pack_int v"
| "pack_value (FStr s) = pack_str s"
| "pack_value (FBytes bs) = Inl Bytes_payload"
| "pack_value (FList vs) = after_that (pack_array_header (int (length vs))) (pack_elements vs)"
| "pack_value (FMap ms) = after_that (pack_map_header (int (length ms))) (pack_members ms)"
| "pack_value FFloat = Inl Float_field"
| "pack_value FOther = Inl Unsupported_value"
| "pack_elements [] = Inr []"
| "pack_elements (v # vs) = after_that (pack_value v) (pack_elements vs)"
| "pack_members [] = Inr []"
| "pack_members ((k, v) # ms) = after_that (pack_key k) (after_that (pack_value v) (pack_members ms))"

definition msgpack_pack :: "frame_value \<Rightarrow> codec_error + byte list" where
  "msgpack_pack v = pack_value v"

section \<open>Decoding\<close>

definition reader_take :: "nat \<Rightarrow> byte list \<Rightarrow> codec_error + (byte list \<times> byte list)" where
  "reader_take n bs = (if n > length bs then Inl Frame_truncated else Inr (take n bs, drop n bs))"

definition reader_uint :: "nat \<Rightarrow> byte list \<Rightarrow> codec_error + (int \<times> byte list)" where
  "reader_uint n bs = (case reader_take n bs of Inl e \<Rightarrow> Inl e | Inr (c, r) \<Rightarrow> Inr (be_uint c, r))"

definition reader_sint :: "nat \<Rightarrow> byte list \<Rightarrow> codec_error + (int \<times> byte list)" where
  "reader_sint n bs = (case reader_take n bs of Inl e \<Rightarrow> Inl e | Inr (c, r) \<Rightarrow> Inr (be_sint c, r))"

definition read_int :: "codec_error + (int \<times> byte list) \<Rightarrow> codec_error + (frame_value \<times> byte list)" where
  "read_int x = (case x of Inl e \<Rightarrow> Inl e | Inr (v, r) \<Rightarrow> Inr (FInt v, r))"

definition unpack_str :: "nat \<Rightarrow> byte list \<Rightarrow> codec_error + (frame_value \<times> byte list)" where
  "unpack_str len bs =
     (case reader_take len bs of
        Inl e \<Rightarrow> Inl e
      | Inr (raw, r) \<Rightarrow> (case utf8_decode raw of None \<Rightarrow> Inl Invalid_utf8 | Some s \<Rightarrow> Inr (FStr s, r)))"

text \<open>The two loops, over the decoder of one value.\<close>

type_synonym decoder = "byte list \<Rightarrow> codec_error + (frame_value \<times> byte list)"

primrec array_items :: "decoder \<Rightarrow> nat \<Rightarrow> byte list \<Rightarrow> codec_error + (frame_value list \<times> byte list)" where
  "array_items rd 0 bs = Inr ([], bs)"
| "array_items rd (Suc n) bs =
     (case rd bs of
        Inl e \<Rightarrow> Inl e
      | Inr (v, r) \<Rightarrow> (case array_items rd n r of Inl e \<Rightarrow> Inl e | Inr (vs, r') \<Rightarrow> Inr (v # vs, r')))"

primrec map_items :: "decoder \<Rightarrow> nat \<Rightarrow> (map_key \<times> frame_value) list \<Rightarrow> byte list \<Rightarrow>
    codec_error + ((map_key \<times> frame_value) list \<times> byte list)" where
  "map_items rd 0 out bs = Inr (out, bs)"
| "map_items rd (Suc n) out bs =
     (case rd bs of
        Inl e \<Rightarrow> Inl e
      | Inr (FStr s, r) \<Rightarrow>
          (case rd r of Inl e \<Rightarrow> Inl e | Inr (v, r') \<Rightarrow> map_items rd n (AList.update (Field s) v out) r')
      | Inr _ \<Rightarrow> Inl Key_not_string)"

definition unpack_array :: "decoder \<Rightarrow> nat \<Rightarrow> decoder" where
  "unpack_array rd len bs = (case array_items rd len bs of Inl e \<Rightarrow> Inl e | Inr (vs, r) \<Rightarrow> Inr (FList vs, r))"

definition unpack_map :: "decoder \<Rightarrow> nat \<Rightarrow> decoder" where
  "unpack_map rd len bs = (case map_items rd len [] bs of Inl e \<Rightarrow> Inl e | Inr (ms, r) \<Rightarrow> Inr (FMap ms, r))"

text \<open>A body whose length is a number of \<open>n\<close> bytes.\<close>

definition sized :: "(nat \<Rightarrow> decoder) \<Rightarrow> nat \<Rightarrow> decoder" where
  "sized body n bs = (case reader_uint n bs of Inl e \<Rightarrow> Inl e | Inr (len, r) \<Rightarrow> body (nat len) r)"

text \<open>
  The arms of \<^verbatim>\<open>_unpack\<close> after the tag. The recursion has the number of bytes as fuel, enough
  because each level of nesting takes a byte for its tag (theory MsgpackProps).
\<close>

definition unpack_tag :: "decoder \<Rightarrow> int \<Rightarrow> decoder" where
  "unpack_tag rd tag bs =
     (if tag \<le> 0x7F then Inr (FInt tag, bs)
      else if tag \<ge> 0xE0 then Inr (FInt (tag - 0x100), bs)
      else if 0x80 \<le> tag \<and> tag \<le> 0x8F then unpack_map rd (nat (tag AND 0x0F)) bs
      else if 0x90 \<le> tag \<and> tag \<le> 0x9F then unpack_array rd (nat (tag AND 0x0F)) bs
      else if 0xA0 \<le> tag \<and> tag \<le> 0xBF then unpack_str (nat (tag AND 0x1F)) bs
      else if tag = 0xC0 then Inr (FNull, bs)
      else if tag = 0xC2 then Inr (FBool False, bs)
      else if tag = 0xC3 then Inr (FBool True, bs)
      else if tag = 0xC4 \<or> tag = 0xC5 \<or> tag = 0xC6 then Inl Bytes_payload
      else if tag = 0xCA \<or> tag = 0xCB then Inl Float_field
      else if tag = 0xCC then read_int (reader_uint 1 bs)
      else if tag = 0xCD then read_int (reader_uint 2 bs)
      else if tag = 0xCE then read_int (reader_uint 4 bs)
      else if tag = 0xCF then read_int (reader_uint 8 bs)
      else if tag = 0xD0 then read_int (reader_sint 1 bs)
      else if tag = 0xD1 then read_int (reader_sint 2 bs)
      else if tag = 0xD2 then read_int (reader_sint 4 bs)
      else if tag = 0xD3 then read_int (reader_sint 8 bs)
      else if tag = 0xD9 then sized unpack_str 1 bs
      else if tag = 0xDA then sized unpack_str 2 bs
      else if tag = 0xDB then sized unpack_str 4 bs
      else if tag = 0xDC then sized (unpack_array rd) 2 bs
      else if tag = 0xDD then sized (unpack_array rd) 4 bs
      else if tag = 0xDE then sized (unpack_map rd) 2 bs
      else if tag = 0xDF then sized (unpack_map rd) 4 bs
      else Inl (Unsupported_tag tag))"

primrec unpack :: "nat \<Rightarrow> decoder" where
  "unpack 0 bs = Inl Out_of_fuel"
| "unpack (Suc k) bs =
     (case reader_take 1 bs of Inl e \<Rightarrow> Inl e | Inr (b, r) \<Rightarrow> unpack_tag (unpack k) (uint (hd b)) r)"

definition msgpack_unpack :: "byte list \<Rightarrow> codec_error + frame_value" where
  "msgpack_unpack bs =
     (case unpack (Suc (length bs)) bs of
        Inl e \<Rightarrow> Inl e
      | Inr (v, r) \<Rightarrow> if r \<noteq> [] then Inl Trailing_bytes else Inr v)"

end
