(* ===== verification/MsgpackStd.thy ===== *)
theory MsgpackStd
  imports Msgpack
begin

text \<open>
  The standard library's encodings the codec uses are inverse to their decodings: integers of \<open>n\<close>
  bytes and UTF-8.
\<close>

section \<open>Integers\<close>

lemma be_uint_append: "be_uint (bs @ [b]) = be_uint bs * 256 + uint b"
  by (simp add: be_uint_def)

lemma be_bytes_length [simp]: "length (be_bytes n v) = n"
  by (induction n arbitrary: v) simp_all

lemma be_uint_bytes: "be_uint (be_bytes n v) = v mod 256 ^ n"
proof (induction n arbitrary: v)
  case (Suc n)
  have "uint (word_of_int v :: byte) = v mod 256" by (simp add: uint_word_of_int)
  then show ?case using Suc [of "v div 256"] mod_mult2_eq' [of v 256 "256 ^ n"]
    by (simp add: be_uint_append zmod_zmult2_eq)
qed (simp add: be_uint_def)

lemma be_uint_bounds: "0 \<le> be_uint bs \<and> be_uint bs < 256 ^ length bs"
proof (induction bs rule: rev_induct)
  case (snoc b bs)
  have "uint b < 256" "0 \<le> uint b" using uint_lt2p [of b] by simp_all
  then show ?case using snoc by (simp add: be_uint_append)
qed (simp add: be_uint_def)

lemma be_uint_exact: "0 \<le> v \<Longrightarrow> v < 256 ^ n \<Longrightarrow> be_uint (be_bytes n v) = v"
  by (simp add: be_uint_bytes)

lemma be_sint_exact:
  assumes "n > 0" "- (256 ^ n) \<le> 2 * v" "2 * v < 256 ^ n"
  shows "be_sint (be_bytes n v) = v"
proof -
  obtain m where m: "(256 :: int) ^ n = 2 * m" using assms(1) by (cases n) simp_all
  show ?thesis
  proof (cases "v \<ge> 0")
    case True
    then show ?thesis using assms m by (simp add: be_sint_def be_uint_bytes)
  next
    case False
    then have "(v + 2 * m) mod (2 * m) = v + 2 * m" using assms(2,3) m by (intro mod_pos_pos_trivial) auto
    then show ?thesis using assms False m by (simp add: be_sint_def be_uint_bytes)
  qed
qed

lemma be_sint_bounds: "bs \<noteq> [] \<Longrightarrow> - (256 ^ length bs) \<le> 2 * be_sint bs \<and> 2 * be_sint bs < 256 ^ length bs"
  using be_uint_bounds [of bs] by (cases bs) (auto simp: be_sint_def)

section \<open>Strings\<close>

lemma unat_byte: "n < 256 \<Longrightarrow> unat (word_of_nat n :: byte) = n"
  by (simp add: unat_of_nat)

lemma byte_unat: "unat b = n \<Longrightarrow> word_of_nat n = (b :: byte)"
  by auto

lemma unat_cont [simp]: "unat (cont_byte n) = 128 + n mod 64"
proof -
  have "n mod 64 < 64" by simp
  then have "128 + n mod 64 < 256" by linarith
  then show ?thesis unfolding cont_byte_def by (rule unat_byte)
qed

lemma cont_byte_unat: "128 \<le> unat b \<Longrightarrow> unat b < 192 \<Longrightarrow> cont_byte (m * 64 + (unat b - 128)) = b"
proof -
  assume b: "128 \<le> unat b" "unat b < 192"
  then obtain d where d: "unat b = 128 + d" "d < 64" using le_Suc_ex by fastforce
  then have "128 + (m * 64 + (unat b - 128)) mod 64 = unat b" by simp
  then have "cont_byte (m * 64 + (unat b - 128)) = word_of_nat (unat b)" by (simp only: cont_byte_def)
  then show ?thesis by simp
qed

lemmas utf8_three = numeral_2_eq_2 numeral_3_eq_3 One_nat_def

lemma utf8_next_char: "code_point c \<Longrightarrow> utf8_next (utf8_char c @ r) = Some (c, r)"
proof -
  assume c: "code_point c"
  have two: "c div 64 * 64 + c mod 64 = c" by (rule div_mult_mod_eq)
  have "c div 4096 * 64 + c div 64 mod 64 = c div 64"
    using div_mult_mod_eq [of "c div 64" 64] by (simp add: div_mult2_eq [of c 64 64, simplified])
  then have three: "(c div 4096 * 64 + c div 64 mod 64) * 64 + c mod 64 = c" using two by simp
  have "c div 262144 * 64 + c div 4096 mod 64 = c div 4096"
    using div_mult_mod_eq [of "c div 4096" 64] by (simp add: div_mult2_eq [of c 4096 64, simplified])
  then have four: "((c div 262144 * 64 + c div 4096 mod 64) * 64 + c div 64 mod 64) * 64 + c mod 64 = c"
    using three by simp
  consider "c < 128" | "128 \<le> c" "c < 2048" | "2048 \<le> c" "c < 65536" | "65536 \<le> c" "c < 1114112"
    using c unfolding code_point_def by linarith
  then show ?thesis
  proof cases
    case 1
    then show ?thesis by (simp add: utf8_char_def unat_byte Let_def)
  next
    case 2
    define x where "x = 192 + c div 64"
    have x: "192 \<le> x" "x < 224" "x - 192 = c div 64" using 2 by (simp_all add: x_def)
    then have b: "unat (word_of_nat x :: byte) = x" by (intro unat_byte) simp
    have "utf8_char c = [word_of_nat x, cont_byte c]" using 2 by (simp add: utf8_char_def x_def)
    then show ?thesis using 2 c two x b by (simp add: utf8_form_def Let_def)
  next
    case 3
    define x where "x = 224 + c div 4096"
    have x: "224 \<le> x" "x < 240" "x - 224 = c div 4096" using 3 by (simp_all add: x_def)
    then have b: "unat (word_of_nat x :: byte) = x" by (intro unat_byte) simp
    have "utf8_char c = [word_of_nat x, cont_byte (c div 64), cont_byte c]" using 3 by (simp add: utf8_char_def x_def)
    then show ?thesis using 3 c three x b by (simp add: utf8_form_def Let_def utf8_three)
  next
    case 4
    define x where "x = 240 + c div 262144"
    have x: "240 \<le> x" "x < 248" "x - 240 = c div 262144" using 4 by (simp_all add: x_def)
    then have b: "unat (word_of_nat x :: byte) = x" by (intro unat_byte) simp
    have "utf8_char c = [word_of_nat x, cont_byte (c div 4096), cont_byte (c div 64), cont_byte c]"
      using 4 by (simp add: utf8_char_def x_def)
    then show ?thesis using 4 c four x b by (simp add: utf8_form_def Let_def utf8_three)
  qed
qed

lemma utf8_conts_SucE:
  assumes "utf8_conts (Suc n) acc bs = Some (c, r)"
  obtains b bs' where "bs = b # bs'" "128 \<le> unat b" "unat b < 192" "utf8_conts n (acc * 64 + (unat b - 128)) bs' = Some (c, r)"
  using assms by (cases bs) (auto split: if_splits)

lemma cont_div: "128 \<le> unat b \<Longrightarrow> unat b < 192 \<Longrightarrow> (m * 64 + (unat (b :: byte) - 128)) div 64 = m"
  by simp

lemma div4096: "(n :: nat) div 4096 = n div 64 div 64"
  by (simp add: div_mult2_eq [of n 64 64, simplified])

lemma div262144: "(n :: nat) div 262144 = n div 4096 div 64"
  by (simp add: div_mult2_eq [of n 4096 64, simplified])

lemma lead_byte: "n \<le> unat b \<Longrightarrow> word_of_nat (n + (unat b - n)) = (b :: byte)"
  by simp

lemma utf8_next_some:
  assumes "utf8_next bs = Some (c, r)"
  shows "code_point c \<and> bs = utf8_char c @ r"
proof -
  obtain b bs' where bs: "bs = b # bs'" using assms by (cases bs) auto
  consider "unat b < 128" "c = unat b" "r = bs'"
    | "192 \<le> unat b" "unat b < 224" "utf8_conts (Suc 0) (unat b - 192) bs' = Some (c, r)" "128 \<le> c" "code_point c"
    | "224 \<le> unat b" "unat b < 240" "utf8_conts (Suc (Suc 0)) (unat b - 224) bs' = Some (c, r)" "2048 \<le> c" "code_point c"
    | "240 \<le> unat b" "unat b < 248" "utf8_conts (Suc (Suc (Suc 0))) (unat b - 240) bs' = Some (c, r)" "65536 \<le> c" "code_point c"
    using assms unfolding bs
    by (auto simp: Let_def utf8_form_def utf8_three split: if_splits option.splits)
  then show ?thesis
  proof cases
    case 1
    then show ?thesis using bs by (auto simp: code_point_def utf8_char_def)
  next
    case 2
    from 2(3) obtain b1 where t: "bs' = b1 # r" "128 \<le> unat b1" "unat b1 < 192" "c = (unat b - 192) * 64 + (unat b1 - 128)"
      by (elim utf8_conts_SucE) simp
    have d: "c div 64 = unat b - 192" "cont_byte c = b1" unfolding t(4) using t(2,3) by (rule cont_div, rule cont_byte_unat)
    have "c < 2048" using t(2-4) 2(1,2) by linarith
    then have "utf8_char c = [word_of_nat (192 + (unat b - 192)), b1]" using 2(4) by (simp only: utf8_char_def d if_False if_True) simp
    then show ?thesis using 2 bs t(1) lead_byte [OF 2(1)] by simp
  next
    case 3
    from 3(3) obtain b1 b2 where t: "bs' = b1 # b2 # r" "128 \<le> unat b1" "unat b1 < 192" "128 \<le> unat b2" "unat b2 < 192"
      "c = ((unat b - 224) * 64 + (unat b1 - 128)) * 64 + (unat b2 - 128)"
      by (elim utf8_conts_SucE) simp
    have d: "c div 64 = (unat b - 224) * 64 + (unat b1 - 128)" "cont_byte c = b2"
      unfolding t(6) using t(4,5) by (rule cont_div, rule cont_byte_unat)
    have d': "c div 4096 = unat b - 224" "cont_byte (c div 64) = b1"
      unfolding div4096 d(1) using t(2,3) by (rule cont_div, rule cont_byte_unat)
    have "c div 4096 < 16" using d'(1) 3(1,2) by simp
    then have "c < 65536" by (simp add: div_less_iff_less_mult)
    then have "utf8_char c = [word_of_nat (224 + (unat b - 224)), b1, b2]"
      using 3(4) by (simp only: utf8_char_def d(2) d' if_False if_True) simp
    then show ?thesis using 3 bs t(1) lead_byte [OF 3(1)] by simp
  next
    case 4
    from 4(3) obtain b1 b2 b3 where t: "bs' = b1 # b2 # b3 # r" "128 \<le> unat b1" "unat b1 < 192" "128 \<le> unat b2"
      "unat b2 < 192" "128 \<le> unat b3" "unat b3 < 192"
      "c = (((unat b - 240) * 64 + (unat b1 - 128)) * 64 + (unat b2 - 128)) * 64 + (unat b3 - 128)"
      by (elim utf8_conts_SucE) simp
    have d: "c div 64 = ((unat b - 240) * 64 + (unat b1 - 128)) * 64 + (unat b2 - 128)" "cont_byte c = b3"
      unfolding t(8) using t(6,7) by (rule cont_div, rule cont_byte_unat)
    have d': "c div 4096 = (unat b - 240) * 64 + (unat b1 - 128)" "cont_byte (c div 64) = b2"
      unfolding div4096 d(1) using t(4,5) by (rule cont_div, rule cont_byte_unat)
    have d'': "c div 262144 = unat b - 240" "cont_byte (c div 4096) = b1"
      unfolding div262144 d'(1) using t(2,3) by (rule cont_div, rule cont_byte_unat)
    have "utf8_char c = [word_of_nat (240 + (unat b - 240)), b1, b2, b3]"
      using 4(4) by (simp only: utf8_char_def d(2) d'(2) d'' if_False if_True) simp
    then show ?thesis using 4 bs t(1) lead_byte [OF 4(1)] by simp
  qed
qed

lemma utf8_char_length: "1 \<le> length (utf8_char c)"
  by (simp add: utf8_char_def)

lemma utf8_roundtrip: "utf8_encode s = Some raw \<Longrightarrow> utf8_decode raw = Some s"
proof (induction s arbitrary: raw)
  case (Cons c s)
  then obtain raw' where r: "utf8_encode s = Some raw'" "raw = utf8_char c @ raw'" "code_point c"
    by (auto simp: utf8_encode_def split: if_splits)
  then have "raw \<noteq> []" using utf8_char_length [of c] by auto
  then show ?case using Cons.IH [OF r(1)] utf8_next_char [OF r(3)] r(2)
    by (simp add: utf8_decode.simps [of "utf8_char c @ raw'"])
qed (simp add: utf8_encode_def utf8_decode.simps)

lemma utf8_decode_encode: "utf8_decode raw = Some s \<Longrightarrow> utf8_encode s = Some raw"
proof (induction raw arbitrary: s rule: utf8_decode.induct)
  case (1 bs)
  show ?case
  proof (cases "bs = []")
    case False
    then obtain c r s' where n: "utf8_next bs = Some (c, r)" "utf8_decode r = Some s'" "s = c # s'"
      using 1(2) by (auto simp: utf8_decode.simps [of bs] split: option.splits)
    then have "utf8_encode s' = Some r" using 1(1) [OF False n(1)] by simp
    then show ?thesis using utf8_next_some [OF n(1)] n(3) by (auto simp: utf8_encode_def split: if_splits)
  qed (use 1(2) in \<open>simp add: utf8_encode_def utf8_decode.simps\<close>)
qed

end
