(* ===== verification/MsgpackProps.thy ===== *)
theory MsgpackProps
  imports MsgpackStd
begin

text \<open>
  The contract of a decoder: what it reads does not depend on what follows, and packs again into
  no more bytes. The locale \<^verbatim>\<open>frame_reader\<close> states it for the decoder of nested values; \<^verbatim>\<open>unpack\<close>
  meets it at every fuel, and reads back what \<^verbatim>\<open>pack_value\<close> writes.
\<close>

unbundle bit_operations_syntax

section \<open>Tags\<close>

lemma fix_tags: "0 \<le> n \<Longrightarrow> n < 32 \<Longrightarrow> 0xA0 OR n = 0xA0 + (n :: int) \<and> 0xE0 OR n = 0xE0 + n"
  "0 \<le> n \<Longrightarrow> n < 16 \<Longrightarrow> 0x90 OR n = 0x90 + n \<and> 0x80 OR n = 0x80 + n"
proof -
  have "list_all (\<lambda>n. 0xA0 OR n = 0xA0 + (n :: int) \<and> 0xE0 OR n = 0xE0 + n) [0..31]" by code_simp
  then show "0xA0 OR n = 0xA0 + n \<and> 0xE0 OR n = 0xE0 + n" if "0 \<le> n" "n < 32"
    using that by (simp add: list_all_iff)
  have "list_all (\<lambda>n. 0x90 OR n = 0x90 + (n :: int) \<and> 0x80 OR n = 0x80 + n) [0..15]" by code_simp
  then show "0x90 OR n = 0x90 + n \<and> 0x80 OR n = 0x80 + n" if "0 \<le> n" "n < 16"
    using that by (simp add: list_all_iff)
qed

lemma low_bits: "(x :: int) AND 0x0F = x mod 16" "(x :: int) AND 0x1F = x mod 32"
  using take_bit_eq_mask [of 4 x] take_bit_eq_mask [of 5 x] by (simp_all add: take_bit_eq_mod mask_eq_exp_minus_1)

lemma low_tags: "0 \<le> (l :: int) \<Longrightarrow> l < 16 \<Longrightarrow> (128 + l) mod 16 = l \<and> (144 + l) mod 16 = l"
  "0 \<le> (l :: int) \<Longrightarrow> l < 32 \<Longrightarrow> (160 + l) mod 32 = l"
  using mod_mult_self1 [of l 8 16] mod_mult_self1 [of l 9 16] mod_mult_self1 [of l 5 32] by (simp_all add: add.commute)

lemma tag_byte: "0 \<le> n \<Longrightarrow> n < 256 \<Longrightarrow> uint (word_of_int n :: byte) = n"
  by (simp add: uint_word_of_int)

section \<open>Sizes of the encodings\<close>

abbreviation packs_in :: "codec_error + byte list \<Rightarrow> nat \<Rightarrow> bool" where
  "packs_in p n \<equiv> (\<exists>bs. p = Inr bs \<and> length bs \<le> n)"

lemma packs_in_mono: "packs_in p m \<Longrightarrow> m \<le> n \<Longrightarrow> packs_in p n"
  by auto

lemma after_packs: "packs_in a m \<Longrightarrow> packs_in b n \<Longrightarrow> packs_in (after_that a b) (m + n)"
  by (auto simp: after_that_def)

lemma after_Inr: "after_that a b = Inr bs \<longleftrightarrow> (\<exists>xs ys. a = Inr xs \<and> b = Inr ys \<and> bs = xs @ ys)"
  by (auto simp: after_that_def split: sum.splits)

lemma pack_uint_size: "0 \<le> v \<Longrightarrow> v < 256 ^ n \<Longrightarrow> n \<in> {1, 2, 4, 8} \<Longrightarrow> packs_in (pack_int v) (Suc n)"
  by (auto simp: pack_int_def pack_uint_def)

lemma pack_sint_size:
  "- (256 ^ n) \<le> 2 * v \<Longrightarrow> 2 * v < 256 ^ n \<Longrightarrow> n \<in> {1, 2, 4, 8} \<Longrightarrow> packs_in (pack_int v) (Suc n)"
  by (auto simp: pack_int_def pack_uint_def)

lemma pack_small: "- 32 \<le> v \<Longrightarrow> v < 128 \<Longrightarrow> packs_in (pack_int v) 1"
  by (auto simp: pack_int_def pack_uint_def)

lemma pack_str_size:
  assumes "utf8_encode s = Some raw" "length raw < 32 \<and> n = 0 \<or> int (length raw) < 256 ^ n \<and> n \<in> {1, 2, 4}"
  shows "packs_in (pack_str s) (Suc n + length raw)"
  using assms by (auto simp: pack_str_def Let_def)

lemma pack_array_size:
  "l < 16 \<and> n = 0 \<or> l < 256 ^ n \<and> n \<in> {2, 4} \<Longrightarrow> packs_in (pack_array_header l) (Suc n)"
  by (auto simp: pack_array_header_def)

lemma pack_map_size:
  "l < 16 \<and> n = 0 \<or> l < 256 ^ n \<and> n \<in> {2, 4} \<Longrightarrow> packs_in (pack_map_header l) (Suc n)"
  by (auto simp: pack_map_header_def)

section \<open>Decoders\<close>

text \<open>What \<open>rd\<close> reads is a prefix of the input, determined by it alone, and related by \<open>P\<close>.\<close>

definition decodes :: "(byte list \<Rightarrow> codec_error + ('a \<times> byte list)) \<Rightarrow> ('a \<Rightarrow> byte list \<Rightarrow> bool) \<Rightarrow> bool" where
  "decodes rd P \<longleftrightarrow> (\<forall>bs v r. rd bs = Inr (v, r) \<longrightarrow>
     (\<exists>used. bs = used @ r \<and> P v used \<and> (\<forall>x. rd (used @ x) = Inr (v, x))))"

lemma decodesE:
  assumes "decodes rd P" "rd bs = Inr (v, r)"
  obtains used where "bs = used @ r" "P v used" "\<And>x. rd (used @ x) = Inr (v, x)"
  using assms unfolding decodes_def by blast

lemma decodes_mono: "decodes rd P \<Longrightarrow> (\<And>v u. P v u \<Longrightarrow> Q v u) \<Longrightarrow> decodes rd Q"
  unfolding decodes_def by blast

lemma decodes_return: "P v [] \<Longrightarrow> decodes (\<lambda>bs. Inr (v, bs)) P"
  by (simp add: decodes_def)

lemma decodes_fail: "decodes (\<lambda>bs. Inl e) P"
  by (simp add: decodes_def)

lemma decodes_bind:
  assumes "decodes a P" "\<And>v. decodes (f v) (Q v)" "\<And>v u w u'. P v u \<Longrightarrow> Q v w u' \<Longrightarrow> R w (u @ u')"
  shows "decodes (\<lambda>bs. case a bs of Inl e \<Rightarrow> Inl e | Inr (v, r) \<Rightarrow> f v r) R"
  unfolding decodes_def
proof (intro allI impI)
  fix bs w r assume "(case a bs of Inl e \<Rightarrow> Inl e | Inr (v, r) \<Rightarrow> f v r) = Inr (w, r)"
  then obtain v r' where v: "a bs = Inr (v, r')" "f v r' = Inr (w, r)" by (auto split: sum.splits)
  obtain u where u: "bs = u @ r'" "P v u" "\<And>x. a (u @ x) = Inr (v, x)" using decodesE [OF assms(1) v(1)] by blast
  obtain u' where u': "r' = u' @ r" "Q v w u'" "\<And>x. f v (u' @ x) = Inr (w, x)"
    using decodesE [OF assms(2) v(2)] by blast
  show "\<exists>used. bs = used @ r \<and> R w used \<and>
      (\<forall>x. (case a (used @ x) of Inl e \<Rightarrow> Inl e | Inr (v, r) \<Rightarrow> f v r) = Inr (w, x))"
    using u u' assms(3) by (intro exI [of _ "u @ u'"]) simp
qed

lemma decodes_take: "decodes (reader_take n) (\<lambda>c u. c = u \<and> length u = n)"
  unfolding decodes_def
proof (intro allI impI)
  fix bs c r assume "reader_take n bs = Inr (c, r)"
  then have "n \<le> length bs" "c = take n bs" "r = drop n bs" by (auto simp: reader_take_def split: if_splits)
  then show "\<exists>used. bs = used @ r \<and> (c = used \<and> length used = n) \<and> (\<forall>x. reader_take n (used @ x) = Inr (c, x))"
    by (intro exI [of _ "take n bs"]) (simp add: reader_take_def)
qed

lemma decodes_uint: "decodes (reader_uint n) (\<lambda>v u. length u = n \<and> 0 \<le> v \<and> v < 256 ^ n)"
  unfolding reader_uint_def [abs_def]
  by (rule decodes_bind [OF decodes_take, where Q = "\<lambda>c v u. u = [] \<and> v = be_uint c"])
    (use be_uint_bounds in \<open>auto simp: decodes_return\<close>)

lemma decodes_sint: "n > 0 \<Longrightarrow> decodes (reader_sint n) (\<lambda>v u. length u = n \<and> - (256 ^ n) \<le> 2 * v \<and> 2 * v < 256 ^ n)"
  unfolding reader_sint_def [abs_def]
  by (rule decodes_bind [OF decodes_take, where Q = "\<lambda>c v u. u = [] \<and> v = be_sint c"])
    (use be_sint_bounds in \<open>auto simp: decodes_return\<close>)

section \<open>Well-formed frames\<close>

text \<open>A dictionary has each key once.\<close>

fun keys_ok :: "frame_value \<Rightarrow> bool" where
  "keys_ok (FList vs) = list_all keys_ok vs"
| "keys_ok (FMap ms) = (distinct (map fst ms) \<and> list_all (\<lambda>m. keys_ok (snd m)) ms)"
| "keys_ok _ = True"

definition fits :: "frame_value \<Rightarrow> nat \<Rightarrow> bool" where
  "fits v n \<longleftrightarrow> keys_ok v \<and> packs_in (pack_value v) n"

lemma fits_mono: "fits v m \<Longrightarrow> m \<le> n \<Longrightarrow> fits v n"
  unfolding fits_def using packs_in_mono by blast

lemma fits_int: "packs_in (pack_int i) n \<Longrightarrow> fits (FInt i) n"
  by (simp add: fits_def)

lemma fits_str: "packs_in (pack_str s) n \<Longrightarrow> fits (FStr s) n"
  by (simp add: fits_def)

definition members_ok :: "(map_key \<times> frame_value) list \<Rightarrow> bool" where
  "members_ok ms \<longleftrightarrow> distinct (map fst ms) \<and> list_all (\<lambda>m. keys_ok (snd m)) ms"

lemma members_update:
  assumes "members_ok out" "packs_in (pack_members out) m" "packs_in (pack_str s) i" "fits v j"
  shows "members_ok (AList.update (Field s) v out) \<and> packs_in (pack_members (AList.update (Field s) v out)) (m + i + j)"
proof
  have "list_all (\<lambda>m. keys_ok (snd m)) (AList.update k v xs)" if "list_all (\<lambda>m. keys_ok (snd m)) xs"
    for k and xs :: "(map_key \<times> frame_value) list" using that assms(4) by (induction xs) (auto simp: fits_def)
  then show "members_ok (AList.update (Field s) v out)"
    using assms(1) by (simp add: members_ok_def distinct_update)
  show "packs_in (pack_members (AList.update (Field s) v out)) (m + i + j)"
    using assms(2)
  proof (induction out arbitrary: m)
    case Nil
    then show ?case using assms(3,4) by (auto simp: fits_def pack_key_def after_that_def)
  next
    case (Cons x out)
    obtain k w where x: "x = (k, w)" by (rule prod.exhaust)
    obtain kb vb rb where p: "pack_key k = Inr kb" "pack_value w = Inr vb" "pack_members out = Inr rb"
      "length kb + (length vb + length rb) \<le> m"
      using Cons.prems by (auto simp: x after_Inr)
    show ?case
    proof (cases "k = Field s")
      case True
      then have "packs_in (pack_key k) i" using assms(3) by (simp add: pack_key_def)
      then have "packs_in (pack_members ((k, v) # out)) (i + (j + length rb))"
        using assms(4) p(3) by (simp only: pack_members.simps) (intro after_packs; simp add: fits_def)
      then show ?thesis using True p(4) x by (auto intro: packs_in_mono)
    next
      case False
      have "packs_in (pack_members (AList.update (Field s) v out)) (length rb + i + j)" using Cons.IH p(3) by blast
      then have "packs_in (pack_members ((k, w) # AList.update (Field s) v out)) (length kb + (length vb + (length rb + i + j)))"
        using p by (simp only: pack_members.simps) (intro after_packs; simp)
      then show ?thesis using False p(4) x by (auto intro: packs_in_mono)
    qed
  qed
qed

lemma update_length: "length (AList.update k v xs) \<le> Suc (length xs)"
  by (induction xs) auto

section \<open>The contract of the nested decoder\<close>

locale frame_reader =
  fixes rd :: decoder
  assumes reads: "decodes rd (\<lambda>v u. fits v (length u))"
begin

lemma array_items_decodes:
  "decodes (array_items rd n) (\<lambda>vs u. length vs = n \<and> list_all keys_ok vs \<and> packs_in (pack_elements vs) (length u))"
proof (induction n)
  case 0
  show ?case unfolding array_items.simps [abs_def] by (rule decodes_return) simp
next
  case (Suc n)
  have "decodes (\<lambda>bs. case array_items rd n bs of Inl e \<Rightarrow> Inl e | Inr (vs, r') \<Rightarrow> Inr (v # vs, r'))
      (\<lambda>ws u. \<exists>vs. ws = v # vs \<and> length vs = n \<and> list_all keys_ok vs \<and> packs_in (pack_elements vs) (length u))" for v
    by (rule decodes_bind [OF Suc, where Q = "\<lambda>vs ws u. ws = v # vs \<and> u = []"]) (auto simp: decodes_return)
  then show ?case unfolding array_items.simps(2) [abs_def]
  proof (rule decodes_bind [OF reads])
    fix v ws and u u' :: "byte list"
    assume "fits v (length u)" and
      "\<exists>vs. ws = v # vs \<and> length vs = n \<and> list_all keys_ok vs \<and> packs_in (pack_elements vs) (length u')"
    then show "length ws = Suc n \<and> list_all keys_ok ws \<and> packs_in (pack_elements ws) (length (u @ u'))"
      by (auto simp: fits_def after_Inr intro!: exI)
  qed
qed

lemma map_items_decodes:
  assumes "members_ok out" "packs_in (pack_members out) m"
  shows "decodes (map_items rd n out)
    (\<lambda>ms u. length ms \<le> length out + n \<and> members_ok ms \<and> packs_in (pack_members ms) (m + length u))"
  using assms
proof (induction n arbitrary: out m)
  case 0
  then show ?case unfolding map_items.simps [abs_def] by (intro decodes_return) simp
next
  case (Suc n)
  let ?P = "\<lambda>ms u. length ms \<le> length out + Suc n \<and> members_ok ms \<and> packs_in (pack_members ms) (m + length u)"
  show ?case
    unfolding decodes_def
  proof (intro allI impI)
    fix bs ms r assume run: "map_items rd (Suc n) out bs = Inr (ms, r)"
    then obtain s r1 v r2 where t: "rd bs = Inr (FStr s, r1)" "rd r1 = Inr (v, r2)"
      "map_items rd n (AList.update (Field s) v out) r2 = Inr (ms, r)"
      by (auto split: sum.splits frame_value.splits)
    obtain u1 where u1: "bs = u1 @ r1" "fits (FStr s) (length u1)" "\<And>x. rd (u1 @ x) = Inr (FStr s, x)"
      using decodesE [OF reads t(1)] by blast
    obtain u2 where u2: "r1 = u2 @ r2" "fits v (length u2)" "\<And>x. rd (u2 @ x) = Inr (v, x)"
      using decodesE [OF reads t(2)] by blast
    have "members_ok (AList.update (Field s) v out) \<and>
        packs_in (pack_members (AList.update (Field s) v out)) (m + length u1 + length u2)"
      using Suc.prems u1(2) u2(2) by (intro members_update) (simp_all add: fits_def)
    then have d: "decodes (map_items rd n (AList.update (Field s) v out))
        (\<lambda>ms u. length ms \<le> length (AList.update (Field s) v out) + n \<and> members_ok ms \<and>
          packs_in (pack_members ms) (m + length u1 + length u2 + length u))"
      by (intro Suc.IH) auto
    obtain u3 where u3: "r2 = u3 @ r" "length ms \<le> length (AList.update (Field s) v out) + n" "members_ok ms"
      "packs_in (pack_members ms) (m + length u1 + length u2 + length u3)"
      "\<And>x. map_items rd n (AList.update (Field s) v out) (u3 @ x) = Inr (ms, x)"
      using decodesE [OF d t(3)] by blast
    then show "\<exists>used. bs = used @ r \<and> ?P ms used \<and> (\<forall>x. map_items rd (Suc n) out (used @ x) = Inr (ms, x))"
      using u1 u2 update_length [of "Field s" v out] by (intro exI [of _ "u1 @ u2 @ u3"]) (auto simp: add.assoc)
  qed
qed

lemma unpack_array_decodes:
  "decodes (unpack_array rd l) (\<lambda>v u. \<exists>vs. v = FList vs \<and> length vs = l \<and> list_all keys_ok vs \<and>
     packs_in (pack_elements vs) (length u))"
  unfolding unpack_array_def [abs_def]
  by (rule decodes_bind [OF array_items_decodes, where Q = "\<lambda>vs v u. v = FList vs \<and> u = []"]) (auto simp: decodes_return)

lemma unpack_map_decodes:
  "decodes (unpack_map rd l) (\<lambda>v u. \<exists>ms. v = FMap ms \<and> length ms \<le> l \<and> members_ok ms \<and>
     packs_in (pack_members ms) (length u))"
  unfolding unpack_map_def [abs_def]
  by (rule decodes_bind [OF map_items_decodes [where m = 0], where Q = "\<lambda>ms v u. v = FMap ms \<and> u = []"])
    (auto simp: decodes_return members_ok_def)

lemma fits_array: "length vs = nat l \<Longrightarrow> l < 16 \<and> n = 0 \<or> l < 256 ^ n \<and> n \<in> {2, 4} \<Longrightarrow> 0 \<le> l \<Longrightarrow>
    list_all keys_ok vs \<Longrightarrow> packs_in (pack_elements vs) m \<Longrightarrow> fits (FList vs) (Suc n + m)"
  unfolding fits_def by (simp only: pack_value.simps keys_ok.simps) (intro conjI after_packs pack_array_size; simp)

lemma fits_map: "length ms \<le> nat l \<Longrightarrow> l < 16 \<and> n = 0 \<or> l < 256 ^ n \<and> n \<in> {2, 4} \<Longrightarrow> 0 \<le> l \<Longrightarrow>
    members_ok ms \<Longrightarrow> packs_in (pack_members ms) m \<Longrightarrow> fits (FMap ms) (Suc n + m)"
  unfolding fits_def members_ok_def
  by (simp only: pack_value.simps keys_ok.simps) (intro conjI after_packs pack_map_size; auto)

lemma unpack_str_decodes: "decodes (unpack_str l) (\<lambda>v u. \<exists>s. v = FStr s \<and> utf8_encode s = Some u \<and> length u = l)"
  unfolding unpack_str_def [abs_def]
proof (rule decodes_bind [OF decodes_take])
  show "decodes (\<lambda>r. case utf8_decode raw of None \<Rightarrow> Inl Invalid_utf8 | Some s \<Rightarrow> Inr (FStr s, r))
      (\<lambda>v u. u = [] \<and> (\<exists>s. v = FStr s \<and> utf8_decode raw = Some s))" for raw
    by (cases "utf8_decode raw") (simp_all add: decodes_fail decodes_return)
qed (auto dest: utf8_decode_encode)

lemma sized_decodes:
  assumes "\<And>l. decodes (body l) (P l)"
  shows "decodes (sized body n) (\<lambda>v u. \<exists>l u'. 0 \<le> l \<and> l < 256 ^ n \<and> P (nat l) v u' \<and> length u = n + length u')"
  unfolding sized_def [abs_def]
  by (rule decodes_bind [OF decodes_uint, where Q = "\<lambda>l v u. P (nat l) v u"]) (use assms in \<open>auto intro!: exI\<close>)

lemma read_int_decodes: "decodes r P \<Longrightarrow> decodes (\<lambda>bs. read_int (r bs)) (\<lambda>v u. \<exists>i. v = FInt i \<and> P i u)"
  unfolding read_int_def
  by (rule decodes_bind [where Q = "\<lambda>i v u. v = FInt i \<and> u = []"]) (auto simp: decodes_return)

lemma decodes_if: "(c \<Longrightarrow> decodes a P) \<Longrightarrow> (\<not> c \<Longrightarrow> decodes b P) \<Longrightarrow> decodes (\<lambda>bs. if c then a bs else b bs) P"
  by (cases c) simp_all

lemma unpack_tag_decodes:
  assumes "0 \<le> tag" "tag < 256"
  shows "decodes (unpack_tag rd tag) (\<lambda>v u. fits v (Suc (length u)))"
proof -
  have uint: "decodes (\<lambda>bs. read_int (reader_uint n bs)) (\<lambda>v u. fits v (Suc (length u)))" if "n \<in> {1, 2, 4, 8}" for n
    by (rule decodes_mono [OF read_int_decodes [OF decodes_uint]])
      (use pack_uint_size [OF _ _ that] in \<open>fastforce intro: fits_int\<close>)
  have sint: "decodes (\<lambda>bs. read_int (reader_sint n bs)) (\<lambda>v u. fits v (Suc (length u)))" if n: "n \<in> {1, 2, 4, 8}" for n
  proof -
    have "n > 0" using n by auto
    then show ?thesis
      by (rule decodes_mono [OF read_int_decodes [OF decodes_sint]])
        (use pack_sint_size [OF _ _ n] in \<open>fastforce intro: fits_int\<close>)
  qed
  have str: "decodes (unpack_str l) (\<lambda>v u. fits v (Suc (length u)))" if "l < 32" for l
    by (rule decodes_mono [OF unpack_str_decodes]) (use that pack_str_size [where n = 0] in \<open>fastforce intro: fits_str\<close>)
  have sized_str: "decodes (sized unpack_str n) (\<lambda>v u. fits v (Suc (length u)))" if n: "n \<in> {1, 2, 4}" for n
  proof (rule decodes_mono [OF sized_decodes [OF unpack_str_decodes]], elim exE conjE)
    fix v l s and u u' :: "byte list"
    assume "0 \<le> l" "l < 256 ^ n" "v = FStr s" "utf8_encode s = Some u'" "length u' = nat l" "length u = n + length u'"
    then show "fits v (Suc (length u))" using pack_str_size [of s u' n] n by (auto intro!: fits_str)
  qed
  have arr: "decodes (unpack_array rd (nat l)) (\<lambda>v u. fits v (Suc (length u)))" if "0 \<le> l" "l < 16" for l
    by (rule decodes_mono [OF unpack_array_decodes]) (use that fits_array [where n = 0] in fastforce)
  have mp: "decodes (unpack_map rd (nat l)) (\<lambda>v u. fits v (Suc (length u)))" if "0 \<le> l" "l < 16" for l
    by (rule decodes_mono [OF unpack_map_decodes]) (use that fits_map [where n = 0] in fastforce)
  have sized_arr: "decodes (sized (unpack_array rd) n) (\<lambda>v u. fits v (Suc (length u)))" if n: "n \<in> {2, 4}" for n
  proof (rule decodes_mono [OF sized_decodes [OF unpack_array_decodes]], elim exE conjE)
    fix v l vs and b u u' :: "byte list"
    assume "0 \<le> l" "l < 256 ^ n" "v = FList vs" "length vs = nat l" "list_all keys_ok vs" "length u = n + length u'"
      and "pack_elements vs = Inr b" "length b \<le> length u'"
    then show "fits v (Suc (length u))" using fits_array [of vs l n "length u'"] n by simp
  qed
  have sized_map: "decodes (sized (unpack_map rd) n) (\<lambda>v u. fits v (Suc (length u)))" if n: "n \<in> {2, 4}" for n
  proof (rule decodes_mono [OF sized_decodes [OF unpack_map_decodes]], elim exE conjE)
    fix v l ms and b u u' :: "byte list"
    assume "0 \<le> l" "l < 256 ^ n" "v = FMap ms" "length ms \<le> nat l" "members_ok ms" "length u = n + length u'"
      and "pack_members ms = Inr b" "length b \<le> length u'"
    then show "fits v (Suc (length u))" using fits_map [of ms l n "length u'"] n by simp
  qed
  have leaf: "fits FNull 1" "fits (FBool b) 1" for b by (simp_all add: fits_def)
  have small: "fits (FInt i) 1" if "- 32 \<le> i" "i < 128" for i using pack_small [OF that] by (rule fits_int)
  show ?thesis
    unfolding unpack_tag_def [abs_def] low_bits
    by (intro decodes_if decodes_fail decodes_return uint sint str sized_str arr mp sized_arr sized_map)
      (use assms leaf small in auto)
qed

text \<open>No more than the nested decoder, its loops run out of fuel.\<close>

lemma array_items_fuel:
  assumes "\<And>bs. length bs < k \<Longrightarrow> rd bs \<noteq> Inl Out_of_fuel" and "length bs < k"
  shows "array_items rd n bs \<noteq> Inl Out_of_fuel"
  using assms(2)
proof (induction n arbitrary: bs)
  case (Suc n)
  show ?case
  proof (cases "rd bs")
    case (Inl e)
    then show ?thesis using assms(1) [OF Suc.prems] by simp
  next
    case (Inr vr)
    obtain v r where v: "vr = (v, r)" by (rule prod.exhaust)
    have "rd bs = Inr (v, r)" using Inr v by simp
    then obtain u where "bs = u @ r" using decodesE [OF reads] by blast
    then show ?thesis using Suc.IH [of r] Suc.prems Inr v by (auto split: sum.splits)
  qed
qed simp

lemma map_items_fuel:
  assumes "\<And>bs. length bs < k \<Longrightarrow> rd bs \<noteq> Inl Out_of_fuel" and "length bs < k"
  shows "map_items rd n out bs \<noteq> Inl Out_of_fuel"
  using assms(2)
proof (induction n arbitrary: out bs)
  case (Suc n)
  have shorter: "length r < k" if "rd bs' = Inr (v, r)" "length bs' < k" for bs' v r
  proof -
    from decodesE [OF reads that(1)] obtain u where "bs' = u @ r" by blast
    then show ?thesis using that(2) by simp
  qed
  show ?case
  proof
    assume run: "map_items rd (Suc n) out bs = Inl Out_of_fuel"
    have "rd bs \<noteq> Inl Out_of_fuel" using assms(1) [OF Suc.prems] .
    then obtain s r where t: "rd bs = Inr (FStr s, r)" using run by (auto split: sum.splits frame_value.splits)
    have r: "length r < k" using shorter [OF t Suc.prems] .
    obtain v r' where t': "rd r = Inr (v, r')" using run t assms(1) [OF r] by (auto split: sum.splits)
    show False using run t t' Suc.IH [OF shorter [OF t' r]] by simp
  qed
qed simp

lemma unpack_tag_fuel:
  assumes "\<And>bs. length bs < k \<Longrightarrow> rd bs \<noteq> Inl Out_of_fuel" and k: "length bs < k"
  shows "unpack_tag rd tag bs \<noteq> Inl Out_of_fuel"
proof -
  have take: "reader_take n bs \<noteq> Inl Out_of_fuel" for n by (simp add: reader_take_def)
  have str: "unpack_str l r \<noteq> Inl Out_of_fuel" for l r
    by (auto simp: unpack_str_def reader_take_def split: option.splits)
  have arr: "unpack_array rd l r \<noteq> Inl Out_of_fuel" if "length r < k" for l r
    using array_items_fuel [OF assms(1) that, of l] by (auto simp: unpack_array_def split: sum.splits)
  have mp: "unpack_map rd l r \<noteq> Inl Out_of_fuel" if "length r < k" for l r
    using map_items_fuel [OF assms(1) that, of l] by (auto simp: unpack_map_def split: sum.splits)
  have ints: "read_int (reader_uint n bs) \<noteq> Inl Out_of_fuel" "read_int (reader_sint n bs) \<noteq> Inl Out_of_fuel" for n
    using take by (auto simp: read_int_def reader_uint_def reader_sint_def split: sum.splits)
  have sized: "sized body n bs \<noteq> Inl Out_of_fuel" if "\<And>l r. length r < k \<Longrightarrow> body l r \<noteq> Inl Out_of_fuel" for body n
    using that k take by (auto simp: sized_def reader_uint_def reader_take_def split: sum.splits if_splits)
  show ?thesis unfolding unpack_tag_def using str arr [OF k] mp [OF k] ints sized [OF str] sized [OF arr] sized [OF mp]
    by (simp split: if_splits)
qed

end

section \<open>The decoder\<close>

lemma unpack_simps [simp]:
  "unpack (Suc k) [] = Inl Frame_truncated"
  "unpack (Suc k) (b # bs) = unpack_tag (unpack k) (uint b) bs"
  by (simp_all add: reader_take_def)

declare unpack.simps(2) [simp del]

lemma unpack_reader: "frame_reader (unpack k)"
proof (induction k)
  case 0
  show ?case unfolding frame_reader_def unpack.simps(1) [abs_def] by (rule decodes_fail)
next
  case (Suc k)
  show ?case
    unfolding frame_reader_def decodes_def
  proof (intro allI impI)
    fix bs v r assume run: "unpack (Suc k) bs = Inr (v, r)"
    then obtain b bs' where bs: "bs = b # bs'" by (cases bs) auto
    have "0 \<le> uint b" "uint b < 256" using uint_lt2p [of b] by simp_all
    then have "decodes (unpack_tag (unpack k) (uint b)) (\<lambda>v u. fits v (Suc (length u)))"
      by (rule frame_reader.unpack_tag_decodes [OF Suc])
    then obtain u where "bs' = u @ r" "fits v (Suc (length u))" "\<And>x. unpack_tag (unpack k) (uint b) (u @ x) = Inr (v, x)"
      using run bs by (auto elim: decodesE)
    then show "\<exists>used. bs = used @ r \<and> fits v (length used) \<and> (\<forall>x. unpack (Suc k) (used @ x) = Inr (v, x))"
      using bs by (intro exI [of _ "b # u"]) simp
  qed
qed

interpretation nested: frame_reader "unpack k" for k
  by (rule unpack_reader)

lemma unpack_fuel: "length bs < k \<Longrightarrow> unpack k bs \<noteq> Inl Out_of_fuel"
proof (induction k arbitrary: bs)
  case (Suc k)
  then have IH: "length bs' < k \<Longrightarrow> unpack k bs' \<noteq> Inl Out_of_fuel" for bs'
    by simp
  show ?case using nested.unpack_tag_fuel [OF IH] Suc.prems by (cases bs) simp_all
qed simp

text \<open>More fuel reads the same.\<close>

definition extends :: "decoder \<Rightarrow> decoder \<Rightarrow> bool" where
  "extends rd rd' \<longleftrightarrow> (\<forall>bs z. rd bs = Inr z \<longrightarrow> rd' bs = Inr z)"

lemma array_items_extends: "extends rd rd' \<Longrightarrow> array_items rd n bs = Inr z \<Longrightarrow> array_items rd' n bs = Inr z"
  by (induction n arbitrary: bs z) (fastforce simp: extends_def split: sum.splits)+

lemma map_items_extends: "extends rd rd' \<Longrightarrow> map_items rd n out bs = Inr z \<Longrightarrow> map_items rd' n out bs = Inr z"
  by (induction n arbitrary: out bs z) (fastforce simp: extends_def split: sum.splits frame_value.splits)+

lemma body_extends:
  assumes "extends rd rd'"
  shows "extends (unpack_array rd l) (unpack_array rd' l)" and "extends (unpack_map rd l) (unpack_map rd' l)"
    and "extends (sized (unpack_array rd) n) (sized (unpack_array rd') n)"
    and "extends (sized (unpack_map rd) n) (sized (unpack_map rd') n)"
  using array_items_extends [OF assms] map_items_extends [OF assms]
  by (auto simp: extends_def unpack_array_def unpack_map_def sized_def split: sum.splits)

lemma unpack_tag_extends: "extends rd rd' \<Longrightarrow> extends (unpack_tag rd tag) (unpack_tag rd' tag)"
  using body_extends [of rd rd'] unfolding extends_def unpack_tag_def by (simp split: if_splits)

lemma unpack_extends: "extends (unpack k) (unpack (Suc k))"
proof (induction k)
  case (Suc k)
  then have t: "extends (unpack_tag (unpack k) t) (unpack_tag (unpack (Suc k)) t)" for t by (rule unpack_tag_extends)
  have "unpack (Suc (Suc k)) bs = Inr z" if run: "unpack (Suc k) bs = Inr z" for bs z
  proof (cases bs)
    case (Cons b bs')
    then show ?thesis using t [of "uint b"] run unfolding extends_def by (simp only: unpack_simps)
  qed (use run in simp)
  then show ?case by (simp add: extends_def)
qed (simp add: extends_def)

lemma unpack_more: "k \<le> k' \<Longrightarrow> unpack k bs = Inr z \<Longrightarrow> unpack k' bs = Inr z"
  by (induction k' rule: dec_induct) (use unpack_extends in \<open>unfold extends_def, blast+\<close>)

section \<open>Reading back what was packed\<close>

declare be_bytes.simps(2) [simp del]

lemma take_bytes: "length c = n \<Longrightarrow> reader_take n (c @ x) = Inr (c, x)"
  by (simp add: reader_take_def)

lemma uint_bytes: "0 \<le> v \<Longrightarrow> v < 256 ^ n \<Longrightarrow> reader_uint n (be_bytes n v @ x) = Inr (v, x)"
  by (simp add: reader_uint_def take_bytes be_uint_exact)

lemma sint_bytes:
  "n > 0 \<Longrightarrow> - (256 ^ n) \<le> 2 * v \<Longrightarrow> 2 * v < 256 ^ n \<Longrightarrow> reader_sint n (be_bytes n v @ x) = Inr (v, x)"
  by (simp add: reader_sint_def take_bytes be_sint_exact)

lemma sized_bytes: "0 \<le> l \<Longrightarrow> l < 256 ^ n \<Longrightarrow> sized body n (be_bytes n l @ x) = body (nat l) x"
  by (simp add: sized_def uint_bytes)

lemma unpack_word:
  "0 \<le> t \<Longrightarrow> t < 256 \<Longrightarrow> unpack (Suc k) (word_of_int t # bs) = unpack_tag (unpack k) t bs"
  by (simp add: tag_byte)

lemma unpack_int: "pack_int v = Inr bs \<Longrightarrow> unpack (Suc k) (bs @ x) = Inr (FInt v, x)"
proof -
  assume p: "pack_int v = Inr bs"
  note sized = uint_bytes [where v = v and x = x] sint_bytes [where v = v and x = x]
  consider "0 \<le> v" "v < 128" "bs = [word_of_int v]" | "- 32 \<le> v" "v < 0" "bs = [word_of_int (256 + v)]"
    | "128 \<le> v" "bs \<noteq> []" | "v < - 32"
    using p fix_tags(1) [of "v + 32"]
    by (fastforce simp: pack_int_def pack_uint_def split: if_splits)
  then show ?thesis
  proof cases
    case 1
    then show ?thesis using unpack_word [of v k x] by (simp add: unpack_tag_def)
  next
    case 2
    then have "unpack (Suc k) (bs @ x) = unpack_tag (unpack k) (256 + v) x"
      unfolding 2(3) append_Cons append_Nil by (intro unpack_word) simp_all
    then show ?thesis using 2(1,2) by (simp add: unpack_tag_def)
  next
    case 3
    then show ?thesis using p
      by (auto simp: pack_int_def pack_uint_def unpack_tag_def read_int_def sized split: if_splits)
  next
    case 4
    then show ?thesis using p
      by (auto simp: pack_int_def unpack_tag_def read_int_def sized split: if_splits)
  qed
qed

lemma unpack_str_back: "pack_str s = Inr bs \<Longrightarrow> unpack (Suc k) (bs @ x) = Inr (FStr s, x)"
proof -
  assume p: "pack_str s = Inr bs"
  then obtain raw where raw: "utf8_encode s = Some raw" by (auto simp: pack_str_def split: option.splits)
  have body: "unpack_str (length raw) (raw @ x) = Inr (FStr s, x)"
    using utf8_roundtrip [OF raw] by (simp add: unpack_str_def take_bytes)
  let ?l = "int (length raw)"
  consider "?l < 32" "bs = word_of_int (160 + ?l) # raw" | "32 \<le> ?l"
    using p raw fix_tags(1) [of ?l] by (auto simp: pack_str_def Let_def split: if_splits)
  then show ?thesis
  proof cases
    case 1
    then have "unpack (Suc k) (bs @ x) = unpack_tag (unpack k) (160 + ?l) (raw @ x)"
      unfolding 1(2) append_Cons append_Nil by (intro unpack_word) simp_all
    then show ?thesis using body 1(1) by (simp add: unpack_tag_def low_bits low_tags)
  next
    case 2
    then show ?thesis using p raw body
      by (auto simp: pack_str_def Let_def unpack_tag_def sized_bytes split: if_splits)
  qed
qed

lemma array_header_back:
  assumes "pack_array_header l = Inr hs" "0 \<le> l"
  shows "unpack (Suc k) (hs @ x) = unpack_array (unpack k) (nat l) x" and "hs \<noteq> []"
proof -
  consider "l < 16" "hs = [word_of_int (144 + l)]" | "16 \<le> l"
    using assms fix_tags(2) [of l] by (auto simp: pack_array_header_def split: if_splits)
  then show "unpack (Suc k) (hs @ x) = unpack_array (unpack k) (nat l) x"
  proof cases
    case 1
    then have "unpack (Suc k) (hs @ x) = unpack_tag (unpack k) (144 + l) x"
      unfolding 1(2) append_Cons append_Nil using assms(2) by (intro unpack_word) simp_all
    then show ?thesis using assms(2) 1(1) by (simp add: unpack_tag_def low_bits low_tags)
  next
    case 2
    then show ?thesis using assms by (auto simp: pack_array_header_def unpack_tag_def sized_bytes split: if_splits)
  qed
qed (use assms in \<open>auto simp: pack_array_header_def split: if_splits\<close>)

lemma map_header_back:
  assumes "pack_map_header l = Inr hs" "0 \<le> l"
  shows "unpack (Suc k) (hs @ x) = unpack_map (unpack k) (nat l) x" and "hs \<noteq> []"
proof -
  consider "l < 16" "hs = [word_of_int (128 + l)]" | "16 \<le> l"
    using assms fix_tags(2) [of l] by (auto simp: pack_map_header_def split: if_splits)
  then show "unpack (Suc k) (hs @ x) = unpack_map (unpack k) (nat l) x"
  proof cases
    case 1
    then have "unpack (Suc k) (hs @ x) = unpack_tag (unpack k) (128 + l) x"
      unfolding 1(2) append_Cons append_Nil using assms(2) by (intro unpack_word) simp_all
    then show ?thesis using assms(2) 1(1) by (simp add: unpack_tag_def low_bits low_tags)
  next
    case 2
    then show ?thesis using assms by (auto simp: pack_map_header_def unpack_tag_def sized_bytes split: if_splits)
  qed
qed (use assms in \<open>auto simp: pack_map_header_def split: if_splits\<close>)

text \<open>A value and what \<^verbatim>\<open>pack_value\<close> wrote for it, and the same for the loops.\<close>

lemma unpack_back:
  "pack_value v = Inr bs \<Longrightarrow> keys_ok v \<Longrightarrow> length bs \<le> k \<Longrightarrow> unpack k (bs @ x) = Inr (v, x)"
  "pack_elements vs = Inr bs \<Longrightarrow> list_all keys_ok vs \<Longrightarrow> length bs \<le> k \<Longrightarrow>
    array_items (unpack k) (length vs) (bs @ x) = Inr (vs, x)"
  "pack_members ms = Inr bs \<Longrightarrow> members_ok (out @ ms) \<Longrightarrow> length bs \<le> k \<Longrightarrow>
    map_items (unpack k) (length ms) out (bs @ x) = Inr (out @ ms, x)"
proof (induction v and vs and ms arbitrary: bs k x and bs k x and bs k x out
    rule: pack_value_pack_elements_pack_members.induct)
  case (6 vs)
  then obtain hs es where p: "pack_array_header (int (length vs)) = Inr hs" "pack_elements vs = Inr es" "bs = hs @ es"
    by (auto simp: after_Inr)
  have "hs \<noteq> []" using array_header_back(2) [OF p(1)] by simp
  then obtain k' where k: "k = Suc k'" "length es \<le> k'" using 6(4) p(3) by (cases k; cases hs) auto
  have "array_items (unpack k') (length vs) (es @ x) = Inr (vs, x)" using 6(1) [OF p(2)] 6(3) k(2) by simp
  then show ?case using array_header_back(1) [OF p(1), of k' "es @ x"] p(3) k(1) by (simp add: unpack_array_def)
next
  case (7 ms)
  then obtain hs es where p: "pack_map_header (int (length ms)) = Inr hs" "pack_members ms = Inr es" "bs = hs @ es"
    by (auto simp: after_Inr)
  have "hs \<noteq> []" using map_header_back(2) [OF p(1)] by simp
  then obtain k' where k: "k = Suc k'" "length es \<le> k'" using 7(4) p(3) by (cases k; cases hs) auto
  have "map_items (unpack k') (length ms) [] (es @ x) = Inr ([] @ ms, x)"
    using 7(1) [OF p(2), of "[]"] 7(3) k(2) by (simp add: members_ok_def)
  then show ?case using map_header_back(1) [OF p(1), of k' "es @ x"] p(3) k(1) by (simp add: unpack_map_def)
next
  case (11 v vs)
  then obtain vb rb where p: "pack_value v = Inr vb" "pack_elements vs = Inr rb" "bs = vb @ rb" by (auto simp: after_Inr)
  then show ?case using 11(1) [OF p(1), of k "rb @ x"] 11(2) [OF p(2), of k x] 11(4,5) by simp
next
  case (13 key v ms)
  then obtain s kb vb rb where p: "key = Field s" "pack_str s = Inr kb" "pack_value v = Inr vb" "pack_members ms = Inr rb"
    "bs = kb @ vb @ rb"
    by (auto simp: after_Inr pack_key_def split: map_key.splits)
  have "kb \<noteq> []" using p(2) by (auto simp: pack_str_def Let_def split: option.splits if_splits)
  then obtain k' where k: "k = Suc k'" using 13(5) p(5) by (cases k; cases kb) auto
  have new: "AList.update (Field s) v out = out @ [(Field s, v)]"
    using 13(4) p(1) by (intro update_fresh) (auto simp: members_ok_def)
  have "map_items (unpack k) (length ms) (out @ [(Field s, v)]) (rb @ x) = Inr ((out @ [(Field s, v)]) @ ms, x)"
    using 13(2) [OF p(4), of "out @ [(Field s, v)]" k x] 13(4,5) p(1,5) by simp
  moreover have "unpack k (vb @ rb @ x) = Inr (v, rb @ x)"
    using 13(1) [OF p(3), of k "rb @ x"] 13(4,5) p(5) by (simp add: members_ok_def)
  moreover have "unpack k (kb @ vb @ rb @ x) = Inr (FStr s, vb @ rb @ x)"
    unfolding k by (rule unpack_str_back [OF p(2)])
  ultimately show ?case using p(1,5) new by simp
next
  case (3 v)
  then have "bs \<noteq> []" by (auto simp: pack_int_def pack_uint_def split: if_splits)
  then show ?case using 3 by (cases k) (auto intro: unpack_int)
next
  case (4 s)
  then have "bs \<noteq> []" by (auto simp: pack_str_def Let_def split: if_splits option.splits)
  then show ?case using 4 by (cases k) (auto intro: unpack_str_back)
next
  case 1
  then show ?case by (cases k) (auto simp: unpack_tag_def)
next
  case (2 b)
  then show ?case by (cases k) (auto simp: unpack_tag_def)
qed auto

section \<open>What the encoder accepts\<close>

text \<open>The values a frame may hold: no floats or bytes, string keys, and sizes that have a header.\<close>

definition wire_str :: "nat list \<Rightarrow> bool" where
  "wire_str s \<longleftrightarrow> list_all code_point s \<and> length (concat (map utf8_char s)) < 2 ^ 32"

fun frame_ok :: "frame_value \<Rightarrow> bool" where
  "frame_ok FNull = True"
| "frame_ok (FBool b) = True"
| "frame_ok (FInt i) = (- (2 ^ 63) \<le> i \<and> i < 2 ^ 64)"
| "frame_ok (FStr s) = wire_str s"
| "frame_ok (FList vs) = (length vs < 2 ^ 32 \<and> list_all frame_ok vs)"
| "frame_ok (FMap ms) = (length ms < 2 ^ 32 \<and>
     list_all (\<lambda>m. (\<exists>s. fst m = Field s \<and> wire_str s) \<and> frame_ok (snd m)) ms)"
| "frame_ok _ = False"

abbreviation accepted :: "codec_error + 'a \<Rightarrow> bool" where
  "accepted r \<equiv> (\<exists>x. r = Inr x)"

lemma pack_str_accepted: "accepted (pack_str s) \<longleftrightarrow> wire_str s"
  by (auto simp: pack_str_def wire_str_def utf8_encode_def Let_def)

lemma after_accepted: "accepted (after_that a b) \<longleftrightarrow> accepted a \<and> accepted b"
  by (auto simp: after_Inr)

lemma header_accepted:
  "accepted (pack_array_header (int n)) \<longleftrightarrow> n < 2 ^ 32" "accepted (pack_map_header (int n)) \<longleftrightarrow> n < 2 ^ 32"
  by (auto simp: pack_array_header_def pack_map_header_def)

lemma pack_accepted:
  "accepted (pack_value v) \<longleftrightarrow> frame_ok v"
  "accepted (pack_elements vs) \<longleftrightarrow> list_all frame_ok vs"
  "accepted (pack_members ms) \<longleftrightarrow> list_all (\<lambda>m. (\<exists>s. fst m = Field s \<and> wire_str s) \<and> frame_ok (snd m)) ms"
proof (induction v and vs and ms rule: pack_value_pack_elements_pack_members.induct)
  case (3 v)
  show ?case by (auto simp: pack_int_def pack_uint_def)
next
  case (13 k v ms)
  have "accepted (pack_key k) \<longleftrightarrow> (\<exists>s. k = Field s \<and> wire_str s)"
    using pack_str_accepted by (cases k) (auto simp: pack_key_def)
  then show ?case using 13 by (simp only: pack_members.simps after_accepted list.pred_inject fst_conv snd_conv) blast
qed (simp_all only: pack_value.simps pack_elements.simps pack_members.simps after_accepted header_accepted
      pack_str_accepted frame_ok.simps list.pred_inject, simp_all)

end
