(* ===== verification/MsgpackTheorems.thy ===== *)
theory MsgpackTheorems
  imports MsgpackProps
begin

text \<open>
  The properties of the MessagePack codec.
\<close>

lemma reads_again: "keys_ok v \<Longrightarrow> msgpack_pack v = Inr bs \<Longrightarrow> msgpack_unpack bs = Inr v"
  using unpack_back(1) [of v bs "Suc (length bs)" "[]"] by (simp add: msgpack_pack_def msgpack_unpack_def)

text \<open>C7: what the codec packs it reads reread: a value whose dictionaries have each key once is
  unpacked as it was packed; a frame cut short, at any byte, and a frame followed by more bytes
  are errors.\<close>

theorem msgpack_roundtrip:
  assumes "keys_ok v" and "msgpack_pack v = Inr bs"
  shows "msgpack_unpack bs = Inr v \<and> (n < length bs \<longrightarrow> (\<exists>e. e \<noteq> Out_of_fuel \<and> msgpack_unpack (take n bs) = Inl e)) \<and>
    (x \<noteq> [] \<longrightarrow> msgpack_unpack (bs @ x) = Inl Trailing_bytes)"
proof (intro conjI impI)
  have reread: "unpack k (bs @ y) = Inr (v, y)" if "length bs \<le> k" for k y
    using unpack_back(1) [OF _ assms(1) that] assms(2) by (simp add: msgpack_pack_def)
  show "msgpack_unpack bs = Inr v" using reread [of "Suc (length bs)" "[]"] by (simp add: msgpack_unpack_def)
  show "msgpack_unpack (bs @ x) = Inl Trailing_bytes" if "x \<noteq> []"
    using reread [of "Suc (length (bs @ x))" x] that by (simp add: msgpack_unpack_def)
  assume n: "n < length bs"
  show "\<exists>e. e \<noteq> Out_of_fuel \<and> msgpack_unpack (take n bs) = Inl e"
  proof (cases "unpack (Suc (length (take n bs))) (take n bs)")
    case (Inl e)
    then show ?thesis using unpack_fuel [of "take n bs" "Suc (length (take n bs))"] by (auto simp: msgpack_unpack_def)
  next
    case (Inr vr)
    then obtain w r where w: "unpack (Suc n) (take n bs) = Inr (w, r)" using n by (cases vr) auto
    obtain u where u: "take n bs = u @ r" "\<And>y. unpack (Suc n) (u @ y) = Inr (w, y)"
      using decodesE [OF nested.reads w] by blast
    have "bs = take n bs @ drop n bs" by simp
    then have bs: "bs = u @ r @ drop n bs" unfolding u(1) by simp
    have "unpack (Suc n) bs = Inr (w, r @ drop n bs)" by (subst bs) (rule u(2))
    then have "unpack (length bs) bs = Inr (w, r @ drop n bs)" by (rule unpack_more [rotated]) (use n in simp)
    then have "drop n bs = []" using reread [of "length bs" "[]"] by simp
    then show ?thesis using n by simp
  qed
qed

text \<open>A frame with the shapes the wire uses, a map of a string, an array of integers and a null.\<close>

definition sample_frame :: frame_value where
  "sample_frame = FMap [(Field [110], FStr [8364, 120]), (Field [112], FList [FInt 300, FInt (- 200), FBool True]), (Field [107], FNull)]"

definition sample_bytes :: "byte list" where
  "sample_bytes = [0x83, 0xA1, 0x6E, 0xA4, 0xE2, 0x82, 0xAC, 0x78, 0xA1, 0x70, 0x93, 0xCD, 0x01, 0x2C, 0xD1, 0xFF, 0x38, 0xC3,
     0xA1, 0x6B, 0xC0]"

lemma be_bytes_two: "be_bytes 2 v = [word_of_int (v div 256), word_of_int v]"
  by (simp add: numeral_2_eq_2 be_bytes.simps)

lemma sample_packs: "keys_ok sample_frame" "msgpack_pack sample_frame = Inr sample_bytes"
  by (simp_all add: sample_frame_def sample_bytes_def msgpack_pack_def after_that_def pack_map_header_def
      pack_array_header_def pack_key_def pack_str_def pack_int_def pack_uint_def utf8_encode_def utf8_char_def
      cont_byte_def code_point_def be_bytes_two)

theorem msgpack_roundtrip_witness:
  "msgpack_unpack sample_bytes = Inr sample_frame \<and> (\<exists>e. e \<noteq> Out_of_fuel \<and> msgpack_unpack (take 5 sample_bytes) = Inl e) \<and>
   msgpack_unpack (sample_bytes @ [0]) = Inl Trailing_bytes"
proof -
  have "5 < length sample_bytes" by (simp add: sample_bytes_def)
  then show ?thesis using msgpack_roundtrip [OF sample_packs, of 5 "[0]"] by blast
qed

text \<open>C8: frames are typed. The encoder accepts exactly the well-formed values (integers of 64 bits,
  strings of Unicode scalar values, string keys, no floats and no bytes); whatever bytes arrive, what
  the decoder returns is such a value with each key once, packs into no more bytes than arrived and
  is read reread the same; and the decoder never runs out of its fuel.\<close>

theorem msgpack_frames_typed:
  "((\<exists>bs. msgpack_pack v = Inr bs) \<longleftrightarrow> frame_ok v) \<and> msgpack_unpack bs \<noteq> Inl Out_of_fuel \<and>
   (msgpack_unpack bs = Inr w \<longrightarrow> frame_ok w \<and> keys_ok w \<and>
      (\<exists>bs'. msgpack_pack w = Inr bs' \<and> length bs' \<le> length bs \<and> msgpack_unpack bs' = Inr w))"
proof (intro conjI impI)
  show "(\<exists>bs. msgpack_pack v = Inr bs) \<longleftrightarrow> frame_ok v" unfolding msgpack_pack_def by (rule pack_accepted(1))
  show "msgpack_unpack bs \<noteq> Inl Out_of_fuel"
    using unpack_fuel [of bs "Suc (length bs)"] by (auto simp: msgpack_unpack_def split: sum.splits)
  assume "msgpack_unpack bs = Inr w"
  then have "unpack (Suc (length bs)) bs = Inr (w, [])"
    by (auto simp: msgpack_unpack_def split: sum.splits if_splits)
  then have "fits w (length bs)" using decodesE [OF nested.reads] by force
  then obtain bs' where p: "keys_ok w" "msgpack_pack w = Inr bs'" "length bs' \<le> length bs"
    unfolding fits_def msgpack_pack_def by blast
  then show "keys_ok w" "frame_ok w" "\<exists>bs'. msgpack_pack w = Inr bs' \<and> length bs' \<le> length bs \<and> msgpack_unpack bs' = Inr w"
    using pack_accepted(1) [of w] unpack_back(1) [of w bs' "Suc (length bs')" "[]"]
    by (auto simp: msgpack_pack_def msgpack_unpack_def)
qed

theorem msgpack_frames_typed_witness:
  "frame_ok sample_frame \<and> keys_ok sample_frame \<and> \<not> frame_ok (FList [FNull, FFloat]) \<and>
   (\<nexists>bs. msgpack_pack (FList [FNull, FFloat]) = Inr bs)"
  using msgpack_frames_typed [of "FList [FNull, FFloat]" sample_bytes sample_frame]
    reads_again [OF sample_packs] by simp

end
