(* ===== verification/KeyedOrder.thy ===== *)
theory KeyedOrder
  imports Prelude
begin

text \<open>
  The present set and key order behind every keyed map, \<^verbatim>\<open>src/lazily/_keyed_order.py\<close>: a
  dictionary of handles (an association list) and the authoritative list of keys, with the move
  algebra. An index is a Python integer and may be negative.
\<close>

datatype map_mutation = No_mutation | Inserted | Removed

datatype map_move = Move_missing | Move_unchanged | Move_reordered

definition mutation_changed :: "map_mutation \<Rightarrow> bool" where
  "mutation_changed m \<longleftrightarrow> m \<noteq> No_mutation"

definition move_applied :: "map_move \<Rightarrow> bool" where
  "move_applied m \<longleftrightarrow> m \<noteq> Move_missing"

definition move_changed :: "map_move \<Rightarrow> bool" where
  "move_changed m \<longleftrightarrow> m = Move_reordered"

record ('k, 'h) keyed_order =
  ko_entries :: "('k \<times> 'h) list"
  ko_order :: "'k list"

definition ko_new :: "('k, 'h) keyed_order" where
  "ko_new = \<lparr>ko_entries = [], ko_order = []\<rparr>"

definition ko_get :: "('k, 'h) keyed_order \<Rightarrow> 'k \<Rightarrow> 'h option" where
  "ko_get q k = map_of (ko_entries q) k"

definition ko_contains :: "('k, 'h) keyed_order \<Rightarrow> 'k \<Rightarrow> bool" where
  "ko_contains q k \<longleftrightarrow> map_of (ko_entries q) k \<noteq> None"

definition ko_keys :: "('k, 'h) keyed_order \<Rightarrow> 'k list" where
  "ko_keys q = ko_order q"

definition ko_length :: "('k, 'h) keyed_order \<Rightarrow> nat" where
  "ko_length q = length (ko_order q)"

definition ko_position :: "('k, 'h) keyed_order \<Rightarrow> 'k \<Rightarrow> nat option" where
  "ko_position q k = index_where (\<lambda>x. x = k) (ko_order q)"

definition ko_insert :: "('k, 'h) keyed_order \<Rightarrow> 'k \<Rightarrow> 'h \<Rightarrow> ('k, 'h) keyed_order \<times> 'h \<times> map_mutation" where
  "ko_insert q k h =
     (case map_of (ko_entries q) k of
        Some existing \<Rightarrow> (q, existing, No_mutation)
      | None \<Rightarrow> (q\<lparr>ko_entries := AList.update k h (ko_entries q), ko_order := ko_order q @ [k]\<rparr>, h, Inserted))"

definition ko_remove :: "('k, 'h) keyed_order \<Rightarrow> 'k \<Rightarrow> ('k, 'h) keyed_order \<times> 'h option \<times> map_mutation" where
  "ko_remove q k =
     (case map_of (ko_entries q) k of
        None \<Rightarrow> (q, None, No_mutation)
      | Some h \<Rightarrow> (q\<lparr>ko_entries := AList.delete k (ko_entries q),
            ko_order := filter (\<lambda>x. x \<noteq> k) (ko_order q)\<rparr>, Some h, Removed))"

definition ko_move_to :: "('k, 'h) keyed_order \<Rightarrow> 'k \<Rightarrow> int \<Rightarrow> ('k, 'h) keyed_order \<times> map_move" where
  "ko_move_to q k index =
     (case ko_position q k of
        None \<Rightarrow> (q, Move_missing)
      | Some from_pos \<Rightarrow>
          let target = max 0 (min index (int (length (ko_order q)) - 1))
          in if int from_pos = target then (q, Move_unchanged)
             else (q\<lparr>ko_order := list_insert (nat target) k (list_pop from_pos (ko_order q))\<rparr>, Move_reordered))"

definition ko_move_before :: "('k, 'h) keyed_order \<Rightarrow> 'k \<Rightarrow> 'k \<Rightarrow> ('k, 'h) keyed_order \<times> map_move" where
  "ko_move_before q k anchor =
     (case (ko_position q anchor, ko_position q k) of
        (Some a, Some p) \<Rightarrow> ko_move_to q k (if p < a then int a - 1 else int a)
      | _ \<Rightarrow> (q, Move_missing))"

definition ko_move_after :: "('k, 'h) keyed_order \<Rightarrow> 'k \<Rightarrow> 'k \<Rightarrow> ('k, 'h) keyed_order \<times> map_move" where
  "ko_move_after q k anchor =
     (case (ko_position q anchor, ko_position q k) of
        (Some a, Some p) \<Rightarrow> ko_move_to q k (if p \<le> a then int a else int a + 1)
      | _ \<Rightarrow> (q, Move_missing))"

section \<open>Lockstep\<close>

definition ko_ok :: "('k, 'h) keyed_order \<Rightarrow> bool" where
  "ko_ok q \<longleftrightarrow> distinct (ko_order q) \<and> distinct (map fst (ko_entries q)) \<and> set (ko_order q) = fst ` set (ko_entries q)"

lemma ko_present: "ko_ok q \<Longrightarrow> map_of (ko_entries q) k \<noteq> None \<longleftrightarrow> k \<in> set (ko_order q)"
  by (simp add: ko_ok_def map_of_eq_None_iff)

lemma ko_new_ok: "ko_ok ko_new"
  by (simp add: ko_ok_def ko_new_def)

lemma ko_insert_fresh: "map_of (ko_entries q) k = None \<Longrightarrow> ko_insert q k h =
    (q\<lparr>ko_entries := ko_entries q @ [(k, h)], ko_order := ko_order q @ [k]\<rparr>, h, Inserted)"
  using update_fresh [of k "ko_entries q" h] by (simp add: ko_insert_def map_of_eq_None_iff [symmetric])

lemma ko_insert_ok: "ko_ok q \<Longrightarrow> ko_ok (fst (ko_insert q k h))"
proof (cases "map_of (ko_entries q) k")
  case None
  assume "ko_ok q"
  then show ?thesis using None ko_present [of q k] by (auto simp: ko_insert_fresh ko_ok_def)
next
  case (Some h')
  assume "ko_ok q"
  then show ?thesis using Some by (simp add: ko_insert_def)
qed

lemma ko_remove_ok: "ko_ok q \<Longrightarrow> ko_ok (fst (ko_remove q k))"
  by (auto simp: ko_remove_def ko_ok_def AList.delete_eq distinct_map_filter split: option.splits)

section \<open>Moves\<close>

lemma position_Some:
  "distinct xs \<Longrightarrow> index_where (\<lambda>x. x = k) xs = Some i \<longleftrightarrow> i < length xs \<and> xs ! i = k"
  by (auto simp: index_where_Some nth_eq_iff_index_eq)

lemma list_pop_removeAll: "distinct xs \<Longrightarrow> i < length xs \<Longrightarrow> list_pop i xs = removeAll (xs ! i) xs"
proof -
  assume d: "distinct xs" "i < length xs"
  define ys zs where "ys = take i xs" and "zs = drop (Suc i) xs"
  have "xs = ys @ xs ! i # zs" unfolding ys_def zs_def by (rule id_take_nth_drop [OF d(2)])
  moreover from this d(1) have "xs ! i \<notin> set ys" "xs ! i \<notin> set zs" by (metis distinct.simps(2) distinct_append not_distinct_conv_prefix)+
  ultimately have "removeAll (xs ! i) xs = ys @ zs" by (metis removeAll.simps(2) removeAll_append removeAll_id)
  then show ?thesis by (simp add: list_pop_def ys_def zs_def)
qed

lemma insert_own_place: "distinct xs \<Longrightarrow> i < length xs \<Longrightarrow> list_insert i (xs ! i) (removeAll (xs ! i) xs) = xs"
proof -
  assume d: "distinct xs" "i < length xs"
  have "list_insert i (xs ! i) (list_pop i xs) = take i xs @ xs ! i # drop (Suc i) xs"
    using d(2) by (simp add: list_insert_def list_pop_def)
  also have "\<dots> = xs" by (rule id_take_nth_drop [OF d(2), symmetric])
  finally show ?thesis unfolding list_pop_removeAll [OF d] .
qed

text \<open>A move puts the key at the clamped index of the list without it.\<close>

lemma move_to_order:
  assumes "ko_ok q" "k \<in> set (ko_order q)" "ko_move_to q k index = (q', m)"
  shows "ko_entries q' = ko_entries q \<and> move_applied m \<and> (move_changed m \<longleftrightarrow> ko_order q' \<noteq> ko_order q) \<and>
    ko_order q' = list_insert (nat (max 0 (min index (int (length (ko_order q)) - 1)))) k (removeAll k (ko_order q))"
proof -
  let ?xs = "ko_order q"
  define t where "t = max 0 (min index (int (length ?xs) - 1))"
  have d: "distinct ?xs" using assms(1) by (simp add: ko_ok_def)
  obtain p where p: "ko_position q k = Some p" "p < length ?xs" "?xs ! p = k"
    using assms(2) d by (auto simp: ko_position_def in_set_conv_nth position_Some)
  have t: "0 \<le> t" "nat t < length ?xs" using p(2) by (simp_all add: t_def)
  have run: "ko_move_to q k index = (if int p = t then (q, Move_unchanged)
      else (q\<lparr>ko_order := list_insert (nat t) k (removeAll k ?xs)\<rparr>, Move_reordered))"
    using p(1) list_pop_removeAll [OF d p(2)] p(3) by (simp add: ko_move_to_def Let_def t_def)
  have "ko_entries q' = ko_entries q \<and> move_applied m \<and> (move_changed m \<longleftrightarrow> ko_order q' \<noteq> ?xs) \<and>
      ko_order q' = list_insert (nat t) k (removeAll k ?xs)"
  proof (cases "int p = t")
    case True
    then have "q' = q" "m = Move_unchanged" "nat t = p" using assms(3) run by auto
    then show ?thesis using insert_own_place [OF d p(2)] p(3) by (simp add: move_applied_def move_changed_def)
  next
    case False
    then have q': "q' = q\<lparr>ko_order := list_insert (nat t) k (removeAll k ?xs)\<rparr>" "m = Move_reordered"
      using assms(3) run by auto
    have "length (removeAll k ?xs) = length ?xs - 1"
      using d assms(2) by (simp add: distinct_remove1_removeAll [symmetric] length_remove1)
    then have "list_insert (nat t) k (removeAll k ?xs) ! nat t = k" using t by (simp add: list_insert_def nth_append)
    moreover have "?xs ! nat t \<noteq> k" using False p d t by (metis int_nat_eq nth_eq_iff_index_eq)
    ultimately have "list_insert (nat t) k (removeAll k ?xs) \<noteq> ?xs" by metis
    then show ?thesis using q' by (simp add: move_applied_def move_changed_def)
  qed
  then show ?thesis unfolding t_def .
qed

lemma insert_removed:
  assumes "distinct xs" "k \<in> set xs"
  shows "distinct (list_insert i k (removeAll k xs))" and "set (list_insert i k (removeAll k xs)) = set xs"
proof -
  obtain ys zs where y: "list_insert i k (removeAll k xs) = ys @ k # zs" "removeAll k xs = ys @ zs"
    unfolding list_insert_def by (metis append_take_drop_id)
  have "distinct (ys @ zs)" unfolding y(2) [symmetric] using assms(1) by (rule distinct_removeAll)
  moreover have "set (ys @ zs) = set xs - {k}" unfolding y(2) [symmetric] by simp
  ultimately show "distinct (list_insert i k (removeAll k xs))" "set (list_insert i k (removeAll k xs)) = set xs"
    unfolding y(1) using assms(2) by auto
qed

lemma ko_move_to_ok: "ko_ok q \<Longrightarrow> ko_ok (fst (ko_move_to q k index))"
proof (cases "k \<in> set (ko_order q)")
  case True
  assume ok: "ko_ok q"
  obtain q' m where q: "ko_move_to q k index = (q', m)" by (rule prod.exhaust)
  have "distinct (ko_order q)" using ok by (simp add: ko_ok_def)
  then show ?thesis using move_to_order [OF ok True q] insert_removed [of "ko_order q" k] True ok q by (simp add: ko_ok_def)
next
  case False
  assume "ko_ok q"
  moreover have "ko_position q k = None" using False by (auto simp: ko_position_def index_where_None)
  ultimately show ?thesis by (simp add: ko_move_to_def)
qed

lemma position_removed:
  assumes "distinct xs" "i < length xs" "j < length xs" "xs ! i = a" "xs ! j = k" "i \<noteq> j"
  shows "\<exists>ys zs. removeAll k xs = ys @ a # zs \<and> length ys = (if j < i then i - 1 else i)"
proof -
  let ?p = "if j < i then i - 1 else i"
  have r: "removeAll k xs = list_pop j xs" using list_pop_removeAll [OF assms(1,3)] assms(5) by simp
  have p: "?p < length (list_pop j xs)" "list_pop j xs ! ?p = a"
    using assms(2-6) by (auto simp: list_pop_def nth_append min_def)
  show ?thesis unfolding r p(2) [symmetric]
    by (intro exI conjI, rule id_take_nth_drop [OF p(1)]) (use p(1) in simp)
qed

text \<open>Moving next to an anchor: the other keys keep their order and the key ends beside the anchor.\<close>

lemma move_beside_order:
  assumes "ko_ok q" "k \<in> set (ko_order q)" "a \<in> set (ko_order q)" "k \<noteq> a"
  shows "\<exists>ys zs m m' q' q''. removeAll k (ko_order q) = ys @ a # zs \<and>
    ko_move_before q k a = (q', m) \<and> ko_order q' = ys @ k # a # zs \<and>
    ko_move_after q k a = (q'', m') \<and> ko_order q'' = ys @ a # k # zs"
proof -
  let ?xs = "ko_order q"
  have d: "distinct ?xs" using assms(1) by (simp add: ko_ok_def)
  obtain i j where i: "i < length ?xs" "?xs ! i = a" and j: "j < length ?xs" "?xs ! j = k"
    using assms(2,3) by (auto simp: in_set_conv_nth)
  have ij: "i \<noteq> j" using i j assms(4) by auto
  have p: "ko_position q a = Some i" "ko_position q k = Some j"
    using i j d by (simp_all add: ko_position_def position_Some)
  let ?p = "if j < i then i - 1 else i"
  obtain ys zs where s: "removeAll k ?xs = ys @ a # zs" "length ys = ?p"
    using position_removed [OF d i(1) j(1) i(2) j(2) ij] by blast
  have before: "ko_move_before q k a = ko_move_to q k (int ?p)"
    using p i(1) by (auto simp: ko_move_before_def)
  have after: "ko_move_after q k a = ko_move_to q k (int (Suc ?p))"
    using p ij by (auto simp: ko_move_after_def add.commute)
  obtain q' m where q': "ko_move_to q k (int ?p) = (q', m)" by (rule prod.exhaust)
  obtain q'' m' where q'': "ko_move_to q k (int (Suc ?p)) = (q'', m')" by (rule prod.exhaust)
  have c: "nat (max 0 (min (int ?p) (int (length ?xs) - 1))) = ?p"
    "nat (max 0 (min (int (Suc ?p)) (int (length ?xs) - 1))) = Suc ?p" using i(1) j(1) ij by auto
  have "ko_order q' = ys @ k # a # zs"
    using move_to_order [OF assms(1,2) q'] s unfolding c by (simp add: list_insert_def)
  moreover have "ko_order q'' = ys @ a # k # zs"
    using move_to_order [OF assms(1,2) q''] s unfolding c by (simp add: list_insert_def)
  ultimately show ?thesis using before after q' q'' s(1) by auto
qed

lemma move_to_entries: "ko_entries (fst (ko_move_to q k i)) = ko_entries q"
  by (simp add: ko_move_to_def Let_def split: option.splits)

lemma ko_move_before_ok:
  assumes "ko_ok q"
  shows "ko_ok (fst (ko_move_before q k a)) \<and> ko_entries (fst (ko_move_before q k a)) = ko_entries q"
  using assms ko_move_to_ok [OF assms, of k] move_to_entries [of q k]
  by (auto simp: ko_move_before_def split: option.splits)

lemma ko_move_after_ok:
  assumes "ko_ok q"
  shows "ko_ok (fst (ko_move_after q k a)) \<and> ko_entries (fst (ko_move_after q k a)) = ko_entries q"
  using assms ko_move_to_ok [OF assms, of k] move_to_entries [of q k]
  by (auto simp: ko_move_after_def split: option.splits)

end
