(* ===== verification/Reconciliation.thy ===== *)
theory Reconciliation
  imports Prelude KeyedOrder
begin

text \<open>
  Keyed reconciliation, \<^verbatim>\<open>src/lazily/reconciliation.py\<close>: the longest increasing subsequence by
  patience sorting and the operations that turn a prior level into a target level. A dictionary is
  a partial function; \<^verbatim>\<open>p[k]\<close> of a missing key raises, here None.
\<close>

record ('k, 'v) level =
  lv_order :: "'k list"
  lv_values :: "'k \<Rightarrow> 'v option"

datatype op_kind = Op_insert | Op_remove | Op_update | Op_move

record ('k, 'v) reconcile_op =
  op_kind :: op_kind
  op_key :: 'k
  op_value :: "'v option"
  op_after :: "'k option"

section \<open>The longest increasing subsequence\<close>

text \<open>The binary search for the first head that is not above \<open>v\<close>, in the decreasing list of heads.\<close>

function head_search :: "int list \<Rightarrow> int \<Rightarrow> nat \<Rightarrow> nat \<Rightarrow> nat" where
  "head_search heads v lo hi =
     (if lo < hi
      then let mid = (lo + hi) div 2
           in if heads ! mid > v then head_search heads v (mid + 1) hi else head_search heads v lo mid
      else lo)"
  by pat_completeness auto

termination
  by (relation "measure (\<lambda>(heads, v, lo, hi). hi - lo)") auto

declare head_search.simps [simp del]

text \<open>
  The loop from the right: \<open>heads ! j\<close> is the greatest first value of the increasing subsequences
  of length \<open>j + 1\<close> of the suffix seen, and the second list is \<^verbatim>\<open>len_start\<close> for that suffix.
\<close>

primrec lis_scan :: "int list \<Rightarrow> int list \<times> nat list" where
  "lis_scan [] = ([], [])"
| "lis_scan (v # vs) =
     (let (heads, lens) = lis_scan vs;
          idx = head_search heads v 0 (length heads)
      in (if idx = length heads then heads @ [v]
          else if v > heads ! idx then heads[idx := v] else heads, (idx + 1) # lens))"

text \<open>The walk from the left that takes the earliest element still reaching the target length.\<close>

fun lis_pick :: "nat \<Rightarrow> int option \<Rightarrow> ('k \<times> int \<times> nat) list \<Rightarrow> 'k list" where
  "lis_pick target prev [] = []"
| "lis_pick target prev ((k, v, l) # rest) =
     (if target = 0 then []
      else if l = target \<and> (case prev of None \<Rightarrow> True | Some p \<Rightarrow> v > p)
      then k # lis_pick (target - 1) (Some v) rest
      else lis_pick target prev rest)"

definition lis_by :: "('k \<Rightarrow> int option) \<Rightarrow> 'k list \<Rightarrow> 'k list option" where
  "lis_by p keys =
     (if keys = [] then Some []
      else case those (map p keys) of
          None \<Rightarrow> None
        | Some seq \<Rightarrow> let (heads, lens) = lis_scan seq
            in Some (lis_pick (length heads) None (zip keys (zip seq lens))))"

section \<open>Keys\<close>

fun idx_in :: "'k list \<Rightarrow> 'k \<Rightarrow> nat" where
  "idx_in [] k = 0"
| "idx_in (x # xs) k = (if x = k then 0 else Suc (idx_in xs k))"

definition common_keys :: "'k list \<Rightarrow> 'k list \<Rightarrow> 'k list" where
  "common_keys prior target = filter (\<lambda>k. k \<in> set prior) target"

text \<open>\<^verbatim>\<open>{k: i for i, k in enumerate(prior)}\<close>: a later index of the same key replaces an earlier one.\<close>

definition prior_index :: "'k list \<Rightarrow> 'k \<Rightarrow> int option" where
  "prior_index prior = map_of (rev (zip prior [0..int (length prior) - 1]))"

definition stable_keys :: "'k list \<Rightarrow> 'k list \<Rightarrow> 'k list option" where
  "stable_keys prior target = lis_by (prior_index prior) (common_keys prior target)"

definition moved_keys :: "'k list \<Rightarrow> 'k list \<Rightarrow> 'k list option" where
  "moved_keys prior target =
     map_option (\<lambda>stays. filter (\<lambda>k. k \<notin> set stays) (common_keys prior target)) (stable_keys prior target)"

section \<open>The operations\<close>

text \<open>The last key before \<open>k\<close> in the target order that is stable or moved.\<close>

fun anchor_of :: "'k set \<Rightarrow> 'k \<Rightarrow> 'k option \<Rightarrow> 'k list \<Rightarrow> 'k option" where
  "anchor_of anchors k a [] = a"
| "anchor_of anchors k a (tk # ts) =
     (if tk = k then a else anchor_of anchors k (if tk \<in> anchors then Some tk else a) ts)"

definition reconcile_ops :: "('k, 'v) level \<Rightarrow> ('k, 'v) level \<Rightarrow> ('k, 'v) reconcile_op list option" where
  "reconcile_ops prior target =
     (let commons = common_keys (lv_order prior) (lv_order target)
      in case stable_keys (lv_order prior) (lv_order target) of
           None \<Rightarrow> None
         | Some stays \<Rightarrow>
             let moved = filter (\<lambda>k. k \<notin> set stays) commons
             in Some
               (map (\<lambda>k. \<lparr>op_kind = Op_remove, op_key = k, op_value = None, op_after = None\<rparr>)
                  (filter (\<lambda>k. k \<notin> set (lv_order target)) (lv_order prior)) @
                map (\<lambda>k. \<lparr>op_kind = Op_insert, op_key = k, op_value = lv_values target k, op_after = None\<rparr>)
                  (filter (\<lambda>k. k \<notin> set (lv_order prior)) (lv_order target)) @
                map (\<lambda>k. \<lparr>op_kind = Op_update, op_key = k, op_value = lv_values target k, op_after = None\<rparr>)
                  (filter (\<lambda>k. lv_values prior k \<noteq> lv_values target k) commons) @
                map (\<lambda>k. \<lparr>op_kind = Op_move, op_key = k, op_value = None,
                    op_after = anchor_of (set stays \<union> set moved) k None (lv_order target)\<rparr>) moved))"

chapter \<open>Properties\<close>

text \<open>
  Facts on reconciliation: the patience scan computes the length of the longest increasing
  subsequence from each element on, and the walk picks one of the greatest length.
\<close>

section \<open>The scan\<close>

abbreviation rising :: "int list \<Rightarrow> bool" where
  "rising \<equiv> sorted_wrt (<)"

abbreviation falling :: "int list \<Rightarrow> bool" where
  "falling \<equiv> sorted_wrt (>)"

lemma head_search_spec:
  assumes "falling heads" "lo \<le> hi" "hi \<le> length heads"
    and "\<forall>j<lo. heads ! j > v" "\<forall>j. hi \<le> j \<and> j < length heads \<longrightarrow> heads ! j \<le> v"
  shows "\<exists>i. head_search heads v lo hi = i \<and> i \<le> length heads \<and> (\<forall>j<i. heads ! j > v) \<and>
    (\<forall>j. i \<le> j \<and> j < length heads \<longrightarrow> heads ! j \<le> v)"
  using assms
proof (induction heads v lo hi rule: head_search.induct)
  case (1 heads v lo hi)
  show ?case
  proof (cases "lo < hi")
    case False
    then show ?thesis using 1(3-) by (subst head_search.simps) auto
  next
    case True
    let ?m = "(lo + hi) div 2"
    have m: "lo \<le> ?m" "?m < hi" using True by auto
    have mono: "heads ! j \<le> heads ! i" if "i \<le> j" "j < length heads" for i j
      using sorted_wrt_nth_less [OF 1(3), of i j] that by (cases "i = j") auto
    show ?thesis
    proof (cases "heads ! ?m > v")
      case above: True
      have "\<forall>j<?m + 1. heads ! j > v"
      proof (intro allI impI)
        fix j assume "j < ?m + 1"
        then show "heads ! j > v" using mono [of j ?m] above m 1(5) by auto
      qed
      then show ?thesis using 1(1) [OF True refl above] 1(3,5,7) m True above
        by (subst head_search.simps) (simp add: Let_def)
    next
      case below: False
      have "\<forall>j. ?m \<le> j \<and> j < length heads \<longrightarrow> heads ! j \<le> v"
      proof (intro allI impI)
        fix j assume "?m \<le> j \<and> j < length heads"
        then show "heads ! j \<le> v" using mono [of ?m j] below by auto
      qed
      then show ?thesis using 1(2) [OF True refl below] 1(3,5,6) m True below
        by (subst head_search.simps) (simp add: Let_def)
    qed
  qed
qed

text \<open>The greatest first values: each is attained and none is exceeded.\<close>

definition heads_ok :: "int list \<Rightarrow> int list \<Rightarrow> bool" where
  "heads_ok vs heads \<longleftrightarrow> falling heads \<and>
     (\<forall>j<length heads. \<exists>s. subseq s vs \<and> rising s \<and> length s = Suc j \<and> hd s = heads ! j) \<and>
     (\<forall>s. subseq s vs \<and> rising s \<and> s \<noteq> [] \<longrightarrow> length s \<le> length heads \<and> hd s \<le> heads ! (length s - 1))"

text \<open>The length of the longest rising subsequence that starts with the head of a list.\<close>

definition starts_with :: "int list \<Rightarrow> nat \<Rightarrow> bool" where
  "starts_with vs l \<longleftrightarrow> (\<exists>s. subseq s (tl vs) \<and> rising (hd vs # s) \<and> l = Suc (length s)) \<and>
     (\<forall>s. subseq s (tl vs) \<and> rising (hd vs # s) \<longrightarrow> Suc (length s) \<le> l)"

lemma rising_hd: "rising (v # s) \<Longrightarrow> s \<noteq> [] \<Longrightarrow> v < hd s"
  by (cases s) auto

lemma rising_Cons: "rising s \<Longrightarrow> s \<noteq> [] \<Longrightarrow> v < hd s \<Longrightarrow> rising (v # s)"
  by (cases s) (auto intro: order.strict_trans)

lemma heads_step:
  assumes ok: "heads_ok vs heads" and i: "i \<le> length heads" "\<forall>j<i. heads ! j > v"
    "\<forall>j. i \<le> j \<and> j < length heads \<longrightarrow> heads ! j \<le> v"
  shows "starts_with (v # vs) (Suc i)"
    and "heads_ok (v # vs) (if i = length heads then heads @ [v] else if v > heads ! i then heads[i := v] else heads)"
proof -
  have fall: "falling heads" using ok by (simp add: heads_ok_def)
  have best: "length s \<le> i" if s: "subseq s vs" "rising (v # s)" for s
  proof (cases "s = []")
    case False
    have "length s \<le> length heads" "hd s \<le> heads ! (length s - 1)"
      using ok s False by (auto simp: heads_ok_def)
    moreover have "v < hd s" by (rule rising_hd [OF s(2) False])
    ultimately have "\<not> heads ! (length s - 1) \<le> v" "length s - 1 < length heads" using False by (cases s; auto)+
    then have "\<not> i \<le> length s - 1" using i(3) by blast
    then show ?thesis by simp
  qed simp
  obtain t where t: "subseq t vs" "rising (v # t)" "length t = i"
  proof (cases i)
    case 0
    then show thesis using that [of "[]"] by simp
  next
    case (Suc j)
    then have "j < length heads" using i(1) by simp
    then obtain s where s: "subseq s vs" "rising s" "length s = Suc j" "hd s = heads ! j"
      using ok unfolding heads_ok_def by blast
    then show thesis using that [of s] Suc i(2) rising_Cons [of s v] by (cases s) auto
  qed
  show "starts_with (v # vs) (Suc i)" unfolding starts_with_def using t best by fastforce
  let ?h = "if i = length heads then heads @ [v] else if v > heads ! i then heads[i := v] else heads"
  have len: "length ?h = max (length heads) (Suc i)" using i(1) by auto
  have here: "?h ! i = v" using i(1,3) by (auto simp: nth_append)
  have else_where: "?h ! j = heads ! j" if "j < length ?h" "j \<noteq> i" for j
    using that i(1) by (auto simp: nth_append)
  have grown: "heads ! j \<le> ?h ! j" if "j < length heads" for j
    using that i(3) here else_where [of j] len by (cases "j = i") auto
  show "heads_ok (v # vs) ?h"
    unfolding heads_ok_def
  proof (intro conjI allI impI)
    show "falling ?h"
      unfolding sorted_wrt_iff_nth_less
    proof (intro allI impI)
      fix a b assume ab: "a < b" "b < length ?h"
      consider "b = i" | "a = i" "b < length heads" | "a \<noteq> i" "b \<noteq> i" "b < length heads" using ab i(1) len by linarith
      then show "?h ! b < ?h ! a"
      proof cases
        case 1
        then show ?thesis using ab i(2) here else_where [of a] by simp
      next
        case 2
        have "heads ! b < heads ! i" using sorted_wrt_nth_less [OF fall, of i b] 2 ab by simp
        then show ?thesis using 2 ab grown [of i] else_where [of b] by fastforce
      next
        case 3
        then show ?thesis using sorted_wrt_nth_less [OF fall ab(1)] ab else_where [of a] else_where [of b] by simp
      qed
    qed
  next
    fix j assume j: "j < length ?h"
    show "\<exists>s. subseq s (v # vs) \<and> rising s \<and> length s = Suc j \<and> hd s = ?h ! j"
    proof (cases "j = i")
      case True
      then show ?thesis using t here by (intro exI [of _ "v # t"]) simp
    next
      case False
      then have "j < length heads" using j len i(1) by auto
      then obtain s where "subseq s vs" "rising s" "length s = Suc j" "hd s = heads ! j"
        using ok by (auto simp: heads_ok_def)
      then show ?thesis using else_where [OF j False] by (intro exI [of _ s]) (simp add: list_emb_Cons)
    qed
  next
    fix s assume s: "subseq s (v # vs) \<and> rising s \<and> s \<noteq> []"
    have "length s \<le> length ?h \<and> hd s \<le> ?h ! (length s - 1)"
    proof (cases "hd s = v")
      case True
      then obtain s' where s': "s = v # s'" "subseq s' vs" "rising (v # s')" using s by (cases s) auto
      have l: "length s' \<le> i" by (rule best [OF s'(2,3)])
      have "v \<le> ?h ! length s'"
      proof (cases "length s' = i")
        case False
        then have "length s' < i" using l by simp
        then have "v < heads ! length s'" "length s' < length ?h" using i(1,2) len by auto
        then show ?thesis using else_where [of "length s'"] False by simp
      qed (simp add: here)
      then show ?thesis using s'(1) l len by simp
    next
      case False
      then have "subseq s vs" using s by (cases s) auto
      then have "length s \<le> length heads" "hd s \<le> heads ! (length s - 1)" using ok s by (auto simp: heads_ok_def)
      moreover from this have "length s - 1 < length heads" using s by (cases s) auto
      ultimately show ?thesis using grown [of "length s - 1"] len by fastforce
    qed
    then show "length s \<le> length ?h" "hd s \<le> ?h ! (length s - 1)" by blast+
  qed
qed

lemma lis_scan_spec:
  "lis_scan vs = (heads, lens) \<Longrightarrow>
     heads_ok vs heads \<and> length lens = length vs \<and> (\<forall>i<length vs. starts_with (drop i vs) (lens ! i))"
proof (induction vs arbitrary: heads lens)
  case Nil
  then show ?case by (auto simp: heads_ok_def)
next
  case (Cons v vs)
  obtain hs ls where r: "lis_scan vs = (hs, ls)" by (rule prod.exhaust)
  note IH = Cons.IH [OF r]
  obtain i where i: "head_search hs v 0 (length hs) = i" "i \<le> length hs" "\<forall>j<i. hs ! j > v"
    "\<forall>j. i \<le> j \<and> j < length hs \<longrightarrow> hs ! j \<le> v"
    using head_search_spec [of hs 0 "length hs" v] IH by (auto simp: heads_ok_def)
  have e: "heads = (if i = length hs then hs @ [v] else if v > hs ! i then hs[i := v] else hs)" "lens = Suc i # ls"
    using Cons.prems r i(1) by (auto simp: Let_def)
  have "starts_with (v # vs) (Suc i)" "heads_ok (v # vs) heads"
    using heads_step [of vs hs i v] IH i(2-4) unfolding e by blast+
  then show ?case using IH e(2) by (auto simp: less_Suc_eq_0_disj)
qed

section \<open>The walk\<close>

abbreviation item_values :: "('k \<times> int \<times> nat) list \<Rightarrow> int list" where
  "item_values \<equiv> map (\<lambda>x. fst (snd x))"

fun marked :: "('k \<times> int \<times> nat) list \<Rightarrow> bool" where
  "marked [] = True"
| "marked ((k, v, l) # r) = (starts_with (v # item_values r) l \<and> marked r)"

definition led :: "int option \<Rightarrow> int list \<Rightarrow> int list" where
  "led p s = (case p of None \<Rightarrow> s | Some x \<Rightarrow> x # s)"

lemma led_simps [simp]: "led None s = s" "led (Some x) s = x # s"
  by (simp_all add: led_def)

lemma led_Cons: "rising (led p (v # s)) \<longleftrightarrow> (case p of None \<Rightarrow> True | Some x \<Rightarrow> v > x) \<and> rising (v # s)"
  by (cases p) auto

lemma lis_pick_spec:
  assumes "marked items"
    and "\<exists>s. subseq s (item_values items) \<and> rising (led prev s) \<and> length s = target"
    and "\<forall>s. subseq s (item_values items) \<and> rising (led prev s) \<longrightarrow> length s \<le> target"
  shows "\<exists>ps. lis_pick target prev items = map fst ps \<and> subseq ps items \<and> rising (led prev (item_values ps)) \<and>
    length ps = target"
  using assms
proof (induction target prev items rule: lis_pick.induct)
  case (1 target prev)
  have "rising (led prev [])" by (cases prev) simp_all
  then show ?case using 1 by auto
next
  case (2 target prev k v l rest)
  show ?case
  proof (cases "target = 0")
    case True
    have "rising (led prev [])" by (cases prev) simp_all
    then show ?thesis using True by (intro exI [of _ "[]"]) simp
  next
    case pos: False
    let ?take = "l = target \<and> (case prev of None \<Rightarrow> True | Some p \<Rightarrow> v > p)"
    from 2(3) have sw: "starts_with (v # item_values rest) l" and m: "marked rest" by simp_all
    show ?thesis
    proof (cases ?take)
      case True
      have ex: "\<exists>s. subseq s (item_values rest) \<and> rising (led (Some v) s) \<and> length s = target - 1"
        using sw True unfolding starts_with_def by auto
      have mx: "\<forall>s. subseq s (item_values rest) \<and> rising (led (Some v) s) \<longrightarrow> length s \<le> target - 1"
        using sw True unfolding starts_with_def by fastforce
      obtain ps where "lis_pick (target - 1) (Some v) rest = map fst ps" "subseq ps rest" "rising (v # item_values ps)"
        "length ps = target - 1"
        using 2(1) [OF pos True m ex mx] by auto
      then show ?thesis using True pos by (intro exI [of _ "(k, v, l) # ps"]) (simp add: led_Cons)
    next
      case False
      obtain s where s: "subseq s (v # item_values rest)" "rising (led prev s)" "length s = target" using 2(4) by auto
      have "subseq s (item_values rest)"
      proof (cases s)
        case (Cons x s')
        show ?thesis
        proof (cases "x = v")
          case True
          then have s': "subseq s' (item_values rest)" "rising (v # s')" "case prev of None \<Rightarrow> True | Some p \<Rightarrow> v > p"
            using s(1,2) Cons by (simp_all add: led_Cons)
          then have "target \<le> l" using sw s(3) Cons unfolding starts_with_def by fastforce
          moreover obtain s'' where "subseq s'' (item_values rest)" "rising (v # s'')" "l = Suc (length s'')"
            using sw unfolding starts_with_def by auto
          then have "subseq (v # s'') (item_values ((k, v, l) # rest)) \<and> rising (led prev (v # s''))" "l = length (v # s'')"
            using s'(3) by (simp_all add: led_Cons)
          then have "l \<le> target" using 2(5) by metis
          ultimately show ?thesis using False s'(3) by simp
        qed (use s(1) Cons in simp)
      qed simp
      then have ex: "\<exists>s. subseq s (item_values rest) \<and> rising (led prev s) \<and> length s = target" using s by blast
      have mx: "\<forall>s. subseq s (item_values rest) \<and> rising (led prev s) \<longrightarrow> length s \<le> target"
        using 2(5) by (auto intro: list_emb_Cons)
      obtain ps where "lis_pick target prev rest = map fst ps" "subseq ps rest" "rising (led prev (item_values ps))"
        "length ps = target"
        using 2(2) [OF pos False m ex mx] by auto
      then show ?thesis using False pos by (intro exI [of _ ps]) (auto intro: list_emb_Cons)
    qed
  qed
qed

lemma marked_zip:
  "length seq = length keys \<Longrightarrow> length lens = length seq \<Longrightarrow> (\<forall>i<length seq. starts_with (drop i seq) (lens ! i)) \<Longrightarrow>
     marked (zip keys (zip seq lens)) \<and> item_values (zip keys (zip seq lens)) = seq"
proof (induction keys arbitrary: seq lens)
  case (Cons k keys)
  then obtain v seq' l lens' where e: "seq = v # seq'" "lens = l # lens'" by (metis length_Suc_conv)
  have "\<forall>i<length seq'. starts_with (drop i seq') (lens' ! i)" using Cons.prems(3) e by auto
  moreover have "starts_with seq l" using Cons.prems(3) e by fastforce
  ultimately show ?case using Cons.IH [of seq' lens'] Cons.prems e by simp
qed simp

lemma those_some: "those (map p xs) = (if \<forall>x\<in>set xs. p x \<noteq> None then Some (map (the \<circ> p) xs) else None)"
  by (induction xs) (auto split: option.splits)

text \<open>The result is a rising subsequence, and none is longer.\<close>

lemma lis_by_longest:
  assumes "\<forall>k\<in>set keys. p k \<noteq> None"
  shows "\<exists>out. lis_by p keys = Some out \<and> subseq out keys \<and> rising (map (the \<circ> p) out) \<and>
    (\<forall>s. subseq s keys \<and> rising (map (the \<circ> p) s) \<longrightarrow> length s \<le> length out)"
proof (cases "keys = []")
  case False
  let ?f = "the \<circ> p" and ?seq = "map (the \<circ> p) keys"
  obtain heads lens where sc: "lis_scan ?seq = (heads, lens)" by (rule prod.exhaust)
  have h: "heads_ok ?seq heads" "length lens = length ?seq" "\<forall>i<length ?seq. starts_with (drop i ?seq) (lens ! i)"
    using lis_scan_spec [OF sc] by blast+
  let ?items = "zip keys (zip ?seq lens)"
  have m: "marked ?items" "item_values ?items = ?seq" using marked_zip [of ?seq keys lens] h(2,3) by simp_all
  have longest: "length s \<le> length heads" if "subseq s ?seq" "rising s" for s
    using h(1) that unfolding heads_ok_def by (cases "s = []") auto
  have "\<exists>s. subseq s ?seq \<and> rising s \<and> length s = length heads"
  proof (cases heads)
    case (Cons x xs)
    then have "length heads - 1 < length heads" by simp
    then obtain s where "subseq s ?seq" "rising s" "length s = Suc (length heads - 1)" using h(1) unfolding heads_ok_def by blast
    then show ?thesis using Cons by auto
  qed simp
  then obtain ps where ps: "lis_pick (length heads) None ?items = map fst ps" "subseq ps ?items" "rising (item_values ps)"
    "length ps = length heads"
    using lis_pick_spec [of ?items None "length heads"] m longest by auto
  have "subseq (map fst ps) (map fst ?items)" by (rule subseq_map [OF ps(2)])
  then have sub: "subseq (map fst ps) keys" using h(2) by simp
  have in_items: "set ps \<subseteq> set ?items" using ps(2) by (auto elim: list_emb_set)
  have val: "?f (fst x) = fst (snd x)" if x: "x \<in> set ps" for x
  proof -
    from subsetD [OF in_items x] obtain n where "x = ?items ! n" "n < length ?items" unfolding in_set_conv_nth by blast
    then show ?thesis by simp
  qed
  have eq: "map ?f (map fst ps) = item_values ps" unfolding map_map by (rule map_cong [OF refl]) (use val in simp)
  have "rising (map ?f (map fst ps))" unfolding eq by (rule ps(3))
  moreover have "length s \<le> length (map fst ps)" if "subseq s keys" "rising (map ?f s)" for s
    using longest [OF subseq_map [OF that(1)] that(2)] ps(4) by simp
  moreover have "lis_by p keys = Some (map fst ps)" using False assms sc ps(1) by (simp add: lis_by_def those_some)
  ultimately show ?thesis using sub by blast
qed (auto simp: lis_by_def dest: list_emb_Nil2)

section \<open>Stable and moved keys\<close>

lemma prior_index_nth: "distinct P \<Longrightarrow> i < length P \<Longrightarrow> prior_index P (P ! i) = Some (int i)"
proof -
  assume d: "distinct P" "i < length P"
  let ?z = "zip P [0..int (length P) - 1]"
  have "distinct (map fst (rev ?z))" using d(1) by (simp add: rev_map [symmetric])
  moreover have "(P ! i, int i) \<in> set ?z" unfolding in_set_zip using d(2) by auto
  ultimately show ?thesis by (simp add: prior_index_def)
qed

lemma prior_index_present: "distinct P \<Longrightarrow> k \<in> set P \<Longrightarrow> prior_index P k \<noteq> None"
  by (auto simp: in_set_conv_nth prior_index_nth)

lemma prior_index_rising:
  assumes "distinct P"
  shows "rising (map (the \<circ> prior_index P) P)"
  unfolding sorted_wrt_iff_nth_less using assms by (simp add: prior_index_nth)

lemma common_keys_props:
  "set (common_keys P T) = set P \<inter> set T" "distinct T \<Longrightarrow> distinct (common_keys P T)" "subseq (common_keys P T) T"
  by (auto simp: common_keys_def)

lemma stable_keys_spec:
  assumes "distinct P"
  shows "\<exists>S. stable_keys P T = Some S \<and> subseq S (common_keys P T) \<and> rising (map (the \<circ> prior_index P) S) \<and>
    (\<forall>s. subseq s (common_keys P T) \<and> rising (map (the \<circ> prior_index P) s) \<longrightarrow> length s \<le> length S)"
  unfolding stable_keys_def using prior_index_present [OF assms]
  by (intro lis_by_longest) (auto simp: common_keys_def)

text \<open>Keys that have the same relative order in both lists are no more than the stable ones.\<close>

lemma same_order_bound:
  assumes "distinct P" "stable_keys P T = Some S" "filter (\<lambda>k. k \<in> U) P = filter (\<lambda>k. k \<in> U) T" "U \<subseteq> set P \<inter> set T"
  shows "card U \<le> length S"
proof -
  let ?u = "filter (\<lambda>k. k \<in> U) P"
  have "rising (map (the \<circ> prior_index P) ?u)"
    using prior_index_rising [OF assms(1)] unfolding sorted_wrt_map by (rule sorted_wrt_filter)
  moreover have "filter (\<lambda>k. k \<in> U) T = filter (\<lambda>k. k \<in> U) (common_keys P T)"
    using assms(4) by (auto simp: common_keys_def intro: filter_cong)
  then have "subseq ?u (common_keys P T)" unfolding assms(3) by simp
  ultimately have "length ?u \<le> length S" using stable_keys_spec [OF assms(1), of T] assms(2) by auto
  moreover have "set ?u = U" "distinct ?u" using assms(1,4) by auto
  ultimately show ?thesis by (metis distinct_card)
qed

end
