(* ===== verification/ReconcileRun.thy ===== *)
theory ReconcileRun
  imports Reconciliation KeyedOrder
begin

text \<open>
  What the operations of \<^verbatim>\<open>reconcile_ops\<close> do to a keyed collection, whose entries hold the values:
  the abstract consumer applies each with the operation of \<^verbatim>\<open>KeyedOrder\<close> of the same name.
\<close>

definition ko_update :: "('k, 'h) keyed_order \<Rightarrow> 'k \<Rightarrow> 'h \<Rightarrow> ('k, 'h) keyed_order" where
  "ko_update q k h = (if ko_contains q k then q\<lparr>ko_entries := AList.update k h (ko_entries q)\<rparr> else q)"

definition apply_op :: "('k, 'v option) keyed_order \<Rightarrow> ('k, 'v) reconcile_op \<Rightarrow> ('k, 'v option) keyed_order" where
  "apply_op q op =
     (case op_kind op of
        Op_remove \<Rightarrow> fst (ko_remove q (op_key op))
      | Op_insert \<Rightarrow> fst (ko_insert q (op_key op) (op_value op))
      | Op_update \<Rightarrow> ko_update q (op_key op) (op_value op)
      | Op_move \<Rightarrow> (case op_after op of
            None \<Rightarrow> fst (ko_move_to q (op_key op) 0)
          | Some a \<Rightarrow> fst (ko_move_after q (op_key op) a)))"

definition keyed_of :: "('k, 'v) level \<Rightarrow> ('k, 'v option) keyed_order" where
  "keyed_of l = \<lparr>ko_entries = map (\<lambda>k. (k, lv_values l k)) (lv_order l), ko_order = lv_order l\<rparr>"

lemma keyed_of_ok: "distinct (lv_order l) \<Longrightarrow> ko_ok (keyed_of l)"
  by (simp add: ko_ok_def keyed_of_def comp_def image_image)

lemma keyed_of_get: "ko_get (keyed_of l) k = (if k \<in> set (lv_order l) then Some (lv_values l k) else None)"
  by (simp add: ko_get_def keyed_of_def map_of_map_restrict restrict_map_def comp_def)

section \<open>Removals, insertions, updates\<close>

lemma removals:
  "ko_ok q \<Longrightarrow> ko_ok (foldl (\<lambda>q k. fst (ko_remove q k)) q ks) \<and>
     ko_order (foldl (\<lambda>q k. fst (ko_remove q k)) q ks) = filter (\<lambda>k. k \<notin> set ks) (ko_order q) \<and>
     (\<forall>k. ko_get (foldl (\<lambda>q k. fst (ko_remove q k)) q ks) k = (if k \<in> set ks then None else ko_get q k))"
proof (induction ks arbitrary: q)
  case (Cons x ks)
  let ?q = "fst (ko_remove q x)"
  have o: "ko_order ?q = filter (\<lambda>k. k \<noteq> x) (ko_order q)"
    using ko_present [OF Cons.prems, of x] by (auto simp: ko_remove_def split: option.splits intro!: filter_True [symmetric])
  have g: "ko_get ?q k = (if k = x then None else ko_get q k)" for k
    by (auto simp: ko_remove_def ko_get_def delete_conv' split: option.splits)
  show ?case using Cons.IH [OF ko_remove_ok [OF Cons.prems, of x]] by (simp add: o g conj_commute)
qed simp

lemma insertions:
  "ko_ok q \<Longrightarrow> distinct ks \<Longrightarrow> set ks \<inter> set (ko_order q) = {} \<Longrightarrow>
     ko_ok (foldl (\<lambda>q k. fst (ko_insert q k (f k))) q ks) \<and>
     ko_order (foldl (\<lambda>q k. fst (ko_insert q k (f k))) q ks) = ko_order q @ ks \<and>
     (\<forall>k. ko_get (foldl (\<lambda>q k. fst (ko_insert q k (f k))) q ks) k = (if k \<in> set ks then Some (f k) else ko_get q k))"
proof (induction ks arbitrary: q)
  case (Cons x ks)
  let ?q = "fst (ko_insert q x (f x))"
  have n: "map_of (ko_entries q) x = None" using ko_present [OF Cons.prems(1), of x] Cons.prems(3) by auto
  have o: "ko_order ?q = ko_order q @ [x]" and g: "ko_get ?q k = (if k = x then Some (f x) else ko_get q k)" for k
    using n by (auto simp: ko_insert_fresh ko_get_def map_add_def split: option.splits)
  have "set ks \<inter> set (ko_order ?q) = {}" using Cons.prems(2,3) o by auto
  then show ?case using Cons.IH [OF ko_insert_ok [OF Cons.prems(1), of x "f x"]] Cons.prems(2) by (auto simp: o g)
qed simp

lemma updates:
  "ko_ok q \<Longrightarrow> set ks \<subseteq> set (ko_order q) \<Longrightarrow>
     ko_ok (foldl (\<lambda>q k. ko_update q k (f k)) q ks) \<and> ko_order (foldl (\<lambda>q k. ko_update q k (f k)) q ks) = ko_order q \<and>
     (\<forall>k. ko_get (foldl (\<lambda>q k. ko_update q k (f k)) q ks) k = (if k \<in> set ks then Some (f k) else ko_get q k))"
proof (induction ks arbitrary: q)
  case (Cons x ks)
  let ?q = "ko_update q x (f x)"
  have p: "map_of (ko_entries q) x \<noteq> None" using ko_present [OF Cons.prems(1), of x] Cons.prems(2) by auto
  then have u: "?q = q\<lparr>ko_entries := AList.update x (f x) (ko_entries q)\<rparr>" by (simp add: ko_update_def ko_contains_def)
  have "x \<in> fst ` set (ko_entries q)" using p by (simp add: map_of_eq_None_iff)
  then have "fst ` set (AList.update x (f x) (ko_entries q)) = fst ` set (ko_entries q)"
    unfolding dom_map_of_conv_image_fst [symmetric] by (auto simp: update_conv')
  then have ok: "ko_ok ?q" using Cons.prems(1) unfolding u by (simp add: ko_ok_def distinct_update)
  have g: "ko_get ?q k = (if k = x then Some (f x) else ko_get q k)" for k by (simp add: u ko_get_def update_conv')
  have o': "ko_order ?q = ko_order q" by (simp add: u)
  show ?case using Cons.IH [OF ok] Cons.prems(2) by (simp add: g o')
qed simp

section \<open>Moves\<close>

lemma unique_split: "xs @ a # ys = xs' @ a # ys' \<Longrightarrow> distinct (xs @ a # ys) \<Longrightarrow> xs = xs' \<and> ys = ys'"
  by (subst (asm) append_Cons_eq_iff) auto

lemma anchor_of_eq: "anchor_of A k a T = (case filter (\<lambda>x. x \<in> A) (takeWhile (\<lambda>x. x \<noteq> k) T) of [] \<Rightarrow> a | x # xs \<Rightarrow> Some (last (x # xs)))"
  by (induction T arbitrary: a) (auto split: list.splits)

lemma anchor_common:
  assumes "distinct T" "filter (\<lambda>x. x \<in> A) T = pre @ k # post"
  shows "anchor_of A k None T = (if pre = [] then None else Some (last pre))"
proof -
  have "k \<in> set (filter (\<lambda>x. x \<in> A) T)" by (simp add: assms(2))
  then have k: "k \<in> A" "k \<in> set T" by simp_all
  then obtain t1 t2 where t: "T = t1 @ k # t2" "k \<notin> set t1" by (meson split_list_first)
  have "distinct (pre @ k # post)" using assms by (metis distinct_filter)
  moreover have "filter (\<lambda>x. x \<in> A) t1 @ k # filter (\<lambda>x. x \<in> A) t2 = pre @ k # post" using assms(2) t(1) k(1) by simp
  ultimately have "filter (\<lambda>x. x \<in> A) t1 = pre" using unique_split by metis
  moreover have "takeWhile (\<lambda>x. x \<noteq> k) T = t1" unfolding t(1) by (subst takeWhile_append2) (use t(2) in auto)
  ultimately show ?thesis unfolding anchor_of_eq by (auto split: list.splits)
qed

text \<open>One move: the first key of \<open>C\<close> outside \<open>D\<close> comes to its place.\<close>

lemma move_step:
  assumes ok: "ko_ok q" and o: "ko_order q = cs @ N" and C: "distinct C" "set cs = set C" "C = pre @ k # post"
    and D: "filter (\<lambda>x. x \<in> D) cs = filter (\<lambda>x. x \<in> D) C" "set pre \<subseteq> D" "k \<notin> D"
  defines "q' \<equiv> (case if pre = [] then None else Some (last pre) of
     None \<Rightarrow> fst (ko_move_to q k 0) | Some a \<Rightarrow> fst (ko_move_after q k a))"
  shows "ko_ok q' \<and> ko_entries q' = ko_entries q \<and>
    (\<exists>cs'. ko_order q' = cs' @ N \<and> set cs' = set C \<and> filter (\<lambda>x. x \<in> insert k D) cs' = filter (\<lambda>x. x \<in> insert k D) C)"
proof -
  have d: "distinct (cs @ N)" using ok o by (simp add: ko_ok_def)
  have k: "k \<in> set cs" "k \<notin> set N" "k \<notin> set pre" "k \<notin> set post" using C d by auto
  have rem: "removeAll k (ko_order q) = removeAll k cs @ N" using o k(2) by (simp add: removeAll_id)
  have fD: "filter (\<lambda>x. x \<in> D) (removeAll k xs) = filter (\<lambda>x. x \<in> D) xs" for xs
    using D(3) by (induction xs) auto
  have fk: "filter (\<lambda>x. x \<in> insert k D) xs = filter (\<lambda>x. x \<in> D) xs" if "k \<notin> set xs" for xs
    using that by (auto intro: filter_cong)
  have fC: "filter (\<lambda>x. x \<in> insert k D) C = pre @ k # filter (\<lambda>x. x \<in> D) post" "filter (\<lambda>x. x \<in> D) C = pre @ filter (\<lambda>x. x \<in> D) post"
    using C(3) D(2,3) k fk [of post] by (auto simp: filter_id_conv)
  show ?thesis
  proof (cases "pre = []")
    case True
    then have q': "q' = fst (ko_move_to q k 0)" by (simp add: q'_def)
    obtain q2 m where m: "ko_move_to q k 0 = (q2, m)" by (rule prod.exhaust)
    have "k \<in> set (ko_order q)" using k(1) o by simp
    from move_to_order [OF ok this m] have "ko_entries q2 = ko_entries q" "ko_order q2 = (k # removeAll k cs) @ N"
      using o rem by (auto simp: list_insert_def min_def max_def)
    moreover have "set (k # removeAll k cs) = set C" using C(2) k(1) by auto
    moreover have "filter (\<lambda>x. x \<in> insert k D) (k # removeAll k cs) = filter (\<lambda>x. x \<in> insert k D) C"
      using fk [of "removeAll k cs"] fD [of cs] D(1) fC True by simp
    ultimately show ?thesis using ko_move_to_ok [OF ok, of k 0] q' m by auto
  next
    case False
    let ?a = "last pre"
    have q': "q' = fst (ko_move_after q k ?a)" using False by (simp add: q'_def)
    have a: "?a \<in> set pre" using False by simp
    then have ain: "?a \<in> set (ko_order q)" "?a \<in> D" "k \<noteq> ?a" using C(2,3) o D(2) k(3) by auto
    have kin: "k \<in> set (ko_order q)" using k(1) o by simp
    obtain ys zs q2 m where m: "removeAll k (ko_order q) = ys @ ?a # zs" "ko_move_after q k ?a = (q2, m)" "ko_order q2 = ys @ ?a # k # zs"
      using move_beside_order [OF ok kin ain(1,3)] by blast
    have "?a \<in> set (removeAll k cs)" using a C(2,3) ain(3) by auto
    then obtain ys' zs' where s: "removeAll k cs = ys' @ ?a # zs'" by (meson split_list)
    have "ys' @ ?a # (zs' @ N) = ys @ ?a # zs" using m(1) rem s by simp
    moreover have "distinct (ys' @ ?a # (zs' @ N))" using d s by (metis distinct_removeAll m(1) o calculation rem append_assoc append_Cons)
    ultimately have e: "ys = ys'" "zs = zs' @ N" using unique_split by metis+
    have "k \<notin> set (removeAll k cs)" by simp
    then have nk: "k \<notin> set ys'" "k \<notin> set zs'" unfolding s by simp_all
    have "distinct (removeAll k cs)" using d by (simp add: distinct_removeAll)
    then have na: "?a \<notin> set ys'" "?a \<notin> set zs'" using s by auto
    obtain pre' where pre': "pre = pre' @ [?a]" using False by (metis append_butlast_last_id)
    have "filter (\<lambda>x. x \<in> D) ys' @ ?a # filter (\<lambda>x. x \<in> D) zs' = pre' @ ?a # filter (\<lambda>x. x \<in> D) post"
      using fD [of cs] D(1) fC(2) s ain(2) pre' by simp
    then have f: "filter (\<lambda>x. x \<in> D) ys' = pre'" "filter (\<lambda>x. x \<in> D) zs' = filter (\<lambda>x. x \<in> D) post"
      using na by (auto simp: append_Cons_eq_iff)
    have "filter (\<lambda>x. x \<in> insert k D) (ys' @ ?a # k # zs') = filter (\<lambda>x. x \<in> insert k D) C"
      using fk [OF nk(1)] fk [OF nk(2)] f ain(2,3) fC(1) pre' by simp
    moreover have "set (ys' @ ?a # k # zs') = insert k (set (removeAll k cs))" unfolding s by auto
    moreover have "\<dots> = set C" using k(1) C(2) by auto
    moreover have "ko_ok q2" "ko_entries q2 = ko_entries q" using ko_move_after_ok [OF ok, of k ?a] m(2) by auto
    ultimately show ?thesis using q' m(2,3) e by (auto intro!: exI [of _ "ys' @ ?a # k # zs'"])
  qed
qed

definition apply_move :: "('k, 'h) keyed_order \<Rightarrow> 'k \<Rightarrow> 'k option \<Rightarrow> ('k, 'h) keyed_order" where
  "apply_move q k after =
     (case after of None \<Rightarrow> fst (ko_move_to q k 0) | Some a \<Rightarrow> fst (ko_move_after q k a))"

lemma moves:
  assumes T: "distinct T" "C = filter (\<lambda>x. x \<in> A) T"
    and q: "ko_ok q" "ko_order q = cs @ N" "set cs = set C" "filter (\<lambda>x. x \<in> D) cs = filter (\<lambda>x. x \<in> D) C"
    and ms: "ms = filter (\<lambda>x. x \<notin> D) C"
  shows "ko_order (foldl (\<lambda>q k. apply_move q k (anchor_of A k None T)) q ms) = C @ N \<and>
    ko_entries (foldl (\<lambda>q k. apply_move q k (anchor_of A k None T)) q ms) = ko_entries q"
  using q ms
proof (induction ms arbitrary: q cs D)
  case Nil
  then have "set C \<subseteq> D" by (metis (mono_tags, lifting) filter_empty_conv subsetI)
  then have "filter (\<lambda>x. x \<in> D) C = C" "filter (\<lambda>x. x \<in> D) cs = cs" using Nil(3) by (auto simp: filter_id_conv)
  then show ?case using Nil by simp
next
  case (Cons k ms)
  have "filter (\<lambda>x. x \<notin> D) C = k # ms" using Cons.prems(5) by simp
  from filter_eq_ConsD [OF this] obtain pre post where C: "C = pre @ k # post" "\<forall>x\<in>set pre. x \<in> D" "k \<notin> D"
    "ms = filter (\<lambda>x. x \<notin> D) post" by auto
  have d: "distinct C" using T by simp
  have a: "anchor_of A k None T = (if pre = [] then None else Some (last pre))"
    using anchor_common [OF T(1), of A pre k post] T(2) C(1) by simp
  let ?q = "apply_move q k (anchor_of A k None T)"
  have "set pre \<subseteq> D" using C(2) by auto
  from move_step [OF Cons.prems(1,2) d Cons.prems(3) C(1) Cons.prems(4) this C(3)]
  obtain cs' where s: "ko_ok ?q" "ko_entries ?q = ko_entries q" "ko_order ?q = cs' @ N" "set cs' = set C"
    "filter (\<lambda>x. x \<in> insert k D) cs' = filter (\<lambda>x. x \<in> insert k D) C"
    unfolding apply_move_def a by blast
  have "ms = filter (\<lambda>x. x \<notin> insert k D) C" using C d by (auto intro: filter_cong simp: filter_empty_conv)
  from Cons.IH [OF s(1,3,4,5) this] show ?case using s(2) by simp
qed

section \<open>Reconciling\<close>

lemma apply_op_simps:
  "apply_op q \<lparr>op_kind = Op_remove, op_key = k, op_value = v, op_after = a\<rparr> = fst (ko_remove q k)"
  "apply_op q \<lparr>op_kind = Op_insert, op_key = k, op_value = v, op_after = a\<rparr> = fst (ko_insert q k v)"
  "apply_op q \<lparr>op_kind = Op_update, op_key = k, op_value = v, op_after = a\<rparr> = ko_update q k v"
  "apply_op q \<lparr>op_kind = Op_move, op_key = k, op_value = v, op_after = a\<rparr> = apply_move q k a"
  by (simp_all add: apply_op_def apply_move_def split: option.splits)

lemma subseq_members: "subseq xs ys \<Longrightarrow> set xs \<subseteq> set ys"
  by (auto elim: list_emb_set)

lemma distinct_subseq: "subseq xs ys \<Longrightarrow> distinct ys \<Longrightarrow> distinct xs"
  by (induction rule: list_emb.induct) (use subseq_members in fastforce)+

lemma subseq_filter_distinct: "subseq xs ys \<Longrightarrow> distinct ys \<Longrightarrow> filter (\<lambda>x. x \<in> set xs) ys = xs"
proof (induction rule: list_emb.induct)
  case (list_emb_Cons xs ys y)
  then have "y \<notin> set xs" using subseq_members by fastforce
  then show ?case using list_emb_Cons by simp
next
  case (list_emb_Cons2 x y xs ys)
  then have "filter (\<lambda>z. z = y \<or> z \<in> set xs) ys = filter (\<lambda>z. z \<in> set xs) ys" by (intro filter_cong) auto
  then show ?case using list_emb_Cons2 by simp
qed simp

lemma stable_in_order:
  assumes "distinct P" "distinct T" "stable_keys P T = Some S"
  shows "filter (\<lambda>x. x \<in> set S) P = filter (\<lambda>x. x \<in> set S) T" and "distinct S" and "set S \<subseteq> set P \<inter> set T"
proof -
  let ?f = "the \<circ> prior_index P"
  have S: "subseq S (common_keys P T)" "rising (map ?f S)" using stable_keys_spec [OF assms(1), of T] assms(3) by auto
  have sub: "subseq S T" using S(1) common_keys_props(3) [of P T] by (rule subseq_order.trans)
  show d: "distinct S" using assms(2) by (rule distinct_subseq [OF sub])
  show "set S \<subseteq> set P \<inter> set T" using S(1) common_keys_props(1) [of P T] by (auto elim: list_emb_set)
  then have "set (filter (\<lambda>x. x \<in> set S) P) = set S" by auto
  then have eq: "set (map ?f (filter (\<lambda>x. x \<in> set S) P)) = set (map ?f S)" by (simp only: set_map)
  have "rising (map ?f (filter (\<lambda>x. x \<in> set S) P))"
    using prior_index_rising [OF assms(1)] unfolding sorted_wrt_map by (rule sorted_wrt_filter)
  from strict_sorted_equal [OF S(2) this eq] have "map ?f (filter (\<lambda>x. x \<in> set S) P) = map ?f S" .
  moreover have "inj_on ?f (set (filter (\<lambda>x. x \<in> set S) P) \<union> set S)"
  proof (rule inj_on_subset)
    show "inj_on ?f (set P)" using assms(1) by (auto simp: inj_on_def in_set_conv_nth prior_index_nth)
  qed (use \<open>set S \<subseteq> set P \<inter> set T\<close> in auto)
  ultimately have "filter (\<lambda>x. x \<in> set S) P = S" by (rule map_inj_on)
  moreover have "filter (\<lambda>x. x \<in> set S) T = S" by (rule subseq_filter_distinct [OF sub assms(2)])
  ultimately show "filter (\<lambda>x. x \<in> set S) P = filter (\<lambda>x. x \<in> set S) T" by simp
qed

lemma reconcile_run:
  fixes prior target :: "('k, 'v) level"
  defines "P \<equiv> lv_order prior" and "T \<equiv> lv_order target"
  assumes d: "distinct P" "distinct T"
  shows "\<exists>ops S. stable_keys P T = Some S \<and> reconcile_ops prior target = Some ops \<and>
    ko_order (foldl apply_op (keyed_of prior) ops) = common_keys P T @ filter (\<lambda>k. k \<notin> set P) T \<and>
    (\<forall>k. ko_get (foldl apply_op (keyed_of prior) ops) k = (if k \<in> set T then Some (lv_values target k) else None)) \<and>
    map op_key (filter (\<lambda>op. op_kind op = Op_move) ops) = filter (\<lambda>k. k \<notin> set S) (common_keys P T)"
proof -
  let ?C = "common_keys P T"
  obtain S where S: "stable_keys P T = Some S" "subseq S ?C" using stable_keys_spec [OF d(1), of T] by blast
  let ?R = "filter (\<lambda>k. k \<notin> set T) P" and ?N = "filter (\<lambda>k. k \<notin> set P) T" and ?M = "filter (\<lambda>k. k \<notin> set S) ?C"
    and ?U = "filter (\<lambda>k. lv_values prior k \<noteq> lv_values target k) ?C" and ?A = "set S \<union> set (filter (\<lambda>k. k \<notin> set S) ?C)"
  obtain ops where ops: "reconcile_ops prior target = Some ops" and
    run: "foldl apply_op (keyed_of prior) ops =
      foldl (\<lambda>q k. apply_move q k (anchor_of ?A k None T))
        (foldl (\<lambda>q k. ko_update q k (lv_values target k))
          (foldl (\<lambda>q k. fst (ko_insert q k (lv_values target k)))
            (foldl (\<lambda>q k. fst (ko_remove q k)) (keyed_of prior) ?R) ?N) ?U) ?M" and
    mv: "map op_key (filter (\<lambda>op. op_kind op = Op_move) ops) = ?M"
    using S(1) by (simp add: reconcile_ops_def P_def T_def Let_def foldl_map apply_op_simps filter_map comp_def)
  define q1 where "q1 = foldl (\<lambda>q k. fst (ko_remove q k)) (keyed_of prior) ?R"
  define q2 where "q2 = foldl (\<lambda>q k. fst (ko_insert q k (lv_values target k))) q1 ?N"
  define q3 where "q3 = foldl (\<lambda>q k. ko_update q k (lv_values target k)) q2 ?U"
  have o0: "ko_order (keyed_of prior) = P" by (simp add: keyed_of_def P_def)
  have q1: "ko_ok q1" "ko_order q1 = filter (\<lambda>k. k \<in> set T) P" "\<And>k. ko_get q1 k = (if k \<in> set ?R then None else ko_get (keyed_of prior) k)"
  proof -
    have "ko_ok (keyed_of prior)" using d(1) unfolding P_def by (rule keyed_of_ok)
    note r = removals [OF this, of ?R, folded q1_def, unfolded o0]
    have "filter (\<lambda>k. k \<notin> set ?R) P = filter (\<lambda>k. k \<in> set T) P" by (rule filter_cong) auto
    then show "ko_ok q1" "ko_order q1 = filter (\<lambda>k. k \<in> set T) P"
      "\<And>k. ko_get q1 k = (if k \<in> set ?R then None else ko_get (keyed_of prior) k)"
      using r by simp_all
  qed
  have q2: "ko_ok q2" "ko_order q2 = ko_order q1 @ ?N" "\<And>k. ko_get q2 k = (if k \<in> set ?N then Some (lv_values target k) else ko_get q1 k)"
  proof -
    have "distinct ?N" "set ?N \<inter> set (ko_order q1) = {}" using d(2) q1(2) by auto
    from insertions [OF q1(1) this, of "lv_values target"]
    show "ko_ok q2" "ko_order q2 = ko_order q1 @ ?N"
      "\<And>k. ko_get q2 k = (if k \<in> set ?N then Some (lv_values target k) else ko_get q1 k)"
      unfolding q2_def by blast+
  qed
  have q3: "ko_ok q3" "ko_order q3 = ko_order q2" "\<And>k. ko_get q3 k = (if k \<in> set ?U then Some (lv_values target k) else ko_get q2 k)"
  proof -
    have "set ?U \<subseteq> set (ko_order q2)" using q2(2) q1(2) by (auto simp: common_keys_def)
    from updates [OF q2(1) this, of "lv_values target"]
    show "ko_ok q3" "ko_order q3 = ko_order q2"
      "\<And>k. ko_get q3 k = (if k \<in> set ?U then Some (lv_values target k) else ko_get q2 k)"
      unfolding q3_def by blast+
  qed
  have SP: "set S \<subseteq> set P \<inter> set T" "filter (\<lambda>x. x \<in> set S) P = filter (\<lambda>x. x \<in> set S) T"
    using stable_in_order [OF d S(1)] by blast+
  have C: "?C = filter (\<lambda>x. x \<in> ?A) T" using SP(1) by (auto simp: common_keys_def intro!: filter_cong)
  have "filter (\<lambda>x. x \<in> set S) (filter (\<lambda>k. k \<in> set T) P) = filter (\<lambda>x. x \<in> set S) P"
    "filter (\<lambda>x. x \<in> set S) ?C = filter (\<lambda>x. x \<in> set S) T"
    unfolding common_keys_def filter_filter by (rule filter_cong [OF refl], use SP(1) in auto)+
  then have "filter (\<lambda>x. x \<in> set S) (filter (\<lambda>k. k \<in> set T) P) = filter (\<lambda>x. x \<in> set S) ?C" using SP(2) by simp
  moreover have "set (filter (\<lambda>k. k \<in> set T) P) = set ?C" by (auto simp: common_keys_def)
  moreover have "ko_order q3 = filter (\<lambda>k. k \<in> set T) P @ ?N" using q1(2) q2(2) q3(2) by simp
  ultimately have m: "ko_order (foldl (\<lambda>q k. apply_move q k (anchor_of ?A k None T)) q3 ?M) = ?C @ ?N"
    "ko_entries (foldl (\<lambda>q k. apply_move q k (anchor_of ?A k None T)) q3 ?M) = ko_entries q3"
    using moves [OF d(2) C q3(1), of "filter (\<lambda>k. k \<in> set T) P" ?N "set S" ?M] by blast+
  have "ko_get q3 k = (if k \<in> set T then Some (lv_values target k) else None)" for k
    using q1(3) q2(3) q3(3) by (auto simp: keyed_of_get common_keys_def P_def [symmetric])
  then show ?thesis using S(1) ops run mv m unfolding q1_def [symmetric] q2_def [symmetric] q3_def [symmetric]
    by (auto simp: ko_get_def)
qed

end
