(* ===== verification/Collections.thy ===== *)
theory Collections
  imports Cells KeyedOrder
begin

text \<open>
  The keyed map of input cells, \<^verbatim>\<open>ReactiveMap\<close> and \<^verbatim>\<open>SourceMap\<close> of \<^verbatim>\<open>src/lazily/collection.py\<close>. A
  handle is the address of its cell in a list of cells that only grows, so that a move can be seen
  to keep it. The two signals are cells over their untracked version mirrors. What a read
  subscribes is the kernel's; here a cell counts the notifications it sends. \<^verbatim>\<open>ComputedMap\<close>, whose
  entries are slots of the kernel, is not modelled.
\<close>

record ('k, 'v) reactive_map =
  rm_keyed :: "('k, nat) keyed_order"
  rm_cells :: "'v cell list"
  rm_membership :: "int cell"
  rm_order_signal :: "int cell"
  rm_version :: int
  rm_order_version :: int

definition rm_new :: "('k, 'v) reactive_map" where
  "rm_new = \<lparr>rm_keyed = ko_new, rm_cells = [], rm_membership = cell_new 0, rm_order_signal = cell_new 0,
     rm_version = 0, rm_order_version = 0\<rparr>"

definition bump_order :: "('k, 'v) reactive_map \<Rightarrow> ('k, 'v) reactive_map" where
  "bump_order m =
     (let n = rm_order_version m + 1
      in m\<lparr>rm_order_version := n, rm_order_signal := cell_set (rm_order_signal m) n\<rparr>)"

definition bump_membership :: "('k, 'v) reactive_map \<Rightarrow> ('k, 'v) reactive_map" where
  "bump_membership m =
     (let n = rm_version m + 1
      in bump_order (m\<lparr>rm_version := n, rm_membership := cell_set (rm_membership m) n\<rparr>))"

text \<open>\<^verbatim>\<open>_mint_with\<close> over an input cell: the cell is seeded once with the computed value.\<close>

definition mint_with :: "('k, 'v) reactive_map \<Rightarrow> 'k \<Rightarrow> 'v \<Rightarrow> ('k, 'v) reactive_map \<times> nat" where
  "mint_with m k v =
     (case ko_get (rm_keyed m) k of
        Some warm \<Rightarrow> (m, warm)
      | None \<Rightarrow>
          let h = length (rm_cells m);
              (q, stored, mutation) = ko_insert (rm_keyed m) k h;
              m1 = m\<lparr>rm_keyed := q, rm_cells := rm_cells m @ [cell_new v]\<rparr>
          in (if mutation_changed mutation then bump_membership m1 else m1, stored))"

definition rm_observe :: "('k, 'v) reactive_map \<Rightarrow> nat \<Rightarrow> cell_error + 'v" where
  "rm_observe m h = cell_get (rm_cells m ! h)"

definition rm_get_or_insert_with :: "('k, 'v) reactive_map \<Rightarrow> 'k \<Rightarrow> ('k \<Rightarrow> 'v) \<Rightarrow> ('k, 'v) reactive_map \<times> (cell_error + 'v)" where
  "rm_get_or_insert_with m k factory =
     (case ko_get (rm_keyed m) k of
        Some h \<Rightarrow> (m, rm_observe m h)
      | None \<Rightarrow> let (m', h) = mint_with m k (factory k) in (m', rm_observe m' h))"

definition rm_handle :: "('k, 'v) reactive_map \<Rightarrow> 'k \<Rightarrow> nat option" where
  "rm_handle m k = ko_get (rm_keyed m) k"

definition rm_get :: "('k, 'v) reactive_map \<Rightarrow> 'k \<Rightarrow> cell_error + 'v option" where
  "rm_get m k = (case ko_get (rm_keyed m) k of None \<Rightarrow> Inr None | Some h \<Rightarrow> map_sum id Some (rm_observe m h))"

definition rm_remove :: "('k, 'v) reactive_map \<Rightarrow> 'k \<Rightarrow> ('k, 'v) reactive_map \<times> bool" where
  "rm_remove m k =
     (let (q, handle, mutation) = ko_remove (rm_keyed m) k
      in case handle of
           None \<Rightarrow> (m\<lparr>rm_keyed := q\<rparr>, False)
         | Some h \<Rightarrow>
             if mutation_changed mutation
             then (bump_membership (m\<lparr>rm_keyed := q, rm_cells := (rm_cells m)[h := cell_dispose (rm_cells m ! h)]\<rparr>), True)
             else (m\<lparr>rm_keyed := q\<rparr>, False))"

definition rm_apply_move :: "('k, 'v) reactive_map \<Rightarrow> ('k, nat) keyed_order \<times> map_move \<Rightarrow> ('k, 'v) reactive_map \<times> bool" where
  "rm_apply_move m outcome =
     (let (q, mv) = outcome; m1 = m\<lparr>rm_keyed := q\<rparr>
      in if \<not> move_applied mv then (m1, False)
         else (if move_changed mv then bump_order m1 else m1, True))"

definition rm_move_to :: "('k, 'v) reactive_map \<Rightarrow> 'k \<Rightarrow> int \<Rightarrow> ('k, 'v) reactive_map \<times> bool" where
  "rm_move_to m k index = rm_apply_move m (ko_move_to (rm_keyed m) k index)"

definition rm_move_before :: "('k, 'v) reactive_map \<Rightarrow> 'k \<Rightarrow> 'k \<Rightarrow> ('k, 'v) reactive_map \<times> bool" where
  "rm_move_before m k anchor = rm_apply_move m (ko_move_before (rm_keyed m) k anchor)"

definition rm_move_after :: "('k, 'v) reactive_map \<Rightarrow> 'k \<Rightarrow> 'k \<Rightarrow> ('k, 'v) reactive_map \<times> bool" where
  "rm_move_after m k anchor = rm_apply_move m (ko_move_after (rm_keyed m) k anchor)"

definition rm_keys :: "('k, 'v) reactive_map \<Rightarrow> 'k list" where
  "rm_keys m = ko_keys (rm_keyed m)"

definition rm_len :: "('k, 'v) reactive_map \<Rightarrow> nat" where
  "rm_len m = ko_length (rm_keyed m)"

definition rm_is_empty :: "('k, 'v) reactive_map \<Rightarrow> bool" where
  "rm_is_empty m \<longleftrightarrow> rm_len m = 0"

definition rm_contains :: "('k, 'v) reactive_map \<Rightarrow> 'k \<Rightarrow> bool" where
  "rm_contains m k \<longleftrightarrow> ko_contains (rm_keyed m) k"

definition rm_position :: "('k, 'v) reactive_map \<Rightarrow> 'k \<Rightarrow> nat option" where
  "rm_position m k = ko_position (rm_keyed m) k"

section \<open>Source maps\<close>

definition sm_entry_with :: "('k, 'v) reactive_map \<Rightarrow> 'k \<Rightarrow> 'v \<Rightarrow> ('k, 'v) reactive_map \<times> nat" where
  "sm_entry_with m k dflt =
     (case ko_get (rm_keyed m) k of Some h \<Rightarrow> (m, h) | None \<Rightarrow> mint_with m k dflt)"

definition sm_set :: "('k, 'v) reactive_map \<Rightarrow> 'k \<Rightarrow> 'v \<Rightarrow> ('k, 'v) reactive_map" where
  "sm_set m k v =
     (case ko_get (rm_keyed m) k of
        Some h \<Rightarrow> m\<lparr>rm_cells := (rm_cells m)[h := cell_set (rm_cells m ! h) v]\<rparr>
      | None \<Rightarrow> fst (sm_entry_with m k v))"

section \<open>Dependency maps\<close>

record 'v availability =
  av_available :: bool
  av_value :: "'v option"

definition av_unavailable :: "'v availability" where
  "av_unavailable = \<lparr>av_available = False, av_value = None\<rparr>"

definition av_available_value :: "'v \<Rightarrow> 'v availability" where
  "av_available_value v = \<lparr>av_available = True, av_value = Some v\<rparr>"

definition dm_observe_dependency ::
    "('k, 'v availability) reactive_map \<Rightarrow> 'k \<Rightarrow> ('k, 'v availability) reactive_map \<times> (cell_error + 'v availability)" where
  "dm_observe_dependency m k = (let (m', h) = sm_entry_with m k av_unavailable in (m', rm_observe m' h))"

definition dm_publish :: "('k, 'v availability) reactive_map \<Rightarrow> 'k \<Rightarrow> 'v \<Rightarrow> ('k, 'v availability) reactive_map" where
  "dm_publish m k v = sm_set m k (av_available_value v)"

definition dm_unpublish :: "('k, 'v availability) reactive_map \<Rightarrow> 'k \<Rightarrow> ('k, 'v availability) reactive_map" where
  "dm_unpublish m k = sm_set m k av_unavailable"

section \<open>Ordered keyed trees\<close>

text \<open>
  \<^verbatim>\<open>src/lazily/tree.py\<close>: each node has a value cell and a list of children with its own signals.
  \<^verbatim>\<open>insert\<close> with a negative index counts from the end, as Python's does.
\<close>

record ('n, 'v) tree_node =
  tn_value_cell :: "'v cell"
  tn_children :: "'n list"
  tn_membership :: "int cell"
  tn_order :: "int cell"

definition tree_node_new :: "'v \<Rightarrow> ('n, 'v) tree_node" where
  "tree_node_new v = \<lparr>tn_value_cell = cell_new v, tn_children = [], tn_membership = cell_new 0, tn_order = cell_new 0\<rparr>"

type_synonym ('n, 'v) source_tree = "'n \<Rightarrow> ('n, 'v) tree_node option"

definition tree_value_of :: "('n, 'v) source_tree \<Rightarrow> 'n \<Rightarrow> 'v option" where
  "tree_value_of t n = map_option (\<lambda>x. c_value (tn_value_cell x)) (t n)"

definition tree_children_of :: "('n, 'v) source_tree \<Rightarrow> 'n \<Rightarrow> 'n list" where
  "tree_children_of t n = (case t n of None \<Rightarrow> [] | Some x \<Rightarrow> tn_children x)"

definition tree_contains_child :: "('n, 'v) source_tree \<Rightarrow> 'n \<Rightarrow> 'n \<Rightarrow> bool" where
  "tree_contains_child t parent child = (case t parent of None \<Rightarrow> False | Some x \<Rightarrow> child \<in> set (tn_children x))"

definition tree_add :: "('n, 'v) source_tree \<Rightarrow> 'n \<Rightarrow> 'v \<Rightarrow> ('n, 'v) source_tree" where
  "tree_add t n v = (if t n = None then t(n \<mapsto> tree_node_new v) else t)"

definition tree_set_value :: "('n, 'v) source_tree \<Rightarrow> 'n \<Rightarrow> 'v \<Rightarrow> ('n, 'v) source_tree" where
  "tree_set_value t n v = (case t n of None \<Rightarrow> t
     | Some x \<Rightarrow> t(n \<mapsto> x\<lparr>tn_value_cell := cell_set (tn_value_cell x) v\<rparr>))"

definition cell_bump :: "int cell \<Rightarrow> int cell" where
  "cell_bump c = cell_set c (c_value c + 1)"

definition tree_insert_child :: "('n, 'v) source_tree \<Rightarrow> 'n \<Rightarrow> 'n \<Rightarrow> 'v \<Rightarrow> ('n, 'v) source_tree" where
  "tree_insert_child t parent child v =
     (case t parent of
        None \<Rightarrow> t
      | Some _ \<Rightarrow>
          let t1 = tree_add t child v; p = the (t1 parent)
          in if child \<in> set (tn_children p) then t1
             else t1(parent \<mapsto> p\<lparr>tn_children := tn_children p @ [child],
                    tn_membership := cell_bump (tn_membership p), tn_order := cell_bump (tn_order p)\<rparr>))"

definition python_insert :: "int \<Rightarrow> 'a \<Rightarrow> 'a list \<Rightarrow> 'a list" where
  "python_insert i x xs =
     (let j = (if i < 0 then max 0 (int (length xs) + i) else min i (int (length xs))) in list_insert (nat j) x xs)"

definition tree_move_child :: "('n, 'v) source_tree \<Rightarrow> 'n \<Rightarrow> 'n \<Rightarrow> int \<Rightarrow> ('n, 'v) source_tree" where
  "tree_move_child t parent child index =
     (case t parent of
        None \<Rightarrow> t
      | Some p \<Rightarrow>
          if child \<notin> set (tn_children p) then t
          else let cs = filter (\<lambda>c. c \<noteq> child) (tn_children p)
               in t(parent \<mapsto> p\<lparr>tn_children := python_insert (min index (int (length cs))) child cs,
                    tn_order := cell_bump (tn_order p)\<rparr>))"

chapter \<open>Properties\<close>

text \<open>
  The keyed map refines a list of items in key order, and its cells notify exactly the readers
  whose view changed.
\<close>

section \<open>Operations as data\<close>

datatype ('k, 'v) map_op =
    Map_entry 'k 'v
  | Map_set 'k 'v
  | Map_remove 'k
  | Map_move_to 'k int
  | Map_move_before 'k 'k
  | Map_move_after 'k 'k

primrec map_step :: "('k, 'v) map_op \<Rightarrow> ('k, 'v) reactive_map \<Rightarrow> ('k, 'v) reactive_map" where
  "map_step (Map_entry k v) m = fst (sm_entry_with m k v)"
| "map_step (Map_set k v) m = sm_set m k v"
| "map_step (Map_remove k) m = fst (rm_remove m k)"
| "map_step (Map_move_to k i) m = fst (rm_move_to m k i)"
| "map_step (Map_move_before k a) m = fst (rm_move_before m k a)"
| "map_step (Map_move_after k a) m = fst (rm_move_after m k a)"

text \<open>The abstract map: its items in key order.\<close>

definition rm_value :: "('k, 'v) reactive_map \<Rightarrow> 'k \<Rightarrow> 'v" where
  "rm_value m k = c_value (rm_cells m ! the (rm_handle m k))"

definition rm_items :: "('k, 'v) reactive_map \<Rightarrow> ('k \<times> 'v) list" where
  "rm_items m = map (\<lambda>k. (k, rm_value m k)) (rm_keys m)"

definition put_before :: "'k \<Rightarrow> 'k \<Rightarrow> 'k list \<Rightarrow> 'k list" where
  "put_before k a xs = (if k = a \<or> k \<notin> set xs \<or> a \<notin> set xs then xs
     else takeWhile (\<lambda>x. x \<noteq> a) (removeAll k xs) @ k # dropWhile (\<lambda>x. x \<noteq> a) (removeAll k xs))"

definition put_after :: "'k \<Rightarrow> 'k \<Rightarrow> 'k list \<Rightarrow> 'k list" where
  "put_after k a xs = (if k = a \<or> k \<notin> set xs \<or> a \<notin> set xs then xs
     else takeWhile (\<lambda>x. x \<noteq> a) (removeAll k xs) @ a # k # tl (dropWhile (\<lambda>x. x \<noteq> a) (removeAll k xs)))"

definition put_at :: "'k \<Rightarrow> int \<Rightarrow> 'k list \<Rightarrow> 'k list" where
  "put_at k i xs = (if k \<notin> set xs then xs
     else list_insert (nat (max 0 (min i (int (length xs) - 1)))) k (removeAll k xs))"

definition reorder :: "'k list \<Rightarrow> ('k \<times> 'v) list \<Rightarrow> ('k \<times> 'v) list" where
  "reorder ks xs = map (\<lambda>k. (k, the (map_of xs k))) ks"

primrec items_step :: "('k, 'v) map_op \<Rightarrow> ('k \<times> 'v) list \<Rightarrow> ('k \<times> 'v) list" where
  "items_step (Map_entry k v) xs = (if k \<in> fst ` set xs then xs else xs @ [(k, v)])"
| "items_step (Map_set k v) xs = AList.update k v xs"
| "items_step (Map_remove k) xs = AList.delete k xs"
| "items_step (Map_move_to k i) xs = reorder (put_at k i (map fst xs)) xs"
| "items_step (Map_move_before k a) xs = reorder (put_before k a (map fst xs)) xs"
| "items_step (Map_move_after k a) xs = reorder (put_after k a (map fst xs)) xs"

section \<open>The invariant\<close>

definition rm_ok :: "('k, 'v) reactive_map \<Rightarrow> bool" where
  "rm_ok m \<longleftrightarrow> ko_ok (rm_keyed m) \<and> distinct (map snd (ko_entries (rm_keyed m))) \<and>
     (\<forall>(k, h)\<in>set (ko_entries (rm_keyed m)). h < length (rm_cells m) \<and> live (rm_cells m ! h)) \<and>
     live (rm_membership m) \<and> c_value (rm_membership m) = rm_version m \<and>
     live (rm_order_signal m) \<and> c_value (rm_order_signal m) = rm_order_version m"

lemma rm_handle_mem: "rm_ok m \<Longrightarrow> rm_handle m k = Some h \<longleftrightarrow> (k, h) \<in> set (ko_entries (rm_keyed m))"
  by (simp add: rm_ok_def ko_ok_def rm_handle_def ko_get_def)

lemma rm_handle_facts:
  assumes "rm_ok m" "rm_handle m k = Some h"
  shows "h < length (rm_cells m)" "live (rm_cells m ! h)"
  using assms rm_handle_mem [OF assms(1), of k h] by (auto simp: rm_ok_def)

lemma rm_handle_inj: "rm_ok m \<Longrightarrow> rm_handle m k = Some h \<Longrightarrow> rm_handle m k' = Some h \<Longrightarrow> k = k'"
  unfolding rm_handle_mem by (rule inj_onD [THEN prod.inject [THEN iffD1], THEN conjunct1, of snd "set (ko_entries (rm_keyed m))"])
    (auto simp: rm_ok_def distinct_map)

lemma rm_handle_keys: "rm_ok m \<Longrightarrow> rm_handle m k \<noteq> None \<longleftrightarrow> k \<in> set (rm_keys m)"
  using ko_present [of "rm_keyed m" k] by (simp add: rm_ok_def rm_handle_def ko_get_def rm_keys_def ko_keys_def)

lemma rm_new_ok: "rm_ok rm_new"
  by (simp add: rm_ok_def rm_new_def ko_new_ok) (simp add: ko_new_def)

lemma items_keys [simp]: "map fst (rm_items m) = rm_keys m"
  by (simp add: rm_items_def comp_def)

lemma items_lookup: "map_of (rm_items m) k = (if k \<in> set (rm_keys m) then Some (rm_value m k) else None)"
  by (simp add: rm_items_def map_of_map_restrict restrict_map_def comp_def)

text \<open>What a step does to its readers.\<close>

definition bumps :: "bool \<Rightarrow> nat" where
  "bumps b = (if b then 1 else 0)"

definition notifies :: "('k, 'v) reactive_map \<Rightarrow> ('k, 'v) reactive_map \<Rightarrow> bool" where
  "notifies m m' \<longleftrightarrow>
     c_notified (rm_membership m') = c_notified (rm_membership m) + bumps (set (rm_keys m') \<noteq> set (rm_keys m)) \<and>
     c_notified (rm_order_signal m') = c_notified (rm_order_signal m) + bumps (rm_keys m' \<noteq> rm_keys m) \<and>
     (\<forall>k h. rm_handle m k = Some h \<and> k \<in> set (rm_keys m') \<longrightarrow> rm_handle m' k = Some h \<and>
        c_notified (rm_cells m' ! h) = c_notified (rm_cells m ! h) + bumps (rm_value m' k \<noteq> rm_value m k))"

lemma notifiesI:
  assumes "c_notified (rm_membership m') = c_notified (rm_membership m) + bumps (set (rm_keys m') \<noteq> set (rm_keys m))"
    and "c_notified (rm_order_signal m') = c_notified (rm_order_signal m) + bumps (rm_keys m' \<noteq> rm_keys m)"
    and "\<And>k h. rm_handle m k = Some h \<Longrightarrow> k \<in> set (rm_keys m') \<Longrightarrow> rm_handle m' k = Some h"
    and "\<And>k h. rm_handle m k = Some h \<Longrightarrow> k \<in> set (rm_keys m') \<Longrightarrow>
      c_notified (rm_cells m' ! h) = c_notified (rm_cells m ! h) + bumps (rm_value m' k \<noteq> rm_value m k)"
  shows "notifies m m'"
  unfolding notifies_def using assms by blast

lemma bumps_simps [simp]: "bumps True = 1" "bumps False = 0"
  by (simp_all add: bumps_def)

section \<open>The steps\<close>

lemma bump_order_simps [simp]:
  "rm_keyed (bump_order m) = rm_keyed m" "rm_cells (bump_order m) = rm_cells m"
  "rm_membership (bump_order m) = rm_membership m" "rm_version (bump_order m) = rm_version m"
  "rm_order_version (bump_order m) = rm_order_version m + 1"
  "rm_order_signal (bump_order m) = cell_set (rm_order_signal m) (rm_order_version m + 1)"
  by (simp_all add: bump_order_def Let_def)

lemma bump_membership_simps [simp]:
  "rm_keyed (bump_membership m) = rm_keyed m" "rm_cells (bump_membership m) = rm_cells m"
  "rm_membership (bump_membership m) = cell_set (rm_membership m) (rm_version m + 1)"
  "rm_version (bump_membership m) = rm_version m + 1"
  "rm_order_version (bump_membership m) = rm_order_version m + 1"
  "rm_order_signal (bump_membership m) = cell_set (rm_order_signal m) (rm_order_version m + 1)"
  by (simp_all add: bump_membership_def Let_def)

lemma mint_spec:
  assumes ok: "rm_ok m" and new: "rm_handle m k = None"
  shows "rm_ok (fst (mint_with m k v)) \<and> rm_items (fst (mint_with m k v)) = rm_items m @ [(k, v)] \<and> notifies m (fst (mint_with m k v))"
proof -
  let ?h = "length (rm_cells m)" and ?q = "rm_keyed m"
  have none: "map_of (ko_entries ?q) k = None" using new by (simp add: rm_handle_def ko_get_def)
  have m': "mint_with m k v = (bump_membership (m\<lparr>rm_keyed := ?q\<lparr>ko_entries := ko_entries ?q @ [(k, ?h)], ko_order := ko_order ?q @ [k]\<rparr>,
      rm_cells := rm_cells m @ [cell_new v]\<rparr>), ?h)"
    using none by (simp add: mint_with_def ko_get_def ko_insert_fresh mutation_changed_def Let_def)
  let ?m = "fst (mint_with m k v)"
  have keys: "rm_keys ?m = rm_keys m @ [k]" "k \<notin> set (rm_keys m)"
    using rm_handle_keys [OF ok, of k] new by (auto simp: m' rm_keys_def ko_keys_def)
  have h: "rm_handle ?m x = (if x = k then Some ?h else rm_handle m x)" for x
    using none by (auto simp: m' rm_handle_def ko_get_def map_add_def split: option.splits)
  have cells: "rm_cells ?m = rm_cells m @ [cell_new v]" by (simp add: m')
  have val: "rm_value ?m x = (if x = k then v else rm_value m x)" if x: "x \<in> set (rm_keys m) \<or> x = k" for x
  proof (cases "x = k")
    case False
    then obtain i where "rm_handle m x = Some i" using x rm_handle_keys [OF ok, of x] by auto
    then show ?thesis using False rm_handle_facts [OF ok, of x i] by (simp add: rm_value_def h cells nth_append)
  qed (simp add: rm_value_def h cells)
  have lt: "\<forall>(x, i)\<in>set (ko_entries ?q). i < ?h" using ok by (auto simp: rm_ok_def)
  have "rm_ok ?m"
  proof -
    have "ko_ok (rm_keyed ?m)" using ko_insert_ok [of ?q k ?h] ok none by (simp add: m' rm_ok_def ko_insert_fresh)
    then show ?thesis using ok lt by (auto simp: rm_ok_def m' nth_append)
  qed
  moreover have "rm_items ?m = rm_items m @ [(k, v)]" using keys val by (simp add: rm_items_def)
  moreover have "notifies m ?m"
  proof -
    have "c_notified (rm_cells ?m ! i) = c_notified (rm_cells m ! i) \<and> rm_handle ?m x = Some i \<and> rm_value ?m x = rm_value m x"
      if "rm_handle m x = Some i" for x i
    proof -
      have "x \<noteq> k" "x \<in> set (rm_keys m)" using that new rm_handle_keys [OF ok, of x] by auto
      then show ?thesis using that rm_handle_facts [OF ok that] val [of x] by (simp add: h cells nth_append)
    qed
    then show ?thesis using ok keys by (auto simp: notifies_def bumps_def m' cell_set_notified rm_ok_def)
  qed
  ultimately show ?thesis by blast
qed

lemma entry_spec:
  assumes ok: "rm_ok m"
  shows "rm_ok (fst (sm_entry_with m k v)) \<and> rm_items (fst (sm_entry_with m k v)) = items_step (Map_entry k v) (rm_items m) \<and>
    notifies m (fst (sm_entry_with m k v))"
proof (cases "rm_handle m k")
  case None
  then have "k \<notin> fst ` set (rm_items m)" using rm_handle_keys [OF ok, of k] by (auto simp: rm_items_def)
  then show ?thesis using mint_spec [OF ok None, of v] None by (simp add: sm_entry_with_def rm_handle_def)
next
  case (Some h)
  then have "k \<in> set (map fst (rm_items m))" using rm_handle_keys [OF ok, of k] unfolding items_keys by simp
  then have "k \<in> fst ` set (rm_items m)" by (simp only: set_map)
  then show ?thesis using Some ok by (simp add: sm_entry_with_def rm_handle_def notifies_def bumps_def)
qed

lemma update_items: "k \<in> set ks \<Longrightarrow> distinct ks \<Longrightarrow>
    AList.update k v (map (\<lambda>x. (x, f x)) ks) = map (\<lambda>x. (x, if x = k then v else f x)) ks"
  by (induction ks) auto

lemma set_spec:
  assumes ok: "rm_ok m"
  shows "rm_ok (sm_set m k v) \<and> rm_items (sm_set m k v) = items_step (Map_set k v) (rm_items m) \<and> notifies m (sm_set m k v)"
proof (cases "rm_handle m k")
  case None
  then have "k \<notin> fst ` set (rm_items m)" using rm_handle_keys [OF ok, of k] by (auto simp: rm_items_def)
  then have "items_step (Map_set k v) (rm_items m) = rm_items m @ [(k, v)]" by (simp add: update_fresh)
  moreover have "sm_set m k v = fst (mint_with m k v)" using None by (simp add: sm_set_def sm_entry_with_def rm_handle_def)
  ultimately show ?thesis using mint_spec [OF ok None, of v] by simp
next
  case (Some h)
  let ?m = "sm_set m k v" and ?c = "rm_cells m ! h"
  have m': "?m = m\<lparr>rm_cells := (rm_cells m)[h := cell_set ?c v]\<rparr>" using Some by (simp add: sm_set_def rm_handle_def)
  have h: "h < length (rm_cells m)" "live ?c" using rm_handle_facts [OF ok Some] by blast+
  have k: "k \<in> set (rm_keys m)" "distinct (rm_keys m)" using rm_handle_keys [OF ok, of k] Some ok
    by (auto simp: rm_ok_def ko_ok_def rm_keys_def ko_keys_def)
  have same: "rm_keys ?m = rm_keys m" "\<And>x. rm_handle ?m x = rm_handle m x" "rm_membership ?m = rm_membership m"
    "rm_order_signal ?m = rm_order_signal m" by (simp_all add: m' rm_keys_def rm_handle_def)
  have val: "rm_value ?m x = (if x = k then v else rm_value m x)" if x: "x \<in> set (rm_keys m)" for x
  proof (cases "x = k")
    case True
    then show ?thesis using Some h same(2) by (simp add: rm_value_def m' rm_handle_def)
  next
    case False
    obtain i where i: "rm_handle m x = Some i" using x rm_handle_keys [OF ok, of x] by auto
    then have "i \<noteq> h" using rm_handle_inj [OF ok i, of k] Some False by auto
    then show ?thesis using False i same(2) by (simp add: rm_value_def m' rm_handle_def)
  qed
  have "rm_ok ?m" using ok h by (auto simp: rm_ok_def m' nth_list_update)
  moreover have "rm_items ?m = AList.update k v (rm_items m)"
    unfolding rm_items_def update_items [OF k] same(1) using val by simp
  moreover have "notifies m ?m"
  proof -
    have cells: "c_notified (rm_cells ?m ! i) = c_notified (rm_cells m ! i) + bumps (rm_value ?m x \<noteq> rm_value m x)"
      if i: "rm_handle m x = Some i" for x i
    proof (cases "x = k")
      case True
      then show ?thesis using i Some h val [OF k(1)]
        by (simp add: m' cell_set_notified bumps_def rm_value_def)
    next
      case False
      then have "i \<noteq> h" using rm_handle_inj [OF ok i, of k] Some False by auto
      moreover have "x \<in> set (rm_keys m)" using i rm_handle_keys [OF ok, of x] by auto
      ultimately show ?thesis using val [of x] False by (simp add: m' bumps_def)
    qed
    show ?thesis
    proof (rule notifiesI)
      fix x i assume "rm_handle m x = Some i"
      then show "rm_handle ?m x = Some i"
        "c_notified (rm_cells ?m ! i) = c_notified (rm_cells m ! i) + bumps (rm_value ?m x \<noteq> rm_value m x)"
        using cells by (simp_all only: same)
    qed (simp_all add: same)
  qed
  ultimately show ?thesis by simp
qed

lemma delete_items: "AList.delete k (map (\<lambda>x. (x, f x)) ks) = map (\<lambda>x. (x, f x)) (filter (\<lambda>x. x \<noteq> k) ks)"
  by (induction ks) (auto simp: AList.delete_eq)

lemma remove_spec:
  assumes ok: "rm_ok m"
  shows "rm_ok (fst (rm_remove m k)) \<and> rm_items (fst (rm_remove m k)) = items_step (Map_remove k) (rm_items m) \<and>
    notifies m (fst (rm_remove m k))"
proof (cases "rm_handle m k")
  case None
  then have "k \<notin> set (rm_keys m)" using rm_handle_keys [OF ok, of k] by simp
  then have "filter (\<lambda>x. x \<noteq> k) (rm_keys m) = rm_keys m" by (auto simp: filter_id_conv)
  then have "items_step (Map_remove k) (rm_items m) = rm_items m" by (simp add: rm_items_def delete_items)
  moreover have "fst (rm_remove m k) = m" using None by (simp add: rm_remove_def ko_remove_def rm_handle_def ko_get_def)
  ultimately show ?thesis using ok by (simp add: notifies_def bumps_def)
next
  case (Some h)
  let ?m = "fst (rm_remove m k)" and ?q = "rm_keyed m" and ?c = "rm_cells m ! h"
  have m': "?m = bump_membership (m\<lparr>rm_keyed := ?q\<lparr>ko_entries := AList.delete k (ko_entries ?q),
      ko_order := filter (\<lambda>x. x \<noteq> k) (ko_order ?q)\<rparr>, rm_cells := (rm_cells m)[h := cell_dispose ?c]\<rparr>)"
    using Some by (simp add: rm_remove_def ko_remove_def rm_handle_def ko_get_def mutation_changed_def)
  have keys: "rm_keys ?m = filter (\<lambda>x. x \<noteq> k) (rm_keys m)" by (simp add: m' rm_keys_def ko_keys_def)
  have k: "k \<in> set (rm_keys m)" using rm_handle_keys [OF ok, of k] Some by auto
  have hd: "rm_handle ?m x = (if x = k then None else rm_handle m x)" for x
    by (simp add: m' rm_handle_def ko_get_def delete_conv')
  have other: "rm_cells ?m ! i = rm_cells m ! i" if "rm_handle m x = Some i" "x \<noteq> k" for x i
  proof -
    have "h \<noteq> i" using rm_handle_inj [OF ok that(1), of k] that(2) Some by auto
    then show ?thesis by (simp add: m')
  qed
  have val: "rm_value ?m x = rm_value m x" if x: "x \<in> set (rm_keys m)" "x \<noteq> k" for x
  proof -
    obtain i where "rm_handle m x = Some i" using x rm_handle_keys [OF ok, of x] by auto
    then show ?thesis using other [of x i] x(2) hd [of x] by (simp add: rm_value_def)
  qed
  have "rm_ok ?m"
  proof -
    have "ko_ok (rm_keyed ?m)" using ko_remove_ok [of ?q k] ok Some by (simp add: m' rm_ok_def ko_remove_def rm_handle_def ko_get_def)
    moreover have "distinct (map snd (AList.delete k (ko_entries ?q)))" using ok by (simp add: rm_ok_def AList.delete_eq distinct_map_filter)
    moreover have "i < length (rm_cells ?m) \<and> live (rm_cells ?m ! i)" if i: "(x, i) \<in> set (AList.delete k (ko_entries ?q))" for x i
    proof -
      have "rm_handle m x = Some i" "x \<noteq> k" using i rm_handle_mem [OF ok, of x i] by (auto simp: AList.delete_eq)
      then show ?thesis using rm_handle_facts [OF ok, of x i] other [of x i] by (simp add: m')
    qed
    ultimately show ?thesis using ok by (auto simp: rm_ok_def m')
  qed
  moreover have "rm_items ?m = AList.delete k (rm_items m)"
    unfolding rm_items_def delete_items keys using val by simp
  moreover have "notifies m ?m"
  proof -
    have "set (rm_keys ?m) \<noteq> set (rm_keys m)" "rm_keys ?m \<noteq> rm_keys m" using keys k by (auto simp: filter_id_conv)
    moreover have "live (rm_membership m)" "live (rm_order_signal m)" "c_value (rm_membership m) = rm_version m"
      "c_value (rm_order_signal m) = rm_order_version m" using ok by (simp_all add: rm_ok_def)
    ultimately have "c_notified (rm_membership ?m) = c_notified (rm_membership m) + bumps (set (rm_keys ?m) \<noteq> set (rm_keys m))"
      "c_notified (rm_order_signal ?m) = c_notified (rm_order_signal m) + bumps (rm_keys ?m \<noteq> rm_keys m)"
      by (simp_all add: m' cell_set_notified bumps_def)
    then show ?thesis
    proof (rule notifiesI)
      fix x i assume i: "rm_handle m x = Some i" "x \<in> set (rm_keys ?m)"
      then have x: "x \<in> set (rm_keys m)" "x \<noteq> k" using keys by auto
      show "rm_handle ?m x = Some i" using hd [of x] i x by simp
      show "c_notified (rm_cells ?m ! i) = c_notified (rm_cells m ! i) + bumps (rm_value ?m x \<noteq> rm_value m x)"
        using other [OF i(1) x(2)] val [OF x] by simp
    qed
  qed
  ultimately show ?thesis by simp
qed

section \<open>Moves\<close>

lemma reorder_items:
  "set ks \<subseteq> set (rm_keys m) \<Longrightarrow> reorder ks (rm_items m) = map (\<lambda>k. (k, rm_value m k)) ks"
  by (auto simp: reorder_def items_lookup)

text \<open>Any move of the core that permutes the keys, reported truthfully.\<close>

lemma apply_move_spec:
  assumes ok: "rm_ok m" and q: "ko_ok q" "ko_entries q = ko_entries (rm_keyed m)" "ko_order q = ks"
    and ch: "move_changed mv \<longleftrightarrow> ks \<noteq> rm_keys m" "move_changed mv \<longrightarrow> move_applied mv"
  shows "rm_ok (fst (rm_apply_move m (q, mv))) \<and> rm_items (fst (rm_apply_move m (q, mv))) = reorder ks (rm_items m) \<and>
    notifies m (fst (rm_apply_move m (q, mv)))"
proof -
  let ?m = "fst (rm_apply_move m (q, mv))"
  have m': "?m = (if ks \<noteq> rm_keys m then bump_order (m\<lparr>rm_keyed := q\<rparr>) else m\<lparr>rm_keyed := q\<rparr>)"
    using ch by (auto simp: rm_apply_move_def Let_def)
  have keys: "rm_keys ?m = ks" using q(3) by (simp add: m' rm_keys_def ko_keys_def)
  have set: "set ks = set (rm_keys m)" using q ok by (auto simp: ko_ok_def rm_ok_def rm_keys_def ko_keys_def)
  have same: "rm_handle ?m x = rm_handle m x" "rm_cells ?m = rm_cells m" "rm_value ?m x = rm_value m x"
    "rm_membership ?m = rm_membership m" for x
    using q(2) by (simp_all add: m' rm_handle_def ko_get_def rm_value_def)
  have "rm_ok ?m" using ok q(1,2) by (auto simp: rm_ok_def m')
  moreover have "rm_items ?m = reorder ks (rm_items m)"
    unfolding reorder_items [OF eq_refl [OF set]] by (simp add: rm_items_def keys same)
  moreover have "notifies m ?m"
  proof (rule notifiesI)
    show "c_notified (rm_order_signal ?m) = c_notified (rm_order_signal m) + bumps (rm_keys ?m \<noteq> rm_keys m)"
      unfolding keys using ok by (simp add: m' cell_set_notified rm_ok_def)
  qed (simp_all add: same keys set)
  ultimately show ?thesis by blast
qed

lemma move_to_core:
  assumes "ko_ok q"
  shows "\<exists>q' mv. ko_move_to q k i = (q', mv) \<and> ko_ok q' \<and> ko_entries q' = ko_entries q \<and> ko_order q' = put_at k i (ko_order q) \<and>
    (move_changed mv \<longleftrightarrow> ko_order q' \<noteq> ko_order q) \<and> (move_changed mv \<longrightarrow> move_applied mv)"
proof -
  obtain q' mv where r: "ko_move_to q k i = (q', mv)" by (rule prod.exhaust)
  show ?thesis
  proof (cases "k \<in> set (ko_order q)")
    case True
    then show ?thesis using move_to_order [OF assms True r] ko_move_to_ok [OF assms, of k i] r by (simp add: put_at_def)
  next
    case False
    then have "ko_position q k = None" by (auto simp: ko_position_def index_where_None)
    then show ?thesis using False assms by (simp add: ko_move_to_def put_at_def move_changed_def)
  qed
qed

lemma move_reported: "ko_ok q \<Longrightarrow> ko_move_to q k i = (q', mv) \<Longrightarrow>
    (move_changed mv \<longleftrightarrow> ko_order q' \<noteq> ko_order q) \<and> (move_changed mv \<longrightarrow> move_applied mv)"
  using move_to_core [of q k i] by auto

lemma beside_reported:
  assumes "ko_ok q"
  shows "ko_move_before q k a = (q', mv) \<Longrightarrow> (move_changed mv \<longleftrightarrow> ko_order q' \<noteq> ko_order q) \<and> (move_changed mv \<longrightarrow> move_applied mv)"
    and "ko_move_after q k a = (q', mv) \<Longrightarrow> (move_changed mv \<longleftrightarrow> ko_order q' \<noteq> ko_order q) \<and> (move_changed mv \<longrightarrow> move_applied mv)"
  using move_reported [OF assms, of k _ q' mv]
  by (auto simp: ko_move_before_def ko_move_after_def move_changed_def split: option.splits)

lemma beside_order:
  assumes "ko_ok q"
  shows "ko_order (fst (ko_move_before q k a)) = put_before k a (ko_order q)"
    and "ko_order (fst (ko_move_after q k a)) = put_after k a (ko_order q)"
proof -
  have d: "distinct (ko_order q)" using assms by (simp add: ko_ok_def)
  consider "k \<notin> set (ko_order q) \<or> a \<notin> set (ko_order q)" | "k = a" "k \<in> set (ko_order q)"
    | "k \<noteq> a" "k \<in> set (ko_order q)" "a \<in> set (ko_order q)" by blast
  then have "ko_order (fst (ko_move_before q k a)) = put_before k a (ko_order q) \<and>
      ko_order (fst (ko_move_after q k a)) = put_after k a (ko_order q)"
  proof cases
    case 1
    then have "ko_position q k = None \<or> ko_position q a = None" by (auto simp: ko_position_def index_where_None)
    then show ?thesis using 1 by (auto simp: ko_move_before_def ko_move_after_def put_before_def put_after_def split: option.splits)
  next
    case 2
    then obtain p where p: "ko_position q k = Some p" "p < length (ko_order q)"
      using d by (auto simp: ko_position_def in_set_conv_nth position_Some)
    then have "ko_move_to q k (int p) = (q, Move_unchanged)" by (simp add: ko_move_to_def Let_def)
    then show ?thesis using 2(1) p by (simp add: ko_move_before_def ko_move_after_def put_before_def put_after_def)
  next
    case 3
    obtain ys zs m m' q' q'' where r: "removeAll k (ko_order q) = ys @ a # zs" "ko_move_before q k a = (q', m)"
      "ko_order q' = ys @ k # a # zs" "ko_move_after q k a = (q'', m')" "ko_order q'' = ys @ a # k # zs"
      using move_beside_order [OF assms 3(2,3,1)] by blast
    have "distinct (ys @ a # zs)" using d unfolding r(1) [symmetric] by (rule distinct_removeAll)
    then have "\<forall>x\<in>set ys. x \<noteq> a" by auto
    then have "takeWhile (\<lambda>x. x \<noteq> a) (ys @ a # zs) = ys" "dropWhile (\<lambda>x. x \<noteq> a) (ys @ a # zs) = a # zs"
      by (simp_all add: takeWhile_append2 dropWhile_append2)
    then show ?thesis using 3 r by (simp add: put_before_def put_after_def)
  qed
  then show "ko_order (fst (ko_move_before q k a)) = put_before k a (ko_order q)"
    "ko_order (fst (ko_move_after q k a)) = put_after k a (ko_order q)" by blast+
qed

lemma map_step_spec:
  assumes ok: "rm_ok m"
  shows "rm_ok (map_step x m) \<and> rm_items (map_step x m) = items_step x (rm_items m) \<and> notifies m (map_step x m)"
proof -
  have q: "ko_ok (rm_keyed m)" and keys: "ko_order (rm_keyed m) = rm_keys m" using ok by (simp_all add: rm_ok_def rm_keys_def ko_keys_def)
  show ?thesis
  proof (cases x)
    case (Map_entry k v)
    then show ?thesis using entry_spec [OF ok, of k v] by (simp only: map_step.simps)
  next
    case (Map_set k v)
    then show ?thesis using set_spec [OF ok, of k v] by (simp only: map_step.simps)
  next
    case (Map_remove k)
    then show ?thesis using remove_spec [OF ok, of k] by (simp only: map_step.simps)
  next
    case (Map_move_to k i)
    obtain q' mv where "ko_move_to (rm_keyed m) k i = (q', mv)" "ko_ok q'" "ko_entries q' = ko_entries (rm_keyed m)"
      "ko_order q' = put_at k i (rm_keys m)" "move_changed mv \<longleftrightarrow> ko_order q' \<noteq> rm_keys m" "move_changed mv \<longrightarrow> move_applied mv"
      using move_to_core [OF q, of k i] keys by auto
    then show ?thesis using apply_move_spec [OF ok, of q' "put_at k i (rm_keys m)" mv] Map_move_to by (simp add: rm_move_to_def)
  next
    case (Map_move_before k a)
    obtain q' mv where r: "ko_move_before (rm_keyed m) k a = (q', mv)" by (rule prod.exhaust)
    then show ?thesis
      using apply_move_spec [OF ok, of q' "put_before k a (rm_keys m)" mv] ko_move_before_ok [OF q, of k a] Map_move_before
        beside_order(1) [OF q, of k a] beside_reported(1) [OF q r] keys by (simp add: rm_move_before_def)
  next
    case (Map_move_after k a)
    obtain q' mv where r: "ko_move_after (rm_keyed m) k a = (q', mv)" by (rule prod.exhaust)
    then show ?thesis
      using apply_move_spec [OF ok, of q' "put_after k a (rm_keys m)" mv] ko_move_after_ok [OF q, of k a] Map_move_after
        beside_order(2) [OF q, of k a] beside_reported(2) [OF q r] keys by (simp add: rm_move_after_def)
  qed
qed

lemma map_run_ok: "rm_ok (foldl (\<lambda>m x. map_step x m) rm_new xs)"
  by (induction xs rule: rev_induct) (use rm_new_ok map_step_spec in auto)

end
