(* ===== verification/KeyedFold.thy ===== *)
theory KeyedFold
  imports Collections Merge
begin

text \<open>
  The named keyed fold of \<^verbatim>\<open>src/lazily/keyed_fold.py\<close>: each writer sets, merges and clears only its
  own key of a keyed map, and the summary folds the live items. A writer's handle is its key. The
  summary is given by the function it computes; when it is recomputed is the kernel's affair.
\<close>

datatype claim_error = KeyAlreadyClaimedError

record ('k, 'v, 's) keyed_fold =
  kf_entries :: "('k, 'v) reactive_map"
  kf_policy :: "'v merge_policy"
  kf_claims :: "'k set"
  kf_writers :: "'k list"
  kf_summarize :: "('k \<times> 'v) list \<Rightarrow> 's"

definition kf_new :: "(('k \<times> 'v) list \<Rightarrow> 's) \<Rightarrow> 'v merge_policy \<Rightarrow> ('k, 'v, 's) keyed_fold" where
  "kf_new summarize policy = \<lparr>kf_entries = rm_new, kf_policy = policy, kf_claims = {}, kf_writers = [],
     kf_summarize = summarize\<rparr>"

definition kf_writer :: "('k, 'v, 's) keyed_fold \<Rightarrow> 'k \<Rightarrow> ('k, 'v, 's) keyed_fold" where
  "kf_writer f k = (if k \<in> set (kf_writers f) then f else f\<lparr>kf_writers := kf_writers f @ [k]\<rparr>)"

definition kf_claim :: "('k, 'v, 's) keyed_fold \<Rightarrow> 'k \<Rightarrow> claim_error + ('k, 'v, 's) keyed_fold" where
  "kf_claim f k =
     (if k \<in> kf_claims f then Inl KeyAlreadyClaimedError
      else Inr (kf_writer (f\<lparr>kf_claims := insert k (kf_claims f)\<rparr>) k))"

definition kf_is_claimed :: "('k, 'v, 's) keyed_fold \<Rightarrow> 'k \<Rightarrow> bool" where
  "kf_is_claimed f k \<longleftrightarrow> k \<in> kf_claims f"

definition kf_set :: "('k, 'v, 's) keyed_fold \<Rightarrow> 'k \<Rightarrow> 'v \<Rightarrow> ('k, 'v, 's) keyed_fold" where
  "kf_set f k v = f\<lparr>kf_entries := sm_set (kf_entries f) k v\<rparr>"

text \<open>The read of the current entry may raise, when its cell is disposed.\<close>

definition kf_merge :: "('k, 'v, 's) keyed_fold \<Rightarrow> 'k \<Rightarrow> 'v \<Rightarrow> cell_error + ('k, 'v, 's) keyed_fold" where
  "kf_merge f k v =
     (case rm_get (kf_entries f) k of
        Inl e \<Rightarrow> Inl e
      | Inr None \<Rightarrow> Inr (kf_set f k v)
      | Inr (Some current) \<Rightarrow> Inr (kf_set f k (mp_merge (kf_policy f) current v)))"

definition kf_clear :: "('k, 'v, 's) keyed_fold \<Rightarrow> 'k \<Rightarrow> ('k, 'v, 's) keyed_fold \<times> bool" where
  "kf_clear f k = (let (m, present) = rm_remove (kf_entries f) k in (f\<lparr>kf_entries := m\<rparr>, present))"

definition kf_release :: "('k, 'v, 's) keyed_fold \<Rightarrow> 'k \<Rightarrow> ('k, 'v, 's) keyed_fold \<times> bool" where
  "kf_release f k = (let (f', present) = kf_clear f k in (f'\<lparr>kf_claims := kf_claims f' - {k}\<rparr>, present))"

definition kf_get :: "('k, 'v, 's) keyed_fold \<Rightarrow> 'k \<Rightarrow> cell_error + 'v option" where
  "kf_get f k = rm_get (kf_entries f) k"

definition kf_contains :: "('k, 'v, 's) keyed_fold \<Rightarrow> 'k \<Rightarrow> bool" where
  "kf_contains f k \<longleftrightarrow> rm_contains (kf_entries f) k"

definition kf_keys :: "('k, 'v, 's) keyed_fold \<Rightarrow> 'k list" where
  "kf_keys f = rm_keys (kf_entries f)"

text \<open>The summary: the live items are read key by key.\<close>

definition kf_value :: "('k, 'v, 's) keyed_fold \<Rightarrow> 's" where
  "kf_value f = kf_summarize f
     (List.map_filter (\<lambda>k. case rm_get (kf_entries f) k of Inr (Some v) \<Rightarrow> Some (k, v) | _ \<Rightarrow> None) (rm_keys (kf_entries f)))"

section \<open>Writers do not interfere\<close>

datatype ('k, 'v) fold_op =
    Fold_claim 'k
  | Fold_set 'k 'v
  | Fold_merge 'k 'v
  | Fold_clear 'k
  | Fold_release 'k

definition keep_old :: "'f \<Rightarrow> 'e + 'f \<Rightarrow> 'f" where
  "keep_old f r = (case r of Inl e \<Rightarrow> f | Inr f' \<Rightarrow> f')"

primrec kf_step :: "('k, 'v, 's) keyed_fold \<Rightarrow> ('k, 'v) fold_op \<Rightarrow> ('k, 'v, 's) keyed_fold" where
  "kf_step f (Fold_claim k) = keep_old f (kf_claim f k)"
| "kf_step f (Fold_set k v) = kf_set f k v"
| "kf_step f (Fold_merge k v) = keep_old f (kf_merge f k v)"
| "kf_step f (Fold_clear k) = fst (kf_clear f k)"
| "kf_step f (Fold_release k) = fst (kf_release f k)"

text \<open>What the writer of \<open>k\<close> sees of a run: its own operations only.\<close>

primrec own_step :: "'v merge_policy \<Rightarrow> 'k \<Rightarrow> bool \<times> 'v option \<Rightarrow> ('k, 'v) fold_op \<Rightarrow> bool \<times> 'v option" where
  "own_step p k s (Fold_claim x) = (if x = k then (True, snd s) else s)"
| "own_step p k s (Fold_set x v) = (if x = k then (fst s, Some v) else s)"
| "own_step p k s (Fold_merge x v) =
     (if x = k then (fst s, Some (case snd s of None \<Rightarrow> v | Some c \<Rightarrow> mp_merge p c v)) else s)"
| "own_step p k s (Fold_clear x) = (if x = k then (fst s, None) else s)"
| "own_step p k s (Fold_release x) = (if x = k then (False, None) else s)"

lemma rm_get_items: "rm_ok m \<Longrightarrow> rm_get m k = Inr (map_of (rm_items m) k)"
proof (cases "rm_handle m k")
  case None
  assume ok: "rm_ok m"
  then show ?thesis using None rm_handle_keys [OF ok, of k] by (simp add: rm_get_def rm_handle_def items_lookup)
next
  case (Some h)
  assume ok: "rm_ok m"
  have "live (rm_cells m ! h)" by (rule rm_handle_facts(2) [OF ok Some])
  then show ?thesis using Some rm_handle_keys [OF ok, of k]
    by (simp add: rm_get_def rm_handle_def items_lookup rm_observe_def cell_get_def live_def rm_value_def)
qed

lemma kf_value_items: "rm_ok (kf_entries f) \<Longrightarrow> kf_value f = kf_summarize f (rm_items (kf_entries f))"
proof -
  assume ok: "rm_ok (kf_entries f)"
  let ?m = "kf_entries f"
  have "List.map_filter (\<lambda>k. case rm_get ?m k of Inr (Some v) \<Rightarrow> Some (k, v) | _ \<Rightarrow> None) ks = map (\<lambda>k. (k, rm_value ?m k)) ks"
    if "set ks \<subseteq> set (rm_keys ?m)" for ks
    using that by (induction ks) (auto simp: List.map_filter_simps rm_get_items [OF ok] items_lookup)
  then show ?thesis by (simp add: kf_value_def rm_items_def)
qed

definition kf_view :: "('k, 'v, 's) keyed_fold \<Rightarrow> 'k \<Rightarrow> bool \<times> 'v option" where
  "kf_view f k = (kf_is_claimed f k, map_of (rm_items (kf_entries f)) k)"

lemma kf_step_spec:
  assumes "rm_ok (kf_entries f)"
  shows "rm_ok (kf_entries (kf_step f x)) \<and> kf_view (kf_step f x) k = own_step (kf_policy f) k (kf_view f k) x \<and>
    kf_policy (kf_step f x) = kf_policy f \<and> kf_summarize (kf_step f x) = kf_summarize f"
proof -
  let ?m = "kf_entries f"
  have set: "rm_ok (sm_set ?m a v) \<and> map_of (rm_items (sm_set ?m a v)) k = (if a = k then Some v else map_of (rm_items ?m) k)" for a v
    using map_step_spec [OF assms, of "Map_set a v"] by (simp add: update_conv')
  have rem: "rm_ok (fst (rm_remove ?m a)) \<and> map_of (rm_items (fst (rm_remove ?m a))) k = (if a = k then None else map_of (rm_items ?m) k)" for a
    using map_step_spec [OF assms, of "Map_remove a"] by (simp add: delete_conv')
  show ?thesis
  proof (cases x)
    case (Fold_merge a v)
    have "kf_merge f a v = Inr (kf_set f a (case map_of (rm_items ?m) a of None \<Rightarrow> v | Some c \<Rightarrow> mp_merge (kf_policy f) c v))"
      by (simp add: kf_merge_def rm_get_items [OF assms] split: option.splits)
    then show ?thesis using Fold_merge set by (simp add: keep_old_def kf_set_def kf_view_def kf_is_claimed_def)
  next
    case (Fold_claim a)
    then show ?thesis using assms by (auto simp: keep_old_def kf_claim_def kf_writer_def kf_view_def kf_is_claimed_def)
  qed (use set rem in \<open>auto simp: kf_set_def kf_view_def kf_is_claimed_def kf_clear_def kf_release_def case_prod_beta\<close>)
qed

lemma kf_run_spec:
  "rm_ok (kf_entries f) \<Longrightarrow> rm_ok (kf_entries (foldl kf_step f xs)) \<and>
     kf_view (foldl kf_step f xs) k = foldl (own_step (kf_policy f) k) (kf_view f k) xs \<and>
     kf_summarize (foldl kf_step f xs) = kf_summarize f \<and> kf_policy (foldl kf_step f xs) = kf_policy f"
  by (induction xs arbitrary: f) (simp_all add: kf_step_spec)

end
