(* ===== verification/CollectionTheorems.thy ===== *)
theory CollectionTheorems
  imports ReconcileRun KeyedFold
begin

text \<open>
  The properties of keyed reconciliation, the keyed map and the keyed fold.
\<close>

text \<open>C10: reconciliation reaches the target with the fewest moves. For levels that list each key once
  the operations, applied in order to a keyed collection, leave exactly the target's keys and values,
  the common keys first and in the target's order; and however one chooses a set \<open>U\<close> of common
  keys that stand in the same relative order in both levels, no fewer keys than those outside it are
  common, so no more keys are moved than moving them all around \<open>U\<close> would take.\<close>

theorem reconcile_minimal:
  fixes prior target :: "('k, 'v) level"
  assumes "distinct (lv_order prior)" and "distinct (lv_order target)"
    and "U \<subseteq> set (lv_order prior) \<inter> set (lv_order target)"
    and "filter (\<lambda>k. k \<in> U) (lv_order prior) = filter (\<lambda>k. k \<in> U) (lv_order target)"
  shows "\<exists>ops q. reconcile_ops prior target = Some ops \<and> foldl apply_op (keyed_of prior) ops = q \<and>
    ko_order q = common_keys (lv_order prior) (lv_order target) @ filter (\<lambda>k. k \<notin> set (lv_order prior)) (lv_order target) \<and>
    (\<forall>k. ko_get q k = (if k \<in> set (lv_order target) then Some (lv_values target k) else None)) \<and>
    length (filter (\<lambda>op. op_kind op = Op_move) ops) \<le> card (set (lv_order prior) \<inter> set (lv_order target) - U)"
proof -
  let ?P = "lv_order prior" and ?T = "lv_order target"
  obtain ops S where r: "stable_keys ?P ?T = Some S" "reconcile_ops prior target = Some ops"
    "ko_order (foldl apply_op (keyed_of prior) ops) = common_keys ?P ?T @ filter (\<lambda>k. k \<notin> set ?P) ?T"
    "\<forall>k. ko_get (foldl apply_op (keyed_of prior) ops) k = (if k \<in> set ?T then Some (lv_values target k) else None)"
    "map op_key (filter (\<lambda>op. op_kind op = Op_move) ops) = filter (\<lambda>k. k \<notin> set S) (common_keys ?P ?T)"
    using reconcile_run [OF assms(1,2)] by blast
  have S: "distinct S" "set S \<subseteq> set ?P \<inter> set ?T" using stable_in_order [OF assms(1,2) r(1)] by blast+
  have "card U \<le> card (set S)" using same_order_bound [OF assms(1) r(1) assms(4,3)] distinct_card [OF S(1)] by simp
  moreover have "length (filter (\<lambda>op. op_kind op = Op_move) ops) = card (set ?P \<inter> set ?T - set S)"
  proof -
    have "length (filter (\<lambda>op. op_kind op = Op_move) ops) = length (filter (\<lambda>k. k \<notin> set S) (common_keys ?P ?T))"
      using r(5) by (metis length_map)
    also have "\<dots> = card (set (filter (\<lambda>k. k \<notin> set S) (common_keys ?P ?T)))"
      using assms(2) by (intro distinct_card [symmetric]) (simp add: common_keys_def)
    also have "set (filter (\<lambda>k. k \<notin> set S) (common_keys ?P ?T)) = set ?P \<inter> set ?T - set S" by (auto simp: common_keys_def)
    finally show ?thesis .
  qed
  moreover have "card (set ?P \<inter> set ?T - set S) = card (set ?P \<inter> set ?T) - card (set S)"
    "card (set ?P \<inter> set ?T - U) = card (set ?P \<inter> set ?T) - card U"
    by (rule card_Diff_subset [OF finite_subset [OF S(2)] S(2)], simp)
      (rule card_Diff_subset [OF finite_subset [OF assms(3)] assms(3)], simp)
  ultimately show ?thesis using r(2-4) by (intro exI conjI) auto
qed

definition sample_prior :: "(nat, nat) level" where
  "sample_prior = \<lparr>lv_order = [1, 2, 3, 4], lv_values = (\<lambda>k. Some 0)\<rparr>"

definition sample_target :: "(nat, nat) level" where
  "sample_target = \<lparr>lv_order = [4, 1, 5, 3], lv_values = (\<lambda>k. Some (if k = 3 then 1 else 0))\<rparr>"

theorem reconcile_minimal_witness:
  "\<exists>ops q. reconcile_ops sample_prior sample_target = Some ops \<and> foldl apply_op (keyed_of sample_prior) ops = q \<and>
    ko_order q = [4, 1, 3, 5] \<and> ko_get q 3 = Some (Some 1) \<and> length (filter (\<lambda>op. op_kind op = Op_move) ops) \<le> 1"
proof -
  have lv: "lv_order sample_prior = [1, 2, 3, 4]" "lv_order sample_target = [4, 1, 5, 3]"
    by (simp_all add: sample_prior_def sample_target_def)
  have p: "distinct (lv_order sample_prior)" "distinct (lv_order sample_target)"
    "{1, 3} \<subseteq> set (lv_order sample_prior) \<inter> set (lv_order sample_target)"
    "filter (\<lambda>k. k \<in> {1, 3}) (lv_order sample_prior) = filter (\<lambda>k. k \<in> {1, 3}) (lv_order sample_target)"
    by (simp_all add: lv)
  obtain ops q where r: "reconcile_ops sample_prior sample_target = Some ops" "foldl apply_op (keyed_of sample_prior) ops = q"
    "ko_order q = [4, 1, 3, 5]" "ko_get q 3 = Some (lv_values sample_target 3)"
    "length (filter (\<lambda>op. op_kind op = Op_move) ops) \<le> card ({1, 2, 3, 4} \<inter> {4, 1, 5, 3} - {1, 3 :: nat})"
    using reconcile_minimal [OF p] by (auto simp: lv common_keys_def)
  have "{1, 2, 3, 4} \<inter> {4, 1, 5, 3} - {1, 3} = {4 :: nat}" by auto
  then show ?thesis using r by (intro exI [of _ ops] exI [of _ q]) (simp add: sample_target_def)
qed

text \<open>C11: a keyed map of input cells notifies exactly the readers whose view changed. In every reachable
  state an operation acts on the items in key order as on a list (a set updates in place or
  appends, a move puts the key at its clamped index or beside its anchor); the membership signal is
  notified once if the set of keys changed and not otherwise, the order signal if the list of keys
  changed; and an entry present before and after keeps its cell, which is notified once if its own
  value changed and not otherwise.\<close>

theorem source_map_notifies_exactly:
  fixes xs :: "('k, 'v) map_op list"
  defines "m \<equiv> foldl (\<lambda>m x. map_step x m) rm_new xs"
  shows "rm_items (map_step x m) = items_step x (rm_items m) \<and>
    c_notified (rm_membership (map_step x m)) = c_notified (rm_membership m) + bumps (set (rm_keys (map_step x m)) \<noteq> set (rm_keys m)) \<and>
    c_notified (rm_order_signal (map_step x m)) = c_notified (rm_order_signal m) + bumps (rm_keys (map_step x m) \<noteq> rm_keys m) \<and>
    (rm_handle m k = Some h \<and> k \<in> set (rm_keys (map_step x m)) \<longrightarrow> rm_handle (map_step x m) k = Some h \<and>
       c_notified (rm_cells (map_step x m) ! h) = c_notified (rm_cells m ! h) + bumps (rm_value (map_step x m) k \<noteq> rm_value m k))"
  using map_step_spec [OF map_run_ok, of x xs] unfolding m_def notifies_def by blast

definition sample_map :: "(nat, nat) map_op list" where
  "sample_map = [Map_set 1 10, Map_set 2 20, Map_set 3 30, Map_move_before 3 1]"

theorem source_map_notifies_exactly_witness:
  "rm_handle (map_step (Map_move_after 1 2) (foldl (\<lambda>m x. map_step x m) rm_new sample_map)) 1 = Some 0 \<and>
   c_notified (rm_cells (map_step (Map_move_after 1 2) (foldl (\<lambda>m x. map_step x m) rm_new sample_map)) ! 0) = 0"
proof -
  let ?m = "foldl (\<lambda>m x. map_step x m) rm_new sample_map"
  have "rm_handle ?m 1 = Some 0" "rm_keys (map_step (Map_move_after 1 2) ?m) = [3, 2, 1]"
    "c_notified (rm_cells ?m ! 0) = 0" "rm_value (map_step (Map_move_after 1 2) ?m) 1 = rm_value ?m 1" by code_simp+
  then show ?thesis
    using source_map_notifies_exactly [where xs = sample_map and x = "Map_move_after 1 2" and k = 1 and h = 0] by simp
qed

text \<open>C12: the writers of a keyed fold do not interfere: whatever the interleaving of claims, writes,
  merges, clears and releases, a key's claim and entry are what its own operations alone leave, the
  summary is the summary of those entries, and a claim is refused exactly while the key is
  claimed.\<close>

theorem keyed_fold_isolated:
  fixes xs :: "('k, 'v) fold_op list" and summarize :: "('k \<times> 'v) list \<Rightarrow> 's" and policy k
  defines "f \<equiv> foldl kf_step (kf_new summarize policy) xs"
  defines "own \<equiv> foldl (own_step policy k) (False, None) xs"
  shows "kf_get f k = Inr (snd own) \<and> kf_contains f k = (snd own \<noteq> None) \<and>
    (kf_claim f k = Inl KeyAlreadyClaimedError) = fst own \<and>
    (\<exists>items. kf_value f = summarize items \<and> map fst items = kf_keys f \<and> map_of items k = snd own)"
proof -
  have "rm_ok (kf_entries (kf_new summarize policy :: ('k, 'v, 's) keyed_fold))" by (simp add: kf_new_def rm_new_ok)
  note run = kf_run_spec [OF this, of xs k, folded f_def]
  have start: "kf_view (kf_new summarize policy :: ('k, 'v, 's) keyed_fold) k = (False, None)" "kf_policy (kf_new summarize policy :: ('k, 'v, 's) keyed_fold) = policy"
    "kf_summarize (kf_new summarize policy :: ('k, 'v, 's) keyed_fold) = summarize"
    by (simp_all add: kf_view_def kf_is_claimed_def kf_new_def rm_items_def rm_keys_def ko_keys_def rm_new_def ko_new_def)
  have own: "kf_view f k = own" and ok: "rm_ok (kf_entries f)" and s: "kf_summarize f = summarize"
    using run start by (simp_all add: own_def)
  have look: "map_of (rm_items (kf_entries f)) k = snd own" and cl: "kf_is_claimed f k = fst own"
    using own by (simp_all add: kf_view_def flip: own)
  have "kf_contains f k = (rm_handle (kf_entries f) k \<noteq> None)"
    by (simp add: kf_contains_def rm_contains_def ko_contains_def rm_handle_def ko_get_def)
  then have "kf_contains f k = (snd own \<noteq> None)" using rm_handle_keys [OF ok, of k]
    unfolding look [symmetric] items_lookup by simp
  moreover have "kf_get f k = Inr (snd own)" using rm_get_items [OF ok, of k] look by (simp add: kf_get_def)
  moreover have "(kf_claim f k = Inl KeyAlreadyClaimedError) = fst own" using cl by (simp add: kf_claim_def kf_is_claimed_def)
  moreover have "kf_value f = summarize (rm_items (kf_entries f))" using kf_value_items [OF ok] s by simp
  ultimately show ?thesis using look by (auto simp: kf_keys_def intro!: exI [of _ "rm_items (kf_entries f)"])
qed

end
