(* ===== verification/Projection.thy ===== *)
theory Projection
  imports Cells
begin

text \<open>
  The shape the service, presence and membership cells share: a compute core, and a cell that is
  assigned the recomputed view after every operation. The locale \<open>projecting\<close> is that contract; its
  lemmas say what a reader of the cell sees after a run of operations and how often it is notified.
\<close>

fun core_run :: "('s \<Rightarrow> 'op \<Rightarrow> 's) \<Rightarrow> 's \<Rightarrow> 'op list \<Rightarrow> 's" where
  "core_run step s [] = s"
| "core_run step s (x # xs) = core_run step (step s x) xs"

fun core_views :: "('s \<Rightarrow> 'op \<Rightarrow> 's) \<Rightarrow> ('op \<Rightarrow> 's \<Rightarrow> 'v) \<Rightarrow> 's \<Rightarrow> 'op list \<Rightarrow> 'v list" where
  "core_views step view s [] = []"
| "core_views step view s (x # xs) = view x (step s x) # core_views step view (step s x) xs"

lemma core_run_snoc: "core_run step s (xs @ [x]) = step (core_run step s xs) x"
  by (induction xs arbitrary: s) auto

lemma core_run_append: "core_run step s (xs @ ys) = core_run step (core_run step s xs) ys"
  by (induction xs arbitrary: s) auto

lemma core_views_snoc:
  "core_views step view s (xs @ [x]) = core_views step view s xs @ [view x (core_run step s (xs @ [x]))]"
  by (induction xs arbitrary: s) auto

lemma core_run_inv: "P s \<Longrightarrow> (\<And>s x. P s \<Longrightarrow> P (step s x)) \<Longrightarrow> P (core_run step s xs)"
  by (induction xs arbitrary: s) auto

lemma value_changes_const: "set vs \<subseteq> {u} \<Longrightarrow> value_changes u vs = 0"
  by (induction vs) auto

lemma value_changes_append: "value_changes u (vs @ ws) = value_changes u vs + value_changes (last (u # vs)) ws"
  by (induction vs arbitrary: u) auto

section \<open>Dictionaries of entries\<close>

lemma map_of_filter_distinct:
  "distinct (map fst dict) \<Longrightarrow> map_of (filter keep dict) key =
     (case map_of dict key of None \<Rightarrow> None | Some w \<Rightarrow> if keep (key, w) then Some w else None)"
proof (induction dict)
  case (Cons entry dict)
  show ?case
  proof (cases "fst entry = key")
    case True
    then have "map_of dict key = None" using Cons.prems by (auto simp: map_of_eq_None_iff)
    then show ?thesis using Cons True by (cases entry) simp
  next
    case False
    then show ?thesis using Cons by (cases entry) simp
  qed
qed simp

lemma map_of_first: "map_of (map (\<lambda>(k, a, b). (k, a)) xs) k = map_option fst (map_of xs k)"
  by (induction xs) auto

section \<open>What a run leaves\<close>

text \<open>
  A fact of the state that some operations establish and others displace holds after a run exactly
  when an establishing operation was not followed by a displacing one.
\<close>

lemma last_writer:
  assumes start: "\<not> holds s0" and sound: "P s0" "\<And>s x. P s \<Longrightarrow> P (step s x)"
    and step: "\<And>s x. P s \<Longrightarrow> holds (step s x) \<longleftrightarrow> est x \<or> holds s \<and> \<not> displ x"
  shows "holds (core_run step s0 xs) \<longleftrightarrow>
     (\<exists>ys x zs. xs = ys @ x # zs \<and> est x \<and> list_all (\<lambda>z. \<not> displ z) zs)"
proof (induction xs rule: rev_induct)
  case Nil
  show ?case using start by simp
next
  case (snoc w xs)
  have P: "P (core_run step s0 xs)" using sound by (rule core_run_inv)
  let ?has = "\<lambda>xs. \<exists>ys x zs. xs = ys @ x # zs \<and> est x \<and> list_all (\<lambda>z. \<not> displ z) zs"
  have "?has (xs @ [w]) \<longleftrightarrow> est w \<or> ?has xs \<and> \<not> displ w"
  proof
    assume "?has (xs @ [w])"
    then obtain ys x zs where z: "xs @ [w] = ys @ x # zs" "est x" "list_all (\<lambda>z. \<not> displ z) zs" by blast
    show "est w \<or> ?has xs \<and> \<not> displ w"
    proof (cases zs rule: rev_exhaust)
      case Nil
      then show ?thesis using z by simp
    next
      case (snoc vs v)
      then have "xs = ys @ x # vs" "v = w" using z(1) by auto
      then show ?thesis using z(2,3) snoc by auto
    qed
  next
    assume "est w \<or> ?has xs \<and> \<not> displ w"
    then show "?has (xs @ [w])"
    proof
      assume "est w"
      then show ?thesis by (intro exI [of _ xs] exI [of _ w] exI [of _ "[]"]) simp
    next
      assume "?has xs \<and> \<not> displ w"
      then obtain ys x zs where "xs = ys @ x # zs" "est x" "list_all (\<lambda>z. \<not> displ z) (zs @ [w])" by auto
      then show ?thesis by (intro exI [of _ ys] exI [of _ x] exI [of _ "zs @ [w]"]) simp
    qed
  qed
  then show ?case using snoc.IH step [OF P, of w] by (simp add: core_run_snoc)
qed

section \<open>The contract\<close>

locale projecting =
  fixes core_of :: "'c \<Rightarrow> 's"
    and cell_of :: "'c \<Rightarrow> 'v cell"
    and op :: "'c \<Rightarrow> 'op \<Rightarrow> 'c"
    and core_op :: "'s \<Rightarrow> 'op \<Rightarrow> 's"
    and view :: "'op \<Rightarrow> 's \<Rightarrow> 'v"
    and sound :: "'s \<Rightarrow> bool"
  assumes keeps: "sound s \<Longrightarrow> sound (core_op s x)"
    and core_step: "sound (core_of c) \<Longrightarrow> core_of (op c x) = core_op (core_of c) x"
    and cell_step: "sound (core_of c) \<Longrightarrow> cell_of (op c x) = cell_set (cell_of c) (view x (core_op (core_of c) x))"
begin

lemma run_sound: "sound s \<Longrightarrow> sound (core_run core_op s xs)"
  by (rule core_run_inv) (auto intro: keeps)

lemma run_core: "sound (core_of c) \<Longrightarrow> core_of (core_run op c xs) = core_run core_op (core_of c) xs"
  by (induction xs arbitrary: c) (auto simp: core_step keeps)

lemma run_cell:
  "sound (core_of c) \<Longrightarrow> cell_of (core_run op c xs) = cell_writes (cell_of c) (core_views core_op view (core_of c) xs)"
  by (induction xs arbitrary: c) (auto simp: core_step cell_step keeps)

lemma run_live: "sound (core_of c) \<Longrightarrow> live (cell_of (core_run op c xs)) = live (cell_of c)"
  by (simp add: run_cell)

text \<open>The cell shows the last view, and notified once per change of it.\<close>

lemma shows_view:
  "sound (core_of c) \<Longrightarrow> live (cell_of c) \<Longrightarrow>
     c_value (cell_of (core_run op c xs)) = last (c_value (cell_of c) # core_views core_op view (core_of c) xs)"
  by (simp add: run_cell cell_writes_value)

lemma shows_last:
  assumes "sound (core_of c)" "live (cell_of c)"
  shows "c_value (cell_of (core_run op c (xs @ [x]))) = view x (core_run core_op (core_of c) (xs @ [x]))"
  using shows_view [OF assms, of "xs @ [x]"] by (simp add: core_views_snoc)

lemma notifies_changes:
  "sound (core_of c) \<Longrightarrow> live (cell_of c) \<Longrightarrow> c_notified (cell_of (core_run op c xs)) =
     c_notified (cell_of c) + value_changes (c_value (cell_of c)) (core_views core_op view (core_of c) xs)"
  by (simp add: run_cell cell_writes_notified)

end

text \<open>A view that does not depend on the operation is shown after every run, once it is shown at the start.\<close>

locale steady_projecting = projecting core_of cell_of op core_op "\<lambda>_. view" sound
  for core_of :: "'c \<Rightarrow> 's" and cell_of :: "'c \<Rightarrow> 'v cell" and op :: "'c \<Rightarrow> 'op \<Rightarrow> 'c"
    and core_op :: "'s \<Rightarrow> 'op \<Rightarrow> 's" and view :: "'s \<Rightarrow> 'v" and sound :: "'s \<Rightarrow> bool"
begin

lemma shows_core:
  assumes "sound (core_of c)" "live (cell_of c)" "c_value (cell_of c) = view (core_of c)"
  shows "c_value (cell_of (core_run op c xs)) = view (core_run core_op (core_of c) xs)"
proof (cases xs rule: rev_exhaust)
  case Nil
  then show ?thesis using assms by simp
next
  case (snoc ys y)
  show ?thesis unfolding snoc by (rule shows_last [OF assms(1,2)])
qed

text \<open>The notifications of a run, with the views of the prefixes given by a function of the history.\<close>

lemma notifies_history:
  assumes "sound (core_of c)" "live (cell_of c)"
    and "\<And>ys. view (core_run core_op (core_of c) ys) = hist ys"
  shows "c_notified (cell_of (core_run op c xs)) = c_notified (cell_of c) +
     value_changes (c_value (cell_of c)) (map (\<lambda>n. hist (take (Suc n) xs)) [0..<length xs])"
proof -
  have "core_views core_op (\<lambda>_. view) (core_of c) xs = map (\<lambda>n. hist (take (Suc n) xs)) [0..<length xs]"
    by (induction xs rule: rev_induct) (auto simp: core_views_snoc assms(3))
  then show ?thesis using notifies_changes [OF assms(1,2), of xs] by simp
qed

end

end
