(* ===== verification/Service.thy ===== *)
theory Service
  imports Projection
begin

text \<open>
  The embedded-service plane, \<^verbatim>\<open>src/lazily/service.py\<close>: health and readiness aggregates, discovery
  with peer eviction, and the durable registry whose projection is the fold of its log. A core is
  its dictionary (an association list where the code iterates it); each cell holds its core and the
  \<^verbatim>\<open>Cell\<close> the recomputed view is assigned to.
\<close>

section \<open>Health\<close>

datatype health = Healthy | Degraded | Unhealthy

record 'k health_core =
  hc_probes :: "('k \<times> bool \<times> bool) list"

definition health_core_new :: "'k health_core" where
  "health_core_new = \<lparr>hc_probes = []\<rparr>"

definition hc_set :: "'k health_core \<Rightarrow> 'k \<Rightarrow> bool \<Rightarrow> bool \<Rightarrow> 'k health_core" where
  "hc_set c name up critical = c\<lparr>hc_probes := AList.update name (up, critical) (hc_probes c)\<rparr>"

definition hc_health :: "'k health_core \<Rightarrow> health" where
  "hc_health c =
     (if \<exists>(up, critical) \<in> set (map snd (hc_probes c)). critical \<and> \<not> up then Unhealthy
      else if \<exists>(up, critical) \<in> set (map snd (hc_probes c)). \<not> up then Degraded
      else Healthy)"

record 'k health_cell =
  hl_core :: "'k health_core"
  hl_health :: "health cell"

definition health_cell_new :: "'k health_cell" where
  "health_cell_new = \<lparr>hl_core = health_core_new, hl_health = cell_new Healthy\<rparr>"

definition hl_refresh :: "'k health_cell \<Rightarrow> 'k health_cell" where
  "hl_refresh c = c\<lparr>hl_health := cell_set (hl_health c) (hc_health (hl_core c))\<rparr>"

definition hl_set :: "'k health_cell \<Rightarrow> 'k \<Rightarrow> bool \<Rightarrow> bool \<Rightarrow> 'k health_cell" where
  "hl_set c name up critical = hl_refresh (c\<lparr>hl_core := hc_set (hl_core c) name up critical\<rparr>)"

section \<open>Readiness\<close>

record 'k readiness_core =
  rc_conditions :: "('k \<times> bool) list"

definition readiness_core_new :: "'k readiness_core" where
  "readiness_core_new = \<lparr>rc_conditions = []\<rparr>"

definition rc_set :: "'k readiness_core \<Rightarrow> 'k \<Rightarrow> bool \<Rightarrow> 'k readiness_core" where
  "rc_set c name ready = c\<lparr>rc_conditions := AList.update name ready (rc_conditions c)\<rparr>"

definition rc_ready :: "'k readiness_core \<Rightarrow> bool" where
  "rc_ready c \<longleftrightarrow> (\<forall>b \<in> set (map snd (rc_conditions c)). b)"

record 'k readiness_cell =
  rd_core :: "'k readiness_core"
  rd_ready :: "bool cell"

definition readiness_cell_new :: "'k readiness_cell" where
  "readiness_cell_new = \<lparr>rd_core = readiness_core_new, rd_ready = cell_new True\<rparr>"

definition rd_refresh :: "'k readiness_cell \<Rightarrow> 'k readiness_cell" where
  "rd_refresh c = c\<lparr>rd_ready := cell_set (rd_ready c) (rc_ready (rd_core c))\<rparr>"

definition rd_set :: "'k readiness_cell \<Rightarrow> 'k \<Rightarrow> bool \<Rightarrow> 'k readiness_cell" where
  "rd_set c name ready = rd_refresh (c\<lparr>rd_core := rc_set (rd_core c) name ready\<rparr>)"

section \<open>Discovery\<close>

record ('k, 'e, 'p) discovery_core =
  dc_entries :: "('k \<times> 'e \<times> 'p) list"

definition discovery_core_new :: "('k, 'e, 'p) discovery_core" where
  "discovery_core_new = \<lparr>dc_entries = []\<rparr>"

definition dc_register :: "('k, 'e, 'p) discovery_core \<Rightarrow> 'k \<Rightarrow> 'e \<Rightarrow> 'p \<Rightarrow> ('k, 'e, 'p) discovery_core" where
  "dc_register c service endpoint peer =
     c\<lparr>dc_entries := AList.update service (endpoint, peer) (dc_entries c)\<rparr>"

definition dc_deregister :: "('k, 'e, 'p) discovery_core \<Rightarrow> 'k \<Rightarrow> ('k, 'e, 'p) discovery_core" where
  "dc_deregister c service = c\<lparr>dc_entries := AList.delete service (dc_entries c)\<rparr>"

definition dc_evict :: "('k, 'e, 'p) discovery_core \<Rightarrow> 'p \<Rightarrow> ('k, 'e, 'p) discovery_core" where
  "dc_evict c peer = c\<lparr>dc_entries := filter (\<lambda>(service, endpoint, owner). owner \<noteq> peer) (dc_entries c)\<rparr>"

definition dc_resolve :: "('k, 'e, 'p) discovery_core \<Rightarrow> 'k \<Rightarrow> 'e option" where
  "dc_resolve c service = map_option fst (map_of (dc_entries c) service)"

text \<open>The fresh dictionary; two dictionaries compare as maps, whatever their order.\<close>

definition dc_discovery :: "('k, 'e, 'p) discovery_core \<Rightarrow> ('k \<rightharpoonup> 'e)" where
  "dc_discovery c = map_of (map (\<lambda>(service, endpoint, owner). (service, endpoint)) (dc_entries c))"

record ('k, 'e, 'p) discovery_cell =
  ds_core :: "('k, 'e, 'p) discovery_core"
  ds_discovery :: "('k \<rightharpoonup> 'e) cell"

definition discovery_cell_new :: "('k, 'e, 'p) discovery_cell" where
  "discovery_cell_new = \<lparr>ds_core = discovery_core_new, ds_discovery = cell_new Map.empty\<rparr>"

definition ds_refresh :: "('k, 'e, 'p) discovery_cell \<Rightarrow> ('k, 'e, 'p) discovery_cell" where
  "ds_refresh c = c\<lparr>ds_discovery := cell_set (ds_discovery c) (dc_discovery (ds_core c))\<rparr>"

definition ds_register :: "('k, 'e, 'p) discovery_cell \<Rightarrow> 'k \<Rightarrow> 'e \<Rightarrow> 'p \<Rightarrow> ('k, 'e, 'p) discovery_cell" where
  "ds_register c service endpoint peer = ds_refresh (c\<lparr>ds_core := dc_register (ds_core c) service endpoint peer\<rparr>)"

definition ds_deregister :: "('k, 'e, 'p) discovery_cell \<Rightarrow> 'k \<Rightarrow> ('k, 'e, 'p) discovery_cell" where
  "ds_deregister c service = ds_refresh (c\<lparr>ds_core := dc_deregister (ds_core c) service\<rparr>)"

definition ds_evict :: "('k, 'e, 'p) discovery_cell \<Rightarrow> 'p \<Rightarrow> ('k, 'e, 'p) discovery_cell" where
  "ds_evict c peer = ds_refresh (c\<lparr>ds_core := dc_evict (ds_core c) peer\<rparr>)"

definition ds_resolve :: "('k, 'e, 'p) discovery_cell \<Rightarrow> 'k \<Rightarrow> 'e option" where
  "ds_resolve c service = dc_resolve (ds_core c) service"

section \<open>The durable registry\<close>

text \<open>\<^verbatim>\<open>AssertionError\<close>: a register entry without an endpoint, or an entry of another kind.\<close>

datatype registry_error = Missing_endpoint | Unknown_op_kind string

record ('k, 'e) registry_op =
  ro_kind :: string
  ro_service :: 'k
  ro_endpoint :: "'e option"

record ('k, 'e) registry_core =
  rg_log :: "('k, 'e) registry_op list"
  rg_projection :: "'k \<rightharpoonup> 'e"

definition registry_core_new :: "('k, 'e) registry_core" where
  "registry_core_new = \<lparr>rg_log = [], rg_projection = Map.empty\<rparr>"

definition registry_apply :: "('k \<rightharpoonup> 'e) \<Rightarrow> ('k, 'e) registry_op \<Rightarrow> registry_error + ('k \<rightharpoonup> 'e)" where
  "registry_apply projection x =
     (if ro_kind x = ''register''
      then (case ro_endpoint x of None \<Rightarrow> Inl Missing_endpoint
            | Some endpoint \<Rightarrow> Inr (projection(ro_service x \<mapsto> endpoint)))
      else if ro_kind x = ''deregister'' then Inr (projection(ro_service x := None))
      else Inl (Unknown_op_kind (ro_kind x)))"

definition registry_log_op :: "('k, 'e) registry_core \<Rightarrow> ('k, 'e) registry_op \<Rightarrow> registry_error + ('k, 'e) registry_core" where
  "registry_log_op c x =
     (case registry_apply (rg_projection c) x of
        Inl e \<Rightarrow> Inl e
      | Inr p \<Rightarrow> Inr (c\<lparr>rg_projection := p, rg_log := rg_log c @ [x]\<rparr>))"

definition rg_register :: "('k, 'e) registry_core \<Rightarrow> 'k \<Rightarrow> 'e \<Rightarrow> registry_error + ('k, 'e) registry_core" where
  "rg_register c service endpoint =
     registry_log_op c \<lparr>ro_kind = ''register'', ro_service = service, ro_endpoint = Some endpoint\<rparr>"

definition rg_deregister :: "('k, 'e) registry_core \<Rightarrow> 'k \<Rightarrow> registry_error + ('k, 'e) registry_core" where
  "rg_deregister c service =
     registry_log_op c \<lparr>ro_kind = ''deregister'', ro_service = service, ro_endpoint = None\<rparr>"

fun registry_fold :: "('k \<rightharpoonup> 'e) \<Rightarrow> ('k, 'e) registry_op list \<Rightarrow> registry_error + ('k \<rightharpoonup> 'e)" where
  "registry_fold p [] = Inr p"
| "registry_fold p (x # xs) = (case registry_apply p x of Inl e \<Rightarrow> Inl e | Inr p' \<Rightarrow> registry_fold p' xs)"

definition rg_replay :: "('k, 'e) registry_core \<Rightarrow> registry_error + ('k, 'e) registry_core" where
  "rg_replay c =
     (case registry_fold Map.empty (rg_log c) of
        Inl e \<Rightarrow> Inl e
      | Inr p \<Rightarrow> Inr (c\<lparr>rg_projection := p\<rparr>))"

definition rg_snapshot :: "('k, 'e) registry_core \<Rightarrow> ('k \<rightharpoonup> 'e)" where
  "rg_snapshot c = rg_projection c"

record ('k, 'e) service_registry =
  sr_core :: "('k, 'e) registry_core"
  sr_projection :: "('k \<rightharpoonup> 'e) cell"

definition service_registry_new :: "('k, 'e) service_registry" where
  "service_registry_new = \<lparr>sr_core = registry_core_new, sr_projection = cell_new Map.empty\<rparr>"

definition sr_refresh :: "('k, 'e) service_registry \<Rightarrow> ('k, 'e) service_registry" where
  "sr_refresh r = r\<lparr>sr_projection := cell_set (sr_projection r) (rg_snapshot (sr_core r))\<rparr>"

text \<open>A raised assertion leaves the method before the refresh.\<close>

definition sr_after :: "('k, 'e) service_registry \<Rightarrow> registry_error + ('k, 'e) registry_core \<Rightarrow>
    registry_error + ('k, 'e) service_registry" where
  "sr_after r outcome = (case outcome of Inl e \<Rightarrow> Inl e | Inr c \<Rightarrow> Inr (sr_refresh (r\<lparr>sr_core := c\<rparr>)))"

definition sr_register :: "('k, 'e) service_registry \<Rightarrow> 'k \<Rightarrow> 'e \<Rightarrow> registry_error + ('k, 'e) service_registry" where
  "sr_register r service endpoint = sr_after r (rg_register (sr_core r) service endpoint)"

definition sr_deregister :: "('k, 'e) service_registry \<Rightarrow> 'k \<Rightarrow> registry_error + ('k, 'e) service_registry" where
  "sr_deregister r service = sr_after r (rg_deregister (sr_core r) service)"

definition sr_replay :: "('k, 'e) service_registry \<Rightarrow> registry_error + ('k, 'e) service_registry" where
  "sr_replay r = sr_after r (rg_replay (sr_core r))"

chapter \<open>Properties\<close>

text \<open>
  The service cells over their histories: what each view is as a function of the calls made, and the
  interpretation of \<open>steady_projecting\<close> on each cell.
\<close>

section \<open>The registry\<close>

datatype ('k, 'e) registry_call =
    Call_register 'k 'e
  | Call_deregister 'k
  | Call_replay

primrec rg_call :: "('k, 'e) registry_core \<Rightarrow> ('k, 'e) registry_call \<Rightarrow> registry_error + ('k, 'e) registry_core" where
  "rg_call c (Call_register k e) = rg_register c k e"
| "rg_call c (Call_deregister k) = rg_deregister c k"
| "rg_call c Call_replay = rg_replay c"

primrec sr_call :: "('k, 'e) service_registry \<Rightarrow> ('k, 'e) registry_call \<Rightarrow> registry_error + ('k, 'e) service_registry" where
  "sr_call r (Call_register k e) = sr_register r k e"
| "sr_call r (Call_deregister k) = sr_deregister r k"
| "sr_call r Call_replay = sr_replay r"

text \<open>A call that raises leaves its state.\<close>

definition rg_step :: "('k, 'e) registry_core \<Rightarrow> ('k, 'e) registry_call \<Rightarrow> ('k, 'e) registry_core" where
  "rg_step c x = (case rg_call c x of Inl e \<Rightarrow> c | Inr c' \<Rightarrow> c')"

definition sr_step :: "('k, 'e) service_registry \<Rightarrow> ('k, 'e) registry_call \<Rightarrow> ('k, 'e) service_registry" where
  "sr_step r x = (case sr_call r x of Inl e \<Rightarrow> r | Inr r' \<Rightarrow> r')"

definition registry_sound :: "('k, 'e) registry_core \<Rightarrow> bool" where
  "registry_sound c \<longleftrightarrow> registry_fold Map.empty (rg_log c) = Inr (rg_projection c)"

lemma registry_fold_snoc:
  "registry_fold p (xs @ [x]) = (case registry_fold p xs of Inl e \<Rightarrow> Inl e | Inr q \<Rightarrow> registry_apply q x)"
  by (induction xs arbitrary: p) (auto split: sum.splits)

lemma rg_call_result:
  "registry_sound c \<Longrightarrow> rg_call c x = Inr (case x of
     Call_register k e \<Rightarrow> c\<lparr>rg_projection := (rg_projection c)(k \<mapsto> e),
         rg_log := rg_log c @ [\<lparr>ro_kind = ''register'', ro_service = k, ro_endpoint = Some e\<rparr>]\<rparr>
   | Call_deregister k \<Rightarrow> c\<lparr>rg_projection := (rg_projection c)(k := None),
         rg_log := rg_log c @ [\<lparr>ro_kind = ''deregister'', ro_service = k, ro_endpoint = None\<rparr>]\<rparr>
   | Call_replay \<Rightarrow> c)"
  by (cases x) (simp_all add: rg_register_def rg_deregister_def registry_log_op_def registry_apply_def
      rg_replay_def registry_sound_def)

lemma sr_call_after: "sr_call r x = sr_after r (rg_call (sr_core r) x)"
  by (cases x) (simp_all add: sr_register_def sr_deregister_def sr_replay_def)

lemma registry_new_sound: "registry_sound registry_core_new"
  by (simp add: registry_sound_def registry_core_new_def)

lemma rg_step_sound: "registry_sound c \<Longrightarrow> registry_sound (rg_step c x)"
proof -
  assume s: "registry_sound c"
  then show ?thesis
    unfolding rg_step_def rg_call_result [OF s]
    by (cases x) (simp_all add: registry_sound_def registry_fold_snoc registry_apply_def)
qed

interpretation registry: steady_projecting sr_core sr_projection sr_step rg_step rg_snapshot registry_sound
proof unfold_locales
  fix c :: "('a, 'b) registry_core" and x
  show "registry_sound c \<Longrightarrow> registry_sound (rg_step c x)" by (rule rg_step_sound)
next
  fix r :: "('a, 'b) service_registry" and x
  assume s: "registry_sound (sr_core r)"
  show "sr_core (sr_step r x) = rg_step (sr_core r) x"
    by (simp add: sr_step_def rg_step_def sr_call_after sr_after_def sr_refresh_def rg_call_result [OF s])
  show "sr_projection (sr_step r x) = cell_set (sr_projection r) (rg_snapshot (rg_step (sr_core r) x))"
    by (simp add: sr_step_def rg_step_def sr_call_after sr_after_def sr_refresh_def rg_call_result [OF s])
qed

text \<open>What the history of calls registers for a service: the last call that names it decides.\<close>

definition names_service :: "'k \<Rightarrow> ('k, 'e) registry_call \<Rightarrow> bool" where
  "names_service k x \<longleftrightarrow> (case x of Call_register k' e \<Rightarrow> k' = k | Call_deregister k' \<Rightarrow> k' = k | Call_replay \<Rightarrow> False)"

definition registered_now :: "('k, 'e) registry_call list \<Rightarrow> 'k \<Rightarrow> 'e option" where
  "registered_now xs k =
     (case List.find (names_service k) (rev xs) of Some (Call_register k' e) \<Rightarrow> Some e | _ \<Rightarrow> None)"

definition durable_ops :: "('k, 'e) registry_call list \<Rightarrow> ('k, 'e) registry_op list" where
  "durable_ops = List.map_filter (\<lambda>x. case x of
       Call_register k e \<Rightarrow> Some \<lparr>ro_kind = ''register'', ro_service = k, ro_endpoint = Some e\<rparr>
     | Call_deregister k \<Rightarrow> Some \<lparr>ro_kind = ''deregister'', ro_service = k, ro_endpoint = None\<rparr>
     | Call_replay \<Rightarrow> None)"

lemma registered_snoc: "registered_now (xs @ [x]) = (case x of
     Call_register k e \<Rightarrow> (registered_now xs)(k \<mapsto> e) | Call_deregister k \<Rightarrow> (registered_now xs)(k := None)
   | Call_replay \<Rightarrow> registered_now xs)"
  by (cases x) (auto simp: registered_now_def names_service_def fun_eq_iff)

lemma durable_ops_snoc: "durable_ops (xs @ [x]) = durable_ops xs @ durable_ops [x]"
  by (simp add: durable_ops_def map_filter_def)

lemmas rg_step_cases = rg_step_def rg_call_result [where x = "Call_register k e" for k e, simplified]
  rg_call_result [where x = "Call_deregister k" for k, simplified] rg_call_result [where x = Call_replay, simplified]

lemma rg_step_log: "registry_sound c \<Longrightarrow> rg_log (rg_step c x) = rg_log c @ durable_ops [x]"
  by (cases x) (simp_all add: rg_step_cases durable_ops_def map_filter_def)

lemma rg_step_projection:
  "registry_sound c \<Longrightarrow> rg_projection c = registered_now xs \<Longrightarrow> rg_projection (rg_step c x) = registered_now (xs @ [x])"
  by (cases x) (simp_all add: rg_step_cases registered_snoc)

lemma registry_run:
  "rg_projection (core_run rg_step registry_core_new xs) = registered_now xs \<and>
   rg_log (core_run rg_step registry_core_new xs) = durable_ops xs"
proof (induction xs rule: rev_induct)
  case Nil
  show ?case by (simp add: registry_core_new_def registered_now_def durable_ops_def map_filter_def fun_eq_iff)
next
  case (snoc x xs)
  have s: "registry_sound (core_run rg_step registry_core_new xs)"
    by (rule registry.run_sound [OF registry_new_sound])
  show ?case using snoc by (simp add: core_run_snoc rg_step_log [OF s] rg_step_projection [OF s] durable_ops_snoc)
qed

section \<open>Discovery\<close>

datatype ('k, 'e, 'p) discovery_call =
    Disc_register 'k 'e 'p
  | Disc_deregister 'k
  | Disc_evict 'p

primrec dc_step :: "('k, 'e, 'p) discovery_core \<Rightarrow> ('k, 'e, 'p) discovery_call \<Rightarrow> ('k, 'e, 'p) discovery_core" where
  "dc_step c (Disc_register k e p) = dc_register c k e p"
| "dc_step c (Disc_deregister k) = dc_deregister c k"
| "dc_step c (Disc_evict p) = dc_evict c p"

primrec ds_step :: "('k, 'e, 'p) discovery_cell \<Rightarrow> ('k, 'e, 'p) discovery_call \<Rightarrow> ('k, 'e, 'p) discovery_cell" where
  "ds_step c (Disc_register k e p) = ds_register c k e p"
| "ds_step c (Disc_deregister k) = ds_deregister c k"
| "ds_step c (Disc_evict p) = ds_evict c p"

definition discovery_sound :: "('k, 'e, 'p) discovery_core \<Rightarrow> bool" where
  "discovery_sound c \<longleftrightarrow> distinct (map fst (dc_entries c))"

lemma dc_step_sound: "discovery_sound c \<Longrightarrow> discovery_sound (dc_step c x)"
  by (cases x) (auto simp: discovery_sound_def dc_register_def dc_deregister_def dc_evict_def distinct_update
      AList.delete_eq distinct_map_filter)

interpretation discovery: steady_projecting ds_core ds_discovery ds_step dc_step dc_discovery discovery_sound
  by unfold_locales
     (simp add: dc_step_sound, (case_tac x; simp add: ds_register_def ds_deregister_def ds_evict_def ds_refresh_def)+)

text \<open>A later call displaces the entry of a service.\<close>

definition displaces :: "'k \<Rightarrow> 'p \<Rightarrow> ('k, 'e, 'p) discovery_call \<Rightarrow> bool" where
  "displaces k p x \<longleftrightarrow>
     (case x of Disc_register k' e p' \<Rightarrow> k' = k | Disc_deregister k' \<Rightarrow> k' = k | Disc_evict p' \<Rightarrow> p' = p)"

lemma dc_step_entry:
  assumes "discovery_sound c"
  shows "map_of (dc_entries (dc_step c x)) k = Some (e, p) \<longleftrightarrow>
     x = Disc_register k e p \<or> map_of (dc_entries c) k = Some (e, p) \<and> \<not> displaces k p x"
  using assms
  by (cases x) (auto simp: discovery_sound_def dc_register_def dc_deregister_def dc_evict_def displaces_def
      map_of_filter_distinct AList.update_conv' AList.delete_conv' simp del: map_of_eq_Some_iff split: option.splits if_splits)

lemma discovery_new_sound: "discovery_sound discovery_core_new"
  by (simp add: discovery_sound_def discovery_core_new_def)

lemma discovery_entry:
  "map_of (dc_entries (core_run dc_step discovery_core_new xs)) k = Some (e, p) \<longleftrightarrow>
     (\<exists>ys zs. xs = ys @ Disc_register k e p # zs \<and> list_all (\<lambda>z. \<not> displaces k p z) zs)"
proof -
  have "map_of (dc_entries (core_run dc_step discovery_core_new xs)) k = Some (e, p) \<longleftrightarrow>
      (\<exists>ys x zs. xs = ys @ x # zs \<and> x = Disc_register k e p \<and> list_all (\<lambda>z. \<not> displaces k p z) zs)"
    by (rule last_writer [where P = discovery_sound])
       (simp_all add: discovery_new_sound dc_step_sound dc_step_entry, simp add: discovery_core_new_def)
  then show ?thesis by auto
qed

lemma discovery_is_resolve: "dc_discovery c = dc_resolve c"
  by (rule ext) (simp add: dc_discovery_def dc_resolve_def map_of_first)

section \<open>Health and readiness\<close>

instantiation health :: linorder
begin

definition less_health :: "health \<Rightarrow> health \<Rightarrow> bool" where
  "less_health a b \<longleftrightarrow> (a = Healthy \<and> b \<noteq> Healthy) \<or> (a = Degraded \<and> b = Unhealthy)"

definition less_eq_health :: "health \<Rightarrow> health \<Rightarrow> bool" where
  "less_eq_health a b \<longleftrightarrow> a = b \<or> a < b"

instance
proof
  fix a b c :: health
  show "a < b \<longleftrightarrow> a \<le> b \<and> \<not> b \<le> a" by (cases a; cases b) (simp_all add: less_health_def less_eq_health_def)
  show "a \<le> a" by (simp add: less_eq_health_def)
  show "a \<le> b \<Longrightarrow> b \<le> c \<Longrightarrow> a \<le> c"
    by (cases a; cases b; cases c) (simp_all add: less_health_def less_eq_health_def)
  show "a \<le> b \<Longrightarrow> b \<le> a \<Longrightarrow> a = b" by (cases a; cases b) (simp_all add: less_health_def less_eq_health_def)
  show "a \<le> b \<or> b \<le> a" by (cases a; cases b) (simp_all add: less_health_def less_eq_health_def)
qed

end

text \<open>The status one probe accounts for.\<close>

definition probe_status :: "bool \<times> bool \<Rightarrow> health" where
  "probe_status pr = (if fst pr then Healthy else if snd pr then Unhealthy else Degraded)"

type_synonym 'k probe_call = "'k \<times> bool \<times> bool"

definition hl_step :: "'k health_cell \<Rightarrow> 'k probe_call \<Rightarrow> 'k health_cell" where
  "hl_step c x = hl_set c (fst x) (fst (snd x)) (snd (snd x))"

definition hc_step :: "'k health_core \<Rightarrow> 'k probe_call \<Rightarrow> 'k health_core" where
  "hc_step c x = hc_set c (fst x) (fst (snd x)) (snd (snd x))"

definition rd_step :: "'k readiness_cell \<Rightarrow> 'k \<times> bool \<Rightarrow> 'k readiness_cell" where
  "rd_step c x = rd_set c (fst x) (snd x)"

definition rc_step :: "'k readiness_core \<Rightarrow> 'k \<times> bool \<Rightarrow> 'k readiness_core" where
  "rc_step c x = rc_set c (fst x) (snd x)"

interpretation health: steady_projecting hl_core hl_health hl_step hc_step hc_health "\<lambda>c. distinct (map fst (hc_probes c))"
  by unfold_locales
     (simp_all add: hl_step_def hl_set_def hc_step_def hl_refresh_def hc_set_def distinct_update)

interpretation readiness: steady_projecting rd_core rd_ready rd_step rc_step rc_ready "\<lambda>c. distinct (map fst (rc_conditions c))"
  by unfold_locales
     (simp_all add: rd_step_def rd_set_def rc_step_def rd_refresh_def rc_set_def distinct_update)

lemma map_of_rev_snoc: "map_of (rev (xs @ [(k, v)])) = (map_of (rev xs))(k \<mapsto> v)"
  by simp

lemma health_probes:
  "map_of (hc_probes (core_run hc_step health_core_new xs)) = map_of (rev xs) \<and>
   distinct (map fst (hc_probes (core_run hc_step health_core_new xs)))"
  by (induction xs rule: rev_induct)
     (auto simp: health_core_new_def core_run_snoc hc_step_def hc_set_def AList.update_conv' distinct_update)

lemma readiness_conditions:
  "map_of (rc_conditions (core_run rc_step readiness_core_new xs)) = map_of (rev xs) \<and>
   distinct (map fst (rc_conditions (core_run rc_step readiness_core_new xs)))"
  by (induction xs rule: rev_induct)
     (auto simp: readiness_core_new_def core_run_snoc rc_step_def rc_set_def AList.update_conv' distinct_update)

lemma ran_distinct: "distinct (map fst xs) \<Longrightarrow> ran (map_of xs) = snd ` set xs"
  by (rule ran_map_of [THEN trans]) simp_all

lemma health_by_pairs: "hc_health c =
   (if (False, True) \<in> snd ` set (hc_probes c) then Unhealthy
    else if (False, False) \<in> snd ` set (hc_probes c) then Degraded else Healthy)"
proof -
  have "(\<exists>(up, critical) \<in> S. critical \<and> \<not> up) \<longleftrightarrow> (False, True) \<in> S"
    "(\<exists>(up, critical) \<in> S. \<not> up) \<longleftrightarrow> (False, True) \<in> S \<or> (False, False) \<in> S" for S :: "(bool \<times> bool) set"
    by (force, metis (mono_tags, lifting) case_prodE case_prodI)
  then show ?thesis by (simp add: hc_health_def)
qed

lemma health_worst:
  assumes "distinct (map fst (hc_probes c))"
  shows "hc_health c = Max (insert Healthy (probe_status ` ran (map_of (hc_probes c))))"
proof -
  let ?P = "snd ` set (hc_probes c)"
  have fin: "finite (insert Healthy (probe_status ` ?P))" by simp
  have ran: "ran (map_of (hc_probes c)) = ?P" by (rule ran_distinct [OF assms])
  consider (bad) "(False, True) \<in> ?P" | (weak) "(False, True) \<notin> ?P" "(False, False) \<in> ?P"
    | (fine) "(False, True) \<notin> ?P" "(False, False) \<notin> ?P" by blast
  then have "Max (insert Healthy (probe_status ` ?P)) = hc_health c"
  proof cases
    case bad
    then have "hc_health c = Unhealthy" by (simp only: health_by_pairs if_True if_False)
    moreover have "Unhealthy \<in> insert Healthy (probe_status ` ?P)"
      using bad by (auto simp: probe_status_def intro!: rev_image_eqI)
    moreover have "h \<le> Unhealthy" for h by (cases h) (simp_all add: less_eq_health_def less_health_def)
    ultimately show ?thesis by (intro Max_eqI [OF fin]) auto
  next
    case weak
    then have "hc_health c = Degraded" by (simp only: health_by_pairs if_True if_False)
    moreover have "Degraded \<in> insert Healthy (probe_status ` ?P)"
      using weak(2) by (auto simp: probe_status_def intro!: rev_image_eqI)
    moreover have "probe_status q \<le> Degraded" if q: "q \<in> ?P" for q
    proof -
      have "q \<noteq> (False, True)" using q weak(1) by metis
      then show ?thesis by (cases q) (auto simp: probe_status_def less_eq_health_def less_health_def)
    qed
    ultimately show ?thesis by (intro Max_eqI [OF fin]) (auto simp: less_eq_health_def less_health_def)
  next
    case fine
    then have "hc_health c = Healthy" by (simp only: health_by_pairs if_True if_False)
    moreover have "probe_status q = Healthy" if q: "q \<in> ?P" for q
    proof -
      have "q \<noteq> (False, True)" "q \<noteq> (False, False)" using q fine by metis+
      then show ?thesis by (cases q) (auto simp: probe_status_def)
    qed
    ultimately show ?thesis by (intro Max_eqI [OF fin]) auto
  qed
  then show ?thesis unfolding ran by simp
qed

end
