(* ===== verification/Presence.thy ===== *)
theory Presence
  imports Projection
begin

text \<open>
  The ephemeral plane, \<^verbatim>\<open>src/lazily/presence.py\<close>: a value with an expiry, the per-peer map with
  expiries behind presence and awareness, and the cells that show the live view. Time is the logical
  clock the caller passes. The \<^verbatim>\<open>Ephemeral\<close> and \<^verbatim>\<open>Durable\<close> markers have no behaviour.
\<close>

section \<open>One ephemeral value\<close>

record 'v ephemeral_core =
  ep_value :: "'v option"
  ep_expiry :: int

definition ephemeral_core_new :: "'v ephemeral_core" where
  "ephemeral_core_new = \<lparr>ep_value = None, ep_expiry = 0\<rparr>"

definition ep_set :: "'v ephemeral_core \<Rightarrow> 'v \<Rightarrow> int \<Rightarrow> int \<Rightarrow> 'v ephemeral_core" where
  "ep_set c v now ttl = c\<lparr>ep_value := Some v, ep_expiry := now + ttl\<rparr>"

definition ep_tick :: "'v ephemeral_core \<Rightarrow> int \<Rightarrow> 'v ephemeral_core" where
  "ep_tick c now = (if ep_value c \<noteq> None \<and> now \<ge> ep_expiry c then c\<lparr>ep_value := None\<rparr> else c)"

record 'v ephemeral_cell =
  ec_core :: "'v ephemeral_core"
  ec_value :: "'v option cell"

definition ephemeral_cell_new :: "'v ephemeral_cell" where
  "ephemeral_cell_new = \<lparr>ec_core = ephemeral_core_new, ec_value = cell_new None\<rparr>"

definition ec_refresh :: "'v ephemeral_cell \<Rightarrow> 'v ephemeral_cell" where
  "ec_refresh c = c\<lparr>ec_value := cell_set (ec_value c) (ep_value (ec_core c))\<rparr>"

definition ec_set :: "'v ephemeral_cell \<Rightarrow> 'v \<Rightarrow> int \<Rightarrow> int \<Rightarrow> 'v ephemeral_cell" where
  "ec_set c v now ttl = ec_refresh (c\<lparr>ec_core := ep_set (ec_core c) v now ttl\<rparr>)"

definition ec_tick :: "'v ephemeral_cell \<Rightarrow> int \<Rightarrow> 'v ephemeral_cell" where
  "ec_tick c now = ec_refresh (c\<lparr>ec_core := ep_tick (ec_core c) now\<rparr>)"

section \<open>The per-peer map\<close>

record ('k, 'v) ephemeral_map =
  em_entries :: "('k \<times> 'v \<times> int) list"

definition ephemeral_map_new :: "('k, 'v) ephemeral_map" where
  "ephemeral_map_new = \<lparr>em_entries = []\<rparr>"

definition em_set :: "('k, 'v) ephemeral_map \<Rightarrow> 'k \<Rightarrow> 'v \<Rightarrow> int \<Rightarrow> int \<Rightarrow> ('k, 'v) ephemeral_map" where
  "em_set m k v now ttl = m\<lparr>em_entries := AList.update k (v, now + ttl) (em_entries m)\<rparr>"

definition em_evict :: "('k, 'v) ephemeral_map \<Rightarrow> 'k \<Rightarrow> ('k, 'v) ephemeral_map" where
  "em_evict m k = m\<lparr>em_entries := AList.delete k (em_entries m)\<rparr>"

definition em_tick :: "('k, 'v) ephemeral_map \<Rightarrow> int \<Rightarrow> ('k, 'v) ephemeral_map" where
  "em_tick m now = m\<lparr>em_entries := filter (\<lambda>(k, v, expiry). now < expiry) (em_entries m)\<rparr>"

definition em_get :: "('k, 'v) ephemeral_map \<Rightarrow> 'k \<Rightarrow> int \<Rightarrow> 'v option" where
  "em_get m k now =
     (case map_of (em_entries m) k of
        None \<Rightarrow> None
      | Some (v, expiry) \<Rightarrow> if now < expiry then Some v else None)"

text \<open>The items sorted by key, without the expired ones, as a dictionary.\<close>

definition em_present :: "('k::linorder, 'v) ephemeral_map \<Rightarrow> int \<Rightarrow> ('k \<rightharpoonup> 'v)" where
  "em_present m now =
     map_of (map (\<lambda>(k, v, expiry). (k, v)) (filter (\<lambda>(k, v, expiry). now < expiry) (sort_key fst (em_entries m))))"

section \<open>Presence\<close>

record ('k, 'v) presence_cell =
  pc_core :: "('k, 'v) ephemeral_map"
  pc_present :: "('k \<rightharpoonup> 'v) cell"
  pc_ttl :: int

definition presence_cell_new :: "int \<Rightarrow> ('k, 'v) presence_cell" where
  "presence_cell_new ttl = \<lparr>pc_core = ephemeral_map_new, pc_present = cell_new Map.empty, pc_ttl = ttl\<rparr>"

definition pc_refresh :: "('k::linorder, 'v) presence_cell \<Rightarrow> int \<Rightarrow> ('k, 'v) presence_cell" where
  "pc_refresh c now = c\<lparr>pc_present := cell_set (pc_present c) (em_present (pc_core c) now)\<rparr>"

definition pc_heartbeat :: "('k::linorder, 'v) presence_cell \<Rightarrow> 'k \<Rightarrow> 'v \<Rightarrow> int \<Rightarrow> ('k, 'v) presence_cell" where
  "pc_heartbeat c peer v now = pc_refresh (c\<lparr>pc_core := em_set (pc_core c) peer v now (pc_ttl c)\<rparr>) now"

definition pc_evict :: "('k::linorder, 'v) presence_cell \<Rightarrow> 'k \<Rightarrow> int \<Rightarrow> ('k, 'v) presence_cell" where
  "pc_evict c peer now = pc_refresh (c\<lparr>pc_core := em_evict (pc_core c) peer\<rparr>) now"

definition pc_tick :: "('k::linorder, 'v) presence_cell \<Rightarrow> int \<Rightarrow> ('k, 'v) presence_cell" where
  "pc_tick c now = pc_refresh (c\<lparr>pc_core := em_tick (pc_core c) now\<rparr>) now"

section \<open>Awareness\<close>

record ('k, 'v) awareness_cell =
  aw_core :: "('k, 'v) ephemeral_map"
  aw_present :: "('k \<rightharpoonup> 'v) cell"
  aw_ttl :: int

definition awareness_cell_new :: "int \<Rightarrow> ('k, 'v) awareness_cell" where
  "awareness_cell_new ttl = \<lparr>aw_core = ephemeral_map_new, aw_present = cell_new Map.empty, aw_ttl = ttl\<rparr>"

definition aw_refresh :: "('k::linorder, 'v) awareness_cell \<Rightarrow> int \<Rightarrow> ('k, 'v) awareness_cell" where
  "aw_refresh c now = c\<lparr>aw_present := cell_set (aw_present c) (em_present (aw_core c) now)\<rparr>"

definition aw_set :: "('k::linorder, 'v) awareness_cell \<Rightarrow> 'k \<Rightarrow> 'v \<Rightarrow> int \<Rightarrow> ('k, 'v) awareness_cell" where
  "aw_set c peer v now = aw_refresh (c\<lparr>aw_core := em_set (aw_core c) peer v now (aw_ttl c)\<rparr>) now"

definition aw_tick :: "('k::linorder, 'v) awareness_cell \<Rightarrow> int \<Rightarrow> ('k, 'v) awareness_cell" where
  "aw_tick c now = aw_refresh (c\<lparr>aw_core := em_tick (aw_core c) now\<rparr>) now"

definition aw_get :: "('k, 'v) awareness_cell \<Rightarrow> 'k \<Rightarrow> int \<Rightarrow> 'v option" where
  "aw_get c peer now = em_get (aw_core c) peer now"

chapter \<open>Properties\<close>

text \<open>
  Presence and awareness over their histories: an entry is live when its latest write has not lapsed
  by the time of the latest call. The interpretations of \<open>projecting\<close> on the three cells.
\<close>

datatype ('k, 'v) presence_call =
    Heartbeat 'k 'v int
  | Evict 'k int
  | Clock int

primrec call_time :: "('k, 'v) presence_call \<Rightarrow> int" where
  "call_time (Heartbeat k v now) = now"
| "call_time (Evict k now) = now"
| "call_time (Clock now) = now"

primrec em_step :: "int \<Rightarrow> ('k, 'v) ephemeral_map \<Rightarrow> ('k, 'v) presence_call \<Rightarrow> ('k, 'v) ephemeral_map" where
  "em_step ttl m (Heartbeat k v now) = em_set m k v now ttl"
| "em_step ttl m (Evict k now) = em_evict m k"
| "em_step ttl m (Clock now) = em_tick m now"

primrec pc_step :: "('k::linorder, 'v) presence_cell \<Rightarrow> ('k, 'v) presence_call \<Rightarrow> ('k, 'v) presence_cell" where
  "pc_step c (Heartbeat k v now) = pc_heartbeat c k v now"
| "pc_step c (Evict k now) = pc_evict c k now"
| "pc_step c (Clock now) = pc_tick c now"

definition em_distinct :: "('k, 'v) ephemeral_map \<Rightarrow> bool" where
  "em_distinct m \<longleftrightarrow> distinct (map fst (em_entries m))"

lemma em_new_distinct: "em_distinct ephemeral_map_new"
  by (simp add: em_distinct_def ephemeral_map_new_def)

lemma em_step_distinct: "em_distinct m \<Longrightarrow> em_distinct (em_step ttl m x)"
  by (cases x) (auto simp: em_distinct_def em_set_def em_evict_def em_tick_def distinct_update
      AList.delete_eq distinct_map_filter)

interpretation presence: projecting "\<lambda>c. (pc_ttl c, pc_core c)" pc_present pc_step
    "\<lambda>(ttl, m) x. (ttl, em_step ttl m x)" "\<lambda>x (ttl, m). em_present m (call_time x)" "\<lambda>(ttl, m). em_distinct m"
  by unfold_locales
     (auto simp: em_step_distinct, (case_tac x; simp add: pc_heartbeat_def pc_evict_def pc_tick_def pc_refresh_def)+)

datatype ('k, 'v) awareness_call =
    Aw_write 'k 'v int
  | Aw_clock int

primrec as_presence :: "('k, 'v) awareness_call \<Rightarrow> ('k, 'v) presence_call" where
  "as_presence (Aw_write k v now) = Heartbeat k v now"
| "as_presence (Aw_clock now) = Clock now"

primrec aw_step :: "('k::linorder, 'v) awareness_cell \<Rightarrow> ('k, 'v) awareness_call \<Rightarrow> ('k, 'v) awareness_cell" where
  "aw_step c (Aw_write k v now) = aw_set c k v now"
| "aw_step c (Aw_clock now) = aw_tick c now"

interpretation awareness: projecting "\<lambda>c. (aw_ttl c, aw_core c)" aw_present aw_step
    "\<lambda>(ttl, m) x. (ttl, em_step ttl m (as_presence x))" "\<lambda>x (ttl, m). em_present m (call_time (as_presence x))"
    "\<lambda>(ttl, m). em_distinct m"
  by unfold_locales
     (auto simp: em_step_distinct, (case_tac x; simp add: aw_set_def aw_tick_def aw_refresh_def)+)

section \<open>The live view\<close>

lemma map_of_sort_key:
  assumes "distinct (map fst xs)"
  shows "map_of (sort_key fst xs) = map_of xs"
proof -
  have "distinct (map fst (sort_key fst xs))"
    using assms by (simp add: distinct_map)
  then show ?thesis using assms by (intro map_of_inject_set [THEN iffD2]) simp_all
qed

lemma present_is_get: "em_distinct m \<Longrightarrow> em_present m now = (\<lambda>k. em_get m k now)"
proof
  fix k
  assume d: "em_distinct m"
  then have "distinct (map fst (sort_key fst (em_entries m)))" by (simp add: em_distinct_def distinct_map)
  then show "em_present m now k = em_get m k now"
    using d by (simp add: em_present_def em_get_def em_distinct_def map_of_sort_key map_of_first
        map_of_filter_distinct split: option.split)
qed

section \<open>Which write an entry comes from\<close>

text \<open>A later call displaces an entry with the given expiry: another write or eviction of the peer, or a late tick.\<close>

definition replaces :: "'k \<Rightarrow> int \<Rightarrow> ('k, 'v) presence_call \<Rightarrow> bool" where
  "replaces k expiry x \<longleftrightarrow>
     (case x of Heartbeat k' v now \<Rightarrow> k' = k | Evict k' now \<Rightarrow> k' = k | Clock now \<Rightarrow> expiry \<le> now)"

lemma em_step_entry:
  assumes "em_distinct m"
  shows "map_of (em_entries (em_step ttl m x)) k = Some (v, e) \<longleftrightarrow>
     x = Heartbeat k v (e - ttl) \<or> map_of (em_entries m) k = Some (v, e) \<and> \<not> replaces k e x"
  using assms
  by (cases x) (auto simp: em_distinct_def em_set_def em_evict_def em_tick_def replaces_def map_of_filter_distinct
      AList.update_conv' AList.delete_conv' simp del: map_of_eq_Some_iff split: option.splits if_splits)

lemma em_entry:
  "map_of (em_entries (core_run (em_step ttl) ephemeral_map_new xs)) k = Some (v, e) \<longleftrightarrow>
     (\<exists>ys zs. xs = ys @ Heartbeat k v (e - ttl) # zs \<and> list_all (\<lambda>z. \<not> replaces k e z) zs)"
proof -
  have "map_of (em_entries (core_run (em_step ttl) ephemeral_map_new xs)) k = Some (v, e) \<longleftrightarrow>
      (\<exists>ys x zs. xs = ys @ x # zs \<and> x = Heartbeat k v (e - ttl) \<and> list_all (\<lambda>z. \<not> replaces k e z) zs)"
    by (rule last_writer [where P = em_distinct])
       (simp_all add: em_new_distinct em_step_distinct em_step_entry, simp add: ephemeral_map_new_def)
  then show ?thesis by auto
qed

lemma em_live:
  "em_get (core_run (em_step ttl) ephemeral_map_new xs) k now = Some v \<longleftrightarrow>
     (\<exists>ys t zs. xs = ys @ Heartbeat k v t # zs \<and> list_all (\<lambda>z. \<not> replaces k (t + ttl) z) zs \<and> now < t + ttl)"
proof -
  have "em_get (core_run (em_step ttl) ephemeral_map_new xs) k now = Some v \<longleftrightarrow>
      (\<exists>e. map_of (em_entries (core_run (em_step ttl) ephemeral_map_new xs)) k = Some (v, e) \<and> now < e)"
    by (auto simp: em_get_def split: option.splits if_splits)
  also have "\<dots> \<longleftrightarrow> (\<exists>e ys zs. xs = ys @ Heartbeat k v (e - ttl) # zs \<and> list_all (\<lambda>z. \<not> replaces k e z) zs \<and> now < e)"
    by (auto simp: em_entry)
  also have "\<dots> \<longleftrightarrow> (\<exists>ys t zs. xs = ys @ Heartbeat k v t # zs \<and> list_all (\<lambda>z. \<not> replaces k (t + ttl) z) zs \<and> now < t + ttl)"
    by (metis add_diff_cancel_right' diff_add_cancel)
  finally show ?thesis .
qed

lemma em_run_distinct: "em_distinct (core_run (em_step ttl) ephemeral_map_new xs)"
  by (rule core_run_inv [where P = em_distinct]) (simp_all add: em_new_distinct em_step_distinct)

lemma presence_core_run:
  "core_run (\<lambda>(ttl, m) x. (ttl, em_step ttl m x)) (ttl, m) xs = (ttl, core_run (em_step ttl) m xs)"
  by (induction xs arbitrary: m) auto

lemma awareness_core_run:
  "core_run (\<lambda>(ttl, m) x. (ttl, em_step ttl m (as_presence x))) (ttl, m) xs = (ttl, core_run (em_step ttl) m (map as_presence xs))"
  by (induction xs arbitrary: m) auto

end
