(* ===== verification/Membership.thy ===== *)
theory Membership
  imports Complex_Main Projection
begin

text \<open>
  Membership and failure detection, \<^verbatim>\<open>src/lazily/membership.py\<close>: the SWIM states of the peers, the
  window of heartbeat intervals and the phi level, and the cell that shows the set of alive peers.
  The level is computed over the reals where the code has floats, so rounding is left out; the
  operations take the level function as an argument, and what is proved of the state machine holds
  for every such function.
\<close>

section \<open>States and events\<close>

datatype peer_state = Alive | Suspect | Dead | Left

record 'p peer_change =
  ch_kind :: string
  ch_peer :: 'p
  ch_from :: "peer_state option"
  ch_to :: "peer_state option"

definition change_joined :: "'p \<Rightarrow> 'p peer_change" where
  "change_joined p = \<lparr>ch_kind = ''joined'', ch_peer = p, ch_from = None, ch_to = None\<rparr>"

definition change_left :: "'p \<Rightarrow> 'p peer_change" where
  "change_left p = \<lparr>ch_kind = ''left'', ch_peer = p, ch_from = None, ch_to = None\<rparr>"

definition change_state :: "'p \<Rightarrow> peer_state \<Rightarrow> peer_state \<Rightarrow> 'p peer_change" where
  "change_state p a b = \<lparr>ch_kind = ''state_changed'', ch_peer = p, ch_from = Some a, ch_to = Some b\<rparr>"

record membership_config =
  cf_phi_threshold :: real
  cf_suspect_timeout :: int
  cf_max_samples :: int
  cf_min_std :: real

section \<open>The failure detector\<close>

record phi_accrual =
  pa_max_samples :: int
  pa_min_std :: real
  pa_window :: "real list"
  pa_last_heartbeat :: "int option"

definition phi_new :: "int \<Rightarrow> real \<Rightarrow> phi_accrual" where
  "phi_new max_samples min_std =
     \<lparr>pa_max_samples = max max_samples 1, pa_min_std = min_std, pa_window = [], pa_last_heartbeat = None\<rparr>"

text \<open>\<^verbatim>\<open>deque(maxlen=n).append\<close>: the front sample goes when the window is full.\<close>

definition window_push :: "int \<Rightarrow> real list \<Rightarrow> real \<Rightarrow> real list" where
  "window_push n w x = (let w' = w @ [x] in if int (length w') > n then tl w' else w')"

definition phi_heartbeat :: "phi_accrual \<Rightarrow> int \<Rightarrow> phi_accrual" where
  "phi_heartbeat d now =
     (let d1 = (case pa_last_heartbeat d of
                  None \<Rightarrow> d
                | Some before \<Rightarrow> d\<lparr>pa_window := window_push (pa_max_samples d) (pa_window d) (real_of_int (max 0 (now - before)))\<rparr>)
      in d1\<lparr>pa_last_heartbeat := Some now\<rparr>)"

definition phi_mean :: "phi_accrual \<Rightarrow> real" where
  "phi_mean d = sum_list (pa_window d) / real (length (pa_window d))"

definition phi_std :: "phi_accrual \<Rightarrow> real \<Rightarrow> real" where
  "phi_std d mean =
     max (sqrt (sum_list (map (\<lambda>x. (x - mean) * (x - mean)) (pa_window d)) / real (length (pa_window d)))) (pa_min_std d)"

text \<open>
  Over the reals the argument of \<^verbatim>\<open>_log10\<close> is positive and \<^verbatim>\<open>math.exp\<close> does not overflow, so the
  edge cases the code writes out for floats do not arise.
\<close>

definition phi_level :: "phi_accrual \<Rightarrow> int \<Rightarrow> real" where
  "phi_level d now =
     (case pa_last_heartbeat d of
        None \<Rightarrow> 0
      | Some before \<Rightarrow>
          if pa_window d = [] then 0
          else let elapsed = real_of_int (max 0 (now - before));
                   mean = phi_mean d;
                   std = phi_std d mean;
                   y = (elapsed - mean) / std;
                   e = exp (- y * (1.5976 + 0.070566 * y * y))
               in if elapsed > mean then - log 10 (e / (1 + e))
                  else - log 10 (1 - 1 / (1 + e)))"

section \<open>The core\<close>

record peer_record =
  mp_state :: peer_state
  mp_detector :: phi_accrual
  mp_suspect_since :: "int option"

record 'p membership_core =
  mb_config :: membership_config
  mb_peers :: "('p \<times> peer_record) list"

definition membership_core_new :: "membership_config \<Rightarrow> 'p membership_core" where
  "membership_core_new cfg = \<lparr>mb_config = cfg, mb_peers = []\<rparr>"

definition new_detector :: "'p membership_core \<Rightarrow> phi_accrual" where
  "new_detector c = phi_new (cf_max_samples (mb_config c)) (cf_min_std (mb_config c))"

definition alive_set :: "'p membership_core \<Rightarrow> 'p set" where
  "alive_set c = set (map fst (filter (\<lambda>(p, r). mp_state r = Alive) (mb_peers c)))"

definition peer_state_of :: "'p membership_core \<Rightarrow> 'p \<Rightarrow> peer_state option" where
  "peer_state_of c p = map_option mp_state (map_of (mb_peers c) p)"

definition put_peer :: "'p membership_core \<Rightarrow> 'p \<Rightarrow> peer_record \<Rightarrow> 'p membership_core" where
  "put_peer c p r = c\<lparr>mb_peers := AList.update p r (mb_peers c)\<rparr>"

definition mb_join :: "'p membership_core \<Rightarrow> 'p \<Rightarrow> int \<Rightarrow> 'p membership_core \<times> 'p peer_change list" where
  "mb_join c p now =
     (let prev = peer_state_of c p;
          c' = put_peer c p \<lparr>mp_state = Alive, mp_detector = phi_heartbeat (new_detector c) now, mp_suspect_since = None\<rparr>
      in (c', case prev of
                None \<Rightarrow> [change_joined p]
              | Some s \<Rightarrow> if s = Alive then [] else [change_state p s Alive]))"

definition mb_heartbeat :: "'p membership_core \<Rightarrow> 'p \<Rightarrow> int \<Rightarrow> 'p membership_core \<times> 'p peer_change list" where
  "mb_heartbeat c p now =
     (case map_of (mb_peers c) p of
        None \<Rightarrow> mb_join c p now
      | Some r \<Rightarrow>
          let r1 = r\<lparr>mp_detector := phi_heartbeat (mp_detector r) now\<rparr>; from_state = mp_state r
          in if from_state \<noteq> Alive \<and> from_state \<noteq> Left
             then (put_peer c p (r1\<lparr>mp_state := Alive, mp_suspect_since := None\<rparr>), [change_state p from_state Alive])
             else (put_peer c p r1, []))"

definition mb_leave :: "'p membership_core \<Rightarrow> 'p \<Rightarrow> int \<Rightarrow> 'p membership_core \<times> 'p peer_change list" where
  "mb_leave c p now =
     (case map_of (mb_peers c) p of
        None \<Rightarrow> (c, [])
      | Some r \<Rightarrow>
          if mp_state r = Left then (c, [])
          else (put_peer c p (r\<lparr>mp_state := Left, mp_suspect_since := None\<rparr>), [change_left p]))"

text \<open>The body of the loop of \<^verbatim>\<open>tick\<close> for one peer.\<close>

definition tick_peer :: "(phi_accrual \<Rightarrow> int \<Rightarrow> real) \<Rightarrow> membership_config \<Rightarrow> int \<Rightarrow> 'p \<times> peer_record \<Rightarrow>
    peer_record \<times> 'p peer_change list" where
  "tick_peer phi cfg now pr =
     (let p = fst pr; r = snd pr
      in if mp_state r = Alive
         then if phi (mp_detector r) now > cf_phi_threshold cfg
              then (r\<lparr>mp_state := Suspect, mp_suspect_since := Some now\<rparr>, [change_state p Alive Suspect])
              else (r, [])
         else if mp_state r = Suspect
         then if (case mp_suspect_since r of None \<Rightarrow> False | Some since \<Rightarrow> max 0 (now - since) \<ge> cf_suspect_timeout cfg)
              then (r\<lparr>mp_state := Dead\<rparr>, [change_state p Suspect Dead])
              else (r, [])
         else (r, []))"

definition mb_tick :: "(phi_accrual \<Rightarrow> int \<Rightarrow> real) \<Rightarrow> 'p membership_core \<Rightarrow> int \<Rightarrow>
    'p membership_core \<times> 'p peer_change list" where
  "mb_tick phi c now =
     (c\<lparr>mb_peers := map (\<lambda>pr. (fst pr, fst (tick_peer phi (mb_config c) now pr))) (mb_peers c)\<rparr>,
      concat (map (\<lambda>pr. snd (tick_peer phi (mb_config c) now pr)) (mb_peers c)))"

section \<open>The cell\<close>

record 'p membership_cell =
  mm_core :: "'p membership_core"
  mm_peer_set :: "'p set cell"

definition membership_cell_new :: "membership_config \<Rightarrow> 'p membership_cell" where
  "membership_cell_new cfg = \<lparr>mm_core = membership_core_new cfg, mm_peer_set = cell_new {}\<rparr>"

definition membership_refresh :: "'p membership_cell \<Rightarrow> 'p membership_cell" where
  "membership_refresh c = c\<lparr>mm_peer_set := cell_set (mm_peer_set c) (alive_set (mm_core c))\<rparr>"

definition with_core :: "'p membership_cell \<Rightarrow> 'p membership_core \<times> 'p peer_change list \<Rightarrow>
    'p membership_cell \<times> 'p peer_change list" where
  "with_core c outcome = (membership_refresh (c\<lparr>mm_core := fst outcome\<rparr>), snd outcome)"

definition membership_join :: "'p membership_cell \<Rightarrow> 'p \<Rightarrow> int \<Rightarrow> 'p membership_cell \<times> 'p peer_change list" where
  "membership_join c p now = with_core c (mb_join (mm_core c) p now)"

definition membership_heartbeat :: "'p membership_cell \<Rightarrow> 'p \<Rightarrow> int \<Rightarrow> 'p membership_cell \<times> 'p peer_change list" where
  "membership_heartbeat c p now = with_core c (mb_heartbeat (mm_core c) p now)"

definition membership_leave :: "'p membership_cell \<Rightarrow> 'p \<Rightarrow> int \<Rightarrow> 'p membership_cell \<times> 'p peer_change list" where
  "membership_leave c p now = with_core c (mb_leave (mm_core c) p now)"

definition membership_tick :: "(phi_accrual \<Rightarrow> int \<Rightarrow> real) \<Rightarrow> 'p membership_cell \<Rightarrow> int \<Rightarrow>
    'p membership_cell \<times> 'p peer_change list" where
  "membership_tick phi c now = with_core c (mb_tick phi (mm_core c) now)"

definition membership_state :: "'p membership_cell \<Rightarrow> 'p \<Rightarrow> peer_state option" where
  "membership_state c p = peer_state_of (mm_core c) p"

chapter \<open>Properties\<close>

text \<open>
  Membership over its histories: the emitted events replayed over the empty map give the states of
  the peers, every event is a legal edge of the SWIM machine, and a silent peer is declared dead.
\<close>

datatype 'p mem_call =
    Mem_join 'p int
  | Mem_heartbeat 'p int
  | Mem_leave 'p int
  | Mem_tick int

primrec mb_call :: "(phi_accrual \<Rightarrow> int \<Rightarrow> real) \<Rightarrow> 'p membership_core \<Rightarrow> 'p mem_call \<Rightarrow>
    'p membership_core \<times> 'p peer_change list" where
  "mb_call phi c (Mem_join p now) = mb_join c p now"
| "mb_call phi c (Mem_heartbeat p now) = mb_heartbeat c p now"
| "mb_call phi c (Mem_leave p now) = mb_leave c p now"
| "mb_call phi c (Mem_tick now) = mb_tick phi c now"

primrec membership_call :: "(phi_accrual \<Rightarrow> int \<Rightarrow> real) \<Rightarrow> 'p membership_cell \<Rightarrow> 'p mem_call \<Rightarrow>
    'p membership_cell \<times> 'p peer_change list" where
  "membership_call phi c (Mem_join p now) = membership_join c p now"
| "membership_call phi c (Mem_heartbeat p now) = membership_heartbeat c p now"
| "membership_call phi c (Mem_leave p now) = membership_leave c p now"
| "membership_call phi c (Mem_tick now) = membership_tick phi c now"

definition mb_step :: "(phi_accrual \<Rightarrow> int \<Rightarrow> real) \<Rightarrow> 'p membership_core \<Rightarrow> 'p mem_call \<Rightarrow> 'p membership_core" where
  "mb_step phi c x = fst (mb_call phi c x)"

definition membership_step :: "(phi_accrual \<Rightarrow> int \<Rightarrow> real) \<Rightarrow> 'p membership_cell \<Rightarrow> 'p mem_call \<Rightarrow> 'p membership_cell" where
  "membership_step phi c x = fst (membership_call phi c x)"

fun membership_events :: "(phi_accrual \<Rightarrow> int \<Rightarrow> real) \<Rightarrow> 'p membership_cell \<Rightarrow> 'p mem_call list \<Rightarrow> 'p peer_change list" where
  "membership_events phi c [] = []"
| "membership_events phi c (x # xs) = snd (membership_call phi c x) @ membership_events phi (membership_step phi c x) xs"

lemma membership_call_core: "membership_call phi c x = with_core c (mb_call phi (mm_core c) x)"
  by (cases x) (simp_all add: membership_join_def membership_heartbeat_def membership_leave_def membership_tick_def)

section \<open>The invariant\<close>

text \<open>A suspected peer knows since when, and every detector has the configured floor on its deviation.\<close>

definition record_ok :: "membership_config \<Rightarrow> peer_record \<Rightarrow> bool" where
  "record_ok cfg r \<longleftrightarrow> (mp_state r = Suspect \<longrightarrow> mp_suspect_since r \<noteq> None) \<and>
     pa_min_std (mp_detector r) = cf_min_std cfg \<and> pa_last_heartbeat (mp_detector r) \<noteq> None"

definition membership_sound :: "'p membership_core \<Rightarrow> bool" where
  "membership_sound c \<longleftrightarrow> distinct (map fst (mb_peers c)) \<and> (\<forall>r \<in> snd ` set (mb_peers c). record_ok (mb_config c) r)"

lemma membership_new_sound: "membership_sound (membership_core_new cfg)"
  by (simp add: membership_sound_def membership_core_new_def)

lemma put_peer_sound:
  "membership_sound c \<Longrightarrow> record_ok (mb_config c) r \<Longrightarrow> membership_sound (put_peer c p r)"
  using set_update_subset [of p r "mb_peers c"]
  by (auto simp: membership_sound_def put_peer_def distinct_update)

lemma known_record_ok: "membership_sound c \<Longrightarrow> map_of (mb_peers c) p = Some r \<Longrightarrow> record_ok (mb_config c) r"
  by (force simp: membership_sound_def dest: map_of_SomeD)

lemma heartbeat_record_ok: "pa_min_std d = cf_min_std cfg \<Longrightarrow>
    record_ok cfg \<lparr>mp_state = Alive, mp_detector = phi_heartbeat d now, mp_suspect_since = s\<rparr>"
  by (simp add: record_ok_def phi_heartbeat_def Let_def split: option.split)

lemma phi_heartbeat_keeps: "pa_min_std (phi_heartbeat d now) = pa_min_std d" "pa_last_heartbeat (phi_heartbeat d now) = Some now"
  by (simp_all add: phi_heartbeat_def Let_def split: option.split)

lemma tick_peer_ok: "record_ok cfg (snd pr) \<Longrightarrow> record_ok cfg (fst (tick_peer phi cfg now pr))"
  by (auto simp: tick_peer_def record_ok_def Let_def split: option.splits)

lemma mb_join_sound: "membership_sound c \<Longrightarrow> membership_sound (fst (mb_join c p now))"
  by (simp add: mb_join_def Let_def put_peer_sound heartbeat_record_ok new_detector_def phi_new_def)

lemma mb_step_sound: "membership_sound c \<Longrightarrow> membership_sound (mb_step phi c x)"
proof (cases x)
  case (Mem_join p now)
  then show "membership_sound c \<Longrightarrow> ?thesis" by (simp add: mb_step_def mb_join_sound)
next
  case (Mem_heartbeat p now)
  assume s: "membership_sound c"
  have "membership_sound (fst (mb_heartbeat c p now))"
  proof (cases "map_of (mb_peers c) p")
    case None
    then show ?thesis using mb_join_sound [OF s, of p now] by (simp add: mb_heartbeat_def)
  next
    case (Some r)
    then show ?thesis using known_record_ok [OF s Some]
      by (auto simp: mb_heartbeat_def Let_def record_ok_def phi_heartbeat_keeps intro!: put_peer_sound [OF s])
  qed
  then show ?thesis using Mem_heartbeat by (simp add: mb_step_def)
next
  case (Mem_leave p now)
  assume s: "membership_sound c"
  have "membership_sound (fst (mb_leave c p now))"
  proof (cases "map_of (mb_peers c) p")
    case (Some r)
    then show ?thesis using known_record_ok [OF s Some] s
      by (auto simp: mb_leave_def Let_def record_ok_def intro!: put_peer_sound [OF s])
  qed (simp add: mb_leave_def s)
  then show ?thesis using Mem_leave by (simp add: mb_step_def)
next
  case (Mem_tick now)
  assume s: "membership_sound c"
  have "membership_sound (fst (mb_tick phi c now))"
    using s by (auto simp: mb_tick_def membership_sound_def comp_def intro!: tick_peer_ok)
  then show ?thesis using Mem_tick by (simp add: mb_step_def)
qed

lemma membership_step_parts:
  "mm_core (membership_step phi c x) = mb_step phi (mm_core c) x \<and>
   mm_peer_set (membership_step phi c x) = cell_set (mm_peer_set c) (alive_set (mb_step phi (mm_core c) x))"
  by (simp add: membership_step_def membership_call_core with_core_def membership_refresh_def mb_step_def)

interpretation membership: steady_projecting mm_core mm_peer_set "membership_step phi" "mb_step phi" alive_set membership_sound
  for phi
  by unfold_locales (simp_all add: mb_step_sound membership_step_parts)

section \<open>The events\<close>

text \<open>What a listener does with an event, and the edges of the state machine.\<close>

definition apply_change :: "('p \<rightharpoonup> peer_state) \<Rightarrow> 'p peer_change \<Rightarrow> ('p \<rightharpoonup> peer_state)" where
  "apply_change m ev =
     (if ch_kind ev = ''joined'' then m(ch_peer ev \<mapsto> Alive)
      else if ch_kind ev = ''left'' then m(ch_peer ev \<mapsto> Left)
      else m(ch_peer ev := ch_to ev))"

definition swim_edges :: "(peer_state \<times> peer_state) set" where
  "swim_edges = {(Alive, Suspect), (Suspect, Dead), (Suspect, Alive), (Dead, Alive), (Left, Alive)}"

definition legal_change :: "('p \<rightharpoonup> peer_state) \<Rightarrow> 'p peer_change \<Rightarrow> bool" where
  "legal_change m ev \<longleftrightarrow>
     (if ch_kind ev = ''joined'' then m (ch_peer ev) = None
      else if ch_kind ev = ''left'' then m (ch_peer ev) \<in> Some ` {Alive, Suspect, Dead}
      else m (ch_peer ev) = ch_from ev \<and> (ch_from ev, ch_to ev) \<in> (\<lambda>(a, b). (Some a, Some b)) ` swim_edges)"

fun changes_legal :: "('p \<rightharpoonup> peer_state) \<Rightarrow> 'p peer_change list \<Rightarrow> bool" where
  "changes_legal m [] = True"
| "changes_legal m (ev # evs) \<longleftrightarrow> legal_change m ev \<and> changes_legal (apply_change m ev) evs"

lemma changes_legal_append:
  "changes_legal m (xs @ ys) \<longleftrightarrow> changes_legal m xs \<and> changes_legal (foldl apply_change m xs) ys"
  by (induction xs arbitrary: m) auto

lemmas change_simps = apply_change_def legal_change_def swim_edges_def change_joined_def change_left_def change_state_def

lemma put_peer_states: "peer_state_of (put_peer c p r) = (peer_state_of c)(p \<mapsto> mp_state r)"
  by (rule ext) (simp add: peer_state_of_def put_peer_def AList.update_conv')

text \<open>\<open>explains m evs m'\<close>: the events are legal from \<open>m\<close> and replaying them gives \<open>m'\<close>.\<close>

definition explains :: "('p \<rightharpoonup> peer_state) \<Rightarrow> 'p peer_change list \<Rightarrow> ('p \<rightharpoonup> peer_state) \<Rightarrow> bool" where
  "explains m evs m' \<longleftrightarrow> changes_legal m evs \<and> foldl apply_change m evs = m'"

lemma explains_append: "explains m xs m1 \<Longrightarrow> explains m1 ys m2 \<Longrightarrow> explains m (xs @ ys) m2"
  by (auto simp: explains_def changes_legal_append)

lemma explains_none: "explains m [] m' \<longleftrightarrow> m = m'"
  by (simp add: explains_def)

lemma explains_same: "m p = Some s \<Longrightarrow> explains m [] (m(p \<mapsto> s))"
  by (auto simp: explains_none)

lemma join_explained: "explains (peer_state_of c) (snd (mb_join c p now)) (peer_state_of (fst (mb_join c p now)))"
proof (cases "peer_state_of c p")
  case None
  then show ?thesis by (simp add: mb_join_def put_peer_states explains_def change_simps)
next
  case (Some s)
  then show ?thesis
    by (cases s) (auto simp: mb_join_def Let_def put_peer_states explains_def change_simps)
qed

lemma heartbeat_explained:
  "explains (peer_state_of c) (snd (mb_heartbeat c p now)) (peer_state_of (fst (mb_heartbeat c p now)))"
proof (cases "map_of (mb_peers c) p")
  case None
  then show ?thesis by (simp add: mb_heartbeat_def join_explained)
next
  case (Some r)
  then have "peer_state_of c p = Some (mp_state r)" by (simp add: peer_state_of_def)
  then show ?thesis using Some
    by (cases "mp_state r") (auto simp: mb_heartbeat_def Let_def put_peer_states explains_def change_simps)
qed

lemma leave_explained: "explains (peer_state_of c) (snd (mb_leave c p now)) (peer_state_of (fst (mb_leave c p now)))"
proof (cases "map_of (mb_peers c) p")
  case None
  then show ?thesis by (simp add: mb_leave_def explains_none)
next
  case (Some r)
  then have "peer_state_of c p = Some (mp_state r)" by (simp add: peer_state_of_def)
  then show ?thesis using Some
    by (cases "mp_state r") (auto simp: mb_leave_def Let_def put_peer_states explains_def change_simps)
qed

lemma tick_peer_explained:
  assumes "m p = Some (mp_state r)"
  shows "explains m (snd (tick_peer phi cfg now (p, r))) (m(p \<mapsto> mp_state (fst (tick_peer phi cfg now (p, r)))))"
  using assms by (cases "mp_state r") (auto simp: tick_peer_def Let_def explains_def change_simps split: option.splits)

lemma tick_list_explained:
  assumes "distinct (map fst prs)" "\<And>p r. (p, r) \<in> set prs \<Longrightarrow> m p = Some (mp_state r)"
  shows "explains m (concat (map (\<lambda>pr. snd (tick_peer phi cfg now pr)) prs))
     (m ++ (\<lambda>p. map_option mp_state (map_of (map (\<lambda>pr. (fst pr, fst (tick_peer phi cfg now pr))) prs) p)))"
  using assms
proof (induction prs arbitrary: m)
  case Nil
  show ?case by (simp add: explains_none map_add_def)
next
  case (Cons x prs)
  obtain p r where x: "x = (p, r)" by (cases x)
  let ?s = "mp_state (fst (tick_peer phi cfg now (p, r)))"
  let ?rest = "\<lambda>p. map_option mp_state (map_of (map (\<lambda>pr. (fst pr, fst (tick_peer phi cfg now pr))) prs) p)"
  have fresh: "p \<notin> fst ` set prs" using Cons.prems(1) x by simp
  have "m p = Some (mp_state r)" using Cons.prems(2) x by simp
  then have one: "explains m (snd (tick_peer phi cfg now (p, r))) (m(p \<mapsto> ?s))" by (rule tick_peer_explained)
  have "(m(p \<mapsto> ?s)) q = Some (mp_state t)" if "(q, t) \<in> set prs" for q t
    using that fresh Cons.prems(2) [of q t] by force
  then have "explains (m(p \<mapsto> ?s)) (concat (map (\<lambda>pr. snd (tick_peer phi cfg now pr)) prs)) (m(p \<mapsto> ?s) ++ ?rest)"
    using Cons.prems(1) by (intro Cons.IH) simp_all
  moreover have "m(p \<mapsto> ?s) ++ ?rest = m ++ (\<lambda>q. map_option mp_state
      (map_of (map (\<lambda>pr. (fst pr, fst (tick_peer phi cfg now pr))) (x # prs)) q))"
  proof -
    have "?rest p = None" using fresh by (simp add: map_of_eq_None_iff image_image)
    then show ?thesis using x by (auto simp: map_add_def fun_eq_iff split: option.split)
  qed
  ultimately show ?case using explains_append [OF one] x by simp
qed

lemma tick_explained:
  assumes "membership_sound c"
  shows "explains (peer_state_of c) (snd (mb_tick phi c now)) (peer_state_of (fst (mb_tick phi c now)))"
proof -
  have d: "distinct (map fst (mb_peers c))" using assms by (simp add: membership_sound_def)
  let ?new = "\<lambda>p. map_option mp_state (map_of (map (\<lambda>pr. (fst pr, fst (tick_peer phi (mb_config c) now pr))) (mb_peers c)) p)"
  have "peer_state_of c p = Some (mp_state r)" if "(p, r) \<in> set (mb_peers c)" for p r
    using that d by (simp add: peer_state_of_def)
  from tick_list_explained [OF d this]
  have "explains (peer_state_of c) (snd (mb_tick phi c now)) (peer_state_of c ++ ?new)" by (simp add: mb_tick_def)
  moreover have "peer_state_of c ++ ?new = peer_state_of (fst (mb_tick phi c now))"
  proof
    fix p
    have "?new p = None \<Longrightarrow> peer_state_of c p = None"
      by (auto simp: peer_state_of_def map_of_eq_None_iff image_image)
    then show "(peer_state_of c ++ ?new) p = peer_state_of (fst (mb_tick phi c now)) p"
      by (auto simp: map_add_def peer_state_of_def mb_tick_def split: option.splits)
  qed
  ultimately show ?thesis by simp
qed

lemma call_explained:
  assumes "membership_sound c"
  shows "explains (peer_state_of c) (snd (mb_call phi c x)) (peer_state_of (mb_step phi c x))"
  using join_explained heartbeat_explained leave_explained tick_explained [OF assms]
  by (cases x) (simp_all add: mb_step_def)

lemma run_explained:
  "membership_sound (mm_core c) \<Longrightarrow>
     explains (peer_state_of (mm_core c)) (membership_events phi c xs) (peer_state_of (mm_core (core_run (membership_step phi) c xs)))"
proof (induction xs arbitrary: c)
  case (Cons x xs)
  have "explains (peer_state_of (mm_core c)) (snd (membership_call phi c x)) (peer_state_of (mm_core (membership_step phi c x)))"
    using call_explained [OF Cons.prems, of phi x]
    by (simp add: membership_call_core with_core_def membership_step_parts)
  moreover have "membership_sound (mm_core (membership_step phi c x))"
    using Cons.prems by (simp add: membership_step_parts mb_step_sound)
  ultimately show ?case using Cons.IH explains_append by fastforce
qed (simp add: explains_none)

lemma alive_set_states: "membership_sound c \<Longrightarrow> alive_set c = {p. peer_state_of c p = Some Alive}"
  by (force simp: alive_set_def peer_state_of_def membership_sound_def)

section \<open>The level rises with silence\<close>

definition phi_curve :: "real \<Rightarrow> real" where
  "phi_curve y = - log 10 (exp (- y * (1.5976 + 0.070566 * y * y)) / (1 + exp (- y * (1.5976 + 0.070566 * y * y))))"

lemma odds_complement: "0 < e \<Longrightarrow> 1 - 1 / (1 + e) = e / (1 + e)" for e :: real
  by (simp add: field_simps)

text \<open>Both branches of the code compute the same function of the scaled silence.\<close>

lemma phi_level_curve:
  assumes "pa_last_heartbeat d = Some l" "pa_window d \<noteq> []"
  shows "phi_level d now = phi_curve ((real_of_int (max 0 (now - l)) - phi_mean d) / phi_std d (phi_mean d))"
  using assms by (simp only: phi_level_def Let_def option.case if_False phi_curve_def) (simp add: odds_complement)

lemma phi_curve_mono:
  assumes "x \<le> y"
  shows "phi_curve x \<le> phi_curve y"
proof -
  let ?e = "\<lambda>z::real. exp (- z * (1.5976 + 0.070566 * z * z))"
  have "z * (1.5976 + 0.070566 * z * z) = 1.5976 * z + 0.070566 * z ^ 3" for z :: real
    by (simp add: power3_eq_cube algebra_simps)
  moreover have "x ^ 3 \<le> y ^ 3" using assms by (intro power_mono_odd) simp_all
  ultimately have e: "?e y \<le> ?e x" using assms by simp
  have "?e y / (1 + ?e y) \<le> ?e x / (1 + ?e x)"
    using e by (simp add: divide_le_eq pos_le_divide_eq add_pos_pos field_simps)
  moreover have "0 < ?e y / (1 + ?e y)" by (simp add: add_pos_pos)
  ultimately have "log 10 (?e y / (1 + ?e y)) \<le> log 10 (?e x / (1 + ?e x))" by (intro log_mono) simp_all
  then show ?thesis by (simp add: phi_curve_def)
qed

lemma phi_curve_lower:
  assumes "0 \<le> y"
  shows "y * 1.5976 / ln 10 \<le> phi_curve y"
proof -
  define e where "e = exp (- y * (1.5976 + 0.070566 * y * y))"
  have e: "0 < e" by (simp add: e_def)
  have "e / (1 + e) \<le> e" using e by (simp add: divide_le_eq add_pos_pos)
  moreover have "0 < e / (1 + e)" using e by (simp add: add_pos_pos)
  ultimately have "log 10 (e / (1 + e)) \<le> log 10 e" by (intro log_mono) simp_all
  also have "\<dots> = - (y * (1.5976 + 0.070566 * y * y)) / ln 10" by (simp add: log_def e_def)
  finally have "y * (1.5976 + 0.070566 * y * y) / ln 10 \<le> phi_curve y" by (simp add: phi_curve_def e_def)
  moreover have "y * 1.5976 \<le> y * (1.5976 + 0.070566 * y * y)" using assms by (intro mult_left_mono) simp_all
  then have "y * 1.5976 / ln 10 \<le> y * (1.5976 + 0.070566 * y * y) / ln 10" by (intro divide_right_mono) simp_all
  ultimately show ?thesis by simp
qed

lemma phi_eventually:
  assumes "pa_last_heartbeat d = Some l" "pa_window d \<noteq> []" "0 < pa_min_std d"
  obtains T where "\<And>t. T \<le> t \<Longrightarrow> phi_level d t > threshold"
proof -
  define std where "std = phi_std d (phi_mean d)"
  have std: "0 < std" unfolding std_def phi_std_def using assms(3) by (rule less_le_trans) (rule max.cobounded2)
  define y where "y = max 0 (threshold * ln 10 / 1.5976) + 1"
  have y: "0 \<le> y" "threshold < y * 1.5976 / ln 10" by (auto simp: y_def max_def field_simps)
  define T where "T = l + max 0 \<lceil>phi_mean d + std * y\<rceil>"
  have "phi_level d t > threshold" if t: "T \<le> t" for t
  proof -
    have "phi_mean d + std * y \<le> real_of_int (max 0 (t - l))" using t unfolding T_def by linarith
    then have "y \<le> (real_of_int (max 0 (t - l)) - phi_mean d) / std" using std by (simp add: pos_le_divide_eq mult.commute)
    then have "phi_curve y \<le> phi_level d t"
      unfolding phi_level_curve [OF assms(1,2)] std_def by (rule phi_curve_mono)
    then show ?thesis using phi_curve_lower [OF y(1)] y(2) by linarith
  qed
  then show ?thesis by (rule that)
qed

section \<open>Ticks\<close>

lemma tick_record:
  "map_of (mb_peers (mm_core (membership_step phi c (Mem_tick t)))) p =
     map_option (\<lambda>r. fst (tick_peer phi (mb_config (mm_core c)) t (p, r))) (map_of (mb_peers (mm_core c)) p)"
proof -
  have "map_of (map (\<lambda>pr. (fst pr, fst (tick_peer phi cfg t pr))) prs) p =
      map_option (\<lambda>r. fst (tick_peer phi cfg t (p, r))) (map_of prs p)" for cfg prs
    by (induction prs) auto
  then show ?thesis by (simp add: membership_step_parts mb_step_def mb_tick_def)
qed

lemma step_config: "mb_config (mm_core (membership_step phi c x)) = mb_config (mm_core c)"
  by (cases x) (auto simp: membership_step_parts mb_step_def mb_join_def mb_heartbeat_def mb_leave_def mb_tick_def
      put_peer_def Let_def split: option.splits)

lemma run_config: "mb_config (mm_core (core_run (membership_step phi) c xs)) = mb_config (mm_core c)"
  by (induction xs arbitrary: c) (simp_all add: step_config)

lemma dead_stays: "mp_state r = Dead \<Longrightarrow> fst (tick_peer phi cfg t (p, r)) = r"
  by (simp add: tick_peer_def)

lemma suspect_times_out:
  "mp_state r = Suspect \<Longrightarrow> mp_suspect_since r = Some s \<Longrightarrow> s + cf_suspect_timeout cfg \<le> t \<Longrightarrow>
     mp_state (fst (tick_peer phi cfg t (p, r))) = Dead"
  by (simp add: tick_peer_def)

lemma alive_suspected:
  "mp_state r = Alive \<Longrightarrow> phi (mp_detector r) t > cf_phi_threshold cfg \<Longrightarrow>
     fst (tick_peer phi cfg t (p, r)) = r\<lparr>mp_state := Suspect, mp_suspect_since := Some t\<rparr>"
  by (simp add: tick_peer_def)

lemma two_ticks_kill:
  assumes "record_ok cfg r" "0 < cf_min_std cfg" "mp_state r = Alive \<or> mp_state r = Suspect"
    and "pa_window (mp_detector r) \<noteq> []"
  shows "\<exists>T. \<forall>t1 t2. T \<le> t1 \<longrightarrow> t1 + cf_suspect_timeout cfg \<le> t2 \<longrightarrow>
     mp_state (fst (tick_peer phi_level cfg t2 (p, fst (tick_peer phi_level cfg t1 (p, r))))) = Dead"
proof (cases "mp_state r")
  case Alive
  obtain l where l: "pa_last_heartbeat (mp_detector r) = Some l" using assms(1) by (auto simp: record_ok_def)
  have "0 < pa_min_std (mp_detector r)" using assms(1,2) by (simp add: record_ok_def)
  from phi_eventually [OF l assms(4) this, of "cf_phi_threshold cfg"]
  obtain T where T: "\<And>t. T \<le> t \<Longrightarrow> phi_level (mp_detector r) t > cf_phi_threshold cfg" by blast
  show ?thesis
    using alive_suspected [where phi = phi_level and p = p, OF Alive T] by (intro exI [of _ T]) (simp add: suspect_times_out)
next
  case Suspect
  then obtain s where s: "mp_suspect_since r = Some s" using assms(1) by (auto simp: record_ok_def)
  show ?thesis
    by (rule exI [of _ "s + cf_suspect_timeout cfg"]) (simp add: suspect_times_out [OF Suspect s] dead_stays)
qed (use assms(3) in simp_all)

end
