(* ===== verification/LiveTheorems.thy ===== *)
theory LiveTheorems
  imports Service Presence Membership
begin

text \<open>
  The properties of the planes around the cells: services, presence and membership.
\<close>

text \<open>C31: The durable service registry: after any calls, the projection a reader sees is what the last
  call naming each service said, the log holds every register and deregister in order, no call
  raises, and replaying the log - in the running registry or from the log alone, whatever stale
  projection it starts with - gives the same registry; a reader is notified once per change of the
  projection, so never by a replay.\<close>

theorem service_registry_durable:
  fixes xs :: "('k, 'e) registry_call list"
  defines "r \<equiv> core_run sr_step service_registry_new xs"
  shows "c_value (sr_projection r) = registered_now xs \<and>
    rg_log (sr_core r) = durable_ops xs \<and>
    (\<forall>x. \<exists>r'. sr_call r x = Inr r') \<and>
    sr_replay r = Inr r \<and>
    (\<forall>stale. rg_replay \<lparr>rg_log = rg_log (sr_core r), rg_projection = stale\<rparr> = Inr (sr_core r)) \<and>
    c_notified (sr_projection r) = value_changes Map.empty (map (\<lambda>n. registered_now (take (Suc n) xs)) [0..<length xs])"
proof -
  have new: "sr_core service_registry_new = registry_core_new" "sr_projection service_registry_new = cell_new Map.empty"
    by (simp_all add: service_registry_new_def)
  have s0: "registry_sound (sr_core (service_registry_new :: ('k, 'e) service_registry))"
    by (simp add: new registry_new_sound)
  have core: "sr_core r = core_run rg_step registry_core_new xs"
    unfolding r_def using registry.run_core [OF s0, of xs] by (simp add: new)
  have s: "registry_sound (sr_core r)" unfolding core by (rule registry.run_sound [OF registry_new_sound])
  have hist: "rg_snapshot (core_run rg_step registry_core_new ys) = registered_now ys" for ys :: "('k, 'e) registry_call list"
    by (simp add: rg_snapshot_def registry_run)
  have start: "rg_snapshot registry_core_new = (Map.empty :: 'k \<rightharpoonup> 'e)"
    by (simp add: rg_snapshot_def registry_core_new_def)
  have shown: "c_value (sr_projection r) = registered_now xs"
    unfolding r_def using registry.shows_core [OF s0, of xs] by (simp add: new hist start)
  have lv: "live (sr_projection r)" unfolding r_def using registry.run_live [OF s0, of xs] by (simp add: new)
  have "c_notified (sr_projection r) = value_changes Map.empty (map (\<lambda>n. registered_now (take (Suc n) xs)) [0..<length xs])"
    unfolding r_def using registry.notifies_history [OF s0, of registered_now xs] by (simp add: new hist)
  moreover have "\<exists>r'. sr_call r x = Inr r'" for x
    by (simp add: sr_call_after rg_call_result [OF s] sr_after_def)
  moreover have replay: "rg_replay \<lparr>rg_log = rg_log (sr_core r), rg_projection = stale\<rparr> = Inr (sr_core r)" for stale
    using s by (simp add: rg_replay_def registry_sound_def)
  moreover have "sr_replay r = Inr r"
  proof -
    have "rg_replay (sr_core r) = Inr (sr_core r)" using s by (simp add: rg_replay_def registry_sound_def)
    moreover have "rg_snapshot (sr_core r) = c_value (sr_projection r)" by (simp add: core hist shown)
    ultimately show ?thesis by (simp add: sr_replay_def sr_after_def sr_refresh_def cell_set_same)
  qed
  ultimately show ?thesis using shown by (simp add: core registry_run)
qed

text \<open>Discovery: a service resolves to an endpoint exactly when its last registration gave that
  endpoint and neither a deregistration of the service nor the eviction of the owning peer followed;
  the discovery reader shows the same map, and it is notified only when that map changes.\<close>

theorem discovery_resolves_exactly:
  fixes xs :: "('k, 'e, 'p) discovery_call list"
  defines "c \<equiv> core_run ds_step discovery_cell_new xs"
  shows "(ds_resolve c k = Some e \<longleftrightarrow>
      (\<exists>ys p zs. xs = ys @ Disc_register k e p # zs \<and> list_all (\<lambda>z. \<not> displaces k p z) zs)) \<and>
    c_value (ds_discovery c) = ds_resolve c \<and>
    c_notified (ds_discovery (ds_step c x)) =
      c_notified (ds_discovery c) + (if ds_resolve (ds_step c x) = ds_resolve c then 0 else 1)"
proof -
  have new: "ds_core discovery_cell_new = discovery_core_new" "ds_discovery discovery_cell_new = cell_new Map.empty"
    by (simp_all add: discovery_cell_new_def)
  have s0: "discovery_sound (ds_core (discovery_cell_new :: ('k, 'e, 'p) discovery_cell))"
    by (simp add: new discovery_new_sound)
  have core: "ds_core (core_run ds_step discovery_cell_new ys) = core_run dc_step discovery_core_new ys"
    for ys :: "('k, 'e, 'p) discovery_call list"
    using discovery.run_core [OF s0, of ys] by (simp add: new)
  have start: "dc_resolve (discovery_core_new :: ('k, 'e, 'p) discovery_core) = Map.empty"
    by (simp add: dc_resolve_def discovery_core_new_def fun_eq_iff)
  have shown: "c_value (ds_discovery (core_run ds_step discovery_cell_new ys)) = ds_resolve (core_run ds_step discovery_cell_new ys)"
    for ys :: "('k, 'e, 'p) discovery_call list"
    using discovery.shows_core [OF s0, of ys]
    by (simp add: new start core discovery_is_resolve ds_resolve_def [abs_def])
  have snoc: "ds_step c x = core_run ds_step discovery_cell_new (xs @ [x])" by (simp add: c_def core_run_snoc)
  have lv: "live (ds_discovery c)" unfolding c_def using discovery.run_live [OF s0, of xs] by (simp add: new)
  have sound: "discovery_sound (ds_core c)" unfolding c_def core by (rule discovery.run_sound [OF discovery_new_sound])
  have "c_notified (ds_discovery (ds_step c x)) =
      c_notified (ds_discovery c) + (if ds_resolve (ds_step c x) = ds_resolve c then 0 else 1)"
    using discovery.cell_step [OF sound, of x] discovery.core_step [OF sound, of x] lv shown [of xs, folded c_def]
    by (simp add: cell_set_notified discovery_is_resolve ds_resolve_def [abs_def])
  moreover have "ds_resolve c k = Some e \<longleftrightarrow>
      (\<exists>ys p zs. xs = ys @ Disc_register k e p # zs \<and> list_all (\<lambda>z. \<not> displaces k p z) zs)"
    by (auto simp: ds_resolve_def dc_resolve_def c_def core discovery_entry)
  ultimately show ?thesis using shown [of xs, folded c_def] by blast
qed

text \<open>Health and readiness: whatever probes reported, in whatever order, the health reader sees
  the worst status any probe's latest report accounts for (healthy when there is none), the readiness
  reader whether every condition's latest report is positive.\<close>

theorem health_and_readiness:
  fixes reports :: "'k probe_call list" and conds :: "('k \<times> bool) list"
  shows "c_value (hl_health (core_run hl_step health_cell_new reports)) =
      Max (insert Healthy (probe_status ` ran (map_of (rev reports)))) \<and>
    c_value (rd_ready (core_run rd_step readiness_cell_new conds)) = (ran (map_of (rev conds)) \<subseteq> {True})"
proof
  have hn: "hl_core health_cell_new = health_core_new" "hl_health health_cell_new = cell_new Healthy"
    "hc_health health_core_new = Healthy" "hc_probes health_core_new = []"
    by (simp_all add: health_cell_new_def hc_health_def health_core_new_def)
  have "c_value (hl_health (core_run hl_step health_cell_new reports)) = hc_health (core_run hc_step health_core_new reports)"
    using health.shows_core [of "health_cell_new :: 'k health_cell" reports] by (simp add: hn)
  also have "\<dots> = Max (insert Healthy (probe_status ` ran (map_of (rev reports))))"
    using health_worst [of "core_run hc_step health_core_new reports"] health_probes [of reports] by simp
  finally show "c_value (hl_health (core_run hl_step health_cell_new reports)) =
      Max (insert Healthy (probe_status ` ran (map_of (rev reports))))" .
  have rn: "rd_core readiness_cell_new = readiness_core_new" "rd_ready readiness_cell_new = cell_new True"
    "rc_ready readiness_core_new = True" "rc_conditions readiness_core_new = []"
    by (simp_all add: readiness_cell_new_def rc_ready_def readiness_core_new_def)
  have "c_value (rd_ready (core_run rd_step readiness_cell_new conds)) = rc_ready (core_run rc_step readiness_core_new conds)"
    using readiness.shows_core [of "readiness_cell_new :: 'k readiness_cell" conds] by (simp add: rn)
  also have "\<dots> = (ran (map_of (rev conds)) \<subseteq> {True})"
    using readiness_conditions [of conds] ran_distinct [of "rc_conditions (core_run rc_step readiness_core_new conds)"]
    by (auto simp: rc_ready_def)
  finally show "c_value (rd_ready (core_run rd_step readiness_cell_new conds)) = (ran (map_of (rev conds)) \<subseteq> {True})" .
qed

text \<open>C32: Presence: after any calls, the last of them at time \<open>now\<close>, the reader sees value \<open>v\<close> for peer
  \<open>k\<close> exactly when a heartbeat of \<open>k\<close> with \<open>v\<close> has not been followed by another heartbeat or an
  eviction of \<open>k\<close> or by a tick past its expiry, and has not expired at \<open>now\<close>; awareness cells show
  their writes in the same way, and a cell notifies exactly when its live map changes.\<close>

theorem presence_shows_live_peers:
  fixes xs :: "('k::linorder, 'v) presence_call list" and ws :: "('k, 'v) awareness_call list"
  shows "(c_value (pc_present (core_run pc_step (presence_cell_new ttl) (xs @ [x]))) k = Some v \<longleftrightarrow>
      (\<exists>ys t zs. xs @ [x] = ys @ Heartbeat k v t # zs \<and> list_all (\<lambda>z. \<not> replaces k (t + ttl) z) zs \<and> call_time x < t + ttl)) \<and>
    (c_value (aw_present (core_run aw_step (awareness_cell_new ttl) (ws @ [w]))) k = Some v \<longleftrightarrow>
      (\<exists>ys t zs. map as_presence (ws @ [w]) = ys @ Heartbeat k v t # zs \<and> list_all (\<lambda>z. \<not> replaces k (t + ttl) z) zs \<and>
         call_time (as_presence w) < t + ttl)) \<and>
    c_notified (pc_present (core_run pc_step (presence_cell_new ttl) (xs @ [x]))) =
      c_notified (pc_present (core_run pc_step (presence_cell_new ttl) xs)) +
        (if c_value (pc_present (core_run pc_step (presence_cell_new ttl) (xs @ [x]))) =
            c_value (pc_present (core_run pc_step (presence_cell_new ttl) xs)) then 0 else 1)"
proof (intro conjI)
  define c0 where "c0 = (presence_cell_new ttl :: ('k, 'v) presence_cell)"
  have pn: "pc_ttl c0 = ttl" "pc_core c0 = ephemeral_map_new" "pc_present c0 = cell_new Map.empty"
    by (simp_all add: c0_def presence_cell_new_def)
  have s: "case (pc_ttl c0, pc_core c0) of (ttl, m) \<Rightarrow> em_distinct m" by (simp add: pn em_new_distinct)
  have "c_value (pc_present (core_run pc_step c0 (xs @ [x]))) =
      em_present (core_run (em_step ttl) ephemeral_map_new (xs @ [x])) (call_time x)"
    using presence.shows_last [OF s, of xs x] by (simp only: pn presence_core_run) simp
  then show "c_value (pc_present (core_run pc_step (presence_cell_new ttl) (xs @ [x]))) k = Some v \<longleftrightarrow>
      (\<exists>ys t zs. xs @ [x] = ys @ Heartbeat k v t # zs \<and> list_all (\<lambda>z. \<not> replaces k (t + ttl) z) zs \<and> call_time x < t + ttl)"
    using em_live [of ttl "xs @ [x]" k "call_time x" v] by (simp add: c0_def present_is_get em_run_distinct)
  have lv: "live (pc_present (core_run pc_step c0 xs))" using presence.run_live [OF s, of xs] by (simp add: pn)
  have s2: "case (pc_ttl (core_run pc_step c0 xs), pc_core (core_run pc_step c0 xs)) of (ttl, m) \<Rightarrow> em_distinct m"
    using presence.run_core [OF s, of xs] by (simp add: pn presence_core_run em_run_distinct)
  show "c_notified (pc_present (core_run pc_step (presence_cell_new ttl) (xs @ [x]))) =
      c_notified (pc_present (core_run pc_step (presence_cell_new ttl) xs)) +
        (if c_value (pc_present (core_run pc_step (presence_cell_new ttl) (xs @ [x]))) =
            c_value (pc_present (core_run pc_step (presence_cell_new ttl) xs)) then 0 else 1)"
    using presence.cell_step [OF s2, of x] lv by (simp add: core_run_snoc c0_def cell_set_notified)
next
  define a0 where "a0 = (awareness_cell_new ttl :: ('k, 'v) awareness_cell)"
  have an: "aw_ttl a0 = ttl" "aw_core a0 = ephemeral_map_new" "aw_present a0 = cell_new Map.empty"
    by (simp_all add: a0_def awareness_cell_new_def)
  have s: "case (aw_ttl a0, aw_core a0) of (ttl, m) \<Rightarrow> em_distinct m" by (simp add: an em_new_distinct)
  have "c_value (aw_present (core_run aw_step a0 (ws @ [w]))) =
      em_present (core_run (em_step ttl) ephemeral_map_new (map as_presence (ws @ [w]))) (call_time (as_presence w))"
    using awareness.shows_last [OF s, of ws w] by (simp only: an awareness_core_run) simp
  then show "c_value (aw_present (core_run aw_step (awareness_cell_new ttl) (ws @ [w]))) k = Some v \<longleftrightarrow>
      (\<exists>ys t zs. map as_presence (ws @ [w]) = ys @ Heartbeat k v t # zs \<and> list_all (\<lambda>z. \<not> replaces k (t + ttl) z) zs \<and>
         call_time (as_presence w) < t + ttl)"
    using em_live [of ttl "map as_presence (ws @ [w])" k "call_time (as_presence w)" v]
    by (simp add: a0_def present_is_get em_run_distinct del: map_append)
qed

text \<open>C29: Membership: for any level function of the detector, the events the calls return are legal edges
  of the SWIM machine, replaying them over the empty map gives every peer's state, the peer-set
  reader sees exactly the peers this map has alive, and it is notified exactly when that set changes.\<close>

theorem membership_events_exact:
  fixes xs :: "'p mem_call list" and phi :: "phi_accrual \<Rightarrow> int \<Rightarrow> real" and cfg :: membership_config
  defines "c \<equiv> core_run (membership_step phi) (membership_cell_new cfg) xs"
    and "evs \<equiv> membership_events phi (membership_cell_new cfg) xs"
  shows "changes_legal Map.empty evs \<and>
    membership_state c = foldl apply_change Map.empty evs \<and>
    c_value (mm_peer_set c) = {p. membership_state c p = Some Alive} \<and>
    c_notified (mm_peer_set (membership_step phi c x)) = c_notified (mm_peer_set c) +
      (if c_value (mm_peer_set (membership_step phi c x)) = c_value (mm_peer_set c) then 0 else 1)"
proof -
  have new: "mm_core (membership_cell_new cfg) = (membership_core_new cfg :: 'p membership_core)"
    "mm_peer_set (membership_cell_new cfg) = (cell_new {} :: 'p set cell)"
    "peer_state_of (membership_core_new cfg) = (Map.empty :: 'p \<rightharpoonup> peer_state)"
    "alive_set (membership_core_new cfg) = ({} :: 'p set)"
    by (simp_all add: membership_cell_new_def peer_state_of_def membership_core_new_def alive_set_def fun_eq_iff)
  have s0: "membership_sound (mm_core (membership_cell_new cfg :: 'p membership_cell))"
    by (simp add: new membership_new_sound)
  have sound: "membership_sound (mm_core c)"
    unfolding c_def membership.run_core [OF s0] by (rule membership.run_sound [OF s0])
  have "explains Map.empty evs (membership_state c)"
    using run_explained [OF s0, of phi xs] by (simp add: new c_def evs_def membership_state_def [abs_def])
  moreover have "c_value (mm_peer_set c) = alive_set (mm_core c)"
    unfolding c_def membership.run_core [OF s0] by (rule membership.shows_core [OF s0]) (simp_all add: new)
  moreover have "live (mm_peer_set c)" unfolding c_def using membership.run_live [OF s0, of phi xs] by (simp add: new)
  then have "c_notified (mm_peer_set (membership_step phi c x)) = c_notified (mm_peer_set c) +
      (if c_value (mm_peer_set (membership_step phi c x)) = c_value (mm_peer_set c) then 0 else 1)"
    by (simp add: membership_step_parts cell_set_notified)
  ultimately show ?thesis by (simp add: explains_def alive_set_states [OF sound] membership_state_def)
qed

text \<open>C30: A silent peer is declared dead: with a positive floor on the deviation, a peer that is alive or
  suspected and has at least one heartbeat interval is dead after two ticks that are far enough from
  its last heartbeat and from each other.\<close>

theorem silent_peer_declared_dead:
  fixes xs :: "'p mem_call list"
  assumes "c = core_run (membership_step phi_level) (membership_cell_new cfg) xs"
    and "0 < cf_min_std cfg"
    and "map_of (mb_peers (mm_core c)) p = Some r" and "mp_state r = Alive \<or> mp_state r = Suspect"
    and "pa_window (mp_detector r) \<noteq> []"
  shows "\<exists>T. \<forall>t1 t2. T \<le> t1 \<and> t1 + cf_suspect_timeout cfg \<le> t2 \<longrightarrow>
    membership_state (core_run (membership_step phi_level) c [Mem_tick t1, Mem_tick t2]) p = Some Dead"
proof -
  have s0: "membership_sound (mm_core (membership_cell_new cfg :: 'p membership_cell))"
    by (simp add: membership_cell_new_def membership_new_sound)
  have sound: "membership_sound (mm_core c)"
    unfolding assms(1) membership.run_core [OF s0] by (rule membership.run_sound [OF s0])
  have cfg: "mb_config (mm_core c) = cfg"
    unfolding assms(1) run_config by (simp add: membership_cell_new_def membership_core_new_def)
  have ok: "record_ok cfg r" using known_record_ok [OF sound assms(3)] cfg by simp
  obtain T where T: "\<forall>t1 t2. T \<le> t1 \<longrightarrow> t1 + cf_suspect_timeout cfg \<le> t2 \<longrightarrow>
      mp_state (fst (tick_peer phi_level cfg t2 (p, fst (tick_peer phi_level cfg t1 (p, r))))) = Dead"
    using two_ticks_kill [OF ok assms(2,4,5), of p] by blast
  have "membership_state (core_run (membership_step phi_level) c [Mem_tick t1, Mem_tick t2]) p = Some Dead"
    if "T \<le> t1" "t1 + cf_suspect_timeout cfg \<le> t2" for t1 t2
    using T that assms(3) by (simp add: membership_state_def peer_state_of_def tick_record step_config cfg)
  then show ?thesis by blast
qed

definition swim_config :: membership_config where
  "swim_config = \<lparr>cf_phi_threshold = 8, cf_suspect_timeout = 5, cf_max_samples = 100, cf_min_std = 1 / 10\<rparr>"

definition two_beats :: "nat membership_cell" where
  "two_beats = core_run (membership_step phi_level) (membership_cell_new swim_config) [Mem_join 7 0, Mem_heartbeat 7 10]"

lemma two_beats_record: "\<exists>r. map_of (mb_peers (mm_core two_beats)) 7 = Some r \<and> mp_state r = Alive \<and> pa_window (mp_detector r) = [10]"
  by (simp add: two_beats_def swim_config_def membership_cell_new_def membership_core_new_def membership_step_parts
      mb_step_def mb_join_def mb_heartbeat_def peer_state_of_def put_peer_def new_detector_def phi_new_def
      phi_heartbeat_def window_push_def Let_def)

theorem silent_peer_declared_dead_witness:
  "\<exists>T. \<not> (\<exists>t1 t2. T \<le> t1 \<and> t1 + 5 \<le> t2 \<and>
     membership_state (core_run (membership_step phi_level) two_beats [Mem_tick t1, Mem_tick t2]) 7 \<noteq> Some Dead)"
proof -
  obtain r where r: "map_of (mb_peers (mm_core two_beats)) 7 = Some r" "mp_state r = Alive" "pa_window (mp_detector r) = [10]"
    using two_beats_record by blast
  have "0 < cf_min_std swim_config" "cf_suspect_timeout swim_config = 5" "pa_window (mp_detector r) \<noteq> []"
    using r(3) by (simp_all add: swim_config_def)
  then show ?thesis
    using silent_peer_declared_dead [OF two_beats_def _ r(1) disjI1 [OF r(2)]] by auto
qed

end
