(* ===== verification/Ingress.thy ===== *)
theory Ingress
  imports Relay
begin

text \<open>
  The admission algebra of transport ingress, \<^verbatim>\<open>src/lazily/ingress_core.py\<close>: keyed scopes with a
  generation fence, an in-order watermark, a reorder buffer and a coalescing window, a bounded receipt
  log, and the set of readers every transition reports as dirty. The fields \<^verbatim>\<open>window\<close> and
  \<^verbatim>\<open>window_present\<close> of a scope are one option. The capacity of the receipt log is a natural number.
\<close>

section \<open>Schedules, envelopes and transports\<close>

datatype transport_kind = Event_channel | Rpc_triggered | Bounded_polling

record ingress_schedule =
  sd_kind :: transport_kind
  sd_poll_interval :: "int option"

definition schedule_for_kind :: "transport_kind \<Rightarrow> int \<Rightarrow> ingress_schedule" where
  "schedule_for_kind kind interval =
     (if kind = Bounded_polling then \<lparr>sd_kind = kind, sd_poll_interval = Some (max 1 interval)\<rparr>
      else \<lparr>sd_kind = kind, sd_poll_interval = None\<rparr>)"

record ('k, 'a) envelope =
  en_key :: 'k
  en_generation :: int
  en_sequence :: int
  en_stamped_at :: int
  en_payload :: 'a

record replay_request =
  rq_generation :: int
  rq_from_sequence :: int

record ('k, 'a) inproc_ingress =
  ip_kind :: transport_kind
  ip_inbound :: "('k, 'a) envelope list"
  ip_replays :: "('k \<times> replay_request) list"

definition inproc_new :: "transport_kind \<Rightarrow> ('k, 'a) inproc_ingress" where
  "inproc_new kind = \<lparr>ip_kind = kind, ip_inbound = [], ip_replays = []\<rparr>"

definition inproc_push :: "('k, 'a) inproc_ingress \<Rightarrow> ('k, 'a) envelope \<Rightarrow> ('k, 'a) inproc_ingress" where
  "inproc_push t e = t\<lparr>ip_inbound := ip_inbound t @ [e]\<rparr>"

definition inproc_drain :: "('k, 'a) inproc_ingress \<Rightarrow> ('k, 'a) inproc_ingress \<times> ('k, 'a) envelope list" where
  "inproc_drain t = (t\<lparr>ip_inbound := []\<rparr>, ip_inbound t)"

definition inproc_request_replay :: "('k, 'a) inproc_ingress \<Rightarrow> 'k \<Rightarrow> replay_request \<Rightarrow> ('k, 'a) inproc_ingress \<times> bool" where
  "inproc_request_replay t k rq =
     (if ip_kind t = Bounded_polling then (t, False) else (t\<lparr>ip_replays := ip_replays t @ [(k, rq)]\<rparr>, True))"

section \<open>Decisions and receipts\<close>

datatype drop_reason =
    Stale_generation | Duplicate_sequence | Duplicate_buffered | Reorder_window_overflow
  | Expired | Backpressure | Scope_closed

datatype ingress_error = Transport_closed | Decode_failed | Authority_lost

datatype admission =
    Adm_accepted int
  | Adm_conflated int
  | Adm_buffered int
  | Adm_handoff int int int
  | Adm_dropped drop_reason
  | Adm_blocked

definition is_delivered :: "admission \<Rightarrow> bool" where
  "is_delivered a \<longleftrightarrow> (case a of Adm_accepted _ \<Rightarrow> True | Adm_conflated _ \<Rightarrow> True | Adm_handoff _ _ _ \<Rightarrow> True | _ \<Rightarrow> False)"

datatype lifecycle = Opening | Live | Suspended | Closed

datatype readiness = Rdy_unknown | Warming | Ready | Stale | Rdy_suspended | Rdy_closed

record authority =
  au_generation :: int
  au_delivered_through :: "int option"
  au_stamped_at :: int

record ingress_retry =
  rt_attempt :: int
  rt_backoff :: int
  rt_resume_from :: int

datatype receipt_channel = Ch_accepted | Ch_dropped | Ch_error

datatype receipt_outcome =
    For_accepted int bool
  | For_dropped drop_reason
  | For_error ingress_error

fun outcome_channel :: "receipt_outcome \<Rightarrow> receipt_channel" where
  "outcome_channel (For_accepted d c) = Ch_accepted"
| "outcome_channel (For_dropped r) = Ch_dropped"
| "outcome_channel (For_error e) = Ch_error"

record 'k receipt =
  rc_offset :: int
  rc_key :: 'k
  rc_generation :: int
  rc_sequence :: "int option"
  rc_outcome :: receipt_outcome

datatype ingress_config_error = Conflate_not_bounding | Zero_receipt_capacity

record ingress_policy =
  gp_reorder_window :: int
  gp_freshness_horizon :: int
  gp_high_water :: int
  gp_overflow :: overflow
  gp_receipt_capacity :: nat
  gp_retry_base :: int
  gp_retry_ceiling :: int

definition ingress_policy_default :: ingress_policy where
  "ingress_policy_default = \<lparr>gp_reorder_window = 8, gp_freshness_horizon = 1000, gp_high_water = 64,
     gp_overflow = Conflate, gp_receipt_capacity = 256, gp_retry_base = 10, gp_retry_ceiling = 10000\<rparr>"

section \<open>The invalidation set\<close>

record scope_change =
  sg_value :: bool
  sg_readiness :: bool
  sg_authority :: bool
  sg_retry :: bool

definition no_change :: scope_change where
  "no_change = \<lparr>sg_value = False, sg_readiness = False, sg_authority = False, sg_retry = False\<rparr>"

definition change_is_empty :: "scope_change \<Rightarrow> bool" where
  "change_is_empty c \<longleftrightarrow> \<not> (sg_value c \<or> sg_readiness c \<or> sg_authority c \<or> sg_retry c)"

definition change_union :: "scope_change \<Rightarrow> scope_change \<Rightarrow> scope_change" where
  "change_union a b = \<lparr>sg_value = (sg_value a \<or> sg_value b), sg_readiness = (sg_readiness a \<or> sg_readiness b),
     sg_authority = (sg_authority a \<or> sg_authority b), sg_retry = (sg_retry a \<or> sg_retry b)\<rparr>"

definition change_all :: scope_change where
  "change_all = \<lparr>sg_value = True, sg_readiness = True, sg_authority = True, sg_retry = True\<rparr>"

definition change_creation :: scope_change where
  "change_creation = no_change\<lparr>sg_readiness := True, sg_authority := True\<rparr>"

record 'k ingress_change =
  ic_scopes :: "('k \<times> scope_change) list"
  ic_accepted :: bool
  ic_dropped :: bool
  ic_error :: bool

definition change_none :: "'k ingress_change" where
  "change_none = \<lparr>ic_scopes = [], ic_accepted = False, ic_dropped = False, ic_error = False\<rparr>"

definition ingress_change_is_empty :: "'k ingress_change \<Rightarrow> bool" where
  "ingress_change_is_empty c \<longleftrightarrow> \<not> (ic_scopes c \<noteq> [] \<or> ic_accepted c \<or> ic_dropped c \<or> ic_error c)"

definition change_mark :: "'k ingress_change \<Rightarrow> 'k \<Rightarrow> scope_change \<Rightarrow> 'k ingress_change" where
  "change_mark c k sc = (if change_is_empty sc then c else c\<lparr>ic_scopes := ic_scopes c @ [(k, sc)]\<rparr>)"

definition mark_channel :: "'k ingress_change \<Rightarrow> receipt_channel \<Rightarrow> 'k ingress_change" where
  "mark_channel c ch = (case ch of Ch_accepted \<Rightarrow> c\<lparr>ic_accepted := True\<rparr>
     | Ch_dropped \<Rightarrow> c\<lparr>ic_dropped := True\<rparr> | Ch_error \<Rightarrow> c\<lparr>ic_error := True\<rparr>)"

section \<open>One scope\<close>

record 'a scope =
  sc_lifecycle :: lifecycle
  sc_generation :: int
  sc_delivered_through :: "int option"
  sc_stamped_at :: int
  sc_pending :: "(int \<times> 'a \<times> int) list"
  sc_window :: "'a option"
  sc_window_depth :: int
  sc_errors :: int

definition scope_new :: "int \<Rightarrow> 'a scope" where
  "scope_new generation = \<lparr>sc_lifecycle = Opening, sc_generation = generation, sc_delivered_through = None,
     sc_stamped_at = 0, sc_pending = [], sc_window = None, sc_window_depth = 0, sc_errors = 0\<rparr>"

text \<open>The projection the derives are computed from.\<close>

record scope_view =
  sv_lifecycle :: lifecycle
  sv_generation :: int
  sv_delivered_through :: "int option"
  sv_stamped_at :: int
  sv_buffered :: int
  sv_window_depth :: int
  sv_errors :: int
  sv_now :: int
  sv_policy :: ingress_policy

definition scope_project :: "'a scope \<Rightarrow> int \<Rightarrow> ingress_policy \<Rightarrow> scope_view" where
  "scope_project s now pol = \<lparr>sv_lifecycle = sc_lifecycle s, sv_generation = sc_generation s,
     sv_delivered_through = sc_delivered_through s, sv_stamped_at = sc_stamped_at s,
     sv_buffered = int (length (sc_pending s)), sv_window_depth = sc_window_depth s,
     sv_errors = sc_errors s, sv_now = now, sv_policy = pol\<rparr>"

definition view_is_fresh :: "scope_view \<Rightarrow> bool" where
  "view_is_fresh v \<longleftrightarrow> max 0 (sv_now v - sv_stamped_at v) \<le> gp_freshness_horizon (sv_policy v)"

definition view_readiness :: "scope_view \<Rightarrow> readiness" where
  "view_readiness v =
     (if sv_lifecycle v = Closed then Rdy_closed
      else if sv_lifecycle v = Suspended then Rdy_suspended
      else if sv_lifecycle v = Opening then Warming
      else if sv_delivered_through v = None then Warming
      else if view_is_fresh v then Ready else Stale)"

definition view_authority :: "scope_view \<Rightarrow> authority option" where
  "view_authority v =
     (if sv_lifecycle v = Closed then None
      else Some \<lparr>au_generation = sv_generation v, au_delivered_through = sv_delivered_through v,
             au_stamped_at = sv_stamped_at v\<rparr>)"

definition view_resume_from :: "scope_view \<Rightarrow> int" where
  "view_resume_from v = (case sv_delivered_through v of None \<Rightarrow> 0 | Some d \<Rightarrow> d + 1)"

definition view_has_gap :: "scope_view \<Rightarrow> bool" where
  "view_has_gap v \<longleftrightarrow> sv_buffered v > 0"

definition view_retry :: "scope_view \<Rightarrow> ingress_retry option" where
  "view_retry v =
     (if sv_errors v = 0 then None
      else let shift = min 31 (sv_errors v - 1);
               backoff = min (gp_retry_base (sv_policy v) * 2 ^ nat shift) (gp_retry_ceiling (sv_policy v))
           in Some \<lparr>rt_attempt = sv_errors v, rt_backoff = backoff, rt_resume_from = view_resume_from v\<rparr>)"

definition next_expected :: "'a scope \<Rightarrow> int" where
  "next_expected s = (case sc_delivered_through s of None \<Rightarrow> 0 | Some d \<Rightarrow> d + 1)"

text \<open>What a reader can observe of the shape.\<close>

definition scope_stamp :: "'a scope \<Rightarrow> lifecycle \<times> int \<times> int option \<times> bool" where
  "scope_stamp s = (sc_lifecycle s, sc_generation s, sc_delivered_through s, sc_window s \<noteq> None)"

definition live_or_opening :: "'a scope \<Rightarrow> lifecycle" where
  "live_or_opening s = (if sc_delivered_through s \<noteq> None then Live else Opening)"

definition clear_window :: "'a scope \<Rightarrow> 'a scope" where
  "clear_window s = s\<lparr>sc_window := None, sc_window_depth := 0\<rparr>"

definition merge_into :: "'a merge_policy \<Rightarrow> 'a scope \<Rightarrow> 'a \<Rightarrow> int \<Rightarrow> 'a scope \<times> bool" where
  "merge_into mp s payload stamped_at =
     (let (w, conflated) = (case sc_window s of
              Some cur \<Rightarrow> (mp_merge mp cur payload, True)
            | None \<Rightarrow> (payload, False))
      in (s\<lparr>sc_window := Some w, sc_window_depth := sc_window_depth s + 1,
            sc_stamped_at := max (sc_stamped_at s) stamped_at\<rparr>, conflated))"

text \<open>The loop that flushes the buffered successors.\<close>

function flush_pending :: "'a merge_policy \<Rightarrow> 'a scope \<Rightarrow> bool \<Rightarrow> int \<Rightarrow> 'a scope \<times> bool \<times> int" where
  "flush_pending mp s conflated through =
     (case map_of (sc_pending s) (next_expected s) of
        None \<Rightarrow> (s, conflated, through)
      | Some (payload, stamped_at) \<Rightarrow>
          let nxt = next_expected s;
              (s1, c) = merge_into mp (s\<lparr>sc_pending := AList.delete nxt (sc_pending s)\<rparr>) payload stamped_at
          in flush_pending mp (s1\<lparr>sc_delivered_through := Some nxt\<rparr>) (c \<or> conflated) nxt)"
  by pat_completeness auto

lemma delete_shorter: "map_of xs k = Some v \<Longrightarrow> length (AList.delete k xs) < length xs"
  unfolding AList.delete_eq by (rule length_filter_less [of "(k, v)"]) (auto dest: map_of_SomeD)

termination flush_pending
proof (relation "measure (\<lambda>(mp, s, c, t). length (sc_pending s))")
qed (auto simp: merge_into_def Let_def dest: delete_shorter split: option.splits)

declare flush_pending.simps [simp del]

section \<open>The core\<close>

datatype decision =
    Refuse drop_reason
  | Block_decision
  | Buffered int
  | Delivered int bool "(int \<times> int) option"

record ('k, 'a) ingress_core =
  ig_policy :: ingress_policy
  ig_merge :: "'a merge_policy"
  ig_scopes :: "('k \<times> 'a scope) list"
  ig_receipts :: "'k receipt list"
  ig_next_offset :: int
  ig_now :: int

definition ingress_core_new :: "ingress_policy \<Rightarrow> 'a merge_policy \<Rightarrow> ingress_config_error + ('k, 'a) ingress_core" where
  "ingress_core_new pol mp =
     (if gp_overflow pol = Conflate \<and> \<not> mp_conflates mp then Inl Conflate_not_bounding
      else if gp_receipt_capacity pol = 0 then Inl Zero_receipt_capacity
      else Inr \<lparr>ig_policy = pol, ig_merge = mp, ig_scopes = [], ig_receipts = [], ig_next_offset = 0, ig_now = 0\<rparr>)"

definition scope_of :: "('k, 'a) ingress_core \<Rightarrow> 'k \<Rightarrow> 'a scope option" where
  "scope_of c k = map_of (ig_scopes c) k"

definition put_scope :: "('k, 'a) ingress_core \<Rightarrow> 'k \<Rightarrow> 'a scope \<Rightarrow> ('k, 'a) ingress_core" where
  "put_scope c k s = c\<lparr>ig_scopes := AList.update k s (ig_scopes c)\<rparr>"

definition ingress_view :: "('k, 'a) ingress_core \<Rightarrow> 'k \<Rightarrow> scope_view option" where
  "ingress_view c k = map_option (\<lambda>s. scope_project s (ig_now c) (ig_policy c)) (scope_of c k)"

definition ingress_readiness :: "('k, 'a) ingress_core \<Rightarrow> 'k \<Rightarrow> readiness" where
  "ingress_readiness c k = (case ingress_view c k of None \<Rightarrow> Rdy_unknown | Some v \<Rightarrow> view_readiness v)"

definition ingress_authority :: "('k, 'a) ingress_core \<Rightarrow> 'k \<Rightarrow> authority option" where
  "ingress_authority c k = (case ingress_view c k of None \<Rightarrow> None | Some v \<Rightarrow> view_authority v)"

definition ingress_retry_of :: "('k, 'a) ingress_core \<Rightarrow> 'k \<Rightarrow> ingress_retry option" where
  "ingress_retry_of c k = (case ingress_view c k of None \<Rightarrow> None | Some v \<Rightarrow> view_retry v)"

definition ingress_peek :: "('k, 'a) ingress_core \<Rightarrow> 'k \<Rightarrow> 'a option" where
  "ingress_peek c k = (case scope_of c k of None \<Rightarrow> None | Some s \<Rightarrow> sc_window s)"

definition ingress_receipts :: "('k, 'a) ingress_core \<Rightarrow> receipt_channel \<Rightarrow> 'k receipt list" where
  "ingress_receipts c ch = filter (\<lambda>r. outcome_channel (rc_outcome r) = ch) (ig_receipts c)"

definition push_receipt :: "('k, 'a) ingress_core \<Rightarrow> 'k receipt \<Rightarrow> ('k, 'a) ingress_core \<times> receipt_channel" where
  "push_receipt c r =
     (let rs = ig_receipts c @ [r\<lparr>rc_offset := ig_next_offset c\<rparr>]
      in (c\<lparr>ig_next_offset := ig_next_offset c + 1,
            ig_receipts := drop (length rs - gp_receipt_capacity (ig_policy c)) rs\<rparr>,
          outcome_channel (rc_outcome r)))"

section \<open>Lifecycle\<close>

definition ingress_open :: "('k, 'a) ingress_core \<Rightarrow> 'k \<Rightarrow> int \<Rightarrow> ('k, 'a) ingress_core \<times> 'k ingress_change" where
  "ingress_open c k generation =
     (case scope_of c k of
        None \<Rightarrow> (put_scope c k (scope_new generation), change_mark change_none k change_creation)
      | Some s \<Rightarrow>
          let s' = (if sc_lifecycle s = Closed then scope_new generation
                    else let s1 = s\<lparr>sc_lifecycle := live_or_opening s\<rparr>
                         in if generation > sc_generation s1
                            then s1\<lparr>sc_generation := generation, sc_delivered_through := None, sc_pending := []\<rparr>
                            else s1);
              before = (sc_lifecycle s, sc_generation s, sc_delivered_through s);
              after = (sc_lifecycle s', sc_generation s', sc_delivered_through s')
          in (put_scope c k s',
              if before \<noteq> after
              then change_mark change_none k (no_change\<lparr>sg_readiness := (fst before \<noteq> fst after), sg_authority := True\<rparr>)
              else change_none))"

definition ingress_suspend :: "('k, 'a) ingress_core \<Rightarrow> 'k \<Rightarrow>
    ('k, 'a) ingress_core \<times> 'k ingress_change \<times> replay_request option" where
  "ingress_suspend c k =
     (case scope_of c k of
        None \<Rightarrow> (c, change_none, None)
      | Some s \<Rightarrow>
          if sc_lifecycle s = Suspended \<or> sc_lifecycle s = Closed then (c, change_none, None)
          else (put_scope c k (s\<lparr>sc_lifecycle := Suspended\<rparr>),
                change_mark change_none k (no_change\<lparr>sg_readiness := True\<rparr>),
                Some \<lparr>rq_generation = sc_generation s, rq_from_sequence = next_expected s\<rparr>))"

definition ingress_reconnect :: "('k, 'a) ingress_core \<Rightarrow> 'k \<Rightarrow> int \<Rightarrow>
    ('k, 'a) ingress_core \<times> 'k ingress_change \<times> replay_request" where
  "ingress_reconnect c k generation =
     (let created = (scope_of c k = None);
          s = (case scope_of c k of None \<Rightarrow> scope_new generation | Some s \<Rightarrow> s);
          handoff = (generation > sc_generation s);
          had_window = (sc_window s \<noteq> None);
          s1 = (if handoff
                then clear_window (s\<lparr>sc_generation := generation, sc_delivered_through := None, sc_pending := []\<rparr>)
                else s);
          before_lifecycle = sc_lifecycle s1;
          had_errors = (sc_errors s1 > 0);
          s2 = s1\<lparr>sc_lifecycle := live_or_opening s1, sc_errors := 0\<rparr>;
          base = \<lparr>sg_value = (handoff \<and> had_window), sg_readiness = (before_lifecycle \<noteq> sc_lifecycle s2),
                  sg_authority = handoff, sg_retry = had_errors\<rparr>
      in (put_scope c k s2,
          change_mark change_none k (if created then change_union base change_creation else base),
          \<lparr>rq_generation = sc_generation s2, rq_from_sequence = next_expected s2\<rparr>))"

definition ingress_close :: "('k, 'a) ingress_core \<Rightarrow> 'k \<Rightarrow> ('k, 'a) ingress_core \<times> 'k ingress_change" where
  "ingress_close c k =
     (case scope_of c k of
        None \<Rightarrow> (c, change_none)
      | Some s \<Rightarrow>
          if sc_lifecycle s = Closed then (c, change_none)
          else (put_scope c k (clear_window (s\<lparr>sc_lifecycle := Closed, sc_pending := [], sc_errors := 0\<rparr>)),
                change_mark change_none k \<lparr>sg_value = (sc_window s \<noteq> None), sg_readiness = True, sg_authority = True,
                  sg_retry = (sc_errors s > 0)\<rparr>))"

definition ingress_tick :: "('k, 'a) ingress_core \<Rightarrow> int \<Rightarrow> ('k, 'a) ingress_core \<times> 'k ingress_change" where
  "ingress_tick c now =
     (if now = ig_now c then (c, change_none)
      else (c\<lparr>ig_now := now\<rparr>,
            foldl (\<lambda>ch (k, s).
                if view_readiness (scope_project s (ig_now c) (ig_policy c)) \<noteq>
                   view_readiness (scope_project s now (ig_policy c))
                then change_mark ch k (no_change\<lparr>sg_readiness := True\<rparr>) else ch)
              change_none (ig_scopes c)))"

definition ingress_fail :: "('k, 'a) ingress_core \<Rightarrow> 'k \<Rightarrow> ingress_error \<Rightarrow> ('k, 'a) ingress_core \<times> 'k ingress_change" where
  "ingress_fail c k err =
     (let created = (scope_of c k = None);
          s = (case scope_of c k of None \<Rightarrow> scope_new 0 | Some s \<Rightarrow> s);
          s1 = s\<lparr>sc_errors := sc_errors s + 1\<rparr>;
          base = no_change\<lparr>sg_retry := True\<rparr>;
          ch = change_mark change_none k (if created then change_union base change_creation else base);
          (c2, channel) = push_receipt (put_scope c k s1)
            \<lparr>rc_offset = 0, rc_key = k, rc_generation = sc_generation s1, rc_sequence = None, rc_outcome = For_error err\<rparr>
      in (c2, mark_channel ch channel))"

definition ingress_drain :: "('k, 'a) ingress_core \<Rightarrow> 'k \<Rightarrow> ('k, 'a) ingress_core \<times> 'k ingress_change \<times> 'a option" where
  "ingress_drain c k =
     (case scope_of c k of
        None \<Rightarrow> (c, change_none, None)
      | Some s \<Rightarrow>
          if sc_window s = None then (c, change_none, None)
          else (put_scope c k (clear_window s), change_mark change_none k (no_change\<lparr>sg_value := True\<rparr>), sc_window s))"

section \<open>Admission\<close>

text \<open>A handoff is a baseline reset: fence, watermark, buffer and window.\<close>

definition move_fence :: "'a scope \<Rightarrow> int \<Rightarrow> 'a scope \<times> (int \<times> int) option" where
  "move_fence s generation =
     (if generation > sc_generation s
      then (clear_window (s\<lparr>sc_generation := generation, sc_delivered_through := None, sc_pending := []\<rparr>),
            Some (sc_generation s, generation))
      else (s, None))"

text \<open>Ahead of the watermark: park the envelope in the reorder buffer.\<close>

definition park :: "ingress_policy \<Rightarrow> 'a scope \<Rightarrow> ('k, 'a) envelope \<Rightarrow> 'a scope \<times> decision" where
  "park pol s e =
     (if map_of (sc_pending s) (en_sequence e) \<noteq> None then (s, Refuse Duplicate_buffered)
      else if int (length (sc_pending s)) \<ge> gp_reorder_window pol then (s, Refuse Reorder_window_overflow)
      else (s\<lparr>sc_pending := AList.update (en_sequence e) (en_payload e, en_stamped_at e) (sc_pending s)\<rparr>,
            Buffered (next_expected s)))"

text \<open>In order: backpressure, the merge, the flush of the successors it unblocked.\<close>

definition deliver :: "ingress_policy \<Rightarrow> 'a merge_policy \<Rightarrow> 'a scope \<Rightarrow> ('k, 'a) envelope \<Rightarrow> (int \<times> int) option \<Rightarrow>
    'a scope \<times> decision" where
  "deliver pol mp s e handoff =
     (if sc_window_depth s \<ge> gp_high_water pol \<and> gp_overflow pol = Block then (s, Block_decision)
      else if sc_window_depth s \<ge> gp_high_water pol \<and> gp_overflow pol = DropNewest then (s, Refuse Backpressure)
      else
        let s2 = (if sc_window_depth s \<ge> gp_high_water pol \<and> gp_overflow pol = DropOldest then clear_window s else s);
            (s3, conflated) = merge_into mp s2 (en_payload e) (en_stamped_at e);
            s4 = s3\<lparr>sc_delivered_through := Some (en_sequence e), sc_lifecycle := Live, sc_errors := 0\<rparr>;
            (s5, conflated', through) = flush_pending mp s4 conflated (en_sequence e)
        in (s5, Delivered through conflated' handoff))"

text \<open>The decision over one scope: it changes that scope and nothing else.\<close>

definition decide :: "ingress_policy \<Rightarrow> 'a merge_policy \<Rightarrow> int \<Rightarrow> 'a scope \<Rightarrow> ('k, 'a) envelope \<Rightarrow> 'a scope \<times> decision" where
  "decide pol mp now s e =
     (if sc_lifecycle s = Closed then (s, Refuse Scope_closed)
      else if en_generation e < sc_generation s then (s, Refuse Stale_generation)
      else if max 0 (now - en_stamped_at e) > gp_freshness_horizon pol then (s, Refuse Expired)
      else
        let (s1, handoff) = move_fence s (en_generation e)
        in if en_sequence e < next_expected s1 then (s1, Refuse Duplicate_sequence)
           else if en_sequence e > next_expected s1 then park pol s1 e
           else deliver pol mp s1 e handoff)"

definition admission_receipt :: "'k \<Rightarrow> int \<Rightarrow> int \<Rightarrow> receipt_outcome \<Rightarrow> 'k receipt" where
  "admission_receipt k fence sequence outcome =
     \<lparr>rc_offset = 0, rc_key = k, rc_generation = fence, rc_sequence = Some sequence, rc_outcome = outcome\<rparr>"

definition ingress_admit :: "('k, 'a) ingress_core \<Rightarrow> ('k, 'a) envelope \<Rightarrow>
    ('k, 'a) ingress_core \<times> 'k ingress_change \<times> admission" where
  "ingress_admit c e =
     (let k = en_key e;
          existing = scope_of c k;
          created = (existing = None);
          before = map_option scope_stamp existing;
          s = (case existing of None \<Rightarrow> scope_new (en_generation e) | Some s \<Rightarrow> s);
          (s', dec) = decide (ig_policy c) (ig_merge c) (ig_now c) s e;
          admitted = (case dec of Buffered _ \<Rightarrow> True | Delivered _ _ _ \<Rightarrow> True | _ \<Rightarrow> False);
          c1 = (if created \<and> \<not> admitted then c else put_scope c k s');
          surviving = scope_of c1 k;
          fence = (case surviving of None \<Rightarrow> en_generation e | Some t \<Rightarrow> sc_generation t)
      in case dec of
           Refuse reason \<Rightarrow>
             (let (c2, ch) = push_receipt c1 (admission_receipt k fence (en_sequence e) (For_dropped reason))
              in (c2, mark_channel change_none ch, Adm_dropped reason))
         | Block_decision \<Rightarrow>
             (let (c2, ch) = push_receipt c1 (admission_receipt k fence (en_sequence e) (For_dropped Backpressure))
              in (c2, mark_channel change_none ch, Adm_blocked))
         | Buffered gap_from \<Rightarrow>
             (let base = (if created then change_creation else no_change);
                  sc = (case (before, map_option scope_stamp surviving) of
                          (Some (l, g, d, w), Some (l', g', d', w')) \<Rightarrow>
                            change_union base \<lparr>sg_value = (w \<noteq> w'),
                              sg_readiness = (l \<noteq> l' \<or> (d = None) \<noteq> (d' = None)),
                              sg_authority = (g \<noteq> g' \<or> d \<noteq> d'), sg_retry = False\<rparr>
                        | _ \<Rightarrow> base)
              in (c1, change_mark change_none k sc, Adm_buffered gap_from))
         | Delivered through conflated handoff \<Rightarrow>
             (let (c2, ch) = push_receipt c1 (admission_receipt k fence (en_sequence e) (For_accepted through conflated));
                  adm = (case handoff of
                           Some (a, b) \<Rightarrow> Adm_handoff a b through
                         | None \<Rightarrow> if conflated then Adm_conflated through else Adm_accepted through)
              in (c2, mark_channel (change_mark change_none k change_all) ch, adm)))"

end
