(* ===== verification/IngressShell.thy ===== *)
theory IngressShell
  imports Ingress
begin

text \<open>
  The single-threaded shell of ingress, \<^verbatim>\<open>src/lazily/ingress.py\<close>: four memoized readers per scope and
  three receipt readers over the core, cleared by the reported invalidation set. A reader is a slot
  without dependencies, so its state is its cache: \<open>None\<close> when it is not cached. The schedule reads two
  source cells and is the function of their values (theory KernelTheorems).
\<close>

record 'a scope_readers =
  rr_value :: "'a option option"
  rr_readiness :: "readiness option"
  rr_authority :: "authority option option"
  rr_retry :: "ingress_retry option option"

definition readers_new :: "'a scope_readers" where
  "readers_new = \<lparr>rr_value = None, rr_readiness = None, rr_authority = None, rr_retry = None\<rparr>"

record ('k, 'a) ingress_cell =
  il_core :: "('k, 'a) ingress_core"
  il_scopes :: "('k \<times> 'a scope_readers) list"
  il_accepted :: "'k receipt list option"
  il_dropped :: "'k receipt list option"
  il_errors :: "'k receipt list option"
  il_transport_kind :: "transport_kind cell"
  il_poll_interval :: "int cell"

definition ingress_cell_new :: "ingress_policy \<Rightarrow> 'a merge_policy \<Rightarrow> transport_kind \<Rightarrow> int \<Rightarrow>
    ingress_config_error + ('k, 'a) ingress_cell" where
  "ingress_cell_new pol mp kind interval =
     (case ingress_core_new pol mp of
        Inl e \<Rightarrow> Inl e
      | Inr c \<Rightarrow> Inr \<lparr>il_core = c, il_scopes = [], il_accepted = None, il_dropped = None, il_errors = None,
          il_transport_kind = cell_new kind, il_poll_interval = cell_new interval\<rparr>)"

definition ensure_readers :: "('k, 'a) ingress_cell \<Rightarrow> 'k \<Rightarrow> ('k, 'a) ingress_cell \<times> 'a scope_readers" where
  "ensure_readers c k =
     (case map_of (il_scopes c) k of
        Some rr \<Rightarrow> (c, rr)
      | None \<Rightarrow> (c\<lparr>il_scopes := AList.update k readers_new (il_scopes c)\<rparr>, readers_new))"

section \<open>Applying an invalidation set\<close>

definition reset_readers :: "'a scope_readers \<Rightarrow> scope_change \<Rightarrow> 'a scope_readers" where
  "reset_readers rr sc =
     \<lparr>rr_value = (if sg_value sc then None else rr_value rr),
      rr_readiness = (if sg_readiness sc then None else rr_readiness rr),
      rr_authority = (if sg_authority sc then None else rr_authority rr),
      rr_retry = (if sg_retry sc then None else rr_retry rr)\<rparr>"

definition reset_scope :: "('k, 'a) ingress_cell \<Rightarrow> 'k \<times> scope_change \<Rightarrow> ('k, 'a) ingress_cell" where
  "reset_scope c x =
     (let (c', rr) = ensure_readers c (fst x)
      in c'\<lparr>il_scopes := AList.update (fst x) (reset_readers rr (snd x)) (il_scopes c')\<rparr>)"

definition apply_ingress_change :: "('k, 'a) ingress_cell \<Rightarrow> 'k ingress_change \<Rightarrow> ('k, 'a) ingress_cell" where
  "apply_ingress_change c ch =
     (let c1 = foldl reset_scope c (ic_scopes ch)
      in c1\<lparr>il_accepted := (if ic_accepted ch then None else il_accepted c1),
            il_dropped := (if ic_dropped ch then None else il_dropped c1),
            il_errors := (if ic_error ch then None else il_errors c1)\<rparr>)"

section \<open>Mutators\<close>

definition il_open :: "('k, 'a) ingress_cell \<Rightarrow> 'k \<Rightarrow> int \<Rightarrow> ('k, 'a) ingress_cell" where
  "il_open c k generation =
     (let (core, ch) = ingress_open (il_core c) k generation in apply_ingress_change (c\<lparr>il_core := core\<rparr>) ch)"

definition il_admit :: "('k, 'a) ingress_cell \<Rightarrow> ('k, 'a) envelope \<Rightarrow> ('k, 'a) ingress_cell \<times> admission" where
  "il_admit c e =
     (let (core, ch, adm) = ingress_admit (il_core c) e in (apply_ingress_change (c\<lparr>il_core := core\<rparr>) ch, adm))"

definition il_suspend :: "('k, 'a) ingress_cell \<Rightarrow> 'k \<Rightarrow> ('k, 'a) ingress_cell \<times> replay_request option" where
  "il_suspend c k =
     (let (core, ch, rq) = ingress_suspend (il_core c) k in (apply_ingress_change (c\<lparr>il_core := core\<rparr>) ch, rq))"

definition il_reconnect :: "('k, 'a) ingress_cell \<Rightarrow> 'k \<Rightarrow> int \<Rightarrow> ('k, 'a) ingress_cell \<times> replay_request" where
  "il_reconnect c k generation =
     (let (core, ch, rq) = ingress_reconnect (il_core c) k generation
      in (apply_ingress_change (c\<lparr>il_core := core\<rparr>) ch, rq))"

definition il_close :: "('k, 'a) ingress_cell \<Rightarrow> 'k \<Rightarrow> ('k, 'a) ingress_cell" where
  "il_close c k =
     (let (core, ch) = ingress_close (il_core c) k in apply_ingress_change (c\<lparr>il_core := core\<rparr>) ch)"

definition il_fail :: "('k, 'a) ingress_cell \<Rightarrow> 'k \<Rightarrow> ingress_error \<Rightarrow> ('k, 'a) ingress_cell" where
  "il_fail c k err =
     (let (core, ch) = ingress_fail (il_core c) k err in apply_ingress_change (c\<lparr>il_core := core\<rparr>) ch)"

definition il_tick :: "('k, 'a) ingress_cell \<Rightarrow> int \<Rightarrow> ('k, 'a) ingress_cell" where
  "il_tick c now =
     (let (core, ch) = ingress_tick (il_core c) now in apply_ingress_change (c\<lparr>il_core := core\<rparr>) ch)"

definition il_drain :: "('k, 'a) ingress_cell \<Rightarrow> 'k \<Rightarrow> ('k, 'a) ingress_cell \<times> 'a option" where
  "il_drain c k =
     (let (core, ch, v) = ingress_drain (il_core c) k in (apply_ingress_change (c\<lparr>il_core := core\<rparr>) ch, v))"

text \<open>
  \<^verbatim>\<open>pump\<close>: the transport is the state \<open>t\<close> with its two operations; the keys of the drained envelopes in
  order of first appearance.
\<close>

fun admit_all :: "('k, 'a) ingress_cell \<Rightarrow> ('k, 'a) envelope list \<Rightarrow> ('k, 'a) ingress_cell \<times> admission list" where
  "admit_all c [] = (c, [])"
| "admit_all c (e # es) =
     (let (c1, a) = il_admit c e; (c2, as) = admit_all c1 es in (c2, a # as))"

fun request_replays :: "('t \<Rightarrow> 'k \<Rightarrow> replay_request \<Rightarrow> 't \<times> bool) \<Rightarrow> ('k, 'a) ingress_core \<Rightarrow> 't \<Rightarrow> 'k list \<Rightarrow> 't" where
  "request_replays request core t [] = t"
| "request_replays request core t (k # ks) =
     (case ingress_view core k of
        Some v \<Rightarrow>
          request_replays request core
            (if view_has_gap v
             then fst (request t k \<lparr>rq_generation = sv_generation v, rq_from_sequence = view_resume_from v\<rparr>) else t) ks
      | None \<Rightarrow> request_replays request core t ks)"

definition il_pump :: "('t \<Rightarrow> 't \<times> ('k, 'a) envelope list) \<Rightarrow> ('t \<Rightarrow> 'k \<Rightarrow> replay_request \<Rightarrow> 't \<times> bool) \<Rightarrow>
    ('k, 'a) ingress_cell \<Rightarrow> 't \<Rightarrow> ('k, 'a) ingress_cell \<times> 't \<times> admission list" where
  "il_pump drain request c t =
     (let (t1, es) = drain t;
          (c1, outcomes) = admit_all c es;
          touched = rev (remdups (rev (map en_key es)))
      in (c1, request_replays request (il_core c1) t1 touched, outcomes))"

definition il_set_transport :: "('k, 'a) ingress_cell \<Rightarrow> transport_kind \<Rightarrow> ('k, 'a) ingress_cell" where
  "il_set_transport c kind = c\<lparr>il_transport_kind := cell_set (il_transport_kind c) kind\<rparr>"

definition il_set_poll_interval :: "('k, 'a) ingress_cell \<Rightarrow> int \<Rightarrow> ('k, 'a) ingress_cell" where
  "il_set_poll_interval c interval = c\<lparr>il_poll_interval := cell_set (il_poll_interval c) interval\<rparr>"

section \<open>Reads\<close>

definition put_readers :: "('k, 'a) ingress_cell \<Rightarrow> 'k \<Rightarrow> 'a scope_readers \<Rightarrow> ('k, 'a) ingress_cell" where
  "put_readers c k rr = c\<lparr>il_scopes := AList.update k rr (il_scopes c)\<rparr>"

definition il_value :: "('k, 'a) ingress_cell \<Rightarrow> 'k \<Rightarrow> ('k, 'a) ingress_cell \<times> 'a option" where
  "il_value c k =
     (let (c1, rr) = ensure_readers c k
      in case rr_value rr of
           Some v \<Rightarrow> (c1, v)
         | None \<Rightarrow> let v = ingress_peek (il_core c1) k in (put_readers c1 k (rr\<lparr>rr_value := Some v\<rparr>), v))"

definition il_readiness :: "('k, 'a) ingress_cell \<Rightarrow> 'k \<Rightarrow> ('k, 'a) ingress_cell \<times> readiness" where
  "il_readiness c k =
     (let (c1, rr) = ensure_readers c k
      in case rr_readiness rr of
           Some v \<Rightarrow> (c1, v)
         | None \<Rightarrow> let v = ingress_readiness (il_core c1) k in (put_readers c1 k (rr\<lparr>rr_readiness := Some v\<rparr>), v))"

definition il_authority :: "('k, 'a) ingress_cell \<Rightarrow> 'k \<Rightarrow> ('k, 'a) ingress_cell \<times> authority option" where
  "il_authority c k =
     (let (c1, rr) = ensure_readers c k
      in case rr_authority rr of
           Some v \<Rightarrow> (c1, v)
         | None \<Rightarrow> let v = ingress_authority (il_core c1) k in (put_readers c1 k (rr\<lparr>rr_authority := Some v\<rparr>), v))"

definition il_retry :: "('k, 'a) ingress_cell \<Rightarrow> 'k \<Rightarrow> ('k, 'a) ingress_cell \<times> ingress_retry option" where
  "il_retry c k =
     (let (c1, rr) = ensure_readers c k
      in case rr_retry rr of
           Some v \<Rightarrow> (c1, v)
         | None \<Rightarrow> let v = ingress_retry_of (il_core c1) k in (put_readers c1 k (rr\<lparr>rr_retry := Some v\<rparr>), v))"

definition il_receipts :: "('k, 'a) ingress_cell \<Rightarrow> receipt_channel \<Rightarrow> ('k, 'a) ingress_cell \<times> 'k receipt list" where
  "il_receipts c ch =
     (let v = ingress_receipts (il_core c) ch
      in case ch of
           Ch_accepted \<Rightarrow> (case il_accepted c of Some w \<Rightarrow> (c, w) | None \<Rightarrow> (c\<lparr>il_accepted := Some v\<rparr>, v))
         | Ch_dropped \<Rightarrow> (case il_dropped c of Some w \<Rightarrow> (c, w) | None \<Rightarrow> (c\<lparr>il_dropped := Some v\<rparr>, v))
         | Ch_error \<Rightarrow> (case il_errors c of Some w \<Rightarrow> (c, w) | None \<Rightarrow> (c\<lparr>il_errors := Some v\<rparr>, v)))"

definition il_schedule :: "('k, 'a) ingress_cell \<Rightarrow> ingress_schedule" where
  "il_schedule c = schedule_for_kind (c_value (il_transport_kind c)) (c_value (il_poll_interval c))"

end
