(* ===== verification/IngressProps.thy ===== *)
theory IngressProps
  imports IngressShell
begin

text \<open>
  The contract between the ingress core and its shell: the reported invalidation set covers every
  reader whose value moved, for the calls that do not move the generation fence behind the readers'
  backs (\<open>call_declared\<close>; the calls outside it are in theory Findings).
\<close>

section \<open>Calls\<close>

datatype ('k, 'a) ingress_call =
    Ig_open 'k int
  | Ig_admit "('k, 'a) envelope"
  | Ig_suspend 'k
  | Ig_reconnect 'k int
  | Ig_close 'k
  | Ig_fail 'k ingress_error
  | Ig_tick int
  | Ig_drain 'k

primrec core_call :: "('k, 'a) ingress_core \<Rightarrow> ('k, 'a) ingress_call \<Rightarrow> ('k, 'a) ingress_core \<times> 'k ingress_change" where
  "core_call c (Ig_open k g) = ingress_open c k g"
| "core_call c (Ig_admit e) = (let (c', ch, a) = ingress_admit c e in (c', ch))"
| "core_call c (Ig_suspend k) = (let (c', ch, r) = ingress_suspend c k in (c', ch))"
| "core_call c (Ig_reconnect k g) = (let (c', ch, r) = ingress_reconnect c k g in (c', ch))"
| "core_call c (Ig_close k) = ingress_close c k"
| "core_call c (Ig_fail k err) = ingress_fail c k err"
| "core_call c (Ig_tick now) = ingress_tick c now"
| "core_call c (Ig_drain k) = (let (c', ch, v) = ingress_drain c k in (c', ch))"

primrec cell_call :: "('k, 'a) ingress_cell \<Rightarrow> ('k, 'a) ingress_call \<Rightarrow> ('k, 'a) ingress_cell" where
  "cell_call c (Ig_open k g) = il_open c k g"
| "cell_call c (Ig_admit e) = fst (il_admit c e)"
| "cell_call c (Ig_suspend k) = fst (il_suspend c k)"
| "cell_call c (Ig_reconnect k g) = fst (il_reconnect c k g)"
| "cell_call c (Ig_close k) = il_close c k"
| "cell_call c (Ig_fail k err) = il_fail c k err"
| "cell_call c (Ig_tick now) = il_tick c now"
| "cell_call c (Ig_drain k) = fst (il_drain c k)"

lemma cell_call_core:
  "cell_call c x = apply_ingress_change (c\<lparr>il_core := fst (core_call (il_core c) x)\<rparr>) (snd (core_call (il_core c) x))"
  by (cases x) (simp_all add: il_open_def il_admit_def il_suspend_def il_reconnect_def il_close_def il_fail_def
      il_tick_def il_drain_def split_beta Let_def)

section \<open>What the readers show\<close>

text \<open>The four readers of a key, as functions of its scope and of the clock.\<close>

definition obs_readiness :: "int \<Rightarrow> ingress_policy \<Rightarrow> 'a scope option \<Rightarrow> readiness" where
  "obs_readiness now pol x = (case x of None \<Rightarrow> Rdy_unknown | Some s \<Rightarrow>
     (case sc_lifecycle s of Closed \<Rightarrow> Rdy_closed | Suspended \<Rightarrow> Rdy_suspended | Opening \<Rightarrow> Warming
      | Live \<Rightarrow> if sc_delivered_through s = None then Warming
          else if max 0 (now - sc_stamped_at s) \<le> gp_freshness_horizon pol then Ready else Stale))"

definition obs_authority :: "'a scope option \<Rightarrow> authority option" where
  "obs_authority x = (case x of None \<Rightarrow> None | Some s \<Rightarrow>
     if sc_lifecycle s = Closed then None
     else Some \<lparr>au_generation = sc_generation s, au_delivered_through = sc_delivered_through s, au_stamped_at = sc_stamped_at s\<rparr>)"

definition obs_retry :: "ingress_policy \<Rightarrow> 'a scope option \<Rightarrow> ingress_retry option" where
  "obs_retry pol x = (case x of None \<Rightarrow> None | Some s \<Rightarrow>
     if sc_errors s = 0 then None
     else Some \<lparr>rt_attempt = sc_errors s,
            rt_backoff = min (gp_retry_base pol * 2 ^ nat (min 31 (sc_errors s - 1))) (gp_retry_ceiling pol),
            rt_resume_from = next_expected s\<rparr>)"

definition obs_peek :: "'a scope option \<Rightarrow> 'a option" where
  "obs_peek x = (case x of None \<Rightarrow> None | Some s \<Rightarrow> sc_window s)"

lemma readiness_obs: "ingress_readiness c k = obs_readiness (ig_now c) (ig_policy c) (scope_of c k)"
  by (cases "scope_of c k") (auto simp: ingress_readiness_def obs_readiness_def ingress_view_def view_readiness_def
      scope_project_def view_is_fresh_def split: lifecycle.split)

lemma authority_obs: "ingress_authority c k = obs_authority (scope_of c k)"
  by (cases "scope_of c k") (auto simp: ingress_authority_def obs_authority_def ingress_view_def view_authority_def scope_project_def)

lemma retry_obs: "ingress_retry_of c k = obs_retry (ig_policy c) (scope_of c k)"
  by (cases "scope_of c k") (auto simp: ingress_retry_of_def obs_retry_def ingress_view_def view_retry_def scope_project_def
      view_resume_from_def next_expected_def Let_def)

lemma peek_obs: "ingress_peek c k = obs_peek (scope_of c k)"
  by (simp add: ingress_peek_def obs_peek_def)

lemmas obs_eqs = readiness_obs authority_obs retry_obs peek_obs

definition dirty :: "(scope_change \<Rightarrow> bool) \<Rightarrow> 'k ingress_change \<Rightarrow> 'k \<Rightarrow> bool" where
  "dirty f ch k \<longleftrightarrow> (\<exists>x \<in> set (ic_scopes ch). fst x = k \<and> f (snd x))"

definition channel_dirty :: "'k ingress_change \<Rightarrow> receipt_channel \<Rightarrow> bool" where
  "channel_dirty ch x = (case x of Ch_accepted \<Rightarrow> ic_accepted ch | Ch_dropped \<Rightarrow> ic_dropped ch | Ch_error \<Rightarrow> ic_error ch)"

text \<open>
  A transition is covered when every reader that moved is dirty. A receipt reader that is not dirty
  may only have lost receipts the log evicted.
\<close>

definition covers :: "('k, 'a) ingress_core \<Rightarrow> ('k, 'a) ingress_core \<Rightarrow> 'k ingress_change \<Rightarrow> bool" where
  "covers c c' ch \<longleftrightarrow>
     (\<forall>k. (ingress_peek c' k = ingress_peek c k \<or> dirty sg_value ch k) \<and>
          (ingress_readiness c' k = ingress_readiness c k \<or> dirty sg_readiness ch k) \<and>
          (ingress_authority c' k = ingress_authority c k \<or> dirty sg_authority ch k) \<and>
          (ingress_retry_of c' k = ingress_retry_of c k \<or> dirty sg_retry ch k)) \<and>
     (\<forall>x. suffix (ingress_receipts c' x) (ingress_receipts c x) \<or> channel_dirty ch x)"

text \<open>A transition of one scope.\<close>

lemma scope_of_put: "scope_of (put_scope c k s) = (scope_of c)(k \<mapsto> s)"
  by (rule ext) (simp add: scope_of_def put_scope_def AList.update_conv')

lemma put_scope_fields [simp]: "ig_now (put_scope c k s) = ig_now c" "ig_policy (put_scope c k s) = ig_policy c"
  "ig_merge (put_scope c k s) = ig_merge c" "ig_receipts (put_scope c k s) = ig_receipts c"
  "ig_next_offset (put_scope c k s) = ig_next_offset c"
  by (simp_all add: put_scope_def)

lemma push_receipt_fields [simp]: "ig_now (fst (push_receipt c r)) = ig_now c" "ig_policy (fst (push_receipt c r)) = ig_policy c"
  "ig_scopes (fst (push_receipt c r)) = ig_scopes c" "ig_merge (fst (push_receipt c r)) = ig_merge c"
  "snd (push_receipt c r) = outcome_channel (rc_outcome r)"
  by (simp_all add: push_receipt_def Let_def)

lemma scope_of_push [simp]: "scope_of (fst (push_receipt c r)) = scope_of c"
  by (rule ext) (simp add: scope_of_def)

lemma receipts_push:
  assumes "x \<noteq> outcome_channel (rc_outcome r)"
  shows "suffix (ingress_receipts (fst (push_receipt c r)) x) (ingress_receipts c x)"
proof -
  have "suffix (drop n ys) ys" for n and ys :: "'a receipt list" by (rule suffix_drop)
  then have s: "suffix (filter P (drop n ys)) (filter P ys)" for P n and ys :: "'a receipt list"
    by (metis suffix_def filter_append)
  show ?thesis
    using assms s [of "\<lambda>r. outcome_channel (rc_outcome r) = x"
        "length (ig_receipts c @ [r\<lparr>rc_offset := ig_next_offset c\<rparr>]) - gp_receipt_capacity (ig_policy c)"
        "ig_receipts c @ [r\<lparr>rc_offset := ig_next_offset c\<rparr>]"]
    by (simp add: ingress_receipts_def push_receipt_def Let_def)
qed

lemma receipts_of_put [simp]: "ingress_receipts (put_scope c k s) x = ingress_receipts c x"
  by (simp add: ingress_receipts_def)

lemma covers_one_scope:
  assumes "ig_now c' = ig_now c" "ig_policy c' = ig_policy c" "\<And>k'. k' \<noteq> k \<Longrightarrow> scope_of c' k' = scope_of c k'"
    and "obs_peek (scope_of c' k) = obs_peek (scope_of c k) \<or> dirty sg_value ch k"
    and "obs_readiness (ig_now c) (ig_policy c) (scope_of c' k) = obs_readiness (ig_now c) (ig_policy c) (scope_of c k) \<or>
      dirty sg_readiness ch k"
    and "obs_authority (scope_of c' k) = obs_authority (scope_of c k) \<or> dirty sg_authority ch k"
    and "obs_retry (ig_policy c) (scope_of c' k) = obs_retry (ig_policy c) (scope_of c k) \<or> dirty sg_retry ch k"
    and "\<And>x. suffix (ingress_receipts c' x) (ingress_receipts c x) \<or> channel_dirty ch x"
  shows "covers c c' ch"
proof -
  have "(ingress_peek c' k' = ingress_peek c k' \<or> dirty sg_value ch k') \<and>
      (ingress_readiness c' k' = ingress_readiness c k' \<or> dirty sg_readiness ch k') \<and>
      (ingress_authority c' k' = ingress_authority c k' \<or> dirty sg_authority ch k') \<and>
      (ingress_retry_of c' k' = ingress_retry_of c k' \<or> dirty sg_retry ch k')" for k'
    using assms(1-7) by (cases "k' = k") (simp_all add: obs_eqs)
  then show ?thesis using assms(8) by (simp add: covers_def)
qed

lemma covers_refl: "covers c c ch"
  by (simp add: covers_def)

lemma dirty_mark: "dirty f (change_mark ch k sc) k' \<longleftrightarrow> dirty f ch k' \<or> k' = k \<and> f sc \<and> \<not> change_is_empty sc"
  by (auto simp: dirty_def change_mark_def)

lemma dirty_none [simp]: "\<not> dirty f change_none k"
  by (simp add: dirty_def change_none_def)

lemma dirty_channel [simp]: "dirty f (mark_channel ch x) k = dirty f ch k"
  by (simp add: dirty_def mark_channel_def split: receipt_channel.split)

lemma channel_dirty_mark: "channel_dirty (mark_channel ch x) y \<longleftrightarrow> channel_dirty ch y \<or> y = x"
  by (cases x; cases y) (simp_all add: channel_dirty_def mark_channel_def)

lemmas change_defs = no_change_def change_is_empty_def change_union_def change_all_def change_creation_def

section \<open>Invariant of the scopes\<close>

definition scope_ok :: "'a scope \<Rightarrow> bool" where
  "scope_ok s \<longleftrightarrow> 0 \<le> sc_errors s \<and> (sc_lifecycle s = Closed \<longrightarrow> sc_window s = None)"

definition ingress_sound :: "('k, 'a) ingress_core \<Rightarrow> bool" where
  "ingress_sound c \<longleftrightarrow> (\<forall>k s. scope_of c k = Some s \<longrightarrow> scope_ok s)"

text \<open>The calls whose invalidation set is complete.\<close>

definition call_declared :: "('k, 'a) ingress_core \<Rightarrow> ('k, 'a) ingress_call \<Rightarrow> bool" where
  "call_declared c x = (case x of
     Ig_open k g \<Rightarrow> (case scope_of c k of None \<Rightarrow> True
       | Some s \<Rightarrow> if sc_lifecycle s = Closed then sc_errors s = 0 else g \<le> sc_generation s)
   | Ig_reconnect k g \<Rightarrow> (case scope_of c k of None \<Rightarrow> True | Some s \<Rightarrow> sc_lifecycle s \<noteq> Closed)
   | Ig_admit e \<Rightarrow> (case scope_of c (en_key e) of None \<Rightarrow> True
       | Some s \<Rightarrow> en_generation e \<le> sc_generation s \<or> sc_lifecycle s = Closed \<or>
           1 \<le> gp_reorder_window (ig_policy c) \<and> 1 \<le> gp_high_water (ig_policy c) \<and>
           0 \<le> en_sequence e \<and> (en_sequence e = 0 \<or> sc_errors s = 0))
   | _ \<Rightarrow> True)"

section \<open>Every declared call covers what it moves\<close>

lemma covers_open:
  assumes "ingress_sound c" "call_declared c (Ig_open k g)"
  shows "covers c (fst (ingress_open c k g)) (snd (ingress_open c k g))"
proof (cases "scope_of c k")
  case None
  show ?thesis
    by (rule covers_one_scope [where k = k])
       (use None in \<open>simp_all add: ingress_open_def scope_of_put dirty_mark change_defs obs_peek_def obs_retry_def scope_new_def\<close>)
next
  case (Some s)
  then have ok: "scope_ok s" using assms(1) by (simp add: ingress_sound_def)
  show ?thesis
  proof (cases "sc_lifecycle s = Closed")
    case True
    then have "sc_errors s = 0" "sc_window s = None" using assms(2) Some ok by (simp_all add: call_declared_def scope_ok_def)
    then show ?thesis
      by (intro covers_one_scope [where k = k])
         (use Some True in \<open>simp_all add: ingress_open_def scope_of_put dirty_mark change_defs obs_peek_def obs_retry_def scope_new_def\<close>)
  next
    case False
    then have "g \<le> sc_generation s" using assms(2) Some by (simp add: call_declared_def)
    then show ?thesis
      by (intro covers_one_scope [where k = k])
         (use Some False in \<open>auto simp: ingress_open_def scope_of_put dirty_mark change_defs obs_peek_def obs_retry_def
           obs_readiness_def obs_authority_def live_or_opening_def next_expected_def Let_def\<close>)
  qed
qed

lemma covers_suspend: "covers c (fst (ingress_suspend c k)) (fst (snd (ingress_suspend c k)))"
proof (cases "scope_of c k")
  case None
  then show ?thesis by (simp add: ingress_suspend_def covers_refl)
next
  case (Some s)
  show ?thesis
  proof (cases "sc_lifecycle s = Suspended \<or> sc_lifecycle s = Closed")
    case True
    then show ?thesis using Some by (simp add: ingress_suspend_def covers_refl)
  next
    case False
    then show ?thesis
      by (intro covers_one_scope [where k = k])
         (use Some in \<open>simp_all add: ingress_suspend_def scope_of_put dirty_mark change_defs obs_peek_def obs_retry_def
           obs_authority_def next_expected_def\<close>)
  qed
qed

lemma covers_reconnect:
  assumes "ingress_sound c" "call_declared c (Ig_reconnect k g)"
  shows "covers c (fst (ingress_reconnect c k g)) (fst (snd (ingress_reconnect c k g)))"
proof (cases "scope_of c k")
  case None
  show ?thesis
    by (rule covers_one_scope [where k = k])
       (use None in \<open>simp_all add: ingress_reconnect_def scope_of_put dirty_mark change_defs obs_peek_def obs_retry_def scope_new_def Let_def\<close>)
next
  case (Some s)
  then have ok: "0 \<le> sc_errors s" "sc_lifecycle s \<noteq> Closed"
    using assms by (auto simp: ingress_sound_def scope_ok_def call_declared_def)
  show ?thesis
    by (rule covers_one_scope [where k = k]; cases "sc_lifecycle s")
       (use Some ok in \<open>auto simp: ingress_reconnect_def scope_of_put dirty_mark change_defs obs_peek_def obs_retry_def
           obs_readiness_def obs_authority_def live_or_opening_def clear_window_def Let_def\<close>)
qed

lemma covers_close:
  assumes "ingress_sound c"
  shows "covers c (fst (ingress_close c k)) (snd (ingress_close c k))"
proof (cases "scope_of c k")
  case None
  then show ?thesis by (simp add: ingress_close_def covers_refl)
next
  case (Some s)
  then have ok: "0 \<le> sc_errors s" using assms by (auto simp: ingress_sound_def scope_ok_def)
  show ?thesis
  proof (cases "sc_lifecycle s = Closed")
    case True
    then show ?thesis using Some by (simp add: ingress_close_def covers_refl)
  next
    case False
    show ?thesis
      by (rule covers_one_scope [where k = k])
         (use Some ok False in \<open>auto simp: ingress_close_def scope_of_put dirty_mark change_defs obs_peek_def obs_retry_def clear_window_def\<close>)
  qed
qed

lemma covers_drain: "covers c (fst (ingress_drain c k)) (fst (snd (ingress_drain c k)))"
proof (cases "scope_of c k")
  case None
  then show ?thesis by (simp add: ingress_drain_def covers_refl)
next
  case (Some s)
  show ?thesis
  proof (cases "sc_window s = None")
    case True
    then show ?thesis using Some by (simp add: ingress_drain_def covers_refl)
  next
    case False
    show ?thesis
      by (rule covers_one_scope [where k = k])
         (use Some False in \<open>auto simp: ingress_drain_def scope_of_put dirty_mark change_defs obs_retry_def obs_readiness_def
           obs_authority_def clear_window_def next_expected_def split: lifecycle.split\<close>)
  qed
qed

lemma tick_marks:
  "dirty f (foldl (\<lambda>ch (k, s). if P k s then change_mark ch k sc else ch) ch xs) k' \<longleftrightarrow>
     dirty f ch k' \<or> (\<exists>s. (k', s) \<in> set xs \<and> P k' s \<and> f sc \<and> \<not> change_is_empty sc)"
  by (induction xs arbitrary: ch) (auto simp: dirty_mark split: if_splits)

lemma view_readiness_obs: "view_readiness (scope_project s now pol) = obs_readiness now pol (Some s)"
  by (auto simp: obs_readiness_def view_readiness_def scope_project_def view_is_fresh_def split: lifecycle.split)

lemma covers_tick: "covers c (fst (ingress_tick c now)) (snd (ingress_tick c now))"
proof (cases "now = ig_now c")
  case True
  then show ?thesis by (simp add: ingress_tick_def covers_refl)
next
  case False
  let ?c = "fst (ingress_tick c now)"
  have c: "scope_of ?c = scope_of c" "ig_now ?c = now" "ig_policy ?c = ig_policy c" "ig_receipts ?c = ig_receipts c"
    using False by (simp_all add: ingress_tick_def scope_of_def fun_eq_iff)
  have marks: "dirty sg_readiness (snd (ingress_tick c now)) k \<longleftrightarrow>
      (\<exists>s. (k, s) \<in> set (ig_scopes c) \<and>
         obs_readiness (ig_now c) (ig_policy c) (Some s) \<noteq> obs_readiness now (ig_policy c) (Some s))" for k
    using False by (simp add: ingress_tick_def tick_marks view_readiness_obs change_defs)
  have "ingress_readiness ?c k = ingress_readiness c k \<or> dirty sg_readiness (snd (ingress_tick c now)) k" for k
  proof (cases "scope_of c k")
    case None
    then show ?thesis by (simp add: readiness_obs c obs_readiness_def)
  next
    case (Some s)
    then have "(k, s) \<in> set (ig_scopes c)" by (auto simp: scope_of_def dest: map_of_SomeD)
    then show ?thesis using Some by (auto simp: readiness_obs c marks)
  qed
  then show ?thesis by (simp add: covers_def obs_eqs(2-4) c ingress_receipts_def)
qed

lemma receipts_push_put:
  "x \<noteq> outcome_channel (rc_outcome r) \<Longrightarrow>
     suffix (ingress_receipts (fst (push_receipt (put_scope c k s) r)) x) (ingress_receipts c x)"
  using receipts_push [of x r "put_scope c k s"] by simp

lemma covers_fail: "covers c (fst (ingress_fail c k err)) (snd (ingress_fail c k err))"
proof (cases "scope_of c k")
  case None
  show ?thesis
    by (rule covers_one_scope [where k = k])
       (use None in \<open>auto simp: ingress_fail_def scope_of_put dirty_mark change_defs obs_peek_def scope_new_def
           channel_dirty_mark split_beta Let_def receipts_push_put\<close>)
next
  case (Some s)
  show ?thesis
    by (rule covers_one_scope [where k = k])
       (use Some in \<open>auto simp: ingress_fail_def scope_of_put dirty_mark change_defs obs_peek_def obs_readiness_def obs_authority_def
           channel_dirty_mark split_beta Let_def receipts_push_put\<close>)
qed

section \<open>Admission\<close>

lemma flush_keeps:
  "flush_pending mp s conflated through = (s', c', d') \<Longrightarrow>
     sc_lifecycle s' = sc_lifecycle s \<and> sc_generation s' = sc_generation s \<and> sc_errors s' = sc_errors s"
proof (induction mp s conflated through rule: flush_pending.induct)
  case (1 mp s conflated through)
  show ?case
  proof (cases "map_of (sc_pending s) (next_expected s)")
    case None
    then show ?thesis using 1(2) by (subst (asm) flush_pending.simps) simp
  next
    case (Some q)
    obtain p t where q: "q = (p, t)" by (cases q)
    let ?m = "merge_into mp (s\<lparr>sc_pending := AList.delete (next_expected s) (sc_pending s)\<rparr>) p t"
    have "flush_pending mp (fst ?m\<lparr>sc_delivered_through := Some (next_expected s)\<rparr>) (snd ?m \<or> conflated) (next_expected s) = (s', c', d')"
      using 1(2) Some q by (subst (asm) flush_pending.simps) (simp add: split_beta Let_def)
    from 1(1) [OF Some q [symmetric] refl refl prod.collapse this] show ?thesis
      by (simp add: merge_into_def split_beta Let_def)
  qed
qed

lemma park_cases:
  "park pol s e = (s', dec) \<Longrightarrow>
     s' = s \<and> (dec = Refuse Duplicate_buffered \<or> dec = Refuse Reorder_window_overflow) \<and>
       (sc_pending s = [] \<longrightarrow> gp_reorder_window pol \<le> 0) \<or>
     s' = s\<lparr>sc_pending := AList.update (en_sequence e) (en_payload e, en_stamped_at e) (sc_pending s)\<rparr> \<and>
       dec = Buffered (next_expected s)"
  by (auto simp: park_def split: if_splits)

lemma deliver_cases:
  assumes "deliver pol mp s e handoff = (s', dec)"
  shows "s' = s \<and> (dec = Block_decision \<or> dec = Refuse Backpressure) \<and> gp_high_water pol \<le> sc_window_depth s \<or>
    (\<exists>through conflated. dec = Delivered through conflated handoff \<and> sc_lifecycle s' = Live \<and> sc_errors s' = 0 \<and>
       sc_generation s' = sc_generation s)"
proof (cases "sc_window_depth s \<ge> gp_high_water pol \<and> (gp_overflow pol = Block \<or> gp_overflow pol = DropNewest)")
  case True
  then show ?thesis using assms by (auto simp: deliver_def)
next
  case False
  define s2 where "s2 = (if sc_window_depth s \<ge> gp_high_water pol \<and> gp_overflow pol = DropOldest then clear_window s else s)"
  define m where "m = merge_into mp s2 (en_payload e) (en_stamped_at e)"
  define s4 where "s4 = fst m\<lparr>sc_delivered_through := Some (en_sequence e), sc_lifecycle := Live, sc_errors := 0\<rparr>"
  obtain s5 c d where f: "flush_pending mp s4 (snd m) (en_sequence e) = (s5, c, d)" by (cases "flush_pending mp s4 (snd m) (en_sequence e)")
  have "(s', dec) = (s5, Delivered d c handoff)"
    using assms False f unfolding deliver_def s4_def m_def s2_def by (auto simp: split_beta Let_def)
  moreover have "sc_generation s4 = sc_generation s" by (simp add: s4_def m_def s2_def merge_into_def clear_window_def split_beta Let_def)
  ultimately show ?thesis using flush_keeps [OF f] by (simp add: s4_def)
qed

lemma move_fence_cases:
  "move_fence s g = (s1, h) \<Longrightarrow>
     s1 = s \<and> h = None \<and> g \<le> sc_generation s \<or>
     s1 = clear_window (s\<lparr>sc_generation := g, sc_delivered_through := None, sc_pending := []\<rparr>) \<and>
       h = Some (sc_generation s, g) \<and> g > sc_generation s"
  by (auto simp: move_fence_def split: if_splits)

text \<open>The cases of a decision: refused in place, refused after the fence moved, parked, or delivered.\<close>

lemma decide_cases:
  assumes "decide pol mp now s e = (s', dec)"
  obtains (refused) "(\<exists>r. dec = Refuse r) \<or> dec = Block_decision"
      "s' = s \<or> en_generation e > sc_generation s \<and> sc_lifecycle s \<noteq> Closed \<and>
        \<not> (0 \<le> en_sequence e \<and> 1 \<le> gp_reorder_window pol \<and> 1 \<le> gp_high_water pol)"
    | (parked) gap p where "dec = Buffered gap" "en_generation e = sc_generation s" "s' = s\<lparr>sc_pending := p\<rparr>"
      "sc_lifecycle s \<noteq> Closed"
    | (handed) gap where "dec = Buffered gap" "en_generation e > sc_generation s" "en_sequence e \<noteq> 0" "sc_lifecycle s \<noteq> Closed"
      "s' = clear_window (s\<lparr>sc_generation := en_generation e, sc_delivered_through := None,
              sc_pending := [(en_sequence e, en_payload e, en_stamped_at e)]\<rparr>)"
    | (delivered) through conflated handoff where "dec = Delivered through conflated handoff" "sc_lifecycle s' = Live" "sc_errors s' = 0"
proof -
  obtain s1 h where mf: "move_fence s (en_generation e) = (s1, h)" by (cases "move_fence s (en_generation e)")
  consider (early) "sc_lifecycle s = Closed \<or> en_generation e < sc_generation s \<or> max 0 (now - en_stamped_at e) > gp_freshness_horizon pol"
    | (dup) "sc_lifecycle s \<noteq> Closed" "\<not> en_generation e < sc_generation s" "\<not> max 0 (now - en_stamped_at e) > gp_freshness_horizon pol"
        "en_sequence e < next_expected s1"
    | (ahead) "sc_lifecycle s \<noteq> Closed" "\<not> en_generation e < sc_generation s" "\<not> max 0 (now - en_stamped_at e) > gp_freshness_horizon pol"
        "en_sequence e > next_expected s1"
    | (inorder) "sc_lifecycle s \<noteq> Closed" "\<not> en_generation e < sc_generation s" "\<not> max 0 (now - en_stamped_at e) > gp_freshness_horizon pol"
        "en_sequence e = next_expected s1"
    by linarith
  then show ?thesis
  proof cases
    case early
    then have "s' = s \<and> (\<exists>r. dec = Refuse r)" using assms by (auto simp: decide_def split: if_splits)
    then show ?thesis using refused by blast
  next
    case dup
    then have "s' = s1 \<and> dec = Refuse Duplicate_sequence" using assms mf by (auto simp: decide_def)
    moreover have "s1 = s \<or> en_generation e > sc_generation s \<and> \<not> 0 \<le> en_sequence e"
      using move_fence_cases [OF mf] dup(4) by (auto simp: clear_window_def next_expected_def)
    ultimately show ?thesis using refused dup(1) by blast
  next
    case ahead
    then have pk: "park pol s1 e = (s', dec)" using assms mf by (auto simp: decide_def)
    from move_fence_cases [OF mf] show ?thesis
    proof
      assume s: "s1 = s \<and> h = None \<and> en_generation e \<le> sc_generation s"
      then have "en_generation e = sc_generation s" using ahead(2) by simp
      then show ?thesis using park_cases [OF pk] s refused parked ahead(1) by blast
    next
      assume s: "s1 = clear_window (s\<lparr>sc_generation := en_generation e, sc_delivered_through := None, sc_pending := []\<rparr>) \<and>
        h = Some (sc_generation s, en_generation e) \<and> en_generation e > sc_generation s"
      then have e: "sc_pending s1 = []" "next_expected s1 = 0" by (simp_all add: clear_window_def next_expected_def)
      show ?thesis
        using park_cases [OF pk]
      proof
        assume "s' = s1 \<and> (dec = Refuse Duplicate_buffered \<or> dec = Refuse Reorder_window_overflow) \<and>
          (sc_pending s1 = [] \<longrightarrow> gp_reorder_window pol \<le> 0)"
        then show ?thesis using refused s e ahead(1) by force
      next
        assume "s' = s1\<lparr>sc_pending := AList.update (en_sequence e) (en_payload e, en_stamped_at e) (sc_pending s1)\<rparr> \<and>
          dec = Buffered (next_expected s1)"
        then show ?thesis using handed s e ahead(1,4) by (simp add: clear_window_def)
      qed
    qed
  next
    case inorder
    then have dl: "deliver pol mp s1 e h = (s', dec)" using assms mf by (auto simp: decide_def)
    from deliver_cases [OF dl] show ?thesis
    proof
      assume r: "s' = s1 \<and> (dec = Block_decision \<or> dec = Refuse Backpressure) \<and> gp_high_water pol \<le> sc_window_depth s1"
      have "s1 = s \<or> en_generation e > sc_generation s \<and> sc_window_depth s1 = 0"
        using move_fence_cases [OF mf] by (auto simp: clear_window_def)
      then show ?thesis using refused r inorder(1) by force
    next
      assume "\<exists>through conflated. dec = Delivered through conflated h \<and> sc_lifecycle s' = Live \<and> sc_errors s' = 0 \<and>
        sc_generation s' = sc_generation s1"
      then show ?thesis using delivered by blast
    qed
  qed
qed

lemma channel_mark_same: "channel_dirty (change_mark ch k sc) x = channel_dirty ch x"
  by (simp add: channel_dirty_def change_mark_def split: receipt_channel.split)

lemma covers_refused:
  assumes "s' = s" "scope_of c k = Some s \<or> c1 = c" "c1 = c \<or> c1 = put_scope c k s'"
  shows "covers c (fst (push_receipt c1 r)) (mark_channel change_none (outcome_channel (rc_outcome r)))"
proof -
  have "scope_of c1 = scope_of c" using assms by (auto simp: scope_of_put)
  moreover have "ig_now c1 = ig_now c" "ig_policy c1 = ig_policy c" using assms(3) by auto
  moreover have "suffix (ingress_receipts (fst (push_receipt c1 r)) x) (ingress_receipts c x)"
    if "x \<noteq> outcome_channel (rc_outcome r)" for x
    using receipts_push [OF that, of c1] assms(3) by auto
  ultimately show ?thesis by (auto simp: covers_def obs_eqs channel_dirty_mark)
qed

lemma covers_admit:
  assumes "call_declared c (Ig_admit e)"
  shows "covers c (fst (ingress_admit c e)) (fst (snd (ingress_admit c e)))"
proof -
  define k where "k = en_key e"
  define s where "s = (case scope_of c k of None \<Rightarrow> scope_new (en_generation e) | Some s \<Rightarrow> s)"
  obtain s' dec where dec: "decide (ig_policy c) (ig_merge c) (ig_now c) s e = (s', dec)" by fastforce
  have fresh: "scope_of c k = None \<Longrightarrow> s = scope_new (en_generation e)" by (simp add: s_def)
  have known: "scope_of c k = Some t \<Longrightarrow> s = t" for t by (simp add: s_def)
  from dec show ?thesis
  proof (cases rule: decide_cases)
    case refused
    have "s' = s"
    proof (cases "scope_of c k")
      case None
      then show ?thesis using refused(2) fresh by (auto simp: scope_new_def)
    next
      case (Some t)
      then show ?thesis using refused(2) assms known by (auto simp: call_declared_def k_def)
    qed
    define c1 where "c1 = (if scope_of c k = None then c else put_scope c k s')"
    have "covers c (fst (push_receipt c1 r)) (mark_channel change_none (outcome_channel (rc_outcome r)))" for r
      using \<open>s' = s\<close> known by (intro covers_refused [where k = k and s = s]) (auto simp: c1_def)
    moreover define r0 where "r0 = admission_receipt k (case scope_of c1 k of None \<Rightarrow> en_generation e | Some t \<Rightarrow> sc_generation t)
        (en_sequence e) (For_dropped (case dec of Refuse r \<Rightarrow> r | _ \<Rightarrow> Backpressure))"
    have "fst (ingress_admit c e) = fst (push_receipt c1 r0) \<and>
        fst (snd (ingress_admit c e)) = mark_channel change_none (outcome_channel (rc_outcome r0))"
      unfolding ingress_admit_def Let_def k_def [symmetric] s_def [symmetric] dec prod.case r0_def c1_def
      using refused(1) by (auto simp: split_beta)
    ultimately show ?thesis by metis
  next
    case (parked gap p)
    show ?thesis
    proof (cases "scope_of c k")
      case None
      then have "ingress_admit c e = (put_scope c k s', change_mark change_none k change_creation, Adm_buffered gap)"
        using dec parked(1) by (simp add: ingress_admit_def Let_def k_def [symmetric] fresh scope_of_put)
      then show ?thesis
        by (intro covers_one_scope [where k = k])
           (use None parked(3) fresh in \<open>simp_all add: scope_of_put dirty_mark change_defs obs_peek_def obs_retry_def scope_new_def\<close>)
    next
      case (Some t)
      then have "ingress_admit c e = (put_scope c k s', change_mark change_none k no_change, Adm_buffered gap)"
        using dec parked(1,3) known
        by (cases "sc_window t"; cases "sc_delivered_through t")
           (simp_all add: ingress_admit_def Let_def k_def [symmetric] scope_of_put scope_stamp_def change_defs)
      then show ?thesis
        by (intro covers_one_scope [where k = k])
           (use Some parked(3) known in \<open>auto simp: scope_of_put obs_peek_def obs_retry_def obs_readiness_def obs_authority_def
             next_expected_def split: lifecycle.split\<close>)
    qed
  next
    case (handed gap)
    then obtain t where t: "scope_of c k = Some t" using fresh by (cases "scope_of c k") (auto simp: scope_new_def)
    then have e: "sc_errors s = 0" using assms handed(2-4) known by (auto simp: call_declared_def k_def)
    have "ingress_admit c e = (put_scope c k s', change_mark change_none k
        \<lparr>sg_value = (sc_window s \<noteq> None), sg_readiness = (sc_delivered_through s \<noteq> None), sg_authority = True, sg_retry = False\<rparr>,
        Adm_buffered gap)"
      using dec handed t known
      by (auto simp: ingress_admit_def Let_def k_def [symmetric] scope_of_put scope_stamp_def change_defs clear_window_def)
    then show ?thesis
      by (intro covers_one_scope [where k = k])
         (use t handed known e in \<open>auto simp: scope_of_put dirty_mark change_defs obs_peek_def obs_retry_def obs_readiness_def
           clear_window_def split: lifecycle.split\<close>)
  next
    case (delivered through conflated handoff)
    define r where "r = admission_receipt k (sc_generation s') (en_sequence e) (For_accepted through conflated)"
    have "fst (ingress_admit c e) = fst (push_receipt (put_scope c k s') r) \<and>
        fst (snd (ingress_admit c e)) = mark_channel (change_mark change_none k change_all) (outcome_channel (rc_outcome r))"
      unfolding ingress_admit_def Let_def k_def [symmetric] s_def [symmetric] dec prod.case r_def
      using delivered(1) by (simp add: scope_of_put split_beta)
    then show ?thesis
      by (intro covers_one_scope [where k = k])
         (auto simp: scope_of_put dirty_mark change_defs channel_dirty_mark receipts_push_put)
  qed
qed

lemma call_covers:
  assumes "ingress_sound c" "call_declared c x"
  shows "covers c (fst (core_call c x)) (snd (core_call c x))"
  using covers_open [OF assms(1)] covers_admit covers_suspend covers_reconnect [OF assms(1)] covers_close [OF assms(1)]
    covers_fail covers_tick covers_drain assms(2)
  by (cases x) (simp_all add: split_beta)

section \<open>The invariant is kept\<close>

lemma ingress_sound_put: "ingress_sound c \<Longrightarrow> scope_ok s \<Longrightarrow> ingress_sound (put_scope c k s)"
  by (simp add: ingress_sound_def scope_of_put)

lemma ingress_sound_push: "ingress_sound (fst (push_receipt c r)) = ingress_sound c"
  by (simp add: ingress_sound_def)

lemma scope_new_ok: "scope_ok (scope_new g)"
  by (simp add: scope_ok_def scope_new_def)

lemma decide_ok:
  assumes "scope_ok s" "decide pol mp now s e = (s', dec)"
  shows "scope_ok s'"
proof -
  obtain s1 h where mf: "move_fence s (en_generation e) = (s1, h)" by (cases "move_fence s (en_generation e)")
  have s1: "scope_ok s1" using move_fence_cases [OF mf] assms(1) by (auto simp: scope_ok_def clear_window_def)
  consider "s' = s" | "s' = s1" | "park pol s1 e = (s', dec)" | "deliver pol mp s1 e h = (s', dec)"
    using assms(2) mf by (auto simp: decide_def split: if_splits)
  then show ?thesis
  proof cases
    case 3
    then show ?thesis using park_cases [OF 3] s1 by (auto simp: scope_ok_def)
  next
    case 4
    then show ?thesis using deliver_cases [OF 4] s1 by (auto simp: scope_ok_def)
  qed (use assms(1) s1 in simp_all)
qed

lemma ingress_sound_admit: "ingress_sound c \<Longrightarrow> ingress_sound (fst (ingress_admit c e))"
proof -
  assume c: "ingress_sound c"
  define k where "k = en_key e"
  define s where "s = (case scope_of c k of None \<Rightarrow> scope_new (en_generation e) | Some s \<Rightarrow> s)"
  obtain s' dec where dec: "decide (ig_policy c) (ig_merge c) (ig_now c) s e = (s', dec)" by fastforce
  have "scope_ok s" using c by (auto simp: s_def scope_new_ok ingress_sound_def split: option.split)
  then have "scope_ok s'" using dec by (rule decide_ok)
  then have "ingress_sound c1" if "c1 = c \<or> c1 = put_scope c k s'" for c1 using that c ingress_sound_put by auto
  then show ?thesis
    unfolding ingress_admit_def Let_def k_def [symmetric] s_def [symmetric] dec prod.case
    by (auto simp: split_beta ingress_sound_push split: decision.split option.split)
qed

lemma ingress_sound_call: "ingress_sound c \<Longrightarrow> ingress_sound (fst (core_call c x))"
proof (cases x)
  case (Ig_open k g)
  assume c: "ingress_sound c"
  then show ?thesis using Ig_open
    by (auto simp: ingress_open_def Let_def scope_new_ok live_or_opening_def split: option.split
        intro!: ingress_sound_put) (auto simp: ingress_sound_def scope_ok_def)
next
  case (Ig_admit e)
  assume "ingress_sound c"
  then show ?thesis using Ig_admit ingress_sound_admit [of c e] by (simp add: split_beta)
next
  case (Ig_suspend k)
  assume c: "ingress_sound c"
  then show ?thesis using Ig_suspend
    by (auto simp: ingress_suspend_def split: option.split intro!: ingress_sound_put) (auto simp: ingress_sound_def scope_ok_def)
next
  case (Ig_reconnect k g)
  assume c: "ingress_sound c"
  then show ?thesis using Ig_reconnect
    by (auto simp: ingress_reconnect_def Let_def scope_ok_def live_or_opening_def clear_window_def split: option.split
        intro!: ingress_sound_put)
next
  case (Ig_close k)
  assume c: "ingress_sound c"
  then show ?thesis using Ig_close
    by (auto simp: ingress_close_def scope_ok_def clear_window_def split: option.split intro!: ingress_sound_put)
next
  case (Ig_fail k err)
  assume c: "ingress_sound c"
  then have "scope_ok (s\<lparr>sc_errors := sc_errors s + 1\<rparr>)" if "scope_of c k = Some s" for s
    using that by (auto simp: ingress_sound_def scope_ok_def)
  then show ?thesis using Ig_fail c
    by (auto simp: ingress_fail_def Let_def split_beta ingress_sound_push scope_new_ok split: option.split
        intro!: ingress_sound_put) (simp add: scope_ok_def scope_new_def)
next
  case (Ig_tick now)
  assume "ingress_sound c"
  then show ?thesis using Ig_tick by (simp add: ingress_tick_def ingress_sound_def scope_of_def)
next
  case (Ig_drain k)
  assume c: "ingress_sound c"
  then show ?thesis using Ig_drain
    by (auto simp: ingress_drain_def clear_window_def split: option.split intro!: ingress_sound_put)
       (auto simp: ingress_sound_def scope_ok_def)
qed

section \<open>The shell\<close>

text \<open>What a reader of a key has cached.\<close>

definition cached :: "('a scope_readers \<Rightarrow> 'b option) \<Rightarrow> ('k, 'a) ingress_cell \<Rightarrow> 'k \<Rightarrow> 'b option" where
  "cached f c k = (case map_of (il_scopes c) k of None \<Rightarrow> None | Some rr \<Rightarrow> f rr)"

definition readers_current :: "('k, 'a) ingress_cell \<Rightarrow> bool" where
  "readers_current c \<longleftrightarrow>
     (\<forall>k. cached rr_value c k \<in> {None, Some (ingress_peek (il_core c) k)} \<and>
          cached rr_readiness c k \<in> {None, Some (ingress_readiness (il_core c) k)} \<and>
          cached rr_authority c k \<in> {None, Some (ingress_authority (il_core c) k)} \<and>
          cached rr_retry c k \<in> {None, Some (ingress_retry_of (il_core c) k)}) \<and>
     (\<forall>w. il_accepted c = Some w \<longrightarrow> suffix (ingress_receipts (il_core c) Ch_accepted) w) \<and>
     (\<forall>w. il_dropped c = Some w \<longrightarrow> suffix (ingress_receipts (il_core c) Ch_dropped) w) \<and>
     (\<forall>w. il_errors c = Some w \<longrightarrow> suffix (ingress_receipts (il_core c) Ch_error) w)"

lemma reset_scope_readers:
  "map_of (il_scopes (reset_scope c (k, sc))) =
     (map_of (il_scopes c))(k \<mapsto> reset_readers (case map_of (il_scopes c) k of None \<Rightarrow> readers_new | Some rr \<Rightarrow> rr) sc)"
  by (auto simp: reset_scope_def ensure_readers_def AList.update_conv' split: option.split)

lemma reset_scope_fields: "il_core (reset_scope c x) = il_core c" "il_accepted (reset_scope c x) = il_accepted c"
  "il_dropped (reset_scope c x) = il_dropped c" "il_errors (reset_scope c x) = il_errors c"
  by (auto simp: reset_scope_def ensure_readers_def split: option.split)

lemma resets_fields: "il_core (foldl reset_scope c xs) = il_core c" "il_accepted (foldl reset_scope c xs) = il_accepted c"
  "il_dropped (foldl reset_scope c xs) = il_dropped c" "il_errors (foldl reset_scope c xs) = il_errors c"
  by (induction xs arbitrary: c) (auto simp: reset_scope_fields)

lemma cached_reset:
  "cached rr_value (reset_scope c x) k = (if fst x = k \<and> sg_value (snd x) then None else cached rr_value c k)"
  "cached rr_readiness (reset_scope c x) k = (if fst x = k \<and> sg_readiness (snd x) then None else cached rr_readiness c k)"
  "cached rr_authority (reset_scope c x) k = (if fst x = k \<and> sg_authority (snd x) then None else cached rr_authority c k)"
  "cached rr_retry (reset_scope c x) k = (if fst x = k \<and> sg_retry (snd x) then None else cached rr_retry c k)"
  by (cases x; auto simp: cached_def reset_scope_readers reset_readers_def readers_new_def split: option.split)+

lemma cached_resets:
  "cached rr_value (foldl reset_scope c xs) k = (if \<exists>x\<in>set xs. fst x = k \<and> sg_value (snd x) then None else cached rr_value c k)"
  "cached rr_readiness (foldl reset_scope c xs) k = (if \<exists>x\<in>set xs. fst x = k \<and> sg_readiness (snd x) then None else cached rr_readiness c k)"
  "cached rr_authority (foldl reset_scope c xs) k = (if \<exists>x\<in>set xs. fst x = k \<and> sg_authority (snd x) then None else cached rr_authority c k)"
  "cached rr_retry (foldl reset_scope c xs) k = (if \<exists>x\<in>set xs. fst x = k \<and> sg_retry (snd x) then None else cached rr_retry c k)"
  by (induction xs arbitrary: c) (auto simp: cached_reset)

lemma apply_change_cached:
  "cached rr_value (apply_ingress_change c ch) k = (if dirty sg_value ch k then None else cached rr_value c k)"
  "cached rr_readiness (apply_ingress_change c ch) k = (if dirty sg_readiness ch k then None else cached rr_readiness c k)"
  "cached rr_authority (apply_ingress_change c ch) k = (if dirty sg_authority ch k then None else cached rr_authority c k)"
  "cached rr_retry (apply_ingress_change c ch) k = (if dirty sg_retry ch k then None else cached rr_retry c k)"
  "il_core (apply_ingress_change c ch) = il_core c"
proof -
  have "cached f (apply_ingress_change c ch) k = cached f (foldl reset_scope c (ic_scopes ch)) k" for f :: "'a scope_readers \<Rightarrow> 'c option"
    by (simp add: cached_def apply_ingress_change_def Let_def)
  then show "cached rr_value (apply_ingress_change c ch) k = (if dirty sg_value ch k then None else cached rr_value c k)"
    "cached rr_readiness (apply_ingress_change c ch) k = (if dirty sg_readiness ch k then None else cached rr_readiness c k)"
    "cached rr_authority (apply_ingress_change c ch) k = (if dirty sg_authority ch k then None else cached rr_authority c k)"
    "cached rr_retry (apply_ingress_change c ch) k = (if dirty sg_retry ch k then None else cached rr_retry c k)"
    by (auto simp: cached_def apply_ingress_change_def Let_def cached_resets [unfolded cached_def] dirty_def)
  show "il_core (apply_ingress_change c ch) = il_core c" by (simp add: apply_ingress_change_def Let_def resets_fields)
qed

lemma apply_change_receipts:
  "il_accepted (apply_ingress_change c ch) = (if channel_dirty ch Ch_accepted then None else il_accepted c)"
  "il_dropped (apply_ingress_change c ch) = (if channel_dirty ch Ch_dropped then None else il_dropped c)"
  "il_errors (apply_ingress_change c ch) = (if channel_dirty ch Ch_error then None else il_errors c)"
  by (simp_all add: apply_ingress_change_def Let_def channel_dirty_def resets_fields)

lemma suffix_step: "suffix xs ys \<or> P \<Longrightarrow> \<not> P \<Longrightarrow> suffix ys zs \<Longrightarrow> suffix xs zs"
  by (auto intro: suffix_order.trans)

lemma covers_at:
  assumes "covers c c' ch"
  shows "ingress_peek c' k = ingress_peek c k \<or> dirty sg_value ch k"
    "ingress_readiness c' k = ingress_readiness c k \<or> dirty sg_readiness ch k"
    "ingress_authority c' k = ingress_authority c k \<or> dirty sg_authority ch k"
    "ingress_retry_of c' k = ingress_retry_of c k \<or> dirty sg_retry ch k"
    "suffix (ingress_receipts c' x) (ingress_receipts c x) \<or> channel_dirty ch x"
  using assms by (simp_all add: covers_def)

lemma current_at:
  assumes "readers_current c"
  shows "cached rr_value c k \<in> {None, Some (ingress_peek (il_core c) k)}"
    "cached rr_readiness c k \<in> {None, Some (ingress_readiness (il_core c) k)}"
    "cached rr_authority c k \<in> {None, Some (ingress_authority (il_core c) k)}"
    "cached rr_retry c k \<in> {None, Some (ingress_retry_of (il_core c) k)}"
    "il_accepted c = Some w \<Longrightarrow> suffix (ingress_receipts (il_core c) Ch_accepted) w"
    "il_dropped c = Some w \<Longrightarrow> suffix (ingress_receipts (il_core c) Ch_dropped) w"
    "il_errors c = Some w \<Longrightarrow> suffix (ingress_receipts (il_core c) Ch_error) w"
  using assms by (simp_all add: readers_current_def)

lemma cached_core: "cached f (c\<lparr>il_core := core\<rparr>) k = cached f c k"
  by (simp add: cached_def)

lemma current_apply:
  assumes "readers_current c" "covers (il_core c) core ch"
  shows "readers_current (apply_ingress_change (c\<lparr>il_core := core\<rparr>) ch)"
proof -
  note new = apply_change_cached cached_core
  have "cached rr_value (apply_ingress_change (c\<lparr>il_core := core\<rparr>) ch) k \<in> {None, Some (ingress_peek core k)}" for k
    using covers_at(1) [OF assms(2), of k] current_at(1) [OF assms(1), of k] by (auto simp: new)
  moreover have "cached rr_readiness (apply_ingress_change (c\<lparr>il_core := core\<rparr>) ch) k \<in> {None, Some (ingress_readiness core k)}" for k
    using covers_at(2) [OF assms(2), of k] current_at(2) [OF assms(1), of k] by (auto simp: new)
  moreover have "cached rr_authority (apply_ingress_change (c\<lparr>il_core := core\<rparr>) ch) k \<in> {None, Some (ingress_authority core k)}" for k
    using covers_at(3) [OF assms(2), of k] current_at(3) [OF assms(1), of k] by (auto simp: new)
  moreover have "cached rr_retry (apply_ingress_change (c\<lparr>il_core := core\<rparr>) ch) k \<in> {None, Some (ingress_retry_of core k)}" for k
    using covers_at(4) [OF assms(2), of k] current_at(4) [OF assms(1), of k] by (auto simp: new)
  moreover have "suffix (ingress_receipts core x) w"
    if "suffix (ingress_receipts (il_core c) x) w" "\<not> channel_dirty ch x" for x w
    using suffix_step [OF covers_at(5) [OF assms(2)] that(2,1)] .
  then have "\<forall>w. il_accepted (apply_ingress_change (c\<lparr>il_core := core\<rparr>) ch) = Some w \<longrightarrow> suffix (ingress_receipts core Ch_accepted) w"
    "\<forall>w. il_dropped (apply_ingress_change (c\<lparr>il_core := core\<rparr>) ch) = Some w \<longrightarrow> suffix (ingress_receipts core Ch_dropped) w"
    "\<forall>w. il_errors (apply_ingress_change (c\<lparr>il_core := core\<rparr>) ch) = Some w \<longrightarrow> suffix (ingress_receipts core Ch_error) w"
    using current_at(5-7) [OF assms(1)] by (simp_all add: apply_change_receipts)
  ultimately show ?thesis by (simp add: readers_current_def apply_change_cached(5))
qed

lemma current_call:
  assumes "readers_current c" "ingress_sound (il_core c)" "call_declared (il_core c) x"
  shows "readers_current (cell_call c x) \<and> ingress_sound (il_core (cell_call c x)) \<and>
    il_core (cell_call c x) = fst (core_call (il_core c) x)"
  unfolding cell_call_core
  using current_apply [OF assms(1) call_covers [OF assms(2,3)]] ingress_sound_call [OF assms(2), of x]
  by (simp add: apply_change_cached(5))

section \<open>Reads\<close>

datatype 'k ingress_read =
    Rd_value 'k
  | Rd_readiness 'k
  | Rd_authority 'k
  | Rd_retry 'k
  | Rd_receipts receipt_channel

primrec read_cell :: "('k, 'a) ingress_cell \<Rightarrow> 'k ingress_read \<Rightarrow> ('k, 'a) ingress_cell" where
  "read_cell c (Rd_value k) = fst (il_value c k)"
| "read_cell c (Rd_readiness k) = fst (il_readiness c k)"
| "read_cell c (Rd_authority k) = fst (il_authority c k)"
| "read_cell c (Rd_retry k) = fst (il_retry c k)"
| "read_cell c (Rd_receipts ch) = fst (il_receipts c ch)"

lemma cached_ensure: "f readers_new = None \<Longrightarrow> cached f (fst (ensure_readers c k)) k' = cached f c k'"
  by (auto simp: cached_def ensure_readers_def AList.update_conv' split: option.split)

lemma cached_put: "cached f (put_readers c k rr) k' = (if k' = k then f rr else cached f c k')"
  by (simp add: cached_def put_readers_def AList.update_conv')

lemma ensure_fields: "il_core (fst (ensure_readers c k)) = il_core c" "il_accepted (fst (ensure_readers c k)) = il_accepted c"
  "il_dropped (fst (ensure_readers c k)) = il_dropped c" "il_errors (fst (ensure_readers c k)) = il_errors c"
  by (simp_all add: ensure_readers_def split: option.split)

lemma ensure_snd: "f readers_new = None \<Longrightarrow> f (snd (ensure_readers c k)) = cached f c k"
  by (simp add: cached_def ensure_readers_def split: option.split)

lemma put_readers_fields: "il_core (put_readers c k rr) = il_core c" "il_accepted (put_readers c k rr) = il_accepted c"
  "il_dropped (put_readers c k rr) = il_dropped c" "il_errors (put_readers c k rr) = il_errors c"
  by (simp_all add: put_readers_def)

lemma new_uncached: "rr_value readers_new = None" "rr_readiness readers_new = None" "rr_authority readers_new = None"
  "rr_retry readers_new = None"
  by (simp_all add: readers_new_def)

lemmas reader_simps = cached_ensure cached_put ensure_fields ensure_snd put_readers_fields new_uncached

text \<open>A read shows the derive of the core and keeps the caches current.\<close>

lemma read_value:
  assumes "readers_current c"
  shows "snd (il_value c k) = ingress_peek (il_core c) k \<and> readers_current (fst (il_value c k)) \<and> il_core (fst (il_value c k)) = il_core c"
proof -
  have "snd (il_value c k) = ingress_peek (il_core c) k \<and> il_core (fst (il_value c k)) = il_core c"
    using current_at(1) [OF assms, of k] by (auto simp: il_value_def Let_def split_beta reader_simps split: option.split)
  moreover have "readers_current (fst (il_value c k))"
    using assms by (auto simp: il_value_def Let_def split_beta reader_simps readers_current_def split: option.split)
  ultimately show ?thesis by blast
qed

lemma read_readiness:
  assumes "readers_current c"
  shows "snd (il_readiness c k) = ingress_readiness (il_core c) k \<and> readers_current (fst (il_readiness c k)) \<and>
    il_core (fst (il_readiness c k)) = il_core c"
proof -
  have "snd (il_readiness c k) = ingress_readiness (il_core c) k \<and> il_core (fst (il_readiness c k)) = il_core c"
    using current_at(2) [OF assms, of k] by (auto simp: il_readiness_def Let_def split_beta reader_simps split: option.split)
  moreover have "readers_current (fst (il_readiness c k))"
    using assms by (auto simp: il_readiness_def Let_def split_beta reader_simps readers_current_def split: option.split)
  ultimately show ?thesis by blast
qed

lemma read_authority:
  assumes "readers_current c"
  shows "snd (il_authority c k) = ingress_authority (il_core c) k \<and> readers_current (fst (il_authority c k)) \<and>
    il_core (fst (il_authority c k)) = il_core c"
proof -
  have "snd (il_authority c k) = ingress_authority (il_core c) k \<and> il_core (fst (il_authority c k)) = il_core c"
    using current_at(3) [OF assms, of k] by (auto simp: il_authority_def Let_def split_beta reader_simps split: option.split)
  moreover have "readers_current (fst (il_authority c k))"
    using assms by (auto simp: il_authority_def Let_def split_beta reader_simps readers_current_def split: option.split)
  ultimately show ?thesis by blast
qed

lemma read_retry:
  assumes "readers_current c"
  shows "snd (il_retry c k) = ingress_retry_of (il_core c) k \<and> readers_current (fst (il_retry c k)) \<and>
    il_core (fst (il_retry c k)) = il_core c"
proof -
  have "snd (il_retry c k) = ingress_retry_of (il_core c) k \<and> il_core (fst (il_retry c k)) = il_core c"
    using current_at(4) [OF assms, of k] by (auto simp: il_retry_def Let_def split_beta reader_simps split: option.split)
  moreover have "readers_current (fst (il_retry c k))"
    using assms by (auto simp: il_retry_def Let_def split_beta reader_simps readers_current_def split: option.split)
  ultimately show ?thesis by blast
qed

lemma read_receipts:
  assumes "readers_current c"
  shows "suffix (ingress_receipts (il_core c) x) (snd (il_receipts c x)) \<and> readers_current (fst (il_receipts c x)) \<and>
    il_core (fst (il_receipts c x)) = il_core c"
proof -
  have "suffix (ingress_receipts (il_core c) x) (snd (il_receipts c x)) \<and> il_core (fst (il_receipts c x)) = il_core c"
    using current_at(5-7) [OF assms] by (cases x) (auto simp: il_receipts_def Let_def split: option.split)
  moreover have "readers_current (fst (il_receipts c x))"
    using assms by (cases x) (auto simp: il_receipts_def Let_def readers_current_def cached_def split: option.split)
  ultimately show ?thesis by blast
qed

lemma current_read: "readers_current c \<Longrightarrow> readers_current (read_cell c x) \<and> il_core (read_cell c x) = il_core c"
  by (cases x) (simp_all add: read_value read_readiness read_authority read_retry read_receipts)

end
