(* ===== verification/IngressDelivery.thy ===== *)
theory IngressDelivery
  imports IngressProps
begin

text \<open>
  What a scope delivers: since its fence last moved, the drained values and the window in the scope
  are the folds of consecutive runs of the payloads with sequence 0, 1, 2, ..., each delivered once,
  whatever order the envelopes arrived in.
\<close>

definition window_fold :: "'a merge_policy \<Rightarrow> 'a list \<Rightarrow> 'a" where
  "window_fold mp xs = fold_ops mp (hd xs) (tl xs)"

definition window_opt :: "'a merge_policy \<Rightarrow> 'a list \<Rightarrow> 'a option" where
  "window_opt mp xs = (if xs = [] then None else Some (window_fold mp xs))"

text \<open>
  The drained values \<open>ds\<close> come from the windows \<open>ws\<close>, the scope holds the window \<open>cur\<close>; \<open>es\<close> are the
  admitted sequence numbers with their payloads; parked envelopes have sequence numbers from \<open>low\<close> on.
\<close>

definition delivers_via :: "'a merge_policy \<Rightarrow> int \<Rightarrow> 'a scope \<Rightarrow> 'a list \<Rightarrow> (int \<times> 'a) list \<Rightarrow> 'a list list \<Rightarrow> 'a list \<Rightarrow> bool" where
  "delivers_via mp low s ds es ws cur \<longleftrightarrow>
     ds = map (window_fold mp) ws \<and> [] \<notin> set ws \<and> sc_window s = window_opt mp cur \<and>
     next_expected s = int (length (concat ws @ cur)) \<and>
     list_all (\<lambda>x. x \<in> set es) (zip (map int [0..<length (concat ws @ cur)]) (concat ws @ cur)) \<and>
     (\<forall>x\<in>set (sc_pending s). low \<le> fst x \<and> (fst x, fst (snd x)) \<in> set es) \<and> distinct (map fst (sc_pending s))"

definition delivers :: "'a merge_policy \<Rightarrow> 'a scope \<Rightarrow> 'a list \<Rightarrow> (int \<times> 'a) list \<Rightarrow> bool" where
  "delivers mp s ds es \<longleftrightarrow> (\<exists>ws cur. delivers_via mp (next_expected s + 1) s ds es ws cur)"

lemma window_opt_snoc: "window_opt mp (xs @ [x]) = Some (case window_opt mp xs of None \<Rightarrow> x | Some w \<Rightarrow> mp_merge mp w x)"
  by (cases xs) (simp_all add: window_opt_def window_fold_def)

lemma merge_into_window:
  "sc_window (fst (merge_into mp s p t)) = Some (case sc_window s of None \<Rightarrow> p | Some w \<Rightarrow> mp_merge mp w p)"
  "sc_pending (fst (merge_into mp s p t)) = sc_pending s" "sc_delivered_through (fst (merge_into mp s p t)) = sc_delivered_through s"
  "sc_lifecycle (fst (merge_into mp s p t)) = sc_lifecycle s" "sc_generation (fst (merge_into mp s p t)) = sc_generation s"
  by (simp_all add: merge_into_def Let_def split: option.split)

text \<open>One more payload, the next in order.\<close>

lemma zip_indices_snoc:
  "zip (map int [0..<length (xs @ [x])]) (xs @ [x]) = zip (map int [0..<length xs]) xs @ [(int (length xs), x)]"
  by simp

lemma delivers_step:
  assumes d: "delivers_via mp low s ds es ws cur" and p: "(next_expected s, p) \<in> set es"
    and s': "sc_window s' = Some (case sc_window s of None \<Rightarrow> p | Some w \<Rightarrow> mp_merge mp w p)"
      "sc_delivered_through s' = Some (next_expected s)"
    and q: "set (sc_pending s') \<subseteq> {x \<in> set (sc_pending s). low' \<le> fst x}" "distinct (map fst (sc_pending s'))"
  shows "delivers_via mp low' s' ds es ws (cur @ [p])"
proof -
  let ?n = "length (concat ws @ cur)"
  have n: "next_expected s = int ?n" using d by (simp add: delivers_via_def)
  have "next_expected s' = int (length (concat ws @ cur @ [p]))"
    using s'(2) n by (simp add: next_expected_def)
  moreover have "sc_window s' = window_opt mp (cur @ [p])"
    using s'(1) d by (simp add: delivers_via_def window_opt_snoc)
  moreover have "list_all (\<lambda>x. x \<in> set es) (zip (map int [0..<length (concat ws @ cur @ [p])]) (concat ws @ cur @ [p]))"
    using d p zip_indices_snoc [of "concat ws @ cur" p] unfolding n delivers_via_def by simp
  moreover have "\<forall>x\<in>set (sc_pending s'). low' \<le> fst x \<and> (fst x, fst (snd x)) \<in> set es"
    using q(1) d by (auto simp: delivers_via_def)
  ultimately show ?thesis using d q(2) by (simp add: delivers_via_def)
qed

lemma flush_delivers:
  assumes "flush_pending mp s conflated through = (s', c', d')" "delivers_via mp (next_expected s) s ds es ws cur"
  shows "delivers mp s' ds es"
  using assms
proof (induction mp s conflated through arbitrary: cur rule: flush_pending.induct)
  case (1 mp s conflated through)
  show ?case
  proof (cases "map_of (sc_pending s) (next_expected s)")
    case None
    then have s': "s' = s" using 1(2) by (subst (asm) flush_pending.simps) simp
    have "fst x \<noteq> next_expected s" if "x \<in> set (sc_pending s)" for x
      using None that by (force simp: map_of_eq_None_iff)
    then have "delivers_via mp (next_expected s + 1) s ds es ws cur"
      using 1(3) unfolding delivers_via_def by force
    then show ?thesis unfolding s' delivers_def by blast
  next
    case (Some q)
    obtain p t where q: "q = (p, t)" by (cases q)
    let ?n = "next_expected s"
    let ?m = "merge_into mp (s\<lparr>sc_pending := AList.delete ?n (sc_pending s)\<rparr>) p t"
    let ?s1 = "fst ?m\<lparr>sc_delivered_through := Some ?n\<rparr>"
    have fl: "flush_pending mp ?s1 (snd ?m \<or> conflated) ?n = (s', c', d')"
      using 1(2) Some q by (subst (asm) flush_pending.simps) (simp add: split_beta Let_def)
    have "(?n, p, t) \<in> set (sc_pending s)" using Some q by (simp add: map_of_SomeD)
    then have "(?n, p) \<in> set es" using 1(3) by (auto simp: delivers_via_def)
    moreover have "set (AList.delete ?n (sc_pending s)) \<subseteq> {x \<in> set (sc_pending s). ?n + 1 \<le> fst x}"
      using 1(3) by (force simp: AList.delete_eq delivers_via_def)
    moreover have "distinct (map fst (AList.delete ?n (sc_pending s)))"
      using 1(3) by (simp add: delivers_via_def AList.delete_eq distinct_map_filter)
    ultimately have "delivers_via mp (?n + 1) ?s1 ds es ws (cur @ [p])"
      by (intro delivers_step [OF 1(3)]) (simp_all add: merge_into_window)
    moreover have "next_expected ?s1 = ?n + 1" by (simp add: next_expected_def)
    ultimately show ?thesis using 1(1) [OF Some q [symmetric] refl refl prod.collapse fl] by simp
  qed
qed

section \<open>Decisions\<close>

lemma delivers_more: "delivers_via mp low s ds es ws cur \<Longrightarrow> set es \<subseteq> set es' \<Longrightarrow> delivers_via mp low s ds es' ws cur"
  by (auto simp: delivers_via_def list_all_iff)

lemma park_delivers:
  assumes "delivers mp s ds es" "next_expected s < en_sequence e" "park pol s e = (s', Buffered gap)"
  shows "delivers mp s' ds (es @ [(en_sequence e, en_payload e)])"
proof -
  obtain ws cur where d: "delivers_via mp (next_expected s + 1) s ds es ws cur" using assms(1) by (auto simp: delivers_def)
  have s': "s' = s\<lparr>sc_pending := AList.update (en_sequence e) (en_payload e, en_stamped_at e) (sc_pending s)\<rparr>"
    using assms(3) by (auto simp: park_def split: if_splits)
  have "set (sc_pending s') \<subseteq> insert (en_sequence e, en_payload e, en_stamped_at e) (set (sc_pending s))"
    using set_update_subset by (fastforce simp: s')
  then have "next_expected s + 1 \<le> fst x \<and> (fst x, fst (snd x)) \<in> set (es @ [(en_sequence e, en_payload e)])"
    if "x \<in> set (sc_pending s')" for x
    using that d assms(2) by (cases "x \<in> set (sc_pending s)") (auto simp: delivers_via_def)
  then have "\<forall>x\<in>set (sc_pending s'). next_expected s + 1 \<le> fst x \<and> (fst x, fst (snd x)) \<in> set (es @ [(en_sequence e, en_payload e)])"
    by blast
  moreover have "next_expected s' = next_expected s" by (simp add: s' next_expected_def)
  moreover have "list_all (\<lambda>x. x \<in> set (es @ [y])) zs" if "list_all (\<lambda>x. x \<in> set es) zs" for y and zs :: "(int \<times> 'a) list"
    using that by (auto simp: list_all_iff)
  ultimately have "delivers_via mp (next_expected s' + 1) s' ds (es @ [(en_sequence e, en_payload e)]) ws cur"
    using d by (simp add: delivers_via_def s' distinct_update)
  then show ?thesis by (auto simp: delivers_def)
qed

lemma deliver_delivers:
  assumes "delivers mp s ds es" "en_sequence e = next_expected s" "gp_overflow pol \<noteq> DropOldest"
    and "deliver pol mp s e handoff = (s', Delivered through conflated h)"
  shows "delivers mp s' ds (es @ [(en_sequence e, en_payload e)])"
proof -
  obtain ws cur where d: "delivers_via mp (next_expected s + 1) s ds es ws cur" using assms(1) by (auto simp: delivers_def)
  define m where "m = merge_into mp s (en_payload e) (en_stamped_at e)"
  define s4 where "s4 = fst m\<lparr>sc_delivered_through := Some (en_sequence e), sc_lifecycle := Live, sc_errors := 0\<rparr>"
  obtain s5 c0 d0 where f5: "flush_pending mp s4 (snd m) (en_sequence e) = (s5, c0, d0)" by (rule prod_cases3)
  have "s5 = s'" using assms(3,4) f5 unfolding deliver_def s4_def m_def by (auto simp: split_beta Let_def split: if_splits)
  with f5 have f: "flush_pending mp s4 (snd m) (en_sequence e) = (s', c0, d0)" by simp
  have "delivers_via mp (next_expected s + 1) s ds (es @ [(en_sequence e, en_payload e)]) ws cur"
    by (rule delivers_more [OF d]) auto
  then have "delivers_via mp (next_expected s + 1) s4 ds (es @ [(en_sequence e, en_payload e)]) ws (cur @ [en_payload e])"
    by (rule delivers_step) (use d assms(2) in \<open>auto simp: s4_def m_def merge_into_window delivers_via_def\<close>)
  moreover have "next_expected s4 = next_expected s + 1" by (simp add: s4_def next_expected_def assms(2))
  ultimately show ?thesis using flush_delivers [OF f] by simp
qed

lemma delivers_fresh: "sc_window s = None \<Longrightarrow> sc_delivered_through s = None \<Longrightarrow> sc_pending s = [] \<Longrightarrow> delivers mp s [] []"
  unfolding delivers_def
  by (rule exI [of _ "[]"], rule exI [of _ "[]"]) (simp add: delivers_via_def window_opt_def next_expected_def)

text \<open>A drain closes the current window.\<close>

lemma drain_delivers:
  assumes "delivers mp s ds es" "sc_window s = Some v"
  shows "delivers mp (clear_window s) (ds @ [v]) es"
proof -
  obtain ws cur where d: "delivers_via mp (next_expected s + 1) s ds es ws cur" using assms(1) by (auto simp: delivers_def)
  have n: "next_expected (clear_window s) = next_expected s" by (simp add: clear_window_def next_expected_def)
  have "cur \<noteq> []" "v = window_fold mp cur" using d assms(2) by (auto simp: delivers_via_def window_opt_def split: if_splits)
  then have "delivers_via mp (next_expected (clear_window s) + 1) (clear_window s) (ds @ [v]) es (ws @ [cur]) []"
    using d n by (auto simp: delivers_via_def clear_window_def window_opt_def)
  then show ?thesis by (auto simp: delivers_def)
qed

lemma delivers_cong:
  "delivers mp s ds es \<Longrightarrow> sc_window s' = sc_window s \<Longrightarrow> sc_delivered_through s' = sc_delivered_through s \<Longrightarrow>
     sc_pending s' = sc_pending s \<Longrightarrow> delivers mp s' ds es"
  by (simp add: delivers_def delivers_via_def next_expected_def)

section \<open>Runs\<close>

definition admits :: "admission \<Rightarrow> bool" where
  "admits a \<longleftrightarrow> is_delivered a \<or> (case a of Adm_buffered _ \<Rightarrow> True | _ \<Rightarrow> False)"

definition admits_dec :: "decision \<Rightarrow> bool" where
  "admits_dec d \<longleftrightarrow> (case d of Buffered _ \<Rightarrow> True | Delivered _ _ _ \<Rightarrow> True | _ \<Rightarrow> False)"

text \<open>What a call admits for a key, and what it drains from it.\<close>

definition arrivals :: "('k, 'a) ingress_core \<Rightarrow> 'k \<Rightarrow> ('k, 'a) ingress_call \<Rightarrow> (int \<times> 'a) list" where
  "arrivals c k x = (case x of
     Ig_admit e \<Rightarrow> if en_key e = k \<and> admits (snd (snd (ingress_admit c e))) then [(en_sequence e, en_payload e)] else []
   | _ \<Rightarrow> [])"

definition drained :: "('k, 'a) ingress_core \<Rightarrow> 'k \<Rightarrow> ('k, 'a) ingress_call \<Rightarrow> 'a list" where
  "drained c k x = (case x of
     Ig_drain k' \<Rightarrow> if k' = k then (case snd (snd (ingress_drain c k)) of None \<Rightarrow> [] | Some v \<Rightarrow> [v]) else []
   | _ \<Rightarrow> [])"

text \<open>A producer incarnation ends when the scope is created, its generation moves or it is reopened.\<close>

definition fence_moved :: "'a scope option \<Rightarrow> 'a scope option \<Rightarrow> bool" where
  "fence_moved x y = (case (x, y) of
     (Some s, Some s') \<Rightarrow> sc_generation s' \<noteq> sc_generation s \<or> sc_lifecycle s = Closed \<and> sc_lifecycle s' \<noteq> Closed
   | _ \<Rightarrow> True)"

text \<open>The core with, for one key, the drained values and the arrivals since the fence moved.\<close>

fun feed :: "'k \<Rightarrow> ('k, 'a) ingress_core \<times> 'a list \<times> (int \<times> 'a) list \<Rightarrow> ('k, 'a) ingress_call \<Rightarrow>
    ('k, 'a) ingress_core \<times> 'a list \<times> (int \<times> 'a) list" where
  "feed k (c, ds, es) x =
     (let c' = fst (core_call c x)
      in if fence_moved (scope_of c k) (scope_of c' k) then (c', drained c k x, arrivals c k x)
         else (c', ds @ drained c k x, es @ arrivals c k x))"

fun all_declared :: "('k, 'a) ingress_core \<Rightarrow> ('k, 'a) ingress_call list \<Rightarrow> bool" where
  "all_declared c [] = True"
| "all_declared c (x # xs) \<longleftrightarrow> call_declared c x \<and> all_declared (fst (core_call c x)) xs"

definition feed_ok :: "'k \<Rightarrow> ('k, 'a) ingress_core \<Rightarrow> 'a list \<Rightarrow> (int \<times> 'a) list \<Rightarrow> bool" where
  "feed_ok k c ds es \<longleftrightarrow> (\<forall>s. scope_of c k = Some s \<and> sc_lifecycle s \<noteq> Closed \<longrightarrow> delivers (ig_merge c) s ds es)"

lemma decide_delivers:
  assumes "decide pol mp now s e = (s', dec)" "admits_dec dec" "delivers mp s ds es" "gp_overflow pol \<noteq> DropOldest"
  shows "if en_generation e > sc_generation s
    then delivers mp s' [] [(en_sequence e, en_payload e)]
    else delivers mp s' ds (es @ [(en_sequence e, en_payload e)])"
proof -
  obtain s1 h where mf: "move_fence s (en_generation e) = (s1, h)" by (cases "move_fence s (en_generation e)")
  have way: "next_expected s1 < en_sequence e \<and> park pol s1 e = (s', dec) \<or>
      en_sequence e = next_expected s1 \<and> deliver pol mp s1 e h = (s', dec)"
    using assms(1,2) mf by (auto simp: decide_def admits_dec_def split: if_splits)
  have step: "delivers mp s' ds1 (es1 @ [(en_sequence e, en_payload e)])" if "delivers mp s1 ds1 es1" for ds1 es1
    using way
  proof
    assume p: "next_expected s1 < en_sequence e \<and> park pol s1 e = (s', dec)"
    then obtain gap where "dec = Buffered gap" using park_cases [of pol s1 e s' dec] assms(2) by (auto simp: admits_dec_def)
    then show ?thesis using park_delivers [OF that, of e pol s' gap] p by simp
  next
    assume d: "en_sequence e = next_expected s1 \<and> deliver pol mp s1 e h = (s', dec)"
    then obtain through conflated where "dec = Delivered through conflated h"
      using deliver_cases [of pol mp s1 e h s' dec] assms(2) by (auto simp: admits_dec_def)
    then show ?thesis using deliver_delivers [OF that _ assms(4), of e h s'] d by simp
  qed
  show ?thesis
  proof (cases "en_generation e > sc_generation s")
    case True
    then have "delivers mp s1 [] []"
      using move_fence_cases [OF mf] by (intro delivers_fresh) (auto simp: clear_window_def)
    then show ?thesis using step [of "[]" "[]"] True by simp
  next
    case False
    then have "s1 = s" using move_fence_cases [OF mf] by auto
    then show ?thesis using step assms(3) False by simp
  qed
qed

lemma flush_generation: "flush_pending mp s b d = (s', c', d') \<Longrightarrow> sc_generation s' = sc_generation s"
  by (simp add: flush_keeps)

lemma decide_generation:
  assumes "decide pol mp now s e = (s', dec)" "admits_dec dec"
  shows "sc_generation s' = en_generation e \<and> sc_generation s \<le> en_generation e \<and> sc_lifecycle s \<noteq> Closed"
proof -
  obtain s1 h where mf: "move_fence s (en_generation e) = (s1, h)" by (cases "move_fence s (en_generation e)")
  have c: "sc_lifecycle s \<noteq> Closed" "sc_generation s \<le> en_generation e"
    "park pol s1 e = (s', dec) \<or> deliver pol mp s1 e h = (s', dec)"
    using assms mf by (auto simp: decide_def admits_dec_def split: if_splits)
  have "sc_generation s1 = en_generation e" using move_fence_cases [OF mf] c(2) by (auto simp: clear_window_def)
  moreover have "sc_generation s' = sc_generation s1"
    using c(3)
  proof
    assume "park pol s1 e = (s', dec)"
    then show ?thesis using park_cases by fastforce
  next
    assume "deliver pol mp s1 e h = (s', dec)"
    from deliver_cases [OF this] show ?thesis by auto
  qed
  ultimately show ?thesis using c by simp
qed

lemma admit_effect:
  fixes c :: "('k, 'a) ingress_core"
  defines "s e \<equiv> (case scope_of c (en_key e) of None \<Rightarrow> scope_new (en_generation e) | Some s \<Rightarrow> s)"
  assumes "decide (ig_policy c) (ig_merge c) (ig_now c) (s e) e = (s', dec)"
  shows "scope_of (fst (ingress_admit c e)) =
      (if scope_of c (en_key e) = None \<and> \<not> admits_dec dec then scope_of c else (scope_of c)(en_key e \<mapsto> s')) \<and>
    admits (snd (snd (ingress_admit c e))) = admits_dec dec"
  using assms(2)
  unfolding s_def ingress_admit_def Let_def
  by (cases dec)
     (auto simp: split_beta scope_of_put admits_def admits_dec_def is_delivered_def scope_of_def [symmetric] split: option.split)

section \<open>Every call keeps the deliveries\<close>

primrec call_key :: "('k, 'a) ingress_call \<Rightarrow> 'k option" where
  "call_key (Ig_open k g) = Some k"
| "call_key (Ig_admit e) = Some (en_key e)"
| "call_key (Ig_suspend k) = Some k"
| "call_key (Ig_reconnect k g) = Some k"
| "call_key (Ig_close k) = Some k"
| "call_key (Ig_fail k err) = Some k"
| "call_key (Ig_tick now) = None"
| "call_key (Ig_drain k) = Some k"

lemma tick_scope: "scope_of (fst (ingress_tick c now)) = scope_of c"
  by (rule ext) (simp add: ingress_tick_def scope_of_def)

lemma other_scope: "call_key x \<noteq> Some k \<Longrightarrow> scope_of (fst (core_call c x)) k = scope_of c k"
proof (cases x)
  case (Ig_admit e)
  assume k: "call_key x \<noteq> Some k"
  obtain s' dec where "decide (ig_policy c) (ig_merge c) (ig_now c)
      (case scope_of c (en_key e) of None \<Rightarrow> scope_new (en_generation e) | Some s \<Rightarrow> s) e = (s', dec)" by fastforce
  then show ?thesis using admit_effect [of c e s' dec] k Ig_admit by (simp add: split_beta)
qed (simp_all add: ingress_open_def ingress_suspend_def ingress_reconnect_def ingress_close_def ingress_fail_def tick_scope
      ingress_drain_def scope_of_put split_beta Let_def split: option.split)

lemma call_fields: "ig_merge (fst (core_call c x)) = ig_merge c \<and> ig_policy (fst (core_call c x)) = ig_policy c"
proof (cases x)
  case (Ig_admit e)
  show ?thesis
    by (simp add: Ig_admit ingress_admit_def Let_def split_beta split: decision.split option.split)
qed (simp_all add: ingress_open_def ingress_suspend_def ingress_reconnect_def ingress_close_def ingress_fail_def ingress_tick_def
      ingress_drain_def split_beta Let_def split: option.split)

lemma feed_other:
  assumes "feed_ok k c ds es" "call_key x \<noteq> Some k" "feed k (c, ds, es) x = (c', ds', es')"
  shows "feed_ok k c' ds' es'"
proof -
  have "arrivals c k x = []" "drained c k x = []" using assms(2) by (cases x; simp add: arrivals_def drained_def)+
  moreover have "fence_moved (scope_of c k) (scope_of c' k) \<longleftrightarrow> scope_of c k = None"
    using other_scope [OF assms(2), of c] assms(3)
    by (auto simp: fence_moved_def Let_def split: option.split if_splits)
  ultimately show ?thesis
    using assms other_scope [OF assms(2), of c] call_fields [of c x]
    by (auto simp: feed_ok_def Let_def split: if_splits)
qed

text \<open>The scope after a call on its key, with what the call drained and admitted.\<close>

lemma feed_known:
  assumes ok: "delivers (ig_merge c) s ds es" and s: "scope_of c k = Some s" "sc_lifecycle s \<noteq> Closed"
    and x: "call_key x = Some k" "call_declared c x" "gp_overflow (ig_policy c) \<noteq> DropOldest" "ingress_sound c"
    and s': "scope_of (fst (core_call c x)) k = Some s'" "sc_lifecycle s' \<noteq> Closed"
  shows "if sc_generation s' \<noteq> sc_generation s then delivers (ig_merge c) s' (drained c k x) (arrivals c k x)
    else delivers (ig_merge c) s' (ds @ drained c k x) (es @ arrivals c k x)"
proof (cases x)
  case (Ig_open k' g)
  then have "g \<le> sc_generation s" "k' = k" using x s by (auto simp: call_declared_def)
  then have "s' = s\<lparr>sc_lifecycle := live_or_opening s\<rparr>"
    using s s' Ig_open by (auto simp: ingress_open_def Let_def scope_of_put)
  then show ?thesis using delivers_cong [OF ok, of s'] Ig_open by (simp add: arrivals_def drained_def)
next
  case (Ig_admit e)
  then have k: "en_key e = k" using x by simp
  obtain t dec where dec: "decide (ig_policy c) (ig_merge c) (ig_now c) s e = (t, dec)" by fastforce
  have eff: "scope_of (fst (ingress_admit c e)) = (scope_of c)(k \<mapsto> t)" "admits (snd (snd (ingress_admit c e))) = admits_dec dec"
    using admit_effect [of c e t dec] dec s k by simp_all
  have t: "t = s'" using s'(1) Ig_admit eff by (simp add: split_beta)
  show ?thesis
  proof (cases "admits_dec dec")
    case True
    have "arrivals c k x = [(en_sequence e, en_payload e)]" "drained c k x = []"
      using True Ig_admit k eff by (simp_all add: arrivals_def drained_def)
    then show ?thesis
      using decide_delivers [OF dec True ok x(3)] decide_generation [OF dec True] t by (auto split: if_splits)
  next
    case False
    have "t = s"
      using dec
    proof (cases rule: decide_cases)
      case refused
      then show ?thesis using x(2) Ig_admit s k by (auto simp: call_declared_def)
    qed (use False in \<open>auto simp: admits_dec_def\<close>)
    then show ?thesis using t ok False Ig_admit eff by (simp add: arrivals_def drained_def)
  qed
next
  case (Ig_suspend k')
  then have "s' = s \<or> s' = s\<lparr>sc_lifecycle := Suspended\<rparr>"
    using s s' x by (auto simp: ingress_suspend_def scope_of_put split: if_splits)
  then show ?thesis using delivers_cong [OF ok, of s'] ok Ig_suspend by (auto simp: arrivals_def drained_def)
next
  case (Ig_reconnect k' g)
  show ?thesis
  proof (cases "g > sc_generation s")
    case True
    then have "sc_generation s' = g \<and> sc_window s' = None \<and> sc_delivered_through s' = None \<and> sc_pending s' = []"
      using Ig_reconnect s s' x by (auto simp: ingress_reconnect_def Let_def scope_of_put clear_window_def)
    then show ?thesis using True Ig_reconnect by (simp add: delivers_fresh arrivals_def drained_def)
  next
    case False
    then have "s' = s\<lparr>sc_lifecycle := live_or_opening s, sc_errors := 0\<rparr>"
      using Ig_reconnect s s' x by (auto simp: ingress_reconnect_def Let_def scope_of_put)
    then show ?thesis using delivers_cong [OF ok, of s'] Ig_reconnect by (simp add: arrivals_def drained_def)
  qed
next
  case (Ig_close k')
  then show ?thesis using s s' x by (auto simp: ingress_close_def scope_of_put clear_window_def)
next
  case (Ig_fail k' err)
  then have "s' = s\<lparr>sc_errors := sc_errors s + 1\<rparr>"
    using s s' x by (simp add: ingress_fail_def Let_def split_beta scope_of_put)
  then show ?thesis using delivers_cong [OF ok, of s'] Ig_fail by (simp add: arrivals_def drained_def)
next
  case (Ig_tick now)
  then show ?thesis using x by simp
next
  case (Ig_drain k')
  then have k: "k' = k" using x by simp
  show ?thesis
  proof (cases "sc_window s")
    case None
    then have "s' = s" "drained c k x = []" using Ig_drain k s s' by (simp_all add: ingress_drain_def drained_def)
    then show ?thesis using ok Ig_drain by (simp add: arrivals_def)
  next
    case (Some v)
    then have "s' = clear_window s" "drained c k x = [v]"
      using Ig_drain k s s' by (simp_all add: ingress_drain_def drained_def scope_of_put)
    then show ?thesis using drain_delivers [OF ok Some] Ig_drain by (simp add: arrivals_def clear_window_def)
  qed
qed

lemma feed_new:
  assumes s: "case scope_of c k of None \<Rightarrow> True | Some s \<Rightarrow> sc_lifecycle s = Closed"
    and x: "call_key x = Some k" "call_declared c x" "gp_overflow (ig_policy c) \<noteq> DropOldest"
    and s': "scope_of (fst (core_call c x)) k = Some s'" "sc_lifecycle s' \<noteq> Closed"
  shows "delivers (ig_merge c) s' (drained c k x) (arrivals c k x)"
proof (cases x)
  case (Ig_open k' g)
  then have "s' = scope_new g" using s s' x by (auto simp: ingress_open_def Let_def scope_of_put split: option.splits)
  then show ?thesis using Ig_open by (auto simp: arrivals_def drained_def scope_new_def intro!: delivers_fresh)
next
  case (Ig_admit e)
  then have k: "en_key e = k" using x by simp
  define s0 where "s0 = (case scope_of c k of None \<Rightarrow> scope_new (en_generation e) | Some s \<Rightarrow> s)"
  obtain t dec where dec: "decide (ig_policy c) (ig_merge c) (ig_now c) s0 e = (t, dec)" by fastforce
  have eff: "scope_of (fst (ingress_admit c e)) = (if scope_of c k = None \<and> \<not> admits_dec dec then scope_of c else (scope_of c)(k \<mapsto> t))"
    "admits (snd (snd (ingress_admit c e))) = admits_dec dec"
    using admit_effect [of c e t dec] dec k by (simp_all add: s0_def)
  have adm: "admits_dec dec"
  proof (rule ccontr)
    assume no: "\<not> admits_dec dec"
    have "scope_of c k \<noteq> None" using s' no eff Ig_admit by (auto simp: split_beta split: if_splits)
    then obtain s1 where "scope_of c k = Some s1" "sc_lifecycle s1 = Closed" using s by auto
    moreover from this have "t = s1" using dec by (simp add: s0_def decide_def)
    ultimately show False using s' no eff Ig_admit by (simp add: split_beta)
  qed
  have "scope_of c k = None" using decide_generation [OF dec adm] s by (auto simp: s0_def split: option.splits)
  then have "s0 = scope_new (en_generation e)" "t = s'" using s' eff adm Ig_admit by (simp_all add: s0_def split_beta)
  moreover have "delivers (ig_merge c) (scope_new (en_generation e)) [] []" by (rule delivers_fresh) (simp_all add: scope_new_def)
  ultimately have "delivers (ig_merge c) s' [] [(en_sequence e, en_payload e)]"
    using decide_delivers [OF dec adm _ x(3), of "[]" "[]"] by (auto split: if_splits)
  then show ?thesis using Ig_admit k eff adm by (simp add: arrivals_def drained_def)
next
  case (Ig_suspend k')
  then show ?thesis using s s' x by (auto simp: ingress_suspend_def split: option.splits)
next
  case (Ig_reconnect k' g)
  then have "scope_of c k = None" using s x by (auto simp: call_declared_def split: option.splits)
  then have "sc_window s' = None \<and> sc_delivered_through s' = None \<and> sc_pending s' = []"
    using Ig_reconnect s' x by (auto simp: ingress_reconnect_def Let_def scope_of_put scope_new_def)
  then show ?thesis using Ig_reconnect by (simp add: arrivals_def drained_def delivers_fresh)
next
  case (Ig_close k')
  then show ?thesis using s s' x by (auto simp: ingress_close_def split: option.splits)
next
  case (Ig_fail k' err)
  then have "s' = (scope_new 0)\<lparr>sc_errors := 1\<rparr>"
    using s s' x by (auto simp: ingress_fail_def Let_def split_beta scope_of_put scope_new_def split: option.splits)
  then show ?thesis using Ig_fail by (auto simp: arrivals_def drained_def scope_new_def intro!: delivers_fresh)
next
  case (Ig_tick now)
  then show ?thesis using x by simp
next
  case (Ig_drain k')
  then show ?thesis using s s' x by (auto simp: ingress_drain_def scope_of_put clear_window_def split: option.splits if_splits)
qed

lemma feed_keeps:
  assumes "ingress_sound c" "call_declared c x" "gp_overflow (ig_policy c) \<noteq> DropOldest"
    and ok: "feed_ok k c ds es" and step: "feed k (c, ds, es) x = (c', ds', es')"
  shows "feed_ok k c' ds' es'"
proof (cases "call_key x = Some k")
  case False
  show ?thesis by (rule feed_other [OF ok False step])
next
  case True
  have c': "c' = fst (core_call c x)" using step by (auto simp: Let_def split: if_splits)
  have "delivers (ig_merge c) s' ds' es'" if s': "scope_of c' k = Some s'" "sc_lifecycle s' \<noteq> Closed" for s'
  proof (cases "case scope_of c k of None \<Rightarrow> True | Some s \<Rightarrow> sc_lifecycle s = Closed")
    case new: True
    then have "fence_moved (scope_of c k) (scope_of c' k)" using s' by (auto simp: fence_moved_def split: option.splits)
    then show ?thesis
      using feed_new [OF new True assms(2,3) s'[unfolded c']] step unfolding c' by (simp add: Let_def)
  next
    case False
    then obtain s where s: "scope_of c k = Some s" "sc_lifecycle s \<noteq> Closed" by (auto split: option.splits)
    then have "fence_moved (scope_of c k) (scope_of c' k) \<longleftrightarrow> sc_generation s' \<noteq> sc_generation s"
      using s' by (simp add: fence_moved_def)
    then show ?thesis
      using feed_known [OF _ s True assms(2,3,1) s'[unfolded c']] ok s step unfolding c'
      by (auto simp: Let_def feed_ok_def split: if_splits)
  qed
  then show ?thesis using call_fields [of c x] by (simp add: feed_ok_def c')
qed

lemma feed_core: "fst (feed k (c, ds, es) x) = fst (core_call c x)"
  by (simp add: Let_def)

lemma feed_run:
  assumes "ingress_sound c" "all_declared c xs" "gp_overflow (ig_policy c) \<noteq> DropOldest" "feed_ok k c ds es"
    and "foldl (feed k) (c, ds, es) xs = (c', ds', es')"
  shows "feed_ok k c' ds' es' \<and> ig_merge c' = ig_merge c"
  using assms
proof (induction xs arbitrary: c ds es)
  case (Cons x xs)
  obtain c1 ds1 es1 where f: "feed k (c, ds, es) x = (c1, ds1, es1)" by (rule prod_cases3)
  have c1: "c1 = fst (core_call c x)" using feed_core [of k c ds es x] f by simp
  have "feed_ok k c1 ds1 es1" using feed_keeps [OF Cons.prems(1) _ Cons.prems(3,4) f] Cons.prems(2) by simp
  moreover have "ingress_sound c1" using ingress_sound_call [OF Cons.prems(1)] c1 by simp
  ultimately show ?case
    using Cons.IH [of c1 ds1 es1] Cons.prems c1 f call_fields [of c x] by simp
qed auto

section \<open>Bounds\<close>

text \<open>The receipts kept are the last ones minted, with consecutive offsets; the reorder buffers are bounded.\<close>

definition log_ok :: "('k, 'a) ingress_core \<Rightarrow> bool" where
  "log_ok c \<longleftrightarrow> length (ig_receipts c) \<le> gp_receipt_capacity (ig_policy c) \<and>
     map rc_offset (ig_receipts c) = [ig_next_offset c - int (length (ig_receipts c))..ig_next_offset c - 1]"

lemma upto_drop: "drop n [a..b] = [a + int n..b]"
proof (induction n arbitrary: a)
  case (Suc n)
  show ?case
  proof (cases "a \<le> b")
    case True
    then have "drop (Suc n) [a..b] = drop n [a + 1..b]" by (simp add: upto.simps [of a b])
    then show ?thesis using Suc [of "a + 1"] by (simp add: add.assoc)
  qed simp
qed simp

lemma push_log_ok: "log_ok c \<Longrightarrow> log_ok (fst (push_receipt c r))"
proof -
  assume ok: "log_ok c"
  define rs where "rs = ig_receipts c @ [r\<lparr>rc_offset := ig_next_offset c\<rparr>]"
  define n where "n = length rs - gp_receipt_capacity (ig_policy c)"
  have "map rc_offset rs = [ig_next_offset c - int (length (ig_receipts c))..ig_next_offset c - 1] @ [ig_next_offset c]"
    using ok by (simp add: rs_def log_ok_def)
  also have "\<dots> = [ig_next_offset c + 1 - int (length rs)..ig_next_offset c]"
    using upto_rec2 [of "ig_next_offset c - int (length (ig_receipts c))" "ig_next_offset c"] by (simp add: rs_def)
  finally have "map rc_offset (drop n rs) = [ig_next_offset c + 1 - int (length rs) + int n..ig_next_offset c]"
    by (simp add: drop_map [symmetric] upto_drop)
  moreover have "length (drop n rs) = length rs - n" "n \<le> length rs" "length rs - n \<le> gp_receipt_capacity (ig_policy c)"
    by (simp_all add: n_def)
  ultimately show ?thesis
    by (simp add: log_ok_def push_receipt_def Let_def rs_def [symmetric] n_def [symmetric] algebra_simps of_nat_diff)
qed

definition buffers_ok :: "('k, 'a) ingress_core \<Rightarrow> bool" where
  "buffers_ok c \<longleftrightarrow> (\<forall>k s. scope_of c k = Some s \<longrightarrow> length (sc_pending s) \<le> nat (gp_reorder_window (ig_policy c)))"

lemma flush_shrinks: "flush_pending mp s b d = (s', c', d') \<Longrightarrow> length (sc_pending s') \<le> length (sc_pending s)"
proof (induction mp s b d rule: flush_pending.induct)
  case (1 mp s conflated through)
  show ?case
  proof (cases "map_of (sc_pending s) (next_expected s)")
    case None
    then show ?thesis using 1(2) by (subst (asm) flush_pending.simps) simp
  next
    case (Some q)
    obtain p t where q: "q = (p, t)" by (cases q)
    let ?m = "merge_into mp (s\<lparr>sc_pending := AList.delete (next_expected s) (sc_pending s)\<rparr>) p t"
    have "flush_pending mp (fst ?m\<lparr>sc_delivered_through := Some (next_expected s)\<rparr>) (snd ?m \<or> conflated) (next_expected s) = (s', c', d')"
      using 1(2) Some q by (subst (asm) flush_pending.simps) (simp add: split_beta Let_def)
    from 1(1) [OF Some q [symmetric] refl refl prod.collapse this] show ?thesis
      using delete_shorter [OF Some] by (simp add: merge_into_window)
  qed
qed

lemma decide_buffer:
  assumes "decide pol mp now s e = (s', dec)" "length (sc_pending s) \<le> nat (gp_reorder_window pol)"
  shows "length (sc_pending s') \<le> nat (gp_reorder_window pol)"
proof -
  obtain s1 h where mf: "move_fence s (en_generation e) = (s1, h)" by (cases "move_fence s (en_generation e)")
  have s1: "length (sc_pending s1) \<le> nat (gp_reorder_window pol)"
    using move_fence_cases [OF mf] assms(2) by (auto simp: clear_window_def)
  consider "s' = s" | "s' = s1" | "park pol s1 e = (s', dec)" | "deliver pol mp s1 e h = (s', dec)"
    using assms(1) mf by (auto simp: decide_def split: if_splits)
  then show ?thesis
  proof cases
    case 3
    then show ?thesis using s1 by (auto simp: park_def update_fresh map_of_eq_None_iff split: if_splits)
  next
    case 4
    define s2 where "s2 = (if sc_window_depth s1 \<ge> gp_high_water pol \<and> gp_overflow pol = DropOldest then clear_window s1 else s1)"
    define m where "m = merge_into mp s2 (en_payload e) (en_stamped_at e)"
    define s4 where "s4 = fst m\<lparr>sc_delivered_through := Some (en_sequence e), sc_lifecycle := Live, sc_errors := 0\<rparr>"
    obtain s5 c0 d0 where f: "flush_pending mp s4 (snd m) (en_sequence e) = (s5, c0, d0)" by (rule prod_cases3)
    have "s' = s1 \<or> s' = s5"
      using 4 f unfolding deliver_def s4_def m_def s2_def by (auto simp: split_beta Let_def split: if_splits)
    moreover have "length (sc_pending s4) = length (sc_pending s1)"
      by (simp add: s4_def m_def s2_def merge_into_window clear_window_def)
    ultimately show ?thesis using flush_shrinks [OF f] s1 by auto
  qed (use assms(2) s1 in simp_all)
qed

definition bounded_ok :: "('k, 'a) ingress_core \<Rightarrow> bool" where
  "bounded_ok c \<longleftrightarrow> log_ok c \<and> buffers_ok c"

lemma bounded_put:
  "bounded_ok c \<Longrightarrow> length (sc_pending s) \<le> nat (gp_reorder_window (ig_policy c)) \<Longrightarrow> bounded_ok (put_scope c k s)"
  by (simp add: bounded_ok_def log_ok_def buffers_ok_def scope_of_put)

lemma bounded_push: "bounded_ok c \<Longrightarrow> bounded_ok (fst (push_receipt c r))"
  by (simp add: bounded_ok_def push_log_ok buffers_ok_def)

lemma bounded_scope: "bounded_ok c \<Longrightarrow> scope_of c k = Some s \<Longrightarrow> length (sc_pending s) \<le> nat (gp_reorder_window (ig_policy c))"
  by (simp add: bounded_ok_def buffers_ok_def)

lemma bounded_admit: "bounded_ok c \<Longrightarrow> bounded_ok (fst (ingress_admit c e))"
proof -
  assume c: "bounded_ok c"
  define k where "k = en_key e"
  define s where "s = (case scope_of c k of None \<Rightarrow> scope_new (en_generation e) | Some s \<Rightarrow> s)"
  obtain s' dec where dec: "decide (ig_policy c) (ig_merge c) (ig_now c) s e = (s', dec)" by fastforce
  have "length (sc_pending s) \<le> nat (gp_reorder_window (ig_policy c))"
    using bounded_scope [OF c, of k] by (auto simp: s_def scope_new_def split: option.split)
  then have "length (sc_pending s') \<le> nat (gp_reorder_window (ig_policy c))" using dec by (blast intro: decide_buffer)
  then have "bounded_ok c1" if "c1 = c \<or> c1 = put_scope c k s'" for c1 using that c bounded_put by auto
  then show ?thesis
    unfolding ingress_admit_def Let_def k_def [symmetric] s_def [symmetric] dec prod.case
    by (auto simp: split_beta intro!: bounded_push split: decision.split option.split)
qed

lemma bounded_call: "bounded_ok c \<Longrightarrow> bounded_ok (fst (core_call c x))"
proof (cases x)
  case (Ig_admit e)
  assume "bounded_ok c"
  then show ?thesis using Ig_admit bounded_admit [of c e] by (simp add: split_beta)
next
  case (Ig_tick now)
  assume "bounded_ok c"
  then show ?thesis using Ig_tick
    by (simp add: ingress_tick_def bounded_ok_def log_ok_def buffers_ok_def scope_of_def)
next
  case (Ig_open k g)
  assume c: "bounded_ok c"
  show ?thesis using Ig_open bounded_scope [OF c]
    by (auto simp: ingress_open_def Let_def scope_new_def split: option.split intro!: bounded_put c)
next
  case (Ig_suspend k)
  assume c: "bounded_ok c"
  show ?thesis using Ig_suspend bounded_scope [OF c]
    by (auto simp: ingress_suspend_def c split: option.split intro!: bounded_put)
next
  case (Ig_reconnect k g)
  assume c: "bounded_ok c"
  show ?thesis using Ig_reconnect bounded_scope [OF c]
    by (auto simp: ingress_reconnect_def Let_def scope_new_def clear_window_def split: option.split intro!: bounded_put c)
next
  case (Ig_close k)
  assume c: "bounded_ok c"
  show ?thesis using Ig_close c
    by (auto simp: ingress_close_def clear_window_def split: option.split intro!: bounded_put)
next
  case (Ig_fail k err)
  assume c: "bounded_ok c"
  show ?thesis using Ig_fail bounded_scope [OF c]
    by (auto simp: ingress_fail_def Let_def split_beta scope_new_def split: option.split intro!: bounded_put bounded_push c)
next
  case (Ig_drain k)
  assume c: "bounded_ok c"
  show ?thesis using Ig_drain bounded_scope [OF c] c
    by (auto simp: ingress_drain_def clear_window_def split: option.split intro!: bounded_put)
qed

end
