(* ===== verification/IngressTheorems.thy ===== *)
theory IngressTheorems
  imports IngressDelivery
begin

text \<open>
  The properties of transport ingress: what the readers show, what a scope delivers, what is bounded.
\<close>

text \<open>A client's calls and reads, with whether every call was one whose invalidation set is complete.\<close>

fun client_run :: "('k, 'a) ingress_cell \<Rightarrow> (('k, 'a) ingress_call + 'k ingress_read) list \<Rightarrow> ('k, 'a) ingress_cell" where
  "client_run c [] = c"
| "client_run c (Inl x # xs) = client_run (cell_call c x) xs"
| "client_run c (Inr r # xs) = client_run (read_cell c r) xs"

fun client_declared :: "('k, 'a) ingress_cell \<Rightarrow> (('k, 'a) ingress_call + 'k ingress_read) list \<Rightarrow> bool" where
  "client_declared c [] = True"
| "client_declared c (Inl x # xs) \<longleftrightarrow> call_declared (il_core c) x \<and> client_declared (cell_call c x) xs"
| "client_declared c (Inr r # xs) = client_declared (read_cell c r) xs"

lemma client_run_current:
  "readers_current c \<Longrightarrow> ingress_sound (il_core c) \<Longrightarrow> client_declared c xs \<Longrightarrow> readers_current (client_run c xs)"
  by (induction c xs rule: client_run.induct) (simp_all add: current_call current_read ingress_sound_call)

lemma new_current:
  "ingress_cell_new pol mp kind interval = Inr c \<Longrightarrow> readers_current c \<and> ingress_sound (il_core c)"
  by (auto simp: ingress_cell_new_def ingress_core_new_def readers_current_def cached_def ingress_sound_def scope_of_def
      split: if_splits sum.splits)

text \<open>C26: Ingress readers are never stale: whatever calls and reads a client makes, as long as no call moves
  a generation fence or leaves the closed state behind the readers (\<open>call_declared\<close>), every read of
  value, readiness, authority or retry returns what the core derives now, although it may come from
  the cache; a cached receipt list ends with the receipts the log still holds.\<close>

theorem ingress_reads_current:
  assumes "ingress_cell_new pol mp kind interval = Inr c0" "client_declared c0 xs" "c = client_run c0 xs"
  shows "snd (il_value c k) = ingress_peek (il_core c) k \<and>
    snd (il_readiness c k) = ingress_readiness (il_core c) k \<and>
    snd (il_authority c k) = ingress_authority (il_core c) k \<and>
    snd (il_retry c k) = ingress_retry_of (il_core c) k \<and>
    suffix (ingress_receipts (il_core c) ch) (snd (il_receipts c ch))"
proof -
  have "readers_current c" using new_current [OF assms(1)] assms(2,3) client_run_current by blast
  then show ?thesis by (simp add: read_value read_readiness read_authority read_retry read_receipts)
qed

definition demo_envelope :: "int \<Rightarrow> int \<Rightarrow> (nat, int) envelope" where
  "demo_envelope sequence payload = \<lparr>en_key = 1, en_generation = 1, en_sequence = sequence, en_stamped_at = 0, en_payload = payload\<rparr>"

definition demo_cell :: "(nat, int) ingress_cell" where
  "demo_cell = \<lparr>il_core = \<lparr>ig_policy = ingress_policy_default, ig_merge = Sum_policy, ig_scopes = [], ig_receipts = [],
       ig_next_offset = 0, ig_now = 0\<rparr>,
     il_scopes = [], il_accepted = None, il_dropped = None, il_errors = None,
     il_transport_kind = cell_new Event_channel, il_poll_interval = cell_new 0\<rparr>"

definition demo_calls :: "((nat, int) ingress_call + nat ingress_read) list" where
  "demo_calls = [Inl (Ig_open 1 1), Inr (Rd_value 1), Inl (Ig_admit (demo_envelope 1 20)), Inl (Ig_admit (demo_envelope 0 10))]"

lemma demo_new: "ingress_cell_new ingress_policy_default Sum_policy Event_channel 0 = Inr demo_cell"
  by (simp add: ingress_cell_new_def ingress_core_new_def ingress_policy_default_def Sum_policy_def demo_cell_def)

lemma demo_declared: "client_declared demo_cell demo_calls"
  by code_simp

theorem ingress_reads_current_witness:
  "snd (il_value (client_run demo_cell demo_calls) 1) = ingress_peek (il_core (client_run demo_cell demo_calls)) 1"
  using ingress_reads_current [OF demo_new demo_declared refl, of 1 Ch_error] by simp


definition demo_admits :: "(nat, int) ingress_call list" where
  "demo_admits = [Ig_open 1 1, Ig_admit (demo_envelope 1 20), Ig_admit (demo_envelope 0 10), Ig_drain 1, Ig_admit (demo_envelope 2 5)]"


lemma demo_core: "ingress_core_new ingress_policy_default Sum_policy = Inr (il_core demo_cell)"
  by (simp add: ingress_core_new_def ingress_policy_default_def Sum_policy_def demo_cell_def)




text \<open>C28: Ingress is bounded: after any calls whatsoever, at most the configured number of receipts is kept,
  with consecutive offsets ending at the last one minted, and no scope parks more envelopes than the
  reorder window allows.\<close>

theorem ingress_bounded:
  assumes "ingress_core_new pol mp = Inr c0" "c = foldl (\<lambda>c x. fst (core_call c x)) c0 xs"
  shows "length (ig_receipts c) \<le> gp_receipt_capacity pol \<and>
    map rc_offset (ig_receipts c) = [ig_next_offset c - int (length (ig_receipts c))..ig_next_offset c - 1] \<and>
    (\<forall>k s. scope_of c k = Some s \<longrightarrow> length (sc_pending s) \<le> nat (gp_reorder_window pol))"
proof -
  have c0: "bounded_ok c0" "ig_policy c0 = pol"
    using assms(1) by (auto simp: ingress_core_new_def bounded_ok_def log_ok_def buffers_ok_def scope_of_def split: if_splits)
  have "bounded_ok (foldl (\<lambda>c x. fst (core_call c x)) c0 xs) \<and> ig_policy (foldl (\<lambda>c x. fst (core_call c x)) c0 xs) = pol"
    by (induction xs rule: rev_induct) (simp_all add: c0 bounded_call call_fields)
  then show ?thesis by (auto simp: assms(2) bounded_ok_def log_ok_def buffers_ok_def)
qed

theorem ingress_bounded_witness:
  "length (ig_receipts (foldl (\<lambda>c x. fst (core_call c x)) (il_core demo_cell) demo_admits)) \<le> 256"
  using ingress_bounded [OF demo_core refl, of demo_admits] by (simp add: ingress_policy_default_def)

chapter \<open>Properties\<close>

text \<open>
  Runs of transport ingress in which the reported invalidation set misses a reader, or a window mixes
  two producer incarnations. Each is outside \<open>call_declared\<close>.
\<close>

definition gen_envelope :: "int \<Rightarrow> int \<Rightarrow> int \<Rightarrow> (nat, int) envelope" where
  "gen_envelope generation sequence payload =
     \<lparr>en_key = 1, en_generation = generation, en_sequence = sequence, en_stamped_at = 0, en_payload = payload\<rparr>"

definition live_cell :: "(nat, int) ingress_cell" where
  "live_cell = client_run demo_cell [Inl (Ig_open 1 1), Inl (Ig_admit (gen_envelope 1 0 10))]"

text \<open>Reopening a live scope at a newer generation empties its watermark; the readiness reader keeps saying ready.\<close>

lemma reopen_stale_readiness:
  "(let c = client_run live_cell [Inr (Rd_readiness 1), Inl (Ig_open 1 2)]
    in (snd (il_readiness c 1), ingress_readiness (il_core c) 1)) = (Ready, Warming)"
  by code_simp

text \<open>
  The same reopening keeps the window: the first payload of the new incarnation is merged into the old
  one's, where an admission that hands the fence over starts a new window.
\<close>

lemma reopen_mixes_windows:
  "(ingress_peek (il_core (client_run live_cell [Inl (Ig_open 1 2), Inl (Ig_admit (gen_envelope 2 0 5))])) 1,
    ingress_peek (il_core (client_run live_cell [Inl (Ig_admit (gen_envelope 2 0 5))])) 1) = (Some 15, Some 5)"
  by code_simp

text \<open>Reconnecting a closed scope reopens it; the authority reader keeps the absence it cached.\<close>

lemma reconnect_stale_authority:
  "(let c = client_run live_cell [Inl (Ig_close 1), Inr (Rd_authority 1), Inl (Ig_reconnect 1 1)]
    in (snd (il_authority c 1) = None, ingress_authority (il_core c) 1 = None)) = (True, False)"
  by code_simp

definition strict_cell :: "(nat, int) ingress_cell" where
  "strict_cell = demo_cell\<lparr>il_core := (il_core demo_cell)\<lparr>ig_policy := ingress_policy_default\<lparr>gp_reorder_window := 0\<rparr>\<rparr>\<rparr>"

text \<open>
  A newer generation whose envelope is then refused for its gap has moved the fence and dropped the
  window; only the receipt reader is cleared.
\<close>

lemma refused_handoff_unseen:
  "(let c = client_run strict_cell [Inl (Ig_open 1 1), Inl (Ig_admit (gen_envelope 1 0 10)), Inr (Rd_value 1),
      Inl (Ig_admit (gen_envelope 2 3 7))]
    in (snd (il_value c 1), ingress_peek (il_core c) 1)) = (Some 10, None)"
  by code_simp

definition small_log_cell :: "(nat, int) ingress_cell" where
  "small_log_cell = demo_cell\<lparr>il_core := (il_core demo_cell)\<lparr>ig_policy := ingress_policy_default\<lparr>gp_receipt_capacity := 1\<rparr>\<rparr>\<rparr>"

text \<open>A receipt evicted by one of another channel stays in the cached list of its reader.\<close>

lemma evicted_receipt_cached:
  "(let c = client_run small_log_cell [Inl (Ig_admit (gen_envelope 1 0 10)), Inr (Rd_receipts Ch_accepted),
      Inl (Ig_admit (gen_envelope 1 0 10))]
    in (length (snd (il_receipts c Ch_accepted)), length (ingress_receipts (il_core c) Ch_accepted))) = (1, 0)"
  by code_simp

text \<open>A suspended scope still delivers what arrives.\<close>

lemma suspended_delivers:
  "(let c = client_run live_cell [Inl (Ig_suspend 1), Inl (Ig_admit (gen_envelope 1 1 5))]
    in (ingress_peek (il_core c) 1, ingress_readiness (il_core c) 1)) = (Some 15, Ready)"
  by code_simp

end
