(* ===== verification/TreeCrdt.thy ===== *)
theory TreeCrdt
  imports TextEdit MsgpackStd "HOL-Library.List_Lexorder"
begin

text \<open>
  The lossless tree CRDT of \<^verbatim>\<open>src/lazily/lossless_tree_crdt.py\<close>: dotted version frontiers,
  fractional sort keys, the six operations with their application, the local mutators, and the
  exchange of operations with buffering. Dictionaries are association lists in insertion order; a
  node record is shared by the node map and the children index in the code, so the index holds the
  ids of the records. A character is its code point. Reading a leaf's text fills the text CRDT's
  cache, on which no result depends; the model reads the text and leaves the cache as it is.
\<close>

section \<open>Ids\<close>

datatype tree_id = TreeOpId (t_counter: int) (t_peer: int)

definition tree_id_lt :: "tree_id \<Rightarrow> tree_id \<Rightarrow> bool" where
  "tree_id_lt a b \<longleftrightarrow> t_counter a < t_counter b \<or> (t_counter a = t_counter b \<and> t_peer a < t_peer b)"

definition tree_id_le :: "tree_id \<Rightarrow> tree_id \<Rightarrow> bool" where
  "tree_id_le a b \<longleftrightarrow> t_counter a < t_counter b \<or> (t_counter a = t_counter b \<and> t_peer a \<le> t_peer b)"

instantiation tree_id :: linorder
begin

definition less_tree_id :: "tree_id \<Rightarrow> tree_id \<Rightarrow> bool" where
  [unfolded tree_id_lt_def]: "less_tree_id a b \<longleftrightarrow> tree_id_lt a b"

definition less_eq_tree_id :: "tree_id \<Rightarrow> tree_id \<Rightarrow> bool" where
  [unfolded tree_id_le_def]: "less_eq_tree_id a b \<longleftrightarrow> tree_id_le a b"

instance
  by standard (auto simp: less_tree_id_def less_eq_tree_id_def intro: tree_id.expand)

end

definition tree_root :: tree_id where
  "tree_root = TreeOpId 0 0"

definition min_id :: "tree_id \<Rightarrow> tree_id \<Rightarrow> tree_id" where
  "min_id a b = (if a \<le> b then a else b)"

section \<open>Sort keys\<close>

datatype sort_pos = SortKey (sk_frac: "int list") (sk_peer: int)

text \<open>The loop of \<^verbatim>\<open>_cmp_sort\<close> over the common prefix, then the lengths, then the peers.\<close>

fun cmp_frac :: "int list \<Rightarrow> int list \<Rightarrow> int" where
  "cmp_frac (x # xs) (y # ys) = (if x \<noteq> y then (if x < y then -1 else 1) else cmp_frac xs ys)"
| "cmp_frac xs ys = (if length xs \<noteq> length ys then (if length xs < length ys then -1 else 1) else 0)"

definition cmp_sort :: "sort_pos \<Rightarrow> sort_pos \<Rightarrow> int" where
  "cmp_sort a b =
     (if cmp_frac (sk_frac a) (sk_frac b) \<noteq> 0 then cmp_frac (sk_frac a) (sk_frac b)
      else if sk_peer a < sk_peer b then -1 else if sk_peer a > sk_peer b then 1 else 0)"

definition sort_lt :: "sort_pos \<Rightarrow> sort_pos \<Rightarrow> bool" where
  "sort_lt a b \<longleftrightarrow> cmp_sort a b < 0"

text \<open>
  The loop of \<^verbatim>\<open>key_between\<close> from index \<open>i\<close> on, with the result so far. \<open>None\<close> is the open end.
  Above the cap the loop ends; the recursive call has no upper key, so its gap at index \<open>i\<close> is
  the one to 256.
\<close>

definition lo_at :: "int list option \<Rightarrow> nat \<Rightarrow> int" where
  "lo_at lo i = (case lo of Some l \<Rightarrow> if i < length l then l ! i else 0 | None \<Rightarrow> 0)"

definition hi_at :: "int list option \<Rightarrow> nat \<Rightarrow> int" where
  "hi_at hi i = (case hi of Some h \<Rightarrow> if i < length h then h ! i else 0 | None \<Rightarrow> 256)"

definition key_cap :: "int list option \<Rightarrow> int list option \<Rightarrow> nat" where
  "key_cap lo hi = (case lo of Some l \<Rightarrow> length l | None \<Rightarrow> 0) + (case hi of Some h \<Rightarrow> length h | None \<Rightarrow> 0) + 2"

definition lo_tail :: "int list option \<Rightarrow> nat \<Rightarrow> int list" where
  "lo_tail lo i = (case lo of Some l \<Rightarrow> if i \<le> length l then drop i l else [] | None \<Rightarrow> [])"

text \<open>With an open upper end the recursion is on ever shorter lower keys, and an empty one has a wide gap.\<close>

function key_loop :: "int list option \<Rightarrow> int list option \<Rightarrow> nat \<Rightarrow> int list \<Rightarrow> int list" where
  "key_loop lo hi i result =
     (if i > key_cap lo hi then result @ [128]
      else let a = lo_at lo i; b = hi_at hi i
           in if a + 1 < b then result @ [(a + b) div 2]
              else if a < b then key_loop (Some (lo_tail lo (i + 1))) None 0 (result @ [a])
              else key_loop lo hi (i + 1) (result @ [a]))"
  by pat_completeness auto

termination
  by (relation "measures [\<lambda>(lo, hi, i, result). if hi = None then 0 else 1,
        \<lambda>(lo, hi, i, result). case lo of None \<Rightarrow> 0 | Some l \<Rightarrow> length l,
        \<lambda>(lo, hi, i, result). Suc (key_cap lo hi) - i]")
    (auto simp: lo_at_def hi_at_def lo_tail_def split: option.splits if_splits)

declare key_loop.simps [simp del]

definition key_between :: "int list option \<Rightarrow> int list option \<Rightarrow> int list" where
  "key_between lo hi = key_loop lo hi 0 []"

section \<open>Byte offsets\<close>

datatype tree_error = Node_not_found | Not_a_leaf | Off_boundary | Not_adjacent | Unencodable_text

text \<open>\<open>None\<close> is an offset out of range or inside a character; a lone surrogate is an encoding error.\<close>

definition byte_to_char :: "nat list \<Rightarrow> int \<Rightarrow> tree_error + nat option" where
  "byte_to_char s off =
     (if off < 0 then Inr None
      else case utf8_encode s of
          None \<Rightarrow> Inl Unencodable_text
        | Some encoded \<Rightarrow>
            if off > int (length encoded) then Inr None
            else case utf8_decode (take (nat off) encoded) of
                None \<Rightarrow> Inr None
              | Some cs \<Rightarrow> Inr (Some (length cs)))"

section \<open>Seeds and operations\<close>

datatype leaf_kind = Token | Trivia | Raw | Error_kind

datatype node_seed = SeedElement "nat list" | SeedLeaf leaf_kind "nat list"

datatype tree_kind =
    CreateNode tree_id tree_id sort_pos node_seed
  | Tombstone tree_id
  | Reorder tree_id sort_pos
  | LeafEdit tree_id tree_id "nat text_op list"
  | SplitLeaf tree_id tree_id sort_pos int tree_id
  | MergeLeaves tree_id tree_id tree_id tree_id

datatype tree_op = TreeOp (op_at: tree_id) (op_kind: tree_kind)

section \<open>The dotted frontier\<close>

record dot_range =
  dr_contiguous :: int
  dr_sparse :: "int list"

definition range_new :: dot_range where
  "range_new = \<lparr>dr_contiguous = 0, dr_sparse = []\<rparr>"

definition range_contains :: "dot_range \<Rightarrow> int \<Rightarrow> bool" where
  "range_contains r c \<longleftrightarrow> c \<le> dr_contiguous r \<or> c \<in> set (dr_sparse r)"

text \<open>The loop that moves the run above the prefix into the prefix.\<close>

function absorb_runs :: "int \<Rightarrow> int list \<Rightarrow> int \<times> int list" where
  "absorb_runs c sp = (if c + 1 \<in> set sp then absorb_runs (c + 1) (removeAll (c + 1) sp) else (c, sp))"
  by pat_completeness auto

termination
  by (relation "measure (\<lambda>(c, sp). length sp)") (auto simp: length_removeAll_less)

declare absorb_runs.simps [simp del]

definition range_observe :: "dot_range \<Rightarrow> int \<Rightarrow> dot_range" where
  "range_observe r c =
     (if c \<le> dr_contiguous r then r
      else let (n, sp) = absorb_runs (dr_contiguous r) (List.insert c (dr_sparse r))
           in \<lparr>dr_contiguous = n, dr_sparse = sp\<rparr>)"

type_synonym tree_frontier = "(int \<times> dot_range) list"

definition frontier_contains :: "tree_frontier \<Rightarrow> tree_id \<Rightarrow> bool" where
  "frontier_contains f i = (case map_of f (t_peer i) of Some r \<Rightarrow> range_contains r (t_counter i) | None \<Rightarrow> False)"

definition frontier_observe :: "tree_frontier \<Rightarrow> tree_id \<Rightarrow> tree_frontier" where
  "frontier_observe f i =
     (let r = (case map_of f (t_peer i) of Some r \<Rightarrow> r | None \<Rightarrow> range_new)
      in AList.update (t_peer i) (range_observe r (t_counter i)) f)"

section \<open>Nodes and replicas\<close>

datatype node_body = LeafBody leaf_kind "nat text_crdt" | ElementBody "nat list"

record node_rec =
  nd_id :: tree_id
  nd_parent :: "tree_id option"
  nd_sort :: sort_pos
  nd_stamp :: tree_id
  nd_body :: node_body
  nd_tomb :: "tree_id option"
  nd_head :: tree_id

record tree_crdt =
  tr_peer :: int
  tr_counter :: int
  tr_nodes :: "(tree_id \<times> node_rec) list"
  tr_index :: "(tree_id \<times> tree_id list) list"
  tr_frontier :: tree_frontier
  tr_log :: "tree_op list"
  tr_buffered :: "tree_op list"

definition root_record :: node_rec where
  "root_record = \<lparr>nd_id = tree_root, nd_parent = None, nd_sort = SortKey [] 0, nd_stamp = tree_root,
     nd_body = ElementBody (map of_char ''root''), nd_tomb = None, nd_head = tree_root\<rparr>"

definition tree_new :: "int \<Rightarrow> tree_crdt" where
  "tree_new p = \<lparr>tr_peer = p, tr_counter = 0, tr_nodes = [(tree_root, root_record)], tr_index = [],
     tr_frontier = [], tr_log = [], tr_buffered = []\<rparr>"

definition bucket :: "(tree_id \<times> tree_id list) list \<Rightarrow> tree_id \<Rightarrow> tree_id list" where
  "bucket ix p = (case map_of ix p of Some b \<Rightarrow> b | None \<Rightarrow> [])"

definition index_add :: "(tree_id \<times> tree_id list) list \<Rightarrow> node_rec \<Rightarrow> (tree_id \<times> tree_id list) list" where
  "index_add ix r =
     (case nd_parent r of
        None \<Rightarrow> ix
      | Some p \<Rightarrow>
          if nd_id r \<in> set (bucket ix p) then ix
          else AList.update p (bucket ix p @ [nd_id r]) ix)"

definition node_at :: "tree_crdt \<Rightarrow> tree_id \<Rightarrow> node_rec option" where
  "node_at t i = map_of (tr_nodes t) i"

definition put_node :: "tree_crdt \<Rightarrow> tree_id \<Rightarrow> node_rec \<Rightarrow> tree_crdt" where
  "put_node t i r = t\<lparr>tr_nodes := AList.update i r (tr_nodes t)\<rparr>"

definition add_node :: "tree_crdt \<Rightarrow> tree_id \<Rightarrow> node_rec \<Rightarrow> tree_crdt" where
  "add_node t i r = (put_node t i r)\<lparr>tr_index := index_add (tr_index t) r\<rparr>"

text \<open>A fork clones the leaves' texts and rebuilds the index from the node map.\<close>

definition clone_body :: "node_body \<Rightarrow> node_body" where
  "clone_body b = (case b of LeafBody k x \<Rightarrow> LeafBody k (text_clone x) | ElementBody k \<Rightarrow> ElementBody k)"

definition tree_fork :: "tree_crdt \<Rightarrow> int \<Rightarrow> tree_crdt" where
  "tree_fork t p =
     (let nodes = map (\<lambda>(k, r). (k, r\<lparr>nd_body := clone_body (nd_body r)\<rparr>)) (tr_nodes t)
      in (tree_new p)\<lparr>tr_counter := tr_counter t, tr_nodes := nodes,
           tr_index := foldl index_add [] (map snd nodes),
           tr_frontier := tr_frontier t, tr_log := tr_log t, tr_buffered := tr_buffered t\<rparr>)"

definition next_op_id :: "tree_crdt \<Rightarrow> tree_crdt \<times> tree_id" where
  "next_op_id t = (t\<lparr>tr_counter := tr_counter t + 1\<rparr>, TreeOpId (tr_counter t + 1) (tr_peer t))"

section \<open>Reads\<close>

text \<open>A stable insertion sort under \<^verbatim>\<open>_SortableKey.__lt__\<close>, as \<^verbatim>\<open>list.sort\<close> is.\<close>

fun insert_by_sort :: "node_rec \<Rightarrow> node_rec list \<Rightarrow> node_rec list" where
  "insert_by_sort r [] = [r]"
| "insert_by_sort r (x # xs) = (if sort_lt (nd_sort x) (nd_sort r) then x # insert_by_sort r xs else r # x # xs)"

definition sort_nodes :: "node_rec list \<Rightarrow> node_rec list" where
  "sort_nodes rs = foldr insert_by_sort rs []"

definition live_children :: "tree_crdt \<Rightarrow> tree_id \<Rightarrow> tree_id list" where
  "live_children t p =
     map nd_id (sort_nodes (filter (\<lambda>r. nd_tomb r = None) (List.map_filter (node_at t) (bucket (tr_index t) p))))"

definition body_text :: "nat text_crdt \<Rightarrow> nat list" where
  "body_text x = snd (text_of x)"

text \<open>
  The recursive \<^verbatim>\<open>walk\<close> of \<^verbatim>\<open>render\<close>. A node's parent is in the map before the node, so the number
  of nodes is enough fuel (theory TreeProps).
\<close>

primrec walk :: "nat \<Rightarrow> tree_crdt \<Rightarrow> tree_id \<Rightarrow> nat list" where
  "walk 0 t i = []"
| "walk (Suc k) t i =
     (case node_at t i of
        None \<Rightarrow> []
      | Some r \<Rightarrow> (case nd_body r of
            LeafBody _ x \<Rightarrow> body_text x
          | ElementBody _ \<Rightarrow> concat (map (walk k t) (live_children t i))))"

definition render :: "tree_crdt \<Rightarrow> nat list" where
  "render t = walk (length (tr_nodes t)) t tree_root"

definition live_node_count :: "tree_crdt \<Rightarrow> nat" where
  "live_node_count t = length (filter (\<lambda>(k, r). k \<noteq> tree_root \<and> nd_tomb r = None) (tr_nodes t))"

definition element_kind :: "tree_crdt \<Rightarrow> tree_id \<Rightarrow> nat list option" where
  "element_kind t i = (case node_at t i of
     Some r \<Rightarrow> (case nd_body r of ElementBody k \<Rightarrow> Some k | LeafBody _ _ \<Rightarrow> None) | None \<Rightarrow> None)"

definition leaf_kind_of :: "tree_crdt \<Rightarrow> tree_id \<Rightarrow> leaf_kind option" where
  "leaf_kind_of t i = (case node_at t i of
     Some r \<Rightarrow> (case nd_body r of LeafBody k _ \<Rightarrow> Some k | ElementBody _ \<Rightarrow> None) | None \<Rightarrow> None)"

definition leaf_text :: "tree_crdt \<Rightarrow> tree_id \<Rightarrow> tree_error + nat list" where
  "leaf_text t i = (case node_at t i of
     None \<Rightarrow> Inl Node_not_found
   | Some r \<Rightarrow> (case nd_body r of LeafBody _ x \<Rightarrow> Inr (body_text x) | ElementBody _ \<Rightarrow> Inl Not_a_leaf))"

section \<open>Applying an operation\<close>

definition seed_body :: "int \<Rightarrow> node_seed \<Rightarrow> node_body" where
  "seed_body p s = (case s of SeedLeaf k x \<Rightarrow> LeafBody k (text_seed p x) | SeedElement k \<Rightarrow> ElementBody k)"

definition new_node :: "tree_id \<Rightarrow> tree_id \<Rightarrow> sort_pos \<Rightarrow> tree_id \<Rightarrow> node_body \<Rightarrow> tree_id \<Rightarrow> node_rec" where
  "new_node i p s stamp b h =
     \<lparr>nd_id = i, nd_parent = Some p, nd_sort = s, nd_stamp = stamp, nd_body = b, nd_tomb = None, nd_head = h\<rparr>"

definition bury :: "tree_id \<Rightarrow> node_rec \<Rightarrow> node_rec" where
  "bury i r = r\<lparr>nd_tomb := Some (case nd_tomb r of None \<Rightarrow> i | Some d \<Rightarrow> min_id d i)\<rparr>"

text \<open>The head of a split-off leaf is the default of the record's class, the id of the root.\<close>

definition apply_split :: "tree_crdt \<Rightarrow> tree_id \<Rightarrow> tree_id \<Rightarrow> sort_pos \<Rightarrow> int \<Rightarrow> tree_id \<Rightarrow> tree_crdt" where
  "apply_split t i new s at_char op_id =
     (case node_at t i of
        None \<Rightarrow> t
      | Some r \<Rightarrow> (case nd_body r of
            ElementBody _ \<Rightarrow> t
          | LeafBody k x \<Rightarrow>
              let txt = body_text x;
                  clamp = min at_char (int (length txt));
                  cut = (if clamp < 0 then max 0 (int (length txt) + clamp) else clamp);
                  head = take (nat cut) txt;
                  tail = drop (nat cut) txt;
                  t1 = put_node t i (r\<lparr>nd_body := LeafBody k (text_seed (t_peer i) head), nd_head := op_id\<rparr>)
              in (case nd_parent r of
                    None \<Rightarrow> t1
                  | Some p \<Rightarrow>
                      if node_at t1 new = None
                      then add_node t1 new (new_node new p s op_id (LeafBody k (text_seed (t_peer new) tail)) tree_root)
                      else t1)))"

definition apply_merge :: "tree_crdt \<Rightarrow> tree_id \<Rightarrow> tree_id \<Rightarrow> tree_id \<Rightarrow> tree_crdt" where
  "apply_merge t l r op_id =
     (case (node_at t l, node_at t r) of
        (Some lr, Some rr) \<Rightarrow>
          (case (nd_body lr, nd_body rr) of
             (LeafBody k x, LeafBody _ y) \<Rightarrow>
               let t1 = put_node t l (lr\<lparr>nd_body := LeafBody k (text_seed (t_peer l) (body_text x @ body_text y)),
                                         nd_head := op_id\<rparr>)
               in (case node_at t1 r of Some rr1 \<Rightarrow> put_node t1 r (bury op_id rr1) | None \<Rightarrow> t1)
           | _ \<Rightarrow> t)
      | _ \<Rightarrow> t)"

definition apply_op :: "tree_crdt \<Rightarrow> tree_op \<Rightarrow> tree_crdt" where
  "apply_op t x =
     (case op_kind x of
        CreateNode i p s seed \<Rightarrow>
          if node_at t i \<noteq> None then t
          else add_node t i (new_node i p s (op_at x) (seed_body (t_peer i) seed) (op_at x))
      | Tombstone i \<Rightarrow> (case node_at t i of None \<Rightarrow> t | Some r \<Rightarrow> put_node t i (bury (op_at x) r))
      | Reorder i s \<Rightarrow>
          (case node_at t i of None \<Rightarrow> t
           | Some r \<Rightarrow> if op_at x > nd_stamp r then put_node t i (r\<lparr>nd_sort := s, nd_stamp := op_at x\<rparr>) else t)
      | LeafEdit i _ ops \<Rightarrow>
          (case node_at t i of None \<Rightarrow> t
           | Some r \<Rightarrow> (case nd_body r of
                 LeafBody k y \<Rightarrow> put_node t i (r\<lparr>nd_body := LeafBody k (fst (apply_delta y ops)), nd_head := op_at x\<rparr>)
               | ElementBody _ \<Rightarrow> t))
      | SplitLeaf i new s at_char _ \<Rightarrow> apply_split t i new s at_char (op_at x)
      | MergeLeaves l r _ _ \<Rightarrow> apply_merge t l r (op_at x))"

definition record_op :: "tree_crdt \<Rightarrow> tree_op \<Rightarrow> tree_crdt" where
  "record_op t x = t\<lparr>tr_frontier := frontier_observe (tr_frontier t) (op_at x), tr_log := tr_log t @ [x]\<rparr>"

definition commit_local :: "tree_crdt \<Rightarrow> tree_op \<Rightarrow> tree_crdt" where
  "commit_local t x = record_op (apply_op t x) x"

section \<open>Local mutations\<close>

definition frac_of :: "tree_crdt \<Rightarrow> tree_id option \<Rightarrow> int list option" where
  "frac_of t i = (case i of None \<Rightarrow> None | Some j \<Rightarrow> map_option (\<lambda>r. sk_frac (nd_sort r)) (node_at t j))"

definition key_after :: "tree_crdt \<Rightarrow> tree_id \<Rightarrow> tree_id option \<Rightarrow> sort_pos" where
  "key_after t p after =
     (let order = live_children t p;
          (lo, hi) =
            (case after of
               None \<Rightarrow> (None, if order = [] then None else Some (hd order))
             | Some a \<Rightarrow> (case index_where (\<lambda>c. c = a) order of
                   Some ix \<Rightarrow> (Some a, if ix + 1 < length order then Some (order ! (ix + 1)) else None)
                 | None \<Rightarrow> (if order = [] then None else Some (last order), None)))
      in SortKey (key_between (frac_of t lo) (frac_of t hi)) (tr_peer t))"

definition create_node :: "tree_crdt \<Rightarrow> tree_id \<Rightarrow> tree_id option \<Rightarrow> node_seed \<Rightarrow> tree_error + (tree_crdt \<times> tree_id)" where
  "create_node t p after seed =
     (if node_at t p = None then Inl Node_not_found
      else let s = key_after t p after; (t1, i) = next_op_id t
           in Inr (commit_local t1 (TreeOp i (CreateNode i p s seed)), i))"

definition tombstone_node :: "tree_crdt \<Rightarrow> tree_id \<Rightarrow> tree_error + tree_crdt" where
  "tombstone_node t i =
     (if node_at t i = None \<or> i = tree_root then Inl Node_not_found
      else let (t1, op_id) = next_op_id t in Inr (commit_local t1 (TreeOp op_id (Tombstone i))))"

definition reorder_child :: "tree_crdt \<Rightarrow> tree_id \<Rightarrow> tree_id option \<Rightarrow> tree_error + tree_crdt" where
  "reorder_child t i after =
     (case node_at t i of
        None \<Rightarrow> Inl Node_not_found
      | Some r \<Rightarrow> (case nd_parent r of
            None \<Rightarrow> Inl Node_not_found
          | Some p \<Rightarrow>
              let s = key_after t p after; (t1, op_id) = next_op_id t
              in Inr (commit_local t1 (TreeOp op_id (Reorder i s)))))"

text \<open>The deletions of an edit, each at the same index.\<close>

primrec delete_run :: "nat \<Rightarrow> int \<Rightarrow> nat text_crdt \<Rightarrow> nat text_crdt" where
  "delete_run 0 ix x = x"
| "delete_run (Suc n) ix x = delete_run n ix (fst (text_delete x ix))"

definition edit_leaf :: "tree_crdt \<Rightarrow> tree_id \<Rightarrow> int \<Rightarrow> int \<Rightarrow> nat list \<Rightarrow> tree_error + tree_crdt" where
  "edit_leaf t i at_byte delete_bytes ins =
     (case leaf_text t i of
        Inl e \<Rightarrow> Inl e
      | Inr s \<Rightarrow>
          (case byte_to_char s at_byte of
             Inl e \<Rightarrow> Inl e
           | Inr start \<Rightarrow>
               (case byte_to_char s (at_byte + delete_bytes) of
                  Inl e \<Rightarrow> Inl e
                | Inr stop \<Rightarrow>
                    (case (start, stop, node_at t i) of
                       (Some a, Some b, Some r) \<Rightarrow>
                         (case nd_body r of
                            ElementBody _ \<Rightarrow> Inl Not_a_leaf
                          | LeafBody k x \<Rightarrow>
                              let x1 = text_fork x (tr_peer t);
                                  vv = version_vector x1;
                                  x2 = delete_run (b - a) (int a) x1;
                                  x3 = fst (text_insert_str x2 (int a) ins);
                                  ops = delta_since x3 vv;
                                  (t1, op_id) = next_op_id (put_node t i (r\<lparr>nd_body := LeafBody k x3\<rparr>))
                              in Inr (commit_local t1 (TreeOp op_id (LeafEdit i (nd_head r) ops))))
                     | _ \<Rightarrow> Inl Off_boundary))))"

definition split_leaf :: "tree_crdt \<Rightarrow> tree_id \<Rightarrow> int \<Rightarrow> tree_error + (tree_crdt \<times> tree_id)" where
  "split_leaf t i at_byte =
     (case leaf_text t i of
        Inl e \<Rightarrow> Inl e
      | Inr s \<Rightarrow>
          (case byte_to_char s at_byte of
             Inl e \<Rightarrow> Inl e
           | Inr None \<Rightarrow> Inl Off_boundary
           | Inr (Some at_char) \<Rightarrow>
               (case node_at t i of
                  None \<Rightarrow> Inl Node_not_found
                | Some r \<Rightarrow> (case nd_parent r of
                      None \<Rightarrow> Inl Node_not_found
                    | Some p \<Rightarrow>
                        let s = key_after t p (Some i); (t1, new) = next_op_id t
                        in Inr (commit_local t1 (TreeOp new (SplitLeaf i new s (int at_char) (nd_head r))), new)))))"

definition merge_adjacent_leaves :: "tree_crdt \<Rightarrow> tree_id \<Rightarrow> tree_id \<Rightarrow> tree_error + tree_crdt" where
  "merge_adjacent_leaves t l r =
     (case (leaf_text t l, leaf_text t r) of
        (Inl e, _) \<Rightarrow> Inl e
      | (_, Inl e) \<Rightarrow> Inl e
      | (Inr _, Inr _) \<Rightarrow>
          (case (node_at t l, node_at t r) of
             (Some lr, Some rr) \<Rightarrow>
               (case nd_parent lr of
                  None \<Rightarrow> Inl Node_not_found
                | Some p \<Rightarrow>
                    let order = live_children t p;
                        adjacent = (case index_where (\<lambda>c. c = l) order of
                            None \<Rightarrow> False
                          | Some ix \<Rightarrow> ix + 1 < length order \<and> order ! (ix + 1) = r)
                    in if \<not> adjacent then Inl Not_adjacent
                       else let (t1, op_id) = next_op_id t
                            in Inr (commit_local t1 (TreeOp op_id (MergeLeaves l r (nd_head lr) (nd_head rr)))))
           | _ \<Rightarrow> Inl Node_not_found))"

section \<open>Exchange of operations\<close>

definition tree_diff :: "tree_crdt \<Rightarrow> tree_frontier \<Rightarrow> tree_op list" where
  "tree_diff t their = sort_key op_at (filter (\<lambda>x. \<not> frontier_contains their (op_at x)) (tr_log t))"

definition dependencies_ready :: "tree_crdt \<Rightarrow> tree_op \<Rightarrow> bool" where
  "dependencies_ready t x =
     (case op_kind x of
        CreateNode _ p _ _ \<Rightarrow> node_at t p \<noteq> None
      | Tombstone i \<Rightarrow> node_at t i \<noteq> None
      | Reorder i _ \<Rightarrow> node_at t i \<noteq> None
      | LeafEdit i prev _ \<Rightarrow> node_at t i \<noteq> None \<and> frontier_contains (tr_frontier t) prev
      | SplitLeaf i _ _ _ prev \<Rightarrow> node_at t i \<noteq> None \<and> frontier_contains (tr_frontier t) prev
      | MergeLeaves l r pl pr \<Rightarrow>
          node_at t l \<noteq> None \<and> node_at t r \<noteq> None \<and>
          frontier_contains (tr_frontier t) pl \<and> frontier_contains (tr_frontier t) pr)"

text \<open>One pass over the pending operations, and the passes until one makes no progress.\<close>

definition drain_step :: "tree_crdt \<times> bool \<Rightarrow> tree_op \<Rightarrow> tree_crdt \<times> bool" where
  "drain_step tp x =
     (let (t, progressed) = tp
      in if frontier_contains (tr_frontier t) (op_at x) then (t, progressed)
         else if dependencies_ready t x then (record_op (apply_op t x) x, True)
         else (t\<lparr>tr_buffered := tr_buffered t @ [x]\<rparr>, progressed))"

definition drain_pass :: "tree_crdt \<Rightarrow> tree_crdt \<times> bool" where
  "drain_pass t = foldl drain_step (t\<lparr>tr_buffered := []\<rparr>, False) (tr_buffered t)"

lemma buffered_apply [simp]: "tr_buffered (apply_op t x) = tr_buffered t"
  by (simp add: apply_op_def add_node_def put_node_def apply_split_def apply_merge_def Let_def
      split: tree_kind.split option.split node_body.split)

lemma buffered_record [simp]: "tr_buffered (record_op t x) = tr_buffered t"
  by (simp add: record_op_def)

lemma drain_fold_length:
  "length (tr_buffered (fst (foldl drain_step (t, b) xs))) \<le> length (tr_buffered t) + length xs \<and>
   (\<not> b \<and> snd (foldl drain_step (t, b) xs) \<longrightarrow>
     length (tr_buffered (fst (foldl drain_step (t, b) xs))) < length (tr_buffered t) + length xs)"
proof (induction xs arbitrary: t b)
  case (Cons x xs)
  obtain t' b' where s: "drain_step (t, b) x = (t', b')" by fastforce
  have "length (tr_buffered t') \<le> length (tr_buffered t) + 1"
    "\<not> b \<and> b' \<longrightarrow> length (tr_buffered t') \<le> length (tr_buffered t)"
    using s by (auto simp: drain_step_def split: if_splits)
  moreover have "foldl drain_step (t, b) (x # xs) = foldl drain_step (t', b') xs" by (simp add: s)
  ultimately show ?case using Cons.IH [of t' b'] by (cases b'; cases b) (simp_all, auto)
qed simp

lemma drain_pass_shrinks: "snd (drain_pass t) \<Longrightarrow> length (tr_buffered (fst (drain_pass t))) < length (tr_buffered t)"
  using drain_fold_length [of "t\<lparr>tr_buffered := []\<rparr>" False "tr_buffered t"] by (simp add: drain_pass_def)

function drain_buffered :: "tree_crdt \<Rightarrow> tree_crdt" where
  "drain_buffered t = (if snd (drain_pass t) then drain_buffered (fst (drain_pass t)) else fst (drain_pass t))"
  by pat_completeness auto

termination
  by (relation "measure (\<lambda>t. length (tr_buffered t))") (auto simp: drain_pass_shrinks)

declare drain_buffered.simps [simp del]

definition receive_op :: "tree_crdt \<Rightarrow> tree_op \<Rightarrow> tree_crdt" where
  "receive_op t x =
     (let t1 = (if t_counter (op_at x) > tr_counter t then t\<lparr>tr_counter := t_counter (op_at x)\<rparr> else t)
      in if frontier_contains (tr_frontier t1) (op_at x) then t1
         else t1\<lparr>tr_buffered := tr_buffered t1 @ [x]\<rparr>)"

definition apply_update :: "tree_crdt \<Rightarrow> tree_op list \<Rightarrow> tree_crdt" where
  "apply_update t ops = drain_buffered (foldl receive_op t ops)"

end
