(* ===== verification/TreeOrder.thy ===== *)
theory TreeOrder
  imports TreeCrdt
begin

text \<open>
  Facts on the parts of the lossless tree that know no nodes: the frontier contains exactly the
  observed dots and has one form for each set of dots; keys compare lexicographically and
  \<^verbatim>\<open>key_between\<close> is strictly between keys; the sort of siblings; byte offsets.
\<close>

section \<open>Frontier\<close>

lemma absorb_runs_contains:
  "absorb_runs c sp = (c', sp') \<Longrightarrow> c \<le> c' \<and> ((k \<le> c' \<or> k \<in> set sp') \<longleftrightarrow> (k \<le> c \<or> k \<in> set sp))"
proof (induction c sp rule: absorb_runs.induct)
  case (1 c sp)
  show ?case
  proof (cases "c + 1 \<in> set sp")
    case True
    then have "c + 1 \<le> c' \<and> ((k \<le> c' \<or> k \<in> set sp') \<longleftrightarrow> (k \<le> c + 1 \<or> k \<in> set (removeAll (c + 1) sp)))"
      using 1 by (subst (asm) (2) absorb_runs.simps) simp
    then show ?thesis using True by (cases "k = c + 1") auto
  next
    case False
    then show ?thesis using 1(2) by (subst (asm) absorb_runs.simps) simp
  qed
qed

text \<open>The normal form: what is sparse lies above the prefix with a hole below it.\<close>

definition range_ok :: "dot_range \<Rightarrow> bool" where
  "range_ok r \<longleftrightarrow> distinct (dr_sparse r) \<and> (\<forall>k\<in>set (dr_sparse r). dr_contiguous r + 1 < k)"

lemma absorb_runs_ok:
  "absorb_runs c sp = (c', sp') \<Longrightarrow> distinct sp \<Longrightarrow> \<forall>k\<in>set sp. c < k \<Longrightarrow>
    distinct sp' \<and> (\<forall>k\<in>set sp'. c' + 1 < k)"
proof (induction c sp rule: absorb_runs.induct)
  case (1 c sp)
  show ?case
  proof (cases "c + 1 \<in> set sp")
    case True
    moreover have "\<forall>k\<in>set (removeAll (c + 1) sp). c + 1 < k" using 1(4) by fastforce
    ultimately show ?thesis using 1 by (subst (asm) (2) absorb_runs.simps) (simp add: distinct_removeAll)
  next
    case False
    moreover have "\<forall>k\<in>set sp. c + 1 < k" using False 1(4) by (metis add1_zle_eq order_le_less)
    ultimately show ?thesis using 1(2,3) by (subst (asm) absorb_runs.simps) simp
  qed
qed

lemma range_observe_contains [simp]:
  "range_contains (range_observe r c) k \<longleftrightarrow> k = c \<or> range_contains r k"
proof (cases "c \<le> dr_contiguous r")
  case False
  obtain n sp where a: "absorb_runs (dr_contiguous r) (List.insert c (dr_sparse r)) = (n, sp)" by fastforce
  from absorb_runs_contains [OF a, of k] show ?thesis
    using False by (auto simp: range_observe_def range_contains_def a)
qed (auto simp: range_observe_def range_contains_def)

lemma range_observe_ok: "range_ok r \<Longrightarrow> range_ok (range_observe r c)"
proof (cases "c \<le> dr_contiguous r")
  case False
  assume r: "range_ok r"
  obtain n sp where a: "absorb_runs (dr_contiguous r) (List.insert c (dr_sparse r)) = (n, sp)" by fastforce
  have "\<forall>k\<in>set (List.insert c (dr_sparse r)). dr_contiguous r < k" using r False by (auto simp: range_ok_def)
  then show ?thesis using absorb_runs_ok [OF a] r False by (simp add: range_observe_def a range_ok_def)
qed (simp add: range_observe_def)

lemma range_new_contains [simp]: "range_contains range_new c \<longleftrightarrow> c \<le> 0"
  by (simp add: range_contains_def range_new_def)

lemma range_new_ok: "range_ok range_new"
  by (simp add: range_ok_def range_new_def)

lemma range_canonical:
  assumes r: "range_ok r" and s: "range_ok s" and eq: "\<And>k. range_contains r k \<longleftrightarrow> range_contains s k"
  shows "dr_contiguous r = dr_contiguous s \<and> set (dr_sparse r) = set (dr_sparse s)"
proof -
  have le: "dr_contiguous a \<le> dr_contiguous b"
    if ab: "range_ok b" "\<And>k. range_contains a k \<longleftrightarrow> range_contains b k" for a b
  proof (rule ccontr)
    assume "\<not> ?thesis"
    then have "range_contains a (dr_contiguous b + 1)" by (simp add: range_contains_def)
    then show False using ab by (auto simp: range_contains_def range_ok_def)
  qed
  have c: "dr_contiguous r = dr_contiguous s"
    using le [OF s eq] le [OF r eq [symmetric]] by simp
  have "k \<in> set (dr_sparse r) \<longleftrightarrow> k \<in> set (dr_sparse s)" for k
    using eq [of k] r s c unfolding range_contains_def range_ok_def by (metis less_add_one order.strict_trans not_le)
  then show ?thesis using c by blast
qed

lemma frontier_contains_observe [simp]:
  "0 < t_counter j \<Longrightarrow> frontier_contains (frontier_observe f i) j \<longleftrightarrow> j = i \<or> frontier_contains f j"
  by (cases j; cases i)
    (auto simp: frontier_contains_def frontier_observe_def update_conv' Let_def split: option.splits)

lemma frontier_contains_mono: "frontier_contains f j \<Longrightarrow> frontier_contains (frontier_observe f i) j"
  by (cases j; cases i)
    (auto simp: frontier_contains_def frontier_observe_def update_conv' Let_def split: option.splits)

lemma frontier_contains_self [simp]: "frontier_contains (frontier_observe f i) i"
  by (cases i) (simp add: frontier_contains_def frontier_observe_def update_conv' Let_def split: option.splits)

lemma frontier_observe_all:
  "0 < t_counter j \<Longrightarrow> frontier_contains (foldl frontier_observe f is) j \<longleftrightarrow> j \<in> set is \<or> frontier_contains f j"
  by (induction "is" arbitrary: f) auto

text \<open>The dot of the root is contained exactly when an operation of peer 0 is.\<close>

definition root_range_ok :: "tree_frontier \<Rightarrow> bool" where
  "root_range_ok f \<longleftrightarrow> (\<forall>r. map_of f 0 = Some r \<longrightarrow> 0 \<le> dr_contiguous r)"

lemma root_range_observe: "root_range_ok f \<Longrightarrow> root_range_ok (frontier_observe f i)"
proof -
  have "0 \<le> dr_contiguous (range_observe r c)" if "0 \<le> dr_contiguous r" for r c
    using that absorb_runs_contains [of "dr_contiguous r" "List.insert c (dr_sparse r)"]
    by (fastforce simp: range_observe_def split: prod.split)
  then show "root_range_ok f \<Longrightarrow> root_range_ok (frontier_observe f i)"
    by (auto simp: root_range_ok_def frontier_observe_def update_conv' Let_def range_new_def split: option.splits)
qed

lemma root_range_fold:
  "root_range_ok f \<Longrightarrow> root_range_ok (foldl frontier_observe f is) \<and>
    (map_of (foldl frontier_observe f is) 0 = None \<longleftrightarrow> map_of f 0 = None \<and> (\<forall>i\<in>set is. t_peer i \<noteq> 0))"
proof (induction "is" arbitrary: f)
  case (Cons i js)
  have "map_of (frontier_observe f i) 0 = None \<longleftrightarrow> map_of f 0 = None \<and> t_peer i \<noteq> 0"
    by (auto simp: frontier_observe_def update_conv' Let_def)
  then show ?case using Cons.IH [OF root_range_observe [OF Cons.prems], of i] by simp
qed simp

lemma root_range_contains: "root_range_ok f \<Longrightarrow> frontier_contains f tree_root \<longleftrightarrow> map_of f 0 \<noteq> None"
  by (auto simp: root_range_ok_def frontier_contains_def tree_root_def range_contains_def split: option.splits)

lemma frontier_contains_root:
  "frontier_contains (foldl frontier_observe [] is) tree_root \<longleftrightarrow> (\<exists>i\<in>set is. t_peer i = 0)"
  using root_range_fold [of "[]" "is"] root_range_contains by (auto simp: root_range_ok_def)

section \<open>Order of keys\<close>

lemma Nil_less_list [simp]: "[] < (xs :: int list) \<longleftrightarrow> xs \<noteq> []"
  by (cases xs) simp_all

lemma cmp_frac_lex: "cmp_frac a b = (if a < b then -1 else if b < a then 1 else 0)"
  by (induction a b rule: cmp_frac.induct) auto

lemma cmp_frac_zero [simp]: "cmp_frac a b = 0 \<longleftrightarrow> a = b"
  by (auto simp: cmp_frac_lex)

lemma sort_lt_iff: "sort_lt a b \<longleftrightarrow> sk_frac a < sk_frac b \<or> (sk_frac a = sk_frac b \<and> sk_peer a < sk_peer b)"
  by (auto simp: sort_lt_def cmp_sort_def cmp_frac_lex)

lemma sort_lt_linear: "sort_lt a b \<or> a = b \<or> sort_lt b a"
  by (cases a; cases b) (auto simp: sort_lt_iff)

lemma sort_lt_trans: "sort_lt a b \<Longrightarrow> sort_lt b c \<Longrightarrow> sort_lt a c"
  by (auto simp: sort_lt_iff)

lemma sort_lt_irrefl [simp]: "\<not> sort_lt a a"
  by (simp add: sort_lt_iff)

lemma sort_lt_asym: "sort_lt a b \<Longrightarrow> \<not> sort_lt b a"
  by (auto simp: sort_lt_iff)

lemma insert_by_sort_mset [simp]: "mset (insert_by_sort r xs) = add_mset r (mset xs)"
  by (induction xs) auto

lemma sort_nodes_mset [simp]: "mset (sort_nodes xs) = mset xs"
  by (induction xs) (simp_all add: sort_nodes_def)

lemma sort_nodes_set [simp]: "set (sort_nodes xs) = set xs"
  using sort_nodes_mset by (metis set_mset_mset)

lemma sort_nodes_length [simp]: "length (sort_nodes xs) = length xs"
  using sort_nodes_mset by (metis size_mset)

definition in_order :: "node_rec list \<Rightarrow> bool" where
  "in_order xs \<longleftrightarrow> sorted_wrt (\<lambda>a b. \<not> sort_lt (nd_sort b) (nd_sort a)) xs"

lemma insert_by_sort_set [simp]: "set (insert_by_sort r xs) = insert r (set xs)"
  by (induction xs) auto

lemma insert_by_sort_order: "in_order xs \<Longrightarrow> in_order (insert_by_sort r xs)"
proof (induction xs)
  case (Cons x xs)
  show ?case
  proof (cases "sort_lt (nd_sort x) (nd_sort r)")
    case True
    then show ?thesis using Cons by (auto simp: in_order_def dest: sort_lt_asym)
  next
    case False
    then have "\<not> sort_lt (nd_sort y) (nd_sort r)" if "y \<in> set xs" for y
      using that Cons.prems sort_lt_linear sort_lt_trans unfolding in_order_def by fastforce
    then show ?thesis using Cons.prems False by (auto simp: in_order_def)
  qed
qed (simp add: in_order_def)

lemma sort_nodes_order: "in_order (sort_nodes xs)"
  by (induction xs) (simp_all add: sort_nodes_def insert_by_sort_order, simp add: in_order_def)

lemma in_order_Cons: "in_order (x # xs) \<longleftrightarrow> (\<forall>y\<in>set xs. \<not> sort_lt (nd_sort y) (nd_sort x)) \<and> in_order xs"
  by (simp add: in_order_def)

text \<open>With distinct keys the order does not depend on how the list was built.\<close>

lemma in_order_unique:
  "in_order xs \<Longrightarrow> in_order ys \<Longrightarrow> mset xs = mset ys \<Longrightarrow> inj_on nd_sort (set xs) \<Longrightarrow> xs = ys"
proof (induction xs arbitrary: ys)
  case (Cons x xs)
  obtain y ys' where ys: "ys = y # ys'" using Cons.prems(3) by (cases ys) auto
  have "x = y"
  proof (rule ccontr)
    assume "x \<noteq> y"
    moreover have "x \<in> set ys" "y \<in> set (x # xs)" using Cons.prems(3) ys by (metis list.set_intros(1) mset_eq_setD)+
    ultimately have m: "x \<in> set ys'" "y \<in> set xs" using ys by auto
    then have "\<not> sort_lt (nd_sort x) (nd_sort y)" "\<not> sort_lt (nd_sort y) (nd_sort x)"
      using Cons.prems(1,2) by (auto simp: in_order_Cons ys)
    then have "nd_sort x = nd_sort y" using sort_lt_linear by blast
    then show False using Cons.prems(4) m(2) \<open>x \<noteq> y\<close> by (auto simp: inj_on_def)
  qed
  then show ?case using Cons.IH [of ys'] Cons.prems by (auto simp: in_order_Cons ys inj_on_def)
qed simp

lemma sort_nodes_unique:
  "mset xs = mset ys \<Longrightarrow> inj_on nd_sort (set xs) \<Longrightarrow> sort_nodes xs = sort_nodes ys"
  by (rule in_order_unique) (simp_all add: sort_nodes_order)

section \<open>Keys between keys\<close>

text \<open>The keys that occur: bytes, the last one not zero.\<close>

definition frac_ok :: "int list \<Rightarrow> bool" where
  "frac_ok f \<longleftrightarrow> f \<noteq> [] \<and> last f \<noteq> 0 \<and> (\<forall>b\<in>set f. 0 \<le> b \<and> b < 256)"

definition bytes_ok :: "int list \<Rightarrow> bool" where
  "bytes_ok f \<longleftrightarrow> (\<forall>b\<in>set f. 0 \<le> b \<and> b < 256)"

lemma frac_ok_append: "frac_ok s \<Longrightarrow> bytes_ok p \<Longrightarrow> frac_ok (p @ s)"
  by (auto simp: frac_ok_def bytes_ok_def)

lemma key_loop_result: "key_loop lo hi i (r @ s) = r @ key_loop lo hi i s"
proof (induction lo hi i s rule: key_loop.induct)
  case (1 lo hi i s)
  show ?case
    by (subst (1 2) key_loop.simps) (use 1 in \<open>simp add: Let_def\<close>)
qed

lemma key_loop_append: "key_loop lo hi i r = r @ key_loop lo hi i []"
  using key_loop_result [of lo hi i r "[]"] by simp

lemma less_append_ne: "s \<noteq> [] \<Longrightarrow> (l :: int list) < l @ s"
  by (induction l) simp_all

lemma same_prefix_less [simp]: "p @ x < p @ y \<longleftrightarrow> x < (y :: int list)"
  by (induction p) auto

lemma key_open_above:
  "bytes_ok l \<Longrightarrow> l < key_loop (Some l) None 0 [] \<and> frac_ok (key_loop (Some l) None 0 [])"
proof (induction l)
  case Nil
  then show ?case
    by (subst (1 2) key_loop.simps) (simp add: lo_at_def hi_at_def frac_ok_def)
next
  case (Cons a l)
  have a: "0 \<le> a" "a < 256" "bytes_ok l" using Cons.prems by (auto simp: bytes_ok_def)
  show ?case
  proof (cases "a < 255")
    case True
    then have "key_loop (Some (a # l)) None 0 [] = [(a + 256) div 2]"
      by (subst key_loop.simps) (simp add: lo_at_def hi_at_def)
    moreover have "a < (a + 256) div 2" "(a + 256) div 2 < 256" using True a by linarith+
    ultimately show ?thesis using a by (simp add: frac_ok_def)
  next
    case False
    then have "a = 255" using a by simp
    then have "key_loop (Some (a # l)) None 0 [] = a # key_loop (Some l) None 0 []"
      by (subst key_loop.simps) (simp add: lo_at_def hi_at_def lo_tail_def key_loop_append [of _ _ _ "[_]"])
    then show ?thesis using Cons.IH a by (auto simp: frac_ok_def)
  qed
qed

lemma key_loop_equal_prefix:
  assumes "i \<le> j" and "\<And>k. i \<le> k \<Longrightarrow> k < j \<Longrightarrow> lo_at lo k = hi_at hi k" and "lo_at lo j < hi_at hi j" and "j \<le> key_cap lo hi"
  shows "key_loop lo hi i [] = map (lo_at lo) [i..<j] @
    (if lo_at lo j + 1 < hi_at hi j then [(lo_at lo j + hi_at hi j) div 2]
     else lo_at lo j # key_loop (Some (lo_tail lo (j + 1))) None 0 [])"
  using assms
proof (induction "j - i" arbitrary: i)
  case 0
  then have "i = j" by simp
  then show ?case using 0 by (subst key_loop.simps) (simp add: Let_def key_loop_append [of _ _ _ "[_]"])
next
  case (Suc d)
  then have e: "lo_at lo i = hi_at hi i" "i < j" by auto
  then have "key_loop lo hi i [] = lo_at lo i # key_loop lo hi (i + 1) []"
    using Suc.prems by (subst key_loop.simps) (simp add: Let_def key_loop_append [of _ _ _ "[_]"])
  moreover have "[i..<j] = i # [i + 1..<j]" using e(2) by (simp add: upt_rec)
  ultimately show ?case using Suc.hyps(1) [of "i + 1"] Suc.hyps(2) Suc.prems e(2) by simp
qed

lemma first_difference:
  assumes "(l :: int list) < h" and "h \<noteq> []" "last h \<noteq> 0" "\<forall>b\<in>set h. 0 \<le> b"
  shows "\<exists>j < length h. (\<forall>k<j. lo_at (Some l) k = h ! k) \<and> lo_at (Some l) j < h ! j"
  using assms
proof (induction l arbitrary: h)
  case Nil
  let ?P = "\<lambda>j. j < length h \<and> h ! j \<noteq> 0"
  have "?P (length h - 1)" using Nil.prems by (simp add: last_conv_nth)
  then obtain j where j: "?P j" "\<forall>k<j. \<not> ?P k" using exists_least_iff [of ?P] by blast
  then have "0 < h ! j" using Nil.prems(4) by (metis nth_mem order_le_less)
  moreover have "h ! k = 0" if "k < j" for k using j that by auto
  ultimately show ?case using j(1) by (intro exI [of _ j]) (simp add: lo_at_def)
next
  case (Cons a l)
  obtain b h' where h: "h = b # h'" using Cons.prems(2) by (cases h) auto
  show ?case
  proof (cases "a = b")
    case True
    then have "l < h'" using Cons.prems(1) h by simp
    then have "h' \<noteq> []" by auto
    then obtain j where "j < length h'" "\<forall>k<j. lo_at (Some l) k = h' ! k" "lo_at (Some l) j < h' ! j"
      using Cons.IH [OF \<open>l < h'\<close>] Cons.prems h by auto
    then show ?thesis using True h
      by (intro exI [of _ "Suc j"]) (auto simp: lo_at_def less_Suc_eq_0_disj)
  next
    case False
    then have "a < b" using Cons.prems(1) h by simp
    then show ?thesis by (intro exI [of _ 0]) (simp add: h lo_at_def)
  qed
qed

lemma lo_at_take: "j \<le> length l \<Longrightarrow> map (lo_at (Some l)) [0..<j] = take j l"
  by (rule nth_equalityI) (auto simp: lo_at_def)

lemma key_between_some:
  assumes "l < h" and "bytes_ok l" and h: "frac_ok h"
  shows "l < key_loop (Some l) (Some h) 0 [] \<and> key_loop (Some l) (Some h) 0 [] < h \<and> frac_ok (key_loop (Some l) (Some h) 0 [])"
proof -
  obtain j where j: "j < length h" "\<forall>k<j. lo_at (Some l) k = h ! k" "lo_at (Some l) j < h ! j"
    using first_difference [OF assms(1)] h by (auto simp: frac_ok_def)
  let ?a = "lo_at (Some l) j" and ?t = "drop (Suc j) l"
  let ?s = "if ?a + 1 < h ! j then [(?a + h ! j) div 2] else ?a # key_loop (Some ?t) None 0 []"
  have r: "key_loop (Some l) (Some h) 0 [] = map (lo_at (Some l)) [0..<j] @ ?s"
    using key_loop_equal_prefix [of 0 j "Some l" "Some h"] j by (simp add: hi_at_def key_cap_def lo_tail_def)
  have p: "map (lo_at (Some l)) [0..<j] = take j h" using j by (intro nth_equalityI) auto
  have "bytes_ok ?t" using assms(2) by (auto simp: bytes_ok_def dest: in_set_dropD)
  from key_open_above [OF this] have o: "?t < key_loop (Some ?t) None 0 []" "frac_ok (key_loop (Some ?t) None 0 [])" by auto
  have b: "0 \<le> ?a" "h ! j < 256" using assms(2) h j(1) nth_mem by (auto simp: lo_at_def bytes_ok_def frac_ok_def)
  have "frac_ok ?s"
  proof (cases "?a + 1 < h ! j")
    case True
    then have "0 < (?a + h ! j) div 2" "(?a + h ! j) div 2 < 256" using b by linarith+
    then show ?thesis using True by (simp add: frac_ok_def)
  next
    case False
    then show ?thesis using o(2) b j(3) by (simp add: frac_ok_def)
  qed
  moreover have "bytes_ok (take j h)" using h by (auto simp: frac_ok_def bytes_ok_def dest: in_set_takeD)
  ultimately have "frac_ok (take j h @ ?s)" by (rule frac_ok_append)
  moreover have "?s < h ! j # drop (Suc j) h \<and> ?a # ?t < ?s"
  proof (cases "?a + 1 < h ! j")
    case True
    then have "(?a + h ! j) div 2 < h ! j" "?a < (?a + h ! j) div 2" by linarith+
    then show ?thesis using True by simp
  next
    case False
    then show ?thesis using o(1) j(3) by simp
  qed
  then have lt: "?s < h ! j # drop (Suc j) h" "?a # ?t < ?s" by blast+
  have "take j h @ ?s < take j h @ h ! j # drop (Suc j) h" by (simp only: same_prefix_less lt)
  then have "take j h @ ?s < h" unfolding id_take_nth_drop [OF j(1), symmetric] .
  moreover have "l < take j h @ ?s"
  proof (cases "j < length l")
    case True
    then have "take j h = take j l" using lo_at_take p by (metis less_imp_le)
    moreover have "l ! j = ?a" using True by (simp add: lo_at_def)
    moreover have "take j l @ ?a # ?t < take j l @ ?s" by (simp only: same_prefix_less lt)
    ultimately have "take j l @ l ! j # ?t < take j h @ ?s" by simp
    then show ?thesis unfolding id_take_nth_drop [OF True, symmetric] .
  next
    case False
    then have "take (length l) (map (lo_at (Some l)) [0..<j]) = l"
      using lo_at_take [of "length l" l] by (simp add: take_map)
    then have "l @ drop (length l) (take j h) = take j h" using p by (metis append_take_drop_id)
    moreover have "l < l @ (drop (length l) (take j h) @ ?s)" by (rule less_append_ne) simp
    ultimately show ?thesis by (metis append_assoc)
  qed
  ultimately show ?thesis by (simp only: r p)
qed

lemma key_loop_none: "key_loop None hi 0 [] = key_loop (Some []) hi 0 []"
proof -
  have "key_loop None hi i s = key_loop (Some []) hi i s" for i s
  proof (induction "Suc (key_cap None hi) - i" arbitrary: i s rule: less_induct)
    case less
    note unfold = key_loop.simps [of None hi i s] key_loop.simps [of "Some []" hi i s]
    have "lo_at None i = lo_at (Some []) i" "key_cap None hi = key_cap (Some []) hi" "lo_tail None (i + 1) = lo_tail (Some []) (i + 1)"
      by (simp_all add: lo_at_def key_cap_def lo_tail_def)
    moreover have "key_loop None hi (i + 1) u = key_loop (Some []) hi (i + 1) u" if "i \<le> key_cap None hi" for u
      using that by (intro less) simp
    ultimately show ?case unfolding unfold by (simp add: Let_def)
  qed
  then show ?thesis .
qed

text \<open>Strictly between two keys, above a lower one, below an upper one; and of the same form again.\<close>

lemma key_between_strict:
  assumes "\<And>l. lo = Some l \<Longrightarrow> frac_ok l" and "\<And>h. hi = Some h \<Longrightarrow> frac_ok h"
    and "\<And>l h. lo = Some l \<Longrightarrow> hi = Some h \<Longrightarrow> l < h"
  shows "(\<forall>l. lo = Some l \<longrightarrow> l < key_between lo hi) \<and> (\<forall>h. hi = Some h \<longrightarrow> key_between lo hi < h) \<and>
    frac_ok (key_between lo hi)"
proof -
  define l where "l = (case lo of None \<Rightarrow> [] | Some l \<Rightarrow> l)"
  have k: "key_between lo hi = key_loop (Some l) hi 0 []"
    by (cases lo) (simp_all add: key_between_def key_loop_none l_def)
  have l: "bytes_ok l" using assms(1) by (cases lo) (auto simp: l_def bytes_ok_def frac_ok_def)
  show ?thesis
  proof (cases hi)
    case None
    then show ?thesis using key_open_above [OF l] k by (auto simp: l_def)
  next
    case (Some h)
    then have h: "frac_ok h" using assms(2) by blast
    then have "[] < h" by (cases h) (auto simp: frac_ok_def)
    then have "l < h" using assms(3) Some by (cases lo) (auto simp: l_def)
    from key_between_some [OF this l h] show ?thesis using Some k by (auto simp: l_def)
  qed
qed

section \<open>Byte offsets\<close>

text \<open>Encoding to UTF-8, the offsets of the characters.\<close>

definition byte_len :: "nat list \<Rightarrow> nat" where
  "byte_len s = length (concat (map utf8_char s))"

lemma utf8_prefix:
  "list_all code_point s \<Longrightarrow> utf8_encode cs = Some (take n (concat (map utf8_char s))) \<Longrightarrow>
    \<exists>m \<le> length s. cs = take m s"
proof (induction s arbitrary: cs n)
  case Nil
  then have "concat (map utf8_char cs) = []" by (auto simp: utf8_encode_def split: if_splits)
  then have "cs = []" using utf8_char_length by (cases cs) (fastforce simp: Suc_le_eq)+
  then show ?case by simp
next
  case (Cons c s)
  show ?case
  proof (cases cs)
    case (Cons d ds)
    then have d: "code_point d" "list_all code_point ds"
      "utf8_char d @ concat (map utf8_char ds) = take n (utf8_char c @ concat (map utf8_char s))"
      using Cons.prems by (auto simp: utf8_encode_def split: if_splits)
    have "utf8_next (take n (utf8_char c @ concat (map utf8_char s)) @ drop n (utf8_char c @ concat (map utf8_char s))) =
        Some (c, concat (map utf8_char s))"
      unfolding append_take_drop_id using Cons.prems(1) by (intro utf8_next_char) simp
    moreover have "utf8_next (take n (utf8_char c @ concat (map utf8_char s)) @ drop n (utf8_char c @ concat (map utf8_char s))) =
        Some (d, concat (map utf8_char ds) @ drop n (utf8_char c @ concat (map utf8_char s)))"
      using utf8_next_char [OF d(1)] unfolding d(3) [symmetric] by simp
    ultimately have "d = c" by simp
    then have "concat (map utf8_char ds) = drop (length (utf8_char c)) (take n (utf8_char c @ concat (map utf8_char s)))"
      using d(3) by (metis append_eq_conv_conj)
    also have "\<dots> = take (n - length (utf8_char c)) (concat (map utf8_char s))" by (subst drop_take) simp
    finally have "utf8_encode ds = Some (take (n - length (utf8_char c)) (concat (map utf8_char s)))"
      using d(2) by (simp add: utf8_encode_def)
    then obtain m where "m \<le> length s" "ds = take m s" using Cons.IH Cons.prems(1) by auto
    then show ?thesis using Cons \<open>d = c\<close> by (intro exI [of _ "Suc m"]) simp
  qed (auto intro: exI [of _ 0])
qed

lemma byte_len_take_mono: "m < n \<Longrightarrow> n \<le> length s \<Longrightarrow> byte_len (take m s) < byte_len (take n s)"
proof -
  assume mn: "m < n" "n \<le> length s"
  then have "take n s = take m s @ drop m (take n s)" by (metis append_take_drop_id less_imp_le min.absorb1 take_take)
  moreover obtain c r where "drop m (take n s) = c # r" using mn by (cases "drop m (take n s)") auto
  moreover have "0 < length (utf8_char c)" using utf8_char_length [of c] by linarith
  ultimately show ?thesis by (metis byte_len_def append.assoc concat.simps(2) concat_append length_append list.simps(9) map_append add_less_cancel_left less_add_same_cancel1 trans_less_add1)
qed

text \<open>The offsets that are accepted are the ends of the text's prefixes.\<close>

lemma byte_to_char_exact:
  assumes "list_all code_point s"
  shows "byte_to_char s off = Inr (Some n) \<longleftrightarrow> n \<le> length s \<and> off = int (byte_len (take n s))"
proof
  assume "byte_to_char s off = Inr (Some n)"
  then obtain cs where cs: "utf8_decode (take (nat off) (concat (map utf8_char s))) = Some cs" "length cs = n"
    "0 \<le> off" "off \<le> int (byte_len s)"
    using assms by (auto simp: byte_to_char_def utf8_encode_def byte_len_def split: if_splits option.splits)
  from utf8_decode_encode [OF cs(1)] have e: "utf8_encode cs = Some (take (nat off) (concat (map utf8_char s)))" .
  with utf8_prefix [OF assms] obtain m where m: "m \<le> length s" "cs = take m s" by blast
  have "byte_len cs = nat off" using e cs(3,4) by (auto simp: utf8_encode_def byte_len_def split: if_splits)
  then show "n \<le> length s \<and> off = int (byte_len (take n s))" using m cs(2,3) by auto
next
  assume n: "n \<le> length s \<and> off = int (byte_len (take n s))"
  have s: "concat (map utf8_char s) = concat (map utf8_char (take n s)) @ concat (map utf8_char (drop n s))"
    by (metis append_take_drop_id concat_append map_append)
  then have "take (nat off) (concat (map utf8_char s)) = concat (map utf8_char (take n s))" using n by (simp add: byte_len_def)
  moreover have "utf8_encode (take n s) = Some (concat (map utf8_char (take n s)))"
    using assms by (auto simp: utf8_encode_def list_all_iff dest: in_set_takeD)
  ultimately have "utf8_decode (take (nat off) (concat (map utf8_char s))) = Some (take n s)" by (simp add: utf8_roundtrip)
  moreover have "off \<le> int (length (concat (map utf8_char s)))" using n s by (simp add: byte_len_def)
  ultimately show "byte_to_char s off = Inr (Some n)"
    using assms n by (simp add: byte_to_char_def utf8_encode_def byte_len_def)
qed

text \<open>The same by the widths of the characters alone, which decodes nothing.\<close>

definition utf8_width :: "nat \<Rightarrow> nat" where
  "utf8_width c = (if int c < 128 then 1 else if int c < 2048 then 2 else if int c < 65536 then 3 else 4)"

fun char_at :: "nat list \<Rightarrow> nat \<Rightarrow> nat option" where
  "char_at s 0 = Some 0"
| "char_at [] (Suc n) = None"
| "char_at (c # s) (Suc n) = (if Suc n < utf8_width c then None else map_option Suc (char_at s (Suc n - utf8_width c)))"

lemma byte_len_simps [simp]: "byte_len [] = 0" "byte_len (c # s) = utf8_width c + byte_len s"
  by (auto simp: byte_len_def utf8_char_def utf8_width_def)

lemma utf8_width_pos: "0 < utf8_width c"
  by (simp add: utf8_width_def)

lemma char_at_exact: "char_at s off = Some n \<longleftrightarrow> n \<le> length s \<and> off = byte_len (take n s)"
proof (induction s off arbitrary: n rule: char_at.induct)
  case (1 s)
  have "byte_len (take n s) = 0 \<longleftrightarrow> n = 0" if "n \<le> length s"
    using that utf8_width_pos by (cases n; cases s) auto
  then show ?case by auto
next
  case (3 c s m)
  show ?case
  proof (cases "Suc m < utf8_width c")
    case True
    then have "Suc m \<noteq> byte_len (take n (c # s))" by (cases n) auto
    then show ?thesis using True by simp
  next
    case False
    show ?thesis
    proof (cases n)
      case (Suc k)
      have "Suc m - utf8_width c = byte_len (take k s) \<longleftrightarrow> Suc m = utf8_width c + byte_len (take k s)" using False by linarith
      then show ?thesis using 3 [OF False, of k] False Suc by simp
    qed (use False in simp)
  qed
qed (auto simp: take_Cons')

lemma byte_to_char_widths:
  "byte_to_char s off = (if off < 0 then Inr None else if list_all code_point s then Inr (char_at s (nat off)) else Inl Unencodable_text)"
proof (cases "off < 0 \<or> \<not> list_all code_point s")
  case True
  then show ?thesis by (auto simp: byte_to_char_def utf8_encode_def)
next
  case False
  then obtain r where r: "byte_to_char s off = Inr r"
    by (cases "byte_to_char s off") (auto simp: byte_to_char_def utf8_encode_def split: option.splits if_splits)
  have "r = Some n \<longleftrightarrow> char_at s (nat off) = Some n" for n
    using byte_to_char_exact [of s off n] char_at_exact [of s "nat off" n] False r by auto
  then have "r = char_at s (nat off)" by (metis not_Some_eq)
  then show ?thesis using False r by simp
qed

lemma code_point_int [code]: "code_point c \<longleftrightarrow> int c < 1114112 \<and> \<not> (55296 \<le> int c \<and> int c < 57344)"
  by (auto simp: code_point_def)

declare byte_to_char_widths [code]

end
