(* ===== verification/TreeNet.thy ===== *)
theory TreeNet
  imports TreeOrder
begin

text \<open>
  The invariants of tree replicas that edit, exchange operations in any order, with loss and
  repetition, and fork: the node map and the children index agree, every node comes after its
  parent, the frontier is the set of the log's ids, the log is in an order that respects the
  dependencies. From them: an exchange brings every missing operation.
\<close>

section \<open>The node map and its index\<close>

definition parents_first :: "(tree_id \<times> node_rec) list \<Rightarrow> bool" where
  "parents_first ns \<longleftrightarrow> (\<forall>xs k r ys. ns = xs @ (k, r) # ys \<longrightarrow> (\<forall>p. nd_parent r = Some p \<longrightarrow> p \<in> fst ` set xs))"

text \<open>The part of a node that no operation changes.\<close>

definition body_kind :: "node_body \<Rightarrow> leaf_kind + nat list" where
  "body_kind b = (case b of LeafBody k _ \<Rightarrow> Inl k | ElementBody k \<Rightarrow> Inr k)"

lemma body_kind_simps [simp]: "body_kind (LeafBody k x) = Inl k" "body_kind (ElementBody e) = Inr e"
  by (simp_all add: body_kind_def)

definition node_shape :: "node_rec \<Rightarrow> tree_id \<times> tree_id option \<times> (leaf_kind + nat list)" where
  "node_shape r = (nd_id r, nd_parent r, body_kind (nd_body r))"

definition nodes_ok :: "tree_crdt \<Rightarrow> bool" where
  "nodes_ok t \<longleftrightarrow>
     distinct (map fst (tr_nodes t)) \<and> (\<forall>i r. node_at t i = Some r \<longrightarrow> nd_id r = i) \<and> parents_first (tr_nodes t) \<and>
     (\<exists>r k. node_at t tree_root = Some r \<and> nd_parent r = None \<and> body_kind (nd_body r) = Inr k) \<and>
     (\<forall>i r. node_at t i = Some r \<and> i \<noteq> tree_root \<longrightarrow> nd_parent r \<noteq> None) \<and>
     (\<forall>p. distinct (bucket (tr_index t) p) \<and>
       (\<forall>i. i \<in> set (bucket (tr_index t) p) \<longleftrightarrow> (\<exists>r. node_at t i = Some r \<and> nd_parent r = Some p)))"

lemma update_old:
  "distinct (map fst l) \<Longrightarrow> map_of l k = Some v \<Longrightarrow>
    \<exists>xs ys. l = xs @ (k, v) # ys \<and> AList.update k w l = xs @ (k, w) # ys"
proof (induction l)
  case (Cons a l)
  show ?case
  proof (cases "fst a = k")
    case True
    then have "a # l = [] @ (k, v) # l \<and> AList.update k w (a # l) = [] @ (k, w) # l"
      using Cons.prems by (cases a) auto
    then show ?thesis by blast
  next
    case False
    then obtain xs ys where "l = xs @ (k, v) # ys" "AList.update k w l = xs @ (k, w) # ys"
      using Cons.IH Cons.prems by (cases a) auto
    then have "a # l = (a # xs) @ (k, v) # ys \<and> AList.update k w (a # l) = (a # xs) @ (k, w) # ys"
      using False by (cases a) auto
    then show ?thesis by blast
  qed
qed simp

lemma update_new: "map_of l k = None \<Longrightarrow> AList.update k w l = l @ [(k, w)]"
  by (induction l) (auto split: if_splits)

lemma parents_first_snoc:
  "parents_first ns \<Longrightarrow> (\<And>p. nd_parent r = Some p \<Longrightarrow> p \<in> fst ` set ns) \<Longrightarrow> parents_first (ns @ [(k, r)])"
  unfolding parents_first_def
proof (intro allI impI)
  fix xs k' r' ys p
  assume ns: "\<forall>xs k r ys. ns = xs @ (k, r) # ys \<longrightarrow> (\<forall>p. nd_parent r = Some p \<longrightarrow> p \<in> fst ` set xs)"
    and r: "\<And>p. nd_parent r = Some p \<Longrightarrow> p \<in> fst ` set ns"
    and e: "ns @ [(k, r)] = xs @ (k', r') # ys" and p: "nd_parent r' = Some p"
  show "p \<in> fst ` set xs"
  proof (cases ys rule: rev_cases)
    case Nil
    then show ?thesis using e r p by simp
  next
    case (snoc zs z)
    then have "ns = xs @ (k', r') # zs" using e by simp
    then show ?thesis using ns p by blast
  qed
qed

lemma parents_first_replace:
  assumes "parents_first (xs @ (k, r) # ys)" and "nd_parent r' = nd_parent r"
  shows "parents_first (xs @ (k, r') # ys)"
  unfolding parents_first_def
proof (intro allI impI)
  fix as j s bs p
  assume e: "xs @ (k, r') # ys = as @ (j, s) # bs" and p: "nd_parent s = Some p"
  let ?f = "\<lambda>l. map (\<lambda>(i, x). if i = k \<and> x = r' then (i, r) else (i, x)) l"
  obtain as' s' bs' where "xs @ (k, r) # ys = as' @ (j, s') # bs'" "fst ` set as' = fst ` set as" "nd_parent s' = nd_parent s"
  proof -
    consider us where "xs = as @ us" "us @ (k, r') # ys = (j, s) # bs" | us where "xs @ us = as" "(k, r') # ys = us @ (j, s) # bs"
      using e by (auto simp: append_eq_append_conv2)
    then show ?thesis
    proof cases
      case 1
      show ?thesis
      proof (cases us)
        case Nil
        then show ?thesis using 1 assms(2) by (intro that [of as r bs]) auto
      next
        case (Cons u vs)
        then show ?thesis using 1 by (intro that [of as s "vs @ (k, r) # ys"]) auto
      qed
    next
      case 2
      show ?thesis
      proof (cases us)
        case Nil
        then show ?thesis using 2 assms(2) by (intro that [of xs r ys]) auto
      next
        case (Cons u vs)
        then show ?thesis using 2 by (intro that [of "xs @ (k, r) # vs" s bs]) auto
      qed
    qed
  qed
  then show "p \<in> fst ` set as" using assms(1) p unfolding parents_first_def by metis
qed

lemma node_at_put [simp]: "node_at (put_node t i r) j = (if j = i then Some r else node_at t j)"
  by (simp add: node_at_def put_node_def update_conv')

lemma node_at_add [simp]: "node_at (add_node t i r) j = (if j = i then Some r else node_at t j)"
  by (simp add: node_at_def add_node_def put_node_def update_conv')

lemma index_put [simp]: "tr_index (put_node t i r) = tr_index t"
  by (simp add: put_node_def)

lemma bucket_index_add:
  "bucket (index_add ix r) p =
    (if nd_parent r = Some p \<and> nd_id r \<notin> set (bucket ix p) then bucket ix p @ [nd_id r] else bucket ix p)"
  by (auto simp: index_add_def bucket_def update_conv' split: option.splits)

lemma nodes_ok_put:
  assumes ok: "nodes_ok t" and r: "node_at t i = Some r" and s: "node_shape r' = node_shape r"
  shows "nodes_ok (put_node t i r')"
proof -
  have sh: "nd_id r' = nd_id r" "nd_parent r' = nd_parent r" "body_kind (nd_body r') = body_kind (nd_body r)"
    using s by (auto simp: node_shape_def)
  obtain xs ys where l: "tr_nodes t = xs @ (i, r) # ys" "AList.update i r' (tr_nodes t) = xs @ (i, r') # ys"
    using update_old [of "tr_nodes t" i r r'] ok r by (auto simp: nodes_ok_def node_at_def)
  have n: "tr_nodes (put_node t i r') = xs @ (i, r') # ys" using l by (simp add: put_node_def)
  have "parents_first (tr_nodes (put_node t i r'))"
    using parents_first_replace [of xs i r ys r'] ok l sh by (simp add: nodes_ok_def n)
  moreover have "distinct (map fst (tr_nodes (put_node t i r')))" using ok by (simp add: nodes_ok_def n l)
  moreover have "\<exists>r k. node_at (put_node t i r') tree_root = Some r \<and> nd_parent r = None \<and> body_kind (nd_body r) = Inr k"
    using ok r sh by (auto simp: nodes_ok_def)
  moreover have "(\<exists>q. node_at (put_node t i r') j = Some q \<and> nd_parent q = Some p) \<longleftrightarrow>
      (\<exists>q. node_at t j = Some q \<and> nd_parent q = Some p)" for j p
    using r sh by auto
  then have "\<forall>p. distinct (bucket (tr_index (put_node t i r')) p) \<and>
      (\<forall>j. j \<in> set (bucket (tr_index (put_node t i r')) p) \<longleftrightarrow>
        (\<exists>q. node_at (put_node t i r') j = Some q \<and> nd_parent q = Some p))"
    using ok unfolding nodes_ok_def index_put by blast
  moreover have "\<forall>j q. node_at (put_node t i r') j = Some q \<longrightarrow> nd_id q = j" using ok r sh by (auto simp: nodes_ok_def)
  moreover have "\<forall>j q. node_at (put_node t i r') j = Some q \<and> j \<noteq> tree_root \<longrightarrow> nd_parent q \<noteq> None"
    using ok r sh by (auto simp: nodes_ok_def)
  ultimately show ?thesis unfolding nodes_ok_def by blast
qed

lemma nodes_ok_add:
  assumes ok: "nodes_ok t" and "node_at t i = None" and r: "nd_id r = i" "nd_parent r = Some p" and p: "node_at t p \<noteq> None"
  shows "nodes_ok (add_node t i r)"
proof -
  have n: "tr_nodes (add_node t i r) = tr_nodes t @ [(i, r)]"
    using assms(2) by (simp add: add_node_def put_node_def node_at_def update_new)
  have ix: "tr_index (add_node t i r) = index_add (tr_index t) r" by (simp add: add_node_def)
  have i: "i \<notin> set (map fst (tr_nodes t))" using assms(2) by (auto simp: node_at_def map_of_eq_None_iff)
  have dom: "j \<in> fst ` set (tr_nodes t) \<longleftrightarrow> node_at t j \<noteq> None" for j
    by (metis node_at_def map_of_eq_None_iff)
  have "parents_first (tr_nodes (add_node t i r))"
    unfolding n using ok r p dom by (intro parents_first_snoc) (auto simp: nodes_ok_def)
  moreover have "distinct (map fst (tr_nodes (add_node t i r)))" using ok i by (simp add: nodes_ok_def n)
  moreover have "i \<noteq> tree_root" using ok assms(2) by (auto simp: nodes_ok_def)
  moreover have "i \<notin> set (bucket (tr_index t) q)" for q using ok assms(2) by (auto simp: nodes_ok_def)
  ultimately show ?thesis
    using ok r assms(2) unfolding nodes_ok_def ix
    by (simp add: bucket_index_add)
qed

section \<open>What applying an operation does to the nodes\<close>

text \<open>A sequence of record updates that keep the node's shape and of additions below a present parent.\<close>

inductive tree_edits :: "tree_crdt \<Rightarrow> tree_crdt \<Rightarrow> bool" where
  edits_none: "tree_edits t t"
| edits_put: "tree_edits t u \<Longrightarrow> node_at u i = Some r \<Longrightarrow> node_shape r' = node_shape r \<Longrightarrow> tree_edits t (put_node u i r')"
| edits_add: "tree_edits t u \<Longrightarrow> node_at u i = None \<Longrightarrow> nd_id r = i \<Longrightarrow> nd_parent r = Some p \<Longrightarrow> node_at u p \<noteq> None \<Longrightarrow>
    tree_edits t (add_node u i r)"

lemma tree_edits_ok: "tree_edits t u \<Longrightarrow> nodes_ok t \<Longrightarrow> nodes_ok u"
  by (induction rule: tree_edits.induct) (auto intro: nodes_ok_put nodes_ok_add)

lemma tree_edits_rest:
  "tree_edits t u \<Longrightarrow> tr_peer u = tr_peer t \<and> tr_counter u = tr_counter t \<and> tr_frontier u = tr_frontier t \<and>
    tr_log u = tr_log t \<and> tr_buffered u = tr_buffered t"
  by (induction rule: tree_edits.induct) (auto simp: put_node_def add_node_def)

lemma tree_edits_shape: "tree_edits t u \<Longrightarrow> node_at t i = Some r \<Longrightarrow> \<exists>r'. node_at u i = Some r' \<and> node_shape r' = node_shape r"
  by (induction rule: tree_edits.induct) auto

text \<open>The nodes and the heads an operation depends on.\<close>

definition node_deps :: "tree_op \<Rightarrow> tree_id list" where
  "node_deps x = (case op_kind x of CreateNode _ p _ _ \<Rightarrow> [p] | Tombstone i \<Rightarrow> [i] | Reorder i _ \<Rightarrow> [i]
     | LeafEdit i _ _ \<Rightarrow> [i] | SplitLeaf i _ _ _ _ \<Rightarrow> [i] | MergeLeaves l r _ _ \<Rightarrow> [l, r])"

definition head_deps :: "tree_op \<Rightarrow> tree_id list" where
  "head_deps x = (case op_kind x of LeafEdit _ h _ \<Rightarrow> [h] | SplitLeaf _ _ _ _ h \<Rightarrow> [h]
     | MergeLeaves _ _ hl hr \<Rightarrow> [hl, hr] | _ \<Rightarrow> [])"

lemma dependencies_ready_deps:
  "dependencies_ready t x \<longleftrightarrow>
    (\<forall>i\<in>set (node_deps x). node_at t i \<noteq> None) \<and> (\<forall>h\<in>set (head_deps x). frontier_contains (tr_frontier t) h)"
  by (simp add: dependencies_ready_def node_deps_def head_deps_def split: tree_kind.split)

text \<open>The node an operation adds.\<close>

definition target_leaf :: "tree_crdt \<Rightarrow> tree_id \<Rightarrow> bool" where
  "target_leaf t i \<longleftrightarrow> (\<exists>r k p. node_at t i = Some r \<and> body_kind (nd_body r) = Inl k \<and> nd_parent r = Some p)"

definition adds_node :: "tree_crdt \<Rightarrow> tree_op \<Rightarrow> tree_id option" where
  "adds_node t x = (case op_kind x of
      CreateNode i _ _ _ \<Rightarrow> Some i
    | SplitLeaf i new _ _ _ \<Rightarrow> (if target_leaf t i then Some new else None)
    | _ \<Rightarrow> None)"

lemma parent_present: "nodes_ok t \<Longrightarrow> node_at t i = Some r \<Longrightarrow> nd_parent r = Some p \<Longrightarrow> node_at t p \<noteq> None"
proof -
  assume ok: "nodes_ok t" and r: "node_at t i = Some r" "nd_parent r = Some p"
  obtain xs ys where "tr_nodes t = xs @ (i, r) # ys"
    using r(1) by (metis map_of_SomeD node_at_def split_list)
  then have "p \<in> fst ` set (tr_nodes t)" using ok r(2) unfolding nodes_ok_def parents_first_def by (metis UnI1 image_Un set_append)
  then show "node_at t p \<noteq> None" by (simp add: node_at_def map_of_eq_None_iff)
qed

lemma apply_split_edits:
  assumes ok: "nodes_ok t" and i: "node_at t i \<noteq> None"
  shows "tree_edits t (apply_split t i new s c op_id)"
proof -
  obtain r where r: "node_at t i = Some r" using i by auto
  show ?thesis
  proof (cases "nd_body r")
    case (LeafBody k x)
    define head where "head = LeafBody k (text_seed (t_peer i) (take (nat (if min c (int (length (body_text x))) < 0
      then max 0 (int (length (body_text x)) + min c (int (length (body_text x)))) else min c (int (length (body_text x))))) (body_text x)))"
    let ?t1 = "put_node t i (r\<lparr>nd_body := head, nd_head := op_id\<rparr>)"
    have e: "tree_edits t ?t1"
      by (rule edits_put [OF edits_none r]) (simp add: node_shape_def LeafBody head_def)
    have a: "tree_edits t (add_node ?t1 new (new_node new p s op_id b tree_root))" if "nd_parent r = Some p" "node_at ?t1 new = None" for p b
      using e that(2) parent_present [OF ok r that(1)]
      by (intro edits_add [OF e that(2), of _ p]) (simp_all add: new_node_def)
    show ?thesis
      unfolding apply_split_def r LeafBody option.case node_body.case Let_def head_def [symmetric]
      by (cases "nd_parent r") (use e a in \<open>simp_all del: node_at_put\<close>)
  qed (simp add: apply_split_def r edits_none)
qed

lemma apply_merge_edits: "tree_edits t (apply_merge t l r op_id)"
proof (cases "node_at t l = None \<or> node_at t r = None")
  case False
  then obtain lr rr where n: "node_at t l = Some lr" "node_at t r = Some rr" by auto
  show ?thesis
  proof (cases "\<exists>k x k' y. nd_body lr = LeafBody k x \<and> nd_body rr = LeafBody k' y")
    case True
    then obtain k x k' y where b: "nd_body lr = LeafBody k x" "nd_body rr = LeafBody k' y" by blast
    let ?lr = "lr\<lparr>nd_body := LeafBody k (text_seed (t_peer l) (body_text x @ body_text y)), nd_head := op_id\<rparr>"
    have e: "tree_edits t (put_node t l ?lr)"
      by (rule edits_put [OF edits_none n(1)]) (simp add: node_shape_def b)
    obtain q where q: "node_at (put_node t l ?lr) r = Some q" using n by (cases "r = l") auto
    have "tree_edits t (put_node (put_node t l ?lr) r (bury op_id q))"
      by (rule edits_put [OF e q]) (simp add: node_shape_def bury_def)
    then show ?thesis using q by (simp add: apply_merge_def n b del: node_at_put)
  qed (auto simp: apply_merge_def n edits_none split: node_body.splits)
qed (auto simp: apply_merge_def edits_none split: option.splits)

lemma apply_op_edits:
  assumes ok: "nodes_ok t" and d: "\<And>i. i \<in> set (node_deps x) \<Longrightarrow> node_at t i \<noteq> None"
  shows "tree_edits t (apply_op t x)"
proof (cases "op_kind x")
  case (CreateNode i p s seed)
  then show ?thesis using d edits_add [OF edits_none, of t i "new_node i p s (op_at x) (seed_body (t_peer i) seed) (op_at x)" p]
    by (auto simp: apply_op_def node_deps_def new_node_def intro: edits_none)
next
  case (Tombstone i)
  then show ?thesis using d edits_put [OF edits_none, of t i]
    by (auto simp: apply_op_def node_deps_def node_shape_def bury_def)
next
  case (Reorder i s)
  then show ?thesis using d edits_put [OF edits_none, of t i]
    by (auto simp: apply_op_def node_deps_def node_shape_def intro: edits_none split: option.split)
next
  case (LeafEdit i h ops)
  then show ?thesis using d edits_put [OF edits_none, of t i]
    by (auto simp: apply_op_def node_deps_def node_shape_def intro: edits_none split: option.split node_body.split)
next
  case (SplitLeaf i new s c h)
  then show ?thesis using d apply_split_edits [OF ok] by (simp add: apply_op_def node_deps_def)
next
  case (MergeLeaves l r hl hr)
  then show ?thesis by (simp add: apply_op_def apply_merge_edits)
qed

lemma apply_op_nodes:
  assumes ok: "nodes_ok t"
  shows "node_at (apply_op t x) j \<noteq> None \<longleftrightarrow> node_at t j \<noteq> None \<or> adds_node t x = Some j"
proof (cases "op_kind x")
  case (SplitLeaf i new s c h)
  then show ?thesis
    by (cases "node_at t i")
      (auto simp: apply_op_def adds_node_def apply_split_def target_leaf_def Let_def split: node_body.splits option.splits)
next
  case (MergeLeaves l r hl hr)
  then show ?thesis
    by (auto simp: apply_op_def adds_node_def apply_merge_def Let_def split: node_body.splits option.splits)
qed (auto simp: apply_op_def adds_node_def split: option.splits node_body.splits)

section \<open>Replicas\<close>

text \<open>The operations that make a node, and those that make a leaf.\<close>

definition makes_node :: "tree_op \<Rightarrow> bool" where
  "makes_node x = (case op_kind x of CreateNode _ _ _ _ \<Rightarrow> True | SplitLeaf _ _ _ _ _ \<Rightarrow> True | _ \<Rightarrow> False)"

definition makes_leaf :: "tree_op \<Rightarrow> bool" where
  "makes_leaf x = (case op_kind x of CreateNode _ _ _ (SeedLeaf _ _) \<Rightarrow> True | SplitLeaf _ _ _ _ _ \<Rightarrow> True | _ \<Rightarrow> False)"

text \<open>What the operations that were ever issued satisfy: one operation for an id, a node's id is its operation's.\<close>

definition op_ok :: "tree_op \<Rightarrow> bool" where
  "op_ok x \<longleftrightarrow> 0 < t_counter (op_at x) \<and>
     (case op_kind x of CreateNode i _ _ _ \<Rightarrow> i = op_at x | SplitLeaf _ new _ _ _ \<Rightarrow> new = op_at x | _ \<Rightarrow> True) \<and>
     (\<forall>h\<in>set (head_deps x). h = tree_root \<or> 0 < t_counter h)"

definition ops_ok :: "tree_op set \<Rightarrow> bool" where
  "ops_ok U \<longleftrightarrow> inj_on op_at U \<and> (\<forall>x\<in>U. op_ok x) \<and>
     (\<forall>x\<in>U. \<forall>i new s c h. op_kind x = SplitLeaf i new s c h \<longrightarrow> (\<exists>y\<in>U. op_at y = i \<and> makes_leaf y))"

definition causal :: "tree_op list \<Rightarrow> bool" where
  "causal l \<longleftrightarrow> (\<forall>xs x ys. l = xs @ x # ys \<longrightarrow>
     (\<forall>i\<in>set (node_deps x). i = tree_root \<or> (\<exists>y\<in>set xs. op_at y = i \<and> makes_node y)) \<and>
     (\<forall>h\<in>set (head_deps x). h = tree_root \<or> h \<in> op_at ` set xs))"

definition replica_good :: "tree_op set \<Rightarrow> tree_crdt \<Rightarrow> bool" where
  "replica_good U t \<longleftrightarrow>
     nodes_ok t \<and> set (tr_log t) \<subseteq> U \<and> set (tr_buffered t) \<subseteq> U \<and>
     (\<forall>j. 0 < t_counter j \<longrightarrow> (frontier_contains (tr_frontier t) j \<longleftrightarrow> j \<in> op_at ` set (tr_log t))) \<and>
     distinct (map op_at (tr_log t)) \<and> causal (tr_log t) \<and>
     (\<forall>x\<in>set (tr_log t) \<union> set (tr_buffered t). t_counter (op_at x) \<le> tr_counter t) \<and>
     (\<forall>i r. node_at t i = Some r \<and> i \<noteq> tree_root \<longrightarrow>
       (\<exists>x\<in>set (tr_log t). op_at x = i \<and> makes_node x \<and> (makes_leaf x \<longleftrightarrow> (\<exists>k. body_kind (nd_body r) = Inl k)))) \<and>
     (\<forall>x\<in>set (tr_log t). makes_node x \<longrightarrow> node_at t (op_at x) \<noteq> None) \<and>
     (\<forall>i r. node_at t i = Some r \<longrightarrow> nd_head r = tree_root \<or> nd_head r \<in> op_at ` set (tr_log t))"

lemma replica_goodD:
  assumes "replica_good U t"
  shows "nodes_ok t" "set (tr_log t) \<subseteq> U" "set (tr_buffered t) \<subseteq> U" "distinct (map op_at (tr_log t))" "causal (tr_log t)"
    and "0 < t_counter j \<Longrightarrow> frontier_contains (tr_frontier t) j \<longleftrightarrow> j \<in> op_at ` set (tr_log t)"
    and "x \<in> set (tr_log t) \<Longrightarrow> t_counter (op_at x) \<le> tr_counter t"
    and "x \<in> set (tr_buffered t) \<Longrightarrow> t_counter (op_at x) \<le> tr_counter t"
    and "x \<in> set (tr_log t) \<Longrightarrow> makes_node x \<Longrightarrow> node_at t (op_at x) \<noteq> None"
    and "node_at t i = Some r \<Longrightarrow> nd_head r = tree_root \<or> nd_head r \<in> op_at ` set (tr_log t)"
  using assms by (auto simp: replica_good_def)

lemma replica_good_maker:
  "replica_good U t \<Longrightarrow> node_at t i = Some r \<Longrightarrow> i \<noteq> tree_root \<Longrightarrow>
    \<exists>x\<in>set (tr_log t). op_at x = i \<and> makes_node x \<and> (makes_leaf x \<longleftrightarrow> (\<exists>k. body_kind (nd_body r) = Inl k))"
  unfolding replica_good_def by blast

lemma nodes_ok_parent: "nodes_ok t \<Longrightarrow> node_at t i = Some r \<Longrightarrow> i \<noteq> tree_root \<Longrightarrow> \<exists>p. nd_parent r = Some p"
  unfolding nodes_ok_def by blast

lemma ops_ok_unique: "ops_ok U \<Longrightarrow> x \<in> U \<Longrightarrow> y \<in> U \<Longrightarrow> op_at x = op_at y \<Longrightarrow> x = y"
  by (auto simp: ops_ok_def inj_on_def)

lemma causal_snoc:
  "causal l \<Longrightarrow> (\<And>i. i \<in> set (node_deps x) \<Longrightarrow> i = tree_root \<or> (\<exists>y\<in>set l. op_at y = i \<and> makes_node y)) \<Longrightarrow>
    (\<And>h. h \<in> set (head_deps x) \<Longrightarrow> h = tree_root \<or> h \<in> op_at ` set l) \<Longrightarrow> causal (l @ [x])"
  unfolding causal_def
proof (intro allI impI)
  fix xs y ys
  assume l: "\<forall>xs x ys. l = xs @ x # ys \<longrightarrow>
      (\<forall>i\<in>set (node_deps x). i = tree_root \<or> (\<exists>y\<in>set xs. op_at y = i \<and> makes_node y)) \<and>
      (\<forall>h\<in>set (head_deps x). h = tree_root \<or> h \<in> op_at ` set xs)"
    and x: "\<And>i. i \<in> set (node_deps x) \<Longrightarrow> i = tree_root \<or> (\<exists>y\<in>set l. op_at y = i \<and> makes_node y)"
      "\<And>h. h \<in> set (head_deps x) \<Longrightarrow> h = tree_root \<or> h \<in> op_at ` set l"
    and e: "l @ [x] = xs @ y # ys"
  show "(\<forall>i\<in>set (node_deps y). i = tree_root \<or> (\<exists>z\<in>set xs. op_at z = i \<and> makes_node z)) \<and>
      (\<forall>h\<in>set (head_deps y). h = tree_root \<or> h \<in> op_at ` set xs)"
  proof (cases ys rule: rev_cases)
    case Nil
    then show ?thesis using e x by auto
  next
    case (snoc zs z)
    then have "l = xs @ y # zs" using e by simp
    then show ?thesis using l by blast
  qed
qed

lemma adds_node_makes: "op_ok x \<Longrightarrow> adds_node t x = Some j \<Longrightarrow> j = op_at x \<and> makes_node x"
  by (auto simp: adds_node_def op_ok_def makes_node_def split: tree_kind.splits if_splits)

lemma makes_leaf_node: "makes_leaf x \<Longrightarrow> makes_node x"
  by (auto simp: makes_leaf_def makes_node_def split: tree_kind.splits)

text \<open>In a good replica an operation that makes a node adds it when its node dependencies are there.\<close>

lemma makes_node_adds:
  assumes U: "ops_ok U" and t: "replica_good U t" and x: "x \<in> U" "makes_node x"
    and d: "\<And>i. i \<in> set (node_deps x) \<Longrightarrow> node_at t i \<noteq> None"
  shows "adds_node t x = Some (op_at x)"
proof (cases "op_kind x")
  case (SplitLeaf i new s c h)
  have "op_ok x" using U x(1) by (auto simp: ops_ok_def)
  then have new: "new = op_at x" using SplitLeaf by (simp add: op_ok_def)
  obtain y where y: "y \<in> U" "op_at y = i" "makes_leaf y" using U x(1) SplitLeaf unfolding ops_ok_def by blast
  have "i \<noteq> tree_root" using U y by (auto simp: ops_ok_def op_ok_def tree_root_def)
  moreover obtain r where r: "node_at t i = Some r" using d SplitLeaf by (auto simp: node_deps_def)
  ultimately obtain z where z: "z \<in> set (tr_log t)" "op_at z = i" "makes_leaf z \<longleftrightarrow> (\<exists>k. body_kind (nd_body r) = Inl k)"
    using replica_good_maker [OF t] by blast
  have "z \<in> U" using replica_goodD(2) [OF t] z(1) by blast
  from ops_ok_unique [OF U this y(1)] have "z = y" using z(2) y(2) by simp
  moreover obtain p where "nd_parent r = Some p"
    using nodes_ok_parent [OF replica_goodD(1) [OF t] r \<open>i \<noteq> tree_root\<close>] by blast
  ultimately have "target_leaf t i" using r z(3) y(3) by (auto simp: target_leaf_def)
  then show ?thesis using new SplitLeaf by (simp add: adds_node_def)
next
  case (CreateNode i p s seed)
  have "op_ok x" using U x(1) by (simp add: ops_ok_def)
  then show ?thesis using CreateNode by (simp add: adds_node_def op_ok_def)
qed (use x(2) in \<open>simp_all add: makes_node_def\<close>)

text \<open>The kind of the node an operation adds, and the heads it sets.\<close>

lemma apply_op_new_kind:
  assumes "op_ok x" and "node_at t (op_at x) = None" and "node_at (apply_op t x) (op_at x) = Some r"
  shows "makes_leaf x \<longleftrightarrow> (\<exists>k. body_kind (nd_body r) = Inl k)"
proof (cases "op_kind x")
  case (CreateNode i p s seed)
  then show ?thesis using assms
    by (auto simp: apply_op_def op_ok_def makes_leaf_def new_node_def seed_body_def split: node_seed.splits)
next
  case (SplitLeaf i new s c h)
  then show ?thesis using assms
    by (auto simp: apply_op_def op_ok_def makes_leaf_def apply_split_def Let_def new_node_def
        split: option.splits node_body.splits if_splits)
next
  case (MergeLeaves l r hl hr)
  then show ?thesis using assms
    by (auto simp: apply_op_def apply_merge_def Let_def split: option.splits node_body.splits if_splits)
qed (use assms in \<open>auto simp: apply_op_def split: option.splits node_body.splits if_splits\<close>)

lemma apply_op_head:
  assumes "node_at (apply_op t x) j = Some r"
  shows "nd_head r = tree_root \<or> nd_head r = op_at x \<or> (\<exists>r0. node_at t j = Some r0 \<and> nd_head r = nd_head r0)"
proof (cases "op_kind x")
  case (SplitLeaf i new s c h)
  then show ?thesis using assms
    by (auto simp: apply_op_def apply_split_def Let_def new_node_def split: option.splits node_body.splits if_splits)
next
  case (MergeLeaves l r hl hr)
  then show ?thesis using assms
    by (auto simp: apply_op_def apply_merge_def Let_def bury_def split: option.splits node_body.splits if_splits)
qed (use assms in \<open>auto simp: apply_op_def new_node_def bury_def split: option.splits node_body.splits if_splits\<close>)

lemma node_at_record [simp]: "node_at (record_op t x) i = node_at t i"
  by (simp add: record_op_def node_at_def)

lemma nodes_ok_cong:
  "tr_nodes u = tr_nodes t \<Longrightarrow> tr_index u = tr_index t \<Longrightarrow> nodes_ok u = nodes_ok t"
  by (simp add: nodes_ok_def node_at_def)

text \<open>Applying and recording an operation whose dependencies are met.\<close>

lemma replica_good_apply:
  assumes U: "ops_ok U" and t: "replica_good U t" and x: "x \<in> U" "t_counter (op_at x) \<le> tr_counter t"
    and fresh: "\<not> frontier_contains (tr_frontier t) (op_at x)"
    and nd: "\<And>i. i \<in> set (node_deps x) \<Longrightarrow> node_at t i \<noteq> None"
    and hd: "\<And>h. h \<in> set (head_deps x) \<Longrightarrow> h = tree_root \<or> frontier_contains (tr_frontier t) h"
  shows "replica_good U (record_op (apply_op t x) x)"
proof -
  let ?u = "apply_op t x"
  have ok: "nodes_ok t" using t by (simp add: replica_good_def)
  have xok: "op_ok x" using U x by (simp add: ops_ok_def)
  have e: "tree_edits t ?u" by (rule apply_op_edits [OF ok nd])
  note rest = tree_edits_rest [OF e]
  have pos: "0 < t_counter (op_at x)" using xok by (simp add: op_ok_def)
  have new: "op_at x \<notin> op_at ` set (tr_log t)" using t fresh pos by (auto simp: replica_good_def)
  have absent: "node_at t (op_at x) = None"
  proof (rule ccontr)
    assume "node_at t (op_at x) \<noteq> None"
    then obtain r where "node_at t (op_at x) = Some r" by blast
    moreover have "op_at x \<noteq> tree_root" using pos by (auto simp: tree_root_def)
    ultimately show False using replica_good_maker [OF t, of "op_at x" r] new by (auto simp: image_iff)
  qed
  have deps: "i = tree_root \<or> (\<exists>y\<in>set (tr_log t). op_at y = i \<and> makes_node y)" if "i \<in> set (node_deps x)" for i
    using nd [OF that] replica_good_maker [OF t, of i] by blast
  have heads: "h = tree_root \<or> h \<in> op_at ` set (tr_log t)" if h: "h \<in> set (head_deps x)" for h
  proof -
    have "h = tree_root \<or> 0 < t_counter h" using xok h by (simp add: op_ok_def)
    then show ?thesis using hd [OF h] replica_goodD(6) [OF t] by blast
  qed
  have shape: "node_at ?u i = Some r \<Longrightarrow> node_at t i = Some r0 \<Longrightarrow> node_shape r = node_shape r0" for i r r0
    using tree_edits_shape [OF e, of i r0] by auto
  have made: "\<exists>y\<in>set (tr_log t @ [x]). op_at y = i \<and> makes_node y \<and> (makes_leaf y \<longleftrightarrow> (\<exists>k. body_kind (nd_body r) = Inl k))"
    if r: "node_at ?u i = Some r" and i: "i \<noteq> tree_root" for i r
  proof (cases "node_at t i")
    case None
    then have "adds_node t x = Some i" using apply_op_nodes [OF ok, of x i] r by simp
    then have "i = op_at x" "makes_node x" using adds_node_makes [OF xok] by auto
    then show ?thesis using apply_op_new_kind [OF xok absent] r by auto
  next
    case (Some r0)
    then have "body_kind (nd_body r) = body_kind (nd_body r0)" using shape [OF r] by (simp add: node_shape_def)
    moreover obtain y where "y \<in> set (tr_log t)" "op_at y = i" "makes_node y" "makes_leaf y \<longleftrightarrow> (\<exists>k. body_kind (nd_body r0) = Inl k)"
      using replica_good_maker [OF t Some i] by blast
    ultimately show ?thesis by auto
  qed
  have there: "node_at ?u (op_at y) \<noteq> None" if "y \<in> set (tr_log t @ [x])" "makes_node y" for y
  proof (cases "y = x")
    case True
    then show ?thesis using makes_node_adds [OF U t x(1)] that nd apply_op_nodes [OF ok, of x "op_at x"] by auto
  next
    case False
    then show ?thesis using that t apply_op_nodes [OF ok, of x "op_at y"] by (auto simp: replica_good_def)
  qed
  have head: "nd_head r = tree_root \<or> nd_head r \<in> op_at ` set (tr_log t @ [x])" if "node_at ?u i = Some r" for i r
    using apply_op_head [OF that] replica_goodD(10) [OF t] by fastforce
  have fr: "frontier_contains (frontier_observe (tr_frontier t) (op_at x)) j \<longleftrightarrow> j \<in> op_at ` set (tr_log t @ [x])"
    if "0 < t_counter j" for j using that t by (auto simp: replica_good_def)
  have n: "nodes_ok (record_op ?u x)"
    using tree_edits_ok [OF e ok] nodes_ok_cong [of "record_op ?u x" ?u] by (simp add: record_op_def)
  have c: "causal (tr_log t @ [x])" using t deps heads by (intro causal_snoc) (auto simp: replica_good_def)
  have log: "tr_log (record_op ?u x) = tr_log t @ [x]" "tr_frontier (record_op ?u x) = frontier_observe (tr_frontier t) (op_at x)"
    "tr_buffered (record_op ?u x) = tr_buffered t" "tr_counter (record_op ?u x) = tr_counter t"
    using rest by (auto simp: record_op_def)
  show ?thesis
    unfolding replica_good_def log node_at_record
  proof (intro conjI)
    show "\<forall>i r. node_at ?u i = Some r \<and> i \<noteq> tree_root \<longrightarrow> (\<exists>xa\<in>set (tr_log t @ [x]). op_at xa = i \<and> makes_node xa \<and>
        (makes_leaf xa \<longleftrightarrow> (\<exists>k. body_kind (nd_body r) = Inl k)))" using made by blast
    show "\<forall>y\<in>set (tr_log t @ [x]). makes_node y \<longrightarrow> node_at ?u (op_at y) \<noteq> None" using there by blast
    show "\<forall>i r. node_at ?u i = Some r \<longrightarrow> nd_head r = tree_root \<or> nd_head r \<in> op_at ` set (tr_log t @ [x])" using head by blast
    show "distinct (map op_at (tr_log t @ [x]))" using t new by (auto simp: replica_good_def)
    show "\<forall>j. 0 < t_counter j \<longrightarrow> frontier_contains (frontier_observe (tr_frontier t) (op_at x)) j = (j \<in> op_at ` set (tr_log t @ [x]))"
      using fr by blast
  qed (use n c t x in \<open>auto simp: replica_good_def\<close>)
qed

section \<open>Receiving\<close>

lemma replica_good_mono: "replica_good U t \<Longrightarrow> U \<subseteq> V \<Longrightarrow> replica_good V t"
  unfolding replica_good_def by blast

lemma replica_good_meta:
  assumes t: "replica_good U t"
    and same: "tr_nodes u = tr_nodes t" "tr_index u = tr_index t" "tr_frontier u = tr_frontier t" "tr_log u = tr_log t"
    and b: "set (tr_buffered u) \<subseteq> U" "\<forall>x\<in>set (tr_log u) \<union> set (tr_buffered u). t_counter (op_at x) \<le> tr_counter u"
  shows "replica_good U u"
proof -
  have "node_at u = node_at t" by (rule ext) (simp add: node_at_def same)
  moreover have "nodes_ok u" using nodes_ok_cong [OF same(1,2)] replica_goodD(1) [OF t] by simp
  ultimately show ?thesis using t b unfolding replica_good_def by (simp add: same)
qed

lemma replica_good_buffer:
  "replica_good U t \<Longrightarrow> set b \<subseteq> U \<Longrightarrow> (\<And>x. x \<in> set b \<Longrightarrow> t_counter (op_at x) \<le> tr_counter t) \<Longrightarrow>
    replica_good U (t\<lparr>tr_buffered := b\<rparr>)"
  using replica_goodD(7) [of U t] by (intro replica_good_meta [of U t "t\<lparr>tr_buffered := b\<rparr>"]) auto

lemma replica_good_counter:
  assumes "replica_good U t" and "tr_counter t \<le> c"
  shows "replica_good U (t\<lparr>tr_counter := c\<rparr>)"
proof (rule replica_good_meta [OF assms(1)])
  show "\<forall>x\<in>set (tr_log (t\<lparr>tr_counter := c\<rparr>)) \<union> set (tr_buffered (t\<lparr>tr_counter := c\<rparr>)). t_counter (op_at x) \<le> tr_counter (t\<lparr>tr_counter := c\<rparr>)"
    using replica_goodD(7,8) [OF assms(1)] assms(2) by (auto intro: order_trans)
qed (use replica_goodD(3) [OF assms(1)] in simp_all)

lemma receive_op_good:
  assumes t: "replica_good U t" and x: "x \<in> U"
  shows "replica_good U (receive_op t x) \<and> tr_counter t \<le> tr_counter (receive_op t x)"
proof -
  let ?t = "if t_counter (op_at x) > tr_counter t then t\<lparr>tr_counter := t_counter (op_at x)\<rparr> else t"
  have g: "replica_good U ?t" and c: "t_counter (op_at x) \<le> tr_counter ?t" "tr_counter t \<le> tr_counter ?t"
    using t replica_good_counter [OF t, of "t_counter (op_at x)"] by auto
  have "replica_good U (?t\<lparr>tr_buffered := tr_buffered ?t @ [x]\<rparr>)"
    using replica_goodD(3,8) [OF g] x c(1) by (intro replica_good_buffer [OF g]) auto
  then show ?thesis using g c(2) by (auto simp: receive_op_def Let_def)
qed

lemma receive_all_good:
  "replica_good U t \<Longrightarrow> set ops \<subseteq> U \<Longrightarrow>
    replica_good U (foldl receive_op t ops) \<and> tr_counter t \<le> tr_counter (foldl receive_op t ops)"
proof (induction ops arbitrary: t)
  case (Cons x ops)
  then have "replica_good U (receive_op t x)" "tr_counter t \<le> tr_counter (receive_op t x)" "set ops \<subseteq> U"
    using receive_op_good [OF Cons.prems(1), of x] by auto
  then show ?case using Cons.IH [of "receive_op t x"] by (auto intro: order_trans)
qed simp

text \<open>
  What the steps of a drain keep is kept by the drain: a law on the steps for an operation that
  is buffered, applied or dropped.
\<close>

lemma drain_keeps:
  assumes clear: "\<And>t. P t \<Longrightarrow> set (tr_buffered t) \<subseteq> B \<and> P (t\<lparr>tr_buffered := []\<rparr>)"
    and step: "\<And>t b x. P t \<Longrightarrow> x \<in> B \<Longrightarrow> P (fst (drain_step (t, b) x))"
  shows "P t \<Longrightarrow> P (drain_buffered t)"
proof (induction t rule: drain_buffered.induct)
  case (1 t)
  have "P (fst (foldl drain_step (u, b) xs))" if "P u" "set xs \<subseteq> B" for u b xs
    using that
  proof (induction xs arbitrary: u b)
    case (Cons x xs)
    then show ?case using step [of u x b] by (cases "drain_step (u, b) x") auto
  qed simp
  then have "P (fst (drain_pass t))" using clear [OF 1(2)] by (simp add: drain_pass_def)
  then show ?case using 1(1) by (subst drain_buffered.simps) simp
qed

lemma drain_step_good:
  assumes U: "ops_ok U" and t: "replica_good U t" and x: "x \<in> U" "t_counter (op_at x) \<le> tr_counter t"
  shows "replica_good U (fst (drain_step (t, b) x)) \<and> tr_counter (fst (drain_step (t, b) x)) = tr_counter t"
proof (cases "frontier_contains (tr_frontier t) (op_at x) \<or> \<not> dependencies_ready t x")
  case True
  moreover have "replica_good U (t\<lparr>tr_buffered := tr_buffered t @ [x]\<rparr>)"
    using replica_goodD(3,8) [OF t] x by (intro replica_good_buffer [OF t]) auto
  ultimately show ?thesis using t by (auto simp: drain_step_def)
next
  case False
  then have d: "\<And>i. i \<in> set (node_deps x) \<Longrightarrow> node_at t i \<noteq> None"
    "\<And>h. h \<in> set (head_deps x) \<Longrightarrow> h = tree_root \<or> frontier_contains (tr_frontier t) h"
    by (auto simp: dependencies_ready_deps)
  have "tree_edits t (apply_op t x)" by (rule apply_op_edits [OF replica_goodD(1) [OF t] d(1)])
  then show ?thesis using replica_good_apply [OF U t x _ d] False tree_edits_rest
    by (auto simp: drain_step_def record_op_def)
qed

lemma drain_good:
  assumes U: "ops_ok U" and t: "replica_good U t"
  shows "replica_good U (drain_buffered t) \<and> tr_counter (drain_buffered t) = tr_counter t"
proof -
  define c where "c = tr_counter t"
  let ?P = "\<lambda>u. replica_good U u \<and> tr_counter u = c" and ?B = "{x \<in> U. t_counter (op_at x) \<le> c}"
  have "?P (drain_buffered t)"
  proof (rule drain_keeps [where P = ?P and B = ?B])
    fix u assume u: "?P u"
    then show "set (tr_buffered u) \<subseteq> ?B \<and> ?P (u\<lparr>tr_buffered := []\<rparr>)"
      using replica_goodD(3,8) [of U u] replica_good_buffer [of U u "[]"] by auto
  next
    fix u b x assume "?P u" "x \<in> ?B"
    then show "?P (fst (drain_step (u, b) x))" using drain_step_good [OF U, of u x b] by auto
  qed (simp add: t c_def)
  then show ?thesis by (simp add: c_def)
qed

lemma apply_update_good:
  assumes U: "ops_ok U" and t: "replica_good U t" and "set ops \<subseteq> U"
  shows "replica_good U (apply_update t ops) \<and> tr_counter t \<le> tr_counter (apply_update t ops)"
  using drain_good [OF U, of "foldl receive_op t ops"] receive_all_good [OF t assms(3)] by (simp add: apply_update_def)

section \<open>The drain reaches a fixpoint\<close>

text \<open>What the frontier contains it keeps; what was pending is held or pending.\<close>

lemma drain_step_frontier:
  "frontier_contains (tr_frontier t) j \<Longrightarrow> nodes_ok t \<Longrightarrow> frontier_contains (tr_frontier (fst (drain_step (t, b) x))) j"
  using tree_edits_rest [OF apply_op_edits, of t x]
  by (auto simp: drain_step_def record_op_def frontier_contains_mono dependencies_ready_deps)

lemma drain_step_nodes: "nodes_ok t \<Longrightarrow> nodes_ok (fst (drain_step (t, b) x))"
  using tree_edits_ok [OF apply_op_edits, of t x] nodes_ok_cong [of "record_op (apply_op t x) x" "apply_op t x"]
    nodes_ok_cong [of "t\<lparr>tr_buffered := tr_buffered t @ [x]\<rparr>" t]
  by (auto simp: drain_step_def record_op_def dependencies_ready_deps)

definition held :: "tree_crdt \<Rightarrow> tree_op \<Rightarrow> bool" where
  "held t x \<longleftrightarrow> frontier_contains (tr_frontier t) (op_at x) \<or> x \<in> set (tr_buffered t)"

lemma drain_step_held:
  assumes "nodes_ok t"
  shows "held (fst (drain_step (t, b) x)) x \<and> (held t y \<longrightarrow> held (fst (drain_step (t, b) x)) y)"
  using drain_step_frontier [OF _ assms, of _ b x]
  by (auto simp: held_def) (auto simp: drain_step_def record_op_def split: if_splits)

lemma drain_fold_held:
  "nodes_ok t \<Longrightarrow> nodes_ok (fst (foldl drain_step (t, b) xs)) \<and>
    (\<forall>y. held t y \<or> y \<in> set xs \<longrightarrow> held (fst (foldl drain_step (t, b) xs)) y)"
proof (induction xs arbitrary: t b)
  case (Cons x xs)
  obtain u c where s: "drain_step (t, b) x = (u, c)" by fastforce
  have "nodes_ok u" "held u x" "\<And>y. held t y \<Longrightarrow> held u y"
    using drain_step_nodes [OF Cons.prems, of b x] drain_step_held [OF Cons.prems, of b x] s by auto
  then show ?case using Cons.IH [of u c] s by auto
qed simp

lemma drain_pass_held:
  assumes "nodes_ok t"
  shows "nodes_ok (fst (drain_pass t)) \<and> (held t y \<longrightarrow> held (fst (drain_pass t)) y)"
proof -
  have "nodes_ok (t\<lparr>tr_buffered := []\<rparr>)" using assms nodes_ok_cong [of "t\<lparr>tr_buffered := []\<rparr>" t] by simp
  from drain_fold_held [OF this, of False "tr_buffered t"] show ?thesis
    by (auto simp: drain_pass_def held_def)
qed

text \<open>A pass without progress leaves the replica as it was and found every operation not ready.\<close>

lemma drain_fold_progress: "snd (foldl drain_step (t, True) xs)"
proof (induction xs arbitrary: t)
  case (Cons x xs)
  have "drain_step (t, True) x = (fst (drain_step (t, True) x), True)" by (simp add: drain_step_def)
  then show ?case using Cons.IH [of "fst (drain_step (t, True) x)"] by simp
qed simp

lemma drain_fold_still:
  "\<not> snd (foldl drain_step (t, False) xs) \<Longrightarrow>
    fst (foldl drain_step (t, False) xs) = t\<lparr>tr_buffered := tr_buffered t @
      filter (\<lambda>x. \<not> frontier_contains (tr_frontier t) (op_at x)) xs\<rparr> \<and>
    (\<forall>x\<in>set xs. frontier_contains (tr_frontier t) (op_at x) \<or> \<not> dependencies_ready t x)"
proof (induction xs arbitrary: t)
  case (Cons x xs)
  have ready: "dependencies_ready (t\<lparr>tr_buffered := b\<rparr>) y = dependencies_ready t y" for b y
    by (simp add: dependencies_ready_deps node_at_def)
  have np: "\<not> dependencies_ready t x \<or> frontier_contains (tr_frontier t) (op_at x)"
  proof (rule ccontr)
    assume "\<not> ?thesis"
    then have "drain_step (t, False) x = (record_op (apply_op t x) x, True)" by (simp add: drain_step_def)
    then show False using Cons.prems drain_fold_progress [of "record_op (apply_op t x) x" xs] by simp
  qed
  show ?case
  proof (cases "frontier_contains (tr_frontier t) (op_at x)")
    case True
    then show ?thesis using Cons by (simp add: drain_step_def)
  next
    case False
    then have s: "drain_step (t, False) x = (t\<lparr>tr_buffered := tr_buffered t @ [x]\<rparr>, False)" using np by (simp add: drain_step_def)
    then show ?thesis using Cons.IH [of "t\<lparr>tr_buffered := tr_buffered t @ [x]\<rparr>"] Cons.prems False np by (simp add: ready)
  qed
qed simp

lemma drain_fixpoint:
  "nodes_ok t \<Longrightarrow> (\<forall>y. held t y \<longrightarrow> held (drain_buffered t) y) \<and>
    (\<forall>x\<in>set (tr_buffered (drain_buffered t)). \<not> dependencies_ready (drain_buffered t) x \<and>
      \<not> frontier_contains (tr_frontier (drain_buffered t)) (op_at x))"
proof (induction t rule: drain_buffered.induct)
  case (1 t)
  note p = drain_pass_held [OF 1(2)]
  show ?case
  proof (cases "snd (drain_pass t)")
    case True
    then have "drain_buffered t = drain_buffered (fst (drain_pass t))" by (subst drain_buffered.simps) simp
    then show ?thesis using 1(1) [OF True] p by simp
  next
    case False
    then have d: "drain_buffered t = fst (drain_pass t)" by (subst drain_buffered.simps) simp
    have ready: "dependencies_ready (t\<lparr>tr_buffered := b\<rparr>) y = dependencies_ready t y" for b y
      by (simp add: dependencies_ready_deps node_at_def)
    have "\<not> snd (foldl drain_step (t\<lparr>tr_buffered := []\<rparr>, False) (tr_buffered t))" using False by (simp add: drain_pass_def)
    from drain_fold_still [OF this] show ?thesis using p unfolding d by (auto simp: drain_pass_def ready)
  qed
qed

lemma receive_op_held: "held (receive_op t x) x \<and> (held t y \<longrightarrow> held (receive_op t x) y)"
  by (auto simp: held_def receive_op_def Let_def)

lemma receive_all_held: "held t y \<or> y \<in> set ops \<Longrightarrow> held (foldl receive_op t ops) y"
proof (induction ops arbitrary: t)
  case (Cons x ops)
  then show ?case using receive_op_held [of t x y] receive_op_held [of t x x] Cons.IH [of "receive_op t x"] by auto
qed simp

end
