(* ===== verification/TreeSync.thy ===== *)
theory TreeSync
  imports TreeNet
begin

text \<open>
  Tree replicas that edit, fork and exchange operations: every reachable one satisfies the
  invariants of theory TreeNet, and an exchange brings every operation the other side has.
\<close>

section \<open>Local actions\<close>

datatype tree_action =
    Act_create tree_id "tree_id option" node_seed
  | Act_tombstone tree_id
  | Act_reorder tree_id "tree_id option"
  | Act_edit tree_id int int "nat list"
  | Act_split tree_id int
  | Act_merge tree_id tree_id

fun tree_act :: "tree_crdt \<Rightarrow> tree_action \<Rightarrow> tree_error + tree_crdt" where
  "tree_act t (Act_create p after seed) = (case create_node t p after seed of Inl e \<Rightarrow> Inl e | Inr (u, _) \<Rightarrow> Inr u)"
| "tree_act t (Act_tombstone i) = tombstone_node t i"
| "tree_act t (Act_reorder i after) = reorder_child t i after"
| "tree_act t (Act_edit i a d s) = edit_leaf t i a d s"
| "tree_act t (Act_split i a) = (case split_leaf t i a of Inl e \<Rightarrow> Inl e | Inr (u, _) \<Rightarrow> Inr u)"
| "tree_act t (Act_merge l r) = merge_adjacent_leaves t l r"

text \<open>Every action commits one operation with the next id, on the replica or on one with a leaf's text replaced.\<close>

definition local_op :: "tree_crdt \<Rightarrow> tree_crdt \<Rightarrow> tree_op \<Rightarrow> bool" where
  "local_op t u x \<longleftrightarrow>
     op_at x = TreeOpId (tr_counter t + 1) (tr_peer t) \<and>
     (\<exists>t0. tree_edits t t0 \<and> (\<forall>i r. node_at t0 i = Some r \<longrightarrow> (\<exists>r0. node_at t i = Some r0 \<and> nd_head r = nd_head r0)) \<and>
       u = commit_local (t0\<lparr>tr_counter := tr_counter t + 1\<rparr>) x) \<and>
     (case op_kind x of CreateNode i _ _ _ \<Rightarrow> i = op_at x
       | SplitLeaf i new _ _ _ \<Rightarrow> new = op_at x \<and> target_leaf t i | _ \<Rightarrow> True) \<and>
     (\<forall>i\<in>set (node_deps x). node_at t i \<noteq> None) \<and>
     (\<forall>h\<in>set (head_deps x). \<exists>i r. node_at t i = Some r \<and> nd_head r = h)"

lemma local_opI:
  assumes "op_at x = TreeOpId (tr_counter t + 1) (tr_peer t)"
    and "u = commit_local (t\<lparr>tr_counter := tr_counter t + 1\<rparr>) x"
    and "case op_kind x of CreateNode i _ _ _ \<Rightarrow> i = op_at x | SplitLeaf i new _ _ _ \<Rightarrow> new = op_at x \<and> target_leaf t i | _ \<Rightarrow> True"
    and "\<And>i. i \<in> set (node_deps x) \<Longrightarrow> node_at t i \<noteq> None"
    and "\<And>h. h \<in> set (head_deps x) \<Longrightarrow> \<exists>i r. node_at t i = Some r \<and> nd_head r = h"
  shows "local_op t u x"
  unfolding local_op_def using assms edits_none [of t] by blast

lemma leaf_text_node: "leaf_text t i = Inr s \<Longrightarrow> \<exists>r k x. node_at t i = Some r \<and> nd_body r = LeafBody k x \<and> s = body_text x"
  by (auto simp: leaf_text_def split: option.splits node_body.splits)

lemma tree_act_local:
  assumes ok: "nodes_ok t" and a: "tree_act t a = Inr u"
  shows "\<exists>x. local_op t u x"
proof (cases a)
  case (Act_create p after seed)
  then show ?thesis using a
    by (intro exI [of _ "TreeOp (TreeOpId (tr_counter t + 1) (tr_peer t))
        (CreateNode (TreeOpId (tr_counter t + 1) (tr_peer t)) p (key_after t p after) seed)"] local_opI)
      (auto simp: create_node_def next_op_id_def Let_def node_deps_def head_deps_def split: if_splits)
next
  case (Act_tombstone i)
  then show ?thesis using a
    by (intro exI [of _ "TreeOp (TreeOpId (tr_counter t + 1) (tr_peer t)) (Tombstone i)"] local_opI)
      (auto simp: tombstone_node_def next_op_id_def Let_def node_deps_def head_deps_def split: if_splits)
next
  case (Act_reorder i after)
  then obtain r p where r: "node_at t i = Some r" "nd_parent r = Some p"
    using a by (auto simp: reorder_child_def split: option.splits)
  then show ?thesis using a Act_reorder
    by (intro exI [of _ "TreeOp (TreeOpId (tr_counter t + 1) (tr_peer t)) (Reorder i (key_after t p after))"] local_opI)
      (auto simp: reorder_child_def next_op_id_def Let_def node_deps_def head_deps_def)
next
  case (Act_edit i at del ins)
  then obtain s m n where s: "leaf_text t i = Inr s" "byte_to_char s at = Inr (Some m)" "byte_to_char s (at + del) = Inr (Some n)"
    using a by (auto simp: edit_leaf_def split: sum.splits option.splits)
  obtain r k x where r: "node_at t i = Some r" "nd_body r = LeafBody k x" using leaf_text_node [OF s(1)] by blast
  define y where "y = fst (text_insert_str (delete_run (n - m) (int m) (text_fork x (tr_peer t))) (int m) ins)"
  define t0 where "t0 = put_node t i (r\<lparr>nd_body := LeafBody k y\<rparr>)"
  define z where "z = TreeOp (TreeOpId (tr_counter t + 1) (tr_peer t))
    (LeafEdit i (nd_head r) (delta_since y (version_vector (text_fork x (tr_peer t)))))"
  have "tree_edits t t0" unfolding t0_def by (rule edits_put [OF edits_none r(1)]) (simp add: node_shape_def r(2))
  moreover have "\<forall>j q. node_at t0 j = Some q \<longrightarrow> (\<exists>r0. node_at t j = Some r0 \<and> nd_head q = nd_head r0)"
    using r by (auto simp: t0_def)
  moreover have "u = commit_local (t0\<lparr>tr_counter := tr_counter t + 1\<rparr>) z"
    using a Act_edit s r by (simp add: edit_leaf_def Let_def next_op_id_def t0_def z_def y_def put_node_def)
  moreover have "\<exists>j q. node_at t j = Some q \<and> nd_head q = nd_head r" using r(1) by blast
  ultimately have "local_op t u z" unfolding local_op_def
    using r(1) by (auto simp: z_def node_deps_def head_deps_def)
  then show ?thesis ..
next
  case (Act_split i at)
  then obtain s m r p where s: "leaf_text t i = Inr s" "byte_to_char s at = Inr (Some m)" "node_at t i = Some r" "nd_parent r = Some p"
    using a by (auto simp: split_leaf_def split: sum.splits option.splits)
  have "target_leaf t i" using leaf_text_node [OF s(1)] s(3,4) by (auto simp: target_leaf_def)
  moreover have "\<exists>j q. node_at t j = Some q \<and> nd_head q = nd_head r" using s(3) by blast
  ultimately show ?thesis using a Act_split s
    by (intro exI [of _ "TreeOp (TreeOpId (tr_counter t + 1) (tr_peer t)) (SplitLeaf i (TreeOpId (tr_counter t + 1) (tr_peer t))
        (key_after t p (Some i)) (int m) (nd_head r))"] local_opI)
      (auto simp: split_leaf_def next_op_id_def Let_def node_deps_def head_deps_def)
next
  case (Act_merge l r)
  then obtain s s' where s: "leaf_text t l = Inr s" "leaf_text t r = Inr s'"
    using a by (auto simp: merge_adjacent_leaves_def split: sum.splits)
  obtain lr rr p where n: "node_at t l = Some lr" "node_at t r = Some rr" "nd_parent lr = Some p"
    using leaf_text_node [OF s(1)] leaf_text_node [OF s(2)] a Act_merge s
    by (auto simp: merge_adjacent_leaves_def split: option.splits)
  then have "\<exists>j q. node_at t j = Some q \<and> nd_head q = nd_head lr" "\<exists>j q. node_at t j = Some q \<and> nd_head q = nd_head rr"
    by blast+
  then show ?thesis using a Act_merge s n
    by (intro exI [of _ "TreeOp (TreeOpId (tr_counter t + 1) (tr_peer t)) (MergeLeaves l r (nd_head lr) (nd_head rr))"] local_opI)
      (auto simp: merge_adjacent_leaves_def next_op_id_def Let_def node_deps_def head_deps_def split: if_splits)
qed

section \<open>The network\<close>

text \<open>
  Replicas by peer. A delivery hands over any operations that someone has logged, in any order
  and any number of times; a fork is given to a peer that has not acted.
\<close>

definition issued :: "(int \<Rightarrow> tree_crdt) \<Rightarrow> tree_op set" where
  "issued N = (\<Union>p. set (tr_log (N p)))"

inductive tree_net :: "(int \<Rightarrow> tree_crdt) \<Rightarrow> bool" where
  net_start: "tree_net tree_new"
| net_act: "tree_net N \<Longrightarrow> tree_act (N p) a = Inr u \<Longrightarrow> tree_net (N(p := u))"
| net_deliver: "tree_net N \<Longrightarrow> set ops \<subseteq> issued N \<Longrightarrow> tree_net (N(p := apply_update (N p) ops))"
| net_fork: "tree_net N \<Longrightarrow> N q = tree_new q \<Longrightarrow> tree_net (N(q := tree_fork (N p) q))"

definition net_good :: "(int \<Rightarrow> tree_crdt) \<Rightarrow> bool" where
  "net_good N \<longleftrightarrow> ops_ok (issued N) \<and>
     (\<forall>p. replica_good (issued N) (N p) \<and> tr_peer (N p) = p \<and> 0 \<le> tr_counter (N p)) \<and>
     (\<forall>x\<in>issued N. t_counter (op_at x) \<le> tr_counter (N (t_peer (op_at x))))"

lemma tree_new_good: "replica_good U (tree_new p)"
  by (auto simp: replica_good_def tree_new_def nodes_ok_def node_at_def parents_first_def root_record_def
      frontier_contains_def causal_def bucket_def Cons_eq_append_conv)

lemma net_good_start: "net_good tree_new"
proof -
  have "issued tree_new = {}" by (simp add: issued_def tree_new_def)
  then show ?thesis by (simp add: net_good_def ops_ok_def tree_new_good) (simp add: tree_new_def)
qed

lemma issued_update: "set (tr_log (N p)) \<subseteq> set (tr_log u) \<Longrightarrow> issued (N(p := u)) = issued N \<union> set (tr_log u)"
proof -
  assume l: "set (tr_log (N p)) \<subseteq> set (tr_log u)"
  have "x \<in> issued (N(p := u))" if "x \<in> set (tr_log (N q))" for x q
  proof (cases "q = p")
    case True
    then have "x \<in> set (tr_log ((N(p := u)) p))" using that l by auto
    then show ?thesis unfolding issued_def by blast
  next
    case False
    then have "x \<in> set (tr_log ((N(p := u)) q))" using that by simp
    then show ?thesis unfolding issued_def by blast
  qed
  moreover have "set (tr_log u) \<subseteq> issued (N(p := u))" by (force simp: issued_def)
  ultimately show ?thesis by (auto simp: issued_def split: if_splits)
qed

text \<open>A replica that only took over what was issued.\<close>

lemma net_good_takes:
  assumes N: "net_good N" and u: "replica_good (issued N) u" "tr_peer u = p" "tr_counter (N p) \<le> tr_counter u"
    and log: "set (tr_log (N p)) \<subseteq> set (tr_log u)"
  shows "net_good (N(p := u))"
proof -
  have i: "issued (N(p := u)) = issued N" using issued_update [of N p u] log replica_goodD(2) [OF u(1)] by auto
  have "0 \<le> tr_counter (N p)" using N by (simp add: net_good_def)
  then show ?thesis using N u by (auto simp: net_good_def i intro: order_trans)
qed

lemma net_good_act:
  assumes N: "net_good N" and a: "tree_act (N p) a = Inr u"
  shows "net_good (N(p := u))"
proof -
  let ?t = "N p" and ?U = "issued N"
  have g: "replica_good ?U ?t" "tr_peer ?t = p" "0 \<le> tr_counter ?t" and U: "ops_ok ?U" using N by (auto simp: net_good_def)
  obtain x where "local_op ?t u x" using tree_act_local [OF replica_goodD(1) [OF g(1)] a] by blast
  then obtain t0 where x: "op_at x = TreeOpId (tr_counter ?t + 1) p" and e: "tree_edits ?t t0"
    and hd0: "\<And>i r. node_at t0 i = Some r \<Longrightarrow> \<exists>r0. node_at ?t i = Some r0 \<and> nd_head r = nd_head r0"
    and u: "u = commit_local (t0\<lparr>tr_counter := tr_counter ?t + 1\<rparr>) x"
    and k: "case op_kind x of CreateNode i _ _ _ \<Rightarrow> i = op_at x | SplitLeaf i new _ _ _ \<Rightarrow> new = op_at x \<and> target_leaf ?t i | _ \<Rightarrow> True"
    and nd: "\<And>i. i \<in> set (node_deps x) \<Longrightarrow> node_at ?t i \<noteq> None"
    and hd: "\<And>h. h \<in> set (head_deps x) \<Longrightarrow> \<exists>i r. node_at ?t i = Some r \<and> nd_head r = h"
    unfolding local_op_def g(2) by blast
  note rest = tree_edits_rest [OF e]
  let ?V = "insert x ?U" and ?t1 = "t0\<lparr>tr_counter := tr_counter ?t + 1\<rparr>"
  have fresh: "op_at y \<noteq> op_at x" if "y \<in> ?U" for y
  proof
    assume "op_at y = op_at x"
    moreover have "t_counter (op_at y) \<le> tr_counter (N (t_peer (op_at y)))" using N that by (simp add: net_good_def)
    ultimately show False using x by simp
  qed
  have heads: "h = tree_root \<or> h \<in> op_at ` set (tr_log ?t)" if "h \<in> set (head_deps x)" for h
    using hd [OF that] replica_goodD(10) [OF g(1)] by blast
  have logpos: "0 < t_counter (op_at y)" if "y \<in> set (tr_log ?t)" for y
    using that U replica_goodD(2) [OF g(1)] by (auto simp: ops_ok_def op_ok_def)
  have "op_ok x" using k heads logpos g(3) x by (auto simp: op_ok_def split: tree_kind.splits)
  moreover have "\<exists>y\<in>?V. op_at y = i \<and> makes_leaf y" if sp: "op_kind x = SplitLeaf i new s c h" for i new s c h
  proof -
    obtain r k' q where r: "node_at ?t i = Some r" "body_kind (nd_body r) = Inl k'" "nd_parent r = Some q"
      using k unfolding sp target_leaf_def by auto
    then have "i \<noteq> tree_root" using replica_goodD(1) [OF g(1)] by (auto simp: nodes_ok_def)
    from replica_good_maker [OF g(1) r(1) this] show ?thesis using r(2) replica_goodD(2) [OF g(1)] by blast
  qed
  moreover have "inj_on op_at ?V" using U fresh unfolding ops_ok_def inj_on_def by (metis insert_iff)
  ultimately have V: "ops_ok ?V" using U unfolding ops_ok_def by blast
  have shape: "node_at ?t1 i = node_at t0 i" for i by (simp add: node_at_def)
  have dom: "node_at t0 i \<noteq> None \<longleftrightarrow> node_at ?t i \<noteq> None" for i
    using tree_edits_shape [OF e, of i] hd0 [of i] by auto
  have "replica_good ?V ?t1"
  proof -
    have t: "replica_good ?V ?t" by (rule replica_good_mono [OF g(1)]) blast
    have n: "nodes_ok ?t1"
      using tree_edits_ok [OF e replica_goodD(1) [OF g(1)]] nodes_ok_cong [of ?t1 t0] by simp
    have "(\<exists>z\<in>set (tr_log ?t). op_at z = i \<and> makes_node z \<and> (makes_leaf z \<longleftrightarrow> (\<exists>k. body_kind (nd_body r) = Inl k)))"
      if r: "node_at t0 i = Some r" "i \<noteq> tree_root" for i r
    proof -
      obtain r0 where r0: "node_at ?t i = Some r0" using dom [of i] r by auto
      have "body_kind (nd_body r) = body_kind (nd_body r0)"
        using tree_edits_shape [OF e r0] r(1) by (auto simp: node_shape_def)
      then show ?thesis using replica_good_maker [OF g(1) r0 r(2)] by simp
    qed
    moreover have "nd_head r = tree_root \<or> nd_head r \<in> op_at ` set (tr_log ?t)" if "node_at t0 i = Some r" for i r
      using hd0 [OF that] replica_goodD(10) [OF g(1)] by force
    moreover have "\<forall>z\<in>set (tr_log ?t). makes_node z \<longrightarrow> node_at t0 (op_at z) \<noteq> None"
      using replica_goodD(9) [OF g(1)] dom by blast
    moreover have "t_counter (op_at z) \<le> tr_counter ?t + 1" if "z \<in> set (tr_log ?t) \<union> set (tr_buffered ?t)" for z
      using that replica_goodD(7,8) [OF g(1), of z] by auto
    ultimately show ?thesis
      using n t rest unfolding replica_good_def shape by simp
  qed
  moreover have fc: "\<not> frontier_contains (tr_frontier ?t1) (op_at x)"
  proof -
    have "op_at x \<notin> op_at ` set (tr_log ?t)" using fresh replica_goodD(2) [OF g(1)] by force
    then show ?thesis using replica_goodD(6) [OF g(1), of "op_at x"] rest g(3) by (simp add: x)
  qed
  moreover have "h = tree_root \<or> frontier_contains (tr_frontier ?t1) h" if "h \<in> set (head_deps x)" for h
    using heads [OF that] replica_goodD(6) [OF g(1), of h] logpos rest by auto
  ultimately have "replica_good ?V (record_op (apply_op ?t1 x) x)"
    using nd dom by (intro replica_good_apply [OF V]) (auto simp: shape x)
  then have ug: "replica_good ?V u" by (simp add: u commit_local_def)
  have e1: "tree_edits ?t1 (apply_op ?t1 x)"
    using nd dom tree_edits_ok [OF e replica_goodD(1) [OF g(1)]] nodes_ok_cong [of ?t1 t0]
    by (intro apply_op_edits) (auto simp: shape)
  have uu: "tr_log u = tr_log ?t @ [x]" "tr_peer u = p" "tr_counter u = tr_counter ?t + 1"
    using tree_edits_rest [OF e1] rest g(2) by (auto simp: u commit_local_def record_op_def)
  have i: "issued (N(p := u)) = ?V" using issued_update [of N p u] replica_goodD(2) [OF g(1)] uu(1) by auto
  show ?thesis
    unfolding net_good_def i
  proof (intro conjI allI ballI)
    show "ops_ok ?V" by (rule V)
  next
    fix q show "replica_good ?V ((N(p := u)) q)"
      using ug N replica_good_mono [of ?U "N q" ?V] by (auto simp: net_good_def)
  next
    fix q show "tr_peer ((N(p := u)) q) = q" using uu N by (simp add: net_good_def)
  next
    fix q show "0 \<le> tr_counter ((N(p := u)) q)" using uu N g(3) by (simp add: net_good_def)
  next
    fix y assume y: "y \<in> ?V"
    show "t_counter (op_at y) \<le> tr_counter ((N(p := u)) (t_peer (op_at y)))"
    proof (cases "y = x")
      case False
      then have "t_counter (op_at y) \<le> tr_counter (N (t_peer (op_at y)))" using y N by (simp add: net_good_def)
      then show ?thesis using uu(3) by (cases "t_peer (op_at y) = p") auto
    qed (simp add: x uu(3))
  qed
qed

lemma node_at_fork:
  "node_at (tree_fork t q) i = map_option (\<lambda>r. r\<lparr>nd_body := clone_body (nd_body r)\<rparr>) (node_at t i)"
  by (simp add: node_at_def tree_fork_def Let_def map_of_map)

lemma body_kind_clone [simp]: "body_kind (clone_body b) = body_kind b"
  by (cases b) (simp_all add: clone_body_def)

lemma bucket_build:
  "distinct (map nd_id rs) \<Longrightarrow> \<forall>r\<in>set rs. \<forall>p. nd_id r \<notin> set (bucket ix p) \<Longrightarrow>
    bucket (foldl index_add ix rs) p = bucket ix p @ map nd_id (filter (\<lambda>r. nd_parent r = Some p) rs)"
proof (induction rs arbitrary: ix)
  case (Cons r rs)
  have "\<forall>s\<in>set rs. \<forall>q. nd_id s \<notin> set (bucket (index_add ix r) q)"
    using Cons.prems by (auto simp: bucket_index_add image_iff)
  then show ?case using Cons by (auto simp: bucket_index_add)
qed simp

lemma mem_rebuilt:
  "i \<in> set (map g (filter Q (map snd (map (\<lambda>(k, r). (k, f r)) l)))) \<longleftrightarrow> (\<exists>e\<in>set l. g (f (snd e)) = i \<and> Q (f (snd e)))"
  by (induction l) auto

text \<open>A fork has the same nodes; its rebuilt index is the one the nodes determine.\<close>

lemma fork_nodes_ok:
  assumes ok: "nodes_ok t"
  shows "nodes_ok (tree_fork t q)"
proof -
  let ?f = "\<lambda>r. r\<lparr>nd_body := clone_body (nd_body r)\<rparr>"
  let ?ns = "map (\<lambda>(k, r). (k, ?f r)) (tr_nodes t)"
  have ns: "tr_nodes (tree_fork t q) = ?ns" "tr_index (tree_fork t q) = foldl index_add [] (map snd ?ns)"
    by (simp_all add: tree_fork_def Let_def)
  have keys: "map fst ?ns = map fst (tr_nodes t)" by (simp add: case_prod_unfold comp_def)
  have ids: "nd_id (snd e) = fst e" if "e \<in> set (tr_nodes t)" for e
    using that ok unfolding nodes_ok_def node_at_def by (metis map_of_is_SomeI prod.collapse)
  then have nds: "map nd_id (map snd ?ns) = map fst (tr_nodes t)" by (auto simp: case_prod_unfold)
  have dist: "distinct (map fst (tr_nodes t))" using ok by (simp add: nodes_ok_def)
  have bk: "bucket (tr_index (tree_fork t q)) p = map nd_id (filter (\<lambda>r. nd_parent r = Some p) (map snd ?ns))" for p
    unfolding ns(2) by (subst bucket_build) (simp_all add: nds dist bucket_def del: map_map)
  have "distinct (bucket (tr_index (tree_fork t q)) p)" for p
    unfolding bk by (rule distinct_map_filter) (simp only: nds dist)
  moreover have "i \<in> set (bucket (tr_index (tree_fork t q)) p) \<longleftrightarrow>
      (\<exists>r. node_at (tree_fork t q) i = Some r \<and> nd_parent r = Some p)" for i p
  proof -
    have "i \<in> set (bucket (tr_index (tree_fork t q)) p) \<longleftrightarrow> (\<exists>e\<in>set (tr_nodes t). nd_id (snd e) = i \<and> nd_parent (snd e) = Some p)"
      unfolding bk mem_rebuilt by simp
    also have "\<dots> \<longleftrightarrow> (\<exists>r. node_at t i = Some r \<and> nd_parent r = Some p)"
      using ids dist by (force simp: node_at_def map_of_eq_Some_iff)
    finally show ?thesis by (auto simp: node_at_fork)
  qed
  moreover have "parents_first ?ns"
    unfolding parents_first_def
  proof (intro allI impI)
    fix xs k r ys p assume e: "?ns = xs @ (k, r) # ys" and p: "nd_parent r = Some p"
    then obtain xs' e' ys' where s: "tr_nodes t = xs' @ e' # ys'" "xs = map (\<lambda>(k, r). (k, ?f r)) xs'" "(k, r) = (\<lambda>(k, r). (k, ?f r)) e'"
      by (auto simp: map_eq_append_conv map_eq_Cons_conv)
    obtain r0 where "e' = (k, r0)" "nd_parent r0 = Some p" using s(3) p by (cases e') auto
    then have "p \<in> fst ` set xs'" using ok s(1) unfolding nodes_ok_def parents_first_def by blast
    then show "p \<in> fst ` set xs" unfolding s(2) by force
  qed
  moreover have "\<exists>r k. node_at (tree_fork t q) tree_root = Some r \<and> nd_parent r = None \<and> body_kind (nd_body r) = Inr k"
    using ok by (auto simp: nodes_ok_def node_at_fork)
  moreover have "\<forall>i r. node_at (tree_fork t q) i = Some r \<longrightarrow> nd_id r = i" using ok by (auto simp: nodes_ok_def node_at_fork)
  moreover have "\<forall>i r. node_at (tree_fork t q) i = Some r \<and> i \<noteq> tree_root \<longrightarrow> nd_parent r \<noteq> None"
    using ok by (auto simp: nodes_ok_def node_at_fork)
  ultimately show ?thesis using dist unfolding nodes_ok_def ns(1) keys by simp
qed

lemma fork_good:
  assumes g: "replica_good U t"
  shows "replica_good U (tree_fork t q)"
proof -
  have same: "tr_log (tree_fork t q) = tr_log t" "tr_buffered (tree_fork t q) = tr_buffered t"
    "tr_counter (tree_fork t q) = tr_counter t" "tr_frontier (tree_fork t q) = tr_frontier t"
    by (simp_all add: tree_fork_def Let_def)
  have "\<exists>x\<in>set (tr_log t). op_at x = i \<and> makes_node x \<and> (makes_leaf x \<longleftrightarrow> (\<exists>k. body_kind (nd_body r) = Inl k))"
    if f: "node_at (tree_fork t q) i = Some r" "i \<noteq> tree_root" for i r
  proof -
    obtain r0 where "node_at t i = Some r0" "body_kind (nd_body r) = body_kind (nd_body r0)"
      using f by (auto simp: node_at_fork)
    then show ?thesis using replica_good_maker [OF g _ f(2)] by simp
  qed
  moreover have "nd_head r = tree_root \<or> nd_head r \<in> op_at ` set (tr_log t)" if f: "node_at (tree_fork t q) i = Some r" for i r
  proof -
    obtain r0 where "node_at t i = Some r0" "nd_head r = nd_head r0" using f by (auto simp: node_at_fork)
    then show ?thesis using replica_goodD(10) [OF g, of i r0] by simp
  qed
  moreover have "\<forall>x\<in>set (tr_log t). makes_node x \<longrightarrow> node_at (tree_fork t q) (op_at x) \<noteq> None"
    using replica_goodD(9) [OF g] by (simp add: node_at_fork)
  ultimately show ?thesis
    using g fork_nodes_ok [OF replica_goodD(1) [OF g], of q] unfolding replica_good_def same by simp
qed

lemma tree_net_good: "tree_net N \<Longrightarrow> net_good N"
proof (induction rule: tree_net.induct)
  case net_start
  show ?case by (rule net_good_start)
next
  case (net_act N p a u)
  then show ?case by (intro net_good_act)
next
  case (net_deliver N ops p)
  then have N: "ops_ok (issued N)" "replica_good (issued N) (N p)" "tr_peer (N p) = p" by (auto simp: net_good_def)
  have peer: "tr_peer (apply_update (N p) ops) = p"
  proof -
    have "tr_peer (foldl receive_op t ops) = tr_peer t" for t
      by (induction ops arbitrary: t) (auto simp: receive_op_def Let_def)
    moreover have "tr_peer (drain_buffered t) = tr_peer t" for t
      by (rule drain_keeps [where P = "\<lambda>u. tr_peer u = tr_peer t" and B = UNIV])
        (auto simp: drain_step_def record_op_def apply_op_def apply_split_def apply_merge_def add_node_def put_node_def Let_def
          split: tree_kind.split option.split node_body.split)
    ultimately show ?thesis by (simp add: apply_update_def N(3))
  qed
  have log: "set (tr_log (N p)) \<subseteq> set (tr_log (apply_update (N p) ops))"
  proof -
    have "tr_log (foldl receive_op t ops) = tr_log t" for t
      by (induction ops arbitrary: t) (auto simp: receive_op_def Let_def)
    moreover have "set (tr_log t) \<subseteq> set (tr_log (drain_buffered t))" for t
      by (rule drain_keeps [where P = "\<lambda>u. set (tr_log t) \<subseteq> set (tr_log u)" and B = UNIV])
        (auto simp: drain_step_def record_op_def apply_op_def apply_split_def apply_merge_def add_node_def put_node_def Let_def
          split: tree_kind.split option.split node_body.split)
    ultimately show ?thesis unfolding apply_update_def by metis
  qed
  show ?case using apply_update_good [OF N(1,2) net_deliver(2)] by (intro net_good_takes [OF net_deliver(3) _ peer _ log]) auto
next
  case (net_fork N q p)
  have "tr_log (tree_fork (N p) q) = tr_log (N p)" "tr_peer (tree_fork (N p) q) = q" "tr_counter (tree_fork (N p) q) = tr_counter (N p)"
    by (simp_all add: tree_fork_def tree_new_def Let_def)
  moreover have "replica_good (issued N) (tree_fork (N p) q)" using net_fork(3) by (intro fork_good) (simp add: net_good_def)
  ultimately show ?case using net_fork(2,3) by (intro net_good_takes) (auto simp: tree_new_def net_good_def)
qed

section \<open>Exchange\<close>

text \<open>The update holds exactly the logged operations the other side lacks, in the order of their ids.\<close>

lemma tree_diff_set: "set (tree_diff t f) = {x \<in> set (tr_log t). \<not> frontier_contains f (op_at x)}"
  by (auto simp: tree_diff_def)

lemma net_exchange:
  assumes N: "net_good N" and roots: "\<forall>x\<in>set (tr_log (N q)). tree_root \<notin> set (head_deps x)"
    and u: "u = apply_update (N p) (tree_diff (N q) (tr_frontier (N p)))"
  shows "set (tr_log (N q)) \<subseteq> set (tr_log u)"
proof -
  let ?U = "issued N" and ?ops = "tree_diff (N q) (tr_frontier (N p))"
  have U: "ops_ok ?U" and gp: "replica_good ?U (N p)" and gq: "replica_good ?U (N q)" using N by (auto simp: net_good_def)
  have sub: "set ?ops \<subseteq> ?U" using replica_goodD(2) [OF gq] by (auto simp: tree_diff_set)
  have g: "replica_good ?U u" using apply_update_good [OF U gp sub] by (simp add: u)
  let ?t = "foldl receive_op (N p) ?ops"
  have gt: "nodes_ok ?t" using receive_all_good [OF gp sub] replica_goodD(1) by blast
  have tf: "tr_frontier (foldl receive_op t xs) = tr_frontier t" for t xs
    by (induction xs arbitrary: t) (auto simp: receive_op_def Let_def)
  have h: "held u x" if "x \<in> set (tr_log (N q))" for x
  proof -
    have "held ?t x"
    proof (cases "frontier_contains (tr_frontier (N p)) (op_at x)")
      case True
      then show ?thesis by (simp add: held_def tf)
    next
      case False
      then show ?thesis using that by (intro receive_all_held) (simp add: tree_diff_set)
    qed
    then show ?thesis using drain_fixpoint [OF gt] by (simp add: u apply_update_def)
  qed
  have "set xs \<subseteq> set (tr_log u)" if "tr_log (N q) = xs @ ys" for xs ys
    using that
  proof (induction xs arbitrary: ys rule: rev_induct)
    case (snoc x xs)
    then have xs: "set xs \<subseteq> set (tr_log u)" and l: "tr_log (N q) = xs @ x # ys" by auto
    have xq: "x \<in> set (tr_log (N q))" using l by simp
    have pos: "0 < t_counter (op_at x)" using xq U replica_goodD(2) [OF gq] by (auto simp: ops_ok_def op_ok_def)
    have c: "\<And>i. i \<in> set (node_deps x) \<Longrightarrow> i = tree_root \<or> (\<exists>y\<in>set xs. op_at y = i \<and> makes_node y)"
      "\<And>d. d \<in> set (head_deps x) \<Longrightarrow> d = tree_root \<or> d \<in> op_at ` set xs"
      using replica_goodD(5) [OF gq] l unfolding causal_def by blast+
    have nd: "node_at u i \<noteq> None" if i: "i \<in> set (node_deps x)" for i
    proof (cases "i = tree_root")
      case True
      then show ?thesis using replica_goodD(1) [OF g] by (auto simp: nodes_ok_def)
    next
      case False
      then obtain y where "y \<in> set xs" "op_at y = i" "makes_node y" using c(1) [OF i] by blast
      then show ?thesis using replica_goodD(9) [OF g, of y] xs by blast
    qed
    have hd: "frontier_contains (tr_frontier u) d" if d: "d \<in> set (head_deps x)" for d
    proof -
      have "d \<noteq> tree_root" using roots xq d by blast
      then obtain y where y: "y \<in> set xs" "op_at y = d" using c(2) [OF d] by blast
      then have "y \<in> ?U" using xs replica_goodD(2) [OF g] by blast
      then have "0 < t_counter d" using U y(2) by (auto simp: ops_ok_def op_ok_def)
      then show ?thesis using replica_goodD(6) [OF g] y xs by blast
    qed
    have "dependencies_ready u x" using nd hd by (simp add: dependencies_ready_deps)
    then have "x \<notin> set (tr_buffered u)" using drain_fixpoint [OF gt] by (auto simp: u apply_update_def)
    then have "op_at x \<in> op_at ` set (tr_log u)" using h [OF xq] replica_goodD(6) [OF g pos] by (simp add: held_def)
    then obtain z where z: "z \<in> set (tr_log u)" "op_at z = op_at x" by auto
    have "z = x" using ops_ok_unique [OF U _ _ z(2)] z(1) xq replica_goodD(2) [OF g] replica_goodD(2) [OF gq] by blast
    then show ?case using xs z(1) by auto
  qed simp
  from this [of "tr_log (N q)" "[]"] show ?thesis by simp
qed

text \<open>Operations that are already held change nothing but the counter, and not that one either in a good replica.\<close>

lemma apply_update_held:
  assumes "\<forall>x\<in>set ops. frontier_contains (tr_frontier t) (op_at x) \<and> t_counter (op_at x) \<le> tr_counter t" and "tr_buffered t = []"
  shows "apply_update t ops = t"
proof -
  have "foldl receive_op t ops = t" using assms(1) by (induction ops) (auto simp: receive_op_def)
  moreover have "drain_pass t = (t, False)" using assms(2) by (simp add: drain_pass_def)
  ultimately show ?thesis by (simp add: apply_update_def) (subst drain_buffered.simps, simp)
qed

end
