(* ===== verification/TreeRender.thy ===== *)
theory TreeRender
  imports TreeSync
begin

text \<open>
  What the local edits do to the rendered text: the walk needs as many steps as there are nodes;
  a new child lands right after its anchor; splitting a leaf and merging two adjacent leaves keep
  the text; editing a leaf splices its text.
\<close>

lemma nodes_ok_id: "nodes_ok t \<Longrightarrow> node_at t i = Some r \<Longrightarrow> nd_id r = i"
  by (simp add: nodes_ok_def)

lemma nodes_ok_bucket:
  "nodes_ok t \<Longrightarrow> i \<in> set (bucket (tr_index t) p) \<longleftrightarrow> (\<exists>r. node_at t i = Some r \<and> nd_parent r = Some p)"
  by (simp add: nodes_ok_def)

section \<open>The walk\<close>

text \<open>The place of a node in the map; children come after their parent.\<close>

definition place :: "tree_crdt \<Rightarrow> tree_id \<Rightarrow> nat" where
  "place t i = length (takeWhile (\<lambda>e. fst e \<noteq> i) (tr_nodes t))"

lemma place_split: "tr_nodes t = xs @ (i, r) # ys \<Longrightarrow> i \<notin> fst ` set xs \<Longrightarrow> place t i = length xs"
  by (auto simp: place_def takeWhile_append image_iff dest: set_takeWhileD)

lemma place_bound: "node_at t i = Some r \<Longrightarrow> place t i < length (tr_nodes t)"
proof -
  assume "node_at t i = Some r"
  then have "(i, r) \<in> set (tr_nodes t)" by (simp add: node_at_def map_of_SomeD)
  then have "takeWhile (\<lambda>e. fst e \<noteq> i) (tr_nodes t) \<noteq> tr_nodes t" by (force simp: takeWhile_eq_all_conv)
  moreover have "length (takeWhile (\<lambda>e. fst e \<noteq> i) (tr_nodes t)) \<le> length (tr_nodes t)" by (rule length_takeWhile_le)
  ultimately show "place t i < length (tr_nodes t)"
    unfolding place_def by (metis le_neq_implies_less takeWhile_eq_take take_all_iff order_refl)
qed

lemma place_child:
  assumes ok: "nodes_ok t" and c: "node_at t c = Some r" "nd_parent r = Some p"
  shows "place t p < place t c"
proof -
  obtain xs ys where s: "tr_nodes t = xs @ (c, r) # ys" using c(1) by (metis map_of_SomeD node_at_def split_list)
  then have p: "p \<in> fst ` set xs" using ok c(2) unfolding nodes_ok_def parents_first_def by blast
  have "c \<notin> fst ` set xs" using ok s by (auto simp: nodes_ok_def)
  then have "place t c = length xs" using place_split [OF s] by blast
  moreover have "takeWhile (\<lambda>e. fst e \<noteq> p) (tr_nodes t) = takeWhile (\<lambda>e. fst e \<noteq> p) xs"
    unfolding s using p by (auto intro: takeWhile_append1)
  then have "place t p < length xs"
    using p unfolding place_def by (metis (mono_tags, lifting) image_iff le_neq_implies_less length_takeWhile_le set_takeWhileD takeWhile_eq_take take_all_iff order_refl)
  ultimately show ?thesis by simp
qed

lemma map_filter_in: "x \<in> set (List.map_filter f xs) \<longleftrightarrow> (\<exists>i\<in>set xs. f i = Some x)"
  by (auto simp: map_filter_mem image_iff) metis

lemma live_child:
  assumes "nodes_ok t" and "c \<in> set (live_children t p)"
  shows "\<exists>r. node_at t c = Some r \<and> nd_parent r = Some p \<and> nd_tomb r = None"
proof -
  have "\<exists>i r. i \<in> set (bucket (tr_index t) p) \<and> node_at t i = Some r \<and> nd_tomb r = None \<and> nd_id r = c"
    using assms(2) by (auto simp: live_children_def map_filter_in)
  then obtain i r where r: "i \<in> set (bucket (tr_index t) p)" "node_at t i = Some r" "nd_tomb r = None" "nd_id r = c" by blast
  then have "i = c" using nodes_ok_id [OF assms(1)] by simp
  then show ?thesis using r nodes_ok_bucket [OF assms(1)] by auto
qed

lemma live_child_iff:
  assumes ok: "nodes_ok t"
  shows "c \<in> set (live_children t p) \<longleftrightarrow> (\<exists>r. node_at t c = Some r \<and> nd_parent r = Some p \<and> nd_tomb r = None)"
proof
  assume "\<exists>r. node_at t c = Some r \<and> nd_parent r = Some p \<and> nd_tomb r = None"
  then obtain r where r: "node_at t c = Some r" "nd_parent r = Some p" "nd_tomb r = None" by blast
  then have "c \<in> set (bucket (tr_index t) p)" "nd_id r = c" using nodes_ok_id [OF ok] nodes_ok_bucket [OF ok] by auto
  then show "c \<in> set (live_children t p)" using r by (force simp: live_children_def map_filter_in)
qed (use live_child [OF ok] in blast)

lemma walk_fuel:
  assumes ok: "nodes_ok t"
  shows "node_at t i \<noteq> None \<Longrightarrow> length (tr_nodes t) \<le> k + place t i \<Longrightarrow> k \<le> m \<Longrightarrow> walk k t i = walk m t i"
proof (induction k arbitrary: i m)
  case 0
  then show ?case using place_bound [of t i] by auto
next
  case (Suc k)
  then obtain m' where m: "m = Suc m'" "k \<le> m'" by (cases m) auto
  have "walk k t c = walk m' t c" if c: "c \<in> set (live_children t i)" for c
  proof -
    obtain r where r: "node_at t c = Some r" "nd_parent r = Some i" using live_child [OF ok c] by blast
    show ?thesis using place_child [OF ok r] Suc.prems(2) r(1) m(2) by (intro Suc.IH) auto
  qed
  then show ?case by (auto simp: m(1) split: option.split node_body.split intro!: arg_cong [where f = concat])
qed

lemma render_fuel: "nodes_ok t \<Longrightarrow> length (tr_nodes t) \<le> m \<Longrightarrow> render t = walk m t tree_root"
  unfolding render_def by (rule walk_fuel) (auto simp: nodes_ok_def)

text \<open>
  Two trees render the same when their children lists render the same, child by child, and
  common leaves have the same text.
\<close>

definition sub_text :: "tree_crdt \<Rightarrow> tree_id \<Rightarrow> nat list" where
  "sub_text t i = walk (length (tr_nodes t)) t i"

lemma sub_text_unfold:
  assumes ok: "nodes_ok t" and r: "node_at t i = Some r"
  shows "sub_text t i = (case nd_body r of LeafBody _ x \<Rightarrow> body_text x | ElementBody _ \<Rightarrow> concat (map (sub_text t) (live_children t i)))"
proof -
  have "sub_text t i = walk (Suc (length (tr_nodes t))) t i"
    unfolding sub_text_def using r by (intro walk_fuel [OF ok]) auto
  then show ?thesis by (simp add: r sub_text_def [abs_def] split: node_body.split)
qed

lemma render_sub: "render t = sub_text t tree_root"
  by (simp add: render_def sub_text_def)

text \<open>
  Changing the nodes in \<open>S\<close> only: a node outside keeps its text when the children lists of each
  element outside give the same text, provided that the children outside \<open>S\<close> do.
\<close>

lemma sub_text_change:
  assumes ok: "nodes_ok t" "nodes_ok u"
    and body: "\<And>i r. i \<notin> S \<Longrightarrow> node_at t i = Some r \<Longrightarrow> \<exists>r'. node_at u i = Some r' \<and> nd_body r' = nd_body r"
    and kids: "\<And>i. i \<notin> S \<Longrightarrow> (\<And>c. c \<notin> S \<Longrightarrow> c \<in> set (live_children t i) \<Longrightarrow> sub_text u c = sub_text t c) \<Longrightarrow>
      concat (map (sub_text u) (live_children u i)) = concat (map (sub_text t) (live_children t i))"
  shows "node_at t i \<noteq> None \<Longrightarrow> i \<notin> S \<Longrightarrow> sub_text u i = sub_text t i"
proof (induction "length (tr_nodes t) - place t i" arbitrary: i rule: less_induct)
  case less
  then obtain r where r: "node_at t i = Some r" by auto
  obtain r' where r': "node_at u i = Some r'" "nd_body r' = nd_body r" using body [OF less.prems(2) r] by blast
  have "sub_text u c = sub_text t c" if c: "c \<notin> S" "c \<in> set (live_children t i)" for c
  proof -
    obtain q where q: "node_at t c = Some q" "nd_parent q = Some i" using live_child [OF ok(1) c(2)] by blast
    then show ?thesis using place_child [OF ok(1) q] place_bound [OF q(1)] c(1) by (intro less.hyps) auto
  qed
  from kids [OF less.prems(2) this] show ?case
    unfolding sub_text_unfold [OF ok(1) r] sub_text_unfold [OF ok(2) r'(1)] r'(2) by (simp split: node_body.split)
qed

section \<open>Order of the children\<close>

definition live_records :: "tree_crdt \<Rightarrow> tree_id \<Rightarrow> node_rec list" where
  "live_records t p = sort_nodes (filter (\<lambda>r. nd_tomb r = None) (List.map_filter (node_at t) (bucket (tr_index t) p)))"

lemma live_children_records: "live_children t p = map nd_id (live_records t p)"
  by (simp add: live_children_def live_records_def)

lemma map_filter_all:
  "(\<And>x. x \<in> set xs \<Longrightarrow> f x \<noteq> None) \<Longrightarrow> List.map_filter f xs = map (\<lambda>x. the (f x)) xs"
  by (induction xs) (force simp: List.map_filter_simps)+

lemma live_records_mem:
  assumes ok: "nodes_ok t"
  shows "r \<in> set (live_records t p) \<longleftrightarrow> node_at t (nd_id r) = Some r \<and> nd_parent r = Some p \<and> nd_tomb r = None"
proof -
  have "r \<in> set (live_records t p) \<longleftrightarrow> (\<exists>i\<in>set (bucket (tr_index t) p). node_at t i = Some r) \<and> nd_tomb r = None"
    by (auto simp: live_records_def map_filter_in)
  also have "\<dots> \<longleftrightarrow> node_at t (nd_id r) = Some r \<and> nd_parent r = Some p \<and> nd_tomb r = None"
    using nodes_ok_id [OF ok] nodes_ok_bucket [OF ok] by fastforce
  finally show ?thesis .
qed

lemma live_records_distinct: "nodes_ok t \<Longrightarrow> distinct (map nd_id (live_records t p))"
proof -
  assume ok: "nodes_ok t"
  let ?b = "bucket (tr_index t) p"
  have some: "node_at t i \<noteq> None" "nd_id (the (node_at t i)) = i" if "i \<in> set ?b" for i
    using ok that by (auto simp: nodes_ok_def)
  have "map nd_id (List.map_filter (node_at t) ?b) = ?b"
    using some by (subst map_filter_all) (auto intro: map_idI)
  then have "distinct (map nd_id (filter (\<lambda>r. nd_tomb r = None) (List.map_filter (node_at t) ?b)))"
    using ok by (intro distinct_map_filter) (simp add: nodes_ok_def)
  then show "distinct (map nd_id (live_records t p))"
    unfolding live_records_def by (metis mset_map sort_nodes_mset mset_eq_imp_distinct_iff)
qed

lemma live_children_distinct: "nodes_ok t \<Longrightarrow> distinct (live_children t p)"
  by (simp add: live_children_records live_records_distinct)

lemma live_records_order: "in_order (live_records t p)"
  by (simp add: live_records_def sort_nodes_order)

text \<open>A list of the live records in strict order of the keys is the list of the records.\<close>

lemma live_records_eq:
  assumes ok: "nodes_ok t" and rs: "sorted_wrt (\<lambda>a b. sort_lt (nd_sort a) (nd_sort b)) rs"
    and mem: "\<And>r. r \<in> set rs \<longleftrightarrow> node_at t (nd_id r) = Some r \<and> nd_parent r = Some p \<and> nd_tomb r = None"
  shows "live_records t p = rs"
proof -
  have set: "set (live_records t p) = set rs" using live_records_mem [OF ok] mem by blast
  have "distinct rs" using rs by (induction rs) auto
  moreover have "distinct (live_records t p)" using live_records_distinct [OF ok] distinct_map by blast
  ultimately have "mset rs = mset (live_records t p)" using set by (simp add: set_eq_iff_mset_eq_distinct)
  moreover have "in_order rs" unfolding in_order_def by (rule sorted_wrt_mono_rel [OF _ rs]) (auto dest: sort_lt_asym)
  moreover have "inj_on nd_sort (set rs)"
    using rs by (induction rs) auto
  ultimately show ?thesis using in_order_unique [of rs "live_records t p"] live_records_order by metis
qed

section \<open>A new child\<close>

text \<open>The keys of the live children are in strict order, each of the form that \<^verbatim>\<open>key_between\<close> makes.\<close>

definition spaced :: "tree_crdt \<Rightarrow> tree_id \<Rightarrow> bool" where
  "spaced t p \<longleftrightarrow> (\<forall>r\<in>set (live_records t p). frac_ok (sk_frac (nd_sort r))) \<and>
     sorted_wrt (\<lambda>a b. sk_frac (nd_sort a) < sk_frac (nd_sort b)) (live_records t p)"

text \<open>The live children before and after the place that an anchor names.\<close>

definition around :: "tree_id list \<Rightarrow> tree_id option \<Rightarrow> tree_id list \<times> tree_id list" where
  "around order after = (case after of None \<Rightarrow> ([], order)
     | Some a \<Rightarrow> (case index_where (\<lambda>c. c = a) order of
          Some ix \<Rightarrow> (take (ix + 1) order, drop (ix + 1) order) | None \<Rightarrow> (order, [])))"

lemma around_append: "around order after = (A, B) \<Longrightarrow> order = A @ B"
  by (auto simp: around_def split: option.splits)

lemma around_key:
  assumes "around (live_children t p) after = (A, B)"
  shows "key_after t p after = SortKey (key_between (frac_of t (if A = [] then None else Some (last A)))
    (frac_of t (if B = [] then None else Some (hd B)))) (tr_peer t)"
proof (cases after)
  case None
  then show ?thesis using assms by (simp add: around_def key_after_def)
next
  case (Some a)
  show ?thesis
  proof (cases "index_where (\<lambda>c. c = a) (live_children t p)")
    case None
    then show ?thesis using assms Some by (simp add: around_def key_after_def Let_def)
  next
    case ix: (Some ix)
    then have i: "ix < length (live_children t p)" "live_children t p ! ix = a" using index_where_Some [of "\<lambda>c. c = a" "live_children t p" ix] ix by auto
    have A: "A = take (ix + 1) (live_children t p)" "B = drop (ix + 1) (live_children t p)"
      using assms Some ix by (auto simp: around_def)
    have "A \<noteq> []" "last A = a" using i by (auto simp: A take_Suc_conv_app_nth)
    moreover have "B = [] \<longleftrightarrow> \<not> ix + 1 < length (live_children t p)" by (auto simp: A)
    moreover have "hd B = live_children t p ! (ix + 1)" if "ix + 1 < length (live_children t p)"
      using that by (simp add: A hd_drop_conv_nth)
    ultimately show ?thesis using Some ix by (simp add: key_after_def Let_def)
  qed
qed

lemma around_spaced:
  assumes ok: "nodes_ok t" and sp: "spaced t p" and ar: "around (live_children t p) after = (map nd_id A, map nd_id B)"
    and rs: "live_records t p = A @ B"
  shows "frac_ok (sk_frac (key_after t p after)) \<and>
    (\<forall>r\<in>set A. sk_frac (nd_sort r) < sk_frac (key_after t p after)) \<and>
    (\<forall>r\<in>set B. sk_frac (key_after t p after) < sk_frac (nd_sort r))"
proof -
  let ?f = "\<lambda>r. sk_frac (nd_sort r)"
  have at: "frac_of t (Some (nd_id r)) = Some (?f r)" if "r \<in> set (A @ B)" for r
    using that live_records_mem [OF ok, of r p] by (simp add: frac_of_def rs)
  define lo where "lo = (if A = [] then None else Some (?f (last A)))"
  define hi where "hi = (if B = [] then None else Some (?f (hd B)))"
  have k: "sk_frac (key_after t p after) = key_between lo hi"
    using at [of "last A"] at [of "hd B"]
    by (auto simp: around_key [OF ar] lo_def hi_def last_map hd_map) (simp_all add: frac_of_def)
  have fr: "\<And>r. r \<in> set (A @ B) \<Longrightarrow> frac_ok (?f r)" and srt: "sorted_wrt (\<lambda>a b. ?f a < ?f b) (A @ B)"
    using sp by (auto simp: spaced_def rs)
  have lt: "l < h" if "lo = Some l" "hi = Some h" for l h
    using that srt by (auto simp: lo_def hi_def sorted_wrt_append split: if_splits)
  have b: "(\<forall>l. lo = Some l \<longrightarrow> l < key_between lo hi) \<and> (\<forall>h. hi = Some h \<longrightarrow> key_between lo hi < h) \<and> frac_ok (key_between lo hi)"
    using fr lt by (intro key_between_strict) (auto simp: lo_def hi_def split: if_splits)
  have "?f r < key_between lo hi" if "r \<in> set A" for r
  proof -
    obtain C x where A: "A = C @ [x]" using \<open>r \<in> set A\<close> by (cases A rule: rev_cases) auto
    then have "?f x < key_between lo hi" using b by (simp add: lo_def)
    moreover have "r = x \<or> ?f r < ?f x" using that srt by (auto simp: A sorted_wrt_append)
    ultimately show ?thesis by auto
  qed
  moreover have "key_between lo hi < ?f r" if rB: "r \<in> set B" for r
  proof -
    obtain x C where B: "B = x # C" using rB by (cases B) auto
    then have "key_between lo hi < ?f x" using b by (simp add: hi_def)
    moreover have "r = x \<or> ?f x < ?f r" using rB srt by (auto simp: B sorted_wrt_append)
    ultimately show ?thesis by auto
  qed
  ultimately show ?thesis using b by (simp add: k)
qed

text \<open>
  What two trees agree on for the order of the children: the same nodes except the new one, with
  the same parents, tombstones and keys.
\<close>

definition same_places :: "tree_id set \<Rightarrow> tree_crdt \<Rightarrow> tree_crdt \<Rightarrow> bool" where
  "same_places S t u \<longleftrightarrow> (\<forall>i. i \<notin> S \<longrightarrow> (case (node_at t i, node_at u i) of
     (None, None) \<Rightarrow> True
   | (Some r, Some r') \<Rightarrow> nd_parent r' = nd_parent r \<and> nd_tomb r' = nd_tomb r \<and> nd_sort r' = nd_sort r
   | _ \<Rightarrow> False))"

lemma same_places_some:
  "same_places S t u \<Longrightarrow> i \<notin> S \<Longrightarrow> node_at t i = Some r \<Longrightarrow>
    \<exists>r'. node_at u i = Some r' \<and> nd_parent r' = nd_parent r \<and> nd_tomb r' = nd_tomb r \<and> nd_sort r' = nd_sort r"
  unfolding same_places_def by (drule spec [of _ i]) (auto split: option.splits)

lemma same_places_none: "same_places S t u \<Longrightarrow> i \<notin> S \<Longrightarrow> node_at t i = None \<Longrightarrow> node_at u i = None"
  unfolding same_places_def by (drule spec [of _ i]) (auto split: option.splits)

lemma live_insert:
  assumes ok: "nodes_ok t" "nodes_ok u" and same: "same_places {new} t u"
    and sp: "spaced t p" and ar: "around (live_children t p) after = (A, B)"
    and n: "node_at t new = None" "node_at u new = Some n" "nd_parent n = Some p" "nd_tomb n = None"
      "nd_sort n = key_after t p after"
  shows "live_children u p = A @ new # B"
proof -
  have AB: "live_children t p = A @ B" using around_append [OF ar] .
  define RA where "RA = take (length A) (live_records t p)"
  define RB where "RB = drop (length A) (live_records t p)"
  have R: "live_records t p = RA @ RB" by (simp add: RA_def RB_def)
  have ids: "map nd_id RA = A" "map nd_id RB = B"
    using AB by (simp_all add: live_children_records RA_def RB_def take_map [symmetric] drop_map [symmetric])
  note k = around_spaced [OF ok(1) sp ar [folded ids] R]
  let ?g = "\<lambda>r. the (node_at u (nd_id r))"
  have g: "node_at u (nd_id r) = Some (?g r)" "nd_parent (?g r) = Some p" "nd_tomb (?g r) = None" "nd_sort (?g r) = nd_sort r"
    "nd_id (?g r) = nd_id r" "nd_id r \<noteq> new"
    if "r \<in> set (RA @ RB)" for r
  proof -
    have r: "node_at t (nd_id r) = Some r" "nd_parent r = Some p" "nd_tomb r = None"
      using that live_records_mem [OF ok(1), of r p] by (auto simp: R)
    then have "nd_id r \<noteq> new" using n(1) by auto
    then obtain r' where "node_at u (nd_id r) = Some r'" "nd_parent r' = nd_parent r" "nd_tomb r' = nd_tomb r" "nd_sort r' = nd_sort r"
      using same_places_some [OF same _ r(1)] by blast
    then show "node_at u (nd_id r) = Some (?g r)" "nd_parent (?g r) = Some p" "nd_tomb (?g r) = None" "nd_sort (?g r) = nd_sort r"
      "nd_id (?g r) = nd_id r" "nd_id r \<noteq> new"
      using r nodes_ok_id [OF ok(2)] \<open>nd_id r \<noteq> new\<close> by auto
  qed
  let ?rs = "map ?g RA @ n # map ?g RB"
  have "live_records u p = ?rs"
  proof (rule live_records_eq [OF ok(2)])
    have srt: "sorted_wrt (\<lambda>a b. sk_frac (nd_sort a) < sk_frac (nd_sort b)) (RA @ RB)" using sp by (simp add: spaced_def R)
    let ?f = "\<lambda>r. sk_frac (nd_sort r)"
    have m: "map ?f ?rs = map ?f RA @ ?f n # map ?f RB" using g(4) by auto
    have "sorted_wrt (<) (map ?f (RA @ RB))" using srt by (simp only: sorted_wrt_map)
    then have "sorted_wrt (<) (map ?f RA @ ?f n # map ?f RB)" using k n(5) by (auto simp: sorted_wrt_append)
    then have "sorted_wrt (\<lambda>a b. sk_frac (nd_sort a) < sk_frac (nd_sort b)) ?rs"
      unfolding m [symmetric] by (simp only: sorted_wrt_map)
    then show "sorted_wrt (\<lambda>a b. sort_lt (nd_sort a) (nd_sort b)) ?rs"
      by (rule sorted_wrt_mono_rel [rotated]) (simp add: sort_lt_iff)
  next
    fix r
    show "r \<in> set ?rs \<longleftrightarrow> node_at u (nd_id r) = Some r \<and> nd_parent r = Some p \<and> nd_tomb r = None"
    proof
      assume "r \<in> set ?rs"
      then consider "r = n" | r0 where "r0 \<in> set (RA @ RB)" "r = ?g r0" by auto
      then show "node_at u (nd_id r) = Some r \<and> nd_parent r = Some p \<and> nd_tomb r = None"
      proof cases
        case 1
        then show ?thesis using n nodes_ok_id [OF ok(2) n(2)] by simp
      next
        case 2
        then show ?thesis using g [OF 2(1)] by simp
      qed
    next
      assume r: "node_at u (nd_id r) = Some r \<and> nd_parent r = Some p \<and> nd_tomb r = None"
      show "r \<in> set ?rs"
      proof (cases "nd_id r = new")
        case True
        then show ?thesis using r n(2) by simp
      next
        case False
        then obtain r0 where r0: "node_at t (nd_id r) = Some r0"
          using same_places_none [OF same] r by fastforce
        then have "nd_parent r0 = Some p" "nd_tomb r0 = None" using same_places_some [OF same _ r0] False r by auto
        then have "r0 \<in> set (RA @ RB)" using live_records_mem [OF ok(1), of r0 p] r0 nodes_ok_id [OF ok(1) r0] by (simp add: R)
        moreover have "r = ?g r0" using r nodes_ok_id [OF ok(1) r0] by simp
        ultimately show ?thesis by auto
      qed
    qed
  qed
  then have "live_children u p = map nd_id ?rs" by (simp add: live_children_records)
  moreover have "map nd_id (map ?g RA) = A" "map nd_id (map ?g RB) = B" using g(5) ids by (auto simp: comp_def)
  moreover have "nd_id n = new" using nodes_ok_id [OF ok(2) n(2)] .
  ultimately show ?thesis by simp
qed

text \<open>Where the bucket is the same and the records differ in other fields only, so is the order.\<close>

lemma insert_by_sort_map:
  "(\<And>x. x \<in> set (r # xs) \<Longrightarrow> nd_sort (f x) = nd_sort x) \<Longrightarrow> insert_by_sort (f r) (map f xs) = map f (insert_by_sort r xs)"
  by (induction xs) auto

lemma sort_nodes_map: "(\<And>x. x \<in> set xs \<Longrightarrow> nd_sort (f x) = nd_sort x) \<Longrightarrow> sort_nodes (map f xs) = map f (sort_nodes xs)"
proof (induction xs)
  case (Cons x xs)
  have "insert_by_sort (f x) (map f (sort_nodes xs)) = map f (insert_by_sort x (sort_nodes xs))"
    using Cons.prems by (intro insert_by_sort_map) auto
  then show ?case using Cons by (simp add: sort_nodes_def)
qed (simp add: sort_nodes_def)

lemma live_same:
  assumes ok: "nodes_ok t" "nodes_ok u" and b: "bucket (tr_index u) q = bucket (tr_index t) q"
    and same: "same_places S t u" and S: "\<And>i. i \<in> S \<Longrightarrow> i \<notin> set (bucket (tr_index t) q)"
  shows "live_children u q = live_children t q"
proof -
  let ?b = "bucket (tr_index t) q" and ?g = "\<lambda>r. the (node_at u (nd_id r))"
  have some: "\<exists>r r'. node_at t i = Some r \<and> node_at u i = Some r' \<and> nd_tomb r' = nd_tomb r \<and> nd_sort r' = nd_sort r \<and>
      nd_id r = i \<and> nd_id r' = i" if i: "i \<in> set ?b" for i
  proof -
    obtain r where r: "node_at t i = Some r" using i nodes_ok_bucket [OF ok(1)] by blast
    have "i \<notin> S" using S i by blast
    then obtain r' where "node_at u i = Some r'" "nd_tomb r' = nd_tomb r" "nd_sort r' = nd_sort r"
      using same_places_some [OF same _ r] by blast
    then show ?thesis using r nodes_ok_id [OF ok(1)] nodes_ok_id [OF ok(2)] by blast
  qed
  have m: "List.map_filter (node_at t) xs = map (\<lambda>i. the (node_at t i)) xs \<and> List.map_filter (node_at u) xs = map ?g (map (\<lambda>i. the (node_at t i)) xs)"
    if "set xs \<subseteq> set ?b" for xs
  proof -
    have "List.map_filter (node_at t) xs = map (\<lambda>i. the (node_at t i)) xs" "List.map_filter (node_at u) xs = map (\<lambda>i. the (node_at u i)) xs"
      using some that by (intro map_filter_all; fastforce)+
    moreover have "map (\<lambda>i. the (node_at u i)) xs = map ?g (map (\<lambda>i. the (node_at t i)) xs)" using some that by fastforce
    ultimately show ?thesis by simp
  qed
  let ?ts = "List.map_filter (node_at t) ?b"
  have u: "List.map_filter (node_at u) ?b = map ?g ?ts" using m [of ?b] by simp
  have g: "nd_tomb (?g r) = nd_tomb r \<and> nd_sort (?g r) = nd_sort r \<and> nd_id (?g r) = nd_id r" if "r \<in> set ?ts" for r
    using that some by (fastforce simp: map_filter_in)
  have "filter (\<lambda>r. nd_tomb r = None) (map ?g ?ts) = map ?g (filter (\<lambda>r. nd_tomb r = None) ?ts)"
    using g by (auto simp: filter_map comp_def intro!: arg_cong [where f = "map ?g"] filter_cong)
  then have "live_children u q = map nd_id (sort_nodes (map ?g (filter (\<lambda>r. nd_tomb r = None) ?ts)))"
    by (simp add: live_children_def b u)
  also have "\<dots> = map nd_id (map ?g (sort_nodes (filter (\<lambda>r. nd_tomb r = None) ?ts)))"
    using g by (subst sort_nodes_map) auto
  also have "\<dots> = live_children t q" using g by (auto simp: live_children_def)
  finally show ?thesis .
qed

text \<open>Dropping a record from a bucket keeps the order of the others.\<close>

lemma insert_by_sort_filter:
  "in_order xs \<Longrightarrow> P r \<Longrightarrow> filter P (insert_by_sort r xs) = insert_by_sort r (filter P xs)"
proof (induction xs)
  case (Cons x xs)
  have *: "insert_by_sort r (filter P xs) = r # filter P xs" if "\<not> sort_lt (nd_sort x) (nd_sort r)"
  proof (cases "filter P xs")
    case (Cons y ys)
    then have "y \<in> set xs" by (metis filter_eq_ConsD in_set_conv_decomp)
    then have "\<not> sort_lt (nd_sort y) (nd_sort x)" using \<open>in_order (x # xs)\<close> by (simp add: in_order_Cons)
    then have "\<not> sort_lt (nd_sort y) (nd_sort r)" using that sort_lt_linear sort_lt_trans by metis
    then show ?thesis using Cons by simp
  qed simp
  then show ?case using Cons by (auto simp: in_order_Cons)
qed simp

lemma insert_by_sort_drop: "\<not> P r \<Longrightarrow> filter P (insert_by_sort r xs) = filter P xs"
  by (induction xs) auto

lemma sort_nodes_filter: "sort_nodes (filter P xs) = filter P (sort_nodes xs)"
proof (induction xs)
  case (Cons x xs)
  then show ?case using insert_by_sort_filter [OF sort_nodes_order, of P x xs] insert_by_sort_drop [of P x]
    by (cases "P x") (simp_all add: sort_nodes_def)
qed (simp add: sort_nodes_def)

end
