(* ===== verification/TreeEdit.thy ===== *)
theory TreeEdit
  imports TreeRender
begin

text \<open>
  The local edits of a tree and the text they leave: splitting, merging, creating and editing
  leaves.
\<close>

lemma body_text_seed [simp]: "body_text (text_seed p s) = s"
  by (simp add: body_text_def text_seed_list)

lemma node_at_counter [simp]: "node_at (t\<lparr>tr_counter := c\<rparr>) i = node_at t i"
  by (simp add: node_at_def)

lemma index_add_node [simp]: "tr_index (add_node t i r) = index_add (tr_index t) r"
  by (simp add: add_node_def)

lemma put_node_rest [simp]: "tr_counter (put_node t i r) = tr_counter t" "tr_peer (put_node t i r) = tr_peer t"
  by (simp_all add: put_node_def)

lemma record_op_rest [simp]: "tr_nodes (record_op t x) = tr_nodes t" "tr_index (record_op t x) = tr_index t"
  by (simp_all add: record_op_def)

text \<open>The id that a replica of the network gives out next belongs to no node.\<close>

lemma next_id_fresh:
  assumes N: "net_good N"
  shows "node_at (N p) (TreeOpId (tr_counter (N p) + 1) p) = None"
proof (rule ccontr)
  let ?i = "TreeOpId (tr_counter (N p) + 1) p"
  have g: "replica_good (issued N) (N p)" "0 \<le> tr_counter (N p)" using N by (auto simp: net_good_def)
  assume "node_at (N p) ?i \<noteq> None"
  then obtain r where "node_at (N p) ?i = Some r" by auto
  moreover have "?i \<noteq> tree_root" using g(2) by (simp add: tree_root_def)
  ultimately obtain x where x: "x \<in> set (tr_log (N p))" "op_at x = ?i" using replica_good_maker [OF g(1)] by blast
  then have "x \<in> issued N" using replica_goodD(2) [OF g(1)] by blast
  then have "t_counter (op_at x) \<le> tr_counter (N (t_peer (op_at x)))" using N by (simp add: net_good_def)
  then show False using x(2) by simp
qed

lemma net_nodes_ok: "net_good N \<Longrightarrow> nodes_ok (N p)"
  using replica_goodD(1) by (auto simp: net_good_def)

lemma net_peer: "net_good N \<Longrightarrow> tr_peer (N p) = p"
  by (simp add: net_good_def)

section \<open>Splitting\<close>

text \<open>The tree after a split: the head in the leaf, the tail in a new leaf next to it.\<close>

lemma split_leaf_result:
  assumes ok: "nodes_ok t" and fresh: "node_at t (TreeOpId (tr_counter t + 1) (tr_peer t)) = None"
    and s: "split_leaf t i at_byte = Inr (u, new)"
  shows "\<exists>r k x p n r' q. new = TreeOpId (tr_counter t + 1) (tr_peer t) \<and>
    node_at t i = Some r \<and> nd_body r = LeafBody k x \<and> nd_parent r = Some p \<and> byte_to_char (body_text x) at_byte = Inr (Some n) \<and>
    nodes_ok u \<and> node_at u i = Some r' \<and> nd_body r' = LeafBody k (text_seed (t_peer i) (take n (body_text x))) \<and>
    nd_parent r' = Some p \<and> nd_tomb r' = nd_tomb r \<and> nd_sort r' = nd_sort r \<and>
    node_at u new = Some q \<and> nd_body q = LeafBody k (text_seed (t_peer new) (drop n (body_text x))) \<and> nd_parent q = Some p \<and>
    nd_tomb q = None \<and> nd_sort q = key_after t p (Some i) \<and> (\<forall>j. j \<noteq> i \<and> j \<noteq> new \<longrightarrow> node_at u j = node_at t j) \<and>
    (\<forall>j. j \<noteq> p \<longrightarrow> bucket (tr_index u) j = bucket (tr_index t) j)"
proof -
  obtain tx where tx: "leaf_text t i = Inr tx" using s by (auto simp: split_leaf_def split: sum.splits)
  obtain r k x where r: "node_at t i = Some r" "nd_body r = LeafBody k x" "tx = body_text x"
    using leaf_text_node [OF tx] by blast
  obtain n where n: "byte_to_char tx at_byte = Inr (Some n)"
    using s tx by (auto simp: split_leaf_def split: sum.splits option.splits)
  obtain p where p: "nd_parent r = Some p"
    using s tx n r by (auto simp: split_leaf_def split: option.splits)
  let ?new = "TreeOpId (tr_counter t + 1) (tr_peer t)" and ?c = "t\<lparr>tr_counter := tr_counter t + 1\<rparr>"
  let ?x = "TreeOp ?new (SplitLeaf i ?new (key_after t p (Some i)) (int n) (nd_head r))"
  have u: "u = record_op (apply_op ?c ?x) ?x" "new = ?new"
    using s tx n r p by (auto simp: split_leaf_def next_op_id_def Let_def commit_local_def)
  have okc: "nodes_ok ?c" using ok nodes_ok_cong [of ?c t] by simp
  have "tree_edits ?c (apply_op ?c ?x)" using r(1) by (intro apply_op_edits [OF okc]) (simp add: node_deps_def)
  then have oku: "nodes_ok u" using tree_edits_ok [OF _ okc] nodes_ok_cong [of u "apply_op ?c ?x"] by (simp add: u)
  have ne: "?new \<noteq> i" using fresh r(1) by auto
  have cut: "take (nat (min (int n) (int (length tx)))) tx = take n tx" "drop (nat (min (int n) (int (length tx)))) tx = drop n tx"
    by (simp_all add: min_def)
  let ?r = "r\<lparr>nd_body := LeafBody k (text_seed (t_peer i) (take n tx)), nd_head := ?new\<rparr>"
  let ?q = "new_node ?new p (key_after t p (Some i)) ?new (LeafBody k (text_seed (t_peer ?new) (drop n tx))) tree_root"
  have a: "apply_op ?c ?x = add_node (put_node ?c i ?r) ?new ?q"
    using r p fresh ne cut by (simp add: apply_op_def apply_split_def Let_def)
  show ?thesis
    unfolding u(2) using r p n oku ne
    by (intro exI [of _ r] exI [of _ k] exI [of _ x] exI [of _ p] exI [of _ n] exI [of _ ?r] exI [of _ ?q])
      (auto simp: u(1) a new_node_def bucket_index_add)
qed

lemma split_render:
  assumes N: "net_good N" and s: "split_leaf (N pr) i at_byte = Inr (u, new)"
    and r: "node_at (N pr) i = Some r" "nd_parent r = Some p" "nd_tomb r = None" and sp: "spaced (N pr) p"
  shows "render u = render (N pr)"
proof -
  let ?t = "N pr"
  have ok: "nodes_ok ?t" by (rule net_nodes_ok [OF N])
  have fresh: "node_at ?t (TreeOpId (tr_counter ?t + 1) (tr_peer ?t)) = None"
    using next_id_fresh [OF N] net_peer [OF N] by simp
  obtain k x n r' q where n: "new = TreeOpId (tr_counter ?t + 1) (tr_peer ?t)" and b: "nd_body r = LeafBody k x"
    and oku: "nodes_ok u" and i': "node_at u i = Some r'" "nd_body r' = LeafBody k (text_seed (t_peer i) (take n (body_text x)))"
      "nd_parent r' = Some p" "nd_tomb r' = nd_tomb r" "nd_sort r' = nd_sort r"
    and new: "node_at u new = Some q" "nd_body q = LeafBody k (text_seed (t_peer new) (drop n (body_text x)))"
      "nd_parent q = Some p" "nd_tomb q = None" "nd_sort q = key_after ?t p (Some i)"
    and rest: "\<And>j. j \<noteq> i \<Longrightarrow> j \<noteq> new \<Longrightarrow> node_at u j = node_at ?t j"
    and bk: "\<And>j. j \<noteq> p \<Longrightarrow> bucket (tr_index u) j = bucket (tr_index ?t) j"
    using split_leaf_result [OF ok fresh s] r by auto
  have nn: "node_at ?t new = None" using fresh n by simp
  have same: "same_places {new} ?t u"
    unfolding same_places_def
  proof (intro allI impI)
    fix j assume "j \<notin> {new}"
    then show "case (node_at ?t j, node_at u j) of (None, None) \<Rightarrow> True
       | (Some r, Some r') \<Rightarrow> nd_parent r' = nd_parent r \<and> nd_tomb r' = nd_tomb r \<and> nd_sort r' = nd_sort r | _ \<Rightarrow> False"
      using r i' rest [of j] by (cases "j = i") (auto split: option.splits)
  qed
  have live: "i \<in> set (live_children ?t p)" using r live_child_iff [OF ok] by blast
  then obtain ix where ix: "index_where (\<lambda>c. c = i) (live_children ?t p) = Some ix"
    using index_where_None [of "\<lambda>c. c = i" "live_children ?t p"] by (cases "index_where (\<lambda>c. c = i) (live_children ?t p)") auto
  then have il: "ix < length (live_children ?t p)" "live_children ?t p ! ix = i"
    using index_where_Some [of "\<lambda>c. c = i" "live_children ?t p" ix] by auto
  let ?A = "take ix (live_children ?t p)" and ?B = "drop (ix + 1) (live_children ?t p)"
  have ar: "around (live_children ?t p) (Some i) = (?A @ [i], ?B)"
    using ix il by (simp add: around_def take_Suc_conv_app_nth)
  from live_insert [OF ok oku same sp ar nn new(1,3,4,5)] have lu: "live_children u p = (?A @ [i]) @ new # ?B" .
  have lt: "live_children ?t p = (?A @ [i]) @ ?B" by (rule around_append [OF ar])
  have dist: "distinct ((?A @ [i]) @ ?B)" using live_children_distinct [OF ok, of p] lt by metis
  have ti: "sub_text ?t i = body_text x" "sub_text u i = take n (body_text x)" "sub_text u new = drop n (body_text x)"
    using sub_text_unfold [OF ok r(1)] sub_text_unfold [OF oku i'(1)] sub_text_unfold [OF oku new(1)] b i'(2) new(2) by simp_all
  have td: "take n (body_text x) @ drop n (body_text x) @ ys = body_text x @ ys" for ys
    by (metis append_assoc append_take_drop_id)
  have nolive: "new \<notin> set (live_children ?t j)" for j using nn live_child_iff [OF ok] by auto
  have root: "tree_root \<noteq> i" "tree_root \<noteq> new" using ok r(1) b nn by (auto simp: nodes_ok_def)
  have "sub_text u tree_root = sub_text ?t tree_root"
  proof (rule sub_text_change [OF ok oku, of "{i, new}"])
    fix j c assume j: "j \<notin> {i, new}"
      and IH: "\<And>c. c \<notin> {i, new} \<Longrightarrow> c \<in> set (live_children ?t j) \<Longrightarrow> sub_text u c = sub_text ?t c"
    show "concat (map (sub_text u) (live_children u j)) = concat (map (sub_text ?t) (live_children ?t j))"
    proof (cases "j = p")
      case True
      have "c \<in> set (live_children ?t p)" "c \<notin> {i, new}" if "c \<in> set ?A \<union> set ?B" for c
        using that dist nolive [of p] by (auto dest: in_set_takeD in_set_dropD)
      then have A: "map (sub_text u) ?A = map (sub_text ?t) ?A" and B: "map (sub_text u) ?B = map (sub_text ?t) ?B"
        using IH True by auto
      have "concat (map (sub_text u) (live_children u p)) = concat (map (sub_text ?t) ((?A @ [i]) @ ?B))"
        unfolding lu by (simp only: map_append concat_append list.map concat.simps A B ti append_assoc append_Nil append_Nil2 td)
      then show ?thesis unfolding True by (simp only: lt [symmetric])
    next
      case False
      then have "live_children u j = live_children ?t j"
        using nn nodes_ok_bucket [OF ok] by (intro live_same [OF ok oku bk same]) auto
      moreover have "i \<notin> set (live_children ?t j)" using False r live_child_iff [OF ok] by auto
      ultimately show ?thesis using IH nolive [of j] by (intro arg_cong [where f = concat]) (auto, metis)
    qed
  qed (use ok root rest in \<open>auto simp: nodes_ok_def\<close>)
  then show ?thesis by (simp add: render_sub)
qed

section \<open>Merging\<close>

lemma filter_map_where: "(\<And>z. z \<in> set zs \<Longrightarrow> P (g z) \<longleftrightarrow> Q z) \<Longrightarrow> filter P (map g zs) = map g (filter Q zs)"
  by (induction zs) auto

lemma merge_render:
  assumes ok: "nodes_ok t" and m: "merge_adjacent_leaves t l r = Inr u" and lr: "l \<noteq> r"
  shows "render u = render t \<and> (\<exists>s s'. leaf_text t l = Inr s \<and> leaf_text t r = Inr s' \<and> leaf_text u l = Inr (s @ s')) \<and>
    (\<forall>p. live_children u p = filter (\<lambda>c. c \<noteq> r) (live_children t p))"
proof -
  obtain s s' where s: "leaf_text t l = Inr s" "leaf_text t r = Inr s'"
    using m by (auto simp: merge_adjacent_leaves_def split: sum.splits)
  obtain a k x b k' y where n: "node_at t l = Some a" "nd_body a = LeafBody k x" "s = body_text x"
    "node_at t r = Some b" "nd_body b = LeafBody k' y" "s' = body_text y"
    using leaf_text_node [OF s(1)] leaf_text_node [OF s(2)] by blast
  obtain p where p: "nd_parent a = Some p" using m s n by (auto simp: merge_adjacent_leaves_def split: option.splits)
  obtain ix where ix: "index_where (\<lambda>c. c = l) (live_children t p) = Some ix" "ix + 1 < length (live_children t p)" "live_children t p ! (ix + 1) = r"
    using m s n p by (auto simp: merge_adjacent_leaves_def Let_def split: option.splits if_splits)
  then have il: "ix < length (live_children t p)" "live_children t p ! ix = l"
    using index_where_Some [of "\<lambda>c. c = l" "live_children t p" ix] by auto
  let ?i = "TreeOpId (tr_counter t + 1) (tr_peer t)" and ?c = "t\<lparr>tr_counter := tr_counter t + 1\<rparr>"
  let ?x = "TreeOp ?i (MergeLeaves l r (nd_head a) (nd_head b))"
  let ?a = "a\<lparr>nd_body := LeafBody k (text_seed (t_peer l) (s @ s')), nd_head := ?i\<rparr>"
  have u: "u = record_op (apply_op ?c ?x) ?x"
    using m s n p ix by (simp add: merge_adjacent_leaves_def Let_def next_op_id_def commit_local_def)
  have ap: "apply_op ?c ?x = put_node (put_node ?c l ?a) r (bury ?i b)"
    using n lr by (simp add: apply_op_def apply_merge_def Let_def)
  have okc: "nodes_ok ?c" using ok nodes_ok_cong [of ?c t] by simp
  have oku: "nodes_ok u"
    using tree_edits_ok [OF apply_merge_edits okc, of l r ?i] nodes_ok_cong [of u "apply_op ?c ?x"] by (simp add: u apply_op_def)
  have nu: "node_at u l = Some ?a" "node_at u r = Some (bury ?i b)" "\<And>j. j \<noteq> l \<Longrightarrow> j \<noteq> r \<Longrightarrow> node_at u j = node_at t j"
    using lr by (simp_all add: u ap)
  have bk: "tr_index u = tr_index t" by (simp add: u ap)
  have live: "live_children u q = filter (\<lambda>c. c \<noteq> r) (live_children t q)" for q
  proof -
    let ?g = "\<lambda>z. the (node_at u (nd_id z))"
    let ?b = "bucket (tr_index t) q"
    have at: "\<exists>z z'. node_at t j = Some z \<and> node_at u j = Some z' \<and> nd_id z = j \<and> nd_id z' = j \<and> nd_sort z' = nd_sort z \<and>
        (nd_tomb z' = None \<longleftrightarrow> nd_tomb z = None \<and> j \<noteq> r)" if "j \<in> set ?b" for j
    proof -
      obtain z where z: "node_at t j = Some z" using \<open>j \<in> set ?b\<close> nodes_ok_bucket [OF ok] by blast
      have "\<exists>z'. node_at u j = Some z' \<and> nd_sort z' = nd_sort z \<and> (nd_tomb z' = None \<longleftrightarrow> nd_tomb z = None \<and> j \<noteq> r)"
      proof (cases "j = l \<or> j = r")
        case True
        then show ?thesis using nu(1,2) n(1,4) z lr by (elim disjE) (simp_all add: bury_def)
      next
        case False
        then show ?thesis using nu(3) z by simp
      qed
      then obtain z' where z': "node_at u j = Some z' \<and> nd_sort z' = nd_sort z \<and> (nd_tomb z' = None \<longleftrightarrow> nd_tomb z = None \<and> j \<noteq> r)" ..
      then have "nd_id z' = j" using nodes_ok_id [OF oku] by simp
      then show ?thesis using z z' nodes_ok_id [OF ok z] by (intro exI [of _ z] exI [of _ z']) simp
    qed
    have mt: "List.map_filter (node_at t) ?b = map (\<lambda>j. the (node_at t j)) ?b"
      and mu: "List.map_filter (node_at u) ?b = map (\<lambda>j. the (node_at u j)) ?b"
      by (rule map_filter_all, use at in blast)+
    let ?ts = "map (\<lambda>j. the (node_at t j)) ?b"
    have g: "nd_sort (?g z) = nd_sort z \<and> nd_id (?g z) = nd_id z \<and> (nd_tomb (?g z) = None \<longleftrightarrow> nd_tomb z = None \<and> nd_id z \<noteq> r)"
      if zt: "z \<in> set ?ts" for z
    proof -
      obtain j where j: "j \<in> set ?b" "z = the (node_at t j)" using zt by auto
      obtain y z' where "node_at t j = Some y" "node_at u j = Some z'" "nd_id y = j" "nd_id z' = j" "nd_sort z' = nd_sort y"
        "nd_tomb z' = None \<longleftrightarrow> nd_tomb y = None \<and> j \<noteq> r"
        using at [OF j(1)] by (elim exE conjE) (rule that)
      then show ?thesis using j(2) by simp
    qed
    have "the (node_at u j) = ?g (the (node_at t j))" if jb: "j \<in> set ?b" for j
      using at [OF jb] by auto
    then have mg: "map (\<lambda>j. the (node_at u j)) ?b = map ?g ?ts" by simp
    have "filter (\<lambda>z. nd_tomb z = None) (map (\<lambda>j. the (node_at u j)) ?b) = map ?g (filter (\<lambda>z. nd_tomb z = None \<and> nd_id z \<noteq> r) ?ts)"
      unfolding mg by (rule filter_map_where) (use g in blast)
    then have "live_children u q = map nd_id (sort_nodes (map ?g (filter (\<lambda>z. nd_tomb z = None \<and> nd_id z \<noteq> r) ?ts)))"
      by (simp add: live_children_def bk mu del: map_map)
    also have "\<dots> = map nd_id (map ?g (sort_nodes (filter (\<lambda>z. nd_tomb z = None \<and> nd_id z \<noteq> r) ?ts)))"
      using g by (subst sort_nodes_map) auto
    also have "\<dots> = map nd_id (sort_nodes (filter (\<lambda>z. nd_tomb z = None \<and> nd_id z \<noteq> r) ?ts))" using g by auto
    also have "filter (\<lambda>z. nd_tomb z = None \<and> nd_id z \<noteq> r) ?ts = filter (\<lambda>z. nd_id z \<noteq> r) (filter (\<lambda>z. nd_tomb z = None) ?ts)"
      by (simp add: conj_commute)
    finally show ?thesis by (simp add: live_children_def mt sort_nodes_filter filter_map_where [of _ "\<lambda>c. c \<noteq> r" nd_id "\<lambda>z. nd_id z \<noteq> r"] del: map_map filter_filter)
  qed
  let ?A = "take ix (live_children t p)" and ?B = "drop (ix + 2) (live_children t p)"
  have lt: "live_children t p = ?A @ l # r # ?B"
    using id_take_nth_drop [OF il(1)] Cons_nth_drop_Suc [of "Suc ix" "live_children t p"] ix(2,3) il(2) by simp
  have dist: "distinct (?A @ l # r # ?B)" using live_children_distinct [OF ok, of p] lt by metis
  have lu: "live_children u p = ?A @ l # ?B"
  proof -
    have "filter (\<lambda>c. c \<noteq> r) ?A = ?A" "filter (\<lambda>c. c \<noteq> r) ?B = ?B" by (rule filter_True, use dist in auto)+
    then have "filter (\<lambda>c. c \<noteq> r) (?A @ l # r # ?B) = ?A @ l # ?B" using lr by simp
    then show ?thesis using live [of p] lt by metis
  qed
  have ti: "sub_text t l = s" "sub_text t r = s'" "sub_text u l = s @ s'"
    using sub_text_unfold [OF ok n(1)] sub_text_unfold [OF ok n(4)] sub_text_unfold [OF oku nu(1)] n by simp_all
  have onlyp: "l \<in> set (live_children t j) \<longleftrightarrow> j = p" "r \<in> set (live_children t j) \<longleftrightarrow> j = p" for j
  proof -
    have "r \<in> set (live_children t p)" "l \<in> set (live_children t p)" by (subst lt, simp)+
    then show "l \<in> set (live_children t j) \<longleftrightarrow> j = p" "r \<in> set (live_children t j) \<longleftrightarrow> j = p"
      using live_child_iff [OF ok] by force+
  qed
  have root: "tree_root \<noteq> l" "tree_root \<noteq> r" using ok n by (auto simp: nodes_ok_def)
  have "sub_text u tree_root = sub_text t tree_root"
  proof (rule sub_text_change [OF ok oku, of "{l, r}"])
    fix j assume j: "j \<notin> {l, r}"
      and IH: "\<And>c. c \<notin> {l, r} \<Longrightarrow> c \<in> set (live_children t j) \<Longrightarrow> sub_text u c = sub_text t c"
    show "concat (map (sub_text u) (live_children u j)) = concat (map (sub_text t) (live_children t j))"
    proof (cases "j = p")
      case True
      have "c \<in> set (live_children t p)" "c \<notin> {l, r}" if "c \<in> set ?A \<union> set ?B" for c
        using that dist by (auto dest: in_set_takeD in_set_dropD)
      then have A: "map (sub_text u) ?A = map (sub_text t) ?A" and B: "map (sub_text u) ?B = map (sub_text t) ?B"
        using IH True by auto
      have "concat (map (sub_text u) (live_children u p)) = concat (map (sub_text t) (?A @ l # r # ?B))"
        unfolding lu by (simp only: map_append concat_append list.map concat.simps A B ti append_assoc)
      then show ?thesis unfolding True by (simp only: lt [symmetric])
    next
      case False
      then have "filter (\<lambda>c. c \<noteq> r) (live_children t j) = live_children t j" using onlyp by (intro filter_True) auto
      then have "live_children u j = live_children t j" using live [of j] by simp
      moreover have "sub_text u c = sub_text t c" if "c \<in> set (live_children t j)" for c
        using IH [of c] onlyp [of j] False that by auto
      ultimately show ?thesis by (intro arg_cong [where f = concat]) simp
    qed
  qed (use ok root nu in \<open>auto simp: nodes_ok_def\<close>)
  moreover have "leaf_text u l = Inr (s @ s')" by (simp add: leaf_text_def nu)
  ultimately show ?thesis using s live by (simp add: render_sub)
qed

section \<open>Creating\<close>

text \<open>A new node is the live child right after its anchor, in front without one, at the end when the anchor is gone.\<close>

lemma create_places:
  assumes N: "net_good N" and c: "create_node (N pr) p after seed = Inr (u, new)" and sp: "spaced (N pr) p"
    and ar: "around (live_children (N pr) p) after = (A, B)"
  shows "live_children u p = A @ new # B \<and>
    (\<forall>k s. seed = SeedLeaf k s \<longrightarrow> leaf_text u new = Inr s \<and> leaf_kind_of u new = Some k)"
proof -
  let ?t = "N pr"
  let ?new = "TreeOpId (tr_counter ?t + 1) (tr_peer ?t)" and ?c = "?t\<lparr>tr_counter := tr_counter ?t + 1\<rparr>"
  let ?x = "TreeOp ?new (CreateNode ?new p (key_after ?t p after) seed)"
  let ?n = "new_node ?new p (key_after ?t p after) ?new (seed_body (tr_peer ?t) seed) ?new"
  have ok: "nodes_ok ?t" by (rule net_nodes_ok [OF N])
  have fresh: "node_at ?t ?new = None" using next_id_fresh [OF N] net_peer [OF N] by simp
  have p: "node_at ?t p \<noteq> None" and u: "u = record_op (apply_op ?c ?x) ?x" "new = ?new"
    using c by (auto simp: create_node_def next_op_id_def Let_def commit_local_def split: if_splits)
  have a: "apply_op ?c ?x = add_node ?c ?new ?n" using fresh by (simp add: apply_op_def)
  have okc: "nodes_ok ?c" using ok nodes_ok_cong [of ?c ?t] by simp
  have "nodes_ok (add_node ?c ?new ?n)" using fresh p by (intro nodes_ok_add [OF okc, of _ _ p]) (simp_all add: new_node_def)
  then have oku: "nodes_ok u" using nodes_ok_cong [of u "apply_op ?c ?x"] by (simp add: u a)
  have same: "same_places {new} ?t u" by (auto simp: same_places_def u a split: option.splits)
  have "live_children u p = A @ new # B"
    using fresh by (intro live_insert [OF ok oku same sp ar, of ?n]) (simp_all add: u a new_node_def)
  moreover have nn: "node_at u new = Some ?n" by (simp add: u a)
  then have "leaf_text u new = Inr s \<and> leaf_kind_of u new = Some k" if "seed = SeedLeaf k s" for k s
    using that by (simp add: leaf_text_def leaf_kind_of_def new_node_def seed_body_def)
  ultimately show ?thesis by blast
qed

section \<open>Editing\<close>

text \<open>A leaf whose text CRDT is in order.\<close>

definition leaf_good :: "tree_crdt \<Rightarrow> tree_id \<Rightarrow> bool" where
  "leaf_good t i \<longleftrightarrow> (\<exists>r k x w. node_at t i = Some r \<and> nd_body r = LeafBody k x \<and> text_ok w x \<and> counted x)"

lemma text_seed_good: "\<exists>w. text_ok w (text_seed p s) \<and> counted (text_seed p s)"
proof -
  obtain t "is" where c: "insert_chain (text_new p) None s = (t, is)" by fastforce
  have "elements_ok undefined (tx_by_id (text_new p))" "rooted (tx_by_id (text_new p))" "counted (text_new p)"
    "shown (tx_by_id (text_new p)) = [] @ []"
    by (simp_all add: text_new_def elements_ok_def keyed_def rooted_def counted_def shown_def ordered_ids_def)
  then obtain w where "elements_ok w (tx_by_id t)" "rooted (tx_by_id t)" "counted t"
    using insert_chain_spec [of undefined "text_new p" "[]" "[]" s t "is"] c by auto
  then show ?thesis by (auto simp: text_seed_def c text_ok_def cache_ok_def counted_def)
qed

lemma counted_seen: "counted x \<longleftrightarrow> (\<forall>k. text_seen x k \<noteq> None \<longrightarrow> op_counter k \<le> tx_counter x)"
  by (auto simp: counted_def text_seen_def seen_in_def map_of_eq_None_iff)

lemma text_delete_good:
  assumes ok: "text_ok w x" "counted x"
  shows "text_ok w (fst (text_delete x ix)) \<and> counted (fst (text_delete x ix))"
  using text_delete_spec [OF ok(1), of ix] ok(2) unfolding counted_seen by (auto split: if_splits) fastforce+

lemma delete_run_list:
  "text_ok w x \<Longrightarrow> counted x \<Longrightarrow> m + n \<le> length (body_text x) \<Longrightarrow>
    text_ok w (delete_run n (int m) x) \<and> counted (delete_run n (int m) x) \<and>
    body_text (delete_run n (int m) x) = take m (body_text x) @ drop (m + n) (body_text x)"
proof (induction n arbitrary: x)
  case (Suc n)
  let ?y = "fst (text_delete x (int m))"
  have y: "text_ok w ?y" "counted ?y" using text_delete_good [OF Suc.prems(1,2)] by auto
  have b: "body_text ?y = take m (body_text x) @ drop (Suc m) (body_text x)"
    using text_delete_list [OF Suc.prems(1), of "int m" ?y] Suc.prems(3) by (simp add: body_text_def prod_eq_iff)
  have "m + n \<le> length (body_text ?y)" using Suc.prems(3) by (simp add: b)
  from Suc.IH [OF y this] show ?case using Suc.prems(3) by (simp add: b drop_append ac_simps)
qed (simp add: body_text_def)

lemma delta_own:
  assumes ok: "elements_ok w (tx_by_id x)" "counted x" and ops: "\<forall>e\<in>set ops. map_of (tx_by_id x) (te_id e) = Some e"
  shows "apply_delta x ops = (x, False)"
proof -
  have one: "merge_element x e = (x, False)" if "e \<in> set ops" for e
    using ops that by (auto simp: merge_element_def lt_opt_def split: option.splits)
  have "merge_elements x ops = (x, False)"
    using one unfolding merge_elements_def by (induction ops) auto
  moreover have "advance_counter x = x"
  proof -
    have "foldl (\<lambda>c i. if op_counter i > c then op_counter i else c) c ids = c" if "\<forall>i\<in>set ids. op_counter i \<le> c" for c ids
      using that by (induction ids) auto
    then show ?thesis using ok(2) by (simp add: advance_counter_def counted_def)
  qed
  ultimately show ?thesis by (simp add: apply_delta_def)
qed

lemma edit_splices:
  assumes g: "leaf_good t i" and e: "edit_leaf t i at_byte del ins = Inr u" and del: "0 \<le> del"
  shows "\<exists>s m n. leaf_text t i = Inr s \<and> m \<le> n \<and> n \<le> length s \<and> byte_to_char s at_byte = Inr (Some m) \<and>
    byte_to_char s (at_byte + del) = Inr (Some n) \<and> leaf_text u i = Inr (take m s @ ins @ drop n s) \<and> leaf_good u i \<and>
    (\<forall>j. j \<noteq> i \<longrightarrow> node_at u j = node_at t j)"
proof -
  obtain r k x w where r: "node_at t i = Some r" "nd_body r = LeafBody k x" and x: "text_ok w x" "counted x"
    using g by (auto simp: leaf_good_def)
  have s: "leaf_text t i = Inr (body_text x)" by (simp add: leaf_text_def r)
  obtain m n where mn: "byte_to_char (body_text x) at_byte = Inr (Some m)" "byte_to_char (body_text x) (at_byte + del) = Inr (Some n)"
    using e s by (auto simp: edit_leaf_def split: sum.splits option.splits)
  have cp: "list_all code_point (body_text x)"
    using mn(1) by (auto simp: byte_to_char_def utf8_encode_def split: if_splits)
  note b = byte_to_char_exact [OF cp]
  have bounds: "m \<le> length (body_text x)" "n \<le> length (body_text x)" and
    off: "at_byte = int (byte_len (take m (body_text x)))" "at_byte + del = int (byte_len (take n (body_text x)))"
    using mn b by auto
  have mlen: "m \<le> n"
  proof (rule ccontr)
    assume "\<not> m \<le> n"
    then have "byte_len (take n (body_text x)) < byte_len (take m (body_text x))" using bounds by (intro byte_len_take_mono) auto
    then show False using off del by linarith
  qed
  let ?x1 = "text_fork x (tr_peer t)"
  let ?x2 = "delete_run (n - m) (int m) ?x1"
  define x3 where "x3 = fst (text_insert_str ?x2 (int m) ins)"
  define ops where "ops = delta_since x3 (version_vector ?x1)"
  have f: "text_ok w ?x1" "counted ?x1" using x by (simp_all add: text_fork_def text_clone_def text_ok_def cache_ok_def counted_def)
  have fb: "body_text ?x1 = body_text x"
    using f(1) x(1) by (simp add: body_text_def text_ok_def shown_text text_fork_def text_clone_def)
  have d: "text_ok w ?x2" "counted ?x2" "body_text ?x2 = take m (body_text x) @ drop n (body_text x)"
    using delete_run_list [OF f, of m "n - m"] bounds mlen by (simp_all add: fb)
  obtain x3' "is" where "text_insert_str ?x2 (int m) ins = (x3', is)" by fastforce
  then have i3: "text_insert_str ?x2 (int m) ins = (x3, is)" by (simp add: x3_def)
  obtain w' where w': "text_ok w' x3" "counted x3"
    "body_text x3 = take m (body_text ?x2) @ ins @ drop m (body_text ?x2)"
    using text_insert_str_list [OF d(1,2) i3] by (auto simp: body_text_def)
  have b3: "body_text x3 = take m (body_text x) @ ins @ drop n (body_text x)"
    using w'(3) bounds by (simp add: d(3))
  have "\<forall>e\<in>set ops. map_of (tx_by_id x3) (te_id e) = Some e"
  proof
    fix e assume "e \<in> set ops"
    then obtain k where "(k, e) \<in> set (tx_by_id x3)" by (auto simp: ops_def delta_since_def)
    then show "map_of (tx_by_id x3) (te_id e) = Some e"
      using w'(1) by (auto simp: text_ok_def elements_ok_def keyed_def)
  qed
  then have own: "apply_delta x3 ops = (x3, False)" using w' by (intro delta_own) (auto simp: text_ok_def)
  let ?c = "put_node t i (r\<lparr>nd_body := LeafBody k x3\<rparr>)"
  let ?x = "TreeOp (TreeOpId (tr_counter t + 1) (tr_peer t)) (LeafEdit i (nd_head r) ops)"
  have "u = commit_local (?c\<lparr>tr_counter := tr_counter t + 1\<rparr>) ?x"
    using e s r mn by (simp add: edit_leaf_def Let_def next_op_id_def x3_def ops_def)
  moreover have "node_at (commit_local (?c\<lparr>tr_counter := tr_counter t + 1\<rparr>) ?x) j =
      (if j = i then Some (r\<lparr>nd_body := LeafBody k x3, nd_head := op_at ?x\<rparr>) else node_at t j)" for j
    by (simp add: commit_local_def apply_op_def own)
  ultimately have u: "node_at u j = (if j = i then Some (r\<lparr>nd_body := LeafBody k x3, nd_head := op_at ?x\<rparr>) else node_at t j)" for j
    by simp
  have "leaf_text u i = Inr (body_text x3)" "leaf_good u i" using w' by (auto simp: leaf_text_def leaf_good_def u)
  then show ?thesis using s mn mlen bounds u by (intro exI [of _ "body_text x"] exI [of _ m] exI [of _ n]) (simp add: b3)
qed

end
