(* ===== verification/TreeWire.thy ===== *)
theory TreeWire
  imports TreeEdit
begin

text \<open>
  The wire form of tree updates and frontiers of \<^verbatim>\<open>src/lazily/lossless_tree_crdt.py\<close>: JSON values
  built and read by \<^verbatim>\<open>to_dict\<close>, \<^verbatim>\<open>from_dict\<close> and their helpers. An object is an association list
  with the first occurrence of a key as its value. Reading a missing key, indexing or testing a
  value that is no object, and a failed conversion are errors.
\<close>

section \<open>Values\<close>

datatype json = JNull | JInt int | JStr "nat list" | JList "json list" | JObj "(string \<times> json) list"

datatype wire_error = Missing_key string | Not_object | Not_list | Not_integer | Not_text | Unknown_leaf_kind | Malformed_seed | Malformed_kind

definition member :: "string \<Rightarrow> json \<Rightarrow> wire_error + json" where
  "member k d = (case d of JObj kvs \<Rightarrow> (case map_of kvs k of Some v \<Rightarrow> Inr v | None \<Rightarrow> Inl (Missing_key k)) | _ \<Rightarrow> Inl Not_object)"

definition has_key :: "string \<Rightarrow> json \<Rightarrow> bool" where
  "has_key k d = (case d of JObj kvs \<Rightarrow> map_of kvs k \<noteq> None | _ \<Rightarrow> False)"

text \<open>\<^verbatim>\<open>int(...)\<close> of a number; the other values that the conversion of the language accepts have no use here.\<close>

definition int_of_json :: "json \<Rightarrow> wire_error + int" where
  "int_of_json v = (case v of JInt n \<Rightarrow> Inr n | _ \<Rightarrow> Inl Not_integer)"

definition text_of_json :: "json \<Rightarrow> wire_error + nat list" where
  "text_of_json v = (case v of JStr s \<Rightarrow> Inr s | _ \<Rightarrow> Inl Not_text)"

definition items_of_json :: "json \<Rightarrow> wire_error + json list" where
  "items_of_json v = (case v of JList xs \<Rightarrow> Inr xs | _ \<Rightarrow> Inl Not_list)"

definition then_do :: "'e + 'a \<Rightarrow> ('a \<Rightarrow> 'e + 'b) \<Rightarrow> 'e + 'b" where
  "then_do r f = (case r of Inl e \<Rightarrow> Inl e | Inr x \<Rightarrow> f x)"

lemma then_do_simps [simp]: "then_do (Inr x) f = f x" "then_do (Inl e) f = Inl e"
  by (simp_all add: then_do_def)

fun map_all :: "('a \<Rightarrow> 'e + 'b) \<Rightarrow> 'a list \<Rightarrow> 'e + 'b list" where
  "map_all f [] = Inr []"
| "map_all f (x # xs) = then_do (f x) (\<lambda>y. then_do (map_all f xs) (\<lambda>ys. Inr (y # ys)))"

lemma map_all_inverse: "(\<And>x. x \<in> set xs \<Longrightarrow> f (g x) = Inr x) \<Longrightarrow> map_all f (map g xs) = Inr xs"
  by (induction xs) auto

definition int_at :: "string \<Rightarrow> json \<Rightarrow> wire_error + int" where
  "int_at k d = then_do (member k d) int_of_json"

definition text_at :: "string \<Rightarrow> json \<Rightarrow> wire_error + nat list" where
  "text_at k d = then_do (member k d) text_of_json"

definition read_at :: "string \<Rightarrow> (json \<Rightarrow> wire_error + 'a) \<Rightarrow> json \<Rightarrow> wire_error + 'a" where
  "read_at k f d = then_do (member k d) f"

section \<open>Ids, keys and seeds\<close>

definition id_to_dict :: "tree_id \<Rightarrow> json" where
  "id_to_dict i = JObj [(''counter'', JInt (t_counter i)), (''peer'', JInt (t_peer i))]"

definition id_from_dict :: "json \<Rightarrow> wire_error + tree_id" where
  "id_from_dict d = then_do (int_at ''counter'' d) (\<lambda>c. then_do (int_at ''peer'' d) (\<lambda>p. Inr (TreeOpId c p)))"

definition sort_to_dict :: "sort_pos \<Rightarrow> json" where
  "sort_to_dict s = JObj [(''frac'', JList (map JInt (sk_frac s))), (''peer'', JInt (sk_peer s))]"

definition sort_from_dict :: "json \<Rightarrow> wire_error + sort_pos" where
  "sort_from_dict d =
     then_do (read_at ''frac'' items_of_json d) (\<lambda>xs.
     then_do (map_all int_of_json xs) (\<lambda>f.
     then_do (int_at ''peer'' d) (\<lambda>p. Inr (SortKey f p))))"

definition leaf_kind_value :: "leaf_kind \<Rightarrow> nat list" where
  "leaf_kind_value k = map of_char (case k of Token \<Rightarrow> ''Token'' | Trivia \<Rightarrow> ''Trivia'' | Raw \<Rightarrow> ''Raw'' | Error_kind \<Rightarrow> ''Error'')"

definition leaf_kind_from_wire :: "nat list \<Rightarrow> wire_error + leaf_kind" where
  "leaf_kind_from_wire v =
     (if v = leaf_kind_value Token then Inr Token else if v = leaf_kind_value Trivia then Inr Trivia
      else if v = leaf_kind_value Raw then Inr Raw else if v = leaf_kind_value Error_kind then Inr Error_kind
      else Inl Unknown_leaf_kind)"

definition seed_wire :: "node_seed \<Rightarrow> json" where
  "seed_wire s = (case s of
     SeedElement k \<Rightarrow> JObj [(''Element'', JObj [(''kind'', JStr k)])]
   | SeedLeaf k x \<Rightarrow> JObj [(''Leaf'', JObj [(''kind'', JStr (leaf_kind_value k)), (''text'', JStr x)])])"

definition seed_from_wire :: "json \<Rightarrow> wire_error + node_seed" where
  "seed_from_wire d =
     (if has_key ''Element'' d then then_do (read_at ''Element'' (text_at ''kind'') d) (\<lambda>k. Inr (SeedElement k))
      else if has_key ''Leaf'' d then
        then_do (member ''Leaf'' d) (\<lambda>body.
        then_do (then_do (text_at ''kind'' body) leaf_kind_from_wire) (\<lambda>k.
        then_do (text_at ''text'' body) (\<lambda>x. Inr (SeedLeaf k x))))
      else Inl Malformed_seed)"

section \<open>Text operations\<close>

definition text_id_to_dict :: "op_id \<Rightarrow> json" where
  "text_id_to_dict i = JObj [(''counter'', JInt (op_counter i)), (''peer'', JInt (op_peer i))]"

definition text_id_from_dict :: "json \<Rightarrow> wire_error + op_id" where
  "text_id_from_dict d = then_do (int_at ''counter'' d) (\<lambda>c. then_do (int_at ''peer'' d) (\<lambda>p. Inr (OpId c p)))"

definition origin_to_dict :: "op_id option \<Rightarrow> json" where
  "origin_to_dict r = (case r of None \<Rightarrow> JNull | Some i \<Rightarrow> text_id_to_dict i)"

definition origin_from_dict :: "json \<Rightarrow> wire_error + op_id option" where
  "origin_from_dict d = (if d = JNull then Inr None else then_do (text_id_from_dict d) (\<lambda>i. Inr (Some i)))"

definition text_op_to_dict :: "nat text_op \<Rightarrow> json" where
  "text_op_to_dict x = JObj [(''id'', text_id_to_dict (te_id x)), (''ch'', JStr [te_ch x]),
     (''origin'', origin_to_dict (te_origin x)),
     (''deleted'', (case te_delete_id x of Some d \<Rightarrow> if te_deleted x then text_id_to_dict d else JNull | None \<Rightarrow> JNull))]"

text \<open>\<^verbatim>\<open>d.get(k)\<close> is \<^verbatim>\<open>None\<close> for a missing key. A character is a string of one code point.\<close>

definition get_json :: "string \<Rightarrow> json \<Rightarrow> wire_error + json" where
  "get_json k d = (case d of JObj kvs \<Rightarrow> Inr (case map_of kvs k of Some v \<Rightarrow> v | None \<Rightarrow> JNull) | _ \<Rightarrow> Inl Not_object)"

definition char_of_json :: "json \<Rightarrow> wire_error + nat" where
  "char_of_json v = (case v of JStr [c] \<Rightarrow> Inr c | _ \<Rightarrow> Inl Not_text)"

definition text_op_from_dict :: "json \<Rightarrow> wire_error + nat text_op" where
  "text_op_from_dict d =
     then_do (then_do (get_json ''deleted'' d) origin_from_dict) (\<lambda>del.
     then_do (read_at ''id'' text_id_from_dict d) (\<lambda>i.
     then_do (read_at ''ch'' char_of_json d) (\<lambda>ch.
     then_do (then_do (get_json ''origin'' d) origin_from_dict) (\<lambda>org.
       Inr \<lparr>te_id = i, te_ch = ch, te_origin = org, te_deleted = (del \<noteq> None), te_delete_id = del\<rparr>))))"

section \<open>Operations and updates\<close>

definition kind_to_dict :: "tree_kind \<Rightarrow> json" where
  "kind_to_dict x = (case x of
     CreateNode i p s seed \<Rightarrow> JObj [(''CreateNode'', JObj [(''id'', id_to_dict i), (''parent'', id_to_dict p),
       (''sort'', sort_to_dict s), (''seed'', seed_wire seed)])]
   | Tombstone i \<Rightarrow> JObj [(''Tombstone'', JObj [(''node'', id_to_dict i)])]
   | Reorder i s \<Rightarrow> JObj [(''Reorder'', JObj [(''node'', id_to_dict i), (''sort'', sort_to_dict s)])]
   | LeafEdit i h xs \<Rightarrow> JObj [(''LeafEdit'', JObj [(''node'', id_to_dict i), (''prev'', id_to_dict h),
       (''ops'', JList (map text_op_to_dict xs))])]
   | SplitLeaf i new s c h \<Rightarrow> JObj [(''SplitLeaf'', JObj [(''node'', id_to_dict i), (''new'', id_to_dict new),
       (''sort'', sort_to_dict s), (''at_char'', JInt c), (''prev'', id_to_dict h)])]
   | MergeLeaves l r hl hr \<Rightarrow> JObj [(''MergeLeaves'', JObj [(''left'', id_to_dict l), (''right'', id_to_dict r),
       (''prev_left'', id_to_dict hl), (''prev_right'', id_to_dict hr)])])"

definition id_at :: "string \<Rightarrow> json \<Rightarrow> wire_error + tree_id" where
  "id_at k d = read_at k id_from_dict d"

definition kind_from_dict :: "json \<Rightarrow> wire_error + tree_kind" where
  "kind_from_dict d =
     (if has_key ''CreateNode'' d then
        then_do (member ''CreateNode'' d) (\<lambda>b.
        then_do (id_at ''id'' b) (\<lambda>i. then_do (id_at ''parent'' b) (\<lambda>p.
        then_do (read_at ''sort'' sort_from_dict b) (\<lambda>s. then_do (read_at ''seed'' seed_from_wire b) (\<lambda>seed.
          Inr (CreateNode i p s seed))))))
      else if has_key ''Tombstone'' d then
        then_do (member ''Tombstone'' d) (\<lambda>b. then_do (id_at ''node'' b) (\<lambda>i. Inr (Tombstone i)))
      else if has_key ''Reorder'' d then
        then_do (member ''Reorder'' d) (\<lambda>b. then_do (id_at ''node'' b) (\<lambda>i.
        then_do (read_at ''sort'' sort_from_dict b) (\<lambda>s. Inr (Reorder i s))))
      else if has_key ''LeafEdit'' d then
        then_do (member ''LeafEdit'' d) (\<lambda>b. then_do (id_at ''node'' b) (\<lambda>i. then_do (id_at ''prev'' b) (\<lambda>h.
        then_do (then_do (read_at ''ops'' items_of_json b) (map_all text_op_from_dict)) (\<lambda>xs. Inr (LeafEdit i h xs)))))
      else if has_key ''SplitLeaf'' d then
        then_do (member ''SplitLeaf'' d) (\<lambda>b. then_do (id_at ''node'' b) (\<lambda>i. then_do (id_at ''new'' b) (\<lambda>new.
        then_do (read_at ''sort'' sort_from_dict b) (\<lambda>s. then_do (int_at ''at_char'' b) (\<lambda>c.
        then_do (id_at ''prev'' b) (\<lambda>h. Inr (SplitLeaf i new s c h)))))))
      else if has_key ''MergeLeaves'' d then
        then_do (member ''MergeLeaves'' d) (\<lambda>b. then_do (id_at ''left'' b) (\<lambda>l. then_do (id_at ''right'' b) (\<lambda>r.
        then_do (id_at ''prev_left'' b) (\<lambda>hl. then_do (id_at ''prev_right'' b) (\<lambda>hr. Inr (MergeLeaves l r hl hr))))))
      else Inl Malformed_kind)"

definition tree_update_to_wire :: "tree_op list \<Rightarrow> json" where
  "tree_update_to_wire ops =
     JObj [(''ops'', JList (map (\<lambda>x. JObj [(''id'', id_to_dict (op_at x)), (''kind'', kind_to_dict (op_kind x))]) ops))]"

definition op_from_dict :: "json \<Rightarrow> wire_error + tree_op" where
  "op_from_dict d = then_do (id_at ''id'' d) (\<lambda>i. then_do (read_at ''kind'' kind_from_dict d) (\<lambda>k. Inr (TreeOp i k)))"

definition tree_update_from_wire :: "json \<Rightarrow> wire_error + tree_op list" where
  "tree_update_from_wire d =
     then_do (get_json ''ops'' d) (\<lambda>v. if v = JNull \<and> \<not> has_key ''ops'' d then Inr []
       else then_do (items_of_json v) (map_all op_from_dict))"

section \<open>Frontiers\<close>

text \<open>\<^verbatim>\<open>str\<close> of an integer and \<^verbatim>\<open>int\<close> of its digits.\<close>

definition digit_char :: "nat \<Rightarrow> char" where
  "digit_char n = char_of (48 + n)"

fun show_nat :: "nat \<Rightarrow> string" where
  "show_nat n = (if n < 10 then [digit_char n] else show_nat (n div 10) @ [digit_char (n mod 10)])"

declare show_nat.simps [simp del]

definition show_int :: "int \<Rightarrow> string" where
  "show_int i = (if i < 0 then CHR ''-'' # show_nat (nat (- i)) else show_nat (nat i))"

definition is_digit :: "char \<Rightarrow> bool" where
  "is_digit c \<longleftrightarrow> 48 \<le> (of_char c :: nat) \<and> (of_char c :: nat) \<le> 57"

definition parse_nat :: "string \<Rightarrow> nat option" where
  "parse_nat s = (if s = [] \<or> \<not> list_all is_digit s then None else Some (foldl (\<lambda>n c. n * 10 + (of_char c - 48)) 0 s))"

definition parse_int :: "string \<Rightarrow> wire_error + int" where
  "parse_int s =
     (let (neg, body) = (case s of [] \<Rightarrow> (False, []) | c # r \<Rightarrow> if c = CHR ''-'' then (True, r) else (False, s))
      in case parse_nat body of None \<Rightarrow> Inl Not_integer | Some n \<Rightarrow> Inr (if neg then - int n else int n))"

definition range_to_dict :: "dot_range \<Rightarrow> json" where
  "range_to_dict r = JObj [(''contiguous'', JInt (dr_contiguous r)), (''sparse'', JList (map JInt (sort (dr_sparse r))))]"

text \<open>On load the runs above the prefix are absorbed, and repeated entries of the list are one.\<close>

definition range_from_dict :: "json \<Rightarrow> wire_error + dot_range" where
  "range_from_dict d =
     then_do (int_at ''contiguous'' d) (\<lambda>c.
     then_do (if has_key ''sparse'' d then then_do (read_at ''sparse'' items_of_json d) (map_all int_of_json) else Inr []) (\<lambda>xs.
       let (n, sp) = absorb_runs c (remdups xs) in Inr \<lparr>dr_contiguous = n, dr_sparse = sp\<rparr>))"

definition frontier_to_wire :: "tree_frontier \<Rightarrow> json" where
  "frontier_to_wire f = JObj [(''dots'', JObj (map (\<lambda>(p, r). (show_int p, range_to_dict r)) f))]"

definition dots_from_wire :: "(string \<times> json) list \<Rightarrow> wire_error + tree_frontier" where
  "dots_from_wire kvs =
     map_all (\<lambda>(k, v). then_do (range_from_dict v) (\<lambda>r. then_do (parse_int k) (\<lambda>p. Inr (p, r)))) kvs"

definition frontier_from_wire :: "json \<Rightarrow> wire_error + tree_frontier" where
  "frontier_from_wire d =
     (if has_key ''dots'' d
      then then_do (member ''dots'' d) (\<lambda>v. case v of
          JObj kvs \<Rightarrow> then_do (dots_from_wire kvs) (\<lambda>ps. Inr (foldl (\<lambda>f (p, r). AList.update p r f) [] ps))
        | _ \<Rightarrow> Inl Not_object)
      else (case d of JObj _ \<Rightarrow> Inr [] | _ \<Rightarrow> Inl Not_object))"

section \<open>Round trips\<close>

named_theorems wire_defs

lemmas [wire_defs] = member_def read_at_def int_at_def text_at_def int_of_json_def text_of_json_def items_of_json_def

lemma id_roundtrip [simp]: "id_from_dict (id_to_dict i) = Inr i"
  by (simp add: id_from_dict_def id_to_dict_def wire_defs)

lemma text_id_roundtrip [simp]: "text_id_from_dict (text_id_to_dict i) = Inr i"
  by (simp add: text_id_from_dict_def text_id_to_dict_def wire_defs)

lemma map_all_ints [simp]: "map_all int_of_json (map JInt xs) = Inr xs"
  by (rule map_all_inverse) (simp add: int_of_json_def)

lemma sort_roundtrip [simp]: "sort_from_dict (sort_to_dict s) = Inr s"
  by (simp add: sort_from_dict_def sort_to_dict_def wire_defs map_all_ints [unfolded int_of_json_def] del: map_all_ints)
    (simp add: map_all_ints [unfolded int_of_json_def])

lemma leaf_kind_roundtrip [simp]: "leaf_kind_from_wire (leaf_kind_value k) = Inr k"
  by (cases k) (simp_all add: leaf_kind_from_wire_def leaf_kind_value_def)

lemma seed_roundtrip [simp]: "seed_from_wire (seed_wire s) = Inr s"
  by (cases s) (simp_all add: seed_from_wire_def seed_wire_def has_key_def wire_defs)

lemma origin_roundtrip [simp]: "origin_from_dict (origin_to_dict r) = Inr r"
  by (cases r) (simp_all add: origin_from_dict_def origin_to_dict_def, simp add: text_id_to_dict_def)

text \<open>An element of a replica in order: it is deleted exactly when it has a delete id.\<close>

definition text_op_ok :: "nat text_op \<Rightarrow> bool" where
  "text_op_ok x \<longleftrightarrow> (te_deleted x \<longleftrightarrow> te_delete_id x \<noteq> None)"

lemma text_op_roundtrip:
  assumes ok: "text_op_ok x"
  shows "text_op_from_dict (text_op_to_dict x) = Inr x"
proof -
  have d: "(case te_delete_id x of Some d \<Rightarrow> if te_deleted x then text_id_to_dict d else JNull | None \<Rightarrow> JNull) = origin_to_dict (te_delete_id x)"
    using ok by (auto simp: text_op_ok_def origin_to_dict_def split: option.split)
  have "text_op_from_dict (text_op_to_dict x) = Inr \<lparr>te_id = te_id x, te_ch = te_ch x, te_origin = te_origin x,
      te_deleted = (te_delete_id x \<noteq> None), te_delete_id = te_delete_id x\<rparr>"
    unfolding text_op_to_dict_def d by (simp add: text_op_from_dict_def get_json_def member_def read_at_def char_of_json_def)
  also have "\<dots> = Inr x" using ok by (cases x) (simp add: text_op_ok_def)
  finally show ?thesis .
qed

definition kind_ok :: "tree_kind \<Rightarrow> bool" where
  "kind_ok x \<longleftrightarrow> (case x of LeafEdit _ _ ops \<Rightarrow> list_all text_op_ok ops | _ \<Rightarrow> True)"

lemma kind_roundtrip: "kind_ok x \<Longrightarrow> kind_from_dict (kind_to_dict x) = Inr x"
proof (cases x)
  case (LeafEdit i h ops)
  assume "kind_ok x"
  then have "map_all text_op_from_dict (map text_op_to_dict ops) = Inr ops"
    using LeafEdit by (intro map_all_inverse) (auto simp: kind_ok_def list_all_iff text_op_roundtrip)
  then show ?thesis using LeafEdit by (simp add: kind_from_dict_def kind_to_dict_def has_key_def id_at_def wire_defs)
qed (simp_all add: kind_from_dict_def kind_to_dict_def has_key_def id_at_def wire_defs)

lemma update_roundtrip:
  "\<forall>x\<in>set ops. kind_ok (op_kind x) \<Longrightarrow> tree_update_from_wire (tree_update_to_wire ops) = Inr ops"
proof -
  assume ok: "\<forall>x\<in>set ops. kind_ok (op_kind x)"
  have "map_all op_from_dict (map (\<lambda>x. JObj [(''id'', id_to_dict (op_at x)), (''kind'', kind_to_dict (op_kind x))]) ops) = Inr ops"
    using ok by (intro map_all_inverse) (simp add: op_from_dict_def id_at_def member_def read_at_def kind_roundtrip)
  then show ?thesis by (simp add: tree_update_from_wire_def tree_update_to_wire_def get_json_def items_of_json_def)
qed

lemma digit_simps [simp]: "n < 10 \<Longrightarrow> (of_char (digit_char n) :: nat) = 48 + n"
  by (simp add: digit_char_def of_char_of)

lemma is_digit_char [simp]: "n < 10 \<Longrightarrow> is_digit (digit_char n)"
  by (simp add: is_digit_def)

lemma parse_show_nat: "parse_nat (show_nat n) = Some n"
proof -
  have "show_nat n \<noteq> [] \<and> list_all is_digit (show_nat n) \<and> foldl (\<lambda>n c. n * 10 + (of_char c - 48)) 0 (show_nat n) = n"
  proof (induction n rule: show_nat.induct)
    case (1 n)
    show ?case
    proof (cases "n < 10")
      case True
      then show ?thesis by (subst (1 2 3) show_nat.simps) simp
    next
      case False
      then show ?thesis using 1 by (subst (1 2 3) show_nat.simps) simp
    qed
  qed
  then show ?thesis by (simp add: parse_nat_def)
qed

lemma show_nat_no_sign: "hd (show_nat n) \<noteq> CHR ''-''"
proof -
  have "is_digit (hd (show_nat n))"
    using parse_show_nat [of n] by (auto simp: parse_nat_def list_all_iff split: if_splits)
  then show ?thesis by (auto simp: is_digit_def)
qed

lemma parse_show_int [simp]: "parse_int (show_int i) = Inr i"
proof (cases "i < 0")
  case True
  then show ?thesis by (simp add: parse_int_def show_int_def parse_show_nat)
next
  case False
  obtain c r where "show_nat (nat i) = c # r" using parse_show_nat [of "nat i"] by (cases "show_nat (nat i)") (auto simp: parse_nat_def)
  then show ?thesis using False show_nat_no_sign [of "nat i"] parse_show_nat [of "nat i"] by (simp add: parse_int_def show_int_def)
qed

lemma range_roundtrip: "range_ok r \<Longrightarrow> range_from_dict (range_to_dict r) = Inr (r\<lparr>dr_sparse := sort (dr_sparse r)\<rparr>)"
proof -
  assume ok: "range_ok r"
  have "absorb_runs (dr_contiguous r) (sort (dr_sparse r)) = (dr_contiguous r, sort (dr_sparse r))"
    using ok by (subst absorb_runs.simps) (auto simp: range_ok_def)
  moreover have "remdups (sort (dr_sparse r)) = sort (dr_sparse r)"
    using ok by (intro distinct_remdups_id) (simp add: range_ok_def)
  ultimately show ?thesis
    by (simp add: range_from_dict_def range_to_dict_def has_key_def int_at_def read_at_def member_def items_of_json_def int_of_json_def
        map_all_ints [unfolded int_of_json_def] del: remdups_id_iff_distinct)
qed

definition frontier_ok :: "tree_frontier \<Rightarrow> bool" where
  "frontier_ok f \<longleftrightarrow> distinct (map fst f) \<and> (\<forall>(p, r)\<in>set f. range_ok r)"

lemma update_members: "set (AList.update k v l) \<subseteq> insert (k, v) (set l)"
  by (induction l) auto

lemma frontier_ok_observe: "frontier_ok f \<Longrightarrow> frontier_ok (frontier_observe f i)"
proof -
  assume ok: "frontier_ok f"
  have r: "range_ok (case map_of f (t_peer i) of Some r \<Rightarrow> r | None \<Rightarrow> range_new)"
    using ok by (auto simp: frontier_ok_def range_new_ok split: option.splits dest: map_of_SomeD)
  have "set (AList.update k v f) \<subseteq> insert (k, v) (set f)" for k v by (rule update_members)
  then show ?thesis using ok range_observe_ok [OF r]
    by (fastforce simp: frontier_ok_def frontier_observe_def Let_def distinct_update)
qed

lemma foldl_update_distinct:
  "distinct (map fst (f @ ps)) \<Longrightarrow> foldl (\<lambda>f (p, r). AList.update p r f) f ps = f @ ps"
proof (induction ps arbitrary: f)
  case (Cons a ps)
  obtain p r where a: "a = (p, r)" by fastforce
  have "map_of f p = None" using Cons.prems by (simp add: a map_of_eq_None_iff)
  then show ?case using Cons.IH [of "f @ [(p, r)]"] Cons.prems by (simp add: a update_new)
qed simp

text \<open>A frontier that only observed comes back with the same ranges, their holes in order.\<close>

lemma frontier_roundtrip:
  assumes ok: "frontier_ok f"
  shows "frontier_from_wire (frontier_to_wire f) = Inr (map (\<lambda>(p, r). (p, r\<lparr>dr_sparse := sort (dr_sparse r)\<rparr>)) f)"
proof -
  let ?g = "\<lambda>(p, r). (p, r\<lparr>dr_sparse := sort (dr_sparse r)\<rparr>)"
  have "dots_from_wire (map (\<lambda>(p, r). (show_int p, range_to_dict r)) f) = Inr (map ?g f)"
    using ok unfolding frontier_ok_def dots_from_wire_def
    by (induction f) (auto simp: range_roundtrip)
  moreover have "distinct (map fst (map ?g f))" using ok by (simp add: frontier_ok_def comp_def case_prod_unfold)
  ultimately show ?thesis
    using foldl_update_distinct [of "[]" "map ?g f"] by (simp add: frontier_from_wire_def frontier_to_wire_def has_key_def member_def)
qed

lemma frontier_sorted_contains:
  "frontier_contains (map (\<lambda>(p, r). (p, r\<lparr>dr_sparse := sort (dr_sparse r)\<rparr>)) f) i = frontier_contains f i"
proof -
  have "map_of (map (\<lambda>(p, r). (p, r\<lparr>dr_sparse := sort (dr_sparse r)\<rparr>)) f) p = map_option (\<lambda>r. r\<lparr>dr_sparse := sort (dr_sparse r)\<rparr>) (map_of f p)" for p
    by (simp add: map_of_map)
  then show ?thesis by (simp add: frontier_contains_def range_contains_def split: option.split)
qed

end
