(* ===== verification/TreeTheorems.thy ===== *)
theory TreeTheorems
  imports TreeWire
begin

text \<open>
  What the lossless tree promises: no operation is skipped by an exchange, replicas stay
  consistent, and splitting, merging and editing leaves change exactly the text they should. The
  last section shows where the code does not keep the promise.
\<close>

section \<open>A small network\<close>

text \<open>Peer 1 makes a leaf with two characters, which it splits and merges.\<close>

definition run_act :: "tree_crdt \<Rightarrow> tree_action \<Rightarrow> tree_crdt" where
  "run_act t a = (case tree_act t a of Inr u \<Rightarrow> u | Inl _ \<Rightarrow> t)"

definition demo_leaf :: tree_crdt where
  "demo_leaf = run_act (tree_new 1) (Act_create tree_root None (SeedLeaf Token [97, 98]))"

lemma run_act_net: "tree_net N \<Longrightarrow> tree_net (N(p := run_act (N p) a))"
  by (cases "tree_act (N p) a") (simp_all add: run_act_def net_act)

definition demo_net :: "int \<Rightarrow> tree_crdt" where
  "demo_net = tree_new(1 := demo_leaf)"

lemma demo_net_reachable: "tree_net demo_net"
  using run_act_net [OF net_start, of 1] by (simp add: demo_net_def demo_leaf_def)

section \<open>Consistency and exchange\<close>

text \<open>C17: in every network of replicas that create, erase, move, edit, split, merge, fork and exchange
  operations in any order, each replica's frontier contains exactly the ids of its log, which has
  no operation twice, and a parent's bucket lists exactly the nodes below it, each once.
\<close>

theorem tree_replicas_consistent:
  assumes "tree_net N"
  shows "(0 < t_counter j \<longrightarrow> (frontier_contains (tr_frontier (N p)) j \<longleftrightarrow> j \<in> op_at ` set (tr_log (N p)))) \<and>
    distinct (map op_at (tr_log (N p))) \<and>
    distinct (bucket (tr_index (N p)) i) \<and>
    (c \<in> set (bucket (tr_index (N p)) i) \<longleftrightarrow> (\<exists>r. node_at (N p) c = Some r \<and> nd_parent r = Some i))"
proof -
  have "replica_good (issued N) (N p)" using tree_net_good [OF assms] by (simp add: net_good_def)
  then show ?thesis by (auto simp: replica_good_def nodes_ok_def)
qed

theorem tree_replicas_consistent_witness:
  "frontier_contains (tr_frontier (demo_net 1)) (TreeOpId 1 1) = (TreeOpId 1 1 \<in> op_at ` set (tr_log (demo_net 1)))"
  using tree_replicas_consistent [OF demo_net_reachable, of "TreeOpId 1 1" 1] by simp


lemma demo_log: "tr_log (demo_net 1) = [TreeOp (TreeOpId 1 1) (CreateNode (TreeOpId 1 1) tree_root (SortKey [128] 1) (SeedLeaf Token [97, 98]))]"
  by (simp add: demo_net_def demo_leaf_def run_act_def tree_new_def create_node_def node_at_def next_op_id_def commit_local_def
      record_op_def apply_op_def add_node_def put_node_def key_after_def live_children_def bucket_def sort_nodes_def
      frac_of_def key_between_def key_loop.simps [of None None] key_cap_def lo_at_def hi_at_def tree_root_def Let_def
      List.map_filter_simps)


text \<open>Applying again what is held, with nothing pending, changes nothing.\<close>

theorem tree_update_idempotent:
  assumes "tree_net N" and "tr_buffered (N p) = []" and "set ops \<subseteq> set (tr_log (N p))"
  shows "apply_update (N p) ops = N p"
proof (rule apply_update_held [OF _ assms(2)])
  have g: "ops_ok (issued N)" "replica_good (issued N) (N p)" using tree_net_good [OF assms(1)] by (auto simp: net_good_def)
  have "0 < t_counter (op_at x)" if "x \<in> set ops" for x
    using g(1) replica_goodD(2) [OF g(2)] assms(3) that by (auto simp: ops_ok_def op_ok_def)
  then show "\<forall>x\<in>set ops. frontier_contains (tr_frontier (N p)) (op_at x) \<and> t_counter (op_at x) \<le> tr_counter (N p)"
    using replica_goodD(6,7) [OF g(2)] assms(3) by blast
qed

section \<open>Text\<close>

lemma sum_right: "(case x of Inl _ \<Rightarrow> False | Inr _ \<Rightarrow> True) \<Longrightarrow> \<exists>y. x = Inr y"
  by (cases x) auto

text \<open>C18: splitting a live leaf at any byte offset that the code accepts keeps the rendered text, when
  the live siblings' keys are in strict order (two siblings that replicas put at one place at the
  same time have equal fractions, see below).
\<close>

theorem split_leaf_keeps_text:
  assumes "tree_net N" and "split_leaf (N p) i at_byte = Inr (u, new)"
    and "node_at (N p) i = Some r" and "nd_parent r = Some q" and "nd_tomb r = None" and "spaced (N p) q"
  shows "render u = render (N p)"
  by (rule split_render [OF tree_net_good [OF assms(1)] assms(2-6)])

theorem split_leaf_keeps_text_witness: "render (run_act demo_leaf (Act_split (TreeOpId 1 1) 1)) = render demo_leaf"
proof -
  have t: "demo_net 1 = demo_leaf" by (simp add: demo_net_def)
  have "case split_leaf demo_leaf (TreeOpId 1 1) 1 of Inl _ \<Rightarrow> False | Inr _ \<Rightarrow> True" by code_simp
  then obtain u new where s: "split_leaf demo_leaf (TreeOpId 1 1) 1 = Inr (u, new)" using sum_right by fastforce
  have "case node_at demo_leaf (TreeOpId 1 1) of None \<Rightarrow> False | Some r \<Rightarrow> nd_parent r = Some tree_root \<and> nd_tomb r = None"
    by code_simp
  then obtain r where r: "node_at demo_leaf (TreeOpId 1 1) = Some r" "nd_parent r = Some tree_root" "nd_tomb r = None"
    by (auto split: option.splits)
  have "spaced demo_leaf tree_root" by code_simp
  from split_leaf_keeps_text [OF demo_net_reachable, of 1, unfolded t, OF s r this] show ?thesis
    by (simp add: run_act_def s)
qed

text \<open>C19: merging two adjacent leaves puts the text of both in the left one, takes the right one out of
  the children and keeps the rendered text.
\<close>

theorem merge_leaves_keeps_text:
  assumes "tree_net N" and "merge_adjacent_leaves (N p) l r = Inr u" and "l \<noteq> r"
  shows "render u = render (N p) \<and>
    (\<exists>s s'. leaf_text (N p) l = Inr s \<and> leaf_text (N p) r = Inr s' \<and> leaf_text u l = Inr (s @ s')) \<and>
    (\<forall>q. live_children u q = filter (\<lambda>c. c \<noteq> r) (live_children (N p) q))"
  by (rule merge_render [OF net_nodes_ok [OF tree_net_good [OF assms(1)]] assms(2,3)])

definition demo_split :: tree_crdt where
  "demo_split = run_act demo_leaf (Act_split (TreeOpId 1 1) 1)"

lemma demo_split_net: "tree_net (demo_net(1 := demo_split))"
  using run_act_net [OF demo_net_reachable, of 1] by (simp add: demo_net_def demo_split_def)

theorem merge_leaves_keeps_text_witness:
  "render (run_act demo_split (Act_merge (TreeOpId 1 1) (TreeOpId 2 1))) = render demo_split"
proof -
  have "case merge_adjacent_leaves demo_split (TreeOpId 1 1) (TreeOpId 2 1) of Inl _ \<Rightarrow> False | Inr _ \<Rightarrow> True" by code_simp
  then obtain u where m: "merge_adjacent_leaves demo_split (TreeOpId 1 1) (TreeOpId 2 1) = Inr u" using sum_right by fastforce
  have "merge_adjacent_leaves ((demo_net(1 := demo_split)) 1) (TreeOpId 1 1) (TreeOpId 2 1) = Inr u" using m by simp
  from merge_leaves_keeps_text [OF demo_split_net this] show ?thesis by (simp add: run_act_def m)
qed

text \<open>
  An edit of a leaf whose text CRDT is in order replaces exactly the bytes of the range by the
  inserted text, and changes no other node.
\<close>

theorem edit_leaf_splices:
  assumes "leaf_good t i" and "edit_leaf t i at_byte del ins = Inr u" and "0 \<le> del"
  shows "\<exists>s m n. leaf_text t i = Inr s \<and> m \<le> n \<and> n \<le> length s \<and>
    at_byte = int (byte_len (take m s)) \<and> at_byte + del = int (byte_len (take n s)) \<and>
    leaf_text u i = Inr (take m s @ ins @ drop n s) \<and> leaf_good u i \<and> (\<forall>j. j \<noteq> i \<longrightarrow> node_at u j = node_at t j)"
proof -
  from edit_splices [OF assms] obtain s m n where e: "leaf_text t i = Inr s" "m \<le> n" "n \<le> length s"
    "byte_to_char s at_byte = Inr (Some m)" "byte_to_char s (at_byte + del) = Inr (Some n)"
    "leaf_text u i = Inr (take m s @ ins @ drop n s)" "leaf_good u i" "\<forall>j. j \<noteq> i \<longrightarrow> node_at u j = node_at t j"
    by blast
  have "list_all code_point s" using e(4) by (auto simp: byte_to_char_widths split: if_splits)
  then show ?thesis using e byte_to_char_exact [of s] by blast
qed

theorem edit_leaf_splices_witness:
  "leaf_text (run_act demo_leaf (Act_edit (TreeOpId 1 1) 1 1 [120])) (TreeOpId 1 1) = Inr [97, 120]"
proof -
  have "node_at demo_leaf (TreeOpId 1 1) = Some (new_node (TreeOpId 1 1) tree_root (SortKey [128] 1) (TreeOpId 1 1)
      (LeafBody Token (text_seed 1 [97, 98])) (TreeOpId 1 1))" by code_simp
  then have g: "leaf_good demo_leaf (TreeOpId 1 1)" using text_seed_good by (auto simp: leaf_good_def new_node_def)
  have "case edit_leaf demo_leaf (TreeOpId 1 1) 1 1 [120] of Inl _ \<Rightarrow> False | Inr _ \<Rightarrow> True" by code_simp
  then obtain u where u: "edit_leaf demo_leaf (TreeOpId 1 1) 1 1 [120] = Inr u" using sum_right by fastforce
  have "leaf_text demo_leaf (TreeOpId 1 1) = Inr [97, 98]" by code_simp
  with edit_leaf_splices [OF g u] obtain m n where e: "m \<le> n" "n \<le> 2" "1 = int (byte_len (take m [97, 98]))"
    "2 = int (byte_len (take n [97, 98]))" "leaf_text u (TreeOpId 1 1) = Inr (take m [97, 98] @ [120] @ drop n [97, 98])"
    by auto
  have "m = 1" "n = 2" using e(1-4) by (auto simp: utf8_width_def le_Suc_eq numeral_2_eq_2)
  then show ?thesis using e(5) by (simp add: run_act_def u)
qed

text \<open>
  The new key is strictly between the keys of its neighbours, above its only neighbour or below
  it, and is again a key of that form.
\<close>

theorem key_between_strictly:
  assumes "frac_ok l" and "frac_ok h" and "l < h"
  shows "l < key_between (Some l) (Some h) \<and> key_between (Some l) (Some h) < h \<and> frac_ok (key_between (Some l) (Some h)) \<and>
    l < key_between (Some l) None \<and> key_between None (Some h) < h"
  using key_between_strict [of "Some l" "Some h"] key_between_strict [of "Some l" None] key_between_strict [of None "Some h"] assms
  by simp

section \<open>Wire form\<close>

text \<open>C20: an update comes back from its wire form as it was, and a frontier as one that contains the same
  dots, whatever it observed.
\<close>

theorem tree_wire_roundtrip:
  assumes "\<forall>x\<in>set ops. kind_ok (op_kind x)"
  shows "tree_update_from_wire (tree_update_to_wire ops) = Inr ops \<and>
    (\<exists>f. frontier_from_wire (frontier_to_wire (foldl frontier_observe [] is)) = Inr f \<and>
      frontier_contains f = frontier_contains (foldl frontier_observe [] is))"
proof -
  have "frontier_ok f \<longrightarrow> frontier_ok (foldl frontier_observe f is)" for f
    by (induction "is" arbitrary: f) (auto intro: frontier_ok_observe)
  from this [of "[]"] have "frontier_ok (foldl frontier_observe [] is)" by (simp add: frontier_ok_def)
  from frontier_roundtrip [OF this] show ?thesis
    using update_roundtrip [OF assms] by (auto intro!: ext simp: frontier_sorted_contains)
qed

theorem tree_wire_roundtrip_witness:
  "tree_update_from_wire (tree_update_to_wire (tr_log (demo_net 1))) = Inr (tr_log (demo_net 1))"
  using tree_wire_roundtrip [of "tr_log (demo_net 1)"] by (simp add: demo_log kind_ok_def)

section \<open>Where the promise fails\<close>

text \<open>
  A split-off leaf has the root's id as its head. An edit of it waits for the root's dot, which
  is in no frontier of a network without peer 0: the other replica keeps the edit pending, though
  it holds the leaf and every operation before the edit.
\<close>

definition split_edit :: tree_crdt where
  "split_edit = run_act demo_split (Act_edit (TreeOpId 2 1) 1 0 [120])"

lemma split_off_edit_stuck:
  "render split_edit = [97, 98, 120] \<and>
   render (apply_update (tree_new 2) (tree_diff split_edit [])) = [97, 98] \<and>
   map op_at (tr_log (apply_update (tree_new 2) (tree_diff split_edit []))) = [TreeOpId 1 1, TreeOpId 2 1] \<and>
   map op_at (tr_buffered (apply_update (tree_new 2) (tree_diff split_edit []))) = [TreeOpId 3 1]"
  by (intro conjI; code_simp)

text \<open>
  Concurrently, one replica appends to a leaf and the other splits it. After the exchange both
  hold the same operations, but one has lost the appended text: the split seeds the leaf anew and
  the edit names characters that are no longer there.
\<close>

definition other_leaf :: tree_crdt where
  "other_leaf = apply_update (tree_new 2) (tree_diff demo_leaf [])"

definition edited_here :: tree_crdt where
  "edited_here = run_act demo_leaf (Act_edit (TreeOpId 1 1) 2 0 [120])"

definition split_there :: tree_crdt where
  "split_there = run_act other_leaf (Act_split (TreeOpId 1 1) 1)"

lemma edit_and_split_diverge:
  "render (apply_update edited_here (tree_diff split_there (tr_frontier edited_here))) = [97, 98, 120] \<and>
   render (apply_update split_there (tree_diff edited_here (tr_frontier split_there))) = [97, 98] \<and>
   map op_at (tr_log (apply_update edited_here (tree_diff split_there (tr_frontier edited_here)))) =
     [TreeOpId 1 1, TreeOpId 2 1, TreeOpId 2 2] \<and>
   map op_at (tr_log (apply_update split_there (tree_diff edited_here (tr_frontier split_there)))) =
     [TreeOpId 1 1, TreeOpId 2 2, TreeOpId 2 1]"
  by (intro conjI; code_simp)

text \<open>
  Two replicas that insert at one place at the same time make equal fractions. The key between
  them is above both, so that a leaf inserted after the first lands after the second.
\<close>

definition two_firsts :: tree_crdt where
  "two_firsts = apply_update demo_leaf (tree_diff (run_act (tree_new 2) (Act_create tree_root None (SeedLeaf Token [99]))) [])"

lemma insert_between_equal_keys:
  "live_children two_firsts tree_root = [TreeOpId 1 1, TreeOpId 1 2] \<and>
   live_children (run_act two_firsts (Act_create tree_root (Some (TreeOpId 1 1)) (SeedLeaf Token [120]))) tree_root =
     [TreeOpId 1 1, TreeOpId 1 2, TreeOpId 2 1]"
  by (intro conjI; code_simp)

end
