(* ===== verification/Findings.thy ===== *)
theory Findings
  imports KernelRefine Spill Topic Registers Resilience StateChart SyncDriver SeqCrdt Collections
begin

text \<open>
  Behaviours of the code that differ from what its documentation or its other code promises,
  each as an evaluation of the model on a small concrete run.
\<close>

section \<open>The kernel\<close>

text \<open>
  \<^verbatim>\<open>batch\<close> (\<^verbatim>\<open>batch.py\<close>): the depth is decremented after the flush, so an effect that raises
  while the batch closes leaves the depth at one. A later write outside any batch is then
  queued for ever: here slot 3 keeps \<open>True\<close> while its source holds \<open>False\<close>.
\<close>

definition raising_batch :: "bool gop list" where
  "raising_batch = [New_source False, New_source False,
     New_effect (Read 0 (\<lambda>a. if a then Read 1 Ret else Ret a)) False, New_slot (Read 0 Ret),
     Start 2, Dispose 1, Enter, Write 0 True, Exit, Pull 3, Write 0 False]"

lemma batch_depth_stuck:
  "g_depth (grun raising_batch empty_graph) = 1 \<and>
   value_of (grun raising_batch empty_graph) 0 = Some False \<and>
   fst (gstep (Pull 3) (grun raising_batch empty_graph)) = Some (Val True)"
  by (simp add: raising_batch_def kernel_eval)

text \<open>
  Outside a batch the wave reruns an effect when it reaches it, before a sibling branch is
  invalidated: the effect over slots 1 and 2, both copies of source 0, first sees them differ.
\<close>

definition diamond :: "bool gop list" where
  "diamond = [New_source False, New_slot (Read 0 Ret), New_slot (Read 0 Ret),
     New_effect (Read 1 (\<lambda>a. Read 2 (\<lambda>b. Ret (a = b)))) False, Start 3, Write 0 True]"

lemma inline_effect_glitch:
  "g_log (grun diamond empty_graph) = [Ran 3 True, Ran 3 False, Ran 3 True]"
  by (simp add: diamond_def kernel_eval)

text \<open>
  \<^verbatim>\<open>_dirty_disposed_dependents\<close> (\<^verbatim>\<open>slot.py\<close>) says that the effects it reaches "stay subscribed and
  error on their next real rerun"; the walk drops the edges it follows, so an effect behind a
  slot over the disposed node is never rerun again, although its other source changes.
\<close>

definition orphaned_effect :: "bool gop list" where
  "orphaned_effect = [New_source False, New_source False, New_slot (Read 0 (\<lambda>a. Read 1 (\<lambda>b. Ret (a = b)))),
     New_effect (Read 2 Ret) False, Start 3, Dispose 1, Write 0 True]"

lemma disposal_drops_effect:
  "g_log (grun orphaned_effect empty_graph) = [Ran 3 True] \<and>
   \<not> disposed (grun orphaned_effect empty_graph) 3"
  by (simp add: orphaned_effect_def kernel_eval)

text \<open>
  A recompute forgets the slot's dependency list without removing the reverse edges, so a
  source that the slot no longer reads still counts it as a dependent, even once it is disposed.
\<close>

definition stale_edge :: "bool gop list" where
  "stale_edge = [New_source True, New_source False, New_slot (Read 0 (\<lambda>a. if a then Read 1 Ret else Ret a)),
     Pull 2, Write 0 False, Pull 2, Dispose 2]"

lemma stale_reverse_edge: "dependent_count (grun stale_edge empty_graph) 1 = 1"
  by (simp add: stale_edge_def kernel_eval dependent_count_def)

section \<open>Relay and queues\<close>

text \<open>
  \<^verbatim>\<open>SpillStore.spill\<close> (\<^verbatim>\<open>relay.py\<close>): the compacting mode merges a window into the last page even
  when that page has been acknowledged, so the window is neither pending nor acknowledged.
\<close>

lemma compacting_spill_loses:
  "pending_pages (spill (ack_through (spill (spill_new CompactOnWrite 2 Sum_policy) 1 1) 0) (2::int) 1) = []"
  by (simp add: spill_new_def spill_def push_page_def ack_through.simps pending_pages_def)

text \<open>
  \<^verbatim>\<open>TopicCell\<close> (\<^verbatim>\<open>queue.py\<close>): collection ignores ephemeral cursors, and a connected subscriber
  left behind the base reads from the end of the list (Python's negative index): 6, 7, 8 where
  the log retains 4 to 8.
\<close>

definition lagging_topic :: "(nat, nat) topic_op list" where
  "lagging_topic = TSubscribe 0 Ephemeral # map TPublish [1, 2, 3] @ [TGc] @ map TPublish [4, 5, 6, 7, 8]"

lemma lagging_ephemeral_read:
  "topic_read_untracked (fst (foldl topic_step (topic_empty, []) lagging_topic)) 0 = [6, 7, 8] \<and>
   tp_elements (fst (foldl topic_step (topic_empty, []) lagging_topic)) = [4, 5, 6, 7, 8]"
  by code_simp

section \<open>Registers and resilience\<close>

text \<open>
  \<^verbatim>\<open>MvRegister.write\<close> (\<^verbatim>\<open>crdt_registers.py\<close>) replaces the observed stamps by those of the current
  entries, so the writes overwritten before are forgotten: a replica that still holds the
  first of three sequential writes keeps it as a concurrent value.
\<close>

definition seq_writes :: "nat \<Rightarrow> nat mv_register" where
  "seq_writes n = foldl (\<lambda>r i. fst (mv_write r i (WireStamp (int i) 0 0))) mv_new [1..<Suc n]"

lemma mv_overwritten_resurrects:
  "mv_values (fst (mv_merge (fst (mv_merge mv_new (seq_writes 1))) (seq_writes 3))) = [1, 3]"
  by code_simp

text \<open>\<^verbatim>\<open>RetryPolicyCore.delay\<close> (\<^verbatim>\<open>resilience.py\<close>) is documented as saturating; it wraps at 64 bits.\<close>

lemma retry_delay_wraps: "retry_delay (retry_core_new 2 1000) 63 = Inr 0"
  by (simp add: retry_delay_def retry_core_new_def u64_mask_def Let_def)

text \<open>\<^verbatim>\<open>HALF_OPEN\<close> is documented to allow a single probe; every request passes.\<close>

lemma half_open_unlimited:
  "bk_state c = HALF_OPEN \<Longrightarrow> breaker_allow c now = (c, True)"
  by (simp add: breaker_allow_def)

section \<open>State charts\<close>

text \<open>
  A self transition of a leaf in one region, taken with a transition that leaves the parallel
  state from another region, keeps the leaf active although its region is exited.
\<close>

definition plain :: "nat option \<Rightarrow> state_kind \<Rightarrow> nat option \<Rightarrow> nat option \<Rightarrow> nat state_def" where
  "plain p k i target = \<lparr>sd_parent = p, sd_kind = k, sd_history = None, sd_initial = i, sd_default = None,
     sd_transitions = (case target of None \<Rightarrow> Map.empty
       | Some t \<Rightarrow> [''e'' \<mapsto> \<lparr>tr_target = t, tr_guard = None, tr_action = [], tr_internal = False\<rparr>]),
     sd_entry = [''in''], sd_exit = [''out'']\<rparr>"

definition two_regions :: "nat option \<Rightarrow> nat chart_def" where
  "two_regions other = \<lparr>ch_states =
      [(0, plain None Compound (Some 1) None), (1, plain (Some 0) Parallel None None),
       (2, plain (Some 1) Compound (Some 4) None), (3, plain (Some 1) Compound (Some 5) None),
       (4, plain (Some 2) Atomic None (Some 4)), (5, plain (Some 3) Atomic None other),
       (6, plain (Some 0) Atomic None None)],
     ch_root = 0, ch_depth = [(0, 0), (1, 1), (2, 2), (3, 2), (4, 3), (5, 3), (6, 1)]\<rparr>"

lemma orphan_leaf:
  "configuration (fst (chart_send (chart_start (two_regions (Some 6))) ''e'' Map.empty)) = [0, 4, 6]"
  by code_simp

text \<open>An external self transition of a leaf runs its entry actions but not its exit actions.\<close>

lemma self_transition_no_exit:
  "st_last_actions (fst (chart_send (chart_start (two_regions None)) ''e'' Map.empty)) = [''in'']"
  by code_simp

section \<open>Reliable sync\<close>

text \<open>
  A replay whose send fails is to finish after the next reconnect, but the next pass replays
  without one, into the sink known to be down; and a send that then succeeds leaves the driver
  stalled, so what is staged stays there.
\<close>

definition stalled_replay :: "((int, int, unit) ipc_message memory_store, (int, int, unit) ipc_message) sync_driver" where
  "stalled_replay =
     (let m = of_delta \<lparr>sd_base_epoch = 0, sd_epoch = 1, sd_ops = 5\<rparr>;
          up = (\<lambda>bs. \<lparr>io_up = bs, io_sent = [], io_in = []\<rparr>);
          d0 = driver_enqueue (driver_new (outbox_open memory_ops memory_new) 0) 1 m;
          d1 = fst (driver_tick memory_ops Some Some of_resync_request 10 d0 (up []));
          d2 = fst (driver_tick memory_ops Some Some of_resync_request 20 (driver_on_reconnect d1) (up [False]))
      in driver_enqueue d2 2 m)"

lemma replay_without_reconnect:
  "case driver_tick memory_ops Some Some of_resync_request 30 stalled_replay \<lparr>io_up = [], io_sent = [], io_in = []\<rparr> of
     (d, io, r) \<Rightarrow> length (io_sent io) = 1 \<and> driver_is_stalled d \<and> length (dr_pending d) = 1"
  by code_simp

section \<open>Sequence positions\<close>

text \<open>
  Past its end \<^verbatim>\<open>lo\<close> is compared as zeros, but the key that \<^verbatim>\<open>_frac_between\<close> returns is not padded
  with them, so it need not lie below \<^verbatim>\<open>hi\<close>: the ninth element inserted at the front comes last.
\<close>

definition fronts :: "(nat, unit) seq_crdt" where
  "fronts = foldl (\<lambda>q n. insert_front q n () 1) (seq_new 1) [1, 2, 3, 4, 5, 6, 7, 8, 9]"

lemma front_insert_not_first:
  "frac_between [] [1] = [128] \<and> seq_order fronts = [8, 7, 6, 5, 4, 3, 2, 1, 9]"
  by code_simp

lemma between_not_below: "frac_between [1] [1, 1] = [1, 128]"
  by code_simp

section \<open>Trees\<close>

text \<open>
  A child moved to index \<open>-1\<close> of a tree lands before the last child; the keyed order clamps the same
  index to the front and documents the other behaviour as a defect.
\<close>

definition three_children :: "(nat, nat) source_tree" where
  "three_children = foldl (\<lambda>t n. tree_insert_child t 0 n 0) (tree_add Map.empty 0 0) [1, 2, 3]"

lemma tree_negative_index:
  "tree_children_of (tree_move_child three_children 0 1 (- 1)) 0 = [2, 1, 3] \<and>
   ko_order (fst (ko_move_to \<lparr>ko_entries = [(1, ()), (2, ()), (3, ())], ko_order = [1, 2, 3 :: nat]\<rparr> 3 (- 1))) = [3, 1, 2]"
  by code_simp

end
