(* ===== verification/Spec2Isabelle.thy ===== *)
theory Spec2Isabelle
  imports Pipeline KernelTheorems FlowTheorems QueueTheorems TimeTheorems RegisterTheorems
    ChartTheorems TextTheorems SyncTheorems SeqTheorems MsgpackTheorems CollectionTheorems
    LiveTheorems IngressTheorems TreeTheorems Findings
begin

text \<open>
  A model of lazily-py, a reactive library (\<^verbatim>\<open>src/lazily\<close>): a kernel of sources, cached slots and
  effects, and components built over its cells.

  The program's parts and the theories. A component's theory holds its state and operations, then, in a
  chapter of its own or in the theory named \<^verbatim>\<open>...Props\<close>, its invariants, contracts and helper lemmas; the
  \<^verbatim>\<open>...Theorems\<close> hold the properties.

  \<^item> Prelude: generic lemmas on folds, lists, dictionaries and division; nothing of the program.
  \<^item> Cells (\<^verbatim>\<open>cell.py\<close>): \<^verbatim>\<open>Source\<close> as the upper components see it, a value behind the \<^verbatim>\<open>!=\<close> guard, with the
    number of its change notifications.
  \<^item> Kernel (\<^verbatim>\<open>cell.py\<close>, \<^verbatim>\<open>slot.py\<close>, \<^verbatim>\<open>effect.py\<close>, \<^verbatim>\<open>compute.py\<close>, \<^verbatim>\<open>batch.py\<close>, \<^verbatim>\<open>teardown.py\<close>): the heap of nodes
    with its two edge relations, the cached read, the invalidation wave of \<^verbatim>\<open>_drain_resets\<close>, effects,
    batches, disposal and teardown scopes. A body is a read-only decision tree over reads of earlier
    nodes (\<^verbatim>\<open>comp\<close>), so a graph is acyclic by construction; bodies that write are outside the model. A set
    of nodes is a list without repetition, in insertion order. KernelInv, KernelSteps and KernelWave
    prove the coherence invariant of one step and of the wave, KernelOps and KernelRuns that every call
    keeps it, KernelSem that an undisturbed cache equals recomputation, KernelRefine that every call
    refines the step of the abstract sheet, which has no cache, edges or work stack.
  \<^item> Merge (\<^verbatim>\<open>merge.py\<close>): the policies and the merge cell; the locales \<^verbatim>\<open>merge_law\<close> and
    \<^verbatim>\<open>semilattice_law\<close> are the algebra the relay, the spill store and the windows rely on.
  \<^item> Relay, Spill, RelayStages, RelayPolicies, KeyedRelays (\<^verbatim>\<open>relay.py\<close>): the conflating relay with its
    overflow policies, the paged spill store, transports with sender and receiver, the egress policies
    and one relay per key. Pipeline puts relay, spill store, transport and merge cell together.
  \<^item> Queue, Topic (\<^verbatim>\<open>queue.py\<close>) and WorkQueue (\<^verbatim>\<open>work_queue.py\<close>): the queue cell over a storage
    interface with four memo readers, refined to a plain FIFO queue in QueueSpec; the broadcast log with
    durable and ephemeral cursors, followed with the history of everything published; competing
    consumers with leases and dead letters.
  \<^item> Temporal (\<^verbatim>\<open>temporal.py\<close>), RateShape (\<^verbatim>\<open>rateshape.py\<close>), Windowing (\<^verbatim>\<open>windowing.py\<close>), Coordination
    (\<^verbatim>\<open>coordination.py\<close>) and Resilience (\<^verbatim>\<open>resilience.py\<close>): cores driven by a logical clock and the cells
    that project them. The locales \<^verbatim>\<open>timeline_source\<close>, \<^verbatim>\<open>projected_source\<close>, \<^verbatim>\<open>shaper\<close>, \<^verbatim>\<open>partition_window\<close> and
    \<^verbatim>\<open>lease_front\<close> state their contracts and are interpreted on each core.
  \<^item> StateChart (\<^verbatim>\<open>statechart.py\<close>): charts from their parsed states on, with tree queries, entry, exit,
    history and \<^verbatim>\<open>send\<close>.
  \<^item> Registers (\<^verbatim>\<open>crdt_registers.py\<close>, the stamp of \<^verbatim>\<open>ipc.py\<close>): last-write-wins and multi-value register,
    counter, CRDT cell; the locale \<^verbatim>\<open>join_crdt\<close> is the contract of a state-based CRDT.
  \<^item> TextCrdt (\<^verbatim>\<open>textcrdt.py\<close>): the replicated character sequence. Its properties
    show that the traversal is a depth-first walk of the tree of origins and the invariant of a replica, TextEdit that edits
    act as on a list, TextSync and TextNet that version vectors summarise what a replica has seen in every
    state a network of replicas reaches.
  \<^item> SeqCrdt (\<^verbatim>\<open>seqcrdt.py\<close>): elements with three last-write-wins registers under a hybrid logical
    clock, and fractional positions. Its properties interpret \<^verbatim>\<open>join_crdt\<close> for replicas, SeqNet follows a
    network of peers.
  \<^item> TreeCrdt, TreeWire (\<^verbatim>\<open>lossless_tree_crdt.py\<close>): the tree whose leaves are text replicas, its operations
    with a dotted frontier and a buffer for those that come early, and the JSON form. TreeOrder holds the
    frontier, the fractional keys and the byte offsets, TreeNet and TreeSync the invariants over every
    network of replicas that act, fork and exchange, TreeRender and TreeEdit the order of the children and
    the rendered text.
  \<^item> ReliableSync, SyncDriver (\<^verbatim>\<open>reliable_sync.py\<close>, the message kinds of \<^verbatim>\<open>ipc.py\<close>): the outbox over a
    store, the coordinator of the receiving side, the observed-remove set and register of the wire, and
    one pass of the driver. The locale \<^verbatim>\<open>outbox_laws\<close> is the store's contract, interpreted on the memory and
    the SQLite store; \<^verbatim>\<open>sync_reach\<close> is the relation of the states a driver reaches. The sink is a list of
    the outcomes of its next sends, working once the list is used up.
  \<^item> Msgpack (\<^verbatim>\<open>msgpack_codec.py\<close>): the frame codec over bytes, with UTF-8 and the big-endian integers of
    the standard library in MsgpackStd. The locale \<^verbatim>\<open>frame_reader\<close> is the contract of the recursive decoder.
  \<^item> KeyedOrder (\<^verbatim>\<open>_keyed_order.py\<close>), Collections (\<^verbatim>\<open>collection.py\<close>, \<^verbatim>\<open>tree.py\<close>), KeyedFold (\<^verbatim>\<open>keyed_fold.py\<close>):
    the key order with its moves, the keyed map of cells with its membership and order signals, the ordered
    tree, and the fold with one owner per key. Reconciliation (\<^verbatim>\<open>reconciliation.py\<close>): the diff of two
    levels; its properties show that the patience scan finds a longest increasing subsequence, and
    ReconcileRun what the operations do to a keyed order.
  \<^item> Service (\<^verbatim>\<open>service.py\<close>), Presence (\<^verbatim>\<open>presence.py\<close>), Membership (\<^verbatim>\<open>membership.py\<close>): cores with a cell that
    is assigned the recomputed view after every call. Projection holds that contract as the locales
    \<^verbatim>\<open>projecting\<close> and \<^verbatim>\<open>steady_projecting\<close>, interpreted on each cell, and the lemma \<open>last_writer\<close> on facts some calls
    establish and others displace. The phi level is computed over the reals, the state machine is proved
    for every level function.
  \<^item> Ingress (\<^verbatim>\<open>ingress_core.py\<close>), IngressShell (\<^verbatim>\<open>ingress.py\<close>): keyed scopes that admit envelopes behind a
    generation fence, and the shell whose memoized readers are cleared by the reported invalidation set.
    IngressProps shows that the set covers every reader that moved, IngressDelivery follows one key through
    a run; the end of IngressTheorems holds the calls outside the covered ones.
  \<^item> Findings: concrete runs in which the code differs from its documentation or from its other code.

  How code is represented. Python integers are \<^verbatim>\<open>int\<close>, 64-bit arithmetic (SplitMix64) is \<^verbatim>\<open>64 word\<close>, and the
  mask of the retry delay is written out. A dictionary is an association list in insertion order where
  the order or the iteration matters and a map otherwise; a raised exception is the left side of a sum.
  Python's negative list index is modelled where the code can reach it.

  Fuel. A read recurses to earlier nodes only, so the size of the graph is enough; the wave and the
  disposal walk carry the weight of their work stack, the sum of \<open>2 ^ (size - n)\<close> over its nodes, which
  each step lowers; \<open>kernel_calls_return\<close> proves that no call runs out. The walks over a chart's parents and the descent
  into initial states carry the number of states, enough because the depth of a state in a well-formed
  chart is below it. The traversal of a text replica carries the number of its
  elements and the frame decoder the number of bytes, each enough for every input (\<open>msgpack_frames_typed\<close> for
  the decoder). The loops of the spill store and of the time window have termination proofs.

  Not modelled. The naming of slots in a context dictionary and the staleness guard of the fortified
  compute view; the parser of charts; the timeline registry; the asynchronous and the lock-protected
  flavours, which rest on asyncio and on threads; the shared-memory arena and generated wire types;
  the CRDT plane, commands, replay, workflows and durable clients, which are
  the plan for the development's next parts in that order; benchmarks, test kits and egress adapters.
\<close>

text \<open>C40: end to end. Whatever the interleaving of ingress, drain and policy changes (short of switching
  to DropOldest), the value reconstructed from the spilled windows and the relay's head, in
  either paging mode, and the value of a merge cell fed by a framed transport carrying those
  windows, are both the fold of the operations the relay admitted.\<close>

theorem relay_pipeline_converges:
  assumes "merge_law mp" and "relay_new pol mp = Inr r" and "live (bp_overflow pol)"
    and "overflow_of pol \<noteq> DropOldest" and "list_all keeps_window xs"
    and "s = relay_steps (relay_start pol r) xs" and "map fst ws = rr_egress s" and "delivered ys = rr_egress s"
  shows "reconstruct (spills (spill_new mode psize mp) ws) s0 (c_value (rl_head (rr_relay s))) =
      fold_ops mp s0 (rr_admitted s) \<and>
    (\<exists>m. mc_merges (merge_cell_new s0 mp)
        (concat (snd (link_run ft_deliver ft_poll (ft_new k) (ys @ replicate (length ys) Poll))) @ head_of s) = Inr m \<and>
      c_value (mc_cell m) = fold_ops mp s0 (rr_admitted s))"
proof -
  have "rl_merge (rr_relay s) = mp" using assms(2) by (auto simp: assms(6) relay_start_def relay_new_def split: if_splits)
  then have conv: "fold_ops mp s0 (rr_egress s @ head_of s) = fold_ops mp s0 (rr_admitted s)"
    using relay_run_converges [OF assms(1-5), of s0] converged_head [of s mp s0] by (simp add: assms(6))
  have "reconstruct (spills (spill_new mode psize mp) ws) s0 (c_value (rl_head (rr_relay s))) =
      fold_ops mp s0 (rr_admitted s)"
    unfolding reconstruct_spilled [OF assms(1,7)] using conv by (simp only: head_of_def)
  moreover have "\<exists>m. mc_merges (merge_cell_new s0 mp)
        (concat (snd (link_run ft_deliver ft_poll (ft_new k) (ys @ replicate (length ys) Poll))) @ head_of s) = Inr m \<and>
      c_value (mc_cell m) = fold_ops mp s0 (rr_admitted s)"
    using downstream_merged [of s0 mp k ys "head_of s"] conv by (simp only: assms(8))
  ultimately show ?thesis by blast
qed

theorem relay_pipeline_converges_witness:
  "reconstruct (spills (spill_new CompactOnWrite 2 Sum_policy)
      (map (\<lambda>w. (w, 8)) (rr_egress (relay_steps (relay_start demo_policy demo_relay) demo_ingress)))) 0
      (c_value (rl_head (rr_relay (relay_steps (relay_start demo_policy demo_relay) demo_ingress)))) =
    fold_ops Sum_policy 0 (rr_admitted (relay_steps (relay_start demo_policy demo_relay) demo_ingress))"
proof -
  have d: "delivered (map Deliver xs) = xs" for xs :: "int list" by (induction xs) auto
  show ?thesis
    by (rule conjunct1 [OF relay_pipeline_converges [OF sum_law.merge_law_axioms demo_relay_new _ _ _ refl _ d]])
       (simp_all add: demo_policy_def bp_new_def demo_ingress_def keeps_window_def comp_def)
qed

end
